(* ===== verification/Prelude.thy ===== *)
theory Prelude
  imports Main "HOL-Library.Word"
begin

text \<open>
  Shared vocabulary: machine integer types of C and the C operators on them.
\<close>

unbundle bit_operations_syntax

named_theorems c_ops \<open>definitions of the C operators on machine words\<close>

datatype c_fault = OutOfBounds | AssertFailed | ExitCalled | NoTermination | IntOverflow | Uninitialised

type_synonym 'a exec = "c_fault + 'a"

type_synonym int32 = "32 word"
type_synonym uint32 = "32 word"
type_synonym uint64 = "64 word"

abbreviation shl :: "'a::len word \<Rightarrow> nat \<Rightarrow> 'a word" where
  "shl x n \<equiv> push_bit n x"

abbreviation shr :: "'a::len word \<Rightarrow> nat \<Rightarrow> 'a word" where
  "shr x n \<equiv> drop_bit n x"

abbreviation sar :: "'a::len word \<Rightarrow> nat \<Rightarrow> 'a word" where
  "sar x n \<equiv> signed_drop_bit n x"

definition lnot :: "'a::len word \<Rightarrow> 'a word" where
  [c_ops]: "lnot x = of_bool (x = 0)"

lemma lnot_simps [simp]: "lnot 0 = 1" "x \<noteq> 0 \<Longrightarrow> lnot x = 0"
  by (simp_all add: lnot_def)

lemma lnot_lnot: "lnot (lnot x) = of_bool (x \<noteq> 0)"
  by (simp add: lnot_def)

lemma word_bit_iff: "x = y \<longleftrightarrow> (\<forall>n < LENGTH('a). bit x n = bit y n)" for x y :: "'a::len word"
  by (auto intro: bit_word_eqI)

lemma word_xor_eq_0: "x XOR y = 0 \<longleftrightarrow> x = (y :: 'a::len word)"
  by (metis xor.assoc xor.left_neutral xor_self_eq)

lemma word_sint_eq: "x = y \<longleftrightarrow> sint x = sint y" for x y :: "'a::len word"
  by (auto intro: signed_word_eqI)

subsection \<open>Signed readings of 32-bit words\<close>

lemma int32_range: "- 2147483648 \<le> sint (x :: int32)" "sint (x :: int32) \<le> 2147483647"
  using sint_ge [of x] sint_less [of x] by simp_all

lemma sint_of_int32: "- 2147483648 \<le> v \<Longrightarrow> v \<le> 2147483647 \<Longrightarrow> sint (of_int v :: int32) = v"
  by (simp add: signed_of_int signed_take_bit_int_eq_self)

lemma sint_of_int64:
  "- 9223372036854775808 \<le> v \<Longrightarrow> v < 9223372036854775808 \<Longrightarrow> sint (of_int v :: 64 word) = v"
  by (simp add: signed_of_int signed_take_bit_int_eq_self)

lemma sint_eq_of_int32:
  "x = of_int v \<Longrightarrow> - 2147483648 \<le> v \<Longrightarrow> v \<le> 2147483647 \<Longrightarrow> sint (x :: int32) = v"
  by (simp add: sint_of_int32)

lemma sint_add32:
  assumes "- 2147483648 \<le> sint x + sint y" "sint x + sint y \<le> 2147483647"
  shows "sint (x + y :: int32) = sint x + sint y"
  by (rule sint_eq_of_int32) (use assms in simp_all)

lemma sint_diff32:
  assumes "- 2147483648 \<le> sint x - sint y" "sint x - sint y \<le> 2147483647"
  shows "sint (x - y :: int32) = sint x - sint y"
  by (rule sint_eq_of_int32) (use assms in simp_all)

lemma sint_minus32:
  assumes "sint x \<noteq> - 2147483648"
  shows "sint (- x :: int32) = - sint x"
  by (rule sint_eq_of_int32) (use assms int32_range [of x] in simp_all)

lemma sint_sar: "sint (sar x n) = sint x div 2 ^ n"
  by (simp add: sint_signed_drop_bit_eq drop_bit_eq_div)

lemma sar31: "sar (x :: int32) 31 = (if sint x < 0 then - 1 else 0)"
  using int32_range [of x] by (auto simp: word_sint_eq sint_sar)

lemma bit31: "bit (x :: int32) 31 \<longleftrightarrow> sint x < 0"
  using bit_last_iff [of x] by simp

lemma sint_and_mask32:
  assumes "n \<le> 31"
  shows "sint (x AND mask n :: int32) = sint x mod 2 ^ n"
proof (rule sint_eq_of_int32)
  have "x AND mask n = take_bit n (of_int (sint x) :: int32)"
    by (simp add: take_bit_eq_mask)
  also have "\<dots> = of_int (take_bit n (sint x))" by (simp only: take_bit_of_int)
  finally show "x AND mask n = of_int (sint x mod 2 ^ n)" by (simp add: take_bit_eq_mod)
  have "(2 :: int) ^ n \<le> 2 ^ 31" using assms by (rule power_increasing) simp
  then have "sint x mod 2 ^ n < 2 ^ 31" by (rule less_le_trans [OF pos_mod_bound, rotated]) simp
  moreover have "0 \<le> sint x mod 2 ^ n" by simp
  ultimately show "- 2147483648 \<le> sint x mod 2 ^ n" "sint x mod 2 ^ n \<le> 2147483647"
    by (simp_all del: Euclidean_Rings.pos_mod_sign add: order_trans [of "- 2147483648" 0])
qed

lemma sint_nonneg32: "unat (x :: int32) < 2147483648 \<Longrightarrow> sint x = int (unat x)"
proof (rule sint_eq_of_int32)
  assume "unat x < 2147483648"
  then have "int (unat x) < int 2147483648" by (simp only: of_nat_less_iff)
  then show "int (unat x) \<le> 2147483647" by (simp del: of_nat_unat)
  have "0 \<le> int (unat x)" by (rule of_nat_0_le_iff)
  then show "- 2147483648 \<le> int (unat x)" by linarith
qed simp

lemma unat_of_nat_less: "n < 2 ^ LENGTH('a) \<Longrightarrow> unat (of_nat n :: 'a::len word) = n"
  by (simp add: unat_of_nat)

lemma word_eq_of_unat: "unat x = n \<Longrightarrow> x = of_nat n" for x :: "'a::len word"
  by auto

lemma unat32_less: "unat (x :: 32 word) < 4294967296"
  using unsigned_less [of x] by simp

lemma unat_of_sint_nonneg: "0 \<le> sint (x :: int32) \<Longrightarrow> unat x = nat (sint x)"
proof -
  assume a: "0 \<le> sint x"
  have "x = of_int (sint x)" by simp
  also have "\<dots> = of_nat (nat (sint x))" using a by simp
  finally have "unat x = unat (of_nat (nat (sint x)) :: int32)" by (rule arg_cong)
  also have "\<dots> = nat (sint x)" using int32_range [of x] by (intro unat_of_nat_less) auto
  finally show ?thesis .
qed

subsection \<open>Unsigned readings of shifts and masks\<close>

lemma unat_shr: "unat (shr x n) = unat x div 2 ^ n" for x :: "'a::len word"
  unfolding unat_drop_bit_eq by (rule drop_bit_eq_div)

lemma unat_and_mask: "unat (x AND mask n) = unat x mod 2 ^ n" for x :: "'a::len word"
  unfolding take_bit_eq_mask [symmetric] unsigned_take_bit_eq by (rule take_bit_eq_mod)

lemma unat_shl:
  "unat x * 2 ^ n < 2 ^ LENGTH('a) \<Longrightarrow> unat (shl x n) = unat x * 2 ^ n" for x :: "'a::len word"
  unfolding unsigned_push_bit_eq push_bit_eq_mult [of n "unat x"] by (rule take_bit_nat_eq_self)

lemma nat_or_push_bit:
  assumes "a < 2 ^ n"
  shows "a OR push_bit n b = a + push_bit n (b :: nat)"
proof (rule disjunctive_add_eq_or [symmetric])
  have "take_bit n a = a" using assms by (rule take_bit_nat_eq_self)
  then have "bit a m \<Longrightarrow> m < n" for m by (metis bit_take_bit_iff)
  then show "a AND push_bit n b = 0" by (intro bit_eqI) (fastforce simp: bit_simps)
qed

lemma unat_or_shl:
  fixes x y :: "'a::len word"
  assumes "unat x < 2 ^ n" "unat y * 2 ^ n < 2 ^ LENGTH('a)"
  shows "unat (x OR shl y n) = unat x + unat y * 2 ^ n"
proof -
  have "unat (x OR shl y n) = unat x OR push_bit n (unat y)"
    using assms(2) by (simp only: unsigned_or_eq unat_shl push_bit_eq_mult [of n "unat y"])
  then show ?thesis
    using nat_or_push_bit [OF assms(1), of "unat y"] by (simp only: push_bit_eq_mult [of n "unat y"])
qed

lemma unat_sar_nonneg:
  assumes "unat (x :: int32) < 2147483648"
  shows "unat (sar x n) = unat x div 2 ^ n"
proof -
  have q: "unat x div 2 ^ n < 2147483648" using assms by (meson div_le_dividend le_less_trans)
  then have "sint (of_nat (unat x div 2 ^ n) :: int32) = int (unat x div 2 ^ n)"
    by (simp add: sint_nonneg32 unat_of_nat)
  then have "sar x n = of_nat (unat x div 2 ^ n)"
    using assms by (simp only: word_sint_eq sint_sar sint_nonneg32 zdiv_int of_nat_power of_nat_numeral)
  then show ?thesis using q by (simp add: unat_of_nat)
qed

section \<open>Executions that may fault\<close>

definition sbind :: "'e + 'a \<Rightarrow> ('a \<Rightarrow> 'e + 'b) \<Rightarrow> 'e + 'b" where
  "sbind m f = (case m of Inl e \<Rightarrow> Inl e | Inr x \<Rightarrow> f x)"

definition rd :: "'a list \<Rightarrow> nat \<Rightarrow> 'a exec" where
  "rd xs i = (if i < length xs then Inr (xs ! i) else Inl OutOfBounds)"

definition wr :: "'a list \<Rightarrow> nat \<Rightarrow> 'a \<Rightarrow> 'a list exec" where
  "wr xs i v = (if i < length xs then Inr (xs[i := v]) else Inl OutOfBounds)"

definition c_assert :: "bool \<Rightarrow> unit exec" where
  "c_assert b = (if b then Inr () else Inl AssertFailed)"

lemma sbind_simps [simp]: "sbind (Inl e) f = Inl e" "sbind (Inr x) f = f x"
  by (simp_all add: sbind_def)

lemma sbind_Inr_iff: "sbind m f = Inr y \<longleftrightarrow> (\<exists>x. m = Inr x \<and> f x = Inr y)"
  by (cases m) simp_all

lemma sbind_assoc: "sbind (sbind x f) g = sbind x (\<lambda>y. sbind (f y) g)"
  by (cases x) simp_all

lemma sbind_done: "sbind m Inr = m"
  by (cases m) simp_all

lemma sbind_cong [fundef_cong]: "m = m' \<Longrightarrow> (\<And>x. m' = Inr x \<Longrightarrow> f x = g x) \<Longrightarrow> sbind m f = sbind m' g"
  by (cases m') simp_all

lemma rd_simp [simp]: "i < length xs \<Longrightarrow> rd xs i = Inr (xs ! i)"
  by (simp add: rd_def)

lemma wr_simp [simp]: "i < length xs \<Longrightarrow> wr xs i v = Inr (xs[i := v])"
  by (simp add: wr_def)

lemma rd_Inr_iff: "rd xs i = Inr v \<longleftrightarrow> i < length xs \<and> v = xs ! i"
  by (auto simp: rd_def)

lemma wr_Inr_iff: "wr xs i v = Inr ys \<longleftrightarrow> i < length xs \<and> ys = xs[i := v]"
  by (auto simp: wr_def)

lemma c_assert_simps [simp]: "c_assert True = Inr ()" "b \<Longrightarrow> c_assert b = Inr ()"
  by (simp_all add: c_assert_def)

end
