(* ===== verification/Bits_Lab.thy ===== *)
theory Bits_Lab
  imports Prelude Complex_Main
begin

text \<open>
  The data lab: the puzzles of \<^verbatim>\<open>labs/01_datalab/datalab-handout/bits.c\<close> and the reference
  functions of \<^verbatim>\<open>tests.c\<close> they are graded against. An \<^verbatim>\<open>int\<close> is a 32-bit word read in two's
  complement, as the coding rules of \<^verbatim>\<open>bits.c\<close> state: additions wrap and \<^verbatim>\<open>>>\<close> on an \<^verbatim>\<open>int\<close>
  is arithmetic. The float puzzles get the value of a bit pattern as a real number for their
  specification, because the reference functions use the machine's own floating point.
\<close>

section \<open>The puzzles of bits.c\<close>

definition bitXor :: "int32 \<Rightarrow> int32 \<Rightarrow> int32" where
  "bitXor x y = NOT (x AND y) AND NOT (NOT x AND NOT y)"

definition tmin :: int32 where
  "tmin = shl 1 31"

definition isTmax :: "int32 \<Rightarrow> int32" where
  "isTmax x = (let y = x + 1 in lnot (x XOR NOT y) AND lnot (lnot y))"

definition allOddBits :: "int32 \<Rightarrow> int32" where
  "allOddBits x =
     (let mask = 0xAA;
          mask = mask OR shl mask 8;
          mask = mask OR shl mask 16;
          isolated = x AND mask
      in lnot (isolated XOR mask))"

definition negate :: "int32 \<Rightarrow> int32" where
  "negate x = NOT x + 1"

definition isAsciiDigit :: "int32 \<Rightarrow> int32" where
  "isAsciiDigit x =
     (let upper_match = lnot (sar x 4 XOR 3);
          lower_bits = x AND 0x0F;
          check_upper = 9 + (NOT lower_bits + 1);
          upper_match_lower = lnot (sar check_upper 31)
      in upper_match AND upper_match_lower)"

definition conditional :: "int32 \<Rightarrow> int32 \<Rightarrow> int32 \<Rightarrow> int32" where
  "conditional x y z =
     (let flag = lnot x;
          mask_z = NOT flag + 1;
          mask_y = NOT mask_z
      in (y AND mask_y) OR (z AND mask_z))"

definition isLessOrEqual :: "int32 \<Rightarrow> int32 \<Rightarrow> int32" where
  "isLessOrEqual x y =
     (let x_sign = sar x 31 AND 1;
          y_sign = sar y 31 AND 1;
          diff_sign_pass = NOT y_sign AND x_sign;
          sub = y + (NOT x + 1);
          sign = sar sub 31 AND 1;
          same_sign = lnot (x_sign XOR y_sign);
          same_sign_pass = same_sign AND lnot sign
      in diff_sign_pass OR same_sign_pass)"

definition logicalNeg :: "int32 \<Rightarrow> int32" where
  "logicalNeg x =
     (let opp_x = NOT x + 1;
          mashed = x OR opp_x;
          sign = sar mashed 31
      in sign + 1)"

definition howManyBits :: "int32 \<Rightarrow> int32" where
  "howManyBits x =
     (let sign = sar x 31;
          x = x XOR sign;
          b16 = lnot (lnot (sar x 16)); step_16 = shl b16 4; x = sar x (unat step_16);
          b8 = lnot (lnot (sar x 8)); step_8 = shl b8 3; x = sar x (unat step_8);
          b4 = lnot (lnot (sar x 4)); step_4 = shl b4 2; x = sar x (unat step_4);
          b2 = lnot (lnot (sar x 2)); step_2 = shl b2 1; x = sar x (unat step_2);
          b = lnot (lnot (sar x 1)); step = shl b 0; x = sar x (unat step)
      in step_16 + step_8 + step_4 + step_2 + step + 1 + x)"

definition floatScale2 :: "uint32 \<Rightarrow> uint32" where
  "floatScale2 uf =
     (let sign = shr uf 31;
          exp = shr uf 23 AND 0xFF;
          frac = uf AND 0x7FFFFF
      in if exp = 255 then uf
         else if exp = 0 then shl sign 31 OR shl frac 1
         else shl sign 31 OR shl (exp + 1) 23 OR frac)"

definition floatFloat2Int :: "uint32 \<Rightarrow> int32" where
  "floatFloat2Int uf =
     (let sign = shr uf 31;
          exp = shr uf 23 AND 0xFF;
          frac = uf AND 0x7FFFFF;
          E = exp - 127;
          mantissa = shl 1 23 OR frac
      in if sint E < 0 then 0
         else if sint E \<ge> 31 then 0x80000000
         else let mantissa = (if sint E > 23 then shl mantissa (unat (E - 23))
                              else sar mantissa (unat (23 - E)))
              in if sign = 1 then NOT mantissa + 1 else mantissa)"

definition floatPower2 :: "int32 \<Rightarrow> uint32" where
  "floatPower2 x =
     (if sint x \<ge> 128 then 0x7F800000
      else if sint x < -149 then 0
      else if sint x \<ge> -126 then shl (x + 127) 23
      else shl 1 (unat (x + 149)))"

section \<open>The reference functions of tests.c\<close>

definition test_bitXor :: "int32 \<Rightarrow> int32 \<Rightarrow> int32" where
  "test_bitXor x y = x XOR y"

definition test_tmin :: int32 where
  "test_tmin = 0x80000000"

definition test_isTmax :: "int32 \<Rightarrow> int32" where
  "test_isTmax x = of_bool (x = 0x7FFFFFFF)"

function test_allOddBits_loop :: "int32 \<Rightarrow> nat \<Rightarrow> int32" where
  "test_allOddBits_loop x i =
     (if i < 32 then if x AND shl 1 i = 0 then 0 else test_allOddBits_loop x (i + 2) else 1)"
  by pat_completeness auto
termination
  by (relation "measure (\<lambda>(x, i). 32 - i)") auto

declare test_allOddBits_loop.simps [simp del]

definition test_allOddBits :: "int32 \<Rightarrow> int32" where
  "test_allOddBits x = test_allOddBits_loop x 1"

definition test_negate :: "int32 \<Rightarrow> int32" where
  "test_negate x = - x"

definition test_isAsciiDigit :: "int32 \<Rightarrow> int32" where
  "test_isAsciiDigit x = of_bool (0x30 \<le> sint x \<and> sint x \<le> 0x39)"

definition test_conditional :: "int32 \<Rightarrow> int32 \<Rightarrow> int32 \<Rightarrow> int32" where
  "test_conditional x y z = (if x \<noteq> 0 then y else z)"

definition test_isLessOrEqual :: "int32 \<Rightarrow> int32 \<Rightarrow> int32" where
  "test_isLessOrEqual x y = of_bool (sint x \<le> sint y)"

definition test_logicalNeg :: "int32 \<Rightarrow> int32" where
  "test_logicalNeg x = lnot x"

function test_howManyBits_loop :: "uint32 \<Rightarrow> uint32 \<Rightarrow> uint32" where
  "test_howManyBits_loop a cnt =
     (if a \<noteq> 0 then test_howManyBits_loop (shr a 1) (cnt + 1) else cnt)"
  by pat_completeness auto
termination
proof (relation "measure (\<lambda>(a, cnt). unat a)")
  fix a cnt :: uint32
  assume "a \<noteq> 0"
  then have "unat a > 0" by (simp add: unat_gt_0)
  then show "((shr a 1, cnt + 1), a, cnt) \<in> measure (\<lambda>(a, cnt). unat a)"
    by (simp add: unat_div drop_bit_eq_div)
qed simp

declare test_howManyBits_loop.simps [simp del]

definition test_howManyBits :: "int32 \<Rightarrow> int32" where
  "test_howManyBits x =
     (let x = (if sint x < 0 then - x - 1 else x)
      in test_howManyBits_loop x 0 + 1)"

section \<open>Specification vocabulary\<close>

text \<open>The length of a number in binary, and one halving stage of the binary search for it.\<close>

fun bitlen :: "nat \<Rightarrow> nat" where
  "bitlen n = (if n = 0 then 0 else Suc (bitlen (n div 2)))"

declare bitlen.simps [simp del]

definition hstep :: "nat \<Rightarrow> nat \<Rightarrow> nat" where
  "hstep k n = (if 2 ^ k \<le> n then k else 0)"

definition magnitude_bits :: "int \<Rightarrow> nat" where
  "magnitude_bits v = nat (if v < 0 then - v - 1 else v)"

text \<open>One halving stage: from \<open>x\<close> it adds \<open>h\<close> to the count and goes on with \<open>y\<close>.\<close>

definition halving_stage :: "nat \<Rightarrow> nat \<Rightarrow> int32 \<Rightarrow> nat \<Rightarrow> int32 \<Rightarrow> bool" where
  "halving_stage k m x h y \<longleftrightarrow>
     shl (lnot (lnot (sar x k))) m = of_nat h \<and> sar x (unat (of_nat h :: int32)) = y \<and>
     unat y < 2 ^ k \<and> unat y < 2147483648 \<and> bitlen (unat x) = h + bitlen (unat y)"

text \<open>The fields and the value of a single-precision bit pattern.\<close>

definition f_exp :: "uint32 \<Rightarrow> nat" where
  "f_exp u = unat u div 2 ^ 23 mod 256"

definition f_frac :: "uint32 \<Rightarrow> nat" where
  "f_frac u = unat u mod 2 ^ 23"

definition f_sign :: "uint32 \<Rightarrow> nat" where
  "f_sign u = unat u div 2 ^ 31"

definition f_magnitude :: "nat \<Rightarrow> nat \<Rightarrow> real" where
  "f_magnitude ex fr =
     (if ex = 0 then real fr * 2 powi (- 149) else real (2 ^ 23 + fr) * 2 powi (int ex - 150))"

definition f_value :: "uint32 \<Rightarrow> real" where
  "f_value u = (- 1) ^ f_sign u * f_magnitude (f_exp u) (f_frac u)"

definition f_pack :: "nat \<Rightarrow> nat \<Rightarrow> nat \<Rightarrow> uint32" where
  "f_pack sg ex fr = of_nat (sg * 2 ^ 31 + ex * 2 ^ 23 + fr)"

text \<open>The conversion of a real number to an integer in C drops the fraction.\<close>

definition c_trunc :: "real \<Rightarrow> int" where
  "c_trunc v = (if v < 0 then \<lceil>v\<rceil> else \<lfloor>v\<rfloor>)"

definition f_int_mantissa :: "nat \<Rightarrow> nat \<Rightarrow> nat" where
  "f_int_mantissa ex fr =
     (if ex < 127 then 0 else if ex > 150 then (2 ^ 23 + fr) * 2 ^ (ex - 150)
      else (2 ^ 23 + fr) div 2 ^ (150 - ex))"

section \<open>Integer puzzles\<close>

lemma bitXor_eq: "bitXor x y = test_bitXor x y"
  unfolding bitXor_def test_bitXor_def by (rule bit_eqI) (auto simp: bit_simps)

lemma tmin_eq: "tmin = test_tmin"
  by (simp add: tmin_def test_tmin_def push_bit_eq_mult)

lemma double_eq_0: "2 * z = 0 \<longleftrightarrow> z = 0 \<or> z = (0x80000000 :: int32)"
proof
  assume "2 * z = 0"
  then have "(2 * uint z) mod 2 ^ 32 = 0" by (auto simp: word_uint_eq_iff uint_word_ariths)
  then obtain k where k: "2 * uint z = 4294967296 * k" by (auto simp: mod_eq_0_iff_dvd)
  moreover have "0 \<le> uint z" "uint z < 4294967296" using uint_lt2p [of z] by simp_all
  ultimately have "k = 0 \<or> k = 1" by linarith
  then show "z = 0 \<or> z = 0x80000000" using k by (auto simp: word_uint_eq_iff)
qed auto

lemma isTmax_eq: "isTmax x = test_isTmax x"
proof -
  have "x XOR NOT (x + 1) = 0 \<longleftrightarrow> x = - x - 2"
    unfolding word_xor_eq_0 by (simp add: not_eq_complement)
  also have "\<dots> \<longleftrightarrow> 2 * (x + 1) = 0" by (auto simp: algebra_simps eq_neg_iff_add_eq_0)
  also have "\<dots> \<longleftrightarrow> x + 1 = 0 \<or> x + 1 = 0x80000000" by (rule double_eq_0)
  also have "\<dots> \<longleftrightarrow> x = - 1 \<or> x = 0x7FFFFFFF"
    by (auto simp: eq_diff_eq [symmetric])
  finally show ?thesis
    unfolding isTmax_def test_isTmax_def lnot_def Let_def by (cases "x = - 1") auto
qed

lemma negate_eq: "negate x = test_negate x"
  by (simp add: negate_def test_negate_def not_eq_complement)

lemma conditional_eq: "conditional x y z = test_conditional x y z"
  by (simp add: conditional_def test_conditional_def lnot_def Let_def not_eq_complement)

lemma test_allOddBits_loop_eq:
  "test_allOddBits_loop x i = of_bool (\<forall>j. i \<le> j \<and> j < 32 \<and> even (j - i) \<longrightarrow> bit x j)"
proof (induction x i rule: test_allOddBits_loop.induct)
  case (1 x i)
  have b: "x AND shl 1 i = 0 \<longleftrightarrow> \<not> bit x i" if "i < 32"
    using that by (auto simp: word_bit_iff [of _ 0] bit_simps)
  have s: "(\<forall>j. i \<le> j \<and> j < 32 \<and> even (j - i) \<longrightarrow> bit x j) \<longleftrightarrow>
    bit x i \<and> (\<forall>j. i + 2 \<le> j \<and> j < 32 \<and> even (j - (i + 2)) \<longrightarrow> bit x j)" if "i < 32"
  proof safe
    fix j assume "\<forall>j. i + 2 \<le> j \<and> j < 32 \<and> even (j - (i + 2)) \<longrightarrow> bit x j"
      and "bit x i" "i \<le> j" "j < 32" "even (j - i)"
    then show "bit x j" by (cases "j = i") (auto elim!: allE [of _ j], presburger+)
  qed (use that in auto)
  show ?case
    using 1 b s by (subst test_allOddBits_loop.simps) auto
qed

lemma odd_bits_mask: "bit (0xAAAAAAAA :: 32 word) j \<longleftrightarrow> j < 32 \<and> odd j"
proof (cases "j < 32")
  case True
  then have "j \<in> set [0..<32]" by simp
  moreover have "\<forall>j \<in> set [0..<32]. bit (0xAAAAAAAA :: 32 word) j \<longleftrightarrow> odd j"
    by code_simp
  ultimately show ?thesis using True by blast
qed (auto dest: bit_imp_le_length)

lemma allOddBits_eq: "allOddBits x = test_allOddBits x"
proof -
  have "allOddBits x = of_bool (x AND 0xAAAAAAAA = 0xAAAAAAAA)"
    by (simp add: allOddBits_def Let_def lnot_def word_xor_eq_0 push_bit_eq_mult)
  also have "x AND 0xAAAAAAAA = 0xAAAAAAAA \<longleftrightarrow> (\<forall>j. j < 32 \<and> odd j \<longrightarrow> bit x j)"
    unfolding word_bit_iff [of _ "0xAAAAAAAA :: 32 word"] bit_and_iff odd_bits_mask by auto
  also have "\<dots> \<longleftrightarrow> (\<forall>j. 1 \<le> j \<and> j < 32 \<and> even (j - 1) \<longrightarrow> bit x j)"
    by (intro all_cong1) (auto elim: oddE)
  finally show ?thesis by (simp add: test_allOddBits_def test_allOddBits_loop_eq)
qed

lemma lnot_and: "lnot x AND lnot y = of_bool (x = 0 \<and> y = 0)"
  by (simp add: lnot_def)

lemma isAsciiDigit_eq: "isAsciiDigit x = test_isAsciiDigit x"
proof -
  let ?low = "x AND 0x0F"
  have low: "sint ?low = sint x mod 16"
    using sint_and_mask32 [of 4 x] by (simp add: mask_eq_exp_minus_1)
  have "sint (9 - ?low) = 9 - sint x mod 16"
    using sint_diff32 [of 9 ?low] by (simp add: low)
  then have l: "sar (9 - ?low) 31 = 0 \<longleftrightarrow> sint x mod 16 \<le> 9"
    by (simp add: sar31)
  have u: "sar x 4 XOR 3 = 0 \<longleftrightarrow> sint x div 16 = 3"
    unfolding word_xor_eq_0 by (simp add: word_sint_eq sint_sar)
  have "isAsciiDigit x = of_bool (sint x div 16 = 3 \<and> sint x mod 16 \<le> 9)"
    by (simp add: isAsciiDigit_def Let_def lnot_and u l not_eq_complement)
  also have "sint x div 16 = 3 \<and> sint x mod 16 \<le> 9 \<longleftrightarrow> 0x30 \<le> sint x \<and> sint x \<le> 0x39"
    by presburger
  finally show ?thesis by (simp add: test_isAsciiDigit_def)
qed

lemma isLessOrEqual_eq: "isLessOrEqual x y = test_isLessOrEqual x y"
proof -
  have r: "- 2147483648 \<le> sint x" "sint x \<le> 2147483647" "- 2147483648 \<le> sint y" "sint y \<le> 2147483647"
    by (rule int32_range)+
  have d: "sint (y - x) = sint y - sint x" if "sint x < 0 \<longleftrightarrow> sint y < 0"
    by (rule sint_diff32) (use that r in auto)
  show ?thesis
    using r d by (cases "sint x < 0"; cases "sint y < 0")
      (simp_all add: isLessOrEqual_def test_isLessOrEqual_def Let_def sar31 not_eq_complement lnot_def)
qed

lemma logicalNeg_eq: "logicalNeg x = test_logicalNeg x"
proof (cases "x = 0")
  case False
  have "sint x < 0 \<or> sint (- x) < 0"
  proof (cases "sint x < 0")
    case pos: False
    then have "sint x \<noteq> 0" using False by (simp add: word_sint_eq)
    then show ?thesis using pos by (simp add: sint_minus32)
  qed simp
  then have "sint (x OR - x) < 0" by (simp flip: bit31 add: bit_or_iff)
  then show ?thesis using False
    by (simp add: logicalNeg_def test_logicalNeg_def Let_def not_eq_complement sar31)
qed (simp add: logicalNeg_def test_logicalNeg_def Let_def not_eq_complement)

subsection \<open>howManyBits\<close>

lemma bitlen_le_iff: "bitlen n \<le> k \<longleftrightarrow> n < 2 ^ k"
proof (induction k arbitrary: n)
  case 0
  show ?case by (subst bitlen.simps) simp
next
  case (Suc k)
  show ?case using Suc.IH [of "n div 2"] by (subst bitlen.simps) auto
qed

lemma bitlen_hstep: "bitlen n = hstep k n + bitlen (n div 2 ^ hstep k n)"
proof (cases "2 ^ k \<le> n")
  case True
  have "bitlen n \<le> m \<longleftrightarrow> k + bitlen (n div 2 ^ k) \<le> m" for m
  proof (cases "k \<le> m")
    case km: True
    then have "n < 2 ^ m \<longleftrightarrow> n div 2 ^ k < 2 ^ (m - k)"
      by (simp add: less_mult_imp_div_less div_less_iff_less_mult power_add [symmetric])
    also have "\<dots> \<longleftrightarrow> bitlen (n div 2 ^ k) \<le> m - k" by (simp add: bitlen_le_iff)
    also have "\<dots> \<longleftrightarrow> k + bitlen (n div 2 ^ k) \<le> m" using km by auto
    finally show ?thesis by (simp add: bitlen_le_iff)
  next
    case km: False
    then have "(2 :: nat) ^ m \<le> 2 ^ k" by simp
    then have "\<not> n < 2 ^ m" using True by linarith
    then show ?thesis using km by (simp add: bitlen_le_iff)
  qed
  then have "bitlen n = k + bitlen (n div 2 ^ k)" by (metis order.refl order.antisym)
  then show ?thesis using True by (simp add: hstep_def)
qed (simp add: hstep_def)

lemma hstep_div_less: "n < 2 ^ (k + k) \<Longrightarrow> n div 2 ^ hstep k n < 2 ^ k"
  by (simp add: hstep_def power_add less_mult_imp_div_less)

lemma hstep_word:
  assumes "unat (x :: int32) < 2147483648" "k = 2 ^ m" "k < 32"
  shows "shl (lnot (lnot (sar x k))) m = of_nat (hstep k (unat x))"
proof -
  have "sar x k \<noteq> 0 \<longleftrightarrow> 2 ^ k \<le> unat x"
    using unat_sar_nonneg [OF assms(1), of k] by (simp flip: unat_gt_0 add: div_greater_zero_iff)
  then show ?thesis using assms(2) by (simp add: lnot_lnot hstep_def push_bit_eq_mult of_bool_def)
qed

lemma hstep_shift:
  assumes "unat (x :: int32) < 2147483648" "k < 32"
  shows "unat (sar x (unat (of_nat (hstep k (unat x)) :: int32))) = unat x div 2 ^ hstep k (unat x)"
proof -
  have "hstep k (unat x) < 32" using assms(2) by (simp add: hstep_def)
  then show ?thesis using unat_sar_nonneg [OF assms(1)] by (simp add: unat_of_nat)
qed

lemma unat_sign_fold: "unat (x XOR sar x 31 :: int32) = magnitude_bits (sint x)"
proof -
  have r: "- 2147483648 \<le> sint x" "sint x \<le> 2147483647" by (rule int32_range)+
  have "x XOR sar x 31 = of_nat (magnitude_bits (sint x))"
  proof (cases "sint x < 0")
    case True
    then have "x XOR sar x 31 = - x - 1" by (simp add: sar31 not_eq_complement)
    also have "\<dots> = of_int (- sint x - 1)" by simp
    finally show ?thesis using True by (simp add: magnitude_bits_def)
  next
    case False
    then show ?thesis by (simp add: sar31 magnitude_bits_def)
  qed
  moreover have "magnitude_bits (sint x) < 2147483648" using r by (simp add: magnitude_bits_def nat_less_iff)
  ultimately show ?thesis by (simp add: unat_of_nat)
qed

lemma magnitude_bits_bound: "magnitude_bits (sint (x :: int32)) < 2147483648"
  using int32_range [of x] by (simp add: magnitude_bits_def nat_less_iff)

lemma halving_stage_exists:
  assumes "unat x < 2 ^ (k + k)" "unat x < 2147483648" "k = 2 ^ m" "k < 32"
  shows "\<exists>h y. halving_stage k m x h y"
proof (intro exI)
  let ?h = "hstep k (unat x)" and ?y = "sar x (unat (of_nat (hstep k (unat x)) :: int32))"
  have s: "shl (lnot (lnot (sar x k))) m = of_nat ?h" using assms(2-4) by (rule hstep_word)
  have u: "unat ?y = unat x div 2 ^ ?h" using assms(2,4) by (rule hstep_shift)
  have "unat ?y < 2147483648"
    unfolding u using assms(2) by (meson div_le_dividend le_less_trans)
  then show "halving_stage k m x ?h ?y"
    using s hstep_div_less [OF assms(1)] bitlen_hstep [of "unat x" k]
    by (simp only: halving_stage_def u simp_thms)
qed

lemma bitlen_bit: "n < 2 \<Longrightarrow> bitlen n = n"
  by (auto simp: less_2_cases_iff bitlen.simps)

lemma howManyBits_bitlen: "howManyBits x = of_nat (bitlen (magnitude_bits (sint x)) + 1)"
proof -
  define x0 where "x0 = x XOR sar x 31"
  have n0: "unat x0 = magnitude_bits (sint x)" by (simp add: x0_def unat_sign_fold)
  then have "unat x0 < 2147483648" by (simp add: magnitude_bits_bound)
  then have "\<exists>h y. halving_stage 16 4 x0 h y" by (intro halving_stage_exists) simp_all
  then obtain h1 x1 where 1: "halving_stage 16 4 x0 h1 x1" by blast
  then have "\<exists>h y. halving_stage 8 3 x1 h y" by (intro halving_stage_exists) (simp_all add: halving_stage_def)
  then obtain h2 x2 where 2: "halving_stage 8 3 x1 h2 x2" by blast
  then have "\<exists>h y. halving_stage 4 2 x2 h y" by (intro halving_stage_exists) (simp_all add: halving_stage_def)
  then obtain h3 x3 where 3: "halving_stage 4 2 x2 h3 x3" by blast
  then have "\<exists>h y. halving_stage 2 1 x3 h y" by (intro halving_stage_exists) (simp_all add: halving_stage_def)
  then obtain h4 x4 where 4: "halving_stage 2 1 x3 h4 x4" by blast
  then have "\<exists>h y. halving_stage 1 0 x4 h y" by (intro halving_stage_exists) (simp_all add: halving_stage_def)
  then obtain h5 x5 where 5: "halving_stage 1 0 x4 h5 x5" by blast
  note st = 1 2 3 4 5 [unfolded halving_stage_def]
  have "howManyBits x = of_nat h1 + of_nat h2 + of_nat h3 + of_nat h4 + of_nat h5 + 1 + x5"
    using 1 2 3 4 5 unfolding howManyBits_def Let_def x0_def [symmetric] halving_stage_def by (simp only:)
  also have "x5 = of_nat (bitlen (unat x5))" using 5 by (simp add: halving_stage_def bitlen_bit)
  finally show ?thesis
    using 1 2 3 4 5 unfolding halving_stage_def n0 [symmetric] by (simp only: of_nat_add of_nat_1 ac_simps)
qed

lemma test_howManyBits_loop_bitlen: "test_howManyBits_loop a cnt = cnt + of_nat (bitlen (unat a))"
proof (induction a cnt rule: test_howManyBits_loop.induct)
  case (1 a cnt)
  show ?case
  proof (cases "a = 0")
    case True
    then show ?thesis by (subst test_howManyBits_loop.simps) (simp add: bitlen.simps)
  next
    case False
    then have "bitlen (unat a) = Suc (bitlen (unat a div 2))"
      by (subst bitlen.simps) (simp add: unat_0_iff)
    then show ?thesis
      using False 1 by (subst test_howManyBits_loop.simps) (simp add: unat_shr del: drop_bit_Suc)
  qed
qed

lemma howManyBits_eq: "howManyBits x = test_howManyBits x"
proof -
  have "(if sint x < 0 then - x - 1 else x) = x XOR sar x 31"
    by (simp add: sar31 not_eq_complement)
  then show ?thesis
    by (simp add: howManyBits_bitlen test_howManyBits_def test_howManyBits_loop_bitlen unat_sign_fold)
qed

subsection \<open>Single-precision floats\<close>

lemma f_sign_less: "f_sign u < 2"
  using unat32_less [of u] by (simp add: f_sign_def less_mult_imp_div_less)

lemma f_exp_less: "f_exp u < 256" and f_frac_less: "f_frac u < 2 ^ 23"
  by (simp_all add: f_exp_def f_frac_def)

lemma f_unpack: "unat u = f_sign u * 2 ^ 31 + f_exp u * 2 ^ 23 + f_frac u"
proof -
  have "unat u div 2 ^ 23 = f_sign u * 256 + f_exp u"
    using div_mult2_eq [of "unat u" "2 ^ 23" 256] by (simp add: f_sign_def f_exp_def)
  moreover have "unat u = unat u div 2 ^ 23 * 2 ^ 23 + f_frac u" by (simp add: f_frac_def)
  ultimately show ?thesis by simp
qed

lemma f_pack_fields:
  assumes "sg < 2" "ex < 256" "fr < 2 ^ 23"
  shows "f_sign (f_pack sg ex fr) = sg" "f_exp (f_pack sg ex fr) = ex" "f_frac (f_pack sg ex fr) = fr"
proof -
  let ?n = "sg * 2 ^ 31 + ex * 2 ^ 23 + fr"
  have "?n < 2 ^ 32" using assms by simp
  then have u: "unat (f_pack sg ex fr) = ?n" unfolding f_pack_def by (intro unat_of_nat_less) simp
  have n: "?n = fr + (ex + sg * 256) * 2 ^ 23" by simp
  show "f_frac (f_pack sg ex fr) = fr" using assms unfolding f_frac_def u n by (subst mod_mult_self1) simp
  have d: "?n div 2 ^ 23 = ex + sg * 256" using assms unfolding n by (subst div_mult_self1) simp_all
  show "f_exp (f_pack sg ex fr) = ex" using assms by (simp only: f_exp_def u d) simp
  show "f_sign (f_pack sg ex fr) = sg"
    using assms d by (simp add: f_sign_def u div_mult2_eq [of _ "2 ^ 23" 256, simplified])
qed

lemma f_fields_word:
  "unat (shr u 31) = f_sign u" "unat (shr u 23 AND 0xFF) = f_exp u" "unat (u AND 0x7FFFFF) = f_frac u"
proof -
  show "unat (shr u 31) = f_sign u" by (simp only: unat_shr f_sign_def)
  show "unat (shr u 23 AND 0xFF) = f_exp u"
    using unat_and_mask [of "shr u 23" 8] by (simp add: mask_eq_exp_minus_1 unat_shr f_exp_def)
  show "unat (u AND 0x7FFFFF) = f_frac u"
    using unat_and_mask [of u 23] by (simp add: mask_eq_exp_minus_1 f_frac_def)
qed

lemma f_pack_word:
  assumes "unat s < 2" "unat e < 256" "unat f < 2 ^ 23"
  shows "shl s 31 OR shl e 23 OR f = f_pack (unat s) (unat e) (unat f)"
proof -
  have a: "unat (f OR shl e 23) = unat f + unat e * 2 ^ 23" using assms by (intro unat_or_shl) simp_all
  have "unat ((f OR shl e 23) OR shl s 31) = unat (f OR shl e 23) + unat s * 2 ^ 31"
    by (rule unat_or_shl) (use assms a in simp_all)
  then have "(f OR shl e 23) OR shl s 31 = of_nat (unat f + unat e * 2 ^ 23 + unat s * 2 ^ 31)"
    unfolding a by (rule word_eq_of_unat)
  then show ?thesis by (simp add: f_pack_def ac_simps)
qed

lemma f_exp_word_cases:
  "shr u 23 AND 0xFF = 255 \<longleftrightarrow> f_exp u = 255" "shr u 23 AND 0xFF = 0 \<longleftrightarrow> f_exp u = 0"
  unfolding word_unat_eq_iff f_fields_word by simp_all

lemma f_value_pack:
  assumes "sg < 2" "ex < 256" "fr < 2 ^ 23"
  shows "f_value (f_pack sg ex fr) = (- 1) ^ sg * f_magnitude ex fr"
  unfolding f_value_def f_pack_fields [OF assms] ..

lemma floatScale2_normal:
  assumes "f_exp u \<noteq> 0" "f_exp u < 255"
  shows "floatScale2 u = f_pack (f_sign u) (f_exp u + 1) (f_frac u)"
proof -
  let ?e = "shr u 23 AND 0xFF"
  have e: "unat (?e + 1) = f_exp u + 1"
    using f_exp_less [of u] by (simp add: unat_word_ariths f_fields_word)
  have "floatScale2 u = shl (shr u 31) 31 OR shl (?e + 1) 23 OR (u AND 0x7FFFFF)"
    using assms by (simp only: floatScale2_def Let_def f_exp_word_cases) simp
  also have "\<dots> = f_pack (unat (shr u 31)) (unat (?e + 1)) (unat (u AND 0x7FFFFF))"
    by (rule f_pack_word) (use assms f_sign_less [of u] f_frac_less [of u] in \<open>simp_all add: f_fields_word e\<close>)
  finally show ?thesis by (simp add: f_fields_word e)
qed

lemma floatScale2_denormal:
  assumes "f_exp u = 0"
  shows "floatScale2 u = f_pack (f_sign u) (2 * f_frac u div 2 ^ 23) (2 * f_frac u mod 2 ^ 23)"
proof -
  let ?f = "u AND 0x7FFFFF"
  have f: "unat (shl ?f 1) = 2 * f_frac u"
    using unat_shl [of ?f 1] f_frac_less [of u] unfolding f_fields_word by simp
  have "floatScale2 u = shl ?f 1 OR shl (shr u 31) 31"
    using assms by (simp only: floatScale2_def Let_def f_exp_word_cases or.commute) simp
  then have "unat (floatScale2 u) = 2 * f_frac u + f_sign u * 2 ^ 31"
    using unat_or_shl [of "shl ?f 1" 31 "shr u 31"] f_frac_less [of u] f_sign_less [of u]
    unfolding f f_fields_word by simp
  then have "floatScale2 u = of_nat (2 * f_frac u + f_sign u * 2 ^ 31)" by (rule word_eq_of_unat)
  also have "2 * f_frac u + f_sign u * 2 ^ 31 =
      f_sign u * 2 ^ 31 + 2 * f_frac u div 2 ^ 23 * 2 ^ 23 + 2 * f_frac u mod 2 ^ 23"
    using div_mult_mod_eq [of "2 * f_frac u" "2 ^ 23"] by linarith
  finally show ?thesis unfolding f_pack_def .
qed

lemma f_magnitude_double_normal: "ex \<noteq> 0 \<Longrightarrow> f_magnitude (ex + 1) fr = 2 * f_magnitude ex fr"
  using power_int_add_1' [of "2 :: real" "int ex - 150"] by (simp add: f_magnitude_def)

lemma f_magnitude_carry:
  assumes "r < 2 ^ 24"
  shows "f_magnitude (r div 2 ^ 23) (r mod 2 ^ 23) = real r * 2 powi (- 149)"
proof (cases "r < 2 ^ 23")
  case False
  then have "r div 2 ^ 23 = 1" using assms by simp
  moreover from this have "2 ^ 23 + r mod 2 ^ 23 = r" using div_mult_mod_eq [of r "2 ^ 23"] by simp
  ultimately show ?thesis by (simp add: f_magnitude_def)
qed (simp add: f_magnitude_def)

lemma floatScale2_doubles:
  assumes "f_exp u < 254"
  shows "f_value (floatScale2 u) = 2 * f_value u"
proof (cases "f_exp u = 0")
  case True
  have r: "2 * f_frac u < 2 ^ 24" using f_frac_less [of u] by simp
  then have "2 * f_frac u div 2 ^ 23 < 256" by simp
  then have "f_value (floatScale2 u) = (- 1) ^ f_sign u * (real (2 * f_frac u) * 2 powi (- 149))"
    unfolding floatScale2_denormal [OF True] f_magnitude_carry [OF r, symmetric]
    by (intro f_value_pack f_sign_less) simp_all
  then show ?thesis using True by (simp add: f_value_def f_magnitude_def)
next
  case False
  then have "f_value (floatScale2 u) = (- 1) ^ f_sign u * f_magnitude (f_exp u + 1) (f_frac u)"
    using assms by (subst floatScale2_normal) (auto intro!: f_value_pack f_sign_less f_frac_less)
  then show ?thesis unfolding f_magnitude_double_normal [OF False] f_value_def by simp
qed

subsection \<open>floatPower2\<close>

lemma two_powi_add: "(2 :: real) powi (a + b) = 2 powi a * 2 powi b"
  by (simp add: power_int_add)

lemma floatPower2_normal:
  assumes "- 126 \<le> sint x" "sint x \<le> 127"
  shows "floatPower2 x = f_pack 0 (nat (sint x + 127)) 0"
proof -
  have "sint (x + 127) = sint x + 127" using assms by (subst sint_add32) simp_all
  then have u: "unat (x + 127) = nat (sint x + 127)" using assms by (simp add: unat_of_sint_nonneg)
  have "unat (shl (x + 127) 23) = nat (sint x + 127) * 2 ^ 23"
    unfolding u [symmetric] by (rule unat_shl) (use assms u in \<open>simp add: nat_less_iff\<close>)
  then have "shl (x + 127) 23 = of_nat (nat (sint x + 127) * 2 ^ 23)" by (rule word_eq_of_unat)
  then show ?thesis using assms by (simp only: floatPower2_def f_pack_def) simp
qed

lemma floatPower2_denormal:
  assumes "- 149 \<le> sint x" "sint x < - 126"
  shows "floatPower2 x = f_pack 0 0 (2 ^ nat (sint x + 149))"
proof -
  have "sint (x + 149) = sint x + 149" using assms by (subst sint_add32) simp_all
  then have "unat (x + 149) = nat (sint x + 149)" using assms by (simp add: unat_of_sint_nonneg)
  then show ?thesis using assms by (simp add: floatPower2_def f_pack_def push_bit_eq_mult)
qed

lemma floatPower2_value:
  assumes "- 149 \<le> sint x" "sint x \<le> 127"
  shows "f_value (floatPower2 x) = 2 powi sint x"
proof (cases "- 126 \<le> sint x")
  case True
  then have "f_value (floatPower2 x) = f_magnitude (nat (sint x + 127)) 0"
    using assms by (simp add: floatPower2_normal f_value_pack nat_less_iff)
  also have "\<dots> = 2 powi 23 * 2 powi (sint x - 23)" using True by (simp add: f_magnitude_def)
  also have "\<dots> = 2 powi sint x" by (simp only: two_powi_add [symmetric]) simp
  finally show ?thesis .
next
  case False
  then have "nat (sint x + 149) < 23" by simp
  then have "(2 :: nat) ^ nat (sint x + 149) < 2 ^ 23" by (rule power_strict_increasing) simp
  then have "f_value (floatPower2 x) = f_magnitude 0 (2 ^ nat (sint x + 149))"
    using assms False by (simp add: floatPower2_denormal f_value_pack)
  also have "\<dots> = 2 powi (sint x + 149) * 2 powi (- 149)"
    using assms by (simp add: f_magnitude_def power_int_def)
  also have "\<dots> = 2 powi sint x" by (simp only: two_powi_add [symmetric]) simp
  finally show ?thesis .
qed

subsection \<open>floatFloat2Int\<close>

lemma c_trunc_sign: "c_trunc ((- 1) ^ s * r) = (- 1) ^ s * \<lfloor>r\<rfloor>" if "0 \<le> r"
  using that by (cases "even s") (auto simp: c_trunc_def ceiling_minus)

lemma floor_f_magnitude:
  assumes "fr < 2 ^ 23"
  shows "\<lfloor>f_magnitude ex fr\<rfloor> = int (f_int_mantissa ex fr)"
proof (cases "ex \<le> 150")
  case True
  define m where "m = (if ex = 0 then fr else 2 ^ 23 + fr)"
  define k where "k = (if ex = 0 then 149 else 150 - ex)"
  have p: "(2 :: real) powi (- int k) = 1 / 2 ^ k" by (simp add: power_int_minus field_simps)
  have "f_magnitude ex fr = real m * 2 powi (- int k)"
    using True by (simp add: f_magnitude_def m_def k_def of_nat_diff)
  also have "\<dots> = real m / real (2 ^ k)" unfolding p by simp
  finally have "\<lfloor>f_magnitude ex fr\<rfloor> = int (m div 2 ^ k)" by (simp only: floor_divide_of_nat_eq)
  moreover have "m div 2 ^ k = f_int_mantissa ex fr"
  proof (cases "ex < 127")
    case small: True
    then have "24 \<le> k" by (auto simp: k_def)
    then have "(2 :: nat) ^ 24 \<le> 2 ^ k" by (rule power_increasing) simp
    moreover have "m < 2 ^ 24" using assms by (simp add: m_def)
    ultimately show ?thesis using small by (simp add: f_int_mantissa_def)
  qed (use True in \<open>simp add: f_int_mantissa_def m_def k_def\<close>)
  ultimately show ?thesis by simp
next
  case False
  then have "f_magnitude ex fr = real ((2 ^ 23 + fr) * 2 ^ (ex - 150))"
    by (simp add: f_magnitude_def power_int_def nat_diff_distrib)
  then show ?thesis using False by (simp only: floor_of_nat f_int_mantissa_def) simp
qed

lemma f_int_mantissa_bound:
  assumes "fr < 2 ^ 23" "ex < 158"
  shows "f_int_mantissa ex fr < 2 ^ 31"
proof (cases "ex > 150")
  case True
  then have "(2 :: nat) ^ (ex - 150) \<le> 2 ^ 7" using assms(2) by (intro power_increasing) auto
  then have "(2 ^ 23 + fr) * 2 ^ (ex - 150) \<le> (2 ^ 23 + fr) * 2 ^ 7" by (rule mult_le_mono2)
  then show ?thesis using True assms(1) by (simp add: f_int_mantissa_def)
next
  case False
  have "(2 ^ 23 + fr) div 2 ^ (150 - ex) < 2 ^ 31"
    by (rule le_less_trans [OF div_le_dividend]) (use assms(1) in simp)
  then show ?thesis using False by (simp add: f_int_mantissa_def)
qed

text \<open>The branches of the C function, read with the fields of \<open>u\<close>.\<close>

lemma floatFloat2Int_fields:
  fixes u :: uint32
  defines "E \<equiv> (shr u 23 AND 0xFF) - 127" and "m \<equiv> shl 1 23 OR (u AND 0x7FFFFF)"
  shows "sint E = int (f_exp u) - 127" "unat m = 2 ^ 23 + f_frac u"
    "23 \<le> sint E \<Longrightarrow> unat (E - 23) = f_exp u - 150"
    "0 \<le> sint E \<Longrightarrow> sint E \<le> 23 \<Longrightarrow> unat (23 - E) = 150 - f_exp u"
proof -
  have "sint (shr u 23 AND 0xFF) = int (f_exp u)"
    using f_exp_less [of u] unfolding f_fields_word [symmetric] by (intro sint_nonneg32) simp
  then show E: "sint E = int (f_exp u) - 127"
    unfolding E_def using f_exp_less [of u] by (subst sint_diff32) simp_all
  have "m = (u AND 0x7FFFFF) OR shl 1 23" unfolding m_def by (rule or.commute)
  then show "unat m = 2 ^ 23 + f_frac u"
    using unat_or_shl [of "u AND 0x7FFFFF" 23 1] f_frac_less [of u] unfolding f_fields_word by simp
  show "unat (E - 23) = f_exp u - 150" if "23 \<le> sint E"
    using that f_exp_less [of u] by (subst unat_of_sint_nonneg; subst sint_diff32) (simp_all add: E)
  show "unat (23 - E) = 150 - f_exp u" if "0 \<le> sint E" "sint E \<le> 23"
    using that f_exp_less [of u] by (subst unat_of_sint_nonneg; subst sint_diff32) (simp_all add: E)
qed

lemma floatFloat2Int_mantissa:
  assumes "f_exp u < 158"
  shows "floatFloat2Int u =
    (let m = of_nat (f_int_mantissa (f_exp u) (f_frac u)) in if f_sign u = 1 then - m else m)"
proof -
  define E where "E = (shr u 23 AND 0xFF) - 127"
  define m where "m = shl 1 23 OR (u AND 0x7FFFFF)"
  define w where "w = (if sint E > 23 then shl m (unat (E - 23)) else sar m (unat (23 - E)))"
  note F = floatFloat2Int_fields [of u, folded E_def m_def]
  have s: "shr u 31 = 1 \<longleftrightarrow> f_sign u = 1"
    unfolding word_unat_eq_iff f_fields_word by simp
  have w: "unat w = f_int_mantissa (f_exp u) (f_frac u)" if "0 \<le> sint E"
  proof (cases "sint E > 23")
    case True
    have i: "f_int_mantissa (f_exp u) (f_frac u) = (2 ^ 23 + f_frac u) * 2 ^ (f_exp u - 150)"
      using True F(1) by (simp add: f_int_mantissa_def)
    then have "(2 ^ 23 + f_frac u) * 2 ^ (f_exp u - 150) < 2 ^ 32"
      using f_int_mantissa_bound [OF f_frac_less [of u] assms] by simp
    then show ?thesis
      unfolding w_def i using True F(3) unat_shl [of m "f_exp u - 150"] by (simp add: F(2))
  next
    case False
    have "unat (sar m (unat (23 - E))) = (2 ^ 23 + f_frac u) div 2 ^ (150 - f_exp u)"
      using False that F(4) f_frac_less [of u] by (simp add: unat_sar_nonneg F(2))
    then show ?thesis using False that F(1) by (simp add: w_def f_int_mantissa_def)
  qed
  show ?thesis
  proof (cases "0 \<le> sint E")
    case True
    have "floatFloat2Int u = (if f_sign u = 1 then - w else w)"
      using True assms F(1) unfolding floatFloat2Int_def Let_def s E_def [symmetric] m_def [symmetric]
        w_def [symmetric] by (simp add: not_eq_complement)
    then show ?thesis using word_eq_of_unat [OF w [OF True]] by (simp add: Let_def)
  next
    case False
    then show ?thesis using F(1) unfolding floatFloat2Int_def f_int_mantissa_def Let_def E_def by simp
  qed
qed

lemma sint_signed_mantissa:
  assumes "n < 2 ^ 31" "s < 2"
  shows "sint (let m = of_nat n in if s = 1 then - m else m :: int32) = (- 1) ^ s * int n"
proof -
  have "sint (of_nat n :: int32) = int n"
    using assms(1) by (simp add: sint_nonneg32 unat_of_nat_less)
  moreover have "sint (- of_nat n :: int32) = - int n"
    using assms(1) calculation by (subst sint_minus32) simp_all
  ultimately show ?thesis using assms(2) by (auto simp: less_2_cases_iff)
qed

lemma floatFloat2Int_in_range:
  assumes "f_exp u < 158"
  shows "sint (floatFloat2Int u) = c_trunc (f_value u)"
proof -
  have "0 \<le> f_magnitude (f_exp u) (f_frac u)" by (simp add: f_magnitude_def)
  then have "c_trunc (f_value u) = (- 1) ^ f_sign u * int (f_int_mantissa (f_exp u) (f_frac u))"
    by (simp add: f_value_def c_trunc_sign floor_f_magnitude [OF f_frac_less])
  then show ?thesis
    using sint_signed_mantissa [OF f_int_mantissa_bound [OF f_frac_less assms] f_sign_less]
    by (simp add: floatFloat2Int_mantissa [OF assms])
qed

lemma floatFloat2Int_out_of_range:
  assumes "158 \<le> f_exp u"
  shows "floatFloat2Int u = 0x80000000"
  using assms floatFloat2Int_fields(1) [of u] by (simp add: floatFloat2Int_def Let_def)

lemma f_value_small_iff:
  assumes "f_exp u < 255"
  shows "\<bar>f_value u\<bar> < 2 ^ 31 \<longleftrightarrow> f_exp u < 158"
proof -
  have "\<bar>f_value u\<bar> = f_magnitude (f_exp u) (f_frac u)"
    by (simp add: f_value_def abs_mult power_abs f_magnitude_def)
  then have "\<bar>f_value u\<bar> < 2 ^ 31 \<longleftrightarrow> \<lfloor>f_magnitude (f_exp u) (f_frac u)\<rfloor> < 2 ^ 31"
    by (simp add: floor_less_iff)
  also have "\<dots> \<longleftrightarrow> f_int_mantissa (f_exp u) (f_frac u) < 2 ^ 31"
    unfolding floor_f_magnitude [OF f_frac_less] by simp
  finally have "\<bar>f_value u\<bar> < 2 ^ 31 \<longleftrightarrow> f_int_mantissa (f_exp u) (f_frac u) < 2 ^ 31" .
  moreover have "f_int_mantissa (f_exp u) (f_frac u) \<ge> 2 ^ 31" if "158 \<le> f_exp u"
  proof -
    have "(2 :: nat) ^ 8 \<le> 2 ^ (f_exp u - 150)" using that by (intro power_increasing) auto
    then have "2 ^ 23 * 2 ^ 8 \<le> (2 ^ 23 + f_frac u) * 2 ^ (f_exp u - 150)" by (intro mult_le_mono) simp_all
    then show ?thesis using that by (simp add: f_int_mantissa_def)
  qed
  ultimately show ?thesis using f_int_mantissa_bound [OF f_frac_less] by (metis not_le)
qed


section \<open>The properties\<close>

text \<open>
  C39. Each of the ten integer puzzles of \<^verbatim>\<open>bits.c\<close> returns, on every 32-bit input, exactly what its
  reference function in \<^verbatim>\<open>tests.c\<close> returns.
\<close>

theorem integer_puzzles_match_tests:
  "bitXor x y = test_bitXor x y \<and> tmin = test_tmin \<and> isTmax x = test_isTmax x \<and>
   allOddBits x = test_allOddBits x \<and> negate x = test_negate x \<and>
   isAsciiDigit x = test_isAsciiDigit x \<and> conditional x y z = test_conditional x y z \<and>
   isLessOrEqual x y = test_isLessOrEqual x y \<and> logicalNeg x = test_logicalNeg x \<and>
   howManyBits x = test_howManyBits x"
  by (simp add: bitXor_eq tmin_eq isTmax_eq allOddBits_eq negate_eq isAsciiDigit_eq
      conditional_eq isLessOrEqual_eq logicalNeg_eq howManyBits_eq)

text \<open>
  C40. \<^verbatim>\<open>howManyBits\<close> equals its reference loop and is the least width: the result is at most
  \<open>n + 1\<close> exactly when \<open>x\<close> lies in the range of an \<open>n + 1\<close>-bit two's complement number.
\<close>

theorem howManyBits_least_width:
  "howManyBits x = test_howManyBits x \<and>
   (unat (howManyBits x) \<le> Suc n \<longleftrightarrow> - (2 ^ n) \<le> sint x \<and> sint x < 2 ^ n)"
proof -
  have b: "bitlen (magnitude_bits (sint x)) \<le> 31"
    using magnitude_bits_bound [of x] by (simp add: bitlen_le_iff)
  then have "unat (howManyBits x) = bitlen (magnitude_bits (sint x)) + 1"
    unfolding howManyBits_bitlen by (intro unat_of_nat_less) simp
  then have "unat (howManyBits x) \<le> Suc n \<longleftrightarrow> magnitude_bits (sint x) < 2 ^ n"
    by (simp add: bitlen_le_iff)
  also have "\<dots> \<longleftrightarrow> - (2 ^ n) \<le> sint x \<and> sint x < 2 ^ n"
    by (auto simp: magnitude_bits_def nat_less_iff)
  finally show ?thesis by (simp add: howManyBits_eq)
qed

text \<open>
  \<^verbatim>\<open>floatScale2\<close> returns a bit pattern of exactly twice the value for every denormal and
  every normal whose exponent field is below 254, and returns its argument when the exponent field
  is 255 (infinities and NaNs).
\<close>

theorem floatScale2_correct:
  "(f_exp u < 254 \<longrightarrow> f_value (floatScale2 u) = 2 * f_value u) \<and>
   (f_exp u = 255 \<longrightarrow> floatScale2 u = u)"
  using floatScale2_doubles [of u] f_exp_word_cases(1) [of u] by (auto simp: floatScale2_def Let_def)

theorem floatScale2_correct_witness:
  "f_exp 0x3F800000 < 254 \<and> f_value (floatScale2 0x3F800000) = 2 * f_value 0x3F800000 \<and>
   f_exp 0x7F800000 = 255 \<and> floatScale2 0x7F800000 = 0x7F800000"
proof -
  have a: "f_exp 0x3F800000 < 254" and b: "f_exp 0x7F800000 = 255" by (simp_all add: f_exp_def)
  show ?thesis
    using a b floatScale2_correct [of "0x3F800000"] floatScale2_correct [of "0x7F800000"] by blast
qed

text \<open>
  In the top binade the doubling overflows and IEEE arithmetic gives an infinity, but the code
  only bumps the exponent field and keeps the fraction: whenever the fraction is not zero it
  returns a NaN, although the argument is an ordinary number.
\<close>

theorem floatScale2_overflow_gives_nan:
  assumes "f_exp u = 254" "f_frac u \<noteq> 0"
  shows "2 ^ 128 \<le> 2 * \<bar>f_value u\<bar> \<and> f_exp (floatScale2 u) = 255 \<and> f_frac (floatScale2 u) \<noteq> 0"
proof -
  have "floatScale2 u = f_pack (f_sign u) 255 (f_frac u)"
    using assms floatScale2_normal [of u] by simp
  then have "f_exp (floatScale2 u) = 255" "f_frac (floatScale2 u) = f_frac u"
    by (simp_all add: f_pack_fields [OF f_sign_less _ f_frac_less])
  moreover have "f_magnitude 254 (f_frac u) = real (2 ^ 23 + f_frac u) * 2 ^ 104"
    by (simp add: f_magnitude_def power_int_def)
  then have "2 ^ 127 \<le> \<bar>f_value u\<bar>"
    unfolding f_value_def abs_mult power_abs assms(1) by simp
  ultimately show ?thesis using assms(2) by simp
qed

theorem floatScale2_overflow_gives_nan_witness:
  "f_exp 0x7F000001 = 254 \<and> f_frac 0x7F000001 \<noteq> 0 \<and>
   f_exp (floatScale2 0x7F000001) = 255 \<and> f_frac (floatScale2 0x7F000001) \<noteq> 0"
proof -
  have "f_exp 0x7F000001 = 254" "f_frac 0x7F000001 \<noteq> 0" by (simp_all add: f_exp_def f_frac_def)
  then show ?thesis using floatScale2_overflow_gives_nan [of "0x7F000001"] by blast
qed

text \<open>
  \<^verbatim>\<open>floatFloat2Int\<close> truncates the value of its argument towards zero whenever that value
  is of absolute value below \<open>2 ^ 31\<close>, and returns the pattern \<open>0x80000000\<close> otherwise,
  infinities and NaNs included.
\<close>

theorem floatFloat2Int_correct:
  "(f_exp u < 255 \<and> \<bar>f_value u\<bar> < 2 ^ 31 \<longrightarrow> sint (floatFloat2Int u) = c_trunc (f_value u)) \<and>
   (f_exp u = 255 \<or> \<not> \<bar>f_value u\<bar> < 2 ^ 31 \<longrightarrow> floatFloat2Int u = 0x80000000)"
proof (cases "f_exp u = 255")
  case True
  then show ?thesis by (simp add: floatFloat2Int_out_of_range)
next
  case False
  then have "f_exp u < 255" using f_exp_less [of u] by simp
  then show ?thesis
    using False floatFloat2Int_in_range [of u] floatFloat2Int_out_of_range [of u]
    unfolding f_value_small_iff [OF \<open>f_exp u < 255\<close>] by (simp add: not_less)
qed

theorem floatFloat2Int_correct_witness:
  "f_exp 0xC0600000 < 255 \<and> \<bar>f_value 0xC0600000\<bar> < 2 ^ 31 \<and>
   sint (floatFloat2Int 0xC0600000) = c_trunc (f_value 0xC0600000)"
proof -
  have a: "f_exp 0xC0600000 < 255" and b: "f_exp 0xC0600000 < 158" by (simp_all add: f_exp_def)
  then have "\<bar>f_value 0xC0600000\<bar> < 2 ^ 31" using f_value_small_iff by blast
  then show ?thesis using a floatFloat2Int_correct [of "0xC0600000"] by blast
qed

text \<open>
  \<^verbatim>\<open>floatPower2\<close> returns the pattern of \<open>2\<close> to the power \<open>x\<close> for every \<open>x\<close> that single
  precision can represent (denormals included), zero below that range and positive infinity above.
\<close>

theorem floatPower2_correct:
  "(- 149 \<le> sint x \<and> sint x \<le> 127 \<longrightarrow> f_value (floatPower2 x) = 2 powi sint x) \<and>
   (sint x < - 149 \<longrightarrow> floatPower2 x = 0) \<and>
   (127 < sint x \<longrightarrow> floatPower2 x = f_pack 0 255 0)"
  using floatPower2_value [of x] by (auto simp: floatPower2_def f_pack_def)

theorem floatPower2_correct_witness:
  "f_value (floatPower2 10) = 2 powi 10 \<and> floatPower2 (- 150) = 0 \<and>
   floatPower2 128 = f_pack 0 255 0"
  using floatPower2_correct [of 10] floatPower2_correct [of "- 150"] floatPower2_correct [of 128]
  by simp

end
