(* ===== verification/Float_Ref.thy ===== *)
theory Float_Ref
  imports Bits_Lab
begin

text \<open>
  The floating-point reference functions of the data lab (\<open>tests.c\<close>). A \<open>float\<close> is its bit pattern, so
  \<open>u2f\<close> and \<open>f2u\<close> are the identity. The machine's multiplication of floats and its conversion to \<open>int\<close> are
  parameters; what is used of them is IEEE arithmetic: exact results where they exist, infinity on
  overflow, zero on underflow, truncation in the range of \<open>int\<close> and the pattern \<open>0x80000000\<close> outside it.
\<close>

record float_machine =
  fl_mul :: "uint32 \<Rightarrow> uint32 \<Rightarrow> uint32"
  fl_to_int :: "uint32 \<Rightarrow> int32"

definition u2f :: "uint32 \<Rightarrow> uint32" where "u2f u = u"

definition f2u :: "uint32 \<Rightarrow> uint32" where "f2u f = f"

definition isnan :: "uint32 \<Rightarrow> bool" where
  "isnan f \<longleftrightarrow> f_exp f = 255 \<and> f_frac f \<noteq> 0"

definition test_floatScale2 :: "float_machine \<Rightarrow> uint32 \<Rightarrow> uint32" where
  "test_floatScale2 M uf = (let f = u2f uf; tf = fl_mul M 0x40000000 f in if isnan f then uf else f2u tf)"

definition test_floatFloat2Int :: "float_machine \<Rightarrow> uint32 \<Rightarrow> int32" where
  "test_floatFloat2Int M uf = fl_to_int M (u2f uf)"

function test_floatPower2_loop :: "float_machine \<Rightarrow> int32 \<Rightarrow> uint32 \<Rightarrow> uint32 \<Rightarrow> uint32" where
  "test_floatPower2_loop M x result p2 =
     (if sint x > 0 then
        test_floatPower2_loop M (sar x 1) (if x AND 1 \<noteq> 0 then fl_mul M result p2 else result) (fl_mul M p2 p2)
      else result)"
  by pat_completeness auto
termination by (relation "measure (\<lambda>(M, x, r, p). nat (sint x))") (auto simp: sint_sar)

declare test_floatPower2_loop.simps [simp del]

definition test_floatPower2 :: "float_machine \<Rightarrow> int32 \<Rightarrow> uint32" where
  "test_floatPower2 M x =
     (if x = 0x80000000 then 0
      else if sint x < 0 then f2u (test_floatPower2_loop M (- x) 0x3F800000 0x3F000000)
      else f2u (test_floatPower2_loop M x 0x3F800000 0x40000000))"

section \<open>IEEE arithmetic\<close>

definition f_inf :: "uint32 \<Rightarrow> bool" where
  "f_inf u \<longleftrightarrow> f_exp u = 255 \<and> f_frac u = 0"

definition sign_mul :: "uint32 \<Rightarrow> uint32 \<Rightarrow> nat" where
  "sign_mul a b = (f_sign a + f_sign b) mod 2"

definition ieee_mul :: "(uint32 \<Rightarrow> uint32 \<Rightarrow> uint32) \<Rightarrow> bool" where
  "ieee_mul mul \<longleftrightarrow>
     (\<forall>a b. f_exp a < 255 \<and> f_exp b < 255 \<longrightarrow>
        (\<forall>c. f_exp c < 255 \<and> f_sign c = sign_mul a b \<and> f_value c = f_value a * f_value b \<longrightarrow> mul a b = c) \<and>
        (2 ^ 128 \<le> \<bar>f_value a * f_value b\<bar> \<longrightarrow> mul a b = f_pack (sign_mul a b) 255 0) \<and>
        (\<bar>f_value a * f_value b\<bar> \<le> 2 powi (- 150) \<longrightarrow> mul a b = f_pack (sign_mul a b) 0 0)) \<and>
     (\<forall>a b. f_inf a \<and> (f_inf b \<or> f_exp b < 255 \<and> f_value b \<noteq> 0) \<longrightarrow>
        mul a b = f_pack (sign_mul a b) 255 0 \<and> mul b a = f_pack (sign_mul a b) 255 0)"

definition ieee_to_int :: "(uint32 \<Rightarrow> int32) \<Rightarrow> bool" where
  "ieee_to_int cv \<longleftrightarrow> (\<forall>u. if f_exp u < 255 \<and> \<bar>f_value u\<bar> < 2 ^ 31 then sint (cv u) = c_trunc (f_value u) else cv u = 0x80000000)"

definition ieee :: "float_machine \<Rightarrow> bool" where
  "ieee M \<longleftrightarrow> ieee_mul (fl_mul M) \<and> ieee_to_int (fl_to_int M)"

lemma ieee_mulD:
  assumes "ieee_mul mul"
  shows ieee_exact: "f_exp a < 255 \<Longrightarrow> f_exp b < 255 \<Longrightarrow> f_exp c < 255 \<Longrightarrow> f_sign c = sign_mul a b \<Longrightarrow>
      f_value c = f_value a * f_value b \<Longrightarrow> mul a b = c"
    and ieee_overflow: "f_exp a < 255 \<Longrightarrow> f_exp b < 255 \<Longrightarrow> 2 ^ 128 \<le> \<bar>f_value a * f_value b\<bar> \<Longrightarrow> mul a b = f_pack (sign_mul a b) 255 0"
    and ieee_underflow: "f_exp a < 255 \<Longrightarrow> f_exp b < 255 \<Longrightarrow> \<bar>f_value a * f_value b\<bar> \<le> 2 powi (- 150) \<Longrightarrow> mul a b = f_pack (sign_mul a b) 0 0"
    and ieee_inf: "f_inf a \<Longrightarrow> f_inf b \<or> f_exp b < 255 \<and> f_value b \<noteq> 0 \<Longrightarrow> mul a b = f_pack (sign_mul a b) 255 0"
    and ieee_inf_right: "f_inf a \<Longrightarrow> f_inf b \<or> f_exp b < 255 \<and> f_value b \<noteq> 0 \<Longrightarrow> mul b a = f_pack (sign_mul a b) 255 0"
  using assms unfolding ieee_mul_def by blast+

section \<open>Powers of two\<close>

definition pow_pattern :: "int \<Rightarrow> uint32" where
  "pow_pattern e =
     (if e \<ge> 128 then f_pack 0 255 0
      else if e < - 149 then 0
      else if e \<ge> - 126 then f_pack 0 (nat (e + 127)) 0
      else f_pack 0 0 (2 ^ nat (e + 149)))"

lemma floatPower2_pattern: "floatPower2 x = pow_pattern (sint x)"
proof -
  consider "sint x \<ge> 128" | "sint x < - 149" | "- 126 \<le> sint x" "sint x \<le> 127" | "- 149 \<le> sint x" "sint x < - 126" by linarith
  then show ?thesis
  proof cases
    case 1
    then show ?thesis by (simp add: floatPower2_def pow_pattern_def f_pack_def)
  next
    case 2
    then show ?thesis by (simp add: floatPower2_def pow_pattern_def)
  next
    case 3
    then show ?thesis using floatPower2_normal [OF 3] by (simp add: pow_pattern_def)
  next
    case 4
    then show ?thesis using floatPower2_denormal [OF 4] by (simp add: pow_pattern_def)
  qed
qed

lemma pow_pattern_finite:
  assumes "- 149 \<le> e" "e \<le> 127"
  shows "f_exp (pow_pattern e) < 255" "f_sign (pow_pattern e) = 0" "f_value (pow_pattern e) = 2 powi e"
proof -
  have s: "sint (of_int e :: int32) = e" using assms by (intro sint_of_int32) simp_all
  show "f_value (pow_pattern e) = 2 powi e" using floatPower2_value [of "of_int e"] assms by (simp add: floatPower2_pattern s)
  have "f_exp (pow_pattern e) < 255 \<and> f_sign (pow_pattern e) = 0"
  proof (cases "- 126 \<le> e")
    case True
    then show ?thesis using assms f_pack_fields [of 0 "nat (e + 127)" 0] by (simp add: pow_pattern_def nat_less_iff)
  next
    case False
    then have "nat (e + 149) < 23" by simp
    then have "(2 :: nat) ^ nat (e + 149) < 2 ^ 23" by (rule power_strict_increasing) simp
    then show ?thesis using assms False f_pack_fields [of 0 0 "2 ^ nat (e + 149)"] by (simp add: pow_pattern_def)
  qed
  then show "f_exp (pow_pattern e) < 255" "f_sign (pow_pattern e) = 0" by blast+
qed

lemma zero_fields: "f_exp 0 = 0" "f_frac 0 = 0" "f_sign 0 = 0" "f_value 0 = 0" "f_pack 0 0 0 = 0"
  by (simp_all add: f_exp_def f_frac_def f_sign_def f_value_def f_magnitude_def f_pack_def)

lemma inf_fields: "f_exp (f_pack 0 255 0) = 255" "f_frac (f_pack 0 255 0) = 0" "f_sign (f_pack 0 255 0) = 0"
  using f_pack_fields [of 0 255 0] by simp_all

lemma pow_pattern_inf: "128 \<le> e \<Longrightarrow> f_inf (pow_pattern e) \<and> f_sign (pow_pattern e) = 0"
  by (simp add: pow_pattern_def f_inf_def inf_fields)

text \<open>A power of two with an exponent in the range of \<open>float\<close> or above is not zero and not a NaN.\<close>

lemma pow_pattern_nonzero:
  assumes "- 149 \<le> e"
  shows "f_inf (pow_pattern e) \<or> f_exp (pow_pattern e) < 255 \<and> f_value (pow_pattern e) \<noteq> 0"
  using pow_pattern_inf [of e] pow_pattern_finite [of e] assms by (cases "128 \<le> e") auto

lemma mul_pow_pattern:
  assumes mul: "ieee_mul mul" and ab: "0 \<le> a \<and> 0 \<le> b \<or> a \<le> 0 \<and> b \<le> 0"
  shows "mul (pow_pattern a) (pow_pattern b) = pow_pattern (a + b)"
proof -
  have zero: "pow_pattern e = 0" if "e < - 149" for e using that by (simp add: pow_pattern_def)
  have small: "f_exp (pow_pattern e) < 255 \<and> f_sign (pow_pattern e) = 0" if "e \<le> 127" for e
    using pow_pattern_finite [of e] that zero [of e] zero_fields by (cases "e < - 149") auto
  consider "128 \<le> a" "0 \<le> b" | "128 \<le> b" "0 \<le> a" "a < 128" | "a < - 149 \<or> b < - 149" "a \<le> 0" "b \<le> 0"
    | "- 149 \<le> a" "a \<le> 127" "- 149 \<le> b" "b \<le> 127" using ab by linarith
  then show ?thesis
  proof cases
    case 1
    then have "f_sign (pow_pattern b) = 0" using small [of b] pow_pattern_inf [of b] by (cases "b \<le> 127") auto
    then show ?thesis using 1 ieee_inf [OF mul, of "pow_pattern a" "pow_pattern b"] pow_pattern_inf [of a] pow_pattern_nonzero [of b]
      by (simp add: sign_mul_def pow_pattern_def [of "a + b"])
  next
    case 2
    then show ?thesis using ieee_inf_right [OF mul, of "pow_pattern b" "pow_pattern a"] pow_pattern_inf [of b] pow_pattern_nonzero [of a] small [of a]
      by (simp add: sign_mul_def pow_pattern_def [of "a + b"])
  next
    case 3
    then have "\<bar>f_value (pow_pattern a) * f_value (pow_pattern b)\<bar> \<le> 2 powi (- 150)" using zero zero_fields(4) by auto
    then show ?thesis using 3 ieee_underflow [OF mul, of "pow_pattern a" "pow_pattern b"] small [of a] small [of b] zero [of "a + b"]
      by (auto simp: sign_mul_def zero_fields)
  next
    case 4
    note fa = pow_pattern_finite [OF 4(1,2)] and fb = pow_pattern_finite [OF 4(3,4)]
    have v: "f_value (pow_pattern a) * f_value (pow_pattern b) = 2 powi (a + b)" using two_powi_add [of a b] by (simp only: fa fb)
    consider "a + b \<ge> 128" | "a + b < - 149" | "- 149 \<le> a + b" "a + b \<le> 127" by linarith
    then show ?thesis
    proof cases
      case 1
      then have "(2 :: real) powi 128 \<le> 2 powi (a + b)" by (intro power_int_increasing) simp_all
      then show ?thesis using 1 ieee_overflow [OF mul fa(1) fb(1)] fa(2) fb(2) unfolding v
        by (simp add: sign_mul_def pow_pattern_def [of "a + b"])
    next
      case 2
      then have "(2 :: real) powi (a + b) \<le> 2 powi (- 150)" by (intro power_int_increasing) simp_all
      then show ?thesis using 2 ieee_underflow [OF mul fa(1) fb(1)] fa(2) fb(2) zero [of "a + b"] unfolding v
        by (simp add: sign_mul_def zero_fields)
    next
      case 3
      note fc = pow_pattern_finite [OF 3]
      show ?thesis by (rule ieee_exact [OF mul fa(1) fb(1) fc(1)]) (use v fa fb fc in \<open>simp_all add: sign_mul_def\<close>)
    qed
  qed
qed

lemma odd_and_one: "x AND 1 \<noteq> 0 \<longleftrightarrow> odd (sint (x :: int32))"
proof -
  have "odd (sint x) \<longleftrightarrow> bit x 0" using bit_sint_iff [of x 0] by (simp add: bit_0)
  then show ?thesis by (simp add: and_one_eq bit_0 odd_iff_mod_2_eq_one)
qed

lemma test_floatPower2_loop_pattern:
  assumes mul: "ieee_mul (fl_mul M)" and s: "s = 1 \<or> s = - 1" and "0 \<le> a" "0 \<le> k" "0 \<le> sint x"
  shows "test_floatPower2_loop M x (pow_pattern (s * a)) (pow_pattern (s * k)) = pow_pattern (s * (a + k * sint x))"
  using assms(3-)
proof (induction "nat (sint x)" arbitrary: x a k rule: less_induct)
  case less
  show ?case
  proof (cases "sint x > 0")
    case True
    have h: "sint (sar x 1) = sint x div 2" by (simp add: sint_sar)
    define r where "r = (if odd (sint x) then a + k else a)"
    have m: "fl_mul M (pow_pattern (s * b)) (pow_pattern (s * c)) = pow_pattern (s * (b + c))" if "0 \<le> b" "0 \<le> c" for b c
      using mul_pow_pattern [OF mul, of "s * b" "s * c"] s that by (auto simp: distrib_left)
    have p: "fl_mul M (pow_pattern (s * k)) (pow_pattern (s * k)) = pow_pattern (s * (2 * k))"
      using m [of k k] less.prems by simp
    have q: "(if x AND 1 \<noteq> 0 then fl_mul M (pow_pattern (s * a)) (pow_pattern (s * k)) else pow_pattern (s * a)) = pow_pattern (s * r)"
      using m [of a k] less.prems by (simp add: odd_and_one r_def)
    have e: "r + 2 * k * sint (sar x 1) = a + k * sint x"
      unfolding h r_def by (cases "odd (sint x)") (auto simp: algebra_simps elim!: oddE evenE)
    have "test_floatPower2_loop M (sar x 1) (pow_pattern (s * r)) (pow_pattern (s * (2 * k))) = pow_pattern (s * (a + k * sint x))"
      unfolding e [symmetric] by (rule less.hyps) (use True less.prems h in \<open>simp_all add: r_def\<close>)
    then show ?thesis using True by (subst test_floatPower2_loop.simps) (simp only: p q if_True)
  qed (use less.prems in \<open>simp add: test_floatPower2_loop.simps\<close>)
qed

lemma pow_pattern_start: "pow_pattern 0 = 0x3F800000" "pow_pattern 1 = 0x40000000" "pow_pattern (- 1) = 0x3F000000"
  by (simp_all add: pow_pattern_def f_pack_def)

lemma test_floatPower2_eq:
  assumes "ieee M"
  shows "test_floatPower2 M x = floatPower2 x"
proof -
  have mul: "ieee_mul (fl_mul M)" using assms by (simp add: ieee_def)
  consider "x = 0x80000000" | "x \<noteq> 0x80000000" "sint x < 0" | "0 \<le> sint x" by linarith
  then show ?thesis
  proof cases
    case 1
    then show ?thesis by (simp add: test_floatPower2_def floatPower2_def)
  next
    case 2
    have "sint x \<noteq> - (2 ^ 31)" using 2(1) word_sint_eq [of x "0x80000000"] by simp
    then have "sint (- x) = - sint x" using int32_range [of x] by (intro sint_minus32) simp_all
    then show ?thesis using 2 test_floatPower2_loop_pattern [OF mul, of "- 1" 0 1 "- x"]
      by (simp add: test_floatPower2_def floatPower2_pattern pow_pattern_start f2u_def)
  next
    case 3
    then have "x \<noteq> 0x80000000" by auto
    then show ?thesis using 3 test_floatPower2_loop_pattern [OF mul, of 1 0 1 x]
      by (simp add: test_floatPower2_def floatPower2_pattern pow_pattern_start f2u_def)
  qed
qed

section \<open>Conversion and doubling\<close>

lemma test_floatFloat2Int_eq:
  assumes "ieee M"
  shows "test_floatFloat2Int M u = floatFloat2Int u"
proof -
  have cv: "if f_exp u < 255 \<and> \<bar>f_value u\<bar> < 2 ^ 31 then sint (fl_to_int M u) = c_trunc (f_value u) else fl_to_int M u = 0x80000000"
    using assms unfolding ieee_def ieee_to_int_def by blast
  show ?thesis
  proof (cases "f_exp u < 158")
    case True
    then have "\<bar>f_value u\<bar> < 2 ^ 31" using f_value_small_iff [of u] by simp
    then have "sint (fl_to_int M u) = sint (floatFloat2Int u)" using cv True floatFloat2Int_in_range [OF True] by simp
    then show ?thesis by (simp add: test_floatFloat2Int_def u2f_def word_sint_eq)
  next
    case False
    then have "\<not> (f_exp u < 255 \<and> \<bar>f_value u\<bar> < 2 ^ 31)" using f_value_small_iff [of u] by auto
    then show ?thesis using cv False floatFloat2Int_out_of_range [of u] by (simp add: test_floatFloat2Int_def u2f_def)
  qed
qed

lemma two_fields: "f_exp 0x40000000 = 128" "f_frac 0x40000000 = 0" "f_sign 0x40000000 = 0" "f_value 0x40000000 = 2"
  by (simp_all add: f_exp_def f_frac_def f_sign_def f_value_def f_magnitude_def power_int_def power_divide)

lemma sign_mul_two: "sign_mul 0x40000000 u = f_sign u" "sign_mul u 0x40000000 = f_sign u"
  using f_sign_less [of u] by (simp_all add: sign_mul_def two_fields)

lemma floatScale2_fields:
  assumes "f_exp u < 254"
  shows "f_exp (floatScale2 u) < 255" "f_sign (floatScale2 u) = f_sign u"
proof -
  have "f_exp (floatScale2 u) < 255 \<and> f_sign (floatScale2 u) = f_sign u"
  proof (cases "f_exp u = 0")
    case True
    have "2 * f_frac u div 2 ^ 23 < 2" using f_frac_less [of u] by simp
    then show ?thesis using f_pack_fields [of "f_sign u" "2 * f_frac u div 2 ^ 23" "2 * f_frac u mod 2 ^ 23"] f_sign_less [of u]
      by (simp add: floatScale2_denormal [OF True])
  next
    case False
    then show ?thesis using assms f_pack_fields [of "f_sign u" "f_exp u + 1" "f_frac u"] f_sign_less [of u] f_frac_less [of u]
      by (simp add: floatScale2_normal)
  qed
  then show "f_exp (floatScale2 u) < 255" "f_sign (floatScale2 u) = f_sign u" by blast+
qed

lemma top_binade: "f_exp u = 254 \<Longrightarrow> 2 ^ 127 \<le> \<bar>f_value u\<bar>"
  by (simp add: f_value_def abs_mult power_abs f_magnitude_def power_int_def)

lemma f_pack_unpack: "f_pack (f_sign u) (f_exp u) (f_frac u) = u"
  using word_eq_of_unat [OF f_unpack [of u]] by (simp add: f_pack_def)

text \<open>The reference doubles every pattern except a NaN; the puzzle differs from it only in the top binade.\<close>

lemma test_floatScale2_cases:
  assumes "ieee M"
  shows "test_floatScale2 M u =
    (if f_exp u = 254 then f_pack (f_sign u) 255 0 else floatScale2 u)"
proof -
  have mul: "ieee_mul (fl_mul M)" using assms by (simp add: ieee_def)
  consider "f_exp u < 254" | "f_exp u = 254" | "f_exp u = 255" "f_frac u = 0" | "f_exp u = 255" "f_frac u \<noteq> 0"
    using f_exp_less [of u] by linarith
  then show ?thesis
  proof cases
    case 1
    have "fl_mul M 0x40000000 u = floatScale2 u"
      using 1 floatScale2_doubles [OF 1] floatScale2_fields [OF 1]
      by (intro ieee_exact [OF mul]) (simp_all add: two_fields sign_mul_two)
    then show ?thesis using 1 by (simp add: test_floatScale2_def isnan_def u2f_def f2u_def)
  next
    case 2
    have "fl_mul M 0x40000000 u = f_pack (f_sign u) 255 0"
      using 2 top_binade [OF 2] ieee_overflow [OF mul, of "0x40000000" u] by (simp add: two_fields sign_mul_two abs_mult)
    then show ?thesis using 2 by (simp add: test_floatScale2_def isnan_def u2f_def f2u_def)
  next
    case 3
    have "fl_mul M 0x40000000 u = f_pack (f_sign u) 255 0"
      using 3 ieee_inf_right [OF mul, of u "0x40000000"] by (simp add: f_inf_def two_fields sign_mul_two)
    moreover have "floatScale2 u = u" using 3 f_exp_word_cases(1) [of u] by (simp add: floatScale2_def Let_def)
    ultimately show ?thesis using 3 f_pack_unpack [of u] by (simp add: test_floatScale2_def isnan_def u2f_def f2u_def)
  next
    case 4
    moreover have "floatScale2 u = u" using 4 f_exp_word_cases(1) [of u] by (simp add: floatScale2_def Let_def)
    ultimately show ?thesis by (simp add: test_floatScale2_def isnan_def u2f_def)
  qed
qed

lemma test_floatScale2_iff:
  assumes "ieee M"
  shows "test_floatScale2 M u = floatScale2 u \<longleftrightarrow> \<not> (f_exp u = 254 \<and> f_frac u \<noteq> 0)"
proof (cases "f_exp u = 254")
  case True
  then have s: "floatScale2 u = f_pack (f_sign u) 255 (f_frac u)" using floatScale2_normal [of u] by simp
  have "f_frac (f_pack (f_sign u) 255 (f_frac u)) = f_frac u" "f_frac (f_pack (f_sign u) 255 0) = 0"
    using f_pack_fields(3) [OF f_sign_less [of u], of 255] f_frac_less [of u] by simp_all
  then show ?thesis using True by (auto simp: test_floatScale2_cases [OF assms] s)
qed (simp add: test_floatScale2_cases [OF assms])

section \<open>A machine that meets the assumptions\<close>

text \<open>Multiplication on multiples of the least denormal, cutting what is below it: exact results are returned as they are.\<close>

definition f_units :: "uint32 \<Rightarrow> nat" where
  "f_units u = (if f_exp u = 0 then f_frac u else (2 ^ 23 + f_frac u) * 2 ^ (f_exp u - 1))"

definition unit_pattern :: "nat \<Rightarrow> nat \<Rightarrow> uint32" where
  "unit_pattern sg n =
     (if n < 2 ^ 23 then f_pack sg 0 n
      else let e = bitlen n - 23 in if e > 254 then f_pack sg 255 0 else f_pack sg e (n div 2 ^ (e - 1) - 2 ^ 23))"

definition unit_mul :: "uint32 \<Rightarrow> uint32 \<Rightarrow> uint32" where
  "unit_mul a b =
     (if f_exp a = 255 \<or> f_exp b = 255 then f_pack (sign_mul a b) 255 0
      else unit_pattern (sign_mul a b) (f_units a * f_units b div 2 ^ 149))"

definition unit_machine :: float_machine where
  "unit_machine = \<lparr>fl_mul = unit_mul, fl_to_int = floatFloat2Int\<rparr>"

lemma f_value_units: "\<bar>f_value u\<bar> = real (f_units u) * 2 powi (- 149)"
proof (cases "f_exp u = 0")
  case False
  then have "int (f_exp u) - 150 = int (f_exp u - 1) + - 149" by simp
  then have "(2 :: real) powi (int (f_exp u) - 150) = 2 ^ (f_exp u - 1) * 2 powi (- 149)"
    by (simp only: two_powi_add power_int_of_nat)
  then show ?thesis using False by (simp add: f_value_def abs_mult power_abs f_magnitude_def f_units_def)
qed (simp add: f_value_def abs_mult power_abs f_magnitude_def f_units_def)

lemma f_product_units: "\<bar>f_value a * f_value b\<bar> = real (f_units a * f_units b) * 2 powi (- 298)"
proof -
  have "(2 :: real) powi (- 298) = 2 powi (- 149) * 2 powi (- 149)" by (simp only: two_powi_add [symmetric]) simp
  then show ?thesis by (simp add: abs_mult f_value_units)
qed

lemma bitlen_eq: "2 ^ k \<le> n \<Longrightarrow> n < 2 ^ Suc k \<Longrightarrow> bitlen n = Suc k"
  using bitlen_le_iff [of n k] bitlen_le_iff [of n "Suc k"] by simp

lemma unit_pattern_units: "f_exp c < 255 \<Longrightarrow> unit_pattern (f_sign c) (f_units c) = c"
proof (cases "f_exp c = 0")
  case True
  then show ?thesis using f_frac_less [of c] f_pack_unpack [of c] by (simp add: unit_pattern_def f_units_def)
next
  case False
  assume c: "f_exp c < 255"
  let ?u = "(2 ^ 23 + f_frac c) * 2 ^ (f_exp c - 1)"
  have k: "23 + (f_exp c - 1) = 22 + f_exp c" using False by simp
  have lo: "2 ^ (22 + f_exp c) \<le> ?u" unfolding k [symmetric] power_add by simp
  have "?u < 2 ^ 24 * 2 ^ (f_exp c - 1)" using f_frac_less [of c] by simp
  then have hi: "?u < 2 ^ Suc (22 + f_exp c)" unfolding k [symmetric] by (simp add: power_add)
  have "(2 :: nat) ^ 23 \<le> 2 ^ (22 + f_exp c)" using False by (intro power_increasing) simp_all
  then have "\<not> ?u < 2 ^ 23" using lo by linarith
  then show ?thesis using False c bitlen_eq [OF lo hi] f_pack_unpack [of c]
    by (simp add: unit_pattern_def f_units_def)
qed

lemma unit_machine_ieee: "ieee unit_machine"
proof -
  have exact: "unit_mul a b = c" if "f_exp a < 255 \<and> f_exp b < 255"
    and c: "f_exp c < 255 \<and> f_sign c = sign_mul a b \<and> f_value c = f_value a * f_value b" for a b c
  proof -
    have "real (f_units c) * 2 powi (- 149) = real (f_units a * f_units b) * 2 powi (- 298)"
      using c f_value_units [of c] f_product_units [of a b] by simp
    then have "real (f_units c) * 2 ^ 149 = real (f_units a * f_units b)" by (simp add: power_int_def field_simps)
    then have "real (f_units c * 2 ^ 149) = real (f_units a * f_units b)" by simp
    then have "f_units a * f_units b = f_units c * 2 ^ 149" by (simp only: of_nat_eq_iff)
    then show ?thesis using that unit_pattern_units [of c] by (auto simp: unit_mul_def)
  qed
  have over: "unit_mul a b = f_pack (sign_mul a b) 255 0"
    if f: "f_exp a < 255 \<and> f_exp b < 255" and p: "2 ^ 128 \<le> \<bar>f_value a * f_value b\<bar>" for a b
  proof -
    let ?n = "f_units a * f_units b div 2 ^ 149"
    have "(2 :: real) ^ 426 \<le> real (f_units a * f_units b)" using p unfolding f_product_units by (simp add: power_int_def field_simps)
    then have "real (2 ^ 426) \<le> real (f_units a * f_units b)" by simp
    then have "2 ^ 426 \<le> f_units a * f_units b" by (simp only: of_nat_le_iff)
    then have "2 ^ 277 \<le> ?n" by (subst less_eq_div_iff_mult_less_eq) simp_all
    then have "254 < bitlen ?n - 23" using bitlen_le_iff [of ?n 277] by simp
    moreover have "(2 :: nat) ^ 23 \<le> 2 ^ 277" by (rule power_increasing) simp_all
    then have "\<not> ?n < 2 ^ 23" using \<open>2 ^ 277 \<le> ?n\<close> by linarith
    ultimately show ?thesis using f by (simp add: unit_mul_def unit_pattern_def Let_def)
  qed
  have under: "unit_mul a b = f_pack (sign_mul a b) 0 0"
    if f: "f_exp a < 255 \<and> f_exp b < 255" and p: "\<bar>f_value a * f_value b\<bar> \<le> 2 powi (- 150)" for a b
  proof -
    have "real (f_units a * f_units b) \<le> 2 ^ 148" using p unfolding f_product_units by (simp add: power_int_def field_simps)
    then have "real (f_units a * f_units b) \<le> real (2 ^ 148)" by simp
    then have "f_units a * f_units b \<le> 2 ^ 148" by (simp only: of_nat_le_iff)
    then have "f_units a * f_units b div 2 ^ 149 = 0" by simp
    then show ?thesis using f by (auto simp: unit_mul_def unit_pattern_def)
  qed
  have "ieee_mul unit_mul" unfolding ieee_mul_def
    using exact over under by (auto simp: unit_mul_def f_inf_def sign_mul_def add.commute)
  moreover have "ieee_to_int floatFloat2Int" unfolding ieee_to_int_def
  proof
    fix u
    show "if f_exp u < 255 \<and> \<bar>f_value u\<bar> < 2 ^ 31 then sint (floatFloat2Int u) = c_trunc (f_value u) else floatFloat2Int u = 0x80000000"
      using floatFloat2Int_in_range [of u] floatFloat2Int_out_of_range [of u] f_value_small_iff [of u] by (cases "f_exp u < 158") auto
  qed
  ultimately show ?thesis by (simp add: ieee_def unit_machine_def)
qed

end
