(* ===== verification/Loops.thy ===== *)
theory Loops
  imports Prelude
begin

text \<open>
  Counting loops over C's \<open>int\<close> and arrays indexed by it. A counter that would
  leave the range of \<open>int\<close> and an index outside its array are faults.
\<close>

definition INT_MAX :: int where "INT_MAX = 2147483647"

definition iadd :: "int \<Rightarrow> int \<Rightarrow> int exec" where
  "iadd a b = (if - INT_MAX - 1 \<le> a + b \<and> a + b \<le> INT_MAX then Inr (a + b) else Inl IntOverflow)"

definition imul :: "int \<Rightarrow> int \<Rightarrow> int exec" where
  "imul a b = (if - INT_MAX - 1 \<le> a * b \<and> a * b \<le> INT_MAX then Inr (a * b) else Inl IntOverflow)"

definition rdi :: "'a list \<Rightarrow> int \<Rightarrow> 'a exec" where
  "rdi xs i = (if 0 \<le> i then rd xs (nat i) else Inl OutOfBounds)"

definition wri :: "'a list \<Rightarrow> int \<Rightarrow> 'a \<Rightarrow> 'a list exec" where
  "wri xs i v = (if 0 \<le> i then wr xs (nat i) v else Inl OutOfBounds)"

text \<open>\<open>for (i = lo; i < hi; i += d)\<close>\<close>

function for_up :: "int \<Rightarrow> int \<Rightarrow> int \<Rightarrow> (int \<Rightarrow> 's \<Rightarrow> 's exec) \<Rightarrow> 's \<Rightarrow> 's exec" where
  "for_up d lo hi body s =
     (if lo < hi then
        if d \<le> 0 then Inl NoTermination
        else sbind (body lo s) (\<lambda>s'. if INT_MAX < lo + d then Inl IntOverflow
                                     else for_up d (lo + d) hi body s')
      else Inr s)"
  by pat_completeness auto
termination by (relation "measure (\<lambda>(d, lo, hi, body, s). nat (hi - lo))") auto

declare for_up.simps [simp del]

lemma iadd_simp [simp]: "- INT_MAX - 1 \<le> a + b \<Longrightarrow> a + b \<le> INT_MAX \<Longrightarrow> iadd a b = Inr (a + b)"
  by (simp add: iadd_def)

lemma imul_simp [simp]: "- INT_MAX - 1 \<le> a * b \<Longrightarrow> a * b \<le> INT_MAX \<Longrightarrow> imul a b = Inr (a * b)"
  by (simp add: imul_def)

lemma rdi_simp [simp]: "0 \<le> i \<Longrightarrow> i < int (length xs) \<Longrightarrow> rdi xs i = Inr (xs ! nat i)"
  by (simp add: rdi_def nat_less_iff)

lemma wri_simp [simp]: "0 \<le> i \<Longrightarrow> i < int (length xs) \<Longrightarrow> wri xs i v = Inr (xs[nat i := v])"
  by (simp add: wri_def nat_less_iff)

lemma for_up_done [simp]: "hi \<le> lo \<Longrightarrow> for_up d lo hi body s = Inr s"
  by (subst for_up.simps) simp

text \<open>Total correctness: the execution returns, with a result satisfying \<open>Q\<close>.\<close>

definition returns :: "'a exec \<Rightarrow> ('a \<Rightarrow> bool) \<Rightarrow> bool" where
  "returns r Q \<longleftrightarrow> (\<exists>x. r = Inr x \<and> Q x)"

lemma returns_Inr [simp]: "returns (Inr x) Q \<longleftrightarrow> Q x"
  and returns_Inl [simp]: "\<not> returns (Inl e) Q"
  by (simp_all add: returns_def)

lemma returns_bind: "returns m (\<lambda>x. returns (k x) Q) \<Longrightarrow> returns (sbind m k) Q"
  by (auto simp: returns_def)

lemma returns_mono: "returns m Q \<Longrightarrow> (\<And>x. Q x \<Longrightarrow> R x) \<Longrightarrow> returns m R"
  by (auto simp: returns_def)

lemma returnsE: "returns m Q \<Longrightarrow> (\<And>x. m = Inr x \<Longrightarrow> Q x \<Longrightarrow> P) \<Longrightarrow> P"
  by (auto simp: returns_def)

lemma dvd_next: "d dvd i - (lo + d) \<longleftrightarrow> d dvd i - lo" for d :: int
  using dvd_add_left_iff [of d d "i - (lo + d)"] by simp

text \<open>
  The invariant rule: the loop returns, in a state satisfying the invariant at
  the first counter value past the bound.
\<close>

lemma for_up_rule:
  assumes d: "0 < d" and ov: "hi + d \<le> INT_MAX + 1" and "I lo s"
    and step: "\<And>i s. lo \<le> i \<Longrightarrow> i < hi \<Longrightarrow> d dvd i - lo \<Longrightarrow> I i s \<Longrightarrow> returns (body i s) (I (i + d))"
  shows "returns (for_up d lo hi body s)
    (\<lambda>s'. \<exists>i. I i s' \<and> lo \<le> i \<and> hi \<le> i \<and> d dvd i - lo \<and> (i < hi + d \<or> i = lo))"
  using assms(3,4)
proof (induction "nat (hi - lo)" arbitrary: lo s rule: less_induct)
  case less
  show ?case
  proof (cases "lo < hi")
    case True
    from less.prems(2) [of lo s] less.prems(1) True obtain t where t: "body lo s = Inr t" "I (lo + d) t"
      by (auto simp: returns_def)
    have next_eq: "for_up d lo hi body s = for_up d (lo + d) hi body t"
      using t True d ov by (subst for_up.simps) simp
    have "returns (for_up d (lo + d) hi body t) (\<lambda>s'. \<exists>i. I i s' \<and> lo + d \<le> i \<and> hi \<le> i \<and>
        d dvd i - (lo + d) \<and> (i < hi + d \<or> i = lo + d))"
    proof (rule less.hyps)
      show "nat (hi - (lo + d)) < nat (hi - lo)" using True d by simp
      show "returns (body i s) (I (i + d))"
        if "lo + d \<le> i" "i < hi" "d dvd i - (lo + d)" "I i s" for i s
        using that d less.prems(2) [of i s] by (simp add: dvd_next)
    qed (rule t)
    then show ?thesis unfolding next_eq
      by (rule returns_mono) (use True d in \<open>auto simp: dvd_next\<close>)
  qed (use less.prems in auto)
qed

lemma for_up_to:
  assumes "0 < d" "hi + d \<le> INT_MAX + 1" "lo \<le> hi" "d dvd hi - lo" "I lo s"
    and "\<And>i s. lo \<le> i \<Longrightarrow> i < hi \<Longrightarrow> d dvd i - lo \<Longrightarrow> I i s \<Longrightarrow> returns (body i s) (I (i + d))"
  shows "returns (for_up d lo hi body s) (I hi)"
proof -
  obtain s' i where r: "for_up d lo hi body s = Inr s'" "I i s'" "lo \<le> i" "hi \<le> i" "d dvd i - lo"
    "i < hi + d \<or> i = lo"
    using for_up_rule [of d hi I lo s body] assms unfolding returns_def by blast
  have "d dvd i - hi" using r(5) assms(4) dvd_diff [of d "i - lo" "hi - lo"] by simp
  moreover have "0 \<le> i - hi" "i - hi < d" using r assms by auto
  ultimately have "i = hi" using zdvd_imp_le [of d "i - hi"] by fastforce
  then show ?thesis using r by (auto simp: returns_def)
qed

lemma for_up_1:
  assumes "hi \<le> INT_MAX" "lo \<le> hi" "I lo s"
    and "\<And>i s. lo \<le> i \<Longrightarrow> i < hi \<Longrightarrow> I i s \<Longrightarrow> returns (body i s) (I (i + 1))"
  shows "returns (for_up 1 lo hi body s) (I hi)"
  by (rule for_up_to) (use assms in auto)

text \<open>A loop whose body faults at some counter value, after rounds that succeed.\<close>

lemma for_up_fault:
  assumes "0 < d" "hi + d \<le> INT_MAX + 1" "lo \<le> m" "m < hi" "d dvd m - lo" "I lo s"
    and "\<And>i s. lo \<le> i \<Longrightarrow> i < m \<Longrightarrow> d dvd i - lo \<Longrightarrow> I i s \<Longrightarrow> returns (body i s) (I (i + d))"
    and "\<And>s. I m s \<Longrightarrow> body m s = Inl e"
  shows "for_up d lo hi body s = Inl e"
  using assms(3-8)
proof (induction "nat (m - lo)" arbitrary: lo s rule: less_induct)
  case less
  show ?case
  proof (cases "lo = m")
    case True
    then show ?thesis using less.prems assms(1) by (subst for_up.simps) simp
  next
    case False
    then obtain t where t: "body lo s = Inr t" "I (lo + d) t" using less.prems by (force simp: returns_def)
    have "d \<le> m - lo" using less.prems False by (intro zdvd_imp_le) auto
    moreover have "d dvd m - (lo + d)" using less.prems(3) by (simp add: dvd_next)
    ultimately have "for_up d (lo + d) hi body t = Inl e"
      by (intro less.hyps) (use less.prems t assms(1) in \<open>auto simp: dvd_next\<close>)
    then show ?thesis using t False less.prems assms(1,2) by (subst for_up.simps) simp
  qed
qed

text \<open>A loop whose body never faults is a fold over the counter values.\<close>

lemma for_up_fold:
  assumes "hi \<le> INT_MAX" "\<And>i s. lo \<le> i \<Longrightarrow> i < hi \<Longrightarrow> body i s = Inr (g i s)"
  shows "for_up 1 lo hi body s = Inr (fold g [lo..hi - 1] s)"
  using assms(2)
proof (induction "nat (hi - lo)" arbitrary: lo s rule: less_induct)
  case less
  show ?case
  proof (cases "lo < hi")
    case True
    then have "for_up 1 (lo + 1) hi body (g lo s) = Inr (fold g [lo + 1..hi - 1] (g lo s))"
      by (intro less.hyps) (use less.prems in auto)
    then show ?thesis
      using True less.prems [of lo s] assms(1) by (subst for_up.simps) (simp add: upto_rec1)
  qed simp
qed

end
