(* ===== verification/Stdio.thy ===== *)
theory Stdio
  imports Prelude
begin

text \<open>
  What the programs use of the C library's formatted input and output: the
  conversions \<^verbatim>\<open>%d\<close>, \<^verbatim>\<open>%u\<close> and \<^verbatim>\<open>%s\<close> of the \<^verbatim>\<open>scanf\<close> family on the input that is left,
  and \<^verbatim>\<open>%d\<close> of the \<^verbatim>\<open>printf\<close> family, with the round trip between them.
\<close>

named_theorems scans \<open>what the conversions read from printed numbers and words\<close>

definition is_digit_char :: "char \<Rightarrow> bool" where
  "is_digit_char c \<longleftrightarrow> 48 \<le> (of_char c :: nat) \<and> (of_char c :: nat) \<le> 57"

definition is_space_char :: "char \<Rightarrow> bool" where
  "is_space_char c \<longleftrightarrow> (of_char c :: nat) = 32 \<or> 9 \<le> (of_char c :: nat) \<and> (of_char c :: nat) \<le> 13"

definition digits_value :: "string \<Rightarrow> int" where
  "digits_value ds = fold (\<lambda>c n. 10 * n + (int (of_char c) - 48)) ds 0"

text \<open>\<^verbatim>\<open>sscanf\<close> with \<^verbatim>\<open>%d\<close>: white space, a sign, digits.  (A number outside \<^verbatim>\<open>int\<close> is undefined in C.)\<close>

definition scan_int :: "string \<Rightarrow> int option" where
  "scan_int cs =
     (let cs = dropWhile is_space_char cs;
          neg = (cs \<noteq> [] \<and> hd cs = CHR ''-'');
          cs = (if cs \<noteq> [] \<and> (hd cs = CHR ''-'' \<or> hd cs = CHR ''+'') then tl cs else cs);
          ds = takeWhile is_digit_char cs
      in if ds = [] then None else Some (if neg then - digits_value ds else digits_value ds))"

text \<open>The input that a numeric conversion leaves, whether it matches or not.\<close>

definition after_int :: "string \<Rightarrow> string" where
  "after_int cs =
     (let cs = dropWhile is_space_char cs;
          cs = (if cs \<noteq> [] \<and> (hd cs = CHR ''-'' \<or> hd cs = CHR ''+'') then tl cs else cs)
      in dropWhile is_digit_char cs)"

text \<open>\<^verbatim>\<open>%s\<close>: the next word and the input after it; no word is the end of the input.\<close>

definition scan_word :: "string \<Rightarrow> string \<times> string" where
  "scan_word cs = (let cs = dropWhile is_space_char cs
     in (takeWhile (\<lambda>c. \<not> is_space_char c) cs, dropWhile (\<lambda>c. \<not> is_space_char c) cs))"

fun dec :: "nat \<Rightarrow> string" where
  "dec n = (if n < 10 then [char_of (48 + n)] else dec (n div 10) @ [char_of (48 + n mod 10)])"

declare dec.simps [simp del]

definition format_d :: "int \<Rightarrow> string" where
  "format_d i = (if i < 0 then CHR ''-'' # dec (nat (- i)) else dec (nat i))"

section \<open>Reading what was printed\<close>

lemma digit_char: "n < 10 \<Longrightarrow> of_char (char_of (48 + n) :: char) = (48 + n :: nat)"
  by (simp add: of_char_of)

lemma dec_digits: "list_all is_digit_char (dec n)" "dec n \<noteq> []"
proof (induction n rule: dec.induct)
  case (1 n)
  { case 1
    have "n mod 10 \<le> 9" using mod_less_divisor [of 10 n] by simp
    then show ?case using "1.IH" by (simp add: dec.simps [of n] is_digit_char_def digit_char) }
  { case 2 then show ?case by (simp add: dec.simps [of n]) }
qed

lemma digits_value_snoc: "digits_value (ds @ [c]) = 10 * digits_value ds + (int (of_char c) - 48)"
  by (simp add: digits_value_def)

lemma digits_value_dec: "digits_value (dec n) = int n"
proof (induction n rule: dec.induct)
  case (1 n)
  show ?case
  proof (cases "n < 10")
    case True
    then show ?thesis by (simp add: dec.simps [of n] digits_value_def digit_char)
  next
    case False
    have "10 * int (n div 10) + int (n mod 10) = int n" by presburger
    then show ?thesis using False "1.IH" by (simp add: dec.simps [of n] digits_value_snoc digit_char)
  qed
qed

text \<open>A numeral ends where the input ends or a character that is no digit follows.\<close>

definition ends_number :: "string \<Rightarrow> bool" where
  "ends_number cs \<longleftrightarrow> cs = [] \<or> \<not> is_digit_char (hd cs)"

lemma takeWhile_digits:
  "list_all P ds \<Longrightarrow> cs = [] \<or> \<not> P (hd cs) \<Longrightarrow> takeWhile P (ds @ cs) = ds \<and> dropWhile P (ds @ cs) = cs"
  by (induction ds) (auto simp: takeWhile_eq_Nil_iff dropWhile_eq_self_iff)

lemma digit_start:
  assumes "is_digit_char c"
  shows "\<not> is_space_char c" "c \<noteq> CHR ''-''" "c \<noteq> CHR ''+''"
  using assms by (auto simp: is_digit_char_def is_space_char_def)

lemma dec_start: "dec n = d # ds \<Longrightarrow> \<not> is_space_char d \<and> d \<noteq> CHR ''-'' \<and> d \<noteq> CHR ''+''"
  using dec_digits(1) [of n] digit_start [of d] by simp

lemma scan_dec [scans]:
  assumes "list_all is_space_char sp" "ends_number cs"
  shows "scan_int (sp @ dec n @ cs) = Some (int n)" "after_int (sp @ dec n @ cs) = cs"
proof -
  obtain d ds where d: "dec n = d # ds" using dec_digits(2) [of n] by (cases "dec n") auto
  have s: "dropWhile is_space_char (sp @ dec n @ cs) = dec n @ cs"
    using takeWhile_digits [of is_space_char sp "dec n @ cs"] assms(1) dec_start [OF d] by (simp add: d)
  have t: "takeWhile is_digit_char (dec n @ cs) = dec n" "dropWhile is_digit_char (dec n @ cs) = cs"
    using takeWhile_digits [of is_digit_char "dec n" cs] dec_digits(1) [of n] assms(2) by (simp_all add: ends_number_def)
  show "scan_int (sp @ dec n @ cs) = Some (int n)" using dec_start [OF d] digits_value_dec [of n] t(1) d
    unfolding scan_int_def s Let_def by auto
  show "after_int (sp @ dec n @ cs) = cs" using dec_start [OF d] t(2) d unfolding after_int_def s Let_def by auto
qed

lemma scan_word_word [scans]:
  assumes "list_all is_space_char sp" "list_all (\<lambda>c. \<not> is_space_char c) word" "word \<noteq> []" "cs = [] \<or> is_space_char (hd cs)"
  shows "scan_word (sp @ word @ cs) = (word, cs)"
proof -
  have "dropWhile is_space_char (sp @ word @ cs) = word @ cs"
    using takeWhile_digits [of is_space_char sp "word @ cs"] assms by (cases "word") auto
  then show ?thesis using takeWhile_digits [of "\<lambda>c. \<not> is_space_char c" word cs] assms by (simp add: scan_word_def)
qed

lemma scan_word_end: "list_all is_space_char sp \<Longrightarrow> scan_word sp = ([], [])"
proof -
  assume "list_all is_space_char sp"
  then have "dropWhile is_space_char sp = []" by (simp add: dropWhile_eq_Nil_conv list_all_iff)
  then show ?thesis unfolding scan_word_def Let_def by (simp only:) simp
qed

lemma scan_word_shorter: "scan_word cs = (word, cs') \<Longrightarrow> word \<noteq> [] \<Longrightarrow> length cs' < length cs"
proof -
  assume a: "scan_word cs = (word, cs')" "word \<noteq> []"
  let ?t = "dropWhile is_space_char cs"
  have "length ?t \<le> length cs" by (rule length_dropWhile_le)
  moreover have "length ?t = length word + length cs'"
    using a(1) by (auto simp: scan_word_def Let_def length_append [symmetric] simp del: length_append)
  ultimately show ?thesis using a(2) by (cases word) auto
qed

lemma after_int_le: "length (after_int cs) \<le> length cs"
proof -
  have "length (dropWhile is_space_char cs) \<le> length cs" by (rule length_dropWhile_le)
  moreover have "length (dropWhile is_digit_char xs) \<le> length xs" for xs by (rule length_dropWhile_le)
  moreover have "length (tl xs) \<le> length xs" for xs :: string by simp
  ultimately show ?thesis unfolding after_int_def Let_def by (smt (verit) order_trans)
qed

end
