(* ===== verification/Btest.thy ===== *)
theory Btest
  imports Float_Ref Loops Stdio
begin

text \<open>
  The data lab's test harness (\<open>btest.c\<close>) on its table of puzzles (\<open>decl.c\<close>): the test values it
  generates, the loops over them, the score and the command line. The C library's \<open>rand\<close>, \<open>strtof\<close> and
  the arithmetic of \<open>double\<close> are parameters, as is what an uninitialised stack word holds. What is printed
  is a list of lines. A score is an integer: the \<open>double\<close> of the code only ever holds small whole numbers.
\<close>

definition TEST_RANGE :: int where "TEST_RANGE = 500000"

definition MAX_TEST_VALS :: int where "MAX_TEST_VALS = 13 * TEST_RANGE"

record btest_env =
  lib_rand :: "nat \<Rightarrow> int"
  lib_strtof :: "string \<Rightarrow> uint32 \<times> string"
  dbl_of_int :: "int \<Rightarrow> uint64"
  dbl_to_int :: "uint64 \<Rightarrow> int32"
  dbl_add :: "uint64 \<Rightarrow> uint64 \<Rightarrow> uint64"
  dbl_sub :: "uint64 \<Rightarrow> uint64 \<Rightarrow> uint64"
  dbl_mul :: "uint64 \<Rightarrow> uint64 \<Rightarrow> uint64"
  dbl_div :: "uint64 \<Rightarrow> uint64 \<Rightarrow> uint64"
  dbl_pow :: "uint64 \<Rightarrow> uint64 \<Rightarrow> uint64"
  stack_junk :: "nat \<Rightarrow> int"

datatype funct = F0 int32 | F1 "int32 \<Rightarrow> int32" | F2 "int32 \<Rightarrow> int32 \<Rightarrow> int32" | F3 "int32 \<Rightarrow> int32 \<Rightarrow> int32 \<Rightarrow> int32"

record test_rec =
  puzzle_name :: string
  solution_funct :: "funct option"
  test_funct :: "funct option"
  puzzle_args :: int
  puzzle_ops :: string
  op_limit :: int
  rating :: int
  arg_ranges :: "(int \<times> int) list"

record btest_opts =
  grade :: bool
  timeout_limit :: int
  test_fname :: "string option"
  has_arg :: "bool list"
  argval :: "uint32 list"
  global_rating :: int

datatype btest_line = Heading | Failed string "int32 list" int32 int32 | Score int int int string | Total_points int int

section \<open>The test values\<close>

text \<open>The \<open>k\<close>-th call of \<open>random_val\<close> uses the \<open>k\<close>-th value of \<open>rand\<close>.\<close>

definition RAND_MAX :: int where "RAND_MAX = 2147483647"

definition random_val :: "btest_env \<Rightarrow> nat \<Rightarrow> int \<Rightarrow> int \<Rightarrow> int32" where
  "random_val E k mn mx =
     (let weight = dbl_div E (dbl_of_int E (lib_rand E k)) (dbl_of_int E RAND_MAX)
      in dbl_to_int E (dbl_add E (dbl_mul E (dbl_of_int E mn) (dbl_sub E (dbl_of_int E 1) weight))
                                 (dbl_mul E (dbl_of_int E mx) weight)))"

text \<open>\<open>test_vals[test_count++] = v\<close> on the part of the array that is filled.\<close>

definition push_val :: "int32 \<Rightarrow> int32 list \<Rightarrow> int32 list exec" where
  "push_val v vs = (if int (length vs) < MAX_TEST_VALS then Inr (vs @ [v]) else Inl OutOfBounds)"

fun push_vals :: "int32 list \<Rightarrow> int32 list \<Rightarrow> int32 list exec" where
  "push_vals [] vs = Inr vs"
| "push_vals (x # xs) vs = sbind (push_val x vs) (push_vals xs)"

definition float_row :: "uint32 \<Rightarrow> uint32 list" where
  "float_row i =
     (let smallest_norm = 0x00800000; one = 0x3F800000; largest_norm = 0x7F000000; sign = 0x80000000 in
      [i, sign OR i,
       smallest_norm + i, smallest_norm - i, sign OR (smallest_norm + i), sign OR (smallest_norm - i),
       one + i, one - i, sign OR (one + i), sign OR (one - i),
       largest_norm - i, sign OR (largest_norm - i)])"

definition float_specials :: "uint32 list" where
  "float_specials = (let inf = 0x7F800000; nan = 0x7FC00000; sign = 0x80000000 in [inf, sign OR inf, nan, sign OR nan])"

definition gen_float_vals :: "int \<Rightarrow> int32 list exec" where
  "gen_float_vals test_range =
     (let test_range = (if test_range > 2 ^ 23 then 2 ^ 23 else test_range) in
      sbind (for_up 1 0 test_range (\<lambda>i. push_vals (float_row (of_int i))) []) (push_vals float_specials))"

definition gen_all_vals :: "int \<Rightarrow> int \<Rightarrow> int32 list exec" where
  "gen_all_vals mn mx = for_up 1 mn (mx + 1) (\<lambda>i. push_val (of_int i)) []"

definition sample_row :: "btest_env \<Rightarrow> int \<Rightarrow> int \<Rightarrow> int \<Rightarrow> int32 list \<times> nat \<Rightarrow> (int32 list \<times> nat) exec" where
  "sample_row E mn mx i s =
     (let (vs, k) = s in
      sbind (iadd mn i) (\<lambda>lo. sbind (push_val (of_int lo) vs) (\<lambda>vs.
      sbind (iadd mx (- i)) (\<lambda>hi. sbind (push_val (of_int hi) vs) (\<lambda>vs.
      sbind (if i \<ge> mn \<and> i \<le> mx then push_val (of_int i) vs else Inr vs) (\<lambda>vs.
      sbind (if - i \<ge> mn \<and> - i \<le> mx then push_val (of_int (- i)) vs else Inr vs) (\<lambda>vs.
      sbind (push_val (random_val E k mn mx) vs) (\<lambda>vs.
      Inr (vs, Suc k)))))))))"

definition gen_vals :: "btest_opts \<Rightarrow> btest_env \<Rightarrow> int \<Rightarrow> int \<Rightarrow> int \<Rightarrow> nat \<Rightarrow> nat \<Rightarrow> (int32 list \<times> nat) exec" where
  "gen_vals opts E mn mx test_range arg k =
     sbind (rd (has_arg opts) arg) (\<lambda>h.
     if h then sbind (rd (argval opts) arg) (\<lambda>v. Inr ([v], k))
     else if mn = 1 \<and> mx = 1 then sbind (gen_float_vals test_range) (\<lambda>vs. Inr (vs, k))
     else sbind (iadd mx (- MAX_TEST_VALS)) (\<lambda>m.
       if m \<le> mn then sbind (gen_all_vals mn mx) (\<lambda>vs. Inr (vs, k))
       else for_up 1 0 test_range (sample_row E mn mx) ([], k)))"

section \<open>Testing one puzzle\<close>

definition judge :: "btest_opts \<Rightarrow> string \<Rightarrow> int32 list \<Rightarrow> int32 \<Rightarrow> int32 \<Rightarrow> int \<times> btest_line list" where
  "judge opts name args r rt =
     (let error = r \<noteq> rt in (of_bool error, if error \<and> \<not> grade opts then [Failed name args r rt] else []))"

text \<open>A call through a pointer of another type would read arguments that were not passed.\<close>

definition test_0_arg :: "btest_opts \<Rightarrow> funct \<Rightarrow> funct \<Rightarrow> string \<Rightarrow> (int \<times> btest_line list) exec" where
  "test_0_arg opts f ft name =
     (case (f, ft) of (F0 r, F0 rt) \<Rightarrow> Inr (judge opts name [] r rt) | _ \<Rightarrow> Inl Uninitialised)"

definition test_1_arg :: "btest_opts \<Rightarrow> funct \<Rightarrow> funct \<Rightarrow> int32 \<Rightarrow> string \<Rightarrow> (int \<times> btest_line list) exec" where
  "test_1_arg opts f ft arg1 name =
     (case (f, ft) of (F1 f1, F1 f1t) \<Rightarrow> Inr (judge opts name [arg1] (f1 arg1) (f1t arg1)) | _ \<Rightarrow> Inl Uninitialised)"

definition test_2_arg :: "btest_opts \<Rightarrow> funct \<Rightarrow> funct \<Rightarrow> int32 \<Rightarrow> int32 \<Rightarrow> string \<Rightarrow> (int \<times> btest_line list) exec" where
  "test_2_arg opts f ft arg1 arg2 name =
     (case (f, ft) of (F2 f2, F2 f2t) \<Rightarrow> Inr (judge opts name [arg1, arg2] (f2 arg1 arg2) (f2t arg1 arg2))
      | _ \<Rightarrow> Inl Uninitialised)"

definition test_3_arg :: "btest_opts \<Rightarrow> funct \<Rightarrow> funct \<Rightarrow> int32 \<Rightarrow> int32 \<Rightarrow> int32 \<Rightarrow> string \<Rightarrow>
    (int \<times> btest_line list) exec" where
  "test_3_arg opts f ft arg1 arg2 arg3 name =
     (case (f, ft) of
        (F3 f3, F3 f3t) \<Rightarrow> Inr (judge opts name [arg1, arg2, arg3] (f3 arg1 arg2 arg3) (f3t arg1 arg2 arg3))
      | _ \<Rightarrow> Inl Uninitialised)"

text \<open>A loop that adds up errors and returns at the first one.\<close>

fun until_error :: "('a \<Rightarrow> (int \<times> 'b list) exec) \<Rightarrow> 'a list \<Rightarrow> (int \<times> 'b list) exec" where
  "until_error t [] = Inr (0, [])"
| "until_error t (x # xs) =
     sbind (t x) (\<lambda>(errors, out).
     if errors \<noteq> 0 then Inr (errors, out)
     else sbind (until_error t xs) (\<lambda>(errors, out'). Inr (errors, out @ out')))"

definition test_ranges :: "btest_env \<Rightarrow> int \<Rightarrow> int list" where
  "test_ranges E args =
     (let range = dbl_of_int E TEST_RANGE;
          sqrt = sint (dbl_to_int E (dbl_pow E range 0x3FE0000000000000));
          cbrt = sint (dbl_to_int E (dbl_pow E range 0x3FD54FDF3B645A1D));
          rs = (if args = 1 then [TEST_RANGE, stack_junk E 1, stack_junk E 2]
                else if args = 2 then [sqrt, sqrt, stack_junk E 2]
                else [cbrt, cbrt, cbrt])
      in map (\<lambda>r. if r < 1 then 1 else r) rs)"

fun gen_args :: "btest_opts \<Rightarrow> btest_env \<Rightarrow> ((int \<times> int) \<times> int) list \<Rightarrow> nat \<Rightarrow> nat \<Rightarrow> (int32 list list \<times> nat) exec" where
  "gen_args opts E [] arg k = Inr ([], k)"
| "gen_args opts E (((mn, mx), r) # rs) arg k =
     sbind (gen_vals opts E mn mx r arg k) (\<lambda>(vs, k).
     sbind (gen_args opts E rs (Suc arg) k) (\<lambda>(vss, k). Inr (vs # vss, k)))"

definition btest_function :: "btest_opts \<Rightarrow> btest_env \<Rightarrow> test_rec \<Rightarrow> funct \<Rightarrow> nat \<Rightarrow>
    ((int \<times> btest_line list) \<times> nat) exec" where
  "btest_function opts E t f k =
     (let args = puzzle_args t; name = puzzle_name t in
      if args < 0 \<or> args > 3 then Inl ExitCalled
      else sbind (gen_args opts E (take (nat args) (zip (arg_ranges t) (test_ranges E args))) 0 k) (\<lambda>(vals, k).
      sbind (case test_funct t of None \<Rightarrow> Inl OutOfBounds | Some ft \<Rightarrow>
        if args = 0 then test_0_arg opts f ft name
        else sbind (rd vals 0) (until_error (\<lambda>a1.
          if args = 1 then test_1_arg opts f ft a1 name
          else sbind (rd vals 1) (until_error (\<lambda>a2.
            if args = 2 then test_2_arg opts f ft a1 a2 name
            else sbind (rd vals 2) (until_error (\<lambda>a3. test_3_arg opts f ft a1 a2 a3 name)))))))
      (\<lambda>r. Inr (r, k))))"

section \<open>The whole run\<close>

record run_state =
  run_errors :: int
  points :: int
  max_points :: int
  run_out :: "btest_line list"
  rand_count :: nat

fun run_loop :: "btest_opts \<Rightarrow> btest_env \<Rightarrow> test_rec list \<Rightarrow> run_state \<Rightarrow> run_state exec" where
  "run_loop opts E [] s = Inl OutOfBounds"
| "run_loop opts E (t # ts) s =
     (case solution_funct t of None \<Rightarrow> Inr s | Some f \<Rightarrow>
        if test_fname opts \<noteq> None \<and> test_fname opts \<noteq> Some (puzzle_name t) then run_loop opts E ts s
        else let rate = (if global_rating opts \<noteq> 0 then global_rating opts else rating t) in
          sbind (btest_function opts E t f (rand_count s)) (\<lambda>((terrors, out), k).
          let tpoints = rate * (if terrors = 0 then 1 else 0) in
          run_loop opts E ts \<lparr>run_errors = run_errors s + terrors, points = points s + tpoints,
            max_points = max_points s + rate,
            run_out = run_out s @ out @ (if grade opts \<or> terrors < 1 then [Score tpoints rate terrors (puzzle_name t)] else []),
            rand_count = k\<rparr>))"

definition run_tests :: "btest_opts \<Rightarrow> btest_env \<Rightarrow> test_rec list \<Rightarrow> (int \<times> btest_line list) exec" where
  "run_tests opts E ts =
     sbind (run_loop opts E ts \<lparr>run_errors = 0, points = 0, max_points = 0, run_out = [Heading], rand_count = 0\<rparr>) (\<lambda>s.
     Inr (run_errors s, run_out s @ [Total_points (points s) (max_points s)]))"

section \<open>The puzzles\<close>

definition TMin :: int where "TMin = - 2147483648"
definition TMax :: int where "TMax = 2147483647"

definition int_ranges :: "(int \<times> int) list" where "int_ranges = [(TMin, TMax), (TMin, TMax), (TMin, TMax)]"
definition float_ranges :: "(int \<times> int) list" where "float_ranges = [(1, 1), (1, 1), (1, 1)]"

definition entry :: "string \<Rightarrow> funct \<Rightarrow> funct \<Rightarrow> int \<Rightarrow> string \<Rightarrow> int \<Rightarrow> int \<Rightarrow> (int \<times> int) list \<Rightarrow> test_rec" where
  "entry name f ft args ops limit rate ranges =
     \<lparr>puzzle_name = name, solution_funct = Some f, test_funct = Some ft, puzzle_args = args, puzzle_ops = ops,
      op_limit = limit, rating = rate, arg_ranges = ranges\<rparr>"

definition test_set :: "float_machine \<Rightarrow> test_rec list" where
  "test_set M =
     [entry ''bitXor'' (F2 bitXor) (F2 test_bitXor) 2 ''& ~'' 14 1 int_ranges,
      entry ''tmin'' (F0 tmin) (F0 test_tmin) 0 ''! ~ & ^ | + << >>'' 4 1 int_ranges,
      entry ''isTmax'' (F1 isTmax) (F1 test_isTmax) 1 ''! ~ & ^ | +'' 10 1 int_ranges,
      entry ''allOddBits'' (F1 allOddBits) (F1 test_allOddBits) 1 ''! ~ & ^ | + << >>'' 12 2 int_ranges,
      entry ''negate'' (F1 negate) (F1 test_negate) 1 ''! ~ & ^ | + << >>'' 5 2 int_ranges,
      entry ''isAsciiDigit'' (F1 isAsciiDigit) (F1 test_isAsciiDigit) 1 ''! ~ & ^ | + << >>'' 15 3 int_ranges,
      entry ''conditional'' (F3 conditional) (F3 test_conditional) 3 ''! ~ & ^ | << >>'' 16 3 int_ranges,
      entry ''isLessOrEqual'' (F2 isLessOrEqual) (F2 test_isLessOrEqual) 2 ''! ~ & ^ | + << >>'' 24 3 int_ranges,
      entry ''logicalNeg'' (F1 logicalNeg) (F1 test_logicalNeg) 1 ''~ & ^ | + << >>'' 12 4 int_ranges,
      entry ''howManyBits'' (F1 howManyBits) (F1 test_howManyBits) 1 ''! ~ & ^ | + << >>'' 90 4 int_ranges,
      entry ''floatScale2'' (F1 floatScale2) (F1 (test_floatScale2 M)) 1 ''$'' 30 4 float_ranges,
      entry ''floatFloat2Int'' (F1 floatFloat2Int) (F1 (test_floatFloat2Int M)) 1 ''$'' 30 4 float_ranges,
      entry ''floatPower2'' (F1 floatPower2) (F1 (test_floatPower2 M)) 1 ''$'' 30 4 float_ranges,
      \<lparr>puzzle_name = '''', solution_funct = None, test_funct = None, puzzle_args = 0, puzzle_ops = '''', op_limit = 0,
       rating = 0, arg_ranges = [(0, 0), (0, 0), (0, 0)]\<rparr>]"

section \<open>The command line\<close>

definition digit_in :: "int \<Rightarrow> char \<Rightarrow> int option" where
  "digit_in b c =
     (let n = int (of_char c);
          d = (if 48 \<le> n \<and> n \<le> 57 then n - 48 else if 97 \<le> n \<and> n \<le> 102 then n - 87
               else if 65 \<le> n \<and> n \<le> 70 then n - 55 else b)
      in if d < b then Some d else None)"

fun number_in :: "int \<Rightarrow> int \<Rightarrow> string \<Rightarrow> int" where
  "number_in b n [] = n"
| "number_in b n (c # cs) = (case digit_in b c of None \<Rightarrow> n | Some d \<Rightarrow> number_in b (b * n + d) cs)"

text \<open>\<open>strtoll\<close> with base 0: decimal, octal or hexadecimal by the prefix, at the limits of \<open>long long\<close>.\<close>

definition strtoll :: "string \<Rightarrow> int" where
  "strtoll cs =
     (let cs = dropWhile is_space_char cs;
          neg = (cs \<noteq> [] \<and> hd cs = CHR ''-'');
          cs = (if cs \<noteq> [] \<and> (hd cs = CHR ''-'' \<or> hd cs = CHR ''+'') then tl cs else cs);
          v = (case cs of
                 CHR ''0'' # x # d # ds \<Rightarrow>
                   if (x = CHR ''x'' \<or> x = CHR ''X'') \<and> digit_in 16 d \<noteq> None then number_in 16 0 (d # ds) else number_in 8 0 cs
               | CHR ''0'' # ds \<Rightarrow> number_in 8 0 cs
               | _ \<Rightarrow> number_in 10 0 cs)
      in max (- (2 ^ 63)) (min (2 ^ 63 - 1) (if neg then - v else v)))"

text \<open>The scan for the marks of a hexadecimal or a floating-point number.\<close>

definition num_marks :: "string \<Rightarrow> bool \<times> bool" where
  "num_marks sval =
     fold (\<lambda>c (ishex, isfloat).
       if c = CHR ''x'' \<or> c = CHR ''X'' then (True, isfloat)
       else if c = CHR ''e'' \<or> c = CHR ''E'' then (ishex, if \<not> ishex then True else isfloat)
       else if c = CHR ''.'' then (ishex, True)
       else (ishex, isfloat)) sval (False, False)"

text \<open>The result of \<open>get_num_val\<close> and the new contents of \<open>*valp\<close>.\<close>

definition get_num_val :: "btest_env \<Rightarrow> string \<Rightarrow> uint32 \<Rightarrow> bool \<times> uint32" where
  "get_num_val E sval valp =
     (if snd (num_marks sval) then
        let (fval, endp) = lib_strtof E sval in if endp = [] then (True, fval) else (False, valp)
      else
        let llval = strtoll sval; upperbits = llval div 2 ^ 31 in
        if valp = 0 \<and> (upperbits = 0 \<or> upperbits = - 1 \<or> upperbits = 1) then (True, of_int llval) else (False, valp))"

definition set_arg :: "btest_env \<Rightarrow> nat \<Rightarrow> string \<Rightarrow> btest_opts \<Rightarrow> btest_opts exec" where
  "set_arg E i optarg opts =
     sbind (rd (argval opts) i) (\<lambda>old.
     let (h, v) = get_num_val E optarg old in
     sbind (wr (has_arg opts) i h) (\<lambda>hs. sbind (wr (argval opts) i v) (\<lambda>vs.
     if \<not> h then Inl ExitCalled else Inr (opts\<lparr>has_arg := hs, argval := vs\<rparr>))))"

definition atoi :: "string \<Rightarrow> int" where
  "atoi cs = (case scan_int cs of None \<Rightarrow> 0 | Some n \<Rightarrow> n)"

definition btest_option :: "btest_env \<Rightarrow> char \<times> string \<Rightarrow> btest_opts \<Rightarrow> btest_opts exec" where
  "btest_option E opt opts =
     (let (c, optarg) = opt in
      if c = CHR ''g'' then Inr (opts\<lparr>grade := True\<rparr>)
      else if c = CHR ''f'' then Inr (opts\<lparr>test_fname := Some optarg\<rparr>)
      else if c = CHR ''r'' then (if atoi optarg < 0 then Inl ExitCalled else Inr (opts\<lparr>global_rating := atoi optarg\<rparr>))
      else if c = CHR ''1'' then set_arg E 0 optarg opts
      else if c = CHR ''2'' then set_arg E 1 optarg opts
      else if c = CHR ''3'' then set_arg E 2 optarg opts
      else if c = CHR ''T'' then Inr (opts\<lparr>timeout_limit := atoi optarg\<rparr>)
      else Inl ExitCalled)"

fun btest_options :: "btest_env \<Rightarrow> (char \<times> string) list \<Rightarrow> btest_opts \<Rightarrow> btest_opts exec" where
  "btest_options E [] opts = Inr opts"
| "btest_options E (opt # os) opts = sbind (btest_option E opt opts) (btest_options E os)"

definition start_opts :: btest_opts where
  "start_opts = \<lparr>grade = False, timeout_limit = 10, test_fname = None, has_arg = [False, False, False],
     argval = [0, 0, 0], global_rating = 0\<rparr>"

definition btest_main :: "btest_env \<Rightarrow> float_machine \<Rightarrow> (char \<times> string) list \<Rightarrow> (int \<times> btest_line list) exec" where
  "btest_main E M args = sbind (btest_options E args start_opts) (\<lambda>opts. run_tests opts E (test_set M))"

section \<open>The values that are generated\<close>

text \<open>The patterns on which the reference and the puzzle for doubling agree.\<close>

definition scale_ok :: "uint32 \<Rightarrow> bool" where
  "scale_ok u \<longleftrightarrow> \<not> (f_exp u = 254 \<and> f_frac u \<noteq> 0)"

lemma push_vals_ok: "int (length vs + length xs) \<le> MAX_TEST_VALS \<Longrightarrow> push_vals xs vs = Inr (vs @ xs)"
  by (induction xs arbitrary: vs) (simp_all add: push_val_def)

lemma scale_ok_below:
  assumes "unat u mod 2 ^ 31 \<le> 0x7F000000"
  shows "scale_ok u"
proof -
  have "unat u mod 2 ^ 31 = f_exp u * 2 ^ 23 + f_frac u"
    unfolding f_unpack [of u] add.assoc by (subst mod_mult_self3) (use f_exp_less [of u] f_frac_less [of u] in simp)
  then show ?thesis using assms by (auto simp: scale_ok_def)
qed

lemma sign_or:
  assumes "unat (u :: uint32) < 2 ^ 31"
  shows "unat (0x80000000 OR u) = 2 ^ 31 + unat u"
proof -
  have "unat (u OR shl 1 31) = unat u + unat (1 :: uint32) * 2 ^ 31" by (rule unat_or_shl) (use assms in simp_all)
  then show ?thesis by (simp add: or.commute push_bit_eq_mult)
qed

lemma scale_ok_signed: "unat u \<le> 0x7F000000 \<Longrightarrow> scale_ok u \<and> scale_ok (0x80000000 OR u)"
  using scale_ok_below [of u] scale_ok_below [of "0x80000000 OR u"] sign_or [of u] by simp

lemma unat_row:
  assumes "unat (w :: uint32) < 500000"
  shows "unat (0x800000 + w) = 0x800000 + unat w" "unat (0x3F800000 + w) = 0x3F800000 + unat w"
    "unat (0x800000 - w) = 0x800000 - unat w" "unat (0x3F800000 - w) = 0x3F800000 - unat w"
    "unat (0x7F000000 - w) = 0x7F000000 - unat w"
  using assms by (simp_all add: unat_word_ariths unat_sub word_le_nat_alt)

lemma float_row_ok: "unat w < 500000 \<Longrightarrow> list_all scale_ok (float_row w)"
  using scale_ok_signed [of w] scale_ok_signed [of "0x800000 + w"] scale_ok_signed [of "0x800000 - w"]
    scale_ok_signed [of "0x3F800000 + w"] scale_ok_signed [of "0x3F800000 - w"] scale_ok_signed [of "0x7F000000 - w"]
  by (simp add: float_row_def unat_row)

lemma float_specials_ok: "list_all scale_ok float_specials"
  by (simp add: float_specials_def scale_ok_def f_exp_def f_frac_def)

lemma gen_float_vals_ok: "returns (gen_float_vals TEST_RANGE) (list_all scale_ok)"
proof -
  have "returns (for_up 1 0 TEST_RANGE (\<lambda>i. push_vals (float_row (of_int i))) [])
      (\<lambda>vs. int (length vs) = 12 * TEST_RANGE \<and> list_all scale_ok vs)"
  proof (rule for_up_1 [where I = "\<lambda>i vs. int (length vs) = 12 * i \<and> list_all scale_ok vs"])
    fix i vs assume i: "0 \<le> i" "i < TEST_RANGE" and vs: "int (length vs) = 12 * i \<and> list_all scale_ok vs"
    have "(of_int i :: uint32) = of_nat (nat i)" using i by simp
    then have "unat (of_int i :: uint32) = nat i" using i by (simp only:) (intro unat_of_nat_less, simp add: TEST_RANGE_def)
    then have "list_all scale_ok (float_row (of_int i))" using i by (intro float_row_ok) (simp add: TEST_RANGE_def)
    moreover have l: "length (float_row (of_int i)) = 12" by (simp add: float_row_def)
    moreover have "push_vals (float_row (of_int i)) vs = Inr (vs @ float_row (of_int i))"
      by (rule push_vals_ok) (use i vs l in \<open>simp add: MAX_TEST_VALS_def TEST_RANGE_def\<close>)
    ultimately show "returns (push_vals (float_row (of_int i)) vs) (\<lambda>vs. int (length vs) = 12 * (i + 1) \<and> list_all scale_ok vs)"
      using vs by simp
  qed (simp_all add: TEST_RANGE_def INT_MAX_def)
  then obtain vs where vs: "for_up 1 0 TEST_RANGE (\<lambda>i. push_vals (float_row (of_int i))) [] = Inr vs"
    "int (length vs) = 12 * TEST_RANGE" "list_all scale_ok vs" by (rule returnsE) auto
  have "push_vals float_specials vs = Inr (vs @ float_specials)"
    by (rule push_vals_ok) (use vs(2) in \<open>simp add: MAX_TEST_VALS_def TEST_RANGE_def float_specials_def\<close>)
  moreover have "\<not> TEST_RANGE > 2 ^ 23" by (simp add: TEST_RANGE_def)
  ultimately show ?thesis using vs float_specials_ok by (simp add: gen_float_vals_def Let_def)
qed

lemma sample_row_ok:
  assumes "0 \<le> i" "i < TEST_RANGE" "int (length vs) \<le> 5 * i"
  shows "\<exists>vs'. sample_row E TMin TMax i (vs, k) = Inr (vs', Suc k) \<and> int (length vs') \<le> 5 * (i + 1)"
  using assms by (simp add: sample_row_def push_val_def iadd_def TMin_def TMax_def INT_MAX_def MAX_TEST_VALS_def TEST_RANGE_def)

lemma gen_int_vals_ok:
  assumes "r \<le> TEST_RANGE"
  shows "returns (for_up 1 0 r (sample_row E TMin TMax) ([], k)) (\<lambda>_. True)"
proof (cases "0 \<le> r")
  case True
  have "returns (for_up 1 0 r (sample_row E TMin TMax) ([], k)) (\<lambda>s. int (length (fst s)) \<le> 5 * r)"
  proof (rule for_up_1 [where I = "\<lambda>i s. int (length (fst s)) \<le> 5 * i"])
    fix i and s :: "int32 list \<times> nat" assume "0 \<le> i" "i < r" "int (length (fst s)) \<le> 5 * i"
    then show "returns (sample_row E TMin TMax i s) (\<lambda>s. int (length (fst s)) \<le> 5 * (i + 1))"
      using sample_row_ok [of i "fst s" E "snd s"] assms by (auto simp: returns_def)
  qed (use assms True in \<open>simp_all add: TEST_RANGE_def INT_MAX_def\<close>)
  then show ?thesis by (rule returns_mono) simp
qed simp

text \<open>With no fixed argument, the values of one argument are generated without leaving the array.\<close>

lemma gen_vals_ok:
  assumes "has_arg opts = [False, False, False]" "arg < 3" "r \<le> TEST_RANGE"
  shows "(mn, mx) = (TMin, TMax) \<Longrightarrow> returns (gen_vals opts E mn mx r arg k) (\<lambda>_. True)"
    and "(mn, mx) = (1, 1) \<Longrightarrow> r = TEST_RANGE \<Longrightarrow> returns (gen_vals opts E mn mx r arg k) (\<lambda>s. list_all scale_ok (fst s))"
proof -
  have h: "rd (has_arg opts) arg = Inr False" using assms(1,2) by (auto simp: rd_def less_Suc_eq numeral_3_eq_3)
  show "returns (gen_vals opts E mn mx r arg k) (\<lambda>_. True)" if "(mn, mx) = (TMin, TMax)"
    using that gen_int_vals_ok [OF assms(3)]
    by (simp add: gen_vals_def h) (simp add: TMin_def TMax_def iadd_def INT_MAX_def MAX_TEST_VALS_def TEST_RANGE_def)
  show "returns (gen_vals opts E mn mx r arg k) (\<lambda>s. list_all scale_ok (fst s))" if "(mn, mx) = (1, 1)" "r = TEST_RANGE"
    using that gen_float_vals_ok by (auto simp: gen_vals_def h returns_def)
qed

section \<open>A puzzle that agrees with its reference passes\<close>

definition free_args :: "btest_opts \<Rightarrow> bool" where
  "free_args opts \<longleftrightarrow> has_arg opts = [False, False, False]"

text \<open>What is used of \<open>pow\<close>: the square root and the cube root of the range do not exceed it.\<close>

definition roots_ok :: "btest_env \<Rightarrow> bool" where
  "roots_ok E \<longleftrightarrow>
     sint (dbl_to_int E (dbl_pow E (dbl_of_int E TEST_RANGE) 0x3FE0000000000000)) \<le> TEST_RANGE \<and>
     sint (dbl_to_int E (dbl_pow E (dbl_of_int E TEST_RANGE) 0x3FD54FDF3B645A1D)) \<le> TEST_RANGE"

definition no_errors :: "((int \<times> btest_line list) \<times> nat) exec \<Rightarrow> bool" where
  "no_errors r \<longleftrightarrow> returns r (\<lambda>s. fst s = (0, []))"

lemma until_error_ok: "(\<And>x. x \<in> set xs \<Longrightarrow> t x = Inr (0, [])) \<Longrightarrow> until_error t xs = Inr (0, [])"
  by (induction xs) simp_all

lemma judge_same [simp]: "judge opts name args r r = (0, [])"
  by (simp add: judge_def)

lemma entry_simps [simp]:
  "puzzle_name (entry nm f ft args ops lm rate rs) = nm" "solution_funct (entry nm f ft args ops lm rate rs) = Some f"
  "test_funct (entry nm f ft args ops lm rate rs) = Some ft" "puzzle_args (entry nm f ft args ops lm rate rs) = args"
  "rating (entry nm f ft args ops lm rate rs) = rate" "arg_ranges (entry nm f ft args ops lm rate rs) = rs"
  by (simp_all add: entry_def)

lemma test_ranges_le:
  assumes "roots_ok E"
  shows "test_ranges E 1 ! 0 = TEST_RANGE" "i < 2 \<Longrightarrow> test_ranges E 2 ! i \<le> TEST_RANGE" "i < 3 \<Longrightarrow> test_ranges E 3 ! i \<le> TEST_RANGE"
    "length (test_ranges E n) = 3"
  using assms by (auto simp: test_ranges_def roots_ok_def TEST_RANGE_def Let_def less_Suc_eq numeral_2_eq_2 numeral_3_eq_3)

lemma gen_args_int:
  assumes "free_args opts" "\<And>r. r \<in> set rs \<Longrightarrow> r \<le> TEST_RANGE" "arg + length rs \<le> 3"
  shows "returns (gen_args opts E (map (Pair (TMin, TMax)) rs) arg k) (\<lambda>s. length (fst s) = length rs)"
  using assms(2,3)
proof (induction rs arbitrary: arg k)
  case (Cons r rs)
  have "returns (gen_vals opts E TMin TMax r arg k) (\<lambda>_. True)"
    by (rule gen_vals_ok(1)) (use assms(1) Cons.prems in \<open>auto simp: free_args_def\<close>)
  then obtain vs k' where g: "gen_vals opts E TMin TMax r arg k = Inr (vs, k')" by (auto simp: returns_def)
  have "returns (gen_args opts E (map (Pair (TMin, TMax)) rs) (Suc arg) k') (\<lambda>s. length (fst s) = length rs)"
    by (rule Cons.IH) (use Cons.prems in auto)
  then show ?case using g by (auto simp: returns_def)
qed simp

lemma zip_same: "length xs = 3 \<Longrightarrow> zip [p, p, p] xs = map (Pair p) xs"
  by (auto simp: numeral_3_eq_3 length_Suc_conv)

lemma gen_args_first:
  assumes "free_args opts" "roots_ok E" "args \<in> {0, 1, 2, 3}"
  shows "returns (gen_args opts E (take (nat args) (zip int_ranges (test_ranges E args))) 0 k) (\<lambda>s. length (fst s) = nat args)"
proof -
  let ?rs = "take (nat args) (test_ranges E args)"
  have "take (nat args) (zip int_ranges (test_ranges E args)) = map (Pair (TMin, TMax)) ?rs"
    by (simp add: int_ranges_def zip_same test_ranges_le(4) [OF assms(2)] take_map)
  moreover have "r \<le> TEST_RANGE" if "r \<in> set ?rs" for r
    using that assms(3) test_ranges_le [OF assms(2)] by (auto simp: in_set_conv_nth)
  ultimately show ?thesis
    using gen_args_int [OF assms(1), of ?rs 0 E k] assms(3) test_ranges_le(4) [OF assms(2), of args] by auto
qed

lemma pass_0:
  assumes "free_args opts" "roots_ok E" "f = ft"
  shows "no_errors (btest_function opts E (entry nm (F0 f) (F0 ft) 0 ops lm rate rs) (F0 f) k)"
  using assms by (simp add: no_errors_def btest_function_def test_0_arg_def)

lemma pass_1:
  assumes "free_args opts" "roots_ok E" "\<And>x. f x = ft x"
  shows "no_errors (btest_function opts E (entry nm (F1 f) (F1 ft) 1 ops lm rate int_ranges) (F1 f) k)"
proof -
  obtain vals k' where g: "gen_args opts E (take 1 (zip int_ranges (test_ranges E 1))) 0 k = Inr (vals, k')" "length vals = 1"
    using gen_args_first [OF assms(1,2), of 1 k] by (auto simp: returns_def)
  have "until_error (\<lambda>a1. test_1_arg opts (F1 f) (F1 ft) a1 nm) xs = Inr (0, [])" for xs
    by (rule until_error_ok) (simp add: test_1_arg_def assms(3))
  then show ?thesis using g by (simp add: no_errors_def btest_function_def)
qed

lemma pass_2:
  assumes "free_args opts" "roots_ok E" "\<And>x y. f x y = ft x y"
  shows "no_errors (btest_function opts E (entry nm (F2 f) (F2 ft) 2 ops lm rate int_ranges) (F2 f) k)"
proof -
  obtain vals k' where g: "gen_args opts E (take 2 (zip int_ranges (test_ranges E 2))) 0 k = Inr (vals, k')" "length vals = 2"
    using gen_args_first [OF assms(1,2), of 2 k] by (auto simp: returns_def)
  have "until_error (\<lambda>a2. test_2_arg opts (F2 f) (F2 ft) a1 a2 nm) xs = Inr (0, [])" for xs a1
    by (rule until_error_ok) (simp add: test_2_arg_def assms(3))
  then have "until_error (\<lambda>a1. until_error (\<lambda>a2. test_2_arg opts (F2 f) (F2 ft) a1 a2 nm) ys) xs = Inr (0, [])" for xs ys
    by - (rule until_error_ok, simp)
  then show ?thesis using g by (simp add: no_errors_def btest_function_def)
qed

lemma pass_3:
  assumes "free_args opts" "roots_ok E" "\<And>x y z. f x y z = ft x y z"
  shows "no_errors (btest_function opts E (entry nm (F3 f) (F3 ft) 3 ops lm rate int_ranges) (F3 f) k)"
proof -
  obtain vals k' where g: "gen_args opts E (take 3 (zip int_ranges (test_ranges E 3))) 0 k = Inr (vals, k')" "length vals = 3"
    using gen_args_first [OF assms(1,2), of 3 k] by (auto simp: returns_def)
  have "until_error (\<lambda>a3. test_3_arg opts (F3 f) (F3 ft) a1 a2 a3 nm) xs = Inr (0, [])" for xs a1 a2
    by (rule until_error_ok) (simp add: test_3_arg_def assms(3))
  then have "until_error (\<lambda>a2. until_error (\<lambda>a3. test_3_arg opts (F3 f) (F3 ft) a1 a2 a3 nm) ys) xs = Inr (0, [])" for xs ys a1
    by - (rule until_error_ok, simp)
  then have "until_error (\<lambda>a1. until_error (\<lambda>a2. until_error (\<lambda>a3. test_3_arg opts (F3 f) (F3 ft) a1 a2 a3 nm) zs) ys) xs = Inr (0, [])"
    for xs ys zs by - (rule until_error_ok, simp)
  then show ?thesis using g by (simp add: no_errors_def btest_function_def)
qed

lemma pass_float:
  assumes "free_args opts" "roots_ok E" "\<And>x. scale_ok x \<Longrightarrow> f x = ft x"
  shows "no_errors (btest_function opts E (entry nm (F1 f) (F1 ft) 1 ops lm rate float_ranges) (F1 f) k)"
proof -
  have r: "take 1 (zip float_ranges (test_ranges E 1)) = [((1, 1), TEST_RANGE)]"
    by (simp add: float_ranges_def test_ranges_def) (simp add: TEST_RANGE_def)
  obtain vs k' where g: "gen_vals opts E 1 1 TEST_RANGE 0 k = Inr (vs, k')" "list_all scale_ok vs"
    using gen_vals_ok(2) [of opts 0 TEST_RANGE 1 1 E k] assms(1) by (auto simp: returns_def free_args_def)
  have "until_error (\<lambda>a1. test_1_arg opts (F1 f) (F1 ft) a1 nm) vs = Inr (0, [])"
    by (rule until_error_ok) (use g(2) assms(3) in \<open>simp add: test_1_arg_def list_all_iff\<close>)
  then show ?thesis using g r by (simp add: no_errors_def btest_function_def rd_def)
qed

section \<open>The run over the table\<close>

definition selected :: "btest_opts \<Rightarrow> test_rec \<Rightarrow> bool" where
  "selected opts t \<longleftrightarrow> test_fname opts = None \<or> test_fname opts = Some (puzzle_name t)"

definition puzzle_weight :: "btest_opts \<Rightarrow> test_rec \<Rightarrow> int" where
  "puzzle_weight opts t = (if global_rating opts \<noteq> 0 then global_rating opts else rating t)"

text \<open>What a run prints when every selected puzzle gets all its points.\<close>

definition full_marks :: "btest_opts \<Rightarrow> test_rec list \<Rightarrow> btest_line list" where
  "full_marks opts ts = map (\<lambda>t. Score (puzzle_weight opts t) (puzzle_weight opts t) 0 (puzzle_name t)) (filter (selected opts) ts)"

definition full_points :: "btest_opts \<Rightarrow> test_rec list \<Rightarrow> int" where
  "full_points opts ts = sum_list (map (puzzle_weight opts) (filter (selected opts) ts))"

lemma run_loop_clean:
  assumes "\<And>t. t \<in> set ts \<Longrightarrow> \<exists>f. solution_funct t = Some f \<and> (\<forall>k. no_errors (btest_function opts E t f k))"
    and "solution_funct z = None"
  shows "returns (run_loop opts E (ts @ [z]) s) (\<lambda>s'. run_errors s' = run_errors s \<and>
    points s' = points s + full_points opts ts \<and> max_points s' = max_points s + full_points opts ts \<and>
    run_out s' = run_out s @ full_marks opts ts)"
  using assms(1)
proof (induction ts arbitrary: s)
  case Nil
  then show ?case using assms(2) by (simp add: full_points_def full_marks_def)
next
  case (Cons t ts)
  have IH: "returns (run_loop opts E (ts @ [z]) s) (\<lambda>s'. run_errors s' = run_errors s \<and>
    points s' = points s + full_points opts ts \<and> max_points s' = max_points s + full_points opts ts \<and>
    run_out s' = run_out s @ full_marks opts ts)" for s
    by (rule Cons.IH) (use Cons.prems in simp)
  obtain f where f: "solution_funct t = Some f" "\<And>k. no_errors (btest_function opts E t f k)" using Cons.prems by auto
  show ?case
  proof (cases "selected opts t")
    case False
    then have "run_loop opts E ((t # ts) @ [z]) s = run_loop opts E (ts @ [z]) s" using f(1) by (simp add: selected_def)
    then show ?thesis using IH [of s] False by (simp add: full_points_def full_marks_def)
  next
    case True
    obtain k where k: "btest_function opts E t f (rand_count s) = Inr ((0, []), k)"
      using f(2) [of "rand_count s"] by (auto simp: no_errors_def returns_def)
    let ?s = "\<lparr>run_errors = run_errors s, points = points s + puzzle_weight opts t, max_points = max_points s + puzzle_weight opts t,
      run_out = run_out s @ [Score (puzzle_weight opts t) (puzzle_weight opts t) 0 (puzzle_name t)], rand_count = k\<rparr>"
    have "run_loop opts E ((t # ts) @ [z]) s = run_loop opts E (ts @ [z]) ?s"
      using True f(1) k by (auto simp: selected_def puzzle_weight_def Let_def)
    then show ?thesis using IH [of ?s] True
      by (simp add: full_points_def full_marks_def add.assoc)
  qed
qed

definition puzzles :: "float_machine \<Rightarrow> test_rec list" where
  "puzzles M = butlast (test_set M)"

lemma test_set_puzzles: "\<exists>z. test_set M = puzzles M @ [z] \<and> solution_funct z = None"
  by (simp add: test_set_def puzzles_def)

lemma puzzles_clean:
  assumes "ieee M" "roots_ok E" "free_args opts" "t \<in> set (puzzles M)"
  shows "\<exists>f. solution_funct t = Some f \<and> (\<forall>k. no_errors (btest_function opts E t f k))"
proof -
  note p0 = pass_0 [OF assms(3,2)] and p1 = pass_1 [OF assms(3,2)] and p2 = pass_2 [OF assms(3,2)]
    and p3 = pass_3 [OF assms(3,2)] and pf = pass_float [OF assms(3,2)]
  have scale: "floatScale2 u = test_floatScale2 M u" if "scale_ok u" for u
    using that test_floatScale2_iff [OF assms(1), of u] by (simp add: scale_ok_def)
  have "list_all (\<lambda>t. \<exists>f. solution_funct t = Some f \<and> (\<forall>k. no_errors (btest_function opts E t f k))) (puzzles M)"
    by (simp add: puzzles_def test_set_def p2 [OF bitXor_eq] p0 [OF tmin_eq] p1 [OF isTmax_eq] p1 [OF allOddBits_eq] p1 [OF negate_eq]
        p1 [OF isAsciiDigit_eq] p3 [OF conditional_eq] p2 [OF isLessOrEqual_eq] p1 [OF logicalNeg_eq] p1 [OF howManyBits_eq]
        pf [OF scale] pf [OF test_floatFloat2Int_eq [OF assms(1), symmetric]] pf [OF test_floatPower2_eq [OF assms(1), symmetric]])
  then show ?thesis using assms(4) by (simp add: list_all_iff)
qed

lemma run_tests_clean:
  assumes "ieee M" "roots_ok E" "free_args opts"
  shows "run_tests opts E (test_set M) =
    Inr (0, Heading # full_marks opts (puzzles M) @ [Total_points (full_points opts (puzzles M)) (full_points opts (puzzles M))])"
proof -
  obtain z where z: "test_set M = puzzles M @ [z]" "solution_funct z = None" using test_set_puzzles [of M] by blast
  show ?thesis
    using run_loop_clean [where ts = "puzzles M" and s = "\<lparr>run_errors = 0, points = 0, max_points = 0, run_out = [Heading], rand_count = 0\<rparr>", OF puzzles_clean [OF assms] z(2)]
    by (auto simp: run_tests_def z(1) returns_def)
qed

lemma full_points_default: "full_points start_opts (puzzles M) = 36"
  by (simp add: full_points_def puzzles_def test_set_def selected_def start_opts_def puzzle_weight_def)

text \<open>One puzzle on one fixed argument.\<close>

lemma run_fixed_scale2:
  assumes "test_fname opts = Some ''floatScale2''" "has_arg opts = [True, False, False]" "argval opts = [u, 0, 0]"
    "\<not> grade opts" "global_rating opts = 0" "floatScale2 u \<noteq> test_floatScale2 M u"
  shows "run_tests opts E (test_set M) =
    Inr (1, [Heading, Failed ''floatScale2'' [u] (floatScale2 u) (test_floatScale2 M u), Total_points 0 4])"
proof -
  have "take 1 (zip float_ranges (test_ranges E 1)) = [((1, 1), test_ranges E 1 ! 0)]"
    by (simp add: float_ranges_def test_ranges_def)
  then have "btest_function opts E (entry nm (F1 floatScale2) (F1 (test_floatScale2 M)) 1 ops lm rate float_ranges) (F1 floatScale2) k =
      Inr ((1, [Failed nm [u] (floatScale2 u) (test_floatScale2 M u)]), k)" for nm ops lm rate k
    using assms by (simp add: btest_function_def gen_vals_def rd_def test_1_arg_def judge_def)
  then show ?thesis using assms by (simp add: run_tests_def test_set_def)
qed

lemma parse_scale2: "get_num_val E ''0x7f000001'' 0 = (True, 0x7F000001)"
  by (simp add: get_num_val_def num_marks_def strtoll_def is_space_char_def digit_in_def)

section \<open>The properties\<close>

text \<open>
  C15. The floating-point puzzles of \<^verbatim>\<open>bits.c\<close> against their references in \<^verbatim>\<open>tests.c\<close>, on every machine with IEEE
  multiplication and conversion: the conversion to \<open>int\<close> and the power of two agree on every input, and doubling
  agrees exactly outside the numbers of the top binade with a fraction.
\<close>

theorem float_puzzles_match_tests:
  assumes "ieee M"
  shows "floatFloat2Int u = test_floatFloat2Int M u \<and> floatPower2 x = test_floatPower2 M x \<and>
    (floatScale2 u = test_floatScale2 M u \<longleftrightarrow> \<not> (f_exp u = 254 \<and> f_frac u \<noteq> 0))"
  using test_floatFloat2Int_eq [OF assms, of u] test_floatPower2_eq [OF assms, of x] test_floatScale2_iff [OF assms, of u] by auto

theorem float_puzzles_match_tests_witness:
  "ieee unit_machine \<and> floatPower2 100 = test_floatPower2 unit_machine 100 \<and>
   floatScale2 0x3F800001 = test_floatScale2 unit_machine 0x3F800001 \<and>
   floatScale2 0x7F000001 \<noteq> test_floatScale2 unit_machine 0x7F000001"
proof -
  have "f_exp 0x3F800001 = 127" "f_exp 0x7F000001 = 254" "f_frac 0x7F000001 = 1" by (simp_all add: f_exp_def f_frac_def)
  then show ?thesis
    using float_puzzles_match_tests [OF unit_machine_ieee, of "0x3F800001" 100] float_puzzles_match_tests [OF unit_machine_ieee, of "0x7F000001" 100]
      unit_machine_ieee by simp
qed

text \<open>
  C14. The harness ends without leaving an array and gives the solutions of \<^verbatim>\<open>bits.c\<close> full marks, whatever \<open>rand\<close> returns and
  whatever the uninitialised entries of \<^verbatim>\<open>arg_test_range\<close> hold, for every choice of \<^verbatim>\<open>-f\<close>, \<^verbatim>\<open>-r\<close> and \<^verbatim>\<open>-g\<close>: each selected
  puzzle is listed with its points and no error. With no option the total is 36 of 36. Yet one of the puzzles differs
  from its reference at \<^verbatim>\<open>0x7f000001\<close>, a value above the one the harness takes for the largest number: asked for just this
  argument, the same program reports the error.
\<close>

theorem btest_full_marks:
  assumes "ieee M" "roots_ok E" "has_arg opts = [False, False, False]"
  shows "run_tests opts E (test_set M) = Inr (0, Heading # full_marks opts (puzzles M) @
      [Total_points (full_points opts (puzzles M)) (full_points opts (puzzles M))]) \<and>
    btest_main E M [] = Inr (0, Heading # full_marks start_opts (puzzles M) @ [Total_points 36 36]) \<and>
    btest_main E M [(CHR ''f'', ''floatScale2''), (CHR ''1'', ''0x7f000001'')] =
      Inr (1, [Heading, Failed ''floatScale2'' [0x7F000001] 0x7F800001 0x7F800000, Total_points 0 4])"
proof (intro conjI)
  show "run_tests opts E (test_set M) = Inr (0, Heading # full_marks opts (puzzles M) @
      [Total_points (full_points opts (puzzles M)) (full_points opts (puzzles M))])"
    by (rule run_tests_clean [OF assms(1,2)]) (simp add: free_args_def assms(3))
  have "free_args start_opts" by (simp add: free_args_def start_opts_def)
  then show "btest_main E M [] = Inr (0, Heading # full_marks start_opts (puzzles M) @ [Total_points 36 36])"
    using run_tests_clean [OF assms(1,2)] by (simp add: btest_main_def full_points_default)
  have "f_exp 0x7F000001 = 254" "f_frac 0x7F000001 = 1" "f_sign 0x7F000001 = 0" by (simp_all add: f_exp_def f_frac_def f_sign_def)
  then have r: "test_floatScale2 M 0x7F000001 = 0x7F800000" "floatScale2 0x7F000001 = 0x7F800001"
    using test_floatScale2_cases [OF assms(1), of "0x7F000001"] floatScale2_normal [of "0x7F000001"] by (simp_all add: f_pack_def)
  have "btest_options E [(CHR ''f'', ''floatScale2''), (CHR ''1'', ''0x7f000001'')] start_opts =
      Inr (start_opts\<lparr>test_fname := Some ''floatScale2'', has_arg := [True, False, False], argval := [0x7F000001, 0, 0]\<rparr>)"
    by (simp add: btest_option_def set_arg_def parse_scale2 start_opts_def rd_def wr_def)
  then show "btest_main E M [(CHR ''f'', ''floatScale2''), (CHR ''1'', ''0x7f000001'')] =
      Inr (1, [Heading, Failed ''floatScale2'' [0x7F000001] 0x7F800001 0x7F800000, Total_points 0 4])"
    using run_fixed_scale2 [of _ "0x7F000001" M E] by (simp add: btest_main_def r) (simp add: start_opts_def)
qed

definition btest_sample_env :: btest_env where
  "btest_sample_env = \<lparr>lib_rand = (\<lambda>k. int k), lib_strtof = (\<lambda>cs. (0, cs)), dbl_of_int = of_int, dbl_to_int = (\<lambda>d. 7),
     dbl_add = (+), dbl_sub = (-), dbl_mul = (*), dbl_div = (div), dbl_pow = (\<lambda>a b. a), stack_junk = (\<lambda>k. - 5)\<rparr>"

theorem btest_full_marks_witness:
  "ieee unit_machine \<and> roots_ok btest_sample_env \<and> (\<exists>lines. btest_main btest_sample_env unit_machine [] = Inr (0, lines @ [Total_points 36 36])) \<and>
   btest_main btest_sample_env unit_machine [(CHR ''f'', ''floatScale2''), (CHR ''1'', ''0x7f000001'')] =
     Inr (1, [Heading, Failed ''floatScale2'' [0x7F000001] 0x7F800001 0x7F800000, Total_points 0 4])"
proof -
  have r: "roots_ok btest_sample_env" by (simp add: roots_ok_def btest_sample_env_def TEST_RANGE_def)
  show ?thesis
    using btest_full_marks [OF unit_machine_ieee r, of start_opts] unit_machine_ieee r
    by (auto simp: start_opts_def intro: exI [of _ "Heading # xs" for xs])
qed

text \<open>An argument is accepted whatever follows its digits, and never twice.\<close>

lemma get_num_val_junk:
  "get_num_val E ''12abc'' 0 = (True, 12)" "get_num_val E ''junk'' 0 = (True, 0)" "get_num_val E ''7'' 12 = (False, 12)"
  by (simp_all add: get_num_val_def num_marks_def strtoll_def is_space_char_def digit_in_def)

end
