(* ===== verification/PyLong.thy ===== *)
theory PyLong
  imports Prelude
begin

text \<open>
  The arbitrary-precision integers of \<^verbatim>\<open>cpython_int/cpython_int.c\<close>.  A \<^verbatim>\<open>PyLongObject\<close> is a record of
  its header fields and its digit array, whose length is the number of digits that were allocated, so
  that an index outside the array is the fault \<^verbatim>\<open>OutOfBounds\<close>.  Each operation takes the allocator as
  an oracle (which call of \<^verbatim>\<open>malloc\<close>, for how many bytes, succeeds), counts its calls and the live
  objects, and returns NULL as \<^verbatim>\<open>None\<close>.  \<^verbatim>\<open>Py_DECREF\<close> has no definition in the sources: it is the
  parameter \<open>D\<close>.  Digit sums, products and borrows are computed on 64-bit words as in C.
\<close>

datatype pytype = PyFloat_Type | PyLong_Type

record PyLongObject =
  ob_refcnt :: int
  ob_type :: pytype
  ob_size :: int
  ob_digit :: "uint32 list"

record alloc_state =
  calls :: nat
  live :: nat

type_synonym malloc_oracle = "nat \<Rightarrow> nat \<Rightarrow> bool"

type_synonym decref = "PyLongObject \<Rightarrow> alloc_state \<Rightarrow> alloc_state"

type_synonym pylong_result = "(PyLongObject option \<times> alloc_state) exec"

definition BASE_MASK :: uint64 where
  "BASE_MASK = 0x3FFFFFFF"

definition BASE :: uint64 where
  "BASE = shl 1 30"

definition ndigits :: "PyLongObject \<Rightarrow> nat" where
  "ndigits op = nat \<bar>ob_size op\<bar>"

definition PyObject_Init :: "PyLongObject option \<Rightarrow> pytype \<Rightarrow> PyLongObject option" where
  "PyObject_Init p ty =
     (case p of None \<Rightarrow> None | Some op \<Rightarrow> Some (op\<lparr>ob_refcnt := 1, ob_type := ty\<rparr>))"

definition PyObject_InitVar :: "PyLongObject option \<Rightarrow> pytype \<Rightarrow> int \<Rightarrow> PyLongObject option" where
  "PyObject_InitVar p ty sz =
     (case PyObject_Init p ty of None \<Rightarrow> None | Some op \<Rightarrow> Some (op\<lparr>ob_size := sz\<rparr>))"

definition sizeof_PyLongObject :: nat where
  "sizeof_PyLongObject = 24"

definition pylong_alloc :: "malloc_oracle \<Rightarrow> nat \<Rightarrow> alloc_state \<Rightarrow> PyLongObject option \<times> alloc_state" where
  "pylong_alloc ok sz st =
     (let total_bytes = sizeof_PyLongObject + sz * 4;
          st' = st\<lparr>calls := calls st + 1\<rparr>
      in if \<not> ok (calls st) total_bytes then (None, st')
         else (PyObject_InitVar
                  (Some \<lparr>ob_refcnt = 0, ob_type = PyLong_Type, ob_size = 0, ob_digit = replicate sz 0\<rparr>)
                  PyLong_Type (int sz),
               st'\<lparr>live := live st + 1\<rparr>))"

text \<open>Allocate, return NULL on failure, go on with the new object otherwise.\<close>

definition with_alloc ::
  "malloc_oracle \<Rightarrow> nat \<Rightarrow> alloc_state \<Rightarrow> (PyLongObject \<Rightarrow> alloc_state \<Rightarrow> pylong_result) \<Rightarrow> pylong_result" where
  "with_alloc ok sz st f =
     (case pylong_alloc ok sz st of (None, st') \<Rightarrow> Inr (None, st') | (Some z, st') \<Rightarrow> f z st')"

definition pylong_free :: "decref \<Rightarrow> PyLongObject \<Rightarrow> alloc_state \<Rightarrow> alloc_state" where
  "pylong_free D op st = D op st"

fun clamp_loop :: "uint32 list \<Rightarrow> nat \<Rightarrow> nat exec" where
  "clamp_loop ds 0 = Inr 0"
| "clamp_loop ds (Suc n) = sbind (rd ds n) (\<lambda>d. if d = 0 then clamp_loop ds n else Inr (Suc n))"

definition pylong_clamp :: "PyLongObject option \<Rightarrow> PyLongObject option exec" where
  "pylong_clamp p =
     (case p of None \<Rightarrow> Inr None
      | Some op \<Rightarrow>
          sbind (clamp_loop (ob_digit op) (ndigits op)) (\<lambda>n.
            Inr (Some (if n = 0 then op\<lparr>ob_size := 0\<rparr>
                       else if ob_size op < 0 then op\<lparr>ob_size := - int n\<rparr>
                       else op\<lparr>ob_size := int n\<rparr>))))"

fun verify_loop :: "uint32 list \<Rightarrow> nat list \<Rightarrow> bool exec" where
  "verify_loop ds [] = Inr True"
| "verify_loop ds (i # is) =
     sbind (rd ds i) (\<lambda>d. if ucast d > BASE_MASK then Inr False else verify_loop ds is)"

definition pylong_verify_invariants :: "PyLongObject option \<Rightarrow> bool exec" where
  "pylong_verify_invariants p =
     (case p of None \<Rightarrow> Inr False
      | Some op \<Rightarrow>
          if ob_size op = 0 then Inr True
          else sbind (rd (ob_digit op) (ndigits op - 1)) (\<lambda>d.
            if d = 0 then Inr False else verify_loop (ob_digit op) [0..<ndigits op]))"

function from_loop :: "uint64 \<Rightarrow> nat \<Rightarrow> uint32 list \<Rightarrow> (nat \<times> uint32 list) exec" where
  "from_loop uval count ds =
     (if uval > 0
      then sbind (wr ds count (ucast (uval AND BASE_MASK))) (\<lambda>ds'. from_loop (shr uval 30) (count + 1) ds')
      else Inr (count, ds))"
  by pat_completeness auto
termination
proof (relation "measure (\<lambda>(uval, count, ds). unat uval)")
  fix uval :: uint64 and count ds ds'
  assume "uval > 0"
  then have "unat uval > 0" by (simp add: word_gt_0 unat_gt_0)
  then have "unat (shr uval 30) < unat uval" by (simp add: unat_shr)
  then show "((shr uval 30, count + 1, ds'), uval, count, ds) \<in> measure (\<lambda>(uval, count, ds). unat uval)"
    by simp
qed simp

declare from_loop.simps [simp del]

definition pylong_from_int64 :: "malloc_oracle \<Rightarrow> uint64 \<Rightarrow> alloc_state \<Rightarrow> pylong_result" where
  "pylong_from_int64 ok val st =
     (if val = 0 then Inr (pylong_alloc ok 0 st)
      else let neg = sint val < 0;
               uval = (if neg then 0 - val else val)
           in with_alloc ok 3 st (\<lambda>op st'.
                sbind (from_loop uval 0 (ob_digit op)) (\<lambda>(count, ds).
                sbind (pylong_clamp (Some (op\<lparr>ob_digit := ds,
                         ob_size := (if neg then - int count else int count)\<rparr>))) (\<lambda>op'.
                Inr (op', st')))))"

fun to_loop :: "uint32 list \<Rightarrow> nat \<Rightarrow> uint64 \<Rightarrow> uint64 exec" where
  "to_loop ds 0 uval = Inr uval"
| "to_loop ds (Suc i) uval = sbind (rd ds i) (\<lambda>d. to_loop ds i (shl uval 30 OR ucast d))"

definition pylong_to_int64 :: "PyLongObject option \<Rightarrow> uint64 option exec" where
  "pylong_to_int64 p =
     (case p of None \<Rightarrow> Inr None
      | Some op \<Rightarrow>
          if ob_size op = 0 then Inr (Some 0)
          else let n = ndigits op
               in if n > 3 then Inr None
                  else sbind (to_loop (ob_digit op) n 0) (\<lambda>uval.
                    if ob_size op > 0
                    then if uval > 0x7FFFFFFFFFFFFFFF then Inr None else Inr (Some uval)
                    else let max_neg = shl 1 63
                         in if uval > max_neg then Inr None
                            else if uval = max_neg then Inr (Some 0x8000000000000000)
                            else Inr (Some (- uval))))"

fun compare_loop :: "uint32 list \<Rightarrow> uint32 list \<Rightarrow> nat \<Rightarrow> int exec" where
  "compare_loop as bs 0 = Inr 0"
| "compare_loop as bs (Suc i) =
     sbind (rd as i) (\<lambda>a. sbind (rd bs i) (\<lambda>b.
       if a > b then Inr 1 else if a < b then Inr (- 1) else compare_loop as bs i))"

definition pylong_compare_magnitude :: "PyLongObject \<Rightarrow> PyLongObject \<Rightarrow> int exec" where
  "pylong_compare_magnitude a b =
     (let na = ndigits a; nb = ndigits b
      in if na > nb then Inr 1 else if na < nb then Inr (- 1)
         else compare_loop (ob_digit a) (ob_digit b) na)"

definition pylong_compare :: "PyLongObject \<Rightarrow> PyLongObject \<Rightarrow> int exec" where
  "pylong_compare a b =
     (let sign_a = (if ob_size a > 0 then 1 else if ob_size a < 0 then - 1 else (0 :: int));
          sign_b = (if ob_size b > 0 then 1 else if ob_size b < 0 then - 1 else (0 :: int))
      in if sign_a > sign_b then Inr 1
         else if sign_a < sign_b then Inr (- 1)
         else if sign_a = 0 then Inr 0
         else if sign_a > 0 then pylong_compare_magnitude a b
         else pylong_compare_magnitude b a)"

function add_loop1 ::
  "uint32 list \<Rightarrow> uint32 list \<Rightarrow> nat \<Rightarrow> nat \<Rightarrow> uint64 \<Rightarrow> uint32 list \<Rightarrow> (nat \<times> uint64 \<times> uint32 list) exec" where
  "add_loop1 as bs nb i carry zs =
     (if i < nb
      then sbind (rd as i) (\<lambda>a. sbind (rd bs i) (\<lambda>b.
             let sum = ucast a + ucast b + carry
             in sbind (wr zs i (ucast (sum AND BASE_MASK))) (\<lambda>zs'.
                  add_loop1 as bs nb (i + 1) (shr sum 30) zs')))
      else Inr (i, carry, zs))"
  by pat_completeness auto
termination by (relation "measure (\<lambda>(as, bs, nb, i, carry, zs). nb - i)") auto

function add_loop2 ::
  "uint32 list \<Rightarrow> nat \<Rightarrow> nat \<Rightarrow> uint64 \<Rightarrow> uint32 list \<Rightarrow> (nat \<times> uint64 \<times> uint32 list) exec" where
  "add_loop2 as na i carry zs =
     (if i < na
      then sbind (rd as i) (\<lambda>a.
             let sum = ucast a + carry
             in sbind (wr zs i (ucast (sum AND BASE_MASK))) (\<lambda>zs'.
                  add_loop2 as na (i + 1) (shr sum 30) zs'))
      else Inr (i, carry, zs))"
  by pat_completeness auto
termination by (relation "measure (\<lambda>(as, na, i, carry, zs). na - i)") auto

declare add_loop1.simps [simp del] add_loop2.simps [simp del]

function pylong_add_magnitude ::
  "malloc_oracle \<Rightarrow> PyLongObject \<Rightarrow> PyLongObject \<Rightarrow> alloc_state \<Rightarrow> pylong_result" where
  "pylong_add_magnitude ok a b st =
     (let na = ndigits a; nb = ndigits b
      in if na < nb then pylong_add_magnitude ok b a st
         else with_alloc ok (na + 1) st (\<lambda>z st'.
           sbind (add_loop1 (ob_digit a) (ob_digit b) nb 0 0 (ob_digit z)) (\<lambda>(i, carry, zs).
           sbind (add_loop2 (ob_digit a) na i carry zs) (\<lambda>(i, carry, zs).
           sbind (if carry > 0 then sbind (wr zs i (ucast carry)) (\<lambda>zs'. Inr (i + 1, zs'))
                  else Inr (i, zs)) (\<lambda>(i, zs).
           sbind (pylong_clamp (Some (z\<lparr>ob_digit := zs, ob_size := int i\<rparr>))) (\<lambda>z'.
           Inr (z', st')))))))"
  by pat_completeness auto
termination
  by (relation "measure (\<lambda>(ok, a, b, st). if ndigits a < ndigits b then 1 else 0)") auto

declare pylong_add_magnitude.simps [simp del]

function sub_loop1 ::
  "uint32 list \<Rightarrow> uint32 list \<Rightarrow> nat \<Rightarrow> nat \<Rightarrow> int32 \<Rightarrow> uint32 list \<Rightarrow> (nat \<times> int32 \<times> uint32 list) exec" where
  "sub_loop1 as bs nb i borrow zs =
     (if i < nb
      then sbind (rd as i) (\<lambda>a. sbind (rd bs i) (\<lambda>b.
             let diff = ucast a - ucast b - scast borrow;
                 (diff, borrow') = (if sint diff < 0 then (diff + BASE, 1) else (diff, 0))
             in sbind (wr zs i (ucast diff)) (\<lambda>zs'. sub_loop1 as bs nb (i + 1) borrow' zs')))
      else Inr (i, borrow, zs))"
  by pat_completeness auto
termination by (relation "measure (\<lambda>(as, bs, nb, i, borrow, zs). nb - i)") auto

function sub_loop2 ::
  "uint32 list \<Rightarrow> nat \<Rightarrow> nat \<Rightarrow> int32 \<Rightarrow> uint32 list \<Rightarrow> (nat \<times> int32 \<times> uint32 list) exec" where
  "sub_loop2 as na i borrow zs =
     (if i < na
      then sbind (rd as i) (\<lambda>a.
             let diff = ucast a - scast borrow;
                 (diff, borrow') = (if sint diff < 0 then (diff + BASE, 1) else (diff, 0))
             in sbind (wr zs i (ucast diff)) (\<lambda>zs'. sub_loop2 as na (i + 1) borrow' zs'))
      else Inr (i, borrow, zs))"
  by pat_completeness auto
termination by (relation "measure (\<lambda>(as, na, i, borrow, zs). na - i)") auto

declare sub_loop1.simps [simp del] sub_loop2.simps [simp del]

definition pylong_sub_magnitude ::
  "malloc_oracle \<Rightarrow> PyLongObject \<Rightarrow> PyLongObject \<Rightarrow> alloc_state \<Rightarrow> pylong_result" where
  "pylong_sub_magnitude ok a b st =
     (let na = ndigits a; nb = ndigits b
      in sbind (pylong_compare_magnitude a b) (\<lambda>cmp.
         sbind (c_assert (cmp \<ge> 0)) (\<lambda>_.
         with_alloc ok na st (\<lambda>z st'.
           sbind (sub_loop1 (ob_digit a) (ob_digit b) nb 0 0 (ob_digit z)) (\<lambda>(i, borrow, zs).
           sbind (sub_loop2 (ob_digit a) na i borrow zs) (\<lambda>(i, borrow, zs).
           sbind (c_assert (borrow = 0)) (\<lambda>_.
           sbind (pylong_clamp (Some (z\<lparr>ob_digit := zs, ob_size := int na\<rparr>))) (\<lambda>z'.
           Inr (z', st')))))))))"

text \<open>The \<^verbatim>\<open>memcpy\<close> of \<open>n\<close> digits from \<open>src\<close> to \<open>dst\<close>.\<close>

definition copy_digits :: "uint32 list \<Rightarrow> uint32 list \<Rightarrow> nat \<Rightarrow> uint32 list exec" where
  "copy_digits dst src n =
     (if n \<le> length dst \<and> n \<le> length src then Inr (take n src @ drop n dst) else Inl OutOfBounds)"

definition pylong_neg :: "malloc_oracle \<Rightarrow> PyLongObject \<Rightarrow> alloc_state \<Rightarrow> pylong_result" where
  "pylong_neg ok a st =
     (let n = ndigits a
      in with_alloc ok n st (\<lambda>z st'.
           sbind (if n > 0 then copy_digits (ob_digit z) (ob_digit a) n else Inr (ob_digit z)) (\<lambda>zs.
           Inr (Some (z\<lparr>ob_digit := zs, ob_size := - ob_size a\<rparr>), st'))))"

text \<open>The copy that \<^verbatim>\<open>pylong_add\<close> makes of its other operand when one operand is zero.\<close>

definition copy_object :: "malloc_oracle \<Rightarrow> PyLongObject \<Rightarrow> alloc_state \<Rightarrow> pylong_result" where
  "copy_object ok b st =
     (let nb = ndigits b
      in with_alloc ok nb st (\<lambda>z st'.
           sbind (if nb > 0 then copy_digits (ob_digit z) (ob_digit b) nb else Inr (ob_digit z)) (\<lambda>zs.
           Inr (Some (z\<lparr>ob_digit := zs, ob_size := ob_size b\<rparr>), st'))))"

text \<open>Flip the sign of a result that is not NULL, when \<open>neg\<close> holds.\<close>

definition negate_result :: "bool \<Rightarrow> pylong_result \<Rightarrow> pylong_result" where
  "negate_result neg r =
     sbind r (\<lambda>(p, st'). Inr (map_option (\<lambda>z. if neg then z\<lparr>ob_size := - ob_size z\<rparr> else z) p, st'))"

definition pylong_add ::
  "malloc_oracle \<Rightarrow> PyLongObject \<Rightarrow> PyLongObject \<Rightarrow> alloc_state \<Rightarrow> pylong_result" where
  "pylong_add ok a b st =
     (if ob_size a = 0 then copy_object ok b st
      else if ob_size b = 0 then copy_object ok a st
      else if (ob_size a > 0 \<and> ob_size b > 0) \<or> (ob_size a < 0 \<and> ob_size b < 0)
        then negate_result (ob_size a < 0) (pylong_add_magnitude ok a b st)
      else sbind (pylong_compare_magnitude a b) (\<lambda>cmp.
             if cmp = 0 then Inr (pylong_alloc ok 0 st)
             else if cmp > 0 then negate_result (ob_size a < 0) (pylong_sub_magnitude ok a b st)
             else negate_result (ob_size b < 0) (pylong_sub_magnitude ok b a st)))"

definition pylong_sub ::
  "malloc_oracle \<Rightarrow> decref \<Rightarrow> PyLongObject \<Rightarrow> PyLongObject \<Rightarrow> alloc_state \<Rightarrow> pylong_result" where
  "pylong_sub ok D a b st =
     sbind (pylong_neg ok b st) (\<lambda>(p, st1).
       case p of None \<Rightarrow> Inr (None, st1)
       | Some neg_b \<Rightarrow>
           sbind (pylong_add ok a neg_b st1) (\<lambda>(res, st2). Inr (res, pylong_free D neg_b st2)))"

function mul_inner ::
  "uint64 \<Rightarrow> uint32 list \<Rightarrow> nat \<Rightarrow> nat \<Rightarrow> nat \<Rightarrow> uint64 \<Rightarrow> uint32 list \<Rightarrow> uint32 list exec" where
  "mul_inner ai bs nb i j carry zs =
     (if j < nb \<or> carry > 0
      then sbind (rd zs (i + j)) (\<lambda>z.
             let prod = ucast z + carry
             in sbind (if j < nb then sbind (rd bs j) (\<lambda>b. Inr (prod + ai * ucast b)) else Inr prod) (\<lambda>prod.
                sbind (wr zs (i + j) (ucast (prod AND BASE_MASK))) (\<lambda>zs'.
                mul_inner ai bs nb i (j + 1) (shr prod 30) zs')))
      else Inr zs)"
  by pat_completeness auto
termination
  by (relation "measure (\<lambda>(ai, bs, nb, i, j, carry, zs). length zs - (i + j))")
    (auto simp: rd_Inr_iff wr_Inr_iff)

declare mul_inner.simps [simp del]

fun mul_outer :: "uint32 list \<Rightarrow> uint32 list \<Rightarrow> nat \<Rightarrow> nat list \<Rightarrow> uint32 list \<Rightarrow> uint32 list exec" where
  "mul_outer as bs nb [] zs = Inr zs"
| "mul_outer as bs nb (i # is) zs =
     sbind (rd as i) (\<lambda>a.
     sbind (mul_inner (ucast a) bs nb i 0 0 zs) (\<lambda>zs'. mul_outer as bs nb is zs'))"

definition pylong_mul ::
  "malloc_oracle \<Rightarrow> PyLongObject \<Rightarrow> PyLongObject \<Rightarrow> alloc_state \<Rightarrow> pylong_result" where
  "pylong_mul ok a b st =
     (if ob_size a = 0 \<or> ob_size b = 0 then Inr (pylong_alloc ok 0 st)
      else let na = ndigits a; nb = ndigits b
           in with_alloc ok (na + nb) st (\<lambda>z st'.
                sbind (mul_outer (ob_digit a) (ob_digit b) nb [0..<na] (ob_digit z)) (\<lambda>zs.
                let neg = ((ob_size a < 0) \<noteq> (ob_size b < 0))
                in sbind (pylong_clamp (Some (z\<lparr>ob_digit := zs,
                       ob_size := (if neg then - int (na + nb) else int (na + nb))\<rparr>))) (\<lambda>z'.
                   Inr (z', st')))))"

definition pylong_invert ::
  "malloc_oracle \<Rightarrow> decref \<Rightarrow> PyLongObject \<Rightarrow> alloc_state \<Rightarrow> pylong_result" where
  "pylong_invert ok D a st =
     sbind (pylong_from_int64 ok 1 st) (\<lambda>(p, st1).
       case p of None \<Rightarrow> Inr (None, st1)
       | Some one \<Rightarrow>
           sbind (pylong_add ok a one st1) (\<lambda>(q, st2).
             let st3 = pylong_free D one st2
             in case q of None \<Rightarrow> Inr (None, st3)
                | Some plus_one \<Rightarrow>
                    sbind (pylong_neg ok plus_one st3) (\<lambda>(res, st4).
                      Inr (res, pylong_free D plus_one st4))))"

fun and_loop :: "uint32 list \<Rightarrow> uint32 list \<Rightarrow> nat list \<Rightarrow> uint32 list \<Rightarrow> uint32 list exec" where
  "and_loop as bs [] zs = Inr zs"
| "and_loop as bs (i # is) zs =
     sbind (rd as i) (\<lambda>a. sbind (rd bs i) (\<lambda>b.
     sbind (wr zs i (a AND b)) (\<lambda>zs'. and_loop as bs is zs')))"

definition pylong_and ::
  "malloc_oracle \<Rightarrow> PyLongObject \<Rightarrow> PyLongObject \<Rightarrow> alloc_state \<Rightarrow> pylong_result" where
  "pylong_and ok a b st =
     (if ob_size a \<ge> 0 \<and> ob_size b \<ge> 0
      then let na = nat (ob_size a); nb = nat (ob_size b); min_n = (if na < nb then na else nb)
           in with_alloc ok min_n st (\<lambda>z st'.
                sbind (and_loop (ob_digit a) (ob_digit b) [0..<min_n] (ob_digit z)) (\<lambda>zs.
                sbind (pylong_clamp (Some (z\<lparr>ob_digit := zs, ob_size := int min_n\<rparr>))) (\<lambda>z'.
                Inr (z', st'))))
      else Inr (None, st))"

definition long_add_slot ::
  "malloc_oracle \<Rightarrow> PyLongObject \<Rightarrow> PyLongObject \<Rightarrow> alloc_state \<Rightarrow> pylong_result" where
  "long_add_slot ok v w st =
     (if ob_type v \<noteq> PyLong_Type \<or> ob_type w \<noteq> PyLong_Type then Inr (None, st) else pylong_add ok v w st)"

definition long_sub_slot ::
  "malloc_oracle \<Rightarrow> decref \<Rightarrow> PyLongObject \<Rightarrow> PyLongObject \<Rightarrow> alloc_state \<Rightarrow> pylong_result" where
  "long_sub_slot ok D v w st =
     (if ob_type v \<noteq> PyLong_Type \<or> ob_type w \<noteq> PyLong_Type then Inr (None, st) else pylong_sub ok D v w st)"

definition long_mul_slot ::
  "malloc_oracle \<Rightarrow> PyLongObject \<Rightarrow> PyLongObject \<Rightarrow> alloc_state \<Rightarrow> pylong_result" where
  "long_mul_slot ok v w st =
     (if ob_type v \<noteq> PyLong_Type \<or> ob_type w \<noteq> PyLong_Type then Inr (None, st) else pylong_mul ok v w st)"

definition long_invert_slot ::
  "malloc_oracle \<Rightarrow> decref \<Rightarrow> PyLongObject \<Rightarrow> alloc_state \<Rightarrow> pylong_result" where
  "long_invert_slot ok D v st =
     (if ob_type v \<noteq> PyLong_Type then Inr (None, st) else pylong_invert ok D v st)"

end
