(* ===== verification/PyLong_Digits.thy ===== *)
theory PyLong_Digits
  imports PyLong
begin

text \<open>
  Digit arrays as numbers in base 2^30, and what each digit loop of
  \<^verbatim>\<open>cpython_int.c\<close> computes on them: the two addition loops, the two subtraction loops, the
  comparison loop and the clamping loop.  \<^verbatim>\<open>pylong_wf\<close> is the invariant that the code's own
  \<^verbatim>\<open>pylong_verify_invariants\<close> tests; \<^verbatim>\<open>py_returns\<close> is the contract of every operation that returns
  a new object.
\<close>

abbreviation PYB :: nat where
  "PYB \<equiv> 1073741824"

fun dval :: "uint32 list \<Rightarrow> nat" where
  "dval [] = 0"
| "dval (d # ds) = unat d + PYB * dval ds"

definition small :: "uint32 list \<Rightarrow> bool" where
  "small ds \<longleftrightarrow> (\<forall>d \<in> set ds. unat d < PYB)"

lemma dval_append: "dval (xs @ ys) = dval xs + PYB ^ length xs * dval ys"
  by (induction xs) (simp_all add: algebra_simps)

lemma dval_take_Suc: "i < length xs \<Longrightarrow> dval (take (Suc i) xs) = dval (take i xs) + unat (xs ! i) * PYB ^ i"
  by (simp add: take_Suc_conv_app_nth dval_append)

lemma dval_update: "k < length xs \<Longrightarrow> dval (xs[k := d]) + unat (xs ! k) * PYB ^ k = dval xs + unat d * PYB ^ k"
proof (induction xs arbitrary: k)
  case (Cons x xs)
  show ?case
  proof (cases k)
    case (Suc m)
    then have "dval (xs[m := d]) + unat (xs ! m) * PYB ^ m = dval xs + unat d * PYB ^ m"
      using Cons by simp
    then have "PYB * (dval (xs[m := d]) + unat (xs ! m) * PYB ^ m) = PYB * (dval xs + unat d * PYB ^ m)"
      by simp
    then show ?thesis using Suc by (simp add: algebra_simps)
  qed simp
qed simp

lemma dval_replicate_0 [simp]: "dval (replicate n 0) = 0"
  by (induction n) simp_all

lemma small_simps [simp]: "small []" "small (d # ds) \<longleftrightarrow> unat d < PYB \<and> small ds"
  "small (xs @ ys) \<longleftrightarrow> small xs \<and> small ys" "small (replicate n 0)"
  by (auto simp: small_def)

lemma small_take_Suc: "i < length xs \<Longrightarrow> small (take (Suc i) xs) \<longleftrightarrow> small (take i xs) \<and> unat (xs ! i) < PYB"
  by (simp add: take_Suc_conv_app_nth)

lemma small_nth: "small (take n xs) \<Longrightarrow> i < n \<Longrightarrow> n \<le> length xs \<Longrightarrow> unat (xs ! i) < PYB"
  by (force simp: small_def in_set_conv_nth)

lemma small_update: "small xs \<Longrightarrow> unat d < PYB \<Longrightarrow> small (xs[k := d])"
  using set_update_subset_insert [of xs k d] by (auto simp: small_def)

lemma dval_less: "small ds \<Longrightarrow> dval ds < PYB ^ length ds"
proof (induction ds)
  case (Cons d ds)
  then have "dval ds + 1 \<le> PYB ^ length ds" "unat d < PYB" by simp_all
  then have "PYB * (dval ds + 1) \<le> PYB * PYB ^ length ds" by (intro mult_le_mono2)
  then show ?case using \<open>unat d < PYB\<close> by simp
qed simp

lemma unat_low: "unat (ucast (s AND BASE_MASK) :: uint32) = unat s mod PYB"
proof -
  have "unat (s AND BASE_MASK) = unat s mod PYB"
    using unat_and_mask [of s 30] by (simp add: BASE_MASK_def mask_eq_exp_minus_1)
  then show ?thesis by (simp add: unsigned_ucast_eq take_bit_nat_eq_self)
qed

lemma unat_high: "unat (shr s 30 :: uint64) = unat s div PYB"
  by (simp add: unat_shr)

lemma unat_ucast_up [simp]: "unat (ucast (d :: uint32) :: uint64) = unat d"
  by (simp add: unsigned_ucast_eq take_bit_nat_eq_self unsigned_less [of d, THEN less_trans])

lemma digit_step:
  assumes "i < length zs"
  shows "dval (take (Suc i) (zs[i := ucast (s AND BASE_MASK)])) + unat (shr s 30 :: uint64) * PYB ^ Suc i =
      dval (take i zs) + unat s * PYB ^ i"
    and "small (take (Suc i) (zs[i := ucast (s AND BASE_MASK)])) \<longleftrightarrow> small (take i zs)"
proof -
  have "unat s mod PYB * PYB ^ i + unat s div PYB * PYB ^ Suc i =
      (unat s mod PYB + unat s div PYB * PYB) * PYB ^ i"
    by (simp only: power_Suc algebra_simps)
  also have "\<dots> = unat s * PYB ^ i" by (simp only: mod_div_mult_eq)
  finally show "dval (take (Suc i) (zs[i := ucast (s AND BASE_MASK)])) + unat (shr s 30 :: uint64) * PYB ^ Suc i =
      dval (take i zs) + unat s * PYB ^ i"
    using assms by (simp add: dval_take_Suc unat_low unat_high)
  show "small (take (Suc i) (zs[i := ucast (s AND BASE_MASK)])) \<longleftrightarrow> small (take i zs)"
    using assms by (simp add: small_take_Suc unat_low)
qed

lemma unat_add3:
  assumes "unat (a :: uint32) < PYB" "unat (b :: uint32) < PYB" "unat (c :: uint64) \<le> 1"
  shows "unat (ucast a + ucast b + c) = unat a + unat b + unat c"
  using assms by (simp add: unat_word_ariths)

lemma add_loop1_spec:
  assumes "nb \<le> length as" "nb \<le> length bs" "nb \<le> length zs" "small (take nb as)" "small (take nb bs)"
    and "i \<le> nb" "unat carry \<le> 1" "small (take i zs)"
  shows "\<exists>carry' zs'. add_loop1 as bs nb i carry zs = Inr (nb, carry', zs') \<and> unat carry' \<le> 1 \<and>
    length zs' = length zs \<and> small (take nb zs') \<and>
    dval (take nb zs') + unat carry' * PYB ^ nb + dval (take i as) + dval (take i bs) =
    dval (take i zs) + unat carry * PYB ^ i + dval (take nb as) + dval (take nb bs)"
  using assms
proof (induction as bs nb i carry zs rule: add_loop1.induct)
  case (1 as bs nb i carry zs)
  show ?case
  proof (cases "i < nb")
    case False
    then show ?thesis using "1.prems" by (subst add_loop1.simps) auto
  next
    case True
    define sum where "sum = (ucast (as ! i) + ucast (bs ! i) + carry :: uint64)"
    define zs1 where "zs1 = zs[i := ucast (sum AND BASE_MASK)]"
    have ab: "unat (as ! i) < PYB" "unat (bs ! i) < PYB"
      using True "1.prems" by (auto intro: small_nth)
    then have s: "unat sum = unat (as ! i) + unat (bs ! i) + unat carry"
      unfolding sum_def using "1.prems"(7) by (rule unat_add3)
    have step: "add_loop1 as bs nb i carry zs = add_loop1 as bs nb (i + 1) (shr sum 30) zs1"
      using True "1.prems" by (subst add_loop1.simps) (simp add: sum_def zs1_def Let_def)
    have c: "unat (shr sum 30 :: uint64) \<le> 1" using s ab "1.prems"(7) by (simp add: unat_high)
    have l: "i < length zs" using True "1.prems" by simp
    have "\<exists>carry' zs'. add_loop1 as bs nb (i + 1) (shr sum 30) zs1 = Inr (nb, carry', zs') \<and> unat carry' \<le> 1 \<and>
      length zs' = length zs1 \<and> small (take nb zs') \<and>
      dval (take nb zs') + unat carry' * PYB ^ nb + dval (take (i + 1) as) + dval (take (i + 1) bs) =
      dval (take (i + 1) zs1) + unat (shr sum 30 :: uint64) * PYB ^ (i + 1) + dval (take nb as) + dval (take nb bs)"
      using True "1.prems" c l by (intro "1.IH") (simp_all add: sum_def zs1_def digit_step(2) wr_Inr_iff)
    moreover have "dval (take (i + 1) zs1) + unat (shr sum 30 :: uint64) * PYB ^ (i + 1) =
        dval (take i zs) + (unat (as ! i) + unat (bs ! i) + unat carry) * PYB ^ i"
      using digit_step(1) [OF l, of sum] by (simp add: zs1_def s)
    moreover have "dval (take (i + 1) as) = dval (take i as) + unat (as ! i) * PYB ^ i"
      "dval (take (i + 1) bs) = dval (take i bs) + unat (bs ! i) * PYB ^ i"
      using True "1.prems" by (simp_all add: dval_take_Suc)
    ultimately show ?thesis unfolding step by (auto simp: zs1_def algebra_simps)
  qed
qed

lemma add_loop2_eq: "na \<le> n \<Longrightarrow> add_loop2 as na i carry zs = add_loop1 as (replicate n 0) na i carry zs"
proof (induction as na i carry zs rule: add_loop2.induct)
  case (1 as na i carry zs)
  show ?case
    using 1 by (subst add_loop2.simps, subst add_loop1.simps) (auto intro!: sbind_cong simp: Let_def)
qed

lemma sub_loop2_eq: "na \<le> n \<Longrightarrow> sub_loop2 as na i borrow zs = sub_loop1 as (replicate n 0) na i borrow zs"
proof (induction as na i borrow zs rule: sub_loop2.induct)
  case (1 as na i borrow zs)
  show ?case
    using 1 by (subst sub_loop2.simps, subst sub_loop1.simps) (auto intro!: sbind_cong simp: Let_def)
qed

definition sub_digit :: "uint32 \<Rightarrow> uint32 \<Rightarrow> int32 \<Rightarrow> uint64 \<times> int32" where
  "sub_digit a b borrow =
     (let diff = ucast a - ucast b - scast borrow
      in if sint diff < 0 then (diff + BASE, 1) else (diff, 0))"

lemma unat_ucast_of_int:
  assumes "0 \<le> v" "v < int PYB"
  shows "unat (ucast (of_int v :: uint64) :: uint32) = nat v"
proof -
  have "unat (of_nat (nat v) :: uint64) = nat v" by (rule unat_of_nat_less) (use assms in simp)
  then show ?thesis using assms by (simp add: unsigned_ucast_eq take_bit_nat_eq_self)
qed

lemma sub_digit_spec:
  assumes "unat a < PYB" "unat b < PYB" "borrow = 0 \<or> borrow = 1"
  shows "unat (ucast (fst (sub_digit a b borrow)) :: uint32) + unat b + unat borrow =
      unat a + unat (snd (sub_digit a b borrow)) * PYB \<and>
    unat (ucast (fst (sub_digit a b borrow)) :: uint32) < PYB \<and>
    (snd (sub_digit a b borrow) = 0 \<or> snd (sub_digit a b borrow) = 1)"
proof -
  define x y z where "x = unat a" and "y = unat b" and "z = unat borrow"
  define v where "v = int x - int y - int z"
  have xyz: "x < PYB" "y < PYB" "z \<le> 1" using assms by (auto simp: x_def y_def z_def)
  have d: "ucast a - ucast b - scast borrow = (of_int v :: uint64)"
    using assms(3) by (auto simp: v_def x_def y_def z_def)
  have "sint (of_int v :: uint64) = v" using xyz by (intro sint_of_int64) (simp_all add: v_def)
  moreover have "of_int v + BASE = (of_int (v + int PYB) :: uint64)" by (simp add: BASE_def)
  ultimately have e: "sub_digit a b borrow =
      (if v < 0 then (of_int (v + int PYB), 1) else (of_int v, 0))"
    by (simp add: sub_digit_def d Let_def)
  have "- int PYB \<le> v" "v < int PYB" using xyz by (simp_all add: v_def)
  then have "unat (ucast (fst (sub_digit a b borrow)) :: uint32) = nat (if v < 0 then v + int PYB else v)"
    unfolding e using unat_ucast_of_int [of v] unat_ucast_of_int [of "v + int PYB"]
    by (simp del: of_int_add)
  then show ?thesis
    unfolding e x_def [symmetric] y_def [symmetric] z_def [symmetric] using xyz
    by (cases "v < 0") (auto simp: v_def)
qed

lemma sub_loop1_spec:
  assumes "nb \<le> length as" "nb \<le> length bs" "nb \<le> length zs" "small (take nb as)" "small (take nb bs)"
    and "i \<le> nb" "borrow = 0 \<or> borrow = 1" "small (take i zs)"
  shows "\<exists>borrow' zs'. sub_loop1 as bs nb i borrow zs = Inr (nb, borrow', zs') \<and>
    (borrow' = 0 \<or> borrow' = 1) \<and> length zs' = length zs \<and> small (take nb zs') \<and>
    dval (take nb zs') + dval (take nb bs) + dval (take i as) + unat borrow * PYB ^ i =
    dval (take i zs) + dval (take i bs) + dval (take nb as) + unat borrow' * PYB ^ nb"
  using assms
proof (induction as bs nb i borrow zs rule: sub_loop1.induct)
  case (1 as bs nb i borrow zs)
  show ?case
  proof (cases "i < nb")
    case False
    then show ?thesis using "1.prems" by (subst sub_loop1.simps) auto
  next
    case True
    obtain diff br where db: "sub_digit (as ! i) (bs ! i) borrow = (diff, br)" by fastforce
    define zs1 where "zs1 = zs[i := ucast diff]"
    have "unat (as ! i) < PYB" "unat (bs ! i) < PYB"
      using True "1.prems" by (auto intro: small_nth)
    then have D: "unat (ucast diff :: uint32) + unat (bs ! i) + unat borrow = unat (as ! i) + unat br * PYB"
      "unat (ucast diff :: uint32) < PYB" "br = 0 \<or> br = 1"
      using sub_digit_spec [of "as ! i" "bs ! i" borrow] "1.prems"(7) by (auto simp: db)
    have l: "i < length zs" "i < length as" "i < length bs" using True "1.prems" by simp_all
    have step: "sub_loop1 as bs nb i borrow zs = sub_loop1 as bs nb (i + 1) br zs1"
      using True l db by (subst sub_loop1.simps) (auto simp: zs1_def sub_digit_def Let_def split: if_splits)
    have "\<exists>borrow' zs'. sub_loop1 as bs nb (i + 1) br zs1 = Inr (nb, borrow', zs') \<and>
      (borrow' = 0 \<or> borrow' = 1) \<and> length zs' = length zs1 \<and> small (take nb zs') \<and>
      dval (take nb zs') + dval (take nb bs) + dval (take (i + 1) as) + unat br * PYB ^ (i + 1) =
      dval (take (i + 1) zs1) + dval (take (i + 1) bs) + dval (take nb as) + unat borrow' * PYB ^ nb"
      by (rule "1.IH" [OF True _ _ refl _ refl])
        (use l db D "1.prems" True in \<open>auto simp: zs1_def sub_digit_def Let_def small_take_Suc split: if_splits\<close>)
    moreover have "(unat (ucast diff :: uint32) + unat (bs ! i) + unat borrow) * PYB ^ i =
        (unat (as ! i) + unat br * PYB) * PYB ^ i" unfolding D(1) ..
    moreover have "dval (take (i + 1) zs1) = dval (take i zs) + unat (ucast diff :: uint32) * PYB ^ i"
      using l by (simp add: zs1_def dval_take_Suc)
    ultimately show ?thesis unfolding step using l
      by (auto simp: dval_take_Suc zs1_def algebra_simps)
  qed
qed


subsection \<open>Well-formed objects\<close>

definition pylong_wf :: "PyLongObject \<Rightarrow> bool" where
  "pylong_wf op \<longleftrightarrow> pylong_verify_invariants (Some op) = Inr True"

definition magnitude :: "PyLongObject \<Rightarrow> nat" where
  "magnitude op = dval (take (ndigits op) (ob_digit op))"

definition ival :: "PyLongObject \<Rightarrow> int" where
  "ival op = sgn (ob_size op) * int (magnitude op)"

lemma ucast_le_mask: "ucast (d :: uint32) > BASE_MASK \<longleftrightarrow> \<not> unat d < PYB"
  by (simp add: word_less_nat_alt BASE_MASK_def not_less) linarith

lemma verify_loop_eq:
  "\<forall>i \<in> set is. i < length ds \<Longrightarrow> verify_loop ds is = Inr (\<forall>i \<in> set is. unat (ds ! i) < PYB)"
  by (induction "is") (simp_all add: ucast_le_mask)

lemma small_take_iff: "n \<le> length ds \<Longrightarrow> small (take n ds) \<longleftrightarrow> (\<forall>i < n. unat (ds ! i) < PYB)"
  by (force simp: small_def in_set_conv_nth)

lemma pylong_wf_iff:
  "pylong_wf op \<longleftrightarrow> ndigits op \<le> length (ob_digit op) \<and> small (take (ndigits op) (ob_digit op)) \<and>
     (ob_size op \<noteq> 0 \<longrightarrow> ob_digit op ! (ndigits op - 1) \<noteq> 0)"
proof (cases "ob_size op = 0")
  case False
  then have n: "ndigits op - 1 < length (ob_digit op) \<longleftrightarrow> ndigits op \<le> length (ob_digit op)"
    by (auto simp: ndigits_def)
  show ?thesis
  proof (cases "ndigits op \<le> length (ob_digit op)")
    case True
    then have "verify_loop (ob_digit op) [0..<ndigits op] = Inr (small (take (ndigits op) (ob_digit op)))"
      by (auto simp: verify_loop_eq small_take_iff)
    then show ?thesis using False True n by (auto simp: pylong_wf_def pylong_verify_invariants_def)
  next
    case nr: False
    then show ?thesis using False n by (simp add: pylong_wf_def pylong_verify_invariants_def rd_def)
  qed
qed (simp add: pylong_wf_def pylong_verify_invariants_def ndigits_def)

lemma clamp_loop_spec:
  "n \<le> length ds \<Longrightarrow> \<exists>m \<le> n. clamp_loop ds n = Inr m \<and> dval (take m ds) = dval (take n ds) \<and>
     (m \<noteq> 0 \<longrightarrow> ds ! (m - 1) \<noteq> 0)"
proof (induction n)
  case (Suc n)
  show ?case
  proof (cases "ds ! n = 0")
    case True
    obtain m where "m \<le> n" "clamp_loop ds n = Inr m" "dval (take m ds) = dval (take n ds)"
      "m \<noteq> 0 \<longrightarrow> ds ! (m - 1) \<noteq> 0"
      using Suc by auto
    then show ?thesis using True Suc.prems by (auto simp: dval_take_Suc intro!: exI [of _ m])
  next
    case False
    then show ?thesis using Suc.prems by auto
  qed
qed simp

lemma clamp_spec:
  assumes "ndigits op \<le> length (ob_digit op)" "small (take (ndigits op) (ob_digit op))"
  shows "\<exists>op'. pylong_clamp (Some op) = Inr (Some op') \<and> pylong_wf op' \<and> ival op' = ival op \<and>
    ob_refcnt op' = ob_refcnt op \<and> ob_type op' = ob_type op"
proof -
  obtain m where m: "m \<le> ndigits op" "clamp_loop (ob_digit op) (ndigits op) = Inr m"
    "dval (take m (ob_digit op)) = dval (take (ndigits op) (ob_digit op))"
    "m \<noteq> 0 \<longrightarrow> ob_digit op ! (m - 1) \<noteq> 0"
    using clamp_loop_spec [OF assms(1)] by blast
  have sm: "small (take m (ob_digit op))"
    using assms m(1) by (simp add: small_take_iff)
  show ?thesis
  proof (cases "m = 0")
    case True
    then show ?thesis using m by (simp add: pylong_clamp_def pylong_wf_iff ndigits_def ival_def magnitude_def)
  next
    case False
    then have "ob_size op \<noteq> 0" using m(1) by (auto simp: ndigits_def)
    then show ?thesis using False m assms sm
      by (auto simp: pylong_clamp_def pylong_wf_iff ndigits_def ival_def magnitude_def sgn_if)
  qed
qed

subsection \<open>What an operation returns\<close>

definition py_returns :: "malloc_oracle \<Rightarrow> alloc_state \<Rightarrow> pylong_result \<Rightarrow> int \<Rightarrow> bool" where
  "py_returns ok st r v \<longleftrightarrow>
     (case r of Inl _ \<Rightarrow> False
      | Inr (None, st') \<Rightarrow> live st' = live st \<and> (\<exists>c bytes. calls st \<le> c \<and> c < calls st' \<and> \<not> ok c bytes)
      | Inr (Some z, st') \<Rightarrow> pylong_wf z \<and> ival z = v \<and> ob_refcnt z = 1 \<and> ob_type z = PyLong_Type \<and>
          live st' = live st + 1 \<and> calls st < calls st')"

definition fresh :: "nat \<Rightarrow> PyLongObject" where
  "fresh sz = \<lparr>ob_refcnt = 1, ob_type = PyLong_Type, ob_size = int sz, ob_digit = replicate sz 0\<rparr>"

lemma pylong_alloc_eq:
  "pylong_alloc ok sz st =
     (if ok (calls st) (24 + sz * 4) then (Some (fresh sz), st\<lparr>calls := calls st + 1, live := live st + 1\<rparr>)
      else (None, st\<lparr>calls := calls st + 1\<rparr>))"
  by (simp add: pylong_alloc_def PyObject_InitVar_def PyObject_Init_def fresh_def Let_def sizeof_PyLongObject_def)

lemma with_alloc_returns:
  assumes "\<And>st'. \<exists>z. f (fresh sz) st' = Inr (Some z, st') \<and> pylong_wf z \<and> ival z = v \<and>
    ob_refcnt z = 1 \<and> ob_type z = PyLong_Type"
  shows "py_returns ok st (with_alloc ok sz st f) v"
proof (cases "ok (calls st) (24 + sz * 4)")
  case True
  then show ?thesis
    using assms [of "st\<lparr>calls := calls st + 1, live := live st + 1\<rparr>"]
    by (auto simp: with_alloc_def pylong_alloc_eq py_returns_def)
next
  case False
  then show ?thesis by (auto simp: with_alloc_def pylong_alloc_eq py_returns_def)
qed

lemma with_alloc_clamp_returns:
  assumes "\<And>st'. \<exists>op. f (fresh sz) st' = sbind (pylong_clamp (Some op)) (\<lambda>z'. Inr (z', st')) \<and>
    ndigits op \<le> length (ob_digit op) \<and> small (take (ndigits op) (ob_digit op)) \<and> ival op = v \<and>
    ob_refcnt op = 1 \<and> ob_type op = PyLong_Type"
  shows "py_returns ok st (with_alloc ok sz st f) v"
proof (rule with_alloc_returns)
  fix st' :: alloc_state
  obtain op where "f (fresh sz) st' = sbind (pylong_clamp (Some op)) (\<lambda>z'. Inr (z', st'))"
    "ndigits op \<le> length (ob_digit op)" "small (take (ndigits op) (ob_digit op))" "ival op = v"
    "ob_refcnt op = 1" "ob_type op = PyLong_Type"
    using assms by blast
  then show "\<exists>z. f (fresh sz) st' = Inr (Some z, st') \<and> pylong_wf z \<and> ival z = v \<and>
    ob_refcnt z = 1 \<and> ob_type z = PyLong_Type"
    using clamp_spec [of op] by auto
qed

lemma zero_returns: "py_returns ok st (Inr (pylong_alloc ok 0 st)) 0"
  by (auto simp: pylong_alloc_eq py_returns_def fresh_def pylong_wf_iff ndigits_def ival_def)

subsection \<open>Comparison\<close>

lemma compare_loop_spec:
  "n \<le> length as \<Longrightarrow> n \<le> length bs \<Longrightarrow> small (take n as) \<Longrightarrow> small (take n bs) \<Longrightarrow>
   compare_loop as bs n = Inr (sgn (int (dval (take n as)) - int (dval (take n bs))))"
proof (induction n)
  case (Suc n)
  have lt: "dval (take n xs) + unat x * PYB ^ n < dval (take n ys) + unat y * PYB ^ n"
    if "x < y" "n \<le> length xs" "small (take n xs)" for x y :: uint32 and xs ys
  proof -
    have "dval (take n xs) < PYB ^ n" using dval_less [of "take n xs"] that by simp
    moreover have "unat x + 1 \<le> unat y" using that(1) by (simp add: word_less_nat_alt)
    then have "(unat x + 1) * PYB ^ n \<le> unat y * PYB ^ n" by (rule mult_le_mono1)
    ultimately show ?thesis by (simp add: algebra_simps)
  qed
  have s: "small (take n as)" "small (take n bs)" using Suc.prems by (simp_all add: small_take_Suc)
  have IH: "compare_loop as bs n = Inr (sgn (int (dval (take n as)) - int (dval (take n bs))))"
    using Suc s by simp
  have sgn_less: "sgn (int x - int y) = - 1" if "x < y" for x y using that by simp
  have sgn_greater: "sgn (int x - int y) = 1" if "y < x" for x y using that by simp
  consider "as ! n < bs ! n" | "bs ! n < as ! n" | "as ! n = bs ! n" by (rule linorder_cases)
  then show ?case
  proof cases
    case 1
    then show ?thesis using Suc.prems sgn_less [OF lt [OF 1, of as bs]] s
      by (simp add: dval_take_Suc del: of_nat_add of_nat_mult)
  next
    case 2
    then show ?thesis using Suc.prems sgn_greater [OF lt [OF 2, of bs as]] s
      by (simp add: dval_take_Suc del: of_nat_add of_nat_mult)
  next
    case 3
    then show ?thesis using Suc.prems IH by (simp add: dval_take_Suc)
  qed
qed simp

lemma magnitude_less: "pylong_wf a \<Longrightarrow> magnitude a < PYB ^ ndigits a"
  using dval_less [of "take (ndigits a) (ob_digit a)"] by (simp add: pylong_wf_iff magnitude_def)

lemma magnitude_ge:
  assumes "pylong_wf a" "ob_size a \<noteq> 0"
  shows "PYB ^ (ndigits a - 1) \<le> magnitude a"
proof -
  obtain m where m: "ndigits a = Suc m" using assms(2) by (cases "ndigits a") (auto simp: ndigits_def)
  have "1 \<le> unat (ob_digit a ! m)" using assms m by (simp add: pylong_wf_iff Suc_le_eq unat_gt_0)
  then have "PYB ^ m \<le> unat (ob_digit a ! m) * PYB ^ m" by simp
  then have "PYB ^ m \<le> dval (take m (ob_digit a)) + unat (ob_digit a ! m) * PYB ^ m" by (rule trans_le_add2)
  then show ?thesis using assms m by (simp add: magnitude_def pylong_wf_iff dval_take_Suc)
qed

lemma magnitude_longer:
  assumes "pylong_wf a" "pylong_wf b" "ndigits a > ndigits b"
  shows "magnitude a > magnitude b"
proof -
  have "ob_size a \<noteq> 0" using assms(3) by (auto simp: ndigits_def)
  then have "PYB ^ (ndigits a - 1) \<le> magnitude a" using assms(1) by (rule magnitude_ge [rotated])
  moreover have "PYB ^ ndigits b \<le> PYB ^ (ndigits a - 1)" using assms(3) by (intro power_increasing) simp_all
  ultimately show ?thesis using magnitude_less [OF assms(2)] by linarith
qed

lemma compare_magnitude_spec:
  assumes "pylong_wf a" "pylong_wf b"
  shows "pylong_compare_magnitude a b = Inr (sgn (int (magnitude a) - int (magnitude b)))"
proof -
  consider "ndigits a > ndigits b" | "ndigits a < ndigits b" | "ndigits a = ndigits b" by linarith
  then show ?thesis
  proof cases
    case 1
    then show ?thesis using magnitude_longer [OF assms] by (simp add: pylong_compare_magnitude_def)
  next
    case 2
    then show ?thesis using magnitude_longer [OF assms(2,1)] by (simp add: pylong_compare_magnitude_def)
  next
    case 3
    then show ?thesis
      using assms by (simp add: pylong_compare_magnitude_def pylong_wf_iff compare_loop_spec magnitude_def Let_def)
  qed
qed

lemma magnitude_pos: "pylong_wf a \<Longrightarrow> ob_size a \<noteq> 0 \<Longrightarrow> 0 < magnitude a"
  using magnitude_ge [of a] by (metis gr0I le_zero_eq power_not_zero zero_neq_numeral)

lemma compare_spec:
  assumes "pylong_wf a" "pylong_wf b"
  shows "pylong_compare a b = Inr (sgn (ival a - ival b))"
  using magnitude_pos [OF assms(1)] magnitude_pos [OF assms(2)]
  by (auto simp: pylong_compare_def compare_magnitude_spec assms ival_def sgn_if)

end
