(* ===== verification/PyLong_Ops.thy ===== *)
theory PyLong_Ops
  imports PyLong_Digits
begin

text \<open>
  The operations of \<^verbatim>\<open>cpython_int.c\<close> against integer arithmetic: each returns a fresh well-formed
  object with the mathematical result, or NULL after a failed allocation without leaking an object.
\<close>

subsection \<open>Magnitudes\<close>

lemma ndigits_upd [simp]:
  "ndigits (z\<lparr>ob_digit := ds, ob_size := s\<rparr>) = nat \<bar>s\<bar>"
  "ndigits (z\<lparr>ob_size := s\<rparr>) = nat \<bar>s\<bar>"
  by (simp_all add: ndigits_def)

lemma fresh_sel [simp]:
  "ob_digit (fresh n) = replicate n 0" "ob_refcnt (fresh n) = 1" "ob_type (fresh n) = PyLong_Type"
  by (simp_all add: fresh_def)

lemma ival_upd: "ival (z\<lparr>ob_digit := ds, ob_size := s\<rparr>) = sgn s * int (dval (take (nat \<bar>s\<bar>) ds))"
  by (simp add: ival_def magnitude_def)

lemma dval_take_replicate [simp]: "dval (take i (replicate n 0)) = 0"
  by (simp add: take_replicate)

lemma small_take_replicate [simp]: "small (take i (replicate n 0))"
  by (simp add: take_replicate)

lemma sgn_int_dval [simp]: "sgn (int n) * int (dval (take n ds)) = int (dval (take n ds))"
  by (cases n) simp_all

lemma wf_len: "pylong_wf a \<Longrightarrow> ndigits a \<le> length (ob_digit a)"
  and wf_small: "pylong_wf a \<Longrightarrow> small (take (ndigits a) (ob_digit a))"
  by (simp_all add: pylong_wf_iff)

lemma small_take_le: "small (take n ds) \<Longrightarrow> m \<le> n \<Longrightarrow> small (take m ds)"
  using small_def by (metis in_mono set_take_subset_set_take)

lemma add_magnitude_ge:
  assumes a: "pylong_wf a" and b: "pylong_wf b" and le: "ndigits b \<le> ndigits a"
  shows "py_returns ok st (pylong_add_magnitude ok a b st) (int (magnitude a + magnitude b))"
proof -
  let ?na = "ndigits a" and ?nb = "ndigits b"
  let ?as = "ob_digit a" and ?bs = "ob_digit b"
  note len = wf_len [OF a] wf_len [OF b] and sm = wf_small [OF a] wf_small [OF b]
  have "\<exists>c zs. add_loop1 ?as ?bs ?nb 0 0 (replicate (?na + 1) 0) = Inr (?nb, c, zs) \<and> unat c \<le> 1 \<and>
      length zs = length (replicate (?na + 1) (0 :: uint32)) \<and> small (take ?nb zs) \<and>
      dval (take ?nb zs) + unat c * PYB ^ ?nb + dval (take 0 ?as) + dval (take 0 ?bs) =
      dval (take 0 (replicate (?na + 1) 0)) + unat (0 :: uint64) * PYB ^ 0 + dval (take ?nb ?as) + dval (take ?nb ?bs)"
    by (rule add_loop1_spec) (use len sm le small_take_le [OF sm(1) le] in simp_all)
  then obtain c1 zs1 where l1: "add_loop1 ?as ?bs ?nb 0 0 (replicate (?na + 1) 0) = Inr (?nb, c1, zs1)"
    and c1: "unat c1 \<le> 1" and len1: "length zs1 = ?na + 1" and s1: "small (take ?nb zs1)"
    and d1: "dval (take ?nb zs1) + unat c1 * PYB ^ ?nb = dval (take ?nb ?as) + magnitude b"
    by (auto simp: magnitude_def)
  have "\<exists>c zs. add_loop1 ?as (replicate ?na 0) ?na ?nb c1 zs1 = Inr (?na, c, zs) \<and> unat c \<le> 1 \<and>
      length zs = length zs1 \<and> small (take ?na zs) \<and>
      dval (take ?na zs) + unat c * PYB ^ ?na + dval (take ?nb ?as) + dval (take ?nb (replicate ?na 0)) =
      dval (take ?nb zs1) + unat c1 * PYB ^ ?nb + dval (take ?na ?as) + dval (take ?na (replicate ?na 0))"
    by (rule add_loop1_spec) (use len sm le c1 len1 s1 in simp_all)
  then obtain c zs where l2: "add_loop2 ?as ?na ?nb c1 zs1 = Inr (?na, c, zs)"
    and c: "unat c \<le> 1" and lenz: "length zs = ?na + 1" and sz: "small (take ?na zs)"
    and "dval (take ?na zs) + unat c * PYB ^ ?na + dval (take ?nb ?as) =
      dval (take ?nb zs1) + unat c1 * PYB ^ ?nb + magnitude a"
    using len1 by (auto simp: add_loop2_eq [OF order_refl] magnitude_def)
  with d1 have d: "dval (take ?na zs) + unat c * PYB ^ ?na = magnitude a + magnitude b" by linarith
  show ?thesis
  proof (cases "c = 0")
    case True
    then show ?thesis
      unfolding pylong_add_magnitude.simps [of ok a b st]
      using le l1 l2 c lenz sz d
      by (auto simp: Let_def ival_upd intro!: with_alloc_clamp_returns
          exI [of _ "(fresh (?na + 1))\<lparr>ob_digit := zs, ob_size := int ?na\<rparr>"])
  next
    case False
    then have "unat c = 1" using c by (metis One_nat_def le_SucE le_zero_eq unat_eq_zero)
    moreover have "unat (ucast c :: uint32) = unat c" using c by (simp add: unsigned_ucast_eq take_bit_nat_eq_self)
    ultimately have "small (take (Suc ?na) (zs[?na := ucast c]))"
      "dval (take (Suc ?na) (zs[?na := ucast c])) = magnitude a + magnitude b"
      using sz lenz d small_take_Suc [of ?na "zs[?na := ucast c]"] dval_take_Suc [of ?na "zs[?na := ucast c]"]
      by simp_all
    then show ?thesis
      unfolding pylong_add_magnitude.simps [of ok a b st]
      using le l1 l2 c lenz sz d False
      by (auto simp: Let_def ival_upd word_gt_0 wr_def intro!: with_alloc_clamp_returns
          exI [of _ "(fresh (?na + 1))\<lparr>ob_digit := zs[?na := ucast c], ob_size := int (?na + 1)\<rparr>"])
  qed
qed

lemma add_magnitude_returns:
  assumes "pylong_wf a" "pylong_wf b"
  shows "py_returns ok st (pylong_add_magnitude ok a b st) (int (magnitude a + magnitude b))"
proof (cases "ndigits a < ndigits b")
  case True
  then have "py_returns ok st (pylong_add_magnitude ok b a st) (int (magnitude b + magnitude a))"
    using assms by (intro add_magnitude_ge) simp_all
  then show ?thesis using True
    by (subst pylong_add_magnitude.simps) (simp add: add.commute Let_def)
qed (simp add: add_magnitude_ge assms del: of_nat_add)

lemma sub_magnitude_returns:
  assumes a: "pylong_wf a" and b: "pylong_wf b" and le: "magnitude b \<le> magnitude a"
  shows "py_returns ok st (pylong_sub_magnitude ok a b st) (int (magnitude a - magnitude b))"
proof -
  let ?na = "ndigits a" and ?nb = "ndigits b"
  let ?as = "ob_digit a" and ?bs = "ob_digit b"
  have nle: "?nb \<le> ?na" using magnitude_longer [OF b a] le by linarith
  have nn: "0 \<le> sgn (int (magnitude a) - int (magnitude b))" using le by (simp add: sgn_if)
  have cmp: "pylong_compare_magnitude a b = Inr (sgn (int (magnitude a) - int (magnitude b)))"
    by (rule compare_magnitude_spec [OF a b])
  note len = wf_len [OF a] wf_len [OF b] and sm = wf_small [OF a] wf_small [OF b]
  have "\<exists>c zs. sub_loop1 ?as ?bs ?nb 0 0 (replicate ?na 0) = Inr (?nb, c, zs) \<and> (c = 0 \<or> c = 1) \<and>
      length zs = length (replicate ?na (0 :: uint32)) \<and> small (take ?nb zs) \<and>
      dval (take ?nb zs) + dval (take ?nb ?bs) + dval (take 0 ?as) + unat (0 :: int32) * PYB ^ 0 =
      dval (take 0 (replicate ?na 0)) + dval (take 0 ?bs) + dval (take ?nb ?as) + unat c * PYB ^ ?nb"
    by (rule sub_loop1_spec) (use len sm nle small_take_le [OF sm(1) nle] in simp_all)
  then obtain c1 zs1 where l1: "sub_loop1 ?as ?bs ?nb 0 0 (replicate ?na 0) = Inr (?nb, c1, zs1)"
    and c1: "c1 = 0 \<or> c1 = 1" and len1: "length zs1 = ?na" and s1: "small (take ?nb zs1)"
    and d1: "dval (take ?nb zs1) + magnitude b = dval (take ?nb ?as) + unat c1 * PYB ^ ?nb"
    unfolding magnitude_def by auto
  have "\<exists>c zs. sub_loop1 ?as (replicate ?na 0) ?na ?nb c1 zs1 = Inr (?na, c, zs) \<and> (c = 0 \<or> c = 1) \<and>
      length zs = length zs1 \<and> small (take ?na zs) \<and>
      dval (take ?na zs) + dval (take ?na (replicate ?na 0)) + dval (take ?nb ?as) + unat c1 * PYB ^ ?nb =
      dval (take ?nb zs1) + dval (take ?nb (replicate ?na 0)) + dval (take ?na ?as) + unat c * PYB ^ ?na"
    by (rule sub_loop1_spec) (use len sm nle c1 len1 s1 in simp_all)
  then obtain c zs where l2: "sub_loop2 ?as ?na ?nb c1 zs1 = Inr (?na, c, zs)"
    and c: "c = 0 \<or> c = 1" and lenz: "length zs = ?na" and sz: "small (take ?na zs)"
    and "dval (take ?na zs) + dval (take ?nb ?as) + unat c1 * PYB ^ ?nb =
      dval (take ?nb zs1) + magnitude a + unat c * PYB ^ ?na"
    using len1 unfolding sub_loop2_eq [OF order_refl] magnitude_def by auto
  with d1 have d: "dval (take ?na zs) + magnitude b = magnitude a + unat c * PYB ^ ?na" by linarith
  have "dval (take ?na zs) < PYB ^ ?na" using dval_less [OF sz] lenz by simp
  with d c le have c0: "c = 0" by auto
  with d have "dval (take ?na zs) = magnitude a - magnitude b" by simp
  then show ?thesis
    using nle le l1 l2 lenz sz c0 nn
    unfolding pylong_sub_magnitude_def cmp
    by (auto simp: Let_def ival_upd c_assert_def intro!: with_alloc_clamp_returns
        exI [of _ "(fresh ?na)\<lparr>ob_digit := zs, ob_size := int ?na\<rparr>"])
qed

subsection \<open>Signed addition, subtraction and negation\<close>

lemma take_update_copy: "n \<le> length xs \<Longrightarrow> take n (take n xs @ ys) = take n xs"
  by simp

lemma copy_returns:
  assumes "pylong_wf a" "sgn s = t * sgn (ob_size a)" "\<bar>s\<bar> = \<bar>ob_size a\<bar>"
  shows "py_returns ok st (with_alloc ok (ndigits a) st (\<lambda>z st'.
     sbind (if ndigits a > 0 then copy_digits (ob_digit z) (ob_digit a) (ndigits a) else Inr (ob_digit z)) (\<lambda>zs.
       Inr (Some (z\<lparr>ob_digit := zs, ob_size := s\<rparr>), st')))) (t * ival a)"
proof (rule with_alloc_returns)
  fix st' :: alloc_state
  let ?n = "ndigits a"
  have s: "nat \<bar>s\<bar> = ?n" "s \<noteq> 0 \<longleftrightarrow> ob_size a \<noteq> 0" using assms(3) by (auto simp: ndigits_def)
  have "?n \<le> length (ob_digit a)" by (rule wf_len [OF assms(1)])
  then show "\<exists>z. sbind (if ?n > 0 then copy_digits (ob_digit (fresh ?n)) (ob_digit a) ?n else Inr (ob_digit (fresh ?n)))
      (\<lambda>zs. Inr (Some ((fresh ?n)\<lparr>ob_digit := zs, ob_size := s\<rparr>), st')) = Inr (Some z, st') \<and>
    pylong_wf z \<and> ival z = t * ival a \<and> ob_refcnt z = 1 \<and> ob_type z = PyLong_Type"
    using assms s
    by (cases "?n = 0") (auto simp: copy_digits_def pylong_wf_iff ival_upd ival_def magnitude_def
        min_def ndigits_def nth_append)
qed

lemma neg_returns: "pylong_wf a \<Longrightarrow> py_returns ok st (pylong_neg ok a st) (- ival a)"
  using copy_returns [of a "- ob_size a" "- 1" ok st] by (simp add: pylong_neg_def Let_def sgn_minus)

lemma copy_object_returns: "pylong_wf a \<Longrightarrow> py_returns ok st (copy_object ok a st) (ival a)"
  using copy_returns [of a "ob_size a" 1 ok st] by (simp add: copy_object_def Let_def)

lemma negate_returns:
  assumes "py_returns ok st r v"
  shows "py_returns ok st (negate_result neg r) (if neg then - v else v)"
  using assms
  by (auto simp: py_returns_def negate_result_def pylong_wf_iff ndigits_def ival_def magnitude_def sgn_minus
      split: sum.splits option.splits)

lemma add_returns:
  assumes a: "pylong_wf a" and b: "pylong_wf b"
  shows "py_returns ok st (pylong_add ok a b st) (ival a + ival b)"
proof -
  have pos: "ival x = int (magnitude x)" if "ob_size x > 0" for x using that by (simp add: ival_def)
  have neg: "ival x = - int (magnitude x)" if "ob_size x < 0" for x using that by (simp add: ival_def)
  have zero: "ival x = 0" if "ob_size x = 0" for x using that by (simp add: ival_def)
  consider "ob_size a = 0 \<or> ob_size b = 0" | "ob_size a > 0 \<and> ob_size b > 0 \<or> ob_size a < 0 \<and> ob_size b < 0"
    | "ob_size a > 0 \<and> ob_size b < 0 \<or> ob_size a < 0 \<and> ob_size b > 0" by linarith
  then show ?thesis
  proof cases
    case 1
    then show ?thesis using copy_object_returns [OF a] copy_object_returns [OF b] zero
      by (auto simp: pylong_add_def)
  next
    case 2
    then show ?thesis
      using negate_returns [OF add_magnitude_returns [OF a b, of ok st], of "ob_size a < 0"]
      by (auto simp: pylong_add_def pos neg)
  next
    case 3
    note sub = negate_returns [OF sub_magnitude_returns [OF a b, of ok st], of "ob_size a < 0"]
      negate_returns [OF sub_magnitude_returns [OF b a, of ok st], of "ob_size b < 0"]
    consider "magnitude a = magnitude b" | "magnitude b < magnitude a" | "magnitude a < magnitude b"
      by linarith
    then show ?thesis
      using 3 zero_returns [of ok st] sub
      by cases (auto simp: pylong_add_def compare_magnitude_spec [OF a b] pos neg of_nat_diff)
  qed
qed

definition Py_DECREF_frees :: "decref \<Rightarrow> bool" where
  "Py_DECREF_frees D \<longleftrightarrow>
     (\<forall>op st. ob_refcnt op = 1 \<longrightarrow> D op st = st\<lparr>live := live st - 1\<rparr>)"

lemma py_returns_cases:
  assumes "py_returns ok st r v"
  obtains st' c bytes where "r = Inr (None, st')" "live st' = live st" "calls st \<le> c" "c < calls st'" "\<not> ok c bytes"
  | z st' where "r = Inr (Some z, st')" "pylong_wf z" "ival z = v" "ob_refcnt z = 1" "ob_type z = PyLong_Type"
      "live st' = live st + 1" "calls st < calls st'"
  using assms by (auto simp: py_returns_def split: sum.splits option.splits)

text \<open>Computing with a temporary object and releasing it: the shape that subtraction and inversion share.\<close>

lemma temporary_returns:
  assumes D: "Py_DECREF_frees D"
    and tmp: "py_returns ok st r1 u"
    and rest: "\<And>z st1. pylong_wf z \<Longrightarrow> ival z = u \<Longrightarrow> ob_refcnt z = 1 \<Longrightarrow> py_returns ok st1 (f z st1) v"
  shows "py_returns ok st (sbind r1 (\<lambda>(p, st1).
     case p of None \<Rightarrow> Inr (None, st1)
     | Some z \<Rightarrow> sbind (f z st1) (\<lambda>(res, st2). Inr (res, pylong_free D z st2)))) v"
  using tmp
proof (cases rule: py_returns_cases)
  case 1
  then show ?thesis by (auto simp: py_returns_def)
next
  case (2 z st1)
  then have "py_returns ok st1 (f z st1) v" using rest by blast
  then show ?thesis
  proof (cases rule: py_returns_cases)
    case 1
    then show ?thesis using 2 D
      by (auto simp: py_returns_def pylong_free_def Py_DECREF_frees_def dest: less_imp_le intro: order_trans)
  next
    case (2 z' st2)
    then show ?thesis using \<open>r1 = Inr (Some z, st1)\<close> \<open>ob_refcnt z = 1\<close> \<open>live st1 = live st + 1\<close> \<open>calls st < calls st1\<close> D
      by (auto simp: py_returns_def pylong_free_def Py_DECREF_frees_def)
  qed
qed

lemma sub_returns:
  assumes "Py_DECREF_frees D" "pylong_wf a" "pylong_wf b"
  shows "py_returns ok st (pylong_sub ok D a b st) (ival a - ival b)"
  unfolding pylong_sub_def
proof (rule temporary_returns [OF assms(1) neg_returns [OF assms(3)]])
  show "py_returns ok st1 (pylong_add ok a z st1) (ival a - ival b)"
    if "pylong_wf z" "ival z = - ival b" for z st1
    using add_returns [OF assms(2) that(1), of ok st1] that(2) by simp
qed

subsection \<open>Multiplication\<close>

lemma dval_drop: "j < length bs \<Longrightarrow> dval (drop j bs) = unat (bs ! j) + PYB * dval (drop (Suc j) bs)"
  by (simp add: Cons_nth_drop_Suc [symmetric])

lemma unat_prod:
  assumes "unat (z :: uint32) < PYB" "unat (carry :: uint64) < PYB" "unat (ai :: uint64) < PYB" "unat (b :: uint32) < PYB"
  shows "unat (ucast z + carry + ai * ucast b) = unat z + unat carry + unat ai * unat b"
    and "(unat z + unat carry + unat ai * unat b) div PYB < PYB"
proof -
  have "unat ai * unat b \<le> (PYB - 1) * (PYB - 1)" using assms by (intro mult_le_mono) simp_all
  then have le: "unat z + unat carry + unat ai * unat b < PYB * PYB" using assms by simp
  have u: "unat (ai * ucast b) = unat ai * unat b"
    using le by (simp add: unat_word_ariths)
  show "unat (ucast z + carry + ai * ucast b) = unat z + unat carry + unat ai * unat b"
    using le by (simp add: unat_word_ariths)
  show "(unat z + unat carry + unat ai * unat b) div PYB < PYB"
    using le by (simp add: div_less_iff_less_mult)
qed

lemma mul_step_value:
  fixes B K :: nat
  assumes "v' + z * K = v + (p mod B) * K" "p = z + c + a * b"
  shows "v' + (p div B) * (B * K) + a * d * (B * K) = v + c * K + a * (b + B * d) * K"
proof -
  have "(p mod B) * K + (p div B) * (B * K) = p * K"
    by (metis add_mult_distrib mod_div_mult_eq mult.assoc)
  then show ?thesis using assms by (simp add: algebra_simps)
qed

definition mul_value :: "uint64 \<Rightarrow> uint32 list \<Rightarrow> nat \<Rightarrow> nat \<Rightarrow> uint64 \<Rightarrow> uint32 list \<Rightarrow> nat" where
  "mul_value ai ws i j carry zs =
     dval zs + unat carry * PYB ^ (i + j) + unat ai * dval (drop j ws) * PYB ^ (i + j)"

lemma mul_inner_spec:
  assumes "nb \<le> length bs" "small (take nb bs)" "unat ai < PYB" "unat carry < PYB" "small zs"
    and "i + nb \<le> length zs" "mul_value ai (take nb bs) i j carry zs < PYB ^ length zs"
  shows "\<exists>zs'. mul_inner ai bs nb i j carry zs = Inr zs' \<and> length zs' = length zs \<and> small zs' \<and>
    dval zs' = mul_value ai (take nb bs) i j carry zs"
  using assms
proof (induction ai bs nb i j carry zs rule: mul_inner.induct)
  case (1 ai bs nb i j carry zs)
  note prems = 1(2-)
  let ?ws = "take nb bs" and ?k = "i + j"
  show ?case
  proof (cases "j < nb \<or> carry > 0")
    case False
    then show ?thesis using prems by (subst mul_inner.simps) (simp add: mul_value_def word_gt_0)
  next
    case True
    have k: "?k < length zs"
    proof (cases "j < nb")
      case False
      with True have "1 \<le> unat carry" by (simp add: word_gt_0 unat_gt_0 Suc_le_eq)
      then have "PYB ^ ?k \<le> unat carry * PYB ^ ?k" by simp
      then have "PYB ^ ?k < PYB ^ length zs" using prems(7) unfolding mul_value_def by linarith
      then show ?thesis by (rule power_less_imp_less_exp [rotated]) simp
    qed (use prems in simp)
    define b where "b = (if j < nb then bs ! j else 0)"
    define prod where "prod = ucast (zs ! ?k) + carry + ai * ucast b"
    define zs1 where "zs1 = zs[?k := ucast (prod AND BASE_MASK)]"
    have zk: "unat (zs ! ?k) < PYB" using prems(5) k by (simp add: small_def)
    have bb: "unat b < PYB" using prems(1,2) by (simp add: b_def small_nth)
    have db: "dval (drop j ?ws) = unat b + PYB * dval (drop (Suc j) ?ws)"
      using prems(1) dval_drop [of j ?ws] by (simp add: b_def)
    have p: "unat prod = unat (zs ! ?k) + unat carry + unat ai * unat b"
      unfolding prod_def by (rule unat_prod(1)) (use zk bb prems in simp_all)
    have c': "unat (shr prod 30) < PYB"
      unfolding unat_high p by (rule unat_prod(2)) (use zk bb prems in simp_all)
    have "dval zs1 + unat (zs ! ?k) * PYB ^ ?k = dval zs + (unat prod mod PYB) * PYB ^ ?k"
      unfolding zs1_def using dval_update [OF k] by (simp add: unat_low)
    then have V: "mul_value ai ?ws i (Suc j) (shr prod 30) zs1 = mul_value ai ?ws i j carry zs"
      using mul_step_value [OF _ p] by (simp add: mul_value_def unat_high db)
    have s1: "small zs1" unfolding zs1_def using prems(5) by (rule small_update) (simp add: unat_low)
    have step: "mul_inner ai bs nb i j carry zs = mul_inner ai bs nb i (j + 1) (shr prod 30) zs1"
      using True k prems(1) by (subst mul_inner.simps) (simp add: rd_def wr_def prod_def b_def zs1_def Let_def)
    have "\<exists>zs'. mul_inner ai bs nb i (j + 1) (shr prod 30) zs1 = Inr zs' \<and> length zs' = length zs1 \<and> small zs' \<and>
        dval zs' = mul_value ai ?ws i (j + 1) (shr prod 30) zs1"
      using prems s1 c' V k True
      by (intro "1.IH" [of "zs ! ?k" "ucast (zs ! ?k) + carry" prod zs1])
        (auto simp: rd_def wr_def prod_def b_def zs1_def)
    then show ?thesis unfolding step using V by (simp add: zs1_def)
  qed
qed

lemma mul_outer_spec:
  assumes "m + n = na" "na \<le> length as" "nb \<le> length bs" "small (take na as)" "small (take nb bs)" "small zs"
    and "length zs = na + nb" "dval zs = dval (take m as) * dval (take nb bs)"
  shows "\<exists>zs'. mul_outer as bs nb [m..<na] zs = Inr zs' \<and> length zs' = na + nb \<and> small zs' \<and>
    dval zs' = dval (take na as) * dval (take nb bs)"
  using assms
proof (induction n arbitrary: m zs)
  case (Suc n)
  let ?b = "dval (take nb bs)"
  have m: "m < na" using Suc.prems by simp
  have a: "unat (as ! m) < PYB" using Suc.prems m by (intro small_nth [of na]) simp_all
  have v: "mul_value (ucast (as ! m)) (take nb bs) m 0 0 zs = dval (take (Suc m) as) * ?b"
    using Suc.prems m by (simp add: mul_value_def dval_take_Suc algebra_simps)
  have "dval (take (Suc m) as) < PYB ^ Suc m" "?b < PYB ^ nb"
    using dval_less [of "take (Suc m) as"] dval_less [of "take nb bs"] Suc.prems m small_take_le [of na as "Suc m"]
    by simp_all
  then have "dval (take (Suc m) as) * ?b < PYB ^ Suc m * PYB ^ nb" by (intro mult_strict_mono) simp_all
  also have "\<dots> \<le> PYB ^ length zs"
    unfolding power_add [symmetric] using Suc.prems m by (intro power_increasing) simp_all
  finally have "mul_value (ucast (as ! m)) (take nb bs) m 0 0 zs < PYB ^ length zs" unfolding v .
  then have "\<exists>zs'. mul_inner (ucast (as ! m)) bs nb m 0 0 zs = Inr zs' \<and> length zs' = length zs \<and> small zs' \<and>
      dval zs' = mul_value (ucast (as ! m)) (take nb bs) m 0 0 zs"
    using Suc.prems m a by (intro mul_inner_spec) simp_all
  then obtain zs1 where in1: "mul_inner (ucast (as ! m)) bs nb m 0 0 zs = Inr zs1" "length zs1 = na + nb" "small zs1"
    "dval zs1 = dval (take (Suc m) as) * ?b"
    using Suc.prems v by auto
  then have "\<exists>zs'. mul_outer as bs nb [Suc m..<na] zs1 = Inr zs' \<and> length zs' = na + nb \<and> small zs' \<and>
      dval zs' = dval (take na as) * ?b"
    using Suc.prems by (intro Suc.IH) simp_all
  then show ?case using in1 m Suc.prems by (simp add: upt_conv_Cons rd_def)
qed simp

lemma mul_returns:
  assumes a: "pylong_wf a" and b: "pylong_wf b"
  shows "py_returns ok st (pylong_mul ok a b st) (ival a * ival b)"
proof (cases "ob_size a = 0 \<or> ob_size b = 0")
  case True
  then show ?thesis using zero_returns [of ok st] by (auto simp: pylong_mul_def ival_def)
next
  case False
  let ?n = "ndigits a + ndigits b"
  obtain zs where zs: "mul_outer (ob_digit a) (ob_digit b) (ndigits b) [0..<ndigits a] (replicate ?n 0) = Inr zs"
    "length zs = ?n" "small zs" "dval zs = magnitude a * magnitude b"
    using mul_outer_spec [of 0 "ndigits a" "ndigits a" "ob_digit a" "ndigits b" "ob_digit b" "replicate ?n 0"]
      wf_len [OF a] wf_len [OF b] wf_small [OF a] wf_small [OF b]
    by (auto simp: magnitude_def)
  have n: "?n > 0" using False by (auto simp: ndigits_def)
  have sg: "ival a * ival b = sgn (ob_size a) * sgn (ob_size b) * int (dval zs)"
    by (simp add: ival_def zs(4) algebra_simps)
  define s where "s = (if (ob_size a < 0) \<noteq> (ob_size b < 0) then - int ?n else int ?n)"
  have s: "nat \<bar>s\<bar> = ?n" "sgn s = sgn (ob_size a) * sgn (ob_size b)"
    using False n by (auto simp: s_def sgn_if)
  show ?thesis
    using False zs s
    unfolding pylong_mul_def sg Let_def s_def [symmetric]
    by (auto simp: ival_upd intro!: with_alloc_clamp_returns
        exI [of _ "(fresh ?n)\<lparr>ob_digit := zs, ob_size := s\<rparr>"])
qed

subsection \<open>Conversion from and to 64-bit integers\<close>

lemma from_loop_spec:
  assumes "count \<le> length ds" "small (take count ds)" "dval (take count ds) + unat uval * PYB ^ count < PYB ^ length ds"
  shows "\<exists>n ds'. from_loop uval count ds = Inr (n, ds') \<and> n \<le> length ds' \<and> length ds' = length ds \<and>
    small (take n ds') \<and> dval (take n ds') = dval (take count ds) + unat uval * PYB ^ count"
  using assms
proof (induction uval count ds rule: from_loop.induct)
  case (1 uval count ds)
  show ?case
  proof (cases "uval > 0")
    case False
    then show ?thesis using 1(2-) by (subst from_loop.simps) (simp add: word_gt_0)
  next
    case True
    then have "1 \<le> unat uval" by (simp add: word_gt_0 unat_gt_0 Suc_le_eq)
    then have "PYB ^ count \<le> unat uval * PYB ^ count" by simp
    then have "PYB ^ count < PYB ^ length ds" using 1(4) by linarith
    then have c: "count < length ds" by (rule power_less_imp_less_exp [rotated]) simp
    let ?ds = "ds[count := ucast (uval AND BASE_MASK)]"
    note step = digit_step [OF c, of uval]
    have "\<exists>n ds'. from_loop (shr uval 30) (count + 1) ?ds = Inr (n, ds') \<and> n \<le> length ds' \<and>
        length ds' = length ?ds \<and> small (take n ds') \<and>
        dval (take n ds') = dval (take (count + 1) ?ds) + unat (shr uval 30) * PYB ^ (count + 1)"
      using 1(2-) True c step by (intro "1.IH") (simp_all add: wr_def)
    then show ?thesis using True c step by (subst from_loop.simps) (simp add: wr_def)
  qed
qed

lemma unat_neg64: "sint (val :: uint64) < 0 \<Longrightarrow> unat (- val) = nat (- sint val)"
proof -
  assume neg: "sint val < 0"
  have "- (2 ^ 63) \<le> sint val" using sint_ge [of val] by simp
  with neg have "unat (of_nat (nat (- sint val)) :: uint64) = nat (- sint val)"
    by (intro unat_of_nat_less) auto
  moreover have "(of_nat (nat (- sint val)) :: uint64) = - val" using neg by (simp add: of_nat_nat)
  ultimately show "unat (- val) = nat (- sint val)" by simp
qed

lemma unat_nonneg64: "0 \<le> sint (val :: uint64) \<Longrightarrow> unat val = nat (sint val)"
proof -
  assume nonneg: "0 \<le> sint val"
  have "sint val < 2 ^ 63" using sint_less [of val] by simp
  with nonneg have "unat (of_nat (nat (sint val)) :: uint64) = nat (sint val)"
    by (intro unat_of_nat_less) auto
  moreover have "(of_nat (nat (sint val)) :: uint64) = val" using nonneg by (simp add: of_nat_nat)
  ultimately show "unat val = nat (sint val)" by simp
qed

lemma from_int64_returns: "py_returns ok st (pylong_from_int64 ok val st) (sint val)"
proof (cases "val = 0")
  case True
  then show ?thesis using zero_returns by (simp add: pylong_from_int64_def)
next
  case False
  define neg where "neg = (sint val < 0)"
  define uval where "uval = (if neg then 0 - val else val)"
  have u: "int (unat uval) = \<bar>sint val\<bar>"
  proof (cases neg)
    case True
    then show ?thesis using unat_neg64 [of val] by (simp add: uval_def neg_def del: of_nat_unat)
  next
    case False
    then show ?thesis using unat_nonneg64 [of val] by (simp add: uval_def neg_def del: of_nat_unat)
  qed
  have "unat uval < 2 ^ 64" using unsigned_less [of uval] by simp
  then have "\<exists>n ds. from_loop uval 0 (replicate 3 0) = Inr (n, ds) \<and> n \<le> length ds \<and>
      length ds = length (replicate 3 (0 :: uint32)) \<and> small (take n ds) \<and>
      dval (take n ds) = dval (take 0 (replicate 3 0)) + unat uval * PYB ^ 0"
    by (intro from_loop_spec) simp_all
  then obtain n ds where l: "from_loop uval 0 (replicate 3 0) = Inr (n, ds)" "n \<le> length ds" "small (take n ds)"
    "dval (take n ds) = unat uval"
    by auto
  have n0: "n \<noteq> 0" using l(4) False by (cases n) (auto simp: uval_def unat_eq_zero split: if_splits)
  define s where "s = (if neg then - int n else int n)"
  have s: "nat \<bar>s\<bar> = n" "sgn s * int (unat uval) = sint val" using u n0 by (auto simp: s_def neg_def)
  show ?thesis
    using False l s
    unfolding pylong_from_int64_def Let_def neg_def [symmetric] uval_def [symmetric]
    by (cases neg) (auto simp: ival_upd s_def intro!: with_alloc_clamp_returns
        exI [of _ "(fresh 3)\<lparr>ob_digit := ds, ob_size := (if neg then - int n else int n)\<rparr>"])
qed

lemma shl_or_digit:
  assumes "unat (d :: uint32) < PYB"
  shows "shl u 30 OR ucast d = u * 2 ^ 30 + (ucast d :: uint64)"
proof -
  have "shl u 30 AND (ucast d :: uint64) = 0"
  proof (rule bit_eqI)
    fix n
    have "take_bit 30 (unat d) = unat d" using assms by (simp add: take_bit_nat_eq_self)
    then have "bit (unat d) n \<Longrightarrow> n < 30" by (metis bit_take_bit_iff)
    then show "bit (shl u 30 AND (ucast d :: uint64)) n = bit (0 :: uint64) n"
      by (auto simp: bit_simps)
  qed
  from disjunctive_add_eq_or [OF this] show ?thesis by (simp add: push_bit_eq_mult)
qed

lemma to_loop_spec:
  "n \<le> length ds \<Longrightarrow> small (take n ds) \<Longrightarrow>
   to_loop ds n u = Inr (u * of_nat (PYB ^ n) + of_nat (dval (take n ds)))"
proof (induction n arbitrary: u)
  case (Suc n)
  then have "small (take n ds)" "unat (ds ! n) < PYB" by (simp_all add: small_take_Suc)
  then show ?case using Suc by (simp add: shl_or_digit dval_take_Suc algebra_simps)
qed simp

lemma to_int64_spec:
  assumes wf: "pylong_wf op" and m: "magnitude op < 2 ^ 64"
  shows "pylong_to_int64 (Some op) =
    Inr (if - (2 ^ 63) \<le> ival op \<and> ival op < 2 ^ 63 then Some (of_int (ival op)) else None)"
proof (cases "ob_size op = 0")
  case True
  then show ?thesis by (simp add: pylong_to_int64_def ival_def)
next
  case False
  have n: "ndigits op \<le> 3"
  proof (rule ccontr)
    assume "\<not> ndigits op \<le> 3"
    then have "PYB ^ 3 \<le> PYB ^ (ndigits op - 1)" by (intro power_increasing) simp_all
    then have "PYB ^ 3 \<le> magnitude op" using magnitude_ge [OF wf False] by linarith
    then show False using m by simp
  qed
  let ?u = "of_nat (magnitude op) :: uint64"
  have l: "to_loop (ob_digit op) (ndigits op) 0 = Inr ?u"
    using to_loop_spec [of "ndigits op" "ob_digit op" 0] wf_len [OF wf] wf_small [OF wf]
    by (simp add: magnitude_def)
  have u: "unat ?u = magnitude op" using m by (intro unat_of_nat_less) simp
  have k: "unat (of_nat k :: uint64) = k" if "k < 2 ^ 64" for k
    by (rule unat_of_nat_less) (use that in simp)
  have gt: "?u > of_nat k \<longleftrightarrow> magnitude op > k" if "k < 2 ^ 64" for k
    using u k [OF that] by (simp add: word_less_nat_alt)
  have eq: "?u = of_nat k \<longleftrightarrow> magnitude op = k" if "k < 2 ^ 64" for k
    using u k [OF that] by metis
  show ?thesis
    using False n l gt [of "2 ^ 63 - 1"] gt [of "2 ^ 63"] eq [of "2 ^ 63"]
    by (auto simp: pylong_to_int64_def ival_def Let_def push_bit_eq_mult sgn_if)
qed

subsection \<open>Bitwise operations\<close>

lemma nat_and_less: "x < 2 ^ n \<Longrightarrow> x AND y < (2 :: nat) ^ n"
  by (metis take_bit_and take_bit_nat_eq_self take_bit_nat_less_exp take_bit_take_bit min.idem and.assoc and.commute take_bit_eq_mask)

lemma nat_and_block:
  assumes "x < 2 ^ n" "x' < 2 ^ n"
  shows "(x + 2 ^ n * y) AND (x' + 2 ^ n * y') = (x AND x') + 2 ^ n * (y AND y' :: nat)"
proof -
  have or: "a + 2 ^ n * b = a OR push_bit n b" if "a < 2 ^ n" for a b :: nat
    using nat_or_push_bit [OF that] by (simp add: push_bit_eq_mult mult.commute)
  have lt: "bit a k \<Longrightarrow> k < n" if "a < 2 ^ n" for a k :: nat
    using that by (metis bit_take_bit_iff take_bit_nat_eq_self)
  have "x AND x' < 2 ^ n" using assms(1) by (rule nat_and_less)
  then show ?thesis
    using assms by (auto simp: or bit_eq_iff bit_simps dest: lt)
qed

lemma dval_and: "small as \<Longrightarrow> small bs \<Longrightarrow> dval (map2 (AND) as bs) = dval as AND dval bs"
proof (induction as arbitrary: bs)
  case (Cons a as)
  then show ?case
    using nat_and_block [of "unat a" 30] by (cases bs) (auto simp: unsigned_and_eq)
qed simp

lemma and_loop_spec:
  assumes "m + k = n" "n \<le> length as" "n \<le> length bs" "n \<le> length zs"
    and "take m zs = map2 (AND) (take m as) (take m bs)"
  shows "\<exists>zs'. and_loop as bs [m..<n] zs = Inr zs' \<and> length zs' = length zs \<and>
    take n zs' = map2 (AND) (take n as) (take n bs)"
  using assms
proof (induction k arbitrary: m zs)
  case (Suc k)
  let ?zs = "zs[m := as ! m AND bs ! m]"
  have "take (Suc m) ?zs = map2 (AND) (take (Suc m) as) (take (Suc m) bs)"
    using Suc.prems by (simp add: take_Suc_conv_app_nth)
  then have "\<exists>zs'. and_loop as bs [Suc m..<n] ?zs = Inr zs' \<and> length zs' = length ?zs \<and>
      take n zs' = map2 (AND) (take n as) (take n bs)"
    using Suc.prems by (intro Suc.IH) simp_all
  then show ?case using Suc.prems by (simp add: upt_conv_Cons)
qed simp

lemma and_returns:
  assumes a: "pylong_wf a" and b: "pylong_wf b" and nonneg: "0 \<le> ival a" "0 \<le> ival b"
  shows "py_returns ok st (pylong_and ok a b st) (ival a AND ival b)"
proof -
  have sz: "0 \<le> ob_size x" if "pylong_wf x" "0 \<le> ival x" for x
    using that magnitude_pos [of x] by (auto simp: ival_def sgn_if split: if_splits)
  note sa = sz [OF a nonneg(1)] and sb = sz [OF b nonneg(2)]
  have nd: "nat (ob_size a) = ndigits a" "nat (ob_size b) = ndigits b" using sa sb by (simp_all add: ndigits_def)
  define n where "n = (if ndigits a < ndigits b then ndigits a else ndigits b)"
  have n: "n \<le> ndigits a" "n \<le> ndigits b" by (simp_all add: n_def)
  note len = wf_len [OF a] wf_len [OF b]
  have "\<exists>zs. and_loop (ob_digit a) (ob_digit b) [0..<n] (replicate n 0) = Inr zs \<and>
      length zs = length (replicate n (0 :: uint32)) \<and>
      take n zs = map2 (AND) (take n (ob_digit a)) (take n (ob_digit b))"
    by (rule and_loop_spec) (use n len in simp_all)
  then obtain zs where zs: "and_loop (ob_digit a) (ob_digit b) [0..<n] (replicate n 0) = Inr zs" "length zs = n"
    "take n zs = map2 (AND) (take n (ob_digit a)) (take n (ob_digit b))" by (metis length_replicate)
  have "map2 (AND) (take n (ob_digit a)) (take n (ob_digit b)) =
      map2 (AND) (take (ndigits a) (ob_digit a)) (take (ndigits b) (ob_digit b))"
    using len by (intro nth_equalityI) (auto simp: n_def split: if_splits)
  then have v: "dval (take n zs) = magnitude a AND magnitude b"
    unfolding zs(3) magnitude_def using wf_small [OF a] wf_small [OF b] by (simp add: dval_and)
  have s: "small (take n zs)"
  proof -
    have "unat (x AND y) < PYB" if "unat x < PYB" for x y :: uint32
      using that nat_and_less [of "unat x" 30 "unat y"] by (simp add: unsigned_and_eq)
    then show ?thesis unfolding zs(3) using small_take_le [OF wf_small [OF a] n(1)]
      by (auto simp: small_def dest: set_zip_leftD)
  qed
  have i: "ival a AND ival b = int (magnitude a AND magnitude b)"
    using sa sb by (auto simp: ival_def sgn_if of_nat_and_eq magnitude_def ndigits_def)
  show ?thesis
    using sa sb zs s v unfolding pylong_and_def nd Let_def n_def [symmetric] i
    by (auto simp: ival_upd intro!: with_alloc_clamp_returns
        exI [of _ "(fresh n)\<lparr>ob_digit := zs, ob_size := int n\<rparr>"])
qed

lemma and_negative: "pylong_wf a \<Longrightarrow> ival a < 0 \<or> ival b < 0 \<Longrightarrow> pylong_and ok a b st = Inr (None, st)"
  by (auto simp: pylong_and_def ival_def sgn_if split: if_splits)

lemma invert_returns:
  assumes D: "Py_DECREF_frees D" and a: "pylong_wf a"
  shows "py_returns ok st (pylong_invert ok D a st) (- ival a - 1)"
  using from_int64_returns [of ok st 1]
proof (cases rule: py_returns_cases)
  case 1
  then show ?thesis by (auto simp: pylong_invert_def py_returns_def)
next
  case one: (2 one st1)
  have "ival one = 1" using one(3) by simp
  with add_returns [OF a one(2), of ok st1] have "py_returns ok st1 (pylong_add ok a one st1) (ival a + 1)" by simp
  then show ?thesis
  proof (cases rule: py_returns_cases)
    case 1
    then show ?thesis using one D
      by (auto simp: pylong_invert_def py_returns_def pylong_free_def Py_DECREF_frees_def
          dest: less_imp_le intro: order_trans)
  next
    case sum: (2 z st2)
    let ?st3 = "pylong_free D one st2"
    have st3: "live ?st3 = live st + 1" "calls ?st3 = calls st2"
      using one sum D by (simp_all add: pylong_free_def Py_DECREF_frees_def)
    have "py_returns ok ?st3 (pylong_neg ok z ?st3) (- ival a - 1)"
      using neg_returns [OF sum(2), of ok ?st3] sum(3) by simp
    then show ?thesis
    proof (cases rule: py_returns_cases)
      case (1 st4 c bytes)
      then have "calls st \<le> c" using one sum st3 by linarith
      with 1 have "\<exists>c \<ge> calls st. c < calls st4 \<and> (\<exists>bytes. \<not> ok c bytes)" by blast
      then show ?thesis using 1(1,2) one(1,4) sum(1,4) st3 D
        by (simp add: pylong_invert_def py_returns_def pylong_free_def Py_DECREF_frees_def)
    next
      case (2 z' st4)
      then have "calls st < calls st4" using one sum st3 by linarith
      then show ?thesis using 2 one(1) sum(1,4) st3 D
        by (simp add: pylong_invert_def py_returns_def pylong_free_def Py_DECREF_frees_def)
    qed
  qed
qed

end
