(* ===== verification/PyLong_Correct.thy ===== *)
theory PyLong_Correct
  imports PyLong_Ops
begin

text \<open>
  The contract that the arithmetic operations of \<^verbatim>\<open>cpython_int.c\<close> share, as a locale, its
  interpretations on addition, subtraction and multiplication, and the properties of the integer
  component.
\<close>

section \<open>The contract of a binary operation\<close>

type_synonym pylong_binop =
  "malloc_oracle \<Rightarrow> PyLongObject \<Rightarrow> PyLongObject \<Rightarrow> alloc_state \<Rightarrow> pylong_result"

locale number_op =
  fixes f :: pylong_binop and sem :: "int \<Rightarrow> int \<Rightarrow> int"
  assumes returns: "pylong_wf a \<Longrightarrow> pylong_wf b \<Longrightarrow> py_returns ok st (f ok a b st) (sem (ival a) (ival b))"
begin

lemma no_fault: "pylong_wf a \<Longrightarrow> pylong_wf b \<Longrightarrow> f ok a b st \<noteq> Inl e"
  using returns [of a b ok st] by (auto simp: py_returns_def)

lemma total:
  assumes "pylong_wf a" "pylong_wf b" "\<And>c n. ok c n"
  shows "\<exists>z st'. f ok a b st = Inr (Some z, st') \<and> pylong_wf z \<and> ival z = sem (ival a) (ival b) \<and>
    live st' = live st + 1"
  using returns [OF assms(1,2), of ok st] assms(3)
  by (auto simp: py_returns_def split: sum.splits option.splits)

end

locale commutative_number_op = number_op +
  assumes commute: "sem x y = sem y x"
begin

lemma swapped_results_compare_equal:
  assumes "pylong_wf a" "pylong_wf b"
    and "f ok a b st = Inr (Some z, st1)" "f ok b a st1 = Inr (Some z', st2)"
  shows "pylong_compare z z' = Inr 0"
proof -
  have "pylong_wf z \<and> ival z = sem (ival a) (ival b)" "pylong_wf z' \<and> ival z' = sem (ival b) (ival a)"
    using returns [OF assms(1,2), of ok st] returns [OF assms(2,1), of ok st1] assms(3,4)
    by (auto simp: py_returns_def)
  then show ?thesis using compare_spec [of z z'] commute [of "ival a" "ival b"] by simp
qed

end

interpretation py_add: commutative_number_op pylong_add "(+)"
  by unfold_locales (simp_all add: add_returns)

interpretation py_mul: commutative_number_op pylong_mul "(*)"
  by unfold_locales (simp_all add: mul_returns)

definition decref_spec :: decref where
  "decref_spec op st = (if ob_refcnt op = 1 then st\<lparr>live := live st - 1\<rparr> else st)"

lemma decref_spec_frees: "Py_DECREF_frees decref_spec"
  by (simp add: Py_DECREF_frees_def decref_spec_def)

interpretation py_sub: number_op "\<lambda>ok. pylong_sub ok decref_spec" "(-)"
  by unfold_locales (simp add: sub_returns decref_spec_frees)

section \<open>Objects for the witnesses\<close>

text \<open>The integers 2^30 + 5, -7 and 2^64 as the code stores them.\<close>

definition int_a :: PyLongObject where
  "int_a = \<lparr>ob_refcnt = 1, ob_type = PyLong_Type, ob_size = 2, ob_digit = [5, 1]\<rparr>"

definition int_b :: PyLongObject where
  "int_b = \<lparr>ob_refcnt = 1, ob_type = PyLong_Type, ob_size = - 1, ob_digit = [7]\<rparr>"

definition int_2e64 :: PyLongObject where
  "int_2e64 = \<lparr>ob_refcnt = 1, ob_type = PyLong_Type, ob_size = 3, ob_digit = [0, 0, 16]\<rparr>"

definition st0 :: alloc_state where
  "st0 = \<lparr>calls = 0, live = 2\<rparr>"

lemma witness_objects:
  "pylong_wf int_a" "pylong_wf int_b" "pylong_wf int_2e64"
  "ival int_a = 1073741829" "ival int_b = - 7" "ival int_2e64 = 18446744073709551616"
  "magnitude int_a = 1073741829" "magnitude int_b = 7"
  "ob_type int_a = PyLong_Type" "ob_type int_b = PyLong_Type"
  by (simp_all add: pylong_wf_def pylong_verify_invariants_def int_a_def int_b_def int_2e64_def ndigits_def
      rd_def BASE_MASK_def upt_rec ival_def magnitude_def)

section \<open>Properties\<close>

text \<open>Addition through the type's slot: for two well-formed integers the slot never reads or writes
outside a digit array, never fails an assertion, and returns a fresh well-formed object whose value is
the sum; NULL only when an allocation failed, and then no object is leaked.\<close>

theorem long_add_slot_correct:
  assumes "pylong_wf v" "pylong_wf w" "ob_type v = PyLong_Type" "ob_type w = PyLong_Type"
  shows "py_returns ok st (long_add_slot ok v w st) (ival v + ival w)"
  using py_add.returns [OF assms(1,2)] assms(3,4) by (simp add: long_add_slot_def)

theorem long_add_slot_correct_witness:
  "py_returns (\<lambda>_ _. True) st0 (long_add_slot (\<lambda>_ _. True) int_a int_b st0) 1073741822"
  using long_add_slot_correct [of int_a int_b "\<lambda>_ _. True" st0] by (simp add: witness_objects)

text \<open>Subtraction allocates a negated copy of its second operand and releases it: with
\<^verbatim>\<open>Py_DECREF\<close> releasing an object whose only reference is dropped, as documented, the slot returns a
fresh object with the difference and exactly one more object is live, the temporary being released on
the failing paths too.\<close>

theorem long_sub_slot_correct:
  assumes "Py_DECREF_frees D"
    and "pylong_wf v" "pylong_wf w" "ob_type v = PyLong_Type" "ob_type w = PyLong_Type"
  shows "py_returns ok st (long_sub_slot ok D v w st) (ival v - ival w)"
  using sub_returns [OF assms(1-3)] assms(4,5) by (simp add: long_sub_slot_def)

theorem long_sub_slot_correct_witness:
  "py_returns (\<lambda>c _. c < 2) st0 (long_sub_slot (\<lambda>c _. c < 2) decref_spec int_a int_b st0) 1073741836"
  using long_sub_slot_correct [of decref_spec int_a int_b "\<lambda>c _. c < 2" st0]
  by (simp add: witness_objects decref_spec_frees)

text \<open>C11. Schoolbook multiplication: the column loop, which runs while a carry is left, stays inside
the allocated na + nb digits, no 64-bit product overflows, and the result is the product, normalised.\<close>

theorem long_mul_slot_correct:
  assumes "pylong_wf v" "pylong_wf w" "ob_type v = PyLong_Type" "ob_type w = PyLong_Type"
  shows "py_returns ok st (long_mul_slot ok v w st) (ival v * ival w)"
  using py_mul.returns [OF assms(1,2)] assms(3,4) by (simp add: long_mul_slot_def)

theorem long_mul_slot_correct_witness:
  "py_returns (\<lambda>_ _. True) st0 (long_mul_slot (\<lambda>_ _. True) int_a int_b st0) (- 7516192803)"
  using long_mul_slot_correct [of int_a int_b "\<lambda>_ _. True" st0] by (simp add: witness_objects)

text \<open>Inversion is two's complement: the result is -v - 1, and both temporaries are released.\<close>

theorem long_invert_slot_correct:
  assumes "Py_DECREF_frees D" "pylong_wf v" "ob_type v = PyLong_Type"
  shows "py_returns ok st (long_invert_slot ok D v st) (NOT (ival v))"
  using invert_returns [OF assms(1,2)] assms(3) by (simp add: long_invert_slot_def not_eq_complement)

theorem long_invert_slot_correct_witness:
  "py_returns (\<lambda>_ _. True) st0 (long_invert_slot (\<lambda>_ _. True) decref_spec int_b st0) 6"
  using long_invert_slot_correct [of decref_spec int_b "\<lambda>_ _. True" st0]
  by (simp add: witness_objects decref_spec_frees not_eq_complement)

text \<open>Subtracting magnitudes needs the larger one first: then neither of the two assertions of the
code (the operands' order, no borrow left over) fails, and the result is the difference.\<close>

theorem pylong_sub_magnitude_correct:
  assumes "pylong_wf a" "pylong_wf b" "magnitude b \<le> magnitude a"
  shows "py_returns ok st (pylong_sub_magnitude ok a b st) (int (magnitude a - magnitude b))"
  by (rule sub_magnitude_returns [OF assms])

theorem pylong_sub_magnitude_correct_witness:
  "py_returns (\<lambda>_ _. True) st0 (pylong_sub_magnitude (\<lambda>_ _. True) int_a int_b st0) 1073741822"
  using pylong_sub_magnitude_correct [of int_a int_b "\<lambda>_ _. True" st0] by (simp add: witness_objects)

text \<open>Bitwise AND: on non-negative operands the result is the bitwise conjunction; with a negative
operand the function returns NULL without allocating.\<close>

theorem pylong_and_correct:
  assumes "pylong_wf a" "pylong_wf b"
  shows "(0 \<le> ival a \<and> 0 \<le> ival b \<longrightarrow> py_returns ok st (pylong_and ok a b st) (ival a AND ival b)) \<and>
    (ival a < 0 \<or> ival b < 0 \<longrightarrow> pylong_and ok a b st = Inr (None, st))"
  using and_returns [OF assms] and_negative [OF assms(1)] by simp

theorem pylong_and_correct_witness:
  "py_returns (\<lambda>_ _. True) st0 (pylong_and (\<lambda>_ _. True) int_a int_a st0) 1073741829 \<and>
    pylong_and (\<lambda>_ _. True) int_a int_b st0 = Inr (None, st0)"
  using pylong_and_correct [of int_a int_a "\<lambda>_ _. True" st0] pylong_and_correct [of int_a int_b "\<lambda>_ _. True" st0]
  by (simp add: witness_objects)

text \<open>Three-way comparison returns the sign of the difference of the values.\<close>

theorem pylong_compare_correct:
  assumes "pylong_wf a" "pylong_wf b"
  shows "pylong_compare a b = Inr (sgn (ival a - ival b))"
  by (rule compare_spec [OF assms])

theorem pylong_compare_correct_witness: "pylong_compare int_b int_a = Inr (- 1)"
  using pylong_compare_correct [of int_b int_a] by (simp add: witness_objects)

text \<open>C12. Round trip: a 64-bit integer stored as an object and read back is the same integer, for every
one of the 2^64 values, the smallest included; the object's value is the signed reading.\<close>

theorem int64_roundtrip:
  assumes "pylong_from_int64 ok val st = Inr (Some op, st')"
  shows "pylong_to_int64 (Some op) = Inr (Some val) \<and> ival op = sint val \<and> pylong_wf op"
proof -
  have wf: "pylong_wf op" and v: "ival op = sint val"
    using from_int64_returns [of ok st val] assms by (simp_all add: py_returns_def)
  have r: "- (2 ^ 63) \<le> sint val" "sint val < 2 ^ 63" using sint_ge [of val] sint_less [of val] by simp_all
  have "ob_size op = 0 \<or> sgn (ob_size op) = 1 \<or> sgn (ob_size op) = - 1" by (simp add: sgn_if)
  then have "int (magnitude op) = \<bar>sint val\<bar>"
    unfolding v [symmetric] ival_def by (auto simp: magnitude_def ndigits_def)
  then have "magnitude op < 2 ^ 64" using r by simp
  from to_int64_spec [OF wf this] show ?thesis using wf v r by simp
qed

theorem int64_roundtrip_witness:
  "\<exists>op st'. pylong_from_int64 (\<lambda>_ _. True) (- 4611686018427387905) st0 = Inr (Some op, st') \<and>
     pylong_to_int64 (Some op) = Inr (Some (- 4611686018427387905))"
proof -
  obtain op st' where "pylong_from_int64 (\<lambda>_ _. True) (- 4611686018427387905) st0 = Inr (Some op, st')"
    using from_int64_returns [of "\<lambda>_ _. True" st0 "- 4611686018427387905"] by (auto elim: py_returns_cases)
  then show ?thesis using int64_roundtrip by blast
qed

text \<open>Reading back an integer of magnitude below 2^64: the value when it fits in 64 signed bits, the
error return otherwise.\<close>

theorem pylong_to_int64_correct:
  assumes "pylong_wf op" "magnitude op < 2 ^ 64"
  shows "pylong_to_int64 (Some op) =
    Inr (if - (2 ^ 63) \<le> ival op \<and> ival op < 2 ^ 63 then Some (of_int (ival op)) else None)"
  by (rule to_int64_spec [OF assms])

theorem pylong_to_int64_correct_witness: "pylong_to_int64 (Some int_b) = Inr (Some (- 7))"
  using pylong_to_int64_correct [of int_b] by (simp add: witness_objects)

text \<open>Beyond that bound the accumulation shifts high bits out of the 64-bit word before the range
test sees them: the three-digit integer 2^64 is reported as the value 0, with success, where every
other integer out of range is refused.\<close>

theorem pylong_to_int64_truncates:
  "pylong_wf int_2e64 \<and> ival int_2e64 = 2 ^ 64 \<and> pylong_to_int64 (Some int_2e64) = Inr (Some 0)"
proof -
  have "pylong_to_int64 (Some int_2e64) = Inr (Some 0)" by code_simp
  then show ?thesis by (simp add: witness_objects)
qed

text \<open>When no allocation fails, the two orders of a product, computed one after the other, are both
returned and compare equal; the same holds of sums.\<close>

theorem pylong_commutes:
  assumes "pylong_wf a" "pylong_wf b" "f = pylong_add \<or> f = pylong_mul" "\<And>c n. ok c n"
  shows "\<exists>z st1 z' st2. f ok a b st = Inr (Some z, st1) \<and> f ok b a st1 = Inr (Some z', st2) \<and>
    pylong_compare z z' = Inr 0"
proof -
  have "\<exists>z st1 z' st2. f ok a b st = Inr (Some z, st1) \<and> f ok b a st1 = Inr (Some z', st2)"
    using assms py_add.total py_mul.total by metis
  then show ?thesis
    using assms py_add.swapped_results_compare_equal py_mul.swapped_results_compare_equal by metis
qed

theorem pylong_commutes_witness:
  "\<exists>z st1 z' st2. pylong_mul (\<lambda>_ _. True) int_a int_b st0 = Inr (Some z, st1) \<and>
    pylong_mul (\<lambda>_ _. True) int_b int_a st1 = Inr (Some z', st2) \<and> pylong_compare z z' = Inr 0"
  using pylong_commutes [of int_a int_b pylong_mul "\<lambda>_ _. True" st0] by (simp add: witness_objects)

end
