(* ===== verification/PyNumber.thy ===== *)
theory PyNumber
  imports PyLong_Correct
begin

text \<open>
  Floats and dynamic dispatch of \<^verbatim>\<open>cpython_int/cpython_int.c\<close>: the two type objects with their tables of
  number methods, \<^verbatim>\<open>PyFloatObject\<close>, and the calls \<^verbatim>\<open>PyNumber_Add\<close> and \<^verbatim>\<open>PyNumber_Multiply\<close> that go through
  the table of the first operand. The type of doubles and its addition and multiplication are
  parameters. A cast of an object to a representation that it does not have is a fault.
\<close>

record 'd PyFloatObject =
  f_refcnt :: int
  f_type :: pytype
  ob_fval :: 'd

datatype 'd pyobject = Long PyLongObject | Float "'d PyFloatObject"

text \<open>\<^verbatim>\<open>Py_TYPE\<close> and \<^verbatim>\<open>Py_REFCNT\<close> read the header that all objects share.\<close>

fun Py_TYPE :: "'d pyobject \<Rightarrow> pytype" where
  "Py_TYPE (Long a) = ob_type a"
| "Py_TYPE (Float f) = f_type f"

fun Py_REFCNT :: "'d pyobject \<Rightarrow> int" where
  "Py_REFCNT (Long a) = ob_refcnt a"
| "Py_REFCNT (Float f) = f_refcnt f"

fun as_long :: "'d pyobject \<Rightarrow> PyLongObject exec" where
  "as_long (Long a) = Inr a"
| "as_long (Float f) = Inl OutOfBounds"

fun as_float :: "'d pyobject \<Rightarrow> 'd PyFloatObject exec" where
  "as_float (Float f) = Inr f"
| "as_float (Long a) = Inl OutOfBounds"

type_synonym 'd py_result = "('d pyobject option \<times> alloc_state) exec"
type_synonym 'd binaryfunc = "'d pyobject \<Rightarrow> 'd pyobject \<Rightarrow> alloc_state \<Rightarrow> 'd py_result"
type_synonym 'd unaryfunc = "'d pyobject \<Rightarrow> alloc_state \<Rightarrow> 'd py_result"

text \<open>What the run rests on: the allocator, \<^verbatim>\<open>Py_DECREF\<close> and the machine's doubles.\<close>

record 'd py_env =
  env_malloc :: malloc_oracle
  env_decref :: decref
  env_fadd :: "'d \<Rightarrow> 'd \<Rightarrow> 'd"
  env_fmul :: "'d \<Rightarrow> 'd \<Rightarrow> 'd"

section \<open>Floats\<close>

definition sizeof_PyFloatObject :: nat where
  "sizeof_PyFloatObject = 24"

definition PyFloat_FromDouble :: "'d py_env \<Rightarrow> 'd \<Rightarrow> alloc_state \<Rightarrow> 'd py_result" where
  "PyFloat_FromDouble E v st =
     (let st' = st\<lparr>calls := calls st + 1\<rparr> in
      if \<not> env_malloc E (calls st) sizeof_PyFloatObject then Inr (None, st')
      else Inr (Some (Float \<lparr>f_refcnt = 1, f_type = PyFloat_Type, ob_fval = v\<rparr>), st'\<lparr>live := live st + 1\<rparr>))"

definition PyFloat_AsDouble :: "'d pyobject \<Rightarrow> 'd exec" where
  "PyFloat_AsDouble op = sbind (c_assert (Py_TYPE op = PyFloat_Type)) (\<lambda>_. sbind (as_float op) (\<lambda>f. Inr (ob_fval f)))"

definition float_add :: "'d py_env \<Rightarrow> 'd binaryfunc" where
  "float_add E v w st =
     (if Py_TYPE v \<noteq> PyFloat_Type \<or> Py_TYPE w \<noteq> PyFloat_Type then Inr (None, st)
      else sbind (as_float v) (\<lambda>a. sbind (as_float w) (\<lambda>b. PyFloat_FromDouble E (env_fadd E (ob_fval a) (ob_fval b)) st)))"

definition float_multiply :: "'d py_env \<Rightarrow> 'd binaryfunc" where
  "float_multiply E v w st =
     (if Py_TYPE v \<noteq> PyFloat_Type \<or> Py_TYPE w \<noteq> PyFloat_Type then Inr (None, st)
      else sbind (as_float v) (\<lambda>a. sbind (as_float w) (\<lambda>b. PyFloat_FromDouble E (env_fmul E (ob_fval a) (ob_fval b)) st)))"

definition float_dealloc :: "'d pyobject \<Rightarrow> alloc_state \<Rightarrow> alloc_state" where
  "float_dealloc op st = st\<lparr>live := live st - 1\<rparr>"

definition long_dealloc :: "'d pyobject \<Rightarrow> alloc_state \<Rightarrow> alloc_state" where
  "long_dealloc op st = st\<lparr>live := live st - 1\<rparr>"

section \<open>Type objects\<close>

text \<open>The slots of \<^verbatim>\<open>int\<close> test the types in the headers before they cast.\<close>

definition on_longs :: "(PyLongObject \<Rightarrow> PyLongObject \<Rightarrow> alloc_state \<Rightarrow> pylong_result) \<Rightarrow> 'd binaryfunc" where
  "on_longs f v w st =
     (if Py_TYPE v \<noteq> PyLong_Type \<or> Py_TYPE w \<noteq> PyLong_Type then Inr (None, st)
      else sbind (as_long v) (\<lambda>a. sbind (as_long w) (\<lambda>b. sbind (f a b st) (\<lambda>(r, st'). Inr (map_option Long r, st')))))"

definition on_long :: "(PyLongObject \<Rightarrow> alloc_state \<Rightarrow> pylong_result) \<Rightarrow> 'd unaryfunc" where
  "on_long f v st =
     (if Py_TYPE v \<noteq> PyLong_Type then Inr (None, st)
      else sbind (as_long v) (\<lambda>a. sbind (f a st) (\<lambda>(r, st'). Inr (map_option Long r, st'))))"

record 'd PyNumberMethods =
  nb_add :: "'d binaryfunc option"
  nb_subtract :: "'d binaryfunc option"
  nb_multiply :: "'d binaryfunc option"
  nb_negative :: "'d unaryfunc option"
  nb_invert :: "'d unaryfunc option"

definition float_as_number :: "'d py_env \<Rightarrow> 'd PyNumberMethods" where
  "float_as_number E = \<lparr>nb_add = Some (float_add E), nb_subtract = None, nb_multiply = Some (float_multiply E),
     nb_negative = None, nb_invert = None\<rparr>"

definition long_as_number :: "'d py_env \<Rightarrow> 'd PyNumberMethods" where
  "long_as_number E = \<lparr>nb_add = Some (on_longs (long_add_slot (env_malloc E))),
     nb_subtract = Some (on_longs (long_sub_slot (env_malloc E) (env_decref E))),
     nb_multiply = Some (on_longs (long_mul_slot (env_malloc E))), nb_negative = None,
     nb_invert = Some (on_long (long_invert_slot (env_malloc E) (env_decref E)))\<rparr>"

record 'd PyTypeObject =
  tp_name :: string
  tp_basicsize :: nat
  tp_itemsize :: nat
  tp_dealloc :: "'d pyobject \<Rightarrow> alloc_state \<Rightarrow> alloc_state"
  tp_repr :: "('d pyobject \<Rightarrow> string) option"
  tp_as_number :: "'d PyNumberMethods option"

fun type_object :: "'d py_env \<Rightarrow> pytype \<Rightarrow> 'd PyTypeObject" where
  "type_object E PyFloat_Type = \<lparr>tp_name = ''float'', tp_basicsize = sizeof_PyFloatObject, tp_itemsize = 0,
     tp_dealloc = float_dealloc, tp_repr = None, tp_as_number = Some (float_as_number E)\<rparr>"
| "type_object E PyLong_Type = \<lparr>tp_name = ''int'', tp_basicsize = sizeof_PyLongObject, tp_itemsize = 4,
     tp_dealloc = long_dealloc, tp_repr = None, tp_as_number = Some (long_as_number E)\<rparr>"

section \<open>Dispatch\<close>

definition dispatch :: "'d py_env \<Rightarrow> ('d PyNumberMethods \<Rightarrow> 'd binaryfunc option) \<Rightarrow> 'd pyobject option \<Rightarrow> 'd pyobject option \<Rightarrow>
    alloc_state \<Rightarrow> 'd py_result" where
  "dispatch E slot v w st =
     (case v of None \<Rightarrow> Inr (None, st) | Some v \<Rightarrow>
      case w of None \<Rightarrow> Inr (None, st) | Some w \<Rightarrow>
      case tp_as_number (type_object E (Py_TYPE v)) of None \<Rightarrow> Inr (None, st) | Some nb \<Rightarrow>
      case slot nb of None \<Rightarrow> Inr (None, st) | Some f \<Rightarrow> f v w st)"

definition PyNumber_Add :: "'d py_env \<Rightarrow> 'd pyobject option \<Rightarrow> 'd pyobject option \<Rightarrow> alloc_state \<Rightarrow> 'd py_result" where
  "PyNumber_Add E v w st = dispatch E nb_add v w st"

definition PyNumber_Multiply :: "'d py_env \<Rightarrow> 'd pyobject option \<Rightarrow> 'd pyobject option \<Rightarrow> alloc_state \<Rightarrow> 'd py_result" where
  "PyNumber_Multiply E v w st = dispatch E nb_multiply v w st"

section \<open>Typing\<close>

text \<open>An object is well typed if the type in its header is that of its representation, and its digits are well formed.\<close>

fun well_typed :: "'d pyobject \<Rightarrow> bool" where
  "well_typed (Long a) \<longleftrightarrow> ob_type a = PyLong_Type \<and> pylong_wf a"
| "well_typed (Float f) \<longleftrightarrow> f_type f = PyFloat_Type"

datatype 'd pyvalue = IntV int | FloatV 'd

fun value_of :: "'d pyobject \<Rightarrow> 'd pyvalue" where
  "value_of (Long a) = IntV (ival a)"
| "value_of (Float f) = FloatV (ob_fval f)"

fun type_of_value :: "'d pyvalue \<Rightarrow> pytype" where
  "type_of_value (IntV i) = PyLong_Type"
| "type_of_value (FloatV d) = PyFloat_Type"

lemma well_typed_type: "well_typed v \<Longrightarrow> Py_TYPE v = type_of_value (value_of v)"
  by (cases v) simp_all

fun value_op :: "(int \<Rightarrow> int \<Rightarrow> int) \<Rightarrow> ('d \<Rightarrow> 'd \<Rightarrow> 'd) \<Rightarrow> 'd pyvalue \<Rightarrow> 'd pyvalue \<Rightarrow> 'd pyvalue option" where
  "value_op f g (IntV a) (IntV b) = Some (IntV (f a b))"
| "value_op f g (FloatV a) (FloatV b) = Some (FloatV (g a b))"
| "value_op f g _ _ = None"

text \<open>
  What a call promises for the expected value \<open>x\<close>: no fault; a fresh well-typed object of that value; NULL with no object
  allocated where there is no value, or where an allocation failed.
\<close>

definition py_yields :: "'d py_env \<Rightarrow> alloc_state \<Rightarrow> 'd py_result \<Rightarrow> 'd pyvalue option \<Rightarrow> bool" where
  "py_yields E st r x \<longleftrightarrow>
     (case r of Inl _ \<Rightarrow> False
      | Inr (None, st') \<Rightarrow> live st' = live st \<and>
          (x = None \<and> st' = st \<or> x \<noteq> None \<and> (\<exists>c bytes. calls st \<le> c \<and> c < calls st' \<and> \<not> env_malloc E c bytes))
      | Inr (Some z, st') \<Rightarrow> well_typed z \<and> x = Some (value_of z) \<and> Py_TYPE z = type_of_value (value_of z) \<and>
          Py_REFCNT z = 1 \<and> live st' = live st + 1)"

text \<open>The contract of a slot of the type \<open>ty\<close>: what a table of number methods may be filled with.\<close>

locale number_slot =
  fixes slot :: "'d py_env \<Rightarrow> 'd binaryfunc" and ty :: pytype and sem :: "'d py_env \<Rightarrow> 'd pyvalue \<Rightarrow> 'd pyvalue \<Rightarrow> 'd pyvalue option"
  assumes slot_typed: "well_typed v \<Longrightarrow> well_typed w \<Longrightarrow> Py_TYPE v = ty \<Longrightarrow>
    py_yields E st (slot E v w st) (sem E (value_of v) (value_of w))"
begin

lemma dispatch_typed:
  assumes "well_typed v" "well_typed w" "Py_TYPE v = ty" "tp_as_number (type_object E ty) = Some nb" "sel nb = Some (slot E)"
  shows "py_yields E st (dispatch E sel (Some v) (Some w) st) (sem E (value_of v) (value_of w))"
  using assms slot_typed [OF assms(1-3)] by (simp add: dispatch_def)

end

lemma on_longs_yields:
  assumes f: "\<And>a b. pylong_wf a \<Longrightarrow> pylong_wf b \<Longrightarrow> ob_type a = PyLong_Type \<Longrightarrow> ob_type b = PyLong_Type \<Longrightarrow>
      py_returns (env_malloc E) st (f a b st) (op_i (ival a) (ival b))"
    and v: "well_typed v" "well_typed w" "Py_TYPE v = PyLong_Type"
  shows "py_yields E st (on_longs f v w st) (value_op op_i op_f (value_of v) (value_of w))"
proof -
  obtain a where a: "v = Long a" "pylong_wf a" "ob_type a = PyLong_Type" using v by (cases v) auto
  show ?thesis
  proof (cases w)
    case (Long b)
    then show ?thesis using f [of a b] a v(2)
      by (auto simp: py_yields_def on_longs_def py_returns_def sbind_def split: sum.splits option.splits)
  next
    case (Float g)
    then show ?thesis using a v(2) by (simp add: py_yields_def on_longs_def)
  qed
qed

lemma floats_yield:
  assumes v: "well_typed v" "well_typed w" "Py_TYPE v = PyFloat_Type"
  shows "py_yields E st (float_add E v w st) (value_op op_i (env_fadd E) (value_of v) (value_of w))"
    "py_yields E st (float_multiply E v w st) (value_op op_i (env_fmul E) (value_of v) (value_of w))"
proof -
  obtain a where a: "v = Float a" "f_type a = PyFloat_Type" using v by (cases v) auto
  show "py_yields E st (float_add E v w st) (value_op op_i (env_fadd E) (value_of v) (value_of w))"
    using a v(2) by (cases w) (auto simp: py_yields_def float_add_def PyFloat_FromDouble_def Let_def)
  show "py_yields E st (float_multiply E v w st) (value_op op_i (env_fmul E) (value_of v) (value_of w))"
    using a v(2) by (cases w) (auto simp: py_yields_def float_multiply_def PyFloat_FromDouble_def Let_def)
qed

interpretation int_add: number_slot "\<lambda>E. on_longs (long_add_slot (env_malloc E))" PyLong_Type "\<lambda>E. value_op (+) (env_fadd E)"
  by unfold_locales (rule on_longs_yields, simp add: long_add_slot_def py_add.returns)

interpretation int_mul: number_slot "\<lambda>E. on_longs (long_mul_slot (env_malloc E))" PyLong_Type "\<lambda>E. value_op (*) (env_fmul E)"
  by unfold_locales (rule on_longs_yields, simp add: long_mul_slot_def py_mul.returns)

interpretation flt_add: number_slot float_add PyFloat_Type "\<lambda>E. value_op (+) (env_fadd E)"
  by unfold_locales (rule floats_yield(1))

interpretation flt_mul: number_slot float_multiply PyFloat_Type "\<lambda>E. value_op (*) (env_fmul E)"
  by unfold_locales (rule floats_yield(2))

text \<open>C13. Type safety of dynamic dispatch: on any two well-typed objects the calls never fault (no object is read as
another representation); the result is a fresh well-typed object of the operands' common type whose value is the
integer, or the double, sum or product; operands of different types give NULL and allocate nothing; NULL otherwise only
when an allocation failed.\<close>

theorem number_dispatch_typed:
  assumes "well_typed v" "well_typed w"
  shows "py_yields E st (PyNumber_Add E (Some v) (Some w) st) (value_op (+) (env_fadd E) (value_of v) (value_of w)) \<and>
    py_yields E st (PyNumber_Multiply E (Some v) (Some w) st) (value_op (*) (env_fmul E) (value_of v) (value_of w))"
proof (cases "Py_TYPE v")
  case PyFloat_Type
  have "tp_as_number (type_object E PyFloat_Type) = Some (float_as_number E)" by simp
  note tab = assms PyFloat_Type this
  show ?thesis unfolding PyNumber_Add_def PyNumber_Multiply_def
    using flt_add.dispatch_typed [OF tab, of nb_add st] flt_mul.dispatch_typed [OF tab, of nb_multiply st] by (simp add: float_as_number_def)
next
  case PyLong_Type
  have "tp_as_number (type_object E PyLong_Type) = Some (long_as_number E)" by simp
  note tab = assms PyLong_Type this
  show ?thesis unfolding PyNumber_Add_def PyNumber_Multiply_def
    using int_add.dispatch_typed [OF tab, of nb_add st] int_mul.dispatch_typed [OF tab, of nb_multiply st] by (simp add: long_as_number_def)
qed

text \<open>The environment of the witness: saturating bytes stand for doubles, and the third allocation fails.\<close>

definition sample_env :: "nat py_env" where
  "sample_env = \<lparr>env_malloc = (\<lambda>c _. c < 2), env_decref = decref_spec, env_fadd = (\<lambda>a b. min 255 (a + b)),
     env_fmul = (\<lambda>a b. min 255 (a * b))\<rparr>"

theorem number_dispatch_typed_witness:
  "py_yields sample_env st0 (PyNumber_Add sample_env (Some (Long int_a)) (Some (Long int_b)) st0) (Some (IntV 1073741822)) \<and>
   py_yields sample_env st0 (PyNumber_Multiply sample_env (Some (Long int_a))
     (Some (Float \<lparr>f_refcnt = 3, f_type = PyFloat_Type, ob_fval = 7\<rparr>)) st0) None"
proof -
  have a: "well_typed (Long int_a)" "well_typed (Long int_b)" "well_typed (Float \<lparr>f_refcnt = 3, f_type = PyFloat_Type, ob_fval = 7\<rparr>)"
    by (simp_all add: witness_objects)
  show ?thesis
    using number_dispatch_typed [OF a(1,2), of sample_env st0] number_dispatch_typed [OF a(1,3), of sample_env st0]
    by (simp add: witness_objects)
qed

end
