(* ===== verification/Memlib.thy ===== *)
theory Memlib
  imports Prelude
begin

text \<open>
  The simulated memory system of the malloc lab, \<^verbatim>\<open>memlib.c\<close>: a region of \<^verbatim>\<open>MAX_HEAP\<close> bytes with a
  break pointer that only moves up.  Pointers are byte addresses of the 32-bit machine the lab is
  built for (\<^verbatim>\<open>-m32\<close>), so the sum that \<^verbatim>\<open>mem_sbrk\<close> compares with the limit is taken modulo 2^32.
\<close>

record memlib =
  mem_start_brk :: nat
  mem_brk :: nat
  mem_max_addr :: nat

definition MAX_HEAP :: nat where
  "MAX_HEAP = 20 * 2 ^ 20"

text \<open>\<open>p\<close> is what the library's \<^verbatim>\<open>malloc\<close> returns; on NULL the program exits.\<close>

definition mem_init :: "nat option \<Rightarrow> 'a memlib_scheme \<Rightarrow> ('a memlib_scheme) exec" where
  "mem_init p s =
     (case p of None \<Rightarrow> Inl ExitCalled
      | Some a \<Rightarrow> Inr (s\<lparr>mem_start_brk := a, mem_max_addr := a + MAX_HEAP, mem_brk := a\<rparr>))"

definition mem_reset_brk :: "'a memlib_scheme \<Rightarrow> 'a memlib_scheme" where
  "mem_reset_brk s = s\<lparr>mem_brk := mem_start_brk s\<rparr>"

text \<open>The result \<^verbatim>\<open>(void *)-1\<close> is \<^verbatim>\<open>None\<close>.\<close>

definition mem_sbrk :: "int32 \<Rightarrow> 'a memlib_scheme \<Rightarrow> nat option \<times> 'a memlib_scheme" where
  "mem_sbrk incr s =
     (let old_brk = mem_brk s;
          new_brk = (mem_brk s + unat incr) mod 2 ^ 32
      in if sint incr < 0 \<or> new_brk > mem_max_addr s then (None, s)
         else (Some old_brk, s\<lparr>mem_brk := new_brk\<rparr>))"

definition mem_heap_lo :: "'a memlib_scheme \<Rightarrow> nat" where
  "mem_heap_lo s = mem_start_brk s"

definition mem_heap_hi :: "'a memlib_scheme \<Rightarrow> nat" where
  "mem_heap_hi s = mem_brk s - 1"

definition mem_heapsize :: "'a memlib_scheme \<Rightarrow> nat" where
  "mem_heapsize s = mem_brk s - mem_start_brk s"

end
