(* ===== verification/Mm.thy ===== *)
theory Mm
  imports Memlib
begin

text \<open>
  The allocator of the malloc lab, \<^verbatim>\<open>mm.c\<close>.  Memory is an array of 32-bit words indexed by byte
  address: every access of \<^verbatim>\<open>mm.c\<close> is to an aligned word, except the copy in \<^verbatim>\<open>realloc\<close>, whose last
  word may be written in part.  Pointers are addresses; NULL is \<^verbatim>\<open>None\<close>; \<^verbatim>\<open>size_t\<close> is 32 bits wide.  The
  macros that select one of the three free list organisations and one of the two placement policies
  become the record \<^verbatim>\<open>fl_ops\<close> of the functions they stand for.  A loop over the heap or over a free list
  takes as many steps as the heap has bytes before it counts as not terminating.
\<close>

record mm_state = memlib +
  mem :: "nat \<Rightarrow> uint32"
  block_head :: nat
  block_tail :: nat
  list_addr :: nat

type_synonym mm_exec = "mm_state exec"

section \<open>Block headers\<close>

abbreviation sizeof_size_t :: uint32 where
  "sizeof_size_t \<equiv> 4"

definition ALIGNMENT :: uint32 where
  "ALIGNMENT = 8"

definition align :: "uint32 \<Rightarrow> uint32" where
  "align sz = (sz + (ALIGNMENT - 1)) AND NOT (ALIGNMENT - 1)"

abbreviation st32 :: "nat \<Rightarrow> uint32 \<Rightarrow> mm_state \<Rightarrow> mm_state" where
  "st32 p v s \<equiv> s\<lparr>mem := (mem s)(p := v)\<rparr>"

definition meta_word :: "uint32 \<Rightarrow> uint32 \<Rightarrow> uint32 \<Rightarrow> uint32" where
  "meta_word sz prev_alloc alloc = sz OR shl prev_alloc 1 OR alloc"

definition set_meta :: "nat \<Rightarrow> uint32 \<Rightarrow> uint32 \<Rightarrow> uint32 \<Rightarrow> mm_state \<Rightarrow> mm_state" where
  "set_meta p sz prev_alloc alloc s = st32 p (meta_word sz prev_alloc alloc) s"

definition set_size :: "nat \<Rightarrow> uint32 \<Rightarrow> mm_state \<Rightarrow> mm_state" where
  "set_size p sz s = st32 p ((mem s p AND 7) OR sz) s"

definition set_prev_alloc :: "nat \<Rightarrow> uint32 \<Rightarrow> mm_state \<Rightarrow> mm_state" where
  "set_prev_alloc p prev_alloc s = st32 p ((mem s p AND NOT 2) OR shl prev_alloc 1) s"

definition set_alloc :: "nat \<Rightarrow> uint32 \<Rightarrow> mm_state \<Rightarrow> mm_state" where
  "set_alloc p alloc s = st32 p ((mem s p AND NOT 1) OR alloc) s"

definition get_size :: "nat \<Rightarrow> mm_state \<Rightarrow> uint32" where
  "get_size p s = mem s p AND NOT 7"

definition get_prev_alloc :: "nat \<Rightarrow> mm_state \<Rightarrow> uint32" where
  "get_prev_alloc p s = shr (mem s p) 1 AND 1"

definition get_alloc :: "nat \<Rightarrow> mm_state \<Rightarrow> uint32" where
  "get_alloc p s = mem s p AND 1"

definition header_ptr :: "nat \<Rightarrow> nat" where
  "header_ptr bp = bp - 4"

definition footer_ptr :: "nat \<Rightarrow> mm_state \<Rightarrow> nat" where
  "footer_ptr bp s = bp + unat (get_size (header_ptr bp) s) - 2 * 4"

definition prev_footer_ptr :: "nat \<Rightarrow> nat" where
  "prev_footer_ptr bp = bp - 2 * 4"

definition next_block :: "nat \<Rightarrow> mm_state \<Rightarrow> nat" where
  "next_block bp s = bp + unat (get_size (header_ptr bp) s)"

definition prev_block :: "nat \<Rightarrow> mm_state \<Rightarrow> nat" where
  "prev_block bp s = bp - unat (get_size (prev_footer_ptr bp) s)"

definition sync_footer :: "nat \<Rightarrow> mm_state \<Rightarrow> mm_state" where
  "sync_footer bp s = st32 (footer_ptr bp s) (mem s (header_ptr bp)) s"

section \<open>Doubly linked lists of free blocks\<close>

text \<open>A node has its \<^verbatim>\<open>prev\<close> pointer at offset 0 and its \<^verbatim>\<open>next\<close> pointer at offset 4.\<close>

definition node_prev :: "nat \<Rightarrow> mm_state \<Rightarrow> nat" where
  "node_prev p s = unat (mem s p)"

definition node_next :: "nat \<Rightarrow> mm_state \<Rightarrow> nat" where
  "node_next p s = unat (mem s (p + 4))"

definition set_node_prev :: "nat \<Rightarrow> nat \<Rightarrow> mm_state \<Rightarrow> mm_state" where
  "set_node_prev p q s = st32 p (of_nat q) s"

definition set_node_next :: "nat \<Rightarrow> nat \<Rightarrow> mm_state \<Rightarrow> mm_state" where
  "set_node_next p q s = st32 (p + 4) (of_nat q) s"

definition list_init :: "nat \<Rightarrow> mm_state \<Rightarrow> mm_state" where
  "list_init head s = set_node_prev head head (set_node_next head head s)"

definition list_push_front :: "nat \<Rightarrow> nat \<Rightarrow> mm_state \<Rightarrow> mm_state" where
  "list_push_front head node s =
     (let s = set_node_prev node head s;
          s = set_node_next node (node_next head s) s;
          s = set_node_prev (node_next head s) node s
      in set_node_next head node s)"

definition list_erase :: "nat \<Rightarrow> mm_state \<Rightarrow> mm_state" where
  "list_erase node s =
     (let s = set_node_next (node_prev node s) (node_next node s) s
      in set_node_prev (node_next node s) (node_prev node s) s)"

definition list_begin :: "nat \<Rightarrow> mm_state \<Rightarrow> nat" where
  "list_begin head s = node_next head s"

definition list_end :: "nat \<Rightarrow> nat" where
  "list_end head = head"

section \<open>The heap checker\<close>

definition check_block :: "uint32 \<Rightarrow> nat \<Rightarrow> mm_state \<Rightarrow> bool" where
  "check_block min_block_size bp s \<longleftrightarrow>
     (if bp \<noteq> block_head s then get_size (header_ptr bp) s \<ge> min_block_size
      else get_size (header_ptr bp) s = 2 * sizeof_size_t \<and> get_alloc (header_ptr bp) s \<noteq> 0) \<and>
     (get_alloc (header_ptr bp) s = 0 \<longrightarrow>
        mem s (footer_ptr bp s) = mem s (header_ptr bp) \<and>
        get_prev_alloc (header_ptr bp) s \<noteq> 0 \<and> get_alloc (header_ptr (next_block bp s)) s \<noteq> 0) \<and>
     get_alloc (header_ptr bp) s = get_prev_alloc (header_ptr (next_block bp s)) s"

fun check_heap_loop :: "nat \<Rightarrow> uint32 \<Rightarrow> nat \<Rightarrow> mm_state \<Rightarrow> unit exec" where
  "check_heap_loop 0 min_block_size bp s = Inl NoTermination"
| "check_heap_loop (Suc fuel) min_block_size bp s =
     (if bp \<noteq> block_tail s
      then sbind (c_assert (check_block min_block_size bp s)) (\<lambda>_.
             check_heap_loop fuel min_block_size (next_block bp s) s)
      else c_assert (get_size (header_ptr bp) s = 0 \<and> get_alloc (header_ptr bp) s = 1))"

definition mm_check_heap :: "uint32 \<Rightarrow> mm_state \<Rightarrow> unit exec" where
  "mm_check_heap min_block_size s =
     check_heap_loop (mem_heapsize s + 1) min_block_size (block_head s) s"

section \<open>Free list organisations\<close>

record fl_ops =
  MIN_BLOCK_SIZE :: uint32
  free_list_init :: "mm_state \<Rightarrow> mm_state"
  free_list_insert :: "nat \<Rightarrow> mm_state \<Rightarrow> mm_exec"
  free_list_erase :: "nat \<Rightarrow> mm_state \<Rightarrow> mm_exec"
  free_list_update :: "nat \<Rightarrow> mm_state \<Rightarrow> mm_exec"
  find_fit :: "uint32 \<Rightarrow> mm_state \<Rightarrow> nat option exec"
  do_mm_check :: "mm_state \<Rightarrow> unit exec"

subsection \<open>Implicit list\<close>

definition IMPLICIT_MIN_BLOCK_SIZE :: uint32 where
  "IMPLICIT_MIN_BLOCK_SIZE = 2 * sizeof_size_t"

definition implicit_free_list_init :: "mm_state \<Rightarrow> mm_state" where
  "implicit_free_list_init s = s"

definition implicit_free_list_insert :: "nat \<Rightarrow> mm_state \<Rightarrow> mm_exec" where
  "implicit_free_list_insert bp s = Inr s"

definition implicit_free_list_erase :: "nat \<Rightarrow> mm_state \<Rightarrow> mm_exec" where
  "implicit_free_list_erase bp s = Inr s"

definition implicit_free_list_update :: "nat \<Rightarrow> mm_state \<Rightarrow> mm_exec" where
  "implicit_free_list_update bp s = Inr s"

definition implicit_mm_check :: "mm_state \<Rightarrow> unit exec" where
  "implicit_mm_check s = mm_check_heap IMPLICIT_MIN_BLOCK_SIZE s"

fun implicit_first_loop :: "nat \<Rightarrow> uint32 \<Rightarrow> nat \<Rightarrow> mm_state \<Rightarrow> nat option exec" where
  "implicit_first_loop 0 alloc_size bp s = Inl NoTermination"
| "implicit_first_loop (Suc fuel) alloc_size bp s =
     (if bp \<noteq> block_tail s
      then if get_alloc (header_ptr bp) s = 0 \<and> get_size (header_ptr bp) s \<ge> alloc_size then Inr (Some bp)
           else implicit_first_loop fuel alloc_size (next_block bp s) s
      else Inr None)"

definition implicit_find_first_fit :: "uint32 \<Rightarrow> mm_state \<Rightarrow> nat option exec" where
  "implicit_find_first_fit alloc_size s =
     implicit_first_loop (mem_heapsize s + 1) alloc_size (next_block (block_head s) s) s"

definition SIZE_MAX :: uint32 where
  "SIZE_MAX = 0xFFFFFFFF"

fun implicit_best_loop :: "nat \<Rightarrow> uint32 \<Rightarrow> nat \<Rightarrow> nat option \<Rightarrow> uint32 \<Rightarrow> mm_state \<Rightarrow> nat option exec" where
  "implicit_best_loop 0 alloc_size bp best_bp best_size s = Inl NoTermination"
| "implicit_best_loop (Suc fuel) alloc_size bp best_bp best_size s =
     (if bp \<noteq> block_tail s
      then let block_size = get_size (header_ptr bp) s
           in if get_alloc (header_ptr bp) s = 0 \<and> block_size \<ge> alloc_size \<and> block_size < best_size
              then implicit_best_loop fuel alloc_size (next_block bp s) (Some bp) block_size s
              else implicit_best_loop fuel alloc_size (next_block bp s) best_bp best_size s
      else Inr best_bp)"

definition implicit_find_best_fit :: "uint32 \<Rightarrow> mm_state \<Rightarrow> nat option exec" where
  "implicit_find_best_fit alloc_size s =
     implicit_best_loop (mem_heapsize s + 1) alloc_size (next_block (block_head s) s) None SIZE_MAX s"

subsection \<open>Loops over a linked free list\<close>

fun list_first_loop :: "nat \<Rightarrow> uint32 \<Rightarrow> nat \<Rightarrow> nat \<Rightarrow> mm_state \<Rightarrow> nat option exec" where
  "list_first_loop 0 alloc_size head fp s = Inl NoTermination"
| "list_first_loop (Suc fuel) alloc_size head fp s =
     (if fp \<noteq> list_end head
      then if get_size (header_ptr fp) s \<ge> alloc_size then Inr (Some fp)
           else list_first_loop fuel alloc_size head (node_next fp s) s
      else Inr None)"

fun list_best_loop ::
  "nat \<Rightarrow> uint32 \<Rightarrow> nat \<Rightarrow> nat \<Rightarrow> nat option \<Rightarrow> uint32 \<Rightarrow> mm_state \<Rightarrow> nat option exec" where
  "list_best_loop 0 alloc_size head fp best_bp best_size s = Inl NoTermination"
| "list_best_loop (Suc fuel) alloc_size head fp best_bp best_size s =
     (if fp \<noteq> list_end head
      then let block_size = get_size (header_ptr fp) s
           in if block_size \<ge> alloc_size \<and> block_size < best_size
              then list_best_loop fuel alloc_size head (node_next fp s) (Some fp) block_size s
              else list_best_loop fuel alloc_size head (node_next fp s) best_bp best_size s
      else Inr best_bp)"

definition check_node :: "uint32 \<Rightarrow> uint32 \<Rightarrow> nat \<Rightarrow> mm_state \<Rightarrow> bool" where
  "check_node min_size max_size fp s \<longleftrightarrow>
     min_size \<le> get_size (header_ptr fp) s \<and> get_size (header_ptr fp) s \<le> max_size \<and>
     get_alloc (header_ptr fp) s = 0 \<and>
     node_next (node_prev fp s) s = fp \<and> node_prev (node_next fp s) s = fp"

fun check_list_loop :: "nat \<Rightarrow> uint32 \<Rightarrow> uint32 \<Rightarrow> nat \<Rightarrow> nat \<Rightarrow> mm_state \<Rightarrow> unit exec" where
  "check_list_loop 0 min_size max_size head fp s = Inl NoTermination"
| "check_list_loop (Suc fuel) min_size max_size head fp s =
     (if fp \<noteq> list_end head
      then sbind (c_assert (check_node min_size max_size fp s)) (\<lambda>_.
             check_list_loop fuel min_size max_size head (node_next fp s) s)
      else Inr ())"

subsection \<open>Explicit list\<close>

definition explicit_free_list :: "mm_state \<Rightarrow> nat" where
  "explicit_free_list s = list_addr s"

definition EXPLICIT_MIN_BLOCK_SIZE :: uint32 where
  "EXPLICIT_MIN_BLOCK_SIZE = 2 * sizeof_size_t + 2 * 4"

definition explicit_free_list_init :: "mm_state \<Rightarrow> mm_state" where
  "explicit_free_list_init s = list_init (explicit_free_list s) s"

definition explicit_free_list_insert :: "nat \<Rightarrow> mm_state \<Rightarrow> mm_exec" where
  "explicit_free_list_insert bp s = Inr (list_push_front (explicit_free_list s) bp s)"

definition explicit_free_list_erase :: "nat \<Rightarrow> mm_state \<Rightarrow> mm_exec" where
  "explicit_free_list_erase bp s = Inr (list_erase bp s)"

definition explicit_free_list_update :: "nat \<Rightarrow> mm_state \<Rightarrow> mm_exec" where
  "explicit_free_list_update bp s = Inr s"

definition explicit_mm_check :: "mm_state \<Rightarrow> unit exec" where
  "explicit_mm_check s =
     sbind (mm_check_heap EXPLICIT_MIN_BLOCK_SIZE s) (\<lambda>_.
       check_list_loop (mem_heapsize s + 1) 0 SIZE_MAX (explicit_free_list s)
         (list_begin (explicit_free_list s) s) s)"

definition explicit_find_first_fit :: "uint32 \<Rightarrow> mm_state \<Rightarrow> nat option exec" where
  "explicit_find_first_fit alloc_size s =
     list_first_loop (mem_heapsize s + 1) alloc_size (explicit_free_list s)
       (list_begin (explicit_free_list s) s) s"

definition explicit_find_best_fit :: "uint32 \<Rightarrow> mm_state \<Rightarrow> nat option exec" where
  "explicit_find_best_fit alloc_size s =
     list_best_loop (mem_heapsize s + 1) alloc_size (explicit_free_list s)
       (list_begin (explicit_free_list s) s) None SIZE_MAX s"

subsection \<open>Segregated lists\<close>

definition SEGREGATED_MIN_BLOCK_SIZE :: uint32 where
  "SEGREGATED_MIN_BLOCK_SIZE = 2 * sizeof_size_t + 2 * 4"

definition SEGREGATED_NUM_LISTS :: nat where
  "SEGREGATED_NUM_LISTS = 10"

definition segregated_free_lists :: "nat \<Rightarrow> mm_state \<Rightarrow> nat" where
  "segregated_free_lists i s = list_addr s + 8 * i"

definition segregated_free_list_init :: "mm_state \<Rightarrow> mm_state" where
  "segregated_free_list_init s =
     fold (\<lambda>i s. list_init (segregated_free_lists i s) s) [0..<SEGREGATED_NUM_LISTS] s"

definition segregated_free_list_min_size :: "nat \<Rightarrow> uint32" where
  "segregated_free_list_min_size index =
     (if index \<noteq> 0 then shl SEGREGATED_MIN_BLOCK_SIZE (index - 1) + 1 else SEGREGATED_MIN_BLOCK_SIZE)"

definition segregated_free_list_max_size :: "nat \<Rightarrow> uint32" where
  "segregated_free_list_max_size index =
     (if index < SEGREGATED_NUM_LISTS - 1 then shl SEGREGATED_MIN_BLOCK_SIZE index else SIZE_MAX)"

function lower_bound_loop :: "uint32 \<Rightarrow> nat \<Rightarrow> nat" where
  "lower_bound_loop sz index = (if sz \<noteq> 0 then lower_bound_loop (shr sz 1) (index + 1) else index)"
  by pat_completeness auto
termination
proof (relation "measure (\<lambda>(sz, index). unat sz)")
  fix sz :: uint32 and index :: nat
  assume "sz \<noteq> 0"
  then have "unat sz > 0" by (simp add: unat_gt_0)
  then have "unat (shr sz 1) < unat sz" by (simp add: unat_shr)
  then show "((shr sz 1, index + 1), sz, index) \<in> measure (\<lambda>(sz, index). unat sz)" by simp
qed simp

declare lower_bound_loop.simps [simp del]

definition segregated_free_list_lower_bound :: "uint32 \<Rightarrow> nat exec" where
  "segregated_free_list_lower_bound sz =
     sbind (c_assert (sz \<ge> SEGREGATED_MIN_BLOCK_SIZE)) (\<lambda>_.
       let index = lower_bound_loop ((sz - 1) div SEGREGATED_MIN_BLOCK_SIZE) 0
       in Inr (if index < SEGREGATED_NUM_LISTS - 1 then index else SEGREGATED_NUM_LISTS - 1))"

definition segregated_free_list_insert :: "nat \<Rightarrow> mm_state \<Rightarrow> mm_exec" where
  "segregated_free_list_insert bp s =
     (let sz = get_size (header_ptr bp) s
      in sbind (segregated_free_list_lower_bound sz) (\<lambda>idx.
           Inr (list_push_front (segregated_free_lists idx s) bp s)))"

definition segregated_free_list_erase :: "nat \<Rightarrow> mm_state \<Rightarrow> mm_exec" where
  "segregated_free_list_erase bp s = Inr (list_erase bp s)"

definition segregated_free_list_update :: "nat \<Rightarrow> mm_state \<Rightarrow> mm_exec" where
  "segregated_free_list_update bp s =
     sbind (segregated_free_list_erase bp s) (segregated_free_list_insert bp)"

fun segregated_check_loop :: "nat list \<Rightarrow> mm_state \<Rightarrow> unit exec" where
  "segregated_check_loop [] s = Inr ()"
| "segregated_check_loop (i # is) s =
     sbind (check_list_loop (mem_heapsize s + 1) (segregated_free_list_min_size i) (segregated_free_list_max_size i)
         (segregated_free_lists i s) (list_begin (segregated_free_lists i s) s) s) (\<lambda>_.
       segregated_check_loop is s)"

definition segregated_mm_check :: "mm_state \<Rightarrow> unit exec" where
  "segregated_mm_check s =
     sbind (mm_check_heap SEGREGATED_MIN_BLOCK_SIZE s) (\<lambda>_.
       segregated_check_loop [0..<SEGREGATED_NUM_LISTS] s)"

fun segregated_first_loop :: "uint32 \<Rightarrow> nat list \<Rightarrow> mm_state \<Rightarrow> nat option exec" where
  "segregated_first_loop alloc_size [] s = Inr None"
| "segregated_first_loop alloc_size (i # is) s =
     sbind (list_first_loop (mem_heapsize s + 1) alloc_size (segregated_free_lists i s)
         (list_begin (segregated_free_lists i s) s) s) (\<lambda>r.
       case r of Some fp \<Rightarrow> Inr (Some fp) | None \<Rightarrow> segregated_first_loop alloc_size is s)"

definition segregated_find_first_fit :: "uint32 \<Rightarrow> mm_state \<Rightarrow> nat option exec" where
  "segregated_find_first_fit alloc_size s =
     sbind (segregated_free_list_lower_bound alloc_size) (\<lambda>i.
       segregated_first_loop alloc_size [i..<SEGREGATED_NUM_LISTS] s)"

fun segregated_best_loop :: "uint32 \<Rightarrow> nat list \<Rightarrow> mm_state \<Rightarrow> nat option exec" where
  "segregated_best_loop alloc_size [] s = Inr None"
| "segregated_best_loop alloc_size (i # is) s =
     sbind (list_best_loop (mem_heapsize s + 1) alloc_size (segregated_free_lists i s)
         (list_begin (segregated_free_lists i s) s) None SIZE_MAX s) (\<lambda>r.
       case r of Some fp \<Rightarrow> Inr (Some fp) | None \<Rightarrow> segregated_best_loop alloc_size is s)"

definition segregated_find_best_fit :: "uint32 \<Rightarrow> mm_state \<Rightarrow> nat option exec" where
  "segregated_find_best_fit alloc_size s =
     sbind (segregated_free_list_lower_bound alloc_size) (\<lambda>i.
       segregated_best_loop alloc_size [i..<SEGREGATED_NUM_LISTS] s)"

section \<open>The six configurations\<close>

definition implicit_ops :: "bool \<Rightarrow> fl_ops" where
  "implicit_ops first_fit =
     \<lparr>MIN_BLOCK_SIZE = IMPLICIT_MIN_BLOCK_SIZE,
      free_list_init = implicit_free_list_init, free_list_insert = implicit_free_list_insert,
      free_list_erase = implicit_free_list_erase, free_list_update = implicit_free_list_update,
      find_fit = (if first_fit then implicit_find_first_fit else implicit_find_best_fit),
      do_mm_check = implicit_mm_check\<rparr>"

definition explicit_ops :: "bool \<Rightarrow> fl_ops" where
  "explicit_ops first_fit =
     \<lparr>MIN_BLOCK_SIZE = EXPLICIT_MIN_BLOCK_SIZE,
      free_list_init = explicit_free_list_init, free_list_insert = explicit_free_list_insert,
      free_list_erase = explicit_free_list_erase, free_list_update = explicit_free_list_update,
      find_fit = (if first_fit then explicit_find_first_fit else explicit_find_best_fit),
      do_mm_check = explicit_mm_check\<rparr>"

definition segregated_ops :: "bool \<Rightarrow> fl_ops" where
  "segregated_ops first_fit =
     \<lparr>MIN_BLOCK_SIZE = SEGREGATED_MIN_BLOCK_SIZE,
      free_list_init = segregated_free_list_init, free_list_insert = segregated_free_list_insert,
      free_list_erase = segregated_free_list_erase, free_list_update = segregated_free_list_update,
      find_fit = (if first_fit then segregated_find_first_fit else segregated_find_best_fit),
      do_mm_check = segregated_mm_check\<rparr>"

datatype mm_config = MM_IMPLICIT | MM_EXPLICIT | MM_SEGREGATED

definition config_ops :: "mm_config \<Rightarrow> bool \<Rightarrow> fl_ops" where
  "config_ops c first_fit =
     (case c of MM_IMPLICIT \<Rightarrow> implicit_ops first_fit
      | MM_EXPLICIT \<Rightarrow> explicit_ops first_fit
      | MM_SEGREGATED \<Rightarrow> segregated_ops first_fit)"

section \<open>The allocator\<close>

definition place :: "fl_ops \<Rightarrow> nat \<Rightarrow> uint32 \<Rightarrow> mm_state \<Rightarrow> mm_exec" where
  "place ops bp alloc_size s =
     sbind (free_list_erase ops bp s) (\<lambda>s.
       let block_size = get_size (header_ptr bp) s
       in if block_size < alloc_size + MIN_BLOCK_SIZE ops
          then let s = set_meta (header_ptr bp) block_size 1 1 s
               in Inr (set_prev_alloc (header_ptr (next_block bp s)) 1 s)
          else let s = set_meta (header_ptr bp) alloc_size 1 1 s;
                   next_bp = next_block bp s;
                   s = set_meta (header_ptr next_bp) (block_size - alloc_size) 1 0 s;
                   s = sync_footer next_bp s
               in free_list_insert ops next_bp s)"

definition coalesce :: "fl_ops \<Rightarrow> nat \<Rightarrow> mm_state \<Rightarrow> (nat \<times> mm_state) exec" where
  "coalesce ops bp s =
     (let sz = get_size (header_ptr bp) s;
          next_bp = next_block bp s;
          next_alloc = get_alloc (header_ptr next_bp) s;
          next_size = get_size (header_ptr next_bp) s;
          prev_alloc = get_prev_alloc (header_ptr bp) s
      in sbind
           (if prev_alloc = 0
            then let prev_bp = prev_block bp s;
                     prev_size = get_size (prev_footer_ptr bp) s
                 in if next_alloc = 0
                    then let s = set_meta (header_ptr prev_bp) (prev_size + sz + next_size) 1 0 s;
                             s = sync_footer prev_bp s
                         in sbind (free_list_erase ops bp s) (\<lambda>s.
                            sbind (free_list_erase ops next_bp s) (\<lambda>s. Inr (prev_bp, s)))
                    else let s = set_meta (header_ptr prev_bp) (prev_size + sz) 1 0 s;
                             s = sync_footer prev_bp s
                         in sbind (free_list_erase ops bp s) (\<lambda>s. Inr (prev_bp, s))
            else if next_alloc = 0
                 then let s = set_meta (header_ptr bp) (sz + next_size) 1 0 s;
                          s = sync_footer bp s
                      in sbind (free_list_erase ops next_bp s) (\<lambda>s. Inr (bp, s))
                 else Inr (bp, s))
           (\<lambda>(bp, s). sbind (free_list_update ops bp s) (\<lambda>s. Inr (bp, s))))"

definition extend_heap :: "fl_ops \<Rightarrow> uint32 \<Rightarrow> mm_state \<Rightarrow> (nat option \<times> mm_state) exec" where
  "extend_heap ops sz s =
     (let sz = max (align sz) (MIN_BLOCK_SIZE ops)
      in case mem_sbrk sz s of
           (None, s) \<Rightarrow> Inr (None, s)
         | (Some old_tail, s) \<Rightarrow>
             let s = s\<lparr>block_tail := old_tail + unat sz\<rparr>;
                 prev_alloc = get_prev_alloc (header_ptr old_tail) s;
                 s = set_meta (header_ptr old_tail) sz prev_alloc 0 s;
                 s = sync_footer old_tail s
             in sbind (free_list_insert ops old_tail s) (\<lambda>s.
                let s = set_meta (header_ptr (block_tail s)) 0 0 1 s
                in sbind (coalesce ops old_tail s) (\<lambda>(bp, s). Inr (Some bp, s))))"

definition do_mm_init :: "fl_ops \<Rightarrow> mm_state \<Rightarrow> int \<times> mm_state" where
  "do_mm_init ops s =
     (let s = free_list_init ops s
      in case mem_sbrk (4 * sizeof_size_t) s of
           (None, s) \<Rightarrow> (- 1, s\<lparr>block_head := 2 ^ 32 - 1\<rparr>)
         | (Some p, s) \<Rightarrow>
             let s = s\<lparr>block_head := p + 2 * 4\<rparr>;
                 s = s\<lparr>block_tail := block_head s + 2 * 4\<rparr>;
                 s = set_meta (header_ptr (block_head s)) (2 * sizeof_size_t) 1 1 s;
                 s = set_meta (header_ptr (block_tail s)) 0 1 1 s
             in (0, s))"

definition do_mm_malloc :: "fl_ops \<Rightarrow> uint32 \<Rightarrow> mm_state \<Rightarrow> (nat option \<times> mm_state) exec" where
  "do_mm_malloc ops sz s =
     (if sz = 0 then Inr (None, s)
      else let alloc_size = max (align (sz + sizeof_size_t)) (MIN_BLOCK_SIZE ops)
           in sbind (find_fit ops alloc_size s) (\<lambda>r.
                case r of
                  Some bp \<Rightarrow> sbind (place ops bp alloc_size s) (\<lambda>s. Inr (Some bp, s))
                | None \<Rightarrow>
                    let extend_size =
                          (if get_prev_alloc (header_ptr (block_tail s)) s = 0
                           then alloc_size - get_size (prev_footer_ptr (block_tail s)) s
                           else alloc_size)
                    in sbind (extend_heap ops extend_size s) (\<lambda>(r, s).
                         case r of None \<Rightarrow> Inr (None, s)
                         | Some bp \<Rightarrow> sbind (place ops bp alloc_size s) (\<lambda>s. Inr (Some bp, s)))))"

definition do_mm_free :: "fl_ops \<Rightarrow> nat option \<Rightarrow> mm_state \<Rightarrow> mm_exec" where
  "do_mm_free ops ptr s =
     (case ptr of None \<Rightarrow> Inr s
      | Some p \<Rightarrow>
          sbind (c_assert (get_alloc (header_ptr p) s \<noteq> 0)) (\<lambda>_.
            let s = set_alloc (header_ptr p) 0 s;
                s = sync_footer p s
            in sbind (free_list_insert ops p s) (\<lambda>s.
               let s = set_prev_alloc (header_ptr (next_block p s)) 0 s
               in sbind (coalesce ops p s) (\<lambda>(_, s). Inr s))))"

text \<open>\<^verbatim>\<open>memcpy\<close> of \<open>n\<close> bytes between word-aligned addresses: whole words, then the low bytes of the last
word, which is where the first bytes in memory order are on a little-endian machine.\<close>

definition mm_memcpy :: "nat \<Rightarrow> nat \<Rightarrow> nat \<Rightarrow> mm_state \<Rightarrow> mm_state" where
  "mm_memcpy dst src n s =
     s\<lparr>mem := (\<lambda>a. if dst \<le> a \<and> (a - dst) mod 4 = 0 \<and> a + 4 \<le> dst + n then mem s (src + (a - dst))
                  else if dst \<le> a \<and> (a - dst) mod 4 = 0 \<and> a < dst + n
                  then (mem s (src + (a - dst)) AND mask (8 * (dst + n - a))) OR
                       (mem s a AND NOT (mask (8 * (dst + n - a))))
                  else mem s a)\<rparr>"

definition do_mm_realloc :: "fl_ops \<Rightarrow> nat option \<Rightarrow> uint32 \<Rightarrow> mm_state \<Rightarrow> (nat option \<times> mm_state) exec" where
  "do_mm_realloc ops ptr sz s =
     (case ptr of
        None \<Rightarrow> do_mm_malloc ops sz s
      | Some p \<Rightarrow>
          if sz = 0 then sbind (do_mm_free ops (Some p) s) (\<lambda>s. Inr (None, s))
          else
            let old_size = get_size (header_ptr p) s - sizeof_size_t;
                alloc_size = max (align (sz + sizeof_size_t)) (MIN_BLOCK_SIZE ops);
                next_bp = next_block p s;
                merged_size = get_size (header_ptr p) s + get_size (header_ptr next_bp) s
            in sbind
                 (if (next_bp = block_tail s \<or>
                      get_alloc (header_ptr next_bp) s = 0 \<and> next_block next_bp s = block_tail s) \<and>
                     merged_size < alloc_size
                  then extend_heap ops (alloc_size - merged_size) s
                  else Inr (Some p, s))
                 (\<lambda>(r, s).
                   case r of None \<Rightarrow> Inr (None, s)
                   | Some _ \<Rightarrow>
                       sbind
                         (if get_alloc (header_ptr next_bp) s = 0
                          then sbind (free_list_erase ops next_bp s) (\<lambda>s.
                                 let s = set_size (header_ptr p)
                                           (get_size (header_ptr p) s + get_size (header_ptr next_bp) s) s
                                 in Inr (set_prev_alloc (header_ptr (next_block p s)) 1 s))
                          else Inr s)
                         (\<lambda>s.
                           let this_size = get_size (header_ptr p) s
                           in if alloc_size \<le> this_size
                              then if alloc_size + MIN_BLOCK_SIZE ops \<le> this_size
                                   then let s = set_size (header_ptr p) alloc_size s;
                                            next_bp = next_block p s;
                                            s = set_meta (header_ptr next_bp) (this_size - alloc_size) 1 1 s
                                        in sbind (do_mm_free ops (Some next_bp) s) (\<lambda>s. Inr (Some p, s))
                                   else Inr (Some p, s)
                              else sbind (do_mm_malloc ops sz s) (\<lambda>(r, s).
                                     case r of None \<Rightarrow> Inr (None, s)
                                     | Some new_ptr \<Rightarrow>
                                         let s = mm_memcpy new_ptr p (unat (min sz old_size)) s
                                         in sbind (do_mm_free ops (Some p) s) (\<lambda>s. Inr (Some new_ptr, s))))))"

section \<open>The public interface\<close>

text \<open>\<open>check\<close> is the build option \<^verbatim>\<open>MM_CHECK\<close>: run the checker after every call.\<close>

definition run_check :: "fl_ops \<Rightarrow> bool \<Rightarrow> mm_state \<Rightarrow> unit exec" where
  "run_check ops check s = (if check then do_mm_check ops s else Inr ())"

definition mm_init :: "fl_ops \<Rightarrow> bool \<Rightarrow> mm_state \<Rightarrow> (int \<times> mm_state) exec" where
  "mm_init ops check s =
     (case do_mm_init ops s of (ret, s) \<Rightarrow> sbind (run_check ops check s) (\<lambda>_. Inr (ret, s)))"

definition mm_malloc :: "fl_ops \<Rightarrow> bool \<Rightarrow> uint32 \<Rightarrow> mm_state \<Rightarrow> (nat option \<times> mm_state) exec" where
  "mm_malloc ops check sz s =
     sbind (do_mm_malloc ops sz s) (\<lambda>(ptr, s). sbind (run_check ops check s) (\<lambda>_. Inr (ptr, s)))"

definition mm_free :: "fl_ops \<Rightarrow> bool \<Rightarrow> nat option \<Rightarrow> mm_state \<Rightarrow> mm_exec" where
  "mm_free ops check ptr s =
     sbind (do_mm_free ops ptr s) (\<lambda>s. sbind (run_check ops check s) (\<lambda>_. Inr s))"

definition mm_realloc ::
  "fl_ops \<Rightarrow> bool \<Rightarrow> nat option \<Rightarrow> uint32 \<Rightarrow> mm_state \<Rightarrow> (nat option \<times> mm_state) exec" where
  "mm_realloc ops check ptr sz s =
     sbind (do_mm_realloc ops ptr sz s) (\<lambda>(p, s). sbind (run_check ops check s) (\<lambda>_. Inr (p, s)))"

end
