(* ===== verification/Mm_Heap.thy ===== *)
theory Mm_Heap
  imports Mm
begin

text \<open>
  Heaps as lists of blocks.  A block is its size in bytes and whether it is allocated; \<^verbatim>\<open>seg\<close> says that
  the words of memory from an address on are the headers and footers of such a list.
\<close>

section \<open>Header words\<close>

definition hdr :: "nat \<Rightarrow> bool \<Rightarrow> bool \<Rightarrow> uint32" where
  "hdr n pa al = meta_word (of_nat n) (of_bool pa) (of_bool al)"

definition bsize :: "nat \<Rightarrow> bool" where
  "bsize n \<longleftrightarrow> 8 dvd n \<and> n < 2 ^ 32"

lemma bsize_push_bit:
  assumes "bsize n"
  obtains y :: uint32 where "of_nat n = push_bit 3 y"
proof -
  from assms obtain k where "n = 8 * k" by (auto simp: bsize_def)
  then have "(of_nat n :: uint32) = push_bit 3 (of_nat k)" by (simp add: push_bit_eq_mult)
  then show ?thesis by (rule that)
qed

lemma seven_mask: "(7 :: uint32) = mask 3" and two_push: "(2 :: uint32) = push_bit 1 1"
  by (simp_all add: mask_eq_exp_minus_1)

lemma hdr_fields:
  assumes "bsize n"
  shows "hdr n pa al AND NOT 7 = of_nat n" "hdr n pa al AND 1 = of_bool al"
    "shr (hdr n pa al) 1 AND 1 = of_bool pa"
    "(hdr n pa al AND 7) OR of_nat k = hdr k pa al"
    "(hdr n pa al AND NOT 2) OR shl (of_bool q) 1 = hdr n q al"
    "(hdr n pa al AND NOT 1) OR of_bool q = hdr n pa q"
proof -
  obtain y :: uint32 where y: "of_nat n = push_bit 3 y" by (rule bsize_push_bit [OF assms])
  note d = hdr_def meta_word_def y seven_mask two_push
  show "hdr n pa al AND NOT 7 = of_nat n"
    unfolding d by (rule bit_word_eqI) (auto simp: bit_simps)
  show "hdr n pa al AND 1 = of_bool al"
    unfolding d by (rule bit_word_eqI) (auto simp: bit_simps)
  show "shr (hdr n pa al) 1 AND 1 = of_bool pa"
    unfolding d by (rule bit_word_eqI) (auto simp: bit_simps)
  show "(hdr n pa al AND 7) OR of_nat k = hdr k pa al"
    unfolding d by (rule bit_word_eqI) (auto simp: bit_simps)
  show "(hdr n pa al AND NOT 2) OR shl (of_bool q) 1 = hdr n q al"
    unfolding d by (rule bit_word_eqI) (auto simp: bit_simps)
  show "(hdr n pa al AND NOT 1) OR of_bool q = hdr n pa q"
    unfolding d by (rule bit_word_eqI) (auto simp: bit_simps)
qed

lemma unat_bsize [simp]: "bsize n \<Longrightarrow> unat (of_nat n :: uint32) = n"
  by (rule unat_of_nat_less) (simp add: bsize_def)

lemma hdr_get:
  assumes "mem s p = hdr n pa al" "bsize n"
  shows "get_size p s = of_nat n" "get_alloc p s = of_bool al" "get_prev_alloc p s = of_bool pa"
  unfolding get_size_def get_alloc_def get_prev_alloc_def assms(1) by (rule hdr_fields [OF assms(2)])+

lemma hdr_set:
  "set_meta p (of_nat n) (of_bool pa) (of_bool al) s = st32 p (hdr n pa al) s"
  "set_meta p (of_nat n) 1 1 s = st32 p (hdr n True True) s"
  "set_meta p (of_nat n) 1 0 s = st32 p (hdr n True False) s"
  "set_meta p 0 0 1 s = st32 p (hdr 0 False True) s"
  "set_meta p 0 1 1 s = st32 p (hdr 0 True True) s"
  by (simp_all add: set_meta_def hdr_def)

lemma hdr_upd:
  assumes "mem s p = hdr n pa al" "bsize n"
  shows "set_size p (of_nat k) s = st32 p (hdr k pa al) s"
    "set_prev_alloc p 1 s = st32 p (hdr n True al) s"
    "set_prev_alloc p 0 s = st32 p (hdr n False al) s"
    "set_alloc p 0 s = st32 p (hdr n pa False) s"
  using assms hdr_fields(5) [OF assms(2), of pa al True] hdr_fields(5) [OF assms(2), of pa al False]
    hdr_fields(6) [OF assms(2), of pa al False]
  by (simp_all add: set_size_def set_prev_alloc_def set_alloc_def hdr_fields)

section \<open>Block lists\<close>

type_synonym blk = "nat \<times> bool"

abbreviation blen :: "blk list \<Rightarrow> nat" where
  "blen bs \<equiv> sum_list (map fst bs)"

fun lst :: "bool \<Rightarrow> blk list \<Rightarrow> bool" where
  "lst pa [] = pa"
| "lst pa ((n, al) # bs) = lst al bs"

fun seg :: "(nat \<Rightarrow> uint32) \<Rightarrow> nat \<Rightarrow> bool \<Rightarrow> blk list \<Rightarrow> bool" where
  "seg m a pa [] \<longleftrightarrow> True"
| "seg m a pa ((n, al) # bs) \<longleftrightarrow>
     m (a - 4) = hdr n pa al \<and> (\<not> al \<longrightarrow> m (a + n - 8) = hdr n pa al) \<and> seg m (a + n) al bs"

fun free_at :: "nat \<Rightarrow> blk list \<Rightarrow> nat \<Rightarrow> nat option" where
  "free_at a [] = Map.empty"
| "free_at a ((n, al) # bs) = (if al then free_at (a + n) bs else (free_at (a + n) bs)(a \<mapsto> n))"

fun alloc_at :: "nat \<Rightarrow> blk list \<Rightarrow> nat \<Rightarrow> nat option" where
  "alloc_at a [] = Map.empty"
| "alloc_at a ((n, al) # bs) = (if al then (alloc_at (a + n) bs)(a \<mapsto> n) else alloc_at (a + n) bs)"

fun coal :: "bool \<Rightarrow> blk list \<Rightarrow> bool" where
  "coal pa [] \<longleftrightarrow> True"
| "coal pa ((n, al) # bs) \<longleftrightarrow> (pa \<or> al) \<and> coal al bs"

definition okb :: "nat \<Rightarrow> blk list \<Rightarrow> bool" where
  "okb mb bs \<longleftrightarrow> (\<forall>(n, al) \<in> set bs. mb \<le> n \<and> 8 dvd n)"

lemma okb_simps [simp]:
  "okb mb []" "okb mb ((n, al) # bs) \<longleftrightarrow> mb \<le> n \<and> 8 dvd n \<and> okb mb bs"
  "okb mb (xs @ ys) \<longleftrightarrow> okb mb xs \<and> okb mb ys"
  by (auto simp: okb_def)

lemma lst_append [simp]: "lst pa (xs @ ys) = lst (lst pa xs) ys"
  by (induction pa xs rule: lst.induct) simp_all

lemma seg_append [simp]: "seg m a pa (xs @ ys) \<longleftrightarrow> seg m a pa xs \<and> seg m (a + blen xs) (lst pa xs) ys"
  by (induction m a pa xs rule: seg.induct) (simp_all add: ac_simps)

lemma coal_append [simp]: "coal pa (xs @ ys) \<longleftrightarrow> coal pa xs \<and> coal (lst pa xs) ys"
  by (induction pa xs rule: coal.induct) simp_all

lemma blen_dvd: "okb mb bs \<Longrightarrow> 8 dvd blen bs"
  by (induction bs) auto

lemma free_at_range:
  "okb mb bs \<Longrightarrow> free_at a bs p = Some n \<Longrightarrow> a \<le> p \<and> p + n \<le> a + blen bs \<and> mb \<le> n \<and> 8 dvd n \<and> (8 dvd a \<longrightarrow> 8 dvd p)"
  by (induction a bs rule: free_at.induct) (auto split: if_splits)

lemma alloc_at_range:
  "okb mb bs \<Longrightarrow> alloc_at a bs p = Some n \<Longrightarrow> a \<le> p \<and> p + n \<le> a + blen bs \<and> mb \<le> n \<and> 8 dvd n \<and> (8 dvd a \<longrightarrow> 8 dvd p)"
  by (induction a bs rule: alloc_at.induct) (auto split: if_splits)

lemma free_at_outside:
  assumes "okb mb bs" "0 < mb" "p < a \<or> a + blen bs \<le> p"
  shows "free_at a bs p = None"
  using free_at_range [OF assms(1), of a p] assms(2,3) by (cases "free_at a bs p") auto

lemma alloc_at_outside:
  assumes "okb mb bs" "0 < mb" "p < a \<or> a + blen bs \<le> p"
  shows "alloc_at a bs p = None"
  using alloc_at_range [OF assms(1), of a p] assms(2,3) by (cases "alloc_at a bs p") auto

lemma free_at_append:
  assumes "okb mb xs" "0 < mb"
  shows "free_at a (xs @ ys) = free_at (a + blen xs) ys ++ free_at a xs"
  using assms
proof (induction a xs rule: free_at.induct)
  case (2 a n al bs)
  then show ?case by (auto simp: add.assoc map_add_def fun_eq_iff)
qed simp

lemma alloc_at_append:
  assumes "okb mb xs" "0 < mb"
  shows "alloc_at a (xs @ ys) = alloc_at (a + blen xs) ys ++ alloc_at a xs"
  using assms
proof (induction a xs rule: alloc_at.induct)
  case (2 a n al bs)
  then show ?case by (auto simp: add.assoc map_add_def fun_eq_iff)
qed simp

section \<open>Frames\<close>

text \<open>The words where a free list may keep its links inside a free block.\<close>

definition link_slots :: "nat \<Rightarrow> nat set \<Rightarrow> nat set" where
  "link_slots mb N = (if mb = 8 then {} else N \<union> (\<lambda>f. f + 4) ` N)"

lemma link_slots_iff: "w \<in> link_slots mb N \<longleftrightarrow> mb \<noteq> 8 \<and> (w \<in> N \<or> (\<exists>f \<in> N. w = f + 4))"
  by (auto simp: link_slots_def)

lemma link_slots_un: "link_slots mb (A \<union> B) = link_slots mb A \<union> link_slots mb B"
  by (auto simp: link_slots_def)

lemma link_slots_mono: "A \<subseteq> B \<Longrightarrow> link_slots mb A \<subseteq> link_slots mb B"
  by (auto simp: link_slots_def)

lemma link_slots_insert: "link_slots mb (insert f A) = (if mb = 8 then {} else {f, f + 4}) \<union> link_slots mb A"
  by (auto simp: link_slots_def)

definition min_size_ok :: "nat \<Rightarrow> bool" where
  "min_size_ok mb \<longleftrightarrow> mb = 8 \<or> mb = 16"

definition same_in :: "(nat \<Rightarrow> uint32) \<Rightarrow> (nat \<Rightarrow> uint32) \<Rightarrow> nat set \<Rightarrow> bool" where
  "same_in m m' X \<longleftrightarrow> (\<forall>w \<in> X. m' w = m w)"

text \<open>Headers, footers and allocated payloads of a block list survive a change of memory that touches, in
the range of the list, only link slots of its free blocks.\<close>

definition range_same :: "nat \<Rightarrow> (nat \<Rightarrow> uint32) \<Rightarrow> (nat \<Rightarrow> uint32) \<Rightarrow> nat \<Rightarrow> blk list \<Rightarrow> bool" where
  "range_same mb m m' a bs \<longleftrightarrow>
     (\<forall>w. a \<le> w + 4 \<and> w + 4 < a + blen bs \<and> w \<notin> link_slots mb (dom (free_at a bs)) \<longrightarrow> m' w = m w)"

definition payload_same :: "(nat \<Rightarrow> uint32) \<Rightarrow> (nat \<Rightarrow> uint32) \<Rightarrow> (nat \<Rightarrow> nat option) \<Rightarrow> bool" where
  "payload_same m m' A \<longleftrightarrow> (\<forall>b k w. A b = Some k \<and> b \<le> w \<and> w + 4 < b + k \<longrightarrow> m' w = m w)"

lemma range_same_Cons:
  assumes "min_size_ok mb" "okb mb ((n, al) # bs)" "range_same mb m m' a ((n, al) # bs)" "4 \<le> a"
  shows "m' (a - 4) = m (a - 4)" "\<not> al \<Longrightarrow> m' (a + n - 8) = m (a + n - 8)"
    "al \<Longrightarrow> a \<le> w \<Longrightarrow> w + 4 < a + n \<Longrightarrow> m' w = m w" "range_same mb m m' (a + n) bs"
proof -
  have mb: "mb = 8 \<or> mb = 16" using assms(1) by (simp add: min_size_ok_def)
  have n: "mb \<le> n" "okb mb bs" using assms(2) by simp_all
  have out: "w \<notin> link_slots mb (dom (free_at (a + n) bs))" if "w < a + n" for w
    using free_at_range [OF n(2), of "a + n"] that by (fastforce simp: link_slots_iff)
  have R: "m' w = m w" if "a \<le> w + 4" "w + 4 < a + (n + blen bs)"
    "w \<notin> link_slots mb (dom (free_at a ((n, al) # bs)))" for w
    using assms(3) that unfolding range_same_def by simp
  have slots: "w \<in> link_slots mb (dom (free_at a ((n, al) # bs))) \<longleftrightarrow>
      w \<in> link_slots mb (dom (free_at (a + n) bs)) \<or> mb \<noteq> 8 \<and> \<not> al \<and> (w = a \<or> w = a + 4)" for w
    by (auto simp: link_slots_iff domIff split: if_splits)
  show "m' (a - 4) = m (a - 4)" using assms(4) mb n(1) out by (intro R) (auto simp: slots simp del: free_at.simps)
  show "m' (a + n - 8) = m (a + n - 8)" if "\<not> al"
  proof (rule R)
    show "a + n - 8 \<notin> link_slots mb (dom (free_at a ((n, al) # bs)))"
      unfolding slots using assms(4) mb n(1) out [of "a + n - 8"] by auto
  qed (use assms(4) mb n(1) in auto)
  show "m' w = m w" if "al" "a \<le> w" "w + 4 < a + n" 
  proof (rule R)
    show "w \<notin> link_slots mb (dom (free_at a ((n, al) # bs)))" unfolding slots using that out [of w] by auto
  qed (use that in auto)
  show "range_same mb m m' (a + n) bs"
    unfolding range_same_def using mb n(1) by (intro allI impI R) (auto simp: slots simp del: free_at.simps)
qed

lemma range_same_seg:
  assumes "min_size_ok mb" "okb mb bs" "range_same mb m m' a bs" "4 \<le> a"
  shows "seg m' a pa bs = seg m a pa bs"
  using assms
proof (induction m a pa bs rule: seg.induct)
  case (2 m a pa n al bs)
  then show ?case using range_same_Cons [OF "2.prems"] by auto
qed simp

lemma range_same_payload:
  assumes "min_size_ok mb" "okb mb bs" "range_same mb m m' a bs" "4 \<le> a"
  shows "payload_same m m' (alloc_at a bs)"
  using assms
proof (induction a bs rule: alloc_at.induct)
  case (2 a n al bs)
  then have "payload_same m m' (alloc_at (a + n) bs)" using range_same_Cons [OF "2.prems"] by (cases al) auto
  then show ?case using range_same_Cons(3) [OF "2.prems"] by (auto simp: payload_same_def)
qed (simp add: payload_same_def)

end
