(* ===== verification/Mm_Frame.thy ===== *)
theory Mm_Frame
  imports Mm_Heap
begin

text \<open>
  Replacing a stretch of blocks in the middle of a heap: what has to be shown of the new words, and what
  follows for the whole heap and for the payloads of the blocks around it.
\<close>

abbreviation tail_blk :: blk where
  "tail_blk \<equiv> (0, True)"

lemma min_size_pos: "min_size_ok mb \<Longrightarrow> 8 \<le> mb"
  by (auto simp: min_size_ok_def)

section \<open>The blocks after the stretch\<close>

lemma suffix_same:
  assumes mb: "min_size_ok mb" and seg: "seg m e pa (vs @ [tail_blk])" and ok: "okb mb vs" and e: "4 \<le> e"
    and hd: "m' (e - 4) = hdr (fst (hd (vs @ [tail_blk]))) pa' True" "snd (hd (vs @ [tail_blk]))"
    and same: "\<And>w. e \<le> w \<Longrightarrow> w + 4 \<le> e + blen vs \<Longrightarrow> w \<notin> link_slots mb (dom (free_at e vs)) \<Longrightarrow> m' w = m w"
  shows "seg m' e pa' (vs @ [tail_blk]) \<and> payload_same m m' (alloc_at e vs)"
proof (cases vs)
  case Nil
  then show ?thesis using hd by (simp add: payload_same_def)
next
  case (Cons b ws)
  then obtain k where b: "vs = (k, True) # ws" using hd(2) by (cases b) auto
  note mb8 = min_size_pos [OF mb]
  have k: "mb \<le> k" "okb mb ws" using ok b by simp_all
  have rs: "range_same mb m m' (e + k) ws"
    unfolding range_same_def using k mb8 by (intro allI impI same) (auto simp: b)
  have out: "e + k + blen ws - 4 \<notin> link_slots mb (dom (free_at e vs))"
  proof
    assume "e + k + blen ws - 4 \<in> link_slots mb (dom (free_at e vs))"
    then obtain f n where f: "free_at (e + k) ws f = Some n" "mb \<noteq> 8" "e + k + blen ws - 4 = f \<or> e + k + blen ws - 4 = f + 4"
      by (auto simp: link_slots_iff b)
    then show False using free_at_range [OF k(2) f(1)] mb by (auto simp: min_size_ok_def)
  qed
  have tl: "m' (e + k + blen ws - 4) = m (e + k + blen ws - 4)"
    using k mb8 e out by (intro same) (auto simp: b)
  have "seg m' (e + k) True (ws @ [tail_blk])"
    using range_same_seg [OF mb k(2) rs] seg tl e by (simp add: b)
  moreover have "payload_same m m' (alloc_at (e + k) ws)"
    using range_same_payload [OF mb k(2) rs] e by simp
  moreover have "m' w = m w" if "e \<le> w" "w + 4 < e + k" for w
  proof (rule same)
    show "w \<notin> link_slots mb (dom (free_at e vs))"
      using that free_at_range [OF k(2), of "e + k"] by (fastforce simp: link_slots_iff b)
  qed (use that in \<open>simp_all add: b\<close>)
  ultimately show ?thesis using hd(1) by (auto simp: b payload_same_def)
qed

section \<open>Replacing a stretch\<close>

definition outer_free :: "nat \<Rightarrow> blk list \<Rightarrow> nat \<Rightarrow> blk list \<Rightarrow> nat \<Rightarrow> nat option" where
  "outer_free a us e vs = free_at e vs ++ free_at a us"

definition outer_alloc :: "nat \<Rightarrow> blk list \<Rightarrow> nat \<Rightarrow> blk list \<Rightarrow> nat \<Rightarrow> nat option" where
  "outer_alloc a us e vs = alloc_at e vs ++ alloc_at a us"

lemma outer_free_None:
  assumes "min_size_ok mb" "okb mb us" "okb mb vs" "a + blen us \<le> p" "p < e"
  shows "outer_free a us e vs p = None"
  using assms min_size_pos [OF assms(1)] free_at_outside [OF assms(2), of p a] free_at_outside [OF assms(3), of p e]
  by (simp add: outer_free_def map_add_def)

lemma outer_alloc_None:
  assumes "min_size_ok mb" "okb mb us" "okb mb vs" "a + blen us \<le> p" "p < e"
  shows "outer_alloc a us e vs p = None"
  using assms min_size_pos [OF assms(1)] alloc_at_outside [OF assms(2), of p a] alloc_at_outside [OF assms(3), of p e]
  by (simp add: outer_alloc_def map_add_def)

lemma free_at_split:
  assumes "min_size_ok mb" "okb mb us" "okb mb mid" "okb mb vs" "e = a + blen us + blen mid"
  shows "free_at a (us @ mid @ vs) = outer_free a us e vs ++ free_at (a + blen us) mid"
proof -
  have pos: "0 < mb" using min_size_pos [OF assms(1)] by simp
  have "dom (free_at a us) \<inter> dom (free_at (a + blen us) mid) = {}"
    using free_at_range [OF assms(2), of a] free_at_range [OF assms(3), of "a + blen us"] pos by fastforce
  then have c: "free_at a us ++ free_at (a + blen us) mid = free_at (a + blen us) mid ++ free_at a us"
    by (rule map_add_comm)
  have "free_at a (us @ mid @ vs) = (free_at e vs ++ free_at (a + blen us) mid) ++ free_at a us"
    using assms pos by (simp add: free_at_append [where mb = mb] add.assoc)
  also have "\<dots> = outer_free a us e vs ++ free_at (a + blen us) mid"
    unfolding outer_free_def map_add_assoc [symmetric] c ..
  finally show ?thesis .
qed

lemma alloc_at_split:
  assumes "min_size_ok mb" "okb mb us" "okb mb mid" "okb mb vs" "e = a + blen us + blen mid"
  shows "alloc_at a (us @ mid @ vs) = outer_alloc a us e vs ++ alloc_at (a + blen us) mid"
proof -
  have pos: "0 < mb" using min_size_pos [OF assms(1)] by simp
  have "dom (alloc_at a us) \<inter> dom (alloc_at (a + blen us) mid) = {}"
    using alloc_at_range [OF assms(2), of a] alloc_at_range [OF assms(3), of "a + blen us"] pos by fastforce
  then have c: "alloc_at a us ++ alloc_at (a + blen us) mid = alloc_at (a + blen us) mid ++ alloc_at a us"
    by (rule map_add_comm)
  have "alloc_at a (us @ mid @ vs) = (alloc_at e vs ++ alloc_at (a + blen us) mid) ++ alloc_at a us"
    using assms pos by (simp add: alloc_at_append [where mb = mb] add.assoc)
  also have "\<dots> = outer_alloc a us e vs ++ alloc_at (a + blen us) mid"
    unfolding outer_alloc_def map_add_assoc [symmetric] c ..
  finally show ?thesis .
qed

lemma outer_slots:
  assumes mb: "min_size_ok mb" and ok: "okb mb us" "okb mb vs" and b: "b = a + blen us"
    and w: "b \<le> w + 4" "w < e"
  shows "w \<notin> link_slots mb (dom (outer_free a us e vs))"
proof
  assume "w \<in> link_slots mb (dom (outer_free a us e vs))"
  then obtain f where f: "f \<in> dom (outer_free a us e vs)" "mb = 16" "w = f \<or> w = f + 4"
    using mb by (auto simp: link_slots_iff min_size_ok_def)
  from f(1) show False unfolding outer_free_def dom_map_add
  proof
    assume "f \<in> dom (free_at e vs)"
    then show False using free_at_range [OF ok(2), of e f] f w by auto
  next
    assume "f \<in> dom (free_at a us)"
    then show False using free_at_range [OF ok(1), of a f] f w b by auto
  qed
qed

definition touched :: "nat \<Rightarrow> nat \<Rightarrow> nat set \<Rightarrow> nat \<Rightarrow> nat \<Rightarrow> nat set" where
  "touched mb L N b e = {b - 4..e - 4} \<union> {L..<L + 80} \<union> link_slots mb N"

lemma heap_replace:
  assumes mb: "min_size_ok mb" and ok: "okb mb us" "okb mb vs" and a: "4 \<le> a" and b: "b = a + blen us" and e: "b + 8 \<le> e"
    and heads: "L + 80 + 4 \<le> a \<or> e + blen vs \<le> L"
    and seg: "seg m a pa us" "seg m e q (vs @ [tail_blk])" "snd (hd (vs @ [tail_blk]))"
    and chg: "same_in m m' (- touched mb L N b e)"
    and N: "N \<subseteq> dom (outer_free a us e vs) \<union> {f. b \<le> f \<and> f + 8 \<le> e}"
    and new: "seg m' b (lst pa us) mid" "b + blen mid = e" "m' (e - 4) = hdr (fst (hd (vs @ [tail_blk]))) (lst (lst pa us) mid) True"
  shows "seg m' a pa (us @ mid @ vs @ [tail_blk])"
    and "payload_same m m' (outer_alloc a us e vs)"
proof -
  have mid_slots: "link_slots mb N \<subseteq> link_slots mb (dom (outer_free a us e vs)) \<union> {b - 4..e - 4}"
    using N by (fastforce simp: link_slots_iff)
  have dom_out: "link_slots mb (dom (outer_free a us e vs)) =
      link_slots mb (dom (free_at a us)) \<union> link_slots mb (dom (free_at e vs))"
    by (simp add: outer_free_def link_slots_un)
  have above: "w \<notin> link_slots mb (dom (free_at e vs))" if "w < e" for w
    using that free_at_range [OF ok(2), of e] by (fastforce simp: link_slots_iff)
  have below: "w \<notin> link_slots mb (dom (free_at a us))" if "b \<le> w + 4" for w
  proof
    assume "w \<in> link_slots mb (dom (free_at a us))"
    then obtain f n where "free_at a us f = Some n" "mb = 16" "w = f \<or> w = f + 4"
      using mb by (auto simp: link_slots_iff min_size_ok_def)
    then show False using free_at_range [OF ok(1), of a f n] that b by auto
  qed
  have same: "m' w = m w" if "w < b - 4 \<or> e - 4 < w" "w < L \<or> L + 80 \<le> w"
    "w \<notin> link_slots mb (dom (free_at a us))" "w \<notin> link_slots mb (dom (free_at e vs))" for w
  proof -
    have "w \<notin> {b - 4..e - 4}" "w \<notin> {L..<L + 80}" using that(1,2) by auto
    moreover from this have "w \<notin> link_slots mb N" using that(3,4) mid_slots dom_out by blast
    ultimately have "w \<in> - touched mb L N b e" by (simp add: touched_def)
    then show ?thesis using chg by (simp add: same_in_def)
  qed
  have pre: "range_same mb m m' a us"
    unfolding range_same_def using b e heads above by (intro allI impI same) auto
  have suf: "seg m' e (lst (lst pa us) mid) (vs @ [tail_blk]) \<and> payload_same m m' (alloc_at e vs)"
  proof (rule suffix_same [OF mb seg(2) ok(2)])
    show "m' w = m w" if "e \<le> w" "w + 4 \<le> e + blen vs" "w \<notin> link_slots mb (dom (free_at e vs))" for w
      using that e heads a below [of w] b by (intro same) auto
  qed (use e seg(3) new(3) in simp_all)
  show "seg m' a pa (us @ mid @ vs @ [tail_blk])"
    using range_same_seg [OF mb ok(1) pre a] seg(1) suf new(1,2) b by (simp add: add.assoc [symmetric])
  show "payload_same m m' (outer_alloc a us e vs)"
    using range_same_payload [OF mb ok(1) pre a] suf by (auto simp: payload_same_def outer_alloc_def map_add_Some_iff)
qed

end
