(* ===== verification/Mm_Spec.thy ===== *)
theory Mm_Spec
  imports Mm_Frame
begin

text \<open>
  The interface between the allocator and its free list as a locale, and the allocator's operations
  proved against it.
\<close>

section \<open>Well-formed heaps\<close>

definition first_blk :: "mm_state \<Rightarrow> nat" where
  "first_blk s = mem_start_brk s + 16"

text \<open>Where the heap and the list heads lie: the heap is aligned and below 2^31, so that no sum of an
address and a non-negative \<^verbatim>\<open>int\<close> wraps around; the list heads are outside it.\<close>

definition layout :: "mm_state \<Rightarrow> bool" where
  "layout s \<longleftrightarrow> 8 dvd mem_start_brk s \<and> mem_max_addr s \<le> 2 ^ 31 \<and> 4 dvd list_addr s \<and> list_addr s + 80 \<le> 2 ^ 32 \<and>
     (list_addr s + 80 \<le> mem_start_brk s \<or> mem_max_addr s \<le> list_addr s)"

definition heap_rep :: "nat \<Rightarrow> mm_state \<Rightarrow> blk list \<Rightarrow> bool" where
  "heap_rep mb s rs \<longleftrightarrow>
     block_head s = mem_start_brk s + 8 \<and> mem s (mem_start_brk s + 4) = hdr 8 True True \<and>
     block_tail s = first_blk s + blen rs \<and> mem_brk s = block_tail s \<and> mem_brk s \<le> mem_max_addr s \<and>
     seg (mem s) (first_blk s) True (rs @ [tail_blk]) \<and> okb mb rs"

definition link_ok :: "nat \<Rightarrow> nat \<Rightarrow> bool" where
  "link_ok L bp \<longleftrightarrow> 8 dvd bp \<and> bp + 8 \<le> 2 ^ 32 \<and> 4 dvd L \<and> L + 80 \<le> 2 ^ 32 \<and> (bp + 8 \<le> L \<or> L + 80 \<le> bp)"

text \<open>What an operation may not change: payloads of the given blocks, memory outside the heap and the list
heads, and the frame of the memory system.\<close>

definition keeps :: "mm_state \<Rightarrow> mm_state \<Rightarrow> (nat \<Rightarrow> nat option) \<Rightarrow> bool" where
  "keeps s s' A \<longleftrightarrow>
     payload_same (mem s) (mem s') A \<and>
     same_in (mem s) (mem s') (- ({list_addr s..<list_addr s + 80} \<union> {mem_start_brk s..<mem_brk s'})) \<and>
     mem_start_brk s' = mem_start_brk s \<and> mem_max_addr s' = mem_max_addr s \<and> list_addr s' = list_addr s \<and>
     mem_brk s \<le> mem_brk s'"

lemma keeps_trans:
  assumes "keeps s s1 A" "keeps s1 s2 B" "\<And>b k. A b = Some k \<Longrightarrow> B b = Some k"
  shows "keeps s s2 A"
proof -
  have brk: "mem_brk s \<le> mem_brk s1" "mem_brk s1 \<le> mem_brk s2" and
    fr: "mem_start_brk s1 = mem_start_brk s" "list_addr s1 = list_addr s" using assms by (simp_all add: keeps_def)
  have "mem s2 w = mem s w" if "w \<notin> {list_addr s..<list_addr s + 80} \<union> {mem_start_brk s..<mem_brk s2}" for w
  proof -
    have "w \<notin> {list_addr s..<list_addr s + 80} \<union> {mem_start_brk s..<mem_brk s1}" using that brk by auto
    then have "mem s1 w = mem s w" using assms(1) by (simp add: keeps_def same_in_def)
    moreover have "mem s2 w = mem s1 w" using assms(2) that fr by (simp add: keeps_def same_in_def)
    ultimately show ?thesis by simp
  qed
  moreover have "payload_same (mem s) (mem s2) A"
  proof -
    have "payload_same (mem s) (mem s1) A" "payload_same (mem s1) (mem s2) B" using assms by (simp_all add: keeps_def)
    then show ?thesis unfolding payload_same_def by (metis assms(3))
  qed
  ultimately show ?thesis using assms(1,2) brk by (simp add: keeps_def same_in_def)
qed

section \<open>The free list interface\<close>

locale free_list =
  fixes ops :: fl_ops and mb :: nat and fli :: "(nat \<Rightarrow> uint32) \<Rightarrow> nat \<Rightarrow> (nat \<Rightarrow> nat option) \<Rightarrow> bool"
  assumes mb_ok: "min_size_ok mb"
    and min_block: "MIN_BLOCK_SIZE ops = of_nat mb"
    and inv_frame: "fli m L F \<Longrightarrow> same_in m m' ({L..<L + 80} \<union> link_slots mb (dom F)) \<Longrightarrow> fli m' L F"
    and init: "4 dvd list_addr s \<Longrightarrow> list_addr s + 80 \<le> 2 ^ 32 \<Longrightarrow>
      \<exists>m'. free_list_init ops s = s\<lparr>mem := m'\<rparr> \<and> fli m' (list_addr s) Map.empty \<and>
        same_in (mem s) m' (- {list_addr s..<list_addr s + 80})"
    and insert: "fli (mem s) (list_addr s) F \<Longrightarrow> F bp = None \<Longrightarrow> link_ok (list_addr s) bp \<Longrightarrow>
      mem s (bp - 4) = hdr n pa al \<Longrightarrow> bsize n \<Longrightarrow> mb \<le> n \<Longrightarrow>
      \<exists>m'. free_list_insert ops bp s = Inr (s\<lparr>mem := m'\<rparr>) \<and> fli m' (list_addr s) (F(bp \<mapsto> n)) \<and>
        same_in (mem s) m' (- ({list_addr s..<list_addr s + 80} \<union> link_slots mb (insert bp (dom F))))"
    and erase: "fli (mem s) (list_addr s) F \<Longrightarrow> bp \<in> dom F \<Longrightarrow>
      \<exists>m'. free_list_erase ops bp s = Inr (s\<lparr>mem := m'\<rparr>) \<and> fli m' (list_addr s) (F(bp := None)) \<and>
        same_in (mem s) m' (- ({list_addr s..<list_addr s + 80} \<union> link_slots mb (dom F)))"
    and update: "fli (mem s) (list_addr s) F \<Longrightarrow> bp \<in> dom F \<Longrightarrow>
      mem s (bp - 4) = hdr n pa al \<Longrightarrow> bsize n \<Longrightarrow> mb \<le> n \<Longrightarrow>
      bp - 4 \<notin> {list_addr s..<list_addr s + 80} \<union> link_slots mb (dom F) \<Longrightarrow>
      \<exists>m'. free_list_update ops bp s = Inr (s\<lparr>mem := m'\<rparr>) \<and> fli m' (list_addr s) (F(bp \<mapsto> n)) \<and>
        same_in (mem s) m' (- ({list_addr s..<list_addr s + 80} \<union> link_slots mb (dom F)))"
    and find_fit: "layout s \<Longrightarrow> heap_rep mb s rs \<Longrightarrow> fli (mem s) (list_addr s) (free_at (first_blk s) rs) \<Longrightarrow>
      mb \<le> unat k \<Longrightarrow>
      \<exists>r. find_fit ops k s = Inr r \<and>
        (case r of Some bp \<Rightarrow> \<exists>n. free_at (first_blk s) rs bp = Some n \<and> unat k \<le> n
         | None \<Rightarrow> \<forall>bp n. free_at (first_blk s) rs bp = Some n \<longrightarrow> n < unat k)"
    and check: "layout s \<Longrightarrow> heap_rep mb s rs \<Longrightarrow> coal True rs \<Longrightarrow>
      fli (mem s) (list_addr s) (free_at (first_blk s) rs) \<Longrightarrow> do_mm_check ops s = Inr ()"

definition mm_inv ::
  "nat \<Rightarrow> ((nat \<Rightarrow> uint32) \<Rightarrow> nat \<Rightarrow> (nat \<Rightarrow> nat option) \<Rightarrow> bool) \<Rightarrow> mm_state \<Rightarrow> blk list \<Rightarrow> bool" where
  "mm_inv mb fli s rs \<longleftrightarrow> layout s \<and> heap_rep mb s rs \<and> coal True rs \<and>
     fli (mem s) (list_addr s) (free_at (first_blk s) rs)"

lemma coal_weaken: "coal False vs \<Longrightarrow> coal True vs"
  by (cases vs) auto

lemma coal_hd: "coal False vs \<Longrightarrow> snd (hd (vs @ [tail_blk]))"
  by (cases vs) auto

lemma seg_hd:
  "seg m e pa (vs @ [tail_blk]) \<Longrightarrow> m (e - 4) = hdr (fst (hd (vs @ [tail_blk]))) pa (snd (hd (vs @ [tail_blk])))"
  by (cases vs) auto

section \<open>A stretch of blocks in a heap\<close>

text \<open>The facts about a stretch \<open>mid\<close> from \<open>b\<close> to \<open>e\<close> that every operation starts from.\<close>

lemma split_facts:
  assumes mb: "min_size_ok mb" and lay: "layout s" and rep: "heap_rep mb s (us @ mid @ vs)"
    and b: "b = first_blk s + blen us" and e: "e = b + blen mid"
  shows "4 \<le> first_blk s" "okb mb us" "okb mb mid" "okb mb vs" "e + blen vs \<le> 2 ^ 31"
    "list_addr s + 80 + 16 \<le> first_blk s \<or> e + blen vs \<le> list_addr s" "8 dvd b" "first_blk s \<le> b"
    "seg (mem s) (first_blk s) True us" "seg (mem s) b (lst True us) mid"
    "seg (mem s) e (lst (lst True us) mid) (vs @ [tail_blk])"
    "mem_brk s = e + blen vs" "block_tail s = e + blen vs"
    "free_at (first_blk s) (us @ mid @ vs) = outer_free (first_blk s) us e vs ++ free_at b mid"
    "alloc_at (first_blk s) (us @ mid @ vs) = outer_alloc (first_blk s) us e vs ++ alloc_at b mid"
proof -
  have ok: "okb mb us" "okb mb mid" "okb mb vs" using rep by (simp_all add: heap_rep_def)
  show "4 \<le> first_blk s" "okb mb us" "okb mb mid" "okb mb vs" using ok by (simp_all add: first_blk_def)
  have "8 dvd first_blk s" using lay by (auto simp: layout_def first_blk_def)
  then show "8 dvd b" unfolding b using blen_dvd [OF ok(1)] by simp
  show "first_blk s \<le> b" by (simp add: b)
  show brk: "mem_brk s = e + blen vs" "block_tail s = e + blen vs" using rep by (simp_all add: heap_rep_def b e)
  have "mem_brk s \<le> mem_max_addr s" using rep by (simp add: heap_rep_def)
  then show "e + blen vs \<le> 2 ^ 31" "list_addr s + 80 + 16 \<le> first_blk s \<or> e + blen vs \<le> list_addr s"
    using lay brk by (auto simp: layout_def first_blk_def)
  show "seg (mem s) (first_blk s) True us" "seg (mem s) b (lst True us) mid"
    "seg (mem s) e (lst (lst True us) mid) (vs @ [tail_blk])"
    using rep by (simp_all add: heap_rep_def b e)
  show "free_at (first_blk s) (us @ mid @ vs) = outer_free (first_blk s) us e vs ++ free_at b mid"
    unfolding b by (rule free_at_split [OF mb ok]) (simp add: b e)
  show "alloc_at (first_blk s) (us @ mid @ vs) = outer_alloc (first_blk s) us e vs ++ alloc_at b mid"
    unfolding b by (rule alloc_at_split [OF mb ok]) (simp add: b e)
qed

lemma stretch_done:
  assumes mb: "min_size_ok mb" and lay: "layout s" and rep: "heap_rep mb s (us @ mid @ vs)"
    and b: "b = first_blk s + blen us" and e: "e = b + blen mid" and be: "b + 8 \<le> e"
    and nxt: "snd (hd (vs @ [tail_blk]))"
    and chg: "same_in (mem s) m' (- touched mb (list_addr s) N b e)"
    and N: "N \<subseteq> dom (outer_free (first_blk s) us e vs) \<union> {f. b \<le> f \<and> f + 8 \<le> e}"
    and new: "seg m' b (lst True us) mid'" "blen mid' = blen mid" "okb mb mid'"
      "m' (e - 4) = hdr (fst (hd (vs @ [tail_blk]))) (lst (lst True us) mid') True"
    and coal: "coal True (us @ mid' @ vs)"
    and fl: "fli m' (list_addr s) (outer_free (first_blk s) us e vs ++ free_at b mid')"
  shows "mm_inv mb fli (s\<lparr>mem := m'\<rparr>) (us @ mid' @ vs) \<and>
    keeps s (s\<lparr>mem := m'\<rparr>) (outer_alloc (first_blk s) us e vs) \<and>
    alloc_at (first_blk s) (us @ mid' @ vs) = outer_alloc (first_blk s) us e vs ++ alloc_at b mid'"
proof (intro conjI)
  note sf = split_facts [OF mb lay rep b e]
  have "b + blen mid' = e" using e new(2) by simp
  note hr = heap_replace [OF mb sf(2,4) sf(1) b be _ sf(9,11) nxt chg N new(1) this new(4)]
  have heads: "list_addr s + 80 + 4 \<le> first_blk s \<or> e + blen vs \<le> list_addr s" using sf(6) by auto
  have N_in: "link_slots mb N \<subseteq> {first_blk s..<e + blen vs}"
  proof
    fix w assume "w \<in> link_slots mb N"
    then obtain f where f: "f \<in> N" "mb = 16" "w = f \<or> w = f + 4" using mb by (auto simp: link_slots_iff min_size_ok_def)
    from f(1) N consider "f \<in> dom (outer_free (first_blk s) us e vs)" | "b \<le> f" "f + 8 \<le> e" by blast
    then show "w \<in> {first_blk s..<e + blen vs}"
    proof cases
      case 1
      then consider n where "free_at e vs f = Some n" | n where "free_at (first_blk s) us f = Some n"
        by (auto simp: outer_free_def)
      then show ?thesis
        using free_at_range [OF sf(4), of e f] free_at_range [OF sf(2), of "first_blk s" f] f sf(8) b e be
        by cases auto
    qed (use f sf(8) in auto)
  qed
  have out: "m' w = mem s w" if "w + 4 < first_blk s \<or> e + blen vs \<le> w" "w \<notin> {list_addr s..<list_addr s + 80}" for w
  proof -
    have "w \<notin> touched mb (list_addr s) N b e"
      using that N_in sf(8) be by (auto simp: touched_def)
    then show ?thesis using chg by (simp add: same_in_def)
  qed
  have "mem_start_brk s + 4 \<notin> {list_addr s..<list_addr s + 80}" using sf(6,8) be by (auto simp: first_blk_def)
  then have hd: "m' (mem_start_brk s + 4) = hdr 8 True True"
    using out [of "mem_start_brk s + 4"] rep by (simp add: first_blk_def heap_rep_def)
  have ok': "okb mb (us @ mid' @ vs)" using sf(2,4) new(3) by simp
  have rep': "heap_rep mb (s\<lparr>mem := m'\<rparr>) (us @ mid' @ vs)"
    using rep hd hr(1) [OF heads] ok' new(2) by (simp add: heap_rep_def first_blk_def)
  show al: "alloc_at (first_blk s) (us @ mid' @ vs) = outer_alloc (first_blk s) us e vs ++ alloc_at b mid'"
    unfolding b by (rule alloc_at_split [OF mb sf(2) new(3) sf(4)]) (simp add: b e new(2))
  have "free_at (first_blk s) (us @ mid' @ vs) = outer_free (first_blk s) us e vs ++ free_at b mid'"
    unfolding b by (rule free_at_split [OF mb sf(2) new(3) sf(4)]) (simp add: b e new(2))
  then show "mm_inv mb fli (s\<lparr>mem := m'\<rparr>) (us @ mid' @ vs)"
    using lay rep' coal fl by (simp add: mm_inv_def layout_def first_blk_def)
  have "same_in (mem s) m' (- ({list_addr s..<list_addr s + 80} \<union> {mem_start_brk s..<mem_brk s}))"
    unfolding same_in_def using out sf(12) by (auto simp: first_blk_def)
  then show "keeps s (s\<lparr>mem := m'\<rparr>) (outer_alloc (first_blk s) us e vs)"
    using hr(2) [OF heads] by (simp add: keeps_def)
qed

end
