(* ===== verification/Mm_Ops.thy ===== *)
theory Mm_Ops
  imports Mm_Spec
begin

text \<open>The operations of the allocator against the free list interface.\<close>

lemma of_nat_less32: "x < 2 ^ 32 \<Longrightarrow> y < 2 ^ 32 \<Longrightarrow> (of_nat x :: uint32) < of_nat y \<longleftrightarrow> x < y"
  by (simp add: word_less_nat_alt unat_of_nat)

lemma of_nat_le32: "x < 2 ^ 32 \<Longrightarrow> y < 2 ^ 32 \<Longrightarrow> (of_nat x :: uint32) \<le> of_nat y \<longleftrightarrow> x \<le> y"
  by (simp add: word_le_nat_alt unat_of_nat)

lemma of_nat_diff32: "y \<le> x \<Longrightarrow> (of_nat x :: uint32) - of_nat y = of_nat (x - y)"
  by (simp add: of_nat_diff)

lemma st32_mem [simp]: "mem (st32 p v s) = (mem s)(p := v)"
  by simp

text \<open>Collecting the words an operation touches: nothing, a store in the stretch, a free list operation.\<close>

lemma touched_refl: "same_in m m (- touched mb L N b e)"
  by (simp add: same_in_def)

lemma touched_store:
  "same_in m m1 (- touched mb L N b e) \<Longrightarrow> b \<le> p + 4 \<Longrightarrow> p + 4 \<le> e \<Longrightarrow> same_in m (m1(p := v)) (- touched mb L N b e)"
  by (auto simp: same_in_def touched_def)

lemma touched_links:
  assumes "same_in m m1 (- touched mb L N b e)" "same_in m1 m2 (- ({L..<L + 80} \<union> link_slots mb N'))" "N' \<subseteq> N"
  shows "same_in m m2 (- touched mb L N b e)"
  using assms link_slots_mono [OF assms(3), of mb] by (force simp: same_in_def touched_def)

lemma touched_mono: "same_in m m1 (- touched mb L N b e) \<Longrightarrow> N \<subseteq> M \<Longrightarrow> same_in m m1 (- touched mb L M b e)"
  using link_slots_mono [of N M mb] by (auto simp: same_in_def touched_def)

context free_list
begin

text \<open>Changing words of a stretch that are not link slots of nodes inside it keeps the free list.\<close>

lemma inv_stretch:
  assumes fl: "fli m L F" and ok: "okb mb us" "okb mb vs" and b: "b = a + blen us"
    and heads: "L + 80 + 16 \<le> a \<or> e + blen vs \<le> L"
    and F: "dom F \<subseteq> dom (outer_free a us e vs) \<union> M"
    and same: "\<And>w. w + 4 < b \<or> e < w + 4 \<or> w \<in> link_slots mb M \<Longrightarrow> m' w = m w"
  shows "fli m' L F"
proof (rule inv_frame [OF fl], unfold same_in_def, rule ballI)
  fix w assume w: "w \<in> {L..<L + 80} \<union> link_slots mb (dom F)"
  have "w \<in> link_slots mb (dom (outer_free a us e vs)) \<or> w \<in> link_slots mb M" if "w \<in> link_slots mb (dom F)"
    using that link_slots_mono [OF F, of mb] by (auto simp: link_slots_un)
  then show "m' w = m w"
    using w heads b outer_slots [OF mb_ok ok b, of w e] by (intro same) fastforce
qed

lemma place_spec:
  assumes I: "mm_inv mb fli s (us @ (n, False) # vs)" and bp: "bp = first_blk s + blen us"
    and k: "mb \<le> k" "k \<le> n" "8 dvd k"
  shows "\<exists>m' rs' n'. place ops bp (of_nat k) s = Inr (s\<lparr>mem := m'\<rparr>) \<and> mm_inv mb fli (s\<lparr>mem := m'\<rparr>) rs' \<and>
    k \<le> n' \<and> alloc_at (first_blk s) rs' = (alloc_at (first_blk s) (us @ (n, False) # vs))(bp \<mapsto> n') \<and>
    keeps s (s\<lparr>mem := m'\<rparr>) (alloc_at (first_blk s) (us @ (n, False) # vs))"
proof -
  define a e where "a = first_blk s" and "e = bp + n"
  define L U where "L = list_addr s" and "U = outer_free a us e vs"
  have lay: "layout s" and rep: "heap_rep mb s (us @ [(n, False)] @ vs)" and co: "coal True us" "lst True us" "coal False vs"
    and fl: "fli (mem s) L (free_at a (us @ [(n, False)] @ vs))"
    using I by (simp_all add: mm_inv_def a_def L_def)
  have ee: "e = bp + blen [(n, False)]" by (simp add: e_def)
  note sf = split_facts [OF mb_ok lay rep bp ee, folded a_def L_def]
  note fin = stretch_done [OF mb_ok lay rep bp ee, where fli = fli, folded a_def L_def]
  note mb8 = min_size_pos [OF mb_ok]
  have n: "mb \<le> n" "8 dvd n" "bsize n" "bsize k" "8 \<le> n" "n < 2 ^ 31" "k < 2 ^ 31" and bp8: "16 \<le> bp"
    using sf(3,5,8) k mb8 by (auto simp: bsize_def e_def a_def first_blk_def)
  have F: "free_at a (us @ [(n, False)] @ vs) = U(bp \<mapsto> n)" using sf(14) by (simp add: U_def)
  have Ub: "U p = None" if "bp \<le> p" "p < e" for p
    unfolding U_def using outer_free_None [OF mb_ok sf(2,4)] that bp by (simp add: a_def)
  have nxt: "snd (hd (vs @ [tail_blk]))" by (rule coal_hd [OF co(3)])
  let ?h = "fst (hd (vs @ [tail_blk]))"
  have A: "alloc_at a (us @ (n, False) # vs) = outer_alloc a us e vs" using sf(15) by simp
  obtain m1 where er: "free_list_erase ops bp s = Inr (s\<lparr>mem := m1\<rparr>)" and fl1: "fli m1 L (U(bp := None))"
    and sm1: "same_in (mem s) m1 (- ({L..<L + 80} \<union> link_slots mb (insert bp (dom U))))"
    using erase [OF fl [unfolded L_def], of bp, folded L_def] unfolding F by auto
  have fl1: "fli m1 L U" using fl1 Ub [of bp] n by (simp add: e_def fun_upd_idem)
  have slot: "w \<notin> {L..<L + 80}" "w \<notin> link_slots mb (dom U)" if "bp \<le> w + 4" "w + 4 \<le> e" for w
    using that sf(6,8) outer_slots [OF mb_ok sf(2,4), of bp a w e] bp by (auto simp: U_def a_def)
  have w1: "m1 w = mem s w" if "bp \<le> w + 4" "w + 4 \<le> e" "mb = 8 \<or> w < bp \<or> bp + 8 \<le> w" for w
    using sm1 slot [OF that(1,2)] that(3) by (auto simp: same_in_def link_slots_iff)
  have mbn: "mb = 8 \<or> 16 \<le> n" using mb_ok n(1) by (auto simp: min_size_ok_def)
  have h1: "m1 (bp - 4) = hdr n True False"
    by (subst w1) (use sf(10) co(2) n bp8 in \<open>auto simp: e_def\<close>)
  have x1: "m1 (e - 4) = hdr ?h False True"
    by (subst w1) (use seg_hd [OF sf(11)] nxt n bp8 mbn in \<open>auto simp: e_def\<close>)
  let ?s1 = "s\<lparr>mem := m1\<rparr>"
  have gs: "get_size (bp - 4) ?s1 = of_nat n" using hdr_get(1) [of ?s1 "bp - 4"] h1 n by simp
  have hb: "bsize ?h" using sf(4,5) by (cases vs) (auto simp: bsize_def)
  have cmp: "of_nat n < of_nat k + MIN_BLOCK_SIZE ops \<longleftrightarrow> n < k + mb"
    using of_nat_less32 [of n "k + mb"] n mb_ok by (auto simp: min_block min_size_ok_def)
  show ?thesis
  proof (cases "n < k + mb")
    case True
    define m2 where "m2 = m1(bp - 4 := hdr n True True, e - 4 := hdr ?h True True)"
    have nb: "next_block bp (st32 (bp - 4) (hdr n True True) ?s1) = e"
      using hdr_get(1) [of "st32 (bp - 4) (hdr n True True) ?s1" "bp - 4" n True True] n
      by (simp add: next_block_def header_ptr_def e_def)
    have "e - 4 \<noteq> bp - 4" using n bp8 by (auto simp: e_def)
    then have sp: "set_prev_alloc (e - 4) 1 (st32 (bp - 4) (hdr n True True) ?s1) = s\<lparr>mem := m2\<rparr>"
      using hdr_upd(2) [of "st32 (bp - 4) (hdr n True True) ?s1" "e - 4" ?h False True] x1 hb by (simp add: m2_def)
    have pl: "place ops bp (of_nat k) s = Inr (s\<lparr>mem := m2\<rparr>)"
      using True cmp er gs nb sp by (simp add: place_def Let_def hdr_set header_ptr_def)
    have fl2: "fli m2 L U"
      by (rule inv_stretch [OF fl1 sf(2,4) bp [folded a_def] sf(6), where M = "{}"])
        (use n bp8 in \<open>auto simp: m2_def e_def U_def link_slots_iff\<close>)
    have sm2: "same_in (mem s) m2 (- touched mb L (insert bp (dom U)) bp e)"
      unfolding m2_def
      by (intro touched_store touched_links [OF touched_refl sm1]) (use n bp8 in \<open>auto simp: e_def\<close>)
    have "mm_inv mb fli (s\<lparr>mem := m2\<rparr>) (us @ [(n, True)] @ vs) \<and> keeps s (s\<lparr>mem := m2\<rparr>) (outer_alloc a us e vs) \<and>
      alloc_at a (us @ [(n, True)] @ vs) = outer_alloc a us e vs ++ alloc_at bp [(n, True)]"
      by (rule fin [OF _ nxt sm2])
        (use n bp8 fl2 co coal_weaken nxt x1 in \<open>auto simp: U_def m2_def e_def bsize_def\<close>)
    then show ?thesis unfolding A a_def [symmetric] using pl k(2) by (auto intro!: exI [of _ m2] exI [of _ n])
  next
    case False
    let ?d = "n - k" and ?q = "bp + k"
    define m2 where "m2 = m1(bp - 4 := hdr k True True, ?q - 4 := hdr ?d True False, e - 8 := hdr ?d True False)"
    have d: "mb \<le> ?d" "8 dvd ?d" "bsize ?d" "?q + ?d = e" using False n k(3) by (auto simp: bsize_def e_def dvd_diff_nat)
    have mbd: "mb = 8 \<or> 16 \<le> ?d \<and> 16 \<le> k" using mb_ok d(1) k(1) by (auto simp: min_size_ok_def)
    let ?sa = "st32 (bp - 4) (hdr k True True) ?s1"
    let ?sb = "st32 (?q - 4) (hdr ?d True False) ?sa"
    have nb: "next_block bp ?sa = ?q"
      using hdr_get(1) [of ?sa "bp - 4" k True True] n by (simp add: next_block_def header_ptr_def)
    have fp: "footer_ptr ?q ?sb = e - 8"
      using hdr_get(1) [of ?sb "?q - 4" ?d True False] d by (simp add: footer_ptr_def header_ptr_def)
    have fl2: "fli m2 L U"
      by (rule inv_stretch [OF fl1 sf(2,4) bp [folded a_def] sf(6), where M = "{}"])
        (use bp8 k d mb8 in \<open>auto simp: m2_def U_def link_slots_iff\<close>)
    have lk: "link_ok L ?q" using sf(5,6,7,8) d mb8 k(3) lay by (auto simp: link_ok_def layout_def L_def)
    have q2: "m2 (?q - 4) = hdr ?d True False" using n(5) d mb8 k(1) bp8 by (auto simp: m2_def e_def)
    have ex: "\<exists>m'. free_list_insert ops ?q (s\<lparr>mem := m2\<rparr>) = Inr (s\<lparr>mem := m'\<rparr>) \<and> fli m' L (U(?q \<mapsto> ?d)) \<and>
      same_in m2 m' (- ({L..<L + 80} \<union> link_slots mb (insert ?q (dom U))))"
      using insert [of "s\<lparr>mem := m2\<rparr>" U ?q ?d True False] fl2 Ub [of ?q] lk q2 d mb8 by (simp add: L_def)
    then obtain m3 where ins: "free_list_insert ops ?q (s\<lparr>mem := m2\<rparr>) = Inr (s\<lparr>mem := m3\<rparr>)"
      and fl3: "fli m3 L (U(?q \<mapsto> ?d))"
      and sm3: "same_in m2 m3 (- ({L..<L + 80} \<union> link_slots mb (insert ?q (dom U))))"
      by blast
    have sy: "sync_footer ?q ?sb = s\<lparr>mem := m2\<rparr>" using fp by (simp add: sync_footer_def header_ptr_def m2_def)
    have pl: "place ops bp (of_nat k) s = Inr (s\<lparr>mem := m3\<rparr>)"
      by (simp only: place_def er sbind_simps Let_def gs cmp False if_False hdr_set header_ptr_def nb
          of_nat_diff32 [OF k(2)] sy ins)
    have w3: "m3 w = m2 w" if "bp \<le> w + 4" "w + 4 \<le> e" "mb = 8 \<or> w < ?q \<or> ?q + 8 \<le> w" for w
      using sm3 slot [OF that(1,2)] that(3) by (auto simp: same_in_def link_slots_iff)
    have ws: "m3 (bp - 4) = hdr k True True" "m3 (?q - 4) = hdr ?d True False" "m3 (e - 8) = hdr ?d True False"
      "m3 (e - 4) = hdr ?h False True"
      by (subst w3; use x1 bp8 d mb8 mbd k(1) in \<open>auto simp: m2_def\<close>)+
    have sm: "same_in (mem s) m3 (- touched mb L (insert ?q (insert bp (dom U))) bp e)"
    proof (rule touched_links [OF _ sm3])
      have "same_in (mem s) m1 (- touched mb L (insert ?q (insert bp (dom U))) bp e)"
        by (rule touched_links [OF touched_refl sm1]) auto
      then show "same_in (mem s) m2 (- touched mb L (insert ?q (insert bp (dom U))) bp e)"
        unfolding m2_def by (intro touched_store) (use bp8 d k mb8 in auto)
    qed auto
    have "mm_inv mb fli (s\<lparr>mem := m3\<rparr>) (us @ [(k, True), (?d, False)] @ vs) \<and>
      keeps s (s\<lparr>mem := m3\<rparr>) (outer_alloc a us e vs) \<and>
      alloc_at a (us @ [(k, True), (?d, False)] @ vs) = outer_alloc a us e vs ++ alloc_at bp [(k, True), (?d, False)]"
      by (rule fin [OF _ nxt sm])
        (use n bp8 fl3 co nxt ws d k mb8 in \<open>auto simp: U_def\<close>)
    then show ?thesis unfolding A a_def [symmetric] using pl by (auto intro!: exI [of _ m3] exI [of _ k])
  qed
qed

end

end
