(* ===== verification/Mm_Coal.thy ===== *)
theory Mm_Coal
  imports Mm_Ops
begin

text \<open>Coalescing: one lemma for the four cases of \<^verbatim>\<open>coalesce\<close>.\<close>

lemma touched_widen:
  "same_in m m1 (- touched mb L N b e) \<Longrightarrow> b' \<le> b \<Longrightarrow> e \<le> e' \<Longrightarrow> same_in m m1 (- touched mb L N b' e')"
proof -
  assume a: "same_in m m1 (- touched mb L N b e)" "b' \<le> b" "e \<le> e'"
  then have "touched mb L N b e \<subseteq> touched mb L N b' e'" by (auto simp: touched_def)
  then show ?thesis using a(1) by (auto simp: same_in_def)
qed

lemma coal_split_front:
  assumes "coal True us"
  obtains pre P p where "us = pre @ P" "coal True pre" "lst True pre" "P = (if lst True us then [] else [(p, False)])"
    "lst True us \<longrightarrow> p = 0"
proof (cases "lst True us")
  case True
  then show ?thesis using that [of us "[]" 0] assms by simp
next
  case False
  then obtain pre q where us: "us = pre @ [q]" by (cases us rule: rev_cases) auto
  obtain p al where q: "q = (p, al)" by force
  then show ?thesis using that [of pre "[(p, False)]" p] us False assms by simp
qed

lemma coal_split_back:
  assumes "coal True vs"
  obtains X post k where "vs = X @ post" "snd (hd (post @ [tail_blk]))" "coal True post"
    "X = (if snd (hd (vs @ [tail_blk])) then [] else [(k, False)])" "snd (hd (vs @ [tail_blk])) \<longrightarrow> k = 0"
proof (cases "snd (hd (vs @ [tail_blk]))")
  case True
  then show ?thesis using that [of "[]" vs 0] assms by simp
next
  case False
  then obtain k post where vs: "vs = (k, False) # post" by (cases vs) auto
  then have "coal False post" using assms by simp
  then show ?thesis using that [of "[(k, False)]" post k] vs coal_hd coal_weaken by simp
qed

context free_list
begin

definition erase_opt :: "bool \<Rightarrow> nat \<Rightarrow> mm_state \<Rightarrow> mm_exec" where
  "erase_opt c bp s = (if c then free_list_erase ops bp s else Inr s)"

lemma erase_opt_spec:
  assumes "fli (mem s) (list_addr s) F" "c \<Longrightarrow> bp \<in> dom F"
  shows "\<exists>m'. erase_opt c bp s = Inr (s\<lparr>mem := m'\<rparr>) \<and> fli m' (list_addr s) (if c then F(bp := None) else F) \<and>
    same_in (mem s) m' (- ({list_addr s..<list_addr s + 80} \<union> link_slots mb (dom F)))"
proof (cases c)
  case True
  then show ?thesis using erase [OF assms(1) assms(2)] by (simp add: erase_opt_def)
next
  case False
  then show ?thesis using assms(1) by (auto simp: erase_opt_def same_in_def intro!: exI [of _ "mem s"])
qed

text \<open>What \<^verbatim>\<open>coalesce\<close> does, with the merged block's place and size named.\<close>

lemma coalesce_unfold:
  assumes sz: "bsize n" "bsize p" "bsize k" "bsize N"
    and h: "m (bp - 4) = hdr n (\<not> P) False" "m (bp + n - 4) = hdr k q (\<not> X)" "P \<Longrightarrow> m (bp - 8) = hdr p True False"
    and p: "\<not> P \<Longrightarrow> p = 0"
    and N: "N = p + n + (if X then k else 0)"
  shows "coalesce ops bp (s\<lparr>mem := m\<rparr>) =
    (let m2 = (if P \<or> X then m(bp - p - 4 := hdr N True False, bp - p + N - 8 := hdr N True False) else m)
     in sbind (erase_opt P bp (s\<lparr>mem := m2\<rparr>)) (\<lambda>s.
        sbind (erase_opt X (bp + n) s) (\<lambda>s.
        sbind (free_list_update ops (bp - p) s) (\<lambda>s. Inr (bp - p, s)))))"
proof -
  let ?s = "s\<lparr>mem := m\<rparr>" and ?b = "bp - p"
  note g = hdr_get [of ?s "bp - 4" n "\<not> P" False] hdr_get [of ?s "bp + n - 4" k q "\<not> X"]
    hdr_get [of ?s "bp - 8" p True False]
  have nb: "next_block bp ?s = bp + n" using g(1) h sz by (simp add: next_block_def header_ptr_def)
  have sync: "sync_footer ?b (st32 (?b - 4) (hdr N True False) ?s) =
      s\<lparr>mem := m(?b - 4 := hdr N True False, ?b + N - 8 := hdr N True False)\<rparr>"
    using hdr_get(1) [of "st32 (?b - 4) (hdr N True False) ?s" "?b - 4" N True False] sz(4)
    by (simp add: sync_footer_def footer_ptr_def header_ptr_def)
  have words: "get_size (bp - 4) ?s = of_nat n" "get_prev_alloc (bp - 4) ?s = of_bool (\<not> P)"
    "get_alloc (bp + n - 4) ?s = of_bool (\<not> X)" "get_size (bp + n - 4) ?s = of_nat k"
    using g h sz by simp_all
  show ?thesis
  proof (cases P)
    case True
    then have pf: "get_size (bp - 8) ?s = of_nat p" using g h sz by simp
    then have pb: "prev_block bp ?s = ?b" using sz by (simp add: prev_block_def prev_footer_ptr_def)
    show ?thesis
      using True N sync
      by (cases X) (simp_all add: coalesce_def header_ptr_def nb words prev_footer_ptr_def pf pb
          hdr_set flip: of_nat_add add: erase_opt_def Let_def sbind_assoc)
  next
    case False
    then have "p = 0" using p by simp
    then show ?thesis
      using False N sync
      by (cases X) (simp_all add: coalesce_def header_ptr_def nb words hdr_set flip: of_nat_add
          add: erase_opt_def Let_def sbind_assoc)
  qed
qed

text \<open>Coalescing a block that has just been marked free: \<open>s\<close> is the heap with the block still allocated, \<open>m1\<close> the
memory when \<^verbatim>\<open>coalesce\<close> is called.\<close>

lemma coalesce_spec:
  assumes I: "mm_inv mb fli s (us @ (n, True) # vs)" and bp: "bp = first_blk s + blen us" and e: "e = bp + n"
    and m1: "m1 (bp - 4) = hdr n (lst True us) False" "m1 (e - 8) = hdr n (lst True us) False"
      "m1 (e - 4) = hdr (fst (hd (vs @ [tail_blk]))) False (snd (hd (vs @ [tail_blk])))"
    and fl1: "fli m1 (list_addr s) ((free_at (first_blk s) (us @ (n, True) # vs))(bp \<mapsto> n))"
    and sm1: "same_in (mem s) m1 (- touched mb (list_addr s) (insert bp (dom (free_at (first_blk s) (us @ (n, True) # vs)))) bp e)"
  shows "\<exists>m' pre N post b. coalesce ops bp (s\<lparr>mem := m1\<rparr>) = Inr (b, s\<lparr>mem := m'\<rparr>) \<and>
    mm_inv mb fli (s\<lparr>mem := m'\<rparr>) (pre @ (N, False) # post) \<and> b = first_blk s + blen pre \<and> n \<le> N \<and>
    alloc_at (first_blk s) (pre @ (N, False) # post) = (alloc_at (first_blk s) (us @ (n, True) # vs))(bp := None) \<and>
    keeps s (s\<lparr>mem := m'\<rparr>) ((alloc_at (first_blk s) (us @ (n, True) # vs))(bp := None)) \<and>
    N = (if lst True us then 0 else fst (last us)) + n + (if snd (hd (vs @ [tail_blk])) then 0 else fst (hd vs)) \<and>
    pre = (if lst True us then us else butlast us) \<and> post = (if snd (hd (vs @ [tail_blk])) then vs else tl vs) \<and>
    get_alloc (bp - 4) (s\<lparr>mem := m'\<rparr>) = 0"
proof -
  define a L where "a = first_blk s" and "L = list_addr s"
  have lay: "layout s" and rep: "heap_rep mb s (us @ (n, True) # vs)" and co: "coal True us" "coal True vs"
    using I by (simp_all add: mm_inv_def)
  obtain pre P p where P: "us = pre @ P" "coal True pre" "lst True pre" "P = (if lst True us then [] else [(p, False)])"
    "lst True us \<longrightarrow> p = 0"
    by (rule coal_split_front [OF co(1)])
  obtain X post k where X: "vs = X @ post" "snd (hd (post @ [tail_blk]))" "coal True post"
    "X = (if snd (hd (vs @ [tail_blk])) then [] else [(k, False)])" "snd (hd (vs @ [tail_blk])) \<longrightarrow> k = 0"
    by (rule coal_split_back [OF co(2)])
  define mid where "mid = P @ [(n, True)] @ X"
  define b e' N where "b = a + blen pre" and "e' = b + blen mid" and "N = p + n + k"
  have Pc: "P = [] \<and> p = 0 \<or> P = [(p, False)]" using P(4,5) by (auto split: if_splits)
  have Xc: "X = [] \<and> k = 0 \<or> X = [(k, False)]" using X(4,5) by (auto split: if_splits)
  have rep': "heap_rep mb s (pre @ mid @ post)" using rep P(1) X(1) by (simp add: mid_def)
  have lenP: "blen P = p" and lenX: "blen X = k" using P(4,5) X(4,5) by auto
  have bb: "b = bp - p" "bp = b + p" "e' = e + k" "e' = b + N"
    using lenP lenX bp P(1) by (simp_all add: b_def a_def e'_def mid_def e N_def)
  have ar: "bp = b + p" "e = b + p + n" "e' = b + p + n + k" using bb(2,3) e by simp_all
  note sf = split_facts [OF mb_ok lay rep' b_def [unfolded a_def] e'_def, folded a_def L_def]
  note mb8 = min_size_pos [OF mb_ok]
  define U where "U = outer_free a pre e' post"
  have sizes: "mb \<le> n" "P = [] \<and> p = 0 \<or> P \<noteq> [] \<and> mb \<le> p" "X = [] \<and> k = 0 \<or> X \<noteq> [] \<and> mb \<le> k"
      "8 dvd n" "8 dvd p" "8 dvd k"
    using sf(3) Pc Xc by (auto simp: mid_def)
  have bnd: "e' \<le> 2 ^ 31" "16 \<le> b" using sf(5,8) by (simp_all add: a_def first_blk_def)
  have bs: "bsize n" "bsize p" "bsize k" "bsize N" "bsize (p + n + k)"
  proof -
    have "N \<le> 2 ^ 31" using bnd bb(4) by simp
    then show "bsize n" "bsize p" "bsize k" "bsize N" "bsize (p + n + k)"
      using sizes(4-6) by (simp_all add: bsize_def N_def)
  qed
  have mb16: "mb = 8 \<or> mb = 16" using mb_ok by (simp add: min_size_ok_def)
  define M where "M = (if P = [] then {} else {b}) \<union> {bp} \<union> (if X = [] then {} else {e})"
  define F0 where "F0 = free_at a (us @ (n, True) # vs)"
  define F1 where "F1 = F0(bp \<mapsto> n)"
  have F0: "F0 = U ++ free_at b mid" using sf(14) P(1) X(1) by (simp add: F0_def U_def mid_def)
  have midF: "free_at b mid = (\<lambda>x. if P \<noteq> [] \<and> x = b then Some p else if X \<noteq> [] \<and> x = e then Some k else None)"
    using Pc Xc sizes(1) mb8 by (auto simp: mid_def ar fun_eq_iff)
  have U: "U x = None" if "b \<le> x" "x < e'" for x
    unfolding U_def using outer_free_None [OF mb_ok sf(2,4)] that by (simp add: b_def)
  have domF1: "dom F1 \<subseteq> dom U \<union> M" "M \<subseteq> dom F1" "dom F0 \<subseteq> dom F1"
    using sizes(1) mb8 by (auto simp: F1_def F0 midF M_def split: if_splits)
  have Mrange: "M \<subseteq> {f. b \<le> f \<and> f + 8 \<le> e'}" using sizes(1-3) mb8 by (auto simp: M_def ar split: if_splits)
  have Mslot: "w \<notin> link_slots mb M" if "w = b - 4 \<or> w = bp - 8 \<and> P \<noteq> [] \<or> w = e' - 8 \<or> w = e' - 4" for w
    using that sizes(1-3) mb16 bnd(2) by (auto simp: M_def link_slots_iff ar split: if_splits)
  have outside: "w \<notin> {L..<L + 80}" "w \<notin> link_slots mb (dom U)" if "b \<le> w + 4" "w + 4 \<le> e'" for w
    using that sf(6,8) outer_slots [OF mb_ok sf(2,4) b_def, of w e'] by (auto simp: U_def)
  have nolink: "w \<notin> link_slots mb (dom F1)" if "b \<le> w + 4" "w + 4 \<le> e'" "w \<notin> link_slots mb M" for w
    using that outside(2) [OF that(1,2)] link_slots_mono [OF domF1(1), of mb] by (auto simp: link_slots_un)
  have w1: "m1 w = mem s w" if "b \<le> w + 4" "w + 4 \<le> e'" "w + 4 < bp \<or> e < w + 4" "w \<notin> link_slots mb M" for w
  proof -
    have "insert bp (dom F0) = dom F1" "4 \<le> e" using bnd(2) by (simp_all add: F1_def ar)
    then have "w \<notin> touched mb L (insert bp (dom F0)) bp e"
      using nolink [OF that(1,2,4)] outside(1) [OF that(1,2)] that(3) by (auto simp: touched_def)
    then show ?thesis using sm1 by (simp add: same_in_def F0_def L_def a_def)
  qed
  let ?h = "fst (hd (post @ [tail_blk]))"
  have PX: "P = [] \<longleftrightarrow> lst True us" "X = [] \<longleftrightarrow> snd (hd (vs @ [tail_blk]))" using P(4) X(4) by auto
  have hp: "m1 (bp - 8) = hdr p True False" if "P \<noteq> []"
  proof -
    have "mem s (bp - 8) = hdr p True False"
      using sf(10) P(3) Pc that by (auto simp: mid_def ar)
    then show ?thesis by (subst w1) (use that sizes(1-3) mb8 Mslot in \<open>auto simp: ar\<close>)
  qed
  define kk where "kk = fst (hd (vs @ [tail_blk]))"
  have hn: "m1 (e - 4) = hdr kk False (X = [])" using m1(3) by (simp add: PX kk_def)
  have kk: "bsize kk" "X \<noteq> [] \<longrightarrow> kk = k"
  proof -
    show "X \<noteq> [] \<longrightarrow> kk = k" using Xc X(1) by (auto simp: kk_def)
    have "okb mb vs" "blen vs \<le> 2 ^ 31" using sf(4,5) sizes(3,6) sf(3) X(1) by (auto simp: mid_def lenX ar)
    then show "bsize kk" by (cases vs) (auto simp: kk_def bsize_def)
  qed
  have he: "m1 (e' - 4) = hdr ?h False True"
  proof (cases "X = []")
    case True
    then show ?thesis using m1(3) X(1,2) sizes(3) by (simp add: ar)
  next
    case False
    then have "mem s (e' - 4) = hdr ?h False True"
      using seg_hd [OF sf(11)] X(2) Xc by (simp add: mid_def)
    then show ?thesis by (subst w1) (use False sizes(1-3) mb8 Mslot bnd in \<open>auto simp: ar\<close>)
  qed
  define m2 where "m2 = (if P \<noteq> [] \<or> X \<noteq> [] then m1(b - 4 := hdr N True False, b + N - 8 := hdr N True False) else m1)"
  have m2: "m2 (b - 4) = hdr N True False" "m2 (e' - 8) = hdr N True False" "m2 (e' - 4) = hdr ?h False True"
    using m1(1,2) he sizes(1-3) mb8 PX bnd(2) by (auto simp: m2_def ar N_def)
  have co_eq: "coalesce ops bp (s\<lparr>mem := m1\<rparr>) =
      sbind (erase_opt (P \<noteq> []) bp (s\<lparr>mem := m2\<rparr>)) (\<lambda>s.
      sbind (erase_opt (X \<noteq> []) e s) (\<lambda>s.
      sbind (free_list_update ops b s) (\<lambda>s. Inr (b, s))))"
  proof -
    have "N = p + n + (if X \<noteq> [] then kk else 0)" using kk(2) sizes(3) by (auto simp: N_def)
    note cu = coalesce_unfold [OF bs(1,2) kk(1) bs(4) _ _ _ _ this, of m1 bp "P \<noteq> []" False s]
    show ?thesis
      by (subst cu) (use m1(1) hn hp sizes(2) in \<open>auto simp: PX e [symmetric] bb(1) [symmetric] m2_def Let_def\<close>)
  qed
  have fl1': "fli m1 L F1" using fl1 by (simp add: F1_def F0_def a_def L_def)
  have fl2: "fli m2 L F1"
  proof (rule inv_stretch [OF fl1' sf(2,4) b_def sf(6)])
    show "dom F1 \<subseteq> dom (outer_free a pre e' post) \<union> M" using domF1(1) by (simp add: U_def)
    show "m2 w = m1 w" if "w + 4 < b \<or> e' < w + 4 \<or> w \<in> link_slots mb M" for w
    proof -
      have "w \<noteq> b - 4" "w \<noteq> e' - 8" using that Mslot [of w] sizes(1) mb8 bnd(2) by (auto simp: ar)
      then show ?thesis by (simp add: m2_def bb(4) [symmetric])
    qed
  qed
  let ?c = "- ({L..<L + 80} \<union> link_slots mb (dom F1))"
  define F2 where "F2 = (if P \<noteq> [] then F1(bp := None) else F1)"
  define F3 where "F3 = (if X \<noteq> [] then F2(e := None) else F2)"
  obtain m3 where e3: "erase_opt (P \<noteq> []) bp (s\<lparr>mem := m2\<rparr>) = Inr (s\<lparr>mem := m3\<rparr>)" and fl3: "fli m3 L F2" and s3: "same_in m2 m3 ?c"
    using erase_opt_spec [of "s\<lparr>mem := m2\<rparr>" F1 "P \<noteq> []" bp] fl2 by (auto simp: F2_def F1_def L_def)
  have c2: "?c \<subseteq> - ({L..<L + 80} \<union> link_slots mb (dom F2))" "?c \<subseteq> - ({L..<L + 80} \<union> link_slots mb (dom F3))"
  proof -
    have "dom F2 \<subseteq> dom F1" "dom F3 \<subseteq> dom F1" by (auto simp: F2_def F3_def split: if_splits)
    then show "?c \<subseteq> - ({L..<L + 80} \<union> link_slots mb (dom F2))" "?c \<subseteq> - ({L..<L + 80} \<union> link_slots mb (dom F3))"
      using link_slots_mono by blast+
  qed
  have eF2: "e \<in> dom F2" if "X \<noteq> []"
    using that sizes(1) mb8 by (auto simp: F2_def F1_def F0 midF ar)
  obtain m4 where e4: "erase_opt (X \<noteq> []) e (s\<lparr>mem := m3\<rparr>) = Inr (s\<lparr>mem := m4\<rparr>)" and fl4: "fli m4 L F3" and s4: "same_in m3 m4 ?c"
    using erase_opt_spec [of "s\<lparr>mem := m3\<rparr>" F2 "X \<noteq> []" e] fl3 eF2 c2(1) by (auto simp: F3_def L_def same_in_def)
  have Ub: "U b = None" "U bp = None" "X \<noteq> [] \<Longrightarrow> U e = None" using U sizes(1-3) mb8 by (auto simp: ar)
  have F3: "b \<in> dom F3" "F3(b \<mapsto> N) = U(b \<mapsto> N)"
  proof -
    show "b \<in> dom F3" using sizes(1,2) mb8 by (auto simp: F3_def F2_def F1_def F0 midF ar)
    show "F3(b \<mapsto> N) = U(b \<mapsto> N)"
      using Ub sizes(1,2) mb8 Pc by (auto simp: F3_def F2_def F1_def F0 midF ar fun_eq_iff map_add_def)
  qed
  have keep: "m4 w = m2 w" if "b \<le> w + 4" "w + 4 \<le> e'" "w \<notin> link_slots mb M" for w
    using s3 s4 nolink [OF that] outside(1) [OF that(1,2)] by (simp add: same_in_def)
  have "m4 (b - 4) = hdr N True False" by (subst keep) (use m2 Mslot [of "b - 4"] bnd(2) sizes(1) mb8 in \<open>auto simp: ar\<close>)
  moreover have "b - 4 \<notin> {L..<L + 80} \<union> link_slots mb (dom F3)"
  proof -
    have "b \<le> b - 4 + 4" "b - 4 + 4 \<le> e'" "b - 4 \<notin> link_slots mb M" using bnd(2) sizes(1) Mslot [of "b - 4"] by (auto simp: ar)
    from nolink [OF this] outside(1) [OF this(1,2)] show ?thesis using c2(2) by blast
  qed
  ultimately obtain m5 where u5: "free_list_update ops b (s\<lparr>mem := m4\<rparr>) = Inr (s\<lparr>mem := m5\<rparr>)" and fl5: "fli m5 L (U(b \<mapsto> N))"
    and s5: "same_in m4 m5 ?c"
    using update [of "s\<lparr>mem := m4\<rparr>" F3 b N True False] fl4 F3 bs(4) sizes(1) c2(2)
    by (auto simp: L_def same_in_def N_def)
  have run: "coalesce ops bp (s\<lparr>mem := m1\<rparr>) = Inr (b, s\<lparr>mem := m5\<rparr>)"
    by (simp add: co_eq e3 e4 u5)
  have keep5: "m5 w = m2 w" if "b \<le> w + 4" "w + 4 \<le> e'" "w \<notin> link_slots mb M" for w
    using keep [OF that] s5 nolink [OF that] outside(1) [OF that(1,2)] by (simp add: same_in_def)
  have w5: "m5 (b - 4) = hdr N True False" "m5 (e' - 8) = hdr N True False" "m5 (e' - 4) = hdr ?h False True"
    by (subst keep5; use m2 Mslot bnd(2) sizes(1) mb8 in \<open>auto simp: ar\<close>)+
  have sm5: "same_in (mem s) m5 (- touched mb L (dom F1) b e')"
  proof -
    have "same_in (mem s) m1 (- touched mb L (dom F1) bp e)" using sm1 by (simp add: F1_def F0_def a_def L_def)
    then have "same_in (mem s) m1 (- touched mb L (dom F1) b e')" by (rule touched_widen) (simp_all add: ar)
    then have "same_in (mem s) m2 (- touched mb L (dom F1) b e')"
      unfolding m2_def using bnd(2) sizes(1) mb8 by (auto intro!: touched_store simp: ar N_def)
    from touched_links [OF touched_links [OF touched_links [OF this s3] s4] s5] show ?thesis by simp
  qed
  have N1: "dom F1 \<subseteq> dom (outer_free a pre e' post) \<union> {f. b \<le> f \<and> f + 8 \<le> e'}"
    using domF1(1) Mrange by (auto simp: U_def)
  have "mm_inv mb fli (s\<lparr>mem := m5\<rparr>) (pre @ [(N, False)] @ post) \<and>
      keeps s (s\<lparr>mem := m5\<rparr>) (outer_alloc (first_blk s) pre e' post) \<and>
      alloc_at (first_blk s) (pre @ [(N, False)] @ post) = outer_alloc (first_blk s) pre e' post ++ alloc_at b [(N, False)]"
  proof (rule stretch_done [OF mb_ok lay rep' b_def [unfolded a_def] e'_def _ X(2) sm5 [unfolded L_def] N1 [unfolded a_def]])
    show "seg m5 b (lst True pre) [(N, False)]" using w5 P(3) bb(4) by simp
    show "blen [(N, False)] = blen mid" by (simp add: mid_def N_def lenP lenX)
    show "okb mb [(N, False)]" using sizes by (simp add: N_def)
    show "m5 (e' - 4) = hdr (fst (hd (post @ [tail_blk]))) (lst (lst True pre) [(N, False)]) True" using w5 by simp
    have "coal False post" using X(2,3) by (cases post) auto
    then show "coal True (pre @ [(N, False)] @ post)" using P(2,3) by simp
    show "fli m5 (list_addr s) (outer_free (first_blk s) pre e' post ++ free_at b [(N, False)])"
      using fl5 by (simp add: U_def a_def L_def)
  qed (use sizes(1) mb8 in \<open>simp add: ar\<close>)
  moreover have "outer_alloc (first_blk s) pre e' post = (alloc_at (first_blk s) (us @ (n, True) # vs))(bp := None)"
  proof -
    have "alloc_at a (us @ (n, True) # vs) = outer_alloc a pre e' post ++ alloc_at b mid"
      using sf(15) P(1) X(1) by (simp add: mid_def)
    moreover have "alloc_at b mid = [bp \<mapsto> n]" using Pc Xc by (auto simp: mid_def ar)
    moreover have "outer_alloc a pre e' post bp = None"
      using outer_alloc_None [OF mb_ok sf(2,4), of a bp e'] sizes(1) mb8 by (simp add: ar b_def)
    ultimately show ?thesis by (auto simp: a_def fun_eq_iff)
  qed
  moreover have "N = (if lst True us then 0 else fst (last us)) + n + (if snd (hd (vs @ [tail_blk])) then 0 else fst (hd vs))"
    unfolding PX [symmetric] using Pc Xc P(1) X(1) by (auto simp: N_def)
  moreover have "pre = (if lst True us then us else butlast us)" "post = (if snd (hd (vs @ [tail_blk])) then vs else tl vs)"
    unfolding PX [symmetric] using Pc Xc P(1) X(1) by auto
  moreover have "get_alloc (bp - 4) (s\<lparr>mem := m5\<rparr>) = 0"
  proof (cases "P = []")
    case True
    then show ?thesis using w5(1) sizes(2) bs(4) hdr_get(2) [of "s\<lparr>mem := m5\<rparr>" "b - 4" N True False] by (simp add: ar)
  next
    case False
    then have "bp - 4 \<notin> link_slots mb M" "bp - 4 \<noteq> b - 4" "bp - 4 \<noteq> b + N - 8" "b \<le> bp - 4 + 4" "bp - 4 + 4 \<le> e'"
      using sizes(1,2) mb8 mb16 bnd(2) by (auto simp: M_def link_slots_iff ar N_def split: if_splits)
    then have "m5 (bp - 4) = hdr n (lst True us) False" using keep5 m1(1) by (simp add: m2_def)
    then show ?thesis using bs(1) hdr_get(2) [of "s\<lparr>mem := m5\<rparr>" "bp - 4"] by simp
  qed
  ultimately show ?thesis using run
    by (intro exI [of _ m5] exI [of _ pre] exI [of _ N] exI [of _ post] exI [of _ b]) (simp add: b_def a_def N_def)
qed

end

end
