(* ===== verification/Mm_Free.thy ===== *)
theory Mm_Free
  imports Mm_Coal
begin

text \<open>Releasing a block: \<^verbatim>\<open>do_mm_free\<close>, and the part it shares with \<^verbatim>\<open>extend_heap\<close>.\<close>

lemma alloc_at_list:
  "alloc_at a rs p = Some n \<Longrightarrow> \<exists>us vs. rs = us @ (n, True) # vs \<and> p = a + blen us"
proof (induction a rs rule: alloc_at.induct)
  case (2 a k al bs)
  show ?case
  proof (cases "al \<and> p = a")
    case True
    then show ?thesis using 2 by (intro exI [of _ "[]"] exI [of _ bs]) auto
  next
    case False
    then have "alloc_at (a + k) bs p = Some n" using 2 by (cases al) auto
    then obtain us vs where "bs = us @ (n, True) # vs" "p = a + k + blen us" using 2 by (cases al) auto
    then show ?thesis by (intro exI [of _ "(k, al) # us"] exI [of _ vs]) simp
  qed
qed simp

lemma free_at_list:
  "free_at a rs p = Some n \<Longrightarrow> \<exists>us vs. rs = us @ (n, False) # vs \<and> p = a + blen us"
proof (induction a rs rule: free_at.induct)
  case (2 a k al bs)
  show ?case
  proof (cases "\<not> al \<and> p = a")
    case True
    then show ?thesis using 2 by (intro exI [of _ "[]"] exI [of _ bs]) auto
  next
    case False
    then have "free_at (a + k) bs p = Some n" using 2 by (cases al) auto
    then obtain us vs where "bs = us @ (n, False) # vs" "p = a + k + blen us" using 2 by (cases al) auto
    then show ?thesis by (intro exI [of _ "(k, al) # us"] exI [of _ vs]) simp
  qed
qed simp

lemma heap_block:
  assumes "min_size_ok mb" "layout s" "heap_rep mb s (us @ (n, al) # vs)" "bp = first_blk s + blen us"
  shows "mem s (bp - 4) = hdr n (lst True us) al" "bsize n" "mb \<le> n" "16 \<le> bp"
    "\<not> al \<Longrightarrow> mem s (bp + n - 8) = hdr n (lst True us) al" "next_block bp s = bp + n"
    "mem s (bp + n - 4) = hdr (fst (hd (vs @ [tail_blk]))) al (snd (hd (vs @ [tail_blk])))"
    "bsize (fst (hd (vs @ [tail_blk])))"
proof -
  have rep: "heap_rep mb s (us @ [(n, al)] @ vs)" using assms(3) by simp
  note sf = split_facts [OF assms(1,2) rep assms(4) refl]
  show h: "mem s (bp - 4) = hdr n (lst True us) al" and "\<not> al \<Longrightarrow> mem s (bp + n - 8) = hdr n (lst True us) al"
    and "mb \<le> n" "16 \<le> bp" and b: "bsize n"
    using sf(3,5,8,10) by (auto simp: first_blk_def bsize_def)
  then show "next_block bp s = bp + n" by (simp add: next_block_def header_ptr_def hdr_get)
  show "mem s (bp + n - 4) = hdr (fst (hd (vs @ [tail_blk]))) al (snd (hd (vs @ [tail_blk])))"
    using seg_hd [OF sf(11)] by simp
  show "bsize (fst (hd (vs @ [tail_blk])))" using sf(4,5) by (cases vs) (auto simp: bsize_def)
qed

context free_list
begin

text \<open>The steps of freeing and of extending the heap up to the call of \<^verbatim>\<open>coalesce\<close>: header and footer are
written, the block is inserted, the next header's flag is cleared.\<close>

lemma release_spec:
  assumes I: "mm_inv mb fli s (us @ (n, True) # vs)" and bp: "bp = first_blk s + blen us" and e: "e = bp + n"
    and m: "m (bp - 4) = hdr n (lst True us) False" "m (e - 8) = hdr n (lst True us) False"
      "\<And>w. w + 4 < bp \<or> e < w + 4 \<Longrightarrow> m w = mem s w"
  shows "\<exists>m'. free_list_insert ops bp (s\<lparr>mem := m\<rparr>) = Inr (s\<lparr>mem := m'\<rparr>) \<and> m' (bp - 4) = hdr n (lst True us) False \<and>
    m' (e - 4) = m (e - 4) \<and>
    (\<exists>m2 pre N post b. coalesce ops bp (s\<lparr>mem := m'(e - 4 := hdr (fst (hd (vs @ [tail_blk]))) False (snd (hd (vs @ [tail_blk]))))\<rparr>) =
        Inr (b, s\<lparr>mem := m2\<rparr>) \<and>
      mm_inv mb fli (s\<lparr>mem := m2\<rparr>) (pre @ (N, False) # post) \<and> b = first_blk s + blen pre \<and> n \<le> N \<and>
      alloc_at (first_blk s) (pre @ (N, False) # post) = (alloc_at (first_blk s) (us @ (n, True) # vs))(bp := None) \<and>
      keeps s (s\<lparr>mem := m2\<rparr>) ((alloc_at (first_blk s) (us @ (n, True) # vs))(bp := None)) \<and>
      N = (if lst True us then 0 else fst (last us)) + n + (if snd (hd (vs @ [tail_blk])) then 0 else fst (hd vs)) \<and>
      pre = (if lst True us then us else butlast us) \<and> post = (if snd (hd (vs @ [tail_blk])) then vs else tl vs) \<and> get_alloc (bp - 4) (s\<lparr>mem := m2\<rparr>) = 0)"
proof -
  define a L F0 where "a = first_blk s" and "L = list_addr s" and "F0 = free_at a (us @ (n, True) # vs)"
  have lay: "layout s" and rep: "heap_rep mb s (us @ [(n, True)] @ vs)" and fl: "fli (mem s) L F0"
    using I by (simp_all add: mm_inv_def L_def F0_def a_def)
  have ee: "e = bp + blen [(n, True)]" by (simp add: e)
  note sf = split_facts [OF mb_ok lay rep bp ee, folded a_def L_def]
  note mb8 = min_size_pos [OF mb_ok]
  note hb = heap_block [OF mb_ok lay rep [simplified] bp]
  have U: "F0 = outer_free a us e vs" using sf(14) by (simp add: F0_def)
  have bpa: "bp = a + blen us" using bp by (simp add: a_def)
  have F0b: "F0 bp = None"
    using outer_free_None [OF mb_ok sf(2,4), of a bp e] hb(3) mb8 by (simp add: U e bpa)
  have flm: "fli m L F0"
    by (rule inv_stretch [OF fl sf(2,4) bpa sf(6), where M = "{}"]) (use m(3) in \<open>auto simp: U link_slots_iff\<close>)
  have lk: "link_ok L bp" using sf(5,6,7,8) hb(3) mb8 lay e by (auto simp: link_ok_def layout_def L_def)
  obtain m' where ins: "free_list_insert ops bp (s\<lparr>mem := m\<rparr>) = Inr (s\<lparr>mem := m'\<rparr>)" and fl': "fli m' L (F0(bp \<mapsto> n))"
    and sm': "same_in m m' (- ({L..<L + 80} \<union> link_slots mb (insert bp (dom F0))))"
    using insert [of "s\<lparr>mem := m\<rparr>" F0 bp n "lst True us" False] flm F0b lk m(1) hb(2,3) by (auto simp: L_def)
  have w: "m' w = m w" if "bp \<le> w + 4" "w + 4 \<le> e" "mb = 8 \<or> w < bp \<or> bp + 8 \<le> w" for w
  proof -
    have "w \<notin> {L..<L + 80}" "w \<notin> link_slots mb (dom F0)"
      using that(1,2) sf(6,8) outer_slots [OF mb_ok sf(2,4) bpa, of w e] by (auto simp: U)
    then show ?thesis using sm' that(3) by (auto simp: same_in_def link_slots_insert)
  qed
  have mbn: "mb = 8 \<or> 16 \<le> n" using mb_ok hb(3) by (auto simp: min_size_ok_def)
  have ws: "m' (bp - 4) = m (bp - 4)" "m' (e - 8) = m (e - 8)" "m' (e - 4) = m (e - 4)"
    by (subst w; use hb(3,4) mb8 mbn in \<open>auto simp: e\<close>)+
  let ?x = "hdr (fst (hd (vs @ [tail_blk]))) False (snd (hd (vs @ [tail_blk])))"
  define m1 where "m1 = m'(e - 4 := ?x)"
  have ne: "bp - 4 \<noteq> e - 4" "e - 8 \<noteq> e - 4" using hb(3,4) mb8 by (auto simp: e)
  have fl1: "fli m1 L (F0(bp \<mapsto> n))"
  proof (rule inv_stretch [OF fl' sf(2,4) bpa sf(6)])
    show "dom (F0(bp \<mapsto> n)) \<subseteq> dom (outer_free a us e vs) \<union> {bp}" by (auto simp: U)
    show "m1 w = m' w" if "w + 4 < bp \<or> e < w + 4 \<or> w \<in> link_slots mb {bp}" for w
      using that hb(3,4) mb8 mbn by (auto simp: m1_def e link_slots_iff)
  qed
  have sm1: "same_in (mem s) m1 (- touched mb L (insert bp (dom F0)) bp e)"
  proof -
    have "same_in (mem s) m (- touched mb L (insert bp (dom F0)) bp e)"
      using hb(4) e by (auto simp: same_in_def touched_def intro!: m(3))
    from touched_links [OF this sm'] show ?thesis
      unfolding m1_def by (intro touched_store) (use hb(3,4) mb8 in \<open>auto simp: e\<close>)
  qed
  note cs = coalesce_spec [OF I bp e _ _ _ fl1 [unfolded F0_def a_def L_def] sm1 [unfolded F0_def a_def L_def]]
  show ?thesis
    using ins ws m(1,2) ne by (intro exI [of _ m'] conjI cs [unfolded m1_def]) (simp_all add: m1_def)
qed

lemma free_spec:
  assumes I: "mm_inv mb fli s rs" and p: "alloc_at (first_blk s) rs p = Some n"
  shows "\<exists>m' rs'. do_mm_free ops (Some p) s = Inr (s\<lparr>mem := m'\<rparr>) \<and> mm_inv mb fli (s\<lparr>mem := m'\<rparr>) rs' \<and>
    alloc_at (first_blk s) rs' = (alloc_at (first_blk s) rs)(p := None) \<and>
    keeps s (s\<lparr>mem := m'\<rparr>) ((alloc_at (first_blk s) rs)(p := None)) \<and> get_alloc (p - 4) (s\<lparr>mem := m'\<rparr>) = 0"
proof -
  obtain us vs where rs: "rs = us @ (n, True) # vs" and pa: "p = first_blk s + blen us" using alloc_at_list [OF p] by blast
  have lay: "layout s" and rep: "heap_rep mb s (us @ (n, True) # vs)" using I rs by (simp_all add: mm_inv_def)
  note hb = heap_block [OF mb_ok lay rep pa] and mb8 = min_size_pos [OF mb_ok]
  let ?pf = "lst True us" and ?h = "fst (hd (vs @ [tail_blk]))" and ?al = "snd (hd (vs @ [tail_blk]))"
  let ?s1 = "st32 (p - 4) (hdr n ?pf False) s"
  define m where "m = (mem s)(p - 4 := hdr n ?pf False, p + n - 8 := hdr n ?pf False)"
  have sa: "set_alloc (header_ptr p) 0 s = ?s1" using hdr_upd(4) [OF hb(1,2)] by (simp add: header_ptr_def)
  have fp: "footer_ptr p ?s1 = p + n - 8"
    using hdr_get(1) [of ?s1 "p - 4" n ?pf False] hb(2) by (simp add: footer_ptr_def header_ptr_def)
  have sy: "sync_footer p ?s1 = s\<lparr>mem := m\<rparr>" using fp by (simp add: sync_footer_def header_ptr_def m_def)
  have ga: "get_alloc (header_ptr p) s \<noteq> 0" using hdr_get(2) [OF hb(1,2)] by (simp add: header_ptr_def)
  have m: "m (p - 4) = hdr n ?pf False" "m (p + n - 8) = hdr n ?pf False" "m (p + n - 4) = mem s (p + n - 4)"
    "\<And>w. w + 4 < p \<or> p + n < w + 4 \<Longrightarrow> m w = mem s w"
    using hb(3,4) mb8 by (auto simp: m_def)
  obtain m' m2 pre N post b where r: "free_list_insert ops p (s\<lparr>mem := m\<rparr>) = Inr (s\<lparr>mem := m'\<rparr>)"
      "m' (p - 4) = hdr n ?pf False" "m' (p + n - 4) = m (p + n - 4)"
      "coalesce ops p (s\<lparr>mem := m'(p + n - 4 := hdr ?h False ?al)\<rparr>) = Inr (b, s\<lparr>mem := m2\<rparr>)"
      "mm_inv mb fli (s\<lparr>mem := m2\<rparr>) (pre @ (N, False) # post)"
      "alloc_at (first_blk s) (pre @ (N, False) # post) = (alloc_at (first_blk s) (us @ (n, True) # vs))(p := None)"
      "keeps s (s\<lparr>mem := m2\<rparr>) ((alloc_at (first_blk s) (us @ (n, True) # vs))(p := None))"
      "get_alloc (p - 4) (s\<lparr>mem := m2\<rparr>) = 0"
    using release_spec [OF I [unfolded rs] pa refl m(1,2,4)] by blast
  have nb: "next_block p (s\<lparr>mem := m'\<rparr>) = p + n"
    using hdr_get(1) [of "s\<lparr>mem := m'\<rparr>" "p - 4" n ?pf False] r(2) hb(2) by (simp add: next_block_def header_ptr_def)
  have sp: "set_prev_alloc (p + n - 4) 0 (s\<lparr>mem := m'\<rparr>) = s\<lparr>mem := m'(p + n - 4 := hdr ?h False ?al)\<rparr>"
    using hdr_upd(3) [of "s\<lparr>mem := m'\<rparr>" "p + n - 4" ?h True ?al] r(3) m(3) hb(7,8) by simp
  have "do_mm_free ops (Some p) s = Inr (s\<lparr>mem := m2\<rparr>)"
    using ga by (simp add: do_mm_free_def Let_def sa sy r(1) nb header_ptr_def [of "p + n"] sp r(4))
  then show ?thesis using r(5-8) rs by blast
qed

text \<open>Extending the heap is releasing a block that was appended to it.\<close>

lemma grow_inv:
  assumes I: "mm_inv mb fli s rs" and z: "mb \<le> z" "8 dvd z" and room: "mem_brk s + z \<le> mem_max_addr s"
  defines "t \<equiv> s\<lparr>mem_brk := mem_brk s + z, block_tail := mem_brk s + z,
    mem := (mem s)(mem_brk s - 4 := hdr z (lst True rs) True, mem_brk s + z - 4 := hdr 0 True True)\<rparr>"
  shows "mm_inv mb fli t (rs @ [(z, True)])" "first_blk t = first_blk s" "mem_brk s = first_blk t + blen rs"
    "alloc_at (first_blk t) (rs @ [(z, True)]) = (alloc_at (first_blk s) rs)(mem_brk s \<mapsto> z)"
    "alloc_at (first_blk s) rs (mem_brk s) = None" "keeps s t (alloc_at (first_blk s) rs)"
proof -
  have lay: "layout s" and rep: "heap_rep mb s (rs @ [] @ [])" and co: "coal True rs"
    and fl: "fli (mem s) (list_addr s) (free_at (first_blk s) rs)"
    using I by (simp_all add: mm_inv_def)
  note mb8 = min_size_pos [OF mb_ok]
  have brk: "mem_brk s = first_blk s + blen rs" using rep by (simp add: heap_rep_def)
  have ok: "okb mb rs" using rep by (simp add: heap_rep_def)
  show fb: "first_blk t = first_blk s" by (simp add: t_def first_blk_def)
  then show "mem_brk s = first_blk t + blen rs" using brk by simp
  have a16: "16 \<le> first_blk s" by (simp add: first_blk_def)
  have heads: "w < list_addr s \<or> list_addr s + 80 \<le> w" if "first_blk s \<le> w + 4" "w < mem_brk s + z" for w
    using that lay room by (auto simp: layout_def first_blk_def)
  have same: "mem t w = mem s w" if "w + 4 < mem_brk s \<or> mem_brk s + z < w + 4" for w
    using that a16 brk mb8 z(1) by (auto simp: t_def)
  have "range_same mb (mem s) (mem t) (first_blk s) rs" using same brk by (auto simp: range_same_def)
  then have seg: "seg (mem t) (first_blk s) True rs" and pay: "payload_same (mem s) (mem t) (alloc_at (first_blk s) rs)"
    using range_same_seg [OF mb_ok ok] range_same_payload [OF mb_ok ok] rep a16 by (simp_all add: heap_rep_def)
  have fr: "free_at (first_blk s) (rs @ [(z, True)]) = free_at (first_blk s) rs"
    using free_at_append [OF ok] mb8 by simp
  have fl': "fli (mem t) (list_addr s) (free_at (first_blk s) rs)"
  proof (rule inv_stretch [OF fl ok, where vs = "[]" and e = "mem_brk s + z" and M = "{}"])
    show "list_addr s + 80 + 16 \<le> first_blk s \<or> mem_brk s + z + blen [] \<le> list_addr s"
      using lay room by (auto simp: layout_def first_blk_def)
  qed (use same brk in \<open>auto simp: outer_free_def link_slots_iff\<close>)
  have "8 dvd mem_start_brk s" using lay by (simp add: layout_def)
  have hd: "mem t (mem_start_brk s + 4) = hdr 8 True True"
  proof -
    have "mem_start_brk s + 4 + 4 < mem_brk s" using brk by (simp add: first_blk_def)
    then have "mem t (mem_start_brk s + 4) = mem s (mem_start_brk s + 4)" by (intro same disjI1)
    then show ?thesis using rep by (simp add: heap_rep_def)
  qed
  have tl: "mem t (mem_brk s - 4) = hdr z (lst True rs) True" "mem t (mem_brk s + z - 4) = hdr 0 True True"
    using mb8 z(1) a16 brk by (auto simp: t_def)
  have rep': "heap_rep mb t (rs @ [(z, True)])"
  proof -
    have "mem_start_brk t = mem_start_brk s" "block_head t = block_head s" "block_tail t = mem_brk s + z"
      "mem_brk t = mem_brk s + z" "mem_max_addr t = mem_max_addr s" by (simp_all add: t_def)
    moreover have "block_head s = mem_start_brk s + 8" using rep by (simp add: heap_rep_def)
    moreover have "seg (mem t) (first_blk s) True ((rs @ [(z, True)]) @ [tail_blk])"
      using seg tl by (simp add: brk add.assoc)
    ultimately show ?thesis unfolding heap_rep_def fb using room hd ok z by (simp add: brk)
  qed
  show "mm_inv mb fli t (rs @ [(z, True)])"
    using lay rep' co fl' fr fb by (simp add: mm_inv_def layout_def t_def)
  show "alloc_at (first_blk s) rs (mem_brk s) = None"
    using alloc_at_outside [OF ok, of "mem_brk s" "first_blk s"] mb8 brk by simp
  then show "alloc_at (first_blk t) (rs @ [(z, True)]) = (alloc_at (first_blk s) rs)(mem_brk s \<mapsto> z)"
    unfolding fb using alloc_at_append [OF ok, of "first_blk s" "[(z, True)]"] mb8 brk
    by (auto simp: map_add_def fun_eq_iff split: option.splits)
  show "keeps s t (alloc_at (first_blk s) rs)"
  proof -
    have "mem t w = mem s w" if "w \<notin> {mem_start_brk s..<mem_brk t}" for w
      using that by (intro same) (auto simp: t_def first_blk_def brk)
    then show ?thesis using pay by (auto simp: keeps_def same_in_def t_def)
  qed
qed

end

end
