(* ===== verification/Mm_Malloc.thy ===== *)
theory Mm_Malloc
  imports Mm_Free
begin

text \<open>Extending the heap and allocating: \<^verbatim>\<open>extend_heap\<close> and \<^verbatim>\<open>do_mm_malloc\<close>.\<close>

lemma unat_and_not7: "unat (x AND NOT 7) = unat x div 8 * 8" for x :: uint32
proof -
  have "x AND NOT 7 = shl (shr x 3) 3"
    unfolding seven_mask by (rule bit_word_eqI) (auto simp: bit_simps)
  moreover have "unat (shr x 3) * 2 ^ 3 < 2 ^ LENGTH(32)"
    using unat32_less [of x] by (simp add: unat_shr)
  ultimately show ?thesis by (simp add: unat_shl unat_shr)
qed

lemma unat_align: "unat (align sz) = (unat sz + 7) mod 2 ^ 32 div 8 * 8"
  by (simp add: align_def ALIGNMENT_def unat_and_not7 [simplified] unat_word_ariths)

lemma unat_max: "unat (max x y) = max (unat x) (unat y)" for x y :: "'a::len word"
  by (simp add: max_def word_le_nat_alt)

lemma sint_neg32: "sint (x :: 32 word) < 0 \<longleftrightarrow> 2 ^ 31 \<le> unat x"
proof (cases "unat x < 2 ^ 31")
  case True
  then show ?thesis by (simp add: sint_nonneg32)
next
  case False
  moreover have "0 \<le> sint x \<Longrightarrow> unat x < 2 ^ 31"
    using unat_of_sint_nonneg [of x] int32_range(2) [of x] by auto
  ultimately show ?thesis by linarith
qed

lemma align_mult:
  assumes "8 dvd x" "x < 2 ^ 32"
  shows "unat (align (of_nat x)) = x"
proof -
  obtain q where q: "x = 8 * q" using assms(1) ..
  then have "8 * q < 4294967296" using assms(2) by simp
  then have "8 * q + 7 < 4294967296" by presburger
  moreover have "unat (of_nat x :: uint32) = x" using assms(2) by (intro unat_of_nat_less) simp
  ultimately show ?thesis by (simp add: unat_align q)
qed

context free_list
begin

lemma unat_mb: "unat (MIN_BLOCK_SIZE ops) = mb"
  using mb_ok by (auto simp: min_block min_size_ok_def)

lemma extend_fails:
  assumes z: "z = max (unat (align sz)) mb" and I: "mm_inv mb fli s rs"
    and no: "2 ^ 31 \<le> z \<or> mem_max_addr s < mem_brk s + z"
  shows "extend_heap ops sz s = Inr (None, s)"
proof -
  let ?w = "max (align sz) (MIN_BLOCK_SIZE ops)"
  have w: "unat ?w = z" by (simp add: z unat_max unat_mb)
  have "mem_brk s \<le> 2 ^ 31" using I by (auto simp: mm_inv_def heap_rep_def layout_def)
  then have "sint ?w < 0 \<or> mem_max_addr s < (mem_brk s + unat ?w) mod 2 ^ 32"
    using no by (cases "2 ^ 31 \<le> z") (auto simp: sint_neg32 w)
  then show ?thesis by (auto simp: extend_heap_def mem_sbrk_def Let_def)
qed

lemma extend_spec:
  assumes I: "mm_inv mb fli s rs" and z: "z = max (unat (align sz)) mb" "z < 2 ^ 31"
    and room: "mem_brk s + z \<le> mem_max_addr s"
  shows "\<exists>s' pre N post. extend_heap ops sz s = Inr (Some (first_blk s + blen pre), s') \<and>
    mm_inv mb fli s' (pre @ (N, False) # post) \<and> N = (if lst True rs then 0 else fst (last rs)) + z \<and>
    alloc_at (first_blk s) (pre @ (N, False) # post) = alloc_at (first_blk s) rs \<and>
    keeps s s' (alloc_at (first_blk s) rs) \<and> first_blk s' = first_blk s \<and>
    pre = (if lst True rs then rs else butlast rs) \<and> post = [] \<and> mem_brk s' = mem_brk s + z"
proof -
  let ?w = "max (align sz) (MIN_BLOCK_SIZE ops)" and ?a = "first_blk s" and ?old = "mem_brk s" and ?pf = "lst True rs"
  have w: "unat ?w = z" by (simp add: z unat_max unat_mb)
  have wz: "?w = of_nat z" by (rule word_eq_of_unat [OF w])
  have lay: "layout s" and rep: "heap_rep mb s rs" using I by (simp_all add: mm_inv_def)
  have z8: "8 dvd z" using mb_ok by (auto simp: z unat_align max_def min_size_ok_def)
  have mz: "mb \<le> z" by (simp add: z)
  note mb8 = min_size_pos [OF mb_ok]
  define t where "t = s\<lparr>mem_brk := ?old + z, block_tail := ?old + z,
    mem := (mem s)(?old - 4 := hdr z ?pf True, ?old + z - 4 := hdr 0 True True)\<rparr>"
  note gi = grow_inv [OF I mz z8 room, folded t_def]
  have brk: "?old = ?a + blen rs" "?old \<le> 2 ^ 31" and tl: "mem s (?old - 4) = hdr 0 ?pf True"
    using rep lay by (auto simp: heap_rep_def layout_def)
  have a16: "16 \<le> ?a" by (simp add: first_blk_def)
  define m where "m = (mem s)(?old - 4 := hdr z ?pf False, ?old + z - 8 := hdr z ?pf False)"
  have m: "m (?old - 4) = hdr z ?pf False" "m (?old + z - 8) = hdr z ?pf False"
    "\<And>w. w + 4 < ?old \<or> ?old + z < w + 4 \<Longrightarrow> m w = mem t w"
    using mz mb8 a16 brk(1) by (auto simp: m_def t_def)
  obtain m' m2 pre N post b where r: "free_list_insert ops ?old (t\<lparr>mem := m\<rparr>) = Inr (t\<lparr>mem := m'\<rparr>)"
      "coalesce ops ?old (t\<lparr>mem := m'(?old + z - 4 := hdr 0 False True)\<rparr>) = Inr (b, t\<lparr>mem := m2\<rparr>)"
      "mm_inv mb fli (t\<lparr>mem := m2\<rparr>) (pre @ (N, False) # post)" "b = first_blk t + blen pre"
      "alloc_at (first_blk t) (pre @ (N, False) # post) = (alloc_at (first_blk t) (rs @ [(z, True)]))(?old := None)"
      "keeps t (t\<lparr>mem := m2\<rparr>) ((alloc_at (first_blk t) (rs @ [(z, True)]))(?old := None))"
      "N = (if ?pf then 0 else fst (last rs)) + z" "pre = (if ?pf then rs else butlast rs)" "post = []"
    using release_spec [OF gi(1,3) refl m] by auto
  let ?t1 = "s\<lparr>mem_brk := ?old + z, block_tail := ?old + z\<rparr>"
  have sb: "mem_sbrk ?w s = (Some ?old, s\<lparr>mem_brk := ?old + z\<rparr>)"
    using room z(2) brk(2) lay by (auto simp: mem_sbrk_def Let_def sint_neg32 w layout_def)
  have pa: "get_prev_alloc (?old - 4) ?t1 = of_bool ?pf"
    using hdr_get(3) [of ?t1 "?old - 4" 0 ?pf True] tl by (simp add: bsize_def)
  let ?t2 = "s\<lparr>mem_brk := ?old + z, block_tail := ?old + z, mem := (mem s)(?old - 4 := hdr z ?pf False)\<rparr>"
  have bz: "bsize z" using z8 z(2) by (simp add: bsize_def)
  have sy: "sync_footer ?old ?t2 = t\<lparr>mem := m\<rparr>"
    using hdr_get(1) [of ?t2 "?old - 4" z ?pf False] bz
    by (simp add: sync_footer_def footer_ptr_def header_ptr_def m_def t_def)
  have sm: "set_meta (?old - 4) (of_nat z) (of_bool ?pf) 0 ?t1 = ?t2"
    using hdr_set(1) [of "?old - 4" z ?pf False ?t1] by simp
  have bt: "block_tail (t\<lparr>mem := m'\<rparr>) = ?old + z" by (simp add: t_def)
  have "extend_heap ops sz s = Inr (Some b, t\<lparr>mem := m2\<rparr>)"
    unfolding extend_heap_def Let_def sb wz prod.case option.case header_ptr_def
    by (simp add: sb [unfolded wz] bz pa sm sy r(1) bt hdr_set r(2))
  moreover have "alloc_at ?a (pre @ (N, False) # post) = alloc_at ?a rs"
    using r(5) gi(2,4,5) by (simp add: fun_upd_idem)
  moreover have "keeps s (t\<lparr>mem := m2\<rparr>) (alloc_at ?a rs)"
    by (rule keeps_trans [OF gi(6) r(6)]) (use gi(2,4,5) in auto)
  moreover have "first_blk (t\<lparr>mem := m2\<rparr>) = ?a" using gi(2) by (simp add: first_blk_def)
  moreover have "mem_brk (t\<lparr>mem := m2\<rparr>) = ?old + z" by (simp add: t_def)
  ultimately show ?thesis using r(3,4,7,8,9) gi(2)
    by (intro exI [of _ "t\<lparr>mem := m2\<rparr>"] exI [of _ pre] exI [of _ N] exI [of _ post]) simp
qed

definition request :: "nat \<Rightarrow> nat" where
  "request sz = max ((sz + 11) div 8 * 8) mb"

lemma request_facts: "sz + 4 \<le> request sz" "8 dvd request sz" "mb \<le> request sz"
  using mb_ok by (auto simp: request_def max_def min_size_ok_def)

lemma alloc_size_eq:
  assumes "unat sz + 11 < 2 ^ 32"
  shows "max (align (sz + sizeof_size_t)) (MIN_BLOCK_SIZE ops) = of_nat (request (unat sz))" "request (unat sz) < 2 ^ 32"
proof -
  have "unat (sz + 4) = unat sz + 4" using assms by (simp add: unat_word_ariths)
  then have "unat (max (align (sz + 4)) (MIN_BLOCK_SIZE ops)) = request (unat sz)"
    using assms by (simp add: unat_max unat_mb unat_align request_def add.commute)
  then show "max (align (sz + sizeof_size_t)) (MIN_BLOCK_SIZE ops) = of_nat (request (unat sz))"
    by (rule word_eq_of_unat)
  show "request (unat sz) < 2 ^ 32" using assms mb_ok by (auto simp: request_def min_size_ok_def)
qed

lemma free_at_mid:
  assumes "mm_inv mb fli s (pre @ (N, False) # post)"
  shows "free_at (first_blk s) (pre @ (N, False) # post) (first_blk s + blen pre) = Some N"
proof -
  have "layout s" "heap_rep mb s (pre @ [(N, False)] @ post)" using assms by (simp_all add: mm_inv_def)
  from split_facts(14) [OF mb_ok this refl refl] show ?thesis by simp
qed

text \<open>The word that \<^verbatim>\<open>do_mm_malloc\<close> passes to \<^verbatim>\<open>extend_heap\<close>: what the last block, if it is free, does not cover.\<close>

lemma extend_size_eq:
  assumes I: "mm_inv mb fli s rs" and none: "\<forall>bp n. free_at (first_blk s) rs bp = Some n \<longrightarrow> n < k"
    and d: "d = (if lst True rs then 0 else fst (last rs))"
  shows "(if get_prev_alloc (header_ptr (block_tail s)) s = 0
          then of_nat k - get_size (prev_footer_ptr (block_tail s)) s else of_nat k) = (of_nat (k - d) :: uint32)"
    and "8 dvd d" "d \<le> k"
proof -
  have lay: "layout s" and rep: "heap_rep mb s rs" using I by (simp_all add: mm_inv_def)
  have tl: "block_tail s = first_blk s + blen rs" "mem s (first_blk s + blen rs - 4) = hdr 0 (lst True rs) True"
    using rep by (simp_all add: heap_rep_def)
  then have pa: "get_prev_alloc (header_ptr (block_tail s)) s = of_bool (lst True rs)"
    by (simp add: header_ptr_def hdr_get bsize_def)
  have "(if get_prev_alloc (header_ptr (block_tail s)) s = 0
        then of_nat k - get_size (prev_footer_ptr (block_tail s)) s else of_nat k) = (of_nat (k - d) :: uint32) \<and> 8 dvd d \<and> d \<le> k"
  proof (cases "lst True rs")
    case True
    then show ?thesis by (simp add: pa d)
  next
    case False
    then obtain pre q where "rs = pre @ [q]" by (cases rs rule: rev_cases) auto
    with False d have rs: "rs = pre @ (d, False) # []" by (cases q) auto
    note hb = heap_block [OF mb_ok lay rep [unfolded rs] refl]
    have fr: "free_at (first_blk s) rs (first_blk s + blen pre) = Some d" using free_at_mid I unfolding rs by blast
    then have "d < k" using none by blast
    have "mem s (block_tail s - 8) = hdr d (lst True pre) False" using hb(5) by (simp add: tl(1) rs add.assoc)
    then have "get_size (prev_footer_ptr (block_tail s)) s = of_nat d"
      using hb(2) by (simp add: prev_footer_ptr_def hdr_get)
    moreover have "8 dvd d" using hb(2) by (simp add: bsize_def)
    ultimately show ?thesis using False \<open>d < k\<close> of_nat_diff32 [of d k] pa by simp
  qed
  then show "(if get_prev_alloc (header_ptr (block_tail s)) s = 0
          then of_nat k - get_size (prev_footer_ptr (block_tail s)) s else of_nat k) = (of_nat (k - d) :: uint32)"
    "8 dvd d" "d \<le> k" by blast+
qed

lemma place_at:
  assumes I: "mm_inv mb fli s rs" and p: "free_at (first_blk s) rs p = Some n"
    and k: "mb \<le> k" "k \<le> n" "8 dvd k"
  shows "\<exists>s' rs' n'. place ops p (of_nat k) s = Inr s' \<and> mm_inv mb fli s' rs' \<and> first_blk s' = first_blk s \<and>
    k \<le> n' \<and> alloc_at (first_blk s) rs p = None \<and>
    alloc_at (first_blk s) rs' = (alloc_at (first_blk s) rs)(p \<mapsto> n') \<and> keeps s s' (alloc_at (first_blk s) rs) \<and>
    mem_brk s' = mem_brk s"
proof -
  obtain us vs where rs: "rs = us @ (n, False) # vs" and pa: "p = first_blk s + blen us" using free_at_list [OF p] by blast
  have lay: "layout s" and rep: "heap_rep mb s (us @ [(n, False)] @ vs)" using I rs by (simp_all add: mm_inv_def)
  note sf = split_facts [OF mb_ok lay rep pa refl]
  have "alloc_at (first_blk s) rs p = None"
    using sf(15) outer_alloc_None [OF mb_ok sf(2,4), of "first_blk s" p "p + n"] sf(3) min_size_pos [OF mb_ok]
    by (simp add: rs pa)
  moreover have "first_blk (s\<lparr>mem := m'\<rparr>) = first_blk s" "mem_brk (s\<lparr>mem := m'\<rparr>) = mem_brk s" for m' by (simp_all add: first_blk_def)
  ultimately show ?thesis using place_spec [OF I [unfolded rs] pa k] unfolding rs by (metis (no_types, lifting))
qed

definition mallocs :: "mm_state \<Rightarrow> (nat \<Rightarrow> nat option) \<Rightarrow> nat \<Rightarrow> nat option \<times> mm_state \<Rightarrow> bool" where
  "mallocs s A sz r \<longleftrightarrow>
     (case r of
        (None, s') \<Rightarrow> s' = s \<and> mem_max_addr s < mem_brk s + request sz
      | (Some p, s') \<Rightarrow> \<exists>rs' n. mm_inv mb fli s' rs' \<and> first_blk s' = first_blk s \<and> A p = None \<and> sz + 4 \<le> n \<and>
          alloc_at (first_blk s) rs' = A(p \<mapsto> n) \<and> keeps s s' A \<and> mem_brk s' \<le> mem_brk s + request sz)"

lemma malloc_spec:
  assumes I: "mm_inv mb fli s rs" and sz: "0 < unat sz" "unat sz + 11 < 2 ^ 32"
  shows "\<exists>r. do_mm_malloc ops sz s = Inr r \<and> mallocs s (alloc_at (first_blk s) rs) (unat sz) r"
proof -
  let ?a = "first_blk s" and ?k = "request (unat sz)"
  note rf = request_facts [of "unat sz"] and as = alloc_size_eq [OF sz(2)]
  have lay: "layout s" and rep: "heap_rep mb s rs" and fl: "fli (mem s) (list_addr s) (free_at ?a rs)"
    using I by (simp_all add: mm_inv_def)
  have uk: "unat (of_nat ?k :: uint32) = ?k" using as(2) by (intro unat_of_nat_less) simp
  have sz0: "sz \<noteq> 0" using sz(1) by auto
  obtain r where r: "find_fit ops (of_nat ?k) s = Inr r"
    "case r of Some bp \<Rightarrow> \<exists>n. free_at ?a rs bp = Some n \<and> ?k \<le> n
     | None \<Rightarrow> \<forall>bp n. free_at ?a rs bp = Some n \<longrightarrow> n < ?k"
    using find_fit [OF lay rep fl, of "of_nat ?k"] rf(3) unfolding uk by blast
  show ?thesis
  proof (cases r)
    case (Some bp)
    then obtain n where n: "free_at ?a rs bp = Some n" "?k \<le> n" using r(2) by auto
    obtain s' rs' n' where pl: "place ops bp (of_nat ?k) s = Inr s'" "mm_inv mb fli s' rs'" "first_blk s' = ?a" "?k \<le> n'"
      "alloc_at ?a rs bp = None" "alloc_at ?a rs' = (alloc_at ?a rs)(bp \<mapsto> n')" "keeps s s' (alloc_at ?a rs)"
      "mem_brk s' = mem_brk s"
      using place_at [OF I n(1) rf(3) n(2) rf(2)] by blast
    have "do_mm_malloc ops sz s = Inr (Some bp, s')"
      using sz0 r(1) Some pl(1) by (simp add: do_mm_malloc_def as Let_def)
    moreover have "unat sz + 4 \<le> n'" using rf(1) pl(4) by simp
    ultimately show ?thesis using pl by (auto simp: mallocs_def)
  next
    case None
    define d z where "d = (if lst True rs then 0 else fst (last rs))" and "z = max (?k - d) mb"
    have "\<forall>bp n. free_at ?a rs bp = Some n \<longrightarrow> n < ?k" using r(2) None by simp
    note es = extend_size_eq [OF I this d_def]
    have "unat (align (of_nat (?k - d))) = ?k - d"
      using rf(2) es(2) as(2) by (intro align_mult dvd_diff_nat) simp_all
    then have z: "z = max (unat (align (of_nat (?k - d)))) mb" by (simp add: z_def)
    have zk: "z \<le> ?k" "?k \<le> d + z" using rf(3) es(3) by (auto simp: z_def)
    have run: "do_mm_malloc ops sz s = sbind (extend_heap ops (of_nat (?k - d)) s) (\<lambda>(r, s).
        case r of None \<Rightarrow> Inr (None, s) | Some bp \<Rightarrow> sbind (place ops bp (of_nat ?k) s) (\<lambda>s. Inr (Some bp, s)))"
      using sz0 r(1) None es(1) by (simp add: do_mm_malloc_def as Let_def)
    show ?thesis
    proof (cases "z < 2 ^ 31 \<and> mem_brk s + z \<le> mem_max_addr s")
      case False
      then have ef: "extend_heap ops (of_nat (?k - d)) s = Inr (None, s)" by (intro extend_fails [OF z I]) auto
      have "mem_max_addr s \<le> 2 ^ 31" "16 \<le> mem_brk s" using lay rep by (auto simp: layout_def heap_rep_def first_blk_def)
      then have "mem_max_addr s < mem_brk s + ?k" using False zk(1) by linarith
      then show ?thesis using run ef by (simp add: mallocs_def)
    next
      case True
      then obtain t pre N post where ex: "extend_heap ops (of_nat (?k - d)) s = Inr (Some (?a + blen pre), t)"
        "mm_inv mb fli t (pre @ (N, False) # post)" "N = d + z" "alloc_at ?a (pre @ (N, False) # post) = alloc_at ?a rs"
        "keeps s t (alloc_at ?a rs)" "first_blk t = ?a" "mem_brk t = mem_brk s + z"
        using extend_spec [OF I z] unfolding d_def by blast
      have "free_at (first_blk t) (pre @ (N, False) # post) (?a + blen pre) = Some N" using free_at_mid [OF ex(2)] ex(6) by simp
      from place_at [OF ex(2) this rf(3) _ rf(2)] zk(2) ex(3,4,6)
      obtain s' rs' n' where pl: "place ops (?a + blen pre) (of_nat ?k) t = Inr s'" "mm_inv mb fli s' rs'" "first_blk s' = ?a" "?k \<le> n'"
        "alloc_at ?a rs (?a + blen pre) = None" "alloc_at ?a rs' = (alloc_at ?a rs)(?a + blen pre \<mapsto> n')"
        "keeps t s' (alloc_at ?a rs)" "mem_brk s' = mem_brk t"
        by auto
      have "do_mm_malloc ops sz s = Inr (Some (?a + blen pre), s')" using run ex(1) pl(1) by simp
      moreover have "keeps s s' (alloc_at ?a rs)" by (rule keeps_trans [OF ex(5) pl(7)])
      moreover have "unat sz + 4 \<le> n'" using rf(1) pl(4) by simp
      moreover have "mem_brk s' \<le> mem_brk s + ?k" using pl(8) ex(7) zk(1) by simp
      ultimately show ?thesis using pl by (auto simp: mallocs_def)
    qed
  qed
qed

end

end
