(* ===== verification/Mm_Realloc.thy ===== *)
theory Mm_Realloc
  imports Mm_Malloc
begin

text \<open>
  Writes by the client into a block it owns, and resizing a block: \<^verbatim>\<open>do_mm_realloc\<close> with its four ways
  of finding room (grow the heap, absorb the next free block, split, move).
\<close>

section \<open>Copying\<close>

text \<open>The first \<open>c\<close> bytes at \<open>q\<close> in \<open>m'\<close> are those at \<open>p\<close> in \<open>m\<close>: word by word, the last word up to its
low \<open>c - i\<close> bytes.\<close>

definition copied :: "(nat \<Rightarrow> uint32) \<Rightarrow> nat \<Rightarrow> (nat \<Rightarrow> uint32) \<Rightarrow> nat \<Rightarrow> nat \<Rightarrow> bool" where
  "copied m p m' q c \<longleftrightarrow> (\<forall>i. 4 dvd i \<and> i < c \<longrightarrow> take_bit (8 * (c - i)) (m' (q + i)) = take_bit (8 * (c - i)) (m (p + i)))"

lemma copied_words:
  assumes "\<And>i. i < c \<Longrightarrow> 4 dvd i \<Longrightarrow> m' (q + i) = m (p + i)"
  shows "copied m p m' q c"
  using assms by (simp add: copied_def)

lemma copied_change:
  assumes "copied m p m' q c" "\<And>i. i < c \<Longrightarrow> 4 dvd i \<Longrightarrow> m0 (p + i) = m (p + i) \<and> m1 (q + i) = m' (q + i)"
  shows "copied m0 p m1 q c"
  using assms by (simp add: copied_def)

lemma take_bit_merge: "take_bit k ((x AND mask k) OR (y AND NOT (mask k))) = take_bit k x" for x y :: uint32
  by (rule bit_word_eqI) (auto simp: bit_simps)

lemma mm_memcpy_copied: "copied (mem s) src (mem (mm_memcpy dst src n s)) dst n"
  by (auto simp: copied_def mm_memcpy_def take_bit_merge simp del: take_bit_and take_bit_or)

lemma mm_memcpy_same: "a < dst \<or> dst + n \<le> a \<Longrightarrow> mem (mm_memcpy dst src n s) a = mem s a"
  by (auto simp: mm_memcpy_def)

lemma mm_memcpy_frame: "mm_memcpy dst src n s = s\<lparr>mem := mem (mm_memcpy dst src n s)\<rparr>"
  by (simp add: mm_memcpy_def)

section \<open>One block of a stretch\<close>

lemma keeps_block:
  assumes "keeps s s' (A(p := None))" "\<And>w. p \<le> w \<Longrightarrow> w + 4 < p + n \<Longrightarrow> mem s' w = mem s w"
  shows "keeps s s' (A(p \<mapsto> n))"
  using assms by (simp add: keeps_def payload_same_def) (metis option.inject)

lemma keeps_less: "keeps s s' A \<Longrightarrow> (\<And>b k. B b = Some k \<Longrightarrow> A b = Some k) \<Longrightarrow> keeps s s' B"
  by (simp add: keeps_def payload_same_def) blast

lemma payload_word: "keeps s s' A \<Longrightarrow> A p = Some n \<Longrightarrow> p \<le> w \<Longrightarrow> w + 4 < p + n \<Longrightarrow> mem s' w = mem s w"
  by (auto simp: keeps_def payload_same_def)

lemma keeps_shorter:
  assumes "keeps s s' (A(p \<mapsto> n'))" "A p = Some n" "n \<le> n'"
  shows "keeps s s' A"
proof -
  have "mem s' w = mem s w" if "A b = Some k" "b \<le> w" "w + 4 < b + k" for b k w
    using payload_word [OF assms(1), of p n' w] payload_word [OF assms(1), of b k w] assms(2,3) that by (cases "b = p") auto
  then have "payload_same (mem s) (mem s') A" unfolding payload_same_def by blast
  then show ?thesis using assms(1) by (simp add: keeps_def)
qed

lemma keeps_refl: "keeps s s A"
  by (simp add: keeps_def payload_same_def same_in_def)

lemma outer_alloc_one:
  assumes "min_size_ok mb" "layout s" "heap_rep mb s (us @ mid @ vs)"
    and b: "p = first_blk s + blen us" "e = p + blen mid" and mid: "alloc_at p mid = [p \<mapsto> n]" "p < e"
  shows "outer_alloc (first_blk s) us e vs = (alloc_at (first_blk s) (us @ mid @ vs))(p := None)"
proof -
  note sf = split_facts [OF assms(1-3) b]
  have "outer_alloc (first_blk s) us e vs p = None"
    using outer_alloc_None [OF assms(1) sf(2,4), of "first_blk s" p e] mid(2) b by simp
  then show ?thesis using sf(15) mid(1) by (auto simp: fun_eq_iff)
qed

section \<open>The stages of do_mm_realloc\<close>

definition realloc_grow :: "fl_ops \<Rightarrow> nat \<Rightarrow> uint32 \<Rightarrow> mm_state \<Rightarrow> (nat option \<times> mm_state) exec" where
  "realloc_grow ops p alloc_size s =
     (let next_bp = next_block p s;
          merged_size = get_size (header_ptr p) s + get_size (header_ptr next_bp) s
      in if (next_bp = block_tail s \<or> get_alloc (header_ptr next_bp) s = 0 \<and> next_block next_bp s = block_tail s) \<and>
            merged_size < alloc_size
         then extend_heap ops (alloc_size - merged_size) s else Inr (Some p, s))"

definition realloc_absorb :: "fl_ops \<Rightarrow> nat \<Rightarrow> nat \<Rightarrow> mm_state \<Rightarrow> mm_exec" where
  "realloc_absorb ops p next_bp s =
     (if get_alloc (header_ptr next_bp) s = 0
      then sbind (free_list_erase ops next_bp s) (\<lambda>s.
             let s = set_size (header_ptr p) (get_size (header_ptr p) s + get_size (header_ptr next_bp) s) s
             in Inr (set_prev_alloc (header_ptr (next_block p s)) 1 s))
      else Inr s)"

definition realloc_finish ::
  "fl_ops \<Rightarrow> nat \<Rightarrow> uint32 \<Rightarrow> uint32 \<Rightarrow> uint32 \<Rightarrow> mm_state \<Rightarrow> (nat option \<times> mm_state) exec" where
  "realloc_finish ops p sz old_size alloc_size s =
     (let this_size = get_size (header_ptr p) s
      in if alloc_size \<le> this_size
         then if alloc_size + MIN_BLOCK_SIZE ops \<le> this_size
              then let s = set_size (header_ptr p) alloc_size s;
                       next_bp = next_block p s;
                       s = set_meta (header_ptr next_bp) (this_size - alloc_size) 1 1 s
                   in sbind (do_mm_free ops (Some next_bp) s) (\<lambda>s. Inr (Some p, s))
              else Inr (Some p, s)
         else sbind (do_mm_malloc ops sz s) (\<lambda>(r, s).
                case r of None \<Rightarrow> Inr (None, s)
                | Some new_ptr \<Rightarrow>
                    let s = mm_memcpy new_ptr p (unat (min sz old_size)) s
                    in sbind (do_mm_free ops (Some p) s) (\<lambda>s. Inr (Some new_ptr, s))))"

lemma do_mm_realloc_stages:
  assumes "sz \<noteq> 0"
  shows "do_mm_realloc ops (Some p) sz s =
    (let alloc_size = max (align (sz + sizeof_size_t)) (MIN_BLOCK_SIZE ops);
         old_size = get_size (header_ptr p) s - sizeof_size_t;
         next_bp = next_block p s
     in sbind (realloc_grow ops p alloc_size s) (\<lambda>(r, s).
          case r of None \<Rightarrow> Inr (None, s)
          | Some _ \<Rightarrow> sbind (realloc_absorb ops p next_bp s) (realloc_finish ops p sz old_size alloc_size)))"
  unfolding do_mm_realloc_def realloc_grow_def realloc_absorb_def realloc_finish_def Let_def
  using assms by (simp only: option.case if_False)

context free_list
begin

section \<open>Client writes\<close>

lemma client_write:
  assumes I: "mm_inv mb fli s rs" and p: "alloc_at (first_blk s) rs p = Some n"
    and same: "\<And>w. w < p \<or> p + n \<le> w + 4 \<Longrightarrow> m' w = mem s w"
  shows "mm_inv mb fli (s\<lparr>mem := m'\<rparr>) rs \<and> keeps s (s\<lparr>mem := m'\<rparr>) ((alloc_at (first_blk s) rs)(p := None))"
proof -
  obtain us vs where rs: "rs = us @ (n, True) # vs" and pa: "p = first_blk s + blen us" using alloc_at_list [OF p] by blast
  have lay: "layout s" and rep0: "heap_rep mb s rs" and co: "coal True vs" "coal True rs"
    and fl: "fli (mem s) (list_addr s) (free_at (first_blk s) rs)"
    using I rs by (simp_all add: mm_inv_def)
  obtain X post k where X: "vs = X @ post" "snd (hd (post @ [tail_blk]))"
    "X = (if snd (hd (vs @ [tail_blk])) then [] else [(k, False)])"
    by (rule coal_split_back [OF co(1)])
  define mid e where "mid = (n, True) # X" and "e = p + blen mid"
  have Xc: "X = [] \<or> X = [(k, False)]" using X(3) by auto
  have rsm: "rs = us @ mid @ post" by (simp add: rs mid_def X(1))
  have rep: "heap_rep mb s (us @ mid @ post)" using rep0 rsm by simp
  note sf = split_facts [OF mb_ok lay rep pa e_def]
  note mb8 = min_size_pos [OF mb_ok]
  have n: "mb \<le> n" "16 \<le> p" "X = [(k, False)] \<Longrightarrow> mb \<le> k" using sf(3,8) by (auto simp: mid_def first_blk_def)
  have e: "e = p + n + blen X" by (simp add: e_def mid_def)
  have al: "alloc_at p mid = [p \<mapsto> n]" using Xc by (auto simp: mid_def)
  have "same_in (mem s) m' (- touched mb (list_addr s) {} p e)"
    using n mb8 by (auto simp: same_in_def touched_def e intro!: same)
  moreover have "seg m' p (lst True us) mid"
  proof -
    have "m' (p - 4) = mem s (p - 4)" "m' (p + n - 4) = mem s (p + n - 4)"
      "X = [(k, False)] \<Longrightarrow> m' (p + n + k - 8) = mem s (p + n + k - 8)"
      using n mb8 by (auto intro!: same)
    then show ?thesis using sf(10) Xc by (auto simp: mid_def)
  qed
  moreover have "m' (e - 4) = hdr (fst (hd (post @ [tail_blk]))) (lst (lst True us) mid) True"
    using seg_hd [OF sf(11)] X(2) n mb8 by (subst same) (auto simp: e)
  moreover have "fli m' (list_addr s) (outer_free (first_blk s) us e post ++ free_at p mid)"
  proof (rule inv_stretch [OF _ sf(2,4) pa sf(6)])
    show "fli (mem s) (list_addr s) (outer_free (first_blk s) us e post ++ free_at p mid)" using fl rsm sf(14) by simp
    show "dom (outer_free (first_blk s) us e post ++ free_at p mid) \<subseteq> dom (outer_free (first_blk s) us e post) \<union> {p + n..}"
      using Xc by (auto simp: mid_def split: if_splits)
    show "m' w = mem s w" if "w + 4 < p \<or> e < w + 4 \<or> w \<in> link_slots mb {p + n..}" for w
      using that by (intro same) (auto simp: e link_slots_iff)
  qed
  ultimately have "mm_inv mb fli (s\<lparr>mem := m'\<rparr>) (us @ mid @ post) \<and> keeps s (s\<lparr>mem := m'\<rparr>) (outer_alloc (first_blk s) us e post)"
    using stretch_done [OF mb_ok lay rep pa e_def _ X(2), of m' "{}" mid fli] sf(3) co(2) n mb8
    by (auto simp: rsm e)
  then show ?thesis
    using outer_alloc_one [OF mb_ok lay rep pa e_def al] n mb8 by (simp add: rsm e)
qed

section \<open>Absorbing the next free block, and splitting\<close>

lemma absorb_spec:
  assumes I: "mm_inv mb fli s (us @ (n, True) # (j, False) # post)" and p: "p = first_blk s + blen us"
  defines "A \<equiv> alloc_at (first_blk s) (us @ (n, True) # (j, False) # post)"
  shows "\<exists>m'. sbind (free_list_erase ops (p + n) s) (\<lambda>s.
      let s = set_size (header_ptr p) (get_size (header_ptr p) s + get_size (header_ptr (p + n)) s) s
      in Inr (set_prev_alloc (header_ptr (next_block p s)) 1 s)) = Inr (s\<lparr>mem := m'\<rparr>) \<and>
    mm_inv mb fli (s\<lparr>mem := m'\<rparr>) (us @ (n + j, True) # post) \<and>
    alloc_at (first_blk s) (us @ (n + j, True) # post) = A(p \<mapsto> n + j) \<and> keeps s (s\<lparr>mem := m'\<rparr>) A"
proof -
  define e L where "e = p + n + j" and "L = list_addr s"
  let ?mid = "[(n, True), (j, False)]"
  have lay: "layout s" and rep: "heap_rep mb s (us @ ?mid @ post)" and co: "coal True us" "coal False post"
    and fl: "fli (mem s) L (free_at (first_blk s) (us @ ?mid @ post))"
    using I by (simp_all add: mm_inv_def L_def)
  have ee: "e = p + blen ?mid" by (simp add: e_def)
  note sf = split_facts [OF mb_ok lay rep p ee, folded L_def] and mb8 = min_size_pos [OF mb_ok]
  define U where "U = outer_free (first_blk s) us e post"
  let ?h = "fst (hd (post @ [tail_blk]))" and ?pf = "lst True us"
  have n: "mb \<le> n" "mb \<le> j" "8 dvd n" "8 dvd j" "16 \<le> p" "e \<le> 2 ^ 31" and bs: "bsize n" "bsize j" "bsize (n + j)"
    using sf(3,5,8) by (auto simp: bsize_def first_blk_def e_def)
  have nxt: "snd (hd (post @ [tail_blk]))" by (rule coal_hd [OF co(2)])
  have F: "free_at (first_blk s) (us @ ?mid @ post) = U(p + n \<mapsto> j)" using sf(14) by (simp add: U_def)
  have Un: "U (p + n) = None"
    unfolding U_def using outer_free_None [OF mb_ok sf(2,4), of "first_blk s" "p + n" e] n mb8 p by (simp add: e_def)
  obtain m1 where er: "free_list_erase ops (p + n) s = Inr (s\<lparr>mem := m1\<rparr>)" and fl1: "fli m1 L U"
    and sm1: "same_in (mem s) m1 (- ({L..<L + 80} \<union> link_slots mb (insert (p + n) (dom U))))"
    using erase [OF fl [unfolded L_def], of "p + n", folded L_def] Un unfolding F by (auto simp: fun_upd_idem)
  have w1: "m1 w = mem s w" if "p \<le> w + 4" "w + 4 \<le> e" "mb = 8 \<or> w < p + n \<or> p + n + 8 \<le> w" for w
  proof -
    have "w \<notin> {L..<L + 80}" "w \<notin> link_slots mb (dom U)"
      using that(1,2) sf(6,8) outer_slots [OF mb_ok sf(2,4) p, of w e] by (auto simp: U_def)
    then show ?thesis using sm1 that(3) by (auto simp: same_in_def link_slots_iff)
  qed
  have mbj: "mb = 8 \<or> 16 \<le> j" using mb_ok n(2) by (auto simp: min_size_ok_def)
  have h1: "m1 (p - 4) = hdr n ?pf True" "m1 (p + n - 4) = hdr j True False" "m1 (e - 4) = hdr ?h False True"
    by (subst w1; use sf(10) seg_hd [OF sf(11)] nxt n mb8 mbj in \<open>auto simp: e_def\<close>)+
  define m2 where "m2 = m1(p - 4 := hdr (n + j) ?pf True, e - 4 := hdr ?h True True)"
  let ?s1 = "s\<lparr>mem := m1\<rparr>"
  let ?s2 = "st32 (p - 4) (hdr (n + j) ?pf True) ?s1"
  have gs: "get_size (p - 4) ?s1 = of_nat n" "get_size (p + n - 4) ?s1 = of_nat j"
    using hdr_get(1) [of ?s1 "p - 4"] hdr_get(1) [of ?s1 "p + n - 4"] h1 bs by simp_all
  have ss: "set_size (p - 4) (of_nat (n + j)) ?s1 = ?s2"
    using hdr_upd(1) [of ?s1 "p - 4" n ?pf True "n + j"] h1 bs by simp
  have nb: "next_block p ?s2 = e"
    using hdr_get(1) [of ?s2 "p - 4" "n + j" ?pf True] bs unat_bsize [OF bs(3)]
    by (simp add: next_block_def header_ptr_def e_def del: of_nat_add)
  have hb: "bsize ?h" using sf(4,5) by (cases post) (auto simp: bsize_def)
  have ne: "p - 4 \<noteq> e - 4" using n mb8 by (simp add: e_def)
  have sp: "set_prev_alloc (e - 4) 1 ?s2 = s\<lparr>mem := m2\<rparr>"
    using hdr_upd(2) [of ?s2 "e - 4" ?h False True] h1(3) hb ne by (simp add: m2_def)
  have run: "sbind (free_list_erase ops (p + n) s) (\<lambda>s.
      let s = set_size (header_ptr p) (get_size (header_ptr p) s + get_size (header_ptr (p + n)) s) s
      in Inr (set_prev_alloc (header_ptr (next_block p s)) 1 s)) = Inr (s\<lparr>mem := m2\<rparr>)"
    by (simp only: er sbind_simps Let_def header_ptr_def gs of_nat_add [symmetric] ss nb sp)
  have fl2: "fli m2 L U"
    by (rule inv_stretch [OF fl1 sf(2,4) p sf(6), where M = "{}"])
      (use n mb8 in \<open>auto simp: m2_def e_def U_def link_slots_iff\<close>)
  have sm2: "same_in (mem s) m2 (- touched mb L (insert (p + n) (dom U)) p e)"
    unfolding m2_def by (intro touched_store touched_links [OF touched_refl sm1]) (use n mb8 in \<open>auto simp: e_def\<close>)
  have fin: "mm_inv mb fli (s\<lparr>mem := m2\<rparr>) (us @ [(n + j, True)] @ post) \<and>
      keeps s (s\<lparr>mem := m2\<rparr>) (outer_alloc (first_blk s) us e post) \<and>
      alloc_at (first_blk s) (us @ [(n + j, True)] @ post) = outer_alloc (first_blk s) us e post ++ alloc_at p [(n + j, True)]"
    by (rule stretch_done [OF mb_ok lay rep p ee _ nxt sm2 [unfolded L_def]])
      (use n mb8 fl2 co coal_weaken nxt ne in \<open>auto simp: U_def m2_def e_def L_def\<close>)
  have A: "outer_alloc (first_blk s) us e post = A(p := None)"
    using outer_alloc_one [OF mb_ok lay rep p ee, of n] n mb8 by (auto simp: A_def e_def)
  have "A p = Some n" using sf(15) by (simp add: A_def)
  moreover have "keeps s (s\<lparr>mem := m2\<rparr>) (A(p \<mapsto> n))"
  proof (rule keeps_block)
    show "keeps s (s\<lparr>mem := m2\<rparr>) (A(p := None))" using fin A by simp
    fix w assume "p \<le> w" "w + 4 < p + n"
    then have "w \<noteq> p - 4" "w \<noteq> e - 4" "m1 w = mem s w" using n mb8 by (auto simp: e_def intro!: w1)
    then show "mem (s\<lparr>mem := m2\<rparr>) w = mem s w" by (simp add: m2_def)
  qed
  ultimately show ?thesis using run fin A by (intro exI [of _ m2] conjI) (auto simp: fun_upd_idem)
qed

lemma shrink_inv:
  assumes I: "mm_inv mb fli s (us @ (n, True) # vs)" and p: "p = first_blk s + blen us"
    and nxt: "snd (hd (vs @ [tail_blk]))" and k: "mb \<le> k" "8 dvd k" "k + mb \<le> n"
  defines "A \<equiv> alloc_at (first_blk s) (us @ (n, True) # vs)"
    and "m' \<equiv> (mem s)(p - 4 := hdr k (lst True us) True, p + k - 4 := hdr (n - k) True True)"
  shows "mm_inv mb fli (s\<lparr>mem := m'\<rparr>) (us @ (k, True) # (n - k, True) # vs)"
    "alloc_at (first_blk s) (us @ (k, True) # (n - k, True) # vs) = A(p \<mapsto> k, p + k \<mapsto> n - k)"
    "keeps s (s\<lparr>mem := m'\<rparr>) (A(p \<mapsto> k))" "A (p + k) = None"
proof -
  define e where "e = p + n"
  have lay: "layout s" and rep: "heap_rep mb s (us @ [(n, True)] @ vs)" and co: "coal True (us @ (n, True) # vs)"
    and fl: "fli (mem s) (list_addr s) (free_at (first_blk s) (us @ [(n, True)] @ vs))"
    using I by (simp_all add: mm_inv_def)
  have ee: "e = p + blen [(n, True)]" by (simp add: e_def)
  note sf = split_facts [OF mb_ok lay rep p ee] and mb8 = min_size_pos [OF mb_ok]
  have n: "16 \<le> p" "8 dvd n" "p + k < e" "8 dvd n - k" using sf(3,8) k mb8 by (auto simp: first_blk_def e_def dvd_diff_nat)
  have fl': "fli m' (list_addr s) (outer_free (first_blk s) us e vs)"
    by (rule inv_stretch [OF _ sf(2,4) p sf(6), where M = "{}" and m = "mem s"])
      (use fl sf(14) n k mb8 in \<open>auto simp: m'_def e_def link_slots_iff\<close>)
  have "m' (e - 4) = mem s (e - 4)" using n k mb8 by (auto simp: m'_def)
  moreover have "same_in (mem s) m' (- touched mb (list_addr s) {} p e)"
    unfolding m'_def by (intro touched_store touched_refl) (use n k mb8 in auto)
  ultimately have fin: "mm_inv mb fli (s\<lparr>mem := m'\<rparr>) (us @ [(k, True), (n - k, True)] @ vs) \<and>
      keeps s (s\<lparr>mem := m'\<rparr>) (outer_alloc (first_blk s) us e vs) \<and>
      alloc_at (first_blk s) (us @ [(k, True), (n - k, True)] @ vs) = outer_alloc (first_blk s) us e vs ++ alloc_at p [(k, True), (n - k, True)]"
    by (intro stretch_done [OF mb_ok lay rep p ee _ nxt])
      (use fl' n k mb8 co seg_hd [OF sf(11)] nxt in \<open>auto simp: m'_def e_def\<close>)
  have A: "outer_alloc (first_blk s) us e vs = A(p := None)"
    using outer_alloc_one [OF mb_ok lay rep p ee, of n] n by (auto simp: A_def)
  show "mm_inv mb fli (s\<lparr>mem := m'\<rparr>) (us @ (k, True) # (n - k, True) # vs)" using fin by simp
  show "alloc_at (first_blk s) (us @ (k, True) # (n - k, True) # vs) = A(p \<mapsto> k, p + k \<mapsto> n - k)"
    using fin A k mb8 by (auto simp: fun_eq_iff)
  show "A (p + k) = None"
    using outer_alloc_None [OF mb_ok sf(2,4), of "first_blk s" "p + k" e] n k mb8 p fun_cong [OF A, of "p + k"] by simp
  show "keeps s (s\<lparr>mem := m'\<rparr>) (A(p \<mapsto> k))"
    by (rule keeps_block) (use fin A n k mb8 in \<open>auto simp: m'_def\<close>)
qed

section \<open>Resizing\<close>

definition reallocs :: "mm_state \<Rightarrow> (nat \<Rightarrow> nat option) \<Rightarrow> nat \<Rightarrow> nat \<Rightarrow> nat \<Rightarrow> nat option \<times> mm_state \<Rightarrow> bool" where
  "reallocs s A p c sz r \<longleftrightarrow>
     (case r of
        (None, s') \<Rightarrow> \<exists>rs' n. mm_inv mb fli s' rs' \<and> first_blk s' = first_blk s \<and> alloc_at (first_blk s) rs' = A(p \<mapsto> n) \<and>
          (\<exists>n0. A p = Some n0 \<and> n0 \<le> n) \<and> keeps s s' A \<and> mem_max_addr s < mem_brk s' + request sz \<and>
          mem_brk s' \<le> mem_brk s + 2 * request sz
      | (Some q, s') \<Rightarrow> \<exists>rs' n. mm_inv mb fli s' rs' \<and> first_blk s' = first_blk s \<and> (q = p \<or> A q = None) \<and> sz + 4 \<le> n \<and>
          alloc_at (first_blk s) rs' = A(p := None, q \<mapsto> n) \<and> keeps s s' (A(p := None)) \<and>
          copied (mem s) p (mem s') q (min sz c) \<and> mem_brk s' \<le> mem_brk s + 2 * request sz)"

lemma finish_split:
  assumes I: "mm_inv mb fli s (us @ (n, True) # vs)" and p: "p = first_blk s + blen us"
    and nxt: "snd (hd (vs @ [tail_blk]))" and k: "mb \<le> k" "8 dvd k" "k + mb \<le> n"
  defines "A \<equiv> alloc_at (first_blk s) (us @ (n, True) # vs)"
  shows "\<exists>s' rs'. (let s = set_size (header_ptr p) (of_nat k) s; next_bp = next_block p s;
        s = set_meta (header_ptr next_bp) (of_nat n - of_nat k) 1 1 s
      in sbind (do_mm_free ops (Some next_bp) s) (\<lambda>s. Inr (Some p, s))) = Inr (Some p, s') \<and>
    mm_inv mb fli s' rs' \<and> first_blk s' = first_blk s \<and> alloc_at (first_blk s) rs' = A(p \<mapsto> k) \<and> keeps s s' (A(p \<mapsto> k)) \<and>
    mem_brk s' = mem_brk s"
proof -
  define m' where "m' = (mem s)(p - 4 := hdr k (lst True us) True, p + k - 4 := hdr (n - k) True True)"
  note sh = shrink_inv [OF I p nxt k, folded A_def m'_def]
  have lay: "layout s" and rep: "heap_rep mb s (us @ (n, True) # vs)" using I by (simp_all add: mm_inv_def)
  note hb = heap_block [OF mb_ok lay rep p]
  have kb: "bsize k" using hb(2) k by (simp add: bsize_def)
  let ?s1 = "st32 (p - 4) (hdr k (lst True us) True) s"
  have ss: "set_size (p - 4) (of_nat k) s = ?s1" using hdr_upd(1) [OF hb(1,2)] by simp
  have nb: "next_block p ?s1 = p + k"
    using hdr_get(1) [of ?s1 "p - 4" k "lst True us" True] kb by (simp add: next_block_def header_ptr_def)
  have nk: "of_nat n - of_nat k = (of_nat (n - k) :: uint32)" using k by (intro of_nat_diff32) simp
  have sm: "set_meta (p + k - 4) (of_nat (n - k)) 1 1 ?s1 = s\<lparr>mem := m'\<rparr>"
    unfolding hdr_set by (simp add: m'_def)
  have fb: "first_blk (s\<lparr>mem := m'\<rparr>) = first_blk s" by (simp add: first_blk_def)
  have "alloc_at (first_blk (s\<lparr>mem := m'\<rparr>)) (us @ (k, True) # (n - k, True) # vs) (p + k) = Some (n - k)"
    unfolding fb sh(2) by simp
  from free_spec [OF sh(1) this]
  obtain m2 rs' where f: "do_mm_free ops (Some (p + k)) (s\<lparr>mem := m'\<rparr>) = Inr (s\<lparr>mem := m2\<rparr>)" "mm_inv mb fli (s\<lparr>mem := m2\<rparr>) rs'"
    "alloc_at (first_blk s) rs' = (A(p \<mapsto> k, p + k \<mapsto> n - k))(p + k := None)"
    "keeps (s\<lparr>mem := m'\<rparr>) (s\<lparr>mem := m2\<rparr>) ((A(p \<mapsto> k, p + k \<mapsto> n - k))(p + k := None))"
    unfolding fb sh(2) by auto
  have "(A(p \<mapsto> k, p + k \<mapsto> n - k))(p + k := None) = A(p \<mapsto> k)"
    using sh(4) k(1) min_size_pos [OF mb_ok] by (auto simp: fun_eq_iff)
  then have "alloc_at (first_blk s) rs' = A(p \<mapsto> k)" "keeps s (s\<lparr>mem := m2\<rparr>) (A(p \<mapsto> k))"
    using f(3,4) keeps_trans [OF sh(3)] by auto
  then show ?thesis
    using f(1,2) by (intro exI [of _ "s\<lparr>mem := m2\<rparr>"] exI [of _ rs'])
      (simp add: Let_def header_ptr_def [of p] ss nb nk header_ptr_def [of "p + k"] sm first_blk_def)
qed

lemma finish_move:
  assumes I: "mm_inv mb fli s rs" and p: "alloc_at (first_blk s) rs p = Some n" and c: "c + 4 \<le> n"
    and sz: "0 < unat sz" "unat sz + 11 < 2 ^ 32"
  shows "\<exists>r. sbind (do_mm_malloc ops sz s) (\<lambda>(r, s).
      case r of None \<Rightarrow> Inr (None, s)
      | Some new_ptr \<Rightarrow> let s = mm_memcpy new_ptr p (min (unat sz) c) s
                        in sbind (do_mm_free ops (Some p) s) (\<lambda>s. Inr (Some new_ptr, s))) = Inr r \<and>
    reallocs s (alloc_at (first_blk s) rs) p c (unat sz) r \<and> mem_brk (snd r) \<le> mem_brk s + request (unat sz)"
proof -
  define A where "A = alloc_at (first_blk s) rs"
  obtain q s1 where r: "do_mm_malloc ops sz s = Inr (q, s1)" "mallocs s A (unat sz) (q, s1)"
    using malloc_spec [OF I sz] by (auto simp: A_def)
  show ?thesis
  proof (cases q)
    case None
    then have "s1 = s" "mem_max_addr s < mem_brk s + request (unat sz)" using r(2) by (simp_all add: mallocs_def)
    then have "reallocs s A p c (unat sz) (None, s1)"
      unfolding reallocs_def prod.case option.case using I p keeps_refl
      by (intro exI [of _ rs] exI [of _ n]) (auto simp: A_def fun_upd_idem)
    then show ?thesis using r(1) None \<open>s1 = s\<close> by (simp add: A_def)
  next
    case (Some q')
    then obtain rs1 l where q: "mm_inv mb fli s1 rs1" "first_blk s1 = first_blk s" "A q' = None" "unat sz + 4 \<le> l"
      "alloc_at (first_blk s) rs1 = A(q' \<mapsto> l)" "keeps s s1 A" "mem_brk s1 \<le> mem_brk s + request (unat sz)"
      using r(2) by (auto simp: mallocs_def)
    define c' where "c' = min (unat sz) c"
    define m' where "m' = mem (mm_memcpy q' p c' s1)"
    have Ap: "A p = Some n" "p \<noteq> q'" using p q(3) by (auto simp: A_def)
    have aq: "alloc_at (first_blk s1) rs1 q' = Some l" using q(2,5) by simp
    have "m' w = mem s1 w" if "w < q' \<or> q' + l \<le> w + 4" for w
      unfolding m'_def by (rule mm_memcpy_same) (use that q(4) in \<open>auto simp: c'_def\<close>)
    then have cw: "mm_inv mb fli (s1\<lparr>mem := m'\<rparr>) rs1" "keeps s1 (s1\<lparr>mem := m'\<rparr>) ((A(q' \<mapsto> l))(q' := None))"
      using client_write [OF q(1) aq, of m'] q(2,5) by auto
    have fb: "first_blk (s1\<lparr>mem := m'\<rparr>) = first_blk s" using q(2) by (simp add: first_blk_def)
    have ap: "alloc_at (first_blk (s1\<lparr>mem := m'\<rparr>)) rs1 p = Some n" using fb q(5) Ap by simp
    obtain m2 rs2 where f: "do_mm_free ops (Some p) (s1\<lparr>mem := m'\<rparr>) = Inr (s1\<lparr>mem := m2\<rparr>)" "mm_inv mb fli (s1\<lparr>mem := m2\<rparr>) rs2"
      "alloc_at (first_blk s) rs2 = (A(q' \<mapsto> l))(p := None)"
      "keeps (s1\<lparr>mem := m'\<rparr>) (s1\<lparr>mem := m2\<rparr>) ((A(q' \<mapsto> l))(p := None))"
      using free_spec [OF cw(1) ap] unfolding fb q(5) by auto
    have k1: "keeps s (s1\<lparr>mem := m'\<rparr>) A" by (rule keeps_trans [OF q(6) cw(2)]) (use q(3) in auto)
    have "keeps s (s1\<lparr>mem := m2\<rparr>) (A(p := None))"
      by (rule keeps_trans [OF keeps_less [OF k1] f(4)]) (use q(3) in \<open>auto split: if_splits\<close>)
    moreover have "copied (mem s) p (mem (s1\<lparr>mem := m2\<rparr>)) q' c'"
    proof (rule copied_change [OF mm_memcpy_copied])
      fix i assume "i < c'" "4 dvd i"
      then have "p + i + 4 < p + n" "q' + i + 4 < q' + l" using c q(4) by (auto simp: c'_def)
      then show "mem s (p + i) = mem s1 (p + i) \<and> mem (s1\<lparr>mem := m2\<rparr>) (q' + i) = mem (mm_memcpy q' p c' s1) (q' + i)"
        using payload_word [OF q(6) Ap(1), of "p + i"] payload_word [OF f(4), of q' l "q' + i"] Ap(2) by (simp add: m'_def)
    qed
    ultimately have "reallocs s A p c (unat sz) (Some q', s1\<lparr>mem := m2\<rparr>)"
      unfolding reallocs_def prod.case option.case using f(2,3) q(2-4,7) Ap
      by (intro exI [of _ rs2] exI [of _ l]) (auto simp: first_blk_def c'_def fun_upd_twist)
    moreover have "mm_memcpy q' p (min (unat sz) c) s1 = s1\<lparr>mem := m'\<rparr>"
      using mm_memcpy_frame [of q' p c' s1] by (simp add: c'_def m'_def)
    ultimately show ?thesis using r(1) Some f(1) q(7) by (auto simp: A_def)
  qed
qed

lemma finish_spec:
  assumes I: "mm_inv mb fli s (us @ (n, True) # vs)" and p: "p = first_blk s + blen us"
    and nxt: "snd (hd (vs @ [tail_blk]))" and c: "c + 4 \<le> n" and sz: "0 < unat sz" "unat sz + 11 < 2 ^ 32"
  shows "\<exists>r. realloc_finish ops p sz (of_nat c) (of_nat (request (unat sz))) s = Inr r \<and>
    reallocs s (alloc_at (first_blk s) (us @ (n, True) # vs)) p c (unat sz) r \<and>
    mem_brk (snd r) \<le> mem_brk s + request (unat sz)"
proof -
  define A k where "A = alloc_at (first_blk s) (us @ (n, True) # vs)" and "k = request (unat sz)"
  have lay: "layout s" and rep: "heap_rep mb s (us @ [(n, True)] @ vs)" using I by (simp_all add: mm_inv_def)
  note hb = heap_block [OF mb_ok lay rep [simplified] p] and rf = request_facts [of "unat sz", folded k_def]
  have Ap: "A p = Some n" using split_facts(15) [OF mb_ok lay rep p refl] by (simp add: A_def)
  have gs: "get_size (header_ptr p) s = of_nat n" using hb(1,2) by (simp add: hdr_get header_ptr_def)
  have n31: "n \<le> 2 ^ 31" using split_facts(5) [OF mb_ok lay rep p refl] by simp
  have kn: "k < 2 ^ 32" "n < 2 ^ 32" using alloc_size_eq(2) [OF sz(2)] hb(2) by (simp_all add: k_def bsize_def)
  have le: "(of_nat k :: uint32) \<le> of_nat n \<longleftrightarrow> k \<le> n" by (rule of_nat_le32 [OF kn])
  have in_place: "reallocs s A p c (unat sz) (Some p, s')"
    if "mm_inv mb fli s' rs'" "first_blk s' = first_blk s" "alloc_at (first_blk s) rs' = A(p \<mapsto> l)" "keeps s s' (A(p \<mapsto> l))"
      "k \<le> l" "l \<le> n" "mem_brk s' = mem_brk s" for s' rs' l
  proof -
    have "copied (mem s) p (mem s') p (min (unat sz) c)"
      by (rule copied_words, rule payload_word [OF that(4), of p l]) (use that(5) rf(1) in auto)
    moreover have "keeps s s' (A(p := None))" by (rule keeps_less [OF that(4)]) (auto split: if_splits)
    ultimately show ?thesis
      unfolding reallocs_def prod.case option.case using that rf(1) by (intro exI [of _ rs'] exI [of _ l]) auto
  qed
  show ?thesis
  proof (cases "k \<le> n")
    case True
    have fit: "(of_nat k + MIN_BLOCK_SIZE ops :: uint32) \<le> of_nat n \<longleftrightarrow> k + mb \<le> n"
      using of_nat_le32 [of "k + mb" n] True n31 mb_ok by (auto simp: min_block min_size_ok_def)
    show ?thesis
    proof (cases "k + mb \<le> n")
      case split: True
      obtain s' rs' where f: "(let s = set_size (header_ptr p) (of_nat k) s; next_bp = next_block p s;
            s = set_meta (header_ptr next_bp) (of_nat n - of_nat k) 1 1 s
          in sbind (do_mm_free ops (Some next_bp) s) (\<lambda>s. Inr (Some p, s))) = Inr (Some p, s')"
        "mm_inv mb fli s' rs'" "first_blk s' = first_blk s" "alloc_at (first_blk s) rs' = A(p \<mapsto> k)" "keeps s s' (A(p \<mapsto> k))"
        "mem_brk s' = mem_brk s"
        using finish_split [OF I p nxt rf(3,2) split, folded A_def] by blast
      have "realloc_finish ops p sz (of_nat c) (of_nat k) s = Inr (Some p, s')"
        using f(1) unfolding realloc_finish_def gs Let_def le fit using True split by simp
      then show ?thesis using in_place [OF f(2-5) order_refl True f(6)] f(6) by (simp add: A_def k_def)
    next
      case False
      then have "realloc_finish ops p sz (of_nat c) (of_nat k) s = Inr (Some p, s)"
        unfolding realloc_finish_def gs Let_def le fit using True by simp
      moreover have "reallocs s A p c (unat sz) (Some p, s)"
        by (rule in_place [OF I refl, of n]) (use True Ap keeps_refl in \<open>auto simp: A_def fun_upd_idem\<close>)
      ultimately show ?thesis by (simp add: A_def k_def)
    qed
  next
    case False
    have "unat (of_nat c :: uint32) = c" using c kn(2) by (intro unat_of_nat_less) simp
    then have mn: "unat (min sz (of_nat c)) = min (unat sz) c" by (simp add: min_def word_le_nat_alt)
    show ?thesis
      using finish_move [OF I Ap [unfolded A_def] c sz] False
      by (simp only: realloc_finish_def gs Let_def le [unfolded k_def] k_def mn if_False)
  qed
qed

lemma absorb_stage:
  assumes I: "mm_inv mb fli s (us @ (n, True) # vs)" and p: "p = first_blk s + blen us"
  defines "A \<equiv> alloc_at (first_blk s) (us @ (n, True) # vs)"
  shows "\<exists>s' n' vs'. realloc_absorb ops p (p + n) s = Inr s' \<and> mm_inv mb fli s' (us @ (n', True) # vs') \<and> n \<le> n' \<and>
    snd (hd (vs' @ [tail_blk])) \<and> first_blk s' = first_blk s \<and>
    alloc_at (first_blk s) (us @ (n', True) # vs') = A(p \<mapsto> n') \<and> keeps s s' A \<and> mem_brk s' = mem_brk s"
proof -
  have lay: "layout s" and rep: "heap_rep mb s (us @ [(n, True)] @ vs)" using I by (simp_all add: mm_inv_def)
  note hb = heap_block [OF mb_ok lay rep [simplified] p]
  have ga: "get_alloc (header_ptr (p + n)) s = of_bool (snd (hd (vs @ [tail_blk])))"
    using hb(7,8) by (simp add: header_ptr_def hdr_get)
  have Ap: "A p = Some n" using split_facts(15) [OF mb_ok lay rep p refl] by (simp add: A_def)
  show ?thesis
  proof (cases "snd (hd (vs @ [tail_blk]))")
    case True
    then show ?thesis
      using I ga Ap keeps_refl by (intro exI [of _ s] exI [of _ n] exI [of _ vs]) (auto simp: realloc_absorb_def A_def fun_upd_idem)
  next
    case False
    then obtain j post where vs: "vs = (j, False) # post" by (cases vs) auto
    have "coal False post" using I by (simp add: mm_inv_def vs)
    then have "snd (hd (post @ [tail_blk]))" by (rule coal_hd)
    then show ?thesis
      using absorb_spec [OF I [unfolded vs] p, folded vs A_def] ga False
      by (auto simp: A_def realloc_absorb_def first_blk_def intro!: exI [of _ "n + j"] exI [of _ post])
  qed
qed

lemma grow_stage:
  assumes I: "mm_inv mb fli s (us @ (n, True) # vs)" and p: "p = first_blk s + blen us"
    and k: "8 dvd k" "mb \<le> k" "k < 2 ^ 32"
  defines "A \<equiv> alloc_at (first_blk s) (us @ (n, True) # vs)"
  shows "\<exists>r s' vs'. realloc_grow ops p (of_nat k) s = Inr (r, s') \<and> mm_inv mb fli s' (us @ (n, True) # vs') \<and>
    first_blk s' = first_blk s \<and> alloc_at (first_blk s) (us @ (n, True) # vs') = A \<and> keeps s s' A \<and>
    (r = None \<longrightarrow> mem_max_addr s < mem_brk s' + k) \<and> mem_brk s' \<le> mem_brk s + k"
proof -
  have lay: "layout s" and rep: "heap_rep mb s (us @ (n, True) # vs)" and co: "coal True vs" using I by (simp_all add: mm_inv_def)
  note hb = heap_block [OF mb_ok lay rep p] and mb8 = min_size_pos [OF mb_ok]
  define j where "j = (if snd (hd (vs @ [tail_blk])) then 0 else fst (hd vs))"
  show ?thesis
  proof (cases "realloc_grow ops p (of_nat k) s = Inr (Some p, s)")
    case True
    then show ?thesis using I keeps_refl by (intro exI [of _ "Some p"] exI [of _ s] exI [of _ vs]) (simp add: A_def)
  next
    case False
    let ?nx = "fst (hd (vs @ [tail_blk]))"
    have gs: "get_size (header_ptr p) s = of_nat n" "get_size (header_ptr (p + n)) s = of_nat ?nx"
      "get_alloc (header_ptr (p + n)) s = of_bool (snd (hd (vs @ [tail_blk])))"
      using hb by (simp_all add: hdr_get header_ptr_def)
    have nn: "next_block (p + n) s = p + n + ?nx" using gs(2) hb(8) by (simp add: next_block_def)
    have tl: "block_tail s = p + n + blen vs" using rep p by (simp add: heap_rep_def)
    have g: "p + n = block_tail s \<or> \<not> snd (hd (vs @ [tail_blk])) \<and> p + n + ?nx = block_tail s"
      "(of_nat n + of_nat ?nx :: uint32) < of_nat k"
      and run: "realloc_grow ops p (of_nat k) s = extend_heap ops (of_nat k - (of_nat n + of_nat ?nx)) s"
      using False unfolding realloc_grow_def hb(6) Let_def gs nn by (auto split: if_splits)
    have okv: "okb mb vs" using rep by (simp add: heap_rep_def)
    have vs: "vs = [] \<and> j = 0 \<or> vs = [(j, False)]"
    proof (cases vs)
      case (Cons q ws)
      then obtain i al where q: "q = (i, al)" by force
      have "8 \<le> i" "al \<or> blen ws = 0" using g(1) tl okv mb8 by (auto simp: Cons q)
      moreover have "\<not> al" using g(1) tl okv mb8 by (auto simp: Cons q)
      moreover have "ws = []" if "blen ws = 0" using that okv mb8 by (cases ws) (auto simp: Cons q)
      ultimately show ?thesis by (simp add: Cons q j_def)
    qed (simp add: j_def)
    have nj: "?nx = j" using vs by auto
    have bnd: "n + j \<le> 2 ^ 31" using rep lay vs p by (auto simp: heap_rep_def layout_def)
    have lt: "n + j < k" using g(2) of_nat_less32 [of "n + j" k] bnd k(3) unfolding nj by simp
    have ex: "realloc_grow ops p (of_nat k) s = extend_heap ops (of_nat (k - (n + j))) s"
      using run of_nat_diff32 [of "n + j" k] lt unfolding nj by simp
    define z where "z = max (k - (n + j)) mb"
    have d8: "8 dvd k - (n + j)"
      using hb(2,8) k(1) vs by (auto simp: bsize_def dvd_diff_nat)
    have "unat (align (of_nat (k - (n + j)))) = k - (n + j)" using k(3) by (intro align_mult [OF d8]) simp
    then have z: "z = max (unat (align (of_nat (k - (n + j))))) mb" by (simp add: z_def)
    have zk: "z \<le> k" using k(2) by (simp add: z_def)
    show ?thesis
    proof (cases "z < 2 ^ 31 \<and> mem_brk s + z \<le> mem_max_addr s")
      case False
      then have ef: "extend_heap ops (of_nat (k - (n + j))) s = Inr (None, s)" by (intro extend_fails [OF z I]) auto
      have "mem_max_addr s \<le> 2 ^ 31" "16 \<le> mem_brk s" using lay rep by (auto simp: layout_def heap_rep_def first_blk_def)
      then have "mem_max_addr s < mem_brk s + k" using False zk by linarith
      then show ?thesis using ex ef I keeps_refl by (intro exI [of _ None] exI [of _ s] exI [of _ vs]) (simp add: A_def)
    next
      case True
      let ?rs = "us @ (n, True) # vs"
      obtain t N where t: "extend_heap ops (of_nat (k - (n + j))) s = Inr (Some (first_blk s + blen (us @ [(n, True)])), t)"
        "mm_inv mb fli t (us @ (n, True) # [(N, False)])"
        "alloc_at (first_blk s) (us @ (n, True) # [(N, False)]) = A" "keeps s t A" "first_blk t = first_blk s" "mem_brk t = mem_brk s + z"
      proof -
        have "(if lst True ?rs then ?rs else butlast ?rs) = us @ [(n, True)]" using vs by (auto simp: butlast_append)
        then show ?thesis using that extend_spec [OF I z, folded A_def] True by auto
      qed
      then show ?thesis using ex zk by (intro exI [of _ "Some (first_blk s + blen (us @ [(n, True)]))"] exI [of _ t] exI [of _ "[(N, False)]"]) simp
    qed
  qed
qed

lemma reallocs_from:
  assumes r: "reallocs s2 (A(p \<mapsto> n2)) p c sz r" and k: "keeps s s2 A" and fb: "first_blk s2 = first_blk s"
    and n: "A p = Some n" "n \<le> n2" "c + 4 \<le> n"
    and brk: "mem_brk s2 \<le> mem_brk s + request sz" "mem_brk (snd r) \<le> mem_brk s2 + request sz"
  shows "reallocs s A p c sz r"
proof -
  have mx: "mem_max_addr s2 = mem_max_addr s" using k by (simp add: keeps_def)
  have same: "mem s2 (p + i) = mem s (p + i)" if "i < c" for i
    by (rule payload_word [OF k n(1)]) (use that n(3) in auto)
  obtain o' s' where rr: "r = (o', s')" by force
  show ?thesis
  proof (cases o')
    case None
    then obtain rs' l where "mm_inv mb fli s' rs'" "first_blk s' = first_blk s" "alloc_at (first_blk s) rs' = A(p \<mapsto> l)"
      "n2 \<le> l" "keeps s2 s' (A(p \<mapsto> n2))" "mem_max_addr s < mem_brk s' + request sz"
      using r fb mx by (auto simp: reallocs_def rr)
    moreover from this have "keeps s s' A"
      using keeps_trans [OF k, of s' A] keeps_shorter [of s2 s' A p n2 n] n by blast
    ultimately show ?thesis unfolding reallocs_def rr None prod.case option.case using n brk rr
      by (intro exI [of _ rs'] exI [of _ l]) auto
  next
    case (Some q)
    then obtain rs' l where q: "mm_inv mb fli s' rs'" "first_blk s' = first_blk s" "q = p \<or> A q = None" "sz + 4 \<le> l"
      "alloc_at (first_blk s) rs' = A(p := None, q \<mapsto> l)" "keeps s2 s' (A(p := None))" "copied (mem s2) p (mem s') q (min sz c)"
      using r fb by (auto simp: reallocs_def rr split: if_splits)
    have "keeps s s' (A(p := None))" by (rule keeps_trans [OF keeps_less [OF k] q(6)]) (auto split: if_splits)
    moreover have "copied (mem s) p (mem s') q (min sz c)" by (rule copied_change [OF q(7)]) (simp add: same)
    ultimately show ?thesis unfolding reallocs_def rr Some prod.case option.case using q brk rr by auto
  qed
qed

lemma realloc_spec:
  assumes I: "mm_inv mb fli s rs" and p: "alloc_at (first_blk s) rs p = Some n"
    and sz: "0 < unat sz" "unat sz + 11 < 2 ^ 32"
  shows "\<exists>r. do_mm_realloc ops (Some p) sz s = Inr r \<and> reallocs s (alloc_at (first_blk s) rs) p (n - 4) (unat sz) r"
proof -
  obtain us vs where rs: "rs = us @ (n, True) # vs" and pa: "p = first_blk s + blen us" using alloc_at_list [OF p] by blast
  define A k where "A = alloc_at (first_blk s) rs" and "k = request (unat sz)"
  note rf = request_facts [of "unat sz", folded k_def] and as = alloc_size_eq [OF sz(2), folded k_def]
  have lay: "layout s" and rep: "heap_rep mb s (us @ (n, True) # vs)" using I rs by (simp_all add: mm_inv_def)
  note hb = heap_block [OF mb_ok lay rep pa] and mb8 = min_size_pos [OF mb_ok]
  have n8: "8 \<le> n" using hb(3) mb8 by simp
  have old: "get_size (header_ptr p) s - sizeof_size_t = of_nat (n - 4)"
    using hb(1,2) n8 of_nat_diff32 [of 4 n] by (simp add: hdr_get header_ptr_def)
  obtain r s1 vs1 where g: "realloc_grow ops p (of_nat k) s = Inr (r, s1)" "mm_inv mb fli s1 (us @ (n, True) # vs1)"
    "first_blk s1 = first_blk s" "alloc_at (first_blk s) (us @ (n, True) # vs1) = A" "keeps s s1 A"
    "r = None \<longrightarrow> mem_max_addr s < mem_brk s1 + k" "mem_brk s1 \<le> mem_brk s + k"
    using grow_stage [OF I [unfolded rs] pa rf(2,3) as(2), folded rs A_def] by blast
  have run: "do_mm_realloc ops (Some p) sz s = sbind (realloc_grow ops p (of_nat k) s) (\<lambda>(r, s).
      case r of None \<Rightarrow> Inr (None, s)
      | Some _ \<Rightarrow> sbind (realloc_absorb ops p (p + n) s) (realloc_finish ops p sz (of_nat (n - 4)) (of_nat k)))"
    using sz(1) by (subst do_mm_realloc_stages) (auto simp: as old hb(6) Let_def)
  show ?thesis
  proof (cases r)
    case None
    have "reallocs s A p (n - 4) (unat sz) (None, s1)"
      unfolding reallocs_def prod.case option.case using g None p
      by (intro exI [of _ "us @ (n, True) # vs1"] exI [of _ n]) (auto simp: A_def k_def fun_upd_idem)
    then show ?thesis using run g(1) None by (simp add: A_def)
  next
    case (Some x)
    have pa1: "p = first_blk s1 + blen us" using pa g(3) by simp
    obtain s2 n2 vs2 where b: "realloc_absorb ops p (p + n) s1 = Inr s2" "mm_inv mb fli s2 (us @ (n2, True) # vs2)" "n \<le> n2"
      "snd (hd (vs2 @ [tail_blk]))" "first_blk s2 = first_blk s" "alloc_at (first_blk s) (us @ (n2, True) # vs2) = A(p \<mapsto> n2)"
      "keeps s1 s2 A" "mem_brk s2 = mem_brk s1"
      using absorb_stage [OF g(2) pa1] g(3,4) by auto
    have k2: "keeps s s2 A" by (rule keeps_trans [OF g(5) b(7)])
    have "n - 4 + 4 \<le> n2" using b(3) n8 by simp
    from finish_spec [OF b(2) _ b(4) this sz] pa b(5,6)
    obtain r2 where f: "realloc_finish ops p sz (of_nat (n - 4)) (of_nat k) s2 = Inr r2"
      "reallocs s2 (A(p \<mapsto> n2)) p (n - 4) (unat sz) r2" "mem_brk (snd r2) \<le> mem_brk s2 + request (unat sz)" by (auto simp: k_def)
    have "reallocs s A p (n - 4) (unat sz) r2" by (rule reallocs_from [OF f(2) k2 b(5), of n]) (use p b(3,8) n8 g(7) f(3) in \<open>auto simp: A_def k_def\<close>)
    then show ?thesis using run g(1) Some b(1) f(1) by (simp add: A_def)
  qed
qed

end

end
