(* ===== verification/Mm_Client.thy ===== *)
theory Mm_Client
  imports Mm_Realloc
begin

text \<open>
  The allocator as its clients see it: \<^verbatim>\<open>mm_init\<close> builds a well-formed heap, and every sequence of calls
  of the four public functions and of writes into owned blocks keeps it well-formed, with the blocks the
  client owns disjoint, aligned and inside the heap.
\<close>

section \<open>Clients\<close>

text \<open>A client knows the memory system and the map from the pointers it owns to the sizes it asked for.  It frees
and resizes only pointers it owns, and writes only words it owns; requests are below \<^verbatim>\<open>2^32 - 11\<close> bytes, so
that rounding the size up does not wrap around.\<close>

inductive mm_reach :: "fl_ops \<Rightarrow> bool \<Rightarrow> mm_state \<Rightarrow> mm_state \<Rightarrow> (nat \<Rightarrow> nat option) \<Rightarrow> bool"
  for ops check s0
where
  start: "mm_init ops check s0 = Inr (0, s) \<Longrightarrow> mm_reach ops check s0 s Map.empty"
| malloc_fails: "mm_reach ops check s0 s L \<Longrightarrow> unat sz + 11 < 2 ^ 32 \<Longrightarrow>
    mm_malloc ops check sz s = Inr (None, s') \<Longrightarrow> mm_reach ops check s0 s' L"
| malloc: "mm_reach ops check s0 s L \<Longrightarrow> unat sz + 11 < 2 ^ 32 \<Longrightarrow>
    mm_malloc ops check sz s = Inr (Some p, s') \<Longrightarrow> mm_reach ops check s0 s' (L(p \<mapsto> unat sz))"
| free: "mm_reach ops check s0 s L \<Longrightarrow> p \<in> dom L \<Longrightarrow>
    mm_free ops check (Some p) s = Inr s' \<Longrightarrow> mm_reach ops check s0 s' (L(p := None))"
| realloc_fails: "mm_reach ops check s0 s L \<Longrightarrow> p \<in> dom L \<Longrightarrow> 0 < unat sz \<Longrightarrow> unat sz + 11 < 2 ^ 32 \<Longrightarrow>
    mm_realloc ops check (Some p) sz s = Inr (None, s') \<Longrightarrow> mm_reach ops check s0 s' L"
| realloc: "mm_reach ops check s0 s L \<Longrightarrow> p \<in> dom L \<Longrightarrow> 0 < unat sz \<Longrightarrow> unat sz + 11 < 2 ^ 32 \<Longrightarrow>
    mm_realloc ops check (Some p) sz s = Inr (Some q, s') \<Longrightarrow> mm_reach ops check s0 s' (L(p := None, q \<mapsto> unat sz))"
| write_word: "mm_reach ops check s0 s L \<Longrightarrow> L p = Some n \<Longrightarrow> p \<le> w \<Longrightarrow> w < p + n \<Longrightarrow>
    mm_reach ops check s0 (s\<lparr>mem := (mem s)(w := v)\<rparr>) L"

text \<open>The blocks of the heap are exactly those the client owns, each with room for what was asked.\<close>

definition owns :: "(nat \<Rightarrow> nat option) \<Rightarrow> (nat \<Rightarrow> nat option) \<Rightarrow> bool" where
  "owns A L \<longleftrightarrow> dom A = dom L \<and> (\<forall>p n k. L p = Some n \<and> A p = Some k \<longrightarrow> n + 4 \<le> k)"

lemma owns_upd: "owns A L \<Longrightarrow> n + 4 \<le> k \<Longrightarrow> owns (A(p \<mapsto> k)) (L(p \<mapsto> n))"
  by (auto simp: owns_def)

lemma owns_del: "owns A L \<Longrightarrow> owns (A(p := None)) (L(p := None))"
  by (auto simp: owns_def)

lemma owns_grow: "owns A L \<Longrightarrow> A p = Some k \<Longrightarrow> k \<le> k' \<Longrightarrow> owns (A(p \<mapsto> k')) L"
  by (fastforce simp: owns_def)

definition heap_ready :: "mm_state \<Rightarrow> bool" where
  "heap_ready s \<longleftrightarrow> layout s \<and> mem_brk s = mem_start_brk s \<and> mem_start_brk s + 16 \<le> mem_max_addr s"

text \<open>Owned blocks: aligned, inside the heap, apart from each other.\<close>

definition blocks_ok :: "mm_state \<Rightarrow> (nat \<Rightarrow> nat option) \<Rightarrow> bool" where
  "blocks_ok s L \<longleftrightarrow>
     (\<forall>p n. L p = Some n \<longrightarrow> 8 dvd p \<and> mem_start_brk s + 16 \<le> p \<and> p + n + 4 \<le> mem_brk s) \<and>
     (\<forall>p n q k. L p = Some n \<and> L q = Some k \<and> p < q \<longrightarrow> p + n + 4 \<le> q)"

lemma alloc_at_disjoint:
  assumes "okb mb rs" "alloc_at a rs p = Some n" "alloc_at a rs q = Some k" "p < q"
  shows "p + n \<le> q"
  using assms
proof (induction a rs rule: alloc_at.induct)
  case (2 a l al bs)
  have ok: "okb mb bs" using "2.prems" by simp
  show ?case
  proof (cases "al \<and> (p = a \<or> q = a)")
    case True
    have "a \<le> p" using alloc_at_range [OF "2.prems"(1,2)] by simp
    then have "p = a" "q \<noteq> a" using True "2.prems"(4) by auto
    then show ?thesis using True "2.prems"(2,3) alloc_at_range [OF ok, of "a + l" q k] by auto
  next
    case False
    then show ?thesis using 2 ok by (cases al) auto
  qed
qed simp

lemma owns_blocks:
  assumes "min_size_ok mb" "layout s" "heap_rep mb s rs" "owns (alloc_at (first_blk s) rs) L"
  shows "blocks_ok s L"
proof -
  have ok: "okb mb rs" and brk: "mem_brk s = first_blk s + blen rs" using assms(3) by (simp_all add: heap_rep_def)
  have d8: "8 dvd first_blk s" using assms(2) by (auto simp: layout_def first_blk_def)
  have blk: "\<exists>k. alloc_at (first_blk s) rs p = Some k \<and> n + 4 \<le> k" if "L p = Some n" for p n
    using assms(4) that unfolding owns_def by blast
  have "8 dvd p \<and> mem_start_brk s + 16 \<le> p \<and> p + n + 4 \<le> mem_brk s" if "L p = Some n" for p n
    using blk [OF that] alloc_at_range [OF ok, of "first_blk s" p] d8 brk by (auto simp: first_blk_def)
  moreover have "p + n + 4 \<le> q" if "L p = Some n" "L q = Some k" "p < q" for p n q k
    using blk [OF that(1)] blk [OF that(2)] alloc_at_disjoint [OF ok _ _ that(3)] by fastforce
  ultimately show ?thesis unfolding blocks_ok_def by blast
qed

context free_list
begin

section \<open>Initialisation\<close>

lemma init_spec:
  assumes "heap_ready s"
  shows "\<exists>s'. do_mm_init ops s = (0, s') \<and> mm_inv mb fli s' [] \<and> mem_start_brk s' = mem_start_brk s \<and>
    mem_max_addr s' = mem_max_addr s \<and> list_addr s' = list_addr s \<and> mem_brk s' = mem_start_brk s + 16 \<and>
    same_in (mem s) (mem s') (- ({list_addr s..<list_addr s + 80} \<union> {mem_start_brk s..<mem_brk s'}))"
proof -
  have lay: "layout s" and brk: "mem_brk s = mem_start_brk s" "mem_start_brk s + 16 \<le> mem_max_addr s"
    using assms by (simp_all add: heap_ready_def)
  obtain m where m: "free_list_init ops s = s\<lparr>mem := m\<rparr>" "fli m (list_addr s) Map.empty"
    "same_in (mem s) m (- {list_addr s..<list_addr s + 80})"
    using init [of s] lay by (auto simp: layout_def)
  let ?a = "mem_start_brk s"
  have sb: "mem_sbrk 16 (s\<lparr>mem := m\<rparr>) = (Some ?a, s\<lparr>mem := m, mem_brk := ?a + 16\<rparr>)"
    using lay brk by (simp add: mem_sbrk_def Let_def layout_def)
  define m' where "m' = m(?a + 4 := hdr 8 True True, ?a + 12 := hdr 0 True True)"
  define t where "t = s\<lparr>mem := m', mem_brk := ?a + 16, block_head := ?a + 8, block_tail := ?a + 16\<rparr>"
  have run: "do_mm_init ops s = (0, t)"
    by (simp add: do_mm_init_def m(1) sb Let_def header_ptr_def set_meta_def hdr_def m'_def t_def add.commute)
  have heads: "?a + 4 \<notin> {list_addr s..<list_addr s + 80}" "?a + 12 \<notin> {list_addr s..<list_addr s + 80}"
    using lay brk by (auto simp: layout_def)
  have "fli m' (list_addr s) Map.empty"
    by (rule inv_frame [OF m(2)]) (use heads in \<open>auto simp: same_in_def m'_def link_slots_def\<close>)
  moreover have "heap_rep mb t []" using brk by (simp add: heap_rep_def t_def m'_def first_blk_def)
  ultimately have "mm_inv mb fli t []" using lay by (simp add: mm_inv_def t_def layout_def)
  moreover have "same_in (mem s) (mem t) (- ({list_addr s..<list_addr s + 80} \<union> {mem_start_brk s..<mem_brk t}))"
    using m(3) by (auto simp: same_in_def t_def m'_def)
  ultimately show ?thesis using run by (auto simp: t_def)
qed

section \<open>The public functions\<close>

lemma run_check_ok: "mm_inv mb fli s rs \<Longrightarrow> run_check ops check s = Inr ()"
  using check [of s rs] by (auto simp: run_check_def mm_inv_def)

lemma mm_init_ok:
  assumes "heap_ready s"
  shows "\<exists>s'. mm_init ops check s = Inr (0, s') \<and> do_mm_init ops s = (0, s') \<and> mm_inv mb fli s' []"
  using init_spec [OF assms] run_check_ok by (auto simp: mm_init_def)

lemma mm_malloc_ok:
  assumes "mm_inv mb fli s rs" "0 < unat sz" "unat sz + 11 < 2 ^ 32"
  shows "\<exists>r. mm_malloc ops check sz s = Inr r \<and> do_mm_malloc ops sz s = Inr r \<and>
    mallocs s (alloc_at (first_blk s) rs) (unat sz) r"
proof -
  obtain q s' where r: "do_mm_malloc ops sz s = Inr (q, s')" "mallocs s (alloc_at (first_blk s) rs) (unat sz) (q, s')"
    using malloc_spec [OF assms] by auto
  then have "\<exists>rs'. mm_inv mb fli s' rs'" using assms(1) by (auto simp: mallocs_def split: option.splits)
  then show ?thesis using r run_check_ok by (auto simp: mm_malloc_def)
qed

lemma mm_free_ok:
  assumes "mm_inv mb fli s rs" "alloc_at (first_blk s) rs p = Some n"
  shows "\<exists>m' rs'. mm_free ops check (Some p) s = Inr (s\<lparr>mem := m'\<rparr>) \<and> mm_inv mb fli (s\<lparr>mem := m'\<rparr>) rs' \<and>
    alloc_at (first_blk s) rs' = (alloc_at (first_blk s) rs)(p := None) \<and>
    keeps s (s\<lparr>mem := m'\<rparr>) ((alloc_at (first_blk s) rs)(p := None)) \<and>
    mm_free ops check (Some p) (s\<lparr>mem := m'\<rparr>) = Inl AssertFailed"
proof -
  obtain m' rs' where f: "do_mm_free ops (Some p) s = Inr (s\<lparr>mem := m'\<rparr>)" "mm_inv mb fli (s\<lparr>mem := m'\<rparr>) rs'"
    "alloc_at (first_blk s) rs' = (alloc_at (first_blk s) rs)(p := None)"
    "keeps s (s\<lparr>mem := m'\<rparr>) ((alloc_at (first_blk s) rs)(p := None))" "get_alloc (p - 4) (s\<lparr>mem := m'\<rparr>) = 0"
    using free_spec [OF assms] by blast
  have "do_mm_free ops (Some p) (s\<lparr>mem := m'\<rparr>) = Inl AssertFailed"
    using f(5) by (simp add: do_mm_free_def header_ptr_def c_assert_def)
  then show ?thesis using f run_check_ok [OF f(2)]
    by (intro exI [of _ m'] exI [of _ rs']) (simp add: mm_free_def)
qed

lemma mm_realloc_ok:
  assumes "mm_inv mb fli s rs" "alloc_at (first_blk s) rs p = Some n" "0 < unat sz" "unat sz + 11 < 2 ^ 32"
  shows "\<exists>r. mm_realloc ops check (Some p) sz s = Inr r \<and>
    reallocs s (alloc_at (first_blk s) rs) p (n - 4) (unat sz) r"
proof -
  obtain q s' where r: "do_mm_realloc ops (Some p) sz s = Inr (q, s')"
    "reallocs s (alloc_at (first_blk s) rs) p (n - 4) (unat sz) (q, s')"
    using realloc_spec [OF assms] by auto
  then have "\<exists>rs'. mm_inv mb fli s' rs'" by (cases q) (auto simp: reallocs_def)
  then show ?thesis using r run_check_ok by (auto simp: mm_realloc_def)
qed

lemma mm_malloc_zero: "mm_inv mb fli s rs \<Longrightarrow> mm_malloc ops check 0 s = Inr (None, s)"
  using run_check_ok by (simp add: mm_malloc_def do_mm_malloc_def)

section \<open>All runs of a client\<close>

definition owned :: "mm_state \<Rightarrow> (nat \<Rightarrow> nat option) \<Rightarrow> bool" where
  "owned s L \<longleftrightarrow> (\<exists>rs. mm_inv mb fli s rs \<and> owns (alloc_at (first_blk s) rs) L)"

lemma ownedI: "mm_inv mb fli s rs \<Longrightarrow> owns (alloc_at (first_blk s) rs) L \<Longrightarrow> owned s L"
  by (auto simp: owned_def)

lemma owned_malloc:
  assumes "owned s L" "unat sz + 11 < 2 ^ 32" "mm_malloc ops check sz s = Inr (r, s')"
  shows "owned s' (case r of None \<Rightarrow> L | Some p \<Rightarrow> L(p \<mapsto> unat sz))"
proof -
  obtain rs where I: "mm_inv mb fli s rs" and A: "owns (alloc_at (first_blk s) rs) L" using assms(1) by (auto simp: owned_def)
  show ?thesis
  proof (cases "sz = 0")
    case True
    then show ?thesis using assms(1,3) mm_malloc_zero [OF I] by auto
  next
    case False
    then have "0 < unat sz" by (simp add: unat_gt_0)
    from mm_malloc_ok [OF I this assms(2), of check] assms(3)
    have "mallocs s (alloc_at (first_blk s) rs) (unat sz) (r, s')" by auto
    then show ?thesis
      using assms(1) owns_upd [OF A] by (cases r) (auto simp: mallocs_def owned_def)
  qed
qed

lemma owned_block: "owned s L \<Longrightarrow> p \<in> dom L \<Longrightarrow> \<exists>rs n. mm_inv mb fli s rs \<and> owns (alloc_at (first_blk s) rs) L \<and>
    alloc_at (first_blk s) rs p = Some n"
  unfolding owned_def owns_def by blast

lemma owned_realloc:
  assumes "owned s L" "p \<in> dom L" "0 < unat sz" "unat sz + 11 < 2 ^ 32" "mm_realloc ops check (Some p) sz s = Inr (r, s')"
  shows "owned s' (case r of None \<Rightarrow> L | Some q \<Rightarrow> L(p := None, q \<mapsto> unat sz))"
proof -
  obtain rs n where I: "mm_inv mb fli s rs" and A: "owns (alloc_at (first_blk s) rs) L" and n: "alloc_at (first_blk s) rs p = Some n"
    using owned_block [OF assms(1,2)] by blast
  have "reallocs s (alloc_at (first_blk s) rs) p (n - 4) (unat sz) (r, s')"
    using mm_realloc_ok [OF I n assms(3,4), of check] assms(5) by auto
  then show ?thesis
    using owns_upd [OF owns_del [OF A, of p]] owns_upd [OF A, of _ _ p] owns_grow [OF A]
    by (cases r) (auto simp: reallocs_def owned_def simp del: fun_upd_apply)
qed

lemma owned_free:
  assumes "owned s L" "p \<in> dom L" "mm_free ops check (Some p) s = Inr s'"
  shows "owned s' (L(p := None))"
proof -
  obtain rs n where I: "mm_inv mb fli s rs" and A: "owns (alloc_at (first_blk s) rs) L" and n: "alloc_at (first_blk s) rs p = Some n"
    using owned_block [OF assms(1,2)] by blast
  obtain m' rs' where "s' = s\<lparr>mem := m'\<rparr>" "mm_inv mb fli (s\<lparr>mem := m'\<rparr>) rs'" "alloc_at (first_blk s) rs' = (alloc_at (first_blk s) rs)(p := None)"
    using mm_free_ok [OF I n, of check] assms(3) by auto
  then show ?thesis using owns_del [OF A, of p] by (auto simp: owned_def first_blk_def)
qed

lemma reach_owned:
  assumes "mm_reach ops check s0 s L" "heap_ready s0"
  shows "owned s L"
  using assms
proof (induction rule: mm_reach.induct)
  case (start s)
  then show ?case using mm_init_ok [of s0 check] by (auto simp: owned_def owns_def)
next
  case (malloc_fails s L sz s')
  then show ?case using owned_malloc [of s L sz check None s'] by simp
next
  case (malloc s L sz p s')
  then show ?case using owned_malloc [of s L sz check "Some p" s'] by (simp del: fun_upd_apply)
next
  case (free s L p s')
  then show ?case using owned_free by blast
next
  case (realloc_fails s L p sz s')
  then show ?case using owned_realloc [of s L p sz check None s'] by simp
next
  case (realloc s L p sz q s')
  then show ?case using owned_realloc [of s L p sz check "Some q" s'] by (simp del: fun_upd_apply)
next
  case (write_word s L p n w v)
  then obtain rs k where I: "mm_inv mb fli s rs" and A: "owns (alloc_at (first_blk s) rs) L" and k: "alloc_at (first_blk s) rs p = Some k"
    using owned_block [of s L p] by blast
  have "n + 4 \<le> k" using A k write_word by (simp add: owns_def)
  then have "mm_inv mb fli (s\<lparr>mem := (mem s)(w := v)\<rparr>) rs"
    by (intro conjunct1 [OF client_write [OF I k]]) (use write_word in auto)
  then show ?case using A by (auto simp: owned_def first_blk_def)
qed

lemma reach_blocks:
  assumes "mm_reach ops check s0 s L" "heap_ready s0"
  shows "blocks_ok s L" "do_mm_check ops s = Inr ()"
proof -
  obtain rs where "mm_inv mb fli s rs" "owns (alloc_at (first_blk s) rs) L" using reach_owned [OF assms] by (auto simp: owned_def)
  then show "blocks_ok s L" "do_mm_check ops s = Inr ()"
    using owns_blocks [OF mb_ok, of s rs L] check [of s rs] by (auto simp: mm_inv_def)
qed

lemma reach_progress:
  assumes "mm_reach ops check s0 s L" "heap_ready s0" "unat sz + 11 < 2 ^ 32"
  shows "\<exists>r. mm_malloc ops check sz s = Inr r" "p \<in> dom L \<Longrightarrow> \<exists>s'. mm_free ops check (Some p) s = Inr s'"
    "p \<in> dom L \<Longrightarrow> 0 < unat sz \<Longrightarrow> \<exists>r. mm_realloc ops check (Some p) sz s = Inr r"
proof -
  have O: "owned s L" by (rule reach_owned [OF assms(1,2)])
  then obtain rs where I: "mm_inv mb fli s rs" by (auto simp: owned_def)
  show "\<exists>r. mm_malloc ops check sz s = Inr r"
    using mm_malloc_zero [OF I] mm_malloc_ok [OF I _ assms(3), of check] by (cases "sz = 0") (auto simp: unat_gt_0)
  show "\<exists>s'. mm_free ops check (Some p) s = Inr s'" if "p \<in> dom L"
    using owned_block [OF O that] mm_free_ok by blast
  show "\<exists>r. mm_realloc ops check (Some p) sz s = Inr r" if "p \<in> dom L" "0 < unat sz"
    using owned_block [OF O that(1)] mm_realloc_ok [OF _ _ that(2) assms(3)] by blast
qed

end

end
