(* ===== verification/Mm_Scan.thy ===== *)
theory Mm_Scan
  imports Mm_Malloc
begin

text \<open>
  Walking the blocks of a heap: the heap checker, the two searches of the implicit free list, and the
  interpretation of the free list interface on it.
\<close>

section \<open>A walk from a block to the tail\<close>

definition walk :: "nat \<Rightarrow> mm_state \<Rightarrow> nat \<Rightarrow> bool \<Rightarrow> blk list \<Rightarrow> bool" where
  "walk mb s a pa vs \<longleftrightarrow> seg (mem s) a pa (vs @ [tail_blk]) \<and> okb mb vs \<and> 16 \<le> a \<and>
     block_tail s = a + blen vs \<and> block_tail s < 2 ^ 32"

lemma walk_Cons:
  assumes "min_size_ok mb" "walk mb s a pa ((n, al) # vs)"
  shows "walk mb s (a + n) al vs" "mem s (a - 4) = hdr n pa al" "bsize n" "a \<noteq> block_tail s" "next_block a s = a + n"
    "\<not> al \<Longrightarrow> mem s (a + n - 8) = hdr n pa al" "mb \<le> n"
    "get_size (header_ptr a) s = of_nat n" "get_alloc (header_ptr a) s = of_bool al" "get_prev_alloc (header_ptr a) s = of_bool pa"
proof -
  have h: "mem s (a - 4) = hdr n pa al" and n: "bsize n" and mn: "mb \<le> n"
    using assms(2) by (auto simp: walk_def bsize_def)
  then show "mem s (a - 4) = hdr n pa al" "bsize n" "mb \<le> n" .
  show "walk mb s (a + n) al vs" "\<not> al \<Longrightarrow> mem s (a + n - 8) = hdr n pa al"
    using assms(2) by (auto simp: walk_def add.assoc)
  show "a \<noteq> block_tail s" using assms min_size_pos [OF assms(1)] by (auto simp: walk_def)
  show "next_block a s = a + n" using h n by (simp add: next_block_def header_ptr_def hdr_get)
  show "get_size (header_ptr a) s = of_nat n" "get_alloc (header_ptr a) s = of_bool al"
    "get_prev_alloc (header_ptr a) s = of_bool pa"
    using h n by (simp_all add: header_ptr_def hdr_get)
qed

lemma walk_hd:
  assumes "walk mb s a pa vs"
  shows "get_alloc (header_ptr a) s = of_bool (snd (hd (vs @ [tail_blk])))" "get_prev_alloc (header_ptr a) s = of_bool pa"
proof -
  have "mem s (a - 4) = hdr (fst (hd (vs @ [tail_blk]))) pa (snd (hd (vs @ [tail_blk])))"
    using assms seg_hd by (auto simp: walk_def)
  moreover have "bsize (fst (hd (vs @ [tail_blk])))" using assms by (cases vs) (auto simp: walk_def bsize_def)
  ultimately show "get_alloc (header_ptr a) s = of_bool (snd (hd (vs @ [tail_blk])))"
    "get_prev_alloc (header_ptr a) s = of_bool pa"
    by (simp_all add: header_ptr_def hdr_get)
qed

lemma walk_heap:
  assumes "layout s" "heap_rep mb s rs"
  shows "walk mb s (first_blk s) True rs"
  using assms by (auto simp: walk_def heap_rep_def layout_def first_blk_def)

lemma heap_fuel:
  assumes "min_size_ok mb" "heap_rep mb s rs"
  shows "length rs + 2 \<le> mem_heapsize s"
proof -
  have "length rs \<le> blen rs" if "okb mb rs"
    using that min_size_pos [OF assms(1)] by (induction rs) auto
  then show ?thesis using assms(2) by (auto simp: mem_heapsize_def heap_rep_def first_blk_def)
qed

lemma heap_head:
  assumes "heap_rep mb s rs"
  shows "next_block (block_head s) s = first_blk s" "get_size (header_ptr (block_head s)) s = 8"
    "get_alloc (header_ptr (block_head s)) s = 1"
proof -
  have h: "mem s (header_ptr (block_head s)) = hdr 8 True True" "bsize 8"
    using assms by (simp_all add: heap_rep_def header_ptr_def bsize_def add.commute)
  then show "next_block (block_head s) s = first_blk s" "get_size (header_ptr (block_head s)) s = 8"
    "get_alloc (header_ptr (block_head s)) s = 1"
    using assms by (simp_all add: next_block_def hdr_get heap_rep_def first_blk_def)
qed

section \<open>The heap checker\<close>

lemma check_loop_ok:
  assumes "min_size_ok mb" "walk mb s a pa vs" "coal pa vs" "length vs < fuel" "block_head s < a"
  shows "check_heap_loop fuel (of_nat mb) a s = Inr ()"
  using assms
proof (induction vs arbitrary: a pa fuel)
  case Nil
  then obtain f where "fuel = Suc f" by (cases fuel) auto
  moreover have "mem s (a - 4) = hdr 0 pa True" "a = block_tail s" using Nil by (simp_all add: walk_def)
  ultimately show ?case by (simp add: header_ptr_def hdr_get bsize_def)
next
  case (Cons v vs)
  obtain n al where v: "v = (n, al)" by force
  obtain f where f: "fuel = Suc f" using Cons.prems by (cases fuel) auto
  note w = walk_Cons [OF Cons.prems(1) Cons.prems(2) [unfolded v]]
  note hd = walk_hd [OF w(1)]
  have co: "pa \<or> al" "coal al vs" using Cons.prems(3) v by simp_all
  have fp: "footer_ptr a s = a + n - 8" using w(3,8) by (simp add: footer_ptr_def)
  have sz: "of_nat mb \<le> (of_nat n :: uint32)" using w(3,7) Cons.prems(1) by (intro iffD2 [OF of_nat_le32]) (auto simp: bsize_def)
  have nx: "al \<or> snd (hd (vs @ [tail_blk]))" using co(2) by (cases vs) auto
  have "check_block (of_nat mb) a s"
    using Cons.prems(5) w sz hd co(1) nx fp by (auto simp: check_block_def header_ptr_def [of a])
  then show ?case
    using Cons.IH [OF Cons.prems(1) w(1) co(2), of f] Cons.prems(4,5) w(4,5) f by simp
qed

lemma check_heap_ok:
  assumes mb: "min_size_ok mb" and "layout s" and rep: "heap_rep mb s rs" and "coal True rs"
  shows "mm_check_heap (of_nat mb) s = Inr ()"
proof -
  have lt: "block_head s < first_blk s" "block_head s \<noteq> block_tail s" using rep by (auto simp: heap_rep_def first_blk_def)
  note w = walk_heap [OF assms(2) rep] and h = heap_head [OF rep]
  have "check_heap_loop (mem_heapsize s) (of_nat mb) (first_blk s) s = Inr ()"
    using heap_fuel [OF mb rep] lt by (intro check_loop_ok [OF mb w assms(4)]) auto
  moreover have "check_block (of_nat mb) (block_head s) s"
    using h walk_hd(2) [OF w] by (simp add: check_block_def)
  ultimately show ?thesis using h lt by (simp add: mm_check_heap_def)
qed

section \<open>Searching the implicit list\<close>

definition fits :: "(nat \<Rightarrow> nat option) \<Rightarrow> uint32 \<Rightarrow> nat option \<Rightarrow> bool" where
  "fits F k r \<longleftrightarrow> (case r of Some bp \<Rightarrow> \<exists>n. F bp = Some n \<and> unat k \<le> n | None \<Rightarrow> \<forall>bp n. F bp = Some n \<longrightarrow> n < unat k)"

lemma word_le_of_nat: "bsize n \<Longrightarrow> k \<le> of_nat n \<longleftrightarrow> unat k \<le> n" for k :: uint32
  by (simp add: word_le_nat_alt)

lemma implicit_first_ok:
  assumes "min_size_ok mb" "walk mb s a pa vs" "length vs < fuel"
  shows "\<exists>r. implicit_first_loop fuel k a s = Inr r \<and> fits (free_at a vs) k r"
  using assms
proof (induction vs arbitrary: a pa fuel)
  case Nil
  then obtain f where "fuel = Suc f" by (cases fuel) auto
  then show ?case using Nil by (simp add: walk_def fits_def)
next
  case (Cons v vs)
  obtain n al where v: "v = (n, al)" by force
  obtain f where f: "fuel = Suc f" using Cons.prems by (cases fuel) auto
  note w = walk_Cons [OF Cons.prems(1) Cons.prems(2) [unfolded v]]
  show ?case
  proof (cases "\<not> al \<and> unat k \<le> n")
    case True
    then show ?thesis using w f by (auto simp: v fits_def word_le_of_nat)
  next
    case False
    obtain r where r: "implicit_first_loop f k (a + n) s = Inr r" "fits (free_at (a + n) vs) k r"
      using Cons.IH [OF Cons.prems(1) w(1), of f] Cons.prems(3) f by auto
    have "okb mb vs" "0 < mb" "0 < n" using w(1,7) min_size_pos [OF Cons.prems(1)] by (auto simp: walk_def)
    then have "free_at (a + n) vs a = None" using free_at_outside [of mb vs a "a + n"] by simp
    then have "fits (free_at a ((n, al) # vs)) k r" using r(2) False by (auto simp: fits_def split: option.splits)
    then show ?thesis using w f r(1) False by (auto simp: v word_le_of_nat)
  qed
qed

text \<open>What a best-fit loop returns when it starts with candidate \<open>b\<close> of size \<open>z\<close>: the candidate when no block is
smaller, a smallest fitting block otherwise.\<close>

definition best_of :: "(nat \<Rightarrow> nat option) \<Rightarrow> uint32 \<Rightarrow> nat option \<Rightarrow> nat \<Rightarrow> nat option \<Rightarrow> bool" where
  "best_of F k b z r \<longleftrightarrow>
     r = b \<and> (\<forall>p n. F p = Some n \<and> unat k \<le> n \<longrightarrow> z \<le> n) \<or>
     (\<exists>p n. r = Some p \<and> F p = Some n \<and> unat k \<le> n \<and> n < z \<and> (\<forall>p' n'. F p' = Some n' \<and> unat k \<le> n' \<longrightarrow> n \<le> n'))"

lemma best_of_step:
  assumes "F a = None"
  shows "best_of F k (Some a) n r \<Longrightarrow> unat k \<le> n \<Longrightarrow> n < z \<Longrightarrow> best_of (F(a \<mapsto> n)) k b z r"
    and "best_of F k b z r \<Longrightarrow> \<not> (unat k \<le> n \<and> n < z) \<Longrightarrow> best_of (F(a \<mapsto> n)) k b z r"
proof -
  assume r: "best_of F k (Some a) n r" "unat k \<le> n" "n < z"
  then consider "r = Some a" "\<forall>p n'. F p = Some n' \<and> unat k \<le> n' \<longrightarrow> n \<le> n'"
    | p n' where "r = Some p" "F p = Some n'" "unat k \<le> n'" "n' < n"
      "\<forall>p' n''. F p' = Some n'' \<and> unat k \<le> n'' \<longrightarrow> n' \<le> n''"
    unfolding best_of_def by blast
  then show "best_of (F(a \<mapsto> n)) k b z r"
  proof cases
    case 1
    then show ?thesis using r(2,3) unfolding best_of_def by auto
  next
    case (2 p n')
    moreover from this assms have "p \<noteq> a" by auto
    ultimately show ?thesis using r(3) unfolding best_of_def
      by (intro disjI2 exI [of _ p] exI [of _ n']) auto
  qed
next
  assume r: "best_of F k b z r" "\<not> (unat k \<le> n \<and> n < z)"
  then consider "r = b" "\<forall>p n'. F p = Some n' \<and> unat k \<le> n' \<longrightarrow> z \<le> n'"
    | p n' where "r = Some p" "F p = Some n'" "unat k \<le> n'" "n' < z"
      "\<forall>p' n''. F p' = Some n'' \<and> unat k \<le> n'' \<longrightarrow> n' \<le> n''"
    unfolding best_of_def by blast
  then show "best_of (F(a \<mapsto> n)) k b z r"
  proof cases
    case 1
    then show ?thesis using r(2) unfolding best_of_def by auto
  next
    case (2 p n')
    moreover from this assms have "p \<noteq> a" by auto
    ultimately show ?thesis using r(2) unfolding best_of_def
      by (intro disjI2 exI [of _ p] exI [of _ n']) auto
  qed
qed

lemma best_of_fits:
  assumes "best_of F k None (2 ^ 32 - 1) r" "\<And>p n. F p = Some n \<Longrightarrow> bsize n"
  shows "fits F k r" "r = Some p \<Longrightarrow> F p = Some n \<Longrightarrow> F q = Some n' \<Longrightarrow> unat k \<le> n' \<Longrightarrow> n \<le> n'"
proof -
  have lt: "n < 2 ^ 32 - 1" if "F p = Some n" for p n
  proof -
    have "8 dvd n" "n < 2 ^ 32" using assms(2) [OF that] by (auto simp: bsize_def)
    then show ?thesis by (auto elim!: dvdE)
  qed
  show "fits F k r" using assms(1) lt unfolding best_of_def fits_def by (auto split: option.splits) (meson leD leI)
  show "r = Some p \<Longrightarrow> F p = Some n \<Longrightarrow> F q = Some n' \<Longrightarrow> unat k \<le> n' \<Longrightarrow> n \<le> n'"
    using assms(1) unfolding best_of_def by auto
qed

lemma implicit_best_ok:
  assumes "min_size_ok mb" "walk mb s a pa vs" "length vs < fuel"
  shows "\<exists>r. implicit_best_loop fuel k a b z s = Inr r \<and> best_of (free_at a vs) k b (unat z) r"
  using assms
proof (induction vs arbitrary: a pa fuel b z)
  case Nil
  then obtain f where "fuel = Suc f" by (cases fuel) auto
  then show ?case using Nil by (simp add: walk_def best_of_def)
next
  case (Cons v vs)
  obtain n al where v: "v = (n, al)" by force
  obtain f where f: "fuel = Suc f" "length vs < f" using Cons.prems by (cases fuel) auto
  note w = walk_Cons [OF Cons.prems(1) Cons.prems(2) [unfolded v]]
  have "okb mb vs" "0 < mb" "0 < n" using w(1,7) min_size_pos [OF Cons.prems(1)] by (auto simp: walk_def)
  then have none: "free_at (a + n) vs a = None" using free_at_outside [of mb vs a "a + n"] by simp
  note IH = Cons.IH [OF Cons.prems(1) w(1) f(2)]
  have less: "of_nat n < z \<longleftrightarrow> n < unat z" using w(3) by (simp add: word_less_nat_alt)
  show ?case
  proof (cases "\<not> al \<and> unat k \<le> n \<and> n < unat z")
    case True
    obtain r where r: "implicit_best_loop f k (a + n) (Some a) (of_nat n) s = Inr r" "best_of (free_at (a + n) vs) k (Some a) n r"
      using IH [of "Some a" "of_nat n"] w(3) by auto
    have "best_of (free_at a ((n, al) # vs)) k b (unat z) r" using best_of_step(1) [where F = "free_at (a + n) vs" and a = a, OF none r(2)] True by simp
    then show ?thesis using r(1) w f True less by (auto simp: v word_le_of_nat Let_def simp del: free_at.simps)
  next
    case False
    obtain r where r: "implicit_best_loop f k (a + n) b z s = Inr r" "best_of (free_at (a + n) vs) k b (unat z) r"
      using IH [of b z] by auto
    have "best_of (free_at a ((n, al) # vs)) k b (unat z) r"
      using best_of_step(2) [where F = "free_at (a + n) vs" and a = a, OF none r(2)] r(2) False by (cases al) auto
    then show ?thesis using r(1) w f False less by (auto simp: v word_le_of_nat Let_def simp del: free_at.simps)
  qed
qed

lemma free_at_bsize:
  assumes "heap_rep mb s rs" "layout s" "free_at (first_blk s) rs p = Some n"
  shows "bsize n"
proof -
  have "okb mb rs" "first_blk s + blen rs < 2 ^ 32" using assms by (auto simp: heap_rep_def layout_def)
  then show ?thesis using free_at_range [OF _ assms(3), of mb] by (auto simp: bsize_def)
qed

lemma implicit_first_fit_ok:
  assumes "min_size_ok mb" "layout s" "heap_rep mb s rs"
  shows "\<exists>r. implicit_find_first_fit k s = Inr r \<and> fits (free_at (first_blk s) rs) k r"
  using implicit_first_ok [OF assms(1) walk_heap [OF assms(2,3)]] heap_fuel [OF assms(1,3)] heap_head [OF assms(3)]
  by (simp add: implicit_find_first_fit_def del: implicit_first_loop.simps)

lemma implicit_best_fit_ok:
  assumes "min_size_ok mb" "layout s" "heap_rep mb s rs"
  shows "\<exists>r. implicit_find_best_fit k s = Inr r \<and> best_of (free_at (first_blk s) rs) k None (2 ^ 32 - 1) r"
  using implicit_best_ok [OF assms(1) walk_heap [OF assms(2,3)], of _ k None SIZE_MAX]
    heap_fuel [OF assms(1,3)] heap_head [OF assms(3)]
  by (simp add: implicit_find_best_fit_def SIZE_MAX_def del: implicit_best_loop.simps)

section \<open>The implicit list as a free list\<close>

definition implicit_inv :: "(nat \<Rightarrow> uint32) \<Rightarrow> nat \<Rightarrow> (nat \<Rightarrow> nat option) \<Rightarrow> bool" where
  "implicit_inv m L F \<longleftrightarrow> True"

interpretation implicit: free_list "implicit_ops ff" 8 implicit_inv
proof unfold_locales
  show "\<exists>r. find_fit (implicit_ops ff) k s = Inr r \<and>
      (case r of Some bp \<Rightarrow> \<exists>n. free_at (first_blk s) rs bp = Some n \<and> unat k \<le> n
       | None \<Rightarrow> \<forall>bp n. free_at (first_blk s) rs bp = Some n \<longrightarrow> n < unat k)"
    if "layout s" "heap_rep 8 s rs" for s rs k
    using implicit_first_fit_ok [OF _ that, of k] implicit_best_fit_ok [OF _ that, of k]
      best_of_fits(1) [of "free_at (first_blk s) rs" k] free_at_bsize [OF that(2,1)]
    unfolding fits_def [symmetric]
    by (cases ff) (auto simp: implicit_ops_def min_size_ok_def)
  show "do_mm_check (implicit_ops ff) s = Inr ()" if "layout s" "heap_rep 8 s rs" "coal True rs" for s rs
    using check_heap_ok [of 8, OF _ that]
    by (simp add: implicit_ops_def implicit_mm_check_def IMPLICIT_MIN_BLOCK_SIZE_def min_size_ok_def)
qed (auto simp: implicit_ops_def implicit_inv_def min_size_ok_def IMPLICIT_MIN_BLOCK_SIZE_def
    implicit_free_list_init_def implicit_free_list_insert_def implicit_free_list_erase_def
    implicit_free_list_update_def same_in_def intro!: exI [of _ "mem _"])

end
