(* ===== verification/Mm_Links.thy ===== *)
theory Mm_Links
  imports Mm_Scan
begin

text \<open>
  The circular doubly linked lists of the explicit and the segregated organisation, and the
  interpretations of the free list interface on the explicit list.
\<close>

section \<open>Linked lists in memory\<close>

fun chain :: "(nat \<Rightarrow> uint32) \<Rightarrow> nat list \<Rightarrow> bool" where
  "chain m (x # y # zs) \<longleftrightarrow> m (x + 4) = of_nat y \<and> m y = of_nat x \<and> chain m (y # zs)"
| "chain m _ \<longleftrightarrow> True"

definition dll :: "(nat \<Rightarrow> uint32) \<Rightarrow> nat \<Rightarrow> nat list \<Rightarrow> bool" where
  "dll m h ns \<longleftrightarrow> chain m (h # ns @ [h]) \<and> distinct (h # ns)"

text \<open>Two-word cells at these addresses do not overlap, and the addresses fit in a word.\<close>

definition spaced :: "nat set \<Rightarrow> bool" where
  "spaced A \<longleftrightarrow> (\<forall>x \<in> A. x < 2 ^ 32 \<and> (\<forall>y \<in> A. x \<noteq> y + 4))"

lemma spaced_subset: "spaced A \<Longrightarrow> B \<subseteq> A \<Longrightarrow> spaced B"
  by (auto simp: spaced_def)

lemma chain_append: "chain m (xs @ x # ys) \<longleftrightarrow> chain m (xs @ [x]) \<and> chain m (x # ys)"
proof (induction xs)
  case (Cons a xs)
  then show ?case by (cases xs) auto
qed simp

lemma chain_frame:
  "(\<And>x. x \<in> set (butlast xs) \<Longrightarrow> m' (x + 4) = m (x + 4)) \<Longrightarrow> (\<And>y. y \<in> set (tl xs) \<Longrightarrow> m' y = m y) \<Longrightarrow>
   chain m' xs = chain m xs"
  by (induction m xs rule: chain.induct) auto

lemma dll_frame:
  "dll m h ns \<Longrightarrow> (\<And>x. x \<in> insert h (set ns) \<Longrightarrow> m' x = m x \<and> m' (x + 4) = m (x + 4)) \<Longrightarrow> dll m' h ns"
  unfolding dll_def by (subst chain_frame [where m = m]) (auto simp: butlast_append split: if_splits)

lemma chain_step:
  "chain m (x # zs @ [h]) \<Longrightarrow> zs \<noteq> [] \<or> True \<Longrightarrow> m (x + 4) = of_nat (hd (zs @ [h])) \<and> m (hd (zs @ [h])) = of_nat x \<and> chain m (zs @ [h])"
  by (cases zs) auto

section \<open>Initialisation, insertion and removal\<close>

lemma list_init_dll: "dll (mem (list_init h s)) h []"
  by (simp add: list_init_def set_node_prev_def set_node_next_def dll_def)

lemma list_init_mem: "list_init h s = s\<lparr>mem := (mem s)(h + 4 := of_nat h, h := of_nat h)\<rparr>"
  by (simp add: list_init_def set_node_prev_def set_node_next_def)

lemma push_front_dll:
  assumes d: "dll m h ns" and n: "n \<notin> insert h (set ns)" and sp: "spaced (insert n (insert h (set ns)))" and s: "mem s = m"
  shows "\<exists>m'. list_push_front h n s = s\<lparr>mem := m'\<rparr> \<and> dll m' h (n # ns) \<and>
    (\<forall>w. (\<forall>x \<in> insert n (insert h (set ns)). w \<noteq> x \<and> w \<noteq> x + 4) \<longrightarrow> m' w = m w)"
proof -
  obtain y ys where y: "ns @ [h] = y # ys" by (cases ns) auto
  have yin: "y \<in> insert h (set ns)" "set ys \<subseteq> insert h (set ns)" using y by (cases ns; auto)+
  have ch: "m (h + 4) = of_nat y" "chain m (y # ys)" using d y by (simp_all add: dll_def)
  have "distinct (ns @ [h])" using d by (auto simp: dll_def)
  then have dis: "distinct (y # ys)" unfolding y .
  have un: "unat (of_nat x :: uint32) = x" if "x \<in> insert n (insert h (set ns))" for x
    using sp that by (intro unat_of_nat_less) (auto simp: spaced_def)
  have ne: "x \<noteq> z + 4" if "x \<in> insert n (insert h (set ns))" "z \<in> insert n (insert h (set ns))" for x z
    using sp that by (auto simp: spaced_def)
  define m' where "m' = m(n := of_nat h, n + 4 := of_nat y, y := of_nat n, h + 4 := of_nat n)"
  have hn: "h + 4 \<noteq> n" "h \<noteq> n" "h + 4 \<noteq> n + 4" "y \<noteq> n" "n \<noteq> h + 4" "y \<noteq> n + 4" "h + 4 \<noteq> y" "n + 4 \<noteq> y"
    using ne n yin by (auto 4 3)
  have run: "list_push_front h n s = s\<lparr>mem := m'\<rparr>"
    using ch(1) hn un [of y] yin(1) s
    by (simp add: list_push_front_def Let_def set_node_prev_def set_node_next_def node_next_def m'_def)
  have "chain m' (y # ys)"
  proof (subst chain_frame [where m = m])
    show "m' (x + 4) = m (x + 4)" if "x \<in> set (butlast (y # ys))" for x
    proof -
      have "x \<in> set ns" using that y by (metis butlast_snoc)
      then have "x \<noteq> h" "x \<noteq> n" using d n by (auto simp: dll_def)
      then show ?thesis using ne [of n x] ne [of y x] \<open>x \<in> set ns\<close> yin by (auto simp: m'_def)
    qed
    show "m' x = m x" if "x \<in> set (tl (y # ys))" for x
    proof -
      have "x \<in> insert h (set ns)" "x \<noteq> y" "x \<noteq> n" using that yin(2) dis n by auto
      then show ?thesis using ne [of x n] ne [of x h] by (auto simp: m'_def)
    qed
  qed (rule ch(2))
  then have "dll m' h (n # ns)"
    using hn d n y by (auto simp: dll_def m'_def)
  moreover have "m' w = m w" if "\<forall>x \<in> insert n (insert h (set ns)). w \<noteq> x \<and> w \<noteq> x + 4" for w
    using that yin(1) by (auto simp: m'_def)
  ultimately show ?thesis using run by blast
qed

lemma erase_dll:
  assumes d: "dll m h ns" and n: "n \<in> set ns" and sp: "spaced (insert h (set ns))" and s: "mem s = m"
  shows "\<exists>m'. list_erase n s = s\<lparr>mem := m'\<rparr> \<and> dll m' h (remove1 n ns) \<and>
    (\<forall>w. (\<forall>x \<in> insert h (set ns). w \<noteq> x \<and> w \<noteq> x + 4) \<longrightarrow> m' w = m w)"
proof -
  obtain us vs where ns: "ns = us @ n # vs" and nu: "n \<notin> set us" using split_list_first [OF n] by blast
  obtain ps p where p: "h # us = ps @ [p]" by (cases "h # us" rule: rev_cases) auto
  obtain q qs where q: "vs @ [h] = q # qs" by (cases vs) auto
  have pin: "p \<in> insert h (set us)" "set ps \<subseteq> insert h (set us)" using p by (metis list.set(2) in_set_conv_decomp set_append Un_upper1)+
  have qin: "q \<in> insert h (set vs)" "set qs \<subseteq> insert h (set vs)" using q by (metis Un_commute list.set(1,2) set_append insert_is_Un list.set_intros(1) subset_insertI)+
  have dis: "distinct (h # us)" "distinct (vs @ [h])" "n \<noteq> h" "n \<notin> set vs" "set us \<inter> set vs = {}"
    using d ns by (auto simp: dll_def)
  have ch: "chain m (ps @ [p])" "m (p + 4) = of_nat n" "m n = of_nat p" "m (n + 4) = of_nat q" "m q = of_nat n" "chain m (q # qs)"
  proof -
    have "chain m (ps @ p # n # q # qs)" using d unfolding dll_def ns by (metis p q append.assoc append_Cons append_Nil)
    then show "chain m (ps @ [p])" "m (p + 4) = of_nat n" "m n = of_nat p" "m (n + 4) = of_nat q" "m q = of_nat n" "chain m (q # qs)"
      using chain_append [of m ps p "n # q # qs"] by auto
  qed
  have un: "unat (of_nat x :: uint32) = x" if "x \<in> insert h (set ns)" for x
    using sp that by (intro unat_of_nat_less) (auto simp: spaced_def)
  have ne: "x \<noteq> z + 4" if "x \<in> insert h (set ns)" "z \<in> insert h (set ns)" for x z
    using sp that by (auto simp: spaced_def)
  have mem: "p \<in> insert h (set ns)" "q \<in> insert h (set ns)" "n \<in> insert h (set ns)" using pin qin ns by auto
  define m' where "m' = m(p + 4 := of_nat q, q := of_nat p)"
  have pn: "p \<noteq> n" "q \<noteq> n" "n \<noteq> p + 4" "n + 4 \<noteq> q" "q \<noteq> p + 4" "p + 4 \<noteq> q" using ne mem pin qin dis nu by auto
  have run: "list_erase n s = s\<lparr>mem := m'\<rparr>"
    using ch(3,4) un [OF mem(1)] un [OF mem(2)] pn s
    by (simp add: list_erase_def Let_def set_node_prev_def set_node_next_def node_next_def node_prev_def m'_def)
  have "chain m' (ps @ [p])"
  proof (subst chain_frame [where m = m])
    show "m' (x + 4) = m (x + 4)" if "x \<in> set (butlast (ps @ [p]))" for x
    proof -
      have "x \<in> set ps" using that by simp
      moreover have "distinct (ps @ [p])" using dis(1) unfolding p .
      ultimately have "x \<noteq> p" "x \<in> insert h (set ns)" using pin(2) ns by auto
      then show ?thesis using ne [OF mem(2), of x] by (auto simp: m'_def)
    qed
    show "m' x = m x" if "x \<in> set (tl (ps @ [p]))" for x
    proof -
      have "x \<in> set us" using that unfolding p [symmetric] by simp
      then have "x \<noteq> q" "x \<in> insert h (set ns)" using qin(1) dis ns by auto
      then show ?thesis using ne [of x p] mem(1) by (auto simp: m'_def)
    qed
  qed (rule ch(1))
  moreover have "chain m' (q # qs)"
  proof (subst chain_frame [where m = m])
    show "m' (x + 4) = m (x + 4)" if "x \<in> set (butlast (q # qs))" for x
    proof -
      have "x \<in> set vs" using that unfolding q [symmetric] by simp
      then have "x \<noteq> p" "x \<in> insert h (set ns)" using pin(1) dis ns by auto
      then show ?thesis using ne [OF mem(2), of x] by (auto simp: m'_def)
    qed
    show "m' x = m x" if "x \<in> set (tl (q # qs))" for x
    proof -
      have "distinct (q # qs)" using dis(2) unfolding q .
      then have "x \<noteq> q" "x \<in> insert h (set ns)" using that qin(2) ns by auto
      then show ?thesis using ne [of x p] mem(1) by (auto simp: m'_def)
    qed
  qed (rule ch(6))
  ultimately have "chain m' (ps @ p # q # qs)"
    using chain_append [of m' ps p "q # qs"] pn by (simp add: m'_def)
  then have "chain m' (h # (us @ vs) @ [h])" by (metis p q append.assoc append_Cons append_Nil)
  moreover have "remove1 n ns = us @ vs" using ns nu by (simp add: remove1_append)
  ultimately have "dll m' h (remove1 n ns)" using d ns by (simp add: dll_def)
  moreover have "m' w = m w" if "\<forall>x \<in> insert h (set ns). w \<noteq> x \<and> w \<noteq> x + 4" for w
    using that mem by (auto simp: m'_def)
  ultimately show ?thesis using run by blast
qed

lemma dll_node:
  assumes d: "dll m h ns" and f: "f \<in> set ns" and lt: "\<And>x. x \<in> insert h (set ns) \<Longrightarrow> x < 2 ^ 32" and s: "mem s = m"
  shows "node_next (node_prev f s) s = f" "node_prev (node_next f s) s = f"
proof -
  obtain us vs where ns: "ns = us @ f # vs" using split_list [OF f] by blast
  obtain ps p where p: "h # us = ps @ [p]" by (cases "h # us" rule: rev_cases) auto
  obtain q qs where q: "vs @ [h] = q # qs" by (cases vs) auto
  have "chain m (ps @ p # f # q # qs)" using d unfolding dll_def ns by (metis p q append.assoc append_Cons append_Nil)
  then have "m (p + 4) = of_nat f" "m f = of_nat p" "m (f + 4) = of_nat q" "m q = of_nat f"
    using chain_append [of m ps p "f # q # qs"] by auto
  moreover have "p \<in> insert h (set ns)" "q \<in> insert h (set ns)"
    using p q ns by (metis Un_iff in_set_conv_decomp insert_iff list.set(2) set_append)+
  ultimately show "node_next (node_prev f s) s = f" "node_prev (node_next f s) s = f"
    using lt f s by (simp_all add: node_next_def node_prev_def unat_of_nat)
qed

section \<open>Loops over a list\<close>

definition sized :: "mm_state \<Rightarrow> (nat \<Rightarrow> nat option) \<Rightarrow> nat set \<Rightarrow> bool" where
  "sized s F A \<longleftrightarrow> (\<forall>f \<in> A. \<exists>n. F f = Some n \<and> bsize n \<and> get_size (header_ptr f) s = of_nat n)"

lemma chain_next:
  "chain (mem s) (f # zs @ [h]) \<Longrightarrow> \<forall>x \<in> insert h (set zs). x < 2 ^ 32 \<Longrightarrow>
   node_next f s = hd (zs @ [h]) \<and> chain (mem s) (zs @ [h])"
  by (cases zs) (auto simp: node_next_def unat_of_nat)

lemma list_first_ok:
  assumes "chain (mem s) (zs @ [h])" "h \<notin> set zs" "\<forall>x \<in> insert h (set zs). x < 2 ^ 32"
    and "sized s F (set zs)" "length zs < fuel"
  shows "\<exists>r. list_first_loop fuel k h (hd (zs @ [h])) s = Inr r \<and> fits (F |` set zs) k r"
  using assms
proof (induction zs arbitrary: fuel)
  case Nil
  then obtain g where "fuel = Suc g" by (cases fuel) auto
  then show ?case by (simp add: list_end_def fits_def)
next
  case (Cons f zs)
  obtain g where g: "fuel = Suc g" "length zs < g" using Cons.prems by (cases fuel) auto
  obtain n where n: "F f = Some n" "bsize n" "get_size (header_ptr f) s = of_nat n" using Cons.prems(4) by (auto simp: sized_def)
  have nx: "node_next f s = hd (zs @ [h])" "chain (mem s) (zs @ [h])"
    using chain_next [of s f zs h] Cons.prems(1,3) by auto
  have fh: "f \<noteq> h" using Cons.prems(2) by auto
  show ?case
  proof (cases "unat k \<le> n")
    case True
    then show ?thesis using g n fh by (auto simp: list_end_def word_le_of_nat fits_def)
  next
    case False
    obtain r where r: "list_first_loop g k h (hd (zs @ [h])) s = Inr r" "fits (F |` set zs) k r"
      using Cons.IH [OF nx(2) _ _ _ g(2)] Cons.prems(2-4) by (auto simp: sized_def)
    have "fits (F |` set (f # zs)) k r"
      using r(2) False n(1) by (auto simp: fits_def restrict_map_def split: option.splits if_splits)
    then show ?thesis using g n fh nx r(1) False by (auto simp: list_end_def word_le_of_nat)
  qed
qed

lemma list_best_ok:
  assumes "chain (mem s) (zs @ [h])" "h \<notin> set zs" "\<forall>x \<in> insert h (set zs). x < 2 ^ 32"
    and "sized s F (set zs)" "length zs < fuel" "distinct zs"
  shows "\<exists>r. list_best_loop fuel k h (hd (zs @ [h])) b z s = Inr r \<and> best_of (F |` set zs) k b (unat z) r"
  using assms
proof (induction zs arbitrary: fuel b z)
  case Nil
  then obtain g where "fuel = Suc g" by (cases fuel) auto
  then show ?case by (simp add: list_end_def best_of_def)
next
  case (Cons f zs)
  obtain g where g: "fuel = Suc g" "length zs < g" using Cons.prems by (cases fuel) auto
  obtain n where n: "F f = Some n" "bsize n" "get_size (header_ptr f) s = of_nat n" using Cons.prems(4) by (auto simp: sized_def)
  have nx: "node_next f s = hd (zs @ [h])" "chain (mem s) (zs @ [h])"
    using chain_next [of s f zs h] Cons.prems(1,3) by auto
  have fh: "f \<noteq> h" "f \<notin> set zs" using Cons.prems(2,6) by auto
  have none: "(F |` set zs) f = None" using fh(2) by simp
  have upd: "F |` set (f # zs) = (F |` set zs)(f \<mapsto> n)" using n(1) by (auto simp: restrict_map_def fun_eq_iff)
  have less: "of_nat n < z \<longleftrightarrow> n < unat z" using n(2) by (simp add: word_less_nat_alt)
  have IH: "\<exists>r. list_best_loop g k h (hd (zs @ [h])) b z s = Inr r \<and> best_of (F |` set zs) k b (unat z) r" for b z
    using Cons.IH [OF nx(2)] Cons.prems(2-4,6) g(2) by (auto simp: sized_def)
  show ?case
  proof (cases "unat k \<le> n \<and> n < unat z")
    case True
    obtain r where r: "list_best_loop g k h (hd (zs @ [h])) (Some f) (of_nat n) s = Inr r" "best_of (F |` set zs) k (Some f) n r"
      using IH [of "Some f" "of_nat n"] n(2) by auto
    have "best_of (F |` set (f # zs)) k b (unat z) r" unfolding upd using best_of_step(1) [OF none r(2)] True by simp
    then show ?thesis using g n fh nx r(1) True less by (auto simp: list_end_def word_le_of_nat Let_def)
  next
    case False
    obtain r where r: "list_best_loop g k h (hd (zs @ [h])) b z s = Inr r" "best_of (F |` set zs) k b (unat z) r"
      using IH [of b z] by auto
    have "best_of (F |` set (f # zs)) k b (unat z) r" unfolding upd using best_of_step(2) [OF none r(2)] False by simp
    then show ?thesis using g n fh nx r(1) False less by (auto simp: list_end_def word_le_of_nat Let_def)
  qed
qed

lemma check_list_ok:
  assumes "chain (mem s) (zs @ [h])" "h \<notin> set zs" "\<forall>x \<in> insert h (set zs). x < 2 ^ 32"
    and "\<forall>f \<in> set zs. check_node lo hi f s" "length zs < fuel"
  shows "check_list_loop fuel lo hi h (hd (zs @ [h])) s = Inr ()"
  using assms
proof (induction zs arbitrary: fuel)
  case Nil
  then obtain g where "fuel = Suc g" by (cases fuel) auto
  then show ?case by (simp add: list_end_def)
next
  case (Cons f zs)
  obtain g where g: "fuel = Suc g" "length zs < g" using Cons.prems by (cases fuel) auto
  have nx: "node_next f s = hd (zs @ [h])" "chain (mem s) (zs @ [h])"
    using chain_next [of s f zs h] Cons.prems(1,3) by auto
  have "check_list_loop g lo hi h (hd (zs @ [h])) s = Inr ()"
    using Cons.IH [OF nx(2)] Cons.prems(2-4) g(2) by simp
  then show ?case using g nx(1) Cons.prems(2,4) by (simp add: list_end_def)
qed

end
