(* ===== verification/Mm_Lists.thy ===== *)
theory Mm_Lists
  imports Mm_Links
begin

text \<open>
  The explicit list and the segregated lists as free lists.  Both keep every free block in one of a
  number of linked lists, chosen by a size class; the explicit organisation has a single class.
\<close>

section \<open>Lists by size class\<close>

definition lists_inv :: "nat \<Rightarrow> (nat \<Rightarrow> nat) \<Rightarrow> (nat \<Rightarrow> uint32) \<Rightarrow> nat \<Rightarrow> (nat \<Rightarrow> nat option) \<Rightarrow> bool" where
  "lists_inv num cls m L F \<longleftrightarrow>
     4 dvd L \<and> L + 80 \<le> 2 ^ 32 \<and> (\<forall>f \<in> dom F. link_ok L f) \<and>
     (\<exists>nss. length nss = num \<and> (\<forall>i < num. dll m (L + 8 * i) (nss ! i)) \<and>
        (\<forall>f. f \<in> dom F \<longleftrightarrow> (\<exists>i < num. f \<in> set (nss ! i))) \<and>
        (\<forall>i < num. \<forall>f \<in> set (nss ! i). cls (the (F f)) = i))"

lemma spaced_cells:
  assumes "4 dvd L" "L + 80 \<le> 2 ^ 32" "\<forall>f \<in> A. link_ok L f"
  shows "spaced ((\<lambda>i. L + 8 * i) ` {..<10} \<union> A)"
proof -
  have f: "f < 2 ^ 32 \<and> 8 dvd f \<and> (f + 8 \<le> L \<or> L + 80 \<le> f)" if "f \<in> A" for f
    using assms(3) that by (auto simp: link_ok_def)
  have hh: "L + 8 * i \<noteq> L + 8 * j + 4" for i j by presburger
  have ff: "f \<noteq> g + 4" if "f \<in> A" "g \<in> A" for f g
  proof -
    have "8 dvd f" "8 dvd g" using f that by blast+
    then show ?thesis by presburger
  qed
  have "x < 2 ^ 32 \<and> (\<forall>y \<in> (\<lambda>i. L + 8 * i) ` {..<10} \<union> A. x \<noteq> y + 4)" if "x \<in> (\<lambda>i. L + 8 * i) ` {..<10} \<union> A" for x
    using that
  proof
    assume "x \<in> (\<lambda>i. L + 8 * i) ` {..<10}"
    then obtain i where i: "x = L + 8 * i" "i < 10" by auto
    then show ?thesis using hh f assms(2) by fastforce
  next
    assume "x \<in> A"
    then show ?thesis using f [of x] ff by fastforce
  qed
  then show ?thesis by (simp add: spaced_def)
qed

lemma link_not_head: "link_ok L f \<Longrightarrow> i < 10 \<Longrightarrow> f \<noteq> L + 8 * i"
  by (auto simp: link_ok_def)

lemma dll_other:
  assumes "dll m h ns" "\<And>w. \<forall>x \<in> A. w \<noteq> x \<and> w \<noteq> x + 4 \<Longrightarrow> m' w = m w"
    and "A \<inter> insert h (set ns) = {}" "spaced (A \<union> insert h (set ns))"
  shows "dll m' h ns"
proof (rule dll_frame [OF assms(1)])
  fix x assume x: "x \<in> insert h (set ns)"
  then have "x \<noteq> y" "x \<noteq> y + 4" "y \<noteq> x + 4" if "y \<in> A" for y
    using that assms(3,4) by (auto simp: spaced_def)
  then show "m' x = m x \<and> m' (x + 4) = m (x + 4)" by (intro conjI assms(2)) auto
qed

locale linked_lists =
  fixes num :: nat and cls :: "nat \<Rightarrow> nat"
  assumes num: "num \<le> 10" and cls: "cls n < num"
begin

lemma lists_frame:
  assumes "lists_inv num cls m L F" "same_in m m' ({L..<L + 80} \<union> link_slots 16 (dom F))"
  shows "lists_inv num cls m' L F"
proof -
  obtain nss where nss: "length nss = num" "\<forall>i < num. dll m (L + 8 * i) (nss ! i)"
    "\<forall>f. f \<in> dom F \<longleftrightarrow> (\<exists>i < num. f \<in> set (nss ! i))" "\<forall>i < num. \<forall>f \<in> set (nss ! i). cls (the (F f)) = i"
    using assms(1) by (auto simp: lists_inv_def)
  have "dll m' (L + 8 * i) (nss ! i)" if "i < num" for i
  proof (rule dll_frame)
    show "dll m (L + 8 * i) (nss ! i)" using nss(2) that by simp
    fix x assume "x \<in> insert (L + 8 * i) (set (nss ! i))"
    then have "x = L + 8 * i \<or> x \<in> dom F" using nss(3) that by blast
    then have "x \<in> {L..<L + 80} \<union> link_slots 16 (dom F) \<and> x + 4 \<in> {L..<L + 80} \<union> link_slots 16 (dom F)"
      using that num by (auto simp: link_slots_def)
    then show "m' x = m x \<and> m' (x + 4) = m (x + 4)" using assms(2) by (simp add: same_in_def)
  qed
  then show ?thesis using assms(1) nss unfolding lists_inv_def by blast
qed

lemma lists_insert:
  assumes I: "lists_inv num cls (mem s) L F" and bp: "F bp = None" "link_ok L bp"
  shows "\<exists>m'. list_push_front (L + 8 * cls n) bp s = s\<lparr>mem := m'\<rparr> \<and> lists_inv num cls m' L (F(bp \<mapsto> n)) \<and>
    same_in (mem s) m' (- ({L..<L + 80} \<union> link_slots 16 (insert bp (dom F))))"
proof -
  obtain nss where nss: "length nss = num" "\<forall>i < num. dll (mem s) (L + 8 * i) (nss ! i)"
    "\<forall>f. f \<in> dom F \<longleftrightarrow> (\<exists>i < num. f \<in> set (nss ! i))" "\<forall>i < num. \<forall>f \<in> set (nss ! i). cls (the (F f)) = i"
    using I by (auto simp: lists_inv_def)
  have lok: "\<forall>f \<in> insert bp (dom F). link_ok L f" and L: "4 dvd L" "L + 80 \<le> 2 ^ 32"
    using I bp(2) by (auto simp: lists_inv_def)
  let ?i = "cls n" and ?cells = "(\<lambda>i. L + 8 * i) ` {..<10} \<union> insert bp (dom F)"
  let ?h = "L + 8 * ?i"
  have sp: "spaced ?cells" by (rule spaced_cells [OF L lok])
  have i: "?i < num" "?i < 10" using cls [of n] num by auto
  have hd: "?h \<in> ?cells" "?h \<notin> insert bp (dom F)" using i lok link_not_head by blast+
  have sub: "insert bp (insert ?h (set (nss ! ?i))) \<subseteq> ?cells" using hd nss(3) i by auto
  have bpn: "bp \<notin> insert ?h (set (nss ! ?i))" using hd bp(1) nss(3) i by auto
  obtain m' where m': "list_push_front ?h bp s = s\<lparr>mem := m'\<rparr>" "dll m' ?h (bp # nss ! ?i)"
    "\<forall>w. (\<forall>x \<in> insert bp (insert ?h (set (nss ! ?i))). w \<noteq> x \<and> w \<noteq> x + 4) \<longrightarrow> m' w = mem s w"
    using push_front_dll [of "mem s" ?h "nss ! ?i" bp s] nss(2) i(1) bpn spaced_subset [OF sp sub] by auto
  define nss' where "nss' = nss[?i := bp # nss ! ?i]"
  have dl: "dll m' (L + 8 * j) (nss' ! j)" if j: "j < num" for j
  proof (cases "j = ?i")
    case True
    then show ?thesis using m'(2) nss(1) i by (simp add: nss'_def)
  next
    case False
    let ?A = "insert bp (insert ?h (set (nss ! ?i)))"
    have "dll m' (L + 8 * j) (nss ! j)"
    proof (rule dll_other [where A = ?A])
      show "dll (mem s) (L + 8 * j) (nss ! j)" using nss(2) j by simp
      have sj: "insert (L + 8 * j) (set (nss ! j)) \<subseteq> ?cells" using nss(3) j num by auto
      then show "spaced (?A \<union> insert (L + 8 * j) (set (nss ! j)))" by (intro spaced_subset [OF sp]) (use sub in auto)
      have "x \<notin> set (nss ! j)" if "x \<in> set (nss ! ?i)" for x using nss(4) that i(1) j False by metis
      moreover have "bp \<notin> insert (L + 8 * j) (set (nss ! j))" "?h \<notin> set (nss ! j)" "L + 8 * j \<notin> set (nss ! ?i)"
        using bp nss(3) i j num lok link_not_head [of L] hd(2) by (blast intro: order.strict_trans2)+
      ultimately show "?A \<inter> insert (L + 8 * j) (set (nss ! j)) = {}" using False by auto
    qed (use m'(3) in blast)
    then show ?thesis using False by (simp add: nss'_def)
  qed
  have "lists_inv num cls m' L (F(bp \<mapsto> n))"
    unfolding lists_inv_def
  proof (intro conjI exI [of _ nss'])
    show "\<forall>f \<in> dom (F(bp \<mapsto> n)). link_ok L f" using lok by simp
    show "length nss' = num" using nss(1) by (simp add: nss'_def)
    show "\<forall>i < num. dll m' (L + 8 * i) (nss' ! i)" using dl by blast
    show "\<forall>f. (f \<in> dom (F(bp \<mapsto> n))) = (\<exists>i < num. f \<in> set (nss' ! i))"
      using nss(1,3) i(1) by (auto simp: nss'_def nth_list_update)
    show "\<forall>i < num. \<forall>f \<in> set (nss' ! i). cls (the ((F(bp \<mapsto> n)) f)) = i"
      using nss(1,3,4) i(1) bp(1) by (auto simp: nss'_def nth_list_update)
  qed (use L in auto)
  moreover have "same_in (mem s) m' (- ({L..<L + 80} \<union> link_slots 16 (insert bp (dom F))))"
    unfolding same_in_def
  proof
    fix w assume w: "w \<in> - ({L..<L + 80} \<union> link_slots 16 (insert bp (dom F)))"
    have "w \<noteq> x \<and> w \<noteq> x + 4" if "x \<in> insert bp (insert ?h (set (nss ! ?i)))" for x
    proof -
      from that have "x = ?h \<or> x \<in> insert bp (dom F)" using nss(3) i(1) by blast
      then show ?thesis using w i by (auto simp: link_slots_def)
    qed
    then show "m' w = mem s w" using m'(3) by blast
  qed
  ultimately show ?thesis using m'(1) by blast
qed

lemma lists_erase:
  assumes I: "lists_inv num cls (mem s) L F" and bp: "bp \<in> dom F"
  shows "\<exists>m'. list_erase bp s = s\<lparr>mem := m'\<rparr> \<and> lists_inv num cls m' L (F(bp := None)) \<and>
    same_in (mem s) m' (- ({L..<L + 80} \<union> link_slots 16 (dom F)))"
proof -
  obtain nss where nss: "length nss = num" "\<forall>i < num. dll (mem s) (L + 8 * i) (nss ! i)"
    "\<forall>f. f \<in> dom F \<longleftrightarrow> (\<exists>i < num. f \<in> set (nss ! i))" "\<forall>i < num. \<forall>f \<in> set (nss ! i). cls (the (F f)) = i"
    using I by (auto simp: lists_inv_def)
  have lok: "\<forall>f \<in> dom F. link_ok L f" and L: "4 dvd L" "L + 80 \<le> 2 ^ 32" using I by (auto simp: lists_inv_def)
  obtain i where i: "i < num" "bp \<in> set (nss ! i)" "i < 10" using nss(3) bp num by fastforce
  let ?h = "L + 8 * i" and ?cells = "(\<lambda>i. L + 8 * i) ` {..<10} \<union> dom F"
  have sp: "spaced ?cells" by (rule spaced_cells [OF L lok])
  have sub: "insert ?h (set (nss ! i)) \<subseteq> ?cells" using nss(3) i by auto
  obtain m' where m': "list_erase bp s = s\<lparr>mem := m'\<rparr>" "dll m' ?h (remove1 bp (nss ! i))"
    "\<forall>w. (\<forall>x \<in> insert ?h (set (nss ! i)). w \<noteq> x \<and> w \<noteq> x + 4) \<longrightarrow> m' w = mem s w"
    using erase_dll [of "mem s" ?h "nss ! i" bp s] nss(2) i spaced_subset [OF sp sub] by auto
  define nss' where "nss' = nss[i := remove1 bp (nss ! i)]"
  have dis: "distinct (nss ! i)" using nss(2) i by (auto simp: dll_def)
  have once: "j = i" if "bp \<in> set (nss ! j)" "j < num" for j using nss(4) that i by metis
  have dl: "dll m' (L + 8 * j) (nss' ! j)" if j: "j < num" for j
  proof (cases "j = i")
    case True
    then show ?thesis using m'(2) nss(1) i by (simp add: nss'_def)
  next
    case False
    let ?A = "insert ?h (set (nss ! i))"
    have "dll m' (L + 8 * j) (nss ! j)"
    proof (rule dll_other [where A = ?A])
      show "dll (mem s) (L + 8 * j) (nss ! j)" using nss(2) j by simp
      have sj: "insert (L + 8 * j) (set (nss ! j)) \<subseteq> ?cells" using nss(3) j num by auto
      then show "spaced (?A \<union> insert (L + 8 * j) (set (nss ! j)))" by (intro spaced_subset [OF sp]) (use sub in auto)
      have "x \<notin> set (nss ! j)" if "x \<in> set (nss ! i)" for x using nss(4) that i(1) j False by metis
      moreover have "?h \<notin> set (nss ! j)" "L + 8 * j \<notin> set (nss ! i)"
        using nss(3) i j num lok link_not_head [of L] by (blast intro: order.strict_trans2)+
      ultimately show "?A \<inter> insert (L + 8 * j) (set (nss ! j)) = {}" using False by auto
    qed (use m'(3) in blast)
    then show ?thesis using False by (simp add: nss'_def)
  qed
  have "lists_inv num cls m' L (F(bp := None))"
    unfolding lists_inv_def
  proof (intro conjI exI [of _ nss'])
    show "\<forall>f \<in> dom (F(bp := None)). link_ok L f" using lok by simp
    show "length nss' = num" using nss(1) by (simp add: nss'_def)
    show "\<forall>i < num. dll m' (L + 8 * i) (nss' ! i)" using dl by blast
    have sets: "set (nss' ! j) = set (nss ! j) - {bp}" if "j < num" for j
      using nss(1) that dis once [of j] by (cases "j = i") (auto simp: nss'_def)
    show "\<forall>f. (f \<in> dom (F(bp := None))) = (\<exists>i < num. f \<in> set (nss' ! i))"
      using nss(3) sets by (auto 4 3)
    show "\<forall>i < num. \<forall>f \<in> set (nss' ! i). cls (the ((F(bp := None)) f)) = i"
      using nss(4) sets by auto
  qed (use L in auto)
  moreover have "same_in (mem s) m' (- ({L..<L + 80} \<union> link_slots 16 (dom F)))"
    unfolding same_in_def
  proof
    fix w assume w: "w \<in> - ({L..<L + 80} \<union> link_slots 16 (dom F))"
    have "w \<noteq> x \<and> w \<noteq> x + 4" if "x \<in> insert ?h (set (nss ! i))" for x
    proof -
      from that have "x = ?h \<or> x \<in> dom F" using nss(3) i(1) by blast
      then show ?thesis using w i by (auto simp: link_slots_def)
    qed
    then show "m' w = mem s w" using m'(3) by blast
  qed
  ultimately show ?thesis using m'(1) by blast
qed

definition class_of :: "(nat \<Rightarrow> nat option) \<Rightarrow> nat \<Rightarrow> nat set" where
  "class_of F i = {f \<in> dom F. cls (the (F f)) = i}"

lemma lists_chain:
  assumes I: "lists_inv num cls (mem s) L F" and i: "i < num" and fin: "finite (dom F)" "card (dom F) < fuel"
  obtains ns where "chain (mem s) (ns @ [L + 8 * i])" "L + 8 * i \<notin> set ns" "\<forall>x \<in> insert (L + 8 * i) (set ns). x < 2 ^ 32"
    "length ns < fuel" "distinct ns" "set ns = class_of F i" "list_begin (L + 8 * i) s = hd (ns @ [L + 8 * i])"
    "dll (mem s) (L + 8 * i) ns"
proof -
  obtain nss where nss: "\<forall>i < num. dll (mem s) (L + 8 * i) (nss ! i)"
    "\<forall>f. f \<in> dom F \<longleftrightarrow> (\<exists>i < num. f \<in> set (nss ! i))" "\<forall>i < num. \<forall>f \<in> set (nss ! i). cls (the (F f)) = i"
    using I by (auto simp: lists_inv_def)
  let ?ns = "nss ! i" and ?h = "L + 8 * i"
  have d: "dll (mem s) ?h ?ns" using nss(1) i by simp
  have set: "set ?ns = class_of F i" using nss(2,3) i by (auto simp: class_of_def)
  have lt: "\<forall>x \<in> insert ?h (set ?ns). x < 2 ^ 32"
  proof
    fix x assume "x \<in> insert ?h (set ?ns)"
    then consider "x = ?h" | "x \<in> dom F" using nss(2) i by blast
    then show "x < 2 ^ 32"
    proof cases
      case 1
      then show ?thesis using I i num by (simp add: lists_inv_def)
    next
      case 2
      then have "link_ok L x" using I by (simp add: lists_inv_def)
      then show ?thesis by (simp add: link_ok_def)
    qed
  qed
  have "length ?ns = card (set ?ns)" using d by (simp add: dll_def distinct_card)
  also have "\<dots> \<le> card (dom F)" unfolding set by (rule card_mono [OF fin(1)]) (auto simp: class_of_def)
  finally have "length ?ns < fuel" using fin(2) by simp
  moreover have "node_next ?h s = hd (?ns @ [?h])" "chain (mem s) (?ns @ [?h])"
    using chain_next [of s ?h ?ns ?h] d lt by (auto simp: dll_def)
  ultimately show ?thesis using that [of ?ns] d lt set by (auto simp: dll_def list_begin_def)
qed

end

lemma card_free_at: "finite (dom (free_at a rs)) \<and> card (dom (free_at a rs)) \<le> length rs"
proof (induction a rs rule: free_at.induct)
  case (2 a n al bs)
  have "finite (dom (free_at (a + n) bs)) \<and> card (dom (free_at (a + n) bs)) \<le> length bs" using 2 by (cases al) auto
  moreover have sub: "dom (free_at a ((n, al) # bs)) \<subseteq> insert a (dom (free_at (a + n) bs))" by (cases al) auto
  ultimately have D: "finite (insert a (dom (free_at (a + n) bs)))" "card (insert a (dom (free_at (a + n) bs))) \<le> Suc (length bs)"
    by (simp_all add: card_insert_if)
  from card_mono [OF D(1) sub] finite_subset [OF sub D(1)] D(2) show ?case by simp
qed simp

lemma sized_heap:
  assumes "min_size_ok mb" "layout s" "heap_rep mb s rs"
  shows "sized s (free_at (first_blk s) rs) (dom (free_at (first_blk s) rs))"
    and "free_at (first_blk s) rs f = Some n \<Longrightarrow> get_alloc (header_ptr f) s = 0"
proof -
  have h: "\<exists>pa. mem s (f - 4) = hdr n pa False \<and> bsize n" if fr: "free_at (first_blk s) rs f = Some n" for f n
  proof -
    obtain us vs where "rs = us @ (n, False) # vs" "f = first_blk s + blen us" using free_at_list [OF fr] by blast
    then show ?thesis using heap_block(1,2) [OF assms(1,2), of us n False vs f] assms(3) by blast
  qed
  show "sized s (free_at (first_blk s) rs) (dom (free_at (first_blk s) rs))"
    unfolding sized_def using h by (fastforce simp: header_ptr_def hdr_get)
  show "free_at (first_blk s) rs f = Some n \<Longrightarrow> get_alloc (header_ptr f) s = 0"
    using h [of f n] by (auto simp: header_ptr_def hdr_get)
qed

section \<open>The explicit list\<close>

interpretation one: linked_lists 1 "\<lambda>_. 0"
  by unfold_locales simp_all

definition explicit_inv :: "(nat \<Rightarrow> uint32) \<Rightarrow> nat \<Rightarrow> (nat \<Rightarrow> nat option) \<Rightarrow> bool" where
  "explicit_inv = lists_inv 1 (\<lambda>_. 0)"

lemma explicit_class: "one.class_of F 0 = dom F"
  by (simp add: one.class_of_def)

lemma explicit_search:
  assumes lay: "layout s" and rep: "heap_rep 16 s rs" and I: "explicit_inv (mem s) (list_addr s) (free_at (first_blk s) rs)"
  shows "\<exists>r. explicit_find_first_fit k s = Inr r \<and> fits (free_at (first_blk s) rs) k r"
    and "\<exists>r. explicit_find_best_fit k s = Inr r \<and> best_of (free_at (first_blk s) rs) k None (2 ^ 32 - 1) r"
    and "explicit_mm_check s = mm_check_heap EXPLICIT_MIN_BLOCK_SIZE s"
proof -
  let ?F = "free_at (first_blk s) rs" and ?h = "list_addr s"
  have mb: "min_size_ok 16" by (simp add: min_size_ok_def)
  have fu: "finite (dom ?F)" "card (dom ?F) < mem_heapsize s + 1"
    using card_free_at [of "first_blk s" rs] heap_fuel [OF mb rep] by auto
  obtain ns where "chain (mem s) (ns @ [?h + 8 * 0])" "?h + 8 * 0 \<notin> set ns" "\<forall>x \<in> insert (?h + 8 * 0) (set ns). x < 2 ^ 32"
    "length ns < mem_heapsize s + 1" "distinct ns" "set ns = one.class_of ?F 0"
    "list_begin (?h + 8 * 0) s = hd (ns @ [?h + 8 * 0])" "dll (mem s) (?h + 8 * 0) ns"
    using one.lists_chain [OF I [unfolded explicit_inv_def] _ fu, of 0] by auto
  then have ns: "chain (mem s) (ns @ [?h])" "?h \<notin> set ns" "\<forall>x \<in> insert ?h (set ns). x < 2 ^ 32"
    "length ns < mem_heapsize s + 1" "distinct ns" "set ns = dom ?F"
    "list_begin ?h s = hd (ns @ [?h])" "dll (mem s) ?h ns"
    by (simp_all add: explicit_class)
  have sz: "sized s ?F (set ns)" using sized_heap(1) [OF mb lay rep] ns(6) by simp
  have re: "?F |` set ns = ?F" by (auto simp: ns(6) restrict_map_def fun_eq_iff domIff)
  show "\<exists>r. explicit_find_first_fit k s = Inr r \<and> fits ?F k r"
    using list_first_ok [OF ns(1-3) sz ns(4), of k] re ns(7)
    by (simp add: explicit_find_first_fit_def explicit_free_list_def del: list_first_loop.simps)
  show "\<exists>r. explicit_find_best_fit k s = Inr r \<and> best_of ?F k None (2 ^ 32 - 1) r"
    using list_best_ok [OF ns(1-3) sz ns(4,5), of k None SIZE_MAX] re ns(7)
    by (simp add: explicit_find_best_fit_def explicit_free_list_def SIZE_MAX_def del: list_best_loop.simps)
  have "check_node 0 SIZE_MAX f s" if "f \<in> set ns" for f
  proof -
    have "get_alloc (header_ptr f) s = 0" using sized_heap(2) [OF mb lay rep, of f] that ns(6) by auto
    moreover have "get_size (header_ptr f) s \<le> SIZE_MAX"
      using unat32_less [of "get_size (header_ptr f) s"] by (simp add: SIZE_MAX_def word_le_nat_alt)
    moreover have "\<And>x. x \<in> insert ?h (set ns) \<Longrightarrow> x < 2 ^ 32" using ns(3) by blast
    ultimately show ?thesis using dll_node [OF ns(8) that _ refl] by (simp add: check_node_def)
  qed
  then have "check_list_loop (mem_heapsize s + 1) 0 SIZE_MAX ?h (list_begin ?h s) s = Inr ()"
    unfolding ns(7) by (intro check_list_ok [OF ns(1-3) _ ns(4)]) blast
  then show "explicit_mm_check s = mm_check_heap EXPLICIT_MIN_BLOCK_SIZE s"
    by (cases "mm_check_heap EXPLICIT_MIN_BLOCK_SIZE s")
      (simp_all add: explicit_mm_check_def explicit_free_list_def del: check_list_loop.simps)
qed

interpretation explicit: free_list "explicit_ops ff" 16 explicit_inv
proof unfold_locales
  fix s :: mm_state and m m' L F bp n pa al rs k
  show "min_size_ok 16" by (simp add: min_size_ok_def)
  show "MIN_BLOCK_SIZE (explicit_ops ff) = of_nat 16" by (simp add: explicit_ops_def EXPLICIT_MIN_BLOCK_SIZE_def)
  show "explicit_inv m' L F" if "explicit_inv m L F" "same_in m m' ({L..<L + 80} \<union> link_slots 16 (dom F))"
    using that one.lists_frame by (simp add: explicit_inv_def)
  show "\<exists>m'. free_list_init (explicit_ops ff) s = s\<lparr>mem := m'\<rparr> \<and> explicit_inv m' (list_addr s) Map.empty \<and>
      same_in (mem s) m' (- {list_addr s..<list_addr s + 80})" if "4 dvd list_addr s" "list_addr s + 80 \<le> 2 ^ 32"
  proof -
    let ?m = "mem (list_init (list_addr s) s)"
    have "explicit_inv ?m (list_addr s) Map.empty"
      using that list_init_dll [of "list_addr s" s] unfolding explicit_inv_def lists_inv_def
      by (auto intro!: exI [of _ "[[]]"])
    moreover have "free_list_init (explicit_ops ff) s = s\<lparr>mem := ?m\<rparr>"
      by (simp add: explicit_ops_def explicit_free_list_init_def explicit_free_list_def list_init_mem)
    ultimately show ?thesis by (auto simp: same_in_def list_init_mem intro!: exI [of _ ?m])
  qed
  show "\<exists>m'. free_list_insert (explicit_ops ff) bp s = Inr (s\<lparr>mem := m'\<rparr>) \<and> explicit_inv m' (list_addr s) (F(bp \<mapsto> n)) \<and>
      same_in (mem s) m' (- ({list_addr s..<list_addr s + 80} \<union> link_slots 16 (insert bp (dom F))))"
    if "explicit_inv (mem s) (list_addr s) F" "F bp = None" "link_ok (list_addr s) bp"
    using one.lists_insert [OF that [unfolded explicit_inv_def], of n]
    by (auto simp: explicit_ops_def explicit_free_list_insert_def explicit_free_list_def explicit_inv_def)
  show "\<exists>m'. free_list_erase (explicit_ops ff) bp s = Inr (s\<lparr>mem := m'\<rparr>) \<and> explicit_inv m' (list_addr s) (F(bp := None)) \<and>
      same_in (mem s) m' (- ({list_addr s..<list_addr s + 80} \<union> link_slots 16 (dom F)))"
    if "explicit_inv (mem s) (list_addr s) F" "bp \<in> dom F"
    using one.lists_erase [OF that [unfolded explicit_inv_def]]
    by (auto simp: explicit_ops_def explicit_free_list_erase_def explicit_inv_def)
  show "\<exists>m'. free_list_update (explicit_ops ff) bp s = Inr (s\<lparr>mem := m'\<rparr>) \<and> explicit_inv m' (list_addr s) (F(bp \<mapsto> n)) \<and>
      same_in (mem s) m' (- ({list_addr s..<list_addr s + 80} \<union> link_slots 16 (dom F)))"
    if "explicit_inv (mem s) (list_addr s) F" "bp \<in> dom F"
  proof -
    have "explicit_inv (mem s) (list_addr s) (F(bp \<mapsto> n))"
      using that unfolding explicit_inv_def lists_inv_def by (auto simp: insert_absorb)
    then show ?thesis by (auto simp: explicit_ops_def explicit_free_list_update_def same_in_def intro!: exI [of _ "mem s"])
  qed
  show "\<exists>r. find_fit (explicit_ops ff) k s = Inr r \<and>
      (case r of Some bp \<Rightarrow> \<exists>n. free_at (first_blk s) rs bp = Some n \<and> unat k \<le> n
       | None \<Rightarrow> \<forall>bp n. free_at (first_blk s) rs bp = Some n \<longrightarrow> n < unat k)"
    if "layout s" "heap_rep 16 s rs" "explicit_inv (mem s) (list_addr s) (free_at (first_blk s) rs)"
    using explicit_search(1,2) [OF that, of k] best_of_fits(1) [of "free_at (first_blk s) rs" k] free_at_bsize [OF that(2,1)]
    unfolding fits_def [symmetric] by (cases ff) (auto simp: explicit_ops_def)
  show "do_mm_check (explicit_ops ff) s = Inr ()"
    if "layout s" "heap_rep 16 s rs" "coal True rs" "explicit_inv (mem s) (list_addr s) (free_at (first_blk s) rs)"
    using explicit_search(3) [OF that(1,2,4)] check_heap_ok [of 16, OF _ that(1-3)]
    by (simp add: explicit_ops_def EXPLICIT_MIN_BLOCK_SIZE_def min_size_ok_def)
qed

end
