(* ===== verification/Mm_Segregated.thy ===== *)
theory Mm_Segregated
  imports Mm_Lists
begin

text \<open>
  The segregated free lists: the size class that \<^verbatim>\<open>segregated_free_list_lower_bound\<close> computes, the two
  searches over the classes, the checker, and the interpretation of the free list interface.
\<close>

section \<open>Size classes\<close>

fun size_bits :: "nat \<Rightarrow> nat" where
  "size_bits n = (if n = 0 then 0 else Suc (size_bits (n div 2)))"

declare size_bits.simps [simp del]

lemma size_bits_le: "size_bits n \<le> i \<longleftrightarrow> n < 2 ^ i"
proof (induction n arbitrary: i rule: size_bits.induct)
  case (1 n)
  show ?case
  proof (cases "n = 0")
    case False
    then have "size_bits n = Suc (size_bits (n div 2))" by (simp add: size_bits.simps)
    then show ?thesis using 1 [OF False] False by (cases i) (auto simp: div_less_iff_less_mult mult.commute)
  qed (simp add: size_bits.simps)
qed

lemma size_bits_mono: "m \<le> n \<Longrightarrow> size_bits m \<le> size_bits n"
  using size_bits_le [of m "size_bits n"] size_bits_le [of n "size_bits n"] by simp

lemma lower_bound_loop_eq: "lower_bound_loop w i = i + size_bits (unat w)"
proof (induction w i rule: lower_bound_loop.induct)
  case (1 w i)
  show ?case
  proof (cases "w = 0")
    case True
    then show ?thesis by (subst lower_bound_loop.simps) (simp add: size_bits.simps)
  next
    case False
    then have "unat w \<noteq> 0" by (simp add: unat_eq_zero)
    then have "size_bits (unat w) = Suc (size_bits (unat w div 2))" by (simp add: size_bits.simps)
    moreover have "lower_bound_loop w i = lower_bound_loop (shr w 1) (i + 1)"
      using False by (subst lower_bound_loop.simps) simp
    ultimately show ?thesis using 1 [OF False] by (simp add: unat_shr)
  qed
qed

definition block_class :: "nat \<Rightarrow> nat" where
  "block_class n = min (size_bits ((n - 1) div 16)) 9"

lemma lower_bound_eq:
  assumes "16 \<le> unat w"
  shows "segregated_free_list_lower_bound w = Inr (block_class (unat w))"
proof -
  have "unat (w - 1) = unat w - 1" using assms by (intro unat_minus_one) auto
  then have u: "unat ((w - 1) div 16) = (unat w - 1) div 16" by (simp add: unat_div_distrib)
  have "SEGREGATED_MIN_BLOCK_SIZE \<le> w" using assms by (simp add: SEGREGATED_MIN_BLOCK_SIZE_def word_le_nat_alt)
  then show ?thesis
    by (simp add: segregated_free_list_lower_bound_def lower_bound_loop_eq SEGREGATED_MIN_BLOCK_SIZE_def u
        SEGREGATED_NUM_LISTS_def block_class_def min_def Let_def)
qed

lemma block_class_mono: "m \<le> n \<Longrightarrow> block_class m \<le> block_class n"
  using size_bits_mono [of "(m - 1) div 16" "(n - 1) div 16"] by (auto simp: block_class_def div_le_mono)

lemma block_class_less: "block_class n < 10"
  by (simp add: block_class_def)

lemma block_class_bounds:
  assumes "16 \<le> n" "bsize n"
  shows "segregated_free_list_min_size (block_class n) \<le> of_nat n" "of_nat n \<le> segregated_free_list_max_size (block_class n)"
proof -
  let ?i = "block_class n" and ?x = "(n - 1) div 16"
  have i9: "?i \<le> 9" by (simp add: block_class_def)
  have un: "unat (of_nat n :: uint32) = n" using assms(2) by simp
  have sh: "unat (shl (16 :: uint32) j) = 16 * 2 ^ j" if "j \<le> 9" for j
  proof -
    have "(2 :: nat) ^ j \<le> 2 ^ 9" using that by (rule power_increasing) simp
    then show ?thesis by (subst unat_shl) simp_all
  qed
  show "segregated_free_list_min_size ?i \<le> of_nat n"
  proof (cases "?i = 0")
    case True
    then show ?thesis using assms(1) un by (simp add: segregated_free_list_min_size_def SEGREGATED_MIN_BLOCK_SIZE_def word_le_nat_alt)
  next
    case False
    then have "\<not> size_bits ?x \<le> ?i - 1" by (auto simp: block_class_def)
    then have "2 ^ (?i - 1) \<le> ?x" by (simp add: size_bits_le)
    then have "16 * 2 ^ (?i - 1) \<le> n - 1" by (simp add: less_eq_div_iff_mult_less_eq mult.commute)
    then have le: "16 * 2 ^ (?i - 1) + 1 \<le> n" using assms(1) by simp
    have "unat (shl (16 :: uint32) (?i - 1) + 1) = 16 * 2 ^ (?i - 1) + 1"
      using sh [of "?i - 1"] i9 le assms(2) by (simp add: unat_word_ariths bsize_def)
    then show ?thesis using le un False
      by (simp add: segregated_free_list_min_size_def SEGREGATED_MIN_BLOCK_SIZE_def word_le_nat_alt)
  qed
  show "of_nat n \<le> segregated_free_list_max_size ?i"
  proof (cases "?i < 9")
    case True
    then have "size_bits ?x \<le> ?i" by (simp add: block_class_def)
    then have "?x < 2 ^ ?i" by (simp add: size_bits_le)
    then have "n - 1 < 16 * 2 ^ ?i" by (simp add: div_less_iff_less_mult mult.commute)
    then show ?thesis using True sh [of ?i] un i9
      by (simp add: segregated_free_list_max_size_def SEGREGATED_NUM_LISTS_def SEGREGATED_MIN_BLOCK_SIZE_def word_le_nat_alt)
  next
    case False
    then show ?thesis using un assms(2)
      by (simp add: segregated_free_list_max_size_def SEGREGATED_NUM_LISTS_def SIZE_MAX_def word_le_nat_alt bsize_def)
  qed
qed

section \<open>The lists\<close>

interpretation ten: linked_lists 10 block_class
  by unfold_locales (simp_all add: block_class_less)

definition segregated_inv :: "(nat \<Rightarrow> uint32) \<Rightarrow> nat \<Rightarrow> (nat \<Rightarrow> nat option) \<Rightarrow> bool" where
  "segregated_inv = lists_inv 10 block_class"

definition classes_from :: "(nat \<Rightarrow> nat option) \<Rightarrow> nat \<Rightarrow> nat set" where
  "classes_from F i = {f \<in> dom F. i \<le> block_class (the (F f))}"

lemma classes_from_step: "classes_from F i = ten.class_of F i \<union> classes_from F (Suc i)"
  by (auto simp: classes_from_def ten.class_of_def)

lemma classes_from_10: "classes_from F 10 = {}"
  using block_class_less by (auto simp: classes_from_def not_le)

section \<open>Searching the classes\<close>

lemma fits_union:
  "fits (F |` X) k None \<Longrightarrow> fits (F |` Y) k r \<Longrightarrow> fits (F |` (X \<union> Y)) k r"
  "fits (F |` X) k (Some p) \<Longrightarrow> fits (F |` (X \<union> Y)) k (Some p)"
  by (auto simp: fits_def restrict_map_def split: option.splits if_splits)

lemma best_of_union:
  assumes "\<forall>f n. F f = Some n \<longrightarrow> n < z"
  shows "best_of (F |` X) k None z None \<Longrightarrow> best_of (F |` Y) k None z r \<Longrightarrow> best_of (F |` (X \<union> Y)) k None z r"
    and "best_of (F |` X) k None z (Some p) \<Longrightarrow> (\<And>x y. x \<in> X \<Longrightarrow> y \<in> Y \<Longrightarrow> the (F x) \<le> the (F y)) \<Longrightarrow>
      best_of (F |` (X \<union> Y)) k None z (Some p)"
proof -
  assume "best_of (F |` X) k None z None" "best_of (F |` Y) k None z r"
  then show "best_of (F |` (X \<union> Y)) k None z r"
    using assms unfolding best_of_def restrict_map_def by (auto split: if_splits) (metis leD)+
next
  assume b: "best_of (F |` X) k None z (Some p)" and le: "\<And>x y. x \<in> X \<Longrightarrow> y \<in> Y \<Longrightarrow> the (F x) \<le> the (F y)"
  then obtain n where n: "p \<in> X" "F p = Some n" "unat k \<le> n" "n < z"
    "\<And>p' n'. p' \<in> X \<Longrightarrow> F p' = Some n' \<Longrightarrow> unat k \<le> n' \<Longrightarrow> n \<le> n'"
    unfolding best_of_def restrict_map_def by (auto split: if_splits)
  have "n \<le> n'" if "p' \<in> Y" "F p' = Some n'" for p' n' using le [OF n(1) that(1)] n(2) that(2) by simp
  then show "best_of (F |` (X \<union> Y)) k None z (Some p)"
    using n unfolding best_of_def restrict_map_def by (intro disjI2 exI [of _ p] exI [of _ n]) auto
qed

text \<open>One list of the segregated organisation: both searches and the checker.\<close>

lemma class_list:
  assumes lay: "layout s" and rep: "heap_rep 16 s rs"
    and I: "segregated_inv (mem s) (list_addr s) (free_at (first_blk s) rs)" and i: "i < 10"
  defines "F \<equiv> free_at (first_blk s) rs" and "h \<equiv> segregated_free_lists i s"
  shows "\<exists>r. list_first_loop (mem_heapsize s + 1) k h (list_begin h s) s = Inr r \<and> fits (F |` ten.class_of F i) k r"
    and "\<exists>r. list_best_loop (mem_heapsize s + 1) k h (list_begin h s) None SIZE_MAX s = Inr r \<and>
      best_of (F |` ten.class_of F i) k None (2 ^ 32 - 1) r"
    and "check_list_loop (mem_heapsize s + 1) (segregated_free_list_min_size i) (segregated_free_list_max_size i) h
      (list_begin h s) s = Inr ()"
proof -
  have mb: "min_size_ok 16" by (simp add: min_size_ok_def)
  have fu: "finite (dom F)" "card (dom F) < mem_heapsize s + 1"
    using card_free_at [of "first_blk s" rs] heap_fuel [OF mb rep] by (auto simp: F_def)
  obtain ns where ns: "chain (mem s) (ns @ [h])" "h \<notin> set ns" "\<forall>x \<in> insert h (set ns). x < 2 ^ 32"
    "length ns < mem_heapsize s + 1" "distinct ns" "set ns = ten.class_of F i"
    "list_begin h s = hd (ns @ [h])" "dll (mem s) h ns"
    using ten.lists_chain [OF I [unfolded segregated_inv_def, folded F_def] i fu] unfolding h_def segregated_free_lists_def by blast
  have sub: "set ns \<subseteq> dom F" by (auto simp: ns(6) ten.class_of_def)
  have sz: "sized s F (set ns)" using sized_heap(1) [OF mb lay rep] sub by (auto simp: sized_def F_def)
  show "\<exists>r. list_first_loop (mem_heapsize s + 1) k h (list_begin h s) s = Inr r \<and> fits (F |` ten.class_of F i) k r"
    using list_first_ok [OF ns(1-3) sz ns(4), of k] by (simp only: ns(6,7))
  show "\<exists>r. list_best_loop (mem_heapsize s + 1) k h (list_begin h s) None SIZE_MAX s = Inr r \<and>
      best_of (F |` ten.class_of F i) k None (2 ^ 32 - 1) r"
    using list_best_ok [OF ns(1-3) sz ns(4,5), of k None SIZE_MAX] by (simp add: ns(6,7) SIZE_MAX_def del: list_best_loop.simps)
  have lt: "\<And>x. x \<in> insert h (set ns) \<Longrightarrow> x < 2 ^ 32" using ns(3) by blast
  have "check_node (segregated_free_list_min_size i) (segregated_free_list_max_size i) f s" if f: "f \<in> set ns" for f
  proof -
    obtain n where n: "F f = Some n" "bsize n" "get_size (header_ptr f) s = of_nat n" using sz f by (auto simp: sized_def)
    have "16 \<le> n" using free_at_range [of 16 rs "first_blk s" f n] rep n(1) by (auto simp: heap_rep_def F_def)
    moreover have "block_class n = i" using f n(1) by (simp add: ns(6) ten.class_of_def)
    moreover have "get_alloc (header_ptr f) s = 0" using sized_heap(2) [OF mb lay rep] n(1) by (simp add: F_def)
    ultimately show ?thesis
      using block_class_bounds [OF _ n(2)] dll_node [OF ns(8) f lt refl] n(3) by (auto simp: check_node_def)
  qed
  then show "check_list_loop (mem_heapsize s + 1) (segregated_free_list_min_size i) (segregated_free_list_max_size i) h
      (list_begin h s) s = Inr ()"
    unfolding ns(7) by (intro check_list_ok [OF ns(1-3) _ ns(4)]) blast
qed

lemma segregated_search:
  assumes A: "layout s" "heap_rep 16 s rs" "segregated_inv (mem s) (list_addr s) (free_at (first_blk s) rs)"
    and i: "i \<le> 10"
  defines "F \<equiv> free_at (first_blk s) rs"
  shows "\<exists>r. segregated_first_loop k [i..<10] s = Inr r \<and> fits (F |` classes_from F i) k r"
    and "\<exists>r. segregated_best_loop k [i..<10] s = Inr r \<and> best_of (F |` classes_from F i) k None (2 ^ 32 - 1) r"
    and "segregated_check_loop [i..<10] s = Inr ()"
proof -
  have small: "\<forall>f n. F f = Some n \<longrightarrow> n < 2 ^ 32 - 1"
  proof (intro allI impI)
    fix f n assume that: "F f = Some n"
    have "8 dvd n" "n < 2 ^ 32" using free_at_bsize [OF A(2,1), of f n] that by (auto simp: bsize_def F_def)
    then show "n < 2 ^ 32 - 1" by (auto elim!: dvdE)
  qed
  have up: "[j..<10] = j # [Suc j..<10]" if "j < 10" for j using that by (rule upt_conv_Cons)
  note cl = class_list [OF A, folded F_def]
  show "\<exists>r. segregated_first_loop k [i..<10] s = Inr r \<and> fits (F |` classes_from F i) k r"
    using i
  proof (induction i rule: inc_induct)
    case base
    then show ?case by (simp add: classes_from_10 fits_def)
  next
    case (step j)
    from cl(1) [OF step(2), of k] obtain r1 where r1:
      "list_first_loop (mem_heapsize s + 1) k (segregated_free_lists j s) (list_begin (segregated_free_lists j s) s) s = Inr r1"
      "fits (F |` ten.class_of F j) k r1" by blast
    then show ?case using step(3) fits_union [of F "ten.class_of F j" k] up [OF step(2)]
      by (cases r1) (auto simp: classes_from_step [of F j] simp del: list_first_loop.simps)
  qed
  show "\<exists>r. segregated_best_loop k [i..<10] s = Inr r \<and> best_of (F |` classes_from F i) k None (2 ^ 32 - 1) r"
    using i
  proof (induction i rule: inc_induct)
    case base
    then show ?case by (simp add: classes_from_10 best_of_def)
  next
    case (step j)
    from cl(2) [OF step(2), of k] obtain r1 where r1:
      "list_best_loop (mem_heapsize s + 1) k (segregated_free_lists j s) (list_begin (segregated_free_lists j s) s) None SIZE_MAX s = Inr r1"
      "best_of (F |` ten.class_of F j) k None (2 ^ 32 - 1) r1" by blast
    have le: "the (F x) \<le> the (F y)" if "x \<in> ten.class_of F j" "y \<in> classes_from F (Suc j)" for x y
      using that block_class_mono [of "the (F y)" "the (F x)"] by (force simp: ten.class_of_def classes_from_def)
    note bu = best_of_union [of F "2 ^ 32 - 1" "ten.class_of F j" k, OF small]
    show ?case
    proof (cases r1)
      case None
      then show ?thesis using r1 step(3) bu(1) up [OF step(2)]
        by (auto simp: classes_from_step [of F j] simp del: list_best_loop.simps)
    next
      case (Some p)
      then show ?thesis using r1 bu(2) [OF _ le] up [OF step(2)]
        by (auto simp: classes_from_step [of F j] simp del: list_best_loop.simps)
    qed
  qed
  show "segregated_check_loop [i..<10] s = Inr ()"
    using i
  proof (induction i rule: inc_induct)
    case (step j)
    then show ?case using cl(3) [OF step(2)] up [OF step(2)] by (simp del: check_list_loop.simps)
  qed simp
qed

lemma classes_fits:
  "fits (F |` classes_from F (block_class (unat k))) k r \<Longrightarrow> fits F k r"
proof -
  have big: "f \<in> classes_from F (block_class (unat k))" if "F f = Some n" "unat k \<le> n" for f n
    using that block_class_mono by (auto simp: classes_from_def)
  assume "fits (F |` classes_from F (block_class (unat k))) k r"
  then show "fits F k r"
    using big unfolding fits_def restrict_map_def by (auto split: option.splits if_splits) (meson leI)
qed

lemma classes_best:
  "best_of (F |` classes_from F (block_class (unat k))) k None z r \<Longrightarrow> best_of F k None z r"
proof -
  have big: "f \<in> classes_from F (block_class (unat k))" if "F f = Some n" "unat k \<le> n" for f n
    using that block_class_mono by (auto simp: classes_from_def)
  assume "best_of (F |` classes_from F (block_class (unat k))) k None z r"
  then consider "r = None" "\<forall>p n. (F |` classes_from F (block_class (unat k))) p = Some n \<and> unat k \<le> n \<longrightarrow> z \<le> n"
    | p n where "r = Some p" "F p = Some n" "unat k \<le> n" "n < z"
      "\<forall>p' n'. (F |` classes_from F (block_class (unat k))) p' = Some n' \<and> unat k \<le> n' \<longrightarrow> n \<le> n'"
    unfolding best_of_def by (auto simp: restrict_map_def split: if_splits)
  then show "best_of F k None z r"
  proof cases
    case 1
    have "z \<le> n" if "F p = Some n" "unat k \<le> n" for p n using 1(2) big [OF that] that by (metis restrict_in)
    then show ?thesis using 1(1) unfolding best_of_def by blast
  next
    case (2 p n)
    have "n \<le> n'" if "F p' = Some n'" "unat k \<le> n'" for p' n' using 2(5) big [OF that] that by (metis restrict_in)
    then show ?thesis using 2(1-4) unfolding best_of_def by blast
  qed
qed

lemma segregated_fit_ok:
  assumes A: "layout s" "heap_rep 16 s rs" "segregated_inv (mem s) (list_addr s) (free_at (first_blk s) rs)"
    and k: "16 \<le> unat k"
  shows "\<exists>r. segregated_find_first_fit k s = Inr r \<and> fits (free_at (first_blk s) rs) k r"
    and "\<exists>r. segregated_find_best_fit k s = Inr r \<and> best_of (free_at (first_blk s) rs) k None (2 ^ 32 - 1) r"
proof -
  have i: "block_class (unat k) \<le> 10" using block_class_less [of "unat k"] by simp
  have "segregated_find_first_fit k s = segregated_first_loop k [block_class (unat k)..<10] s"
    "segregated_find_best_fit k s = segregated_best_loop k [block_class (unat k)..<10] s"
    by (simp_all only: segregated_find_first_fit_def segregated_find_best_fit_def lower_bound_eq [OF k] sbind_simps
        SEGREGATED_NUM_LISTS_def)
  then show "\<exists>r. segregated_find_first_fit k s = Inr r \<and> fits (free_at (first_blk s) rs) k r"
    "\<exists>r. segregated_find_best_fit k s = Inr r \<and> best_of (free_at (first_blk s) rs) k None (2 ^ 32 - 1) r"
    using segregated_search(1,2) [OF A i, of k] classes_fits classes_best by metis+
qed

lemma segregated_init_fold:
  assumes "j \<le> 10"
  shows "\<exists>m. fold (\<lambda>i s. list_init (segregated_free_lists i s) s) [0..<j] s = s\<lparr>mem := m\<rparr> \<and>
    (\<forall>i < j. dll m (list_addr s + 8 * i) []) \<and> same_in (mem s) m (- {list_addr s..<list_addr s + 80})"
  using assms
proof (induction j)
  case 0
  then show ?case by (auto simp: same_in_def intro!: exI [of _ "mem s"])
next
  case (Suc j)
  then obtain m where m: "fold (\<lambda>i s. list_init (segregated_free_lists i s) s) [0..<j] s = s\<lparr>mem := m\<rparr>"
    "\<forall>i < j. dll m (list_addr s + 8 * i) []" "same_in (mem s) m (- {list_addr s..<list_addr s + 80})" by auto
  let ?h = "list_addr s + 8 * j"
  define m' where "m' = m(?h + 4 := of_nat ?h, ?h := of_nat ?h)"
  have "fold (\<lambda>i s. list_init (segregated_free_lists i s) s) [0..<Suc j] s = s\<lparr>mem := m'\<rparr>"
    using m(1) by (simp add: list_init_mem segregated_free_lists_def m'_def)
  moreover have "dll m' (list_addr s + 8 * i) []" if "i < Suc j" for i
  proof (cases "i = j")
    case True
    then show ?thesis by (simp add: m'_def dll_def)
  next
    case False
    then have "dll m (list_addr s + 8 * i) []" using m(2) that by simp
    moreover have "8 * i \<noteq> 8 * j + 4" "8 * i + 4 \<noteq> 8 * j" "i \<noteq> j" using False by presburger+
    ultimately show ?thesis by (simp add: m'_def dll_def)
  qed
  moreover have "same_in (mem s) m' (- {list_addr s..<list_addr s + 80})"
    using m(3) Suc.prems by (auto simp: same_in_def m'_def)
  ultimately show ?case by blast
qed

section \<open>The segregated lists as a free list\<close>

interpretation segregated: free_list "segregated_ops ff" 16 segregated_inv
proof unfold_locales
  fix s :: mm_state and m m' L F bp n pa al rs k
  show "min_size_ok 16" by (simp add: min_size_ok_def)
  show "MIN_BLOCK_SIZE (segregated_ops ff) = of_nat 16" by (simp add: segregated_ops_def SEGREGATED_MIN_BLOCK_SIZE_def)
  show "segregated_inv m' L F" if "segregated_inv m L F" "same_in m m' ({L..<L + 80} \<union> link_slots 16 (dom F))"
    using that ten.lists_frame by (simp add: segregated_inv_def)
  show "\<exists>m'. free_list_init (segregated_ops ff) s = s\<lparr>mem := m'\<rparr> \<and> segregated_inv m' (list_addr s) Map.empty \<and>
      same_in (mem s) m' (- {list_addr s..<list_addr s + 80})" if "4 dvd list_addr s" "list_addr s + 80 \<le> 2 ^ 32"
  proof -
    obtain m where m: "fold (\<lambda>i s. list_init (segregated_free_lists i s) s) [0..<10] s = s\<lparr>mem := m\<rparr>"
      "\<forall>i < 10. dll m (list_addr s + 8 * i) []" "same_in (mem s) m (- {list_addr s..<list_addr s + 80})"
      using segregated_init_fold [of 10 s] by auto
    have "segregated_inv m (list_addr s) Map.empty"
      unfolding segregated_inv_def lists_inv_def using that m(2) by (auto intro!: exI [of _ "replicate 10 []"])
    then show ?thesis using m by (auto simp: segregated_ops_def segregated_free_list_init_def SEGREGATED_NUM_LISTS_def)
  qed
  have ins: "\<exists>m'. segregated_free_list_insert bp s = Inr (s\<lparr>mem := m'\<rparr>) \<and> segregated_inv m' (list_addr s) (F(bp \<mapsto> n)) \<and>
      same_in (mem s) m' (- ({list_addr s..<list_addr s + 80} \<union> link_slots 16 (insert bp (dom F))))"
    if "segregated_inv (mem s) (list_addr s) F" "F bp = None" "link_ok (list_addr s) bp" "mem s (bp - 4) = hdr n pa al" "bsize n" "16 \<le> n"
    for s F
  proof -
    have "get_size (header_ptr bp) s = of_nat n" using that(4,5) by (simp add: header_ptr_def hdr_get)
    moreover have "segregated_free_list_lower_bound (of_nat n) = Inr (block_class n)"
      using lower_bound_eq [of "of_nat n"] that(5,6) by simp
    ultimately show ?thesis
      using ten.lists_insert [OF that(1-3) [unfolded segregated_inv_def], of n]
      by (auto simp: segregated_free_list_insert_def segregated_free_lists_def segregated_inv_def)
  qed
  have ers: "\<exists>m'. segregated_free_list_erase bp s = Inr (s\<lparr>mem := m'\<rparr>) \<and> segregated_inv m' (list_addr s) (F(bp := None)) \<and>
      same_in (mem s) m' (- ({list_addr s..<list_addr s + 80} \<union> link_slots 16 (dom F)))"
    if "segregated_inv (mem s) (list_addr s) F" "bp \<in> dom F"
    using ten.lists_erase [OF that [unfolded segregated_inv_def]]
    by (auto simp: segregated_free_list_erase_def segregated_inv_def)
  show "\<exists>m'. free_list_insert (segregated_ops ff) bp s = Inr (s\<lparr>mem := m'\<rparr>) \<and> segregated_inv m' (list_addr s) (F(bp \<mapsto> n)) \<and>
      same_in (mem s) m' (- ({list_addr s..<list_addr s + 80} \<union> link_slots 16 (insert bp (dom F))))"
    if "segregated_inv (mem s) (list_addr s) F" "F bp = None" "link_ok (list_addr s) bp" "mem s (bp - 4) = hdr n pa al" "bsize n" "16 \<le> n"
    using ins [OF that] by (simp add: segregated_ops_def)
  show "\<exists>m'. free_list_erase (segregated_ops ff) bp s = Inr (s\<lparr>mem := m'\<rparr>) \<and> segregated_inv m' (list_addr s) (F(bp := None)) \<and>
      same_in (mem s) m' (- ({list_addr s..<list_addr s + 80} \<union> link_slots 16 (dom F)))"
    if "segregated_inv (mem s) (list_addr s) F" "bp \<in> dom F"
    using ers [OF that] by (simp add: segregated_ops_def)
  show "\<exists>m'. free_list_update (segregated_ops ff) bp s = Inr (s\<lparr>mem := m'\<rparr>) \<and> segregated_inv m' (list_addr s) (F(bp \<mapsto> n)) \<and>
      same_in (mem s) m' (- ({list_addr s..<list_addr s + 80} \<union> link_slots 16 (dom F)))"
    if u: "segregated_inv (mem s) (list_addr s) F" "bp \<in> dom F" "mem s (bp - 4) = hdr n pa al" "bsize n" "16 \<le> n"
      "bp - 4 \<notin> {list_addr s..<list_addr s + 80} \<union> link_slots 16 (dom F)"
  proof -
    obtain m1 where m1: "segregated_free_list_erase bp s = Inr (s\<lparr>mem := m1\<rparr>)" "segregated_inv m1 (list_addr s) (F(bp := None))"
      "same_in (mem s) m1 (- ({list_addr s..<list_addr s + 80} \<union> link_slots 16 (dom F)))" using ers [OF u(1,2)] by blast
    have all: "link_ok (list_addr s) f" if "f \<in> dom F" for f
      using u(1) that by (simp add: segregated_inv_def lists_inv_def)
    have "m1 (bp - 4) = hdr n pa al" using m1(3) u(3,6) by (simp add: same_in_def)
    then obtain m2 where m2: "segregated_free_list_insert bp (s\<lparr>mem := m1\<rparr>) = Inr (s\<lparr>mem := m2\<rparr>)"
      "segregated_inv m2 (list_addr s) (F(bp \<mapsto> n))"
      "same_in m1 m2 (- ({list_addr s..<list_addr s + 80} \<union> link_slots 16 (dom F)))"
      using ins [of "s\<lparr>mem := m1\<rparr>" "F(bp := None)"] m1(2) all [OF u(2)] u(2,4,5) by (auto simp: insert_absorb insert_Diff)
    then show ?thesis using m1
      by (auto simp: segregated_ops_def segregated_free_list_update_def same_in_def intro!: exI [of _ m2])
  qed
  show "\<exists>r. find_fit (segregated_ops ff) k s = Inr r \<and>
      (case r of Some bp \<Rightarrow> \<exists>n. free_at (first_blk s) rs bp = Some n \<and> unat k \<le> n
       | None \<Rightarrow> \<forall>bp n. free_at (first_blk s) rs bp = Some n \<longrightarrow> n < unat k)"
    if "layout s" "heap_rep 16 s rs" "segregated_inv (mem s) (list_addr s) (free_at (first_blk s) rs)" "16 \<le> unat k"
    using segregated_fit_ok [OF that] best_of_fits(1) [of "free_at (first_blk s) rs" k] free_at_bsize [OF that(2,1)]
    unfolding fits_def [symmetric] by (cases ff) (auto simp: segregated_ops_def)
  show "do_mm_check (segregated_ops ff) s = Inr ()"
    if "layout s" "heap_rep 16 s rs" "coal True rs" "segregated_inv (mem s) (list_addr s) (free_at (first_blk s) rs)"
    using segregated_search(3) [OF that(1,2,4), of 0] check_heap_ok [of 16, OF _ that(1-3)]
    by (simp add: segregated_ops_def segregated_mm_check_def SEGREGATED_MIN_BLOCK_SIZE_def SEGREGATED_NUM_LISTS_def min_size_ok_def)
qed

end
