(* ===== verification/Mm_Correct.thy ===== *)
theory Mm_Correct
  imports Mm_Client Mm_Segregated
begin

text \<open>
  The properties of the malloc lab's allocator, for all six builds: three free list organisations, two
  placement policies, and with or without the checker run after every call.
\<close>

section \<open>The builds as instances of the free list interface\<close>

definition config_min :: "mm_config \<Rightarrow> nat" where
  "config_min c = (case c of MM_IMPLICIT \<Rightarrow> 8 | MM_EXPLICIT \<Rightarrow> 16 | MM_SEGREGATED \<Rightarrow> 16)"

definition config_inv :: "mm_config \<Rightarrow> (nat \<Rightarrow> uint32) \<Rightarrow> nat \<Rightarrow> (nat \<Rightarrow> nat option) \<Rightarrow> bool" where
  "config_inv c = (case c of MM_IMPLICIT \<Rightarrow> implicit_inv | MM_EXPLICIT \<Rightarrow> explicit_inv | MM_SEGREGATED \<Rightarrow> segregated_inv)"

text \<open>A well-formed allocator state of build \<open>c\<close> whose heap holds the blocks \<open>rs\<close>, and the allocated ones among them.\<close>

definition mm_state_ok :: "mm_config \<Rightarrow> mm_state \<Rightarrow> blk list \<Rightarrow> bool" where
  "mm_state_ok c s rs \<longleftrightarrow> mm_inv (config_min c) (config_inv c) s rs"

abbreviation allocated :: "mm_state \<Rightarrow> blk list \<Rightarrow> nat \<Rightarrow> nat option" where
  "allocated s rs \<equiv> alloc_at (first_blk s) rs"

abbreviation free_blocks :: "mm_state \<Rightarrow> blk list \<Rightarrow> nat \<Rightarrow> nat option" where
  "free_blocks s rs \<equiv> free_at (first_blk s) rs"

interpretation cfg: free_list "config_ops c ff" "config_min c" "config_inv c" for c ff
  by (cases c) (simp_all add: config_ops_def config_min_def config_inv_def implicit.free_list_axioms
      explicit.free_list_axioms segregated.free_list_axioms)

lemma config_min_le: "config_min c \<le> 16"
  by (simp add: config_min_def split: mm_config.splits)

section \<open>A concrete machine\<close>

text \<open>A heap of \<^verbatim>\<open>MAX_HEAP\<close> bytes at address 4096 and the list heads at address 1024.\<close>

definition demo_state :: mm_state where
  "demo_state = \<lparr>mem_start_brk = 4096, mem_brk = 4096, mem_max_addr = 4096 + MAX_HEAP, mem = (\<lambda>_. 0),
     block_head = 0, block_tail = 0, list_addr = 1024\<rparr>"

lemma demo_ready: "heap_ready demo_state"
  by (simp add: heap_ready_def layout_def demo_state_def MAX_HEAP_def)

lemma demo_init:
  obtains s where "mm_init (config_ops c ff) check demo_state = Inr (0, s)" "mm_state_ok c s []" "mem_brk s = 4112"
    "mem_max_addr s = 4096 + MAX_HEAP" "first_blk s = 4112"
proof -
  obtain s where s: "mm_init (config_ops c ff) check demo_state = Inr (0, s)" "do_mm_init (config_ops c ff) demo_state = (0, s)"
    "mm_inv (config_min c) (config_inv c) s []"
    using cfg.mm_init_ok [OF demo_ready] by blast
  then have "mem_brk s = 4112" "mem_max_addr s = 4096 + MAX_HEAP" "first_blk s = 4112"
    using cfg.init_spec [OF demo_ready, of c ff] by (auto simp: demo_state_def first_blk_def)
  then show ?thesis using that s by (simp add: mm_state_ok_def)
qed

lemma demo_block:
  obtains s rs p n where "mm_state_ok c s rs" "allocated s rs p = Some n" "mm_reach (config_ops c ff) check demo_state s [p \<mapsto> 24]"
proof -
  obtain s where s: "mm_init (config_ops c ff) check demo_state = Inr (0, s)" "mm_state_ok c s []" "mem_brk s = 4112"
    "mem_max_addr s = 4096 + MAX_HEAP" "first_blk s = 4112"
    by (rule demo_init)
  have "\<not> cfg.mallocs c s Map.empty 24 (None, t)" for t
    unfolding cfg.mallocs_def prod.case option.case using s(3,4) config_min_le [of c]
    by (simp add: cfg.request_def MAX_HEAP_def)
  then have "cfg.mallocs c s Map.empty 24 r \<Longrightarrow> \<exists>p s'. r = (Some p, s')" for r
    by (cases r; cases "fst r") auto
  then obtain p s' where m: "mm_malloc (config_ops c ff) check 24 s = Inr (Some p, s')" "cfg.mallocs c s Map.empty 24 (Some p, s')"
    using cfg.mm_malloc_ok [of c s "[]" 24 ff check] s(2) by (fastforce simp: mm_state_ok_def)
  have "mm_reach (config_ops c ff) check demo_state s' [p \<mapsto> 24]"
    using mm_reach.malloc [OF mm_reach.start [OF s(1)], of 24 p s'] m(1) by simp
  moreover obtain rs n where "mm_state_ok c s' rs" "allocated s' rs p = Some n"
    using m(2) by (auto simp: cfg.mallocs_def mm_state_ok_def)
  ultimately show ?thesis using that by blast
qed

section \<open>What the functions promise\<close>

text \<open>After \<^verbatim>\<open>mm_malloc\<close>: nothing changed because the heap cannot grow by the rounded request; or \<open>p\<close> is a new
block with room for the request and its header, the other allocated blocks and their contents are kept,
and nothing outside the heap and the list heads was written.\<close>

definition malloc_post :: "mm_config \<Rightarrow> mm_state \<Rightarrow> blk list \<Rightarrow> nat \<Rightarrow> nat option \<times> mm_state \<Rightarrow> bool" where
  "malloc_post c s rs sz r \<longleftrightarrow>
     (case r of
        (None, s') \<Rightarrow> s' = s \<and> mem_max_addr s < mem_brk s + max ((sz + 11) div 8 * 8) (config_min c)
      | (Some p, s') \<Rightarrow> \<exists>rs' n. mm_state_ok c s' rs' \<and> allocated s rs p = None \<and> sz + 4 \<le> n \<and>
          allocated s' rs' = (allocated s rs)(p \<mapsto> n) \<and> keeps s s' (allocated s rs) \<and>
          mem_brk s' \<le> mem_brk s + max ((sz + 11) div 8 * 8) (config_min c))"

definition free_post :: "mm_config \<Rightarrow> mm_state \<Rightarrow> blk list \<Rightarrow> nat \<Rightarrow> mm_state \<Rightarrow> bool" where
  "free_post c s rs p s' \<longleftrightarrow>
     (\<exists>rs'. mm_state_ok c s' rs' \<and> allocated s' rs' = (allocated s rs)(p := None) \<and> keeps s s' ((allocated s rs)(p := None)))"

text \<open>After \<^verbatim>\<open>mm_realloc\<close> of the block \<open>p\<close> of \<open>n\<close> bytes: on failure the block is still allocated, with the same
contents; on success the result has room for the request and starts with the bytes of the old block.\<close>

definition realloc_post :: "mm_config \<Rightarrow> mm_state \<Rightarrow> blk list \<Rightarrow> nat \<Rightarrow> nat \<Rightarrow> nat \<Rightarrow> nat option \<times> mm_state \<Rightarrow> bool" where
  "realloc_post c s rs p n sz r \<longleftrightarrow>
     (case r of
        (None, s') \<Rightarrow> mem_max_addr s < mem_brk s' + max ((sz + 11) div 8 * 8) (config_min c) \<and>
          (\<exists>rs' k. mm_state_ok c s' rs' \<and> n \<le> k \<and> allocated s' rs' = (allocated s rs)(p \<mapsto> k) \<and> keeps s s' (allocated s rs)) \<and>
          mem_brk s' \<le> mem_brk s + 2 * max ((sz + 11) div 8 * 8) (config_min c)
      | (Some q, s') \<Rightarrow> \<exists>rs' k. mm_state_ok c s' rs' \<and> (q = p \<or> allocated s rs q = None) \<and> sz + 4 \<le> k \<and>
          allocated s' rs' = (allocated s rs)(p := None, q \<mapsto> k) \<and> keeps s s' ((allocated s rs)(p := None)) \<and>
          copied (mem s) p (mem s') q (min sz (n - 4)) \<and>
          mem_brk s' \<le> mem_brk s + 2 * max ((sz + 11) div 8 * 8) (config_min c))"

lemma mallocs_post: "cfg.mallocs c s (allocated s rs) sz r \<Longrightarrow> malloc_post c s rs sz r"
  unfolding cfg.mallocs_def malloc_post_def cfg.request_def mm_state_ok_def
  by (cases r; cases "fst r") fastforce+

lemma reallocs_post:
  "cfg.reallocs c s (allocated s rs) p (n - 4) sz r \<Longrightarrow> allocated s rs p = Some n \<Longrightarrow> realloc_post c s rs p n sz r"
  unfolding cfg.reallocs_def realloc_post_def cfg.request_def mm_state_ok_def
  by (cases r; cases "fst r") fastforce+

section \<open>The public functions\<close>

text \<open>C1. Allocating: in a well-formed state and for a positive request whose rounding does not wrap around,
\<^verbatim>\<open>mm_malloc\<close> returns (no assertion of the allocator or of its checker fails, and every search terminates)
and its result is as promised, in each of the six builds.\<close>

theorem mm_malloc_correct:
  assumes "mm_state_ok c s rs" "0 < unat sz" "unat sz + 11 < 2 ^ 32"
  shows "\<exists>r. mm_malloc (config_ops c ff) check sz s = Inr r \<and> malloc_post c s rs (unat sz) r"
  using cfg.mm_malloc_ok [OF assms(1) [unfolded mm_state_ok_def] assms(2,3)] mallocs_post by blast

theorem mm_malloc_correct_witness:
  "\<exists>s. mm_state_ok MM_SEGREGATED s [] \<and>
     (\<exists>r. mm_malloc (config_ops MM_SEGREGATED False) True 24 s = Inr r \<and> malloc_post MM_SEGREGATED s [] 24 r)"
proof -
  obtain s where s: "mm_state_ok MM_SEGREGATED s []" using demo_init [of MM_SEGREGATED False True] by metis
  show ?thesis using mm_malloc_correct [OF s, of 24 False True] s by auto
qed

text \<open>C2. Freeing: releasing an allocated block returns, removes exactly that block, keeps the contents of the
others, and leaves a well-formed and fully coalesced heap; releasing the same pointer a second time fails the
allocator's assertion.\<close>

theorem mm_free_correct:
  assumes "mm_state_ok c s rs" "allocated s rs p = Some n"
  shows "\<exists>s'. mm_free (config_ops c ff) check (Some p) s = Inr s' \<and> free_post c s rs p s' \<and>
    mm_free (config_ops c ff) check (Some p) s' = Inl AssertFailed"
proof -
  obtain m' rs' where f: "mm_free (config_ops c ff) check (Some p) s = Inr (s\<lparr>mem := m'\<rparr>)"
    "mm_inv (config_min c) (config_inv c) (s\<lparr>mem := m'\<rparr>) rs'"
    "allocated s rs' = (allocated s rs)(p := None)" "keeps s (s\<lparr>mem := m'\<rparr>) ((allocated s rs)(p := None))"
    "mm_free (config_ops c ff) check (Some p) (s\<lparr>mem := m'\<rparr>) = Inl AssertFailed"
    using cfg.mm_free_ok [OF assms(1) [unfolded mm_state_ok_def] assms(2)] by blast
  then have "free_post c s rs p (s\<lparr>mem := m'\<rparr>)"
    unfolding free_post_def mm_state_ok_def by (intro exI [of _ rs']) (simp add: first_blk_def)
  then show ?thesis using f(1,5) by blast
qed

theorem mm_free_correct_witness:
  "\<exists>s rs p n. mm_state_ok MM_EXPLICIT s rs \<and> allocated s rs p = Some n \<and>
     (\<exists>s'. mm_free (config_ops MM_EXPLICIT True) True (Some p) s = Inr s' \<and> free_post MM_EXPLICIT s rs p s' \<and>
       mm_free (config_ops MM_EXPLICIT True) True (Some p) s' = Inl AssertFailed)"
proof -
  obtain s rs p n where s: "mm_state_ok MM_EXPLICIT s rs" "allocated s rs p = Some n"
    by (rule demo_block [of MM_EXPLICIT True True])
  show ?thesis using mm_free_correct [OF s, of True True] s by blast
qed

text \<open>C3. Resizing: for an allocated block and a positive request whose rounding does not wrap around,
\<^verbatim>\<open>mm_realloc\<close> returns and its result is as promised: in particular the first \<^verbatim>\<open>min(size, old size)\<close> bytes are
preserved whether the block grows in place, absorbs its neighbour, is split or moves.\<close>

theorem mm_realloc_correct:
  assumes "mm_state_ok c s rs" "allocated s rs p = Some n" "0 < unat sz" "unat sz + 11 < 2 ^ 32"
  shows "\<exists>r. mm_realloc (config_ops c ff) check (Some p) sz s = Inr r \<and> realloc_post c s rs p n (unat sz) r"
  using cfg.mm_realloc_ok [OF assms(1) [unfolded mm_state_ok_def] assms(2-4)] reallocs_post assms(2) by blast

theorem mm_realloc_correct_witness:
  "\<exists>s rs p n. mm_state_ok MM_IMPLICIT s rs \<and> allocated s rs p = Some n \<and>
     (\<exists>r. mm_realloc (config_ops MM_IMPLICIT True) False (Some p) 100 s = Inr r \<and> realloc_post MM_IMPLICIT s rs p n 100 r)"
proof -
  obtain s rs p n where s: "mm_state_ok MM_IMPLICIT s rs" "allocated s rs p = Some n"
    by (rule demo_block [of MM_IMPLICIT True True])
  have "\<exists>r. mm_realloc (config_ops MM_IMPLICIT True) False (Some p) 100 s = Inr r \<and> realloc_post MM_IMPLICIT s rs p n (unat (100 :: uint32)) r"
    by (rule mm_realloc_correct [OF s]) simp_all
  then have "\<exists>r. mm_realloc (config_ops MM_IMPLICIT True) False (Some p) 100 s = Inr r \<and> realloc_post MM_IMPLICIT s rs p n 100 r"
    by simp
  then show ?thesis using s by blast
qed

section \<open>All runs\<close>

text \<open>C4. Safety of every run: after \<^verbatim>\<open>mm_init\<close> on a heap with room for the two sentinel blocks, any sequence of
calls and of writes into owned memory leads to a state in which the blocks the client owns are aligned to 8
bytes, inside the heap and do not overlap, and in which the heap checker of the build finds no error.\<close>

theorem mm_runs_safe:
  assumes "heap_ready s0" "mm_reach (config_ops c ff) check s0 s L"
  shows "blocks_ok s L \<and> do_mm_check (config_ops c ff) s = Inr ()"
  using cfg.reach_blocks [OF assms(2,1)] by blast

theorem mm_runs_safe_witness:
  "heap_ready demo_state \<and> (\<exists>s p. mm_reach (config_ops MM_SEGREGATED False) True demo_state s [p \<mapsto> 24] \<and>
     blocks_ok s [p \<mapsto> 24] \<and> do_mm_check (config_ops MM_SEGREGATED False) s = Inr ())"
proof -
  obtain s p where "mm_reach (config_ops MM_SEGREGATED False) True demo_state s [p \<mapsto> 24]"
    by (rule demo_block [of MM_SEGREGATED False True])
  then show ?thesis using mm_runs_safe [OF demo_ready] demo_ready by blast
qed

text \<open>C5. Progress of every run: in every reachable state each legal call returns a result; no call loops and no
assertion fails.\<close>

theorem mm_runs_progress:
  assumes "heap_ready s0" "mm_reach (config_ops c ff) check s0 s L" "unat sz + 11 < 2 ^ 32"
  shows "(\<exists>r. mm_malloc (config_ops c ff) check sz s = Inr r) \<and>
    (p \<in> dom L \<longrightarrow> (\<exists>s'. mm_free (config_ops c ff) check (Some p) s = Inr s')) \<and>
    (p \<in> dom L \<and> 0 < unat sz \<longrightarrow> (\<exists>r. mm_realloc (config_ops c ff) check (Some p) sz s = Inr r))"
  using cfg.reach_progress [OF assms(2,1,3)] by blast

theorem mm_runs_progress_witness:
  "\<exists>s p. mm_reach (config_ops MM_EXPLICIT False) True demo_state s [p \<mapsto> 24] \<and>
     (\<exists>s'. mm_free (config_ops MM_EXPLICIT False) True (Some p) s = Inr s') \<and>
     (\<exists>r. mm_realloc (config_ops MM_EXPLICIT False) True (Some p) 5000 s = Inr r)"
proof -
  obtain s p where r: "mm_reach (config_ops MM_EXPLICIT False) True demo_state s [p \<mapsto> 24]"
    by (rule demo_block [of MM_EXPLICIT False True])
  have "unat (5000 :: uint32) + 11 < 2 ^ 32" by simp
  from mm_runs_progress [OF demo_ready r this, of p] r show ?thesis by auto
qed

text \<open>Initialisation: \<^verbatim>\<open>mm_init\<close> returns 0 on every heap with room for the two sentinel blocks and leaves an empty
well-formed heap, whose checker passes.\<close>

theorem mm_init_correct:
  assumes "heap_ready s"
  shows "\<exists>s'. mm_init (config_ops c ff) check s = Inr (0, s') \<and> mm_state_ok c s' [] \<and> do_mm_check (config_ops c ff) s' = Inr ()"
proof -
  obtain s' where "mm_init (config_ops c ff) check s = Inr (0, s')" "mm_inv (config_min c) (config_inv c) s' []"
    using cfg.mm_init_ok [OF assms] by blast
  then show ?thesis using cfg.run_check_ok [of c s' "[]" ff True] by (auto simp: mm_state_ok_def run_check_def)
qed

theorem mm_init_correct_witness:
  "\<exists>s'. mm_init (config_ops MM_EXPLICIT True) True demo_state = Inr (0, s') \<and> mm_state_ok MM_EXPLICIT s' [] \<and>
     do_mm_check (config_ops MM_EXPLICIT True) s' = Inr ()"
  by (rule mm_init_correct [OF demo_ready])

section \<open>Placement\<close>

text \<open>Best fit: in the builds with \<^verbatim>\<open>MM_BEST_FIT\<close> the search returns a smallest free block among those that are
large enough, and NULL only when there is none; the segregated lists, which stop at the first class with a
fitting block, agree with the full scan on the size.\<close>

theorem best_fit_is_smallest:
  assumes "mm_state_ok c s rs" "config_min c \<le> unat k"
  shows "\<exists>r. find_fit (config_ops c False) k s = Inr r \<and>
    (case r of None \<Rightarrow> \<forall>p n. free_blocks s rs p = Some n \<longrightarrow> n < unat k
     | Some p \<Rightarrow> \<exists>n. free_blocks s rs p = Some n \<and> unat k \<le> n \<and>
         (\<forall>q n'. free_blocks s rs q = Some n' \<and> unat k \<le> n' \<longrightarrow> n \<le> n'))"
proof -
  have I: "layout s" "heap_rep (config_min c) s rs" "config_inv c (mem s) (list_addr s) (free_blocks s rs)"
    using assms(1) by (simp_all add: mm_state_ok_def mm_inv_def)
  have "\<exists>r. find_fit (config_ops c False) k s = Inr r \<and> best_of (free_blocks s rs) k None (2 ^ 32 - 1) r"
    using I assms(2) implicit_best_fit_ok [of 8 s rs k] explicit_search(2) [of s rs k] segregated_fit_ok(2) [of s rs k]
    by (cases c) (simp_all add: config_ops_def config_min_def config_inv_def min_size_ok_def implicit_ops_def explicit_ops_def segregated_ops_def)
  then obtain r where r: "find_fit (config_ops c False) k s = Inr r" "best_of (free_blocks s rs) k None (2 ^ 32 - 1) r" by blast
  have b: "\<And>p n. free_blocks s rs p = Some n \<Longrightarrow> bsize n" by (rule free_at_bsize [OF I(2,1)])
  have bf: "fits (free_blocks s rs) k r" using best_of_fits(1) [OF r(2)] b by blast
  have least: "n \<le> n'" if "r = Some p" "free_blocks s rs p = Some n" "free_blocks s rs q = Some n'" "unat k \<le> n'" for p q n n'
    using best_of_fits(2) [OF r(2)] b that by blast
  show ?thesis
  proof (cases r)
    case None
    then show ?thesis using r(1) bf by (auto simp: fits_def)
  next
    case (Some p)
    then show ?thesis using r(1) bf least [OF Some] by (fastforce simp: fits_def)
  qed
qed

theorem best_fit_is_smallest_witness:
  "\<exists>s. mm_state_ok MM_SEGREGATED s [] \<and> find_fit (config_ops MM_SEGREGATED False) 32 s = Inr None"
proof -
  obtain s where s: "mm_state_ok MM_SEGREGATED s []" using demo_init [of MM_SEGREGATED False True] by metis
  have "config_min MM_SEGREGATED \<le> unat (32 :: uint32)" by (simp add: config_min_def)
  from best_fit_is_smallest [OF s this] show ?thesis using s by (auto split: option.splits)
qed

text \<open>Size classes: the class that \<^verbatim>\<open>segregated_free_list_lower_bound\<close> computes for a block size is one of the ten,
and the size lies between the bounds that the checker demands of that class.\<close>

theorem size_class_bounds:
  assumes "16 \<le> unat sz" "8 dvd unat sz"
  shows "\<exists>i. segregated_free_list_lower_bound sz = Inr i \<and> i < SEGREGATED_NUM_LISTS \<and>
    segregated_free_list_min_size i \<le> sz \<and> sz \<le> segregated_free_list_max_size i"
proof -
  have "bsize (unat sz)" using assms(2) unat32_less [of sz] by (simp add: bsize_def)
  from block_class_bounds [OF assms(1) this] show ?thesis
    using lower_bound_eq [OF assms(1)] block_class_less [of "unat sz"] by (simp add: SEGREGATED_NUM_LISTS_def)
qed

theorem size_class_bounds_witness:
  "\<exists>i. segregated_free_list_lower_bound 48 = Inr i \<and> i < SEGREGATED_NUM_LISTS \<and>
     segregated_free_list_min_size i \<le> 48 \<and> (48 :: uint32) \<le> segregated_free_list_max_size i"
  by (rule size_class_bounds) simp_all

section \<open>Wrap-around\<close>

text \<open>A request within 11 bytes of 2^32 wraps around when it is rounded up: \<^verbatim>\<open>mm_malloc\<close> then does what it does for a
request of one byte, and returns a minimal block where it should fail.\<close>

theorem mm_malloc_wraps:
  assumes "2 ^ 32 - 11 \<le> unat sz"
  shows "mm_malloc (config_ops c ff) check sz s = mm_malloc (config_ops c ff) check 1 s"
proof -
  let ?mb = "MIN_BLOCK_SIZE (config_ops c ff)"
  have mb: "8 \<le> unat ?mb" using min_size_pos [OF cfg.mb_ok] cfg.unat_mb by metis
  have small: "unat (align (sz + 4)) \<le> 8"
  proof -
    have "unat (sz + 4) = (unat sz + 4) mod 2 ^ 32" by (simp add: unat_word_ariths)
    moreover have "unat sz < 2 ^ 32" using unat32_less [of sz] by simp
    ultimately have "(unat (sz + 4) + 7) mod 2 ^ 32 \<le> 10" using assms by (cases "unat sz + 4 < 2 ^ 32") (auto simp: mod_if)
    then show ?thesis by (simp add: unat_align)
  qed
  have "max (align (sz + 4)) ?mb = ?mb" "max (align (1 + 4)) ?mb = ?mb"
    using small mb by (simp_all add: max_def word_le_nat_alt word_less_nat_alt unat_align)
  moreover have "sz \<noteq> 0" using assms by auto
  ultimately show ?thesis by (simp add: mm_malloc_def do_mm_malloc_def)
qed

theorem mm_malloc_wraps_witness:
  "mm_malloc (config_ops MM_SEGREGATED False) True 4294967295 demo_state =
     mm_malloc (config_ops MM_SEGREGATED False) True 1 demo_state"
  by (rule mm_malloc_wraps) simp

text \<open>The simulated break: below 2^31 \<^verbatim>\<open>mem_sbrk\<close> grows the heap by exactly the increment when it is not negative and
fits, and fails without a change otherwise; but a heap in the upper half of the address space accepts an
increment whose sum wraps around, and moves the break down.\<close>

theorem mem_sbrk_behaviour:
  "(mem_brk s \<le> 2 ^ 31 \<longrightarrow>
      mem_sbrk incr s =
        (if 0 \<le> sint incr \<and> mem_brk s + unat incr \<le> mem_max_addr s
         then (Some (mem_brk s), s\<lparr>mem_brk := mem_brk s + unat incr\<rparr>) else (None, s))) \<and>
   (0 \<le> sint incr \<and> mem_brk s \<le> mem_max_addr s \<and> mem_max_addr s < 2 ^ 32 \<and> 2 ^ 32 \<le> mem_brk s + unat incr \<longrightarrow>
      mem_sbrk incr s = (Some (mem_brk s), s\<lparr>mem_brk := mem_brk s + unat incr - 2 ^ 32\<rparr>) \<and>
      mem_brk s + unat incr - 2 ^ 32 < mem_brk s)"
proof -
  have u: "unat incr < 2 ^ 31" if "0 \<le> sint incr" using that sint_neg32 [of incr] by linarith
  have "mem_sbrk incr s =
      (if 0 \<le> sint incr \<and> mem_brk s + unat incr \<le> mem_max_addr s
       then (Some (mem_brk s), s\<lparr>mem_brk := mem_brk s + unat incr\<rparr>) else (None, s))" if "mem_brk s \<le> 2 ^ 31"
    using that u by (cases "0 \<le> sint incr") (auto simp: mem_sbrk_def Let_def)
  moreover have "mem_sbrk incr s = (Some (mem_brk s), s\<lparr>mem_brk := mem_brk s + unat incr - 2 ^ 32\<rparr>) \<and>
      mem_brk s + unat incr - 2 ^ 32 < mem_brk s"
    if "0 \<le> sint incr" "mem_brk s \<le> mem_max_addr s" "mem_max_addr s < 2 ^ 32" "2 ^ 32 \<le> mem_brk s + unat incr"
    using that u [OF that(1)] by (auto simp: mem_sbrk_def Let_def mod_if)
  ultimately show ?thesis by blast
qed

theorem mem_sbrk_behaviour_witness:
  "mem_sbrk 64 demo_state = (Some 4096, demo_state\<lparr>mem_brk := 4160\<rparr>) \<and>
   mem_sbrk 1879048192 (demo_state\<lparr>mem_brk := 4127195136, mem_max_addr := 4148166656\<rparr>) =
     (Some 4127195136, demo_state\<lparr>mem_brk := 1711276032, mem_max_addr := 4148166656\<rparr>)"
  using mem_sbrk_behaviour [of demo_state 64]
    mem_sbrk_behaviour [of "demo_state\<lparr>mem_brk := 4127195136, mem_max_addr := 4148166656\<rparr>" 1879048192]
  by (simp add: demo_state_def MAX_HEAP_def)

end
