(* ===== verification/Tsh.thy ===== *)
theory Tsh
  imports Stdio
begin

text \<open>
  The tiny shell with job control, \<^verbatim>\<open>tsh.c\<close>: the job table, the parser of command lines, the built-in
  commands, the signal handlers and the evaluation of a command line.  The kernel is a parameter: the pid
  that \<^verbatim>\<open>fork\<close> returns, whether \<^verbatim>\<open>kill\<close> succeeds, the results of \<^verbatim>\<open>waitpid\<close> and the signals that arrive
  while the shell is suspended are arguments of the operations.  Handlers run with all signals blocked or
  while the shell is in \<^verbatim>\<open>sigsuspend\<close> or at its prompt, so a delivery is one step.  What the shell prints
  and the system calls it makes are recorded as events.
\<close>

section \<open>Jobs\<close>

datatype job_status = UNDEF | FG | BG | ST

record job_t =
  job_pid :: int
  job_jid :: int
  job_state :: job_status
  job_cmdline :: string

datatype tsh_event =
    Added int int string
  | TooManyJobs
  | Announced int int string
  | StoppedBy int int int
  | TerminatedBy int int int
  | Listed int int job_status string
  | NeedsArgument string
  | NoSuchJob string
  | BadArgument string
  | NoSuchProcess int
  | Sent int int
  | Spawned int "string list"

record tsh =
  jobs :: "job_t list"
  nextjid :: int
  verbose :: bool
  susp :: bool
  events :: "tsh_event list"

type_synonym tsh_exec = "tsh exec"

definition MAXJOBS :: nat where
  "MAXJOBS = 16"

definition MAXARGS :: nat where
  "MAXARGS = 128"

definition emit :: "tsh_event \<Rightarrow> tsh \<Rightarrow> tsh" where
  "emit e s = s\<lparr>events := events s @ [e]\<rparr>"

definition clearjob :: "job_t \<Rightarrow> job_t" where
  "clearjob job = job\<lparr>job_pid := 0, job_jid := 0, job_state := UNDEF, job_cmdline := []\<rparr>"

definition initjobs :: "tsh \<Rightarrow> tsh" where
  "initjobs s = s\<lparr>jobs := map clearjob (jobs s)\<rparr>"

definition maxjid :: "job_t list \<Rightarrow> int" where
  "maxjid js = fold (\<lambda>j m. if job_jid j > m then job_jid j else m) js 0"

text \<open>The first index at which the loop over the table stops.\<close>

fun first_index :: "(job_t \<Rightarrow> bool) \<Rightarrow> job_t list \<Rightarrow> nat option" where
  "first_index P [] = None"
| "first_index P (j # js) = (if P j then Some 0 else map_option Suc (first_index P js))"

definition addjob :: "int \<Rightarrow> job_status \<Rightarrow> string \<Rightarrow> tsh \<Rightarrow> bool \<times> tsh" where
  "addjob pid st cmdline s =
     (if pid < 1 then (False, s)
      else case first_index (\<lambda>j. job_pid j = 0) (jobs s) of
             None \<Rightarrow> (False, emit TooManyJobs s)
           | Some i \<Rightarrow>
               let jid = nextjid s;
                   s = s\<lparr>jobs := (jobs s)[i := \<lparr>job_pid = pid, job_jid = jid, job_state = st, job_cmdline = cmdline\<rparr>],
                         nextjid := (if jid + 1 > int MAXJOBS then 1 else jid + 1)\<rparr>;
                   s = (if verbose s then emit (Added jid pid cmdline) s else s)
               in (True, s))"

definition deletejob :: "int \<Rightarrow> tsh \<Rightarrow> bool \<times> tsh" where
  "deletejob pid s =
     (if pid < 1 then (False, s)
      else case first_index (\<lambda>j. job_pid j = pid) (jobs s) of
             None \<Rightarrow> (False, s)
           | Some i \<Rightarrow>
               let s = s\<lparr>jobs := (jobs s)[i := clearjob (jobs s ! i)]\<rparr>
               in (True, s\<lparr>nextjid := maxjid (jobs s) + 1\<rparr>))"

definition fgpid :: "job_t list \<Rightarrow> int" where
  "fgpid js = (case first_index (\<lambda>j. job_state j = FG) js of None \<Rightarrow> 0 | Some i \<Rightarrow> job_pid (js ! i))"

definition getjobpid :: "job_t list \<Rightarrow> int \<Rightarrow> nat option" where
  "getjobpid js pid = (if pid < 1 then None else first_index (\<lambda>j. job_pid j = pid) js)"

definition getjobjid :: "job_t list \<Rightarrow> int \<Rightarrow> nat option" where
  "getjobjid js jid = (if jid < 1 then None else first_index (\<lambda>j. job_jid j = jid) js)"

definition pid2jid :: "job_t list \<Rightarrow> int \<Rightarrow> int" where
  "pid2jid js pid =
     (if pid < 1 then 0
      else case first_index (\<lambda>j. job_pid j = pid) js of None \<Rightarrow> 0 | Some i \<Rightarrow> job_jid (js ! i))"

definition listjobs :: "tsh \<Rightarrow> tsh" where
  "listjobs s =
     fold (\<lambda>j s. if job_pid j \<noteq> 0 then emit (Listed (job_jid j) (job_pid j) (job_state j) (job_cmdline j)) s else s)
       (jobs s) s"

section \<open>Parsing a command line\<close>

text \<open>The rest of the buffer is a C string without its terminator; \<open>strchr\<close> splits it at a delimiter.\<close>

fun split_at :: "char \<Rightarrow> string \<Rightarrow> (string \<times> string) option" where
  "split_at d [] = None"
| "split_at d (c # cs) =
     (if c = d then Some ([], cs) else map_option (\<lambda>(a, b). (c # a, b)) (split_at d cs))"

definition skip_spaces :: "string \<Rightarrow> string" where
  "skip_spaces = dropWhile (\<lambda>c. c = CHR '' '')"

definition find_delim :: "string \<Rightarrow> (string \<times> string) option" where
  "find_delim buf =
     (case buf of [] \<Rightarrow> None
      | c # cs \<Rightarrow> if c = CHR 0x27 then split_at (CHR 0x27) cs else split_at (CHR '' '') buf)"

lemma split_at_length: "split_at d cs = Some (a, b) \<Longrightarrow> length b < length cs"
  by (induction cs arbitrary: a) (fastforce split: if_splits)+

lemma find_delim_length: "find_delim buf = Some (a, b) \<Longrightarrow> length b < length buf"
  using split_at_length by (fastforce simp: find_delim_def split: list.splits if_splits)

text \<open>The argument vector has \<^verbatim>\<open>MAXARGS\<close> entries, the terminating NULL included; the loop does not check it.\<close>

function parse_loop :: "string \<Rightarrow> string list \<Rightarrow> string list exec" where
  "parse_loop buf argv =
     (case find_delim buf of
        None \<Rightarrow> if length argv < MAXARGS then Inr argv else Inl OutOfBounds
      | Some (arg, rest) \<Rightarrow>
          if length argv < MAXARGS then parse_loop (skip_spaces rest) (argv @ [arg]) else Inl OutOfBounds)"
  by pat_completeness auto
termination
proof (relation "measure (\<lambda>(buf, argv). length buf)")
  fix buf argv x arg rest
  assume "find_delim buf = Some x" "(arg, rest) = x"
  moreover have "length (skip_spaces rest) \<le> length rest" by (simp add: skip_spaces_def length_dropWhile_le)
  ultimately show "((skip_spaces rest, argv @ [arg]), buf, argv) \<in> measure (\<lambda>(buf, argv). length buf)"
    using find_delim_length [of buf arg rest] by auto
qed simp

declare parse_loop.simps [simp del]

text \<open>
  The line is copied into an array of \<open>MAXLINE\<close> characters, which the lines that \<open>fgets\<close> returns
  to \<open>main\<close> fit.
\<close>

definition parseline :: "string \<Rightarrow> (bool \<times> string list) exec" where
  "parseline cmdline =
     (if cmdline = [] then Inl OutOfBounds
      else sbind (parse_loop (skip_spaces (butlast cmdline @ '' '')) []) (\<lambda>argv.
             if argv = [] then Inr (True, [])
             else if last argv \<noteq> [] \<and> hd (last argv) = CHR 0x26 then Inr (True, butlast argv)
             else Inr (False, argv)))"

section \<open>Signals\<close>

datatype wait_status = Exited int | Signaled int | Stopped int

text \<open>How the sequence of \<^verbatim>\<open>waitpid\<close> calls ends: 0, -1 with \<^verbatim>\<open>ECHILD\<close>, or another error.\<close>

datatype wait_end = NoneReady | NoChild | WaitError

datatype delivery = SigChld "(int \<times> wait_status) list" wait_end | SigInt | SigTstp | SigQuit

definition SIGINT :: int where "SIGINT = 2"

definition SIGCONT :: int where "SIGCONT = 18"

definition SIGTSTP :: int where "SIGTSTP = 20"

definition Kill :: "(int \<Rightarrow> int \<Rightarrow> bool) \<Rightarrow> int \<Rightarrow> int \<Rightarrow> tsh \<Rightarrow> tsh_exec" where
  "Kill kill_ok pid sig s = (if kill_ok pid sig then Inr (emit (Sent pid sig) s) else Inl ExitCalled)"

definition reap :: "int \<Rightarrow> wait_status \<Rightarrow> tsh \<Rightarrow> tsh_exec" where
  "reap pid status s =
     (case getjobpid (jobs s) pid of
        None \<Rightarrow> Inl ExitCalled
      | Some i \<Rightarrow>
          let job = jobs s ! i;
              s = (if job_state job = FG then s\<lparr>susp := False\<rparr> else s)
          in case status of
               Stopped sig \<Rightarrow>
                 Inr ((emit (StoppedBy (job_jid job) pid sig) s)\<lparr>jobs := (jobs s)[i := job\<lparr>job_state := ST\<rparr>]\<rparr>)
             | Signaled sig \<Rightarrow> Inr (snd (deletejob pid (emit (TerminatedBy (job_jid job) pid sig) s)))
             | Exited _ \<Rightarrow> Inr (snd (deletejob pid s)))"

fun sigchld_loop :: "(int \<times> wait_status) list \<Rightarrow> tsh \<Rightarrow> tsh_exec" where
  "sigchld_loop [] s = Inr s"
| "sigchld_loop ((pid, status) # ws) s = sbind (reap pid status s) (sigchld_loop ws)"

definition sigchld_handler :: "(int \<times> wait_status) list \<Rightarrow> wait_end \<Rightarrow> tsh \<Rightarrow> tsh_exec" where
  "sigchld_handler ws we s =
     sbind (sigchld_loop ws s) (\<lambda>s. if we = WaitError then Inl ExitCalled else Inr s)"

definition sigint_handler :: "(int \<Rightarrow> int \<Rightarrow> bool) \<Rightarrow> tsh \<Rightarrow> tsh_exec" where
  "sigint_handler kill_ok s =
     (let pid = fgpid (jobs s) in if pid > 0 then Kill kill_ok (- pid) SIGINT s else Inr s)"

definition sigtstp_handler :: "(int \<Rightarrow> int \<Rightarrow> bool) \<Rightarrow> tsh \<Rightarrow> tsh_exec" where
  "sigtstp_handler kill_ok s =
     (let pid = fgpid (jobs s) in if pid > 0 then Kill kill_ok (- pid) SIGTSTP s else Inr s)"

definition sigquit_handler :: "tsh \<Rightarrow> tsh_exec" where
  "sigquit_handler s = Inl ExitCalled"

fun deliver :: "(int \<Rightarrow> int \<Rightarrow> bool) \<Rightarrow> delivery \<Rightarrow> tsh \<Rightarrow> tsh_exec" where
  "deliver kill_ok (SigChld ws we) s = sigchld_handler ws we s"
| "deliver kill_ok SigInt s = sigint_handler kill_ok s"
| "deliver kill_ok SigTstp s = sigtstp_handler kill_ok s"
| "deliver kill_ok SigQuit s = sigquit_handler s"

text \<open>Each turn of the loop in \<^verbatim>\<open>waitfg\<close> suspends until the next delivery; with no delivery left the shell stays
suspended.\<close>

fun wait_loop :: "(int \<Rightarrow> int \<Rightarrow> bool) \<Rightarrow> delivery list \<Rightarrow> tsh \<Rightarrow> (delivery list \<times> tsh) exec" where
  "wait_loop kill_ok ds s =
     (if \<not> susp s then Inr (ds, s)
      else case ds of [] \<Rightarrow> Inl NoTermination
           | d # ds \<Rightarrow> sbind (deliver kill_ok d s) (wait_loop kill_ok ds))"

declare wait_loop.simps [simp del]

definition waitfg :: "(int \<Rightarrow> int \<Rightarrow> bool) \<Rightarrow> int \<Rightarrow> delivery list \<Rightarrow> tsh \<Rightarrow> (delivery list \<times> tsh) exec" where
  "waitfg kill_ok pid ds s = wait_loop kill_ok ds (s\<lparr>susp := True\<rparr>)"

section \<open>Commands\<close>

datatype bgfg_target = Found nat | Complain tsh_event

definition bgfg_find :: "string list \<Rightarrow> job_t list \<Rightarrow> bgfg_target" where
  "bgfg_find argv js =
     (if argv ! 1 \<noteq> [] \<and> hd (argv ! 1) = CHR ''%''
      then case scan_int (tl (argv ! 1)) of
             None \<Rightarrow> Complain (NoSuchJob (argv ! 1))
           | Some jid \<Rightarrow> (case getjobjid js jid of None \<Rightarrow> Complain (NoSuchJob (argv ! 1)) | Some i \<Rightarrow> Found i)
      else case scan_int (argv ! 1) of
             None \<Rightarrow> Complain (BadArgument (argv ! 0))
           | Some pid \<Rightarrow> (case getjobpid js pid of None \<Rightarrow> Complain (NoSuchProcess pid) | Some i \<Rightarrow> Found i))"

definition do_bgfg ::
  "(int \<Rightarrow> int \<Rightarrow> bool) \<Rightarrow> string list \<Rightarrow> delivery list \<Rightarrow> tsh \<Rightarrow> (delivery list \<times> tsh) exec" where
  "do_bgfg kill_ok argv ds s =
     (if length argv < 2 then Inr (ds, emit (NeedsArgument (argv ! 0)) s)
      else case bgfg_find argv (jobs s) of
             Complain e \<Rightarrow> Inr (ds, emit e s)
           | Found i \<Rightarrow>
               let job = jobs s ! i
               in if job_state job \<noteq> BG \<and> job_state job \<noteq> ST then Inl ExitCalled
                  else if argv ! 0 = ''bg''
                  then sbind (if job_state job = ST
                              then Kill kill_ok (- job_pid job) SIGCONT (s\<lparr>jobs := (jobs s)[i := job\<lparr>job_state := BG\<rparr>]\<rparr>)
                              else Inr s) (\<lambda>s.
                         Inr (ds, emit (Announced (job_jid job) (job_pid job) (job_cmdline job)) s))
                  else sbind (if job_state job = ST then Kill kill_ok (- job_pid job) SIGCONT s else Inr s) (\<lambda>s.
                         waitfg kill_ok (job_pid job) ds (s\<lparr>jobs := (jobs s)[i := job\<lparr>job_state := FG\<rparr>]\<rparr>)))"

text \<open>\<^verbatim>\<open>None\<close>: not a built-in command.\<close>

definition builtin_cmd ::
  "(int \<Rightarrow> int \<Rightarrow> bool) \<Rightarrow> string list \<Rightarrow> delivery list \<Rightarrow> tsh \<Rightarrow> (delivery list \<times> tsh) option exec" where
  "builtin_cmd kill_ok argv ds s =
     (if argv ! 0 = ''quit'' then Inl ExitCalled
      else if argv ! 0 = ''jobs'' then Inr (Some (ds, listjobs s))
      else if argv ! 0 = ''bg'' \<or> argv ! 0 = ''fg'' then sbind (do_bgfg kill_ok argv ds s) (\<lambda>r. Inr (Some r))
      else Inr None)"

text \<open>\<open>pid\<close> is what \<^verbatim>\<open>fork\<close> returns in the parent; a negative result makes the wrapper exit.\<close>

definition eval ::
  "(int \<Rightarrow> int \<Rightarrow> bool) \<Rightarrow> string \<Rightarrow> int \<Rightarrow> delivery list \<Rightarrow> tsh \<Rightarrow> (delivery list \<times> tsh) exec" where
  "eval kill_ok cmdline pid ds s =
     sbind (parseline cmdline) (\<lambda>(bg, argv).
       if argv = [] then Inr (ds, s)
       else sbind (builtin_cmd kill_ok argv ds s) (\<lambda>r.
         case r of Some r \<Rightarrow> Inr r
         | None \<Rightarrow>
             if pid < 0 then Inl ExitCalled
             else let s = snd (addjob pid (if bg then BG else FG) cmdline (emit (Spawned pid argv) s))
                  in if \<not> bg then waitfg kill_ok pid ds s
                     else Inr (ds, emit (Announced (pid2jid (jobs s) pid) pid cmdline) s)))"

end
