(* ===== verification/Tsh_Jobs.thy ===== *)
theory Tsh_Jobs
  imports Tsh
begin

text \<open>
  The job table as a finite map from process ids to jobs: the array operations refine update, deletion and
  lookup, and keep the invariant of the table.
\<close>

section \<open>Scans of the table\<close>

lemma first_index_Some: "first_index P js = Some i \<Longrightarrow> i < length js \<and> P (js ! i) \<and> (\<forall>k < i. \<not> P (js ! k))"
proof (induction js arbitrary: i)
  case (Cons j js)
  then show ?case
    by (cases i) (auto split: if_splits simp: less_Suc_eq_0_disj)
qed simp

lemma first_index_None: "first_index P js = None \<longleftrightarrow> (\<forall>j \<in> set js. \<not> P j)"
  by (induction js) auto

lemma first_indexI: "i < length js \<Longrightarrow> P (js ! i) \<Longrightarrow> \<forall>k < length js. P (js ! k) \<longrightarrow> k = i \<Longrightarrow> first_index P js = Some i"
proof (cases "first_index P js")
  case None
  assume "i < length js" "P (js ! i)"
  then show ?thesis using None nth_mem by (auto simp: first_index_None)
next
  case (Some k)
  assume "\<forall>k < length js. P (js ! k) \<longrightarrow> k = i"
  then show ?thesis using first_index_Some [OF Some] Some by auto
qed

lemma option_eqI: "(\<And>x. a = Some x \<longleftrightarrow> b = Some x) \<Longrightarrow> a = b"
  by (cases a; cases b) auto

section \<open>The invariant\<close>

text \<open>A slot is either clear, or holds a job with a positive pid and job id.\<close>

definition slot_ok :: "job_t \<Rightarrow> bool" where
  "slot_ok j \<longleftrightarrow> job_pid j = 0 \<and> job_jid j = 0 \<and> job_state j = UNDEF \<or>
     0 < job_pid j \<and> 0 < job_jid j \<and> job_state j \<noteq> UNDEF"

definition jobs_ok :: "tsh \<Rightarrow> bool" where
  "jobs_ok s \<longleftrightarrow> length (jobs s) = MAXJOBS \<and> (\<forall>j \<in> set (jobs s). slot_ok j) \<and> 0 < nextjid s \<and>
     (\<forall>i < MAXJOBS. \<forall>k < MAXJOBS. job_pid (jobs s ! i) = job_pid (jobs s ! k) \<and> job_pid (jobs s ! i) \<noteq> 0 \<longrightarrow> i = k) \<and>
     (\<forall>i < MAXJOBS. \<forall>k < MAXJOBS. job_state (jobs s ! i) = FG \<and> job_state (jobs s ! k) = FG \<longrightarrow> i = k)"

definition no_fg :: "tsh \<Rightarrow> bool" where
  "no_fg s \<longleftrightarrow> (\<forall>j \<in> set (jobs s). job_state j \<noteq> FG)"

definition lookup_job :: "tsh \<Rightarrow> int \<Rightarrow> job_t option" where
  "lookup_job s p = map_option (\<lambda>i. jobs s ! i) (getjobpid (jobs s) p)"

lemma jobs_okD:
  assumes "jobs_ok s" "i < MAXJOBS"
  shows "length (jobs s) = MAXJOBS" "slot_ok (jobs s ! i)" "0 < nextjid s"
    "k < MAXJOBS \<Longrightarrow> job_pid (jobs s ! i) = job_pid (jobs s ! k) \<Longrightarrow> job_pid (jobs s ! i) \<noteq> 0 \<Longrightarrow> i = k"
    "k < MAXJOBS \<Longrightarrow> job_state (jobs s ! i) = FG \<Longrightarrow> job_state (jobs s ! k) = FG \<Longrightarrow> i = k"
  using assms unfolding jobs_ok_def by auto

lemma getjobpid_iff:
  assumes "jobs_ok s" "i < MAXJOBS" "0 < p"
  shows "getjobpid (jobs s) p = Some i \<longleftrightarrow> job_pid (jobs s ! i) = p"
proof
  assume "getjobpid (jobs s) p = Some i"
  then show "job_pid (jobs s ! i) = p" using assms(3) first_index_Some by (fastforce simp: getjobpid_def)
next
  assume p: "job_pid (jobs s ! i) = p"
  have "first_index (\<lambda>j. job_pid j = p) (jobs s) = Some i"
  proof (rule first_indexI)
    show "\<forall>k < length (jobs s). job_pid (jobs s ! k) = p \<longrightarrow> k = i"
      using jobs_okD(4) [OF assms(1,2)] jobs_okD(1) [OF assms(1,2)] p assms(3) by simp
  qed (use assms(2) p jobs_okD(1) [OF assms(1,2)] in simp_all)
  then show "getjobpid (jobs s) p = Some i" using assms(3) by (simp add: getjobpid_def)
qed

lemma getjobpid_Some:
  assumes "jobs_ok s" "getjobpid (jobs s) p = Some i"
  shows "i < MAXJOBS" "0 < p" "job_pid (jobs s ! i) = p" "lookup_job s p = Some (jobs s ! i)"
  using assms first_index_Some [of "\<lambda>j. job_pid j = p" "jobs s" i]
  by (auto simp: getjobpid_def jobs_ok_def lookup_job_def split: if_splits)

lemma lookup_Some_iff:
  assumes "jobs_ok s"
  shows "lookup_job s p = Some j \<longleftrightarrow> 0 < p \<and> (\<exists>i < MAXJOBS. jobs s ! i = j \<and> job_pid j = p)"
proof
  assume "lookup_job s p = Some j"
  then obtain i where i: "getjobpid (jobs s) p = Some i" "j = jobs s ! i" by (auto simp: lookup_job_def)
  then show "0 < p \<and> (\<exists>i < MAXJOBS. jobs s ! i = j \<and> job_pid j = p)" using getjobpid_Some [OF assms i(1)] by blast
next
  assume "0 < p \<and> (\<exists>i < MAXJOBS. jobs s ! i = j \<and> job_pid j = p)"
  then obtain i where i: "0 < p" "i < MAXJOBS" "jobs s ! i = j" "job_pid j = p" by blast
  then have "getjobpid (jobs s) p = Some i" using getjobpid_iff [OF assms i(2,1)] by simp
  then show "lookup_job s p = Some j" using i(3) by (simp add: lookup_job_def)
qed

lemma jobs_ok_frame:
  "jobs_ok s \<Longrightarrow> jobs s' = jobs s \<Longrightarrow> nextjid s' = nextjid s \<Longrightarrow> jobs_ok s'"
  "jobs s' = jobs s \<Longrightarrow> lookup_job s' = lookup_job s" "jobs s' = jobs s \<Longrightarrow> no_fg s' = no_fg s"
  by (auto simp: jobs_ok_def lookup_job_def no_fg_def)

lemma emit_sel [simp]:
  "jobs (emit e s) = jobs s" "nextjid (emit e s) = nextjid s" "susp (emit e s) = susp s" "verbose (emit e s) = verbose s"
  "events (emit e s) = events s @ [e]"
  by (simp_all add: emit_def)

lemma emit_ok [simp]: "jobs_ok (emit e s) = jobs_ok s" "lookup_job (emit e s) = lookup_job s" "no_fg (emit e s) = no_fg s"
  by (simp_all add: jobs_ok_def lookup_job_def no_fg_def fun_eq_iff)

section \<open>Replacing one slot\<close>

text \<open>The step that adding, deleting, stopping and continuing a job share.\<close>

lemma replace_slot:
  assumes ok: "jobs_ok s" and i: "i < MAXJOBS" and j: "slot_ok j" and nj: "0 < n"
    and pid: "job_pid j = job_pid (jobs s ! i) \<or> job_pid j = 0 \<or> lookup_job s (job_pid j) = None"
    and fg: "job_state j = FG \<Longrightarrow> no_fg s \<or> job_state (jobs s ! i) = FG"
    and s': "jobs s' = (jobs s)[i := j]" "nextjid s' = n"
  shows "jobs_ok s'"
    and "lookup_job s' = (\<lambda>p. if p \<noteq> 0 \<and> p = job_pid j then Some j
           else if p \<noteq> 0 \<and> p = job_pid (jobs s ! i) then None else lookup_job s p)"
proof -
  note D = jobs_okD [OF ok]
  have len: "length (jobs s) = MAXJOBS" using D(1) [OF i] .
  have jp: "0 \<le> job_pid j" "0 \<le> job_pid (jobs s ! k)" if "k < MAXJOBS" for k
    using j D(2) [OF that] by (auto simp: slot_ok_def)
  have new: "job_pid j \<noteq> job_pid (jobs s ! k)" if "k < MAXJOBS" "k \<noteq> i" "job_pid j \<noteq> 0" for k
    using pid
  proof (elim disjE)
    assume "job_pid j = job_pid (jobs s ! i)"
    then show ?thesis using D(4) [OF i that(1)] that(2,3) by auto
  next
    assume "lookup_job s (job_pid j) = None"
    then show ?thesis using lookup_Some_iff [OF ok, of "job_pid j" "jobs s ! k"] that jp [of k] by auto
  qed (use that(3) in simp)
  show ok': "jobs_ok s'"
    unfolding jobs_ok_def s'
  proof (intro conjI allI impI ballI)
    fix k assume "k \<in> set ((jobs s)[i := j])"
    then show "slot_ok k" using set_update_subset_insert j ok by (fastforce simp: jobs_ok_def)
  next
    fix k l assume kl: "k < MAXJOBS" "l < MAXJOBS"
      and "job_pid ((jobs s)[i := j] ! k) = job_pid ((jobs s)[i := j] ! l) \<and> job_pid ((jobs s)[i := j] ! k) \<noteq> 0"
    then show "k = l"
      using new [OF kl(1)] new [OF kl(2)] D(4) [OF kl] len by (cases "k = i"; cases "l = i") auto
  next
    fix k l assume kl: "k < MAXJOBS" "l < MAXJOBS"
      and f: "job_state ((jobs s)[i := j] ! k) = FG \<and> job_state ((jobs s)[i := j] ! l) = FG"
    have at_i: "k = i" if "k < MAXJOBS" "job_state j = FG" "job_state (jobs s ! k) = FG" for k
      using fg [OF that(2)] that D(5) [OF that(1) i] len by (auto simp: no_fg_def)
    have f': "job_state (if k = i then j else jobs s ! k) = FG" "job_state (if l = i then j else jobs s ! l) = FG"
      using f len i by (auto simp: nth_list_update split: if_splits)
    show "k = l"
    proof (cases "k = i \<or> l = i")
      case True
      then have "k = i" "l = i" using f' at_i kl by metis+
      then show ?thesis by simp
    next
      case False
      then show ?thesis using f' D(5) [OF kl] by simp
    qed
  qed (use len nj in simp_all)
  show "lookup_job s' = (\<lambda>p. if p \<noteq> 0 \<and> p = job_pid j then Some j
           else if p \<noteq> 0 \<and> p = job_pid (jobs s ! i) then None else lookup_job s p)"
  proof (rule ext)
    fix p
    have iff: "lookup_job s' p = Some x \<longleftrightarrow> 0 < p \<and> (\<exists>k < MAXJOBS. (if k = i then j else jobs s ! k) = x \<and> job_pid x = p)" for x
    proof -
      have "(jobs s)[i := j] ! k = (if k = i then j else jobs s ! k)" for k using i len by (auto simp: nth_list_update)
      then show ?thesis using lookup_Some_iff [OF ok', of p x] by (simp add: s')
    qed
    consider "p \<noteq> 0" "p = job_pid j" | "p \<noteq> 0" "p = job_pid (jobs s ! i)" "p \<noteq> job_pid j"
      | "p \<noteq> 0" "p \<noteq> job_pid (jobs s ! i)" "p \<noteq> job_pid j" | "p = 0" by blast
    then show "lookup_job s' p = (if p \<noteq> 0 \<and> p = job_pid j then Some j
           else if p \<noteq> 0 \<and> p = job_pid (jobs s ! i) then None else lookup_job s p)"
    proof cases
      case 1
      then show ?thesis using iff [of j] i jp(1) [OF i] by auto
    next
      case 2
      have "lookup_job s' p \<noteq> Some x" for x
      proof
        assume "lookup_job s' p = Some x"
        then obtain k where "k < MAXJOBS" "(if k = i then j else jobs s ! k) = x" "job_pid x = p" using iff by blast
        then show False using 2 D(4) [OF i, of k] by (cases "k = i") auto
      qed
      then show ?thesis using 2 by (cases "lookup_job s' p") auto
    next
      case 3
      have "lookup_job s' p = lookup_job s p"
      proof (rule option_eqI)
        fix x
        have "(if k = i then j else jobs s ! k) = x \<and> job_pid x = p \<longleftrightarrow> jobs s ! k = x \<and> job_pid x = p" for k
          using 3 by auto
        then show "lookup_job s' p = Some x \<longleftrightarrow> lookup_job s p = Some x"
          unfolding iff lookup_Some_iff [OF ok] by simp
      qed
      then show ?thesis using 3 by simp
    next
      case 4
      then show ?thesis by (simp add: lookup_job_def getjobpid_def)
    qed
  qed
qed

section \<open>Adding and deleting\<close>

definition table_full :: "tsh \<Rightarrow> bool" where
  "table_full s \<longleftrightarrow> (\<forall>j \<in> set (jobs s). job_pid j \<noteq> 0)"

lemma addjob_ok:
  fixes c :: string
  assumes ok: "jobs_ok s" and p: "0 < p" "lookup_job s p = None" and free: "\<not> table_full s"
    and st: "st \<noteq> UNDEF" "st = FG \<Longrightarrow> no_fg s"
  defines "j \<equiv> \<lparr>job_pid = p, job_jid = nextjid s, job_state = st, job_cmdline = c\<rparr>"
  shows "\<exists>s'. addjob p st c s = (True, s') \<and> jobs_ok s' \<and> lookup_job s' = (lookup_job s)(p \<mapsto> j) \<and> susp s' = susp s \<and>
    (st \<noteq> FG \<longrightarrow> no_fg s \<longrightarrow> no_fg s')"
proof -
  obtain i where i: "first_index (\<lambda>j. job_pid j = 0) (jobs s) = Some i"
    using free first_index_None [of "\<lambda>j. job_pid j = 0" "jobs s"] by (auto simp: table_full_def)
  note fi = first_index_Some [OF i]
  have len: "length (jobs s) = MAXJOBS" and nj: "0 < nextjid s" using ok by (simp_all add: jobs_ok_def)
  then have iM: "i < MAXJOBS" and pi: "job_pid (jobs s ! i) = 0" using fi by auto
  define t where "t = s\<lparr>jobs := (jobs s)[i := j], nextjid := (if nextjid s + 1 > int MAXJOBS then 1 else nextjid s + 1)\<rparr>"
  define s' where "s' = (if verbose t then emit (Added (nextjid s) p c) t else t)"
  have run: "addjob p st c s = (True, s')"
    using p(1) i by (simp add: addjob_def Let_def s'_def t_def j_def)
  have sl: "slot_ok j" using p(1) st(1) nj by (simp add: slot_ok_def j_def)
  have rs: "jobs_ok t" "lookup_job t = (\<lambda>q. if q \<noteq> 0 \<and> q = job_pid j then Some j
      else if q \<noteq> 0 \<and> q = job_pid (jobs s ! i) then None else lookup_job s q)"
    by (rule replace_slot [OF ok iM sl, of "nextjid t" t]; use p st nj in \<open>simp add: j_def t_def\<close>)+
  have "lookup_job t = (lookup_job s)(p \<mapsto> j)" using p(1) pi rs(2) by (auto simp: j_def)
  moreover have "no_fg t" if "st \<noteq> FG" "no_fg s"
    using that set_update_subset_insert [of "jobs s" i j] by (auto simp: no_fg_def t_def j_def)
  ultimately show ?thesis using run rs(1) by (auto simp: s'_def t_def)
qed

lemma addjob_full: "0 < p \<Longrightarrow> table_full s \<Longrightarrow> addjob p st c s = (False, emit TooManyJobs s)"
  using first_index_None [of "\<lambda>j. job_pid j = 0" "jobs s"] by (auto simp: addjob_def table_full_def split: option.splits)

lemma maxjid_ge: "m \<le> fold (\<lambda>j m. if job_jid j > m then job_jid j else m) js m"
proof (induction js arbitrary: m)
  case (Cons j js)
  show ?case using Cons [of m] Cons [of "job_jid j"] by (simp add: order_trans)
qed simp

lemma maxjid_nonneg: "0 \<le> maxjid js"
  using maxjid_ge by (simp add: maxjid_def)

lemma deletejob_ok:
  assumes ok: "jobs_ok s" and p: "lookup_job s p = Some j"
  shows "\<exists>s'. deletejob p s = (True, s') \<and> jobs_ok s' \<and> lookup_job s' = (lookup_job s)(p := None) \<and> susp s' = susp s \<and>
    events s' = events s \<and> (no_fg s \<or> job_state j = FG \<longrightarrow> no_fg s')"
proof -
  obtain i where gi: "getjobpid (jobs s) p = Some i" and j: "j = jobs s ! i" using p by (auto simp: lookup_job_def)
  note gp = getjobpid_Some [OF ok gi]
  have fi: "first_index (\<lambda>j. job_pid j = p) (jobs s) = Some i" using gi gp(2) by (simp add: getjobpid_def)
  have len: "length (jobs s) = MAXJOBS" using ok by (simp add: jobs_ok_def)
  define t where "t = s\<lparr>jobs := (jobs s)[i := clearjob j]\<rparr>"
  define s' where "s' = t\<lparr>nextjid := maxjid (jobs t) + 1\<rparr>"
  have run: "deletejob p s = (True, s')" using gp(2) fi by (simp add: deletejob_def Let_def s'_def t_def j)
  have sl: "slot_ok (clearjob j)" by (simp add: slot_ok_def clearjob_def)
  have rs: "jobs_ok s'" "lookup_job s' = (\<lambda>q. if q \<noteq> 0 \<and> q = job_pid (clearjob j) then Some (clearjob j)
      else if q \<noteq> 0 \<and> q = job_pid (jobs s ! i) then None else lookup_job s q)"
    by (rule replace_slot [OF ok gp(1) sl, of "nextjid s'" s'];
        use maxjid_nonneg [of "jobs t"] in \<open>simp add: s'_def t_def clearjob_def\<close>)+
  have "lookup_job s' = (lookup_job s)(p := None)"
    using gp(2,3) rs(2) by (auto simp: clearjob_def fun_eq_iff)
  moreover have "no_fg s'" if "no_fg s \<or> job_state j = FG"
  proof -
    have "job_state (jobs s' ! k) \<noteq> FG" if "k < MAXJOBS" for k
      using \<open>no_fg s \<or> job_state j = FG\<close> jobs_okD(5) [OF ok gp(1) that] len that nth_mem [of k "jobs s"]
      by (cases "k = i") (auto simp: s'_def t_def clearjob_def no_fg_def j)
    moreover have "length (jobs s') = MAXJOBS" using rs(1) by (simp add: jobs_ok_def)
    ultimately show ?thesis by (auto simp: no_fg_def in_set_conv_nth)
  qed
  ultimately show ?thesis using run rs(1) by (auto simp: s'_def t_def)
qed

lemma deletejob_none:
  assumes "lookup_job s p = None"
  shows "deletejob p s = (False, s)"
  using assms by (auto simp: deletejob_def lookup_job_def getjobpid_def split: option.splits if_splits)

section \<open>The table as an interface\<close>

text \<open>What the rest of the shell relies on: adding makes a job visible under its pid and nothing else changes,
deleting hides exactly one job.\<close>

locale job_table =
  fixes ok :: "'s \<Rightarrow> bool" and look :: "'s \<Rightarrow> int \<Rightarrow> job_t option" and room :: "'s \<Rightarrow> job_status \<Rightarrow> bool"
    and add :: "int \<Rightarrow> job_status \<Rightarrow> string \<Rightarrow> 's \<Rightarrow> bool \<times> 's" and del :: "int \<Rightarrow> 's \<Rightarrow> bool \<times> 's"
  assumes add_law: "ok s \<Longrightarrow> 0 < p \<Longrightarrow> look s p = None \<Longrightarrow> st \<noteq> UNDEF \<Longrightarrow> room s st \<Longrightarrow>
      \<exists>s' j. add p st c s = (True, s') \<and> ok s' \<and> look s' = (look s)(p \<mapsto> j) \<and>
        job_pid j = p \<and> job_state j = st \<and> job_cmdline j = c"
    and del_law: "ok s \<Longrightarrow> \<exists>s'. del p s = (look s p \<noteq> None, s') \<and> ok s' \<and> look s' = (look s)(p := None)"
begin

text \<open>A job that comes and goes leaves the other jobs as they were.\<close>

lemma add_del:
  assumes "ok s" "0 < p" "look s p = None" "st \<noteq> UNDEF" "room s st"
  shows "\<exists>s1 s2. add p st c s = (True, s1) \<and> del p s1 = (True, s2) \<and> ok s2 \<and> look s2 = look s"
proof -
  obtain s1 j where a: "add p st c s = (True, s1)" "ok s1" "look s1 = (look s)(p \<mapsto> j)" using add_law [OF assms] by blast
  obtain s2 where "del p s1 = (look s1 p \<noteq> None, s2)" "ok s2" "look s2 = (look s1)(p := None)" using del_law [OF a(2)] by blast
  then show ?thesis using a assms(3) by (auto simp: fun_upd_idem)
qed

end

interpretation table: job_table jobs_ok lookup_job "\<lambda>s st. \<not> table_full s \<and> (st = FG \<longrightarrow> no_fg s)" addjob deletejob
proof unfold_locales
  fix s p st c
  assume "jobs_ok s" "0 < p" "lookup_job s p = None" "st \<noteq> UNDEF" "\<not> table_full s \<and> (st = FG \<longrightarrow> no_fg s)"
  then show "\<exists>s' j. addjob p st c s = (True, s') \<and> jobs_ok s' \<and> lookup_job s' = (lookup_job s)(p \<mapsto> j) \<and>
        job_pid j = p \<and> job_state j = st \<and> job_cmdline j = c"
    using addjob_ok [of s p st c]
    by (auto intro!: exI [of _ "\<lparr>job_pid = p, job_jid = nextjid s, job_state = st, job_cmdline = c\<rparr>"])
next
  fix s p
  assume "jobs_ok s"
  then show "\<exists>s'. deletejob p s = (lookup_job s p \<noteq> None, s') \<and> jobs_ok s' \<and> lookup_job s' = (lookup_job s)(p := None)"
    using deletejob_none [of s p] deletejob_ok [of s p] by (cases "lookup_job s p") auto
qed

end
