(* ===== verification/Tsh_Correct.thy ===== *)
theory Tsh_Correct
  imports Tsh_Jobs
begin

text \<open>
  The shell as a state machine: what a signal delivery, a wait for the foreground job and a whole command do
  to the job table, over all runs; the parser's round trip; and the two ways in which a full job table and
  the reuse of job ids break the table's promises.
\<close>

section \<open>Signal deliveries\<close>

lemma lookup_job_ok: "jobs_ok s \<Longrightarrow> lookup_job s p = Some j \<Longrightarrow> job_pid j = p \<and> 0 < p \<and> slot_ok j"
  using lookup_Some_iff [of s p j] jobs_okD(2) by fastforce

text \<open>Writing back a changed state of a job.\<close>

lemma set_state_ok:
  assumes ok: "jobs_ok s" and i: "getjobpid (jobs s) p = Some i" and st: "st \<noteq> UNDEF"
    and fg: "st = FG \<Longrightarrow> no_fg s"
  defines "j \<equiv> jobs s ! i"
  defines "s' \<equiv> s\<lparr>jobs := (jobs s)[i := j\<lparr>job_state := st\<rparr>]\<rparr>"
  shows "jobs_ok s'" "lookup_job s' = (lookup_job s)(p \<mapsto> j\<lparr>job_state := st\<rparr>)"
    "st \<noteq> FG \<Longrightarrow> no_fg s \<or> job_state j = FG \<Longrightarrow> no_fg s'"
proof -
  note gp = getjobpid_Some [OF ok i]
  have len: "length (jobs s) = MAXJOBS" and nj: "0 < nextjid s" using ok by (simp_all add: jobs_ok_def)
  have "slot_ok j" using jobs_okD(2) [OF ok gp(1)] by (simp add: j_def)
  then have sl: "slot_ok (j\<lparr>job_state := st\<rparr>)" using gp(2,3) st by (auto simp: slot_ok_def j_def)
  have rs: "jobs_ok s'" "lookup_job s' = (\<lambda>q. if q \<noteq> 0 \<and> q = job_pid (j\<lparr>job_state := st\<rparr>) then Some (j\<lparr>job_state := st\<rparr>)
      else if q \<noteq> 0 \<and> q = job_pid (jobs s ! i) then None else lookup_job s q)"
    by (rule replace_slot [OF ok gp(1) sl nj, of s']; use fg in \<open>simp add: s'_def j_def\<close>)+
  show "jobs_ok s'" by (rule rs(1))
  show "lookup_job s' = (lookup_job s)(p \<mapsto> j\<lparr>job_state := st\<rparr>)"
    using gp(2,3) rs(2) by (auto simp: j_def fun_eq_iff)
  show "no_fg s'" if "st \<noteq> FG" "no_fg s \<or> job_state j = FG"
  proof -
    have "job_state (jobs s' ! k) \<noteq> FG" if "k < MAXJOBS" for k
      using \<open>st \<noteq> FG\<close> \<open>no_fg s \<or> job_state j = FG\<close> jobs_okD(5) [OF ok gp(1) that] len that nth_mem [of k "jobs s"]
      by (cases "k = i") (auto simp: s'_def no_fg_def j_def)
    moreover have "length (jobs s') = MAXJOBS" using rs(1) by (simp add: jobs_ok_def)
    ultimately show ?thesis by (auto simp: no_fg_def in_set_conv_nth)
  qed
qed

definition after_status :: "wait_status \<Rightarrow> job_t \<Rightarrow> job_t option" where
  "after_status status j = (case status of Stopped _ \<Rightarrow> Some (j\<lparr>job_state := ST\<rparr>) | _ \<Rightarrow> None)"

lemma reap_ok:
  assumes ok: "jobs_ok s" and p: "lookup_job s p = Some j"
  shows "\<exists>s'. reap p status s = Inr s' \<and> jobs_ok s' \<and> lookup_job s' = (lookup_job s)(p := after_status status j) \<and>
    susp s' = (susp s \<and> job_state j \<noteq> FG) \<and> (no_fg s \<or> job_state j = FG \<longrightarrow> no_fg s')"
proof -
  obtain i where gi: "getjobpid (jobs s) p = Some i" and j: "j = jobs s ! i" using p by (auto simp: lookup_job_def)
  define t where "t = (if job_state j = FG then s\<lparr>susp := False\<rparr> else s)"
  have t: "jobs t = jobs s" "nextjid t = nextjid s" "susp t = (susp s \<and> job_state j \<noteq> FG)" by (auto simp: t_def)
  note fr = jobs_ok_frame [of s t] jobs_ok_frame(2,3) [of t s]
  have ok_t: "jobs_ok t" "lookup_job t = lookup_job s" "no_fg t = no_fg s" using fr ok t by simp_all
  have run: "reap p status s = (case status of
        Stopped sig \<Rightarrow> Inr ((emit (StoppedBy (job_jid j) p sig) t)\<lparr>jobs := (jobs t)[i := j\<lparr>job_state := ST\<rparr>]\<rparr>)
      | Signaled sig \<Rightarrow> Inr (snd (deletejob p (emit (TerminatedBy (job_jid j) p sig) t)))
      | Exited _ \<Rightarrow> Inr (snd (deletejob p t)))"
    by (simp add: reap_def gi j Let_def t_def cong: wait_status.case_cong)
  show ?thesis
  proof (cases status)
    case (Stopped sig)
    have gt: "getjobpid (jobs (emit (StoppedBy (job_jid j) p sig) t)) p = Some i" using gi t by simp
    have ok_e: "jobs_ok (emit (StoppedBy (job_jid j) p sig) t)" using ok_t by simp
    note ss = set_state_ok [OF ok_e gt, of ST]
    show ?thesis
      using ss run t j ok_t by (simp add: Stopped after_status_def)
  next
    case (Signaled sig)
    have "jobs_ok (emit (TerminatedBy (job_jid j) p sig) t)" "lookup_job (emit (TerminatedBy (job_jid j) p sig) t) p = Some j"
      using ok_t p by simp_all
    from deletejob_ok [OF this] show ?thesis
      using run t ok_t by (auto simp: Signaled after_status_def)
  next
    case (Exited c)
    have "jobs_ok t" "lookup_job t p = Some j" using ok_t p by simp_all
    from deletejob_ok [OF this] show ?thesis
      using run t ok_t by (auto simp: Exited after_status_def)
  qed
qed

lemma reap_unknown: "lookup_job s p = None \<Longrightarrow> reap p status s = Inl ExitCalled"
  by (simp add: reap_def lookup_job_def)

text \<open>While the shell waits, the flag is down exactly when the foreground job is gone.\<close>

definition wait_inv :: "tsh \<Rightarrow> bool" where
  "wait_inv s \<longleftrightarrow> jobs_ok s \<and> (\<not> susp s \<longrightarrow> no_fg s)"

lemma reap_wait_inv:
  assumes "wait_inv s" "reap p status s = Inr s'"
  shows "wait_inv s'" "no_fg s \<Longrightarrow> no_fg s'" "no_fg s \<Longrightarrow> susp s' = susp s"
proof -
  obtain j where j: "lookup_job s p = Some j" using assms(2) reap_unknown [of s p status] by (cases "lookup_job s p") auto
  have ok: "jobs_ok s" "\<not> susp s \<longrightarrow> no_fg s" using assms(1) by (simp_all add: wait_inv_def)
  note r = reap_ok [OF ok(1) j, of status]
  show "wait_inv s'" "no_fg s \<Longrightarrow> no_fg s'" using r assms(2) ok by (auto simp: wait_inv_def)
  have "job_state j \<noteq> FG" if "no_fg s"
    using that j lookup_Some_iff [OF ok(1), of p j] ok(1) nth_mem by (fastforce simp: no_fg_def jobs_ok_def)
  then show "no_fg s \<Longrightarrow> susp s' = susp s" using r assms(2) by auto
qed

lemma sigchld_wait_inv:
  "sigchld_loop ws s = Inr s' \<Longrightarrow> wait_inv s \<Longrightarrow> wait_inv s' \<and> (no_fg s \<longrightarrow> no_fg s' \<and> susp s' = susp s)"
proof (induction ws s rule: sigchld_loop.induct)
  case (2 pid status ws s)
  then obtain s1 where s1: "reap pid status s = Inr s1" "sigchld_loop ws s1 = Inr s'" by (auto simp: sbind_Inr_iff)
  have "wait_inv s1" "no_fg s \<Longrightarrow> no_fg s1" "no_fg s \<Longrightarrow> susp s1 = susp s"
    using reap_wait_inv [OF _ s1(1)] 2(3) by auto
  then show ?case using 2(1) [OF s1] by auto
qed simp

lemma Kill_Inr: "Kill kill_ok p sig s = Inr s' \<Longrightarrow> s' = emit (Sent p sig) s"
  by (auto simp: Kill_def split: if_splits)

lemma deliver_wait_inv:
  assumes "wait_inv s" "deliver kill_ok d s = Inr s'"
  shows "wait_inv s' \<and> (no_fg s \<longrightarrow> no_fg s' \<and> susp s' = susp s)"
proof (cases d)
  case (SigChld ws we)
  then have "sigchld_loop ws s = Inr s'"
    using assms(2) by (auto simp: sigchld_handler_def sbind_Inr_iff split: if_splits)
  then show ?thesis using sigchld_wait_inv assms(1) by blast
qed (use assms in \<open>auto simp: sigint_handler_def sigtstp_handler_def sigquit_handler_def Let_def wait_inv_def
      split: if_splits dest!: Kill_Inr\<close>)

lemma wait_loop_inv:
  "wait_loop kill_ok ds s = Inr (ds', s') \<Longrightarrow> wait_inv s \<Longrightarrow> wait_inv s' \<and> \<not> susp s' \<and> (\<exists>used. ds = used @ ds')"
proof (induction ds arbitrary: s)
  case Nil
  then show ?case by (auto simp: wait_loop.simps split: if_splits)
next
  case (Cons d ds)
  show ?case
  proof (cases "susp s")
    case True
    then obtain s1 where s1: "deliver kill_ok d s = Inr s1" "wait_loop kill_ok ds s1 = Inr (ds', s')"
      using Cons.prems(1) by (auto simp: wait_loop.simps [of _ "d # ds"] sbind_Inr_iff)
    have "wait_inv s1" using deliver_wait_inv [OF Cons.prems(2) s1(1)] by simp
    from Cons.IH [OF s1(2) this] show ?thesis by auto
  next
    case False
    then show ?thesis using Cons.prems by (auto simp: wait_loop.simps)
  qed
qed

section \<open>Commands\<close>

text \<open>At the prompt: a good table, no foreground job, nothing to wait for.\<close>

definition prompt_inv :: "tsh \<Rightarrow> bool" where
  "prompt_inv s \<longleftrightarrow> jobs_ok s \<and> no_fg s \<and> \<not> susp s"

lemma waitfg_prompt:
  assumes "waitfg kill_ok p ds s = Inr (ds', s')" "jobs_ok s"
  shows "prompt_inv s'"
proof -
  have "wait_inv (s\<lparr>susp := True\<rparr>)" using assms(2) by (simp add: wait_inv_def jobs_ok_def)
  from wait_loop_inv [OF assms(1) [unfolded waitfg_def] this] show ?thesis
    by (auto simp: wait_inv_def prompt_inv_def)
qed

lemma prompt_emit: "prompt_inv s \<Longrightarrow> prompt_inv (emit e s)"
  by (simp add: prompt_inv_def)

lemma prompt_listjobs: "prompt_inv s \<Longrightarrow> prompt_inv (listjobs s)"
proof -
  have "prompt_inv s \<Longrightarrow> prompt_inv (fold (\<lambda>j s. if job_pid j \<noteq> 0
      then emit (Listed (job_jid j) (job_pid j) (job_state j) (job_cmdline j)) s else s) js s)" for js
    by (induction js arbitrary: s) (auto simp: prompt_emit)
  then show "prompt_inv s \<Longrightarrow> prompt_inv (listjobs s)" by (simp add: listjobs_def)
qed

lemma getjobjid_getjobpid:
  assumes ok: "jobs_ok s" and i: "getjobjid (jobs s) jid = Some i"
  shows "getjobpid (jobs s) (job_pid (jobs s ! i)) = Some i"
proof -
  have "i < MAXJOBS" "job_jid (jobs s ! i) = jid" "0 < jid"
    using i ok first_index_Some [of "\<lambda>j. job_jid j = jid" "jobs s" i]
    by (auto simp: getjobjid_def jobs_ok_def split: if_splits)
  moreover from this have "0 < job_pid (jobs s ! i)" using jobs_okD(2) [OF ok] by (fastforce simp: slot_ok_def)
  ultimately show ?thesis using getjobpid_iff [OF ok] by simp
qed

lemma bgfg_find_ok:
  assumes "jobs_ok s" "bgfg_find argv (jobs s) = Found i"
  shows "getjobpid (jobs s) (job_pid (jobs s ! i)) = Some i"
proof -
  consider jid where "getjobjid (jobs s) jid = Some i" | p where "getjobpid (jobs s) p = Some i"
    using assms(2) by (auto simp: bgfg_find_def split: if_splits option.splits)
  then show ?thesis
  proof cases
    case (2 p)
    then show ?thesis using getjobpid_Some(3) [OF assms(1)] by simp
  qed (use getjobjid_getjobpid [OF assms(1)] in simp)
qed

lemma do_bgfg_prompt:
  assumes P: "prompt_inv s" and run: "do_bgfg kill_ok argv ds s = Inr (ds', s')"
  shows "prompt_inv s'"
proof (cases "length argv < 2")
  case True
  then show ?thesis using assms by (auto simp: do_bgfg_def prompt_emit)
next
  case len: False
  show ?thesis
  proof (cases "bgfg_find argv (jobs s)")
    case (Complain e)
    then show ?thesis using assms len by (auto simp: do_bgfg_def prompt_emit)
  next
    case (Found i)
    have ok: "jobs_ok s" and nf: "no_fg s" "\<not> susp s" using P by (simp_all add: prompt_inv_def)
    define job where "job = jobs s ! i"
    have gi: "getjobpid (jobs s) (job_pid job) = Some i" using bgfg_find_ok [OF ok Found] by (simp add: job_def)
    show ?thesis
    proof (cases "argv ! 0 = ''bg''")
      case True
      let ?t = "s\<lparr>jobs := (jobs s)[i := job\<lparr>job_state := BG\<rparr>]\<rparr>"
      have "prompt_inv ?t"
        using set_state_ok [OF ok gi, of BG] nf by (auto simp: prompt_inv_def job_def)
      then show ?thesis using run len Found True P
        by (auto simp: do_bgfg_def Let_def sbind_Inr_iff prompt_emit job_def [symmetric] split: if_splits dest!: Kill_Inr)
    next
      case False
      then obtain t where t: "t = s \<or> t = emit (Sent (- job_pid job) SIGCONT) s"
        "waitfg kill_ok (job_pid job) ds (t\<lparr>jobs := (jobs t)[i := job\<lparr>job_state := FG\<rparr>]\<rparr>) = Inr (ds', s')"
        using run len Found
        by (auto simp: do_bgfg_def Let_def sbind_Inr_iff job_def [symmetric] split: if_splits dest!: Kill_Inr)
      have "jobs_ok t" "no_fg t" "jobs t = jobs s" using t(1) ok nf by auto
      then have "jobs_ok (t\<lparr>jobs := (jobs t)[i := job\<lparr>job_state := FG\<rparr>]\<rparr>)"
        using set_state_ok(1) [of t "job_pid job" i FG] gi by (simp add: job_def)
      from waitfg_prompt [OF t(2) this] show ?thesis .
    qed
  qed
qed

lemma builtin_prompt:
  assumes "prompt_inv s" "builtin_cmd kill_ok argv ds s = Inr (Some (ds', s'))"
  shows "prompt_inv s'"
  using assms prompt_listjobs do_bgfg_prompt by (auto simp: builtin_cmd_def sbind_Inr_iff split: if_splits)

text \<open>With a full table the failed \<^verbatim>\<open>addjob\<close> goes unnoticed, and the child's signal then ends the shell; so a
foreground command returns only if its job was entered.\<close>

lemma addjob_prompt:
  assumes "prompt_inv s" "0 < p" "lookup_job s p = None" "st \<noteq> UNDEF"
  shows "jobs_ok (snd (addjob p st c s))" "st \<noteq> FG \<Longrightarrow> prompt_inv (snd (addjob p st c s))"
proof -
  have s: "jobs_ok s" "no_fg s" "\<not> susp s" using assms(1) by (simp_all add: prompt_inv_def)
  have "jobs_ok (snd (addjob p st c s)) \<and> (st \<noteq> FG \<longrightarrow> prompt_inv (snd (addjob p st c s)))"
  proof (cases "table_full s")
    case True
    then show ?thesis using addjob_full [OF assms(2) True] s by (simp add: prompt_inv_def)
  next
    case False
    from addjob_ok [OF s(1) assms(2,3) this assms(4) s(2), of c] show ?thesis using s by (auto simp: prompt_inv_def)
  qed
  then show "jobs_ok (snd (addjob p st c s))" "st \<noteq> FG \<Longrightarrow> prompt_inv (snd (addjob p st c s))" by blast+
qed

lemma eval_prompt:
  assumes P: "prompt_inv s" and pid: "0 < p" "lookup_job s p = None" and run: "eval kill_ok c p ds s = Inr (ds', s')"
  shows "prompt_inv s'"
proof -
  obtain bg argv where pl: "parseline c = Inr (bg, argv)" using run by (auto simp: eval_def sbind_Inr_iff)
  show ?thesis
  proof (cases "argv = []")
    case True
    then show ?thesis using run pl P by (simp add: eval_def)
  next
    case False
    then obtain r where r: "builtin_cmd kill_ok argv ds s = Inr r" using run pl by (auto simp: eval_def sbind_Inr_iff)
    show ?thesis
    proof (cases r)
      case (Some x)
      then show ?thesis using run pl False r builtin_prompt [OF P] by (cases x) (auto simp: eval_def)
    next
      case None
      let ?e = "emit (Spawned p argv) s"
      have pe: "prompt_inv ?e" "lookup_job ?e p = None" using P pid by (simp_all add: prompt_emit)
      show ?thesis
      proof (cases bg)
        case True
        then show ?thesis using run pl False r None pid(1) addjob_prompt(2) [OF pe(1) pid(1) pe(2), of BG c]
          by (auto simp: eval_def Let_def prompt_emit)
      next
        case fg: False
        then have "waitfg kill_ok p ds (snd (addjob p FG c ?e)) = Inr (ds', s')"
          using run pl False r None pid(1) by (simp add: eval_def Let_def)
        from waitfg_prompt [OF this addjob_prompt(1) [OF pe(1) pid(1) pe(2)]] show ?thesis by simp
      qed
    qed
  qed
qed

section \<open>Waiting for the foreground job\<close>

definition fg_waiting :: "int \<Rightarrow> tsh \<Rightarrow> bool" where
  "fg_waiting p s \<longleftrightarrow> jobs_ok s \<and> susp s \<and> (\<exists>j. lookup_job s p = Some j \<and> job_state j = FG)"

lemma fg_unique:
  assumes "jobs_ok s" "lookup_job s p = Some j" "lookup_job s q = Some k" "job_state j = FG" "job_state k = FG"
  shows "p = q"
  using assms lookup_Some_iff [OF assms(1), of p j] lookup_Some_iff [OF assms(1), of q k] jobs_okD(5) [OF assms(1)]
  by (metis (mono_tags, lifting))

lemma fg_waiting_reap:
  assumes "fg_waiting p s" "q \<noteq> p" "reap q status s = Inr s'"
  shows "fg_waiting p s'"
proof -
  obtain j where j: "jobs_ok s" "susp s" "lookup_job s p = Some j" "job_state j = FG" using assms(1) by (auto simp: fg_waiting_def)
  obtain k where k: "lookup_job s q = Some k" using assms(3) reap_unknown [of s q status] by (cases "lookup_job s q") auto
  have "job_state k \<noteq> FG" using fg_unique [OF j(1,3) k j(4)] assms(2) by blast
  then show ?thesis using reap_ok [OF j(1) k, of status] assms(2,3) j by (auto simp: fg_waiting_def)
qed

lemma fg_waiting_sigchld:
  "sigchld_loop ws s = Inr s' \<Longrightarrow> fg_waiting p s \<Longrightarrow> \<forall>st. (p, st) \<notin> set ws \<Longrightarrow> fg_waiting p s'"
proof (induction ws s rule: sigchld_loop.induct)
  case (2 q status ws s)
  then obtain s1 where s1: "reap q status s = Inr s1" "sigchld_loop ws s1 = Inr s'" by (auto simp: sbind_Inr_iff)
  have "fg_waiting p s1" using fg_waiting_reap [OF 2(3) _ s1(1)] 2(4) by auto
  then show ?case using 2(1) [OF s1] 2(4) by auto
qed simp

definition reports :: "int \<Rightarrow> delivery \<Rightarrow> bool" where
  "reports p d \<longleftrightarrow> (\<exists>ws we st. d = SigChld ws we \<and> (p, st) \<in> set ws)"

lemma fg_waiting_deliver:
  assumes "fg_waiting p s" "deliver kill_ok d s = Inr s'" "\<not> reports p d"
  shows "fg_waiting p s'"
proof (cases d)
  case (SigChld ws we)
  then have "sigchld_loop ws s = Inr s'"
    using assms(2) by (auto simp: sigchld_handler_def sbind_Inr_iff split: if_splits)
  then show ?thesis using fg_waiting_sigchld [OF _ assms(1)] assms(3) SigChld by (auto simp: reports_def)
qed (use assms in \<open>auto simp: sigint_handler_def sigtstp_handler_def sigquit_handler_def Let_def fg_waiting_def
      split: if_splits dest!: Kill_Inr\<close>)

lemma wait_loop_until:
  "wait_loop kill_ok ds s = Inr (ds', s') \<Longrightarrow> fg_waiting p s \<Longrightarrow> \<exists>used d. ds = used @ ds' \<and> d \<in> set used \<and> reports p d"
proof (induction ds arbitrary: s)
  case Nil
  then show ?case by (auto simp: wait_loop.simps fg_waiting_def)
next
  case (Cons d ds)
  then obtain s1 where s1: "deliver kill_ok d s = Inr s1" "wait_loop kill_ok ds s1 = Inr (ds', s')"
    by (auto simp: wait_loop.simps [of _ "d # ds"] sbind_Inr_iff fg_waiting_def)
  show ?case
  proof (cases "reports p d")
    case True
    have "wait_inv s1" using deliver_wait_inv [OF _ s1(1)] Cons.prems(2) by (auto simp: wait_inv_def fg_waiting_def)
    from wait_loop_inv [OF s1(2) this] obtain used where "ds = used @ ds'" by blast
    then show ?thesis using True by (intro exI [of _ "d # used"]) auto
  next
    case False
    from Cons.IH [OF s1(2) fg_waiting_deliver [OF Cons.prems(2) s1(1) False]] obtain used e
      where "ds = used @ ds'" "e \<in> set used" "reports p e" by blast
    then show ?thesis by (intro exI [of _ "d # used"]) auto
  qed
qed

text \<open>The part of \<^verbatim>\<open>eval\<close> after a line that is not a built-in command.\<close>

definition is_builtin :: "string \<Rightarrow> bool" where
  "is_builtin c \<longleftrightarrow> c = ''quit'' \<or> c = ''jobs'' \<or> c = ''bg'' \<or> c = ''fg''"

lemma eval_external:
  assumes "parseline c = Inr (bg, argv)" "argv \<noteq> []" "\<not> is_builtin (argv ! 0)" "0 < p"
  shows "eval kill_ok c p ds s =
    (let s = snd (addjob p (if bg then BG else FG) c (emit (Spawned p argv) s))
     in if \<not> bg then waitfg kill_ok p ds s else Inr (ds, emit (Announced (pid2jid (jobs s) p) p c) s))"
  using assms by (simp add: eval_def builtin_cmd_def is_builtin_def)

lemma eval_fg_waiting:
  assumes P: "prompt_inv s" and line: "parseline c = Inr (False, argv)" "argv \<noteq> []" "\<not> is_builtin (argv ! 0)"
    and p: "0 < p" "lookup_job s p = None" and room: "\<not> table_full s"
  obtains t j where "eval kill_ok c p ds s = wait_loop kill_ok ds t" "fg_waiting p t"
    "lookup_job t = (lookup_job s)(p \<mapsto> j)" "job_state j = FG" "job_cmdline j = c"
proof -
  let ?e = "emit (Spawned p argv) s"
  have e: "jobs_ok ?e" "lookup_job ?e p = None" "\<not> table_full ?e" "no_fg ?e" using P p room by (simp_all add: prompt_inv_def table_full_def)
  obtain t where t: "addjob p FG c ?e = (True, t)" "jobs_ok t"
    "lookup_job t = (lookup_job ?e)(p \<mapsto> \<lparr>job_pid = p, job_jid = nextjid ?e, job_state = FG, job_cmdline = c\<rparr>)"
    using addjob_ok [OF e(1) p(1) e(2,3), of FG c] e(4) by auto
  have "eval kill_ok c p ds s = wait_loop kill_ok ds (t\<lparr>susp := True\<rparr>)"
    using eval_external [OF line p(1)] t(1) by (simp add: waitfg_def)
  moreover have "jobs_ok (t\<lparr>susp := True\<rparr>)" "lookup_job (t\<lparr>susp := True\<rparr>) = lookup_job t"
    using jobs_ok_frame [of t "t\<lparr>susp := True\<rparr>"] jobs_ok_frame(2) [of "t\<lparr>susp := True\<rparr>" t] t(2) by simp_all
  ultimately show ?thesis using that [of "t\<lparr>susp := True\<rparr>"] t(3) by (simp add: fg_waiting_def)
qed

section \<open>Properties of the shell\<close>

text \<open>The initial state, and the states at the prompt.  A new child has a pid that no unreaped job has.\<close>

definition shell_start :: "bool \<Rightarrow> tsh" where
  "shell_start v = initjobs \<lparr>jobs = replicate MAXJOBS \<lparr>job_pid = 0, job_jid = 0, job_state = UNDEF, job_cmdline = []\<rparr>,
     nextjid = 1, verbose = v, susp = False, events = []\<rparr>"

inductive tsh_reach :: "(int \<Rightarrow> int \<Rightarrow> bool) \<Rightarrow> tsh \<Rightarrow> bool"
  for kill_ok
where
  start: "tsh_reach kill_ok (shell_start v)"
| command: "tsh_reach kill_ok s \<Longrightarrow> 0 < p \<Longrightarrow> lookup_job s p = None \<Longrightarrow> eval kill_ok c p ds s = Inr (ds', s') \<Longrightarrow>
    tsh_reach kill_ok s'"
| signal: "tsh_reach kill_ok s \<Longrightarrow> deliver kill_ok d s = Inr s' \<Longrightarrow> tsh_reach kill_ok s'"

lemma shell_start_prompt: "prompt_inv (shell_start v)"
  by (simp add: prompt_inv_def shell_start_def initjobs_def jobs_ok_def no_fg_def slot_ok_def clearjob_def)

lemma reach_prompt: "tsh_reach kill_ok s \<Longrightarrow> prompt_inv s"
proof (induction rule: tsh_reach.induct)
  case (start v)
  show ?case by (rule shell_start_prompt)
next
  case (command s p c ds ds' s')
  then show ?case using eval_prompt by blast
next
  case (signal s d s')
  then have "wait_inv s" "no_fg s" "\<not> susp s" by (simp_all add: wait_inv_def prompt_inv_def)
  then show ?case using deliver_wait_inv [OF _ signal(2)] by (auto simp: wait_inv_def prompt_inv_def)
qed

text \<open>Nothing ends a wait that no foreground job caused.\<close>

lemma wait_without_fg:
  assumes "wait_inv s" "no_fg s" "susp s"
  shows "wait_loop kill_ok ds s \<noteq> Inr r"
  using assms
proof (induction ds arbitrary: s)
  case (Cons d ds)
  then show ?case using deliver_wait_inv [of s kill_ok d] by (auto simp: wait_loop.simps [of _ "d # ds"] sbind_Inr_iff)
qed (simp add: wait_loop.simps)

lemma eval_full:
  assumes "prompt_inv s" "parseline c = Inr (False, argv)" "argv \<noteq> []" "\<not> is_builtin (argv ! 0)" "0 < p" "table_full s"
  defines "t \<equiv> (emit TooManyJobs (emit (Spawned p argv) s))\<lparr>susp := True\<rparr>"
  shows "eval kill_ok c p ds s = wait_loop kill_ok ds t" "wait_inv t" "no_fg t" "susp t" "lookup_job t = lookup_job s"
proof -
  have "table_full (emit (Spawned p argv) s)" using assms(6) by (simp add: table_full_def)
  then show "eval kill_ok c p ds s = wait_loop kill_ok ds t"
    using eval_external [OF assms(2-5)] addjob_full [OF assms(5)] by (simp add: waitfg_def t_def)
  have fr: "jobs t = jobs s" "nextjid t = nextjid s" by (simp_all add: t_def)
  then show "wait_inv t" "no_fg t" "susp t" "lookup_job t = lookup_job s"
    using assms(1) jobs_ok_frame(1) [of s t] jobs_ok_frame(2,3) [of t s] by (simp_all add: wait_inv_def prompt_inv_def t_def)
qed

text \<open>C6. Whenever the shell is at its prompt, whatever commands were typed and signals arrived before: the table has
its sixteen slots, each clear or holding a live job with its own pid, and no job is in the foreground.\<close>

theorem shell_invariant:
  assumes "tsh_reach kill_ok s"
  shows "jobs_ok s \<and> no_fg s \<and> \<not> susp s"
  using reach_prompt [OF assms] by (simp add: prompt_inv_def)

text \<open>A signal delivery keeps the table's invariant, in which at most one job is in the foreground, also while the
shell waits, and ends the wait only if it leaves no foreground job.\<close>

theorem delivery_keeps_invariant:
  assumes "jobs_ok s" "susp s" "deliver kill_ok d s = Inr s'"
  shows "jobs_ok s' \<and> (\<not> susp s' \<longrightarrow> no_fg s')"
  using deliver_wait_inv [OF _ assms(3)] assms(1,2) by (simp add: wait_inv_def)

theorem delivery_keeps_invariant_witness:
  "\<exists>s'. deliver (\<lambda>_ _. True) (SigChld [] NoneReady) ((shell_start True)\<lparr>susp := True\<rparr>) = Inr s' \<and>
     (jobs_ok s' \<and> (\<not> susp s' \<longrightarrow> no_fg s'))"
proof -
  let ?s = "(shell_start True)\<lparr>susp := True\<rparr>"
  have ok: "jobs_ok ?s" using shell_start_prompt [of True] by (simp add: prompt_inv_def jobs_ok_def)
  have run: "deliver (\<lambda>_ _. True) (SigChld [] NoneReady) ?s = Inr ?s" by (simp add: sigchld_handler_def)
  show ?thesis using delivery_keeps_invariant [OF ok _ run] run by simp
qed


text \<open>A line with one plain word, for the examples.\<close>

lemma parseline_ls: "parseline (''ls'' @ [CHR 0x0A]) = Inr (False, [''ls''])"
  by (simp add: parseline_def skip_spaces_def parse_loop.simps find_delim_def MAXARGS_def)

lemma start_lookup: "lookup_job (shell_start v) p = None"
  by (auto simp: lookup_job_def getjobpid_def first_index_None shell_start_def initjobs_def clearjob_def)

lemma start_room: "\<not> table_full (shell_start v)"
  by (simp add: table_full_def shell_start_def initjobs_def clearjob_def MAXJOBS_def)

lemma ls_external: "[''ls''] \<noteq> []" "\<not> is_builtin ([''ls''] ! 0)"
  by (simp_all add: is_builtin_def)

lemma eval_fg_returns:
  assumes "prompt_inv s" "parseline c = Inr (False, argv)" "argv \<noteq> []" "\<not> is_builtin (argv ! 0)"
    and "0 < p" "lookup_job s p = None" "\<not> table_full s" "we \<noteq> WaitError"
  shows "\<exists>s' j. eval kill_ok c p (SigChld [(p, status)] we # ds) s = Inr (ds, s') \<and> job_cmdline j = c \<and>
    lookup_job s' = (lookup_job s)(p := after_status status j)"
proof -
  obtain t j where t: "eval kill_ok c p (SigChld [(p, status)] we # ds) s = wait_loop kill_ok (SigChld [(p, status)] we # ds) t"
    "fg_waiting p t" "lookup_job t = (lookup_job s)(p \<mapsto> j)" "job_state j = FG" "job_cmdline j = c"
    by (rule eval_fg_waiting [OF assms(1-7)])
  have "jobs_ok t" "lookup_job t p = Some j" "susp t" using t(2,3) by (auto simp: fg_waiting_def)
  from reap_ok [OF this(1,2), of status] obtain s' where "reap p status t = Inr s'" "\<not> susp s'"
    "lookup_job s' = (lookup_job t)(p := after_status status j)" using t(4) by auto
  then show ?thesis
    using t \<open>susp t\<close> assms(8) by (intro exI [of _ s'] exI [of _ j])
      (simp add: wait_loop.simps sigchld_handler_def)
qed

text \<open>A shell with a stopped job in its table is reached from the start.\<close>

theorem shell_invariant_witness:
  "\<exists>s. tsh_reach (\<lambda>_ _. True) s \<and> lookup_job s 42 \<noteq> None \<and> jobs_ok s \<and> no_fg s \<and> \<not> susp s"
proof -
  obtain s j where s: "eval (\<lambda>_ _. True) (''ls'' @ [CHR 0x0A]) 42 [SigChld [(42, Stopped 20)] NoChild] (shell_start False) = Inr ([], s)"
    "lookup_job s = (lookup_job (shell_start False))(42 := after_status (Stopped 20) j)"
    using eval_fg_returns [OF shell_start_prompt parseline_ls ls_external _ start_lookup start_room, of 42 NoChild "\<lambda>_ _. True" "Stopped 20" "[]" False] by auto
  have r: "tsh_reach (\<lambda>_ _. True) s" using tsh_reach.command [OF tsh_reach.start _ start_lookup s(1)] by simp
  show ?thesis using shell_invariant [OF r] r s(2) by (intro exI [of _ s]) (simp add: after_status_def)
qed

text \<open>C8. A foreground command comes back: when the table has room and the next delivery is the SIGCHLD that reports its
process, \<^verbatim>\<open>eval\<close> returns after that delivery, with the job removed if it ended and stopped if it stopped.\<close>

theorem foreground_returns:
  assumes "tsh_reach kill_ok s" "parseline c = Inr (False, argv)" "argv \<noteq> []" "\<not> is_builtin (argv ! 0)"
    and "0 < p" "lookup_job s p = None" "\<not> table_full s" "we \<noteq> WaitError"
  shows "\<exists>s' j. eval kill_ok c p (SigChld [(p, status)] we # ds) s = Inr (ds, s') \<and> job_cmdline j = c \<and>
    lookup_job s' = (lookup_job s)(p := after_status status j)"
  by (rule eval_fg_returns [OF reach_prompt [OF assms(1)] assms(2-8)])

theorem foreground_returns_witness:
  "\<exists>s' j. eval (\<lambda>_ _. True) (''ls'' @ [CHR 0x0A]) 42 [SigChld [(42, Exited 0)] NoChild] (shell_start False) = Inr ([], s') \<and>
     job_cmdline j = ''ls'' @ [CHR 0x0A] \<and>
     lookup_job s' = (lookup_job (shell_start False))(42 := after_status (Exited 0) j)"
  by (rule foreground_returns [OF tsh_reach.start parseline_ls ls_external _ start_lookup start_room]) simp_all


text \<open>A full table breaks the shell: \<^verbatim>\<open>eval\<close> ignores that \<^verbatim>\<open>addjob\<close> failed, so a foreground command never returns to the
prompt, and the SIGCHLD of its process ends the shell (the handler does not find the job).\<close>

theorem full_table_kills_shell:
  assumes "tsh_reach kill_ok s" "parseline c = Inr (False, argv)" "argv \<noteq> []" "\<not> is_builtin (argv ! 0)"
    and "0 < p" "lookup_job s p = None" "table_full s"
  shows "(\<forall>ds r. eval kill_ok c p ds s \<noteq> Inr r) \<and>
    eval kill_ok c p (SigChld ((p, status) # ws) we # ds) s = Inl ExitCalled"
proof -
  note ef = eval_full [OF reach_prompt [OF assms(1)] assms(2-5,7)]
  have "reap p status ((emit TooManyJobs (emit (Spawned p argv) s))\<lparr>susp := True\<rparr>) = Inl ExitCalled"
    using reap_unknown ef(5) assms(6) by simp
  then have "eval kill_ok c p (SigChld ((p, status) # ws) we # ds) s = Inl ExitCalled"
    using ef(1) by (simp add: wait_loop.simps sigchld_handler_def)
  then show ?thesis using ef wait_without_fg by simp
qed

text \<open>Sixteen background commands fill the table.\<close>

fun start_jobs :: "int list \<Rightarrow> tsh \<Rightarrow> tsh" where
  "start_jobs [] s = s"
| "start_jobs (p # ps) s =
     (if 0 < p \<and> lookup_job s p = None
      then case eval (\<lambda>_ _. True) (''sleep &'' @ [CHR 0x0A]) p [] s of Inr r \<Rightarrow> start_jobs ps (snd r) | Inl _ \<Rightarrow> s
      else s)"

lemma start_jobs_reach: "tsh_reach (\<lambda>_ _. True) s \<Longrightarrow> tsh_reach (\<lambda>_ _. True) (start_jobs ps s)"
proof (induction ps s rule: start_jobs.induct)
  case (2 p ps s)
  then show ?case using tsh_reach.command [of _ s p "''sleep &'' @ [CHR 0x0A]" "[]"] by (auto split: sum.splits)
qed simp

definition full_shell :: tsh where
  "full_shell = start_jobs [101, 102, 103, 104, 105, 106, 107, 108, 109, 110, 111, 112, 113, 114, 115, 116] (shell_start False)"

lemma full_shell_facts: "table_full full_shell \<and> lookup_job full_shell 117 = None"
  by code_simp

theorem full_table_kills_shell_witness:
  "table_full full_shell \<and> (\<forall>ds r. eval (\<lambda>_ _. True) (''ls'' @ [CHR 0x0A]) 117 ds full_shell \<noteq> Inr r) \<and>
   eval (\<lambda>_ _. True) (''ls'' @ [CHR 0x0A]) 117 [SigChld [(117, Exited 0)] NoneReady] full_shell = Inl ExitCalled"
proof -
  have "tsh_reach (\<lambda>_ _. True) full_shell" unfolding full_shell_def by (rule start_jobs_reach [OF tsh_reach.start])
  from full_table_kills_shell [OF this parseline_ls ls_external, of 117 "Exited 0" "[]" NoneReady "[]"]
  show ?thesis using full_shell_facts by simp
qed

definition reused_ids :: tsh where
  "reused_ids =
     (case sigchld_loop (map (\<lambda>p. (p, Exited 0)) [102, 103, 104, 105, 106, 107, 108, 109, 110, 111, 112, 113, 114, 115]) full_shell of
        Inr s \<Rightarrow> start_jobs [201, 202] s
      | Inl _ \<Rightarrow> full_shell)"

lemma reused_ids_value:
  "map (\<lambda>i. (job_pid (jobs reused_ids ! i), job_jid (jobs reused_ids ! i))) [0, 1, 2, 15] =
     [(101, 1), (201, 17), (202, 1), (116, 16)]"
  by code_simp

lemma reused_ids_reach: "tsh_reach (\<lambda>_ _. True) reused_ids"
proof -
  have r: "tsh_reach (\<lambda>_ _. True) full_shell" unfolding full_shell_def by (rule start_jobs_reach [OF tsh_reach.start])
  have "tsh_reach (\<lambda>_ _. True) s" if "sigchld_loop ws full_shell = Inr s" for ws s
    using tsh_reach.signal [OF r, of "SigChld ws NoneReady" s] that by (simp add: sigchld_handler_def)
  then show ?thesis unfolding reused_ids_def using r start_jobs_reach
    by (simp split: sum.split del: start_jobs.simps sigchld_loop.simps list.map)
qed

text \<open>Job ids are not unique: after sixteen jobs, of which the second to the fifteenth end, the two next jobs get the ids 17
and 1, and 1 is still in use, so \<^verbatim>\<open>fg %1\<close> cannot name the newer of the two.\<close>

theorem job_ids_repeat:
  "\<exists>s i k. tsh_reach (\<lambda>_ _. True) s \<and> i < MAXJOBS \<and> k < MAXJOBS \<and> job_pid (jobs s ! i) \<noteq> job_pid (jobs s ! k) \<and>
     job_jid (jobs s ! i) = 1 \<and> job_jid (jobs s ! k) = 1 \<and> job_pid (jobs s ! i) \<noteq> 0 \<and> job_pid (jobs s ! k) \<noteq> 0"
  using reused_ids_reach reused_ids_value
  by (intro exI [of _ reused_ids] exI [of _ 0] exI [of _ 2]) (simp add: MAXJOBS_def)

text \<open>The keyboard signals go to the foreground job and to nobody else: its process group gets the signal when there is a
foreground job, and nothing is sent otherwise.\<close>

theorem handlers_signal_foreground:
  assumes "jobs_ok s"
  shows "(lookup_job s p = Some j \<and> job_state j = FG \<longrightarrow>
      sigint_handler kill_ok s = Kill kill_ok (- p) SIGINT s \<and> sigtstp_handler kill_ok s = Kill kill_ok (- p) SIGTSTP s) \<and>
    (no_fg s \<longrightarrow> sigint_handler kill_ok s = Inr s \<and> sigtstp_handler kill_ok s = Inr s)"
proof (intro conjI impI; (elim conjE)?)
  assume j: "lookup_job s p = Some j" "job_state j = FG"
  then obtain i where i: "i < MAXJOBS" "jobs s ! i = j" "job_pid j = p" "0 < p" using lookup_Some_iff [OF assms] by blast
  have len: "length (jobs s) = MAXJOBS" using assms by (simp add: jobs_ok_def)
  have uq: "k = i" if "k < MAXJOBS" "job_state (jobs s ! k) = FG" for k
    using jobs_okD(5) [OF assms that(1) i(1) that(2)] i(2) j(2) by simp
  have "first_index (\<lambda>j. job_state j = FG) (jobs s) = Some i"
  proof (rule first_indexI)
    show "\<forall>k < length (jobs s). job_state (jobs s ! k) = FG \<longrightarrow> k = i" using uq len by simp
  qed (use i j len in simp_all)
  then have "fgpid (jobs s) = p" using i by (simp add: fgpid_def)
  then show "sigint_handler kill_ok s = Kill kill_ok (- p) SIGINT s" "sigtstp_handler kill_ok s = Kill kill_ok (- p) SIGTSTP s"
    using i(4) by (simp_all add: sigint_handler_def sigtstp_handler_def Let_def)
next
  assume "no_fg s"
  then have "first_index (\<lambda>j. job_state j = FG) (jobs s) = None" by (simp add: first_index_None no_fg_def)
  then have "fgpid (jobs s) = 0" by (simp add: fgpid_def)
  then show "sigint_handler kill_ok s = Inr s" "sigtstp_handler kill_ok s = Inr s"
    by (simp_all add: sigint_handler_def sigtstp_handler_def Let_def)
qed

theorem handlers_signal_foreground_witness:
  "jobs_ok (shell_start False) \<and> sigint_handler (\<lambda>_ _. True) (shell_start False) = Inr (shell_start False)"
proof -
  have s: "jobs_ok (shell_start False)" "no_fg (shell_start False)" using shell_start_prompt by (simp_all add: prompt_inv_def)
  show ?thesis using handlers_signal_foreground [OF s(1)] s by blast
qed



section \<open>The parser\<close>

text \<open>How a user writes arguments: a plain word as it is, any other argument in single quotes.\<close>

definition plain :: "string \<Rightarrow> bool" where
  "plain a \<longleftrightarrow> a \<noteq> [] \<and> CHR '' '' \<notin> set a \<and> hd a \<noteq> CHR 0x27"

definition writable :: "string \<Rightarrow> bool" where
  "writable a \<longleftrightarrow> plain a \<or> CHR 0x27 \<notin> set a"

definition write_arg :: "string \<Rightarrow> string" where
  "write_arg a = (if plain a then a @ '' '' else CHR 0x27 # a @ [CHR 0x27, CHR '' ''])"

definition write_args :: "string list \<Rightarrow> string" where
  "write_args args = concat (map write_arg args)"

lemma split_at_append: "d \<notin> set a \<Longrightarrow> split_at d (a @ d # r) = Some (a, r)"
  by (induction a) auto

lemma skip_write_arg: "skip_spaces (write_arg a @ r) = write_arg a @ r"
proof -
  have "hd a \<noteq> CHR '' ''" if "plain a" using that by (cases a) (auto simp: plain_def)
  then show ?thesis by (cases a) (auto simp: write_arg_def skip_spaces_def plain_def)
qed

lemma find_delim_write_arg:
  assumes "writable a"
  shows "\<exists>r'. find_delim (write_arg a @ r) = Some (a, r') \<and> skip_spaces r' = skip_spaces r"
proof (cases "plain a")
  case True
  then have "find_delim (write_arg a @ r) = Some (a, r)"
    using split_at_append [of "CHR '' ''" a r] by (cases a) (auto simp: find_delim_def write_arg_def plain_def)
  then show ?thesis by blast
next
  case False
  then have "find_delim (write_arg a @ r) = Some (a, CHR '' '' # r)"
    using assms split_at_append [of "CHR 0x27" a "CHR '' '' # r"] by (simp add: find_delim_def write_arg_def writable_def)
  then show ?thesis by (simp add: skip_spaces_def)
qed

lemma parse_write_args:
  "\<forall>a \<in> set args. writable a \<Longrightarrow>
   parse_loop (skip_spaces (write_args args)) argv =
     (if length argv + length args < MAXARGS then Inr (argv @ args) else Inl OutOfBounds)"
proof (induction args arbitrary: argv)
  case Nil
  then show ?case by (simp add: write_args_def skip_spaces_def parse_loop.simps find_delim_def)
next
  case (Cons a args)
  have w: "write_args (a # args) = write_arg a @ write_args args" by (simp add: write_args_def)
  obtain r' where r': "find_delim (write_arg a @ write_args args) = Some (a, r')" "skip_spaces r' = skip_spaces (write_args args)"
    using find_delim_write_arg Cons.prems by (metis list.set_intros(1))
  show ?case
    unfolding w skip_write_arg
    by (subst parse_loop.simps) (use r' Cons in auto)
qed

lemma write_args_last: "args \<noteq> [] \<Longrightarrow> butlast (write_args args) @ '' '' = write_args args"
  by (cases args rule: rev_cases) (auto simp: write_args_def write_arg_def butlast_append)

text \<open>C9. Parsing reads back what was written: a line that spells arguments as plain words or in single quotes, ended by a
newline, parses to these arguments, with a last argument that starts with an ampersand taken as the request for
the background; and from 128 arguments on the argument vector is overrun, since the parser does not check its
size.\<close>

theorem parseline_roundtrip:
  assumes "args \<noteq> []" "\<forall>a \<in> set args. writable a"
  defines "bg \<equiv> (last args \<noteq> [] \<and> hd (last args) = CHR 0x26)"
  shows "parseline (butlast (write_args args) @ [CHR 0x0A]) =
    (if length args < MAXARGS then Inr (bg, if bg then butlast args else args) else Inl OutOfBounds)"
  using assms(1) parse_write_args [OF assms(2), of "[]"] write_args_last [OF assms(1)]
  by (simp add: parseline_def bg_def)

theorem parseline_roundtrip_witness:
  "parseline (butlast (write_args [''echo'', ''a b'', ''&'']) @ [CHR 0x0A]) = Inr (True, [''echo'', ''a b'']) \<and>
   butlast (write_args [''echo'', ''a b'', ''&'']) @ [CHR 0x0A] = ''echo '' @ [CHR 0x27] @ ''a b'' @ [CHR 0x27] @ '' &'' @ [CHR 0x0A] \<and>
   parseline (butlast (write_args (replicate 128 ''a'')) @ [CHR 0x0A]) = Inl OutOfBounds"
proof -
  have "parseline (butlast (write_args [''echo'', ''a b'', ''&'']) @ [CHR 0x0A]) = Inr (True, [''echo'', ''a b''])"
    by (subst parseline_roundtrip) (simp_all add: writable_def plain_def MAXARGS_def)
  moreover have "parseline (butlast (write_args (replicate 128 ''a'')) @ [CHR 0x0A]) = Inl OutOfBounds"
    by (subst parseline_roundtrip) (simp_all add: writable_def plain_def MAXARGS_def)
  ultimately show ?thesis by (simp add: write_args_def write_arg_def plain_def)
qed

end
