(* ===== verification/Transpose.thy ===== *)
theory Transpose
  imports Loops
begin

text \<open>
  The cache lab's matrix transposition: \<open>trans.c\<close> and the matrix helpers of
  \<open>cachelab.c\<close>. A matrix \<open>int X[R][C]\<close> is its row-major list of words; an
  access outside the declared bounds is a fault. The two matrices are distinct
  arrays, as in the driver.
\<close>

type_synonym matrix = "int32 list"

definition rd2 :: "int \<Rightarrow> 'a list \<Rightarrow> int \<Rightarrow> int \<Rightarrow> 'a exec" where
  "rd2 w a i j = (if 0 \<le> i \<and> 0 \<le> j \<and> j < w then rdi a (i * w + j) else Inl OutOfBounds)"

definition wr2 :: "int \<Rightarrow> 'a list \<Rightarrow> int \<Rightarrow> int \<Rightarrow> 'a \<Rightarrow> 'a list exec" where
  "wr2 w a i j v = (if 0 \<le> i \<and> 0 \<le> j \<and> j < w then wri a (i * w + j) v else Inl OutOfBounds)"

section \<open>The blocked transposition\<close>

definition copy_row8 :: "int \<Rightarrow> int \<Rightarrow> matrix \<Rightarrow> int \<Rightarrow> int \<Rightarrow> matrix \<Rightarrow> matrix exec" where
  "copy_row8 M N A bj i B =
     sbind (rd2 M A i (bj + 0)) (\<lambda>t0.
     sbind (rd2 M A i (bj + 1)) (\<lambda>t1.
     sbind (rd2 M A i (bj + 2)) (\<lambda>t2.
     sbind (rd2 M A i (bj + 3)) (\<lambda>t3.
     sbind (rd2 M A i (bj + 4)) (\<lambda>t4.
     sbind (rd2 M A i (bj + 5)) (\<lambda>t5.
     sbind (rd2 M A i (bj + 6)) (\<lambda>t6.
     sbind (rd2 M A i (bj + 7)) (\<lambda>t7.
     sbind (wr2 N B (bj + 0) i t0) (\<lambda>B.
     sbind (wr2 N B (bj + 1) i t1) (\<lambda>B.
     sbind (wr2 N B (bj + 2) i t2) (\<lambda>B.
     sbind (wr2 N B (bj + 3) i t3) (\<lambda>B.
     sbind (wr2 N B (bj + 4) i t4) (\<lambda>B.
     sbind (wr2 N B (bj + 5) i t5) (\<lambda>B.
     sbind (wr2 N B (bj + 6) i t6) (\<lambda>B.
     wr2 N B (bj + 7) i t7)))))))))))))))"

definition upper_rows :: "int \<Rightarrow> int \<Rightarrow> matrix \<Rightarrow> int \<Rightarrow> int \<Rightarrow> matrix \<Rightarrow> matrix exec" where
  "upper_rows M N A bj i B =
     sbind (rd2 M A i (bj + 0)) (\<lambda>t0.
     sbind (rd2 M A i (bj + 1)) (\<lambda>t1.
     sbind (rd2 M A i (bj + 2)) (\<lambda>t2.
     sbind (rd2 M A i (bj + 3)) (\<lambda>t3.
     sbind (rd2 M A i (bj + 4)) (\<lambda>t4.
     sbind (rd2 M A i (bj + 5)) (\<lambda>t5.
     sbind (rd2 M A i (bj + 6)) (\<lambda>t6.
     sbind (rd2 M A i (bj + 7)) (\<lambda>t7.
     sbind (wr2 N B (bj + 0) i t0) (\<lambda>B.
     sbind (wr2 N B (bj + 1) i t1) (\<lambda>B.
     sbind (wr2 N B (bj + 2) i t2) (\<lambda>B.
     sbind (wr2 N B (bj + 3) i t3) (\<lambda>B.
     sbind (wr2 N B (bj + 0) (i + 4) t4) (\<lambda>B.
     sbind (wr2 N B (bj + 1) (i + 4) t5) (\<lambda>B.
     sbind (wr2 N B (bj + 2) (i + 4) t6) (\<lambda>B.
     wr2 N B (bj + 3) (i + 4) t7)))))))))))))))"

definition lower_rows :: "int \<Rightarrow> int \<Rightarrow> matrix \<Rightarrow> int \<Rightarrow> int \<Rightarrow> matrix \<Rightarrow> matrix exec" where
  "lower_rows M N A bi j B =
     sbind (rd2 M A (bi + 4) j) (\<lambda>t0.
     sbind (rd2 M A (bi + 5) j) (\<lambda>t1.
     sbind (rd2 M A (bi + 6) j) (\<lambda>t2.
     sbind (rd2 M A (bi + 7) j) (\<lambda>t3.
     sbind (rd2 N B j (bi + 4)) (\<lambda>t4.
     sbind (rd2 N B j (bi + 5)) (\<lambda>t5.
     sbind (rd2 N B j (bi + 6)) (\<lambda>t6.
     sbind (rd2 N B j (bi + 7)) (\<lambda>t7.
     sbind (wr2 N B j (bi + 4) t0) (\<lambda>B.
     sbind (wr2 N B j (bi + 5) t1) (\<lambda>B.
     sbind (wr2 N B j (bi + 6) t2) (\<lambda>B.
     sbind (wr2 N B j (bi + 7) t3) (\<lambda>B.
     sbind (rd2 M A (bi + 4) (j + 4)) (\<lambda>t0.
     sbind (rd2 M A (bi + 5) (j + 4)) (\<lambda>t1.
     sbind (rd2 M A (bi + 6) (j + 4)) (\<lambda>t2.
     sbind (rd2 M A (bi + 7) (j + 4)) (\<lambda>t3.
     sbind (wr2 N B (j + 4) (bi + 0) t4) (\<lambda>B.
     sbind (wr2 N B (j + 4) (bi + 1) t5) (\<lambda>B.
     sbind (wr2 N B (j + 4) (bi + 2) t6) (\<lambda>B.
     sbind (wr2 N B (j + 4) (bi + 3) t7) (\<lambda>B.
     sbind (wr2 N B (j + 4) (bi + 4) t0) (\<lambda>B.
     sbind (wr2 N B (j + 4) (bi + 5) t1) (\<lambda>B.
     sbind (wr2 N B (j + 4) (bi + 6) t2) (\<lambda>B.
     wr2 N B (j + 4) (bi + 7) t3)))))))))))))))))))))))"

definition transpose_submit :: "int \<Rightarrow> int \<Rightarrow> matrix \<Rightarrow> matrix \<Rightarrow> matrix exec" where
  "transpose_submit M N A B =
     (if M = 32 \<and> N = 32 then
        for_up 8 0 N (\<lambda>bi. for_up 8 0 M (\<lambda>bj.
          for_up 1 bi (bi + 8) (copy_row8 M N A bj))) B
      else if M = 64 \<and> N = 64 then
        for_up 8 0 N (\<lambda>bi. for_up 8 0 M (\<lambda>bj B.
          sbind (for_up 1 bi (bi + 4) (upper_rows M N A bj) B)
            (for_up 1 bj (bj + 4) (lower_rows M N A bi)))) B
      else
        for_up 16 0 N (\<lambda>bi. for_up 16 0 M (\<lambda>bj B.
          sbind (iadd bi 16) (\<lambda>ei.
            for_up 1 bi (min ei N) (\<lambda>i B.
              sbind (iadd bj 16) (\<lambda>ej.
                for_up 1 bj (min ej M) (\<lambda>j B.
                  sbind (rd2 M A i j) (wr2 N B j i)) B)) B))) B)"

definition trans_fn :: "int \<Rightarrow> int \<Rightarrow> matrix \<Rightarrow> matrix \<Rightarrow> matrix exec" where
  "trans_fn M N A B =
     for_up 1 0 N (\<lambda>i. for_up 1 0 M (\<lambda>j B. sbind (rd2 M A i j) (\<lambda>tmp. wr2 N B j i tmp))) B"

text \<open>The early return of \<open>is_transpose\<close> is the state \<open>Some 0\<close>; later rounds of the loops are skipped.\<close>

definition is_transpose :: "int \<Rightarrow> int \<Rightarrow> matrix \<Rightarrow> matrix \<Rightarrow> int exec" where
  "is_transpose M N A B =
     sbind (for_up 1 0 N (\<lambda>i. for_up 1 0 M (\<lambda>j ret.
       if ret \<noteq> None then Inr ret
       else sbind (rd2 M A i j) (\<lambda>a. sbind (rd2 N B j i) (\<lambda>b.
         Inr (if a \<noteq> b then Some 0 else None))))) None)
       (\<lambda>ret. Inr (case ret of Some r \<Rightarrow> r | None \<Rightarrow> 1))"

section \<open>Matrices as functions\<close>

definition rep :: "int \<Rightarrow> int \<Rightarrow> 'a list \<Rightarrow> (int \<Rightarrow> int \<Rightarrow> 'a) \<Rightarrow> bool" where
  "rep R C X f \<longleftrightarrow> int (length X) = R * C \<and>
     (\<forall>i j. 0 \<le> i \<longrightarrow> i < R \<longrightarrow> 0 \<le> j \<longrightarrow> j < C \<longrightarrow> X ! nat (i * C + j) = f i j)"

definition upd2 :: "(int \<Rightarrow> int \<Rightarrow> 'a) \<Rightarrow> int \<Rightarrow> int \<Rightarrow> 'a \<Rightarrow> int \<Rightarrow> int \<Rightarrow> 'a" where
  "upd2 f i j v = (\<lambda>i' j'. if i' = i \<and> j' = j then v else f i' j')"

lemma index_less: "0 \<le> i \<Longrightarrow> i < R \<Longrightarrow> 0 \<le> j \<Longrightarrow> j < C \<Longrightarrow> i * C + j < R * C" for i j R C :: int
  using mult_right_mono [of "i + 1" R C] by (simp add: algebra_simps)

lemma index_inj:
  fixes i j i' j' C :: int
  assumes "0 \<le> j" "j < C" "0 \<le> j'" "j' < C"
  shows "i * C + j = i' * C + j' \<longleftrightarrow> i = i' \<and> j = j'"
proof
  assume eq: "i * C + j = i' * C + j'"
  have "i = (i * C + j) div C" "i' = (i' * C + j') div C" using assms by simp_all
  then have "i = i'" using eq by simp
  then show "i = i' \<and> j = j'" using eq by simp
qed simp

lemma rep_cong: "rep R C X f \<Longrightarrow> (\<And>i j. 0 \<le> i \<Longrightarrow> i < R \<Longrightarrow> 0 \<le> j \<Longrightarrow> j < C \<Longrightarrow> f i j = g i j) \<Longrightarrow> rep R C X g"
  by (simp add: rep_def)

lemma rep_exists: "int (length X) = R * C \<Longrightarrow> rep R C X (\<lambda>i j. X ! nat (i * C + j))"
  by (simp add: rep_def)

lemma rd2_rep: "rep R C X f \<Longrightarrow> 0 \<le> i \<Longrightarrow> i < R \<Longrightarrow> 0 \<le> j \<Longrightarrow> j < C \<Longrightarrow> rd2 C X i j = Inr (f i j)"
  using index_less [of i R j C] by (simp add: rd2_def rep_def)

lemma wr2_rep:
  assumes "rep R C X f" "0 \<le> i" "i < R" "0 \<le> j" "j < C"
  shows "returns (wr2 C X i j v) (\<lambda>X'. rep R C X' (upd2 f i j v))"
proof -
  have b: "i * C + j < R * C" "0 \<le> i * C + j" using index_less [of i R j C] assms by simp_all
  have "X[nat (i * C + j) := v] ! nat (i' * C + j') = upd2 f i j v i' j'"
    if "0 \<le> i'" "i' < R" "0 \<le> j'" "j' < C" for i' j'
    using that assms b index_inj [of j C j' i i']
    by (auto simp: rep_def upd2_def nth_list_update eq_nat_nat_iff nat_less_iff)
  then show ?thesis using assms b by (simp add: wr2_def rep_def)
qed

lemma returns_rd2:
  "rep R C X f \<Longrightarrow> 0 \<le> i \<Longrightarrow> i < R \<Longrightarrow> 0 \<le> j \<Longrightarrow> j < C \<Longrightarrow> returns (k (f i j)) Q \<Longrightarrow>
   returns (sbind (rd2 C X i j) k) Q"
  by (simp add: rd2_rep)

lemma returns_wr2:
  "rep R C X f \<Longrightarrow> 0 \<le> i \<Longrightarrow> i < R \<Longrightarrow> 0 \<le> j \<Longrightarrow> j < C \<Longrightarrow>
   (\<And>X'. rep R C X' (upd2 f i j v) \<Longrightarrow> returns (k X') Q) \<Longrightarrow> returns (sbind (wr2 C X i j v) k) Q"
  by (rule returns_bind) (rule returns_mono, rule wr2_rep)

lemma returns_wr2_last:
  "rep R C X f \<Longrightarrow> 0 \<le> i \<Longrightarrow> i < R \<Longrightarrow> 0 \<le> j \<Longrightarrow> j < C \<Longrightarrow>
   (\<And>X'. rep R C X' (upd2 f i j v) \<Longrightarrow> Q X') \<Longrightarrow> returns (wr2 C X i j v) Q"
  by (rule returns_mono [OF wr2_rep])

section \<open>Rows and blocks\<close>

definition part :: "(int \<Rightarrow> int \<Rightarrow> 'a) \<Rightarrow> (int \<Rightarrow> int \<Rightarrow> bool) \<Rightarrow> (int \<Rightarrow> int \<Rightarrow> 'a) \<Rightarrow> int \<Rightarrow> int \<Rightarrow> 'a" where
  "part a P c = (\<lambda>r k. if P r k then a k r else c r k)"

lemma rep_part_cong:
  "rep R C X (part a P c) \<Longrightarrow> (\<And>i j. 0 \<le> i \<Longrightarrow> i < R \<Longrightarrow> 0 \<le> j \<Longrightarrow> j < C \<Longrightarrow> P i j = P' i j) \<Longrightarrow>
   rep R C X (part a P' c)"
  by (erule rep_cong) (simp add: part_def)

lemma copy_row8_correct:
  assumes "rep N M A a" "rep M N B c" "0 \<le> i" "i < N" "0 \<le> bj" "bj + 8 \<le> M"
  shows "returns (copy_row8 M N A bj i B) (\<lambda>B'. rep M N B' (part a (\<lambda>r k. k = i \<and> bj \<le> r \<and> r < bj + 8) c))"
  unfolding copy_row8_def
  apply ((rule returns_rd2 [OF assms(1)] returns_wr2 [OF assms(2)], (use assms in simp; fail)+)+)
  apply (((rule returns_wr2 returns_wr2_last, assumption), (use assms in simp; fail)+)+)
  apply (erule rep_cong)
  apply (thin_tac "rep _ _ _ _")+
  apply (auto simp: upd2_def part_def)
  done

lemma upper_rows_correct:
  assumes "rep N M A a" "rep M N B c" "0 \<le> i" "i + 4 < N" "0 \<le> bj" "bj + 8 \<le> M"
  shows "returns (upper_rows M N A bj i B) (\<lambda>B'. rep M N B'
    (\<lambda>r k. if bj \<le> r \<and> r < bj + 4 \<and> k = i then a i r
           else if bj \<le> r \<and> r < bj + 4 \<and> k = i + 4 then a i (r + 4) else c r k))"
  unfolding upper_rows_def
  apply ((rule returns_rd2 [OF assms(1)] returns_wr2 [OF assms(2)], (use assms in simp; fail)+)+)
  apply (((rule returns_wr2 returns_wr2_last, assumption), (use assms in simp; fail)+)+)
  apply (erule rep_cong)
  apply (thin_tac "rep _ _ _ _")+
  apply (auto simp: upd2_def ac_simps)
  done

lemma lower_cells:
  "(upd2 (upd2 (upd2 (upd2 (upd2 (upd2 (upd2 (upd2 (upd2 (upd2 (upd2 (upd2 c j (bi + 4) (a (bi + 4) j)) j (bi + 5) (a (bi + 5) j)) j (bi + 6) (a (bi + 6) j)) j (bi + 7) (a (bi + 7) j)) (j + 4) bi (c j (bi + 4))) (j + 4) (bi + 1) (c j (bi + 5))) (j + 4) (bi + 2) (c j (bi + 6))) (j + 4) (bi + 3) (c j (bi + 7))) (j + 4) (bi + 4) (a (bi + 4) (j + 4))) (j + 4) (bi + 5) (a (bi + 5) (j + 4))) (j + 4) (bi + 6) (a (bi + 6) (j + 4))) (j + 4) (bi + 7) (a (bi + 7) (j + 4))) r k =
   (if r = j \<and> bi + 4 \<le> k \<and> k < bi + 8 then a k j
    else if r = j + 4 \<and> bi \<le> k \<and> k < bi + 4 then c j (k + 4)
    else if r = j + 4 \<and> bi + 4 \<le> k \<and> k < bi + 8 then a k (j + 4) else c r k)" for bi j r k :: int
proof -
  consider "k < bi" | "k = bi" | "k = bi + 1" | "k = bi + 2" | "k = bi + 3" | "k = bi + 4" | "k = bi + 5"
    | "k = bi + 6" | "k = bi + 7" | "bi + 8 \<le> k" by linarith
  then show ?thesis by cases (simp_all add: upd2_def, simp_all add: add.commute)
qed

lemma lower_rows_correct:
  assumes "rep N M A a" "rep M N B c" "0 \<le> j" "j + 4 < M" "0 \<le> bi" "bi + 8 \<le> N"
  shows "returns (lower_rows M N A bi j B) (\<lambda>B'. rep M N B'
    (\<lambda>r k. if r = j \<and> bi + 4 \<le> k \<and> k < bi + 8 then a k j
           else if r = j + 4 \<and> bi \<le> k \<and> k < bi + 4 then c j (k + 4)
           else if r = j + 4 \<and> bi + 4 \<le> k \<and> k < bi + 8 then a k (j + 4) else c r k))"
  unfolding lower_rows_def
  apply ((rule returns_rd2 [OF assms(1)] returns_rd2 [OF assms(2)] returns_wr2 [OF assms(2)], (use assms in simp; fail)+)+)
  apply (((rule returns_wr2 returns_rd2 [OF assms(1)] returns_wr2_last), assumption?, (use assms in simp; fail)+)+)
  apply (erule rep_cong)
  apply (simp add: lower_cells)
  done

lemma part_part: "part a P (part a Q c) = part a (\<lambda>r k. P r k \<or> Q r k) c"
  by (auto simp: part_def fun_eq_iff)

text \<open>One block keeps what has been transposed and adds its own cells.\<close>

definition block_ok :: "int \<Rightarrow> int \<Rightarrow> int \<Rightarrow> (int \<Rightarrow> int \<Rightarrow> 'a) \<Rightarrow> int \<Rightarrow> int \<Rightarrow> ('a list \<Rightarrow> 'a list exec) \<Rightarrow> bool" where
  "block_ok d M N a bi bj blk \<longleftrightarrow> (\<forall>B P c. rep M N B (part a P c) \<longrightarrow>
     returns (blk B) (\<lambda>B'. rep M N B'
       (part a (\<lambda>r k. P r k \<or> bi \<le> k \<and> k < bi + d \<and> bj \<le> r \<and> r < bj + d) c)))"

lemma block_okI:
  assumes "\<And>B c. rep M N B c \<Longrightarrow>
    returns (blk B) (\<lambda>B'. rep M N B' (part a (\<lambda>r k. bi \<le> k \<and> k < bi + d \<and> bj \<le> r \<and> r < bj + d) c))"
  shows "block_ok d M N a bi bj blk"
  unfolding block_ok_def
proof (intro allI impI)
  fix B P c assume "rep M N B (part a P c)"
  from assms [OF this] show "returns (blk B) (\<lambda>B'. rep M N B'
      (part a (\<lambda>r k. P r k \<or> bi \<le> k \<and> k < bi + d \<and> bj \<le> r \<and> r < bj + d) c))"
    by (rule returns_mono) (auto simp: part_part elim!: rep_part_cong)
qed

lemma block_okD:
  assumes "block_ok d M N a bi bj blk" "rep M N B (part a P c)"
    and "\<And>B'. rep M N B' (part a (\<lambda>r k. P r k \<or> bi \<le> k \<and> k < bi + d \<and> bj \<le> r \<and> r < bj + d) c) \<Longrightarrow> Q B'"
  shows "returns (blk B) Q"
  using assms(1,2) unfolding block_ok_def by (blast intro: returns_mono assms(3))

lemma block32:
  assumes "rep N M A a" "0 \<le> bi" "bi + 8 \<le> N" "0 \<le> bj" "bj + 8 \<le> M" "N \<le> INT_MAX"
  shows "block_ok 8 M N a bi bj (for_up 1 bi (bi + 8) (copy_row8 M N A bj))"
proof (rule block_okI)
  fix B :: matrix and c assume "rep M N B c"
  then have "returns (for_up 1 bi (bi + 8) (copy_row8 M N A bj) B)
     (\<lambda>B'. rep M N B' (part a (\<lambda>r k. bi \<le> k \<and> k < bi + 8 \<and> bj \<le> r \<and> r < bj + 8) c))"
  proof (intro for_up_1 [where I = "\<lambda>i B. rep M N B (part a (\<lambda>r k. bi \<le> k \<and> k < i \<and> bj \<le> r \<and> r < bj + 8) c)"])
    fix i B' assume i: "bi \<le> i" "i < bi + 8"
      and B': "rep M N B' (part a (\<lambda>r k. bi \<le> k \<and> k < i \<and> bj \<le> r \<and> r < bj + 8) c)"
    show "returns (copy_row8 M N A bj i B')
       (\<lambda>B. rep M N B (part a (\<lambda>r k. bi \<le> k \<and> k < i + 1 \<and> bj \<le> r \<and> r < bj + 8) c))"
      by (rule returns_mono [OF copy_row8_correct [OF assms(1) B']])
        (use assms i in \<open>auto simp: part_part elim!: rep_part_cong\<close>)
  qed (use assms in \<open>auto simp: part_def elim!: rep_cong\<close>)
  then show "returns (for_up 1 bi (bi + 8) (copy_row8 M N A bj) B)
     (\<lambda>B'. rep M N B' (part a (\<lambda>r k. bi \<le> k \<and> k < bi + 8 \<and> bj \<le> r \<and> r < bj + 8) c))" .
qed

text \<open>
  The 64 by 64 block goes through \<open>B\<close> itself: after the upper half, the top right
  quadrant of the block in \<open>B\<close> holds the bottom left one, which the lower half
  moves to its place.
\<close>

lemma upper_half:
  assumes "rep N M A a" "rep M N B c" "0 \<le> bi" "bi + 8 \<le> N" "0 \<le> bj" "bj + 8 \<le> M" "N \<le> INT_MAX"
  shows "returns (for_up 1 bi (bi + 4) (upper_rows M N A bj) B) (\<lambda>B'. rep M N B'
    (\<lambda>r k. if bj \<le> r \<and> r < bj + 4 \<and> bi \<le> k \<and> k < bi + 4 then a k r
           else if bj \<le> r \<and> r < bj + 4 \<and> bi + 4 \<le> k \<and> k < bi + 8 then a (k - 4) (r + 4) else c r k))"
proof -
  let ?I = "\<lambda>i B'. rep M N B' (\<lambda>r k. if bj \<le> r \<and> r < bj + 4 \<and> bi \<le> k \<and> k < i then a k r
           else if bj \<le> r \<and> r < bj + 4 \<and> bi + 4 \<le> k \<and> k < i + 4 then a (k - 4) (r + 4) else c r k)"
  have "returns (upper_rows M N A bj i B') (?I (i + 1))" if i: "bi \<le> i" "i < bi + 4" and B': "?I i B'" for i B'
    by (rule returns_mono [OF upper_rows_correct [OF assms(1) B']])
      (use assms i in \<open>auto elim!: rep_cong\<close>)
  then have "returns (for_up 1 bi (bi + 4) (upper_rows M N A bj) B) (?I (bi + 4))"
    by (intro for_up_1 [where I = ?I]) (use assms in \<open>auto elim!: rep_cong\<close>)
  then show ?thesis by (rule returns_mono) (auto elim!: rep_cong)
qed

lemma lower_half:
  assumes "rep N M A a" "rep M N B c" "0 \<le> bi" "bi + 8 \<le> N" "0 \<le> bj" "bj + 8 \<le> M" "M \<le> INT_MAX"
  shows "returns (for_up 1 bj (bj + 4) (lower_rows M N A bi) B) (\<lambda>B'. rep M N B'
    (\<lambda>r k. if bj \<le> r \<and> r < bj + 8 \<and> bi + 4 \<le> k \<and> k < bi + 8 then a k r
           else if bj + 4 \<le> r \<and> r < bj + 8 \<and> bi \<le> k \<and> k < bi + 4 then c (r - 4) (k + 4) else c r k))"
proof -
  let ?I = "\<lambda>j B'. rep M N B' (\<lambda>r k. if (bj \<le> r \<and> r < j \<or> bj + 4 \<le> r \<and> r < j + 4) \<and> bi + 4 \<le> k \<and> k < bi + 8 then a k r
           else if bj + 4 \<le> r \<and> r < j + 4 \<and> bi \<le> k \<and> k < bi + 4 then c (r - 4) (k + 4) else c r k)"
  have "returns (lower_rows M N A bi j B') (?I (j + 1))" if j: "bj \<le> j" "j < bj + 4" and B': "?I j B'" for j B'
    by (rule returns_mono [OF lower_rows_correct [OF assms(1) B']])
      (use assms j in \<open>auto elim!: rep_cong\<close>)
  then have "returns (for_up 1 bj (bj + 4) (lower_rows M N A bi) B) (?I (bj + 4))"
    by (intro for_up_1 [where I = ?I]) (use assms in \<open>auto elim!: rep_cong\<close>)
  then show ?thesis by (rule returns_mono) (auto elim!: rep_cong)
qed

lemma block64:
  assumes "rep N M A a" "0 \<le> bi" "bi + 8 \<le> N" "0 \<le> bj" "bj + 8 \<le> M" "N \<le> INT_MAX" "M \<le> INT_MAX"
  shows "block_ok 8 M N a bi bj (\<lambda>B. sbind (for_up 1 bi (bi + 4) (upper_rows M N A bj) B)
            (for_up 1 bj (bj + 4) (lower_rows M N A bi)))"
proof (rule block_okI)
  fix B :: matrix and c assume B: "rep M N B c"
  show "returns (sbind (for_up 1 bi (bi + 4) (upper_rows M N A bj) B) (for_up 1 bj (bj + 4) (lower_rows M N A bi)))
     (\<lambda>B'. rep M N B' (part a (\<lambda>r k. bi \<le> k \<and> k < bi + 8 \<and> bj \<le> r \<and> r < bj + 8) c))"
    by (rule returns_bind, rule returns_mono [OF upper_half [OF assms(1) B assms(2-6)]],
        rule returns_mono, erule lower_half [OF assms(1) _ assms(2-5,7)], erule rep_cong) (auto simp: part_def)
qed

lemma block16:
  fixes A :: matrix
  assumes "rep N M A a" "0 \<le> bi" "bi < N" "0 \<le> bj" "bj < M" "M + 16 \<le> INT_MAX + 1" "N + 16 \<le> INT_MAX + 1"
  shows "block_ok 16 M N a bi bj (\<lambda>B. sbind (iadd bi 16) (\<lambda>ei.
            for_up 1 bi (min ei N) (\<lambda>i B.
              sbind (iadd bj 16) (\<lambda>ej.
                for_up 1 bj (min ej M) (\<lambda>j B. sbind (rd2 M A i j) (wr2 N B j i)) B)) B))"
proof (rule block_okI)
  fix B :: matrix and c assume B: "rep M N B c"
  let ?J = "\<lambda>i j B'. rep M N B' (part a (\<lambda>r k. k = i \<and> bj \<le> r \<and> r < j \<or> bi \<le> k \<and> k < i \<and> bj \<le> r \<and> r < bj + 16) c)"
  let ?I = "\<lambda>i B'. rep M N B' (part a (\<lambda>r k. bi \<le> k \<and> k < i \<and> bj \<le> r \<and> r < bj + 16) c)"
  have ov [simp]: "iadd bi 16 = Inr (bi + 16)" "iadd bj 16 = Inr (bj + 16)"
    using assms by (simp_all add: INT_MAX_def)
  have row: "returns (for_up 1 bj (min (bj + 16) M) (\<lambda>j B. sbind (rd2 M A i j) (wr2 N B j i)) B') (?I (i + 1))"
    if i: "bi \<le> i" "i < min (bi + 16) N" and B': "?I i B'" for i B'
  proof (rule returns_mono [OF for_up_1 [where I = "?J i"]])
    fix j B'' assume j: "bj \<le> j" "j < min (bj + 16) M" and B'': "?J i j B''"
    show "returns (sbind (rd2 M A i j) (wr2 N B'' j i)) (?J i (j + 1))"
      by (rule returns_rd2 [OF assms(1)], (use assms i j in simp; fail)+, rule returns_wr2_last [OF B''],
          (use assms i j in simp; fail)+, erule rep_cong) (use i j in \<open>auto simp: part_def upd2_def\<close>)
  qed (use assms i B' in \<open>auto elim!: rep_part_cong\<close>)
  have "returns (for_up 1 bi (min (bi + 16) N) (\<lambda>i. for_up 1 bj (min (bj + 16) M)
      (\<lambda>j B. sbind (rd2 M A i j) (wr2 N B j i))) B) (?I (min (bi + 16) N))"
    by (rule for_up_1 [where I = ?I, OF _ _ _ row]) (use assms B in \<open>auto simp: part_def elim!: rep_cong\<close>)
  then show "returns (sbind (iadd bi 16) (\<lambda>ei. for_up 1 bi (min ei N) (\<lambda>i B. sbind (iadd bj 16) (\<lambda>ej.
       for_up 1 bj (min ej M) (\<lambda>j B. sbind (rd2 M A i j) (wr2 N B j i)) B)) B))
     (\<lambda>B'. rep M N B' (part a (\<lambda>r k. bi \<le> k \<and> k < bi + 16 \<and> bj \<le> r \<and> r < bj + 16) c))"
    by (simp, elim returns_mono) (auto elim!: rep_part_cong)
qed

lemma blocks_correct:
  assumes d: "0 < d" "M + d \<le> INT_MAX + 1" "N + d \<le> INT_MAX + 1" and B: "rep M N B c"
    and blk: "\<And>bi bj. 0 \<le> bi \<Longrightarrow> bi < N \<Longrightarrow> d dvd bi \<Longrightarrow> 0 \<le> bj \<Longrightarrow> bj < M \<Longrightarrow> d dvd bj \<Longrightarrow> block_ok d M N a bi bj (blk bi bj)"
  shows "returns (for_up d 0 N (\<lambda>bi. for_up d 0 M (blk bi)) B) (\<lambda>B'. rep M N B' (\<lambda>r k. a k r))"
proof -
  have "returns (for_up d 0 M (blk bi) B') (\<lambda>B''. rep M N B'' (part a (\<lambda>r k. k < bi + d) c))"
    if bi: "0 \<le> bi" "bi < N" "d dvd bi" and B': "rep M N B' (part a (\<lambda>r k. k < bi) c)" for bi B'
  proof (rule returns_mono [OF for_up_rule [where I = "\<lambda>bj B. rep M N B (part a (\<lambda>r k. k < bi \<or> (k < bi + d \<and> r < bj)) c)"]])
    show "rep M N B' (part a (\<lambda>r k. k < bi \<or> (k < bi + d \<and> r < 0)) c)"
      using B' by (rule rep_part_cong) auto
    fix bj B'' assume bj: "0 \<le> bj" "bj < M" "d dvd bj - 0"
      and B'': "rep M N B'' (part a (\<lambda>r k. k < bi \<or> (k < bi + d \<and> r < bj)) c)"
    show "returns (blk bi bj B'') (\<lambda>B. rep M N B (part a (\<lambda>r k. k < bi \<or> (k < bi + d \<and> r < bj + d)) c))"
      by (rule block_okD [OF blk B'']) (use bi bj in \<open>auto elim!: rep_part_cong\<close>)
  next
    fix B'' assume "\<exists>i. rep M N B'' (part a (\<lambda>r k. k < bi \<or> (k < bi + d \<and> r < i)) c) \<and> 0 \<le> i \<and> M \<le> i \<and>
      d dvd i - 0 \<and> (i < M + d \<or> i = 0)"
    then show "rep M N B'' (part a (\<lambda>r k. k < bi + d) c)"
      using d(1) by (auto elim!: rep_part_cong)
  qed (use d in simp_all)
  then have "returns (for_up d 0 N (\<lambda>bi. for_up d 0 M (blk bi)) B)
      (\<lambda>s'. \<exists>i. rep M N s' (part a (\<lambda>r k. k < i) c) \<and> 0 \<le> i \<and> N \<le> i \<and> d dvd i - 0 \<and> (i < N + d \<or> i = 0))"
    by (intro for_up_rule) (use d B in \<open>auto elim!: rep_cong simp: part_def\<close>)
  then show ?thesis
    by (rule returns_mono) (auto elim!: rep_cong simp: part_def)
qed

section \<open>The transposition functions\<close>

lemma transpose_submit_rep:
  assumes A: "rep N M A a" and B: "rep M N B c" and ov: "M + 16 \<le> INT_MAX + 1" "N + 16 \<le> INT_MAX + 1"
  shows "returns (transpose_submit M N A B) (\<lambda>B'. rep M N B' (\<lambda>r k. a k r))"
proof -
  have last: "bi + 8 \<le> n" if "8 dvd bi" "bi < n" "8 dvd n" for bi n :: int
    using that zdvd_imp_le [of 8 "n - bi"] by (simp add: dvd_diff)
  have "returns (for_up 8 0 N (\<lambda>bi. for_up 8 0 M (\<lambda>bj. for_up 1 bi (bi + 8) (copy_row8 M N A bj))) B)
      (\<lambda>B'. rep M N B' (\<lambda>r k. a k r))" if "8 dvd M" "8 dvd N"
    by (rule blocks_correct [OF _ _ _ B], (use ov in simp; fail)+, rule block32 [OF A])
      (use ov that last in auto)
  moreover have "returns (for_up 8 0 N (\<lambda>bi. for_up 8 0 M (\<lambda>bj B. sbind (for_up 1 bi (bi + 4) (upper_rows M N A bj) B)
      (for_up 1 bj (bj + 4) (lower_rows M N A bi)))) B) (\<lambda>B'. rep M N B' (\<lambda>r k. a k r))" if "8 dvd M" "8 dvd N"
    by (rule blocks_correct [OF _ _ _ B], (use ov in simp; fail)+, rule block64 [OF A])
      (use ov that last in auto)
  moreover have "returns (for_up 16 0 N (\<lambda>bi. for_up 16 0 M (\<lambda>bj B. sbind (iadd bi 16) (\<lambda>ei.
            for_up 1 bi (min ei N) (\<lambda>i B. sbind (iadd bj 16) (\<lambda>ej.
                for_up 1 bj (min ej M) (\<lambda>j B. sbind (rd2 M A i j) (wr2 N B j i)) B)) B))) B)
      (\<lambda>B'. rep M N B' (\<lambda>r k. a k r))"
    by (rule blocks_correct [OF _ _ _ B], (use ov in simp; fail)+, rule block16 [OF A]) (use ov in auto)
  ultimately show ?thesis unfolding transpose_submit_def by auto
qed

lemma trans_fn_rep:
  assumes A: "rep N M A a" and B: "rep M N B c" and ov: "M \<le> INT_MAX" "N \<le> INT_MAX"
  shows "returns (trans_fn M N A B) (\<lambda>B'. rep M N B' (\<lambda>r k. a k r))"
  unfolding trans_fn_def
proof (rule blocks_correct [OF _ _ _ B])
  fix bi bj assume b: "0 \<le> bi" "bi < N" "0 \<le> bj" "bj < M"
  show "block_ok 1 M N a bi bj (\<lambda>B. sbind (rd2 M A bi bj) (\<lambda>tmp. wr2 N B bj bi tmp))"
  proof (rule block_okI)
    fix B' :: matrix and c' assume B': "rep M N B' c'"
    show "returns (sbind (rd2 M A bi bj) (\<lambda>tmp. wr2 N B' bj bi tmp))
       (\<lambda>B'. rep M N B' (part a (\<lambda>r k. bi \<le> k \<and> k < bi + 1 \<and> bj \<le> r \<and> r < bj + 1) c'))"
      by (rule returns_rd2 [OF A], (use b in simp; fail)+, rule returns_wr2_last [OF B'],
          (use b in simp; fail)+, erule rep_cong) (auto simp: part_def upd2_def)
  qed
qed (use ov in auto)

lemma rep_unique:
  assumes "rep R C X f" "rep R C Y f" "0 \<le> C"
  shows "X = Y"
proof (rule nth_equalityI)
  show "length X = length Y" using assms by (simp add: rep_def)
  fix n assume n: "n < length X"
  have len: "int (length X) = R * C" using assms(1) by (simp add: rep_def)
  show "X ! n = Y ! n"
  proof (cases "0 < C")
    case True
    define i j where "i = int n div C" and "j = int n mod C"
    have "i * C + j = int n" by (simp add: i_def j_def)
    moreover have "0 \<le> j" "j < C" "0 \<le> i" using True by (simp_all add: i_def j_def pos_imp_zdiv_nonneg_iff)
    moreover have "i < R"
    proof (rule ccontr)
      assume "\<not> i < R"
      then have "R * C \<le> i * C" using True by (intro mult_right_mono) auto
      then show False using n len calculation by linarith
    qed
    ultimately show ?thesis using assms unfolding rep_def by (metis nat_int)
  qed (use n len assms(3) in auto)
qed

lemma is_transpose_rep:
  assumes A: "rep N M A a" and B: "rep M N B b" and ov: "M \<le> INT_MAX" "N \<le> INT_MAX"
  shows "is_transpose M N A B =
    Inr (of_bool (\<forall>i j. 0 \<le> i \<longrightarrow> i < N \<longrightarrow> 0 \<le> j \<longrightarrow> j < M \<longrightarrow> a i j = b j i))"
proof -
  let ?bad = "\<lambda>i j. \<exists>i' j'. 0 \<le> i' \<and> i' < N \<and> 0 \<le> j' \<and> j' < M \<and> (i' < i \<or> i' = i \<and> j' < j) \<and> a i' j' \<noteq> b j' i'"
  let ?J = "\<lambda>i j ret. ret = (if ?bad i j then Some 0 else None)"
  let ?body = "\<lambda>i j ret. if ret \<noteq> None then Inr ret else sbind (rd2 M A i j) (\<lambda>x. sbind (rd2 N B j i)
    (\<lambda>y. Inr (if x \<noteq> y then Some 0 else None)))"
  have cell: "returns (?body i j ret) (?J i (j + 1))"
    if "0 \<le> i" "i < N" "0 \<le> j" "j < M" "?J i j ret" for i j and ret :: "int option"
  proof -
    have "?bad i (j + 1) \<longleftrightarrow> ?bad i j \<or> a i j \<noteq> b j i" using that(1-4) by (smt (verit))
    then show ?thesis using that rd2_rep [OF A, of i j] rd2_rep [OF B, of j i] by auto
  qed
  have row: "returns (for_up 1 0 M (?body i) ret) (?J (i + 1) 0)"
    if "0 \<le> i" "i < N" "?J i 0 ret" for i and ret :: "int option"
  proof (rule returns_mono [OF for_up_rule [where I = "?J i"]])
    fix ret' :: "int option"
    assume "\<exists>k. ?J i k ret' \<and> 0 \<le> k \<and> M \<le> k \<and> 1 dvd k - 0 \<and> (k < M + 1 \<or> k = 0)"
    then obtain k where k: "?J i k ret'" "M \<le> k" by blast
    have "?bad (i + 1) 0 \<longleftrightarrow> ?bad i k" using k(2) by (smt (verit))
    then show "?J (i + 1) 0 ret'" using k by simp
  qed (use that ov cell in auto)
  have "returns (for_up 1 0 N (\<lambda>i. for_up 1 0 M (?body i)) (None :: int option))
      (\<lambda>s'. \<exists>k. ?J k 0 s' \<and> 0 \<le> k \<and> N \<le> k \<and> 1 dvd k - 0 \<and> (k < N + 1 \<or> k = 0))"
    by (rule for_up_rule [where I = "\<lambda>k. ?J k 0"], simp, use ov in simp, simp, rule row)
  then obtain ret :: "int option" and k where ret: "for_up 1 0 N (\<lambda>i. for_up 1 0 M (?body i)) None = Inr ret" "?J k 0 ret" and k: "N \<le> k"
    by (elim returnsE exE conjE) (rule that)
  have "?bad k 0 \<longleftrightarrow> \<not> (\<forall>i j. 0 \<le> i \<longrightarrow> i < N \<longrightarrow> 0 \<le> j \<longrightarrow> j < M \<longrightarrow> a i j = b j i)"
    using k by (smt (verit))
  then show ?thesis unfolding is_transpose_def ret(1) by (simp add: ret(2))
qed

text \<open>
  C22. The transposition handed in is correct for every size of matrix that the
  counters can traverse: it returns, agrees with the simple row-wise scan, and
  its result passes \<open>is_transpose\<close>, which accepts exactly the transposes.
\<close>

theorem transpose_submit_correct:
  assumes "int (length A) = N * M" "int (length B) = M * N" "0 \<le> M" "0 \<le> N"
    and "M + 16 \<le> INT_MAX + 1" "N + 16 \<le> INT_MAX + 1"
  shows "\<exists>B'. transpose_submit M N A B = Inr B' \<and> trans_fn M N A B = Inr B' \<and> length B' = length B \<and>
    (\<forall>i\<in>{0..<N}. \<forall>j\<in>{0..<M}. B' ! nat (j * N + i) = A ! nat (i * M + j)) \<and>
    is_transpose M N A B' = Inr 1 \<and>
    (\<forall>X. length X = length B \<longrightarrow> X \<noteq> B' \<longrightarrow> is_transpose M N A X = Inr 0)"
proof -
  let ?a = "\<lambda>i j. A ! nat (i * M + j)"
  have A: "rep N M A ?a" and B: "rep M N B (\<lambda>j i. B ! nat (j * N + i))"
    using assms by (simp_all add: rep_exists)
  obtain B1 where B1: "transpose_submit M N A B = Inr B1" "rep M N B1 (\<lambda>j i. ?a i j)"
    using transpose_submit_rep [OF A B] assms by (auto elim: returnsE)
  obtain B2 where B2: "trans_fn M N A B = Inr B2" "rep M N B2 (\<lambda>j i. ?a i j)"
    using trans_fn_rep [OF A B] assms by (auto elim: returnsE)
  have "B2 = B1" using B1(2) B2(2) assms by (simp add: rep_unique)
  moreover have "is_transpose M N A X = Inr 0" if X: "length X = length B" "X \<noteq> B1" for X
  proof -
    have rX: "rep M N X (\<lambda>j i. X ! nat (j * N + i))" using X assms by (simp add: rep_exists)
    have "\<not> (\<forall>i j. 0 \<le> i \<longrightarrow> i < N \<longrightarrow> 0 \<le> j \<longrightarrow> j < M \<longrightarrow> ?a i j = X ! nat (j * N + i))"
    proof
      assume "\<forall>i j. 0 \<le> i \<longrightarrow> i < N \<longrightarrow> 0 \<le> j \<longrightarrow> j < M \<longrightarrow> ?a i j = X ! nat (j * N + i)"
      then have "rep M N X (\<lambda>j i. ?a i j)" using rX by (simp add: rep_def)
      then show False using X(2) B1(2) assms by (simp add: rep_unique)
    qed
    then show ?thesis using is_transpose_rep [OF A rX] assms by simp
  qed
  moreover have "is_transpose M N A B1 = Inr 1"
    using is_transpose_rep [OF A B1(2)] assms by simp
  ultimately show ?thesis using B1 B2 assms by (auto simp: rep_def)
qed

theorem transpose_submit_correct_witness:
  "\<exists>B'. transpose_submit 2 3 [1, 2, 3, 4, 5, 6] [0, 0, 0, 0, 0, 0] = Inr B' \<and> B' ! 1 = 3 \<and> is_transpose 2 3 [1, 2, 3, 4, 5, 6] B' = Inr 1"
proof -
  obtain B' where b: "transpose_submit 2 3 [1, 2, 3, 4, 5, 6] [0, 0, 0, 0, 0, 0] = Inr B'"
    "\<forall>i\<in>{0..<3}. \<forall>j\<in>{0..<2}. B' ! nat (j * 3 + i) = [1, 2, 3, 4, 5, 6] ! nat (i * 2 + j)"
    "is_transpose 2 3 [1, 2, 3, 4, 5, 6] B' = Inr 1"
    using transpose_submit_correct [of "[1, 2, 3, 4, 5, 6]" 3 2 "[0, 0, 0, 0, 0, 0]"]
    by (auto simp: INT_MAX_def)
  have "B' ! nat (0 * 3 + 1) = [1, 2, 3, 4, 5, 6] ! nat (1 * 2 + 0)"
    by (rule bspec [OF bspec [OF b(2)]]) simp_all
  then show ?thesis using b by simp
qed
end
