(* ===== verification/Kernels.thy ===== *)
theory Kernels
  imports Transpose "HOL-Library.Multiset"
begin

text \<open>
  The image kernels of the performance lab (\<open>kernels.c\<close>): rotation by a quarter
  turn and smoothing, each in the naive version and in the optimised one. Images
  are flat arrays of \<open>dim * dim\<close> pixels.
\<close>

record pixel =
  red :: "16 word"
  green :: "16 word"
  blue :: "16 word"

type_synonym image = "pixel list"

definition RIDX :: "int \<Rightarrow> int \<Rightarrow> int \<Rightarrow> int exec" where
  "RIDX i j n = sbind (imul i n) (\<lambda>p. iadd p j)"

definition get_px :: "int \<Rightarrow> image \<Rightarrow> int \<Rightarrow> int \<Rightarrow> pixel exec" where
  "get_px dim src i j = sbind (RIDX i j dim) (rdi src)"

definition set_px :: "int \<Rightarrow> image \<Rightarrow> int \<Rightarrow> int \<Rightarrow> pixel \<Rightarrow> image exec" where
  "set_px dim dst i j p = sbind (RIDX i j dim) (\<lambda>k. wri dst k p)"

section \<open>Rotation\<close>

definition naive_rotate :: "int \<Rightarrow> image \<Rightarrow> image \<Rightarrow> image exec" where
  "naive_rotate dim src dst =
     for_up 1 0 dim (\<lambda>i. for_up 1 0 dim (\<lambda>j dst.
       sbind (get_px dim src i j) (set_px dim dst (dim - 1 - j) i))) dst"

definition block_size :: int where "block_size = 8"

definition rotate_block :: "int \<Rightarrow> image \<Rightarrow> int \<Rightarrow> int \<Rightarrow> image \<Rightarrow> image exec" where
  "rotate_block dim src bi bj dst =
     for_up 1 bi (bi + block_size) (\<lambda>i. for_up 1 bj (bj + block_size) (\<lambda>j dst.
       sbind (get_px dim src i j) (set_px dim dst (dim - 1 - j) i))) dst"

definition rotate_img :: "int \<Rightarrow> image \<Rightarrow> image \<Rightarrow> image exec" where
  "rotate_img dim src dst =
     for_up block_size 0 dim (\<lambda>bi. for_up block_size 0 dim (rotate_block dim src bi)) dst"

section \<open>Smoothing\<close>

record pixel_sum =
  s_red :: int
  s_green :: int
  s_blue :: int
  s_num :: int

definition min_int :: "int \<Rightarrow> int \<Rightarrow> int" where "min_int a b = (if a < b then a else b)"
definition max_int :: "int \<Rightarrow> int \<Rightarrow> int" where "max_int a b = (if a > b then a else b)"

definition initialize_pixel_sum :: pixel_sum where
  "initialize_pixel_sum = \<lparr>s_red = 0, s_green = 0, s_blue = 0, s_num = 0\<rparr>"

definition accumulate_sum :: "pixel_sum \<Rightarrow> pixel \<Rightarrow> pixel_sum" where
  "accumulate_sum self p =
     \<lparr>s_red = s_red self + uint (red p), s_green = s_green self + uint (green p),
      s_blue = s_blue self + uint (blue p), s_num = s_num self + 1\<rparr>"

definition assign_sum_to_pixel :: "pixel_sum \<Rightarrow> pixel" where
  "assign_sum_to_pixel self =
     \<lparr>red = of_int (s_red self div s_num self), green = of_int (s_green self div s_num self),
      blue = of_int (s_blue self div s_num self)\<rparr>"

definition avg :: "int \<Rightarrow> int \<Rightarrow> int \<Rightarrow> image \<Rightarrow> pixel exec" where
  "avg dim i j src =
     sbind (for_up 1 (max_int (i - 1) 0) (min_int (i + 1) (dim - 1) + 1) (\<lambda>ii.
              for_up 1 (max_int (j - 1) 0) (min_int (j + 1) (dim - 1) + 1) (\<lambda>jj sum.
                sbind (get_px dim src ii jj) (\<lambda>p. Inr (accumulate_sum sum p))))
            initialize_pixel_sum)
       (\<lambda>sum. Inr (assign_sum_to_pixel sum))"

definition naive_smooth :: "int \<Rightarrow> image \<Rightarrow> image \<Rightarrow> image exec" where
  "naive_smooth dim src dst =
     for_up 1 0 dim (\<lambda>i. for_up 1 0 dim (\<lambda>j dst.
       sbind (avg dim i j src) (set_px dim dst i j))) dst"

record pixel32_t =
  red32 :: uint32
  green32 :: uint32
  blue32 :: uint32

definition pixel32_init :: pixel32_t where
  "pixel32_init = \<lparr>red32 = 0, green32 = 0, blue32 = 0\<rparr>"

definition pixel32_add_pixel :: "pixel32_t \<Rightarrow> pixel \<Rightarrow> pixel32_t" where
  "pixel32_add_pixel self other =
     \<lparr>red32 = red32 self + ucast (red other), green32 = green32 self + ucast (green other),
      blue32 = blue32 self + ucast (blue other)\<rparr>"

definition pixel32_add :: "pixel32_t \<Rightarrow> pixel32_t \<Rightarrow> pixel32_t" where
  "pixel32_add self other =
     \<lparr>red32 = red32 self + red32 other, green32 = green32 self + green32 other,
      blue32 = blue32 self + blue32 other\<rparr>"

definition pixel32_sub :: "pixel32_t \<Rightarrow> pixel32_t \<Rightarrow> pixel32_t" where
  "pixel32_sub self other =
     \<lparr>red32 = red32 self - red32 other, green32 = green32 self - green32 other,
      blue32 = blue32 self - blue32 other\<rparr>"

definition pixel32_to_pixel :: "pixel32_t \<Rightarrow> uint32 \<Rightarrow> pixel" where
  "pixel32_to_pixel self scale =
     \<lparr>red = ucast (red32 self div scale), green = ucast (green32 self div scale),
      blue = ucast (blue32 self div scale)\<rparr>"

definition acc_px :: "int \<Rightarrow> image \<Rightarrow> int \<Rightarrow> int \<Rightarrow> pixel32_t \<Rightarrow> pixel32_t exec" where
  "acc_px dim src i j self = sbind (get_px dim src i j) (\<lambda>p. Inr (pixel32_add_pixel self p))"

text \<open>
  The first and the last row: two source rows \<open>r0\<close>, \<open>r1\<close> contribute to the
  destination row. The state of the edge loop is \<open>(dst, acc, left, mid)\<close> (\<open>acc\<close> is the variable \<open>sum\<close>).
\<close>

definition edge_step ::
  "int \<Rightarrow> image \<Rightarrow> int \<Rightarrow> int \<Rightarrow> int \<Rightarrow> int \<Rightarrow> image \<times> pixel32_t \<times> pixel32_t \<times> pixel32_t \<Rightarrow>
   (image \<times> pixel32_t \<times> pixel32_t \<times> pixel32_t) exec" where
  "edge_step dim src r0 r1 row j st = (case st of (dst, acc, left, mid) \<Rightarrow>
     sbind (acc_px dim src r0 (j + 1) pixel32_init) (\<lambda>right.
     sbind (acc_px dim src r1 (j + 1) right) (\<lambda>right.
     let acc = pixel32_add acc right in
     sbind (set_px dim dst row j (pixel32_to_pixel acc 6)) (\<lambda>dst.
     Inr (dst, pixel32_sub acc left, mid, right)))))"

definition smooth_edge :: "int \<Rightarrow> image \<Rightarrow> int \<Rightarrow> int \<Rightarrow> int \<Rightarrow> image \<Rightarrow> image exec" where
  "smooth_edge dim src r0 r1 row dst =
     sbind (acc_px dim src r0 0 pixel32_init) (\<lambda>left.
     sbind (acc_px dim src r0 1 pixel32_init) (\<lambda>mid.
     sbind (acc_px dim src r1 0 left) (\<lambda>left.
     sbind (acc_px dim src r1 1 mid) (\<lambda>mid.
     let acc = pixel32_add (pixel32_add pixel32_init left) mid in
     sbind (set_px dim dst row 0 (pixel32_to_pixel acc 4)) (\<lambda>dst.
     sbind (for_up 1 1 (dim - 1) (edge_step dim src r0 r1 row) (dst, acc, left, mid)) (\<lambda>(dst, acc, left, mid).
     set_px dim dst row (dim - 1) (pixel32_to_pixel acc 4)))))))"

definition middle_step ::
  "int \<Rightarrow> image \<Rightarrow> int \<Rightarrow> int \<Rightarrow> image \<times> pixel32_t \<times> pixel32_t \<times> pixel32_t \<Rightarrow>
   (image \<times> pixel32_t \<times> pixel32_t \<times> pixel32_t) exec" where
  "middle_step dim src i j st = (case st of (dst, acc, left, mid) \<Rightarrow>
     sbind (acc_px dim src (i - 1) (j + 1) pixel32_init) (\<lambda>right.
     sbind (acc_px dim src i (j + 1) right) (\<lambda>right.
     sbind (acc_px dim src (i + 1) (j + 1) right) (\<lambda>right.
     let acc = pixel32_add acc right in
     sbind (set_px dim dst i j (pixel32_to_pixel acc 9)) (\<lambda>dst.
     Inr (dst, pixel32_sub acc left, mid, right))))))"

definition smooth_middle :: "int \<Rightarrow> image \<Rightarrow> int \<Rightarrow> image \<Rightarrow> image exec" where
  "smooth_middle dim src i dst =
     sbind (acc_px dim src (i - 1) 0 pixel32_init) (\<lambda>left.
     sbind (acc_px dim src (i - 1) 1 pixel32_init) (\<lambda>mid.
     sbind (acc_px dim src i 0 left) (\<lambda>left.
     sbind (acc_px dim src i 1 mid) (\<lambda>mid.
     sbind (acc_px dim src (i + 1) 0 left) (\<lambda>left.
     sbind (acc_px dim src (i + 1) 1 mid) (\<lambda>mid.
     let acc = pixel32_add (pixel32_add pixel32_init left) mid in
     sbind (set_px dim dst i 0 (pixel32_to_pixel acc 6)) (\<lambda>dst.
     sbind (for_up 1 1 (dim - 1) (middle_step dim src i) (dst, acc, left, mid)) (\<lambda>(dst, acc, left, mid).
     set_px dim dst i (dim - 1) (pixel32_to_pixel acc 6)))))))))"

definition smooth :: "int \<Rightarrow> image \<Rightarrow> image \<Rightarrow> image exec" where
  "smooth dim src dst =
     sbind (smooth_edge dim src 0 1 0 dst) (\<lambda>dst.
     sbind (for_up 1 1 (dim - 1) (smooth_middle dim src) dst) (\<lambda>dst.
     smooth_edge dim src (dim - 2) (dim - 1) (dim - 1) dst))"

section \<open>Pixel access\<close>

lemma INT_MAX_pos: "0 < INT_MAX"
  by (simp add: INT_MAX_def)

lemma RIDX_simp:
  assumes "0 \<le> i" "i < dim" "0 \<le> j" "j < dim" "dim * dim \<le> INT_MAX"
  shows "RIDX i j dim = Inr (i * dim + j)"
proof -
  have "i * dim + j < dim * dim" using assms index_less by blast
  moreover have "0 \<le> i * dim" using assms by simp
  ultimately have "imul i dim = Inr (i * dim)" "iadd (i * dim) j = Inr (i * dim + j)"
    unfolding imul_def iadd_def by (intro if_P; use assms INT_MAX_pos in linarith)+
  then show ?thesis by (simp add: RIDX_def)
qed

lemma get_px_rep:
  "rep dim dim src f \<Longrightarrow> dim * dim \<le> INT_MAX \<Longrightarrow> 0 \<le> i \<Longrightarrow> i < dim \<Longrightarrow> 0 \<le> j \<Longrightarrow> j < dim \<Longrightarrow>
   get_px dim src i j = Inr (f i j)"
  using rd2_rep [of dim dim src f i j] by (simp add: get_px_def RIDX_simp rd2_def)

lemma set_px_rep:
  "rep dim dim dst g \<Longrightarrow> dim * dim \<le> INT_MAX \<Longrightarrow> 0 \<le> i \<Longrightarrow> i < dim \<Longrightarrow> 0 \<le> j \<Longrightarrow> j < dim \<Longrightarrow>
   returns (set_px dim dst i j p) (\<lambda>dst'. rep dim dim dst' (upd2 g i j p))"
  using wr2_rep [of dim dim dst g i j p] by (simp add: set_px_def RIDX_simp wr2_def)

lemma dim_bounds: "0 \<le> dim \<Longrightarrow> dim * dim \<le> INT_MAX \<Longrightarrow> dim + 8 \<le> INT_MAX + 1" for dim :: int
proof (rule ccontr)
  assume a: "0 \<le> dim" "dim * dim \<le> INT_MAX" "\<not> dim + 8 \<le> INT_MAX + 1"
  then have "46341 \<le> dim" by (simp add: INT_MAX_def)
  then have "46341 * 46341 \<le> dim * dim" by (intro mult_mono) auto
  then show False using a by (simp add: INT_MAX_def)
qed

section \<open>Rotation is correct\<close>

text \<open>
  Writing \<open>dst\<close> upside down turns the rotation into a transposition, so the
  block argument of the transposition applies.
\<close>

definition turned :: "int \<Rightarrow> (int \<Rightarrow> int \<Rightarrow> 'a) \<Rightarrow> (int \<Rightarrow> int \<Rightarrow> bool) \<Rightarrow> (int \<Rightarrow> int \<Rightarrow> 'a) \<Rightarrow> int \<Rightarrow> int \<Rightarrow> 'a" where
  "turned dim f P c = (\<lambda>r k. if P k (dim - 1 - r) then f k (dim - 1 - r) else c r k)"

lemma rotate_cell:
  assumes "rep dim dim src f" "dim * dim \<le> INT_MAX" "0 \<le> i" "i < dim" "0 \<le> j" "j < dim"
    "rep dim dim dst (turned dim f P c)"
  shows "returns (sbind (get_px dim src i j) (set_px dim dst (dim - 1 - j) i))
    (\<lambda>dst'. rep dim dim dst' (turned dim f (\<lambda>i' j'. P i' j' \<or> i' = i \<and> j' = j) c))"
proof -
  have "returns (set_px dim dst (dim - 1 - j) i (f i j))
    (\<lambda>dst'. rep dim dim dst' (turned dim f (\<lambda>i' j'. P i' j' \<or> i' = i \<and> j' = j) c))"
    by (rule returns_mono [OF set_px_rep [OF assms(7)]])
      (use assms in \<open>auto elim!: rep_cong simp: turned_def upd2_def\<close>)
  then show ?thesis using assms by (simp add: get_px_rep)
qed

lemma rep_turned_cong:
  "rep dim dim X (turned dim f P c) \<Longrightarrow>
   (\<And>i j. 0 \<le> i \<Longrightarrow> i < dim \<Longrightarrow> 0 \<le> j \<Longrightarrow> j < dim \<Longrightarrow> P i j = P' i j) \<Longrightarrow> rep dim dim X (turned dim f P' c)"
  by (erule rep_cong) (simp add: turned_def)

lemma rotate_row:
  assumes "rep dim dim src f" "dim * dim \<le> INT_MAX" "0 \<le> i" "i < dim" "0 \<le> lo" "lo \<le> hi" "hi \<le> dim"
    "rep dim dim dst (turned dim f P c)"
  shows "returns (for_up 1 lo hi (\<lambda>j dst. sbind (get_px dim src i j) (set_px dim dst (dim - 1 - j) i)) dst)
    (\<lambda>dst'. rep dim dim dst' (turned dim f (\<lambda>i' j'. P i' j' \<or> i' = i \<and> lo \<le> j' \<and> j' < hi) c))"
proof (rule for_up_1 [where I = "\<lambda>j dst. rep dim dim dst (turned dim f (\<lambda>i' j'. P i' j' \<or> i' = i \<and> lo \<le> j' \<and> j' < j) c)"])
  fix j dst' assume j: "lo \<le> j" "j < hi"
    and d: "rep dim dim dst' (turned dim f (\<lambda>i' j'. P i' j' \<or> i' = i \<and> lo \<le> j' \<and> j' < j) c)"
  show "returns (sbind (get_px dim src i j) (set_px dim dst' (dim - 1 - j) i))
    (\<lambda>dst'. rep dim dim dst' (turned dim f (\<lambda>i' j'. P i' j' \<or> i' = i \<and> lo \<le> j' \<and> j' < j + 1) c))"
    by (rule returns_mono [OF rotate_cell [OF assms(1-4) _ _ d]])
      (use assms j in \<open>auto elim!: rep_turned_cong\<close>)
qed (use assms dim_bounds [of dim] in \<open>auto elim!: rep_turned_cong\<close>)

lemma rotate_rows:
  assumes "rep dim dim src f" "dim * dim \<le> INT_MAX" "0 \<le> bi" "bi \<le> ei" "ei \<le> dim" "0 \<le> lo" "lo \<le> hi" "hi \<le> dim"
    "rep dim dim dst (turned dim f P c)"
  shows "returns (for_up 1 bi ei (\<lambda>i. for_up 1 lo hi (\<lambda>j dst. sbind (get_px dim src i j) (set_px dim dst (dim - 1 - j) i))) dst)
    (\<lambda>dst'. rep dim dim dst' (turned dim f (\<lambda>i' j'. P i' j' \<or> bi \<le> i' \<and> i' < ei \<and> lo \<le> j' \<and> j' < hi) c))"
proof (rule for_up_1 [where I = "\<lambda>i dst. rep dim dim dst (turned dim f (\<lambda>i' j'. P i' j' \<or> bi \<le> i' \<and> i' < i \<and> lo \<le> j' \<and> j' < hi) c)"])
  fix i dst' assume i: "bi \<le> i" "i < ei"
    and d: "rep dim dim dst' (turned dim f (\<lambda>i' j'. P i' j' \<or> bi \<le> i' \<and> i' < i \<and> lo \<le> j' \<and> j' < hi) c)"
  show "returns (for_up 1 lo hi (\<lambda>j dst. sbind (get_px dim src i j) (set_px dim dst (dim - 1 - j) i)) dst')
    (\<lambda>dst'. rep dim dim dst' (turned dim f (\<lambda>i' j'. P i' j' \<or> bi \<le> i' \<and> i' < i + 1 \<and> lo \<le> j' \<and> j' < hi) c))"
    by (rule returns_mono [OF rotate_row [OF assms(1,2) _ _ assms(6-8) d]])
      (use assms i in \<open>auto elim!: rep_turned_cong\<close>)
qed (use assms dim_bounds [of dim] in \<open>auto elim!: rep_turned_cong\<close>)

lemma naive_rotate_rep:
  assumes "rep dim dim src f" "rep dim dim dst c" "dim * dim \<le> INT_MAX" "0 \<le> dim"
  shows "returns (naive_rotate dim src dst) (\<lambda>dst'. rep dim dim dst' (\<lambda>r k. f k (dim - 1 - r)))"
  unfolding naive_rotate_def
  by (rule returns_mono [OF rotate_rows [OF assms(1,3), where P = "\<lambda>_ _. False" and c = c]])
    (use assms in \<open>auto elim!: rep_cong simp: turned_def\<close>)

lemma rotate_rep:
  assumes "rep dim dim src f" "rep dim dim dst c" "dim * dim \<le> INT_MAX" "0 \<le> dim" "8 dvd dim"
  shows "returns (rotate_img dim src dst) (\<lambda>dst'. rep dim dim dst' (\<lambda>r k. f k (dim - 1 - r)))"
proof -
  have last: "b + 8 \<le> dim" if "8 dvd b" "b < dim" for b
    using that assms(5) zdvd_imp_le [of 8 "dim - b"] by (simp add: dvd_diff)
  let ?I = "\<lambda>bi bj dst. rep dim dim dst (turned dim f (\<lambda>i j. i < bi \<or> i < bi + 8 \<and> j < bj) c)"
  have row: "returns (for_up 8 0 dim (rotate_block dim src bi) dst') (?I bi dim)"
    if bi: "0 \<le> bi" "bi < dim" "8 dvd bi" and d: "?I bi 0 dst'" for bi dst'
  proof (rule for_up_to [where I = "?I bi"])
    fix bj dst'' assume bj: "0 \<le> bj" "bj < dim" "8 dvd bj - 0" and d: "?I bi bj dst''"
    have l: "bi + 8 \<le> dim" "bj + 8 \<le> dim" using bi bj last by simp_all
    show "returns (rotate_block dim src bi bj dst'') (?I bi (bj + 8))"
      unfolding rotate_block_def block_size_def
      by (rule returns_mono [OF rotate_rows [OF assms(1,3) _ _ _ _ _ _ d]])
        (use bi bj l in \<open>auto elim!: rep_turned_cong\<close>)
  qed (use assms bi d dim_bounds [of dim] in auto)
  have "returns (for_up 8 0 dim (\<lambda>bi. for_up 8 0 dim (rotate_block dim src bi)) dst) (?I dim 0)"
  proof (rule for_up_to [where I = "\<lambda>bi. ?I bi 0"])
    fix bi dst' assume "0 \<le> bi" "bi < dim" "8 dvd bi - 0" "?I bi 0 dst'"
    then show "returns (for_up 8 0 dim (rotate_block dim src bi) dst') (?I (bi + 8) 0)"
      by (intro returns_mono [OF row]) (auto elim!: rep_turned_cong)
  qed (use assms dim_bounds [of dim] in \<open>auto elim!: rep_cong simp: turned_def\<close>)
  then show ?thesis unfolding rotate_img_def block_size_def
    by (rule returns_mono) (auto elim!: rep_cong simp: turned_def)
qed

text \<open>
  A dimension that is not a multiple of the block size makes the optimised
  version leave its arrays: already in the first band of blocks it writes to a
  negative row.
\<close>

lemma rotate_cell_fault:
  assumes "1 < dim" "dim * dim \<le> INT_MAX" "int (length src) = dim * dim"
  shows "sbind (get_px dim src 0 dim) (set_px dim dst (dim - 1 - dim) 0) = Inl OutOfBounds"
proof -
  have "dim < dim * dim" using assms(1) by simp
  then have b: "dim < int (length src)" "dim \<le> INT_MAX" using assms by linarith+
  then have "get_px dim src 0 dim = Inr (src ! nat dim)"
    using assms(1) by (simp add: get_px_def RIDX_def imul_def iadd_def INT_MAX_def)
  moreover have "set_px dim dst (- 1) 0 p = Inl OutOfBounds" for p
    using assms(1) b by (simp add: set_px_def RIDX_def imul_def iadd_def INT_MAX_def wri_def)
  ultimately show ?thesis by simp
qed

lemma rotate_fault:
  assumes src: "rep dim dim src f" and dst: "rep dim dim dst c" and d: "dim * dim \<le> INT_MAX" "1 < dim" "\<not> 8 dvd dim"
  shows "rotate_img dim src dst = Inl OutOfBounds"
proof -
  define m where "m = dim - dim mod 8"
  have m: "0 \<le> m" "m < dim" "8 dvd m" "dim < m + 8"
  proof -
    have "dim mod 8 < 8" "dim mod 8 \<noteq> 0" "0 \<le> dim mod 8" "dim mod 8 \<le> dim"
      using d(2,3) by (simp_all add: dvd_eq_mod_eq_0 zmod_le_nonneg_dividend)
    then show "0 \<le> m" "m < dim" "dim < m + 8" unfolding m_def by linarith+
    show "8 dvd m" by (simp add: m_def minus_mod_eq_mult_div)
  qed
  have ov: "dim + 8 \<le> INT_MAX + 1" using dim_bounds [of dim] d by simp
  let ?I = "\<lambda>dst. \<exists>P. rep dim dim dst (turned dim f P c)"
  have I0: "?I dst" using dst by (intro exI [of _ "\<lambda>_ _. False"]) (simp add: turned_def)
  have row_fault: "for_up 1 m (m + 8) (\<lambda>j dst. sbind (get_px dim src 0 j) (set_px dim dst (dim - 1 - j) 0)) dst' = Inl OutOfBounds"
    if "?I dst'" for dst'
  proof (rule for_up_fault [where m = dim and I = "\<lambda>_. ?I"])
    fix j dst'' assume j: "m \<le> j" "j < dim" and "?I dst''"
    then obtain P where P: "rep dim dim dst'' (turned dim f P c)" by blast
    show "returns (sbind (get_px dim src 0 j) (set_px dim dst'' (dim - 1 - j) 0)) ?I"
      by (rule returns_mono [OF rotate_cell [OF src d(1) _ _ _ _ P]]) (use d m j in auto)
  qed (use that m d ov rotate_cell_fault [of dim src] src in \<open>auto simp: rep_def\<close>)
  have block_fault: "rotate_block dim src 0 m dst' = Inl OutOfBounds" if "?I dst'" for dst'
    unfolding rotate_block_def block_size_def by (subst for_up.simps) (simp add: row_fault [OF that])
  have "for_up 8 0 dim (rotate_block dim src 0) dst = Inl OutOfBounds"
  proof (rule for_up_fault [where m = m and I = "\<lambda>_. ?I"])
    fix bj dst' assume bj: "0 \<le> bj" "bj < m" "8 dvd bj - 0" and "?I dst'"
    then obtain P where P: "rep dim dim dst' (turned dim f P c)" by blast
    have l: "bj + 8 \<le> m" using bj m(3) zdvd_imp_le [of 8 "m - bj"] by (simp add: dvd_diff)
    then have "8 \<le> dim" using bj m by simp
    then show "returns (rotate_block dim src 0 bj dst') ?I"
      unfolding rotate_block_def block_size_def
      by (intro returns_mono [OF rotate_rows [OF src d(1) _ _ _ _ _ _ P]]) (use bj l m in auto)
  qed (use I0 m ov block_fault in auto)
  then show ?thesis using d(2) unfolding rotate_img_def block_size_def by (subst for_up.simps) simp
qed

section \<open>Sums of pixels\<close>

definition psum :: "pixel list \<Rightarrow> pixel32_t" where
  "psum ps = \<lparr>red32 = sum_list (map (\<lambda>p. ucast (red p)) ps), green32 = sum_list (map (\<lambda>p. ucast (green p)) ps),
    blue32 = sum_list (map (\<lambda>p. ucast (blue p)) ps)\<rparr>"

lemma psum_simps:
  "pixel32_init = psum []"
  "pixel32_add_pixel (psum ps) p = psum (ps @ [p])"
  "pixel32_add (psum ps) (psum qs) = psum (ps @ qs)"
  "pixel32_sub (psum (ps @ qs)) (psum ps) = psum qs"
  by (simp_all add: psum_def pixel32_init_def pixel32_add_pixel_def pixel32_add_def pixel32_sub_def)

text \<open>The average of a list of pixels, in unbounded arithmetic.\<close>

definition mean :: "pixel list \<Rightarrow> pixel" where
  "mean ps = \<lparr>red = of_nat (sum_list (map (\<lambda>p. unat (red p)) ps) div length ps),
    green = of_nat (sum_list (map (\<lambda>p. unat (green p)) ps) div length ps),
    blue = of_nat (sum_list (map (\<lambda>p. unat (blue p)) ps) div length ps)\<rparr>"

lemma mean_mset: "mset ps = mset qs \<Longrightarrow> mean ps = mean qs"
proof -
  assume eq: "mset ps = mset qs"
  have "sum_list (map g ps) = sum_list (map g qs)" for g :: "pixel \<Rightarrow> nat"
    using eq by (metis mset_map sum_mset_sum_list)
  moreover have "length ps = length qs" using eq by (rule mset_eq_length)
  ultimately show ?thesis by (simp add: mean_def)
qed

lemma sum_channel:
  fixes f :: "'a \<Rightarrow> 16 word"
  assumes "length ps \<le> 65537"
  shows "unat (sum_list (map (\<lambda>p. ucast (f p) :: uint32) ps)) = sum_list (map (\<lambda>p. unat (f p)) ps)"
    and "sum_list (map (\<lambda>p. unat (f p)) ps) \<le> length ps * 65535"
proof -
  show b: "sum_list (map (\<lambda>p. unat (f p)) ps) \<le> length ps * 65535"
  proof (induction ps)
    case (Cons p ps)
    then show ?case using unsigned_less [of "f p", where 'a = nat] by simp
  qed simp
  have "sum_list (map (\<lambda>p. ucast (f p) :: uint32) ps) = of_nat (sum_list (map (\<lambda>p. unat (f p)) ps))"
    by (induction ps) simp_all
  moreover have "sum_list (map (\<lambda>p. unat (f p)) ps) < 2 ^ LENGTH(32)" using b assms by simp
  ultimately show "unat (sum_list (map (\<lambda>p. ucast (f p) :: uint32) ps)) = sum_list (map (\<lambda>p. unat (f p)) ps)"
    by (simp only: unat_of_nat_less)
qed

lemma ucast_div:
  fixes x n :: uint32
  shows "ucast (x div n) = (of_nat (unat x div unat n) :: 16 word)"
  by (simp flip: unat_div_distrib)

lemma pixel32_to_pixel_mean:
  assumes "length ps \<le> 65537" "unat n = length ps"
  shows "pixel32_to_pixel (psum ps) n = mean ps"
  by (simp add: pixel32_to_pixel_def psum_def mean_def ucast_div sum_channel(1) [OF assms(1)] assms(2))

lemma accumulate_fold:
  "fold (\<lambda>p s. accumulate_sum s p) ps \<lparr>s_red = r, s_green = g, s_blue = b, s_num = n\<rparr> =
   \<lparr>s_red = r + int (sum_list (map (\<lambda>p. unat (red p)) ps)), s_green = g + int (sum_list (map (\<lambda>p. unat (green p)) ps)),
    s_blue = b + int (sum_list (map (\<lambda>p. unat (blue p)) ps)), s_num = n + int (length ps)\<rparr>"
  by (induction ps arbitrary: r g b n) (simp_all add: accumulate_sum_def)

lemma naive_mean: "assign_sum_to_pixel (fold (\<lambda>p s. accumulate_sum s p) ps initialize_pixel_sum) = mean ps"
  by (simp add: initialize_pixel_sum_def accumulate_fold assign_sum_to_pixel_def mean_def zdiv_int [symmetric])

section \<open>Windows\<close>

definition near :: "int \<Rightarrow> int \<Rightarrow> int list" where
  "near dim i = [max (i - 1) 0..min (i + 1) (dim - 1)]"

definition window :: "int \<Rightarrow> (int \<Rightarrow> int \<Rightarrow> 'a) \<Rightarrow> int \<Rightarrow> int \<Rightarrow> 'a list" where
  "window dim f i j = concat (map (\<lambda>ii. map (f ii) (near dim j)) (near dim i))"

definition columns :: "(int \<Rightarrow> int \<Rightarrow> 'a) \<Rightarrow> int list \<Rightarrow> int list \<Rightarrow> 'a list" where
  "columns f rs js = concat (map (\<lambda>j. map (\<lambda>i. f i j) rs) js)"

lemma near_cases:
  "2 \<le> dim \<Longrightarrow> near dim 0 = [0, 1]"
  "2 \<le> dim \<Longrightarrow> near dim (dim - 1) = [dim - 2, dim - 1]"
  "0 < i \<Longrightarrow> i < dim - 1 \<Longrightarrow> near dim i = [i - 1, i, i + 1]"
  by (simp_all add: near_def upto_rec1)

lemma mset_concat_Cons: "mset (concat (map (\<lambda>j. g j # h j) js)) = mset (map g js) + mset (concat (map h js))"
  by (induction js) simp_all

lemma mset_window: "mset (window dim f i j) = mset (columns f (near dim i) (near dim j))"
proof -
  have "mset (concat (map (\<lambda>ii. map (f ii) js) rs)) = mset (concat (map (\<lambda>j. map (\<lambda>i. f i j) rs) js))" for rs js
    by (induction rs) (simp_all add: mset_concat_Cons)
  then show ?thesis by (simp add: window_def columns_def)
qed

lemma fold_nested: "fold (\<lambda>i. fold (\<lambda>j. h (f i j)) js) rs s = fold h (concat (map (\<lambda>i. map (f i) js) rs)) s"
  by (induction rs arbitrary: s) (simp_all add: fold_map comp_def)

lemma avg_window:
  assumes "rep dim dim src f" "dim * dim \<le> INT_MAX" "0 \<le> i" "i < dim" "0 \<le> j" "j < dim"
  shows "avg dim i j src = Inr (mean (window dim f i j))"
proof -
  have ov: "dim \<le> INT_MAX" using dim_bounds [of dim] assms by simp
  have mm: "max_int = max" "min_int = min" by (auto simp: fun_eq_iff max_int_def min_int_def)
  have inner: "for_up 1 (max (j - 1) 0) (min (j + 1) (dim - 1) + 1)
      (\<lambda>jj s. sbind (get_px dim src ii jj) (\<lambda>p. Inr (accumulate_sum s p))) s =
    Inr (fold (\<lambda>jj s. accumulate_sum s (f ii jj)) (near dim j) s)" if "0 \<le> ii" "ii < dim" for ii s
    by (subst for_up_fold [where g = "\<lambda>jj s. accumulate_sum s (f ii jj)"])
      (use assms that ov in \<open>auto simp: get_px_rep near_def\<close>)
  have "for_up 1 (max (i - 1) 0) (min (i + 1) (dim - 1) + 1) (\<lambda>ii.
      for_up 1 (max (j - 1) 0) (min (j + 1) (dim - 1) + 1)
        (\<lambda>jj s. sbind (get_px dim src ii jj) (\<lambda>p. Inr (accumulate_sum s p)))) initialize_pixel_sum =
    Inr (fold (\<lambda>ii. fold (\<lambda>jj s. accumulate_sum s (f ii jj)) (near dim j)) (near dim i) initialize_pixel_sum)"
    by (subst for_up_fold [where g = "\<lambda>ii. fold (\<lambda>jj s. accumulate_sum s (f ii jj)) (near dim j)"])
      (use assms ov in \<open>auto simp: inner near_def [of dim i]\<close>)
  also have "\<dots> = Inr (fold (\<lambda>p s. accumulate_sum s p) (window dim f i j) initialize_pixel_sum)"
    using fold_nested [of "\<lambda>p s. accumulate_sum s p" f] by (simp add: window_def)
  finally show ?thesis by (simp add: avg_def mm naive_mean)
qed

section \<open>Smoothing is correct\<close>

abbreviation col :: "(int \<Rightarrow> int \<Rightarrow> 'a) \<Rightarrow> int list \<Rightarrow> int \<Rightarrow> 'a list" where
  "col f rs j \<equiv> map (\<lambda>i. f i j) rs"

definition smoothed :: "int \<Rightarrow> (int \<Rightarrow> int \<Rightarrow> pixel) \<Rightarrow> int list \<Rightarrow> int \<Rightarrow> int \<Rightarrow> (int \<Rightarrow> int \<Rightarrow> pixel) \<Rightarrow> int \<Rightarrow> int \<Rightarrow> pixel" where
  "smoothed dim f rs row b c = (\<lambda>r k. if r = row \<and> 0 \<le> k \<and> k < b then mean (columns f rs (near dim k)) else c r k)"

lemma set_px_smoothed:
  assumes "rep dim dim dst (smoothed dim f rs row j c)" "dim * dim \<le> INT_MAX" "0 \<le> row" "row < dim" "0 \<le> j" "j < dim"
  shows "returns (set_px dim dst row j (mean (columns f rs (near dim j))))
    (\<lambda>dst'. rep dim dim dst' (smoothed dim f rs row (j + 1) c))"
  by (rule returns_mono [OF set_px_rep [OF assms]]) (auto elim!: rep_cong simp: smoothed_def upd2_def)

lemma columns_simps: "columns f rs [] = []" "columns f rs (j # js) = col f rs j @ columns f rs js"
  by (simp_all add: columns_def)

lemma acc_px_psum:
  "rep dim dim src f \<Longrightarrow> dim * dim \<le> INT_MAX \<Longrightarrow> 0 \<le> i \<Longrightarrow> i < dim \<Longrightarrow> 0 \<le> j \<Longrightarrow> j < dim \<Longrightarrow>
   acc_px dim src i j (psum ps) = Inr (psum (ps @ [f i j]))"
  by (simp add: acc_px_def get_px_rep psum_simps)

text \<open>
  The sliding window over one row: the loop keeps the sums of the last two
  columns, and every pixel it writes is the mean of three columns.
\<close>

lemma sweep:
  assumes dim: "dim * dim \<le> INT_MAX" "2 \<le> dim" "0 \<le> row" "row < dim"
    and rs: "length rs \<le> 3" "unat n3 = 3 * length rs"
    and dst: "rep dim dim dst (smoothed dim f rs row 1 c)"
    and step: "\<And>j dst ps qs. 1 \<le> j \<Longrightarrow> j < dim - 1 \<Longrightarrow>
      step j (dst, psum (ps @ qs), psum ps, psum qs) =
      sbind (set_px dim dst row j (pixel32_to_pixel (psum (ps @ qs @ col f rs (j + 1))) n3))
        (\<lambda>dst. Inr (dst, psum (qs @ col f rs (j + 1)), psum qs, psum (col f rs (j + 1))))"
  shows "returns (for_up 1 1 (dim - 1) step
      (dst, psum (col f rs 0 @ col f rs 1), psum (col f rs 0), psum (col f rs 1)))
    (\<lambda>(dst, acc, left, mid). acc = psum (col f rs (dim - 2) @ col f rs (dim - 1)) \<and>
      rep dim dim dst (smoothed dim f rs row (dim - 1) c))"
proof -
  let ?I = "\<lambda>j (dst, acc, left, mid). acc = psum (col f rs (j - 1) @ col f rs j) \<and>
    left = psum (col f rs (j - 1)) \<and> mid = psum (col f rs j) \<and> rep dim dim dst (smoothed dim f rs row j c)"
  have "returns (step j st) (?I (j + 1))" if j: "1 \<le> j" "j < dim - 1" and st: "?I j st" for j st
  proof -
    obtain d where d: "st = (d, psum (col f rs (j - 1) @ col f rs j), psum (col f rs (j - 1)), psum (col f rs j))"
      "rep dim dim d (smoothed dim f rs row j c)" using st by auto
    have "near dim j = [j - 1, j, j + 1]" using j by (intro near_cases) auto
    then have "pixel32_to_pixel (psum (col f rs (j - 1) @ col f rs j @ col f rs (j + 1))) n3 =
        mean (columns f rs (near dim j))"
      using rs by (subst pixel32_to_pixel_mean) (auto simp: columns_simps)
    then show ?thesis unfolding d(1)
      using j by (simp add: step) (rule returns_bind, rule returns_mono,
        rule set_px_smoothed [OF d(2)], use dim j in auto)
  qed
  then have "returns (for_up 1 1 (dim - 1) step
      (dst, psum (col f rs 0 @ col f rs 1), psum (col f rs 0), psum (col f rs 1))) (?I (dim - 1))"
    by (intro for_up_1 [where I = ?I]) (use dim dst dim_bounds [of dim] in auto)
  then show ?thesis by (rule returns_mono) auto
qed

lemma sweep_row:
  assumes dim: "dim * dim \<le> INT_MAX" "2 \<le> dim" "0 \<le> row" "row < dim"
    and rs: "length rs \<le> 3" "unat n3 = 3 * length rs" "unat n2 = 2 * length rs"
    and dst: "rep dim dim dst c"
    and step: "\<And>j dst ps qs. 1 \<le> j \<Longrightarrow> j < dim - 1 \<Longrightarrow>
      step j (dst, psum (ps @ qs), psum ps, psum qs) =
      sbind (set_px dim dst row j (pixel32_to_pixel (psum (ps @ qs @ col f rs (j + 1))) n3))
        (\<lambda>dst. Inr (dst, psum (qs @ col f rs (j + 1)), psum qs, psum (col f rs (j + 1))))"
  shows "returns (sbind (set_px dim dst row 0 (pixel32_to_pixel (psum (col f rs 0 @ col f rs 1)) n2)) (\<lambda>dst.
     sbind (for_up 1 1 (dim - 1) step (dst, psum (col f rs 0 @ col f rs 1), psum (col f rs 0), psum (col f rs 1)))
       (\<lambda>(dst, acc, left, mid). set_px dim dst row (dim - 1) (pixel32_to_pixel acc n2))))
    (\<lambda>dst'. rep dim dim dst' (smoothed dim f rs row dim c))"
proof (rule returns_bind, rule returns_mono)
  have corner: "pixel32_to_pixel (psum (col f rs 0 @ col f rs 1)) n2 = mean (columns f rs (near dim 0))"
    "pixel32_to_pixel (psum (col f rs (dim - 2) @ col f rs (dim - 1))) n2 = mean (columns f rs (near dim (dim - 1)))"
    using rs dim(2) by (subst pixel32_to_pixel_mean; simp add: columns_simps near_cases)+
  have "rep dim dim dst (smoothed dim f rs row 0 c)" using dst by (rule rep_cong) (simp add: smoothed_def)
  then show "returns (set_px dim dst row 0 (pixel32_to_pixel (psum (col f rs 0 @ col f rs 1)) n2))
      (\<lambda>dst'. rep dim dim dst' (smoothed dim f rs row (0 + 1) c))"
    unfolding corner by (rule set_px_smoothed) (use dim in auto)
  fix d assume "rep dim dim d (smoothed dim f rs row (0 + 1) c)"
  then have d: "rep dim dim d (smoothed dim f rs row 1 c)" by simp
  show "returns (sbind (for_up 1 1 (dim - 1) step (d, psum (col f rs 0 @ col f rs 1), psum (col f rs 0), psum (col f rs 1)))
       (\<lambda>(dst, acc, left, mid). set_px dim dst row (dim - 1) (pixel32_to_pixel acc n2)))
    (\<lambda>dst'. rep dim dim dst' (smoothed dim f rs row dim c))"
  proof (rule returns_bind, rule returns_mono [OF sweep [OF dim rs(1,2) d step]])
    fix st :: "image \<times> pixel32_t \<times> pixel32_t \<times> pixel32_t"
    assume "case st of (dst, acc, left, mid) \<Rightarrow> acc = psum (col f rs (dim - 2) @ col f rs (dim - 1)) \<and>
      rep dim dim dst (smoothed dim f rs row (dim - 1) c)"
    then show "returns (case st of (dst, acc, left, mid) \<Rightarrow> set_px dim dst row (dim - 1) (pixel32_to_pixel acc n2))
      (\<lambda>dst'. rep dim dim dst' (smoothed dim f rs row dim c))"
      using set_px_smoothed [of dim _ f rs row "dim - 1" c] dim by (auto simp: corner split: prod.splits)
  qed
qed

lemma smooth_edge_correct:
  assumes src: "rep dim dim src f" and dst: "rep dim dim dst c" and dim: "dim * dim \<le> INT_MAX" "2 \<le> dim"
    and r: "0 \<le> r0" "r0 < dim" "0 \<le> r1" "r1 < dim" "0 \<le> row" "row < dim"
  shows "returns (smooth_edge dim src r0 r1 row dst) (\<lambda>dst'. rep dim dim dst' (smoothed dim f [r0, r1] row dim c))"
proof -
  let ?rs = "[r0, r1]"
  have acc: "acc_px dim src i j (psum ps) = Inr (psum (ps @ [f i j]))"
    if "i \<in> {r0, r1}" "0 \<le> j" "j < dim" for i j ps
    using that r by (intro acc_px_psum [OF src dim(1)]) auto
  have step: "edge_step dim src r0 r1 row j (d, psum (ps @ qs), psum ps, psum qs) =
      sbind (set_px dim d row j (pixel32_to_pixel (psum (ps @ qs @ col f ?rs (j + 1))) 6))
        (\<lambda>dst. Inr (dst, psum (qs @ col f ?rs (j + 1)), psum qs, psum (col f ?rs (j + 1))))"
    if "1 \<le> j" "j < dim - 1" for j d ps qs
    using that by (simp add: edge_step_def psum_simps acc del: append_assoc) (simp add: psum_simps)
  show ?thesis
    using sweep_row [OF dim r(5,6) _ _ _ dst step, of 4] dim(2)
    by (simp add: smooth_edge_def psum_simps acc Let_def)
qed

lemma smooth_middle_correct:
  assumes src: "rep dim dim src f" and dst: "rep dim dim dst c" and dim: "dim * dim \<le> INT_MAX" "2 \<le> dim"
    and i: "1 \<le> i" "i < dim - 1"
  shows "returns (smooth_middle dim src i dst) (\<lambda>dst'. rep dim dim dst' (smoothed dim f [i - 1, i, i + 1] i dim c))"
proof -
  let ?rs = "[i - 1, i, i + 1]"
  have acc: "acc_px dim src k j (psum ps) = Inr (psum (ps @ [f k j]))"
    if "k \<in> {i - 1, i, i + 1}" "0 \<le> j" "j < dim" for k j ps
    using that i by (intro acc_px_psum [OF src dim(1)]) auto
  have step: "middle_step dim src i j (d, psum (ps @ qs), psum ps, psum qs) =
      sbind (set_px dim d i j (pixel32_to_pixel (psum (ps @ qs @ col f ?rs (j + 1))) 9))
        (\<lambda>dst. Inr (dst, psum (qs @ col f ?rs (j + 1)), psum qs, psum (col f ?rs (j + 1))))"
    if "1 \<le> j" "j < dim - 1" for j d ps qs
    using that by (simp add: middle_step_def psum_simps acc del: append_assoc) (simp add: psum_simps)
  have "0 \<le> i" "i < dim" using i by simp_all
  then show ?thesis
    using sweep_row [OF dim _ _ _ _ _ dst step, of 6] dim(2)
    by (simp add: smooth_middle_def psum_simps acc Let_def)
qed

lemma near_first: "2 \<le> dim \<Longrightarrow> 0 \<le> i \<Longrightarrow> i < 1 \<Longrightarrow> near dim i = [0, 1]"
  using near_cases(1) [of dim] by (cases "i = 0") auto

lemma smooth_rows:
  assumes src: "rep dim dim src f" and dst: "rep dim dim dst c" and dim: "dim * dim \<le> INT_MAX" "2 \<le> dim"
  shows "returns (smooth dim src dst) (\<lambda>dst'. rep dim dim dst' (\<lambda>i j. mean (columns f (near dim i) (near dim j))))"
proof -
  let ?g = "\<lambda>i j. mean (columns f (near dim i) (near dim j))"
  let ?I = "\<lambda>i dst. rep dim dim dst (\<lambda>r k. if r < i then ?g r k else c r k)"
  have top: "returns (smooth_edge dim src 0 1 0 dst) (?I 1)"
    by (rule returns_mono [OF smooth_edge_correct [OF src dst dim]])
      (use dim in \<open>auto elim!: rep_cong simp: smoothed_def near_first\<close>)
  have "returns (smooth_middle dim src i d) (?I (i + 1))" if "1 \<le> i" "i < dim - 1" "?I i d" for i d
    by (rule returns_mono [OF smooth_middle_correct [OF src that(3) dim that(1,2)]])
      (use that in \<open>auto elim!: rep_cong simp: smoothed_def near_cases\<close>)
  then have mid: "returns (for_up 1 1 (dim - 1) (smooth_middle dim src) d) (?I (dim - 1))" if "?I 1 d" for d
    using that by (intro for_up_1 [where I = ?I]) (use dim dim_bounds [of dim] in auto)
  have bot: "returns (smooth_edge dim src (dim - 2) (dim - 1) (dim - 1) d) (\<lambda>dst'. rep dim dim dst' ?g)"
    if "?I (dim - 1) d" for d
    by (rule returns_mono [OF smooth_edge_correct [OF src that dim]])
      (use dim in \<open>auto elim!: rep_cong simp: smoothed_def near_cases\<close>)
  show ?thesis
    unfolding smooth_def
    by (rule returns_bind, rule returns_mono [OF top], rule returns_bind, rule returns_mono [OF mid], assumption, rule bot)
qed

lemma naive_smooth_rows:
  assumes src: "rep dim dim src f" and dst: "rep dim dim dst c" and dim: "dim * dim \<le> INT_MAX" "0 \<le> dim"
  shows "returns (naive_smooth dim src dst) (\<lambda>dst'. rep dim dim dst' (\<lambda>i j. mean (window dim f i j)))"
proof -
  let ?g = "\<lambda>i j. mean (window dim f i j)"
  let ?J = "\<lambda>i j d. rep dim dim d (\<lambda>r k. if r < i \<or> r = i \<and> k < j then ?g r k else c r k)"
  have ov: "dim \<le> INT_MAX" using dim_bounds [of dim] dim by simp
  have cell: "returns (sbind (avg dim i j src) (set_px dim d i j)) (?J i (j + 1))"
    if "0 \<le> i" "i < dim" "0 \<le> j" "j < dim" "?J i j d" for i j d
    using that(1-4) by (simp add: avg_window [OF src dim(1)])
      (rule returns_mono [OF set_px_rep [OF that(5) dim(1)]], auto elim!: rep_cong simp: upd2_def)
  have row: "returns (for_up 1 0 dim (\<lambda>j d. sbind (avg dim i j src) (set_px dim d i j)) d) (?J (i + 1) 0)"
    if "0 \<le> i" "i < dim" "?J i 0 d" for i d
    by (rule returns_mono [OF for_up_1 [where I = "?J i"]], (use that cell ov dim in simp; fail)+) (auto elim!: rep_cong)
  have "returns (for_up 1 0 dim (\<lambda>i. for_up 1 0 dim (\<lambda>j d. sbind (avg dim i j src) (set_px dim d i j))) dst) (?J dim 0)"
    by (rule for_up_1 [where I = "\<lambda>i. ?J i 0"], (use ov dim in simp; fail)+) (use row dst in \<open>auto elim!: rep_cong\<close>)
  then show ?thesis unfolding naive_smooth_def by (rule returns_mono) (auto elim!: rep_cong)
qed

section \<open>The optimised kernels\<close>

lemma rotate_single: "rotate_img 1 [p] [q] = Inl OutOfBounds"
  by code_simp

lemma smooth_single: "smooth 1 [p] [q] = Inl OutOfBounds"
  by code_simp

text \<open>
  For every dimension that is a multiple of the block size the blocked rotation
  returns the image of the naive one, turned by a quarter; for every other
  positive dimension it leaves its arrays.
\<close>

theorem rotate_correct:
  assumes "int (length src) = dim * dim" "int (length dst) = dim * dim" "0 < dim" "dim * dim \<le> INT_MAX"
  shows "(8 dvd dim \<longrightarrow> (\<exists>d. rotate_img dim src dst = Inr d \<and> naive_rotate dim src dst = Inr d)) \<and>
    (\<not> 8 dvd dim \<longrightarrow> rotate_img dim src dst = Inl OutOfBounds) \<and>
    (\<exists>d. naive_rotate dim src dst = Inr d \<and> length d = length dst \<and>
      (\<forall>i\<in>{0..<dim}. \<forall>j\<in>{0..<dim}. d ! nat ((dim - 1 - j) * dim + i) = src ! nat (i * dim + j)))"
proof -
  let ?f = "\<lambda>i j. src ! nat (i * dim + j)"
  have s: "rep dim dim src ?f" and d: "rep dim dim dst (\<lambda>i j. dst ! nat (i * dim + j))"
    using assms by (simp_all add: rep_exists)
  obtain e where e: "naive_rotate dim src dst = Inr e" "rep dim dim e (\<lambda>r k. ?f k (dim - 1 - r))"
    using naive_rotate_rep [OF s d] assms by (auto elim: returnsE)
  have "rotate_img dim src dst = Inr e" if "8 dvd dim"
    using rotate_rep [OF s d _ _ that] assms rep_unique [OF _ e(2)] by (fastforce elim: returnsE)
  moreover have "rotate_img dim src dst = Inl OutOfBounds" if "\<not> 8 dvd dim"
  proof (cases "dim = 1")
    case True
    then obtain p q where "src = [p]" "dst = [q]" using assms by (auto simp: length_Suc_conv)
    then show ?thesis using True rotate_single by simp
  next
    case False
    then show ?thesis using rotate_fault [OF s d _ _ that] assms by simp
  qed
  moreover have "e ! nat ((dim - 1 - j) * dim + i) = ?f i j" if "i \<in> {0..<dim}" "j \<in> {0..<dim}" for i j
    using e(2) that by (simp add: rep_def)
  ultimately show ?thesis using e assms by (auto simp: rep_def)
qed

theorem rotate_correct_witness:
  fixes p :: pixel
  defines "p \<equiv> \<lparr>red = 1, green = 2, blue = 3\<rparr>"
  shows "rotate_img 2 [p, p, p, p] [p, p, p, p] = Inl OutOfBounds"
  using rotate_correct [of "[p, p, p, p]" 2 "[p, p, p, p]"] by (simp add: INT_MAX_def)

text \<open>
  C23. The sliding-window smoothing returns the image of the naive one, the mean of
  every pixel's neighbourhood, for every dimension from two on. It does not
  handle a single pixel: it reads past the image.
\<close>

theorem smooth_correct:
  assumes "int (length src) = dim * dim" "int (length dst) = dim * dim" "0 < dim" "dim * dim \<le> INT_MAX"
  shows "\<exists>d. naive_smooth dim src dst = Inr d \<and>
    smooth dim src dst = (if 2 \<le> dim then Inr d else Inl OutOfBounds) \<and>
    (\<forall>i\<in>{0..<dim}. \<forall>j\<in>{0..<dim}. d ! nat (i * dim + j) =
       mean (concat (map (\<lambda>ii. map (\<lambda>jj. src ! nat (ii * dim + jj)) [max (j - 1) 0..min (j + 1) (dim - 1)])
         [max (i - 1) 0..min (i + 1) (dim - 1)])))"
proof -
  let ?f = "\<lambda>i j. src ! nat (i * dim + j)"
  have s: "rep dim dim src ?f" and d: "rep dim dim dst (\<lambda>i j. dst ! nat (i * dim + j))"
    using assms by (simp_all add: rep_exists)
  obtain e where e: "naive_smooth dim src dst = Inr e" "rep dim dim e (\<lambda>i j. mean (window dim ?f i j))"
    using naive_smooth_rows [OF s d] assms by (auto elim: returnsE)
  have "(\<lambda>i j. mean (columns ?f (near dim i) (near dim j))) = (\<lambda>i j. mean (window dim ?f i j))"
    by (intro ext mean_mset) (rule mset_window [symmetric])
  then have "smooth dim src dst = Inr e" if "2 \<le> dim"
    using smooth_rows [OF s d _ that] assms rep_unique [OF _ e(2)] by (fastforce elim: returnsE)
  moreover have "smooth dim src dst = Inl OutOfBounds" if "\<not> 2 \<le> dim"
  proof -
    have "dim = 1" using that assms by simp
    moreover from this obtain p q where "src = [p]" "dst = [q]" using assms by (auto simp: length_Suc_conv)
    ultimately show ?thesis using smooth_single by simp
  qed
  ultimately show ?thesis using e by (auto simp: rep_def window_def near_def)
qed

theorem smooth_correct_witness:
  fixes p q :: pixel
  defines "p \<equiv> \<lparr>red = 10, green = 20, blue = 65535\<rparr>" and "q \<equiv> \<lparr>red = 1, green = 0, blue = 65535\<rparr>"
  shows "\<exists>d. smooth 2 [p, q, q, p] [q, q, q, q] = Inr d \<and> d ! 0 = mean [p, q, q, p]"
proof -
  obtain d where d: "smooth 2 [p, q, q, p] [q, q, q, q] = Inr d"
    "\<forall>i\<in>{0..<2}. \<forall>j\<in>{0..<2}. d ! nat (i * 2 + j) =
       mean (concat (map (\<lambda>ii. map (\<lambda>jj. [p, q, q, p] ! nat (ii * 2 + jj)) [max (j - 1) 0..min (j + 1) 1])
         [max (i - 1) 0..min (i + 1) 1]))"
    using smooth_correct [of "[p, q, q, p]" 2 "[q, q, q, q]"] by (auto simp: INT_MAX_def)
  then have "d ! nat (0 * 2 + 0) = mean (concat (map (\<lambda>ii. map (\<lambda>jj. [p, q, q, p] ! nat (ii * 2 + jj))
      [max (0 - 1) 0..min (0 + 1) 1]) [max (0 - 1) 0..min (0 + 1) 1]))"
    using bspec [OF bspec [OF d(2), of 0], of 0] by simp
  then show ?thesis using d(1) by (simp add: upto_rec1)
qed
end
