(* ===== verification/Perf_Driver.thy ===== *)
theory Perf_Driver
  imports Kernels
begin

text \<open>
  The performance lab's driver (\<open>driver.c\<close>): the test images, the checks of a
  kernel's result against the original image, and the registered benchmarks. Cycle
  counts and the table of results are left out.
\<close>

definition MAX_BENCHMARKS :: nat where "MAX_BENCHMARKS = 100"
definition BSIZE :: nat where "BSIZE = 32"
definition MAX_DIM :: nat where "MAX_DIM = 1280"
definition ODD_DIM :: int where "ODD_DIM = 96"

definition test_dim_rotate :: "int list" where "test_dim_rotate = [64, 128, 256, 512, 1024]"
definition test_dim_smooth :: "int list" where "test_dim_smooth = [32, 64, 128, 256, 512]"

type_synonym lab_test_func = "int \<Rightarrow> image \<Rightarrow> image \<Rightarrow> image exec"

record bench_t =
  tfunct :: lab_test_func
  description :: string
  valid :: bool

text \<open>The benchmark arrays hold \<open>MAX_BENCHMARKS\<close> entries; the list has those in use.\<close>

definition add_function :: "lab_test_func \<Rightarrow> string \<Rightarrow> bench_t list \<Rightarrow> bench_t list exec" where
  "add_function f desc bs =
     (if length bs < MAX_BENCHMARKS then Inr (bs @ [\<lparr>tfunct = f, description = desc, valid = False\<rparr>]) else Inl OutOfBounds)"

definition register_rotate_functions :: "bench_t list \<Rightarrow> bench_t list exec" where
  "register_rotate_functions bs =
     sbind (add_function naive_rotate ''naive_rotate: Naive baseline implementation'' bs)
       (add_function rotate_img ''rotate: Current working version'')"

definition register_smooth_functions :: "bench_t list \<Rightarrow> bench_t list exec" where
  "register_smooth_functions bs =
     sbind (add_function smooth ''smooth: Current working version'' bs)
       (add_function naive_smooth ''naive_smooth: Naive baseline implementation'')"

section \<open>Test images\<close>

record images =
  orig :: image
  copy_of_orig :: image
  result :: image

text \<open>\<open>rand n\<close> is the value of the \<open>n\<close>-th call of the library's \<open>rand\<close>, which is never negative.\<close>

definition random_in_interval :: "(nat \<Rightarrow> nat) \<Rightarrow> int \<Rightarrow> int \<Rightarrow> nat \<Rightarrow> int \<times> nat" where
  "random_in_interval rand low high k = (int (rand k) mod (high - low) + low, Suc k)"

text \<open>
  The alignment loop. The cast binds tighter than the addition, so each round
  moves the pointer by a pixel, six bytes. \<open>n\<close> counts the rounds.
\<close>

fun align_orig :: "nat \<Rightarrow> nat \<Rightarrow> nat \<Rightarrow> nat exec" where
  "align_orig fuel a n =
     (if a mod BSIZE = 0 then Inr n
      else case fuel of 0 \<Rightarrow> Inl NoTermination | Suc fuel \<Rightarrow> align_orig fuel ((a + 6) mod 2 ^ 32) (Suc n))"

declare align_orig.simps [simp del]

definition data_len :: nat where "data_len = 3 * MAX_DIM * MAX_DIM + BSIZE div 6"

definition black :: pixel where "black = \<lparr>red = 0, green = 0, blue = 0\<rparr>"

definition fresh_pixel :: "(nat \<Rightarrow> nat) \<Rightarrow> nat \<Rightarrow> pixel \<times> nat" where
  "fresh_pixel rand k =
     (let (r, k) = random_in_interval rand 0 65536 k;
          (g, k) = random_in_interval rand 0 65536 k;
          (b, k) = random_in_interval rand 0 65536 k
      in (\<lparr>red = of_int r, green = of_int g, blue = of_int b\<rparr>, k))"

definition create_cell :: "(nat \<Rightarrow> nat) \<Rightarrow> int \<Rightarrow> int \<Rightarrow> int \<Rightarrow> images \<times> nat \<Rightarrow> (images \<times> nat) exec" where
  "create_cell rand dim i j st = (case st of (im, k) \<Rightarrow>
     let (p, k) = fresh_pixel rand k in
     sbind (set_px dim (orig im) i j p) (\<lambda>og.
     sbind (get_px dim og i j) (\<lambda>q.
     sbind (set_px dim (copy_of_orig im) i j q) (\<lambda>cp.
     sbind (set_px dim (result im) i j black) (\<lambda>rs.
     Inr (\<lparr>orig = og, copy_of_orig = cp, result = rs\<rparr>, k))))))"

text \<open>
  \<open>base\<close> is the address of \<open>data\<close> and \<open>data\<close> its contents; the three images are
  consecutive parts of it from the aligned address on.
\<close>

definition slice :: "image \<Rightarrow> nat \<Rightarrow> nat \<Rightarrow> image" where
  "slice data a n = take n (drop a data)"

definition create :: "(nat \<Rightarrow> nat) \<Rightarrow> nat \<Rightarrow> image \<Rightarrow> int \<Rightarrow> nat \<Rightarrow> (images \<times> nat) exec" where
  "create rand base data dim k =
     sbind (align_orig 32 base 0) (\<lambda>off.
     sbind (imul dim dim) (\<lambda>n.
     let n = nat n in
     if off + 3 * n > length data then Inl OutOfBounds
     else for_up 1 0 dim (\<lambda>i. for_up 1 0 dim (create_cell rand dim i))
       (\<lparr>orig = slice data off n, copy_of_orig = slice data (off + 2 * n) n, result = slice data (off + n) n\<rparr>, k)))"

section \<open>Checks\<close>

definition compare_pixels :: "pixel \<Rightarrow> pixel \<Rightarrow> bool" where
  "compare_pixels p1 p2 \<longleftrightarrow> red p1 \<noteq> red p2 \<or> green p1 \<noteq> green p2 \<or> blue p1 \<noteq> blue p2"

text \<open>The early return of \<open>check_orig\<close> is the state \<open>Some 1\<close>; later rounds of the loops are skipped.\<close>

definition check_orig :: "int \<Rightarrow> images \<Rightarrow> int exec" where
  "check_orig dim im =
     sbind (for_up 1 0 dim (\<lambda>i. for_up 1 0 dim (\<lambda>j ret.
       if ret \<noteq> None then Inr ret
       else sbind (get_px dim (orig im) i j) (\<lambda>p. sbind (get_px dim (copy_of_orig im) i j) (\<lambda>q.
         Inr (if compare_pixels p q then Some 1 else None))))) None)
       (\<lambda>ret. Inr (case ret of Some r \<Rightarrow> r | None \<Rightarrow> 0))"

text \<open>The number of wrong pixels, with the position and the two values of the last one.\<close>

type_synonym report = "int \<times> (int \<times> int \<times> pixel \<times> pixel) option"

definition note_bad :: "int \<Rightarrow> int \<Rightarrow> pixel \<Rightarrow> pixel \<Rightarrow> report \<Rightarrow> report exec" where
  "note_bad i j p q st =
     (if compare_pixels p q then sbind (iadd (fst st) 1) (\<lambda>err. Inr (err, Some (i, j, p, q))) else Inr st)"

definition check_rotate :: "int \<Rightarrow> images \<Rightarrow> report exec" where
  "check_rotate dim im =
     sbind (check_orig dim im) (\<lambda>changed.
     if changed \<noteq> 0 then Inr (1, None)
     else for_up 1 0 dim (\<lambda>i. for_up 1 0 dim (\<lambda>j st.
       sbind (get_px dim (orig im) i j) (\<lambda>p.
       sbind (get_px dim (result im) (dim - 1 - j) i) (\<lambda>q. note_bad i j p q st)))) (0, None))"

definition average_cell :: "int \<Rightarrow> image \<Rightarrow> int \<Rightarrow> int \<Rightarrow> int \<times> int \<times> int \<times> int \<Rightarrow> (int \<times> int \<times> int \<times> int) exec" where
  "average_cell dim src ii jj st = (case st of (num, s0, s1, s2) \<Rightarrow>
     sbind (get_px dim src ii jj) (\<lambda>p.
     Inr (num + 1, s0 + uint (red p), s1 + uint (green p), s2 + uint (blue p))))"

definition check_average :: "int \<Rightarrow> int \<Rightarrow> int \<Rightarrow> image \<Rightarrow> pixel exec" where
  "check_average dim i j src =
     (let top_left_i = max_int (i - 1) 0; top_left_j = max_int (j - 1) 0;
          bottom_right_i = min_int (i + 1) (dim - 1); bottom_right_j = min_int (j + 1) (dim - 1) in
      sbind (for_up 1 top_left_i (bottom_right_i + 1) (\<lambda>ii.
               for_up 1 top_left_j (bottom_right_j + 1) (average_cell dim src ii)) (0, 0, 0, 0))
        (\<lambda>(num, s0, s1, s2).
         Inr \<lparr>red = of_int (s0 div num), green = of_int (s1 div num), blue = of_int (s2 div num)\<rparr>))"

definition check_smooth :: "int \<Rightarrow> images \<Rightarrow> report exec" where
  "check_smooth dim im =
     sbind (check_orig dim im) (\<lambda>changed.
     if changed \<noteq> 0 then Inr (1, None)
     else for_up 1 0 dim (\<lambda>i. for_up 1 0 dim (\<lambda>j st.
       sbind (check_average dim i j (orig im)) (\<lambda>smoothed.
       sbind (get_px dim (result im) i j) (\<lambda>p. note_bad i j p smoothed st)))) (0, None))"

section \<open>Benchmarks\<close>

definition func_wrapper :: "lab_test_func \<Rightarrow> int \<Rightarrow> images \<Rightarrow> images exec" where
  "func_wrapper f mydim im = sbind (f mydim (orig im) (result im)) (\<lambda>dst. Inr (im\<lparr>result := dst\<rparr>))"

definition run_benchmark :: "bench_t list \<Rightarrow> nat \<Rightarrow> int \<Rightarrow> images \<Rightarrow> images exec" where
  "run_benchmark bs idx dim im = sbind (rd bs idx) (\<lambda>b. func_wrapper (tfunct b) dim im)"

definition checked_run :: "(int \<Rightarrow> images \<Rightarrow> report exec) \<Rightarrow> (nat \<Rightarrow> nat) \<Rightarrow> nat \<Rightarrow> image \<Rightarrow> bench_t list \<Rightarrow> nat \<Rightarrow>
    int \<Rightarrow> nat \<Rightarrow> (bool \<times> nat) exec" where
  "checked_run check rand base data bs idx dim k =
     sbind (create rand base data dim k) (\<lambda>(im, k).
     sbind (run_benchmark bs idx dim im) (\<lambda>im.
     sbind (check dim im) (\<lambda>(err, _). Inr (err = 0, k))))"

text \<open>
  The measured calls: \<open>runs\<close> is the number of times \<open>fcyc_v\<close> calls the function.
\<close>

fun measured_runs :: "nat \<Rightarrow> bench_t list \<Rightarrow> nat \<Rightarrow> int \<Rightarrow> images \<Rightarrow> images exec" where
  "measured_runs 0 bs idx dim im = Inr im"
| "measured_runs (Suc n) bs idx dim im = sbind (run_benchmark bs idx dim im) (measured_runs n bs idx dim)"

text \<open>A failed check returns at once with the dimension it failed for.\<close>

fun test_function :: "(int \<Rightarrow> images \<Rightarrow> report exec) \<Rightarrow> (nat \<Rightarrow> nat) \<Rightarrow> nat \<Rightarrow> image \<Rightarrow> (int \<Rightarrow> nat) \<Rightarrow> bench_t list \<Rightarrow> nat \<Rightarrow>
    int list \<Rightarrow> nat \<Rightarrow> (int option \<times> nat) exec" where
  "test_function check rand base data runs bs idx [] k = Inr (None, k)"
| "test_function check rand base data runs bs idx (dim # dims) k =
     sbind (checked_run check rand base data bs idx ODD_DIM k) (\<lambda>(ok, k).
     if \<not> ok then Inr (Some ODD_DIM, k)
     else sbind (checked_run check rand base data bs idx dim k) (\<lambda>(ok, k).
     if \<not> ok then Inr (Some dim, k)
     else sbind (create rand base data dim k) (\<lambda>(im, k).
     sbind (measured_runs (runs dim) bs idx dim im) (\<lambda>im.
     test_function check rand base data runs bs idx dims k))))"

definition test_rotate :: "(nat \<Rightarrow> nat) \<Rightarrow> nat \<Rightarrow> image \<Rightarrow> (int \<Rightarrow> nat) \<Rightarrow> bench_t list \<Rightarrow> nat \<Rightarrow> nat \<Rightarrow> (int option \<times> nat) exec" where
  "test_rotate rand base data runs bs idx k =
     sbind (rd bs idx) (\<lambda>b. test_function check_rotate rand base data runs bs idx test_dim_rotate k)"

definition test_smooth :: "(nat \<Rightarrow> nat) \<Rightarrow> nat \<Rightarrow> image \<Rightarrow> (int \<Rightarrow> nat) \<Rightarrow> bench_t list \<Rightarrow> nat \<Rightarrow> nat \<Rightarrow> (int option \<times> nat) exec" where
  "test_smooth rand base data runs bs idx k =
     sbind (rd bs idx) (\<lambda>b. test_function check_smooth rand base data runs bs idx test_dim_smooth k)"

section \<open>Images as functions\<close>

lemma compare_pixels_iff: "compare_pixels p q \<longleftrightarrow> p \<noteq> q"
  by (auto simp: compare_pixels_def)

text \<open>The cells a square loop has visited before cell \<open>(i, j)\<close>.\<close>

definition before :: "int \<Rightarrow> int \<Rightarrow> int \<Rightarrow> int \<Rightarrow> bool" where
  "before i j i' j' \<longleftrightarrow> i' < i \<or> i' = i \<and> j' < j"

lemma before_step: "before i (j + 1) i' j' \<longleftrightarrow> before i j i' j' \<or> i' = i \<and> j' = j"
  and before_row: "0 \<le> j' \<Longrightarrow> j' < dim \<Longrightarrow> before i dim i' j' \<longleftrightarrow> before (i + 1) 0 i' j'"
  by (auto simp: before_def)

text \<open>A square loop that counts bad cells.\<close>

lemma count_bad:
  assumes body: "\<And>i j s. 0 \<le> i \<Longrightarrow> i < dim \<Longrightarrow> 0 \<le> j \<Longrightarrow> j < dim \<Longrightarrow> body i j s = note_bad i j (f i j) (g i j) s"
    and dim: "dim * dim \<le> INT_MAX" "0 \<le> dim"
  shows "returns (for_up 1 0 dim (\<lambda>i. for_up 1 0 dim (body i)) (0, None))
    (\<lambda>s. fst s = 0 \<longleftrightarrow> (\<forall>i j. 0 \<le> i \<longrightarrow> i < dim \<longrightarrow> 0 \<le> j \<longrightarrow> j < dim \<longrightarrow> f i j = g i j))"
proof -
  define J where "J = (\<lambda>i j (s :: report). 0 \<le> fst s \<and> fst s \<le> i * dim + j \<and>
    (fst s = 0 \<longleftrightarrow> (\<forall>i' j'. 0 \<le> i' \<longrightarrow> 0 \<le> j' \<longrightarrow> j' < dim \<longrightarrow> before i j i' j' \<longrightarrow> f i' j' = g i' j')))"
  have ov: "dim \<le> INT_MAX" using dim_bounds [of dim] dim by simp
  have cell: "returns (body i j s) (J i (j + 1))" if ij: "0 \<le> i" "i < dim" "0 \<le> j" "j < dim" and J: "J i j s" for i j s
  proof -
    have "i * dim + j < dim * dim" using ij index_less by blast
    then have b: "fst s + 1 \<le> INT_MAX" "0 \<le> fst s" using J dim by (auto simp: J_def)
    have step: "(\<forall>i' j'. 0 \<le> i' \<longrightarrow> 0 \<le> j' \<longrightarrow> j' < dim \<longrightarrow> before i (j + 1) i' j' \<longrightarrow> f i' j' = g i' j') \<longleftrightarrow>
      (\<forall>i' j'. 0 \<le> i' \<longrightarrow> 0 \<le> j' \<longrightarrow> j' < dim \<longrightarrow> before i j i' j' \<longrightarrow> f i' j' = g i' j') \<and> f i j = g i j"
      using ij unfolding before_step by blast
    show ?thesis
      using J b ij unfolding body [OF ij] note_bad_def compare_pixels_iff J_def step
      by (cases "f i j = g i j") (auto simp: INT_MAX_def)
  qed
  have row: "returns (for_up 1 0 dim (body i) s) (J (i + 1) 0)" if "0 \<le> i" "i < dim" "J i 0 s" for i s
  proof (rule returns_mono [OF for_up_1 [where I = "J i"]])
    show "returns (body i j s) (J i (j + 1))" if "0 \<le> j" "j < dim" "J i j s" for j s
      by (rule cell) (use that \<open>0 \<le> i\<close> \<open>i < dim\<close> in auto)
    show "J (i + 1) 0 x" if "J i dim x" for x
      using that unfolding J_def by (simp add: before_row distrib_right)
  qed (use that ov dim in auto)
  have "returns (for_up 1 0 dim (\<lambda>i. for_up 1 0 dim (body i)) (0, None)) (J dim 0)"
    by (rule for_up_1 [where I = "\<lambda>i. J i 0"]) (use row ov dim in \<open>auto simp: J_def before_def\<close>)
  then show ?thesis by (rule returns_mono) (auto simp: J_def before_def)
qed

definition unchanged :: "int \<Rightarrow> images \<Rightarrow> bool" where
  "unchanged dim im \<longleftrightarrow> int (length (orig im)) = dim * dim \<and> copy_of_orig im = orig im \<and> int (length (result im)) = dim * dim"

abbreviation px :: "int \<Rightarrow> image \<Rightarrow> int \<Rightarrow> int \<Rightarrow> pixel" where
  "px dim X \<equiv> \<lambda>i j. X ! nat (i * dim + j)"

lemma unchanged_rep:
  assumes "unchanged dim im"
  shows "rep dim dim (orig im) (px dim (orig im))" "rep dim dim (copy_of_orig im) (px dim (orig im))"
    "rep dim dim (result im) (px dim (result im))"
  using assms by (simp_all add: unchanged_def rep_def)

lemma check_orig_unchanged:
  assumes "unchanged dim im" "dim * dim \<le> INT_MAX" "0 \<le> dim"
  shows "check_orig dim im = Inr 0"
proof -
  have ov: "dim \<le> INT_MAX" using dim_bounds [of dim] assms by simp
  let ?body = "\<lambda>i j ret. if ret \<noteq> None then Inr ret else sbind (get_px dim (orig im) i j) (\<lambda>p.
    sbind (get_px dim (copy_of_orig im) i j) (\<lambda>q. Inr (if compare_pixels p q then Some (1 :: int) else None)))"
  have "returns (for_up 1 0 dim (?body i) None) (\<lambda>r. r = None)" if "0 \<le> i" "i < dim" for i
    by (rule for_up_1 [where I = "\<lambda>_ r. r = None"])
      (use that assms ov unchanged_rep [OF assms(1)] in \<open>auto simp: get_px_rep compare_pixels_iff\<close>)
  then have "returns (for_up 1 0 dim (\<lambda>i. for_up 1 0 dim (?body i)) None) (\<lambda>r. r = None)"
    by - (rule for_up_1 [where I = "\<lambda>_ r. r = None"], use assms ov in auto)
  then show ?thesis unfolding check_orig_def by (auto elim!: returnsE)
qed

lemma check_rotate_iff:
  assumes "unchanged dim im" "dim * dim \<le> INT_MAX" "0 \<le> dim"
  shows "returns (check_rotate dim im) (\<lambda>s. fst s = 0 \<longleftrightarrow>
    (\<forall>i j. 0 \<le> i \<longrightarrow> i < dim \<longrightarrow> 0 \<le> j \<longrightarrow> j < dim \<longrightarrow> px dim (orig im) i j = px dim (result im) (dim - 1 - j) i))"
  unfolding check_rotate_def check_orig_unchanged [OF assms] sbind_simps if_False not_False_eq_True simp_thms
  by (rule count_bad) (use assms unchanged_rep [OF assms(1)] in \<open>auto simp: get_px_rep\<close>)

lemma average_fold:
  "fold (\<lambda>p (num, s0, s1, s2). (num + 1, s0 + uint (red p), s1 + uint (green p), s2 + uint (blue p))) ps
     (s_num s, s_red s, s_green s, s_blue s) =
   (let t = fold (\<lambda>p s. accumulate_sum s p) ps s in (s_num t, s_red t, s_green t, s_blue t))"
proof (induction ps arbitrary: s)
  case (Cons p ps)
  show ?case using Cons.IH [of "accumulate_sum s p"] by (simp add: accumulate_sum_def)
qed simp

lemma check_average_window:
  assumes "rep dim dim src f" "dim * dim \<le> INT_MAX" "0 \<le> i" "i < dim" "0 \<le> j" "j < dim"
  shows "check_average dim i j src = Inr (mean (window dim f i j))"
proof -
  let ?g = "\<lambda>p (num, s0, s1, s2). (num + 1, s0 + uint (red p), s1 + uint (green p), s2 + uint (blue p))"
  have ov: "dim \<le> INT_MAX" using dim_bounds [of dim] assms by simp
  have mm: "max_int = max" "min_int = min" by (auto simp: fun_eq_iff max_int_def min_int_def)
  have inner: "for_up 1 (max (j - 1) 0) (min (j + 1) (dim - 1) + 1) (average_cell dim src ii) s =
    Inr (fold (\<lambda>jj. ?g (f ii jj)) (near dim j) s)" if "0 \<le> ii" "ii < dim" for ii s
    by (subst for_up_fold [where g = "\<lambda>jj. ?g (f ii jj)"])
      (use assms that ov in \<open>auto simp: get_px_rep near_def average_cell_def split: prod.splits\<close>)
  have "for_up 1 (max (i - 1) 0) (min (i + 1) (dim - 1) + 1)
      (\<lambda>ii. for_up 1 (max (j - 1) 0) (min (j + 1) (dim - 1) + 1) (average_cell dim src ii)) (0, 0, 0, 0) =
    Inr (fold (\<lambda>ii. fold (\<lambda>jj. ?g (f ii jj)) (near dim j)) (near dim i) (0, 0, 0, 0))"
    by (subst for_up_fold [where g = "\<lambda>ii. fold (\<lambda>jj. ?g (f ii jj)) (near dim j)"])
      (use assms ov in \<open>auto simp: inner near_def [of dim i]\<close>)
  also have "\<dots> = Inr (fold ?g (window dim f i j) (0, 0, 0, 0))"
    using fold_nested [of ?g f] by (simp add: window_def)
  also have "\<dots> = Inr (let t = fold (\<lambda>p s. accumulate_sum s p) (window dim f i j) initialize_pixel_sum in
      (s_num t, s_red t, s_green t, s_blue t))"
    using average_fold [of "window dim f i j" initialize_pixel_sum] by (simp add: initialize_pixel_sum_def)
  finally show ?thesis
    unfolding check_average_def mm naive_mean [symmetric] by (simp add: assign_sum_to_pixel_def Let_def)
qed

lemma check_smooth_iff:
  assumes "unchanged dim im" "dim * dim \<le> INT_MAX" "0 \<le> dim"
  shows "returns (check_smooth dim im) (\<lambda>s. fst s = 0 \<longleftrightarrow>
    (\<forall>i j. 0 \<le> i \<longrightarrow> i < dim \<longrightarrow> 0 \<le> j \<longrightarrow> j < dim \<longrightarrow>
       px dim (result im) i j = mean (window dim (px dim (orig im)) i j)))"
  unfolding check_smooth_def check_orig_unchanged [OF assms] sbind_simps if_False not_False_eq_True simp_thms
  by (rule count_bad)
    (use assms unchanged_rep [OF assms(1)] in \<open>auto simp: get_px_rep check_average_window [OF unchanged_rep(1)]\<close>)

section \<open>Creating images\<close>

lemma align_orig_mod: "align_orig fuel a n = align_orig fuel (a mod BSIZE) n"
proof (induction fuel arbitrary: a n)
  case (Suc fuel)
  have "((a mod BSIZE + 6) mod 2 ^ 32) mod BSIZE = ((a + 6) mod 2 ^ 32) mod BSIZE"
    by (simp add: BSIZE_def mod_mod_cancel mod_add_left_eq)
  then have "align_orig fuel ((a mod BSIZE + 6) mod 2 ^ 32) (Suc n) = align_orig fuel ((a + 6) mod 2 ^ 32) (Suc n)"
    using Suc.IH [of "(a mod BSIZE + 6) mod 2 ^ 32" "Suc n"] Suc.IH [of "(a + 6) mod 2 ^ 32" "Suc n"] by simp
  then show ?case by (subst (1 2) align_orig.simps) simp
qed (simp add: align_orig.simps)

lemma align_numeral:
  "align_orig (numeral f) a n =
     (if a mod 32 = 0 then Inr n else align_orig (pred_numeral f) ((a + 6) mod 4294967296) (Suc n))"
  by (subst align_orig.simps) (simp add: BSIZE_def)

lemma align_residues:
    "align_orig 32 0 0 = Inr 0" "align_orig 32 2 0 = Inr 5" "align_orig 32 4 0 = Inr 10"
    "align_orig 32 6 0 = Inr 15" "align_orig 32 8 0 = Inr 4" "align_orig 32 10 0 = Inr 9"
    "align_orig 32 12 0 = Inr 14" "align_orig 32 14 0 = Inr 3" "align_orig 32 16 0 = Inr 8"
    "align_orig 32 18 0 = Inr 13" "align_orig 32 20 0 = Inr 2" "align_orig 32 22 0 = Inr 7"
    "align_orig 32 24 0 = Inr 12" "align_orig 32 26 0 = Inr 1" "align_orig 32 28 0 = Inr 6"
    "align_orig 32 30 0 = Inr 11"
  by (simp_all add: align_numeral)

lemma align_orig_even: "even a \<Longrightarrow> \<exists>n\<le>15. align_orig 32 a 0 = Inr n"
proof -
  assume "even a"
  then have "even (a mod BSIZE)" "a mod BSIZE < 32" by (simp_all add: BSIZE_def dvd_mod_iff)
  then obtain k where k: "a mod BSIZE = 2 * k" "k < 16" by (auto elim!: evenE)
  from k(2) have "k \<in> set [0, 1, 2, 3, 4, 5, 6, 7, 8, 9, 10, 11, 12, 13, 14, 15]" by simp presburger
  then have "\<exists>n\<le>15. align_orig 32 (2 * k) 0 = Inr n" by (auto simp: align_residues)
  then show ?thesis using k(1) by (subst align_orig_mod) simp
qed

definition starts :: "int \<Rightarrow> images \<times> nat \<Rightarrow> bool" where
  "starts dim r \<longleftrightarrow> unchanged dim (fst r) \<and> result (fst r) = replicate (nat (dim * dim)) black"

lemma create_cell_rep:
  assumes "rep dim dim (orig im) f" "rep dim dim (copy_of_orig im) g" "rep dim dim (result im) h"
    and "dim * dim \<le> INT_MAX" "0 \<le> i" "i < dim" "0 \<le> j" "j < dim"
  shows "returns (create_cell rand dim i j (im, k)) (\<lambda>(im', k'). \<exists>p. rep dim dim (orig im') (upd2 f i j p) \<and>
    rep dim dim (copy_of_orig im') (upd2 g i j p) \<and> rep dim dim (result im') (upd2 h i j black))"
proof -
  obtain p k' where p: "fresh_pixel rand k = (p, k')" by fastforce
  obtain og where og: "set_px dim (orig im) i j p = Inr og" "rep dim dim og (upd2 f i j p)"
    using set_px_rep [OF assms(1,4-8)] by (auto elim: returnsE)
  obtain cp where cp: "set_px dim (copy_of_orig im) i j p = Inr cp" "rep dim dim cp (upd2 g i j p)"
    using set_px_rep [OF assms(2,4-8)] by (auto elim: returnsE)
  obtain rs where rs: "set_px dim (result im) i j black = Inr rs" "rep dim dim rs (upd2 h i j black)"
    using set_px_rep [OF assms(3,4-8)] by (auto elim: returnsE)
  have "get_px dim og i j = Inr p" using get_px_rep [OF og(2) assms(4-8)] by (simp add: upd2_def)
  then show ?thesis using og cp rs by (auto simp: create_cell_def p)
qed

lemma create_ok:
  assumes base: "even base" and data: "length data = data_len" and dim: "0 \<le> dim" "dim \<le> 1024"
  shows "returns (create rand base data dim k) (starts dim)"
proof -
  obtain off where off: "off \<le> 15" "align_orig 32 base 0 = Inr off" using align_orig_even [OF base] by blast
  have sq: "dim * dim \<le> 1048576" using mult_mono [of dim 1024 dim 1024] dim by simp
  then have sqI: "dim * dim \<le> INT_MAX" "dim \<le> INT_MAX" using dim by (simp_all add: INT_MAX_def)
  define n where "n = nat (dim * dim)"
  have n: "int n = dim * dim" "n \<le> 1048576" using dim sq by (simp_all add: n_def)
  have fits: "off + 3 * n \<le> length data" using off(1) n(2) by (simp add: data data_len_def MAX_DIM_def BSIZE_def)
  let ?im = "\<lparr>orig = slice data off n, copy_of_orig = slice data (off + 2 * n) n, result = slice data (off + n) n\<rparr>"
  have sqm: "imul dim dim = Inr (dim * dim)" 
    using sqI(1) zero_le_square [of dim] INT_MAX_pos by (intro imul_simp) linarith+
  have run: "create rand base data dim k = for_up 1 0 dim (\<lambda>i. for_up 1 0 dim (create_cell rand dim i)) (?im, k)"
    using fits by (simp add: create_def n_def Let_def off(2) sqm)
  define J where "J = (\<lambda>i j (st :: images \<times> nat). \<exists>f g h. rep dim dim (orig (fst st)) f \<and> rep dim dim (copy_of_orig (fst st)) g \<and>
    rep dim dim (result (fst st)) h \<and> (\<forall>i' j'. 0 \<le> i' \<longrightarrow> 0 \<le> j' \<longrightarrow> j' < dim \<longrightarrow> before i j i' j' \<longrightarrow> f i' j' = g i' j' \<and> h i' j' = black))"
  have cell: "returns (create_cell rand dim i j st) (J i (j + 1))"
    if ij: "0 \<le> i" "i < dim" "0 \<le> j" "j < dim" and J: "J i j st" for i j st
  proof -
    obtain f g h where r: "rep dim dim (orig (fst st)) f" "rep dim dim (copy_of_orig (fst st)) g" "rep dim dim (result (fst st)) h"
      and eq: "\<And>i' j'. 0 \<le> i' \<Longrightarrow> 0 \<le> j' \<Longrightarrow> j' < dim \<Longrightarrow> before i j i' j' \<Longrightarrow> f i' j' = g i' j' \<and> h i' j' = black"
      using J unfolding J_def by blast
    have "J i (j + 1) st'" if "rep dim dim (orig (fst st')) (upd2 f i j p)" "rep dim dim (copy_of_orig (fst st')) (upd2 g i j p)"
      "rep dim dim (result (fst st')) (upd2 h i j black)" for st' p
      unfolding J_def by (intro exI conjI, rule that(1), rule that(2), rule that(3)) (use eq in \<open>auto simp: upd2_def before_step\<close>)
    then show ?thesis
      using returns_mono [OF create_cell_rep [OF r sqI(1) ij, of rand "snd st"]] by (simp add: case_prod_beta) blast
  qed
  have row: "returns (for_up 1 0 dim (create_cell rand dim i) s) (J (i + 1) 0)" if "0 \<le> i" "i < dim" "J i 0 s" for i s
  proof (rule returns_mono [OF for_up_1 [where I = "J i"]])
    show "returns (create_cell rand dim i j s) (J i (j + 1))" if "0 \<le> j" "j < dim" "J i j s" for j s
      by (rule cell) (use that \<open>0 \<le> i\<close> \<open>i < dim\<close> in auto)
    show "J (i + 1) 0 x" if "J i dim x" for x
      using that unfolding J_def by (elim exE conjE) (intro exI conjI, assumption+, simp add: before_row)
  qed (use that sqI dim in auto)
  have sl: "rep dim dim (slice data a n) (px dim (slice data a n))" if "a + n \<le> length data" for a
    by (rule rep_exists) (use that n in \<open>simp add: slice_def\<close>)
  have "J 0 0 (?im, k)"
    unfolding J_def fst_conv images.simps
    by (intro exI conjI, (rule sl, use fits in linarith)+) (simp add: before_def)
  then have "returns (for_up 1 0 dim (\<lambda>i. for_up 1 0 dim (create_cell rand dim i)) (?im, k)) (J dim 0)"
    by - (rule for_up_1 [where I = "\<lambda>i. J i 0"], use row sqI dim in auto)
  then show ?thesis unfolding run
  proof (rule returns_mono)
    fix st assume "J dim 0 st"
    then obtain f g h where r: "rep dim dim (orig (fst st)) f" "rep dim dim (copy_of_orig (fst st)) g" "rep dim dim (result (fst st)) h"
      and eq: "\<And>i j. 0 \<le> i \<Longrightarrow> 0 \<le> j \<Longrightarrow> j < dim \<Longrightarrow> i < dim \<Longrightarrow> f i j = g i j \<and> h i j = black"
      unfolding J_def before_def by blast
    have "rep dim dim (copy_of_orig (fst st)) f" by (rule rep_cong [OF r(2)]) (use eq in auto)
    then have "copy_of_orig (fst st) = orig (fst st)" using rep_unique [OF _ r(1)] dim by blast
    moreover have "rep dim dim (result (fst st)) (\<lambda>_ _. black)" by (rule rep_cong [OF r(3)]) (use eq in auto)
    moreover have "rep dim dim (replicate n black) (\<lambda>_ _. black)"
      unfolding rep_def using n dim by (auto simp: nat_less_iff index_less intro!: nth_replicate)
    ultimately have "copy_of_orig (fst st) = orig (fst st)" "result (fst st) = replicate n black"
      using rep_unique dim by blast+
    then show "starts dim st" using r(1,3) by (simp add: starts_def unchanged_def rep_def n_def)
  qed
qed

section \<open>The kernels pass\<close>

text \<open>A kernel that, on every image of the dimension, leaves a result the check accepts.\<close>

definition passes :: "(int \<Rightarrow> images \<Rightarrow> report exec) \<Rightarrow> lab_test_func \<Rightarrow> int \<Rightarrow> bool" where
  "passes check f dim \<longleftrightarrow> 0 \<le> dim \<and> dim \<le> 1024 \<and> (\<forall>im. unchanged dim im \<longrightarrow>
     returns (func_wrapper f dim im) (\<lambda>im'. unchanged dim im' \<and> returns (check dim im') (\<lambda>s. fst s = 0)))"

lemma passesI:
  assumes dim: "0 \<le> dim" "dim \<le> 1024"
    and f: "\<And>src dst. int (length src) = dim * dim \<Longrightarrow> int (length dst) = dim * dim \<Longrightarrow>
      returns (f dim src dst) (\<lambda>d. rep dim dim d (G (px dim src)))"
    and check: "\<And>im. unchanged dim im \<Longrightarrow> rep dim dim (result im) (G (px dim (orig im))) \<Longrightarrow> returns (check dim im) (\<lambda>s. fst s = 0)"
  shows "passes check f dim"
  unfolding passes_def
proof (intro conjI allI impI)
  fix im assume im: "unchanged dim im"
  then obtain d where d: "f dim (orig im) (result im) = Inr d" "rep dim dim d (G (px dim (orig im)))"
    using f [of "orig im" "result im"] by (auto simp: unchanged_def elim: returnsE)
  then have "unchanged dim (im\<lparr>result := d\<rparr>)" using im by (simp add: unchanged_def rep_def)
  then show "returns (func_wrapper f dim im) (\<lambda>im'. unchanged dim im' \<and> returns (check dim im') (\<lambda>s. fst s = 0))"
    using check [of "im\<lparr>result := d\<rparr>"] d by (simp add: func_wrapper_def)
qed (rule dim)+

lemma small_square: "0 \<le> dim \<Longrightarrow> dim \<le> 1024 \<Longrightarrow> dim * dim \<le> INT_MAX" for dim :: int
  using mult_mono [of dim 1024 dim 1024] by (simp add: INT_MAX_def)

lemma rotate_passes:
  assumes "0 \<le> dim" "dim \<le> 1024"
  shows "passes check_rotate naive_rotate dim" "8 dvd dim \<Longrightarrow> passes check_rotate rotate_img dim"
proof -
  note sq = small_square [OF assms]
  let ?G = "\<lambda>f r k. f k (dim - 1 - r)"
  have chk: "returns (check_rotate dim im) (\<lambda>s. fst s = 0)"
    if "unchanged dim im" "rep dim dim (result im) (?G (px dim (orig im)))" for im
    by (rule returns_mono [OF check_rotate_iff [OF that(1) sq assms(1)]]) (use that(2) in \<open>auto simp: rep_def\<close>)
  have im: "rep dim dim X (px dim X)" if "int (length X) = dim * dim" for X using that by (rule rep_exists)
  show "passes check_rotate naive_rotate dim"
    by (rule passesI [where G = ?G]) (use naive_rotate_rep [OF im im sq assms(1)] chk assms in auto)
  show "passes check_rotate rotate_img dim" if "8 dvd dim"
    by (rule passesI [where G = ?G]) (use rotate_rep [OF im im sq assms(1) that] chk assms in auto)
qed

lemma smooth_passes:
  assumes "2 \<le> dim" "dim \<le> 1024"
  shows "passes check_smooth naive_smooth dim" "passes check_smooth smooth dim"
proof -
  have dim: "0 \<le> dim" using assms by simp
  note sq = small_square [OF dim assms(2)]
  let ?G = "\<lambda>f i j. mean (window dim f i j)"
  have chk: "returns (check_smooth dim im) (\<lambda>s. fst s = 0)"
    if "unchanged dim im" "rep dim dim (result im) (?G (px dim (orig im)))" for im
    by (rule returns_mono [OF check_smooth_iff [OF that(1) sq dim]]) (use that(2) in \<open>auto simp: rep_def\<close>)
  have im: "rep dim dim X (px dim X)" if "int (length X) = dim * dim" for X using that by (rule rep_exists)
  have G: "(\<lambda>i j. mean (columns f (near dim i) (near dim j))) = ?G f" for f
    by (intro ext mean_mset) (rule mset_window [symmetric])
  show "passes check_smooth naive_smooth dim"
    by (rule passesI [where G = ?G]) (use naive_smooth_rows [OF im im sq dim] chk dim assms in auto)
  show "passes check_smooth smooth dim"
    by (rule passesI [where G = ?G]) (use smooth_rows [OF im im sq assms(1)] G chk dim assms in auto)
qed

lemma checked_run_passes:
  assumes "even base" "length data = data_len" "idx < length bs" "passes check (tfunct (bs ! idx)) dim"
  shows "\<exists>k'. checked_run check rand base data bs idx dim k = Inr (True, k')"
proof -
  obtain im k' where c: "create rand base data dim k = Inr (im, k')" "unchanged dim im"
    using create_ok [OF assms(1,2), of dim rand k] assms(4) by (auto simp: passes_def starts_def elim!: returnsE)
  then obtain im' s where "func_wrapper (tfunct (bs ! idx)) dim im = Inr im'" "check dim im' = Inr s" "fst s = 0"
    using assms(4) unfolding passes_def returns_def by blast
  then show ?thesis using c(1) assms(3) by (auto simp: checked_run_def run_benchmark_def case_prod_beta)
qed

lemma measured_runs_return:
  assumes "idx < length bs" "passes check (tfunct (bs ! idx)) dim" "unchanged dim im"
  shows "\<exists>im'. measured_runs n bs idx dim im = Inr im'"
  using assms(3)
proof (induction n arbitrary: im)
  case (Suc n)
  obtain im1 where "func_wrapper (tfunct (bs ! idx)) dim im = Inr im1" "unchanged dim im1"
    using assms(2) Suc.prems by (auto simp: passes_def returns_def)
  then show ?case using Suc.IH assms(1) by (simp add: run_benchmark_def)
qed simp

lemma test_function_passes:
  assumes "even base" "length data = data_len" "idx < length bs"
    and "\<forall>dim\<in>insert ODD_DIM (set dims). passes check (tfunct (bs ! idx)) dim"
  shows "\<exists>k'. test_function check rand base data runs bs idx dims k = Inr (None, k')"
  using assms(4)
proof (induction dims arbitrary: k)
  case (Cons dim dims)
  obtain k1 where k1: "checked_run check rand base data bs idx ODD_DIM k = Inr (True, k1)"
    using checked_run_passes [OF assms(1-3)] Cons.prems by blast
  obtain k2 where k2: "checked_run check rand base data bs idx dim k1 = Inr (True, k2)"
    using checked_run_passes [OF assms(1-3), of check dim] Cons.prems by (meson insertI1 insertI2 list.set_intros(1))
  have p: "passes check (tfunct (bs ! idx)) dim" using Cons.prems by simp
  obtain im k3 where k3: "create rand base data dim k2 = Inr (im, k3)" "unchanged dim im"
    using create_ok [OF assms(1,2), of dim rand k2] p by (auto simp: passes_def starts_def elim!: returnsE)
  obtain im' where "measured_runs (runs dim) bs idx dim im = Inr im'"
    using measured_runs_return [OF assms(3) p k3(2)] by blast
  then show ?case using k1 k2 k3(1) Cons.IH [of k3] Cons.prems by simp
qed simp

text \<open>
  C19. The driver accepts the registered kernels: whatever the random colours and
  wherever \<open>data\<close> lies (at an even address), all four tests create their images
  inside \<open>data\<close> and pass every check, for each of their dimensions.
\<close>

theorem perf_driver_accepts_kernels:
  assumes "even base" "length data = data_len" "idx < 2"
  shows "\<exists>rs ss k' k''. register_rotate_functions [] = Inr rs \<and> register_smooth_functions [] = Inr ss \<and>
    test_rotate rand base data runs rs idx k = Inr (None, k') \<and> test_smooth rand base data runs ss idx k = Inr (None, k'')"
proof -
  obtain rs ss where reg: "register_rotate_functions [] = Inr rs" "register_smooth_functions [] = Inr ss"
    and rs: "length rs = 2" "tfunct (rs ! 0) = naive_rotate" "tfunct (rs ! 1) = rotate_img"
    and ss: "length ss = 2" "tfunct (ss ! 0) = smooth" "tfunct (ss ! 1) = naive_smooth"
    by (simp add: register_rotate_functions_def register_smooth_functions_def add_function_def MAX_BENCHMARKS_def)
  have idx: "idx = 0 \<or> idx = 1" using assms(3) by auto
  have "\<forall>dim\<in>insert ODD_DIM (set test_dim_rotate). passes check_rotate (tfunct (rs ! idx)) dim"
    using idx rs rotate_passes by (auto simp: ODD_DIM_def test_dim_rotate_def)
  moreover have "\<forall>dim\<in>insert ODD_DIM (set test_dim_smooth). passes check_smooth (tfunct (ss ! idx)) dim"
    using idx ss smooth_passes by (auto simp: ODD_DIM_def test_dim_smooth_def)
  ultimately show ?thesis
    using test_function_passes [OF assms(1,2)] reg rs(1) ss(1) assms(3) unfolding test_rotate_def test_smooth_def by simp
qed

theorem perf_driver_accepts_kernels_witness:
  "\<exists>rs ss k' k''. register_rotate_functions [] = Inr rs \<and> register_smooth_functions [] = Inr ss \<and>
    test_rotate (\<lambda>n. n * n) 134520866 (replicate data_len black) (\<lambda>_. 3) rs 1 0 = Inr (None, k') \<and>
    test_smooth (\<lambda>n. n * n) 134520866 (replicate data_len black) (\<lambda>_. 3) ss 1 0 = Inr (None, k'')"
  by (rule perf_driver_accepts_kernels) simp_all

text \<open>
  The checks are exact: on an image that still equals its copy, the number of
  errors is zero for the rotated and for the smoothed image, and for no other.
\<close>

theorem perf_checks_exact:
  assumes "unchanged dim im" "0 \<le> dim" "dim \<le> 1024"
  shows "\<exists>r s. check_rotate dim im = Inr r \<and> check_smooth dim im = Inr s \<and>
    (fst r = 0 \<longleftrightarrow> naive_rotate dim (orig im) (result im) = Inr (result im)) \<and>
    (fst s = 0 \<longleftrightarrow> naive_smooth dim (orig im) (result im) = Inr (result im))"
proof -
  note sq = small_square [OF assms(2,3)] and im = unchanged_rep [OF assms(1)]
  have eq: "X = Y \<longleftrightarrow> (\<forall>i j. 0 \<le> i \<longrightarrow> i < dim \<longrightarrow> 0 \<le> j \<longrightarrow> j < dim \<longrightarrow> g i j = px dim Y i j)"
    if "rep dim dim X g" "rep dim dim Y (px dim Y)" for X Y and g :: "int \<Rightarrow> int \<Rightarrow> pixel"
    using that rep_unique [OF that(1), of Y] rep_cong [OF that(2), of g] assms(2) by (auto simp: rep_def)
  obtain X where X: "naive_rotate dim (orig im) (result im) = Inr X" "rep dim dim X (\<lambda>r k. px dim (orig im) k (dim - 1 - r))"
    using naive_rotate_rep [OF im(1,3) sq assms(2)] by (auto elim: returnsE)
  obtain Y where Y: "naive_smooth dim (orig im) (result im) = Inr Y" "rep dim dim Y (\<lambda>i j. mean (window dim (px dim (orig im)) i j))"
    using naive_smooth_rows [OF im(1,3) sq assms(2)] by (auto elim: returnsE)
  obtain r where r: "check_rotate dim im = Inr r" "fst r = 0 \<longleftrightarrow>
    (\<forall>i j. 0 \<le> i \<longrightarrow> i < dim \<longrightarrow> 0 \<le> j \<longrightarrow> j < dim \<longrightarrow> px dim (orig im) i j = px dim (result im) (dim - 1 - j) i)"
    using check_rotate_iff [OF assms(1) sq assms(2)] by (rule returnsE)
  obtain s where s: "check_smooth dim im = Inr s" "fst s = 0 \<longleftrightarrow>
    (\<forall>i j. 0 \<le> i \<longrightarrow> i < dim \<longrightarrow> 0 \<le> j \<longrightarrow> j < dim \<longrightarrow> px dim (result im) i j = mean (window dim (px dim (orig im)) i j))"
    using check_smooth_iff [OF assms(1) sq assms(2)] by (rule returnsE)
  have turn: "(\<forall>i j. 0 \<le> i \<longrightarrow> i < dim \<longrightarrow> 0 \<le> j \<longrightarrow> j < dim \<longrightarrow> Q i j) \<longleftrightarrow>
    (\<forall>i j. 0 \<le> i \<longrightarrow> i < dim \<longrightarrow> 0 \<le> j \<longrightarrow> j < dim \<longrightarrow> Q j (dim - 1 - i))" for Q
  proof (intro iffI allI impI)
    fix i j assume "\<forall>i j. 0 \<le> i \<longrightarrow> i < dim \<longrightarrow> 0 \<le> j \<longrightarrow> j < dim \<longrightarrow> Q j (dim - 1 - i)" "0 \<le> i" "i < dim" "0 \<le> j" "j < dim"
    moreover have "0 \<le> dim - 1 - j" "dim - 1 - j < dim" using \<open>0 \<le> j\<close> \<open>j < dim\<close> by auto
    ultimately have "Q i (dim - 1 - (dim - 1 - j))" by blast
    then show "Q i j" by simp
  qed force
  have "fst r = 0 \<longleftrightarrow> X = result im"
    unfolding r(2) eq [OF X(2) im(3)] by (subst turn) simp
  moreover have "fst s = 0 \<longleftrightarrow> Y = result im" unfolding s(2) eq [OF Y(2) im(3)] by metis
  ultimately show ?thesis using r(1) s(1) X(1) Y(1) by auto
qed

theorem perf_checks_exact_witness:
  "\<exists>r s. check_rotate 1 \<lparr>orig = [black], copy_of_orig = [black], result = [black\<lparr>red := 7\<rparr>]\<rparr> = Inr r \<and>
    check_smooth 1 \<lparr>orig = [black], copy_of_orig = [black], result = [black\<lparr>red := 7\<rparr>]\<rparr> = Inr s \<and>
    (fst r = 0 \<longleftrightarrow> naive_rotate 1 [black] [black\<lparr>red := 7\<rparr>] = Inr [black\<lparr>red := 7\<rparr>]) \<and>
    (fst s = 0 \<longleftrightarrow> naive_smooth 1 [black] [black\<lparr>red := 7\<rparr>] = Inr [black\<lparr>red := 7\<rparr>])"
  using perf_checks_exact [of 1 "\<lparr>orig = [black], copy_of_orig = [black], result = [black\<lparr>red := 7\<rparr>]\<rparr>"]
  by (simp add: unchanged_def)

end
