(* ===== verification/Mdriver.thy ===== *)
theory Mdriver
  imports Mm_Correct Loops
begin

text \<open>
  The malloc lab's driver (\<open>mdriver.c\<close>) on the allocator: the list of payload
  ranges, and the evaluation of a trace for correctness and for utilisation.
  The driver's own records (from the library's \<open>malloc\<close>) are lists; messages
  are values.
\<close>

datatype op_type = ALLOC | FREE | REALLOC

record traceop_t =
  op_type :: op_type
  op_index :: int
  op_size :: int

datatype trace_error =
  InitFailed | MallocFailed | ReallocFailed | Misaligned | OutsideHeap | Overlaps | NotPreserved

text \<open>An entry of the arrays that has not been written yet is \<open>None\<close>.\<close>

record driver =
  d_heap :: mm_state
  d_ranges :: "(nat \<times> nat) list"
  d_blocks :: "nat option list"
  d_sizes :: "nat option list"
  d_errors :: "(nat \<times> trace_error) list"

definition DRIVER_ALIGNMENT :: nat where "DRIVER_ALIGNMENT = 8"

definition IS_ALIGNED :: "nat \<Rightarrow> bool" where
  "IS_ALIGNED p \<longleftrightarrow> p mod DRIVER_ALIGNMENT = 0"

definition malloc_error :: "nat \<Rightarrow> trace_error \<Rightarrow> driver \<Rightarrow> driver" where
  "malloc_error opnum e d = d\<lparr>d_errors := d_errors d @ [(opnum, e)]\<rparr>"

section \<open>Ranges\<close>

definition overlaps :: "nat \<Rightarrow> nat \<Rightarrow> nat \<times> nat \<Rightarrow> bool" where
  "overlaps lo hi p \<longleftrightarrow> lo \<ge> fst p \<and> lo \<le> snd p \<or> hi \<ge> fst p \<and> hi \<le> snd p"

definition add_range :: "nat \<Rightarrow> int \<Rightarrow> nat \<Rightarrow> driver \<Rightarrow> (bool \<times> driver) exec" where
  "add_range lo sz opnum d =
     (let hi = lo + nat sz - 1; h = d_heap d in
      if \<not> sz > 0 then Inl AssertFailed
      else if \<not> IS_ALIGNED lo then Inr (False, malloc_error opnum Misaligned d)
      else if lo < mem_heap_lo h \<or> lo > mem_heap_hi h \<or> hi < mem_heap_lo h \<or> hi > mem_heap_hi h
        then Inr (False, malloc_error opnum OutsideHeap d)
      else if list_ex (overlaps lo hi) (d_ranges d) then Inr (False, malloc_error opnum Overlaps d)
      else Inr (True, d\<lparr>d_ranges := (lo, hi) # d_ranges d\<rparr>))"

fun remove_range :: "(nat \<times> nat) list \<Rightarrow> nat \<Rightarrow> (nat \<times> nat) list" where
  "remove_range [] lo = []"
| "remove_range (p # ps) lo = (if fst p = lo then ps else p # remove_range ps lo)"

definition clear_ranges :: "driver \<Rightarrow> driver" where
  "clear_ranges d = d\<lparr>d_ranges := []\<rparr>"

section \<open>Bytes of the heap\<close>

text \<open>
  A word holds its four bytes in memory order from the low end. \<open>memset\<close> from a
  word-aligned address sets whole words and then the low bytes of the last word.
  A \<open>char\<close> is signed.
\<close>

definition byte_word :: "uint32 \<Rightarrow> uint32" where
  "byte_word v = v * 0x01010101"

definition mm_memset :: "nat \<Rightarrow> uint32 \<Rightarrow> nat \<Rightarrow> mm_state \<Rightarrow> mm_state" where
  "mm_memset p v n s = s\<lparr>mem := (\<lambda>a. if p \<le> a \<and> a < p + n \<and> 4 dvd a - p
     then (byte_word v AND mask (8 * (p + n - a))) OR (mem s a AND NOT (mask (8 * (p + n - a))))
     else mem s a)\<rparr>"

definition char_at :: "mm_state \<Rightarrow> nat \<Rightarrow> int" where
  "char_at s a = sint (ucast (drop_bit (8 * (a mod 4)) (mem s (a - a mod 4))) :: 8 word)"

section \<open>Evaluating a trace\<close>

definition rd_init :: "'a option list \<Rightarrow> int \<Rightarrow> 'a exec" where
  "rd_init xs i = sbind (rdi xs i) (\<lambda>v. case v of None \<Rightarrow> Inl Uninitialised | Some x \<Rightarrow> Inr x)"

definition remember :: "int \<Rightarrow> nat \<Rightarrow> int \<Rightarrow> driver \<Rightarrow> driver exec" where
  "remember index p sz d =
     sbind (wri (d_blocks d) index (Some p)) (\<lambda>bs.
     sbind (wri (d_sizes d) index (Some (nat sz))) (\<lambda>ss.
     Inr (d\<lparr>d_blocks := bs, d_sizes := ss\<rparr>)))"

definition fill :: "nat \<Rightarrow> int \<Rightarrow> int \<Rightarrow> driver \<Rightarrow> driver" where
  "fill p index sz d = d\<lparr>d_heap := mm_memset p (of_int (index mod 256)) (nat sz) (d_heap d)\<rparr>"

definition eval_alloc :: "fl_ops \<Rightarrow> bool \<Rightarrow> nat \<Rightarrow> int \<Rightarrow> int \<Rightarrow> driver \<Rightarrow> (bool \<times> driver) exec" where
  "eval_alloc ops check i index sz d =
     sbind (mm_malloc ops check (of_int sz) (d_heap d)) (\<lambda>(r, h).
     let d = d\<lparr>d_heap := h\<rparr> in
     case r of
       None \<Rightarrow> Inr (False, malloc_error i MallocFailed d)
     | Some p \<Rightarrow>
         sbind (add_range p sz i d) (\<lambda>(ok, d).
         if \<not> ok then Inr (False, d)
         else sbind (remember index p sz (fill p index sz d)) (\<lambda>d. Inr (True, d))))"

definition eval_realloc :: "fl_ops \<Rightarrow> bool \<Rightarrow> nat \<Rightarrow> int \<Rightarrow> int \<Rightarrow> driver \<Rightarrow> (bool \<times> driver) exec" where
  "eval_realloc ops check i index sz d =
     sbind (rd_init (d_blocks d) index) (\<lambda>oldp.
     sbind (mm_realloc ops check (Some oldp) (of_int sz) (d_heap d)) (\<lambda>(r, h).
     let d = d\<lparr>d_heap := h\<rparr> in
     case r of
       None \<Rightarrow> Inr (False, malloc_error i ReallocFailed d)
     | Some newp \<Rightarrow>
         sbind (add_range newp sz i (d\<lparr>d_ranges := remove_range (d_ranges d) oldp\<rparr>)) (\<lambda>(ok, d).
         if \<not> ok then Inr (False, d)
         else sbind (rd_init (d_sizes d) index) (\<lambda>oldsize.
           let oldsize = (if sz < int oldsize then nat sz else oldsize) in
           if list_ex (\<lambda>j. char_at (d_heap d) (newp + j) \<noteq> index mod 256) [0..<oldsize]
           then Inr (False, malloc_error i NotPreserved d)
           else sbind (remember index newp sz (fill newp index sz d)) (\<lambda>d. Inr (True, d))))))"

definition eval_free :: "fl_ops \<Rightarrow> bool \<Rightarrow> int \<Rightarrow> driver \<Rightarrow> (bool \<times> driver) exec" where
  "eval_free ops check index d =
     sbind (rd_init (d_blocks d) index) (\<lambda>p.
     let d = d\<lparr>d_ranges := remove_range (d_ranges d) p\<rparr> in
     sbind (mm_free ops check (Some p) (d_heap d)) (\<lambda>h. Inr (True, d\<lparr>d_heap := h\<rparr>)))"

fun eval_ops :: "fl_ops \<Rightarrow> bool \<Rightarrow> nat \<Rightarrow> traceop_t list \<Rightarrow> driver \<Rightarrow> (bool \<times> driver) exec" where
  "eval_ops ops check i [] d = Inr (True, d)"
| "eval_ops ops check i (t # ts) d =
     sbind (case op_type t of
         ALLOC \<Rightarrow> eval_alloc ops check i (op_index t) (op_size t) d
       | REALLOC \<Rightarrow> eval_realloc ops check i (op_index t) (op_size t) d
       | FREE \<Rightarrow> eval_free ops check (op_index t) d)
       (\<lambda>(ok, d). if \<not> ok then Inr (False, d) else eval_ops ops check (Suc i) ts d)"

definition eval_mm_valid :: "fl_ops \<Rightarrow> bool \<Rightarrow> traceop_t list \<Rightarrow> driver \<Rightarrow> (bool \<times> driver) exec" where
  "eval_mm_valid ops check ts d =
     (let d = clear_ranges (d\<lparr>d_heap := mem_reset_brk (d_heap d)\<rparr>) in
      sbind (mm_init ops check (d_heap d)) (\<lambda>(r, h).
      let d = d\<lparr>d_heap := h\<rparr> in
      if r < 0 then Inr (False, malloc_error 0 InitFailed d)
      else eval_ops ops check 0 ts d))"

section \<open>Filled blocks\<close>

definition filled :: "(nat \<Rightarrow> uint32) \<Rightarrow> nat \<Rightarrow> nat \<Rightarrow> uint32 \<Rightarrow> bool" where
  "filled m p n v \<longleftrightarrow> (\<forall>i. 4 dvd i \<and> i < n \<longrightarrow> take_bit (8 * (n - i)) (m (p + i)) = take_bit (8 * (n - i)) (byte_word v))"

lemma memset_filled: "filled (mem (mm_memset p v n s)) p n v"
  unfolding filled_def
proof (intro allI impI)
  fix i assume "4 dvd i \<and> i < n"
  then have "mem (mm_memset p v n s) (p + i) =
      (byte_word v AND mask (8 * (n - i))) OR (mem s (p + i) AND NOT (mask (8 * (n - i))))"
    by (simp add: mm_memset_def)
  then show "take_bit (8 * (n - i)) (mem (mm_memset p v n s) (p + i)) = take_bit (8 * (n - i)) (byte_word v)"
    by (simp only: take_bit_merge)
qed

lemma memset_same: "a < p \<or> p + n \<le> a \<Longrightarrow> mem (mm_memset p v n s) a = mem s a"
  by (auto simp: mm_memset_def)

lemma memset_frame: "mm_memset p v n s = s\<lparr>mem := mem (mm_memset p v n s)\<rparr>"
  by (simp add: mm_memset_def)

lemma take_bit_less: "take_bit k x = take_bit k y \<Longrightarrow> j \<le> k \<Longrightarrow> take_bit j x = take_bit j y" for x y :: uint32
  by (metis min.absorb1 take_bit_take_bit)

lemma filled_copied:
  assumes "filled m p n v" "copied m p m' q c" "k \<le> c" "k \<le> n"
  shows "filled m' q k v"
  unfolding filled_def
proof (intro allI impI)
  fix i assume i: "4 dvd i \<and> i < k"
  have "take_bit (8 * (c - i)) (m' (q + i)) = take_bit (8 * (c - i)) (m (p + i))"
    "take_bit (8 * (n - i)) (m (p + i)) = take_bit (8 * (n - i)) (byte_word v)"
    using assms i by (auto simp: filled_def copied_def)
  then have "take_bit (8 * (k - i)) (m' (q + i)) = take_bit (8 * (k - i)) (m (p + i))"
    "take_bit (8 * (k - i)) (m (p + i)) = take_bit (8 * (k - i)) (byte_word v)"
    using assms(3,4) by (auto elim!: take_bit_less)
  then show "take_bit (8 * (k - i)) (m' (q + i)) = take_bit (8 * (k - i)) (byte_word v)" by simp
qed

lemma filled_kept:
  assumes "filled (mem s) p n v" "keeps s s' A" "A p = Some k" "n + 4 \<le> k"
  shows "filled (mem s') p n v"
proof -
  have "mem s' (p + i) = mem s (p + i)" if "i < n" for i
    using payload_word [OF assms(2,3), of "p + i"] assms(4) that by simp
  then show ?thesis using assms(1) by (simp add: filled_def)
qed

lemma byte_of_word:
  assumes "V < 256" "r < 4"
  shows "(ucast (drop_bit (8 * r) (byte_word (of_nat V))) :: 8 word) = of_nat V"
proof -
  have "unat (byte_word (of_nat V)) = V * 16843009"
    using assms(1) by (simp add: byte_word_def unat_word_ariths unat_of_nat)
  then have u: "unat (drop_bit (8 * r) (byte_word (of_nat V))) = V * 16843009 div 2 ^ (8 * r)"
    by (simp only: unat_shr)
  have "V * 16843009 div 2 ^ (8 * r) mod 256 = V"
  proof -
    have dm: "x div b = q" "x mod b = t" if "x = b * q + t" "t < b" for x b q t :: nat using that by simp_all
    have d: "V * 16843009 div 256 = V * 65793" "V * 16843009 div 65536 = V * 257" "V * 16843009 div 16777216 = V"
      by (rule dm(1) [of _ _ _ V] dm(1) [of _ _ _ "V * 257"] dm(1) [of _ _ _ "V * 65793"]; use assms(1) in simp)+
    have m: "V * 16843009 mod 256 = V" "V * 65793 mod 256 = V" "V * 257 mod 256 = V" "V mod 256 = V"
      by (rule dm(2) [of _ _ "V * 65793"] dm(2) [of _ _ "V * 257"] dm(2) [of _ _ V] dm(2) [of _ _ 0]; use assms(1) in simp)+
    consider "r = 0" | "r = 1" | "r = 2" | "r = 3" using assms(2) by linarith
    then show ?thesis by cases (simp_all add: d m)
  qed
  then have "(of_nat (V * 16843009 div 2 ^ (8 * r)) :: 8 word) = of_nat V"
    using assms(1) by (simp add: word_of_nat_eq_iff take_bit_eq_mod)
  then show ?thesis by (simp flip: u)
qed

lemma filled_char:
  assumes "filled (mem s) p n (of_nat V)" "4 dvd p" "j < n" "V < 256"
  shows "char_at s (p + j) = sint (of_nat V :: 8 word)"
proof -
  define r i where "r = j mod 4" and "i = j - r"
  have ri: "r < 4" "4 dvd i" "i < n" "j = i + r" "(p + j) mod 4 = r" "p + j - r = p + i"
  proof -
    show "r < 4" "4 dvd i" by (simp_all add: r_def i_def minus_mod_eq_mult_div)
    show ij: "j = i + r" by (simp add: r_def i_def)
    then show "i < n" "p + j - r = p + i" using assms(3) by simp_all
    show "(p + j) mod 4 = r" using assms(2) by (simp add: r_def mod_add_eq [symmetric, of p j] dvd_imp_mod_0)
  qed
  have t: "take_bit (8 * (n - i)) (mem s (p + i)) = take_bit (8 * (n - i)) (byte_word (of_nat V))"
    using assms(1) ri by (simp add: filled_def)
  have "(ucast (drop_bit (8 * r) (mem s (p + i))) :: 8 word) = ucast (drop_bit (8 * r) (byte_word (of_nat V)))"
  proof (rule bit_word_eqI)
    fix k assume k: "k < LENGTH(8)"
    have "8 * r + k < 8 * (n - i)" using k assms(3) ri(4) by simp
    then have "bit (mem s (p + i)) (8 * r + k) = bit (byte_word (of_nat V)) (8 * r + k)"
      using t by (metis bit_take_bit_iff)
    then show "bit (ucast (drop_bit (8 * r) (mem s (p + i))) :: 8 word) k =
        bit (ucast (drop_bit (8 * r) (byte_word (of_nat V))) :: 8 word) k"
      using k by (simp add: bit_simps)
  qed
  then show ?thesis using byte_of_word [OF assms(4) ri(1)] ri(5,6) by (simp add: char_at_def)
qed

section \<open>The driver's invariant\<close>

text \<open>
  \<open>P\<close> maps the live indices of the trace to their payload and its size. The
  allocator's state is well formed, every live payload is an allocated block
  with room for it and full of its index's low byte, and the ranges are those of
  the live payloads.
\<close>

text \<open>
  What requests do to the simulated memory: the region stays, the break moves up by at most \<open>k\<close> bytes, and the heap
  stays well formed. A heap is starved of \<open>k\<close> bytes if the break cannot move up by them.
\<close>

definition grows :: "nat \<Rightarrow> mm_state \<Rightarrow> mm_state \<Rightarrow> bool" where
  "grows k h h' \<longleftrightarrow> mem_start_brk h' = mem_start_brk h \<and> mem_max_addr h' = mem_max_addr h \<and>
     mem_brk h \<le> mem_brk h' \<and> mem_brk h' \<le> mem_brk h + k"

definition heap_next :: "mm_config \<Rightarrow> nat \<Rightarrow> mm_state \<Rightarrow> mm_state \<Rightarrow> bool" where
  "heap_next c k h h' \<longleftrightarrow> (\<exists>rs. mm_state_ok c h' rs) \<and> grows k h h'"

definition starved :: "mm_state \<Rightarrow> nat \<Rightarrow> bool" where
  "starved h k \<longleftrightarrow> mem_max_addr h < mem_brk h + k"

lemma keeps_grows: "keeps h h' A \<Longrightarrow> mem_brk h' \<le> mem_brk h + k \<Longrightarrow> grows k h h'"
  by (simp add: keeps_def grows_def)

lemma grows_refl [simp]: "grows k h h" and grows_trans: "grows k h h' \<Longrightarrow> grows k' h' h'' \<Longrightarrow> grows (k + k') h h''"
  by (auto simp: grows_def)

lemma heap_next_trans: "heap_next c k h h' \<Longrightarrow> heap_next c k' h' h'' \<Longrightarrow> heap_next c (k + k') h h''"
  by (auto simp: heap_next_def intro: grows_trans)

lemma starved_later: "grows k h h' \<Longrightarrow> starved h' k' \<Longrightarrow> starved h (k + k')"
  by (auto simp: grows_def starved_def)

lemma starved_more: "starved h k \<Longrightarrow> k \<le> k' \<Longrightarrow> starved h k'"
  by (auto simp: starved_def)

text \<open>A well-formed heap can be reset and initialised again.\<close>

lemma heap_next_ready: "heap_next c k h h' \<Longrightarrow> heap_ready (mem_reset_brk h')"
  by (auto simp: heap_next_def mm_state_ok_def mm_inv_def heap_rep_def heap_ready_def layout_def mem_reset_brk_def first_blk_def)

text \<open>
  The bytes that a request can cost: an allocation its rounded size; a resize, which may extend the last block, move
  and fail, three times that; a release none.
\<close>

definition request_size :: "mm_config \<Rightarrow> int \<Rightarrow> nat" where
  "request_size c sz = max ((nat sz + 11) div 8 * 8) (config_min c)"

definition op_cost :: "mm_config \<Rightarrow> traceop_t \<Rightarrow> nat" where
  "op_cost c t = (case op_type t of ALLOC \<Rightarrow> request_size c (op_size t) | REALLOC \<Rightarrow> 3 * request_size c (op_size t) | FREE \<Rightarrow> 0)"

lemma op_cost_type:
  "op_type t = ALLOC \<Longrightarrow> op_cost c t = request_size c (op_size t)"
  "op_type t = REALLOC \<Longrightarrow> op_cost c t = 3 * request_size c (op_size t)"
  "op_type t = FREE \<Longrightarrow> op_cost c t = 0"
  by (simp_all add: op_cost_def)

fun trace_cost :: "mm_config \<Rightarrow> traceop_t list \<Rightarrow> nat" where
  "trace_cost c [] = 0"
| "trace_cost c (t # ts) = op_cost c t + trace_cost c ts"

definition live_ok :: "driver \<Rightarrow> (nat \<Rightarrow> nat option) \<Rightarrow> int \<Rightarrow> nat \<Rightarrow> nat \<Rightarrow> bool" where
  "live_ok d A i p n \<longleftrightarrow> 0 \<le> i \<and> i < int (length (d_blocks d)) \<and> d_blocks d ! nat i = Some p \<and> d_sizes d ! nat i = Some n \<and>
     0 < n \<and> filled (mem (d_heap d)) p n (of_int (i mod 256)) \<and> (\<exists>k. A p = Some k \<and> n + 4 \<le> k)"

definition ranges_ok :: "(nat \<times> nat) list \<Rightarrow> (int \<Rightarrow> (nat \<times> nat) option) \<Rightarrow> bool" where
  "ranges_ok R P \<longleftrightarrow> distinct (map fst R) \<and>
     (\<forall>l h. (l, h) \<in> set R \<longleftrightarrow> (\<exists>i n. P i = Some (l, n) \<and> h = l + n - 1))"

definition drv_inv :: "mm_config \<Rightarrow> driver \<Rightarrow> (int \<Rightarrow> (nat \<times> nat) option) \<Rightarrow> bool" where
  "drv_inv c d P \<longleftrightarrow> length (d_sizes d) = length (d_blocks d) \<and>
     (\<exists>rs. mm_state_ok c (d_heap d) rs \<and> (\<forall>i p n. P i = Some (p, n) \<longrightarrow> live_ok d (allocated (d_heap d) rs) i p n)) \<and>
     (\<forall>i j p n m. P i = Some (p, n) \<longrightarrow> P j = Some (p, m) \<longrightarrow> i = j) \<and> ranges_ok (d_ranges d) P"

lemma drv_invI:
  assumes "length (d_sizes d) = length (d_blocks d)" "mm_state_ok c (d_heap d) rs"
    and "\<And>i p n. P i = Some (p, n) \<Longrightarrow> live_ok d (allocated (d_heap d) rs) i p n"
    and "\<And>i j p n m. P i = Some (p, n) \<Longrightarrow> P j = Some (p, m) \<Longrightarrow> i = j" "ranges_ok (d_ranges d) P"
  shows "drv_inv c d P"
  unfolding drv_inv_def using assms by blast

lemma drv_invD:
  assumes "drv_inv c d P"
  shows "length (d_sizes d) = length (d_blocks d)" "ranges_ok (d_ranges d) P"
    and "P i = Some (p, n) \<Longrightarrow> P j = Some (p, m) \<Longrightarrow> i = j"
    and "\<exists>rs. mm_state_ok c (d_heap d) rs \<and> (\<forall>i p n. P i = Some (p, n) \<longrightarrow> live_ok d (allocated (d_heap d) rs) i p n)"
  using assms unfolding drv_inv_def by blast+

lemma remove_range_absent: "lo \<notin> fst ` set R \<Longrightarrow> remove_range R lo = R"
  by (induction R) auto

lemma remove_range_fst: "distinct (map fst R) \<Longrightarrow> map fst (remove_range R lo) = filter (\<lambda>x. x \<noteq> lo) (map fst R)"
  by (induction R) (auto simp: remove_range_absent)

lemma remove_range_set: "distinct (map fst R) \<Longrightarrow> set (remove_range R lo) = {p \<in> set R. fst p \<noteq> lo}"
  by (induction R) (auto simp: image_iff)

lemma ranges_remove:
  assumes "ranges_ok R P" "P i = Some (p, n)" "\<And>i j p n m. P i = Some (p, n) \<Longrightarrow> P j = Some (p, m) \<Longrightarrow> i = j"
  shows "ranges_ok (remove_range R p) (P(i := None))"
proof -
  have d: "distinct (map fst R)" and R: "\<And>l h. (l, h) \<in> set R \<longleftrightarrow> (\<exists>i n. P i = Some (l, n) \<and> h = l + n - 1)"
    using assms(1) by (auto simp: ranges_ok_def)
  have "(l, h) \<in> set (remove_range R p) \<longleftrightarrow> (\<exists>j n. (P(i := None)) j = Some (l, n) \<and> h = l + n - 1)" for l h
  proof -
    have "(l, h) \<in> set (remove_range R p) \<longleftrightarrow> (\<exists>j n. P j = Some (l, n) \<and> h = l + n - 1) \<and> l \<noteq> p"
      using remove_range_set [OF d, of p] R [of l h] by auto
    also have "\<dots> \<longleftrightarrow> (\<exists>j n. (P(i := None)) j = Some (l, n) \<and> h = l + n - 1)"
      using assms(2,3) by (auto split: if_splits) (metis option.inject prod.inject)+
    finally show ?thesis .
  qed
  moreover have "distinct (map fst (remove_range R p))" using remove_range_fst [OF d] d by simp
  ultimately show ?thesis by (simp add: ranges_ok_def)
qed

lemma ranges_add:
  assumes "ranges_ok R P" "P i = None" "\<And>j m. P j \<noteq> Some (p, m)"
  shows "ranges_ok ((p, p + n - 1) # R) (P(i \<mapsto> (p, n)))"
proof -
  have R: "\<And>l h. (l, h) \<in> set R \<longleftrightarrow> (\<exists>i n. P i = Some (l, n) \<and> h = l + n - 1)" and d: "distinct (map fst R)"
    using assms(1) by (auto simp: ranges_ok_def)
  have "p \<notin> fst ` set R" using R assms(3) by (metis imageE prod.collapse)
  moreover have "(l, h) \<in> set ((p, p + n - 1) # R) \<longleftrightarrow> (\<exists>j m. (P(i \<mapsto> (p, n))) j = Some (l, m) \<and> h = l + m - 1)" for l h
    using R [of l h] assms(2) by (auto split: if_splits) (metis option.distinct(1))
  ultimately show ?thesis using d by (simp add: ranges_ok_def)
qed

text \<open>A payload in a block of its own passes the checks of \<open>add_range\<close>.\<close>

lemma add_range_ok:
  assumes I: "mm_state_ok c (d_heap d) rs" and p: "allocated (d_heap d) rs p = Some k" "nat sz + 4 \<le> k" "0 < sz"
    and R: "\<And>l h. (l, h) \<in> set (d_ranges d) \<Longrightarrow> l \<noteq> p \<and> (\<exists>n q. allocated (d_heap d) rs l = Some q \<and> 0 < n \<and> n + 4 \<le> q \<and> h = l + n - 1)"
  shows "add_range p sz i d = Inr (True, d\<lparr>d_ranges := (p, p + nat sz - 1) # d_ranges d\<rparr>)"
proof -
  let ?s = "d_heap d"
  have ok: "okb (config_min c) rs" and lay: "layout ?s" and brk: "mem_brk ?s = first_blk ?s + blen rs"
    using I by (auto simp: mm_state_ok_def mm_inv_def heap_rep_def)
  have "8 dvd first_blk ?s" using lay by (auto simp: layout_def first_blk_def)
  then have a: "8 dvd p" "first_blk ?s \<le> p" "p + k \<le> mem_brk ?s" using alloc_at_range [OF ok p(1)] brk by auto
  have "\<not> overlaps p (p + nat sz - 1) (l, h)" if rng: "(l, h) \<in> set (d_ranges d)" for l h
  proof -
    obtain n q where n: "l \<noteq> p" "allocated ?s rs l = Some q" "0 < n" "n + 4 \<le> q" "h = l + n - 1" using R [OF rng] by blast
    then consider "p + k \<le> l" | "l + q \<le> p"
      using alloc_at_disjoint [OF ok p(1) n(2)] alloc_at_disjoint [OF ok n(2) p(1)] by (cases "p < l") auto
    then show ?thesis using n p(2,3) by cases (auto simp: overlaps_def)
  qed
  then have "\<not> list_ex (overlaps p (p + nat sz - 1)) (d_ranges d)" by (auto simp: list_ex_iff)
  then show ?thesis
    using a p(2,3) by (auto simp: add_range_def Let_def IS_ALIGNED_def DRIVER_ALIGNMENT_def mem_heap_lo_def mem_heap_hi_def first_blk_def dvd_imp_mod_0)
qed

text \<open>What the live payloads and the ranges need, for a change of the heap that keeps the live blocks.\<close>

lemma live_kept:
  assumes "live_ok d A i p n" "keeps (d_heap d) s' B" "B p = A p" "A' p = A p"
  shows "live_ok (d\<lparr>d_heap := s'\<rparr>) A' i p n"
  using assms filled_kept [of "d_heap d" p n _ s' B] by (auto simp: live_ok_def)

lemma ranges_live:
  assumes "ranges_ok R P" "\<And>i p n. P i = Some (p, n) \<Longrightarrow> live_ok d A i p n" "\<And>j m. P j \<noteq> Some (p, m)"
  shows "(l, h) \<in> set R \<Longrightarrow> l \<noteq> p \<and> (\<exists>n q. A l = Some q \<and> 0 < n \<and> n + 4 \<le> q \<and> h = l + n - 1)"
  using assms unfolding ranges_ok_def live_ok_def by blast

lemma remember_live:
  assumes "0 \<le> i" "i < int (length (d_blocks d))" "length (d_sizes d) = length (d_blocks d)"
  shows "remember i p sz d = Inr (d\<lparr>d_blocks := (d_blocks d)[nat i := Some p], d_sizes := (d_sizes d)[nat i := Some (nat sz)]\<rparr>)"
  using assms by (simp add: remember_def)

text \<open>Filling a new payload and remembering it under a free index.\<close>

lemma store_payload:
  assumes I: "mm_state_ok c (d_heap d) rs" and A: "allocated (d_heap d) rs p = Some k" "nat sz + 4 \<le> k" "0 < sz"
    and i: "0 \<le> i" "i < int (length (d_blocks d))" "length (d_sizes d) = length (d_blocks d)" "P i = None"
    and new: "\<And>j m. P j \<noteq> Some (p, m)"
    and live: "\<And>j q n. P j = Some (q, n) \<Longrightarrow> live_ok d (allocated (d_heap d) rs) j q n"
    and inj: "\<And>i j p n m. P i = Some (p, n) \<Longrightarrow> P j = Some (p, m) \<Longrightarrow> i = j" and R: "ranges_ok (d_ranges d) P"
  shows "\<exists>d'. remember i p sz (fill p i sz (d\<lparr>d_ranges := (p, p + nat sz - 1) # d_ranges d\<rparr>)) = Inr d' \<and>
    drv_inv c d' (P(i \<mapsto> (p, nat sz))) \<and> length (d_blocks d') = length (d_blocks d) \<and> d_errors d' = d_errors d \<and>
    heap_next c 0 (d_heap d) (d_heap d')"
proof -
  let ?v = "of_int (i mod 256) :: uint32" and ?n = "nat sz"
  define m' where "m' = mem (mm_memset p ?v ?n (d_heap d))"
  define s' where "s' = (d_heap d)\<lparr>mem := m'\<rparr>"
  have s': "mm_memset p ?v ?n (d_heap d) = s'" unfolding s'_def m'_def by (rule memset_frame)
  have "m' w = mem (d_heap d) w" if "w < p \<or> p + k \<le> w + 4" for w
    unfolding m'_def by (rule memset_same) (use that A(2) in auto)
  from cfg.client_write [OF I [unfolded mm_state_ok_def] A(1) this]
  have I': "mm_state_ok c s' rs" and K: "keeps (d_heap d) s' ((allocated (d_heap d) rs)(p := None))"
    by (simp_all add: s'_def mm_state_ok_def)
  have A': "allocated s' rs = allocated (d_heap d) rs" by (simp add: s'_def first_blk_def)
  have f: "filled m' p ?n ?v" unfolding m'_def by (rule memset_filled)
  have sm: "mem s' = m'" by (simp add: s'_def)
  define d' where "d' = d\<lparr>d_ranges := (p, p + ?n - 1) # d_ranges d, d_heap := s',
    d_blocks := (d_blocks d)[nat i := Some p], d_sizes := (d_sizes d)[nat i := Some ?n]\<rparr>"
  have run: "remember i p sz (fill p i sz (d\<lparr>d_ranges := (p, p + ?n - 1) # d_ranges d\<rparr>)) = Inr d'"
    using i by (simp add: remember_live fill_def s' d'_def)
  have live': "live_ok d' (allocated (d_heap d') rs) j q n" if j: "(P(i \<mapsto> (p, ?n))) j = Some (q, n)" for j q n
  proof (cases "j = i")
    case True
    then show ?thesis
      using j i A f by (auto simp: live_ok_def d'_def A' sm)
  next
    case False
    then have Pj: "P j = Some (q, n)" using j by simp
    then have "q \<noteq> p" using new by auto
    then have "live_ok (d\<lparr>d_heap := s'\<rparr>) (allocated s' rs) j q n"
      using live_kept [OF live [OF Pj] K] A' by simp
    moreover have "nat i \<noteq> nat j" using False i(1) calculation by (auto simp: live_ok_def)
    ultimately show ?thesis using i by (auto simp: live_ok_def d'_def)
  qed
  have ranges': "ranges_ok (d_ranges d') (P(i \<mapsto> (p, ?n)))"
    using ranges_add [OF R i(4) new, of ?n] by (simp add: d'_def)
  have inj': "j = j'" if "(P(i \<mapsto> (p, ?n))) j = Some (q, n)" "(P(i \<mapsto> (p, ?n))) j' = Some (q, n')" for j j' q n n'
  proof (cases "j = i \<or> j' = i")
    case True
    then show ?thesis using that new [of j] new [of j'] by (auto split: if_splits)
  next
    case False
    then show ?thesis using inj [of j q n j' n'] that by simp
  qed
  have "drv_inv c d' (P(i \<mapsto> (p, ?n)))"
    by (rule drv_invI [where rs = rs, OF _ _ live' inj' ranges']) (use I' i in \<open>simp_all add: d'_def\<close>)
  moreover have "heap_next c 0 (d_heap d) s'" using I' keeps_grows [OF K, of 0] by (auto simp: heap_next_def s'_def)
  ultimately show ?thesis using run by (auto simp: d'_def)
qed

section \<open>The operations of a trace\<close>

definition size_ok :: "int \<Rightarrow> bool" where
  "size_ok sz \<longleftrightarrow> 0 < sz \<and> sz \<le> INT_MAX"

lemma size_word: "size_ok sz \<Longrightarrow> unat (of_int sz :: uint32) = nat sz \<and> 0 < nat sz \<and> nat sz + 11 < 2 ^ 32"
proof -
  assume "size_ok sz"
  then have b: "0 < nat sz" "nat sz < 2 ^ 32" "nat sz + 11 < 2 ^ 32" "(of_int sz :: uint32) = of_nat (nat sz)"
    by (auto simp: size_ok_def INT_MAX_def nat_less_iff)
  have "unat (of_nat (nat sz) :: uint32) = nat sz" by (rule unat_of_nat_less) (use b in simp)
  then show ?thesis using b(1,3) unfolding b(4) by simp
qed

lemma eval_alloc_ok:
  assumes inv: "drv_inv c d P" and i: "0 \<le> i" "i < int (length (d_blocks d))" "P i = None" and sz: "size_ok sz"
  shows "\<exists>ok d'. eval_alloc (config_ops c ff) check n i sz d = Inr (ok, d') \<and> length (d_blocks d') = length (d_blocks d) \<and>
    heap_next c (request_size c sz) (d_heap d) (d_heap d') \<and> (ok \<or> starved (d_heap d) (request_size c sz)) \<and>
    (if ok then drv_inv c d' (P(i \<mapsto> (the (d_blocks d' ! nat i), nat sz))) \<and> d_errors d' = d_errors d
     else d_errors d' = d_errors d @ [(n, MallocFailed)])"
proof -
  obtain rs where I: "mm_state_ok c (d_heap d) rs"
    and live0: "\<forall>i p n. P i = Some (p, n) \<longrightarrow> live_ok d (allocated (d_heap d) rs) i p n"
    using drv_invD(4) [OF inv] by blast
  note len = drv_invD(1) [OF inv] and R = drv_invD(2) [OF inv] and inj = drv_invD(3) [OF inv]
    and live = live0 [rule_format]
  note w = size_word [OF sz]
  obtain r s' where r: "mm_malloc (config_ops c ff) check (of_int sz) (d_heap d) = Inr (r, s')"
    "malloc_post c (d_heap d) rs (nat sz) (r, s')"
    using cfg.mm_malloc_ok [OF I [unfolded mm_state_ok_def], of "of_int sz" ff check] mallocs_post [of c "d_heap d" rs "nat sz"] w
    by fastforce
  show ?thesis
  proof (cases r)
    case None
    then have "heap_next c (request_size c sz) (d_heap d) s'" "starved (d_heap d) (request_size c sz)"
      using r(2) I by (auto simp: malloc_post_def heap_next_def request_size_def starved_def)
    then show ?thesis using r None by (intro exI [of _ False]) (simp add: eval_alloc_def malloc_error_def)
  next
    case (Some p)
    then obtain rs' k where p: "mm_state_ok c s' rs'" "allocated (d_heap d) rs p = None" "nat sz + 4 \<le> k"
      "allocated s' rs' = (allocated (d_heap d) rs)(p \<mapsto> k)" "keeps (d_heap d) s' (allocated (d_heap d) rs)"
      "mem_brk s' \<le> mem_brk (d_heap d) + request_size c sz"
      using r(2) by (auto simp: malloc_post_def request_size_def)
    let ?d = "d\<lparr>d_heap := s'\<rparr>"
    have new: "P j \<noteq> Some (p, m)" for j m using live [of j p m] p(2) by (auto simp: live_ok_def)
    have live': "live_ok ?d (allocated s' rs') j q n" if "P j = Some (q, n)" for j q n
      using live_kept [OF live [OF that] p(5)] p(4) new [of j n] that by (auto simp: fun_upd_def)
    have a: "allocated (d_heap ?d) rs' p = Some k" using p(4) by simp
    have "add_range p sz n ?d = Inr (True, ?d\<lparr>d_ranges := (p, p + nat sz - 1) # d_ranges d\<rparr>)"
      using add_range_ok [of c ?d rs' p k sz n] p(1,3) a sz ranges_live [OF R, of ?d "allocated s' rs'" p] live' new
      by (auto simp: size_ok_def)
    moreover obtain d' where "remember i p sz (fill p i sz (?d\<lparr>d_ranges := (p, p + nat sz - 1) # d_ranges ?d\<rparr>)) = Inr d'"
      "drv_inv c d' (P(i \<mapsto> (p, nat sz)))" "length (d_blocks d') = length (d_blocks ?d)" "d_errors d' = d_errors ?d"
      "heap_next c 0 s' (d_heap d')"
      using store_payload [of c ?d rs' p k sz i P] p(1,3) a sz i len new live' inj R by (auto simp: size_ok_def)
    moreover have "the (d_blocks d' ! nat i) = p"
      using calculation(3) by (auto simp: drv_inv_def live_ok_def dest!: spec [where x = i])
    moreover have "heap_next c (request_size c sz) (d_heap d) s'" using p(1) keeps_grows [OF p(5,6)] by (auto simp: heap_next_def)
    then have "heap_next c (request_size c sz + 0) (d_heap d) (d_heap d')" by (rule heap_next_trans) (rule calculation)
    ultimately show ?thesis using r(1) Some by (intro exI [of _ True] exI [of _ d']) (simp add: eval_alloc_def Let_def)
  qed
qed

lemma rd_init_live:
  "live_ok d A i p n \<Longrightarrow> rd_init (d_blocks d) i = Inr p"
  "live_ok d A i p n \<Longrightarrow> length (d_sizes d) = length (d_blocks d) \<Longrightarrow> rd_init (d_sizes d) i = Inr n"
  by (auto simp: live_ok_def rd_init_def)

text \<open>The other live payloads after an operation on the payload \<open>p\<close> of index \<open>i\<close>.\<close>

lemma live_others:
  assumes live: "\<And>j q m. P j = Some (q, m) \<Longrightarrow> live_ok d A j q m"
    and inj: "\<And>i j p n m. P i = Some (p, n) \<Longrightarrow> P j = Some (p, m) \<Longrightarrow> i = j"
    and p: "P i = Some (p, n)" and K: "keeps (d_heap d) s' (A(p := None))"
    and A': "\<And>q. q \<noteq> p \<Longrightarrow> A q \<noteq> None \<Longrightarrow> A' q = A q" and j: "(P(i := None)) j = Some (q, m)"
  shows "q \<noteq> p \<and> live_ok (d\<lparr>d_heap := s', d_ranges := R\<rparr>) A' j q m"
proof -
  have Pj: "P j = Some (q, m)" "j \<noteq> i" using j by (auto split: if_splits)
  then have q: "q \<noteq> p" using inj [of j p m i n] p by auto
  have "A q \<noteq> None" using live [OF Pj(1)] by (auto simp: live_ok_def)
  then have "live_ok (d\<lparr>d_heap := s'\<rparr>) A' j q m"
    using live_kept [OF live [OF Pj(1)] K] A' q by simp
  then show ?thesis using q by (simp add: live_ok_def)
qed

lemma eval_free_ok:
  assumes inv: "drv_inv c d P" and p: "P i = Some (p, n)"
  shows "\<exists>d'. eval_free (config_ops c ff) check i d = Inr (True, d') \<and> length (d_blocks d') = length (d_blocks d) \<and>
    heap_next c 0 (d_heap d) (d_heap d') \<and> drv_inv c d' (P(i := None)) \<and> d_errors d' = d_errors d"
proof -
  obtain rs where I: "mm_state_ok c (d_heap d) rs"
    and live0: "\<forall>i p n. P i = Some (p, n) \<longrightarrow> live_ok d (allocated (d_heap d) rs) i p n"
    using drv_invD(4) [OF inv] by blast
  note len = drv_invD(1) [OF inv] and R = drv_invD(2) [OF inv] and inj = drv_invD(3) [OF inv]
    and live = live0 [rule_format]
  obtain k where k: "allocated (d_heap d) rs p = Some k" using live [OF p] by (auto simp: live_ok_def)
  obtain m' rs' where f: "mm_free (config_ops c ff) check (Some p) (d_heap d) = Inr ((d_heap d)\<lparr>mem := m'\<rparr>)"
    "mm_state_ok c ((d_heap d)\<lparr>mem := m'\<rparr>) rs'"
    "allocated (d_heap d) rs' = (allocated (d_heap d) rs)(p := None)"
    "keeps (d_heap d) ((d_heap d)\<lparr>mem := m'\<rparr>) ((allocated (d_heap d) rs)(p := None))"
    using cfg.mm_free_ok [OF I [unfolded mm_state_ok_def] k, of ff check] by (auto simp: mm_state_ok_def)
  let ?s = "(d_heap d)\<lparr>mem := m'\<rparr>"
  let ?d = "d\<lparr>d_heap := ?s, d_ranges := remove_range (d_ranges d) p\<rparr>"
  have a: "allocated ?s rs' = (allocated (d_heap d) rs)(p := None)" using f(3) by (simp add: first_blk_def)
  have "live_ok ?d (allocated (d_heap ?d) rs') j q m" if "(P(i := None)) j = Some (q, m)" for j q m
    using live_others [OF live inj p f(4) _ that, where A' = "allocated ?s rs'"] a by simp
  moreover have "j = j'" if "(P(i := None)) j = Some (q, m)" "(P(i := None)) j' = Some (q, m')" for j j' q m m'
    using that inj [of j q m j' m'] by (auto split: if_splits)
  ultimately have "drv_inv c ?d (P(i := None))"
    by (rule drv_invI [where rs = rs', rotated 2]) (use f(2) len ranges_remove [OF R p inj] in simp_all)
  moreover have "eval_free (config_ops c ff) check i d = Inr (True, ?d)"
    using rd_init_live(1) [OF live [OF p]] f(1) by (simp add: eval_free_def)
  moreover have "heap_next c 0 (d_heap d) ?s" using f(2) keeps_grows [OF f(4), of 0] by (auto simp: heap_next_def)
  ultimately show ?thesis by auto
qed

lemma char_preserved:
  assumes "filled (mem s) q n (of_int (i mod 256))" "4 dvd q" "i mod 256 < 128" "j < n"
  shows "char_at s (q + j) = i mod 256"
proof -
  define V where "V = nat (i mod 256)"
  have V: "V < 128" "int V = i mod 256" using assms(3) by (auto simp: V_def)
  then have "(of_int (i mod 256) :: uint32) = of_nat V" by (metis of_int_of_nat_eq)
  then have "char_at s (q + j) = sint (of_nat V :: 8 word)" using filled_char [of s q n V j] assms V by simp
  also have "\<dots> = int V" using V(1) by (simp add: signed_of_nat signed_take_bit_int_eq_self)
  finally show ?thesis using V(2) by simp
qed

text \<open>
  A resize either fails for want of memory or yields a block that passes
  \<open>add_range\<close> and holds the old bytes, so that only the comparison of the bytes
  with the index decides.
\<close>

definition realloc_runs :: "mm_config \<Rightarrow> (bool \<times> driver) exec \<Rightarrow> nat \<Rightarrow> int \<Rightarrow> nat \<Rightarrow> int \<Rightarrow> driver \<Rightarrow>
    (int \<Rightarrow> (nat \<times> nat) option) \<Rightarrow> nat \<Rightarrow> driver \<Rightarrow> driver \<Rightarrow> bool" where
  "realloc_runs c r opn i n sz d P q d1 d2 \<longleftrightarrow> 4 dvd q \<and> filled (mem (d_heap d1)) q (min (nat sz) n) (of_int (i mod 256)) \<and>
     r = (if list_ex (\<lambda>j. char_at (d_heap d1) (q + j) \<noteq> i mod 256) [0..<min (nat sz) n]
          then Inr (False, malloc_error opn NotPreserved d1) else Inr (True, d2)) \<and>
     length (d_blocks d1) = length (d_blocks d) \<and> d_errors d1 = d_errors d \<and>
     length (d_blocks d2) = length (d_blocks d) \<and> d_errors d2 = d_errors d \<and> drv_inv c d2 (P(i \<mapsto> (q, nat sz))) \<and>
     heap_next c (3 * request_size c sz) (d_heap d) (d_heap d2)"

lemma eval_realloc_runs:
  assumes inv: "drv_inv c d P" and p: "P i = Some (p, n)" and sz: "size_ok sz"
  shows "(\<exists>s'. eval_realloc (config_ops c ff) check opn i sz d = Inr (False, malloc_error opn ReallocFailed (d\<lparr>d_heap := s'\<rparr>)) \<and>
      heap_next c (3 * request_size c sz) (d_heap d) s' \<and> starved (d_heap d) (3 * request_size c sz)) \<or>
    (\<exists>q d1 d2. realloc_runs c (eval_realloc (config_ops c ff) check opn i sz d) opn i n sz d P q d1 d2)"
proof -
  obtain rs where I: "mm_state_ok c (d_heap d) rs"
    and live0: "\<forall>i p n. P i = Some (p, n) \<longrightarrow> live_ok d (allocated (d_heap d) rs) i p n"
    using drv_invD(4) [OF inv] by blast
  note len = drv_invD(1) [OF inv] and R = drv_invD(2) [OF inv] and inj = drv_invD(3) [OF inv]
    and live = live0 [rule_format] and w = size_word [OF sz]
  obtain k where k: "allocated (d_heap d) rs p = Some k" "n + 4 \<le> k" using live [OF p] by (auto simp: live_ok_def)
  obtain r s' where r: "mm_realloc (config_ops c ff) check (Some p) (of_int sz) (d_heap d) = Inr (r, s')"
    "realloc_post c (d_heap d) rs p k (nat sz) (r, s')"
    using cfg.mm_realloc_ok [OF I [unfolded mm_state_ok_def] k(1), of "of_int sz" ff check] w
      reallocs_post [of c "d_heap d" rs p k "nat sz"] k(1) by fastforce
  show ?thesis
  proof (cases r)
    case None
    then obtain rs' A where f: "mm_state_ok c s' rs'" "keeps (d_heap d) s' A" "mem_brk s' \<le> mem_brk (d_heap d) + 2 * request_size c sz"
      "mem_max_addr (d_heap d) < mem_brk s' + request_size c sz"
      using r(2) by (auto simp: realloc_post_def request_size_def)
    then have "heap_next c (3 * request_size c sz) (d_heap d) s'" "starved (d_heap d) (3 * request_size c sz)"
      using keeps_grows [OF f(2), of "3 * request_size c sz"] by (auto simp: heap_next_def starved_def)
    then show ?thesis using r None rd_init_live(1) [OF live [OF p]]
      by (auto simp: eval_realloc_def)
  next
    case (Some q)
    then obtain rs' k' where q: "mm_state_ok c s' rs'" "q = p \<or> allocated (d_heap d) rs q = None" "nat sz + 4 \<le> k'"
      "allocated s' rs' = (allocated (d_heap d) rs)(p := None, q \<mapsto> k')"
      "keeps (d_heap d) s' ((allocated (d_heap d) rs)(p := None))"
      "copied (mem (d_heap d)) p (mem s') q (min (nat sz) (k - 4))" "mem_brk s' \<le> mem_brk (d_heap d) + 2 * request_size c sz"
      using r(2) by (auto simp: realloc_post_def request_size_def)
    let ?P = "P(i := None)" and ?d = "d\<lparr>d_heap := s', d_ranges := remove_range (d_ranges d) p\<rparr>"
    have A': "allocated s' rs' x = allocated (d_heap d) rs x" if "x \<noteq> p" "allocated (d_heap d) rs x \<noteq> None" for x
      using q(2,4) that by auto
    have inj2: "j = j'" if "P j = Some (x, m)" "P j' = Some (x, m')" for j j' x m m' using inj that by blast
    have oth: "x \<noteq> p \<and> live_ok ?d (allocated s' rs') j x m" if "?P j = Some (x, m)" for j x m
      by (rule live_others [OF live inj2 p q(5) A' that])
    have new: "?P j \<noteq> Some (q, m)" for j m
    proof
      assume a: "?P j = Some (q, m)"
      then have "allocated (d_heap d) rs q \<noteq> None" using live [of j q m] by (auto simp: live_ok_def split: if_splits)
      then show False using oth [OF a] q(2) by auto
    qed
    have inj': "j = j'" if "?P j = Some (x, m)" "?P j' = Some (x, m')" for j j' x m m'
      using that inj [of j x m j' m'] by (auto split: if_splits)
    have R': "ranges_ok (d_ranges ?d) ?P" using ranges_remove [OF R p inj] by simp
    have a: "allocated (d_heap ?d) rs' q = Some k'" using q(4) by simp
    have add: "add_range q sz opn ?d = Inr (True, ?d\<lparr>d_ranges := (q, q + nat sz - 1) # d_ranges ?d\<rparr>)"
      using add_range_ok [of c ?d rs' q k' sz opn] q(1,3) a sz ranges_live [OF R', of ?d "allocated s' rs'" q] oth new
      by (auto simp: size_ok_def)
    have "8 dvd q"
      using alloc_at_range [of "config_min c" rs' "first_blk s'" q k'] a q(1)
      by (auto simp: mm_state_ok_def mm_inv_def heap_rep_def layout_def first_blk_def)
    then have d4: "4 dvd q" by presburger
    have "filled (mem (d_heap d)) p n (of_int (i mod 256))" using live [OF p] by (simp add: live_ok_def)
    then have fl: "filled (mem s') q (min (nat sz) n) (of_int (i mod 256))"
      by (rule filled_copied [OF _ q(6)]) (use k(2) in auto)
    have old: "(if sz < int n then nat sz else n) = min (nat sz) n" by (simp add: min_def) linarith
    note live_i = live [OF p, unfolded live_ok_def]
    have "\<exists>d'. remember i q sz (fill q i sz (?d\<lparr>d_ranges := (q, q + nat sz - 1) # d_ranges ?d\<rparr>)) = Inr d' \<and>
      drv_inv c d' (?P(i \<mapsto> (q, nat sz))) \<and> length (d_blocks d') = length (d_blocks ?d) \<and> d_errors d' = d_errors ?d \<and>
      heap_next c 0 (d_heap ?d) (d_heap d')"
    proof (rule store_payload)
      show "mm_state_ok c (d_heap ?d) rs'" using q(1) by simp
      show "allocated (d_heap ?d) rs' q = Some k'" by (rule a)
      show "nat sz + 4 \<le> k'" "0 < sz" using q(3) sz by (simp_all add: size_ok_def)
      show "0 \<le> i" "i < int (length (d_blocks ?d))" "length (d_sizes ?d) = length (d_blocks ?d)" "?P i = None"
        using live_i len by simp_all
      show "live_ok ?d (allocated (d_heap ?d) rs') j x m" if "?P j = Some (x, m)" for j x m
        using oth [OF that] by simp
    qed (use R' in \<open>simp_all add: new inj' del: fun_upd_apply\<close>)
    then obtain d' where d': "remember i q sz (fill q i sz (?d\<lparr>d_ranges := (q, q + nat sz - 1) # d_ranges ?d\<rparr>)) = Inr d'"
      "drv_inv c d' (?P(i \<mapsto> (q, nat sz)))" "length (d_blocks d') = length (d_blocks ?d)" "d_errors d' = d_errors ?d"
      "heap_next c 0 (d_heap ?d) (d_heap d')"
      by (elim exE conjE) (rule that)
    have "heap_next c (3 * request_size c sz) (d_heap d) s'"
      using q(1,7) keeps_grows [OF q(5), of "3 * request_size c sz"] by (auto simp: heap_next_def)
    then have "heap_next c (3 * request_size c sz + 0) (d_heap d) (d_heap d')" by (rule heap_next_trans) (use d'(5) in simp)
    then have hn: "heap_next c (3 * request_size c sz) (d_heap d) (d_heap d')" by simp
    have "realloc_runs c (eval_realloc (config_ops c ff) check opn i sz d) opn i n sz d P q
        (?d\<lparr>d_ranges := (q, q + nat sz - 1) # d_ranges ?d\<rparr>) d'"
      unfolding realloc_runs_def
    proof (intro conjI)
      show "eval_realloc (config_ops c ff) check opn i sz d =
        (if list_ex (\<lambda>j. char_at (d_heap (?d\<lparr>d_ranges := (q, q + nat sz - 1) # d_ranges ?d\<rparr>)) (q + j) \<noteq> i mod 256) [0..<min (nat sz) n]
         then Inr (False, malloc_error opn NotPreserved (?d\<lparr>d_ranges := (q, q + nat sz - 1) # d_ranges ?d\<rparr>)) else Inr (True, d'))"
        using rd_init_live(1) [OF live [OF p]] rd_init_live(2) [OF live [OF p] len] r(1) Some add d'(1)
        by (simp add: eval_realloc_def Let_def old del: list_ex_iff)
    qed (use d4 fl d'(2-4) hn in simp_all)
    then show ?thesis by blast
  qed
qed

lemma eval_realloc_ok:
  assumes "drv_inv c d P" "P i = Some (p, n)" "size_ok sz" "i mod 256 < 128"
  shows "\<exists>ok d'. eval_realloc (config_ops c ff) check opn i sz d = Inr (ok, d') \<and> length (d_blocks d') = length (d_blocks d) \<and>
    heap_next c (3 * request_size c sz) (d_heap d) (d_heap d') \<and> (ok \<or> starved (d_heap d) (3 * request_size c sz)) \<and>
    (if ok then (\<exists>q. drv_inv c d' (P(i \<mapsto> (q, nat sz)))) \<and> d_errors d' = d_errors d
     else d_errors d' = d_errors d @ [(opn, ReallocFailed)])"
  using eval_realloc_runs [OF assms(1-3), of ff check opn]
proof (elim disjE exE conjE)
  fix s' assume h: "heap_next c (3 * request_size c sz) (d_heap d) s'" "starved (d_heap d) (3 * request_size c sz)" and "eval_realloc (config_ops c ff) check opn i sz d = Inr (False, malloc_error opn ReallocFailed (d\<lparr>d_heap := s'\<rparr>))"
  then show ?thesis using h by (intro exI [of _ False]) (simp add: malloc_error_def)
next
  fix q d1 d2 assume r: "realloc_runs c (eval_realloc (config_ops c ff) check opn i sz d) opn i n sz d P q d1 d2"
  then have "\<not> list_ex (\<lambda>j. char_at (d_heap d1) (q + j) \<noteq> i mod 256) [0..<min (nat sz) n]"
    using char_preserved [of "d_heap d1" q _ i] assms(4) by (auto simp: realloc_runs_def list_ex_iff)
  then show ?thesis using r by (intro exI [of _ True] exI [of _ d2]) (auto simp: realloc_runs_def)
qed

text \<open>A byte of 128 or more reads back as a negative \<open>char\<close>, never as the index's low byte.\<close>

lemma char_negative: "char_at s a < 128"
proof -
  have "sint (w :: 8 word) < 2 ^ 7" for w using sint_lt [of w] by simp
  then show ?thesis by (simp add: char_at_def)
qed

section \<open>Whole traces\<close>

text \<open>
  A well-formed trace: every index is below \<open>num_ids\<close>, requests are positive
  ints, an index is allocated when it is not live and resized or freed when it is.
  \<open>ok\<close> restricts the indices that may be resized; the correctness pass needs those
  whose low byte is below 128, see \<open>driver_rejects_high_realloc\<close>.
\<close>

definition low_byte_ok :: "int \<Rightarrow> bool" where
  "low_byte_ok index \<longleftrightarrow> index mod 256 < 128"

fun valid_ops :: "nat \<Rightarrow> (int \<Rightarrow> bool) \<Rightarrow> int set \<Rightarrow> traceop_t list \<Rightarrow> bool" where
  "valid_ops n ok L [] = True"
| "valid_ops n ok L (t # ts) = (let i = op_index t in case op_type t of
      ALLOC \<Rightarrow> 0 \<le> i \<and> i < int n \<and> i \<notin> L \<and> size_ok (op_size t) \<and> valid_ops n ok (insert i L) ts
    | REALLOC \<Rightarrow> i \<in> L \<and> size_ok (op_size t) \<and> ok i \<and> valid_ops n ok L ts
    | FREE \<Rightarrow> i \<in> L \<and> valid_ops n ok (L - {i}) ts)"

definition out_of_memory :: "(nat \<times> trace_error) list \<Rightarrow> (nat \<times> trace_error) list \<Rightarrow> bool" where
  "out_of_memory es es' \<longleftrightarrow> (\<exists>k e. (e = MallocFailed \<or> e = ReallocFailed) \<and> es' = es @ [(k, e)])"

definition verdict_ok :: "bool \<Rightarrow> (nat \<times> trace_error) list \<Rightarrow> (nat \<times> trace_error) list \<Rightarrow> bool" where
  "verdict_ok ok es es' \<longleftrightarrow> (if ok then es' = es else out_of_memory es es')"

definition eval_post :: "mm_config \<Rightarrow> nat \<Rightarrow> driver \<Rightarrow> int set \<Rightarrow> bool \<Rightarrow> driver \<Rightarrow> bool" where
  "eval_post c k d L ok d' \<longleftrightarrow> length (d_blocks d') = length (d_blocks d) \<and>
     heap_next c k (d_heap d) (d_heap d') \<and> (ok \<or> starved (d_heap d) k) \<and>
     (if ok then (\<exists>P. drv_inv c d' P \<and> dom P = L) \<and> d_errors d' = d_errors d
      else out_of_memory (d_errors d) (d_errors d'))"

lemma eval_op_ok:
  assumes "drv_inv c d P" "valid_ops (length (d_blocks d)) low_byte_ok (dom P) (t # ts)"
  shows "\<exists>ok d' L. (case op_type t of
         ALLOC \<Rightarrow> eval_alloc (config_ops c ff) check n (op_index t) (op_size t) d
       | REALLOC \<Rightarrow> eval_realloc (config_ops c ff) check n (op_index t) (op_size t) d
       | FREE \<Rightarrow> eval_free (config_ops c ff) check (op_index t) d) = Inr (ok, d') \<and>
    eval_post c (op_cost c t) d L ok d' \<and> valid_ops (length (d_blocks d)) low_byte_ok L ts"
proof (cases "op_type t")
  case ALLOC
  then have v: "0 \<le> op_index t" "op_index t < int (length (d_blocks d))" "P (op_index t) = None" "size_ok (op_size t)"
    "valid_ops (length (d_blocks d)) low_byte_ok (insert (op_index t) (dom P)) ts" using assms(2) by (auto simp: Let_def)
  have k: "op_cost c t = request_size c (op_size t)" by (rule op_cost_type(1) [OF ALLOC])
  obtain ok d' where r: "eval_alloc (config_ops c ff) check n (op_index t) (op_size t) d = Inr (ok, d')"
    "length (d_blocks d') = length (d_blocks d)" "heap_next c (op_cost c t) (d_heap d) (d_heap d')" "ok \<or> starved (d_heap d) (op_cost c t)"
    "if ok then drv_inv c d' (P(op_index t \<mapsto> (the (d_blocks d' ! nat (op_index t)), nat (op_size t)))) \<and> d_errors d' = d_errors d
     else d_errors d' = d_errors d @ [(n, MallocFailed)]"
    using eval_alloc_ok [OF assms(1) v(1-4), of ff check n] by (elim exE conjE) (rule that, assumption, (assumption | simp only: k)+)
  have "dom (P(op_index t \<mapsto> y)) = insert (op_index t) (dom P)" for y by auto
  with r(2-5) have "eval_post c (op_cost c t) d (insert (op_index t) (dom P)) ok d'"
    unfolding eval_post_def out_of_memory_def by (cases ok) (simp_all del: dom_fun_upd, metis)
  then show ?thesis using ALLOC r(1) v(5) by auto
next
  case REALLOC
  then obtain p m where v: "P (op_index t) = Some (p, m)" "size_ok (op_size t)" "op_index t mod 256 < 128"
    "valid_ops (length (d_blocks d)) low_byte_ok (dom P) ts" using assms(2) by (auto simp: Let_def low_byte_ok_def)
  then have ins: "dom (P(op_index t \<mapsto> y)) = dom P" for y by auto
  have k: "op_cost c t = 3 * request_size c (op_size t)" by (rule op_cost_type(2) [OF REALLOC])
  obtain ok d' where r: "eval_realloc (config_ops c ff) check n (op_index t) (op_size t) d = Inr (ok, d')"
    "length (d_blocks d') = length (d_blocks d)" "heap_next c (op_cost c t) (d_heap d) (d_heap d')" "ok \<or> starved (d_heap d) (op_cost c t)"
    "if ok then (\<exists>q. drv_inv c d' (P(op_index t \<mapsto> (q, nat (op_size t))))) \<and> d_errors d' = d_errors d
     else d_errors d' = d_errors d @ [(n, ReallocFailed)]"
    using eval_realloc_ok [OF assms(1) v(1-3), of ff check n] by (elim exE conjE) (rule that, assumption, (assumption | simp only: k)+)
  with r(2-5) have "eval_post c (op_cost c t) d (dom P) ok d'"
    unfolding eval_post_def out_of_memory_def by (cases ok) (simp_all del: dom_fun_upd, metis ins)
  then show ?thesis using REALLOC r(1) v(4) by auto
next
  case FREE
  then obtain p m where v: "P (op_index t) = Some (p, m)" "valid_ops (length (d_blocks d)) low_byte_ok (dom P - {op_index t}) ts"
    using assms(2) by (auto simp: Let_def)
  have k: "op_cost c t = 0" by (rule op_cost_type(3) [OF FREE])
  obtain d' where r: "eval_free (config_ops c ff) check (op_index t) d = Inr (True, d')"
    "length (d_blocks d') = length (d_blocks d)" "heap_next c (op_cost c t) (d_heap d) (d_heap d')" "drv_inv c d' (P(op_index t := None))" "d_errors d' = d_errors d"
    using eval_free_ok [OF assms(1) v(1), of ff check] by (elim exE conjE) (rule that, assumption, (assumption | simp only: k)+)
  have "eval_post c (op_cost c t) d (dom P - {op_index t}) True d'"
    using r(2-5) unfolding eval_post_def by (simp del: fun_upd_apply) (metis dom_fun_upd)
  then show ?thesis using FREE r(1) v(2) by auto
qed

lemma eval_ops_ok:
  assumes "drv_inv c d P" "valid_ops (length (d_blocks d)) low_byte_ok (dom P) ts"
  shows "\<exists>ok d'. eval_ops (config_ops c ff) check n ts d = Inr (ok, d') \<and>
    verdict_ok ok (d_errors d) (d_errors d') \<and> heap_next c (trace_cost c ts) (d_heap d) (d_heap d') \<and>
    (ok \<or> starved (d_heap d) (trace_cost c ts)) \<and>
    (ok \<longrightarrow> length (d_blocks d') = length (d_blocks d) \<and> length (d_sizes d') = length (d_blocks d))"
  using assms
proof (induction ts arbitrary: d P n)
  case Nil
  then have "heap_next c 0 (d_heap d) (d_heap d)" "length (d_sizes d) = length (d_blocks d)" by (auto simp: drv_inv_def heap_next_def)
  then show ?case by (intro exI [of _ True]) (simp add: verdict_ok_def)
next
  case (Cons t ts)
  obtain ok d' L where r: "(case op_type t of
         ALLOC \<Rightarrow> eval_alloc (config_ops c ff) check n (op_index t) (op_size t) d
       | REALLOC \<Rightarrow> eval_realloc (config_ops c ff) check n (op_index t) (op_size t) d
       | FREE \<Rightarrow> eval_free (config_ops c ff) check (op_index t) d) = Inr (ok, d')"
    "eval_post c (op_cost c t) d L ok d'" "valid_ops (length (d_blocks d)) low_byte_ok L ts"
    using eval_op_ok [OF Cons.prems, of ff check n] by (elim exE conjE) (rule that)
  show ?case
  proof (cases ok)
    case True
    then obtain P' where P': "drv_inv c d' P'" "dom P' = L" "d_errors d' = d_errors d" "length (d_blocks d') = length (d_blocks d)"
      using r(2) by (auto simp: eval_post_def)
    have v: "valid_ops (length (d_blocks d')) low_byte_ok (dom P') ts" using r(3) P'(2,4) by simp
    obtain ok2 d2 where "eval_ops (config_ops c ff) check (Suc n) ts d' = Inr (ok2, d2)"
      "verdict_ok ok2 (d_errors d') (d_errors d2)" "heap_next c (trace_cost c ts) (d_heap d') (d_heap d2)"
      "ok2 \<or> starved (d_heap d') (trace_cost c ts)"
      "ok2 \<longrightarrow> length (d_blocks d2) = length (d_blocks d') \<and> length (d_sizes d2) = length (d_blocks d')"
      using Cons.IH [OF P'(1) v, of "Suc n"] by (elim exE conjE) (rule that)
    moreover have hn: "heap_next c (op_cost c t) (d_heap d) (d_heap d')" using r(2) by (simp add: eval_post_def)
    moreover have "starved (d_heap d) (trace_cost c (t # ts))" if "starved (d_heap d') (trace_cost c ts)"
      using starved_later [OF _ that] hn by (simp add: heap_next_def)
    ultimately show ?thesis using r(1) True P'(3,4) heap_next_trans [OF hn] by (auto simp del: Product_Type.split_paired_Ex)
  next
    case False
    then have "heap_next c (trace_cost c (t # ts)) (d_heap d) (d_heap d')" "starved (d_heap d) (trace_cost c (t # ts))"
      using r(2) by (auto simp: eval_post_def heap_next_def grows_def intro: starved_more)
    then show ?thesis using False r(1,2) by (intro exI [of _ False] exI [of _ d']) (simp add: eval_post_def verdict_ok_def)
  qed
qed

lemma driver_starts:
  assumes "heap_ready (mem_reset_brk (d_heap d))" "length (d_sizes d) = length (d_blocks d)"
  shows "\<exists>d1. (\<forall>ts. eval_mm_valid (config_ops c ff) check ts d = eval_ops (config_ops c ff) check 0 ts d1) \<and>
    drv_inv c d1 Map.empty \<and> d_errors d1 = d_errors d \<and> length (d_blocks d1) = length (d_blocks d) \<and>
    grows 16 (mem_reset_brk (d_heap d)) (d_heap d1)"
proof -
  obtain h where h: "mm_init (config_ops c ff) check (mem_reset_brk (d_heap d)) = Inr (0, h)" "mm_state_ok c h []"
    "do_mm_init (config_ops c ff) (mem_reset_brk (d_heap d)) = (0, h)"
    using cfg.mm_init_ok [OF assms(1), of c ff check] by (auto simp: mm_state_ok_def)
  have "grows 16 (mem_reset_brk (d_heap d)) h"
    using cfg.init_spec [OF assms(1), of c ff] h(3) by (auto simp: grows_def mem_reset_brk_def)
  let ?d = "d\<lparr>d_ranges := [], d_heap := h\<rparr>"
  have "drv_inv c ?d Map.empty"
    by (rule drv_invI [where rs = "[]"]) (use h(2) assms(2) in \<open>simp_all add: ranges_ok_def\<close>)
  then show ?thesis using h(1) \<open>grows _ _ h\<close> by (intro exI [of _ ?d]) (simp add: eval_mm_valid_def clear_ranges_def Let_def)
qed

text \<open>The bytes a trace needs: the two sentinel blocks and what its requests can cost.\<close>

definition trace_room :: "mm_config \<Rightarrow> traceop_t list \<Rightarrow> nat" where
  "trace_room c ts = 16 + trace_cost c ts"

lemma valid_pass_ok:
  assumes "heap_ready (mem_reset_brk (d_heap d))" "length (d_sizes d) = length (d_blocks d)"
    and "valid_ops (length (d_blocks d)) low_byte_ok {} ts"
  shows "\<exists>ok d'. eval_mm_valid (config_ops c ff) check ts d = Inr (ok, d') \<and> verdict_ok ok (d_errors d) (d_errors d') \<and>
    heap_next c (trace_room c ts) (mem_reset_brk (d_heap d)) (d_heap d') \<and>
    (ok \<or> starved (mem_reset_brk (d_heap d)) (trace_room c ts)) \<and>
    (ok \<longrightarrow> length (d_blocks d') = length (d_blocks d) \<and> length (d_sizes d') = length (d_blocks d))"
proof -
  obtain d1 where d1: "eval_mm_valid (config_ops c ff) check ts d = eval_ops (config_ops c ff) check 0 ts d1"
    "drv_inv c d1 Map.empty" "d_errors d1 = d_errors d" "length (d_blocks d1) = length (d_blocks d)"
    "grows 16 (mem_reset_brk (d_heap d)) (d_heap d1)"
    using driver_starts [OF assms(1,2), of c ff check] by blast
  have "heap_next c (trace_room c ts) (mem_reset_brk (d_heap d)) h" if "heap_next c (trace_cost c ts) (d_heap d1) h" for h
    using that grows_trans [OF d1(5)] by (auto simp: heap_next_def trace_room_def simp del: One_nat_def)
  then show ?thesis using eval_ops_ok [OF d1(2), of ts ff check 0] assms(3) starved_later [OF d1(5), of "trace_cost c ts"]
    unfolding d1 trace_room_def by auto
qed

text \<open>The driver accepts the allocator: on every well-formed trace, in every build of the allocator, the evaluation
returns without a fault; it accepts the run whenever the region has room for what the requests of the trace can cost,
and otherwise it can only report that a request failed, never a misaligned, outside, overlapping or unpreserved payload.\<close>

theorem driver_accepts_allocator:
  assumes "heap_ready (mem_reset_brk (d_heap d))" "length (d_sizes d) = length (d_blocks d)"
    and "valid_ops (length (d_blocks d)) low_byte_ok {} ts"
  shows "\<exists>ok d'. eval_mm_valid (config_ops c ff) check ts d = Inr (ok, d') \<and> verdict_ok ok (d_errors d) (d_errors d') \<and>
    (ok \<or> starved (mem_reset_brk (d_heap d)) (trace_room c ts))"
  using valid_pass_ok [OF assms, of c ff check] by blast

definition demo_trace :: "traceop_t list" where
  "demo_trace = [\<lparr>op_type = ALLOC, op_index = 0, op_size = 2040\<rparr>, \<lparr>op_type = ALLOC, op_index = 1, op_size = 16\<rparr>,
     \<lparr>op_type = REALLOC, op_index = 0, op_size = 4080\<rparr>, \<lparr>op_type = FREE, op_index = 1, op_size = 0\<rparr>]"

definition demo_driver :: driver where
  "demo_driver = \<lparr>d_heap = demo_state, d_ranges = [(3, 5)], d_blocks = [None, None], d_sizes = [None, None], d_errors = []\<rparr>"

lemma demo_driver_ready: "heap_ready (mem_reset_brk (d_heap demo_driver))"
  using demo_ready by (simp add: demo_driver_def mem_reset_brk_def heap_ready_def layout_def demo_state_def)

lemma demo_room: "\<not> starved (mem_reset_brk (d_heap demo_driver)) (trace_room c demo_trace)"
  using config_min_le [of c]
  by (auto simp: starved_def trace_room_def op_cost_def request_size_def demo_trace_def demo_driver_def demo_state_def
    mem_reset_brk_def MAX_HEAP_def max_def)

theorem driver_accepts_allocator_witness:
  "valid_ops 2 low_byte_ok {} demo_trace \<and>
   (\<exists>d'. eval_mm_valid (config_ops MM_SEGREGATED False) True demo_trace demo_driver = Inr (True, d') \<and> d_errors d' = [])"
proof -
  have v: "valid_ops 2 low_byte_ok {} demo_trace" by (simp add: demo_trace_def size_ok_def INT_MAX_def low_byte_ok_def)
  have d: "length (d_sizes demo_driver) = length (d_blocks demo_driver)" "length (d_blocks demo_driver) = 2" "d_errors demo_driver = []"
    by (simp_all add: demo_driver_def)
  show ?thesis
    using driver_accepts_allocator [OF demo_driver_ready d(1), of demo_trace MM_SEGREGATED False True] v d(2,3)
      demo_room [of MM_SEGREGATED] by (auto simp: verdict_ok_def)
qed

text \<open>A resize of an index whose low byte is at least 128 is rejected: the bytes are those that were written, and
the test compares a signed \<open>char\<close> with a number between 128 and 255.\<close>

lemma realloc_high_index:
  assumes "drv_inv c d P" "P i = Some (p, n)" "size_ok sz" "\<not> low_byte_ok i"
  shows "\<exists>d' e. eval_realloc (config_ops c ff) check opn i sz d = Inr (False, d') \<and>
    d_errors d' = d_errors d @ [(opn, e)] \<and> (e = NotPreserved \<or> e = ReallocFailed)"
  using eval_realloc_runs [OF assms(1-3), of ff check opn]
proof (elim disjE exE conjE)
  fix s' assume h: "heap_next c (3 * request_size c sz) (d_heap d) s'" "starved (d_heap d) (3 * request_size c sz)" and "eval_realloc (config_ops c ff) check opn i sz d = Inr (False, malloc_error opn ReallocFailed (d\<lparr>d_heap := s'\<rparr>))"
  then show ?thesis by (simp add: malloc_error_def)
next
  fix q d1 d2 assume r: "realloc_runs c (eval_realloc (config_ops c ff) check opn i sz d) opn i n sz d P q d1 d2"
  have "0 < n" using drv_invD(4) [OF assms(1)] assms(2) by (auto simp: live_ok_def)
  then have "0 < min (nat sz) n" using assms(3) by (simp add: size_ok_def)
  moreover have "char_at (d_heap d1) (q + 0) \<noteq> i mod 256"
    using char_negative [of "d_heap d1" "q + 0"] assms(4) by (simp add: low_byte_ok_def)
  ultimately have "list_ex (\<lambda>j. char_at (d_heap d1) (q + j) \<noteq> i mod 256) [0..<min (nat sz) n]"
    unfolding list_ex_iff by (intro bexI [of _ 0]) simp_all
  then show ?thesis using r by (simp add: realloc_runs_def malloc_error_def)
qed

text \<open>A trace that allocates an index whose low byte is at least 128 and resizes it is rejected whatever the allocator
does, although the resized block holds the bytes of the old one.\<close>

theorem driver_rejects_high_realloc:
  assumes "heap_ready (mem_reset_brk (d_heap d))" "length (d_sizes d) = length (d_blocks d)"
    and i: "0 \<le> i" "i < int (length (d_blocks d))" "\<not> low_byte_ok i" and sz: "size_ok a" "size_ok b"
  shows "\<exists>d'. eval_mm_valid (config_ops c ff) check [\<lparr>op_type = ALLOC, op_index = i, op_size = a\<rparr>,
    \<lparr>op_type = REALLOC, op_index = i, op_size = b\<rparr>] d = Inr (False, d') \<and> d_errors d' \<noteq> d_errors d"
proof -
  obtain d1 where d1: "eval_mm_valid (config_ops c ff) check ts d = eval_ops (config_ops c ff) check 0 ts d1"
    "drv_inv c d1 Map.empty" "d_errors d1 = d_errors d" "length (d_blocks d1) = length (d_blocks d)" for ts
    using driver_starts [OF assms(1,2), of c ff check] by blast
  obtain ok d2 where r: "eval_alloc (config_ops c ff) check 0 i a d1 = Inr (ok, d2)"
    "if ok then drv_inv c d2 (Map.empty(i \<mapsto> (the (d_blocks d2 ! nat i), nat a))) \<and> d_errors d2 = d_errors d1
     else d_errors d2 = d_errors d1 @ [(0, MallocFailed)]"
    using eval_alloc_ok [OF d1(2) i(1) _ _ sz(1), of ff check 0] i(2) d1(4) by auto
  show ?thesis
  proof (cases ok)
    case True
    then obtain d3 e where "eval_realloc (config_ops c ff) check 1 i b d2 = Inr (False, d3)" "d_errors d3 = d_errors d2 @ [(1, e)]"
      using realloc_high_index [of c d2 "Map.empty(i \<mapsto> (the (d_blocks d2 ! nat i), nat a))" i _ _ b ff check 1] r(2) i(3) sz(2) by auto
    then show ?thesis using True r d1(1,3) by simp
  next
    case False
    then show ?thesis using r d1(1,3) by simp
  qed
qed

theorem driver_rejects_high_realloc_witness:
  "\<exists>d'. eval_mm_valid (config_ops MM_IMPLICIT False) False [\<lparr>op_type = ALLOC, op_index = 128, op_size = 8\<rparr>,
     \<lparr>op_type = REALLOC, op_index = 128, op_size = 16\<rparr>] (demo_driver\<lparr>d_blocks := replicate 200 None, d_sizes := replicate 200 None\<rparr>)
     = Inr (False, d') \<and> d_errors d' \<noteq> []"
  using driver_rejects_high_realloc [of "demo_driver\<lparr>d_blocks := replicate 200 None, d_sizes := replicate 200 None\<rparr>" 128 8 16 MM_IMPLICIT False False]
    demo_driver_ready by (simp add: demo_driver_def size_ok_def INT_MAX_def low_byte_ok_def)

text \<open>The overlap test looks for an end of the new range inside an old one, so a new range around an old one passes it.\<close>

lemma enclosing_range_accepted:
  assumes "0 < sz" "8 dvd lo" "mem_heap_lo (d_heap d) \<le> lo" "lo + nat sz - 1 \<le> mem_heap_hi (d_heap d)"
    and "\<forall>p\<in>set (d_ranges d). lo < fst p \<and> fst p \<le> snd p \<and> snd p < lo + nat sz - 1"
  shows "add_range lo sz i d = Inr (True, d\<lparr>d_ranges := (lo, lo + nat sz - 1) # d_ranges d\<rparr>)"
proof -
  have "\<not> list_ex (overlaps lo (lo + nat sz - 1)) (d_ranges d)" using assms(5) by (auto simp: list_ex_iff overlaps_def)
  then show ?thesis using assms(1-4) by (auto simp: add_range_def Let_def IS_ALIGNED_def DRIVER_ALIGNMENT_def)
qed

end
