(* ===== verification/Trace_File.thy ===== *)
theory Trace_File
  imports Mdriver Stdio
begin

text \<open>
  The trace files of the malloc lab (\<open>read_trace\<close> and \<open>free_trace\<close> of \<open>mdriver.c\<close>):
  four numbers, then one request a line. The file system, the library's
  \<open>malloc\<close> (which requests it grants, and what the memory it returns holds) are
  parameters. A conversion that does not match leaves its variable as it was.
\<close>

definition DRIVER_MAXLINE :: nat where "DRIVER_MAXLINE = 1024"

record trace_t =
  sugg_heapsize :: "int option"
  num_ids :: int
  num_ops :: int
  weight :: "int option"
  t_ops :: "traceop_t list"
  t_blocks :: "nat option list"
  t_block_sizes :: "nat option list"

text \<open>The variables of the loop: \<open>index\<close>, \<open>size\<close> (not set before the first request), \<open>max_index\<close>, \<open>op_index\<close> and the array.\<close>

record reader =
  r_index :: uint32
  r_size :: "uint32 option"
  r_max_index :: uint32
  r_op_index :: nat
  r_ops :: "traceop_t list"

record libc =
  fopen :: "string \<Rightarrow> string option"
  malloc_ok :: "nat \<Rightarrow> bool"
  fresh_ops :: "nat \<Rightarrow> traceop_t"

section \<open>Conversions\<close>

text \<open>A number outside the range of the variable is undefined in C.\<close>

definition scan_d :: "string \<Rightarrow> (int option \<times> string) exec" where
  "scan_d cs = (case scan_int cs of
     None \<Rightarrow> Inr (None, after_int cs)
   | Some v \<Rightarrow> if - INT_MAX - 1 \<le> v \<and> v \<le> INT_MAX then Inr (Some v, after_int cs) else Inl IntOverflow)"

definition scan_u :: "string \<Rightarrow> (uint32 option \<times> string) exec" where
  "scan_u cs = (case scan_int cs of
     None \<Rightarrow> Inr (None, after_int cs)
   | Some v \<Rightarrow> if \<bar>v\<bar> < 2 ^ 32 then Inr (Some (of_int v), after_int cs) else Inl IntOverflow)"

text \<open>\<^verbatim>\<open>"%u %u"\<close>: the second number is read only after the first.\<close>

definition scan_index_size :: "string \<Rightarrow> reader \<Rightarrow> (reader \<times> string) exec" where
  "scan_index_size cs st =
     sbind (scan_u cs) (\<lambda>(i, cs). case i of
       None \<Rightarrow> Inr (st, cs)
     | Some i \<Rightarrow> sbind (scan_u cs) (\<lambda>(z, cs).
         let st = st\<lparr>r_index := i\<rparr> in
         Inr (case z of None \<Rightarrow> st | Some z \<Rightarrow> st\<lparr>r_size := Some z\<rparr>, cs)))"

text \<open>\<^verbatim>\<open>"%ud"\<close>: a number, and the letter \<open>d\<close> when it follows.\<close>

definition scan_index :: "string \<Rightarrow> reader \<Rightarrow> (reader \<times> string) exec" where
  "scan_index cs st =
     sbind (scan_u cs) (\<lambda>(i, cs). case i of
       None \<Rightarrow> Inr (st, cs)
     | Some i \<Rightarrow> Inr (st\<lparr>r_index := i\<rparr>, if cs \<noteq> [] \<and> hd cs = CHR ''d'' then tl cs else cs))"

section \<open>Requests\<close>

definition store_request :: "op_type \<Rightarrow> reader \<Rightarrow> reader exec" where
  "store_request ty st =
     sbind (rd (r_ops st) (r_op_index st)) (\<lambda>t.
     case r_size st of
       None \<Rightarrow> Inl Uninitialised
     | Some z \<Rightarrow>
         sbind (wr (r_ops st) (r_op_index st) (t\<lparr>op_type := ty, op_index := sint (r_index st), op_size := sint z\<rparr>)) (\<lambda>ops.
         Inr (st\<lparr>r_ops := ops,
                 r_max_index := (if r_index st > r_max_index st then r_index st else r_max_index st)\<rparr>)))"

definition store_free :: "reader \<Rightarrow> reader exec" where
  "store_free st =
     sbind (rd (r_ops st) (r_op_index st)) (\<lambda>t.
     sbind (wr (r_ops st) (r_op_index st) (t\<lparr>op_type := FREE, op_index := sint (r_index st)\<rparr>)) (\<lambda>ops.
     Inr (st\<lparr>r_ops := ops\<rparr>)))"

definition read_request :: "char \<Rightarrow> string \<Rightarrow> reader \<Rightarrow> (reader \<times> string) exec" where
  "read_request c cs st =
     (if c = CHR ''a'' then
        sbind (scan_index_size cs st) (\<lambda>(st, cs). sbind (store_request ALLOC st) (\<lambda>st. Inr (st, cs)))
      else if c = CHR ''r'' then
        sbind (scan_index_size cs st) (\<lambda>(st, cs). sbind (store_request REALLOC st) (\<lambda>st. Inr (st, cs)))
      else if c = CHR ''f'' then
        sbind (scan_index cs st) (\<lambda>(st, cs). sbind (store_free st) (\<lambda>st. Inr (st, cs)))
      else Inl ExitCalled)"

lemma scan_u_shorter: "scan_u cs = Inr (v, cs') \<Longrightarrow> length cs' \<le> length cs"
  using after_int_le [of cs] by (auto simp: scan_u_def split: option.splits if_splits)

lemma read_request_shorter: "read_request c cs st = Inr (st', cs') \<Longrightarrow> length cs' \<le> length cs"
proof -
  have two: "length cs' \<le> length cs" if "scan_index_size cs st = Inr (st1, cs')" for st1 cs'
    using that by (fastforce simp: scan_index_size_def sbind_Inr_iff Let_def split: option.splits dest: scan_u_shorter)
  have one: "length cs' \<le> length cs" if "scan_index cs st = Inr (st1, cs')" for st1 cs'
    using that by (fastforce simp: scan_index_def sbind_Inr_iff split: option.splits if_splits dest: scan_u_shorter)
  assume "read_request c cs st = Inr (st', cs')"
  then show ?thesis using two one by (auto simp: read_request_def sbind_Inr_iff split: if_splits)
qed

text \<open>Every turn of the loop reads a word, so it ends with the input.\<close>

function read_loop :: "string \<Rightarrow> reader \<Rightarrow> reader exec" where
  "read_loop cs st =
     (if fst (scan_word cs) = [] then Inr st
      else if \<not> length (fst (scan_word cs)) < DRIVER_MAXLINE then Inl OutOfBounds
      else sbind (read_request (hd (fst (scan_word cs))) (snd (scan_word cs)) st) (\<lambda>p.
        read_loop (snd p) ((fst p)\<lparr>r_op_index := Suc (r_op_index (fst p))\<rparr>)))"
  by pat_completeness auto
termination
proof (relation "measure (\<lambda>(cs, st). length cs)", simp)
  fix cs st p
  assume w: "\<not> fst (scan_word cs) = []" and r: "read_request (hd (fst (scan_word cs))) (snd (scan_word cs)) st = Inr p"
  have "length (snd (scan_word cs)) < length cs" using w by (intro scan_word_shorter [of cs "fst (scan_word cs)"]) simp_all
  moreover have "length (snd p) \<le> length (snd (scan_word cs))" using r by (cases p) (simp add: read_request_shorter)
  ultimately show "((snd p, (fst p)\<lparr>r_op_index := Suc (r_op_index (fst p))\<rparr>), (cs, st)) \<in> measure (\<lambda>(cs, st). length cs)" by simp
qed

declare read_loop.simps [simp del]

section \<open>Trace files\<close>

text \<open>\<open>malloc(n * sz)\<close> with the product of \<open>size_t\<close> of 32 bits: the number of whole elements there is room for.\<close>

definition malloc_array :: "libc \<Rightarrow> int \<Rightarrow> nat \<Rightarrow> nat exec" where
  "malloc_array L n sz = (let bytes = unat (of_int n * of_nat sz :: uint32) in
     if malloc_ok L bytes then Inr (bytes div sz) else Inl ExitCalled)"

definition init_value :: "'a option \<Rightarrow> 'a exec" where
  "init_value v = (case v of None \<Rightarrow> Inl Uninitialised | Some x \<Rightarrow> Inr x)"

definition open_trace :: "libc \<Rightarrow> string \<Rightarrow> string \<Rightarrow> string exec" where
  "open_trace L tracedir filename =
     (let path = tracedir @ filename in
      if \<not> length path < DRIVER_MAXLINE then Inl OutOfBounds
      else case fopen L path of None \<Rightarrow> Inl ExitCalled | Some cs \<Rightarrow> Inr cs)"

definition read_trace :: "libc \<Rightarrow> string \<Rightarrow> string \<Rightarrow> trace_t exec" where
  "read_trace L tracedir filename =
     (if \<not> malloc_ok L 28 then Inl ExitCalled else
      sbind (open_trace L tracedir filename) (\<lambda>cs.
      sbind (scan_d cs) (\<lambda>(heapsize, cs).
      sbind (scan_d cs) (\<lambda>(ids, cs).
      sbind (scan_d cs) (\<lambda>(nops, cs).
      sbind (scan_d cs) (\<lambda>(wt, cs).
      sbind (init_value nops) (\<lambda>nops.
      sbind (malloc_array L nops 12) (\<lambda>olen.
      sbind (init_value ids) (\<lambda>ids.
      sbind (malloc_array L ids 4) (\<lambda>blen.
      sbind (malloc_array L ids 4) (\<lambda>slen.
      sbind (read_loop cs \<lparr>r_index = 0, r_size = None, r_max_index = 0, r_op_index = 0,
        r_ops = map (fresh_ops L) [0..<olen]\<rparr>) (\<lambda>st.
      sbind (iadd ids (- 1)) (\<lambda>top.
      sbind (c_assert (r_max_index st = of_int top)) (\<lambda>_.
      sbind (c_assert (of_int nops = (of_nat (r_op_index st) :: uint32))) (\<lambda>_.
      Inr \<lparr>sugg_heapsize = heapsize, num_ids = ids, num_ops = nops, weight = wt, t_ops = r_ops st,
           t_blocks = replicate blen None, t_block_sizes = replicate slen None\<rparr>)))))))))))))))"

section \<open>Writing a trace\<close>

abbreviation nl :: string where "nl \<equiv> [CHR 0x0A]"

definition request_text :: "traceop_t \<Rightarrow> string" where
  "request_text t = (case op_type t of
     ALLOC \<Rightarrow> ''a'' @ '' '' @ dec (nat (op_index t)) @ '' '' @ dec (nat (op_size t))
   | REALLOC \<Rightarrow> ''r'' @ '' '' @ dec (nat (op_index t)) @ '' '' @ dec (nat (op_size t))
   | FREE \<Rightarrow> ''f'' @ '' '' @ dec (nat (op_index t)))"

fun requests_text :: "traceop_t list \<Rightarrow> string" where
  "requests_text [] = nl"
| "requests_text (t # ts) = nl @ request_text t @ requests_text ts"

definition trace_text :: "nat \<Rightarrow> nat \<Rightarrow> nat \<Rightarrow> traceop_t list \<Rightarrow> string" where
  "trace_text heapsize ids wt ts =
     dec heapsize @ nl @ dec ids @ nl @ dec (length ts) @ nl @ dec wt @ requests_text ts"

text \<open>A request the file format can hold.\<close>

definition writable_op :: "traceop_t \<Rightarrow> bool" where
  "writable_op t \<longleftrightarrow> 0 \<le> op_index t \<and> op_index t \<le> INT_MAX \<and> (op_type t \<noteq> FREE \<longrightarrow> 0 \<le> op_size t \<and> op_size t \<le> INT_MAX)"

text \<open>The number of identifiers of a trace: one more than the largest index it allocates.\<close>

fun top_index :: "traceop_t list \<Rightarrow> nat \<Rightarrow> nat" where
  "top_index [] m = m"
| "top_index (t # ts) m = top_index ts (if op_type t = FREE then m else max m (nat (op_index t)))"

definition trace_ids :: "traceop_t list \<Rightarrow> nat" where
  "trace_ids ts = Suc (top_index ts 0)"

text \<open>What the array holds after a request was read: a \<open>free\<close> leaves the size as it was.\<close>

definition stored :: "traceop_t \<Rightarrow> traceop_t \<Rightarrow> traceop_t" where
  "stored old t = (if op_type t = FREE then t\<lparr>op_size := op_size old\<rparr> else t)"

section \<open>Round trip\<close>

lemma requests_text_start: "\<exists>cs. requests_text ts = CHR 0x0A # cs"
  by (cases ts) simp_all

lemma space_chars [simp]: "is_space_char (CHR 0x0A)" "is_space_char (CHR '' '')"
  "\<not> is_digit_char (CHR 0x0A)" "\<not> is_digit_char (CHR '' '')"
  "\<not> is_space_char (CHR ''a'')" "\<not> is_space_char (CHR ''r'')" "\<not> is_space_char (CHR ''f'')"
  by (simp_all add: is_space_char_def is_digit_char_def)

lemma scan_u_dec:
  assumes "list_all is_space_char sp" "ends_number cs" "0 \<le> v" "v \<le> INT_MAX"
  shows "scan_u (sp @ dec (nat v) @ cs) = Inr (Some (of_int v), cs)"
  using assms(3,4) unfolding scan_u_def scan_dec [OF assms(1,2)] by (simp add: INT_MAX_def)

lemma scan_d_dec:
  assumes "list_all is_space_char sp" "ends_number cs" "int n \<le> INT_MAX"
  shows "scan_d (sp @ dec n @ cs) = Inr (Some (int n), cs)"
  using assms(3) unfolding scan_d_def scan_dec [OF assms(1,2)] by (simp add: INT_MAX_def)

lemma int_word:
  assumes "0 \<le> v" "v \<le> INT_MAX"
  shows "unat (of_int v :: uint32) = nat v" "sint (of_int v :: uint32) = v"
proof -
  show s: "sint (of_int v :: uint32) = v" using assms by (intro sint_of_int32) (simp_all add: INT_MAX_def)
  show "unat (of_int v :: uint32) = nat v" using unat_of_sint_nonneg [of "of_int v"] assms(1) unfolding s by simp
qed

lemma read_request_text:
  assumes t: "writable_op t" and room: "r_op_index st < length (r_ops st)"
  shows "\<exists>st'. read_loop (nl @ request_text t @ requests_text ts) st =
      read_loop (requests_text ts) st' \<and> r_op_index st' = Suc (r_op_index st) \<and>
    r_ops st' = (r_ops st)[r_op_index st := stored (r_ops st ! r_op_index st) t] \<and>
    unat (r_max_index st') = (if op_type t = FREE then unat (r_max_index st) else max (unat (r_max_index st)) (nat (op_index t)))"
proof -
  let ?rest = "requests_text ts" and ?i = "op_index t" and ?z = "op_size t"
  have en: "ends_number ?rest" "ends_number ('' '' @ cs)" for cs using requests_text_start [of ts] by (auto simp: ends_number_def)
  have i: "0 \<le> ?i" "?i \<le> INT_MAX" using t by (simp_all add: writable_op_def)
  note iw = int_word [OF i]
  have word: "scan_word (nl @ [c] @ '' '' @ cs) = ([c], '' '' @ cs)" if "\<not> is_space_char c" for c cs
    by (rule scan_word_word) (use that in simp_all)
  have mx: "unat (if (of_int ?i :: uint32) > m then of_int ?i else m) = max (unat m) (nat ?i)" for m
    using iw(1) by (simp add: word_less_nat_alt max_def)
  show ?thesis
  proof (cases "op_type t = FREE")
    case True
    have s: "scan_u ('' '' @ dec (nat ?i) @ ?rest) = Inr (Some (of_int ?i), ?rest)"
      by (rule scan_u_dec) (use en i in simp_all)
    have "\<not> (?rest \<noteq> [] \<and> hd ?rest = CHR ''d'')" using requests_text_start [of ts] by auto
    then have si: "scan_index ('' '' @ dec (nat ?i) @ ?rest) st = Inr (st\<lparr>r_index := of_int ?i\<rparr>, ?rest)"
      unfolding scan_index_def s by auto
    have up: "old\<lparr>op_type := FREE, op_index := ?i\<rparr> = stored old t" for old
      using True by (cases old, cases t) (simp add: stored_def)
    have "read_request (CHR ''f'') ('' '' @ dec (nat ?i) @ ?rest) st =
      Inr (st\<lparr>r_index := of_int ?i, r_ops := (r_ops st)[r_op_index st := stored (r_ops st ! r_op_index st) t]\<rparr>, ?rest)"
      using room unfolding read_request_def si by (simp add: store_free_def iw(2) up)
    then have "read_loop (nl @ request_text t @ ?rest) st = read_loop ?rest (st\<lparr>r_index := of_int ?i,
        r_ops := (r_ops st)[r_op_index st := stored (r_ops st ! r_op_index st) t], r_op_index := Suc (r_op_index st)\<rparr>)"
      using word [of "CHR ''f''" "dec (nat ?i) @ ?rest"] True
      by (subst read_loop.simps) (simp add: request_text_def DRIVER_MAXLINE_def)
    then show ?thesis using True by (intro exI) auto
  next
    case False
    then have z: "0 \<le> ?z" "?z \<le> INT_MAX" using t by (simp_all add: writable_op_def)
    note zw = int_word [OF z]
    have s1: "scan_u ('' '' @ dec (nat ?i) @ '' '' @ dec (nat ?z) @ ?rest) = Inr (Some (of_int ?i), '' '' @ dec (nat ?z) @ ?rest)"
      by (rule scan_u_dec) (use en i in simp_all)
    have s2: "scan_u ('' '' @ dec (nat ?z) @ ?rest) = Inr (Some (of_int ?z), ?rest)"
      by (rule scan_u_dec) (use en z in simp_all)
    have si: "scan_index_size ('' '' @ dec (nat ?i) @ '' '' @ dec (nat ?z) @ ?rest) st =
      Inr (st\<lparr>r_index := of_int ?i, r_size := Some (of_int ?z)\<rparr>, ?rest)"
      unfolding scan_index_size_def s1 by (simp add: s2 [simplified])
    have ty: "op_type t = ALLOC \<or> op_type t = REALLOC" using False by (cases "op_type t") simp_all
    let ?st = "st\<lparr>r_index := of_int ?i, r_size := Some (of_int ?z), r_ops := (r_ops st)[r_op_index st := t],
      r_max_index := if r_max_index st < of_int ?i then of_int ?i else r_max_index st\<rparr>"
    have up: "(r_ops st ! r_op_index st)\<lparr>op_type := op_type t, op_index := ?i, op_size := ?z\<rparr> = t" by simp
    have st: "store_request (op_type t) (st\<lparr>r_index := of_int ?i, r_size := Some (of_int ?z)\<rparr>) = Inr ?st"
      using room unfolding store_request_def by (simp add: iw(2) zw(2) up)
    let ?cs = "'' '' @ dec (nat ?i) @ '' '' @ dec (nat ?z) @ ?rest"
    have "read_request (CHR ''a'') ?cs st = Inr (?st, ?rest)" if "op_type t = ALLOC"
      using st unfolding read_request_def si that by simp
    moreover have "read_request (CHR ''r'') ?cs st = Inr (?st, ?rest)" if "op_type t = REALLOC"
      using st unfolding read_request_def si that by simp
    ultimately have "read_loop (nl @ request_text t @ requests_text ts) st =
      read_loop (requests_text ts) (?st\<lparr>r_op_index := Suc (r_op_index st)\<rparr>)"
      using ty word [of "CHR ''a''" "dec (nat ?i) @ '' '' @ dec (nat ?z) @ ?rest"] word [of "CHR ''r''" "dec (nat ?i) @ '' '' @ dec (nat ?z) @ ?rest"]
      by (subst read_loop.simps) (auto simp add: request_text_def DRIVER_MAXLINE_def)
    then show ?thesis using False mx [of "r_max_index st"]
      by (intro exI [of _ "?st\<lparr>r_op_index := Suc (r_op_index st)\<rparr>"] conjI) (simp_all add: stored_def)
  qed
qed

lemma read_requests:
  assumes "list_all writable_op ts" "r_op_index st + length ts \<le> length (r_ops st)"
  shows "\<exists>st'. read_loop (requests_text ts) st = Inr st' \<and> r_op_index st' = r_op_index st + length ts \<and>
    r_ops st' = take (r_op_index st) (r_ops st) @ map2 stored (drop (r_op_index st) (r_ops st)) ts @
      drop (r_op_index st + length ts) (r_ops st) \<and>
    unat (r_max_index st') = top_index ts (unat (r_max_index st))"
  using assms
proof (induction ts arbitrary: st)
  case Nil
  have "scan_word nl = ([], [])" by (rule scan_word_end) simp
  then show ?case by (subst read_loop.simps) simp
next
  case (Cons t ts)
  let ?k = "r_op_index st" and ?ops = "r_ops st"
  have k: "?k < length ?ops" using Cons.prems(2) by simp
  obtain st1 where s1: "read_loop (nl @ request_text t @ requests_text ts) st = read_loop (requests_text ts) st1"
    "r_op_index st1 = Suc ?k" "r_ops st1 = ?ops[?k := stored (?ops ! ?k) t]"
    "unat (r_max_index st1) = (if op_type t = FREE then unat (r_max_index st) else max (unat (r_max_index st)) (nat (op_index t)))"
    using read_request_text [of t st ts] Cons.prems(1) k by auto
  obtain st' where st': "read_loop (requests_text ts) st1 = Inr st'" "r_op_index st' = r_op_index st1 + length ts"
    "r_ops st' = take (Suc ?k) (r_ops st1) @ map2 stored (drop (Suc ?k) (r_ops st1)) ts @ drop (Suc ?k + length ts) (r_ops st1)"
    "unat (r_max_index st') = top_index ts (unat (r_max_index st1))"
    using Cons.IH [of st1] Cons.prems s1(2,3) by auto
  have "take (Suc ?k) (r_ops st1) = take ?k ?ops @ [stored (?ops ! ?k) t]" using k by (simp add: s1(3) take_Suc_conv_app_nth)
  moreover have "drop ?k ?ops = ?ops ! ?k # drop (Suc ?k) ?ops" using k by (simp add: Cons_nth_drop_Suc)
  ultimately show ?case using s1 st' by simp
qed

lemma malloc_array_exact:
  assumes "malloc_ok L (n * sz)" "n * sz < 2 ^ 32" "0 < sz"
  shows "malloc_array L (int n) sz = Inr n"
proof -
  have "unat (of_int (int n) * of_nat sz :: uint32) = unat (of_nat (n * sz) :: uint32)" by simp
  also have "\<dots> = n * sz" by (rule unat_of_nat_less) (use assms(2) in simp)
  finally show ?thesis using assms(1,3) by (simp add: malloc_array_def Let_def)
qed

text \<open>The library grants what a trace of these sizes needs.\<close>

definition grants :: "libc \<Rightarrow> traceop_t list \<Rightarrow> bool" where
  "grants L ts \<longleftrightarrow> malloc_ok L 28 \<and> malloc_ok L (length ts * 12) \<and> malloc_ok L (trace_ids ts * 4) \<and>
     length ts * 12 < 2 ^ 32 \<and> trace_ids ts * 4 < 2 ^ 32"

definition trace_read :: "libc \<Rightarrow> nat \<Rightarrow> nat \<Rightarrow> traceop_t list \<Rightarrow> trace_t" where
  "trace_read L h wt ts = \<lparr>sugg_heapsize = Some (int h), num_ids = int (trace_ids ts), num_ops = int (length ts),
     weight = Some (int wt), t_ops = map2 stored (map (fresh_ops L) [0..<length ts]) ts,
     t_blocks = replicate (trace_ids ts) None, t_block_sizes = replicate (trace_ids ts) None\<rparr>"

lemma read_trace_text:
  assumes file_ok: "fopen L (dir @ name) = Some (trace_text h (trace_ids ts) wt ts)" "length (dir @ name) < DRIVER_MAXLINE"
    and mem_ok: "grants L ts" and ops: "list_all writable_op ts" and hdr: "int h \<le> INT_MAX" "int wt \<le> INT_MAX"
  shows "read_trace L dir name = Inr (trace_read L h wt ts)"
proof -
  let ?r = "requests_text ts" and ?n = "length ts" and ?ids = "trace_ids ts"
  have g: "malloc_ok L 28" "malloc_ok L (?n * 12)" "malloc_ok L (?ids * 4)" "?n * 12 < 2 ^ 32" "?ids * 4 < 2 ^ 32"
    using mem_ok by (simp_all add: grants_def)
  have n: "int ?n \<le> INT_MAX" "int ?ids \<le> INT_MAX" using g(4,5) by (simp_all add: INT_MAX_def)
  have en: "ends_number (nl @ cs)" "ends_number ?r" for cs using requests_text_start [of ts] by (auto simp: ends_number_def)
  have o: "open_trace L dir name = Inr ([] @ dec h @ nl @ dec ?ids @ nl @ dec ?n @ nl @ dec wt @ ?r)"
    using file_ok by (simp add: open_trace_def Let_def trace_text_def)
  note d = scan_d_dec [of "[]", OF _ en(1) hdr(1)] scan_d_dec [of nl, OF _ en(1) n(2)] scan_d_dec [of nl, OF _ en(1) n(1)]
    scan_d_dec [of nl, OF _ en(2) hdr(2)]
  let ?st = "\<lparr>r_index = 0, r_size = None, r_max_index = 0, r_op_index = 0, r_ops = map (fresh_ops L) [0..<?n]\<rparr>"
  obtain st where st: "read_loop ?r ?st = Inr st" "r_op_index st = ?n"
    "r_ops st = map2 stored (map (fresh_ops L) [0..<?n]) ts" "unat (r_max_index st) = top_index ts 0"
    using read_requests [OF ops, of ?st] by auto
  have top: "iadd (int ?ids) (- 1) = Inr (int (top_index ts 0))" using n(2) by (simp add: iadd_def trace_ids_def INT_MAX_def)
  have mx: "r_max_index st = of_int (int (top_index ts 0))" using word_eq_of_unat [OF st(4)] by simp
  show ?thesis
    using g(1) malloc_array_exact [OF g(2,4)] malloc_array_exact [OF g(3,5)] d [simplified] st(1-3) mx
    unfolding read_trace_def o
    by (simp add: init_value_def top c_assert_def trace_read_def)
qed

text \<open>C17. A trace file round trip: reading a file with the lines of a trace gives back its requests and its header, whatever the
memory from \<open>malloc\<close> holds; only the size field of a \<open>free\<close>, which the reader does not set, is that of the memory.\<close>

theorem trace_file_roundtrip:
  assumes "fopen L (dir @ name) = Some (trace_text h (trace_ids ts) wt ts)" "length (dir @ name) < DRIVER_MAXLINE"
    and "grants L ts" "list_all writable_op ts" "int h \<le> INT_MAX" "int wt \<le> INT_MAX"
  shows "\<exists>t. read_trace L dir name = Inr t \<and> num_ids t = int (trace_ids ts) \<and> num_ops t = int (length ts) \<and>
    sugg_heapsize t = Some (int h) \<and> weight t = Some (int wt) \<and>
    list_all2 (\<lambda>u v. op_type v = op_type u \<and> op_index v = op_index u \<and> (op_type u = FREE \<or> op_size v = op_size u)) ts (t_ops t) \<and>
    length (t_blocks t) = trace_ids ts \<and> length (t_block_sizes t) = trace_ids ts"
proof -
  have "list_all2 (\<lambda>u v. op_type v = op_type u \<and> op_index v = op_index u \<and> (op_type u = FREE \<or> op_size v = op_size u)) ts
    (map2 stored (map (fresh_ops L) [0..<length ts]) ts)"
    by (auto simp: list_all2_conv_all_nth stored_def)
  then show ?thesis using read_trace_text [OF assms] by (simp add: trace_read_def)
qed

definition sample_trace :: "traceop_t list" where
  "sample_trace = [\<lparr>op_type = ALLOC, op_index = 0, op_size = 2040\<rparr>, \<lparr>op_type = ALLOC, op_index = 1, op_size = 48\<rparr>,
     \<lparr>op_type = FREE, op_index = 0, op_size = 0\<rparr>, \<lparr>op_type = REALLOC, op_index = 1, op_size = 64\<rparr>]"

definition sample_libc :: libc where
  "sample_libc = \<lparr>fopen = (\<lambda>path. if path = ''t/x.rep'' then Some (trace_text 20000 2 1 sample_trace) else None),
     malloc_ok = (\<lambda>n. n < 100), fresh_ops = (\<lambda>i. \<lparr>op_type = REALLOC, op_index = - 7, op_size = 99\<rparr>)\<rparr>"

lemma sample_facts:
  "trace_ids sample_trace = 2" "length sample_trace = 4" "grants sample_libc sample_trace" "list_all writable_op sample_trace"
proof -
  show ids: "trace_ids sample_trace = 2" "length sample_trace = 4" by (simp_all add: trace_ids_def sample_trace_def)
  show "grants sample_libc sample_trace" unfolding grants_def ids by (simp add: sample_libc_def)
  show "list_all writable_op sample_trace" by (simp add: sample_trace_def writable_op_def INT_MAX_def)
qed

lemma sample_read: "\<exists>t. read_trace sample_libc ''t/'' ''x.rep'' = Inr t \<and> num_ids t = 2"
  using read_trace_text [OF _ _ sample_facts(3,4), of "''t/''" "''x.rep''" 20000 1] sample_facts(1)
  by (auto simp: sample_libc_def DRIVER_MAXLINE_def INT_MAX_def trace_read_def)

theorem trace_file_roundtrip_witness:
  "trace_text 20000 2 1 sample_trace = ''20000'' @ nl @ ''2'' @ nl @ ''4'' @ nl @ ''1'' @ nl @ ''a 0 2040'' @ nl @ ''a 1 48'' @ nl @ ''f 0'' @ nl @ ''r 1 64'' @ nl \<and>
   (\<exists>t. read_trace sample_libc ''t/'' ''x.rep'' = Inr t \<and> num_ids t = 2 \<and> num_ops t = 4)"
proof
  show "trace_text 20000 2 1 sample_trace = ''20000'' @ nl @ ''2'' @ nl @ ''4'' @ nl @ ''1'' @ nl @ ''a 0 2040'' @ nl @ ''a 1 48'' @ nl @ ''f 0'' @ nl @ ''r 1 64'' @ nl"
    by (simp add: trace_text_def sample_trace_def request_text_def dec.simps char_of_def bit_Suc_0_iff)
  show "\<exists>t. read_trace sample_libc ''t/'' ''x.rep'' = Inr t \<and> num_ids t = 2 \<and> num_ops t = 4"
    using trace_file_roundtrip [of sample_libc "''t/''" "''x.rep''" 20000 sample_trace 1] sample_facts
    by (auto simp: sample_libc_def DRIVER_MAXLINE_def INT_MAX_def)
qed

section \<open>What any file is read as\<close>

definition read_inv :: "reader \<Rightarrow> bool" where
  "read_inv st \<longleftrightarrow> r_op_index st \<le> length (r_ops st) \<and>
     (\<forall>k<r_op_index st. op_type (r_ops st ! k) \<noteq> FREE \<longrightarrow> (\<exists>w\<le>r_max_index st. op_index (r_ops st ! k) = sint w))"

lemma scan_keeps:
  "scan_index_size cs st = Inr (st', cs') \<Longrightarrow> r_ops st' = r_ops st \<and> r_op_index st' = r_op_index st \<and> r_max_index st' = r_max_index st"
  "scan_index cs st = Inr (st', cs') \<Longrightarrow> r_ops st' = r_ops st \<and> r_op_index st' = r_op_index st \<and> r_max_index st' = r_max_index st"
  by (auto simp: scan_index_size_def scan_index_def sbind_Inr_iff Let_def split: option.splits)

definition stores :: "reader \<Rightarrow> reader \<Rightarrow> traceop_t \<Rightarrow> bool" where
  "stores st st' u \<longleftrightarrow> r_op_index st < length (r_ops st) \<and> r_op_index st' = r_op_index st \<and>
     r_ops st' = (r_ops st)[r_op_index st := u] \<and> r_max_index st \<le> r_max_index st' \<and>
     (op_type u \<noteq> FREE \<longrightarrow> (\<exists>w\<le>r_max_index st'. op_index u = sint w))"

lemma store_request_stores:
  assumes "store_request ty st = Inr st'"
  shows "\<exists>u. stores st st' u"
proof -
  obtain z where z: "r_op_index st < length (r_ops st)" "r_size st = Some z"
    using assms by (auto simp: store_request_def sbind_Inr_iff rd_def split: option.splits if_splits)
  let ?u = "(r_ops st ! r_op_index st)\<lparr>op_type := ty, op_index := sint (r_index st), op_size := sint z\<rparr>"
  have "st' = st\<lparr>r_ops := (r_ops st)[r_op_index st := ?u],
      r_max_index := (if r_index st > r_max_index st then r_index st else r_max_index st)\<rparr>"
    using assms z by (simp add: store_request_def)
  then have "stores st st' ?u" using z by (auto simp: stores_def intro!: exI [of _ "r_index st"])
  then show ?thesis ..
qed

lemma store_free_stores:
  assumes "store_free st = Inr st'"
  shows "\<exists>u. stores st st' u"
proof -
  have i: "r_op_index st < length (r_ops st)"
    using assms by (auto simp: store_free_def sbind_Inr_iff rd_def split: if_splits)
  let ?u = "(r_ops st ! r_op_index st)\<lparr>op_type := FREE, op_index := sint (r_index st)\<rparr>"
  have "st' = st\<lparr>r_ops := (r_ops st)[r_op_index st := ?u]\<rparr>" using assms i by (simp add: store_free_def)
  then have "stores st st' ?u" using i by (simp add: stores_def)
  then show ?thesis ..
qed

lemma read_request_stores:
  assumes "read_request c cs st = Inr (st', cs')"
  shows "\<exists>u. stores st st' u"
proof -
  obtain st1 where st1: "scan_index_size cs st = Inr (st1, cs') \<or> scan_index cs st = Inr (st1, cs')"
    "(\<exists>ty. store_request ty st1 = Inr st') \<or> store_free st1 = Inr st'"
    using assms unfolding read_request_def sbind_Inr_iff by (auto simp: sbind_Inr_iff split: if_splits)
  obtain u where "stores st1 st' u" using st1(2) store_request_stores store_free_stores by blast
  then show ?thesis using st1(1) scan_keeps by (auto simp: stores_def)
qed

lemma read_request_inv:
  assumes "read_request c cs st = Inr (st', cs')" "read_inv st"
  shows "length (r_ops st') = length (r_ops st) \<and> read_inv (st'\<lparr>r_op_index := Suc (r_op_index st')\<rparr>)"
proof -
  obtain u where u: "r_op_index st < length (r_ops st)" "r_op_index st' = r_op_index st" "r_ops st' = (r_ops st)[r_op_index st := u]"
    "r_max_index st \<le> r_max_index st'" "op_type u \<noteq> FREE \<longrightarrow> (\<exists>w\<le>r_max_index st'. op_index u = sint w)"
    using read_request_stores [OF assms(1)] unfolding stores_def by blast
  have "\<exists>w\<le>r_max_index st'. op_index ((r_ops st)[r_op_index st := u] ! k) = sint w"
    if "k < Suc (r_op_index st)" "op_type ((r_ops st)[r_op_index st := u] ! k) \<noteq> FREE" for k
  proof (cases "k = r_op_index st")
    case True
    then show ?thesis using u(1,5) that(2) by simp
  next
    case False
    then have "\<exists>w\<le>r_max_index st. op_index (r_ops st ! k) = sint w" using assms(2) that by (auto simp: read_inv_def)
    then show ?thesis using False u(4) by (auto intro: order_trans)
  qed
  then show ?thesis using u by (simp add: read_inv_def)
qed

lemma read_loop_inv:
  "read_loop cs st = Inr st' \<Longrightarrow> read_inv st \<Longrightarrow> read_inv st' \<and> length (r_ops st') = length (r_ops st)"
proof (induction cs st rule: read_loop.induct)
  case (1 cs st)
  show ?case
  proof (cases "fst (scan_word cs) = []")
    case True
    then show ?thesis using "1.prems" by (subst (asm) read_loop.simps) simp
  next
    case False
    then have len: "length (fst (scan_word cs)) < DRIVER_MAXLINE" using "1.prems"(1) by (subst (asm) read_loop.simps) (simp split: if_splits)
    then obtain st1 cs1 where p: "read_request (hd (fst (scan_word cs))) (snd (scan_word cs)) st = Inr (st1, cs1)"
      "read_loop cs1 (st1\<lparr>r_op_index := Suc (r_op_index st1)\<rparr>) = Inr st'"
      using "1.prems"(1) False by (subst (asm) read_loop.simps) (auto simp: sbind_Inr_iff)
    note inv = read_request_inv [OF p(1) "1.prems"(2)]
    show ?thesis using "1.IH" [OF False _ p(1)] p(2) inv len by simp
  qed
qed

lemma scan_d_range: "scan_d cs = Inr (Some v, cs') \<Longrightarrow> - INT_MAX - 1 \<le> v \<and> v \<le> INT_MAX"
  by (auto simp: scan_d_def split: option.splits if_splits)

lemma init_value_Some: "init_value v = Inr x \<Longrightarrow> v = Some x"
  by (simp add: init_value_def split: option.splits)

lemma array_full:
  assumes "malloc_array L n 12 = Inr olen" "i \<le> olen" "of_int n = (of_nat i :: uint32)" "- INT_MAX - 1 \<le> n" "n \<le> INT_MAX"
  shows "n = int i \<and> olen = i"
proof -
  let ?b = "unat (of_int n * of_nat 12 :: uint32)"
  have ol: "olen = ?b div 12" using assms(1) by (simp add: malloc_array_def Let_def split: if_splits)
  have "i * 12 \<le> ?b" using assms(2) unfolding ol by (simp add: less_eq_div_iff_mult_less_eq)
  then have i: "i * 12 < 2 ^ 32" using unat32_less [of "of_int n * of_nat 12"] by simp
  then have u: "unat (of_nat i :: uint32) = i" by (intro unat_of_nat_less) simp
  have "sint (of_nat i :: uint32) = int i" using sint_nonneg32 [of "of_nat i"] u i by simp
  moreover have "sint (of_int n :: uint32) = n" using assms(4,5) by (intro sint_of_int32) (simp_all add: INT_MAX_def)
  ultimately have n: "n = int i" using assms(3) by simp
  have "(of_int n * of_nat 12 :: uint32) = of_nat (i * 12)" by (simp add: n)
  then have "?b = unat (of_nat (i * 12) :: uint32)" by (rule arg_cong)
  also have "\<dots> = i * 12" by (rule unat_of_nat_less) (use i in simp)
  finally have "olen = i" unfolding ol by simp
  with n show ?thesis by simp
qed

lemma word_below_index:
  assumes "w \<le> (of_int hi :: uint32)" "0 \<le> hi" "hi \<le> INT_MAX"
  shows "0 \<le> sint w \<and> sint w \<le> hi"
proof -
  have w: "unat w \<le> nat hi" using assms(1) int_word(1) [OF assms(2,3)] by (simp add: word_le_nat_alt)
  then have "sint w = int (unat w)" using assms(2,3) by (intro sint_nonneg32) (simp add: INT_MAX_def)
  moreover have "int (unat w) \<le> hi" using w assms(2) by linarith
  ultimately show ?thesis using of_nat_0_le_iff [of "unat w", where 'a = int] by linarith
qed

lemma malloc_array_len: "malloc_array L n sz = Inr k \<Longrightarrow> k = unat (of_int n * of_nat sz :: uint32) div sz"
  by (simp add: malloc_array_def Let_def split: if_splits)

lemma ids_array_len:
  assumes "0 < n" "n < 2 ^ 30"
  shows "unat (of_int n * of_nat 4 :: uint32) div 4 = nat n"
proof -
  have "of_int n * of_nat 4 = (of_nat (nat n * 4) :: uint32)" using assms(1) by simp
  then have "unat (of_int n * of_nat 4 :: uint32) = unat (of_nat (nat n * 4) :: uint32)" by (rule arg_cong)
  also have "\<dots> = nat n * 4" by (rule unat_of_nat_less) (use assms in simp)
  finally show ?thesis by simp
qed

text \<open>C18. What the reader guarantees when it returns a trace, whatever the file: the array of requests holds exactly the
number of requests of the header; the arrays of blocks and sizes have the lengths that the products modulo \<open>2 ^ 32\<close> leave;
when the header announces a positive number of identifiers every index that is allocated or resized is non-negative and below
that number; and when that number is also below \<open>2 ^ 30\<close>, so that the product does not wrap, these indices lie inside
both arrays. The index of a \<open>free\<close> is not checked, and nothing is guaranteed for a number of identifiers that is not positive.\<close>

theorem trace_reader_sound:
  assumes "read_trace L dir name = Inr t"
  shows "int (length (t_ops t)) = num_ops t \<and>
    length (t_blocks t) = unat (of_int (num_ids t) * of_nat 4 :: uint32) div 4 \<and> length (t_block_sizes t) = length (t_blocks t) \<and>
    (0 < num_ids t \<longrightarrow> (\<forall>u\<in>set (t_ops t). op_type u \<noteq> FREE \<longrightarrow> 0 \<le> op_index u \<and> op_index u < num_ids t)) \<and>
    (0 < num_ids t \<and> num_ids t < 2 ^ 30 \<longrightarrow> (\<forall>u\<in>set (t_ops t). op_type u \<noteq> FREE \<longrightarrow>
       0 \<le> op_index u \<and> op_index u < int (length (t_blocks t)) \<and> op_index u < int (length (t_block_sizes t))))"
proof -
  obtain cs n ids olen blen slen st hi c1 c2 c3 c4 where sc: "scan_d c1 = Inr (Some n, c2)" "scan_d c3 = Inr (Some ids, c4)" and r:
    "malloc_array L n 12 = Inr olen"
    "read_loop cs \<lparr>r_index = 0, r_size = None, r_max_index = 0, r_op_index = 0, r_ops = map (fresh_ops L) [0..<olen]\<rparr> = Inr st"
    "iadd ids (- 1) = Inr hi" "r_max_index st = of_int hi" "of_int n = (of_nat (r_op_index st) :: uint32)"
    "t_ops t = r_ops st" "num_ops t = n" "num_ids t = ids"
    and a: "malloc_array L ids 4 = Inr blen" "malloc_array L ids 4 = Inr slen" "length (t_blocks t) = blen" "length (t_block_sizes t) = slen"
    using assms by (auto simp: read_trace_def sbind_Inr_iff c_assert_def dest!: init_value_Some split: if_splits)
  note rg = scan_d_range [OF sc(1)] scan_d_range [OF sc(2)]
  let ?st = "\<lparr>r_index = 0, r_size = None, r_max_index = 0, r_op_index = 0, r_ops = map (fresh_ops L) [0..<olen]\<rparr>"
  have inv: "read_inv st" "length (r_ops st) = olen" using read_loop_inv [OF r(2)] by (simp_all add: read_inv_def)
  then have n: "n = int (r_op_index st)" "olen = r_op_index st"
    using array_full [OF r(1) _ r(5)] rg by (simp_all add: read_inv_def)
  have idx: "0 \<le> op_index u \<and> op_index u < ids" if u: "0 < ids" "u \<in> set (r_ops st)" "op_type u \<noteq> FREE" for u
  proof -
    obtain k where k: "k < r_op_index st" "r_ops st ! k = u" using u(2) inv(2) n(2) by (auto simp: in_set_conv_nth)
    then have "\<exists>w\<le>r_max_index st. op_index u = sint w" using inv(1) u(3) by (auto simp: read_inv_def)
    then obtain w where w: "w \<le> (of_int hi :: uint32)" "op_index u = sint w"
      unfolding r(4) by (elim exE conjE) (rule that)
    have "hi = ids - 1" "0 \<le> hi" "hi \<le> INT_MAX" using rg r(3) u(1) by (auto simp: iadd_def split: if_splits)
    then show ?thesis using word_below_index [OF w(1)] w(2) by simp
  qed
  have len: "length (t_blocks t) = unat (of_int ids * of_nat 4 :: uint32) div 4" "length (t_block_sizes t) = length (t_blocks t)"
    using malloc_array_len [OF a(1)] a by simp_all
  have "int (length (t_blocks t)) = ids" if "0 < ids" "ids < 2 ^ 30" using ids_array_len [OF that] len(1) that(1) by simp
  then show ?thesis using r(6-8) n inv(2) idx len by simp
qed

theorem trace_reader_sound_witness:
  "\<exists>t. read_trace sample_libc ''t/'' ''x.rep'' = Inr t \<and> int (length (t_ops t)) = num_ops t \<and>
     (\<forall>u\<in>set (t_ops t). op_type u \<noteq> FREE \<longrightarrow> 0 \<le> op_index u \<and> op_index u < int (length (t_blocks t)))"
proof -
  obtain t where t: "read_trace sample_libc ''t/'' ''x.rep'' = Inr t" "num_ids t = 2" using sample_read by blast
  show ?thesis using trace_reader_sound [OF t(1)] t by auto
qed

text \<open>
  Both bounds on the number of identifiers are needed: with none the assertion accepts the index \<open>- 1\<close>, and with
  \<open>2 ^ 30\<close> the products wrap to zero and arrays without elements go with any index.
\<close>

definition libc_of :: "string \<Rightarrow> libc" where
  "libc_of cs = \<lparr>fopen = (\<lambda>path. Some cs), malloc_ok = (\<lambda>n. n < 100), fresh_ops = (\<lambda>i. \<lparr>op_type = REALLOC, op_index = 0, op_size = 0\<rparr>)\<rparr>"

lemma reader_accepts_no_ids:
  "map_sum id t_ops (read_trace (libc_of ''0 0 1 1 a 4294967295 8'') [] []) = Inr [\<lparr>op_type = ALLOC, op_index = - 1, op_size = 8\<rparr>]"
  by code_simp

lemma reader_accepts_wrapped_ids:
  "map_sum id (\<lambda>t. (t_ops t, t_blocks t)) (read_trace (libc_of ''0 1073741824 1 1 a 1073741823 8'') [] []) =
     Inr ([\<lparr>op_type = ALLOC, op_index = 1073741823, op_size = 8\<rparr>], [])"
  by code_simp

end
