(* ===== verification/Mdriver_Util.thy ===== *)
theory Mdriver_Util
  imports Mdriver
begin

text \<open>
  The driver's other two passes over a trace: \<open>eval_mm_util\<close>, which measures the
  peak of the live bytes against the size of the heap, and \<open>eval_mm_speed\<close>, the
  run that is timed. Both exit when a request fails.
\<close>

record util_state =
  u_heap :: mm_state
  u_blocks :: "nat option list"
  u_sizes :: "nat option list"
  u_total :: int
  u_max :: int

definition util_peak :: "int \<Rightarrow> util_state \<Rightarrow> util_state exec" where
  "util_peak change u =
     sbind (iadd (u_total u) change) (\<lambda>total.
     Inr (u\<lparr>u_total := total, u_max := (if total > u_max u then total else u_max u)\<rparr>))"

definition util_store :: "int \<Rightarrow> nat \<Rightarrow> int \<Rightarrow> util_state \<Rightarrow> util_state exec" where
  "util_store index p sz u =
     sbind (wri (u_blocks u) index (Some p)) (\<lambda>bs.
     sbind (wri (u_sizes u) index (Some (nat sz))) (\<lambda>ss.
     Inr (u\<lparr>u_blocks := bs, u_sizes := ss\<rparr>)))"

fun util_op :: "fl_ops \<Rightarrow> bool \<Rightarrow> traceop_t \<Rightarrow> util_state \<Rightarrow> util_state exec" where
  "util_op ops check t u =
     (let index = op_index t; sz = op_size t in
      case op_type t of
        ALLOC \<Rightarrow>
          sbind (mm_malloc ops check (of_int sz) (u_heap u)) (\<lambda>(r, h).
          case r of None \<Rightarrow> Inl ExitCalled
          | Some p \<Rightarrow> sbind (util_store index p sz (u\<lparr>u_heap := h\<rparr>)) (util_peak sz))
      | REALLOC \<Rightarrow>
          sbind (rd_init (u_sizes u) index) (\<lambda>oldsize.
          sbind (rd_init (u_blocks u) index) (\<lambda>oldp.
          sbind (mm_realloc ops check (Some oldp) (of_int sz) (u_heap u)) (\<lambda>(r, h).
          case r of None \<Rightarrow> Inl ExitCalled
          | Some newp \<Rightarrow> sbind (util_store index newp sz (u\<lparr>u_heap := h\<rparr>)) (\<lambda>u.
              sbind (iadd sz (- int oldsize)) (\<lambda>change. util_peak change u)))))
      | FREE \<Rightarrow>
          sbind (rd_init (u_sizes u) index) (\<lambda>size.
          sbind (rd_init (u_blocks u) index) (\<lambda>p.
          sbind (mm_free ops check (Some p) (u_heap u)) (\<lambda>h.
          sbind (iadd (u_total u) (- int size)) (\<lambda>total.
          Inr (u\<lparr>u_heap := h, u_total := total\<rparr>))))))"

fun util_ops :: "fl_ops \<Rightarrow> bool \<Rightarrow> traceop_t list \<Rightarrow> util_state \<Rightarrow> util_state exec" where
  "util_ops ops check [] u = Inr u"
| "util_ops ops check (t # ts) u = sbind (util_op ops check t u) (util_ops ops check ts)"

text \<open>The result is the pair of the two integers whose quotient the function returns as a \<open>double\<close>.\<close>

definition eval_mm_util :: "fl_ops \<Rightarrow> bool \<Rightarrow> traceop_t list \<Rightarrow> driver \<Rightarrow> ((int \<times> nat) \<times> driver) exec" where
  "eval_mm_util ops check ts d =
     sbind (mm_init ops check (mem_reset_brk (d_heap d))) (\<lambda>(r, h).
     if r < 0 then Inl ExitCalled
     else sbind (util_ops ops check ts \<lparr>u_heap = h, u_blocks = d_blocks d, u_sizes = d_sizes d, u_total = 0, u_max = 0\<rparr>) (\<lambda>u.
       Inr ((u_max u, mem_heapsize (u_heap u)),
            d\<lparr>d_heap := u_heap u, d_blocks := u_blocks u, d_sizes := u_sizes u\<rparr>)))"

fun speed_op :: "fl_ops \<Rightarrow> bool \<Rightarrow> traceop_t \<Rightarrow> driver \<Rightarrow> driver exec" where
  "speed_op ops check t d =
     (let index = op_index t; sz = op_size t in
      case op_type t of
        ALLOC \<Rightarrow>
          sbind (mm_malloc ops check (of_int sz) (d_heap d)) (\<lambda>(r, h).
          case r of None \<Rightarrow> Inl ExitCalled
          | Some p \<Rightarrow> sbind (wri (d_blocks d) index (Some p)) (\<lambda>bs. Inr (d\<lparr>d_heap := h, d_blocks := bs\<rparr>)))
      | REALLOC \<Rightarrow>
          sbind (rd_init (d_blocks d) index) (\<lambda>oldp.
          sbind (mm_realloc ops check (Some oldp) (of_int sz) (d_heap d)) (\<lambda>(r, h).
          case r of None \<Rightarrow> Inl ExitCalled
          | Some newp \<Rightarrow> sbind (wri (d_blocks d) index (Some newp)) (\<lambda>bs. Inr (d\<lparr>d_heap := h, d_blocks := bs\<rparr>))))
      | FREE \<Rightarrow>
          sbind (rd_init (d_blocks d) index) (\<lambda>block.
          sbind (mm_free ops check (Some block) (d_heap d)) (\<lambda>h. Inr (d\<lparr>d_heap := h\<rparr>))))"

fun speed_ops :: "fl_ops \<Rightarrow> bool \<Rightarrow> traceop_t list \<Rightarrow> driver \<Rightarrow> driver exec" where
  "speed_ops ops check [] d = Inr d"
| "speed_ops ops check (t # ts) d = sbind (speed_op ops check t d) (speed_ops ops check ts)"

definition eval_mm_speed :: "fl_ops \<Rightarrow> bool \<Rightarrow> traceop_t list \<Rightarrow> driver \<Rightarrow> driver exec" where
  "eval_mm_speed ops check ts d =
     sbind (mm_init ops check (mem_reset_brk (d_heap d))) (\<lambda>(r, h).
     if r < 0 then Inl ExitCalled else speed_ops ops check ts (d\<lparr>d_heap := h\<rparr>))"

section \<open>The table of live blocks\<close>

text \<open>\<open>P\<close> maps the live indices to their block and its requested size, as for \<open>eval_mm_valid\<close>.\<close>

definition in_table :: "mm_state \<Rightarrow> blk list \<Rightarrow> nat option list \<Rightarrow> int \<Rightarrow> nat \<times> nat \<Rightarrow> bool" where
  "in_table h rs bs i e \<longleftrightarrow> 0 \<le> i \<and> i < int (length bs) \<and> bs ! nat i = Some (fst e) \<and>
     (\<exists>k. allocated h rs (fst e) = Some k \<and> snd e + 4 \<le> k)"

definition table_inv :: "mm_config \<Rightarrow> mm_state \<Rightarrow> nat option list \<Rightarrow> (int \<Rightarrow> (nat \<times> nat) option) \<Rightarrow> bool" where
  "table_inv c h bs P \<longleftrightarrow>
     (\<exists>rs. mm_state_ok c h rs \<and> (\<forall>i e. P i = Some e \<longrightarrow> in_table h rs bs i e)) \<and>
     inj_on (\<lambda>i. fst (the (P i))) (dom P)"

lemma table_inv_upd:
  assumes ok: "mm_state_ok c h' rs'"
    and oth: "\<And>j e. P j = Some e \<Longrightarrow> j \<noteq> i \<Longrightarrow> fst e \<noteq> p \<and> allocated h' rs' (fst e) = allocated h rs (fst e)"
    and tab: "\<And>j e. P j = Some e \<Longrightarrow> in_table h rs bs j e" and inj: "inj_on (\<lambda>i. fst (the (P i))) (dom P)"
    and i: "0 \<le> i" "i < int (length bs)" and new: "allocated h' rs' p = Some k" "n + 4 \<le> k"
  shows "table_inv c h' (bs[nat i := Some p]) (P(i \<mapsto> (p, n)))"
proof -
  have "in_table h' rs' (bs[nat i := Some p]) j e" if e: "(P(i \<mapsto> (p, n))) j = Some e" for j e
  proof (cases "j = i")
    case True
    then show ?thesis using e i new by (auto simp: in_table_def)
  next
    case False
    then have Pj: "P j = Some e" using e by simp
    have "nat i \<noteq> nat j" using False i(1) tab [OF Pj] by (auto simp: in_table_def)
    then show ?thesis using tab [OF Pj] oth [OF Pj False] by (simp add: in_table_def)
  qed
  moreover have "inj_on (\<lambda>j. fst (the ((P(i \<mapsto> (p, n))) j))) (insert i (dom P))"
  proof (rule inj_onI)
    fix j j' assume jj: "j \<in> insert i (dom P)" "j' \<in> insert i (dom P)"
      and eq: "fst (the ((P(i \<mapsto> (p, n))) j)) = fst (the ((P(i \<mapsto> (p, n))) j'))"
    have ne: "fst (the (P l)) \<noteq> p" if "l \<in> dom P" "l \<noteq> i" for l using that oth [of l] by auto
    show "j = j'"
      using jj eq ne [of j] ne [of j'] inj_onD [OF inj, of j j'] by (auto split: if_splits)
  qed
  ultimately show ?thesis using ok unfolding table_inv_def dom_fun_upd by auto
qed

lemma table_malloc:
  assumes "table_inv c h bs P" "0 \<le> i" "i < int (length bs)" "P i = None" "size_ok sz"
  shows "\<exists>r h'. mm_malloc (config_ops c ff) check (of_int sz) h = Inr (r, h') \<and> grows (request_size c sz) h h' \<and>
    (case r of None \<Rightarrow> starved h (request_size c sz)
     | Some p \<Rightarrow> table_inv c h' (bs[nat i := Some p]) (P(i \<mapsto> (p, nat sz))))"
proof -
  obtain rs where I: "mm_state_ok c h rs" and tab: "\<And>j e. P j = Some e \<Longrightarrow> in_table h rs bs j e"
    and inj: "inj_on (\<lambda>i. fst (the (P i))) (dom P)" using assms(1) unfolding table_inv_def by blast
  note w = size_word [OF assms(5)]
  obtain r h' where r: "mm_malloc (config_ops c ff) check (of_int sz) h = Inr (r, h')" "malloc_post c h rs (nat sz) (r, h')"
    using cfg.mm_malloc_ok [OF I [unfolded mm_state_ok_def], of "of_int sz" ff check] mallocs_post [of c h rs "nat sz"] w
    by fastforce
  show ?thesis
  proof (cases r)
    case None
    then show ?thesis using r by (simp add: malloc_post_def starved_def request_size_def)
  next
    case (Some p)
    then obtain rs' k where p: "mm_state_ok c h' rs'" "allocated h rs p = None" "nat sz + 4 \<le> k"
      "allocated h' rs' = (allocated h rs)(p \<mapsto> k)" "keeps h h' (allocated h rs)"
      "mem_brk h' \<le> mem_brk h + request_size c sz"
      using r(2) by (auto simp: malloc_post_def request_size_def)
    have "fst e \<noteq> p \<and> allocated h' rs' (fst e) = allocated h rs (fst e)" if "P j = Some e" for j e
      using tab [OF that] p(2,4) by (auto simp: in_table_def)
    then have "table_inv c h' (bs[nat i := Some p]) (P(i \<mapsto> (p, nat sz)))"
      by (intro table_inv_upd [OF p(1) _ tab inj assms(2,3) _ p(3)]) (use p(4) in auto)
    then show ?thesis using r(1) Some keeps_grows [OF p(5,6)] by auto
  qed
qed

lemma table_realloc:
  assumes "table_inv c h bs P" "P i = Some (p, n)" "size_ok sz"
  shows "\<exists>r h'. mm_realloc (config_ops c ff) check (Some p) (of_int sz) h = Inr (r, h') \<and> grows (3 * request_size c sz) h h' \<and>
    (case r of None \<Rightarrow> starved h (3 * request_size c sz)
     | Some q \<Rightarrow> table_inv c h' (bs[nat i := Some q]) (P(i \<mapsto> (q, nat sz))))"
proof -
  obtain rs where I: "mm_state_ok c h rs" and tab: "\<And>j e. P j = Some e \<Longrightarrow> in_table h rs bs j e"
    and inj: "inj_on (\<lambda>i. fst (the (P i))) (dom P)" using assms(1) unfolding table_inv_def by blast
  note w = size_word [OF assms(3)]
  obtain k where k: "allocated h rs p = Some k" using tab [OF assms(2)] by (auto simp: in_table_def)
  obtain r h' where r: "mm_realloc (config_ops c ff) check (Some p) (of_int sz) h = Inr (r, h')"
    "realloc_post c h rs p k (nat sz) (r, h')"
    using cfg.mm_realloc_ok [OF I [unfolded mm_state_ok_def] k, of "of_int sz" ff check] w
      reallocs_post [of c h rs p k "nat sz"] k by fastforce
  show ?thesis
  proof (cases r)
    case None
    then have "keeps h h' (allocated h rs)" "starved h (3 * request_size c sz)" "mem_brk h' \<le> mem_brk h + 3 * request_size c sz"
      using r(2) by (auto simp: realloc_post_def starved_def request_size_def)
    then show ?thesis using r(1) None keeps_grows by auto
  next
    case (Some q)
    then obtain rs' k' where q: "mm_state_ok c h' rs'" "q = p \<or> allocated h rs q = None" "nat sz + 4 \<le> k'"
      "allocated h' rs' = (allocated h rs)(p := None, q \<mapsto> k')" "keeps h h' ((allocated h rs)(p := None))"
      "mem_brk h' \<le> mem_brk h + 3 * request_size c sz"
      using r(2) by (auto simp: realloc_post_def request_size_def)
    have oth: "fst e \<noteq> q \<and> allocated h' rs' (fst e) = allocated h rs (fst e)" if e: "P j = Some e" "j \<noteq> i" for j e
    proof -
      have "fst e \<noteq> p" using inj_onD [OF inj, of j i] e assms(2) by auto
      then show ?thesis using tab [OF e(1)] q(2,4) by (auto simp: in_table_def)
    qed
    have "table_inv c h' (bs[nat i := Some q]) (P(i \<mapsto> (q, nat sz)))"
      by (rule table_inv_upd [OF q(1) oth tab inj _ _ _ q(3)]) (use q(4) tab [OF assms(2)] in \<open>auto simp: in_table_def\<close>)
    then show ?thesis using r(1) Some keeps_grows [OF q(5,6)] by auto
  qed
qed

lemma table_free:
  assumes "table_inv c h bs P" "P i = Some (p, n)"
  shows "\<exists>h'. mm_free (config_ops c ff) check (Some p) h = Inr h' \<and> grows 0 h h' \<and> table_inv c h' bs (P(i := None))"
proof -
  obtain rs where I: "mm_state_ok c h rs" and tab: "\<And>j e. P j = Some e \<Longrightarrow> in_table h rs bs j e"
    and inj: "inj_on (\<lambda>i. fst (the (P i))) (dom P)" using assms(1) unfolding table_inv_def by blast
  obtain k where k: "allocated h rs p = Some k" using tab [OF assms(2)] by (auto simp: in_table_def)
  obtain m' rs' where f: "mm_free (config_ops c ff) check (Some p) h = Inr (h\<lparr>mem := m'\<rparr>)"
    "mm_state_ok c (h\<lparr>mem := m'\<rparr>) rs'" "allocated h rs' = (allocated h rs)(p := None)"
    using cfg.mm_free_ok [OF I [unfolded mm_state_ok_def] k, of ff check] by (auto simp: mm_state_ok_def)
  have "allocated (h\<lparr>mem := m'\<rparr>) rs' = (allocated h rs)(p := None)" using f(3) by (simp add: first_blk_def)
  moreover have "fst e \<noteq> p" if "P j = Some e" "j \<noteq> i" for j e
    using inj_onD [OF inj, of j i] that assms(2) by auto
  ultimately have "in_table (h\<lparr>mem := m'\<rparr>) rs' bs j e" if "(P(i := None)) j = Some e" for j e
    using that tab [of j e] by (auto simp: in_table_def split: if_splits)
  moreover have "inj_on (\<lambda>j. fst (the ((P(i := None)) j))) (dom (P(i := None)))"
    using inj by (auto simp: inj_on_def)
  ultimately have "table_inv c (h\<lparr>mem := m'\<rparr>) bs (P(i := None))" using f(2) unfolding table_inv_def by blast
  then show ?thesis using f(1) by (auto simp: grows_def)
qed

section \<open>The live bytes fit in the heap\<close>

lemma alloc_sum:
  assumes "finite D" "inj_on g D" "\<forall>i\<in>D. \<exists>k. alloc_at a rs (g i) = Some k \<and> f i \<le> k"
  shows "(\<Sum>i\<in>D. f i) \<le> blen rs"
  using assms
proof (induction a rs arbitrary: D rule: alloc_at.induct)
  case (1 a)
  then have "D = {}" by auto
  then show ?case by simp
next
  case (2 a n al bs)
  let ?D = "{i \<in> D. g i \<noteq> a}"
  show ?case
  proof (cases "al \<and> (\<exists>i\<in>D. g i = a)")
    case True
    then obtain i where i: "i \<in> D" "g i = a" "al" by blast
    have D: "D = insert i ?D" using i(1,2) inj_onD [OF "2.prems"(2)] by blast
    have "(\<Sum>i\<in>?D. f i) \<le> blen bs"
      by (rule "2.IH"(1)) (use "2.prems" i in \<open>auto intro: inj_on_subset\<close>)
    moreover have "f i \<le> n" using "2.prems"(3) i by auto
    moreover have "(\<Sum>i\<in>insert i ?D. f i) = f i + (\<Sum>i\<in>?D. f i)" using "2.prems"(1) i(2) by simp
    ultimately show ?thesis using D by simp
  next
    case False
    have "(\<Sum>i\<in>D. f i) \<le> blen bs"
    proof (cases al)
      case True
      show ?thesis by (rule "2.IH"(1) [OF True]) (use "2.prems" False in \<open>auto split: if_splits\<close>)
    next
      case nal: False
      show ?thesis by (rule "2.IH"(2) [OF nal]) (use "2.prems" nal in auto)
    qed
    then show ?thesis by simp
  qed
qed

definition live_total :: "(int \<Rightarrow> (nat \<times> nat) option) \<Rightarrow> int" where
  "live_total P = int (\<Sum>i\<in>dom P. snd (the (P i)))"

lemma table_finite: "table_inv c h bs P \<Longrightarrow> finite (dom P)"
proof -
  assume "table_inv c h bs P"
  then have "dom P \<subseteq> {0..<int (length bs)}" by (auto simp: table_inv_def in_table_def)
  then show ?thesis by (rule finite_subset) simp
qed

lemma table_total:
  assumes "table_inv c h bs P"
  shows "live_total P + 16 \<le> int (mem_heapsize h)" "live_total P \<le> INT_MAX"
proof -
  obtain rs where I: "mm_state_ok c h rs" and tab: "\<And>j e. P j = Some e \<Longrightarrow> in_table h rs bs j e"
    and inj: "inj_on (\<lambda>i. fst (the (P i))) (dom P)" using assms unfolding table_inv_def by blast
  have "\<forall>i\<in>dom P. \<exists>k. alloc_at (first_blk h) rs (fst (the (P i))) = Some k \<and> snd (the (P i)) \<le> k"
    using tab by (fastforce simp: in_table_def)
  from alloc_sum [OF table_finite [OF assms] inj this]
  have "(\<Sum>i\<in>dom P. snd (the (P i))) \<le> blen rs" .
  moreover have "mem_brk h = first_blk h + blen rs" "mem_brk h \<le> 2147483648"
    using I by (auto simp: mm_state_ok_def mm_inv_def heap_rep_def layout_def)
  ultimately show "live_total P + 16 \<le> int (mem_heapsize h)" "live_total P \<le> INT_MAX"
    unfolding live_total_def mem_heapsize_def first_blk_def INT_MAX_def by linarith+
qed

lemma live_total_nonneg [simp]: "0 \<le> live_total P"
  unfolding live_total_def by (rule of_nat_0_le_iff)

lemma live_total_upd:
  assumes "finite (dom P)"
  shows "P i = None \<Longrightarrow> live_total (P(i \<mapsto> (p, n))) = live_total P + int n"
    and "P i = Some (q, m) \<Longrightarrow> live_total (P(i \<mapsto> (p, n))) = live_total P + (int n - int m)"
    and "P i = Some (q, m) \<Longrightarrow> live_total (P(i := None)) = live_total P - int m"
proof -
  have rest: "(\<Sum>j\<in>dom P - {i}. snd (the ((P(i := e)) j))) = (\<Sum>j\<in>dom P - {i}. snd (the (P j)))" for e
    by (rule sum.cong) auto
  have upd: "live_total (P(i \<mapsto> (p, n))) = int n + int (\<Sum>j\<in>dom P - {i}. snd (the (P j)))"
    unfolding live_total_def using assms rest [of "Some (p, n)"] by (simp add: sum.insert_remove)
  show "P i = None \<Longrightarrow> live_total (P(i \<mapsto> (p, n))) = live_total P + int n"
    using upd by (simp add: live_total_def domIff)
  assume i: "P i = Some (q, m)"
  then have "live_total P = int m + int (\<Sum>j\<in>dom P - {i}. snd (the (P j)))"
    unfolding live_total_def using sum.remove [OF assms, of i "\<lambda>j. snd (the (P j))"] by (simp add: domIff del: of_nat_sum)
  then show "live_total (P(i \<mapsto> (p, n))) = live_total P + (int n - int m)"
    "live_total (P(i := None)) = live_total P - int m"
    using upd rest [of None] by (simp_all add: live_total_def)
qed

section \<open>Utilisation\<close>

text \<open>
  What the pass measures, from the trace alone: the sizes of the live blocks after
  a prefix of the trace, and the largest sum of them over all prefixes.
\<close>

definition live_step :: "traceop_t \<Rightarrow> (int \<Rightarrow> nat option) \<Rightarrow> int \<Rightarrow> nat option" where
  "live_step t L = (case op_type t of FREE \<Rightarrow> L(op_index t := None) | _ \<Rightarrow> L(op_index t \<mapsto> nat (op_size t)))"

definition live_bytes :: "(int \<Rightarrow> nat option) \<Rightarrow> int" where
  "live_bytes L = int (\<Sum>i\<in>dom L. the (L i))"

definition live_after :: "(int \<Rightarrow> nat option) \<Rightarrow> traceop_t list \<Rightarrow> nat \<Rightarrow> int" where
  "live_after L ts k = live_bytes (fold live_step (take k ts) L)"

definition is_peak :: "traceop_t list \<Rightarrow> int \<Rightarrow> bool" where
  "is_peak ts m \<longleftrightarrow> (\<exists>k\<le>length ts. m = live_after Map.empty ts k) \<and> (\<forall>k\<le>length ts. live_after Map.empty ts k \<le> m)"

abbreviation sizes_of :: "(int \<Rightarrow> (nat \<times> nat) option) \<Rightarrow> int \<Rightarrow> nat option" where
  "sizes_of P \<equiv> \<lambda>i. map_option snd (P i)"

lemma live_bytes_total: "live_bytes (sizes_of P) = live_total P"
proof -
  have "dom (sizes_of P) = dom P" by (auto simp: dom_def)
  moreover have "the (map_option snd (P i)) = snd (the (P i))" if "i \<in> dom P" for i using that by auto
  ultimately show ?thesis by (simp add: live_bytes_def live_total_def)
qed

definition util_inv :: "mm_config \<Rightarrow> util_state \<Rightarrow> (int \<Rightarrow> (nat \<times> nat) option) \<Rightarrow> bool" where
  "util_inv c u P \<longleftrightarrow> table_inv c (u_heap u) (u_blocks u) P \<and> length (u_sizes u) = length (u_blocks u) \<and>
     (\<forall>i p n. P i = Some (p, n) \<longrightarrow> u_sizes u ! nat i = Some n) \<and> u_total u = live_total P \<and>
     u_total u \<le> u_max u \<and> u_max u + 16 \<le> int (mem_heapsize (u_heap u))"

definition util_next :: "mm_config \<Rightarrow> util_state \<Rightarrow> traceop_t \<Rightarrow> util_state \<Rightarrow> bool" where
  "util_next c u t u' \<longleftrightarrow> u_max u' = max (u_max u) (u_total u') \<and> length (u_blocks u') = length (u_blocks u) \<and>
     grows (op_cost c t) (u_heap u) (u_heap u')"

lemma grows_heapsize: "grows k h h' \<Longrightarrow> mem_heapsize h \<le> mem_heapsize h'"
  by (auto simp: grows_def mem_heapsize_def)

lemma util_written:
  assumes inv: "util_inv c u P" and T: "table_inv c h (( u_blocks u)[nat i := Some p]) (P(i \<mapsto> (p, nat sz)))" and g: "grows (op_cost c t) (u_heap u) h"
    and i: "0 \<le> i" "i < int (length (u_blocks u))" and sz: "size_ok sz"
    and ch: "live_total (P(i \<mapsto> (p, nat sz))) = live_total P + change"
  shows "\<exists>u'. sbind (util_store i p sz (u\<lparr>u_heap := h\<rparr>)) (util_peak change) = Inr u' \<and>
    util_inv c u' (P(i \<mapsto> (p, nat sz))) \<and> util_next c u t u'"
proof -
  let ?P = "P(i \<mapsto> (p, nat sz))"
  have len: "length (u_sizes u) = length (u_blocks u)" and tot: "u_total u = live_total P" and le: "u_total u \<le> u_max u"
    and mx: "u_max u + 16 \<le> int (mem_heapsize (u_heap u))"
    and ss: "\<And>j q n. P j = Some (q, n) \<Longrightarrow> u_sizes u ! nat j = Some n"
    using inv unfolding util_inv_def by blast+
  have b: "live_total ?P \<le> INT_MAX" "0 \<le> live_total ?P" "live_total ?P + 16 \<le> int (mem_heapsize h)"
    using table_total [OF T] by simp_all
  let ?u = "u\<lparr>u_heap := h, u_blocks := (u_blocks u)[nat i := Some p], u_sizes := (u_sizes u)[nat i := Some (nat sz)],
    u_total := live_total ?P, u_max := max (u_max u) (live_total ?P)\<rparr>"
  have "sbind (util_store i p sz (u\<lparr>u_heap := h\<rparr>)) (util_peak change) = Inr ?u"
    using i len b ch tot by (simp add: util_store_def util_peak_def max_def INT_MAX_def del: fun_upd_apply)
  moreover have "(u_sizes u)[nat i := Some (nat sz)] ! nat j = Some n" if j: "?P j = Some (q, n)" for j q n
  proof (cases "j = i")
    case False
    then have "0 \<le> j" using inv j by (auto simp: util_inv_def table_inv_def in_table_def)
    then have "nat j \<noteq> nat i" using i(1) False by simp
    then show ?thesis using ss [of j q n] j False by simp
  qed (use i len j in auto)
  moreover have "u_max u + 16 \<le> int (mem_heapsize h)" using mx grows_heapsize [OF g] by linarith
  ultimately show ?thesis
    using T len b g by (intro exI [of _ ?u]) (simp add: util_inv_def util_next_def grows_def del: fun_upd_apply)
qed

lemma util_rd:
  assumes "util_inv c u P" "P i = Some (p, n)"
  shows "rd_init (u_sizes u) i = Inr n" "rd_init (u_blocks u) i = Inr p" "0 \<le> i" "i < int (length (u_blocks u))"
  using assms by (auto simp: util_inv_def table_inv_def in_table_def rd_init_def)

definition util_step_ok :: "mm_config \<Rightarrow> traceop_t \<Rightarrow> traceop_t list \<Rightarrow> (int \<Rightarrow> (nat \<times> nat) option) \<Rightarrow> util_state \<Rightarrow> util_state exec \<Rightarrow> bool" where
  "util_step_ok c t ts P u r \<longleftrightarrow>
     (\<exists>u' P'. r = Inr u' \<and> util_inv c u' P' \<and> util_next c u t u' \<and> sizes_of P' = live_step t (sizes_of P) \<and>
        valid_ops (length (u_blocks u)) (\<lambda>_. True) (dom P') ts) \<or>
     (r = Inl ExitCalled \<and> starved (u_heap u) (op_cost c t))"

lemma util_op_alloc:
  assumes inv: "util_inv c u P" and v: "valid_ops (length (u_blocks u)) (\<lambda>_. True) (dom P) (t # ts)" and A: "op_type t = ALLOC"
  shows "util_step_ok c t ts P u (util_op (config_ops c ff) check t u)"
proof -
  let ?i = "op_index t" and ?sz = "op_size t"
  have v: "0 \<le> ?i" "?i < int (length (u_blocks u))" "P ?i = None" "size_ok ?sz"
    "valid_ops (length (u_blocks u)) (\<lambda>_. True) (insert ?i (dom P)) ts" using v A by (auto simp: Let_def)
  have T: "table_inv c (u_heap u) (u_blocks u) P" using inv by (simp add: util_inv_def)
  obtain r h where r: "mm_malloc (config_ops c ff) check (of_int ?sz) (u_heap u) = Inr (r, h)" "grows (op_cost c t) (u_heap u) h"
    "case r of None \<Rightarrow> starved (u_heap u) (op_cost c t)
     | Some p \<Rightarrow> table_inv c h ((u_blocks u)[nat ?i := Some p]) (P(?i \<mapsto> (p, nat ?sz)))"
    using table_malloc [OF T v(1-4), of ff check, folded op_cost_type(1) [OF A]] by blast
  show ?thesis
  proof (cases r)
    case None
    then show ?thesis using r A by (auto simp: util_step_ok_def Let_def)
  next
    case (Some p)
    have "live_total (P(?i \<mapsto> (p, nat ?sz))) = live_total P + ?sz"
      using live_total_upd(1) [OF table_finite [OF T] v(3), of p "nat ?sz"] v(4) by (simp add: size_ok_def)
    from util_written [OF inv _ r(2) v(1,2,4) this] r(3) Some
    obtain u' where u': "sbind (util_store ?i p ?sz (u\<lparr>u_heap := h\<rparr>)) (util_peak ?sz) = Inr u'"
      "util_inv c u' (P(?i \<mapsto> (p, nat ?sz)))" "util_next c u t u'" by auto
    have "util_op (config_ops c ff) check t u = Inr u'" using r(1) Some A u'(1) by (simp add: Let_def)
    moreover have "sizes_of (P(?i \<mapsto> (p, nat ?sz))) = live_step t (sizes_of P)" using A by (auto simp: live_step_def)
    moreover have "valid_ops (length (u_blocks u)) (\<lambda>_. True) (dom (P(?i \<mapsto> (p, nat ?sz)))) ts" using v(5) by simp
    ultimately show ?thesis using u'(2,3) unfolding util_step_ok_def by blast
  qed
qed

lemma util_op_realloc:
  assumes inv: "util_inv c u P" and v: "valid_ops (length (u_blocks u)) (\<lambda>_. True) (dom P) (t # ts)" and A: "op_type t = REALLOC"
  shows "util_step_ok c t ts P u (util_op (config_ops c ff) check t u)"
proof -
  let ?i = "op_index t" and ?sz = "op_size t"
  obtain p n where v: "P ?i = Some (p, n)" "size_ok ?sz" "valid_ops (length (u_blocks u)) (\<lambda>_. True) (dom P) ts"
    using v A by (auto simp: Let_def)
  note rd = util_rd [OF inv v(1)]
  have T: "table_inv c (u_heap u) (u_blocks u) P" using inv by (simp add: util_inv_def)
  obtain r h where r: "mm_realloc (config_ops c ff) check (Some p) (of_int ?sz) (u_heap u) = Inr (r, h)" "grows (op_cost c t) (u_heap u) h"
    "case r of None \<Rightarrow> starved (u_heap u) (op_cost c t)
     | Some p \<Rightarrow> table_inv c h ((u_blocks u)[nat ?i := Some p]) (P(?i \<mapsto> (p, nat ?sz)))"
    using table_realloc [OF T v(1,2), of ff check, folded op_cost_type(2) [OF A]] by blast
  show ?thesis
  proof (cases r)
    case None
    then show ?thesis using r A rd by (auto simp: util_step_ok_def Let_def grows_def)
  next
    case (Some q)
    have ch: "live_total (P(?i \<mapsto> (q, nat ?sz))) = live_total P + (?sz - int n)"
      using live_total_upd(2) [OF table_finite [OF T] v(1), of q "nat ?sz"] v(2) by (simp add: size_ok_def)
    from util_written [OF inv _ r(2) rd(3,4) v(2) ch] r(3) Some
    obtain u' where u': "sbind (util_store ?i q ?sz (u\<lparr>u_heap := h\<rparr>)) (util_peak (?sz - int n)) = Inr u'"
      "util_inv c u' (P(?i \<mapsto> (q, nat ?sz)))" "util_next c u t u'" by auto
    have "live_total (P(?i := None)) = live_total P - int n" by (rule live_total_upd(3) [OF table_finite [OF T] v(1)])
    then have "int n \<le> INT_MAX" using live_total_nonneg [of "P(?i := None)"] table_total(2) [OF T] by linarith
    then have "iadd ?sz (- int n) = Inr (?sz - int n)" using v(2) by (simp add: size_ok_def)
    then have "util_op (config_ops c ff) check t u = Inr u'" using r(1) Some A u'(1) rd(1,2) by (simp add: Let_def)
    moreover have "sizes_of (P(?i \<mapsto> (q, nat ?sz))) = live_step t (sizes_of P)" using A by (auto simp: live_step_def)
    moreover have "dom (P(?i \<mapsto> (q, nat ?sz))) = dom P" using v(1) by auto
    ultimately show ?thesis using u'(2,3) v(3) unfolding util_step_ok_def by metis
  qed
qed

lemma util_op_free:
  assumes inv: "util_inv c u P" and v: "valid_ops (length (u_blocks u)) (\<lambda>_. True) (dom P) (t # ts)" and A: "op_type t = FREE"
  shows "util_step_ok c t ts P u (util_op (config_ops c ff) check t u)"
proof -
  let ?i = "op_index t"
  obtain p n where v: "P ?i = Some (p, n)" "valid_ops (length (u_blocks u)) (\<lambda>_. True) (dom P - {?i}) ts"
    using v A by (auto simp: Let_def)
  note rd = util_rd [OF inv v(1)]
  have T: "table_inv c (u_heap u) (u_blocks u) P" using inv by (simp add: util_inv_def)
  obtain h where h: "mm_free (config_ops c ff) check (Some p) (u_heap u) = Inr h" "grows (op_cost c t) (u_heap u) h"
    "table_inv c h (u_blocks u) (P(?i := None))"
    using table_free [OF T v(1), of ff check] op_cost_type(3) [OF A, of c] by auto
  have ch: "live_total (P(?i := None)) = live_total P - int n" by (rule live_total_upd(3) [OF table_finite [OF T] v(1)])
  let ?u = "u\<lparr>u_heap := h, u_total := live_total (P(?i := None))\<rparr>"
  have tot: "u_total u = live_total P" "u_total u \<le> u_max u" "u_max u + 16 \<le> int (mem_heapsize (u_heap u))"
    using inv by (simp_all add: util_inv_def)
  have "iadd (u_total u) (- int n) = Inr (live_total (P(?i := None)))"
    using ch tot(1) live_total_nonneg [of "P(?i := None)"] table_total(2) [OF T] by (simp add: INT_MAX_def del: fun_upd_apply)
  then have "util_op (config_ops c ff) check t u = Inr ?u"
    using A rd(1,2) h(1) by (simp add: Let_def del: fun_upd_apply)
  moreover have "util_inv c ?u (P(?i := None))"
    using inv h(3) grows_heapsize [OF h(2)] tot ch unfolding util_inv_def by auto
  moreover have "util_next c u t ?u" using tot ch h(2) by (simp add: util_next_def grows_def del: fun_upd_apply)
  moreover have "sizes_of (P(?i := None)) = live_step t (sizes_of P)" using A by (auto simp: live_step_def)
  moreover have "valid_ops (length (u_blocks u)) (\<lambda>_. True) (dom (P(?i := None))) ts" using v(2) by simp
  ultimately show ?thesis unfolding util_step_ok_def by blast
qed

lemma util_op_ok:
  assumes "util_inv c u P" "valid_ops (length (u_blocks u)) (\<lambda>_. True) (dom P) (t # ts)"
  shows "util_step_ok c t ts P u (util_op (config_ops c ff) check t u)"
  using util_op_alloc [OF assms] util_op_realloc [OF assms] util_op_free [OF assms] by (cases "op_type t") auto

definition peak_from :: "(int \<Rightarrow> nat option) \<Rightarrow> traceop_t list \<Rightarrow> int \<Rightarrow> int \<Rightarrow> bool" where
  "peak_from L ts m0 m \<longleftrightarrow> m0 \<le> m \<and> (\<forall>k\<le>length ts. live_after L ts k \<le> m) \<and> (m = m0 \<or> (\<exists>k\<le>length ts. m = live_after L ts k))"

lemma peak_from_Cons:
  assumes "peak_from (live_step t L) ts (max m0 (live_bytes (live_step t L))) m" "live_bytes L \<le> m0"
  shows "peak_from L (t # ts) m0 m"
proof -
  have step: "live_after L (t # ts) (Suc k) = live_after (live_step t L) ts k" for k by (simp add: live_after_def)
  have zero: "live_after L (t # ts) 0 = live_bytes L" by (simp add: live_after_def)
  have "live_after L (t # ts) k \<le> m" if "k \<le> length (t # ts)" for k
    using assms that step zero by (cases k) (auto simp: peak_from_def)
  moreover have "m = m0 \<or> (\<exists>k\<le>length (t # ts). m = live_after L (t # ts) k)"
  proof (cases "m = max m0 (live_bytes (live_step t L))")
    case True
    moreover have "live_after L (t # ts) (Suc 0) = live_bytes (live_step t L)" by (simp add: live_after_def)
    ultimately show ?thesis by (auto simp: max_def intro!: exI [of _ "Suc 0"])
  next
    case False
    then obtain k where "k \<le> length ts" "m = live_after (live_step t L) ts k" using assms(1) by (auto simp: peak_from_def)
    then show ?thesis using step by (intro disjI2 exI [of _ "Suc k"]) simp
  qed
  ultimately show ?thesis using assms(1) by (auto simp: peak_from_def)
qed

lemma util_ops_ok:
  assumes "util_inv c u P" "valid_ops (length (u_blocks u)) (\<lambda>_. True) (dom P) ts"
  shows "(\<exists>u'. util_ops (config_ops c ff) check ts u = Inr u' \<and> (\<exists>P'. util_inv c u' P') \<and>
      length (u_blocks u') = length (u_blocks u) \<and> grows (trace_cost c ts) (u_heap u) (u_heap u') \<and> u_max u' + 16 \<le> int (mem_heapsize (u_heap u')) \<and>
      peak_from (sizes_of P) ts (u_max u) (u_max u')) \<or>
    (util_ops (config_ops c ff) check ts u = Inl ExitCalled \<and> starved (u_heap u) (trace_cost c ts))"
  using assms
proof (induction ts arbitrary: u P)
  case Nil
  then have "live_bytes (sizes_of P) \<le> u_max u" by (simp add: live_bytes_total util_inv_def)
  then show ?case using Nil by (auto simp: peak_from_def live_after_def util_inv_def)
next
  case (Cons t ts)
  from util_op_ok [OF Cons.prems, of ff check] show ?case
    unfolding util_step_ok_def
  proof (elim disjE exE conjE)
    fix u1 P1
    assume r: "util_op (config_ops c ff) check t u = Inr u1" and inv: "util_inv c u1 P1" and nx: "util_next c u t u1"
      and sz: "sizes_of P1 = live_step t (sizes_of P)" and v: "valid_ops (length (u_blocks u)) (\<lambda>_. True) (dom P1) ts"
    have v1: "valid_ops (length (u_blocks u1)) (\<lambda>_. True) (dom P1) ts" using v nx by (simp add: util_next_def)
    have mx: "u_max u1 = max (u_max u) (live_bytes (live_step t (sizes_of P)))"
      using nx inv unfolding sz [symmetric] live_bytes_total by (simp add: util_next_def util_inv_def)
    have le: "live_bytes (sizes_of P) \<le> u_max u" using Cons.prems(1) by (simp add: live_bytes_total util_inv_def)
    have ops: "util_ops (config_ops c ff) check (t # ts) u = util_ops (config_ops c ff) check ts u1" using r by simp
    have len: "length (u_blocks u1) = length (u_blocks u)" and g: "grows (op_cost c t) (u_heap u) (u_heap u1)"
      using nx by (simp_all add: util_next_def)
    show ?case
      using Cons.IH [OF inv v1] peak_from_Cons [OF _ le] grows_trans [OF g] starved_later [OF g]
      unfolding sz mx ops len by auto
  next
    assume "util_op (config_ops c ff) check t u = Inl ExitCalled" "starved (u_heap u) (op_cost c t)"
    then show ?case by (auto intro: starved_more)
  qed
qed

lemma init_table:
  assumes "heap_ready (mem_reset_brk h)"
  obtains h' where "mm_init (config_ops c ff) check (mem_reset_brk h) = Inr (0, h')" "table_inv c h' bs Map.empty"
    "16 \<le> int (mem_heapsize h')" "grows 16 (mem_reset_brk h) h'"
proof -
  obtain h' where h: "mm_init (config_ops c ff) check (mem_reset_brk h) = Inr (0, h')"
    "do_mm_init (config_ops c ff) (mem_reset_brk h) = (0, h')" "mm_state_ok c h' []"
    using cfg.mm_init_ok [OF assms, of c ff check] by (auto simp: mm_state_ok_def)
  moreover have "grows 16 (mem_reset_brk h) h'"
    using cfg.init_spec [OF assms, of c ff] h(2) by (auto simp: grows_def mem_reset_brk_def)
  moreover have "table_inv c h' bs Map.empty" using h(3) by (auto simp: table_inv_def)
  moreover have "16 \<le> int (mem_heapsize h')"
    using h(3) by (simp add: mm_state_ok_def mm_inv_def heap_rep_def mem_heapsize_def first_blk_def)
  ultimately show ?thesis using that by blast
qed

lemma util_pass_ok:
  assumes "heap_ready (mem_reset_brk (d_heap d))" "length (d_sizes d) = length (d_blocks d)"
    and "valid_ops (length (d_blocks d)) (\<lambda>_. True) {} ts"
  shows "(\<exists>m n d'. eval_mm_util (config_ops c ff) check ts d = Inr ((m, n), d') \<and> is_peak ts m \<and> m + 16 \<le> int n \<and>
      d_errors d' = d_errors d \<and> heap_next c (trace_room c ts) (mem_reset_brk (d_heap d)) (d_heap d') \<and>
      length (d_blocks d') = length (d_blocks d) \<and> length (d_sizes d') = length (d_blocks d)) \<or>
    (eval_mm_util (config_ops c ff) check ts d = Inl ExitCalled \<and> starved (mem_reset_brk (d_heap d)) (trace_room c ts))"
proof -
  obtain h where h: "mm_init (config_ops c ff) check (mem_reset_brk (d_heap d)) = Inr (0, h)" "table_inv c h (d_blocks d) Map.empty"
    "16 \<le> int (mem_heapsize h)" "grows 16 (mem_reset_brk (d_heap d)) h"
    by (rule init_table [OF assms(1), of c ff check "d_blocks d"])
  let ?u = "\<lparr>u_heap = h, u_blocks = d_blocks d, u_sizes = d_sizes d, u_total = 0, u_max = 0\<rparr>"
  have inv: "util_inv c ?u Map.empty" using h(2,3) assms(2) by (simp add: util_inv_def live_total_def)
  have peak: "is_peak ts m" if "peak_from Map.empty ts 0 m" for m
  proof -
    have "live_after Map.empty ts 0 = 0" by (simp add: live_after_def live_bytes_def)
    then show ?thesis using that unfolding peak_from_def is_peak_def by (metis zero_le)
  qed
  have nxt: "heap_next c (trace_room c ts) (mem_reset_brk (d_heap d)) (u_heap u) \<and> length (u_sizes u) = length (u_blocks u)"
    if "util_inv c u P" "grows (trace_cost c ts) h (u_heap u)" for u P
    using that grows_trans [OF h(4)] by (auto simp: util_inv_def table_inv_def heap_next_def trace_room_def)
  show ?thesis
    using util_ops_ok [OF inv, of ts ff check] assms(3) h(1) peak nxt starved_later [OF h(4), of "trace_cost c ts"]
    by (fastforce simp: eval_mm_util_def trace_room_def)
qed

text \<open>Utilisation: on a well-formed trace the pass returns the peak of the live bytes, which is below the size of the
heap it divides by (so the quotient is defined and at most 1) and never overflows its \<open>int\<close> counters; it exits
only if the region is too small for what the requests of the trace can cost.\<close>

theorem utilisation_at_most_one:
  assumes "heap_ready (mem_reset_brk (d_heap d))" "length (d_sizes d) = length (d_blocks d)"
    and "valid_ops (length (d_blocks d)) (\<lambda>_. True) {} ts"
  shows "(\<exists>m n d'. eval_mm_util (config_ops c ff) check ts d = Inr ((m, n), d') \<and> is_peak ts m \<and> m + 16 \<le> int n) \<or>
    (eval_mm_util (config_ops c ff) check ts d = Inl ExitCalled \<and> starved (mem_reset_brk (d_heap d)) (trace_room c ts))"
  using util_pass_ok [OF assms, of c ff check] by blast

theorem utilisation_at_most_one_witness:
  "valid_ops 2 (\<lambda>_. True) {} demo_trace \<and>
   (\<exists>m n d'. eval_mm_util (config_ops MM_EXPLICIT True) False demo_trace demo_driver = Inr ((m, n), d') \<and>
     is_peak demo_trace m \<and> m + 16 \<le> int n)"
proof -
  have v: "valid_ops 2 (\<lambda>_. True) {} demo_trace" by (simp add: demo_trace_def size_ok_def INT_MAX_def)
  have d: "length (d_sizes demo_driver) = length (d_blocks demo_driver)" "length (d_blocks demo_driver) = 2"
    by (simp_all add: demo_driver_def)
  show ?thesis
    using utilisation_at_most_one [OF demo_driver_ready d(1), of demo_trace MM_EXPLICIT True False] v demo_room [of MM_EXPLICIT]
    unfolding d(2) by blast
qed

section \<open>The timed run\<close>

definition same_driver :: "nat \<Rightarrow> driver \<Rightarrow> driver \<Rightarrow> bool" where
  "same_driver k d d' \<longleftrightarrow> length (d_blocks d') = length (d_blocks d) \<and> d_sizes d' = d_sizes d \<and> d_errors d' = d_errors d \<and>
     grows k (d_heap d) (d_heap d')"

lemma same_driver_trans: "same_driver k d d' \<Longrightarrow> same_driver k' d' d'' \<Longrightarrow> same_driver (k + k') d d''"
  by (auto simp: same_driver_def intro: grows_trans)

lemma speed_op_ok:
  assumes "table_inv c (d_heap d) (d_blocks d) P" "valid_ops (length (d_blocks d)) (\<lambda>_. True) (dom P) (t # ts)"
  shows "(\<exists>d' P'. speed_op (config_ops c ff) check t d = Inr d' \<and> table_inv c (d_heap d') (d_blocks d') P' \<and>
      same_driver (op_cost c t) d d' \<and> valid_ops (length (d_blocks d)) (\<lambda>_. True) (dom P') ts) \<or>
    (speed_op (config_ops c ff) check t d = Inl ExitCalled \<and> starved (d_heap d) (op_cost c t))"
proof -
  let ?i = "op_index t" and ?sz = "op_size t"
  have live: "rd_init (d_blocks d) ?i = Inr p \<and> 0 \<le> ?i \<and> ?i < int (length (d_blocks d))" if "P ?i = Some (p, n)" for p n
    using assms(1) that by (auto simp: table_inv_def in_table_def rd_init_def)
  show ?thesis
  proof (cases "op_type t")
    case ALLOC
    then have v: "0 \<le> ?i" "?i < int (length (d_blocks d))" "P ?i = None" "size_ok ?sz"
      "valid_ops (length (d_blocks d)) (\<lambda>_. True) (insert ?i (dom P)) ts" using assms(2) by (auto simp: Let_def)
    from table_malloc [OF assms(1) v(1-4), of ff check, folded op_cost_type(1) [OF ALLOC]] obtain r h where
      r: "mm_malloc (config_ops c ff) check (of_int ?sz) (d_heap d) = Inr (r, h)" "grows (op_cost c t) (d_heap d) h"
      "case r of None \<Rightarrow> starved (d_heap d) (op_cost c t)
       | Some p \<Rightarrow> table_inv c h ((d_blocks d)[nat ?i := Some p]) (P(?i \<mapsto> (p, nat ?sz)))" by blast
    show ?thesis
    proof (cases r)
      case (Some p)
      then show ?thesis using r v ALLOC
        by (intro disjI1 exI [of _ "d\<lparr>d_heap := h, d_blocks := (d_blocks d)[nat ?i := Some p]\<rparr>"] exI [of _ "P(?i \<mapsto> (p, nat ?sz))"])
          (simp add: Let_def same_driver_def grows_def del: fun_upd_apply)
    qed (use r ALLOC in \<open>auto simp: Let_def\<close>)
  next
    case REALLOC
    then obtain p n where v: "P ?i = Some (p, n)" "size_ok ?sz" "valid_ops (length (d_blocks d)) (\<lambda>_. True) (dom P) ts"
      using assms(2) by (auto simp: Let_def)
    from table_realloc [OF assms(1) v(1,2), of ff check, folded op_cost_type(2) [OF REALLOC]] obtain r h where
      r: "mm_realloc (config_ops c ff) check (Some p) (of_int ?sz) (d_heap d) = Inr (r, h)" "grows (op_cost c t) (d_heap d) h"
      "case r of None \<Rightarrow> starved (d_heap d) (op_cost c t)
       | Some p \<Rightarrow> table_inv c h ((d_blocks d)[nat ?i := Some p]) (P(?i \<mapsto> (p, nat ?sz)))" by blast
    have dm: "insert ?i (dom P) = dom P" using v(1) by auto
    show ?thesis
    proof (cases r)
      case (Some q)
      then show ?thesis using r v REALLOC live [OF v(1)]
        by (intro disjI1 exI [of _ "d\<lparr>d_heap := h, d_blocks := (d_blocks d)[nat ?i := Some q]\<rparr>"] exI [of _ "P(?i \<mapsto> (q, nat ?sz))"])
          (simp add: Let_def same_driver_def grows_def dm del: fun_upd_apply)
    qed (use r REALLOC live [OF v(1)] in \<open>auto simp: Let_def same_driver_def grows_def\<close>)
  next
    case FREE
    then obtain p n where v: "P ?i = Some (p, n)" "valid_ops (length (d_blocks d)) (\<lambda>_. True) (dom P - {?i}) ts"
      using assms(2) by (auto simp: Let_def)
    from table_free [OF assms(1) v(1), of ff check] op_cost_type(3) [OF FREE, of c] obtain h where
      h: "mm_free (config_ops c ff) check (Some p) (d_heap d) = Inr h" "grows (op_cost c t) (d_heap d) h" "table_inv c h (d_blocks d) (P(?i := None))"
      by auto
    then show ?thesis using v FREE live [OF v(1)]
      by (intro disjI1 exI [of _ "d\<lparr>d_heap := h\<rparr>"] exI [of _ "P(?i := None)"]) (simp add: Let_def same_driver_def grows_def del: fun_upd_apply)
  qed
qed

lemma speed_ops_ok:
  assumes "table_inv c (d_heap d) (d_blocks d) P" "valid_ops (length (d_blocks d)) (\<lambda>_. True) (dom P) ts"
  shows "(\<exists>d' P'. speed_ops (config_ops c ff) check ts d = Inr d' \<and> table_inv c (d_heap d') (d_blocks d') P' \<and>
      same_driver (trace_cost c ts) d d') \<or>
    (speed_ops (config_ops c ff) check ts d = Inl ExitCalled \<and> starved (d_heap d) (trace_cost c ts))"
  using assms
proof (induction ts arbitrary: d P)
  case (Cons t ts)
  from speed_op_ok [OF Cons.prems, of ff check] show ?case
  proof (elim disjE exE conjE)
    fix d1 P1
    assume r: "speed_op (config_ops c ff) check t d = Inr d1" and T: "table_inv c (d_heap d1) (d_blocks d1) P1"
      and sd: "same_driver (op_cost c t) d d1"
      and v: "valid_ops (length (d_blocks d)) (\<lambda>_. True) (dom P1) ts"
    have "speed_ops (config_ops c ff) check (t # ts) d = speed_ops (config_ops c ff) check ts d1" using r by simp
    moreover have "length (d_blocks d1) = length (d_blocks d)" "grows (op_cost c t) (d_heap d) (d_heap d1)"
      using sd by (simp_all add: same_driver_def)
    ultimately show ?case using Cons.IH [OF T] v same_driver_trans [OF sd] starved_later by auto
  qed (auto intro: starved_more)
qed (auto simp: same_driver_def)

text \<open>The timed run: on a well-formed trace it ends, without a fault, in a well-formed heap, or exits for want of room.\<close>

lemma timed_run_returns:
  assumes "heap_ready (mem_reset_brk (d_heap d))" "valid_ops (length (d_blocks d)) (\<lambda>_. True) {} ts"
  shows "(\<exists>d'. eval_mm_speed (config_ops c ff) check ts d = Inr d' \<and>
      heap_next c (trace_room c ts) (mem_reset_brk (d_heap d)) (d_heap d') \<and> same_driver 0 d (d'\<lparr>d_heap := d_heap d\<rparr>)) \<or>
    (eval_mm_speed (config_ops c ff) check ts d = Inl ExitCalled \<and> starved (mem_reset_brk (d_heap d)) (trace_room c ts))"
proof -
  obtain h where h: "mm_init (config_ops c ff) check (mem_reset_brk (d_heap d)) = Inr (0, h)" "table_inv c h (d_blocks d) Map.empty"
    "16 \<le> int (mem_heapsize h)" "grows 16 (mem_reset_brk (d_heap d)) h"
    by (rule init_table [OF assms(1), of c ff check "d_blocks d"])
  have nxt: "heap_next c (trace_room c ts) (mem_reset_brk (d_heap d)) (d_heap d')"
    if "table_inv c (d_heap d') bs P" "grows (trace_cost c ts) h (d_heap d')" for d' bs P
    using that grows_trans [OF h(4)] by (auto simp: table_inv_def heap_next_def trace_room_def)
  show ?thesis
    using speed_ops_ok [of c "d\<lparr>d_heap := h\<rparr>" Map.empty ts ff check] assms(2) h(1,2) nxt starved_later [OF h(4), of "trace_cost c ts"]
    by (fastforce simp: eval_mm_speed_def same_driver_def trace_room_def)
qed

end
