(* ===== verification/Mdriver_Main.thy ===== *)
theory Mdriver_Main
  imports Trace_File Mdriver_Util
begin

text \<open>
  The malloc lab's driver as a whole (\<open>main\<close> of \<open>mdriver.c\<close>): its options, the
  check of the team record, the runs of the C library's allocator and of the
  allocator under test over a set of trace files, and the totals it reports. The
  options are the sequence that \<open>getopt\<close> returns; the C library's allocator is a
  parameter; times and the throughput index computed from them are left out.
\<close>

section \<open>Options\<close>

record settings =
  o_tracefiles :: "string list option"
  o_tracedir :: string
  o_team_check :: bool
  o_run_libc :: bool

definition TRACEDIR :: string where "TRACEDIR = ''/afs/cs/project/ics2/im/labs/malloclab/traces/''"

definition default_tracefiles :: "string list" where
  "default_tracefiles = [''amptjp-bal.rep'', ''cccp-bal.rep'', ''cp-decl-bal.rep'', ''expr-bal.rep'', ''coalescing-bal.rep'',
     ''random-bal.rep'', ''random2-bal.rep'', ''binary-bal.rep'', ''binary2-bal.rep'', ''realloc-bal.rep'', ''realloc2-bal.rep'']"

definition start_settings :: settings where
  "start_settings = \<lparr>o_tracefiles = None, o_tracedir = TRACEDIR, o_team_check = True, o_run_libc = False\<rparr>"

text \<open>The options \<open>g\<close>, \<open>v\<close> and \<open>V\<close> change only what is printed; \<open>h\<close> and an unknown option end the run.\<close>

definition take_option :: "libc \<Rightarrow> char \<times> string \<Rightarrow> settings \<Rightarrow> settings exec" where
  "take_option L opt s =
     (let (c, optarg) = opt in
      if c \<in> {CHR ''g'', CHR ''v'', CHR ''V''} then Inr s
      else if c = CHR ''f'' then
        if \<not> malloc_ok L 8 then Inl ExitCalled
        else if \<not> malloc_ok L (length optarg + 1) then Inl OutOfBounds
        else Inr (s\<lparr>o_tracedir := ''./'', o_tracefiles := Some [optarg]\<rparr>)
      else if c = CHR ''t'' then
        if o_tracefiles s \<noteq> None then Inr s
        else if optarg = [] then Inl OutOfBounds
        else let dir = (if last optarg \<noteq> CHR ''/'' then optarg @ ''/'' else optarg) in
          if length dir < DRIVER_MAXLINE then Inr (s\<lparr>o_tracedir := dir\<rparr>) else Inl OutOfBounds
      else if c = CHR ''a'' then Inr (s\<lparr>o_team_check := False\<rparr>)
      else if c = CHR ''l'' then Inr (s\<lparr>o_run_libc := True\<rparr>)
      else Inl ExitCalled)"

fun take_options :: "libc \<Rightarrow> (char \<times> string) list \<Rightarrow> settings \<Rightarrow> settings exec" where
  "take_options L [] s = Inr s"
| "take_options L (opt # os) s = sbind (take_option L opt s) (take_options L os)"

record team_t =
  teamname :: string
  name1 :: string
  id1 :: string
  name2 :: string
  id2 :: string

definition team :: team_t where
  "team = \<lparr>teamname = ''ateam'', name1 = ''Harry Bovik'', id1 = ''bovik@cs.cmu.edu'', name2 = '''', id2 = ''''\<rparr>"

definition check_team :: "team_t \<Rightarrow> unit exec" where
  "check_team t =
     (if teamname t = [] then Inl ExitCalled
      else if name1 t = [] \<or> id1 t = [] then Inl ExitCalled
      else if name2 t \<noteq> [] \<and> id2 t = [] \<or> name2 t = [] \<and> id2 t \<noteq> [] then Inl ExitCalled
      else Inr ())"

section \<open>The C library's allocator\<close>

record 'm clib =
  c_malloc :: "uint32 \<Rightarrow> 'm \<Rightarrow> nat option \<times> 'm"
  c_realloc :: "nat \<Rightarrow> uint32 \<Rightarrow> 'm \<Rightarrow> nat option \<times> 'm"
  c_free :: "nat \<Rightarrow> 'm \<Rightarrow> 'm"

text \<open>One request of \<open>eval_libc_valid\<close> and of \<open>eval_libc_speed\<close>: both exit when the library has no memory.\<close>

definition libc_op :: "'m clib \<Rightarrow> traceop_t \<Rightarrow> nat option list \<times> 'm \<Rightarrow> (nat option list \<times> 'm) exec" where
  "libc_op C t = (\<lambda>(bs, h). case op_type t of
     ALLOC \<Rightarrow> (case c_malloc C (of_int (op_size t)) h of
         (None, h) \<Rightarrow> Inl ExitCalled
       | (Some p, h) \<Rightarrow> sbind (wri bs (op_index t) (Some p)) (\<lambda>bs. Inr (bs, h)))
   | REALLOC \<Rightarrow> sbind (rd_init bs (op_index t)) (\<lambda>oldp. case c_realloc C oldp (of_int (op_size t)) h of
         (None, h) \<Rightarrow> Inl ExitCalled
       | (Some p, h) \<Rightarrow> sbind (wri bs (op_index t) (Some p)) (\<lambda>bs. Inr (bs, h)))
   | FREE \<Rightarrow> sbind (rd_init bs (op_index t)) (\<lambda>p. Inr (bs, c_free C p h)))"

fun libc_ops :: "'m clib \<Rightarrow> traceop_t list \<Rightarrow> nat option list \<times> 'm \<Rightarrow> (nat option list \<times> 'm) exec" where
  "libc_ops C [] s = Inr s"
| "libc_ops C (t # ts) s = sbind (libc_op C t s) (libc_ops C ts)"

definition eval_libc_valid :: "'m clib \<Rightarrow> traceop_t list \<Rightarrow> nat option list \<times> 'm \<Rightarrow> (bool \<times> nat option list \<times> 'm) exec" where
  "eval_libc_valid C ts s = sbind (libc_ops C ts s) (\<lambda>s. Inr (True, s))"

definition eval_libc_speed :: "'m clib \<Rightarrow> traceop_t list \<Rightarrow> nat option list \<times> 'm \<Rightarrow> (nat option list \<times> 'm) exec" where
  "eval_libc_speed C ts s = libc_ops C ts s"

section \<open>Timing\<close>

text \<open>In the configuration of the lab \<open>fsecs\<close> is \<open>ftimer_gettod(f, argp, 10)\<close>: ten runs of the function.\<close>

fun ftimer_gettod :: "('s \<Rightarrow> 's exec) \<Rightarrow> nat \<Rightarrow> 's \<Rightarrow> 's exec" where
  "ftimer_gettod f 0 s = Inr s"
| "ftimer_gettod f (Suc n) s = sbind (f s) (ftimer_gettod f n)"

definition fsecs :: "('s \<Rightarrow> 's exec) \<Rightarrow> 's \<Rightarrow> 's exec" where
  "fsecs f s = ftimer_gettod f 10 s"

section \<open>The runs\<close>

text \<open>The utilisation is the pair of integers whose quotient the field holds; it is unset for a trace that failed.\<close>

record stats_t =
  s_ops :: int
  s_valid :: bool
  s_util :: "(int \<times> nat) option"

definition run_libc_trace :: "'m clib \<Rightarrow> trace_t \<Rightarrow> 'm \<Rightarrow> (stats_t \<times> 'm) exec" where
  "run_libc_trace C t h =
     sbind (eval_libc_valid C (t_ops t) (t_blocks t, h)) (\<lambda>(ok, s).
     if ok then sbind (fsecs (eval_libc_speed C (t_ops t)) s) (\<lambda>(bs, h).
       Inr (\<lparr>s_ops = num_ops t, s_valid = ok, s_util = None\<rparr>, h))
     else Inr (\<lparr>s_ops = num_ops t, s_valid = ok, s_util = None\<rparr>, snd s))"

definition run_mm_trace :: "fl_ops \<Rightarrow> bool \<Rightarrow> trace_t \<Rightarrow> driver \<Rightarrow> (stats_t \<times> driver) exec" where
  "run_mm_trace ops check t d =
     sbind (eval_mm_valid ops check (t_ops t) (d\<lparr>d_blocks := t_blocks t, d_sizes := t_block_sizes t\<rparr>)) (\<lambda>(ok, d).
     if ok then
       sbind (eval_mm_util ops check (t_ops t) d) (\<lambda>(u, d).
       sbind (fsecs (eval_mm_speed ops check (t_ops t)) d) (\<lambda>d.
       Inr (\<lparr>s_ops = num_ops t, s_valid = ok, s_util = Some u\<rparr>, d)))
     else Inr (\<lparr>s_ops = num_ops t, s_valid = ok, s_util = None\<rparr>, d))"

fun run_traces :: "libc \<Rightarrow> string \<Rightarrow> (trace_t \<Rightarrow> 's \<Rightarrow> (stats_t \<times> 's) exec) \<Rightarrow> string list \<Rightarrow> 's \<Rightarrow> (stats_t list \<times> 's) exec" where
  "run_traces L dir run [] s = Inr ([], s)"
| "run_traces L dir run (f # fs) s =
     sbind (read_trace L dir f) (\<lambda>t.
     sbind (run t s) (\<lambda>(st, s).
     sbind (run_traces L dir run fs s) (\<lambda>(sts, s). Inr (st # sts, s))))"

text \<open>What the run ends with: the statistics, the number of correct traces and the number of errors.\<close>

record report =
  r_stats :: "stats_t list"
  r_numcorrect :: nat
  r_errors :: nat

definition run_mm :: "libc \<Rightarrow> fl_ops \<Rightarrow> bool \<Rightarrow> nat option \<Rightarrow> string \<Rightarrow> string list \<Rightarrow> driver \<Rightarrow> (report \<times> driver) exec" where
  "run_mm L ops check region dir files d =
     (if \<not> malloc_ok L (length files * 28) then Inl ExitCalled else
      sbind (mem_init region (d_heap d)) (\<lambda>h.
      sbind (run_traces L dir (run_mm_trace ops check) files (d\<lparr>d_heap := h\<rparr>)) (\<lambda>(sts, d).
      Inr (\<lparr>r_stats = sts, r_numcorrect = length (filter s_valid sts), r_errors = length (d_errors d)\<rparr>, d))))"

definition run_libc :: "libc \<Rightarrow> 'm clib \<Rightarrow> string \<Rightarrow> string list \<Rightarrow> 'm \<Rightarrow> (stats_t list \<times> 'm) exec" where
  "run_libc L C dir files h =
     (if \<not> malloc_ok L (length files * 28) then Inl ExitCalled else run_traces L dir (run_libc_trace C) files h)"

definition mdriver_main :: "libc \<Rightarrow> 'm clib \<Rightarrow> fl_ops \<Rightarrow> bool \<Rightarrow> team_t \<Rightarrow> (char \<times> string) list \<Rightarrow> nat option \<Rightarrow> 'm \<Rightarrow> driver \<Rightarrow>
    (report \<times> driver) exec" where
  "mdriver_main L C ops check tm opts region h d =
     sbind (take_options L opts start_settings) (\<lambda>s.
     sbind (if o_team_check s then check_team tm else Inr ()) (\<lambda>_.
     let files = (case o_tracefiles s of None \<Rightarrow> default_tracefiles | Some fs \<Rightarrow> fs) in
     sbind (if o_run_libc s then sbind (run_libc L C (o_tracedir s) files h) (\<lambda>_. Inr ()) else Inr ()) (\<lambda>_.
     run_mm L ops check region (o_tracedir s) files d)))"

section \<open>Reading back a trace does not change what it asks for\<close>

lemma stored_fields [simp]:
  "op_type (stored old t) = op_type t" "op_index (stored old t) = op_index t"
  "op_type t \<noteq> FREE \<Longrightarrow> op_size (stored old t) = op_size t"
  by (simp_all add: stored_def)

lemma valid_ops_stored: "length olds = length ts \<Longrightarrow> valid_ops n ok L (map2 stored olds ts) = valid_ops n ok L ts"
  by (induction olds ts arbitrary: L rule: list_induct2) (auto simp: Let_def split: op_type.split)

lemma trace_cost_stored: "length olds = length ts \<Longrightarrow> trace_cost c (map2 stored olds ts) = trace_cost c ts"
  by (induction olds ts rule: list_induct2) (auto simp: op_cost_def split: op_type.split)

lemma live_step_stored: "live_step (stored old t) = live_step t"
  by (rule ext, rule ext) (auto simp: live_step_def split: op_type.split)

lemma live_after_stored:
  assumes "length olds = length ts"
  shows "live_after L (map2 stored olds ts) k = live_after L ts k"
proof -
  have "fold live_step (take k (map2 stored olds ts)) L = fold live_step (take k ts) L"
    using assms by (induction olds ts arbitrary: k L rule: list_induct2) (auto simp: take_Cons live_step_stored split: nat.split)
  then show ?thesis by (simp add: live_after_def)
qed

lemma is_peak_stored: "length olds = length ts \<Longrightarrow> is_peak (map2 stored olds ts) m = is_peak ts m"
  by (simp add: is_peak_def live_after_stored)

lemma valid_ops_writable:
  assumes "valid_ops n ok L ts" "int n \<le> INT_MAX" "\<forall>i\<in>L. 0 \<le> i \<and> i < int n"
  shows "list_all writable_op ts"
  using assms
proof (induction ts arbitrary: L)
  case (Cons t ts)
  show ?case
  proof (cases "op_type t")
    case ALLOC
    then have "0 \<le> op_index t" "op_index t < int n" "size_ok (op_size t)" "valid_ops n ok (insert (op_index t) L) ts"
      using Cons.prems(1) by (auto simp: Let_def)
    then show ?thesis using Cons.IH [of "insert (op_index t) L"] Cons.prems(2,3) by (simp add: writable_op_def size_ok_def)
  next
    case REALLOC
    then have "op_index t \<in> L" "size_ok (op_size t)" "valid_ops n ok L ts" using Cons.prems(1) by (auto simp: Let_def)
    moreover have "0 \<le> op_index t \<and> op_index t \<le> INT_MAX" using calculation(1) Cons.prems(2,3) by fastforce
    ultimately show ?thesis using Cons.IH [of L] Cons.prems(2,3) by (simp add: writable_op_def size_ok_def)
  next
    case FREE
    then have "op_index t \<in> L" "valid_ops n ok (L - {op_index t}) ts" using Cons.prems(1) by (auto simp: Let_def)
    moreover have "0 \<le> op_index t \<and> op_index t \<le> INT_MAX" using calculation(1) Cons.prems(2,3) by fastforce
    ultimately show ?thesis using Cons.IH [of "L - {op_index t}"] Cons.prems(2,3) FREE by (simp add: writable_op_def)
  qed
qed simp

lemma valid_ops_weaken: "valid_ops n ok L ts \<Longrightarrow> valid_ops n (\<lambda>_. True) L ts"
  by (induction ts arbitrary: L) (auto simp: Let_def split: op_type.splits)

section \<open>Trace files that hold well-formed traces\<close>

definition trace_on_disk :: "libc \<Rightarrow> string \<Rightarrow> string \<Rightarrow> traceop_t list \<Rightarrow> bool" where
  "trace_on_disk L dir name ts \<longleftrightarrow> length (dir @ name) < DRIVER_MAXLINE \<and> grants L ts \<and> valid_ops (trace_ids ts) low_byte_ok {} ts \<and>
     (\<exists>h wt. int h \<le> INT_MAX \<and> int wt \<le> INT_MAX \<and> fopen L (dir @ name) = Some (trace_text h (trace_ids ts) wt ts))"

text \<open>A trace in memory that asks for the same as \<open>ts\<close>.\<close>

definition holds_trace :: "trace_t \<Rightarrow> traceop_t list \<Rightarrow> bool" where
  "holds_trace t ts \<longleftrightarrow> num_ops t = int (length ts) \<and> length (t_blocks t) = trace_ids ts \<and> length (t_block_sizes t) = trace_ids ts \<and>
     (\<exists>olds. length olds = length ts \<and> t_ops t = map2 stored olds ts)"

lemma read_trace_on_disk:
  assumes "trace_on_disk L dir name ts"
  shows "\<exists>t. read_trace L dir name = Inr t \<and> holds_trace t ts"
proof -
  obtain h wt where d: "length (dir @ name) < DRIVER_MAXLINE" "grants L ts" "valid_ops (trace_ids ts) low_byte_ok {} ts"
    "int h \<le> INT_MAX" "int wt \<le> INT_MAX" "fopen L (dir @ name) = Some (trace_text h (trace_ids ts) wt ts)"
    using assms by (auto simp: trace_on_disk_def)
  have "list_all writable_op ts"
    by (rule valid_ops_writable [OF d(3)]) (use d(2) in \<open>auto simp: grants_def INT_MAX_def\<close>)
  then have "read_trace L dir name = Inr (trace_read L h wt ts)" by (rule read_trace_text [OF d(6,1,2) _ d(4,5)])
  moreover have "holds_trace (trace_read L h wt ts) ts"
    unfolding holds_trace_def trace_read_def by (auto intro!: exI [of _ "map (fresh_ops L) [0..<length ts]"])
  ultimately show ?thesis by blast
qed

section \<open>Running out of memory\<close>

text \<open>
  A pass over a trace is out of memory when the heap it has built for the requests before some request is so full that
  the break cannot move up by what that request can cost. \<open>pass\<close> gives the heap after a sequence of requests, if the
  pass over it returns.
\<close>

definition pass_full :: "mm_config \<Rightarrow> traceop_t list \<Rightarrow> (traceop_t list \<Rightarrow> mm_state exec) \<Rightarrow> bool" where
  "pass_full c ts pass \<longleftrightarrow> (\<exists>ts1 t ts2 h. ts = ts1 @ t # ts2 \<and> pass ts1 = Inr h \<and> starved h (op_cost c t))"

definition valid_heap :: "fl_ops \<Rightarrow> bool \<Rightarrow> driver \<Rightarrow> traceop_t list \<Rightarrow> mm_state exec" where
  "valid_heap ops check d ts = sbind (eval_mm_valid ops check ts d) (\<lambda>(ok, d). if ok then Inr (d_heap d) else Inl ExitCalled)"

definition util_heap :: "fl_ops \<Rightarrow> bool \<Rightarrow> driver \<Rightarrow> traceop_t list \<Rightarrow> mm_state exec" where
  "util_heap ops check d ts = sbind (eval_mm_util ops check ts d) (\<lambda>(u, d). Inr (d_heap d))"

definition speed_heap :: "fl_ops \<Rightarrow> bool \<Rightarrow> driver \<Rightarrow> traceop_t list \<Rightarrow> mm_state exec" where
  "speed_heap ops check d ts = sbind (eval_mm_speed ops check ts d) (\<lambda>d. Inr (d_heap d))"

lemma pass_full_Cons:
  "pass_full c (t # ts) pass \<longleftrightarrow> (\<exists>h. pass [] = Inr h \<and> starved h (op_cost c t)) \<or> pass_full c ts (\<lambda>ts. pass (t # ts))"
proof
  assume "pass_full c (t # ts) pass"
  then obtain ts1 u ts2 h where "t # ts = ts1 @ u # ts2" "pass ts1 = Inr h" "starved h (op_cost c u)" by (auto simp: pass_full_def)
  then show "(\<exists>h. pass [] = Inr h \<and> starved h (op_cost c t)) \<or> pass_full c ts (\<lambda>ts. pass (t # ts))"
    by (cases ts1) (auto simp: pass_full_def)
next
  assume "(\<exists>h. pass [] = Inr h \<and> starved h (op_cost c t)) \<or> pass_full c ts (\<lambda>ts. pass (t # ts))"
  then show "pass_full c (t # ts) pass" unfolding pass_full_def by (metis append_Cons append_Nil)
qed

lemma eval_ops_full:
  assumes "drv_inv c d P" "valid_ops (length (d_blocks d)) low_byte_ok (dom P) ts"
    "eval_ops (config_ops c ff) check n ts d = Inr (False, d')"
  shows "pass_full c ts (\<lambda>ts. sbind (eval_ops (config_ops c ff) check n ts d) (\<lambda>(ok, d). if ok then Inr (d_heap d) else Inl ExitCalled))"
  using assms
proof (induction ts arbitrary: d P n)
  case (Cons t ts)
  obtain ok d1 L where r: "(case op_type t of
         ALLOC \<Rightarrow> eval_alloc (config_ops c ff) check n (op_index t) (op_size t) d
       | REALLOC \<Rightarrow> eval_realloc (config_ops c ff) check n (op_index t) (op_size t) d
       | FREE \<Rightarrow> eval_free (config_ops c ff) check (op_index t) d) = Inr (ok, d1)"
    "eval_post c (op_cost c t) d L ok d1" "valid_ops (length (d_blocks d)) low_byte_ok L ts"
    using eval_op_ok [OF Cons.prems(1,2), of ff check n] by (elim exE conjE) (rule that)
  show ?case
  proof (cases ok)
    case True
    then obtain P1 where P1: "drv_inv c d1 P1" "dom P1 = L" "length (d_blocks d1) = length (d_blocks d)"
      using r(2) by (auto simp: eval_post_def)
    have run: "eval_ops (config_ops c ff) check n (t # us) d = eval_ops (config_ops c ff) check (Suc n) us d1" for us
      using r(1) True by simp
    have "valid_ops (length (d_blocks d1)) low_byte_ok (dom P1) ts" using r(3) P1(2,3) by simp
    from Cons.IH [OF P1(1) this] Cons.prems(3) show ?thesis unfolding pass_full_Cons run by blast
  next
    case False
    then have "starved (d_heap d) (op_cost c t)" using r(2) by (simp add: eval_post_def)
    then show ?thesis unfolding pass_full_Cons by simp
  qed
qed simp

lemma valid_pass_full:
  assumes "heap_ready (mem_reset_brk (d_heap d))" "length (d_sizes d) = length (d_blocks d)"
    "valid_ops (length (d_blocks d)) low_byte_ok {} ts" "eval_mm_valid (config_ops c ff) check ts d = Inr (False, d')"
  shows "pass_full c ts (valid_heap (config_ops c ff) check d)"
proof -
  obtain d1 where d1: "eval_mm_valid (config_ops c ff) check us d = eval_ops (config_ops c ff) check 0 us d1"
    "drv_inv c d1 Map.empty" "length (d_blocks d1) = length (d_blocks d)" for us
    using driver_starts [OF assms(1,2), of c ff check] by blast
  have "valid_heap (config_ops c ff) check d =
      (\<lambda>ts. sbind (eval_ops (config_ops c ff) check 0 ts d1) (\<lambda>(ok, d). if ok then Inr (d_heap d) else Inl ExitCalled))"
    by (simp add: valid_heap_def d1(1) fun_eq_iff)
  then show ?thesis using eval_ops_full [OF d1(2), of ts ff check 0 d'] assms(3,4) d1(1,3) by simp
qed

lemma util_ops_full:
  assumes "util_inv c u P" "valid_ops (length (u_blocks u)) (\<lambda>_. True) (dom P) ts" "util_ops (config_ops c ff) check ts u = Inl f"
  shows "pass_full c ts (\<lambda>ts. sbind (util_ops (config_ops c ff) check ts u) (\<lambda>u. Inr (u_heap u)))"
  using assms
proof (induction ts arbitrary: u P)
  case (Cons t ts)
  from util_op_ok [OF Cons.prems(1,2), of ff check] show ?case
    unfolding util_step_ok_def
  proof (elim disjE exE conjE)
    fix u1 P1
    assume r: "util_op (config_ops c ff) check t u = Inr u1" and inv: "util_inv c u1 P1" and nx: "util_next c u t u1"
      and v: "valid_ops (length (u_blocks u)) (\<lambda>_. True) (dom P1) ts"
    have "valid_ops (length (u_blocks u1)) (\<lambda>_. True) (dom P1) ts" using v nx by (simp add: util_next_def)
    from Cons.IH [OF inv this] Cons.prems(3) r show ?case unfolding pass_full_Cons by simp
  next
    assume "starved (u_heap u) (op_cost c t)"
    then show ?case unfolding pass_full_Cons by simp
  qed
qed simp

lemma util_pass_full:
  assumes "heap_ready (mem_reset_brk (d_heap d))" "length (d_sizes d) = length (d_blocks d)"
    "valid_ops (length (d_blocks d)) (\<lambda>_. True) {} ts" "eval_mm_util (config_ops c ff) check ts d = Inl f"
  shows "pass_full c ts (util_heap (config_ops c ff) check d)"
proof -
  obtain h where h: "mm_init (config_ops c ff) check (mem_reset_brk (d_heap d)) = Inr (0, h)" "table_inv c h (d_blocks d) Map.empty"
    "16 \<le> int (mem_heapsize h)"
    by (rule init_table [OF assms(1), of c ff check "d_blocks d"])
  let ?u = "\<lparr>u_heap = h, u_blocks = d_blocks d, u_sizes = d_sizes d, u_total = 0, u_max = 0\<rparr>"
  have inv: "util_inv c ?u Map.empty" using h(2,3) assms(2) by (simp add: util_inv_def live_total_def)
  have hp: "util_heap (config_ops c ff) check d = (\<lambda>ts. sbind (util_ops (config_ops c ff) check ts ?u) (\<lambda>u. Inr (u_heap u)))"
    using h(1) by (simp add: util_heap_def eval_mm_util_def fun_eq_iff sbind_def split: sum.split)
  have "util_ops (config_ops c ff) check ts ?u = Inl f" using assms(4) h(1) by (simp add: eval_mm_util_def sbind_def split: sum.splits)
  then show ?thesis using util_ops_full [OF inv, of ts ff check f] assms(3) unfolding hp by simp
qed

lemma speed_ops_full:
  assumes "table_inv c (d_heap d) (d_blocks d) P" "valid_ops (length (d_blocks d)) (\<lambda>_. True) (dom P) ts"
    "speed_ops (config_ops c ff) check ts d = Inl f"
  shows "pass_full c ts (\<lambda>ts. sbind (speed_ops (config_ops c ff) check ts d) (\<lambda>d. Inr (d_heap d)))"
  using assms
proof (induction ts arbitrary: d P)
  case (Cons t ts)
  from speed_op_ok [OF Cons.prems(1,2), of ff check] show ?case
  proof (elim disjE exE conjE)
    fix d1 P1
    assume r: "speed_op (config_ops c ff) check t d = Inr d1" and T: "table_inv c (d_heap d1) (d_blocks d1) P1"
      and sd: "same_driver (op_cost c t) d d1" and v: "valid_ops (length (d_blocks d)) (\<lambda>_. True) (dom P1) ts"
    have "valid_ops (length (d_blocks d1)) (\<lambda>_. True) (dom P1) ts" using v sd by (simp add: same_driver_def)
    from Cons.IH [OF T this] Cons.prems(3) r show ?case unfolding pass_full_Cons by simp
  next
    assume "starved (d_heap d) (op_cost c t)"
    then show ?case unfolding pass_full_Cons by simp
  qed
qed simp

lemma timed_run_full:
  assumes "heap_ready (mem_reset_brk (d_heap d))" "valid_ops (length (d_blocks d)) (\<lambda>_. True) {} ts"
    "eval_mm_speed (config_ops c ff) check ts d = Inl f"
  shows "pass_full c ts (speed_heap (config_ops c ff) check d)"
proof -
  obtain h where h: "mm_init (config_ops c ff) check (mem_reset_brk (d_heap d)) = Inr (0, h)" "table_inv c h (d_blocks d) Map.empty"
    by (rule init_table [OF assms(1), of c ff check "d_blocks d"])
  have hp: "speed_heap (config_ops c ff) check d =
      (\<lambda>ts. sbind (speed_ops (config_ops c ff) check ts (d\<lparr>d_heap := h\<rparr>)) (\<lambda>d. Inr (d_heap d)))"
    using h(1) by (simp add: speed_heap_def eval_mm_speed_def fun_eq_iff)
  show ?thesis using speed_ops_full [of c "d\<lparr>d_heap := h\<rparr>" Map.empty ts ff check f] assms(2,3) h unfolding hp
    by (simp add: eval_mm_speed_def)
qed

section \<open>The run of the allocator\<close>

text \<open>The simulated memory between two passes: a region of \<open>M\<close> bytes.\<close>

definition region_ready :: "nat \<Rightarrow> mm_state \<Rightarrow> bool" where
  "region_ready M h \<longleftrightarrow> heap_ready (mem_reset_brk h) \<and> mem_max_addr h = mem_start_brk h + M"

lemma region_ready_next: "region_ready M h \<Longrightarrow> heap_next c k (mem_reset_brk h) h' \<Longrightarrow> region_ready M h'"
  using heap_next_ready [of c k "mem_reset_brk h" h'] by (simp add: region_ready_def heap_next_def grows_def mem_reset_brk_def)

lemma region_starved: "region_ready M h \<Longrightarrow> starved (mem_reset_brk h) k \<Longrightarrow> M < k"
  by (auto simp: region_ready_def starved_def mem_reset_brk_def)

text \<open>The ten timed runs.\<close>

lemma timed_runs:
  assumes "region_ready M (d_heap d)" "valid_ops (length (d_blocks d)) (\<lambda>_. True) {} ts"
  shows "(\<exists>d'. ftimer_gettod (eval_mm_speed (config_ops c ff) check ts) n d = Inr d' \<and> region_ready M (d_heap d') \<and>
      d_errors d' = d_errors d) \<or>
    (M < trace_room c ts \<and> (\<exists>k<n. \<exists>d'. ftimer_gettod (eval_mm_speed (config_ops c ff) check ts) k d = Inr d' \<and>
      pass_full c ts (speed_heap (config_ops c ff) check d')))"
  using assms
proof (induction n arbitrary: d)
  case (Suc n)
  let ?f = "eval_mm_speed (config_ops c ff) check ts"
  have ready: "heap_ready (mem_reset_brk (d_heap d))" using Suc.prems(1) by (simp add: region_ready_def)
  from timed_run_returns [OF this Suc.prems(2), of c ff check] show ?case
  proof (elim disjE exE conjE)
    fix d1 assume d1: "?f d = Inr d1" "heap_next c (trace_room c ts) (mem_reset_brk (d_heap d)) (d_heap d1)"
      "same_driver 0 d (d1\<lparr>d_heap := d_heap d\<rparr>)"
    have "region_ready M (d_heap d1)" by (rule region_ready_next [OF Suc.prems(1) d1(2)])
    from Suc.IH [OF this] Suc.prems(2) d1(3) have "(\<exists>d'. ftimer_gettod ?f n d1 = Inr d' \<and> region_ready M (d_heap d') \<and>
        d_errors d' = d_errors d) \<or>
      (M < trace_room c ts \<and> (\<exists>k<n. \<exists>d'. ftimer_gettod ?f k d1 = Inr d' \<and> pass_full c ts (speed_heap (config_ops c ff) check d')))"
      by (simp add: same_driver_def)
    moreover have "ftimer_gettod ?f (Suc k) d = ftimer_gettod ?f k d1" for k using d1(1) by simp
    ultimately show ?thesis by (metis Suc_less_eq)
  next
    assume "?f d = Inl ExitCalled" "starved (mem_reset_brk (d_heap d)) (trace_room c ts)"
    then have "pass_full c ts (speed_heap (config_ops c ff) check d)" "M < trace_room c ts"
      using timed_run_full [OF ready Suc.prems(2)] region_starved [OF Suc.prems(1)] by blast+
    moreover have "ftimer_gettod ?f 0 d = Inr d" by simp
    ultimately show ?thesis by blast
  qed
qed simp

definition stats_ok :: "traceop_t list \<Rightarrow> stats_t \<Rightarrow> bool" where
  "stats_ok ts st \<longleftrightarrow> s_valid st \<and> s_ops st = int (length ts) \<and>
     (\<exists>m n. s_util st = Some (m, n) \<and> is_peak ts m \<and> m + 16 \<le> int n)"

text \<open>One of the passes over a trace, run from the state \<open>d\<close> of the driver, is out of memory.\<close>

definition trace_full :: "mm_config \<Rightarrow> bool \<Rightarrow> bool \<Rightarrow> trace_t \<Rightarrow> driver \<Rightarrow> bool" where
  "trace_full c ff check t d \<longleftrightarrow>
     (let ops = config_ops c ff; ts = t_ops t; d0 = d\<lparr>d_blocks := t_blocks t, d_sizes := t_block_sizes t\<rparr> in
      pass_full c ts (valid_heap ops check d0) \<or>
      (\<exists>d1. eval_mm_valid ops check ts d0 = Inr (True, d1) \<and>
        (pass_full c ts (util_heap ops check d1) \<or>
         (\<exists>u d2 k d3. eval_mm_util ops check ts d1 = Inr (u, d2) \<and> k < 10 \<and>
            ftimer_gettod (eval_mm_speed ops check ts) k d2 = Inr d3 \<and> pass_full c ts (speed_heap ops check d3)))))"

lemma run_mm_trace_ok:
  assumes t: "holds_trace t ts" and v: "valid_ops (trace_ids ts) low_byte_ok {} ts" and reg: "region_ready M (d_heap d)"
  shows "(\<exists>st d'. run_mm_trace (config_ops c ff) check t d = Inr (st, d') \<and> stats_ok ts st \<and>
      region_ready M (d_heap d') \<and> d_errors d' = d_errors d) \<or>
    (M < trace_room c ts \<and> trace_full c ff check t d)"
proof -
  obtain olds where o: "length olds = length ts" "t_ops t = map2 stored olds ts" and n: "num_ops t = int (length ts)"
    "length (t_blocks t) = trace_ids ts" "length (t_block_sizes t) = trace_ids ts"
    using t by (auto simp: holds_trace_def)
  let ?ts = "map2 stored olds ts" and ?d = "d\<lparr>d_blocks := t_blocks t, d_sizes := t_block_sizes t\<rparr>" and ?ops = "config_ops c ff"
  have room: "trace_room c ?ts = trace_room c ts" by (simp add: trace_room_def trace_cost_stored [OF o(1)])
  have v1: "valid_ops (trace_ids ts) low_byte_ok {} ?ts" using v by (simp add: valid_ops_stored [OF o(1)])
  note v2 = valid_ops_weaken [OF v1]
  have ready: "heap_ready (mem_reset_brk h)" if "region_ready M h" for h using that by (simp add: region_ready_def)
  have reg0: "region_ready M (d_heap ?d)" using reg by simp
  obtain ok d1 where d1: "eval_mm_valid ?ops check ?ts ?d = Inr (ok, d1)" "verdict_ok ok (d_errors ?d) (d_errors d1)"
    "heap_next c (trace_room c ?ts) (mem_reset_brk (d_heap ?d)) (d_heap d1)" "ok \<or> starved (mem_reset_brk (d_heap ?d)) (trace_room c ?ts)"
    "ok \<longrightarrow> length (d_blocks d1) = trace_ids ts \<and> length (d_sizes d1) = trace_ids ts"
    using valid_pass_ok [of ?d ?ts c ff check] ready [OF reg0] v1 n by auto
  have reg1: "region_ready M (d_heap d1)" by (rule region_ready_next [OF reg0 d1(3)])
  show ?thesis
  proof (cases ok)
    case False
    then have "pass_full c ?ts (valid_heap ?ops check ?d)" using valid_pass_full [of ?d ?ts c ff check d1] ready [OF reg0] v1 n d1(1) by simp
    moreover have "M < trace_room c ts" using region_starved [OF reg0] d1(4) False room by simp
    ultimately show ?thesis using o(2) by (simp add: trace_full_def Let_def)
  next
    case True
    have v3: "valid_ops (length (d_blocks d1)) (\<lambda>_. True) {} ?ts" and len: "length (d_sizes d1) = length (d_blocks d1)"
      using d1(5) True v2 by simp_all
    from util_pass_ok [OF ready [OF reg1] len v3, of c ff check] show ?thesis
    proof (elim disjE exE conjE)
      assume u: "eval_mm_util ?ops check ?ts d1 = Inl ExitCalled" "starved (mem_reset_brk (d_heap d1)) (trace_room c ?ts)"
      then have "pass_full c ?ts (util_heap ?ops check d1)" by (intro util_pass_full [OF ready [OF reg1] len v3])
      then show ?thesis using region_starved [OF reg1 u(2)] room d1(1) True o(2) by (auto simp: trace_full_def Let_def)
    next
      fix m k d2
      assume d2: "eval_mm_util ?ops check ?ts d1 = Inr ((m, k), d2)" "is_peak ?ts m" "m + 16 \<le> int k" "d_errors d2 = d_errors d1"
        "heap_next c (trace_room c ?ts) (mem_reset_brk (d_heap d1)) (d_heap d2)" "length (d_blocks d2) = length (d_blocks d1)"
      have reg2: "region_ready M (d_heap d2)" by (rule region_ready_next [OF reg1 d2(5)])
      have v4: "valid_ops (length (d_blocks d2)) (\<lambda>_. True) {} ?ts" using v3 d2(6) by simp
      have err: "d_errors d2 = d_errors d" using d1(2) True d2(4) by (simp add: verdict_ok_def)
      from timed_runs [OF reg2 v4, of c ff check 10] show ?thesis
      proof (elim disjE exE conjE)
        fix d3 assume "ftimer_gettod (eval_mm_speed ?ops check ?ts) 10 d2 = Inr d3" "region_ready M (d_heap d3)" "d_errors d3 = d_errors d2"
        then show ?thesis using d1(1) True d2(1-3) err o(2) n(1)
          by (simp add: run_mm_trace_def fsecs_def stats_ok_def is_peak_stored [OF o(1)])
      next
        fix k d3
        assume "M < trace_room c ?ts" "k < 10" "ftimer_gettod (eval_mm_speed ?ops check ?ts) k d2 = Inr d3" "pass_full c ?ts (speed_heap ?ops check d3)"
        then show ?thesis using d1(1) d2(1) True room o(2) by (auto simp: trace_full_def Let_def)
      qed
    qed
  qed
qed

text \<open>
  A run over trace files: every trace passes, or the driver comes to a first one for which \<open>F\<close> holds of the trace it
  reads and the state it has reached.
\<close>

lemma run_traces_ok:
  assumes disk: "list_all2 (trace_on_disk L dir) fs tss"
    and step: "\<And>t ts s. ts \<in> set tss \<Longrightarrow> holds_trace t ts \<Longrightarrow> valid_ops (trace_ids ts) low_byte_ok {} ts \<Longrightarrow> I s \<Longrightarrow>
      (\<exists>st s'. run t s = Inr (st, s') \<and> Q ts st \<and> I s') \<or> F ts t s"
    and start: "I s"
  shows "(\<exists>sts s'. run_traces L dir run fs s = Inr (sts, s') \<and> list_all2 Q tss sts \<and> I s') \<or>
    (\<exists>k<length fs. \<exists>sts s' t. run_traces L dir run (take k fs) s = Inr (sts, s') \<and> read_trace L dir (fs ! k) = Inr t \<and> F (tss ! k) t s')"
  using assms
proof (induction fs tss arbitrary: s rule: list_all2_induct)
  case (Cons f fs ts tss)
  obtain t where t: "read_trace L dir f = Inr t" "holds_trace t ts" using read_trace_on_disk [OF Cons.hyps(1)] by blast
  have v: "valid_ops (trace_ids ts) low_byte_ok {} ts" using Cons.hyps(1) by (simp add: trace_on_disk_def)
  from Cons.prems(1) [of ts t s] t(2) v Cons.prems(2) consider st s1 where "run t s = Inr (st, s1)" "Q ts st" "I s1" | "F ts t s" by auto
  then show ?case
  proof cases
    case 1
    have go: "run_traces L dir run (f # gs) s = sbind (run_traces L dir run gs s1) (\<lambda>(sts, s). Inr (st # sts, s))" for gs
      using t(1) 1(1) by simp
    have "(\<exists>sts s'. run_traces L dir run fs s1 = Inr (sts, s') \<and> list_all2 Q tss sts \<and> I s') \<or>
      (\<exists>k<length fs. \<exists>sts s' t. run_traces L dir run (take k fs) s1 = Inr (sts, s') \<and> read_trace L dir (fs ! k) = Inr t \<and> F (tss ! k) t s')"
      by (rule Cons.IH [OF Cons.prems(1) 1(3)]) simp_all
    then consider sts s' where "run_traces L dir run fs s1 = Inr (sts, s')" "list_all2 Q tss sts" "I s'"
      | k sts s' u where "k < length fs" "run_traces L dir run (take k fs) s1 = Inr (sts, s')" "read_trace L dir (fs ! k) = Inr u" "F (tss ! k) u s'"
      by blast
    then show ?thesis
    proof cases
      case 1
      then show ?thesis using go [of fs] \<open>Q ts st\<close> by auto
    next
      case (2 k)
      then show ?thesis using go [of "take k fs"] by (intro disjI2 exI [of _ "Suc k"]) simp
    qed
  next
    case 2
    then show ?thesis using t(1) by (intro disjI2 exI [of _ 0]) auto
  qed
qed simp

section \<open>The run of the C library\<close>

definition clib_serves :: "'m clib \<Rightarrow> bool" where
  "clib_serves C \<longleftrightarrow> (\<forall>n h. fst (c_malloc C n h) \<noteq> None) \<and> (\<forall>p n h. fst (c_realloc C p n h) \<noteq> None)"

definition set_blocks :: "nat option list \<Rightarrow> int set \<Rightarrow> bool" where
  "set_blocks bs L \<longleftrightarrow> (\<forall>i\<in>L. 0 \<le> i \<and> i < int (length bs) \<and> bs ! nat i \<noteq> None)"

lemma set_blocks_upd:
  assumes "set_blocks bs L" "0 \<le> i" "i < int (length bs)"
  shows "set_blocks (bs[nat i := Some p]) (insert i L)"
  unfolding set_blocks_def
proof
  fix j assume "j \<in> insert i L"
  then show "0 \<le> j \<and> j < int (length (bs[nat i := Some p])) \<and> bs[nat i := Some p] ! nat j \<noteq> None"
    using assms by (cases "nat j = nat i") (auto simp: set_blocks_def)
qed

lemma set_blocks_rd: "set_blocks bs L \<Longrightarrow> i \<in> L \<Longrightarrow> \<exists>p. rd_init bs i = Inr p \<and> 0 \<le> i \<and> i < int (length bs)"
  by (fastforce simp: set_blocks_def rd_init_def)

lemma libc_ops_ok:
  assumes "clib_serves C" "valid_ops (length bs) ok L ts" "set_blocks bs L"
  shows "\<exists>bs' h'. libc_ops C ts (bs, h) = Inr (bs', h') \<and> length bs' = length bs"
  using assms
proof (induction ts arbitrary: bs h L)
  case (Cons t ts)
  let ?i = "op_index t"
  have m: "\<exists>p h'. c_malloc C n h = (Some p, h')" "\<exists>q h'. c_realloc C p n h = (Some q, h')" for n p
    using Cons.prems(1) by (metis clib_serves_def prod.collapse option.exhaust)+
  have next_op: ?case if st: "libc_op C t (bs, h) = Inr (bs1, h1)" "length bs1 = length bs" and v: "valid_ops (length bs) ok L' ts" "set_blocks bs1 L'"
    for bs1 h1 L' using Cons.IH [of bs1 L' h1] Cons.prems(1) st v by auto
  have wr1: "wri bs ?i (Some p) = Inr (bs[nat ?i := Some p])" if "0 \<le> ?i" "?i < int (length bs)" for p using that by simp
  show ?case
  proof (cases "op_type t")
    case ALLOC
    then have v: "0 \<le> ?i" "?i < int (length bs)" "valid_ops (length bs) ok (insert ?i L) ts" using Cons.prems(2) by (auto simp: Let_def)
    obtain p h1 where "c_malloc C (of_int (op_size t)) h = (Some p, h1)" using m(1) by blast
    then have "libc_op C t (bs, h) = Inr (bs[nat ?i := Some p], h1)" using ALLOC wr1 [OF v(1,2)] by (simp add: libc_op_def)
    from next_op [OF this _ v(3)] show ?thesis using set_blocks_upd [OF Cons.prems(3) v(1,2)] by simp
  next
    case REALLOC
    then have v: "?i \<in> L" "valid_ops (length bs) ok L ts" using Cons.prems(2) by (auto simp: Let_def)
    obtain p where p: "rd_init bs ?i = Inr p" "0 \<le> ?i" "?i < int (length bs)" using set_blocks_rd [OF Cons.prems(3) v(1)] by blast
    obtain q h1 where "c_realloc C p (of_int (op_size t)) h = (Some q, h1)" using m(2) by blast
    then have "libc_op C t (bs, h) = Inr (bs[nat ?i := Some q], h1)" using REALLOC wr1 [OF p(2,3)] p(1) by (simp add: libc_op_def)
    from next_op [OF this _ v(2)] show ?thesis using set_blocks_upd [OF Cons.prems(3) p(2,3)] v(1) by (simp add: insert_absorb)
  next
    case FREE
    then have v: "?i \<in> L" "valid_ops (length bs) ok (L - {?i}) ts" using Cons.prems(2) by (auto simp: Let_def)
    obtain p where p: "rd_init bs ?i = Inr p" using set_blocks_rd [OF Cons.prems(3) v(1)] by blast
    moreover have "set_blocks bs (L - {?i})" using Cons.prems(3) by (auto simp: set_blocks_def)
    ultimately show ?thesis using v(2) FREE by (intro next_op [of bs "c_free C p h"]) (simp_all add: libc_op_def)
  qed
qed simp

lemma libc_timed:
  assumes "clib_serves C" "valid_ops (length bs) ok {} ts"
  shows "\<exists>bs' h'. ftimer_gettod (eval_libc_speed C ts) n (bs, h) = Inr (bs', h')"
  using assms(2)
proof (induction n arbitrary: bs h)
  case (Suc n)
  obtain bs' h' where "libc_ops C ts (bs, h) = Inr (bs', h')" "length bs' = length bs"
    using libc_ops_ok [OF assms(1) Suc.prems, of h] by (auto simp: set_blocks_def)
  then show ?case using Suc.IH [of bs' h'] Suc.prems by (simp add: eval_libc_speed_def)
qed simp

lemma run_libc_trace_ok:
  assumes "clib_serves C" "holds_trace t ts" "valid_ops (trace_ids ts) low_byte_ok {} ts"
  shows "\<exists>st h'. run_libc_trace C t h = Inr (st, h')"
proof -
  obtain olds where o: "length olds = length ts" "t_ops t = map2 stored olds ts" and n: "length (t_blocks t) = trace_ids ts"
    using assms(2) by (auto simp: holds_trace_def)
  have v: "valid_ops (length (t_blocks t)) low_byte_ok {} (t_ops t)" using assms(3) n o by (simp add: valid_ops_stored)
  obtain bs h1 where r: "libc_ops C (t_ops t) (t_blocks t, h) = Inr (bs, h1)" "length bs = length (t_blocks t)"
    using libc_ops_ok [OF assms(1) v, of h] by (auto simp: set_blocks_def)
  then show ?thesis using libc_timed [OF assms(1), of bs low_byte_ok "t_ops t" 10 h1] v
    by (auto simp: run_libc_trace_def eval_libc_valid_def fsecs_def)
qed

section \<open>The whole driver\<close>

definition chosen_files :: "settings \<Rightarrow> string list" where
  "chosen_files s = (case o_tracefiles s of None \<Rightarrow> default_tracefiles | Some fs \<Rightarrow> fs)"

definition all_accepted :: "traceop_t list list \<Rightarrow> report \<Rightarrow> bool" where
  "all_accepted tss r \<longleftrightarrow> r_numcorrect r = length tss \<and> r_errors r = 0 \<and> list_all2 stats_ok tss (r_stats r)"

text \<open>
  What the run of the allocator comes to: all traces accepted, or, after the first \<open>k\<close> files were accepted, a trace for
  which the region is full. The region is then smaller than the cost of all requests of that trace together.
\<close>

definition driver_full :: "libc \<Rightarrow> mm_config \<Rightarrow> bool \<Rightarrow> bool \<Rightarrow> string \<Rightarrow> string list \<Rightarrow> traceop_t list list \<Rightarrow> driver \<Rightarrow> bool" where
  "driver_full L c ff check dir fs tss d \<longleftrightarrow>
     (\<exists>k<length fs. \<exists>sts d' t. run_traces L dir (run_mm_trace (config_ops c ff) check) (take k fs) d = Inr (sts, d') \<and>
        read_trace L dir (fs ! k) = Inr t \<and> MAX_HEAP < trace_room c (tss ! k) \<and> trace_full c ff check t d')"

lemma run_mm_ok:
  assumes disk: "list_all2 (trace_on_disk L dir) fs tss" and mem: "malloc_ok L (length fs * 28)" and err: "d_errors d = []"
    and reg: "mem_init region (d_heap d) = Inr h" "heap_ready h"
  shows "(\<exists>r d'. run_mm L (config_ops c ff) check region dir fs d = Inr (r, d') \<and> all_accepted tss r) \<or>
    driver_full L c ff check dir fs tss (d\<lparr>d_heap := h\<rparr>)"
proof -
  let ?I = "\<lambda>d. region_ready MAX_HEAP (d_heap d) \<and> d_errors d = []" and ?run = "run_mm_trace (config_ops c ff) check"
    and ?F = "\<lambda>ts t d. MAX_HEAP < trace_room c ts \<and> trace_full c ff check t d"
  have h: "mem_max_addr h = mem_start_brk h + MAX_HEAP" "mem_reset_brk h = h" using reg(1) by (auto simp: mem_init_def mem_reset_brk_def split: option.splits)
  have "(\<exists>sts d'. run_traces L dir ?run fs (d\<lparr>d_heap := h\<rparr>) = Inr (sts, d') \<and> list_all2 stats_ok tss sts \<and> ?I d') \<or>
    (\<exists>k<length fs. \<exists>sts d' t. run_traces L dir ?run (take k fs) (d\<lparr>d_heap := h\<rparr>) = Inr (sts, d') \<and>
       read_trace L dir (fs ! k) = Inr t \<and> ?F (tss ! k) t d')"
  proof (rule run_traces_ok [OF disk])
    show "?I (d\<lparr>d_heap := h\<rparr>)" using reg(2) h err by (simp add: region_ready_def)
    show "(\<exists>st s'. ?run t s = Inr (st, s') \<and> stats_ok ts st \<and> ?I s') \<or> ?F ts t s"
      if "holds_trace t ts" "valid_ops (trace_ids ts) low_byte_ok {} ts" "?I s" for ts t s
      using run_mm_trace_ok [of t ts MAX_HEAP s c ff check] that by metis
  qed
  then show ?thesis
  proof (elim disjE)
    assume "\<exists>sts d'. run_traces L dir ?run fs (d\<lparr>d_heap := h\<rparr>) = Inr (sts, d') \<and> list_all2 stats_ok tss sts \<and> ?I d'"
    then obtain sts d' where r: "run_traces L dir ?run fs (d\<lparr>d_heap := h\<rparr>) = Inr (sts, d')" "list_all2 stats_ok tss sts" "d_errors d' = []"
      by blast
    have "length (filter s_valid sts) = length tss" using r(2) by (induction rule: list_all2_induct) (auto simp: stats_ok_def)
    then show ?thesis using r mem reg(1) by (auto simp: run_mm_def all_accepted_def)
  qed (simp add: driver_full_def)
qed

text \<open>C16. The driver end to end: for any options that select a set of trace files holding well-formed traces (an index is
allocated when it is not live and resized or freed when it is, sizes are positive ints, and the low byte of a resized index is
below 128, without which the driver rejects every allocator, see \<open>driver_rejects_high_realloc\<close>), on a region from \<open>mem_init\<close>,
the driver run with the team record of \<open>mm.c\<close> reads every file, accepts every trace without an error and reports for each the
peak of its live bytes; with \<open>-l\<close> this needs a C library that serves its requests. The only way it can fail is a full
region: after some files it reads a trace for which one of its passes has built a heap whose break cannot move up by the cost of
the next request (its rounded size, for a resize three times that), and then the costs of all requests of the trace exceed
the region. The traces of the lab are well formed in this sense.\<close>

theorem mdriver_accepts_allocator:
  assumes opts: "take_options L opts start_settings = Inr s"
    and disk: "list_all2 (trace_on_disk L (o_tracedir s)) (chosen_files s) tss" "malloc_ok L (length tss * 28)"
    and reg: "mem_init region (d_heap d) = Inr h" "heap_ready h"
    and start: "d_errors d = []" and clib: "o_run_libc s \<longrightarrow> clib_serves C"
  shows "(\<exists>r d'. mdriver_main L C (config_ops c ff) check team opts region m d = Inr (r, d') \<and> all_accepted tss r) \<or>
    driver_full L c ff check (o_tracedir s) (chosen_files s) tss (d\<lparr>d_heap := h\<rparr>)"
proof -
  have mem: "malloc_ok L (length (chosen_files s) * 28)" using disk list_all2_lengthD [OF disk(1)] by simp
  have "\<exists>x. run_libc L C (o_tracedir s) (chosen_files s) m = Inr x" if "o_run_libc s"
  proof -
    have "(\<exists>sts h'. run_traces L (o_tracedir s) (run_libc_trace C) (chosen_files s) m = Inr (sts, h') \<and>
        list_all2 (\<lambda>_ _. True) tss sts \<and> True) \<or>
      (\<exists>k<length (chosen_files s). \<exists>sts h' t. run_traces L (o_tracedir s) (run_libc_trace C) (take k (chosen_files s)) m = Inr (sts, h') \<and>
        read_trace L (o_tracedir s) (chosen_files s ! k) = Inr t \<and> False)"
      by (rule run_traces_ok [OF disk(1)]) (use run_libc_trace_ok clib that in auto)
    then show ?thesis using mem by (auto simp: run_libc_def)
  qed
  moreover have "check_team team = Inr ()" by (simp add: check_team_def team_def)
  ultimately show ?thesis
    using opts run_mm_ok [OF disk(1) mem start reg, of c ff check]
    by (auto simp: mdriver_main_def chosen_files_def [symmetric] Let_def)
qed

definition demo_libc :: libc where
  "demo_libc = \<lparr>fopen = (\<lambda>path. if path = ''./demo.rep'' then Some (trace_text 20000 2 1 demo_trace) else None),
     malloc_ok = (\<lambda>_. True), fresh_ops = (\<lambda>i. \<lparr>op_type = REALLOC, op_index = - 7, op_size = int i\<rparr>)\<rparr>"

definition demo_clib :: "nat clib" where
  "demo_clib = \<lparr>c_malloc = (\<lambda>n h. (Some h, h + unat n)), c_realloc = (\<lambda>p n h. (Some h, h + unat n)), c_free = (\<lambda>p h. h)\<rparr>"

theorem mdriver_accepts_allocator_witness:
  "\<exists>r d'. mdriver_main demo_libc demo_clib (config_ops MM_SEGREGATED False) True team [(CHR ''f'', ''demo.rep''), (CHR ''l'', [])]
     (Some 4096) 64 demo_driver = Inr (r, d') \<and> all_accepted [demo_trace] r"
proof -
  let ?s = "\<lparr>o_tracefiles = Some [''demo.rep''], o_tracedir = ''./'', o_team_check = True, o_run_libc = True\<rparr>"
  have opts: "take_options demo_libc [(CHR ''f'', ''demo.rep''), (CHR ''l'', [])] start_settings = Inr ?s"
    by (simp add: take_option_def start_settings_def demo_libc_def)
  have ids: "trace_ids demo_trace = 2" by (simp add: trace_ids_def demo_trace_def)
  have len: "length demo_trace = 4" by (simp add: demo_trace_def)
  have v: "valid_ops 2 low_byte_ok {} demo_trace" by (simp add: demo_trace_def size_ok_def INT_MAX_def low_byte_ok_def)
  have g: "grants demo_libc demo_trace" unfolding grants_def ids len by (simp add: demo_libc_def)
  have "\<exists>h wt. int h \<le> INT_MAX \<and> int wt \<le> INT_MAX \<and> fopen demo_libc (''./'' @ ''demo.rep'') = Some (trace_text h 2 wt demo_trace)"
    by (rule exI [of _ 20000], rule exI [of _ 1]) (simp add: demo_libc_def INT_MAX_def)
  then have disk: "list_all2 (trace_on_disk demo_libc (o_tracedir ?s)) (chosen_files ?s) [demo_trace]"
    using v g by (simp add: trace_on_disk_def chosen_files_def ids DRIVER_MAXLINE_def)
  have reg: "mem_init (Some 4096) (d_heap demo_driver) = Inr demo_state" by (simp add: mem_init_def demo_driver_def demo_state_def)
  have mem: "malloc_ok demo_libc (length [demo_trace] * 28)" by (simp add: demo_libc_def)
  have err: "d_errors demo_driver = []" by (simp add: demo_driver_def)
  have serves: "o_run_libc ?s \<longrightarrow> clib_serves demo_clib" by (simp add: clib_serves_def demo_clib_def)
  have "\<not> MAX_HEAP < trace_room MM_SEGREGATED demo_trace"
    using demo_room [of MM_SEGREGATED] by (simp add: starved_def demo_driver_def demo_state_def mem_reset_brk_def)
  then have "\<not> driver_full demo_libc MM_SEGREGATED False True (o_tracedir ?s) (chosen_files ?s) [demo_trace] (demo_driver\<lparr>d_heap := demo_state\<rparr>)"
    by (simp add: driver_full_def chosen_files_def)
  then show ?thesis
    using mdriver_accepts_allocator [OF opts disk mem reg demo_ready err serves, of MM_SEGREGATED False True 64] by blast
qed

end
