(* ===== verification/Rio.thy ===== *)
theory Rio
  imports Prelude
begin

text \<open>
  The robust I/O package of \<open>csapp.c\<close>. The kernel's side of a descriptor is the
  script of what the next calls of \<open>read\<close> or \<open>write\<close> meet: a chunk of bytes, an
  interruption by a signal, or an error. The end of a read script is the end of
  the file; a write script that is used up accepts everything.
\<close>

datatype rd_event = Data string | Intr | Err
datatype wr_event = Wrote nat | WIntr | WErr

datatype rd_result = Got string | ReadIntr | ReadErr

text \<open>\<open>read(fd, buf, n)\<close>: at most \<open>n\<close> bytes of the next chunk; no bytes is the end of the file.\<close>

fun sys_read :: "nat \<Rightarrow> rd_event list \<Rightarrow> rd_result \<times> rd_event list" where
  "sys_read n [] = (Got [], [])"
| "sys_read n (Intr # es) = (ReadIntr, es)"
| "sys_read n (Err # es) = (ReadErr, es)"
| "sys_read n (Data s # es) =
     (if n < length s then (Got (take n s), Data (drop n s) # es) else (Got s, es))"

text \<open>A write of at least one byte takes at least one byte.\<close>

fun sys_write :: "nat \<Rightarrow> wr_event list \<Rightarrow> nat option \<times> bool \<times> wr_event list" where
  "sys_write n [] = (Some n, False, [])"
| "sys_write n (Wrote k # es) = (Some (min (Suc k) n), False, es)"
| "sys_write n (WIntr # es) = (None, True, es)"
| "sys_write n (WErr # es) = (None, False, es)"

fun event_size :: "rd_event \<Rightarrow> nat" where
  "event_size (Data s) = Suc (length s)"
| "event_size Intr = 1"
| "event_size Err = 1"

definition script_size :: "rd_event list \<Rightarrow> nat" where
  "script_size es = sum_list (map event_size es)"

lemma script_size_simps [simp]:
  "script_size [] = 0" "script_size (e # es) = event_size e + script_size es"
  by (simp_all add: script_size_def)

lemma sys_read_size: "sys_read n es = (r, es') \<Longrightarrow> r \<noteq> Got [] \<Longrightarrow> 0 < n \<Longrightarrow> script_size es' < script_size es"
  by (cases "(n, es)" rule: sys_read.cases) (auto split: if_splits)

section \<open>Unbuffered reading and writing\<close>

text \<open>The loops return what they have transferred, or \<open>None\<close> for \<open>-1\<close>.\<close>

function rio_readn_loop :: "nat \<Rightarrow> string \<Rightarrow> rd_event list \<Rightarrow> string option \<times> rd_event list" where
  "rio_readn_loop nleft buf es =
     (if nleft = 0 then (Some buf, es)
      else case sys_read nleft es of
        (ReadErr, es') \<Rightarrow> (None, es')
      | (ReadIntr, es') \<Rightarrow> rio_readn_loop nleft buf es'
      | (Got s, es') \<Rightarrow> if s = [] then (Some buf, es') else rio_readn_loop (nleft - length s) (buf @ s) es')"
  by pat_completeness auto
termination
  by (relation "measure (\<lambda>(nleft, buf, es). script_size es)")
    (auto dest: sys_read_size [OF sym])

declare rio_readn_loop.simps [simp del]

definition rio_readn :: "nat \<Rightarrow> rd_event list \<Rightarrow> string option \<times> rd_event list" where
  "rio_readn n es = rio_readn_loop n [] es"

function rio_writen_loop :: "string \<Rightarrow> string \<Rightarrow> wr_event list \<Rightarrow> bool \<times> string \<times> wr_event list" where
  "rio_writen_loop bufp out es =
     (if bufp = [] then (True, out, es)
      else case sys_write (length bufp) es of
        (None, intr, es') \<Rightarrow> if intr then rio_writen_loop bufp out es' else (False, out, es')
      | (Some k, _, es') \<Rightarrow> rio_writen_loop (drop k bufp) (out @ take k bufp) es')"
  by pat_completeness auto
termination
proof (relation "measure (\<lambda>(bufp, out, es). length bufp + length es)", goal_cases)
  case (2 bufp out es x y intr es')
  then show ?case by (cases "(length bufp, es)" rule: sys_write.cases) auto
next
  case (3 bufp out es x y k u es')
  then show ?case by (cases "(length bufp, es)" rule: sys_write.cases) auto
qed simp

declare rio_writen_loop.simps [simp del]

text \<open>\<open>rio_writen\<close> returns whether all of the buffer was written, and what the descriptor has received.\<close>

definition rio_writen :: "string \<Rightarrow> wr_event list \<Rightarrow> bool \<times> string \<times> wr_event list" where
  "rio_writen buf es = rio_writen_loop buf [] es"

section \<open>Buffered reading\<close>

definition RIO_BUFSIZE :: nat where "RIO_BUFSIZE = 8192"
definition MAXLINE :: nat where "MAXLINE = 8192"

text \<open>\<open>rio_bufptr\<close> is the internal buffer from the position of the pointer on.\<close>

record rio_t =
  rio_fd :: "rd_event list"
  rio_cnt :: int
  rio_bufptr :: string

definition rio_readinitb :: "rd_event list \<Rightarrow> rio_t" where
  "rio_readinitb fd = \<lparr>rio_fd = fd, rio_cnt = 0, rio_bufptr = []\<rparr>"

text \<open>The refill loop of \<open>rio_read\<close>: \<open>Some (Some n)\<close> is its early return of \<open>n\<close>, \<open>0\<close> or \<open>-1\<close>.\<close>

function rio_refill :: "rio_t \<Rightarrow> int option \<times> rio_t" where
  "rio_refill rp =
     (if 0 < rio_cnt rp then (None, rp)
      else case sys_read RIO_BUFSIZE (rio_fd rp) of
        (ReadErr, es) \<Rightarrow> (Some (- 1), rp\<lparr>rio_fd := es, rio_cnt := - 1\<rparr>)
      | (ReadIntr, es) \<Rightarrow> rio_refill (rp\<lparr>rio_fd := es, rio_cnt := - 1\<rparr>)
      | (Got s, es) \<Rightarrow>
          if s = [] then (Some 0, rp\<lparr>rio_fd := es, rio_cnt := 0\<rparr>)
          else rio_refill (rp\<lparr>rio_fd := es, rio_cnt := int (length s), rio_bufptr := s\<rparr>))"
  by pat_completeness auto
termination
  by (relation "measure (\<lambda>rp. script_size (rio_fd rp))")
    (auto simp: RIO_BUFSIZE_def dest: sys_read_size [OF sym])

declare rio_refill.simps [simp del]

definition rio_read :: "nat \<Rightarrow> rio_t \<Rightarrow> int \<times> string \<times> rio_t" where
  "rio_read n rp = (case rio_refill rp of
     (Some r, rp') \<Rightarrow> (r, [], rp')
   | (None, rp') \<Rightarrow>
       let cnt = (if rio_cnt rp' < int n then nat (rio_cnt rp') else n) in
       (int cnt, take cnt (rio_bufptr rp'),
        rp'\<lparr>rio_bufptr := drop cnt (rio_bufptr rp'), rio_cnt := rio_cnt rp' - int cnt\<rparr>))"

function rio_readnb_loop :: "nat \<Rightarrow> string \<Rightarrow> rio_t \<Rightarrow> string option \<times> rio_t" where
  "rio_readnb_loop nleft buf rp =
     (if nleft = 0 then (Some buf, rp)
      else case rio_read nleft rp of (nread, s, rp') \<Rightarrow>
        if nread < 0 then (None, rp')
        else if nread = 0 then (Some buf, rp')
        else rio_readnb_loop (nleft - nat nread) (buf @ s) rp')"
  by pat_completeness auto
termination by (relation "measure (\<lambda>(nleft, buf, rp). nleft)") auto

declare rio_readnb_loop.simps [simp del]

definition rio_readnb :: "nat \<Rightarrow> rio_t \<Rightarrow> string option \<times> rio_t" where
  "rio_readnb n rp = rio_readnb_loop n [] rp"

abbreviation newline :: char where "newline \<equiv> CHR 0x0A"

text \<open>
  The line loop: its first argument is \<open>maxlen - n\<close>, and \<open>n - 1\<close> is the number
  of bytes stored so far.
\<close>

fun readline_loop :: "nat \<Rightarrow> string \<Rightarrow> rio_t \<Rightarrow> int \<times> string \<times> rio_t" where
  "readline_loop 0 buf rp = (int (length buf), buf, rp)"
| "readline_loop (Suc k) buf rp = (case rio_read 1 rp of (rc, c, rp') \<Rightarrow>
     if rc = 1 then
       (if c = [newline] then (int (length (buf @ c)), buf @ c, rp') else readline_loop k (buf @ c) rp')
     else if rc = 0 then
       (if buf = [] then (0, [], rp') else (int (length buf), buf, rp'))
     else (- 1, buf, rp'))"

definition rio_readlineb :: "nat \<Rightarrow> rio_t \<Rightarrow> int \<times> string \<times> rio_t" where
  "rio_readlineb maxlen rp = readline_loop (maxlen - 1) [] rp"

section \<open>What the package promises\<close>

text \<open>The bytes a script delivers until the end of the file.\<close>

fun stream :: "rd_event list \<Rightarrow> string" where
  "stream [] = []"
| "stream (Intr # es) = stream es"
| "stream (Err # es) = []"
| "stream (Data s # es) = (if s = [] then [] else s @ stream es)"

definition clean :: "rd_event list \<Rightarrow> bool" where
  "clean es \<longleftrightarrow> (\<forall>e\<in>set es. e \<noteq> Err \<and> e \<noteq> Data [])"

lemma clean_simps [simp]:
  "clean []" "clean (Intr # es) \<longleftrightarrow> clean es" "\<not> clean (Err # es)" "clean (Data s # es) \<longleftrightarrow> s \<noteq> [] \<and> clean es"
  by (auto simp: clean_def)

definition input :: "rio_t \<Rightarrow> string" where
  "input rp = (if 0 < rio_cnt rp then rio_bufptr rp else []) @ stream (rio_fd rp)"

definition rio_ok :: "rio_t \<Rightarrow> bool" where
  "rio_ok rp \<longleftrightarrow> clean (rio_fd rp) \<and> (0 < rio_cnt rp \<longrightarrow> nat (rio_cnt rp) = length (rio_bufptr rp))"

lemma sys_read_clean:
  assumes "clean es" "0 < n" "sys_read n es = (r, es')"
  shows "clean es'" and "r \<noteq> ReadErr" and "r = ReadIntr \<Longrightarrow> stream es' = stream es"
    and "r = Got s \<Longrightarrow> stream es = s @ stream es' \<and> length s \<le> n \<and> (s = [] \<longrightarrow> stream es = [])"
  using assms by (cases "(n, es)" rule: sys_read.cases; auto split: if_splits)+

text \<open>Unbuffered reads return the first \<open>n\<close> bytes, however the kernel cuts and interrupts the stream.\<close>

lemma rio_readn_loop_clean:
  "clean es \<Longrightarrow> \<exists>es'. rio_readn_loop nleft buf es = (Some (buf @ take nleft (stream es)), es') \<and>
     clean es' \<and> stream es' = drop nleft (stream es)"
proof (induction nleft buf es rule: rio_readn_loop.induct)
  case (1 nleft buf es)
  show ?case
  proof (cases "nleft = 0")
    case True
    then show ?thesis using "1.prems" by (simp add: rio_readn_loop.simps)
  next
    case False
    obtain r es1 where r: "sys_read nleft es = (r, es1)" by fastforce
    note c = sys_read_clean [OF "1.prems" _ r]
    show ?thesis
    proof (cases r)
      case (Got s)
      show ?thesis
      proof (cases "s = []")
        case True
        then show ?thesis using False Got r c by (subst rio_readn_loop.simps) auto
      next
        case s: False
        then show ?thesis
          using "1.IH"(1) [OF False r [symmetric] Got s] False Got r c(1,4)
          by (subst rio_readn_loop.simps) auto
      qed
    next
      case ReadIntr
      then show ?thesis
        using "1.IH"(2) [OF False r [symmetric] ReadIntr] False r c(1,3)
        by (subst rio_readn_loop.simps) auto
    qed (use c False in simp)
  qed
qed

lemma rio_refill_clean:
  "rio_ok rp \<Longrightarrow> \<exists>rp'. rio_ok rp' \<and> input rp' = input rp \<and>
     (if input rp = [] then rio_refill rp = (Some 0, rp') else rio_refill rp = (None, rp') \<and> 0 < rio_cnt rp')"
proof (induction rp rule: rio_refill.induct)
  case (1 rp)
  show ?case
  proof (cases "0 < rio_cnt rp")
    case True
    then show ?thesis using "1.prems" by (auto simp: rio_refill.simps input_def rio_ok_def)
  next
    case False
    obtain r es1 where r: "sys_read RIO_BUFSIZE (rio_fd rp) = (r, es1)" by fastforce
    have "clean (rio_fd rp)" using "1.prems" by (simp add: rio_ok_def)
    note c = sys_read_clean [OF this _ r]
    have n: "0 < RIO_BUFSIZE" by (simp add: RIO_BUFSIZE_def)
    show ?thesis
    proof (cases r)
      case (Got s)
      show ?thesis
      proof (cases "s = []")
        case True
        then have "rio_refill rp = (Some 0, rp\<lparr>rio_fd := es1, rio_cnt := 0\<rparr>)"
          using False Got r by (simp add: rio_refill.simps [of rp])
        moreover have "stream (rio_fd rp) = []" "stream es1 = []" "clean es1" using c(1,4) [OF n] Got True by auto
        ultimately show ?thesis using False by (simp add: rio_ok_def input_def)
      next
        case s: False
        let ?rp = "rp\<lparr>rio_fd := es1, rio_cnt := int (length s), rio_bufptr := s\<rparr>"
        have e: "rio_ok ?rp" "input ?rp = input rp" "rio_refill rp = rio_refill ?rp"
          using False Got r c(1,4) [OF n] s by (auto simp: rio_ok_def input_def rio_refill.simps [of rp])
        show ?thesis using "1.IH"(1) [OF False r [symmetric] Got s e(1)] unfolding e(2,3) .
      qed
    next
      case ReadIntr
      let ?rp = "rp\<lparr>rio_fd := es1, rio_cnt := - 1\<rparr>"
      have e: "rio_ok ?rp" "input ?rp = input rp" "rio_refill rp = rio_refill ?rp"
        using False ReadIntr r c(1,3) [OF n] by (auto simp: rio_ok_def input_def rio_refill.simps [of rp])
      show ?thesis using "1.IH"(2) [OF False r [symmetric] ReadIntr e(1)] unfolding e(2,3) .
    qed (use c [OF n] in simp)
  qed
qed

text \<open>One buffered read takes a non-empty prefix of the input, if there is any.\<close>

lemma rio_read_clean:
  assumes "rio_ok rp" "0 < n"
  shows "\<exists>s rp'. rio_read n rp = (int (length s), s, rp') \<and> rio_ok rp' \<and> input rp = s @ input rp' \<and>
    length s \<le> n \<and> (s = [] \<longleftrightarrow> input rp = [])"
proof (cases "input rp = []")
  case True
  then obtain rp' where "rio_refill rp = (Some 0, rp')" "rio_ok rp'" "input rp' = []"
    using rio_refill_clean [OF assms(1)] by auto
  then show ?thesis using True by (simp add: rio_read_def)
next
  case False
  then obtain rp' where rp': "rio_refill rp = (None, rp')" "0 < rio_cnt rp'" "rio_ok rp'" "input rp' = input rp"
    using rio_refill_clean [OF assms(1)] by auto
  define cnt where "cnt = (if rio_cnt rp' < int n then nat (rio_cnt rp') else n)"
  let ?rp = "rp'\<lparr>rio_bufptr := drop cnt (rio_bufptr rp'), rio_cnt := rio_cnt rp' - int cnt\<rparr>"
  have len: "nat (rio_cnt rp') = length (rio_bufptr rp')" using rp' by (simp add: rio_ok_def)
  then have cnt: "0 < cnt" "cnt \<le> length (rio_bufptr rp')" "cnt \<le> n" using rp'(2) assms(2) by (auto simp: cnt_def)
  have "rio_read n rp = (int cnt, take cnt (rio_bufptr rp'), ?rp)"
    using rp'(1) by (simp add: rio_read_def cnt_def Let_def)
  moreover have "rio_ok ?rp" using rp' len cnt by (auto simp: rio_ok_def)
  moreover have "input rp = take cnt (rio_bufptr rp') @ input ?rp"
    unfolding rp'(4) [symmetric] using rp'(2) len cnt by (auto simp: input_def simp flip: append_assoc)
  ultimately show ?thesis using cnt False by (intro exI [of _ "take cnt (rio_bufptr rp')"] exI [of _ ?rp]) auto
qed

lemma rio_readnb_loop_clean:
  "rio_ok rp \<Longrightarrow> \<exists>rp'. rio_readnb_loop nleft buf rp = (Some (buf @ take nleft (input rp)), rp') \<and> rio_ok rp' \<and>
     input rp' = drop nleft (input rp)"
proof (induction nleft arbitrary: buf rp rule: less_induct)
  case (less nleft)
  show ?case
  proof (cases "nleft = 0")
    case False
    then obtain s rp1 where s: "rio_read nleft rp = (int (length s), s, rp1)" "rio_ok rp1" "input rp = s @ input rp1"
      "length s \<le> nleft" "s = [] \<longleftrightarrow> input rp = []" using rio_read_clean [OF less.prems] by blast
    show ?thesis
    proof (cases "s = []")
      case True
      then have "input rp = []" using s(5) by blast
      moreover from this have "input rp1 = []" using s(3) by simp
      moreover have "rio_readnb_loop nleft buf rp = (Some buf, rp1)"
        using s(1) True False by (simp add: rio_readnb_loop.simps [of nleft buf rp])
      ultimately show ?thesis using s(2) by simp
    next
      case ne: False
      then obtain rp2 where "rio_readnb_loop (nleft - length s) (buf @ s) rp1 =
          (Some ((buf @ s) @ take (nleft - length s) (input rp1)), rp2)" "rio_ok rp2"
        "input rp2 = drop (nleft - length s) (input rp1)"
        using less.IH [of "nleft - length s" rp1 "buf @ s"] False s(2) by auto
      then show ?thesis using s ne False by (subst rio_readnb_loop.simps) simp
    qed
  qed (use less.prems in \<open>simp add: rio_readnb_loop.simps\<close>)
qed

fun take_line :: "nat \<Rightarrow> string \<Rightarrow> string" where
  "take_line 0 s = []"
| "take_line (Suc k) [] = []"
| "take_line (Suc k) (c # s) = c # (if c = newline then [] else take_line k s)"

lemma take_line_prefix: "take (length (take_line k s)) s = take_line k s"
  by (induction k s rule: take_line.induct) auto

lemma take_line_line:
  "newline \<notin> set l \<Longrightarrow> length l < k \<Longrightarrow> take_line k (l @ newline # rest) = l @ [newline]"
  by (induction l arbitrary: k) (case_tac k; auto)+

lemma readline_loop_clean:
  "rio_ok rp \<Longrightarrow> \<exists>rp'. readline_loop k buf rp =
     (int (length (buf @ take_line k (input rp))), buf @ take_line k (input rp), rp') \<and> rio_ok rp' \<and>
     input rp' = drop (length (take_line k (input rp))) (input rp)"
proof (induction k arbitrary: buf rp)
  case (Suc k)
  obtain s rp1 where s: "rio_read 1 rp = (int (length s), s, rp1)" "rio_ok rp1" "input rp = s @ input rp1"
    "length s \<le> 1" "s = [] \<longleftrightarrow> input rp = []" using rio_read_clean [OF Suc.prems] by (metis zero_less_one)
  show ?case
  proof (cases s)
    case Nil
    then have "input rp = []" using s(5) by blast
    moreover from this have "input rp1 = []" using s(3) by simp
    ultimately show ?thesis using s(1,2) Nil by simp
  next
    case (Cons c t)
    then have c: "s = [c]" "input rp = c # input rp1" using s by auto
    show ?thesis
    proof (cases "c = newline")
      case True
      then show ?thesis using s c by simp
    next
      case False
      then show ?thesis using Suc.IH [OF s(2), of "buf @ [c]"] s(1) c by auto
    qed
  qed
qed simp

lemma rio_readlineb_clean:
  assumes "rio_ok rp"
  shows "\<exists>rp'. rio_readlineb n rp = (int (length (take_line (n - 1) (input rp))), take_line (n - 1) (input rp), rp') \<and>
    rio_ok rp' \<and> input rp' = drop (length (take_line (n - 1) (input rp))) (input rp)"
  using readline_loop_clean [OF assms, of "n - 1" "[]"] by (simp add: rio_readlineb_def)

lemma rio_init_ok: "clean es \<Longrightarrow> rio_ok (rio_readinitb es) \<and> input (rio_readinitb es) = stream es"
  by (simp add: rio_readinitb_def rio_ok_def input_def)

section \<open>Every read consumes its script\<close>

definition rio_size :: "rio_t \<Rightarrow> nat" where
  "rio_size rp = nat (rio_cnt rp) + script_size (rio_fd rp)"

lemma sys_read_consumes: "sys_read n es = (Got s, es') \<Longrightarrow> length s + script_size es' \<le> script_size es"
  by (cases "(n, es)" rule: sys_read.cases) (auto split: if_splits)

lemma sys_read_mono: "sys_read n es = (r, es') \<Longrightarrow> script_size es' \<le> script_size es"
  by (cases "(n, es)" rule: sys_read.cases) (auto split: if_splits)

lemma rio_refill_progress:
  "rio_refill rp = (r, rp') \<Longrightarrow> rio_size rp' \<le> rio_size rp \<and> (case r of None \<Rightarrow> 0 < rio_cnt rp' | Some c \<Rightarrow> c \<le> 0)"
proof (induction rp rule: rio_refill.induct)
  case (1 rp)
  show ?case
  proof (cases "0 < rio_cnt rp")
    case True
    then show ?thesis using "1.prems" by (auto simp: rio_refill.simps)
  next
    case False
    obtain q es1 where q: "sys_read RIO_BUFSIZE (rio_fd rp) = (q, es1)" by fastforce
    note m = sys_read_mono [OF q] and e = rio_refill.simps [of rp]
    show ?thesis
    proof (cases q)
      case (Got s)
      then show ?thesis
        using "1.prems" "1.IH"(1) [OF False q [symmetric] Got] sys_read_consumes [OF q [unfolded Got]] False q m
        by (cases "s = []") (auto simp: e rio_size_def)
    next
      case ReadIntr
      then show ?thesis
        using "1.prems" "1.IH"(2) [OF False q [symmetric] ReadIntr] False q m by (auto simp: e rio_size_def)
    next
      case ReadErr
      then show ?thesis using "1.prems" False q m by (auto simp: e rio_size_def)
    qed
  qed
qed

lemma rio_read_size: "rio_read n rp = (r, s, rp') \<Longrightarrow> rio_size rp' + nat r \<le> rio_size rp"
proof -
  assume a: "rio_read n rp = (r, s, rp')"
  obtain q rp1 where q: "rio_refill rp = (q, rp1)" by fastforce
  show ?thesis
  proof (cases q)
    case None
    then show ?thesis using a q rio_refill_progress [OF q]
      by (auto simp: rio_read_def rio_size_def Let_def split: if_splits)
  next
    case (Some c)
    then show ?thesis using a q rio_refill_progress [OF q] by (auto simp: rio_read_def)
  qed
qed

lemma readline_loop_size: "readline_loop k buf rp = (r, l, rp') \<Longrightarrow> rio_size rp' + nat r \<le> rio_size rp + length buf"
proof (induction k arbitrary: buf rp)
  case (Suc k)
  obtain rc c rp1 where c: "rio_read 1 rp = (rc, c, rp1)" by (metis prod_cases3)
  note m = rio_read_size [OF c]
  have "length c \<le> nat rc"
    using c by (auto simp: rio_read_def Let_def split: option.splits prod.splits)
  then show ?case using Suc.prems Suc.IH [of "buf @ c" rp1] c m by (auto split: if_splits)
qed simp

lemma rio_readlineb_size: "rio_readlineb n rp = (r, l, rp') \<Longrightarrow> 0 < r \<Longrightarrow> rio_size rp' < rio_size rp"
  using readline_loop_size [of "n - 1" "[]" rp r l rp'] by (simp add: rio_readlineb_def)

lemma rio_readn_loop_size:
  "rio_readn_loop n buf es = (Some s, es') \<Longrightarrow> script_size es' + length s \<le> script_size es + length buf"
proof (induction n buf es rule: rio_readn_loop.induct)
  case (1 n buf es)
  obtain q es1 where q: "sys_read n es = (q, es1)" by fastforce
  note e = rio_readn_loop.simps [of n buf es] and m = sys_read_mono [OF q]
  show ?case
  proof (cases "n = 0")
    case False
    show ?thesis
    proof (cases q)
      case (Got t)
      then show ?thesis
        using "1.prems" "1.IH"(1) [OF False q [symmetric] Got] sys_read_consumes [OF q [unfolded Got]] False q m
        by (cases "t = []") (auto simp: e)
    qed (use "1.prems" "1.IH"(2) [OF False q [symmetric]] False q m in \<open>auto simp: e\<close>)
  qed (use "1.prems" e in auto)
qed

lemma rio_readn_size: "rio_readn n es = (Some s, es') \<Longrightarrow> s \<noteq> [] \<Longrightarrow> script_size es' < script_size es"
  using rio_readn_loop_size [of n "[]" es s es'] by (cases s) (simp_all add: rio_readn_def)

section \<open>Writing\<close>

lemma rio_writen_loop_prefix:
  "rio_writen_loop bufp out es = (ok, out', es') \<Longrightarrow>
   (\<exists>k. out' = out @ take k bufp) \<and> (ok \<longrightarrow> out' = out @ bufp) \<and> (WErr \<notin> set es \<longrightarrow> ok \<and> WErr \<notin> set es')"
proof (induction bufp out es rule: rio_writen_loop.induct)
  case (1 bufp out es)
  note e = rio_writen_loop.simps [of bufp out es]
  show ?case
  proof (cases "bufp = []")
    case False
    obtain w i es1 where w: "sys_write (length bufp) es = (w, i, es1)" by (metis prod_cases3)
    have werr: "WErr \<notin> set es \<Longrightarrow> WErr \<notin> set es1 \<and> (w = None \<longrightarrow> i)"
      using w by (cases "(length bufp, es)" rule: sys_write.cases) auto
    show ?thesis
    proof (cases w)
      case None
      then show ?thesis using "1.prems" "1.IH"(1) [OF False w [symmetric] None refl] werr w False
        by (cases i) (auto simp: e intro: exI [of _ 0])
    next
      case (Some k)
      have "rio_writen_loop (drop k bufp) (out @ take k bufp) es1 = (ok, out', es')"
        using "1.prems" Some w False by (simp add: e)
      from "1.IH"(2) [OF False w [symmetric] Some refl this] werr
      show ?thesis by (auto simp: take_add [symmetric])
    qed
  qed (use "1.prems" e in auto)
qed

lemma rio_writen_ok: "WErr \<notin> set es \<Longrightarrow> \<exists>es'. rio_writen buf es = (True, buf, es') \<and> WErr \<notin> set es'"
  using rio_writen_loop_prefix [of buf "[]" es] by (cases "rio_writen buf es") (auto simp: rio_writen_def)

section \<open>The package is robust\<close>

text \<open>
  C26. However the kernel cuts a stream into chunks and interrupts the calls, a read
  of \<open>n\<close> bytes returns the next \<open>n\<close> bytes, or all there are before the end of
  the file, a line is returned up to its newline or the size of the buffer, and
  what follows stays readable; a write transfers the whole buffer, and after an
  error a prefix of it.
\<close>

theorem rio_robust:
  assumes "clean es" "rio_ok rp" "WErr \<notin> set ws"
  shows "(\<exists>es'. rio_readn n es = (Some (take n (stream es)), es') \<and> clean es' \<and> stream es' = drop n (stream es)) \<and>
    (\<exists>rp'. rio_readnb n rp = (Some (take n (input rp)), rp') \<and> rio_ok rp' \<and> input rp' = drop n (input rp)) \<and>
    (let line = take_line (n - 1) (input rp) in
     \<exists>rp'. rio_readlineb n rp = (int (length line), line, rp') \<and> rio_ok rp' \<and> input rp = line @ input rp') \<and>
    fst (rio_writen buf ws) \<and> fst (snd (rio_writen buf ws)) = buf \<and>
    take (length (fst (snd (rio_writen buf (ws @ WErr # ws'))))) buf = fst (snd (rio_writen buf (ws @ WErr # ws')))"
proof (intro conjI)
  show "\<exists>es'. rio_readn n es = (Some (take n (stream es)), es') \<and> clean es' \<and> stream es' = drop n (stream es)"
    using rio_readn_loop_clean [OF assms(1), of n "[]"] by (simp add: rio_readn_def)
  show "\<exists>rp'. rio_readnb n rp = (Some (take n (input rp)), rp') \<and> rio_ok rp' \<and> input rp' = drop n (input rp)"
    using rio_readnb_loop_clean [OF assms(2), of n "[]"] by (simp add: rio_readnb_def)
  show "let line = take_line (n - 1) (input rp) in
     \<exists>rp'. rio_readlineb n rp = (int (length line), line, rp') \<and> rio_ok rp' \<and> input rp = line @ input rp'"
    using rio_readlineb_clean [OF assms(2), of n] take_line_prefix [of "n - 1" "input rp"]
    by (simp add: Let_def) (metis append_take_drop_id)
  show "fst (rio_writen buf ws)" "fst (snd (rio_writen buf ws)) = buf"
    using rio_writen_ok [OF assms(3), of buf] by auto
  obtain ok out' es' where w: "rio_writen_loop buf [] (ws @ WErr # ws') = (ok, out', es')" by (metis prod_cases3)
  from rio_writen_loop_prefix [OF w] obtain k where "out' = take k buf" by auto
  then show "take (length (fst (snd (rio_writen buf (ws @ WErr # ws'))))) buf = fst (snd (rio_writen buf (ws @ WErr # ws')))"
    using w by (simp add: rio_writen_def min_def)
qed

theorem rio_robust_witness:
  "\<exists>rp'. rio_readlineb 5 (rio_readinitb [Data ''a'', Intr, Data [CHR ''b'', newline, CHR ''c'']]) =
     (3, [CHR ''a'', CHR ''b'', newline], rp') \<and> input rp' = ''c''"
proof -
  let ?rp = "rio_readinitb [Data ''a'', Intr, Data [CHR ''b'', newline, CHR ''c'']]"
  have ok: "rio_ok ?rp" and i: "input ?rp = [CHR ''a'', CHR ''b'', newline, CHR ''c'']"
    by (simp_all add: rio_readinitb_def rio_ok_def input_def)
  have "\<exists>rp'. rio_readlineb 5 ?rp = (int (length (take_line 4 (input ?rp))), take_line 4 (input ?rp), rp') \<and>
      rio_ok rp' \<and> input ?rp = take_line 4 (input ?rp) @ input rp'"
    using rio_robust [of "[]" ?rp "[]" 5 "[]" "[]"] ok by (simp add: Let_def)
  moreover have "take_line 4 (input ?rp) = [CHR ''a'', CHR ''b'', newline]"
    by (simp add: i eval_nat_numeral)
  ultimately show ?thesis by (auto simp: i)
qed

end
