(* ===== verification/Proxy_Cache.thy ===== *)
theory Proxy_Cache
  imports Rio
begin

text \<open>
  The object cache of the web proxy (\<open>proxy.c\<close>): ten slots, looked up by URI,
  with the least recently used slot as the victim. The clock reading of every
  operation is an argument. An array \<open>value\<close> is the bytes written to it so far.
\<close>

definition MAX_CACHE_SIZE :: nat where "MAX_CACHE_SIZE = 1049000"
definition MAX_OBJECT_SIZE :: nat where "MAX_OBJECT_SIZE = 102400"
definition NUM_CACHE_OBJECTS :: nat where "NUM_CACHE_OBJECTS = MAX_CACHE_SIZE div MAX_OBJECT_SIZE"

lemma NUM_eq: "NUM_CACHE_OBJECTS = 10"
  by (simp add: NUM_CACHE_OBJECTS_def MAX_CACHE_SIZE_def MAX_OBJECT_SIZE_def)

record cache_object_t =
  valid :: bool
  clk :: int
  key :: string
  obj_value :: string
  value_size :: nat

type_synonym cache_t = "cache_object_t list"

definition cache_init :: "cache_t \<Rightarrow> cache_t" where
  "cache_init c = map (\<lambda>obj. obj\<lparr>valid := False, clk := 0, key := [], value_size := 0\<rparr>) c"

definition cache_find :: "cache_t \<Rightarrow> string \<Rightarrow> nat option" where
  "cache_find c k = find (\<lambda>i. valid (c ! i) \<and> key (c ! i) = k) [0..<NUM_CACHE_OBJECTS]"

definition cache_get :: "cache_t \<Rightarrow> string \<Rightarrow> int \<Rightarrow> (string \<times> cache_t) option" where
  "cache_get c k now = (case cache_find c k of
     None \<Rightarrow> None
   | Some i \<Rightarrow> Some (take (value_size (c ! i)) (obj_value (c ! i)), c[i := (c ! i)\<lparr>clk := now\<rparr>]))"

definition strcpy_key :: "string \<Rightarrow> string exec" where
  "strcpy_key k = (if length k < MAXLINE then Inr k else Inl OutOfBounds)"

definition memcpy_value :: "string \<Rightarrow> string \<Rightarrow> string exec" where
  "memcpy_value old v = (if length v \<le> MAX_OBJECT_SIZE then Inr (v @ drop (length v) old) else Inl OutOfBounds)"

definition cache_victim :: "cache_t \<Rightarrow> nat" where
  "cache_victim c = fold (\<lambda>i victim. if clk (c ! i) < clk (c ! victim) then i else victim) [1..<NUM_CACHE_OBJECTS] 0"

definition cache_put :: "cache_t \<Rightarrow> string \<Rightarrow> string \<Rightarrow> int \<Rightarrow> cache_t exec" where
  "cache_put c k v now = (case cache_find c k of
     Some i \<Rightarrow>
       sbind (memcpy_value (obj_value (c ! i)) v) (\<lambda>bytes.
       Inr (c[i := (c ! i)\<lparr>obj_value := bytes, value_size := length v, clk := now\<rparr>]))
   | None \<Rightarrow> (case find (\<lambda>i. \<not> valid (c ! i)) [0..<NUM_CACHE_OBJECTS] of
       Some i \<Rightarrow>
         sbind (strcpy_key k) (\<lambda>k.
         sbind (memcpy_value (obj_value (c ! i)) v) (\<lambda>bytes.
         Inr (c[i := \<lparr>valid = True, clk = now, key = k, obj_value = bytes, value_size = length v\<rparr>])))
     | None \<Rightarrow>
         let i = cache_victim c in
         sbind (strcpy_key k) (\<lambda>k.
         sbind (memcpy_value (obj_value (c ! i)) v) (\<lambda>bytes.
         Inr (c[i := (c ! i)\<lparr>clk := now, key := k, obj_value := bytes, value_size := length v\<rparr>])))))"

section \<open>The cache as a map\<close>

definition cache_ok :: "cache_t \<Rightarrow> bool" where
  "cache_ok c \<longleftrightarrow> length c = NUM_CACHE_OBJECTS \<and>
     (\<forall>i < length c. \<forall>j < length c. valid (c ! i) \<longrightarrow> valid (c ! j) \<longrightarrow> key (c ! i) = key (c ! j) \<longrightarrow> i = j)"

definition store :: "cache_t \<Rightarrow> string \<rightharpoonup> string" where
  "store c k = map_option (\<lambda>i. take (value_size (c ! i)) (obj_value (c ! i))) (cache_find c k)"

lemma cache_find_None: "cache_find c k = None \<longleftrightarrow> (\<forall>i < NUM_CACHE_OBJECTS. valid (c ! i) \<longrightarrow> key (c ! i) \<noteq> k)"
  by (auto simp: cache_find_def find_None_iff)

lemma find_upt_SomeD: "find P [0..<n] = Some i \<Longrightarrow> i < n \<and> P i"
  by (auto simp: find_Some_iff)

lemma cache_find_Some:
  assumes "cache_ok c"
  shows "cache_find c k = Some i \<longleftrightarrow> i < NUM_CACHE_OBJECTS \<and> valid (c ! i) \<and> key (c ! i) = k"
proof
  assume "cache_find c k = Some i"
  then show "i < NUM_CACHE_OBJECTS \<and> valid (c ! i) \<and> key (c ! i) = k"
    unfolding cache_find_def by (auto dest: find_upt_SomeD)
next
  assume i: "i < NUM_CACHE_OBJECTS \<and> valid (c ! i) \<and> key (c ! i) = k"
  then obtain j where j: "cache_find c k = Some j" using cache_find_None [of c k] by (cases "cache_find c k") auto
  then have "j < NUM_CACHE_OBJECTS \<and> valid (c ! j) \<and> key (c ! j) = k"
    unfolding cache_find_def by (auto dest: find_upt_SomeD)
  then show "cache_find c k = Some i" using i j assms by (auto simp: cache_ok_def)
qed

lemma cache_ok_inj:
  "cache_ok c \<Longrightarrow> i < NUM_CACHE_OBJECTS \<Longrightarrow> j < NUM_CACHE_OBJECTS \<Longrightarrow> valid (c ! i) \<Longrightarrow> valid (c ! j) \<Longrightarrow>
   key (c ! i) = key (c ! j) \<Longrightarrow> i = j"
  unfolding cache_ok_def by metis

text \<open>Storing an object in a slot whose key is not taken elsewhere.\<close>

lemma store_slot:
  assumes c: "cache_ok c" and i: "i < NUM_CACHE_OBJECTS" and ob: "valid ob"
    and fresh: "\<And>j. j < NUM_CACHE_OBJECTS \<Longrightarrow> valid (c ! j) \<Longrightarrow> key (c ! j) = key ob \<Longrightarrow> j = i"
  shows "cache_ok (c[i := ob]) \<and>
    store (c[i := ob]) = (if valid (c ! i) then (store c)(key (c ! i) := None) else store c)
      (key ob \<mapsto> take (value_size ob) (obj_value ob))"
proof -
  have len: "length c = NUM_CACHE_OBJECTS" using c by (simp add: cache_ok_def)
  have nth: "c[i := ob] ! j = (if j = i then ob else c ! j)" for j
    using i len by (simp add: nth_list_update)
  note inj = cache_ok_inj [OF c]
  have ok: "cache_ok (c[i := ob])"
    unfolding cache_ok_def
  proof (intro conjI allI impI)
    fix j j' assume j: "j < length (c[i := ob])" "j' < length (c[i := ob])" "valid (c[i := ob] ! j)"
      "valid (c[i := ob] ! j')" "key (c[i := ob] ! j) = key (c[i := ob] ! j')"
    then show "j = j'"
      using fresh inj len nth length_list_update by metis
  qed (simp add: len)
  have "store (c[i := ob]) k =
      ((if valid (c ! i) then (store c)(key (c ! i) := None) else store c)(key ob \<mapsto> take (value_size ob) (obj_value ob))) k" for k
  proof (cases "cache_find (c[i := ob]) k")
    case (Some j)
    then have j: "j < NUM_CACHE_OBJECTS" "valid (c[i := ob] ! j)" "key (c[i := ob] ! j) = k"
      using cache_find_Some [OF ok] by auto
    show ?thesis
    proof (cases "j = i")
      case True
      then show ?thesis using Some j by (simp add: store_def nth)
    next
      case False
      then have "cache_find c k = Some j" "k \<noteq> key ob" "valid (c ! i) \<Longrightarrow> k \<noteq> key (c ! i)"
        using j cache_find_Some [OF c, of k j] fresh [of j] inj [of j i] i by (auto simp: nth)
      then show ?thesis using Some False by (auto simp: store_def nth)
    qed
  next
    case None
    then have n: "\<And>j. j < NUM_CACHE_OBJECTS \<Longrightarrow> valid (c[i := ob] ! j) \<Longrightarrow> key (c[i := ob] ! j) \<noteq> k"
      by (simp add: cache_find_None)
    have "k \<noteq> key ob" using n [OF i] ob by (auto simp: nth)
    moreover have "cache_find c k = None \<or> (valid (c ! i) \<and> key (c ! i) = k)"
    proof (rule disjCI)
      assume "\<not> (valid (c ! i) \<and> key (c ! i) = k)"
      then show "cache_find c k = None" unfolding cache_find_None using n nth by metis
    qed
    ultimately show ?thesis using None by (auto simp: store_def)
  qed
  then show ?thesis using ok by (auto simp: fun_eq_iff)
qed

lemma store_clk: "cache_ok c \<Longrightarrow> i < NUM_CACHE_OBJECTS \<Longrightarrow> valid (c ! i) \<Longrightarrow>
    cache_ok (c[i := (c ! i)\<lparr>clk := now\<rparr>]) \<and> store (c[i := (c ! i)\<lparr>clk := now\<rparr>]) = store c"
proof -
  assume c: "cache_ok c" and i: "i < NUM_CACHE_OBJECTS" "valid (c ! i)"
  have "cache_find c (key (c ! i)) = Some i" using i cache_find_Some [OF c] by simp
  then have s: "store c (key (c ! i)) = Some (take (value_size (c ! i)) (obj_value (c ! i)))" by (simp add: store_def)
  have fresh: "j = i" if "j < NUM_CACHE_OBJECTS" "valid (c ! j)" "key (c ! j) = key ((c ! i)\<lparr>clk := now\<rparr>)" for j
    by (rule cache_ok_inj [OF c]) (use that i in simp_all)
  have "cache_ok (c[i := (c ! i)\<lparr>clk := now\<rparr>]) \<and> store (c[i := (c ! i)\<lparr>clk := now\<rparr>]) =
      (store c)(key (c ! i) := None, key (c ! i) \<mapsto> take (value_size (c ! i)) (obj_value (c ! i)))"
    using store_slot [OF c i(1) _ fresh] i(2) by simp
  then show ?thesis using s by (simp only: fun_upd_upd fun_upd_idem)
qed

lemma cache_get_store:
  assumes "cache_ok c"
  shows "(case cache_get c k now of None \<Rightarrow> store c k = None
    | Some (v, c') \<Rightarrow> store c k = Some v \<and> cache_ok c' \<and> store c' = store c)"
proof (cases "cache_find c k")
  case None
  then show ?thesis by (simp add: cache_get_def store_def)
next
  case (Some i)
  then have "i < NUM_CACHE_OBJECTS" "valid (c ! i)" using cache_find_Some [OF assms] by auto
  then show ?thesis using Some store_clk [OF assms, of i now] by (simp add: cache_get_def) (simp add: store_def)
qed

lemma cache_victim_least:
  assumes "length c = NUM_CACHE_OBJECTS"
  shows "cache_victim c < NUM_CACHE_OBJECTS \<and> (\<forall>j < NUM_CACHE_OBJECTS. clk (c ! cache_victim c) \<le> clk (c ! j))"
proof -
  let ?f = "\<lambda>i victim. if clk (c ! i) < clk (c ! victim) then i else victim"
  have "fold ?f [1..<n] 0 < n \<and> (\<forall>j < n. clk (c ! fold ?f [1..<n] 0) \<le> clk (c ! j))" if "0 < n" for n
    using that
  proof (induction n)
    case (Suc n)
    then show ?case by (cases "n = 0") (auto simp: less_Suc_eq)
  qed simp
  then show ?thesis by (simp add: cache_victim_def NUM_eq)
qed

text \<open>
  What \<open>cache_put\<close> does to the map: it adds the entry, and evicts an entry
  only when the key is new and no slot is free.
\<close>

definition full :: "cache_t \<Rightarrow> bool" where
  "full c \<longleftrightarrow> (\<forall>i < NUM_CACHE_OBJECTS. valid (c ! i))"

lemma cache_put_store:
  assumes c: "cache_ok c" and k: "length k < MAXLINE" and v: "length v \<le> MAX_OBJECT_SIZE"
  shows "\<exists>c'. cache_put c k v now = Inr c' \<and> cache_ok c' \<and>
    store c' = (if store c k = None \<and> full c then (store c)(key (c ! cache_victim c) := None) else store c)(k \<mapsto> v)"
proof (cases "cache_find c k")
  case (Some i)
  then have i: "i < NUM_CACHE_OBJECTS" "valid (c ! i)" "key (c ! i) = k" using cache_find_Some [OF c] by auto
  let ?ob = "(c ! i)\<lparr>obj_value := v @ drop (length v) (obj_value (c ! i)), value_size := length v, clk := now\<rparr>"
  have fresh: "j = i" if "j < NUM_CACHE_OBJECTS" "valid (c ! j)" "key (c ! j) = key ?ob" for j
    by (rule cache_ok_inj [OF c]) (use that i in simp_all)
  have "cache_put c k v now = Inr (c[i := ?ob])" using Some v by (simp add: cache_put_def memcpy_value_def)
  moreover have "store c k \<noteq> None" using Some by (simp add: store_def)
  moreover have "cache_ok (c[i := ?ob]) \<and> store (c[i := ?ob]) = (store c)(k \<mapsto> v)"
    using store_slot [OF c i(1), of ?ob, OF _ fresh] i(2,3) by (simp only: fun_upd_upd) simp
  ultimately show ?thesis by auto
next
  case None
  then have nk: "\<And>j. j < NUM_CACHE_OBJECTS \<Longrightarrow> valid (c ! j) \<Longrightarrow> key (c ! j) \<noteq> k" by (simp add: cache_find_None)
  have sn: "store c k = None" using None by (simp add: store_def)
  show ?thesis
  proof (cases "find (\<lambda>i. \<not> valid (c ! i)) [0..<NUM_CACHE_OBJECTS]")
    case (Some i)
    let ?ob = "\<lparr>valid = True, clk = now, key = k, obj_value = v @ drop (length v) (obj_value (c ! i)), value_size = length v\<rparr>"
    have i: "i < NUM_CACHE_OBJECTS" "\<not> valid (c ! i)" using find_upt_SomeD [OF Some] by auto
    have "cache_put c k v now = Inr (c[i := ?ob])"
      using None Some k v by (simp add: cache_put_def memcpy_value_def strcpy_key_def)
    moreover have "cache_ok (c[i := ?ob]) \<and> store (c[i := ?ob]) = (store c)(k \<mapsto> v)"
      using store_slot [OF c i(1), of ?ob] nk i by simp
    moreover have "\<not> full c" using i by (auto simp: full_def)
    ultimately show ?thesis by auto
  next
    case fnd: None
    let ?i = "cache_victim c"
    let ?ob = "(c ! ?i)\<lparr>clk := now, key := k, obj_value := v @ drop (length v) (obj_value (c ! ?i)), value_size := length v\<rparr>"
    have "full c" using fnd by (auto simp: full_def find_None_iff)
    moreover have i: "?i < NUM_CACHE_OBJECTS" using cache_victim_least c by (auto simp: cache_ok_def)
    moreover have "cache_put c k v now = Inr (c[?i := ?ob])"
      using None fnd k v by (simp add: cache_put_def memcpy_value_def strcpy_key_def Let_def)
    moreover have "cache_ok (c[?i := ?ob]) \<and> store (c[?i := ?ob]) = (store c)(key (c ! ?i) := None, k \<mapsto> v)"
      using store_slot [OF c i, of ?ob] nk i \<open>full c\<close> by (auto simp: full_def)
    ultimately show ?thesis using sn by auto
  qed
qed

section \<open>What clients rely on\<close>

datatype ('k, 'v) store_op = Put 'k 'v int | Get 'k int

fun run_ops :: "('c \<Rightarrow> 'k \<Rightarrow> int \<Rightarrow> ('v \<times> 'c) option) \<Rightarrow> ('c \<Rightarrow> 'k \<Rightarrow> 'v \<Rightarrow> int \<Rightarrow> 'c exec) \<Rightarrow>
    ('k, 'v) store_op list \<Rightarrow> 'c \<Rightarrow> 'c exec" where
  "run_ops get put [] c = Inr c"
| "run_ops get put (Put k v t # ops) c = sbind (put c k v t) (run_ops get put ops)"
| "run_ops get put (Get k t # ops) c =
     run_ops get put ops (case get c k t of None \<Rightarrow> c | Some (v, c') \<Rightarrow> c')"

fun last_put :: "('k, 'v) store_op list \<Rightarrow> 'k \<Rightarrow> 'v option" where
  "last_put [] k = None"
| "last_put (Put k' v t # ops) k =
     (case last_put ops k of Some w \<Rightarrow> Some w | None \<Rightarrow> if k' = k then Some v else None)"
| "last_put (Get k' t # ops) k = last_put ops k"

locale object_store =
  fixes inv :: "'c \<Rightarrow> bool"
    and view :: "'c \<Rightarrow> 'k \<rightharpoonup> 'v"
    and get :: "'c \<Rightarrow> 'k \<Rightarrow> int \<Rightarrow> ('v \<times> 'c) option"
    and put :: "'c \<Rightarrow> 'k \<Rightarrow> 'v \<Rightarrow> int \<Rightarrow> 'c exec"
    and fits :: "'k \<Rightarrow> 'v \<Rightarrow> bool"
  assumes get_none: "inv c \<Longrightarrow> get c k t = None \<Longrightarrow> view c k = None"
    and get_some: "inv c \<Longrightarrow> get c k t = Some (v, c') \<Longrightarrow> view c k = Some v \<and> inv c' \<and> view c' = view c"
    and put_law: "inv c \<Longrightarrow> fits k v \<Longrightarrow> \<exists>c'. put c k v t = Inr c' \<and> inv c' \<and> view c' k = Some v \<and>
      (\<forall>k'. k' \<noteq> k \<longrightarrow> view c' k' = view c k' \<or> view c' k' = None)"
begin

text \<open>A run of operations returns, and whatever is found afterwards is what was stored last.\<close>

lemma never_stale:
  "inv c \<Longrightarrow> (\<And>k v t. Put k v t \<in> set ops \<Longrightarrow> fits k v) \<Longrightarrow>
   \<exists>c'. run_ops get put ops c = Inr c' \<and> inv c' \<and>
     (\<forall>k v. view c' k = Some v \<longrightarrow> last_put ops k = Some v \<or> last_put ops k = None \<and> view c k = Some v)"
proof (induction ops arbitrary: c)
  case (Cons x ops)
  show ?case
  proof (cases x)
    case (Put k v t)
    obtain c1 where c1: "put c k v t = Inr c1" "inv c1" "view c1 k = Some v"
      "\<And>k'. k' \<noteq> k \<Longrightarrow> view c1 k' = view c k' \<or> view c1 k' = None"
      using put_law [OF Cons.prems(1), of k v t] Cons.prems(2) Put by auto
    obtain c2 where c2: "run_ops get put ops c1 = Inr c2" "inv c2"
      "\<And>k v. view c2 k = Some v \<Longrightarrow> last_put ops k = Some v \<or> last_put ops k = None \<and> view c1 k = Some v"
      using Cons.IH [OF c1(2)] Cons.prems(2) by (metis list.set_intros(2))
    have "last_put (x # ops) k' = Some w \<or> last_put (x # ops) k' = None \<and> view c k' = Some w"
      if "view c2 k' = Some w" for k' w
      using c2(3) [OF that] c1(3) c1(4) [of k'] Put by (cases "k' = k") auto
    then show ?thesis using c1 c2 Put by auto
  next
    case (Get k t)
    define c1 where "c1 = (case get c k t of None \<Rightarrow> c | Some (v, c') \<Rightarrow> c')"
    have c1: "inv c1" "view c1 = view c"
      using get_some [OF Cons.prems(1)] Cons.prems(1) by (auto simp: c1_def split: option.splits)
    then show ?thesis using Cons.IH [OF c1(1)] Cons.prems(2) Get by (simp add: c1_def [symmetric])
  qed
qed auto

end

interpretation web_cache: object_store cache_ok store cache_get cache_put
  "\<lambda>k v. length k < MAXLINE \<and> length v \<le> MAX_OBJECT_SIZE"
proof
  fix c k t assume c: "cache_ok c"
  show "store c k = None" if "cache_get c k t = None" using cache_get_store [OF c, of k t] that by simp
  show "store c k = Some v \<and> cache_ok c' \<and> store c' = store c" if "cache_get c k t = Some (v, c')" for v c'
    using cache_get_store [OF c, of k t] that by simp
  show "\<exists>c'. cache_put c k v t = Inr c' \<and> cache_ok c' \<and> store c' k = Some v \<and>
      (\<forall>k'. k' \<noteq> k \<longrightarrow> store c' k' = store c k' \<or> store c' k' = None)"
    if "length k < MAXLINE \<and> length v \<le> MAX_OBJECT_SIZE" for v
    using cache_put_store [OF c, of k v t] that by (auto split: if_splits)
qed

section \<open>The cache is correct\<close>

lemma cache_init_ok: "length c = NUM_CACHE_OBJECTS \<Longrightarrow> cache_ok (cache_init c) \<and> store (cache_init c) = Map.empty"
  by (auto simp: cache_ok_def cache_init_def store_def cache_find_None fun_eq_iff)

text \<open>
  C25. After any sequence of lookups and insertions on a fresh cache, within the
  sizes the slots have, a lookup that succeeds returns exactly the bytes of the
  last insertion under that URI.
\<close>

theorem cache_never_stale:
  assumes "length c0 = NUM_CACHE_OBJECTS"
    and "\<And>k v t. Put k v t \<in> set ops \<Longrightarrow> length k < MAXLINE \<and> length v \<le> MAX_OBJECT_SIZE"
  shows "\<exists>c. run_ops cache_get cache_put ops (cache_init c0) = Inr c \<and>
    (\<forall>k t v c'. cache_get c k t = Some (v, c') \<longrightarrow> last_put ops k = Some v)"
proof -
  obtain c where "run_ops cache_get cache_put ops (cache_init c0) = Inr c" "cache_ok c"
    "\<And>k v. store c k = Some v \<Longrightarrow> last_put ops k = Some v"
    using web_cache.never_stale [of "cache_init c0" ops] cache_init_ok [OF assms(1)] assms(2) by auto
  then show ?thesis using web_cache.get_some [of c] by blast
qed

text \<open>
  An insertion keeps every other object unless the cache is full and the URI is
  new; then it evicts the object whose clock is the least.
\<close>

theorem cache_evicts_oldest:
  assumes "cache_ok c" "length k < MAXLINE" "length v \<le> MAX_OBJECT_SIZE"
  shows "\<exists>c'. cache_put c k v now = Inr c' \<and> cache_ok c' \<and>
    (if store c k \<noteq> None \<or> \<not> full c then store c' = (store c)(k \<mapsto> v)
     else \<exists>i < NUM_CACHE_OBJECTS. (\<forall>j < NUM_CACHE_OBJECTS. clk (c ! i) \<le> clk (c ! j)) \<and>
       store c' = (store c)(key (c ! i) := None, k \<mapsto> v))"
proof -
  obtain c' where "cache_put c k v now = Inr c'" "cache_ok c'"
    "store c' = (if store c k = None \<and> full c then (store c)(key (c ! cache_victim c) := None) else store c)(k \<mapsto> v)"
    using cache_put_store [OF assms, of now] by blast
  moreover have "length c = NUM_CACHE_OBJECTS" using assms(1) by (simp add: cache_ok_def)
  then have "cache_victim c < NUM_CACHE_OBJECTS \<and> (\<forall>j < NUM_CACHE_OBJECTS. clk (c ! cache_victim c) \<le> clk (c ! j))"
    by (rule cache_victim_least)
  ultimately show ?thesis by (intro exI [of _ c']) auto
qed

theorem cache_evicts_oldest_witness:
  "\<exists>c'. cache_put (cache_init (replicate 10 \<lparr>valid = True, clk = 5, key = ''x'', obj_value = ''y'', value_size = 1\<rparr>)) ''u'' ''abc'' 7 = Inr c' \<and>
     store c' = [''u'' \<mapsto> ''abc'']"
proof -
  let ?c = "cache_init (replicate 10 \<lparr>valid = True, clk = 5, key = ''x'', obj_value = ''y'', value_size = 1\<rparr>)"
  have c: "cache_ok ?c" "store ?c = Map.empty" using cache_init_ok by (simp_all add: NUM_eq)
  have "\<not> full ?c" by (auto simp: full_def NUM_eq cache_init_def intro: exI [of _ 0])
  then show ?thesis using cache_evicts_oldest [OF c(1), of "''u''" "''abc''" 7] c(2)
    by (auto simp: MAXLINE_def MAX_OBJECT_SIZE_def)
qed

theorem cache_never_stale_witness:
  "\<exists>c. run_ops cache_get cache_put [Put ''u'' ''abc'' 1, Get ''u'' 2, Put ''u'' ''de'' 3]
      (cache_init (replicate 10 \<lparr>valid = True, clk = 5, key = ''u'', obj_value = ''y'', value_size = 1\<rparr>)) = Inr c \<and>
    (\<forall>t v c'. cache_get c ''u'' t = Some (v, c') \<longrightarrow> v = ''de'')"
  using cache_never_stale [of "replicate 10 \<lparr>valid = True, clk = 5, key = ''u'', obj_value = ''y'', value_size = 1\<rparr>"
      "[Put ''u'' ''abc'' 1, Get ''u'' 2, Put ''u'' ''de'' 3]"]
  by (fastforce simp: NUM_eq MAXLINE_def MAX_OBJECT_SIZE_def)

end
