(* ===== verification/Proxy_Lock.thy ===== *)
theory Proxy_Lock
  imports Prelude
begin

text \<open>
  The readers-writer lock of the proxy (\<open>proxy.c\<close>) on POSIX semaphores. The
  operations are given twice: as functions of the lock, for a thread running
  alone, and as steps of concurrent threads, one step per semaphore operation
  or critical update. A \<open>P\<close> on a semaphore at zero blocks.
\<close>

record rwlock_t =
  mutex :: nat
  w :: nat
  readcnt :: int

definition sem_P :: "nat \<Rightarrow> nat exec" where
  "sem_P s = (if 0 < s then Inr (s - 1) else Inl NoTermination)"

definition sem_V :: "nat \<Rightarrow> nat" where
  "sem_V s = s + 1"

definition rwlock_init :: rwlock_t where
  "rwlock_init = \<lparr>mutex = 1, w = 1, readcnt = 0\<rparr>"

definition rwlock_rdlock :: "rwlock_t \<Rightarrow> rwlock_t exec" where
  "rwlock_rdlock l =
     sbind (sem_P (mutex l)) (\<lambda>m.
     let l = l\<lparr>mutex := m, readcnt := readcnt l + 1\<rparr> in
     sbind (if readcnt l = 1 then sbind (sem_P (w l)) (\<lambda>v. Inr (l\<lparr>w := v\<rparr>)) else Inr l) (\<lambda>l.
     Inr (l\<lparr>mutex := sem_V (mutex l)\<rparr>)))"

definition rwlock_rdunlock :: "rwlock_t \<Rightarrow> rwlock_t exec" where
  "rwlock_rdunlock l =
     sbind (sem_P (mutex l)) (\<lambda>m.
     let l = l\<lparr>mutex := m, readcnt := readcnt l - 1\<rparr>;
         l = (if readcnt l = 0 then l\<lparr>w := sem_V (w l)\<rparr> else l) in
     Inr (l\<lparr>mutex := sem_V (mutex l)\<rparr>))"

definition rwlock_wrlock :: "rwlock_t \<Rightarrow> rwlock_t exec" where
  "rwlock_wrlock l = sbind (sem_P (w l)) (\<lambda>v. Inr (l\<lparr>w := v\<rparr>))"

definition rwlock_wrunlock :: "rwlock_t \<Rightarrow> rwlock_t" where
  "rwlock_wrunlock l = l\<lparr>w := sem_V (w l)\<rparr>"

section \<open>Concurrent threads\<close>

text \<open>Where a thread is: outside, inside one of the operations, or holding the lock.\<close>

datatype pc = Idle | RdInc | RdWait | RdRelease | Reading | RuDec | RuPost | RuRelease | Writing

inductive thread_step :: "rwlock_t \<times> pc \<Rightarrow> rwlock_t \<times> pc \<Rightarrow> bool" where
  rd_P: "0 < mutex l \<Longrightarrow> thread_step (l, Idle) (l\<lparr>mutex := mutex l - 1\<rparr>, RdInc)"
| rd_first: "readcnt l + 1 = 1 \<Longrightarrow> thread_step (l, RdInc) (l\<lparr>readcnt := readcnt l + 1\<rparr>, RdWait)"
| rd_more: "readcnt l + 1 \<noteq> 1 \<Longrightarrow> thread_step (l, RdInc) (l\<lparr>readcnt := readcnt l + 1\<rparr>, RdRelease)"
| rd_W: "0 < w l \<Longrightarrow> thread_step (l, RdWait) (l\<lparr>w := w l - 1\<rparr>, RdRelease)"
| rd_V: "thread_step (l, RdRelease) (l\<lparr>mutex := mutex l + 1\<rparr>, Reading)"
| ru_P: "0 < mutex l \<Longrightarrow> thread_step (l, Reading) (l\<lparr>mutex := mutex l - 1\<rparr>, RuDec)"
| ru_last: "readcnt l - 1 = 0 \<Longrightarrow> thread_step (l, RuDec) (l\<lparr>readcnt := readcnt l - 1\<rparr>, RuPost)"
| ru_less: "readcnt l - 1 \<noteq> 0 \<Longrightarrow> thread_step (l, RuDec) (l\<lparr>readcnt := readcnt l - 1\<rparr>, RuRelease)"
| ru_W: "thread_step (l, RuPost) (l\<lparr>w := w l + 1\<rparr>, RuRelease)"
| ru_V: "thread_step (l, RuRelease) (l\<lparr>mutex := mutex l + 1\<rparr>, Idle)"
| wr_P: "0 < w l \<Longrightarrow> thread_step (l, Idle) (l\<lparr>w := w l - 1\<rparr>, Writing)"
| wr_V: "thread_step (l, Writing) (l\<lparr>w := w l + 1\<rparr>, Idle)"

inductive_cases thread_stepE: "thread_step (l, p) (l', p')"

inductive rw_step :: "rwlock_t \<times> pc list \<Rightarrow> rwlock_t \<times> pc list \<Rightarrow> bool" where
  "i < length ps \<Longrightarrow> thread_step (l, ps ! i) (l', p') \<Longrightarrow> rw_step (l, ps) (l', ps[i := p'])"

lemma count_list_update:
  "i < length ps \<Longrightarrow> count_list (ps[i := x]) y + of_bool (ps ! i = y) = count_list ps y + of_bool (x = y)"
proof (induction ps arbitrary: i)
  case (Cons p ps)
  then show ?case by (cases i) auto
qed simp

lemma count_list_nth: "i < length ps \<Longrightarrow> 0 < count_list ps (ps ! i)"
  by (simp add: count_list_0_iff zero_less_iff_neq_zero)

text \<open>
  The invariant, over the number of threads at each position: one holder of the
  mutex at most, \<open>readcnt\<close> counts the readers that are in, and the semaphore
  \<open>w\<close> is held either by the writer or by the readers together.
\<close>

definition rw_counts :: "nat \<Rightarrow> nat \<Rightarrow> int \<Rightarrow> (pc \<Rightarrow> nat) \<Rightarrow> bool" where
  "rw_counts m v r n \<longleftrightarrow>
     m + n RdInc + n RdWait + n RdRelease + n RuDec + n RuPost + n RuRelease = 1 \<and>
     r = int (n RdWait + n RdRelease + n Reading + n RuDec) \<and>
     (0 < n RdWait \<longrightarrow> r = 1) \<and> (0 < n RuPost \<longrightarrow> r = 0) \<and>
     (if 0 < n RdRelease + n Reading + n RuDec + n RuPost then v = 0 \<and> n Writing = 0 else v + n Writing = 1)"

definition rw_inv :: "rwlock_t \<times> pc list \<Rightarrow> bool" where
  "rw_inv = (\<lambda>(l, ps). rw_counts (mutex l) (w l) (readcnt l) (count_list ps))"

lemma rw_counts_step:
  assumes "rw_counts (mutex l) (w l) (readcnt l) n" "0 < n p" "thread_step (l, p) (l', p')"
  shows "rw_counts (mutex l') (w l') (readcnt l') (n(p := n p - 1, p' := (if p' = p then n p else n p' + 1)))"
  apply (insert assms(1,2))
  apply (rule thread_stepE [OF assms(3)]; hypsubst_thin)
  apply (simp_all add: rw_counts_def)
  apply (auto split: if_splits)
  done

lemma rw_step_inv: "rw_step s s' \<Longrightarrow> rw_inv s \<Longrightarrow> rw_inv s'"
proof (induction rule: rw_step.induct)
  case (1 i ps l l' p')
  let ?n = "count_list ps" and ?p = "ps ! i"
  have "count_list (ps[i := p']) = ?n(?p := ?n ?p - 1, p' := (if p' = ?p then ?n ?p else ?n p' + 1))"
  proof
    fix x
    show "count_list (ps[i := p']) x = (?n(?p := ?n ?p - 1, p' := (if p' = ?p then ?n ?p else ?n p' + 1))) x"
      using count_list_update [OF 1(1), of p' x] by (auto split: if_splits)
  qed
  then show ?case
    using rw_counts_step [of l ?n ?p l' p'] 1 count_list_nth [OF 1(1)] by (simp add: rw_inv_def)
qed

lemma rw_init_inv: "rw_inv (rwlock_init, replicate n Idle)"
proof -
  have "count_list (replicate n Idle) x = (if x = Idle then n else 0)" for x by (induction n) auto
  then show ?thesis by (simp add: rw_inv_def rw_counts_def rwlock_init_def)
qed

lemma rw_reach_inv: "rw_step\<^sup>*\<^sup>* s s' \<Longrightarrow> rw_inv s \<Longrightarrow> rw_inv s'"
  by (induction rule: rtranclp_induct) (auto intro: rw_step_inv)

lemma rw_reach_length: "rw_step\<^sup>*\<^sup>* s s' \<Longrightarrow> length (snd s') = length (snd s)"
  by (induction rule: rtranclp_induct) (auto elim: rw_step.cases)

text \<open>A thread running alone performs its operation in steps.\<close>

lemma rdlock_steps:
  assumes "rwlock_rdlock l = Inr l'" "i < length ps" "ps ! i = Idle"
  shows "rw_step\<^sup>*\<^sup>* (l, ps) (l', ps[i := Reading])"
proof -
  have go: "rw_step (l, ps[i := p]) (l', ps[i := p'])" if "thread_step (l, p) (l', p')" for l l' p p'
    using rw_step.intros [of i "ps[i := p]" l l' p'] assms(2) that by simp
  have m: "0 < mutex l" using assms(1) by (auto simp: rwlock_rdlock_def sem_P_def split: if_splits)
  let ?l1 = "l\<lparr>mutex := mutex l - 1\<rparr>" let ?l2 = "?l1\<lparr>readcnt := readcnt l + 1\<rparr>"
  have s1: "rw_step (l, ps) (?l1, ps[i := RdInc])" using go [OF rd_P [OF m]] assms(3) by (metis list_update_id)
  show ?thesis
  proof (cases "readcnt l = 0")
    case True
    then have v: "0 < w l" "l' = ?l2\<lparr>w := w l - 1, mutex := mutex l - 1 + 1\<rparr>"
      using assms(1) m by (auto simp: rwlock_rdlock_def sem_P_def sem_V_def Let_def split: if_splits)
    have "rw_step (?l1, ps[i := RdInc]) (?l2, ps[i := RdWait])" using True go [OF rd_first [of ?l1]] by simp
    moreover have "rw_step (?l2, ps[i := RdWait]) (?l2\<lparr>w := w l - 1\<rparr>, ps[i := RdRelease])"
      using v(1) go [OF rd_W [of ?l2]] by simp
    moreover have "rw_step (?l2\<lparr>w := w l - 1\<rparr>, ps[i := RdRelease]) (l', ps[i := Reading])"
      using v(2) go [OF rd_V [of "?l2\<lparr>w := w l - 1\<rparr>"]] by simp
    ultimately show ?thesis using s1 by (meson converse_rtranclp_into_rtranclp rtranclp.rtrancl_refl)
  next
    case False
    then have v: "l' = ?l2\<lparr>mutex := mutex l - 1 + 1\<rparr>"
      using assms(1) m by (auto simp: rwlock_rdlock_def sem_P_def sem_V_def Let_def split: if_splits)
    have "rw_step (?l1, ps[i := RdInc]) (?l2, ps[i := RdRelease])" using False go [OF rd_more [of ?l1]] by simp
    moreover have "rw_step (?l2, ps[i := RdRelease]) (l', ps[i := Reading])"
      using v go [OF rd_V [of ?l2]] by simp
    ultimately show ?thesis using s1 by (meson converse_rtranclp_into_rtranclp rtranclp.rtrancl_refl)
  qed
qed

section \<open>The lock is correct\<close>

lemma rw_progress:
  assumes "rw_inv (l, ps)" "j < length ps" "ps ! j \<noteq> Idle"
  shows "\<exists>i l' p'. i < length ps \<and> ps ! i \<noteq> Idle \<and> thread_step (l, ps ! i) (l', p')"
proof -
  let ?n = "count_list ps"
  have c: "rw_counts (mutex l) (w l) (readcnt l) ?n" using assms(1) by (simp add: rw_inv_def)
  have free: "\<exists>l' p'. thread_step (l, p) (l', p')" if "p \<in> {RdInc, RdRelease, RuDec, RuPost, RuRelease, Writing}" for p
    using that by (auto intro: thread_step.intros) (metis rd_first rd_more ru_last ru_less)+
  have ex: "\<exists>i < length ps. ps ! i = p" if "0 < ?n p" for p
    using that by (metis count_notin in_set_conv_nth less_numeral_extra(3))
  consider "\<exists>p \<in> {RdInc, RdRelease, RuDec, RuPost, RuRelease, Writing}. 0 < ?n p"
    | "?n RdInc = 0" "?n RdRelease = 0" "?n RuDec = 0" "?n RuPost = 0" "?n RuRelease = 0" "?n Writing = 0" by auto
  then show ?thesis
  proof cases
    case 1
    then obtain p where p: "p \<in> {RdInc, RdRelease, RuDec, RuPost, RuRelease, Writing}" "0 < ?n p" by blast
    obtain i where "i < length ps" "ps ! i = p" using ex [OF p(2)] by blast
    then show ?thesis using free [OF p(1)] p(1) by (intro exI [of _ i]) auto
  next
    case 2
    have "0 < ?n (ps ! j)" using assms(2) by (rule count_list_nth)
    then have j: "ps ! j = RdWait \<or> ps ! j = Reading" using 2 assms(3) by (cases "ps ! j") auto
    show ?thesis
    proof (cases "0 < ?n RdWait")
      case True
      then have "?n Reading = 0" "0 < w l" using c 2 by (auto simp: rw_counts_def split: if_splits)
      then have "\<exists>l' p'. thread_step (l, RdWait) (l', p')" by (auto intro: rd_W)
      then show ?thesis using ex [OF True] by fastforce
    next
      case False
      then have "0 < mutex l" using c 2 by (auto simp: rw_counts_def)
      moreover have "ps ! j = Reading" using j False \<open>0 < ?n (ps ! j)\<close> by auto
      ultimately have "thread_step (l, ps ! j) (l\<lparr>mutex := mutex l - 1\<rparr>, RuDec)" by (metis ru_P)
      then show ?thesis using assms(2,3) by blast
    qed
  qed
qed

text \<open>
  C24. In every reachable state of any number of threads there is at most one writer
  and no reader beside it, and as long as some thread is inside an operation or
  holds the lock, one of those threads can take a step. Several readers can hold
  the lock together, a thread alone acquires it by \<open>rwlock_rdlock\<close>, and
  releasing what was acquired restores the lock.
\<close>

theorem rwlock_correct:
  assumes "rw_step\<^sup>*\<^sup>* (rwlock_init, replicate n Idle) (l, ps)"
  shows "count_list ps Writing \<le> 1 \<and> (0 < count_list ps Writing \<longrightarrow> count_list ps Reading = 0) \<and>
    ((\<exists>j < n. ps ! j \<noteq> Idle) \<longrightarrow> (\<exists>i l' p'. i < n \<and> ps ! i \<noteq> Idle \<and> thread_step (l, ps ! i) (l', p'))) \<and>
    ((\<forall>j < n. ps ! j = Idle) \<longrightarrow> l = rwlock_init)"
proof -
  have inv: "rw_inv (l, ps)" using rw_reach_inv [OF assms rw_init_inv] .
  have len: "length ps = n" using rw_reach_length [OF assms] by simp
  have c: "rw_counts (mutex l) (w l) (readcnt l) (count_list ps)" using inv by (simp add: rw_inv_def)
  have "l = rwlock_init" if "\<forall>j < n. ps ! j = Idle"
  proof -
    have "count_list ps p = 0" if "p \<noteq> Idle" for p
      using that \<open>\<forall>j < n. ps ! j = Idle\<close> len by (metis count_notin in_set_conv_nth)
    then show ?thesis using c by (simp add: rw_counts_def rwlock_init_def)
  qed
  moreover have "count_list ps Writing \<le> 1 \<and> (0 < count_list ps Writing \<longrightarrow> count_list ps Reading = 0)"
    using c by (auto simp: rw_counts_def split: if_splits)
  ultimately show ?thesis using rw_progress [OF inv] len by auto
qed

theorem rwlock_correct_witness:
  "\<exists>l. rw_step\<^sup>*\<^sup>* (rwlock_init, [Idle, Idle]) (l, [Reading, Reading]) \<and> count_list [Reading, Reading] Writing \<le> 1"
proof -
  define l1 l2 where "l1 = \<lparr>mutex = 1, w = 0, readcnt = 1\<rparr>" and "l2 = \<lparr>mutex = 1, w = 0, readcnt = 2\<rparr>"
  have l1: "rwlock_rdlock rwlock_init = Inr l1" and l2: "rwlock_rdlock l1 = Inr l2"
    by (simp_all add: rwlock_rdlock_def rwlock_init_def sem_P_def sem_V_def l1_def l2_def)
  have "rw_step\<^sup>*\<^sup>* (rwlock_init, [Idle, Idle]) (l1, [Reading, Idle])" using rdlock_steps [OF l1, of 0 "[Idle, Idle]"] by simp
  also have "rw_step\<^sup>*\<^sup>* (l1, [Reading, Idle]) (l2, [Reading, Reading])" using rdlock_steps [OF l2, of 1 "[Reading, Idle]"] by simp
  finally have r: "rw_step\<^sup>*\<^sup>* (rwlock_init, replicate 2 Idle) (l2, [Reading, Reading])" by (simp add: numeral_2_eq_2)
  show ?thesis using rwlock_correct [OF r] r by (auto simp: numeral_2_eq_2)
qed

end
