(* ===== verification/Proxy.thy ===== *)
theory Proxy
  imports Proxy_Cache Proxy_Lock
begin

text \<open>
  The request handling of the web proxy (\<open>proxy.c\<close>): parsing the request, the
  cache lookup, forwarding, and storing the response. A C string is its
  characters before the terminator. The network is a parameter: connecting to a
  host and port fails, or gives the write script of the connection and the
  server's answer to the request it receives.
\<close>

definition NUL :: char where "NUL = CHR 0x00"

abbreviation crlf :: string where "crlf \<equiv> [CHR 0x0D, CHR 0x0A]"

definition cstr :: "string \<Rightarrow> string" where
  "cstr s = takeWhile (\<lambda>c. c \<noteq> NUL) s"

definition is_space :: "char \<Rightarrow> bool" where
  "is_space c \<longleftrightarrow> c \<in> {CHR '' '', CHR 0x09, CHR 0x0A, CHR 0x0B, CHR 0x0C, CHR 0x0D}"

text \<open>\<open>sscanf\<close> with a format of \<open>n\<close> times \<open>%s\<close>: the words it stores.\<close>

fun scan_words :: "nat \<Rightarrow> string \<Rightarrow> string list" where
  "scan_words 0 s = []"
| "scan_words (Suc n) s =
     (let t = dropWhile is_space s; word = takeWhile (\<lambda>c. \<not> is_space c) t in
      if word = [] then [] else word # scan_words n (dropWhile (\<lambda>c. \<not> is_space c) t))"

definition to_lower :: "char \<Rightarrow> char" where
  "to_lower c = (if 65 \<le> (of_char c :: nat) \<and> (of_char c :: nat) \<le> 90 then char_of ((of_char c :: nat) + 32) else c)"

definition parse_uri :: "string \<Rightarrow> (string \<times> string) option" where
  "parse_uri uri =
     (if map to_lower (take 7 uri) \<noteq> ''http://'' then None
      else let s = drop 7 uri in
        if CHR ''/'' \<notin> set s then None
        else Some (takeWhile (\<lambda>c. c \<noteq> CHR ''/'') s, dropWhile (\<lambda>c. c \<noteq> CHR ''/'') s))"

definition parse_host :: "string \<Rightarrow> string \<times> string" where
  "parse_host host =
     (if CHR '':'' \<in> set host
      then (takeWhile (\<lambda>c. c \<noteq> CHR '':'') host, tl (dropWhile (\<lambda>c. c \<noteq> CHR '':'') host))
      else (host, ''80''))"

text \<open>
  The buffer of extra headers is uninitialised (\<open>None\<close>) until the first header
  is copied to it; copying past its end is a fault. The result \<open>None\<close> is \<open>-1\<close>.
\<close>

definition copy_header :: "string option \<Rightarrow> string \<Rightarrow> string exec" where
  "copy_header extra_hdrs buf =
     (let e = (case extra_hdrs of None \<Rightarrow> buf | Some x \<Rightarrow> x @ buf) in
      if length e < MAXLINE then Inr e else Inl OutOfBounds)"

function read_requesthdrs ::
  "rio_t \<Rightarrow> string option \<Rightarrow> string \<Rightarrow> ((string option \<times> string) option \<times> rio_t) exec" where
  "read_requesthdrs rp extra_hdrs host = (case rio_readlineb MAXLINE rp of (r, line, rp') \<Rightarrow>
     if r \<le> 0 then Inr (None, rp')
     else let buf = cstr line in
       if buf = crlf then Inr (Some (extra_hdrs, host), rp')
       else case scan_words 2 buf of
         [hdr_key, hdr_val] \<Rightarrow>
           if hdr_key = ''Host:'' then read_requesthdrs rp' extra_hdrs hdr_val
           else if hdr_key = ''User-Agent:'' \<or> hdr_key = ''Connection:'' \<or> hdr_key = ''Proxy-Connection:''
             then read_requesthdrs rp' extra_hdrs host
           else sbind (copy_header extra_hdrs buf) (\<lambda>e. read_requesthdrs rp' (Some e) host)
       | _ \<Rightarrow> Inr (None, rp'))"
  by pat_completeness auto
termination
  by (relation "measure (\<lambda>(rp, e, h). rio_size rp)") (auto dest: rio_readlineb_size [OF sym])

declare read_requesthdrs.simps [simp del]

definition user_agent_hdr :: string where
  "user_agent_hdr = ''User-Agent: Mozilla/5.0 (X11; Linux x86_64; rv:10.0.3) Gecko/20120305 Firefox/10.0.3'' @ crlf"

definition request_text :: "string \<Rightarrow> string \<Rightarrow> string \<Rightarrow> string" where
  "request_text host path extra_hdrs =
     ''GET '' @ path @ '' HTTP/1.0'' @ crlf @
     ''Host: '' @ host @ crlf @
     user_agent_hdr @
     ''Connection: close'' @ crlf @
     ''Proxy-Connection: close'' @ crlf @
     extra_hdrs @ crlf"

definition write_requesthdrs ::
  "wr_event list \<Rightarrow> string \<Rightarrow> string \<Rightarrow> string option \<Rightarrow> (bool \<times> string) exec" where
  "write_requesthdrs fd host path extra_hdrs = (case extra_hdrs of
     None \<Rightarrow> Inl Uninitialised
   | Some e \<Rightarrow>
       let buf = request_text host path e in
       if length buf < MAXLINE then
         (case rio_writen buf fd of (ok, out, fd') \<Rightarrow> Inr (ok, out))
       else Inl OutOfBounds)"

text \<open>The tunnel from the server to the client, which also collects the object.\<close>

function tunnel ::
  "rd_event list \<Rightarrow> wr_event list \<Rightarrow> string \<Rightarrow> string \<Rightarrow> nat \<Rightarrow> bool \<times> string \<times> string \<times> nat" where
  "tunnel remote fd out obj obj_size = (case rio_readn MAXLINE remote of
     (None, remote') \<Rightarrow> (False, out, obj, obj_size)
   | (Some buf, remote') \<Rightarrow> (case rio_writen buf fd of (ok, sent, fd') \<Rightarrow>
       if \<not> ok then (False, out @ sent, obj, obj_size)
       else
         let obj = (if obj_size + length buf \<le> MAX_OBJECT_SIZE then obj @ buf else obj);
             obj_size = obj_size + length buf in
         if length buf = MAXLINE then tunnel remote' fd' (out @ sent) obj obj_size
         else (True, out @ sent, obj, obj_size)))"
  by pat_completeness auto
termination
  by (relation "measure (\<lambda>(remote, fd, out, obj, obj_size). script_size remote)")
    (auto simp: MAXLINE_def dest!: rio_readn_size [OF sym])

declare tunnel.simps [simp del]

section \<open>Handling one request\<close>

text \<open>
  The state a request meets: the cache, its lock, the bytes sent to the client,
  the requests sent to servers, and how many server connections are open.
\<close>

record world =
  w_cache :: cache_t
  w_lock :: rwlock_t
  w_out :: string
  w_reqs :: "(string \<times> string \<times> string) list"
  w_open :: int

type_synonym network = "string \<Rightarrow> string \<Rightarrow> (wr_event list \<times> (string \<Rightarrow> rd_event list)) option"

definition serve_cached :: "wr_event list \<Rightarrow> string \<Rightarrow> world \<Rightarrow> world exec" where
  "serve_cached fd obj s = (case rio_writen obj fd of (ok, sent, fd') \<Rightarrow> Inr (s\<lparr>w_out := w_out s @ sent\<rparr>))"

definition store_object :: "string \<Rightarrow> string \<Rightarrow> nat \<Rightarrow> int \<Rightarrow> world \<Rightarrow> world exec" where
  "store_object uri obj obj_size now s =
     (if obj_size \<le> MAX_OBJECT_SIZE then
        sbind (rwlock_wrlock (w_lock s)) (\<lambda>l.
        sbind (cache_put (w_cache s) uri obj now) (\<lambda>c.
        Inr (s\<lparr>w_cache := c, w_lock := rwlock_wrunlock l\<rparr>)))
      else Inr s)"

definition fetch ::
  "network \<Rightarrow> int \<Rightarrow> wr_event list \<Rightarrow> string \<Rightarrow> string \<Rightarrow> string \<Rightarrow> string option \<Rightarrow> world \<Rightarrow> world exec" where
  "fetch net now fd uri host path extra_hdrs s = (case parse_host host of (hostname, port) \<Rightarrow>
     (case net hostname port of
        None \<Rightarrow> Inr s
      | Some (remote_fd, respond) \<Rightarrow>
          let s = s\<lparr>w_open := w_open s + 1\<rparr> in
          sbind (write_requesthdrs remote_fd host path extra_hdrs) (\<lambda>(ok, req).
          let s = s\<lparr>w_reqs := w_reqs s @ [(hostname, port, req)]\<rparr> in
          if \<not> ok then Inr (s\<lparr>w_open := w_open s - 1\<rparr>)
          else (case tunnel (respond req) fd [] [] 0 of (ok, sent, obj, obj_size) \<Rightarrow>
            let s = s\<lparr>w_out := w_out s @ sent, w_open := w_open s - 1\<rparr> in
            if \<not> ok then Inr s else store_object uri obj obj_size now s))))"

definition doit :: "network \<Rightarrow> int \<Rightarrow> int \<Rightarrow> rd_event list \<Rightarrow> wr_event list \<Rightarrow> world \<Rightarrow> world exec" where
  "doit net now now' fd_in fd_out s = (case rio_readlineb MAXLINE (rio_readinitb fd_in) of (r, line, rio) \<Rightarrow>
     if r \<le> 0 then Inr s
     else (case scan_words 3 (cstr line) of
       [req_method, uri, version] \<Rightarrow>
         if map to_lower req_method \<noteq> ''get'' then Inr s
         else (case parse_uri uri of
           None \<Rightarrow> Inr s
         | Some (host, path) \<Rightarrow>
             sbind (read_requesthdrs rio None host) (\<lambda>(hdrs, rio). case hdrs of
               None \<Rightarrow> Inr s
             | Some (extra_hdrs, host) \<Rightarrow>
                 sbind (rwlock_rdlock (w_lock s)) (\<lambda>l.
                 let got = cache_get (w_cache s) uri now in
                 sbind (rwlock_rdunlock l) (\<lambda>l.
                 case got of
                   Some (obj, c) \<Rightarrow> serve_cached fd_out obj (s\<lparr>w_lock := l, w_cache := c\<rparr>)
                 | None \<Rightarrow> fetch net now' fd_out uri host path extra_hdrs (s\<lparr>w_lock := l\<rparr>)))))
     | _ \<Rightarrow> Inr s))"

section \<open>Reading the request\<close>

definition token :: "string \<Rightarrow> bool" where
  "token s \<longleftrightarrow> s \<noteq> [] \<and> (\<forall>c\<in>set s. \<not> is_space c \<and> c \<noteq> NUL)"

text \<open>A header line: key, value, and the rest of the line, which starts with a space if it is there.\<close>

type_synonym header = "string \<times> string \<times> string"

fun header_line :: "header \<Rightarrow> string" where
  "header_line (k, v, t) = k @ '' '' @ v @ t @ crlf"

fun header_ok :: "header \<Rightarrow> bool" where
  "header_ok (k, v, t) \<longleftrightarrow> token k \<and> token v \<and> newline \<notin> set t \<and> NUL \<notin> set t \<and>
     (t = [] \<or> is_space (hd t)) \<and> length (header_line (k, v, t)) < MAXLINE"

definition forwarded :: "header \<Rightarrow> bool" where
  "forwarded h \<longleftrightarrow> fst h \<notin> {''Host:'', ''User-Agent:'', ''Connection:'', ''Proxy-Connection:''}"

definition extra_of :: "header list \<Rightarrow> string" where
  "extra_of hs = concat (map header_line (filter forwarded hs))"

definition host_of :: "string \<Rightarrow> header list \<Rightarrow> string" where
  "host_of h hs = fold (\<lambda>x h. if fst x = ''Host:'' then fst (snd x) else h) hs h"

lemma is_space_simps [simp]: "is_space (CHR '' '')" "is_space (CHR 0x0D)" "is_space newline"
  by (simp_all add: is_space_def)

lemma tokenD: "token s \<Longrightarrow> s \<noteq> [] \<and> dropWhile is_space (s @ t) = s @ t \<and> newline \<notin> set s \<and> NUL \<notin> set s"
  by (cases s) (auto simp: token_def)

lemma scan_words_token:
  assumes "token tok" "t = [] \<or> is_space (hd t)"
  shows "scan_words (Suc n) (tok @ t) = tok # scan_words n t"
proof -
  have tok: "\<And>c. c \<in> set tok \<Longrightarrow> \<not> is_space c" using assms(1) by (simp add: token_def)
  have "takeWhile (\<lambda>c. \<not> is_space c) (tok @ t) = tok" "dropWhile (\<lambda>c. \<not> is_space c) (tok @ t) = t"
    using tok assms(2) by (cases t; simp add: takeWhile_append2 dropWhile_append2)+
  then show ?thesis using tokenD [OF assms(1), of t] by (simp add: Let_def)
qed

lemma scan_words_skip: "is_space c \<Longrightarrow> scan_words n (c # s) = scan_words n s"
  by (cases n) simp_all

lemma scan_two:
  assumes "token k" "token v" "t = [] \<or> is_space (hd t)"
  shows "scan_words 2 (k @ '' '' @ v @ t @ crlf) = [k, v]"
proof -
  have "t @ crlf = [] \<or> is_space (hd (t @ crlf))" using assms(3) by (cases t) auto
  then show ?thesis
    using scan_words_token [OF assms(1), of "'' '' @ v @ t @ crlf" 1] scan_words_token [OF assms(2), of "t @ crlf" 0]
    by (simp add: scan_words_skip numeral_2_eq_2)
qed

lemma cstr_id: "NUL \<notin> set s \<Longrightarrow> cstr s = s"
  by (auto simp: cstr_def takeWhile_eq_all_conv)

lemma readline_here:
  assumes "rio_ok rp" "input rp = l @ newline # rest" "newline \<notin> set l" "Suc (length l) < MAXLINE"
  shows "\<exists>rp'. rio_readlineb MAXLINE rp = (int (Suc (length l)), l @ [newline], rp') \<and> rio_ok rp' \<and> input rp' = rest"
  using rio_readlineb_clean [OF assms(1), of MAXLINE] take_line_line [OF assms(3), of "MAXLINE - 1" rest] assms(2,4)
  by auto

lemma header_line_shape:
  assumes "header_ok h"
  shows "\<exists>l. header_line h = l @ [newline] \<and> newline \<notin> set l \<and> NUL \<notin> set (l @ [newline]) \<and>
    Suc (length l) < MAXLINE \<and> header_line h \<noteq> crlf \<and> scan_words 2 (header_line h) = [fst h, fst (snd h)]"
proof -
  obtain k v t where h: "h = (k, v, t)" by (cases h)
  let ?l = "k @ '' '' @ v @ t @ [CHR 0x0D]"
  have "header_line h = ?l @ [newline]" "header_line h \<noteq> crlf"
    using assms tokenD [of k "[]"] by (auto simp: h append_eq_Cons_conv)
  moreover have "newline \<notin> set ?l" "NUL \<notin> set (?l @ [newline])"
    using assms tokenD [of k "[]"] tokenD [of v "[]"] by (auto simp: h NUL_def)
  ultimately show ?thesis using assms scan_two [of k v t] by (intro exI [of _ ?l]) (auto simp: h)
qed

definition with_extra :: "string option \<Rightarrow> header list \<Rightarrow> string option" where
  "with_extra e hs =
     (if filter forwarded hs = [] then e else Some ((case e of None \<Rightarrow> [] | Some x \<Rightarrow> x) @ extra_of hs))"

text \<open>The header loop reads a well-formed header block, however it arrives.\<close>

lemma read_requesthdrs_block:
  assumes "\<forall>h\<in>set hs. header_ok h" "rio_ok rp" "input rp = concat (map header_line hs) @ crlf @ rest"
    and "length (case e of None \<Rightarrow> [] | Some x \<Rightarrow> x) + length (extra_of hs) < MAXLINE"
  shows "\<exists>rp'. read_requesthdrs rp e host = Inr (Some (with_extra e hs, host_of host hs), rp') \<and> rio_ok rp' \<and> input rp' = rest"
  using assms
proof (induction hs arbitrary: rp e host)
  case Nil
  obtain rp' where "rio_readlineb MAXLINE rp = (2, crlf, rp')" "rio_ok rp'" "input rp' = rest"
    using readline_here [OF Nil.prems(2), of "[CHR 0x0D]" rest] Nil.prems(3) by (auto simp: MAXLINE_def)
  then show ?case by (simp add: read_requesthdrs.simps [of rp] cstr_id NUL_def with_extra_def host_of_def)
next
  case (Cons h hs)
  obtain l where l: "header_line h = l @ [newline]" "newline \<notin> set l" "NUL \<notin> set (l @ [newline])"
    "Suc (length l) < MAXLINE" "header_line h \<noteq> crlf" "scan_words 2 (header_line h) = [fst h, fst (snd h)]"
    using header_line_shape [of h] Cons.prems(1) by auto
  obtain rp1 where rp1: "rio_readlineb MAXLINE rp = (int (Suc (length l)), header_line h, rp1)" "rio_ok rp1"
    "input rp1 = concat (map header_line hs) @ crlf @ rest"
    using readline_here [OF Cons.prems(2) _ l(2,4)] Cons.prems(3) l(1) by fastforce
  have eq: "read_requesthdrs rp e host =
      (if fst h = ''Host:'' then read_requesthdrs rp1 e (fst (snd h))
       else if fst h = ''User-Agent:'' \<or> fst h = ''Connection:'' \<or> fst h = ''Proxy-Connection:''
         then read_requesthdrs rp1 e host
       else sbind (copy_header e (header_line h)) (\<lambda>e. read_requesthdrs rp1 (Some e) host))"
    using rp1(1) l by (simp add: read_requesthdrs.simps [of rp] cstr_id)
  have hs: "\<forall>h\<in>set hs. header_ok h" using Cons.prems(1) by simp
  show ?case
  proof (cases "forwarded h")
    case False
    then have "with_extra e (h # hs) = with_extra e hs" "extra_of (h # hs) = extra_of hs"
      by (simp_all add: with_extra_def extra_of_def)
    then show ?thesis
      using Cons.IH [OF hs rp1(2,3), of e] Cons.prems(4) False eq by (auto simp: forwarded_def host_of_def)
  next
    case True
    let ?e = "(case e of None \<Rightarrow> [] | Some x \<Rightarrow> x) @ header_line h"
    have b: "length ?e + length (extra_of hs) < MAXLINE" using True Cons.prems(4) by (simp add: extra_of_def)
    then have "copy_header e (header_line h) = Inr ?e" by (simp add: copy_header_def Let_def split: option.splits)
    then have "read_requesthdrs rp e host = read_requesthdrs rp1 (Some ?e) host"
      using True eq by (simp add: forwarded_def)
    moreover have "with_extra (Some ?e) hs = with_extra e (h # hs)" "host_of host (h # hs) = host_of host hs"
      using True by (auto simp: with_extra_def extra_of_def host_of_def forwarded_def)
    ultimately show ?thesis using Cons.IH [OF hs rp1(2,3), of "Some ?e" host] b by simp
  qed
qed

lemma tunnel_clean:
  "clean remote \<Longrightarrow> WErr \<notin> set fd \<Longrightarrow> \<exists>obj'. tunnel remote fd out obj n =
     (True, out @ stream remote, obj', n + length (stream remote)) \<and>
     (n + length (stream remote) \<le> MAX_OBJECT_SIZE \<longrightarrow> obj' = obj @ stream remote)"
proof (induction remote fd out obj n rule: tunnel.induct)
  case (1 remote fd out obj n)
  let ?buf = "take MAXLINE (stream remote)"
  obtain remote' where r: "rio_readn MAXLINE remote = (Some ?buf, remote')" "clean remote'"
    "stream remote' = drop MAXLINE (stream remote)"
    using rio_readn_loop_clean [OF "1.prems"(1), of MAXLINE "[]"] by (auto simp: rio_readn_def)
  obtain fd' where w: "rio_writen ?buf fd = (True, ?buf, fd')" "WErr \<notin> set fd'"
    using rio_writen_ok [OF "1.prems"(2)] by blast
  let ?obj = "if n + length ?buf \<le> MAX_OBJECT_SIZE then obj @ ?buf else obj"
  have e: "tunnel remote fd out obj n =
      (if length ?buf = MAXLINE then tunnel remote' fd' (out @ ?buf) ?obj (n + length ?buf)
       else (True, out @ ?buf, ?obj, n + length ?buf))"
    using r(1) w(1) by (simp add: tunnel.simps [of remote] Let_def)
  show ?case
  proof (cases "length ?buf = MAXLINE")
    case True
    then have len: "length (stream remote) = MAXLINE + length (stream remote')" using r(3) by simp
    obtain obj' where "tunnel remote' fd' (out @ ?buf) ?obj (n + length ?buf) =
        (True, (out @ ?buf) @ stream remote', obj', n + length ?buf + length (stream remote'))"
      "n + length ?buf + length (stream remote') \<le> MAX_OBJECT_SIZE \<longrightarrow> obj' = ?obj @ stream remote'"
      using "1.IH" [OF r(1) [symmetric] refl w(1) [symmetric] refl _ refl refl True r(2) w(2)] by auto
    moreover have "?buf @ stream remote' = stream remote" using r(3) by simp
    ultimately show ?thesis using e True len by (auto simp del: append_assoc simp: append_assoc [of out] append_assoc [of obj])
  next
    case False
    then have "?buf = stream remote" by simp
    then show ?thesis using e False by auto
  qed
qed

section \<open>The proxy\<close>

text \<open>A request as its words and headers, and the text of it.\<close>

record request =
  rq_method :: string
  rq_uri :: string
  rq_version :: string
  rq_headers :: "header list"

definition request_line :: "request \<Rightarrow> string" where
  "request_line rq = rq_method rq @ '' '' @ rq_uri rq @ '' '' @ rq_version rq @ crlf"

definition client_text :: "request \<Rightarrow> string" where
  "client_text rq = request_line rq @ concat (map header_line (rq_headers rq)) @ crlf"

definition request_ok :: "request \<Rightarrow> bool" where
  "request_ok rq \<longleftrightarrow> token (rq_method rq) \<and> token (rq_uri rq) \<and> token (rq_version rq) \<and>
     map to_lower (rq_method rq) = ''get'' \<and> length (request_line rq) < MAXLINE \<and>
     (\<forall>h\<in>set (rq_headers rq). header_ok h) \<and> length (extra_of (rq_headers rq)) < MAXLINE"

lemma scan_request_line:
  assumes "request_ok rq"
  shows "scan_words 3 (request_line rq) = [rq_method rq, rq_uri rq, rq_version rq]"
proof -
  have t: "token (rq_method rq)" "token (rq_uri rq)" "token (rq_version rq)" using assms by (simp_all add: request_ok_def)
  show ?thesis unfolding request_line_def
    using scan_words_token [OF t(1), of "'' '' @ rq_uri rq @ '' '' @ rq_version rq @ crlf" 2]
      scan_words_token [OF t(2), of "'' '' @ rq_version rq @ crlf" 1] scan_words_token [OF t(3), of crlf 0]
    by (simp add: scan_words_skip numeral_3_eq_3 numeral_2_eq_2)
qed

lemma read_lock_free: "\<exists>l. rwlock_rdlock rwlock_init = Inr l \<and> rwlock_rdunlock l = Inr rwlock_init"
  by (simp add: rwlock_rdlock_def rwlock_rdunlock_def rwlock_init_def sem_P_def sem_V_def)

lemma doit_request:
  assumes rq: "request_ok rq" and "clean fd" "stream fd = client_text rq @ rest"
    and uri: "parse_uri (rq_uri rq) = Some (h0, path)" and lock: "w_lock s = rwlock_init"
  shows "doit net now now' fd ws s = (case cache_get (w_cache s) (rq_uri rq) now of
     Some (obj, c) \<Rightarrow> serve_cached ws obj (s\<lparr>w_lock := rwlock_init, w_cache := c\<rparr>)
   | None \<Rightarrow> fetch net now' ws (rq_uri rq) (host_of h0 (rq_headers rq)) path
       (with_extra None (rq_headers rq)) (s\<lparr>w_lock := rwlock_init\<rparr>))"
proof -
  let ?rp = "rio_readinitb fd" and ?hs = "rq_headers rq"
  let ?l = "rq_method rq @ '' '' @ rq_uri rq @ '' '' @ rq_version rq @ [CHR 0x0D]"
  have l: "request_line rq = ?l @ [newline]" by (simp add: request_line_def)
  have nl: "newline \<notin> set ?l" "NUL \<notin> set (request_line rq)" and b: "Suc (length ?l) < MAXLINE"
    and hs: "\<forall>h\<in>set ?hs. header_ok h" "length (extra_of ?hs) < MAXLINE"
    using rq tokenD [of "rq_method rq" "[]"] tokenD [of "rq_uri rq" "[]"] tokenD [of "rq_version rq" "[]"]
    by (auto simp: request_ok_def request_line_def NUL_def)
  have ok: "rio_ok ?rp" "input ?rp = ?l @ newline # concat (map header_line ?hs) @ crlf @ rest"
    using rio_init_ok [OF assms(2)] assms(3) l by (simp_all add: client_text_def)
  obtain rp1 where rp1: "rio_readlineb MAXLINE ?rp = (int (Suc (length ?l)), request_line rq, rp1)" "rio_ok rp1"
    "input rp1 = concat (map header_line ?hs) @ crlf @ rest"
    using readline_here [OF ok nl(1) b] l by auto
  obtain rp2 where "read_requesthdrs rp1 None h0 = Inr (Some (with_extra None ?hs, host_of h0 ?hs), rp2)"
    using read_requesthdrs_block [OF hs(1) rp1(2,3), of None h0] hs(2) by auto
  moreover obtain l where "rwlock_rdlock rwlock_init = Inr l" "rwlock_rdunlock l = Inr rwlock_init"
    using read_lock_free by blast
  ultimately show ?thesis
    using rp1(1) uri lock rq by (simp add: doit_def cstr_id nl(2) scan_request_line request_ok_def Let_def)
qed

lemma uri_fits: "request_ok rq \<Longrightarrow> length (rq_uri rq) < MAXLINE"
  by (simp add: request_ok_def request_line_def)

text \<open>
  A request that misses the cache: the server receives the request with the
  headers rewritten, the client receives exactly the server's bytes, the
  connection is closed, and an object that is small enough is stored.
\<close>

lemma doit_miss:
  assumes rq: "request_ok rq" "clean fd" "stream fd = client_text rq @ rest"
    "parse_uri (rq_uri rq) = Some (h0, path)" "w_lock s = rwlock_init"
    and cache: "cache_ok (w_cache s)" "store (w_cache s) (rq_uri rq) = None"
    and net: "parse_host (host_of h0 (rq_headers rq)) = (hostname, port)" "net hostname port = Some (rws, respond)"
    "filter forwarded (rq_headers rq) \<noteq> []"
    and req: "req = request_text (host_of h0 (rq_headers rq)) path (extra_of (rq_headers rq))" "length req < MAXLINE"
    and io: "WErr \<notin> set ws" "WErr \<notin> set rws" "clean (respond req)"
  shows "\<exists>s'. doit net now now' fd ws s = Inr s' \<and> w_out s' = w_out s @ stream (respond req) \<and>
    w_reqs s' = w_reqs s @ [(hostname, port, req)] \<and> w_open s' = w_open s \<and> w_lock s' = rwlock_init \<and> cache_ok (w_cache s') \<and>
    (length (stream (respond req)) \<le> MAX_OBJECT_SIZE \<longrightarrow> store (w_cache s') (rq_uri rq) = Some (stream (respond req)))"
proof -
  let ?body = "stream (respond req)"
  have miss: "cache_get (w_cache s) (rq_uri rq) now = None"
    using cache_get_store [OF cache(1), of "rq_uri rq" now] cache(2) by (auto split: option.splits)
  have wr: "write_requesthdrs rws (host_of h0 (rq_headers rq)) path (with_extra None (rq_headers rq)) = Inr (True, req)"
    using rio_writen_ok [OF io(2), of req] req net(3) by (auto simp: write_requesthdrs_def with_extra_def Let_def)
  obtain obj where obj: "tunnel (respond req) ws [] [] 0 = (True, ?body, obj, length ?body)"
    "length ?body \<le> MAX_OBJECT_SIZE \<longrightarrow> obj = ?body"
    using tunnel_clean [OF io(3,1), of "[]" "[]" 0] by auto
  let ?s = "s\<lparr>w_lock := rwlock_init, w_open := w_open s, w_reqs := w_reqs s @ [(hostname, port, req)], w_out := w_out s @ ?body\<rparr>"
  have eq: "doit net now now' fd ws s = store_object (rq_uri rq) obj (length ?body) now' ?s"
    unfolding doit_request [OF rq] using miss net(1,2) wr obj(1) by (simp add: fetch_def Let_def)
  show ?thesis
  proof (cases "length ?body \<le> MAX_OBJECT_SIZE")
    case True
    obtain c where c: "cache_put (w_cache s) (rq_uri rq) ?body now' = Inr c" "cache_ok c" "store c (rq_uri rq) = Some ?body"
      using web_cache.put_law [OF cache(1), of "rq_uri rq" ?body now'] uri_fits [OF rq(1)] True by auto
    then show ?thesis using True obj(2) eq
      by (simp add: store_object_def rwlock_wrlock_def rwlock_wrunlock_def rwlock_init_def sem_P_def sem_V_def)
  next
    case False
    then show ?thesis using eq cache(1) by (simp add: store_object_def)
  qed
qed

lemma doit_hit:
  assumes rq: "request_ok rq" "clean fd" "stream fd = client_text rq @ rest"
    "parse_uri (rq_uri rq) = Some (h0, path)" "w_lock s = rwlock_init"
    and cache: "cache_ok (w_cache s)" "store (w_cache s) (rq_uri rq) = Some body" and io: "WErr \<notin> set ws"
  shows "\<exists>s'. doit net now now' fd ws s = Inr s' \<and> w_out s' = w_out s @ body \<and> w_reqs s' = w_reqs s \<and>
    w_open s' = w_open s \<and> w_lock s' = rwlock_init \<and> cache_ok (w_cache s') \<and> store (w_cache s') = store (w_cache s)"
proof -
  obtain c where c: "cache_get (w_cache s) (rq_uri rq) now = Some (body, c)" "cache_ok c" "store c = store (w_cache s)"
    using cache_get_store [OF cache(1), of "rq_uri rq" now] cache(2) by (auto split: option.splits)
  then show ?thesis
    unfolding doit_request [OF rq] using rio_writen_ok [OF io, of body] by (auto simp: serve_cached_def)
qed

text \<open>
  C21. A request with at least one header that is passed on, which misses the cache, is
  forwarded to the host of its last \<open>Host:\<close> header (of its URI if it has none) with the fixed
  headers of the proxy in place of the client's; the client receives exactly the server's
  bytes, however they arrive. If the response is at most 102400 bytes long, it is in the
  cache, and as long as the cache holds it, so in particular for the next request, a request for
  the same URI, whatever its headers and its \<open>Host:\<close>, is answered with the same bytes
  and no server is contacted. Every connection is closed and the lock is free again.
  This is for a request that fits the buffer of the proxy and for writes that do not fail.
\<close>

theorem proxy_relays_and_caches:
  assumes "request_ok rq" "clean fd" "stream fd = client_text rq @ rest"
    "parse_uri (rq_uri rq) = Some (h0, path)" "w_lock s = rwlock_init"
    and "cache_ok (w_cache s)" "store (w_cache s) (rq_uri rq) = None"
    and "parse_host (host_of h0 (rq_headers rq)) = (hostname, port)" "net hostname port = Some (rws, respond)"
    "filter forwarded (rq_headers rq) \<noteq> []"
    and "req = request_text (host_of h0 (rq_headers rq)) path (extra_of (rq_headers rq))" "length req < MAXLINE"
    and "WErr \<notin> set ws" "WErr \<notin> set rws" "clean (respond req)"
    and "request_ok rq'" "rq_uri rq' = rq_uri rq" "clean fd'" "stream fd' = client_text rq' @ rest'" "WErr \<notin> set ws'"
  shows "\<exists>s'. doit net now1 now2 fd ws s = Inr s' \<and> w_out s' = w_out s @ stream (respond req) \<and>
    w_reqs s' = w_reqs s @ [(hostname, port, req)] \<and> w_open s' = w_open s \<and> w_lock s' = rwlock_init \<and> cache_ok (w_cache s') \<and>
    (length (stream (respond req)) \<le> MAX_OBJECT_SIZE \<longrightarrow>
      store (w_cache s') (rq_uri rq) = Some (stream (respond req)) \<and>
      (\<forall>u. w_lock u = rwlock_init \<and> cache_ok (w_cache u) \<and> store (w_cache u) (rq_uri rq) = Some (stream (respond req)) \<longrightarrow>
        (\<exists>u'. doit net' now3 now4 fd' ws' u = Inr u' \<and> w_out u' = w_out u @ stream (respond req) \<and>
          w_reqs u' = w_reqs u \<and> w_open u' = w_open u \<and> w_lock u' = rwlock_init \<and> cache_ok (w_cache u') \<and>
          store (w_cache u') = store (w_cache u))))"
proof -
  obtain s' where s': "doit net now1 now2 fd ws s = Inr s'" "w_out s' = w_out s @ stream (respond req)"
    "w_reqs s' = w_reqs s @ [(hostname, port, req)]" "w_open s' = w_open s" "w_lock s' = rwlock_init" "cache_ok (w_cache s')"
    "length (stream (respond req)) \<le> MAX_OBJECT_SIZE \<longrightarrow> store (w_cache s') (rq_uri rq) = Some (stream (respond req))"
    using doit_miss [where rq = rq and net = net and respond = respond and req = req, OF assms(1-15)] by blast
  moreover have "\<exists>u'. doit net' now3 now4 fd' ws' u = Inr u' \<and> w_out u' = w_out u @ stream (respond req) \<and>
      w_reqs u' = w_reqs u \<and> w_open u' = w_open u \<and> w_lock u' = rwlock_init \<and> cache_ok (w_cache u') \<and> store (w_cache u') = store (w_cache u)"
    if "w_lock u = rwlock_init" "cache_ok (w_cache u)" "store (w_cache u) (rq_uri rq) = Some (stream (respond req))" for u
    using doit_hit [OF assms(16,18,19) _ that(1,2) _ assms(20), of h0 path "stream (respond req)" net' now3 now4] that(3) assms(4,17) by auto
  ultimately show ?thesis by blast
qed

definition sample_request :: "string \<Rightarrow> request" where
  "sample_request host = \<lparr>rq_method = ''GET'', rq_uri = ''http://a/x'', rq_version = ''HTTP/1.0'',
     rq_headers = [(''Host:'', host, []), (''Accept:'', ''text'', [])]\<rparr>"

lemma sample_request_ok: "request_ok (sample_request ''a'')" "request_ok (sample_request ''b'')"
  by code_simp+

lemma sample_text_short: "length (request_text ''b'' ''/x'' (''Accept: text'' @ crlf)) < MAXLINE"
  by code_simp

text \<open>A proxy that has just started, with an initialised cache.\<close>

definition sample_world :: world where
  "sample_world =
     \<lparr>w_cache = cache_init (replicate 10 \<lparr>valid = True, clk = 0, key = [], obj_value = [], value_size = 0\<rparr>),
      w_lock = rwlock_init, w_out = [], w_reqs = [], w_open = 0\<rparr>"

lemma sample_world_ok:
  "cache_ok (w_cache sample_world)" "store (w_cache sample_world) = Map.empty" "w_lock sample_world = rwlock_init"
  "w_out sample_world = []" "w_open sample_world = 0"
  using cache_init_ok by (simp_all add: sample_world_def NUM_eq)

theorem proxy_relays_and_caches_witness:
  "\<exists>s'. doit (\<lambda>h p. Some ([], \<lambda>r. [Data ''hi'', Intr, Data '' there''])) 1 2 [Data (client_text (sample_request ''b''))] []
       \<lparr>w_cache = cache_init (replicate 10 \<lparr>valid = True, clk = 0, key = [], obj_value = [], value_size = 0\<rparr>),
        w_lock = rwlock_init, w_out = [], w_reqs = [], w_open = 0\<rparr> = Inr s' \<and> w_out s' = ''hi there'' \<and>
     (\<exists>s''. doit (\<lambda>h p. None) 3 4 [Data (client_text (sample_request ''a''))] [] s' = Inr s'' \<and> w_out s'' = ''hi therehi there'')"
proof -
  let ?c = "cache_init (replicate 10 \<lparr>valid = True, clk = 0, key = [], obj_value = [], value_size = 0\<rparr>)"
  let ?w = "\<lparr>w_cache = ?c, w_lock = rwlock_init, w_out = [], w_reqs = [], w_open = 0\<rparr>"
    and ?net = "\<lambda>h p. Some ([], \<lambda>r. [Data ''hi'', Intr, Data '' there''])"
  have c: "cache_ok ?c" "store ?c = Map.empty" using cache_init_ok by (simp_all add: NUM_eq)
  have u: "parse_uri (rq_uri (sample_request h)) = Some (''a'', ''/x'')" for h
    by (simp add: sample_request_def) code_simp
  have h: "host_of ''a'' (rq_headers (sample_request ''b'')) = ''b''" "extra_of (rq_headers (sample_request ''b'')) = ''Accept: text'' @ crlf"
    "filter forwarded (rq_headers (sample_request ''b'')) \<noteq> []" "parse_host ''b'' = (''b'', ''80'')"
    "rq_uri (sample_request ''a'') = rq_uri (sample_request ''b'')" "client_text (sample_request x) \<noteq> []" for x
    by (simp_all add: sample_request_def host_of_def extra_of_def forwarded_def parse_host_def client_text_def request_line_def)
  obtain s' where "doit ?net 1 2 [Data (client_text (sample_request ''b''))] [] ?w = Inr s'" "w_out s' = ''hi there''" "w_lock s' = rwlock_init"
    "cache_ok (w_cache s')" "store (w_cache s') (rq_uri (sample_request ''b'')) = Some ''hi there''"
    and later: "\<forall>u. w_lock u = rwlock_init \<and> cache_ok (w_cache u) \<and> store (w_cache u) (rq_uri (sample_request ''b'')) = Some ''hi there'' \<longrightarrow>
      (\<exists>u'. doit (\<lambda>h p. None) 3 4 [Data (client_text (sample_request ''a''))] [] u = Inr u' \<and> w_out u' = w_out u @ ''hi there'' \<and>
        w_reqs u' = w_reqs u \<and> w_open u' = w_open u \<and> w_lock u' = rwlock_init \<and> cache_ok (w_cache u') \<and> store (w_cache u') = store (w_cache u))"
    using proxy_relays_and_caches [OF sample_request_ok(2), of "[Data (client_text (sample_request ''b''))]" "[]" "''a''" "''/x''"
      "\<lparr>w_cache = ?c, w_lock = rwlock_init, w_out = [], w_reqs = [], w_open = 0\<rparr>" "''b''" "''80''"
      "\<lambda>h p. Some ([], \<lambda>r. [Data ''hi'', Intr, Data '' there''])" "[]" "\<lambda>r. [Data ''hi'', Intr, Data '' there'']"
      "request_text ''b'' ''/x'' (''Accept: text'' @ crlf)" "[]" "sample_request ''a''" "[Data (client_text (sample_request ''a''))]" "[]" "[]" 1 2 "\<lambda>h p. None" 3 4]
      sample_request_ok(1) sample_text_short c u h by (auto simp: MAX_OBJECT_SIZE_def)
  moreover from this obtain u' where "doit (\<lambda>h p. None) 3 4 [Data (client_text (sample_request ''a''))] [] s' = Inr u'" "w_out u' = w_out s' @ ''hi there''"
    by blast
  ultimately show ?thesis by simp
qed

text \<open>
  A request none of whose headers is passed on (only \<open>Host:\<close>, say) that misses
  the cache and reaches its server makes the proxy format an uninitialised
  buffer into the request.
\<close>

theorem proxy_reads_uninitialised_headers:
  assumes "request_ok rq" "clean fd" "stream fd = client_text rq @ rest"
    "parse_uri (rq_uri rq) = Some (h0, path)" "w_lock s = rwlock_init"
    and "cache_ok (w_cache s)" "store (w_cache s) (rq_uri rq) = None"
    and "parse_host (host_of h0 (rq_headers rq)) = (hostname, port)" "net hostname port = Some (rws, respond)"
    and "filter forwarded (rq_headers rq) = []"
  shows "doit net now now' fd ws s = Inl Uninitialised"
proof -
  have "cache_get (w_cache s) (rq_uri rq) now = None"
    using cache_get_store [OF assms(6), of "rq_uri rq" now] assms(7) by (auto split: option.splits)
  then show ?thesis
    unfolding doit_request [OF assms(1-5)] using assms(8-10)
    by (simp add: fetch_def write_requesthdrs_def with_extra_def)
qed

theorem proxy_reads_uninitialised_headers_witness:
  "doit (\<lambda>h p. Some ([], \<lambda>r. [])) 1 2 [Data (client_text (sample_request ''a''\<lparr>rq_headers := [(''Host:'', ''a'', [])]\<rparr>))] []
     \<lparr>w_cache = cache_init (replicate 10 \<lparr>valid = True, clk = 0, key = [], obj_value = [], value_size = 0\<rparr>),
      w_lock = rwlock_init, w_out = [], w_reqs = [], w_open = 0\<rparr> = Inl Uninitialised"
proof (rule proxy_reads_uninitialised_headers [where path = "''/x''" and hostname = "''a''" and port = "''80''"])
  show "request_ok (sample_request ''a''\<lparr>rq_headers := [(''Host:'', ''a'', [])]\<rparr>)" by code_simp
  show "parse_uri (rq_uri (sample_request ''a''\<lparr>rq_headers := [(''Host:'', ''a'', [])]\<rparr>)) = Some (''a'', ''/x'')" by code_simp
  show "store (w_cache \<lparr>w_cache = cache_init (replicate 10 \<lparr>valid = True, clk = 0, key = [], obj_value = [], value_size = 0\<rparr>),
      w_lock = rwlock_init, w_out = [], w_reqs = [], w_open = 0\<rparr>) (rq_uri (sample_request ''a''\<lparr>rq_headers := [(''Host:'', ''a'', [])]\<rparr>)) = None"
    using cache_init_ok by (simp add: NUM_eq)
qed (use cache_init_ok in \<open>simp_all add: NUM_eq client_text_def request_line_def sample_request_def host_of_def parse_host_def forwarded_def\<close>)

text \<open>
  A URI is accepted exactly if it is \<open>http://\<close> (in any case), a host without
  slashes and a path that starts with one, and these are the results; a port is
  what follows the first colon of the host.
\<close>

theorem parse_uri_exact:
  "(parse_uri uri = Some (host, path) \<longleftrightarrow>
      (\<exists>scheme rest. uri = scheme @ host @ path \<and> map to_lower scheme = ''http://'' \<and>
        CHR ''/'' \<notin> set host \<and> path = CHR ''/'' # rest)) \<and>
   parse_host (concat [takeWhile (\<lambda>c. c \<noteq> CHR '':'') h, '':'', p]) = (takeWhile (\<lambda>c. c \<noteq> CHR '':'') h, p) \<and>
   (CHR '':'' \<notin> set h \<longrightarrow> parse_host h = (h, ''80''))"
proof (intro conjI)
  show "parse_uri uri = Some (host, path) \<longleftrightarrow> (\<exists>scheme rest. uri = scheme @ host @ path \<and>
      map to_lower scheme = ''http://'' \<and> CHR ''/'' \<notin> set host \<and> path = CHR ''/'' # rest)"
  proof
    assume "parse_uri uri = Some (host, path)"
    then have p: "map to_lower (take 7 uri) = ''http://''" "CHR ''/'' \<in> set (drop 7 uri)"
      "host = takeWhile (\<lambda>c. c \<noteq> CHR ''/'') (drop 7 uri)" "path = dropWhile (\<lambda>c. c \<noteq> CHR ''/'') (drop 7 uri)"
      by (auto simp: parse_uri_def Let_def split: if_splits)
    have "uri = take 7 uri @ host @ path" unfolding p(3,4) by simp
    moreover have "CHR ''/'' \<notin> set host" unfolding p(3) by (auto dest: set_takeWhileD)
    moreover have ne: "path \<noteq> []" using p(2) unfolding p(4) by (simp add: dropWhile_eq_Nil_conv)
    then have "hd path = CHR ''/''" using hd_dropWhile [of "\<lambda>c. c \<noteq> CHR ''/''" "drop 7 uri"] unfolding p(4) by simp
    then have "path = CHR ''/'' # tl path" using ne by (cases path) simp_all
    ultimately show "\<exists>scheme rest. uri = scheme @ host @ path \<and> map to_lower scheme = ''http://'' \<and>
        CHR ''/'' \<notin> set host \<and> path = CHR ''/'' # rest" using p(1) by (intro exI conjI)
  next
    assume "\<exists>scheme rest. uri = scheme @ host @ path \<and> map to_lower scheme = ''http://'' \<and>
        CHR ''/'' \<notin> set host \<and> path = CHR ''/'' # rest"
    then obtain scheme rest where u: "uri = scheme @ host @ path" "map to_lower scheme = ''http://''"
      "CHR ''/'' \<notin> set host" "path = CHR ''/'' # rest" by (elim exE conjE) (rule that)
    have "length scheme = 7" using arg_cong [OF u(2), of length] by simp
    then have t: "take 7 uri = scheme" "drop 7 uri = host @ CHR ''/'' # rest" using u(1,4) by simp_all
    have "takeWhile (\<lambda>c. c \<noteq> CHR ''/'') (drop 7 uri) = host" "dropWhile (\<lambda>c. c \<noteq> CHR ''/'') (drop 7 uri) = path"
      unfolding t u(4) using u(3) by (subst takeWhile_append2 dropWhile_append2; auto)+
    then show "parse_uri uri = Some (host, path)" using u(2) t by (simp add: parse_uri_def Let_def)
  qed
  show "parse_host (concat [takeWhile (\<lambda>c. c \<noteq> CHR '':'') h, '':'', p]) = (takeWhile (\<lambda>c. c \<noteq> CHR '':'') h, p)"
  proof -
    let ?h = "takeWhile (\<lambda>c. c \<noteq> CHR '':'') h"
    have "takeWhile (\<lambda>c. c \<noteq> CHR '':'') (?h @ CHR '':'' # p) = ?h" "dropWhile (\<lambda>c. c \<noteq> CHR '':'') (?h @ CHR '':'' # p) = CHR '':'' # p"
      by (subst takeWhile_append2 dropWhile_append2; auto dest: set_takeWhileD)+
    then show ?thesis by (simp add: parse_host_def)
  qed
  show "CHR '':'' \<notin> set h \<longrightarrow> parse_host h = (h, ''80'')" by (simp add: parse_host_def)
qed

end
