(* ===== verification/Tiny.thy ===== *)
theory Tiny
  imports Proxy Loops Stdio "HOL-Library.Sublist"
begin

text \<open>
  The Tiny web server of the proxy lab (\<open>tiny/tiny.c\<close>): one request from its
  first line to the last byte of the response. Reads and writes are those of the
  robust I/O package. The file system (what \<open>stat\<close> and \<open>open\<close> answer) and the CGI
  programs (what the child writes to the connection, \<open>None\<close> if \<open>fork\<close> fails) are
  parameters; what is printed on the server's own terminal is left out.
\<close>

record file_t =
  is_reg :: bool
  usr_read :: bool
  usr_exec :: bool
  opens :: bool
  data :: string

type_synonym filesystem = "string \<Rightarrow> file_t option"
type_synonym cgi = "string \<Rightarrow> string \<Rightarrow> string option"

record conn =
  c_wr :: "wr_event list"
  c_out :: string

text \<open>The wrappers of the package end the process on an error.\<close>

definition Rio_writen :: "string \<Rightarrow> conn \<Rightarrow> conn exec" where
  "Rio_writen s c = (case rio_writen s (c_wr c) of (ok, sent, es) \<Rightarrow>
     if ok then Inr \<lparr>c_wr = es, c_out = c_out c @ sent\<rparr> else Inl ExitCalled)"

definition Rio_readlineb :: "rio_t \<Rightarrow> (int \<times> string \<times> rio_t) exec" where
  "Rio_readlineb rp = (case rio_readlineb MAXLINE rp of (rc, line, rp') \<Rightarrow>
     if rc < 0 then Inl ExitCalled else Inr (rc, line, rp'))"

text \<open>\<open>sprintf\<close> to a buffer of \<open>MAXLINE\<close> (also \<open>MAXBUF\<close>) bytes, then the write of the string.\<close>

definition send :: "string \<Rightarrow> conn \<Rightarrow> conn exec" where
  "send s c = (if length s < MAXLINE then Rio_writen s c else Inl OutOfBounds)"

fun send_all :: "string list \<Rightarrow> conn \<Rightarrow> conn exec" where
  "send_all [] c = Inr c"
| "send_all (s # ss) c = sbind (send s c) (send_all ss)"

fun strstr :: "string \<Rightarrow> string \<Rightarrow> bool" where
  "strstr [] p \<longleftrightarrow> p = []"
| "strstr (c # s) p \<longleftrightarrow> prefix p (c # s) \<or> strstr s p"

section \<open>The server\<close>

text \<open>
  The header loop compares the buffer, which a read at the end of the input leaves
  as it was: the loop then goes on for ever.
\<close>

partial_function (option) hdr_loop :: "rio_t \<Rightarrow> string \<Rightarrow> rio_t exec option" where
  "hdr_loop rp buf =
     (if buf = crlf then Some (Inr rp)
      else case Rio_readlineb rp of
        Inl e \<Rightarrow> Some (Inl e)
      | Inr (rc, line, rp') \<Rightarrow> hdr_loop rp' (if rc = 0 then buf else cstr line))"

definition tiny_read_requesthdrs :: "rio_t \<Rightarrow> rio_t exec option" where
  "tiny_read_requesthdrs rp = (case Rio_readlineb rp of
     Inl e \<Rightarrow> Some (Inl e)
   | Inr (rc, line, rp') \<Rightarrow> if rc = 0 then Some (Inl Uninitialised) else hdr_loop rp' (cstr line))"

text \<open>The result is whether the content is static, the file name and the CGI arguments.\<close>

definition tiny_parse_uri :: "string \<Rightarrow> (bool \<times> string \<times> string) exec" where
  "tiny_parse_uri uri =
     (if \<not> strstr uri ''cgi-bin'' then
        let filename = ''.'' @ uri in
        if uri = [] then Inl OutOfBounds
        else let filename = (if uri ! (length uri - 1) = CHR ''/'' then filename @ ''home.html'' else filename) in
          if length filename < MAXLINE then Inr (True, filename, []) else Inl OutOfBounds
      else
        let cgiargs = (if CHR ''?'' \<in> set uri then tl (dropWhile (\<lambda>c. c \<noteq> CHR ''?'') uri) else []);
            filename = ''.'' @ takeWhile (\<lambda>c. c \<noteq> CHR ''?'') uri in
        if length filename < MAXLINE then Inr (False, filename, cgiargs) else Inl OutOfBounds)"

definition get_filetype :: "string \<Rightarrow> string" where
  "get_filetype filename =
     (if strstr filename ''.html'' then ''text/html''
      else if strstr filename ''.gif'' then ''image/gif''
      else if strstr filename ''.png'' then ''image/png''
      else if strstr filename ''.jpg'' then ''image/jpeg''
      else ''text/plain'')"

text \<open>The conversion of \<open>st_size\<close> to the parameter \<open>int filesize\<close>.\<close>

definition to_int :: "int \<Rightarrow> int" where
  "to_int n = (n + 2 ^ 31) mod 2 ^ 32 - 2 ^ 31"

definition serve_static :: "string \<Rightarrow> file_t \<Rightarrow> int \<Rightarrow> conn \<Rightarrow> conn exec" where
  "serve_static filename f filesize c =
     sbind (send_all
       [''HTTP/1.0 200 OK'' @ crlf,
        ''Server: Tiny Web Server'' @ crlf,
        ''Content-length: '' @ format_d filesize @ crlf,
        ''Content-type: '' @ get_filetype filename @ crlf @ crlf] c) (\<lambda>c.
     if \<not> opens f then Inl ExitCalled
     else if filesize \<le> 0 then Inl ExitCalled
     else Rio_writen (take (nat filesize) (data f)) c)"

definition serve_dynamic :: "cgi \<Rightarrow> string \<Rightarrow> string \<Rightarrow> conn \<Rightarrow> conn exec" where
  "serve_dynamic run filename cgiargs c =
     sbind (send_all [''HTTP/1.0 200 OK'' @ crlf, ''Server: Tiny Web Server'' @ crlf] c) (\<lambda>c.
     case run filename cgiargs of
       None \<Rightarrow> Inl ExitCalled
     | Some out \<Rightarrow> Inr (c\<lparr>c_out := c_out c @ out\<rparr>))"

definition clienterror :: "string \<Rightarrow> string \<Rightarrow> string \<Rightarrow> string \<Rightarrow> conn \<Rightarrow> conn exec" where
  "clienterror cause errnum shortmsg longmsg c =
     send_all
       [''HTTP/1.0 '' @ errnum @ '' '' @ shortmsg @ crlf,
        ''Content-type: text/html'' @ crlf @ crlf,
        ''<html><title>Tiny Error</title>'',
        ''<body bgcolor=ffffff>'' @ crlf,
        errnum @ '': '' @ shortmsg @ crlf,
        ''<p>'' @ longmsg @ '': '' @ cause @ crlf,
        ''<hr><em>The Tiny Web server</em>'' @ crlf] c"

definition tiny_serve :: "filesystem \<Rightarrow> cgi \<Rightarrow> string \<Rightarrow> conn \<Rightarrow> conn exec" where
  "tiny_serve fs run uri c =
     sbind (tiny_parse_uri uri) (\<lambda>(is_static, filename, cgiargs).
     case fs filename of
       None \<Rightarrow> clienterror filename ''404'' ''Not found'' ''Tiny couldn't find this file'' c
     | Some f \<Rightarrow>
         if is_static then
           if \<not> is_reg f \<or> \<not> usr_read f
           then clienterror filename ''403'' ''Forbidden'' ''Tiny couldn't read the file'' c
           else serve_static filename f (to_int (int (length (data f)))) c
         else
           if \<not> is_reg f \<or> \<not> usr_exec f
           then clienterror filename ''403'' ''Forbidden'' ''Tiny couldn't run the CGI program'' c
           else serve_dynamic run filename cgiargs c)"

text \<open>\<open>sscanf\<close> leaves the words it does not find uninitialised.\<close>

definition tiny_doit :: "filesystem \<Rightarrow> cgi \<Rightarrow> rd_event list \<Rightarrow> conn \<Rightarrow> conn exec" where
  "tiny_doit fs run fd c =
     sbind (Rio_readlineb (rio_readinitb fd)) (\<lambda>(rc, line, rio).
     if rc = 0 then Inr c
     else (case scan_words 3 (cstr line) of
       [] \<Rightarrow> Inl Uninitialised
     | req_method # args \<Rightarrow>
         if map to_lower req_method \<noteq> ''get''
         then clienterror req_method ''501'' ''Not Implemented'' ''Tiny does not implement this method'' c
         else (case tiny_read_requesthdrs rio of
             None \<Rightarrow> Inl NoTermination
           | Some r \<Rightarrow> sbind r (\<lambda>rio. case args of [] \<Rightarrow> Inl Uninitialised | uri # _ \<Rightarrow> tiny_serve fs run uri c))))"

section \<open>Sending\<close>

lemma strstr_sublist: "strstr s p \<longleftrightarrow> sublist p s"
  by (induction s) (auto simp: sublist_Cons_right)

lemma Rio_writen_ok:
  assumes "WErr \<notin> set (c_wr c)"
  shows "\<exists>es. Rio_writen s c = Inr \<lparr>c_wr = es, c_out = c_out c @ s\<rparr> \<and> WErr \<notin> set es"
  using rio_writen_ok [OF assms, of s] by (auto simp: Rio_writen_def)

lemma send_all_ok:
  assumes "WErr \<notin> set (c_wr c)" "list_all (\<lambda>s. length s < MAXLINE) ss"
  shows "\<exists>es. send_all ss c = Inr \<lparr>c_wr = es, c_out = c_out c @ concat ss\<rparr> \<and> WErr \<notin> set es"
  using assms
proof (induction ss arbitrary: c)
  case Nil
  then show ?case by (intro exI [of _ "c_wr c"]) simp
next
  case (Cons s ss)
  obtain es where es: "Rio_writen s c = Inr \<lparr>c_wr = es, c_out = c_out c @ s\<rparr>" "WErr \<notin> set es"
    using Rio_writen_ok [OF Cons.prems(1), of s] by blast
  then show ?case using Cons.IH [of "\<lparr>c_wr = es, c_out = c_out c @ s\<rparr>"] Cons.prems(2) by (simp add: send_def)
qed

lemma dec_length: "n < 10 ^ Suc k \<Longrightarrow> length (dec n) \<le> Suc k"
proof (induction k arbitrary: n)
  case (Suc k)
  then show ?case using Suc.IH [of "n div 10"] by (simp add: dec.simps [of n])
qed (simp add: dec.simps)

section \<open>Reading the headers\<close>

lemma take_line_Nil [simp]: "take_line k [] = []"
  by (cases k) simp_all

lemma take_line_pos: "s \<noteq> [] \<Longrightarrow> 0 < k \<Longrightarrow> 0 < length (take_line k s)"
  by (cases k; cases s) simp_all

text \<open>The lines of an input, a long one cut at \<open>MAXLINE - 1\<close> bytes.\<close>

function input_lines :: "string \<Rightarrow> string list" where
  "input_lines s = (if s = [] then []
     else let l = take_line (MAXLINE - 1) s in l # input_lines (drop (length l) s))"
  by pat_completeness auto
termination
  by (relation "measure length") (use take_line_pos [of _ "MAXLINE - 1"] in \<open>auto simp: MAXLINE_def\<close>)

declare input_lines.simps [simp del]

lemma input_lines_line:
  assumes "newline \<notin> set l" "length l + 2 < MAXLINE"
  shows "input_lines (l @ crlf @ t) = (l @ crlf) # input_lines t"
proof -
  have "take_line (MAXLINE - 1) ((l @ [CHR 0x0D]) @ newline # t) = (l @ [CHR 0x0D]) @ [newline]"
    using assms by (intro take_line_line) auto
  then show ?thesis by (subst input_lines.simps) (simp add: Let_def)
qed

lemma readline_eof: "rio_ok rp \<Longrightarrow> input rp = [] \<Longrightarrow> \<exists>rp'. Rio_readlineb rp = Inr (0, [], rp') \<and> rio_ok rp' \<and> input rp' = []"
  using rio_readlineb_clean [of rp MAXLINE] by (auto simp: Rio_readlineb_def)

lemma readline_next:
  assumes "rio_ok rp" "input rp \<noteq> []"
  shows "\<exists>l rp'. Rio_readlineb rp = Inr (int (length l), l, rp') \<and> l \<noteq> [] \<and> rio_ok rp' \<and>
    input_lines (input rp) = l # input_lines (input rp') \<and> length (input rp') < length (input rp)"
proof -
  let ?l = "take_line (MAXLINE - 1) (input rp)"
  obtain rp' where "rio_readlineb MAXLINE rp = (int (length ?l), ?l, rp')" "rio_ok rp'" "input rp' = drop (length ?l) (input rp)"
    using rio_readlineb_clean [OF assms(1), of MAXLINE] by blast
  moreover have "0 < length ?l" using take_line_pos [OF assms(2), of "MAXLINE - 1"] by (simp add: MAXLINE_def)
  ultimately show ?thesis
    using assms(2) by (intro exI [of _ ?l] exI [of _ rp']) (auto simp: Rio_readlineb_def input_lines.simps [of "input rp"] Let_def)
qed

lemma hdr_loop_eof: "hdr_loop rp buf = Some r \<Longrightarrow> rio_ok rp \<and> input rp = [] \<longrightarrow> buf = crlf"
proof (erule hdr_loop.raw_induct [rotated], rule impI)
  fix f rp buf r
  assume IH: "\<And>rp buf r. f rp buf = Some r \<Longrightarrow> rio_ok rp \<and> input rp = [] \<longrightarrow> buf = crlf"
    and step: "(if buf = crlf then Some (Inr rp) else case Rio_readlineb rp of Inl e \<Rightarrow> Some (Inl e)
      | Inr (rc, line, rp') \<Rightarrow> f rp' (if rc = 0 then buf else cstr line)) = Some r"
    and eof: "rio_ok rp \<and> input rp = []"
  obtain rp' where "Rio_readlineb rp = Inr (0, [], rp')" "rio_ok rp'" "input rp' = []"
    using readline_eof eof by blast
  then show "buf = crlf" using step IH [of rp' buf r] by (auto split: if_splits)
qed

lemma hdr_loop_cases:
  "rio_ok rp \<Longrightarrow> if buf = crlf \<or> (\<exists>l\<in>set (input_lines (input rp)). cstr l = crlf)
     then \<exists>rp'. hdr_loop rp buf = Some (Inr rp') else hdr_loop rp buf = None"
proof (induction "length (input rp)" arbitrary: rp buf rule: less_induct)
  case less
  show ?case
  proof (cases "buf = crlf")
    case True
    then show ?thesis by (simp add: hdr_loop.simps)
  next
    case False
    show ?thesis
    proof (cases "input rp = []")
      case True
      then have "hdr_loop rp buf = None"
        using hdr_loop_eof [of rp buf] False less.prems by (cases "hdr_loop rp buf") auto
      then show ?thesis using True False by (simp add: input_lines.simps)
    next
      case ne: False
      obtain l rp' where l: "Rio_readlineb rp = Inr (int (length l), l, rp')" "l \<noteq> []" "rio_ok rp'"
        "input_lines (input rp) = l # input_lines (input rp')" "length (input rp') < length (input rp)"
        using readline_next [OF less.prems ne] by blast
      have "hdr_loop rp buf = hdr_loop rp' (cstr l)" using False l(1,2) by (simp add: hdr_loop.simps [of rp buf])
      then show ?thesis using less.hyps [OF l(5,3), of "cstr l"] False by (auto simp: l(4) split: if_splits)
    qed
  qed
qed

text \<open>
  C36. Reading the request headers returns if and only if the input holds an empty line.
  If the input is empty, the loop compares a buffer that nothing has set, which is
  undefined. In all other cases, when the client closes the connection after a header
  line and before the empty line, the server is in this loop for ever.
\<close>

theorem tiny_headers_return:
  assumes "rio_ok rp"
  shows "((\<exists>rp'. tiny_read_requesthdrs rp = Some (Inr rp')) \<longleftrightarrow> (\<exists>l\<in>set (input_lines (input rp)). cstr l = crlf)) \<and>
    (tiny_read_requesthdrs rp = Some (Inl Uninitialised) \<longleftrightarrow> input rp = []) \<and>
    (tiny_read_requesthdrs rp = None \<longleftrightarrow> input rp \<noteq> [] \<and> (\<forall>l\<in>set (input_lines (input rp)). cstr l \<noteq> crlf))"
proof (cases "input rp = []")
  case True
  then show ?thesis using readline_eof [OF assms True] by (auto simp: tiny_read_requesthdrs_def input_lines.simps)
next
  case False
  obtain l rp' where l: "Rio_readlineb rp = Inr (int (length l), l, rp')" "l \<noteq> []" "rio_ok rp'"
    "input_lines (input rp) = l # input_lines (input rp')"
    using readline_next [OF assms False] by blast
  then show ?thesis
    using hdr_loop_cases [OF l(3), of "cstr l"] False by (auto simp: tiny_read_requesthdrs_def split: if_splits)
qed

theorem tiny_headers_return_witness:
  "tiny_read_requesthdrs (rio_readinitb [Data ''Host: a'', Intr, Data crlf]) = None \<and>
   (\<exists>rp'. tiny_read_requesthdrs (rio_readinitb [Data ''Host: a'', Intr, Data (crlf @ crlf)]) = Some (Inr rp'))"
proof -
  have a: "rio_ok (rio_readinitb [Data ''Host: a'', Intr, Data crlf])" "input (rio_readinitb [Data ''Host: a'', Intr, Data crlf]) = ''Host: a'' @ crlf @ []"
    and b: "rio_ok (rio_readinitb [Data ''Host: a'', Intr, Data (crlf @ crlf)])"
      "input (rio_readinitb [Data ''Host: a'', Intr, Data (crlf @ crlf)]) = ''Host: a'' @ crlf @ [] @ crlf @ []"
    by (simp_all add: rio_init_ok)
  have "input_lines [] = []" by (simp add: input_lines.simps)
  moreover have "cstr (''Host: a'' @ crlf) \<noteq> crlf" "cstr crlf = crlf" by (simp_all add: cstr_def NUL_def)
  moreover have "newline \<notin> set ''Host: a''" "length ''Host: a'' + 2 < MAXLINE" by (simp_all add: MAXLINE_def)
  moreover note l = input_lines_line [of "''Host: a''"]
  moreover have "input_lines ([] @ crlf @ []) = ([] @ crlf) # input_lines []" by (rule input_lines_line) (simp_all add: MAXLINE_def)
  ultimately have "set (input_lines (''Host: a'' @ crlf @ [])) = {''Host: a'' @ crlf}"
    "crlf \<in> set (input_lines (''Host: a'' @ crlf @ [] @ crlf @ []))" "cstr crlf = crlf" "cstr (''Host: a'' @ crlf) \<noteq> crlf"
    unfolding l by simp_all
  then show ?thesis
    using tiny_headers_return [OF a(1)] tiny_headers_return [OF b(1)] unfolding a(2) b(2) by (metis append_is_Nil_conv list.distinct(1) singletonD)
qed

section \<open>The responses\<close>

definition error_page :: "string \<Rightarrow> string \<Rightarrow> string \<Rightarrow> string \<Rightarrow> string" where
  "error_page cause errnum shortmsg longmsg =
     ''HTTP/1.0 '' @ errnum @ '' '' @ shortmsg @ crlf @ ''Content-type: text/html'' @ crlf @ crlf @
     ''<html><title>Tiny Error</title><body bgcolor=ffffff>'' @ crlf @ errnum @ '': '' @ shortmsg @ crlf @
     ''<p>'' @ longmsg @ '': '' @ cause @ crlf @ ''<hr><em>The Tiny Web server</em>'' @ crlf"

definition ok_head :: string where
  "ok_head = ''HTTP/1.0 200 OK'' @ crlf @ ''Server: Tiny Web Server'' @ crlf"

text \<open>The file a URI names: whether it is static, its path below the working directory, and the query.\<close>

definition resource :: "string \<Rightarrow> bool \<times> string \<times> string" where
  "resource uri =
     (if sublist ''cgi-bin'' uri
      then (False, ''.'' @ takeWhile (\<lambda>c. c \<noteq> CHR ''?'') uri, tl (dropWhile (\<lambda>c. c \<noteq> CHR ''?'') uri))
      else (True, ''.'' @ uri @ (if last uri = CHR ''/'' then ''home.html'' else []), []))"

text \<open>The response to a request for a URI, or the end of the server process.\<close>

definition response :: "filesystem \<Rightarrow> cgi \<Rightarrow> string \<Rightarrow> string exec" where
  "response fs run uri = (case resource uri of (static, name, query) \<Rightarrow>
     (case fs name of
        None \<Rightarrow> Inr (error_page name ''404'' ''Not found'' ''Tiny couldn't find this file'')
      | Some f \<Rightarrow>
          if \<not> (is_reg f \<and> (if static then usr_read f else usr_exec f))
          then Inr (error_page name ''403'' ''Forbidden''
            (if static then ''Tiny couldn't read the file'' else ''Tiny couldn't run the CGI program''))
          else if static then
            if opens f \<and> data f \<noteq> []
            then Inr (ok_head @ ''Content-length: '' @ dec (length (data f)) @ crlf @
              ''Content-type: '' @ get_filetype name @ crlf @ crlf @ data f)
            else Inl ExitCalled
          else (case run name query of None \<Rightarrow> Inl ExitCalled | Some out \<Rightarrow> Inr (ok_head @ out))))"

definition answers :: "conn \<Rightarrow> string exec \<Rightarrow> conn exec \<Rightarrow> bool" where
  "answers c reply r \<longleftrightarrow> (case reply of Inl e \<Rightarrow> r = Inl e | Inr s \<Rightarrow> \<exists>es. r = Inr \<lparr>c_wr = es, c_out = c_out c @ s\<rparr>)"

lemma clienterror_ok:
  assumes "WErr \<notin> set (c_wr c)" "length cause + length longmsg + length shortmsg + length errnum + 20 < MAXLINE"
  shows "answers c (Inr (error_page cause errnum shortmsg longmsg)) (clienterror cause errnum shortmsg longmsg c)"
proof -
  let ?ss = "[''HTTP/1.0 '' @ errnum @ '' '' @ shortmsg @ crlf, ''Content-type: text/html'' @ crlf @ crlf,
    ''<html><title>Tiny Error</title>'', ''<body bgcolor=ffffff>'' @ crlf, errnum @ '': '' @ shortmsg @ crlf,
    ''<p>'' @ longmsg @ '': '' @ cause @ crlf, ''<hr><em>The Tiny Web server</em>'' @ crlf]"
  have "list_all (\<lambda>s. length s < MAXLINE) ?ss" using assms(2) by (simp add: MAXLINE_def)
  then show ?thesis
    using send_all_ok [OF assms(1), of ?ss] by (auto simp: answers_def error_page_def clienterror_def)
qed

lemma get_filetype_length: "length (get_filetype name) \<le> 10"
  by (simp add: get_filetype_def)

lemma serve_static_ok:
  assumes "WErr \<notin> set (c_wr c)" "int (length (data f)) \<le> INT_MAX"
  shows "answers c (if opens f \<and> data f \<noteq> [] then Inr (ok_head @ ''Content-length: '' @ dec (length (data f)) @ crlf @
      ''Content-type: '' @ get_filetype name @ crlf @ crlf @ data f) else Inl ExitCalled)
    (serve_static name f (to_int (int (length (data f)))) c)"
proof -
  let ?n = "length (data f)"
  have n: "to_int (int ?n) = int ?n" using assms(2) by (simp add: to_int_def INT_MAX_def)
  have "length (dec ?n) \<le> Suc 9" using assms(2) by (intro dec_length) (simp add: INT_MAX_def)
  then have "length (format_d (int ?n)) \<le> 10" by (simp add: format_d_def)
  let ?ss = "[''HTTP/1.0 200 OK'' @ crlf, ''Server: Tiny Web Server'' @ crlf,
    ''Content-length: '' @ format_d (int ?n) @ crlf, ''Content-type: '' @ get_filetype name @ crlf @ crlf]"
  have "list_all (\<lambda>s. length s < MAXLINE) ?ss"
    using get_filetype_length [of name] \<open>length (format_d _) \<le> 10\<close> by (simp add: MAXLINE_def)
  then obtain es where es: "send_all ?ss c = Inr \<lparr>c_wr = es, c_out = c_out c @ concat ?ss\<rparr>" "WErr \<notin> set es"
    using send_all_ok [OF assms(1), of ?ss] by blast
  then show ?thesis
    using Rio_writen_ok [of "\<lparr>c_wr = es, c_out = c_out c @ concat ?ss\<rparr>" "data f"]
    by (auto simp: serve_static_def n answers_def ok_head_def format_d_def)
qed

lemma serve_dynamic_ok:
  assumes "WErr \<notin> set (c_wr c)"
  shows "answers c (case run name query of None \<Rightarrow> Inl ExitCalled | Some out \<Rightarrow> Inr (ok_head @ out)) (serve_dynamic run name query c)"
proof -
  let ?ss = "[''HTTP/1.0 200 OK'' @ crlf, ''Server: Tiny Web Server'' @ crlf]"
  have "list_all (\<lambda>s. length s < MAXLINE) ?ss" by (simp add: MAXLINE_def)
  then show ?thesis
    using send_all_ok [OF assms, of ?ss] by (auto simp: serve_dynamic_def answers_def ok_head_def split: option.split)
qed

lemma tiny_parse_uri_ok:
  assumes "uri \<noteq> []" "length uri + 10 < MAXLINE"
  shows "tiny_parse_uri uri = Inr (resource uri)" and "length (fst (snd (resource uri))) \<le> length uri + 10"
proof -
  have q: "(if CHR ''?'' \<in> set uri then tl (dropWhile (\<lambda>c. c \<noteq> CHR ''?'') uri) else []) = tl (dropWhile (\<lambda>c. c \<noteq> CHR ''?'') uri)"
  proof (cases "CHR ''?'' \<in> set uri")
    case False
    then have "dropWhile (\<lambda>c. c \<noteq> CHR ''?'') uri = []" by auto
    then show ?thesis by (metis list.sel(2))
  qed simp
  have len: "length (takeWhile (\<lambda>c. c \<noteq> CHR ''?'') uri) \<le> length uri" by (rule length_takeWhile_le)
  show "tiny_parse_uri uri = Inr (resource uri)"
    unfolding tiny_parse_uri_def resource_def strstr_sublist q
    using assms len by (simp add: Let_def last_conv_nth)
  show "length (fst (snd (resource uri))) \<le> length uri + 10"
    using len by (simp add: resource_def)
qed

lemma tiny_serve_ok:
  assumes "WErr \<notin> set (c_wr c)" "uri \<noteq> []" "length uri + 100 < MAXLINE"
    and "\<And>name f. fs name = Some f \<Longrightarrow> int (length (data f)) \<le> INT_MAX"
  shows "answers c (response fs run uri) (tiny_serve fs run uri c)"
proof -
  obtain static name query where r: "resource uri = (static, name, query)" by (cases "resource uri")
  have p: "tiny_parse_uri uri = Inr (static, name, query)" "length name + 90 < MAXLINE"
    using tiny_parse_uri_ok [of uri] assms(2,3) by (simp_all add: r)
  have err: "answers c (Inr (error_page name en sm lm)) (clienterror name en sm lm c)"
    if "length en + length sm + length lm \<le> 60" for en sm lm
    using that p(2) by (intro clienterror_ok [OF assms(1)]) simp
  show ?thesis
  proof (cases "fs name")
    case None
    then show ?thesis by (simp add: tiny_serve_def response_def p r err)
  next
    case (Some f)
    then show ?thesis
      using serve_static_ok [OF assms(1) assms(4) [OF Some], of name] serve_dynamic_ok [OF assms(1), of run name query]
      by (auto simp: tiny_serve_def response_def p r err)
  qed
qed

text \<open>A request as the client sends it: its three words, then the header lines and the empty line.\<close>

definition request_bytes :: "string \<Rightarrow> string \<Rightarrow> string \<Rightarrow> string list \<Rightarrow> string" where
  "request_bytes req_method uri version hdrs =
     req_method @ '' '' @ uri @ '' '' @ version @ crlf @ concat (map (\<lambda>l. l @ crlf) hdrs) @ crlf"

definition plain_line :: "string \<Rightarrow> bool" where
  "plain_line l \<longleftrightarrow> newline \<notin> set l \<and> length l + 2 < MAXLINE"

lemma input_lines_block:
  "list_all plain_line hdrs \<Longrightarrow>
   input_lines (concat (map (\<lambda>l. l @ crlf) hdrs) @ crlf @ rest) = map (\<lambda>l. l @ crlf) hdrs @ crlf # input_lines rest"
proof (induction hdrs)
  case Nil
  then show ?case using input_lines_line [of "[]" rest] by (simp add: MAXLINE_def)
next
  case (Cons l hdrs)
  then show ?case using input_lines_line [of l "concat (map (\<lambda>l. l @ crlf) hdrs) @ crlf @ rest"] by (simp add: plain_line_def)
qed

lemma read_headers_ok:
  assumes "rio_ok rp" "list_all plain_line hdrs" "input rp = concat (map (\<lambda>l. l @ crlf) hdrs) @ crlf @ rest"
  shows "\<exists>rp'. tiny_read_requesthdrs rp = Some (Inr rp')"
proof -
  have blank: "crlf \<in> set (input_lines (input rp))" using input_lines_block [OF assms(2), of rest] assms(3) by simp
  have "input rp \<noteq> []" using assms(3) by simp
  then obtain l rp' where l: "Rio_readlineb rp = Inr (int (length l), l, rp')" "l \<noteq> []" "rio_ok rp'"
    "input_lines (input rp) = l # input_lines (input rp')"
    using readline_next [OF assms(1)] by blast
  have "cstr crlf = crlf" by (simp add: cstr_def NUL_def)
  then have "\<exists>rp''. hdr_loop rp' (cstr l) = Some (Inr rp'')"
    using hdr_loop_cases [OF l(3), of "cstr l"] blank unfolding l(4) by (auto split: if_splits)
  then show ?thesis using l(1,2) by (auto simp: tiny_read_requesthdrs_def)
qed

lemma scan_three:
  assumes "token a" "token b" "token c"
  shows "scan_words 3 (a @ '' '' @ b @ '' '' @ c @ crlf) = [a, b, c]"
  using scan_words_token [OF assms(1), of "'' '' @ b @ '' '' @ c @ crlf" 2] scan_words_token [OF assms(2), of "'' '' @ c @ crlf" 1]
    scan_words_token [OF assms(3), of crlf 0] by (simp add: scan_words_skip numeral_3_eq_3 numeral_2_eq_2)

lemma tiny_doit_answers:
  assumes "token req_method" "token uri" "token version" "list_all plain_line hdrs"
    and "length req_method + length uri + length version + 100 < MAXLINE"
    and "clean fd" "stream fd = request_bytes req_method uri version hdrs @ rest" "WErr \<notin> set (c_wr c)"
    and "\<And>name f. fs name = Some f \<Longrightarrow> int (length (data f)) \<le> INT_MAX"
  shows "answers c
    (if map to_lower req_method = ''get'' then response fs run uri
     else Inr (error_page req_method ''501'' ''Not Implemented'' ''Tiny does not implement this method''))
    (tiny_doit fs run fd c)"
proof -
  let ?l = "req_method @ '' '' @ uri @ '' '' @ version @ [CHR 0x0D]"
  have tok: "newline \<notin> set ?l" "NUL \<notin> set (?l @ [newline])"
    using tokenD [OF assms(1), of "[]"] tokenD [OF assms(2), of "[]"] tokenD [OF assms(3), of "[]"] by (auto simp: NUL_def)
  have init: "rio_ok (rio_readinitb fd)" "input (rio_readinitb fd) = ?l @ newline # concat (map (\<lambda>l. l @ crlf) hdrs) @ crlf @ rest"
    using rio_init_ok [OF assms(6)] assms(7) by (simp_all add: request_bytes_def)
  obtain rio where rd: "rio_readlineb MAXLINE (rio_readinitb fd) = (int (Suc (length ?l)), ?l @ [newline], rio)" "rio_ok rio"
    "input rio = concat (map (\<lambda>l. l @ crlf) hdrs) @ crlf @ rest"
    using readline_here [OF init tok(1)] assms(5) by auto
  have words: "scan_words 3 (cstr (?l @ [newline])) = [req_method, uri, version]"
    using scan_three [OF assms(1-3)] cstr_id [OF tok(2)] by simp
  obtain rio' where hdrs: "tiny_read_requesthdrs rio = Some (Inr rio')" using read_headers_ok [OF rd(2) assms(4) rd(3)] by blast
  have "tiny_doit fs run fd c = (if map to_lower req_method \<noteq> ''get''
      then clienterror req_method ''501'' ''Not Implemented'' ''Tiny does not implement this method'' c
      else tiny_serve fs run uri c)"
    using rd(1) words hdrs by (simp add: tiny_doit_def Rio_readlineb_def)
  moreover have "answers c (Inr (error_page req_method ''501'' ''Not Implemented'' ''Tiny does not implement this method''))
      (clienterror req_method ''501'' ''Not Implemented'' ''Tiny does not implement this method'' c)"
    using assms(5) by (intro clienterror_ok [OF assms(8)]) simp
  moreover have "uri \<noteq> []" using tokenD [OF assms(2)] by simp
  then have "answers c (response fs run uri) (tiny_serve fs run uri c)"
    using assms(5) by (intro tiny_serve_ok [OF assms(8) _ _ assms(9)]) auto
  ultimately show ?thesis by (cases "map to_lower req_method = ''get''") simp_all
qed


definition sample_fs :: filesystem where
  "sample_fs = [''./a.html'' \<mapsto> \<lparr>is_reg = True, usr_read = True, usr_exec = False, opens = True, data = ''Hi''\<rparr>,
     ''./void'' \<mapsto> \<lparr>is_reg = True, usr_read = True, usr_exec = False, opens = True, data = []\<rparr>]"

lemma sample_fs_small: "sample_fs name = Some f \<Longrightarrow> int (length (data f)) \<le> INT_MAX"
  by (auto simp: sample_fs_def INT_MAX_def split: if_splits)


text \<open>
  Requests that stop the server: a path close to \<open>MAXLINE\<close> overflows the buffer of
  the file name, a long method the buffer of the error page.
\<close>

lemma tiny_long_uri_overflows:
  assumes "uri \<noteq> []" "last uri = CHR ''/''" "\<not> sublist ''cgi-bin'' uri" "MAXLINE \<le> length uri + 10"
  shows "tiny_serve fs run uri c = Inl OutOfBounds"
  using assms by (simp add: tiny_serve_def tiny_parse_uri_def strstr_sublist Let_def last_conv_nth)

lemma tiny_long_method_overflows:
  assumes "MAXLINE \<le> length req_method + 42" "WErr \<notin> set (c_wr c)"
  shows "clienterror req_method ''501'' ''Not Implemented'' ''Tiny does not implement this method'' c = Inl OutOfBounds"
proof -
  let ?ss = "[''HTTP/1.0 501 Not Implemented'' @ crlf, ''Content-type: text/html'' @ crlf @ crlf,
    ''<html><title>Tiny Error</title>'', ''<body bgcolor=ffffff>'' @ crlf, ''501: Not Implemented'' @ crlf]"
  have split: "send_all (xs @ ys) c = sbind (send_all xs c) (send_all ys)" for xs ys c
    by (induction xs arbitrary: c) (simp_all add: sbind_def split: sum.split)
  have "list_all (\<lambda>s. length s < MAXLINE) ?ss" by (simp add: MAXLINE_def)
  then obtain es where "send_all ?ss c = Inr \<lparr>c_wr = es, c_out = c_out c @ concat ?ss\<rparr>" using send_all_ok [OF assms(2)] by blast
  then show ?thesis
    using assms(1) split [of ?ss "[''<p>Tiny does not implement this method: '' @ req_method @ crlf, ''<hr><em>The Tiny Web server</em>'' @ crlf]" c]
    by (simp add: clienterror_def send_def)
qed

end
