(* ===== verification/Dns.thy ===== *)
theory Dns
  imports Prelude
begin

text \<open>
  The DNS client (\<open>dns_client.c\<close>): the query it builds, the names it prints and
  its reading of the answers, on the bytes of its 512-byte buffer. The network is a
  parameter: the response to a query, \<open>None\<close> when a socket call fails. Names are
  lists of bytes; a dot is the byte 46.
\<close>

type_synonym byte = "8 word"

definition BUFFER_SIZE :: nat where "BUFFER_SIZE = 512"

section \<open>The query\<close>

text \<open>The words \<open>strtok\<close> finds between dots, and what it leaves of its argument as a C string.\<close>

function tokens :: "byte list \<Rightarrow> byte list list" where
  "tokens s = (let t = dropWhile (\<lambda>b. b = 46) s in
     if t = [] then [] else takeWhile (\<lambda>b. b \<noteq> 46) t # tokens (dropWhile (\<lambda>b. b \<noteq> 46) t))"
  by pat_completeness auto
termination
proof (relation "measure length")
  fix s t :: "byte list" assume t: "t = dropWhile (\<lambda>b. b = 46) s" "t \<noteq> []"
  then have "hd t \<noteq> 46" using hd_dropWhile by blast
  then have "length (dropWhile (\<lambda>b. b \<noteq> 46) t) < length t"
    using t(2) by (cases t) (simp_all add: le_imp_less_Suc length_dropWhile_le)
  moreover have "length t \<le> length s" by (simp add: t(1) length_dropWhile_le)
  ultimately show "(dropWhile (\<lambda>b. b \<noteq> 46) t, s) \<in> measure length" by simp
qed simp

declare tokens.simps [simp del]

definition after_strtok :: "byte list \<Rightarrow> byte list" where
  "after_strtok s = takeWhile (\<lambda>b. b = 46) s @ takeWhile (\<lambda>b. b \<noteq> 46) (dropWhile (\<lambda>b. b = 46) s)"

fun put_bytes :: "byte list \<Rightarrow> nat \<Rightarrow> byte list \<Rightarrow> byte list exec" where
  "put_bytes buf p [] = Inr buf"
| "put_bytes buf p (b # bs) = sbind (wr buf p b) (\<lambda>buf. put_bytes buf (Suc p) bs)"

fun put_labels :: "byte list \<Rightarrow> nat \<Rightarrow> byte list list \<Rightarrow> (byte list \<times> nat) exec" where
  "put_labels buf qname [] = Inr (buf, qname)"
| "put_labels buf qname (t # ts) =
     sbind (wr buf qname (of_nat (length t))) (\<lambda>buf.
     sbind (put_bytes buf (Suc qname) t) (\<lambda>buf.
     put_labels buf (Suc qname + length t) ts))"

text \<open>The identifier 12345, the flags \<open>0x0100\<close> and one question, in network order; the result is the buffer and the length sent.\<close>

definition build_query :: "byte list \<Rightarrow> (byte list \<times> nat) exec" where
  "build_query domain =
     sbind (put_bytes (replicate BUFFER_SIZE 0) 0 [0x30, 0x39, 1, 0, 0, 1]) (\<lambda>buf.
     sbind (put_labels buf 12 (tokens domain)) (\<lambda>(buf, qname).
     sbind (wr buf qname 0) (\<lambda>buf.
     let qname = Suc qname in
     sbind (put_bytes buf qname [0, 1, 0, 1]) (\<lambda>buf.
     Inr (buf, 12 + (qname - 12) + 4)))))"

section \<open>Names\<close>

text \<open>
  The first loop of \<open>format_name\<close> copies the bytes of a name to an array of 256 and
  follows compression pointers, for ever if they form a cycle. Its counter \<open>i\<close> is
  not used.
\<close>

partial_function (option) name_loop :: "byte list \<Rightarrow> nat \<Rightarrow> byte list \<Rightarrow> byte list exec option" where
  "name_loop buffer reader name = (case rd buffer reader of
     Inl e \<Rightarrow> Some (Inl e)
   | Inr b \<Rightarrow>
       if b = 0 then (if length name < 256 then Some (Inr (name @ [0])) else Some (Inl OutOfBounds))
       else if 192 \<le> unat b then
         (case rd buffer (Suc reader) of
            Inl e \<Rightarrow> Some (Inl e)
          | Inr b2 \<Rightarrow> name_loop buffer (unat b * 256 + unat b2 - 49152) name)
       else if length name < 256 then name_loop buffer (Suc reader) (name @ [b])
       else Some (Inl OutOfBounds))"

text \<open>The array after it is filled: the rest of its 256 bytes is uninitialised.\<close>

definition rd_name :: "byte list \<Rightarrow> nat \<Rightarrow> byte exec" where
  "rd_name name k = (if k < length name then Inr (name ! k) else if k < 256 then Inl Uninitialised else Inl OutOfBounds)"

fun rd_names :: "byte list \<Rightarrow> nat \<Rightarrow> nat \<Rightarrow> byte list exec" where
  "rd_names name k 0 = Inr []"
| "rd_names name k (Suc n) = sbind (rd_name name k) (\<lambda>b. sbind (rd_names name (Suc k) n) (\<lambda>bs. Inr (b # bs)))"

definition strlen :: "byte list \<Rightarrow> nat" where
  "strlen name = length (takeWhile (\<lambda>b. b \<noteq> 0) name)"

function print_labels :: "byte list \<Rightarrow> nat \<Rightarrow> byte list exec" where
  "print_labels name i =
     (if i < strlen name then
        let len = unat (name ! i) in
        sbind (rd_names name (i + 1) len) (\<lambda>bs.
        sbind (rd_name name (i + len + 1)) (\<lambda>b.
        sbind (print_labels name (i + len + 1)) (\<lambda>rest.
        Inr (bs @ (if b \<noteq> 0 then [46] else []) @ rest))))
      else Inr [])"
  by pat_completeness auto
termination by (relation "measure (\<lambda>(name, i). strlen name - i)") auto

declare print_labels.simps [simp del]

definition format_name :: "nat \<Rightarrow> byte list \<Rightarrow> byte list exec option" where
  "format_name reader buffer = map_option (\<lambda>r. sbind r (\<lambda>name. print_labels name 0)) (name_loop buffer reader [])"

section \<open>The client\<close>

definition rd16 :: "byte list \<Rightarrow> nat \<Rightarrow> nat exec" where
  "rd16 buf p = sbind (rd buf p) (\<lambda>h. sbind (rd buf (Suc p)) (\<lambda>l. Inr (unat h * 256 + unat l)))"

definition rd_addr :: "byte list \<Rightarrow> nat \<Rightarrow> byte list exec" where
  "rd_addr buf p = sbind (rd buf p) (\<lambda>a. sbind (rd buf (p + 1)) (\<lambda>b. sbind (rd buf (p + 2)) (\<lambda>c. sbind (rd buf (p + 3)) (\<lambda>d.
     Inr [a, b, c, d]))))"

function skip_name :: "byte list \<Rightarrow> nat \<Rightarrow> nat exec" where
  "skip_name buf qname = (if qname < length buf then if buf ! qname = 0 then Inr qname else skip_name buf (Suc qname)
     else Inl OutOfBounds)"
  by pat_completeness auto
termination by (relation "measure (\<lambda>(buf, qname). length buf - qname)") auto

declare skip_name.simps [simp del]

datatype dns_event = QuerySent "byte list" | Counts nat nat | Query "byte list" | Answer "byte list" "byte list"

text \<open>
  \<open>struct R_DATA\<close> has 12 bytes, with two of padding after \<open>data_len\<close> at offset 8. The fields
  are read byte by byte at any address, as on machines that allow reads that are not aligned.
\<close>

fun answer_loop :: "nat \<Rightarrow> byte list \<Rightarrow> byte list \<Rightarrow> nat \<Rightarrow> dns_event list exec" where
  "answer_loop 0 domain buf qname = Inr []"
| "answer_loop (Suc n) domain buf qname =
     sbind (rd16 buf qname) (\<lambda>rtype.
     sbind (if rtype = 1 then sbind (rd_addr buf (qname + 12)) (\<lambda>a. Inr [Answer domain a]) else Inr []) (\<lambda>out.
     sbind (rd16 buf (qname + 8)) (\<lambda>data_len.
     sbind (answer_loop n domain buf (qname + 12 + data_len)) (\<lambda>outs.
     Inr (out @ outs)))))"

definition dns_main :: "(byte list \<Rightarrow> byte list option) \<Rightarrow> byte list \<Rightarrow> dns_event list exec" where
  "dns_main net domain =
     sbind (build_query domain) (\<lambda>(buf, len).
     case net (take len buf) of
       None \<Rightarrow> Inl ExitCalled
     | Some msg \<Rightarrow>
         let got = take BUFFER_SIZE msg; buf' = got @ drop (length got) buf in
         sbind (rd16 buf' 4) (\<lambda>q_count.
         sbind (rd16 buf' 6) (\<lambda>ans_count.
         case format_name 12 buf' of
           None \<Rightarrow> Inl NoTermination
         | Some r \<Rightarrow> sbind r (\<lambda>name.
             sbind (skip_name buf' 12) (\<lambda>qname.
             sbind (answer_loop ans_count (after_strtok domain) buf' (qname + 4 + 1)) (\<lambda>answers.
             Inr ([QuerySent (take len buf), Counts q_count ans_count, Query name] @ answers)))))))"

section \<open>Writing a name\<close>

definition encode :: "byte list list \<Rightarrow> byte list" where
  "encode ls = concat (map (\<lambda>t. of_nat (length t) # t) ls)"

fun dotted :: "byte list list \<Rightarrow> byte list" where
  "dotted [] = []"
| "dotted [t] = t"
| "dotted (t # u # ts) = t @ 46 # dotted (u # ts)"

lemma put_bytes_append: "put_bytes buf p (xs @ ys) = sbind (put_bytes buf p xs) (\<lambda>buf. put_bytes buf (p + length xs) ys)"
proof (induction xs arbitrary: buf p)
  case (Cons x xs)
  then show ?case by (cases "wr buf p x") simp_all
qed simp

lemma put_labels_encode:
  "put_labels buf p ts = sbind (put_bytes buf p (encode ts)) (\<lambda>buf. Inr (buf, p + length (encode ts)))"
proof (induction ts arbitrary: buf p)
  case (Cons t ts)
  show ?case
  proof (cases "wr buf p (of_nat (length t))")
    case (Inr buf1)
    then show ?thesis
      using Cons by (cases "put_bytes buf1 (Suc p) t") (simp_all add: encode_def put_bytes_append add.assoc)
  qed (simp add: encode_def)
qed (simp add: encode_def)

lemma put_bytes_ok:
  "p + length bs \<le> length buf \<Longrightarrow> put_bytes buf p bs = Inr (take p buf @ bs @ drop (p + length bs) buf)"
proof (induction bs arbitrary: buf p)
  case (Cons b bs)
  then have p: "p < length buf" by simp
  have "drop (Suc p) (buf[p := b]) = drop (Suc p) buf" by simp
  then show ?case
    using Cons.IH [of "Suc p" "buf[p := b]"] Cons.prems p by (simp add: wr_def take_Suc_conv_app_nth)
qed simp

lemma put_bytes_zeros:
  assumes "length bs \<le> n"
  shows "put_bytes (pre @ replicate n 0) (length pre) bs = Inr ((pre @ bs) @ replicate (n - length bs) 0)"
  using assms by (subst put_bytes_ok) simp_all

lemma wr_put_bytes: "wr buf p b = put_bytes buf p [b]"
  by (simp add: sbind_def split: sum.split)

text \<open>Labels that a name can hold: what separates or ends a name, or starts a pointer, is not in them.\<close>

definition label_ok :: "byte list \<Rightarrow> bool" where
  "label_ok t \<longleftrightarrow> t \<noteq> [] \<and> length t < 192 \<and> (\<forall>b\<in>set t. b \<noteq> 0 \<and> b \<noteq> 46 \<and> unat b < 192)"

lemma label_length: "label_ok t \<Longrightarrow> unat (of_nat (length t) :: byte) = length t"
  by (intro unat_of_nat_less) (simp add: label_ok_def)

lemma encode_bytes: "list_all label_ok ls \<Longrightarrow> b \<in> set (encode ls) \<Longrightarrow> b \<noteq> 0 \<and> unat b < 192"
proof (induction ls)
  case (Cons t ls)
  have "of_nat (length t) \<noteq> (0 :: byte)" using label_length [of t] Cons.prems(1) by (auto simp: label_ok_def)
  then show ?case using Cons label_length [of t] by (auto simp: encode_def label_ok_def)
qed (simp add: encode_def)

lemma tokens_dotted: "list_all label_ok ls \<Longrightarrow> tokens (dotted ls) = ls"
proof (induction ls rule: dotted.induct)
  case (2 t)
  then have t: "dropWhile (\<lambda>b. b = 46) t = t" "takeWhile (\<lambda>b. b \<noteq> 46) t = t" "dropWhile (\<lambda>b. b \<noteq> 46) t = []" "(t = []) = False"
    by (cases t; auto simp: label_ok_def)+
  have "tokens [] = []" by (simp add: tokens.simps)
  then show ?case unfolding dotted.simps by (subst tokens.simps) (simp only: t Let_def if_False)
next
  case (3 t u ts)
  let ?r = "dotted (u # ts)"
  have t: "t \<noteq> []" "hd t \<noteq> 46" "\<forall>b\<in>set t. b \<noteq> 46" using "3.prems" by (auto simp: label_ok_def)
  then have "dropWhile (\<lambda>b. b = 46) (t @ 46 # ?r) = t @ 46 # ?r" by (cases t) simp_all
  moreover have "takeWhile (\<lambda>b. b \<noteq> 46) (t @ 46 # ?r) = t" "dropWhile (\<lambda>b. b \<noteq> 46) (t @ 46 # ?r) = 46 # ?r"
    using t(3) by (simp_all add: takeWhile_append2 dropWhile_append2)
  moreover have "tokens (46 # ?r) = tokens ?r" by (simp add: tokens.simps [of "46 # ?r"] tokens.simps [of ?r])
  ultimately show ?case using t(1) "3.IH" "3.prems" by (simp add: tokens.simps [of "t @ 46 # ?r"])
qed (simp add: tokens.simps)

definition dns_message :: "byte list \<Rightarrow> byte list list \<Rightarrow> byte list \<Rightarrow> byte list" where
  "dns_message header ls rest = header @ encode ls @ [0, 0, 1, 0, 1] @ rest"

definition query_header :: "byte list" where
  "query_header = [0x30, 0x39, 1, 0, 0, 1, 0, 0, 0, 0, 0, 0]"

lemma query_header_length [simp]: "length query_header = 12"
  by (simp add: query_header_def)

lemma build_query_ok:
  assumes "list_all label_ok ls" "length (encode ls) < 256"
  shows "build_query (dotted ls) =
    Inr (dns_message query_header ls (replicate (495 - length (encode ls)) 0), 17 + length (encode ls))"
proof -
  let ?e = "encode ls" and ?h = "[0x30, 0x39, 1, 0, 0, 1] :: byte list"
  have "replicate 506 (0 :: byte) = replicate 6 0 @ replicate 500 0" by (simp flip: replicate_add)
  also have "replicate 6 (0 :: byte) = [0, 0, 0, 0, 0, 0]" by (simp add: eval_nat_numeral)
  finally have h: "put_bytes (replicate BUFFER_SIZE 0) 0 ?h = Inr (query_header @ replicate 500 0)"
    using put_bytes_zeros [of ?h 512 "[]"] by (simp add: BUFFER_SIZE_def query_header_def)
  have l: "put_labels (query_header @ replicate 500 0) 12 ls = Inr ((query_header @ ?e) @ replicate (500 - length ?e) 0, 12 + length ?e)"
    unfolding put_labels_encode using put_bytes_zeros [of ?e 500 query_header] assms(2) by simp
  have z: "wr ((query_header @ ?e) @ replicate (500 - length ?e) 0) (12 + length ?e) 0 =
      Inr ((query_header @ ?e @ [0]) @ replicate (499 - length ?e) 0)"
    unfolding wr_put_bytes using put_bytes_zeros [of "[0]" "500 - length ?e" "query_header @ ?e"] assms(2) by simp
  have q: "put_bytes ((query_header @ ?e @ [0]) @ replicate (499 - length ?e) 0) (Suc (12 + length ?e)) [0, 1, 0, 1] =
      Inr ((query_header @ ?e @ [0, 0, 1, 0, 1]) @ replicate (495 - length ?e) 0)"
    using put_bytes_zeros [of "[0, 1, 0, 1]" "499 - length ?e" "query_header @ ?e @ [0]"] assms(2) by simp
  show ?thesis
    unfolding build_query_def tokens_dotted [OF assms(1)] h sbind_simps l prod.case z Let_def q by (simp add: dns_message_def)
qed

section \<open>Reading a name\<close>

lemma name_loop_plain:
  assumes "\<forall>b\<in>set bs. b \<noteq> 0 \<and> unat b < 192" "length name + length bs < 256"
  shows "name_loop (pre @ bs @ 0 # post) (length pre) name = Some (Inr (name @ bs @ [0]))"
  using assms
proof (induction bs arbitrary: pre name)
  case Nil
  then show ?case by (simp add: name_loop.simps)
next
  case (Cons b bs)
  then show ?case using Cons.IH [of "name @ [b]" "pre @ [b]"] by (simp add: name_loop.simps [of _ "length pre"])
qed

lemma rd_names_ok: "k + n \<le> length name \<Longrightarrow> rd_names name k n = Inr (take n (drop k name))"
proof (induction n arbitrary: k)
  case (Suc n)
  then show ?case by (simp add: rd_name_def Cons_nth_drop_Suc [symmetric])
qed simp

lemma strlen_append: "0 \<notin> set s \<Longrightarrow> strlen (s @ [0]) = length s"
proof -
  assume "0 \<notin> set s"
  then have "takeWhile (\<lambda>b. b \<noteq> 0) (s @ [0]) = s" by (subst takeWhile_append2) auto
  then show ?thesis by (simp add: strlen_def)
qed

lemma print_labels_ok:
  assumes "list_all label_ok ls" "0 \<notin> set pre"
  shows "print_labels (pre @ encode ls @ [0]) (length pre) = Inr (dotted ls)"
  using assms
proof (induction ls arbitrary: pre rule: dotted.induct)
  case 1
  then show ?case using strlen_append [of pre] by (simp add: print_labels.simps encode_def)
next
  case (2 t)
  let ?l = "of_nat (length t) :: byte" and ?n = "pre @ encode [t] @ [0]"
  have z: "0 \<notin> set (pre @ encode [t])" using encode_bytes [OF "2.prems"(1)] "2.prems"(2) by auto
  have len: "unat ?l = length t" using label_length "2.prems"(1) by simp
  have n: "?n = pre @ ?l # t @ [0]" by (simp add: encode_def)
  have "strlen ?n = length pre + Suc (length t)" using strlen_append [OF z] by (simp add: encode_def)
  moreover from this have "print_labels ?n (Suc (length pre + length t)) = Inr []" by (simp add: print_labels.simps)
  ultimately show ?case
    unfolding n by (subst print_labels.simps) (simp add: len rd_names_ok rd_name_def nth_append)
next
  case (3 t u ts)
  let ?l = "of_nat (length t) :: byte" and ?r = "encode (u # ts)" and ?n = "pre @ encode (t # u # ts) @ [0]"
  have z: "0 \<notin> set (pre @ encode (t # u # ts))" using encode_bytes [OF "3.prems"(1)] "3.prems"(2) by auto
  have len: "unat ?l = length t" using label_length "3.prems"(1) by simp
  have n: "?n = (pre @ ?l # t) @ ?r @ [0]" by (simp add: encode_def)
  have r: "?r = of_nat (length u) # u @ encode ts" by (simp add: encode_def)
  have "of_nat (length u) \<noteq> (0 :: byte)" using encode_bytes [of "u # ts" "of_nat (length u)"] "3.prems"(1) by (simp add: r)
  moreover have "print_labels ?n (length (pre @ ?l # t)) = Inr (dotted (u # ts))"
    unfolding n using "3.IH" [of "pre @ ?l # t"] "3.prems"(1) z by (simp add: encode_def)
  moreover have "strlen ?n = length pre + Suc (length t) + length ?r" using strlen_append [OF z] by (simp add: encode_def)
  ultimately show ?case
    unfolding n by (subst print_labels.simps) (simp add: len rd_names_ok rd_name_def nth_append r)
qed

lemma format_name_ok:
  assumes "list_all label_ok ls" "length (encode ls) < 256" "length header = 12"
  shows "format_name 12 (dns_message header ls rest) = Some (Inr (dotted ls))"
proof -
  have "name_loop (dns_message header ls rest) 12 [] = Some (Inr (encode ls @ [0]))"
    using name_loop_plain [of "encode ls" "[]" header "[0, 1, 0, 1] @ rest"] encode_bytes [OF assms(1)] assms(2,3)
    by (simp add: dns_message_def)
  then show ?thesis using print_labels_ok [OF assms(1), of "[]"] by (simp add: format_name_def)
qed

text \<open>
  C30. The query for a name of labels asks for its encoding after the header, and
  printing the name of the query, or of any message that repeats it after 12 bytes of
  header, gives the name back.
\<close>

theorem dns_name_roundtrip:
  assumes "list_all label_ok ls" "length (encode ls) < 256" "length header = 12"
  shows "\<exists>buf n. build_query (dotted ls) = Inr (buf, n) \<and> take n buf = dns_message query_header ls [] \<and>
    format_name 12 buf = Some (Inr (dotted ls)) \<and> format_name 12 (dns_message header ls rest) = Some (Inr (dotted ls))"
proof -
  have "take (17 + length (encode ls)) (dns_message query_header ls zs) = dns_message query_header ls []" for zs
    by (simp add: dns_message_def)
  then show ?thesis
    using build_query_ok [OF assms(1,2)] format_name_ok [OF assms(1,2)] assms(3) by auto
qed

definition bytes :: "string \<Rightarrow> byte list" where
  "bytes s = map of_char s"

theorem dns_name_roundtrip_witness:
  "\<exists>buf n. build_query (bytes ''www.a.org'') = Inr (buf, n) \<and> format_name 12 buf = Some (Inr (bytes ''www.a.org''))"
proof -
  have l: "dotted [bytes ''www'', bytes ''a'', bytes ''org''] = bytes ''www.a.org''" by (simp add: bytes_def)
  have "list_all label_ok [bytes ''www'', bytes ''a'', bytes ''org'']" "length (encode [bytes ''www'', bytes ''a'', bytes ''org'']) < 256"
    by (simp_all add: label_ok_def bytes_def encode_def)
  from dns_name_roundtrip [OF this, of query_header "[]"] show ?thesis unfolding l by auto
qed

text \<open>A compression pointer to itself keeps the loop running for ever.\<close>

lemma name_loop_cycle:
  "name_loop buf p name = Some r \<Longrightarrow>
   \<not> (Suc p < length buf \<and> 192 \<le> unat (buf ! p) \<and> unat (buf ! p) * 256 + unat (buf ! Suc p) - 49152 = p)"
proof (erule name_loop.raw_induct [rotated])
  fix f :: "byte list \<Rightarrow> nat \<Rightarrow> byte list \<Rightarrow> byte list exec option" and buf p name r
  assume IH: "\<And>buf p name r. f buf p name = Some r \<Longrightarrow>
      \<not> (Suc p < length buf \<and> 192 \<le> unat (buf ! p) \<and> unat (buf ! p) * 256 + unat (buf ! Suc p) - 49152 = p)"
    and step: "(case rd buf p of Inl e \<Rightarrow> Some (Inl e)
      | Inr b \<Rightarrow> if b = 0 then if length name < 256 then Some (Inr (name @ [0])) else Some (Inl OutOfBounds)
          else if 192 \<le> unat b then case rd buf (Suc p) of Inl e \<Rightarrow> Some (Inl e)
              | Inr b2 \<Rightarrow> f buf (unat b * 256 + unat b2 - 49152) name
          else if length name < 256 then f buf (Suc p) (name @ [b]) else Some (Inl OutOfBounds)) = Some r"
  show "\<not> (Suc p < length buf \<and> 192 \<le> unat (buf ! p) \<and> unat (buf ! p) * 256 + unat (buf ! Suc p) - 49152 = p)"
  proof
    assume c: "Suc p < length buf \<and> 192 \<le> unat (buf ! p) \<and> unat (buf ! p) * 256 + unat (buf ! Suc p) - 49152 = p"
    then have "buf ! p \<noteq> 0" by auto
    then have "f buf p name = Some r" using step c by simp
    then show False using IH c by blast
  qed
qed

section \<open>Answers\<close>

lemma skip_name_ok: "0 \<notin> set bs \<Longrightarrow> skip_name (pre @ bs @ 0 # post) (length pre) = Inr (length pre + length bs)"
proof (induction bs arbitrary: pre)
  case Nil
  then show ?case by (simp add: skip_name.simps)
next
  case (Cons b bs)
  then show ?case using Cons.IH [of "pre @ [b]"] by (simp add: skip_name.simps [of _ "length pre"] nth_append)
qed

lemma rd16_ok: "Suc p < length buf \<Longrightarrow> rd16 buf p = Inr (unat (buf ! p) * 256 + unat (buf ! Suc p))"
  by (simp add: rd16_def)

lemma dns_message_split:
  assumes "length header = 12" "17 + length (encode ls) \<le> n"
  shows "take n (dns_message header ls rest) = dns_message header ls (take (n - 17 - length (encode ls)) rest)"
    and "drop n (dns_message header ls rest) = drop (n - 17 - length (encode ls)) rest"
proof -
  let ?p = "header @ encode ls @ [0, 0, 1, 0, 1]"
  have p: "dns_message header ls xs = ?p @ xs" for xs by (simp add: dns_message_def)
  have l: "length ?p = 17 + length (encode ls)" using assms(1) by simp
  show "take n (dns_message header ls rest) = dns_message header ls (take (n - 17 - length (encode ls)) rest)"
    "drop n (dns_message header ls rest) = drop (n - 17 - length (encode ls)) rest"
    unfolding p take_append drop_append l using assms by simp_all
qed

text \<open>
  C31. The answers of real servers begin with a compressed name, which the client does
  not skip: it reads the pointer as the record type. Whatever address the answer
  holds, the client prints the counts and the name it asked for and no answer.
\<close>

theorem dns_compressed_answer_lost:
  assumes "list_all label_ok ls" "length (encode ls) < 256"
    and "header = [h0, h1, h2, h3, 0, 1, 0, 1, h8, h9, h10, h11]" "192 \<le> unat ptr"
    and "net (dns_message query_header ls []) = Some (dns_message header ls (ptr # record_bytes))"
  shows "dns_main net (dotted ls) =
    Inr [QuerySent (dns_message query_header ls []), Counts 1 1, Query (dotted ls)]"
proof -
  let ?e = "encode ls" and ?z = "replicate (495 - length (encode ls)) (0 :: byte)"
  let ?buf = "dns_message query_header ls ?z"
  let ?got = "take BUFFER_SIZE (dns_message header ls (ptr # record_bytes))"
  have len: "length header = 12" by (simp add: assms(3))
  have "17 + length ?e < 512" using assms(2) by simp
  then have got: "?got = dns_message header ls (take (495 - length ?e) (ptr # record_bytes))"
    using dns_message_split(1) [OF len, of ls 512] by (simp add: BUFFER_SIZE_def)
  obtain rest where b: "?got @ drop (length ?got) ?buf = dns_message header ls (ptr # rest)" "length rest = 494 - length ?e"
  proof
    let ?n = "494 - length ?e"
    have n: "495 - length ?e = Suc ?n" using assms(2) by simp
    have "drop (length ?got) ?buf = drop (length (take ?n record_bytes)) (replicate ?n 0)"
      using dns_message_split(2) [OF query_header_length, of ls "length ?got" ?z] len unfolding got n
      by (simp add: dns_message_def)
    then show "?got @ drop (length ?got) ?buf =
        dns_message header ls (ptr # take ?n record_bytes @ drop (length (take ?n record_bytes)) (replicate ?n 0))"
      unfolding got n by (simp add: dns_message_def)
    show "length (take ?n record_bytes @ drop (length (take ?n record_bytes)) (replicate ?n (0 :: byte))) = ?n" by simp
  qed
  let ?b = "dns_message header ls (ptr # rest)"
  have size: "length ?b = 512" using assms(2) b(2) len by (simp add: dns_message_def)
  have counts: "rd16 ?b 4 = Inr 1" "rd16 ?b 6 = Inr 1"
    using size by (simp_all add: rd16_ok dns_message_def assms(3))
  have "0 \<notin> set ?e" using encode_bytes [OF assms(1)] by blast
  then have skip: "skip_name ?b 12 = Inr (12 + length ?e)"
    using skip_name_ok [of ?e header "[0, 1, 0, 1] @ ptr # rest"] len by (simp add: dns_message_def)
  have q: "?b ! (17 + length ?e) = ptr" using len by (simp add: dns_message_def nth_append)
  have "answer_loop 1 d ?b (17 + length ?e) = Inr []" for d
    using assms(2,4) by (simp add: rd16_ok size q)
  then show ?thesis
    using build_query_ok [OF assms(1,2)] assms(5) counts skip b(1) format_name_ok [OF assms(1,2) len, of "ptr # rest"]
    by (simp add: dns_main_def dns_message_def [of query_header] Let_def)
qed

theorem dns_compressed_answer_lost_witness:
  "dns_main (\<lambda>_. Some (dns_message [0x30, 0x39, 0x81, 0x80, 0, 1, 0, 1, 0, 0, 0, 0] [bytes ''a'', bytes ''org'']
       [0xC0, 0x0C, 0, 1, 0, 1, 0, 0, 0, 60, 0, 4, 93, 184, 216, 34])) (bytes ''a.org'') =
   Inr [QuerySent (dns_message query_header [bytes ''a'', bytes ''org''] []), Counts 1 1, Query (bytes ''a.org'')]"
proof -
  have l: "dotted [bytes ''a'', bytes ''org''] = bytes ''a.org''" by (simp add: bytes_def)
  have ok: "list_all label_ok [bytes ''a'', bytes ''org'']" "length (encode [bytes ''a'', bytes ''org'']) < 256"
    by (simp_all add: label_ok_def bytes_def encode_def)
  show ?thesis by (rule dns_compressed_answer_lost [OF ok refl, unfolded l]) simp_all
qed

text \<open>
  Where an answer is printed, the name in front of it is only the first label, since
  \<open>strtok\<close> has overwritten the first dot of the argument.
\<close>

lemma strtok_cuts_domain:
  assumes "label_ok t"
  shows "after_strtok (dotted (t # u # ts)) = t"
proof -
  have t: "t \<noteq> []" "\<forall>b\<in>set t. b \<noteq> 46" using assms by (auto simp: label_ok_def)
  then have "takeWhile (\<lambda>b. b = 46) (t @ 46 # s) = []" "dropWhile (\<lambda>b. b = 46) (t @ 46 # s) = t @ 46 # s" for s
    by (cases t; simp)+
  then show ?thesis using t(2) by (simp add: after_strtok_def takeWhile_append2)
qed

lemma format_name_cycle:
  assumes "Suc p < length buf" "192 \<le> unat (buf ! p)" "unat (buf ! p) * 256 + unat (buf ! Suc p) - 49152 = p"
  shows "format_name p buf = None"
  using name_loop_cycle [of buf p "[]"] assms by (cases "name_loop buf p []") (auto simp: format_name_def)

end
