(* ===== verification/Csi_Shell.thy ===== *)
theory Csi_Shell
  imports Prelude
begin

text \<open>
  The shell of the course on exceptional control flow (\<open>reference-solution/shell.c\<close> with \<open>shell.h\<close>): the parser
  that cuts a command off a line up to an operator, the builtins, the execution of a program and the loop of
  \<open>main\<close>. A line is the list of its characters before the terminating zero. What \<open>fork\<close> returns, whether \<open>execvp\<close>
  finds a program, how a child ends and which child \<open>wait\<close> reaps first are parameters; so are the contents of fresh
  memory (pointers to strings, or null) and of an uninitialised variable. The input still to be read is in the
  buffer of \<open>stdin\<close>, so that a child has a copy of it.
\<close>

definition MAX_INPUT :: nat where "MAX_INPUT = 50"

definition MAX_ARGS :: nat where "MAX_ARGS = 4"

record Token =
  tk_command :: "string option"
  tk_args :: "string option list"
  tk_operator :: "string option"
  s_next :: "string option"

definition null_token :: Token where
  "null_token = \<lparr>tk_command = None, tk_args = replicate MAX_ARGS None, tk_operator = None, s_next = None\<rparr>"

datatype wstatus = W_exited int | W_signaled

record sh_env =
  e_fork :: "nat \<Rightarrow> int"
  e_exec :: "string \<Rightarrow> string list \<Rightarrow> bool"
  e_status :: "int \<Rightarrow> wstatus"
  e_pick :: "nat \<Rightarrow> nat"
  e_junk :: "nat \<Rightarrow> int"
  e_fresh :: "nat \<Rightarrow> string option list"
  e_profile :: "string option"

text \<open>
  What a child becomes in \<open>Execvp\<close>: the program with the arguments it receives, or, when \<open>execvp\<close> returns, a second
  shell; its behaviour may also be undefined.
\<close>

datatype child = Runs string "string list" | Second_Shell | Faults c_fault

datatype event = Prompt | Started child bool | Reaped int bool | Print string | Killed int

record sh_proc =
  sh_stdin :: string
  sh_token :: Token
  exit_status :: int
  child_pid :: int
  children :: "int list"
  forks :: nat
  waits :: nat
  trace :: "event list"

text \<open>A shell and the second shells that its children have become.\<close>

record sh_state = sh_proc +
  strays :: "sh_proc list"

section \<open>The parser\<close>

definition GetOperator :: "string \<Rightarrow> string" where
  "GetOperator s =
     (let c = (\<lambda>i. if i < length s then s ! i else CHR 0x00) in
      if c 0 = CHR ''&'' \<and> c 1 = CHR ''&'' \<and> c 2 = CHR '' '' \<or> c 0 = CHR ''|'' \<and> c 1 = CHR ''|'' \<and> c 2 = CHR '' '' then take 2 s
      else if c 0 = CHR ''|'' \<and> c 1 = CHR '' '' \<or> c 0 = CHR ''&'' \<and> c 1 = CHR '' '' then take 1 s
      else [])"

definition is_blank :: "char \<Rightarrow> bool" where
  "is_blank c \<longleftrightarrow> c = CHR '' '' \<or> c = CHR 0x0A"

lemma blank_rest_shorter: "s \<noteq> [] \<Longrightarrow> length (dropWhile is_blank (dropWhile (\<lambda>c. \<not> is_blank c) s)) < length s"
proof (cases s)
  case (Cons c cs)
  have "length (dropWhile is_blank (dropWhile (\<lambda>c. \<not> is_blank c) cs)) \<le> length cs"
    by (meson length_dropWhile_le order_trans)
  then show ?thesis using Cons length_dropWhile_le [of is_blank cs] by (auto simp: le_imp_less_Suc)
qed simp

text \<open>The loop of \<open>ParseArgs\<close>, with the last operator it looked up, and what is left of the line.\<close>

function parse_words :: "Token \<Rightarrow> nat \<Rightarrow> string \<Rightarrow> (Token \<times> nat \<times> string) exec" where
  "parse_words token arg_idx s =
     (if s = [] then Inr (token, arg_idx, s)
      else let token = token\<lparr>tk_operator := Some (GetOperator s)\<rparr> in
        if GetOperator s \<noteq> [] then Inr (token, arg_idx, s)
        else let new_arg = takeWhile (\<lambda>c. \<not> is_blank c) s;
                 rest = dropWhile is_blank (dropWhile (\<lambda>c. \<not> is_blank c) s) in
          if tk_command token = None then parse_words (token\<lparr>tk_command := Some new_arg\<rparr>) arg_idx rest
          else sbind (wr (tk_args token) arg_idx (Some new_arg)) (\<lambda>as. parse_words (token\<lparr>tk_args := as\<rparr>) (arg_idx + 1) rest))"
  by pat_completeness auto
termination by (relation "measure (\<lambda>(token, i, s). length s)") (simp_all add: blank_rest_shorter)

declare parse_words.simps [simp del]

definition ParseArgs :: "string option \<Rightarrow> Token exec" where
  "ParseArgs s =
     (case s of None \<Rightarrow> Inr null_token
      | Some s \<Rightarrow>
        sbind (parse_words null_token 0 (dropWhile (\<lambda>c. c = CHR '' '') s)) (\<lambda>(token, arg_idx, s).
        let token = (case tk_operator token of None \<Rightarrow> token | Some op \<Rightarrow> token\<lparr>s_next := Some (drop (length op) s)\<rparr>) in
        sbind (wr (tk_args token) arg_idx None) (\<lambda>as. Inr (token\<lparr>tk_args := as\<rparr>))))"

definition ContinueExec :: "string \<Rightarrow> int \<Rightarrow> bool" where
  "ContinueExec operator status =
     (if operator = ''&&'' then status = 0
      else if operator = ''||'' then status \<noteq> 0
      else operator = ''&'')"

section \<open>Builtins and programs\<close>

definition emit_ev :: "event list \<Rightarrow> sh_state \<Rightarrow> sh_state" where
  "emit_ev es st = st\<lparr>trace := trace st @ es\<rparr>"

definition AliasPrintAll :: "sh_env \<Rightarrow> sh_state \<Rightarrow> sh_state" where
  "AliasPrintAll E st = (case e_profile E of None \<Rightarrow> emit_ev [Print ''alias error''] st | Some cs \<Rightarrow> emit_ev [Print cs] st)"

fun alias_loop :: "sh_env \<Rightarrow> string option list \<Rightarrow> bool \<Rightarrow> sh_state \<Rightarrow> sh_state exec" where
  "alias_loop E [] printed st = Inl OutOfBounds"
| "alias_loop E (None # as) printed st = Inr st"
| "alias_loop E (Some a # as) printed st =
     (if a = ''-p'' \<and> \<not> printed then alias_loop E as True (AliasPrintAll E st) else alias_loop E as printed st)"

definition Alias :: "sh_env \<Rightarrow> string option list \<Rightarrow> sh_state \<Rightarrow> sh_state exec" where
  "Alias E args st =
     sbind (rd args 1) (\<lambda>a. if a = None then Inr (AliasPrintAll E st) else alias_loop E (drop 1 args) False st)"

datatype builtin = BUILTIN_NO_EXEC | BUILTIN_EXEC

definition Builtin :: "sh_env \<Rightarrow> string option \<Rightarrow> string option list \<Rightarrow> sh_state \<Rightarrow> (builtin \<times> sh_state) exec" where
  "Builtin E command args st =
     (if command = None then Inr (BUILTIN_NO_EXEC, st)
      else if command = Some ''alias'' then sbind (Alias E args st) (\<lambda>st. Inr (BUILTIN_EXEC, st))
      else if command = Some ''exit'' then Inl ExitCalled
      else Inr (BUILTIN_NO_EXEC, st))"

text \<open>
  The vector that \<open>Execvp\<close> builds in fresh memory of \<open>MAX_ARGS\<close> words. A null command is stored as a null pointer.
\<close>

fun copy_args :: "string option list \<Rightarrow> nat \<Rightarrow> string option list \<Rightarrow> string option list exec" where
  "copy_args [] i v = Inl OutOfBounds"
| "copy_args (None # as) i v = Inr v"
| "copy_args (Some a # as) i v = sbind (wr v i (Some a)) (copy_args as (i + 1))"

definition exec_vector :: "string option list \<Rightarrow> string option \<Rightarrow> string option list \<Rightarrow> string option list exec" where
  "exec_vector fresh command args = sbind (wr fresh 0 command) (copy_args args 1)"

text \<open>
  \<open>execvp\<close> reads the vector up to a null pointer, which nothing has stored: past the array this is undefined, as
  is a null file name.
\<close>

fun read_argv :: "string option list \<Rightarrow> string list exec" where
  "read_argv [] = Inl OutOfBounds"
| "read_argv (None # v) = Inr []"
| "read_argv (Some a # v) = sbind (read_argv v) (\<lambda>as. Inr (a # as))"

definition Execvp :: "sh_env \<Rightarrow> nat \<Rightarrow> string option \<Rightarrow> string option list \<Rightarrow> child" where
  "Execvp E k command args =
     (case sbind (exec_vector (e_fresh E k) command args) read_argv of
        Inl f \<Rightarrow> Faults f
      | Inr argv \<Rightarrow> (case command of
            None \<Rightarrow> Faults OutOfBounds
          | Some c \<Rightarrow> if e_exec E c argv then Runs c argv else Second_Shell))"

text \<open>
  The loop around \<open>wait\<close>: every child is reaped, background children included, and the status that is
  kept is that of the last one.
\<close>

function wait_all :: "sh_env \<Rightarrow> sh_state \<Rightarrow> sh_state" where
  "wait_all E st =
     (if children st = [] then st
      else let i = e_pick E (waits st) mod length (children st); pid = children st ! i;
               st = st\<lparr>children := take i (children st) @ drop (i + 1) (children st), waits := waits st + 1\<rparr> in
        wait_all E (case e_status E pid of
            W_exited n \<Rightarrow> emit_ev [Reaped pid True] (st\<lparr>exit_status := n\<rparr>)
          | W_signaled \<Rightarrow> emit_ev [Reaped pid False] (st\<lparr>exit_status := 2\<rparr>)))"
  by pat_completeness auto
termination
proof (relation "measure (\<lambda>(E, st). length (children st))", goal_cases)
  case (2 E st i pid st')
  have "i < length (children st)" unfolding 2(2) using 2(1) by (intro mod_less_divisor) simp
  then have "length (children st') < length (children st)" unfolding 2(4) by simp
  then show ?case by (simp add: emit_ev_def split: wstatus.split)
qed simp

declare wait_all.simps [simp del]

text \<open>
  A child for which \<open>execvp\<close> fails prints an error and leaves \<open>ExecProgram\<close> like its parent: it has no children to
  wait for, returns the uninitialised status and goes on in the loop of \<open>main\<close>, on its copy of the input.
\<close>

definition second_shell :: "sh_env \<Rightarrow> sh_state \<Rightarrow> sh_proc" where
  "second_shell E st =
     \<lparr>sh_stdin = sh_stdin st, sh_token = sh_token st, exit_status = e_junk E (forks st), child_pid = 0, children = [],
      forks = forks st + 1, waits = waits st, trace = [Print ''error executing command'']\<rparr>"

text \<open>
  The variable that holds the status is uninitialised until a child is reaped.
\<close>

definition ExecProgram :: "sh_env \<Rightarrow> string option \<Rightarrow> string option list \<Rightarrow> bool \<Rightarrow> sh_state \<Rightarrow> sh_state" where
  "ExecProgram E command args is_background st =
     (let pid = e_fork E (forks st);
          child = Execvp E (forks st) command args;
          strays' = (if pid > 0 \<and> child = Second_Shell then strays st @ [second_shell E st] else strays st);
          st = st\<lparr>forks := forks st + 1, child_pid := pid, exit_status := e_junk E (forks st), strays := strays'\<rparr>;
          st = (if pid > 0 then emit_ev [Started child is_background] (st\<lparr>children := children st @ [pid]\<rparr>)
                else emit_ev [Print ''fork error''] st)
      in if \<not> is_background then wait_all E st else st)"

definition SigintHandler :: "sh_state \<Rightarrow> sh_state" where
  "SigintHandler st =
     (if child_pid st > 0
      then emit_ev [Print ''SIGINT caught - terminating child'', Killed (child_pid st)] (st\<lparr>child_pid := 0\<rparr>) else st)"

section \<open>The main loop\<close>

text \<open>\<open>fgets\<close>: up to a newline, at most \<open>MAX_INPUT - 1\<close> characters, and no line at the end of the input.\<close>

definition sh_fgets :: "string \<Rightarrow> string option \<times> string" where
  "sh_fgets cs =
     (if cs = [] then (None, [])
      else let l = takeWhile (\<lambda>c. c \<noteq> CHR 0x0A) cs;
               n = min (MAX_INPUT - 1) (if length l < length cs then length l + 1 else length l)
           in (Some (take n cs), drop n cs))"

definition next_line :: "sh_state \<Rightarrow> string option \<times> sh_state" where
  "next_line st =
     (case (s_next (sh_token st), tk_operator (sh_token st)) of
        (Some s, Some op) \<Rightarrow>
          if ContinueExec op (exit_status st) then (Some s, st)
          else let (l, cs) = sh_fgets (sh_stdin st) in (l, emit_ev [Prompt] (st\<lparr>sh_stdin := cs\<rparr>))
      | _ \<Rightarrow> let (l, cs) = sh_fgets (sh_stdin st) in (l, emit_ev [Prompt] (st\<lparr>sh_stdin := cs\<rparr>)))"

text \<open>One round of the loop; comparing a null operator is a fault.\<close>

definition sh_round :: "sh_env \<Rightarrow> sh_state \<Rightarrow> sh_state exec" where
  "sh_round E st =
     (let (s, st) = next_line st in
      sbind (ParseArgs s) (\<lambda>token.
      let st = st\<lparr>sh_token := token\<rparr> in
      sbind (Builtin E (tk_command token) (tk_args token) st) (\<lambda>(b, st).
      if b = BUILTIN_EXEC then Inr st
      else case tk_operator token of
        None \<Rightarrow> Inl OutOfBounds
      | Some op \<Rightarrow> Inr (ExecProgram E (tk_command token) (tk_args token) (op = ''&'') st))))"

section \<open>Every round uses up input\<close>

definition sh_left :: "sh_state \<Rightarrow> nat" where
  "sh_left st = length (sh_stdin st) + (case s_next (sh_token st) of None \<Rightarrow> 0 | Some s \<Rightarrow> length s)"

lemma emit_ev_simps [simp]:
  "sh_stdin (emit_ev es st) = sh_stdin st" "sh_token (emit_ev es st) = sh_token st" "exit_status (emit_ev es st) = exit_status st"
  "children (emit_ev es st) = children st" "strays (emit_ev es st) = strays st" "trace (emit_ev es st) = trace st @ es" "forks (emit_ev es st) = forks st"
  by (simp_all add: emit_ev_def)

lemma wait_all_frame [simp]: "sh_stdin (wait_all E st) = sh_stdin st \<and> sh_token (wait_all E st) = sh_token st \<and> forks (wait_all E st) = forks st \<and> strays (wait_all E st) = strays st"
proof (induction E st rule: wait_all.induct)
  case (1 E st)
  show ?case
  proof (cases "children st = []")
    case False
    then show ?thesis using "1.IH" [OF False refl refl refl] by (subst (1 2 3 4) wait_all.simps) (simp add: Let_def split: wstatus.splits)
  qed (simp add: wait_all.simps)
qed

lemma AliasPrintAll_frame [simp]: "sh_stdin (AliasPrintAll E st) = sh_stdin st" "sh_token (AliasPrintAll E st) = sh_token st"
  by (simp_all add: AliasPrintAll_def split: option.split)

lemma alias_loop_frame: "alias_loop E as p st = Inr st' \<Longrightarrow> sh_stdin st' = sh_stdin st \<and> sh_token st' = sh_token st"
  by (induction E as p st rule: alias_loop.induct) (auto split: if_splits)

lemma Builtin_frame:
  assumes "Builtin E c as st = Inr (b, st')"
  shows "sh_stdin st' = sh_stdin st" "sh_token st' = sh_token st" "b = BUILTIN_EXEC \<longleftrightarrow> c = Some ''alias''"
  using assms alias_loop_frame by (auto simp: Builtin_def Alias_def sbind_Inr_iff split: if_splits)

lemma ExecProgram_frame [simp]: "sh_stdin (ExecProgram E c as bg st) = sh_stdin st" "sh_token (ExecProgram E c as bg st) = sh_token st"
  by (simp_all add: ExecProgram_def Let_def)

lemma parse_words_Nil [simp]: "parse_words token i [] = Inr (token, i, [])"
  by (simp add: parse_words.simps)

lemma parse_words_shorter:
  assumes "parse_words token i s = Inr (token', i', s')"
  shows "s = [] \<Longrightarrow> (token', i', s') = (token, i, s)"
    and "s \<noteq> [] \<Longrightarrow> \<exists>op. tk_operator token' = Some op \<and> length s' - length op < length s"
proof -
  show "s = [] \<Longrightarrow> (token', i', s') = (token, i, s)" using assms by simp
  show "s \<noteq> [] \<Longrightarrow> \<exists>op. tk_operator token' = Some op \<and> length s' - length op < length s"
    using assms
  proof (induction token i s rule: parse_words.induct)
    case (1 token i s)
    let ?t = "token\<lparr>tk_operator := Some (GetOperator s)\<rparr>"
    let ?r = "dropWhile is_blank (dropWhile (\<lambda>c. \<not> is_blank c) s)"
    have r: "length ?r < length s" using "1.prems"(1) by (rule blank_rest_shorter)
    have step: "\<exists>op. tk_operator token' = Some op \<and> length s' - length op < length s"
      if "parse_words t j ?r = Inr (token', i', s')" "tk_operator t = Some []"
        "?r \<noteq> [] \<Longrightarrow> \<exists>op. tk_operator token' = Some op \<and> length s' - length op < length ?r" for t j
    proof (cases "?r = []")
      case True
      then have "token' = t" "s' = []" using that(1) by (simp_all only: True parse_words_Nil) simp_all
      then show ?thesis using that(2) "1.prems"(1) by simp
    qed (use that(3) r in fastforce)
    consider "GetOperator s \<noteq> []" | "GetOperator s = []" "tk_command token = None" | "GetOperator s = []" "tk_command token \<noteq> None" by blast
    then show ?case
    proof cases
      case 1
      then have "token' = ?t" "s' = s" using "1.prems" by (auto simp: parse_words.simps [of token] Let_def)
      then show ?thesis using 1 "1.prems"(1) by simp
    next
      case 2
      then show ?thesis using "1.prems" "1.IH"(1) [OF "1.prems"(1) refl _ refl refl]
        by (intro step [of "?t\<lparr>tk_command := Some (takeWhile (\<lambda>c. \<not> is_blank c) s)\<rparr>" i]) (simp_all add: parse_words.simps [of token] Let_def)
    next
      case 3
      then obtain as where as: "wr (tk_args token) i (Some (takeWhile (\<lambda>c. \<not> is_blank c) s)) = Inr as"
        "parse_words (?t\<lparr>tk_args := as\<rparr>) (i + 1) ?r = Inr (token', i', s')"
        using "1.prems" by (auto simp: parse_words.simps [of token] Let_def sbind_Inr_iff)
      then show ?thesis using 3 "1.prems" "1.IH"(2) [OF "1.prems"(1) refl _ refl refl]
        by (intro step [OF as(2)]) simp_all
    qed
  qed
qed

lemma ParseArgs_shorter:
  assumes "ParseArgs l = Inr token" "tk_operator token \<noteq> None \<or> tk_command token \<noteq> None"
  obtains s op s' where "l = Some s" "tk_operator token = Some op" "s_next token = Some s'" "length s' < length s"
proof -
  obtain s where s: "l = Some s" using assms by (cases l) (auto simp: ParseArgs_def null_token_def)
  let ?d = "dropWhile (\<lambda>c. c = CHR '' '') s"
  obtain t i r where p: "parse_words null_token 0 ?d = Inr (t, i, r)"
    "sbind (wr (tk_args t) i None) (\<lambda>as. Inr ((case tk_operator t of None \<Rightarrow> t | Some op \<Rightarrow> t\<lparr>s_next := Some (drop (length op) r)\<rparr>)\<lparr>tk_args := as\<rparr>)) = Inr token"
    using assms(1) s by (auto simp: ParseArgs_def sbind_Inr_iff Let_def split: option.splits)
  have "?d \<noteq> []"
  proof
    assume d: "?d = []"
    have "t = null_token" using p(1) unfolding d by simp
    then show False using p(2) assms(2) by (auto simp: null_token_def sbind_Inr_iff)
  qed
  then obtain op where op: "tk_operator t = Some op" "length r - length op < length ?d" using parse_words_shorter(2) [OF p(1)] by blast
  have "tk_operator token = Some op" "s_next token = Some (drop (length op) r)" using p(2) op(1) by (auto simp: sbind_Inr_iff)
  moreover have "length (drop (length op) r) < length s" using op(2) length_dropWhile_le [of "\<lambda>c. c = CHR '' ''" s] by simp
  ultimately show ?thesis using that [of s op "drop (length op) r"] s by blast
qed

lemma sh_fgets_left: "sh_fgets cs = (Some l, cs') \<Longrightarrow> length cs' + length l = length cs"
  by (auto simp: sh_fgets_def Let_def split: if_splits)

lemma next_line_left: "next_line st = (Some l, st') \<Longrightarrow> length (sh_stdin st') + length l \<le> sh_left st"
  using sh_fgets_left [of "sh_stdin st"]
  by (auto simp: next_line_def sh_left_def split: option.splits if_splits prod.splits)

lemma sh_round_left:
  assumes "sh_round E st = Inr st'"
  shows "sh_left st' < sh_left st"
proof -
  obtain l st1 where l: "next_line st = (l, st1)" by fastforce
  obtain token where t: "ParseArgs l = Inr token" using assms l by (auto simp: sh_round_def sbind_Inr_iff)
  obtain b st2 where b: "Builtin E (tk_command token) (tk_args token) (st1\<lparr>sh_token := token\<rparr>) = Inr (b, st2)"
    using assms l t by (auto simp: sh_round_def sbind_Inr_iff Let_def)
  note fb = Builtin_frame [OF b]
  have st': "sh_stdin st' = sh_stdin st1" "sh_token st' = token" "tk_operator token \<noteq> None \<or> tk_command token \<noteq> None"
    using assms l t b fb by (auto simp: sh_round_def Let_def split: if_splits option.splits)
  obtain s op s' where "l = Some s" "s_next token = Some s'" "length s' < length s"
    using ParseArgs_shorter [OF t st'(3)] by metis
  then show ?thesis using next_line_left [of st s st1] l st' by (simp add: sh_left_def)
qed

text \<open>The loop of \<open>main\<close>: it ends when a round does not return, by \<open>exit\<close> or by a fault, and leaves its
  trace and the second shells.\<close>

function shell_main :: "sh_env \<Rightarrow> sh_state \<Rightarrow> c_fault \<times> event list \<times> sh_proc list" where
  "shell_main E st = (case sh_round E st of Inl f \<Rightarrow> (f, trace st, strays st) | Inr st' \<Rightarrow> shell_main E st')"
  by pat_completeness auto
termination by (relation "measure (\<lambda>(E, st). sh_left st)") (simp_all add: sh_round_left)

declare shell_main.simps [simp del]

definition csi_start :: "string \<Rightarrow> sh_state" where
  "csi_start cs = \<lparr>sh_stdin = cs, sh_token = null_token, exit_status = 1, child_pid = 0, children = [], forks = 0, waits = 0, trace = [], strays = []\<rparr>"

section \<open>Lists of commands\<close>

text \<open>
  A list of commands as a user writes it, with an operator after every command but the last, and what
  should be run of it: from left to right, as long as the operator allows the next command.
\<close>

definition word_ok :: "string \<Rightarrow> bool" where
  "word_ok w \<longleftrightarrow> w \<noteq> [] \<and> (\<forall>c \<in> set w. \<not> is_blank c) \<and> w \<notin> {''&&'', ''||'', ''&'', ''|''}"

definition command_ok :: "string list \<Rightarrow> bool" where
  "command_ok ws \<longleftrightarrow> ws \<noteq> [] \<and> length ws \<le> MAX_ARGS \<and> list_all word_ok ws \<and> hd ws \<notin> {''alias'', ''exit''}"

fun join_words :: "string list \<Rightarrow> string" where
  "join_words [] = []"
| "join_words [w] = w"
| "join_words (w # ws) = w @ CHR '' '' # join_words ws"

fun list_line :: "(string list \<times> string) list \<Rightarrow> string list \<Rightarrow> string" where
  "list_line [] ws = join_words ws @ [CHR 0x0A]"
| "list_line ((ws', op) # cs) ws = join_words ws' @ CHR '' '' # op @ CHR '' '' # list_line cs ws"

definition arg_list :: "string list \<Rightarrow> string option list" where
  "arg_list as = map Some as @ replicate (MAX_ARGS - length as) None"

definition goes_on :: "string \<Rightarrow> wstatus \<Rightarrow> bool" where
  "goes_on op w \<longleftrightarrow> op = ''&&'' \<and> w = W_exited 0 \<or> op = ''||'' \<and> w \<noteq> W_exited 0"

text \<open>
  What the program of a command receives: its words and then the pointers that the fresh memory happens to hold up to
  the first null one; with none left the call is undefined.
\<close>

definition received :: "string option list \<Rightarrow> string list \<Rightarrow> child" where
  "received fresh ws =
     (let junk = drop (length ws) fresh in
      if None \<in> set junk then Runs (hd ws) (ws @ map the (takeWhile (\<lambda>p. p \<noteq> None) junk)) else Faults OutOfBounds)"

definition run_events :: "sh_env \<Rightarrow> nat \<Rightarrow> string list \<Rightarrow> event list" where
  "run_events E k ws =
     [Started (received (e_fresh E k) ws) False, Reaped (e_fork E k) (e_status E (e_fork E k) \<noteq> W_signaled)]"

fun list_events :: "sh_env \<Rightarrow> nat \<Rightarrow> (string list \<times> string) list \<Rightarrow> string list \<Rightarrow> event list" where
  "list_events E k [] ws = run_events E k ws"
| "list_events E k ((ws', op) # cs) ws =
     run_events E k ws' @ (if goes_on op (e_status E (e_fork E k)) then list_events E (k + 1) cs ws else [])"

lemma word_not_operator:
  assumes "word_ok w" "is_blank c"
  shows "GetOperator (w @ c # r) = []"
proof -
  obtain a as where w: "w = a # as" "\<not> is_blank a" using assms(1) by (cases w) (auto simp: word_ok_def)
  show ?thesis
  proof (cases as)
    case Nil
    then show ?thesis using assms w by (auto simp: GetOperator_def word_ok_def is_blank_def)
  next
    case (Cons b bs)
    then show ?thesis using assms w by (cases bs) (auto simp: GetOperator_def word_ok_def is_blank_def)
  qed
qed

lemma operator_found: "op \<in> {''&&'', ''||'', ''|'', ''&''} \<Longrightarrow> GetOperator (op @ CHR '' '' # r) = op"
  by (auto simp: GetOperator_def)

lemma cut_word:
  assumes "word_ok w" "is_blank c"
  shows "takeWhile (\<lambda>c. \<not> is_blank c) (w @ c # r) = w" "dropWhile (\<lambda>c. \<not> is_blank c) (w @ c # r) = c # r"
  using assms by (auto simp: word_ok_def takeWhile_append dropWhile_append)

lemma wr_arg_list: "length us < MAX_ARGS \<Longrightarrow> wr (arg_list us) (length us) (Some w) = Inr (arg_list (us @ [w]))"
  by (auto simp: wr_def arg_list_def list_update_append Suc_diff_Suc [symmetric])

lemma wr_arg_end: "length us < MAX_ARGS \<Longrightarrow> wr (arg_list us) (length us) None = Inr (arg_list us)"
  by (auto simp: wr_def arg_list_def list_update_append Suc_diff_Suc [symmetric])

text \<open>One word of a line that goes on with a blank.\<close>

lemma parse_first_word:
  assumes "word_ok w" "is_blank c" "tk_command t = None"
  shows "parse_words t i (w @ c # r) = parse_words (t\<lparr>tk_operator := Some [], tk_command := Some w\<rparr>) i (dropWhile is_blank r)"
  using assms word_not_operator [OF assms(1,2), of r] cut_word [OF assms(1,2), of r] by (subst parse_words.simps) (simp add: Let_def)

lemma parse_next_word:
  assumes "word_ok w" "is_blank c" "tk_command t \<noteq> None" "tk_args t = arg_list us" "length us < MAX_ARGS"
  shows "parse_words t (length us) (w @ c # r) =
    parse_words (t\<lparr>tk_operator := Some [], tk_args := arg_list (us @ [w])\<rparr>) (length (us @ [w])) (dropWhile is_blank r)"
  using assms word_not_operator [OF assms(1,2), of r] cut_word [OF assms(1,2), of r] wr_arg_list [OF assms(5), of w]
  by (subst parse_words.simps) (auto simp: Let_def)

lemma join_start: "word_ok w \<Longrightarrow> dropWhile is_blank (join_words (w # ws) @ r) = join_words (w # ws) @ r"
  by (cases w; cases ws) (auto simp: word_ok_def)

lemma parse_arg_words:
  assumes "list_all word_ok ws" "ws \<noteq> []" "is_blank c" "tk_command t \<noteq> None" "tk_args t = arg_list us" "length us + length ws \<le> MAX_ARGS"
  shows "parse_words t (length us) (join_words ws @ c # r) =
    parse_words (t\<lparr>tk_operator := Some [], tk_args := arg_list (us @ ws)\<rparr>) (length (us @ ws)) (dropWhile is_blank r)"
  using assms
proof (induction ws arbitrary: us t rule: join_words.induct)
  case (2 w)
  then show ?case using parse_next_word [of w c t us r] by simp
next
  case (3 w v vs)
  let ?t = "t\<lparr>tk_operator := Some [], tk_args := arg_list (us @ [w])\<rparr>"
  have "parse_words t (length us) (join_words (w # v # vs) @ c # r) = parse_words ?t (length (us @ [w])) (join_words (v # vs) @ c # r)"
    using "3.prems" parse_next_word [of w "CHR '' ''" t us "join_words (v # vs) @ c # r"] join_start [of v vs "c # r"]
    by (simp add: is_blank_def)
  also have "\<dots> = parse_words (?t\<lparr>tk_operator := Some [], tk_args := arg_list ((us @ [w]) @ v # vs)\<rparr>) (length ((us @ [w]) @ v # vs)) (dropWhile is_blank r)"
    by (rule "3.IH") (use "3.prems" in simp_all)
  finally show ?case by simp
qed simp

definition cmd_token :: "string list \<Rightarrow> string \<Rightarrow> string \<Rightarrow> Token" where
  "cmd_token ws op rest = \<lparr>tk_command = Some (hd ws), tk_args = arg_list (tl ws), tk_operator = Some op, s_next = Some rest\<rparr>"

lemma parse_command_words:
  assumes "command_ok ws" "is_blank c"
  shows "parse_words null_token 0 (join_words ws @ c # r) =
    parse_words (null_token\<lparr>tk_command := Some (hd ws), tk_operator := Some [], tk_args := arg_list (tl ws)\<rparr>) (length (tl ws)) (dropWhile is_blank r)"
proof -
  obtain w vs where ws: "ws = w # vs" "word_ok w" "list_all word_ok vs" "length vs < MAX_ARGS" using assms(1) by (cases ws) (auto simp: command_ok_def)
  have n: "tk_command null_token = None" "tk_args null_token = arg_list []" by (simp_all add: null_token_def arg_list_def)
  let ?t = "null_token\<lparr>tk_operator := Some [], tk_command := Some w\<rparr>"
  show ?thesis
  proof (cases vs)
    case Nil
    then show ?thesis using ws parse_first_word [OF ws(2) assms(2) n(1), of 0 r] n(2) by (simp add: null_token_def)
  next
    case (Cons v us)
    have "parse_words null_token 0 (join_words ws @ c # r) = parse_words ?t (length ([] :: string list)) (join_words vs @ c # r)"
      using ws Cons parse_first_word [of w "CHR '' ''" null_token 0 "join_words vs @ c # r"] join_start [of v us "c # r"] n by (simp add: is_blank_def)
    also have "\<dots> = parse_words (?t\<lparr>tk_operator := Some [], tk_args := arg_list ([] @ vs)\<rparr>) (length ([] @ vs)) (dropWhile is_blank r)"
      by (rule parse_arg_words) (use ws Cons assms(2) n in simp_all)
    finally show ?thesis using ws by simp
  qed
qed

lemma ParseArgs_command:
  assumes "command_ok ws" "list_all (\<lambda>c. c = CHR '' '') sp"
  shows "ParseArgs (Some (sp @ join_words ws @ [CHR 0x0A])) = Inr (cmd_token ws [] [])"
    and "op \<in> {''&&'', ''||'', ''|'', ''&''} \<Longrightarrow>
      ParseArgs (Some (sp @ join_words ws @ CHR '' '' # op @ CHR '' '' # r)) = Inr (cmd_token ws op (CHR '' '' # r))"
proof -
  have d: "dropWhile (\<lambda>c. c = CHR '' '') (sp @ join_words ws @ r') = join_words ws @ r'" for r'
  proof -
    obtain w vs where "ws = w # vs" "word_ok w" using assms(1) by (cases ws) (auto simp: command_ok_def)
    then have "\<exists>a as. join_words ws @ r' = a # as \<and> \<not> is_blank a" by (cases w; cases vs) (auto simp: word_ok_def)
    then obtain a as where "join_words ws @ r' = a # as" "a \<noteq> CHR '' ''" by (auto simp: is_blank_def)
    moreover have "dropWhile (\<lambda>c. c = CHR '' '') (sp @ ys) = dropWhile (\<lambda>c. c = CHR '' '') ys" for ys
      using assms(2) by (intro dropWhile_append2) (simp add: list_all_iff)
    ultimately show ?thesis by simp
  qed
  have len: "length (tl ws) < MAX_ARGS" using assms(1) by (auto simp: command_ok_def MAX_ARGS_def)
  show "ParseArgs (Some (sp @ join_words ws @ [CHR 0x0A])) = Inr (cmd_token ws [] [])"
    using parse_command_words [OF assms(1), of "CHR 0x0A" "[]"] wr_arg_end [OF len]
    by (simp add: ParseArgs_def d is_blank_def cmd_token_def null_token_def)
  assume op: "op \<in> {''&&'', ''||'', ''|'', ''&''}"
  let ?s = "op @ CHR '' '' # r"
  have "dropWhile is_blank ?s = ?s" "?s \<noteq> []" using op by (auto simp: is_blank_def)
  moreover have "parse_words t i ?s = Inr (t\<lparr>tk_operator := Some op\<rparr>, i, ?s)" for t i
    using op operator_found [OF op, of r] by (subst parse_words.simps) (auto simp: Let_def)
  ultimately show "ParseArgs (Some (sp @ join_words ws @ CHR '' '' # ?s)) = Inr (cmd_token ws op (CHR '' '' # r))"
    using parse_command_words [OF assms(1), of "CHR '' ''" ?s] wr_arg_end [OF len]
    by (simp add: ParseArgs_def d is_blank_def cmd_token_def null_token_def)
qed

section \<open>Running a list\<close>

definition at_prompt :: "sh_state \<Rightarrow> bool" where
  "at_prompt st \<longleftrightarrow> children st = [] \<and>
     (s_next (sh_token st) = None \<or> (\<exists>op. tk_operator (sh_token st) = Some op \<and> \<not> ContinueExec op (exit_status st)))"

definition status_code :: "wstatus \<Rightarrow> int" where
  "status_code w = (case w of W_exited n \<Rightarrow> n | W_signaled \<Rightarrow> 2)"

lemma ContinueExec_goes_on: "op \<in> {''&&'', ''||'', ''|''} \<Longrightarrow> ContinueExec op (status_code w) \<longleftrightarrow> goes_on op w"
  by (auto simp: ContinueExec_def goes_on_def status_code_def split: wstatus.splits)

lemma wait_none: "children st = [] \<Longrightarrow> wait_all E st = st"
  by (simp add: wait_all.simps)

lemma wait_step: "children st \<noteq> [] \<Longrightarrow> wait_all E st =
    (let i = e_pick E (waits st) mod length (children st); pid = children st ! i in
     wait_all E (emit_ev [Reaped pid (e_status E pid \<noteq> W_signaled)] (st\<lparr>children := take i (children st) @ drop (i + 1) (children st),
       waits := waits st + 1, exit_status := status_code (e_status E pid)\<rparr>)))"
  by (simp add: wait_all.simps [of E st] Let_def status_code_def split: wstatus.split)

lemma wait_single:
  assumes "children st = [pid]"
  shows "\<exists>st'. wait_all E st = st' \<and> children st' = [] \<and> exit_status st' = status_code (e_status E pid) \<and>
    trace st' = trace st @ [Reaped pid (e_status E pid \<noteq> W_signaled)] \<and> sh_stdin st' = sh_stdin st \<and> sh_token st' = sh_token st \<and> forks st' = forks st"
  using assms by (simp add: wait_step wait_none)

lemma copy_args_words:
  "i + length as \<le> length v \<Longrightarrow> copy_args (map Some as @ None # r) i v = Inr (take i v @ map Some as @ drop (i + length as) v)"
proof (induction as arbitrary: i v)
  case (Cons a as)
  have "take (i + 1) (v[i := Some a]) = take i v @ [Some a]" "drop (i + 1 + length as) (v[i := Some a]) = drop (i + 1 + length as) v"
    using Cons.prems by (simp_all add: take_Suc_conv_app_nth)
  then show ?case using Cons.IH [of "i + 1" "v[i := Some a]"] Cons.prems by (simp add: wr_def)
qed simp

lemma read_argv_words: "read_argv (map Some as @ v) =
    (if None \<in> set v then Inr (as @ map the (takeWhile (\<lambda>p. p \<noteq> None) v)) else Inl OutOfBounds)"
proof (induction as)
  case Nil
  show ?case by (induction v rule: read_argv.induct) auto
qed simp

lemma Execvp_received:
  assumes "command_ok ws" "length (e_fresh E k) = MAX_ARGS" "\<forall>c v. e_exec E c v"
  shows "Execvp E k (Some (hd ws)) (arg_list (tl ws)) = received (e_fresh E k) ws"
proof -
  obtain w vs where ws: "ws = w # vs" "length vs < MAX_ARGS" using assms(1) by (cases ws) (auto simp: command_ok_def)
  obtain f fs where f: "e_fresh E k = f # fs" using assms(2) by (cases "e_fresh E k") (auto simp: MAX_ARGS_def)
  have "arg_list vs = map Some vs @ None # replicate (MAX_ARGS - length vs - 1) None"
    using ws(2) by (simp add: arg_list_def Suc_diff_Suc flip: replicate_Suc)
  then have "exec_vector (e_fresh E k) (Some w) (arg_list vs) = Inr (map Some ws @ drop (length ws) (e_fresh E k))"
    using copy_args_words [of 1 vs "Some w # fs"] ws assms(2) f by (simp add: exec_vector_def wr_def)
  then show ?thesis using ws(1) assms(3) read_argv_words [of ws "drop (length ws) (e_fresh E k)"]
    by (simp add: Execvp_def received_def Let_def)
qed

lemma ExecProgram_foreground:
  assumes "children st = []" "e_fork E (forks st) > 0" "Execvp E (forks st) c as \<noteq> Second_Shell"
  shows "\<exists>st'. ExecProgram E c as False st = st' \<and> children st' = [] \<and> exit_status st' = status_code (e_status E (e_fork E (forks st))) \<and>
    trace st' = trace st @ [Started (Execvp E (forks st) c as) False, Reaped (e_fork E (forks st)) (e_status E (e_fork E (forks st)) \<noteq> W_signaled)] \<and>
    sh_stdin st' = sh_stdin st \<and> sh_token st' = sh_token st \<and> forks st' = forks st + 1 \<and> strays st' = strays st"
  using assms wait_single [of "emit_ev [Started (Execvp E (forks st) c as) False] (st\<lparr>forks := forks st + 1, child_pid := e_fork E (forks st),
     exit_status := e_junk E (forks st), children := [e_fork E (forks st)]\<rparr>)" "e_fork E (forks st)" E]
  by (simp add: ExecProgram_def Let_def)

lemma round_command:
  assumes "next_line st = (Some l, st1)" "ParseArgs (Some l) = Inr (cmd_token ws op r)" "command_ok ws" "op \<noteq> ''&''"
    "children st1 = []" "e_fork E (forks st1) > 0" "length (e_fresh E (forks st1)) = MAX_ARGS" "\<forall>c v. e_exec E c v"
  shows "\<exists>st'. sh_round E st = Inr st' \<and> children st' = [] \<and> exit_status st' = status_code (e_status E (e_fork E (forks st1))) \<and>
    trace st' = trace st1 @ run_events E (forks st1) ws \<and> sh_stdin st' = sh_stdin st1 \<and> sh_token st' = cmd_token ws op r \<and>
    forks st' = forks st1 + 1 \<and> strays st' = strays st1"
proof -
  let ?st = "st1\<lparr>sh_token := cmd_token ws op r\<rparr>"
  have x: "Execvp E (forks ?st) (Some (hd ws)) (arg_list (tl ws)) = received (e_fresh E (forks st1)) ws"
    using Execvp_received [OF assms(3,7,8)] by simp
  have "received (e_fresh E (forks st1)) ws \<noteq> Second_Shell" by (simp add: received_def Let_def)
  then show ?thesis
    using assms x ExecProgram_foreground [of ?st E "Some (hd ws)" "arg_list (tl ws)"]
    by (auto simp: sh_round_def Builtin_def cmd_token_def command_ok_def run_events_def)
qed

lemma shell_main_step: "sh_round E st = Inr st' \<Longrightarrow> shell_main E st = shell_main E st'"
  by (simp add: shell_main.simps [of E st])

text \<open>The environment in which lists run: forks and allocations succeed, and every program is found.\<close>

definition sys_ok :: "sh_env \<Rightarrow> bool" where
  "sys_ok E \<longleftrightarrow> (\<forall>k. e_fork E k > 0 \<and> length (e_fresh E k) = MAX_ARGS) \<and> (\<forall>c v. e_exec E c v)"

lemma run_list:
  assumes "next_line st = (Some (sp @ list_line cs ws), st1)" "list_all (\<lambda>c. c = CHR '' '') sp" "children st1 = []"
    "list_all (\<lambda>(ws, op). command_ok ws \<and> op \<in> {''&&'', ''||'', ''|''}) cs" "command_ok ws" "sys_ok E"
  shows "\<exists>st'. shell_main E st = shell_main E st' \<and> at_prompt st' \<and> sh_stdin st' = sh_stdin st1 \<and> strays st' = strays st1 \<and>
    trace st' = trace st1 @ list_events E (forks st1) cs ws"
  using assms
proof (induction cs arbitrary: st sp st1)
  case Nil
  then have "ParseArgs (Some (sp @ list_line [] ws)) = Inr (cmd_token ws [] [])" using ParseArgs_command(1) by simp
  from round_command [OF Nil.prems(1) this, of E] Nil.prems sys_ok_def [of E] obtain st' where r: "sh_round E st = Inr st'" "children st' = []"
    "trace st' = trace st1 @ run_events E (forks st1) ws" "sh_stdin st' = sh_stdin st1" "sh_token st' = cmd_token ws [] []" "strays st' = strays st1" by auto
  then have "at_prompt st'" by (simp add: at_prompt_def cmd_token_def ContinueExec_def)
  then show ?case using r shell_main_step [OF r(1)] by auto
next
  case (Cons c cs)
  obtain vs op where c: "c = (vs, op)" "command_ok vs" "op \<in> {''&&'', ''||'', ''|''}" using Cons.prems(4) by (cases c) auto
  let ?r = "CHR '' '' # list_line cs ws"
  have "ParseArgs (Some (sp @ list_line (c # cs) ws)) = Inr (cmd_token vs op ?r)"
    using c ParseArgs_command(2) [OF c(2) Cons.prems(2), of op "list_line cs ws"] by auto
  from round_command [OF Cons.prems(1) this c(2), of E] Cons.prems c(3) sys_ok_def [of E]
  obtain st' where r: "sh_round E st = Inr st'" "children st' = []" "exit_status st' = status_code (e_status E (e_fork E (forks st1)))"
    "trace st' = trace st1 @ run_events E (forks st1) vs" "sh_stdin st' = sh_stdin st1" "sh_token st' = cmd_token vs op ?r" "forks st' = forks st1 + 1"
    "strays st' = strays st1" by auto
  show ?case
  proof (cases "goes_on op (e_status E (e_fork E (forks st1)))")
    case True
    then have "next_line st' = (Some ([CHR '' ''] @ list_line cs ws), st')"
      using r c(3) by (simp add: next_line_def cmd_token_def ContinueExec_goes_on)
    from Cons.IH [OF this] Cons.prems r(2) obtain st'' where "shell_main E st' = shell_main E st''" "at_prompt st''" "sh_stdin st'' = sh_stdin st'"
      "strays st'' = strays st'"
      "trace st'' = trace st' @ list_events E (forks st') cs ws" by auto
    then show ?thesis using r True c shell_main_step [OF r(1)] by auto
  next
    case False
    then have "at_prompt st'" using r c(3) by (simp add: at_prompt_def cmd_token_def ContinueExec_goes_on)
    then show ?thesis using r False c shell_main_step [OF r(1)] by auto
  qed
qed

lemma join_no_newline: "list_all word_ok ws \<Longrightarrow> CHR 0x0A \<notin> set (join_words ws)"
  by (induction ws rule: join_words.induct) (auto simp: word_ok_def is_blank_def)

lemma list_line_end:
  assumes "command_ok ws" "list_all (\<lambda>(ws, op). command_ok ws \<and> op \<in> {''&&'', ''||'', ''|''}) cs"
  shows "\<exists>l. list_line cs ws = l @ [CHR 0x0A] \<and> CHR 0x0A \<notin> set l"
  using assms(2)
proof (induction cs)
  case Nil
  then show ?case using join_no_newline [of ws] assms(1) by (auto simp: command_ok_def)
next
  case (Cons c cs)
  obtain vs op where c: "c = (vs, op)" "command_ok vs" "op \<in> {''&&'', ''||'', ''|''}" using Cons.prems by (cases c) auto
  obtain l where l: "list_line cs ws = l @ [CHR 0x0A]" "CHR 0x0A \<notin> set l" using Cons by auto
  have "CHR 0x0A \<notin> set (join_words vs)" using join_no_newline [of vs] c(2) by (simp add: command_ok_def)
  moreover have "CHR 0x0A \<notin> set op" using c(3) by auto
  ultimately show ?case using l c(1) by (intro exI [of _ "join_words vs @ CHR '' '' # op @ CHR '' '' # l"]) simp
qed

lemma fgets_line:
  assumes "CHR 0x0A \<notin> set l" "length l + 1 < MAX_INPUT"
  shows "sh_fgets (l @ CHR 0x0A # later) = (Some (l @ [CHR 0x0A]), later)"
proof -
  have "min (MAX_INPUT - 1) (Suc (length l)) = Suc (length l)" using assms(2) by simp
  moreover have "takeWhile (\<lambda>c. c \<noteq> CHR 0x0A) (l @ CHR 0x0A # later) = l" using assms(1) by (subst takeWhile_append2) auto
  ultimately show ?thesis by (simp add: sh_fgets_def Let_def)
qed

lemma prompt_reads_list:
  assumes "at_prompt st" "sh_stdin st = list_line cs ws @ later" "length (list_line cs ws) < MAX_INPUT"
    "list_all (\<lambda>(ws, op). command_ok ws \<and> op \<in> {''&&'', ''||'', ''|''}) cs" "command_ok ws"
  shows "next_line st = (Some (list_line cs ws), emit_ev [Prompt] (st\<lparr>sh_stdin := later\<rparr>))"
proof -
  obtain l where l: "list_line cs ws = l @ [CHR 0x0A]" "CHR 0x0A \<notin> set l"
    using list_line_end [OF assms(5,4)] by blast
  then have "sh_fgets (sh_stdin st) = (Some (list_line cs ws), later)" using assms(2,3) fgets_line [of l later] by simp
  then show ?thesis using assms(1) by (auto simp: next_line_def at_prompt_def split: option.split)
qed

lemma end_of_input: "at_prompt st \<Longrightarrow> sh_stdin st = [] \<Longrightarrow> shell_main E st = (OutOfBounds, trace st, strays st)"
  by (subst shell_main.simps)
    (auto simp: sh_round_def next_line_def at_prompt_def sh_fgets_def ParseArgs_def Builtin_def null_token_def split: option.splits)

lemma received_words:
  assumes "length fresh = MAX_ARGS" "vs \<noteq> []"
  shows "(received fresh vs = Runs (hd vs) vs \<longleftrightarrow> length vs < MAX_ARGS \<and> fresh ! length vs = None) \<and>
    (length vs = MAX_ARGS \<longrightarrow> received fresh vs = Faults OutOfBounds)"
proof (cases "length vs < MAX_ARGS")
  case True
  then have "drop (length vs) fresh = fresh ! length vs # drop (Suc (length vs)) fresh" using assms(1) by (simp add: Cons_nth_drop_Suc)
  then show ?thesis using True by (auto simp: received_def Let_def)
qed (use assms in \<open>simp add: received_def Let_def\<close>)

section \<open>The properties\<close>

text \<open>
  C32. The shell of the course runs a list of commands from left to right: after each command it goes on over \<^verbatim>\<open>&&\<close> when the
  command exited with status zero and over \<^verbatim>\<open>||\<close> when it did not, and otherwise (also at a \<^verbatim>\<open>|\<close>) drops the rest of the line and
  prompts again; every program is reaped before the next one starts. This is for programs that \<open>execvp\<close> finds, with forks and
  allocations that succeed. The vector given to \<open>execvp\<close> is not terminated, so a program receives the words of its command
  followed by the strings the fresh memory happens to point to, up to a null pointer: exactly its words when the memory after
  them starts with one, and a read past the array when there is none, as always after three arguments. When the input ends the
  shell does not exit but follows a null pointer.
\<close>

theorem shell_runs_lists:
  assumes "list_all (\<lambda>(ws, op). command_ok ws \<and> op \<in> {''&&'', ''||'', ''|''}) cs" "command_ok ws"
    "length (list_line cs ws) < MAX_INPUT" "sys_ok E"
  shows "(\<forall>st later. at_prompt st \<longrightarrow> sh_stdin st = list_line cs ws @ later \<longrightarrow>
      (\<exists>st'. shell_main E st = shell_main E st' \<and> at_prompt st' \<and> sh_stdin st' = later \<and> strays st' = strays st \<and>
         trace st' = trace st @ Prompt # list_events E (forks st) cs ws)) \<and>
    shell_main E (csi_start (list_line cs ws)) = (OutOfBounds, Prompt # list_events E 0 cs ws, []) \<and>
    (\<forall>k vs. vs \<noteq> [] \<longrightarrow>
      (received (e_fresh E k) vs = Runs (hd vs) vs \<longleftrightarrow> length vs < MAX_ARGS \<and> e_fresh E k ! length vs = None) \<and>
      (length vs = MAX_ARGS \<longrightarrow> received (e_fresh E k) vs = Faults OutOfBounds))"
proof (intro conjI)
  have run: "\<exists>st'. shell_main E st = shell_main E st' \<and> at_prompt st' \<and> sh_stdin st' = later \<and> strays st' = strays st \<and>
      trace st' = trace st @ Prompt # list_events E (forks st) cs ws"
    if st: "at_prompt st" "sh_stdin st = list_line cs ws @ later" for st later
    using run_list [of st "[]" cs ws _ E] prompt_reads_list [OF st assms(3,1,2)] assms st(1) by (auto simp: at_prompt_def)
  then show "\<forall>st later. at_prompt st \<longrightarrow> sh_stdin st = list_line cs ws @ later \<longrightarrow>
      (\<exists>st'. shell_main E st = shell_main E st' \<and> at_prompt st' \<and> sh_stdin st' = later \<and> strays st' = strays st \<and>
         trace st' = trace st @ Prompt # list_events E (forks st) cs ws)" by blast
  have "at_prompt (csi_start (list_line cs ws))" by (simp add: at_prompt_def csi_start_def null_token_def)
  from run [OF this, of "[]"] obtain st' where "shell_main E (csi_start (list_line cs ws)) = shell_main E st'" "at_prompt st'"
    "sh_stdin st' = []" "trace st' = Prompt # list_events E 0 cs ws" "strays st' = []" by (auto simp: csi_start_def)
  then show "shell_main E (csi_start (list_line cs ws)) = (OutOfBounds, Prompt # list_events E 0 cs ws, [])"
    using end_of_input [of st'] by simp
  have "length (e_fresh E k) = MAX_ARGS" for k using assms(4) by (simp add: sys_ok_def)
  then show "\<forall>k vs. vs \<noteq> [] \<longrightarrow>
      (received (e_fresh E k) vs = Runs (hd vs) vs \<longleftrightarrow> length vs < MAX_ARGS \<and> e_fresh E k ! length vs = None) \<and>
      (length vs = MAX_ARGS \<longrightarrow> received (e_fresh E k) vs = Faults OutOfBounds)"
    using received_words by blast
qed

text \<open>Fresh memory whose third word still points to a string of an earlier use.\<close>

definition csi_sample_env :: sh_env where
  "csi_sample_env = \<lparr>e_fork = (\<lambda>k. 100 + int k), e_exec = (\<lambda>c v. True), e_status = (\<lambda>pid. W_exited (if pid = 101 then 1 else 0)),
     e_pick = (\<lambda>k. k), e_junk = (\<lambda>k. 7), e_fresh = (\<lambda>k. [None, None, Some ''old'', None]), e_profile = None\<rparr>"

theorem shell_runs_lists_witness:
  "shell_main csi_sample_env (csi_start (''make && ./t -v && ps || ls'' @ [CHR 0x0A])) =
    (OutOfBounds, [Prompt, Started (Runs ''make'' [''make'']) False, Reaped 100 True,
       Started (Runs ''./t'' [''./t'', ''-v'', ''old'']) False, Reaped 101 True], [])"
proof -
  let ?cs = "[([''make''], ''&&''), ([''./t'', ''-v''], ''&&''), ([''ps''], ''||'')]" and ?ws = "[''ls'']"
  have "list_all (\<lambda>(ws, op). command_ok ws \<and> op \<in> {''&&'', ''||'', ''|''}) ?cs" "command_ok ?ws"
    "length (list_line ?cs ?ws) < MAX_INPUT" "sys_ok csi_sample_env"
    by (simp_all add: command_ok_def word_ok_def is_blank_def MAX_ARGS_def MAX_INPUT_def csi_sample_env_def sys_ok_def)
  from shell_runs_lists [OF this] show ?thesis
    by (simp add: run_events_def goes_on_def csi_sample_env_def received_def)
qed

text \<open>
  A fourth argument is written past the array of the token; an operator at the end of a line is taken for an argument, so no
  line puts its last command in the background.
\<close>

lemma fourth_argument_overflows: "shell_main E (csi_start (''ls a b c d'' @ [CHR 0x0A])) = (OutOfBounds, [], [])"
  by (subst shell_main.simps)
    (simp add: csi_start_def sh_round_def next_line_def null_token_def sh_fgets_def MAX_INPUT_def ParseArgs_def parse_words.simps
      GetOperator_def is_blank_def MAX_ARGS_def wr_def)

lemma last_command_not_background: "ParseArgs (Some (''sleep 9 &'' @ [CHR 0x0A])) = Inr (cmd_token [''sleep'', ''9'', ''&''] [] [])"
  by (simp add: null_token_def ParseArgs_def parse_words.simps GetOperator_def is_blank_def MAX_ARGS_def wr_def cmd_token_def arg_list_def numeral_eq_Suc)

text \<open>
  A command that is not found leaves a second shell: it is at a prompt of its own when the command was the last of its line,
  and reads the same input as the first.
\<close>

lemma unknown_command_second_shell:
  assumes "e_fork E (forks st) > 0" "Execvp E (forks st) c as = Second_Shell"
  shows "strays (ExecProgram E c as bg st) = strays st @ [second_shell E st]"
    and "tk_operator (sh_token st) = Some [] \<Longrightarrow> at_prompt (sh_proc.extend (second_shell E st) (sh_state.fields []))"
    and "sh_stdin (second_shell E st) = sh_stdin st"
  using assms by (simp_all add: ExecProgram_def Let_def at_prompt_def second_shell_def sh_proc.defs sh_state.defs ContinueExec_def)

text \<open>The status of a foreground command is lost when a child in the background is reaped after it.\<close>

lemma background_status_wins:
  assumes "children st = [bg]" "e_fork E (forks st) = fg" "fg > 0" "e_pick E (waits st) = 1"
  shows "exit_status (ExecProgram E c as False st) = status_code (e_status E bg)"
  using assms by (simp add: ExecProgram_def Let_def wait_step wait_none emit_ev_def)

end
