(* ===== verification/Sbuf.thy ===== *)
theory Sbuf
  imports Proxy_Lock Loops "HOL-Library.Sublist"
begin

text \<open>
  The bounded shared buffer of the prethreaded servers (\<open>sbuf.c\<close>): a ring of
  \<open>n\<close> slots between two counting semaphores and a mutex. As for the readers-writer
  lock, the operations are given as functions of the buffer, for a thread running
  alone, and as steps of concurrent threads.
\<close>

record sbuf_t =
  buf :: "int list"
  slots_n :: int
  front :: int
  rear :: int
  b_mutex :: nat
  slots :: nat
  items :: nat

definition sbuf_init :: "nat \<Rightarrow> sbuf_t" where
  "sbuf_init n = \<lparr>buf = replicate n 0, slots_n = int n, front = 0, rear = 0, b_mutex = 1, slots = n, items = 0\<rparr>"

text \<open>The two critical sections. A counter past \<open>INT_MAX\<close> and a remainder by zero are faults.\<close>

definition put_item :: "int \<Rightarrow> sbuf_t \<Rightarrow> sbuf_t exec" where
  "put_item item b =
     sbind (iadd (rear b) 1) (\<lambda>r.
     if slots_n b = 0 then Inl OutOfBounds
     else sbind (wri (buf b) (r mod slots_n b) item) (\<lambda>bs. Inr (b\<lparr>rear := r, buf := bs\<rparr>)))"

definition take_item :: "sbuf_t \<Rightarrow> (int \<times> sbuf_t) exec" where
  "take_item b =
     sbind (iadd (front b) 1) (\<lambda>f.
     if slots_n b = 0 then Inl OutOfBounds
     else sbind (rdi (buf b) (f mod slots_n b)) (\<lambda>item. Inr (item, b\<lparr>front := f\<rparr>)))"

definition sbuf_insert :: "int \<Rightarrow> sbuf_t \<Rightarrow> sbuf_t exec" where
  "sbuf_insert item b =
     sbind (sem_P (slots b)) (\<lambda>s.
     sbind (sem_P (b_mutex b)) (\<lambda>m.
     sbind (put_item item (b\<lparr>slots := s, b_mutex := m\<rparr>)) (\<lambda>b.
     Inr (b\<lparr>b_mutex := sem_V (b_mutex b), items := sem_V (items b)\<rparr>))))"

definition sbuf_remove :: "sbuf_t \<Rightarrow> (int \<times> sbuf_t) exec" where
  "sbuf_remove b =
     sbind (sem_P (items b)) (\<lambda>i.
     sbind (sem_P (b_mutex b)) (\<lambda>m.
     sbind (take_item (b\<lparr>items := i, b_mutex := m\<rparr>)) (\<lambda>(item, b).
     Inr (item, b\<lparr>b_mutex := sem_V (b_mutex b), slots := sem_V (slots b)\<rparr>))))"

section \<open>Concurrent threads\<close>

text \<open>
  A thread is at a position, with its variable \<open>item\<close>. A call commits it: a thread at
  \<open>InsWait\<close> has called \<open>sbuf_insert\<close> and stays there until its \<open>P(&slots)\<close> succeeds, one at
  \<open>RemWait\<close> has called \<open>sbuf_remove\<close> and waits in \<open>P(&items)\<close>. The history records the
  items in the order they were stored and in the order they were taken.
\<close>

datatype sb_pc =
    Outside
  | InsWait | InsLock | InsStore | InsUnlock | InsPost
  | RemWait | RemLock | RemTake | RemUnlock | RemPost

record history =
  h_in :: "int list"
  h_out :: "int list"

inductive sb_thread :: "sbuf_t \<times> history \<times> sb_pc \<times> int \<Rightarrow> sbuf_t \<times> history \<times> sb_pc \<times> int \<Rightarrow> bool" where
  ins_call: "sb_thread (b, h, Outside, v) (b, h, InsWait, item)"
| ins_P: "0 < slots b \<Longrightarrow> sb_thread (b, h, InsWait, v) (b\<lparr>slots := slots b - 1\<rparr>, h, InsLock, v)"
| ins_lock: "0 < b_mutex b \<Longrightarrow> sb_thread (b, h, InsLock, v) (b\<lparr>b_mutex := b_mutex b - 1\<rparr>, h, InsStore, v)"
| ins_store: "put_item v b = Inr b' \<Longrightarrow> sb_thread (b, h, InsStore, v) (b', h\<lparr>h_in := h_in h @ [v]\<rparr>, InsUnlock, v)"
| ins_unlock: "sb_thread (b, h, InsUnlock, v) (b\<lparr>b_mutex := b_mutex b + 1\<rparr>, h, InsPost, v)"
| ins_post: "sb_thread (b, h, InsPost, v) (b\<lparr>items := items b + 1\<rparr>, h, Outside, v)"
| rem_call: "sb_thread (b, h, Outside, v) (b, h, RemWait, v)"
| rem_P: "0 < items b \<Longrightarrow> sb_thread (b, h, RemWait, v) (b\<lparr>items := items b - 1\<rparr>, h, RemLock, v)"
| rem_lock: "0 < b_mutex b \<Longrightarrow> sb_thread (b, h, RemLock, v) (b\<lparr>b_mutex := b_mutex b - 1\<rparr>, h, RemTake, v)"
| rem_take: "take_item b = Inr (x, b') \<Longrightarrow> sb_thread (b, h, RemTake, v) (b', h\<lparr>h_out := h_out h @ [x]\<rparr>, RemUnlock, x)"
| rem_unlock: "sb_thread (b, h, RemUnlock, v) (b\<lparr>b_mutex := b_mutex b + 1\<rparr>, h, RemPost, v)"
| rem_post: "sb_thread (b, h, RemPost, v) (b\<lparr>slots := slots b + 1\<rparr>, h, Outside, v)"

inductive_cases sb_threadE: "sb_thread (b, h, p, v) (b', h', p', v')"

inductive sb_step :: "sbuf_t \<times> history \<times> (sb_pc \<times> int) list \<Rightarrow> sbuf_t \<times> history \<times> (sb_pc \<times> int) list \<Rightarrow> bool" where
  "i < length ps \<Longrightarrow> sb_thread (b, h, ps ! i) (b', h', p') \<Longrightarrow> sb_step (b, h, ps) (b', h', ps[i := p'])"

section \<open>The invariant\<close>

text \<open>
  The ring holds the items stored and not yet taken; their number is split over
  the semaphores and the threads on their way.
\<close>

definition ring_ok :: "sbuf_t \<Rightarrow> history \<Rightarrow> bool" where
  "ring_ok b h \<longleftrightarrow> int (length (buf b)) = slots_n b \<and> 0 < slots_n b \<and>
     rear b = int (length (h_in h)) \<and> front b = int (length (h_out h)) \<and>
     h_out h = take (length (h_out h)) (h_in h) \<and> length (h_in h) \<le> length (h_out h) + length (buf b) \<and>
     (\<forall>k. length (h_out h) \<le> k \<and> k < length (h_in h) \<longrightarrow> buf b ! (Suc k mod length (buf b)) = h_in h ! k)"

definition sb_counts :: "sbuf_t \<Rightarrow> nat \<Rightarrow> (sb_pc \<Rightarrow> nat) \<Rightarrow> bool" where
  "sb_counts b live n \<longleftrightarrow>
     b_mutex b + n InsStore + n InsUnlock + n RemTake + n RemUnlock = 1 \<and>
     slots b + n InsLock + n InsStore + live + n RemUnlock + n RemPost = length (buf b) \<and>
     items b + n RemLock + n RemTake + n InsUnlock + n InsPost = live"

abbreviation live :: "history \<Rightarrow> nat" where
  "live h \<equiv> length (h_in h) - length (h_out h)"

definition sb_inv :: "sbuf_t \<times> history \<times> (sb_pc \<times> int) list \<Rightarrow> bool" where
  "sb_inv = (\<lambda>(b, h, ps). ring_ok b h \<and> sb_counts b (live h) (count_list (map fst ps)))"

lemma ring_out_le: "ring_ok b h \<Longrightarrow> length (h_out h) \<le> length (h_in h)"
  unfolding ring_ok_def by (metis length_take min.cobounded1)

text \<open>Two positions of the ring less than \<open>n\<close> apart are different.\<close>

lemma ring_index_neq: "k < m \<Longrightarrow> m < k + n \<Longrightarrow> Suc k mod n \<noteq> Suc m mod n" for k m n :: nat
proof
  assume a: "k < m" "m < k + n" "Suc k mod n = Suc m mod n"
  then have "n dvd Suc m - Suc k" by (metis Suc_leI less_imp_le_nat mod_eq_dvd_iff_nat not_less_eq_eq)
  then show False using a by (auto dest: dvd_imp_le)
qed

lemma put_item_ring:
  assumes ok: "ring_ok b h" and room: "live h < length (buf b)"
  shows "put_item v b = Inr b' \<Longrightarrow> ring_ok b' (h\<lparr>h_in := h_in h @ [v]\<rparr>)"
    and "rear b < INT_MAX \<Longrightarrow> \<exists>b'. put_item v b = Inr b'"
proof -
  let ?n = "length (buf b)" and ?k = "length (h_in h)"
  have b: "int ?n = slots_n b" "0 < ?n" "rear b = int ?k" and le: "length (h_out h) \<le> ?k" "?k < length (h_out h) + ?n"
    using ok room ring_out_le [OF ok] by (auto simp: ring_ok_def)
  have nz: "slots_n b \<noteq> 0" using b(1,2) by linarith
  have idx: "(rear b + 1) mod slots_n b = int (Suc ?k mod ?n)" using b by (simp add: zmod_int add.commute)
  have w: "wri (buf b) (int (Suc ?k mod ?n)) v = Inr ((buf b)[Suc ?k mod ?n := v])" using b(2) by simp
  show "\<exists>b'. put_item v b = Inr b'" if "rear b < INT_MAX"
    using that b w idx nz by (simp add: put_item_def INT_MAX_def)
  assume put: "put_item v b = Inr b'"
  then have b': "b' = b\<lparr>rear := rear b + 1, buf := (buf b)[Suc ?k mod ?n := v]\<rparr>"
    using b w idx by (auto simp: put_item_def iadd_def split: if_splits)
  have "(buf b)[Suc ?k mod ?n := v] ! (Suc k mod ?n) = (h_in h @ [v]) ! k"
    if k: "length (h_out h) \<le> k" "k < Suc ?k" for k
  proof (cases "k = ?k")
    case True
    then show ?thesis using b(2) by simp
  next
    case False
    then have "k < ?k" "Suc k mod ?n \<noteq> Suc ?k mod ?n" using k le ring_index_neq [of k ?k ?n] by auto
    then show ?thesis using ok k(1) by (simp add: ring_ok_def nth_append)
  qed
  moreover have "h_out h = take (length (h_out h)) (h_in h @ [v])" using ok le by (simp add: ring_ok_def)
  moreover have "front b = int (length (h_out h))" "0 < slots_n b" using ok by (simp_all add: ring_ok_def)
  ultimately show "ring_ok b' (h\<lparr>h_in := h_in h @ [v]\<rparr>)"
    using b le unfolding b' by (simp add: ring_ok_def)
qed

lemma take_item_ring:
  assumes ok: "ring_ok b h" and some: "0 < live h"
  shows "take_item b = Inr (x, b') \<Longrightarrow>
      x = h_in h ! length (h_out h) \<and> ring_ok b' (h\<lparr>h_out := h_out h @ [x]\<rparr>) \<and> b' = b\<lparr>front := front b + 1\<rparr>"
    and "front b < INT_MAX \<Longrightarrow> \<exists>x b'. take_item b = Inr (x, b')"
proof -
  let ?n = "length (buf b)" and ?k = "length (h_out h)"
  have b: "int ?n = slots_n b" "0 < ?n" "front b = int ?k" and lt: "?k < length (h_in h)"
    using ok some by (auto simp: ring_ok_def)
  have nz: "slots_n b \<noteq> 0" using b(1,2) by linarith
  have idx: "(front b + 1) mod slots_n b = int (Suc ?k mod ?n)" using b by (simp add: zmod_int add.commute)
  have r: "rdi (buf b) (int (Suc ?k mod ?n)) = Inr (buf b ! (Suc ?k mod ?n))" using b(2) by simp
  show "\<exists>x b'. take_item b = Inr (x, b')" if "front b < INT_MAX"
    using that b r idx nz by (simp add: take_item_def INT_MAX_def)
  assume t: "take_item b = Inr (x, b')"
  then have b': "b' = b\<lparr>front := front b + 1\<rparr>" and x: "x = buf b ! (Suc ?k mod ?n)"
    using b r idx by (auto simp: take_item_def iadd_def split: if_splits)
  have xk: "x = h_in h ! ?k" using ok lt unfolding x ring_ok_def by blast
  have "h_out h @ [x] = take (Suc ?k) (h_in h)"
    using ok lt unfolding xk ring_ok_def by (metis take_Suc_conv_app_nth)
  then show "x = h_in h ! ?k \<and> ring_ok b' (h\<lparr>h_out := h_out h @ [x]\<rparr>) \<and> b' = b\<lparr>front := front b + 1\<rparr>"
    using ok lt b' xk by (auto simp: ring_ok_def)
qed

lemma put_item_frame: "put_item v b = Inr b' \<Longrightarrow> b_mutex b' = b_mutex b \<and> slots b' = slots b \<and> items b' = items b \<and>
    slots_n b' = slots_n b \<and> length (buf b') = length (buf b)"
  by (auto simp: put_item_def wri_def wr_def iadd_def split: if_splits)

abbreviation moved :: "(sb_pc \<Rightarrow> nat) \<Rightarrow> sb_pc \<Rightarrow> sb_pc \<Rightarrow> sb_pc \<Rightarrow> nat" where
  "moved n p p' \<equiv> n(p := n p - 1, p' := (if p' = p then n p else n p' + 1))"

lemma ring_ok_sems: "ring_ok (b\<lparr>slots := s\<rparr>) h = ring_ok b h" "ring_ok (b\<lparr>items := i\<rparr>) h = ring_ok b h"
  "ring_ok (b\<lparr>b_mutex := m\<rparr>) h = ring_ok b h"
  by (simp_all add: ring_ok_def)

lemma sb_counts_pos:
  "sb_counts b l n \<Longrightarrow> 0 < n RemTake \<Longrightarrow> 0 < l" "sb_counts b l n \<Longrightarrow> 0 < n InsStore \<Longrightarrow> l < length (buf b)"
  by (auto simp: sb_counts_def)

lemma sb_counts_step:
  assumes "sb_thread (b, h, p, v) (b', h', p', v')" "ring_ok b h" "sb_counts b (live h) n" "0 < n p"
  shows "ring_ok b' h' \<and> sb_counts b' (live h') (moved n p p')"
  using assms(1)
proof (cases rule: sb_thread.cases)
  case ins_store
  have room: "live h < length (buf b)" using sb_counts_pos(2) [OF assms(3)] assms(4) ins_store by simp
  have le: "length (h_out h) \<le> length (h_in h)" by (rule ring_out_le [OF assms(2)])
  have put: "put_item v b = Inr b'" using ins_store by simp
  show ?thesis
    using put_item_ring(1) [OF assms(2) room put] put_item_frame [OF put] assms(3,4) ins_store le
    by (auto simp: sb_counts_def Suc_diff_le)
next
  case rem_take
  have some: "0 < live h" using sb_counts_pos(1) [OF assms(3)] assms(4) rem_take by simp
  have t: "take_item b = Inr (v', b')" using rem_take by simp
  from take_item_ring(1) [OF assms(2) some t] assms(3,4) rem_take some
  show ?thesis by (auto simp: sb_counts_def)
qed (use assms(2-4) in \<open>auto simp: ring_ok_sems sb_counts_def\<close>)

lemma sb_step_inv: "sb_step s s' \<Longrightarrow> sb_inv s \<Longrightarrow> sb_inv s'"
proof (induction rule: sb_step.induct)
  case (1 i ps b h b' h' p')
  let ?n = "count_list (map fst ps)" and ?p = "fst (ps ! i)"
  have i: "i < length (map fst ps)" using 1(1) by simp
  have "count_list (map fst (ps[i := p'])) = moved ?n ?p (fst p')"
  proof
    fix x
    show "count_list (map fst (ps[i := p'])) x = moved ?n ?p (fst p') x"
      using count_list_update [OF i, of "fst p'" x] 1(1) by (auto simp: map_update split: if_splits)
  qed
  moreover have "0 < ?n ?p" using count_list_nth [OF i] 1(1) by simp
  ultimately show ?case
    using sb_counts_step [of b h ?p "snd (ps ! i)" b' h' "fst p'" "snd p'" ?n] 1(2,3) by (simp add: sb_inv_def)
qed

definition sb_start :: "nat \<Rightarrow> nat \<Rightarrow> sbuf_t \<times> history \<times> (sb_pc \<times> int) list" where
  "sb_start n t = (sbuf_init n, \<lparr>h_in = [], h_out = []\<rparr>, replicate t (Outside, 0))"

lemma sb_reach_inv: "sb_step\<^sup>*\<^sup>* (sb_start n t) s \<Longrightarrow> 0 < n \<Longrightarrow> sb_inv s"
proof (induction rule: rtranclp_induct)
  case base
  have "count_list (replicate t Outside) x = (if x = Outside then t else 0)" for x by (induction t) auto
  then show ?case using base by (simp add: sb_inv_def sb_start_def ring_ok_def sb_counts_def sbuf_init_def)
qed (rule sb_step_inv)

lemma sb_reach_size:
  "sb_step\<^sup>*\<^sup>* (sb_start n t) s \<Longrightarrow> length (buf (fst s)) = n \<and> length (snd (snd s)) = t"
proof (induction rule: rtranclp_induct)
  case (step s s')
  from step(2) obtain i ps b h b' h' p' where s: "s = (b, h, ps)" "s' = (b', h', ps[i := p'])"
    and t: "sb_thread (b, h, ps ! i) (b', h', p')" by (auto elim: sb_step.cases)
  have "length (buf b') = length (buf b)"
    using t by (cases rule: sb_thread.cases)
      (auto dest: put_item_frame simp: take_item_def iadd_def rdi_def rd_def split: if_splits)
  then show ?case using step(3) s by simp
qed (simp add: sb_start_def sbuf_init_def)

text \<open>
  When nothing moves any more: the threads that are inside a call all wait in the same
  first \<open>P\<close>, the inserting ones for a slot of a full buffer or the removing ones for an
  item of an empty one.
\<close>

definition all_at :: "(sb_pc \<times> int) list \<Rightarrow> sb_pc \<Rightarrow> bool" where
  "all_at ps p \<longleftrightarrow> list_all (\<lambda>q. fst q = Outside \<or> fst q = p) ps"

definition sb_waits :: "sbuf_t \<times> history \<times> (sb_pc \<times> int) list \<Rightarrow> bool" where
  "sb_waits = (\<lambda>(b, h, ps). all_at ps Outside \<or>
     all_at ps InsWait \<and> length (h_in h) = length (h_out h) + length (buf b) \<or>
     all_at ps RemWait \<and> h_in h = h_out h)"

lemma all_at_count: "all_at ps p \<Longrightarrow> q \<noteq> Outside \<Longrightarrow> q \<noteq> p \<Longrightarrow> count_list (map fst ps) q = 0"
  by (induction ps) (auto simp: all_at_def)

lemma not_all_at: "\<not> all_at ps p \<Longrightarrow> \<exists>q. q \<noteq> Outside \<and> q \<noteq> p \<and> 0 < count_list (map fst ps) q"
  by (induction ps) (auto simp: all_at_def split: if_splits)

lemma ring_live_0: "ring_ok b h \<Longrightarrow> live h = 0 \<longleftrightarrow> h_in h = h_out h"
  unfolding ring_ok_def by (metis diff_is_0_eq diff_self_eq_0 le_refl take_all)

lemma sb_waits_stuck:
  assumes inv: "sb_inv (b, h, ps)" and w: "sb_waits (b, h, ps)" and p: "(p, v) \<in> set ps" "p \<noteq> Outside"
  shows "\<not> sb_thread (b, h, p, v) q"
proof -
  let ?n = "count_list (map fst ps)"
  have ring: "ring_ok b h" and c: "sb_counts b (live h) ?n" using inv by (simp_all add: sb_inv_def)
  from w p consider "p = InsWait" "all_at ps InsWait" "live h = length (buf b)"
    | "p = RemWait" "all_at ps RemWait" "live h = 0"
    by (fastforce simp: sb_waits_def all_at_def list_all_iff ring_live_0 [OF ring])
  then show ?thesis
  proof cases
    case 1
    then have "slots b = 0" using c all_at_count [OF 1(2)] by (simp add: sb_counts_def)
    then show ?thesis using 1(1) by (auto elim: sb_thread.cases)
  next
    case 2
    then have "items b = 0" using c by (simp add: sb_counts_def)
    then show ?thesis using 2(1) by (auto elim: sb_thread.cases)
  qed
qed

text \<open>A thread past its first \<open>P\<close> is never held up for good: the holder of the mutex moves.\<close>

lemma sb_admitted_progress:
  assumes inv: "sb_inv (b, h, ps)" and ov: "rear b < INT_MAX"
    and p: "0 < count_list (map fst ps) p" "p \<notin> {Outside, InsWait, RemWait}"
  shows "\<exists>p. 0 < count_list (map fst ps) p \<and> p \<noteq> Outside \<and> (\<forall>v. \<exists>q. sb_thread (b, h, p, v) q)"
proof -
  let ?n = "count_list (map fst ps)"
  have ring: "ring_ok b h" and c: "sb_counts b (live h) ?n" using inv by (simp_all add: sb_inv_def)
  have fr: "front b < INT_MAX" using ring ring_out_le [OF ring] ov by (simp add: ring_ok_def)
  have st: "\<exists>q. sb_thread (b, h, InsStore, v) q" if "0 < ?n InsStore" for v
    using put_item_ring(2) [OF ring sb_counts_pos(2) [OF c that] ov] by (blast intro: ins_store)
  have tk: "\<exists>q. sb_thread (b, h, RemTake, v) q" if "0 < ?n RemTake" for v
    using take_item_ring(2) [OF ring sb_counts_pos(1) [OF c that] fr] by (blast intro: rem_take)
  have un: "\<exists>q. sb_thread (b, h, InsUnlock, v) q" "\<exists>q. sb_thread (b, h, RemUnlock, v) q"
    "\<exists>q. sb_thread (b, h, InsPost, v) q" "\<exists>q. sb_thread (b, h, RemPost, v) q" for v
    by (blast intro: sb_thread.intros)+
  show ?thesis
  proof (cases "b_mutex b = 0")
    case True
    then have "0 < ?n InsStore \<or> 0 < ?n InsUnlock \<or> 0 < ?n RemTake \<or> 0 < ?n RemUnlock"
      using c by (auto simp: sb_counts_def)
    then show ?thesis using st tk un by blast
  next
    case False
    then have "\<exists>q. sb_thread (b, h, InsLock, v) q" "\<exists>q. sb_thread (b, h, RemLock, v) q" for v
      by (blast intro: ins_lock rem_lock)+
    then have "\<exists>q. sb_thread (b, h, p, v) q" for v using p st tk un by (cases p) simp_all
    then show ?thesis using p by blast
  qed
qed

lemma sb_waits_or_moves:
  assumes inv: "sb_inv (b, h, ps)" and ov: "rear b < INT_MAX" and w: "\<not> sb_waits (b, h, ps)"
  shows "\<exists>p \<in> set ps. fst p \<noteq> Outside \<and> (\<exists>q. sb_thread (b, h, p) q)"
proof -
  let ?n = "count_list (map fst ps)"
  have ring: "ring_ok b h" and c: "sb_counts b (live h) ?n" using inv by (simp_all add: sb_inv_def)
  have "\<exists>p. 0 < ?n p \<and> p \<noteq> Outside \<and> (\<forall>v. \<exists>q. sb_thread (b, h, p, v) q)"
  proof (cases "\<exists>p. 0 < ?n p \<and> p \<notin> {Outside, InsWait, RemWait}")
    case True
    then show ?thesis using sb_admitted_progress [OF inv ov] by blast
  next
    case False
    then have only: "?n p = 0" if "p \<noteq> Outside" "p \<noteq> InsWait" "p \<noteq> RemWait" for p using that by auto
    have z: "?n InsLock = 0" "?n InsStore = 0" "?n InsUnlock = 0" "?n InsPost = 0"
      "?n RemLock = 0" "?n RemTake = 0" "?n RemUnlock = 0" "?n RemPost = 0" by (simp_all add: only)
    have sum: "slots b + live h = length (buf b)" "items b = live h" using c z by (simp_all add: sb_counts_def)
    have pos: "0 < length (buf b)" using ring by (auto simp: ring_ok_def)
    have full_iff: "slots b = 0 \<longleftrightarrow> length (h_in h) = length (h_out h) + length (buf b)"
      using sum(1) ring_out_le [OF ring] by linarith
    have w': "\<not> all_at ps Outside" "slots b = 0 \<Longrightarrow> \<not> all_at ps InsWait" "items b = 0 \<Longrightarrow> \<not> all_at ps RemWait"
      using w sum(2) full_iff ring_live_0 [OF ring] by (simp_all add: sb_waits_def)
    have ins: "0 < ?n InsWait \<or> 0 < ?n RemWait" using not_all_at [OF w'(1)] only by (metis neq0_conv)
    have full: "slots b = 0 \<Longrightarrow> 0 < ?n RemWait" and empty: "items b = 0 \<Longrightarrow> 0 < ?n InsWait"
      using not_all_at [OF w'(2)] not_all_at [OF w'(3)] only by (metis neq0_conv)+
    have "0 < ?n InsWait \<and> 0 < slots b \<or> 0 < ?n RemWait \<and> 0 < items b"
      using ins full empty sum pos by linarith
    then show ?thesis by (blast intro: ins_P rem_P)
  qed
  then obtain p where p: "0 < ?n p" "p \<noteq> Outside" "\<forall>v. \<exists>q. sb_thread (b, h, p, v) q" by blast
  have "p \<in> set (map fst ps)" using p(1) count_list_0_iff [of "map fst ps" p] by auto
  then show ?thesis using p(2,3) by fastforce
qed

text \<open>
  C37. The shared buffer under any interleaving of any number of threads, each calling
  \<open>sbuf_insert\<close> and \<open>sbuf_remove\<close> in any order: items come out in the order they went in, at
  most \<open>n\<close> are inside, at most one thread is in a critical section, and as long as the
  counter of insertions has not reached \<open>INT_MAX\<close> some thread inside a call can move,
  except exactly when no thread is inside a call, or the buffer is full and all threads
  inside wait in \<open>P(&slots)\<close>, or it is empty and all threads inside wait in \<open>P(&items)\<close>.
\<close>

theorem sbuf_concurrent_fifo:
  assumes "0 < n" "sb_step\<^sup>*\<^sup>* (sb_start n t) (b, h, ps)"
  shows "prefix (h_out h) (h_in h) \<and> length (h_in h) \<le> length (h_out h) + n \<and>
    count_list (map fst ps) InsStore + count_list (map fst ps) RemTake \<le> 1 \<and>
    (int (length (h_in h)) < INT_MAX \<longrightarrow>
      ((\<exists>p \<in> set ps. fst p \<noteq> Outside \<and> (\<exists>q. sb_thread (b, h, p) q)) \<longleftrightarrow>
       \<not> (all_at ps Outside \<or>
          all_at ps InsWait \<and> length (h_in h) = length (h_out h) + n \<or>
          all_at ps RemWait \<and> h_in h = h_out h)))"
proof -
  have inv: "sb_inv (b, h, ps)" by (rule sb_reach_inv [OF assms(2,1)])
  have sz: "length (buf b) = n" "length ps = t" using sb_reach_size [OF assms(2)] by simp_all
  have ring: "ring_ok b h" and c: "sb_counts b (live h) (count_list (map fst ps))" using inv by (simp_all add: sb_inv_def)
  have "prefix (h_out h) (h_in h)" using ring unfolding ring_ok_def by (metis take_is_prefix)
  moreover have le: "length (h_in h) \<le> length (h_out h) + n" and rear: "rear b = int (length (h_in h))"
    using ring sz by (simp_all add: ring_ok_def)
  moreover have "count_list (map fst ps) InsStore + count_list (map fst ps) RemTake \<le> 1" using c by (simp add: sb_counts_def)
  moreover have "(\<exists>p \<in> set ps. fst p \<noteq> Outside \<and> (\<exists>q. sb_thread (b, h, p) q)) \<longleftrightarrow> \<not> sb_waits (b, h, ps)"
    if "int (length (h_in h)) < INT_MAX"
    using sb_waits_or_moves [OF inv] sb_waits_stuck [OF inv] that rear by fastforce
  ultimately show ?thesis using sz by (simp add: sb_waits_def)
qed

text \<open>A call that a thread makes while the others stand still takes the steps of the sequential function.\<close>

lemma sb_thread_run:
  assumes "sb_thread\<^sup>*\<^sup>* (b, h, ps ! i) s" "i < length ps"
  shows "sb_step\<^sup>*\<^sup>* (b, h, ps) (fst s, fst (snd s), ps[i := snd (snd s)])"
  using assms(1)
proof (induction rule: rtranclp_induct)
  case (step y z)
  have "sb_step (fst y, fst (snd y), ps[i := snd (snd y)]) (fst z, fst (snd z), ps[i := snd (snd y), i := snd (snd z)])"
    by (rule sb_step.intros) (use step(2) assms(2) in simp_all)
  then show ?case using step.IH by (simp add: rtranclp.rtrancl_into_rtrancl)
qed simp

lemma sb_insert_thread:
  assumes "sbuf_insert v b = Inr b'"
  shows "sb_thread\<^sup>*\<^sup>* (b, h, Outside, u) (b', h\<lparr>h_in := h_in h @ [v]\<rparr>, Outside, v)"
proof -
  let ?b = "b\<lparr>slots := slots b - 1\<rparr>" and ?b2 = "b\<lparr>slots := slots b - 1, b_mutex := b_mutex b - 1\<rparr>"
    and ?h = "h\<lparr>h_in := h_in h @ [v]\<rparr>"
  obtain b1 where b: "0 < slots b" "0 < b_mutex b" "put_item v ?b2 = Inr b1"
    and b': "b' = b1\<lparr>b_mutex := b_mutex b1 + 1, items := items b1 + 1\<rparr>"
    using assms by (auto simp: sbuf_insert_def sem_P_def sem_V_def sbind_Inr_iff split: if_splits)
  have "sb_thread (?b, h, InsLock, v) (?b2, h, InsStore, v)" using ins_lock [of ?b h v] b(2) by simp
  moreover have "sb_thread (b1\<lparr>b_mutex := b_mutex b1 + 1\<rparr>, ?h, InsPost, v) (b', ?h, Outside, v)"
    using ins_post [of "b1\<lparr>b_mutex := b_mutex b1 + 1\<rparr>" ?h v] b' by simp
  ultimately show ?thesis
    using ins_call [of b h u v] ins_P [OF b(1), of h v] ins_store [OF b(3), of h] ins_unlock [of b1 ?h v]
    by (meson converse_rtranclp_into_rtranclp rtranclp.rtrancl_refl)
qed

lemma sb_remove_thread:
  assumes "sbuf_remove b = Inr (x, b')"
  shows "sb_thread\<^sup>*\<^sup>* (b, h, Outside, u) (b', h\<lparr>h_out := h_out h @ [x]\<rparr>, Outside, x)"
proof -
  let ?b = "b\<lparr>items := items b - 1\<rparr>" and ?b2 = "b\<lparr>items := items b - 1, b_mutex := b_mutex b - 1\<rparr>"
    and ?h = "h\<lparr>h_out := h_out h @ [x]\<rparr>"
  obtain b1 where b: "0 < items b" "0 < b_mutex b" "take_item ?b2 = Inr (x, b1)"
    and b': "b' = b1\<lparr>b_mutex := b_mutex b1 + 1, slots := slots b1 + 1\<rparr>"
    using assms by (auto simp: sbuf_remove_def sem_P_def sem_V_def sbind_Inr_iff split: if_splits)
  have "sb_thread (?b, h, RemLock, u) (?b2, h, RemTake, u)" using rem_lock [of ?b h u] b(2) by simp
  moreover have "sb_thread (b1\<lparr>b_mutex := b_mutex b1 + 1\<rparr>, ?h, RemPost, x) (b', ?h, Outside, x)"
    using rem_post [of "b1\<lparr>b_mutex := b_mutex b1 + 1\<rparr>" ?h x] b' by simp
  ultimately show ?thesis
    using rem_call [of b h u] rem_P [OF b(1), of h u] rem_take [OF b(3), of h u] rem_unlock [of b1 ?h x]
    by (meson converse_rtranclp_into_rtranclp rtranclp.rtrancl_refl)
qed

lemma sb_call_run:
  assumes "i < length ps" "fst (ps ! i) = Outside"
  shows "sbuf_insert v b = Inr b' \<Longrightarrow> sb_step\<^sup>*\<^sup>* (b, h, ps) (b', h\<lparr>h_in := h_in h @ [v]\<rparr>, ps[i := (Outside, v)])"
    and "sbuf_remove b = Inr (x, b') \<Longrightarrow> sb_step\<^sup>*\<^sup>* (b, h, ps) (b', h\<lparr>h_out := h_out h @ [x]\<rparr>, ps[i := (Outside, x)])"
proof -
  obtain u where p: "ps ! i = (Outside, u)" using assms(2) by (cases "ps ! i") simp
  show "sb_step\<^sup>*\<^sup>* (b, h, ps) (b', h\<lparr>h_in := h_in h @ [v]\<rparr>, ps[i := (Outside, v)])" if "sbuf_insert v b = Inr b'"
    using sb_thread_run [of b h ps i, OF _ assms(1)] sb_insert_thread [OF that, of h u] p by fastforce
  show "sb_step\<^sup>*\<^sup>* (b, h, ps) (b', h\<lparr>h_out := h_out h @ [x]\<rparr>, ps[i := (Outside, x)])" if "sbuf_remove b = Inr (x, b')"
    using sb_thread_run [of b h ps i, OF _ assms(1)] sb_remove_thread [OF that, of h u] p by fastforce
qed

theorem sbuf_concurrent_fifo_witness:
  "\<exists>b h. sb_step\<^sup>*\<^sup>* (sb_start 2 2) (b, h, [(InsWait, 8), (RemWait, 5)]) \<and> h_in h = [5, 6, 7] \<and> h_out h = [5] \<and>
     prefix (h_out h) (h_in h) \<and> (\<exists>p \<in> {(InsWait, 8), (RemWait, 5)}. \<exists>q. sb_thread (b, h, p) q)"
proof -
  let ?h = "\<lambda>xs ys. \<lparr>h_in = xs, h_out = ys\<rparr>"
  let ?b = "\<lambda>bs f r s. \<lparr>buf = bs, slots_n = 2, front = f, rear = r, b_mutex = 1, slots = s, items = 2 - s\<rparr>"
  have run: "sbuf_insert 5 (sbuf_init 2) = Inr (?b [0, 5] 0 1 1)"
    "sbuf_insert 6 (?b [0, 5] 0 1 1) = Inr (?b [6, 5] 0 2 0)"
    "sbuf_remove (?b [6, 5] 0 2 0) = Inr (5, ?b [6, 5] 1 2 1)"
    "sbuf_insert 7 (?b [6, 5] 1 2 1) = Inr (?b [6, 7] 1 3 0)"
    by code_simp+
  have s1: "sb_step\<^sup>*\<^sup>* (sb_start 2 2) (?b [0, 5] 0 1 1, ?h [5] [], [(Outside, 5), (Outside, 0)])"
    using sb_call_run(1) [OF _ _ run(1), of 0 "[(Outside, 0), (Outside, 0)]" "?h [] []"]
    by (simp add: sb_start_def numeral_2_eq_2)
  have s2: "sb_step\<^sup>*\<^sup>* (?b [0, 5] 0 1 1, ?h [5] [], [(Outside, 5), (Outside, 0)])
      (?b [6, 5] 0 2 0, ?h [5, 6] [], [(Outside, 6), (Outside, 0)])"
    using sb_call_run(1) [OF _ _ run(2), of 0 "[(Outside, 5), (Outside, 0)]" "?h [5] []"] by simp
  have s3: "sb_step\<^sup>*\<^sup>* (?b [6, 5] 0 2 0, ?h [5, 6] [], [(Outside, 6), (Outside, 0)])
      (?b [6, 5] 1 2 1, ?h [5, 6] [5], [(Outside, 6), (Outside, 5)])"
    using sb_call_run(2) [OF _ _ run(3), of 1 "[(Outside, 6), (Outside, 0)]" "?h [5, 6] []"] by simp
  have s4: "sb_step\<^sup>*\<^sup>* (?b [6, 5] 1 2 1, ?h [5, 6] [5], [(Outside, 6), (Outside, 5)])
      (?b [6, 7] 1 3 0, ?h [5, 6, 7] [5], [(Outside, 7), (Outside, 5)])"
    using sb_call_run(1) [OF _ _ run(4), of 0 "[(Outside, 6), (Outside, 5)]" "?h [5, 6] [5]"] by simp
  have s5: "sb_step (?b [6, 7] 1 3 0, ?h [5, 6, 7] [5], [(Outside, 7), (Outside, 5)])
      (?b [6, 7] 1 3 0, ?h [5, 6, 7] [5], [(InsWait, 8), (Outside, 5)])"
    using sb_step.intros [of 0 "[(Outside, 7), (Outside, 5)]" "?b [6, 7] 1 3 0" "?h [5, 6, 7] [5]" "?b [6, 7] 1 3 0" "?h [5, 6, 7] [5]" "(InsWait, 8)"]
    by (simp add: ins_call)
  have s6: "sb_step (?b [6, 7] 1 3 0, ?h [5, 6, 7] [5], [(InsWait, 8), (Outside, 5)])
      (?b [6, 7] 1 3 0, ?h [5, 6, 7] [5], [(InsWait, 8), (RemWait, 5)])"
    using sb_step.intros [of 1 "[(InsWait, 8), (Outside, 5)]" "?b [6, 7] 1 3 0" "?h [5, 6, 7] [5]" "?b [6, 7] 1 3 0" "?h [5, 6, 7] [5]" "(RemWait, 5)"]
    by (simp add: rem_call)
  have r: "sb_step\<^sup>*\<^sup>* (sb_start 2 2) (?b [6, 7] 1 3 0, ?h [5, 6, 7] [5], [(InsWait, 8), (RemWait, 5)])"
    using s1 s2 s3 s4 r_into_rtranclp [of sb_step, OF s5] r_into_rtranclp [of sb_step, OF s6] by (meson rtranclp_trans)
  have "\<exists>p \<in> {(InsWait, 8), (RemWait, 5)}. \<exists>q. sb_thread (?b [6, 7] 1 3 0, ?h [5, 6, 7] [5], p) q"
    using sbuf_concurrent_fifo [OF _ r] by (auto simp: INT_MAX_def all_at_def)
  then show ?thesis using r by (intro exI [of _ "?b [6, 7] 1 3 0"] exI [of _ "?h [5, 6, 7] [5]"]) simp
qed



section \<open>Refinement of a bounded queue\<close>

definition contents :: "sbuf_t \<Rightarrow> int list" where
  "contents b = map (\<lambda>k. buf b ! (Suc k mod length (buf b))) [nat (front b)..<nat (rear b)]"

definition quiet :: "sbuf_t \<Rightarrow> bool" where
  "quiet b \<longleftrightarrow> 0 < slots_n b \<and> int (length (buf b)) = slots_n b \<and> 0 \<le> front b \<and> front b \<le> rear b \<and> b_mutex b = 1 \<and>
     int (items b) = rear b - front b \<and> int (slots b) = slots_n b - int (items b)"

text \<open>The abstract queue: \<open>enq\<close> refuses a full queue, \<open>deq\<close> an empty one.\<close>

definition enq :: "int \<Rightarrow> int \<Rightarrow> int list \<Rightarrow> int list option" where
  "enq n v q = (if int (length q) < n then Some (q @ [v]) else None)"

definition deq :: "int list \<Rightarrow> (int \<times> int list) option" where
  "deq q = (case q of [] \<Rightarrow> None | v # vs \<Rightarrow> Some (v, vs))"

lemma contents_length: "quiet b \<Longrightarrow> int (length (contents b)) = int (items b)"
  by (auto simp: quiet_def contents_def of_nat_diff nat_mono)

lemma insert_contents:
  assumes q: "quiet b" and room: "int (length (contents b)) < slots_n b" and ov: "rear b < INT_MAX"
  shows "\<exists>b'. sbuf_insert v b = Inr b' \<and> quiet b' \<and> contents b' = contents b @ [v] \<and> slots_n b' = slots_n b \<and>
    rear b' = rear b + 1 \<and> front b' = front b"
proof -
  let ?n = "length (buf b)" and ?r = "nat (rear b)" and ?f = "nat (front b)"
  have b: "int ?n = slots_n b" "0 < ?n" "0 \<le> front b" "front b \<le> rear b" "b_mutex b = 1" "0 < slots b" "?r < ?f + ?n" "slots_n b \<noteq> 0"
    using q room contents_length [OF q] by (auto simp: quiet_def)
  have idx: "(rear b + 1) mod slots_n b = int (Suc ?r mod ?n)" using b(1,3,4) by (simp add: zmod_int add.commute flip: b(1))
  have w: "wri (buf b) (int (Suc ?r mod ?n)) v = Inr ((buf b)[Suc ?r mod ?n := v])" using b(2) by simp
  let ?b = "b\<lparr>slots := slots b - 1, b_mutex := 1, rear := rear b + 1, buf := (buf b)[Suc ?r mod ?n := v], items := items b + 1\<rparr>"
  have run: "sbuf_insert v b = Inr ?b"
    using b ov w idx by (simp add: sbuf_insert_def sem_P_def sem_V_def put_item_def INT_MAX_def)
  have other: "(buf b)[Suc ?r mod ?n := v] ! (Suc k mod ?n) = buf b ! (Suc k mod ?n)" if "?f \<le> k" "k < ?r" for k
    using that b(7) ring_index_neq [of k ?r ?n] by simp
  have "[?f..<nat (rear b + 1)] = [?f..<?r] @ [?r]" using b(3,4) by (simp add: nat_add_distrib)
  then have "contents ?b = contents b @ [v]" using other b(2) by (simp add: contents_def)
  moreover have "quiet ?b" using q b(6) by (auto simp: quiet_def)
  ultimately show ?thesis using run by simp
qed

lemma remove_contents:
  assumes q: "quiet b" and some: "contents b = x # xs" and ov: "front b < INT_MAX"
  shows "\<exists>b'. sbuf_remove b = Inr (x, b') \<and> quiet b' \<and> contents b' = xs \<and> slots_n b' = slots_n b \<and> rear b' = rear b"
proof -
  let ?n = "length (buf b)" and ?r = "nat (rear b)" and ?f = "nat (front b)"
  have it: "0 < items b" using contents_length [OF q] some by simp
  have b: "int ?n = slots_n b" "0 < ?n" "0 \<le> front b" "front b < rear b" "b_mutex b = 1" "slots_n b \<noteq> 0"
    using q it by (auto simp: quiet_def)
  have idx: "(front b + 1) mod slots_n b = int (Suc ?f mod ?n)" using b(1,3,4) by (simp add: zmod_int add.commute flip: b(1))
  have w: "rdi (buf b) (int (Suc ?f mod ?n)) = Inr (buf b ! (Suc ?f mod ?n))" using b(2) by simp
  have up: "[?f..<?r] = ?f # [Suc ?f..<?r]" using b(3,4) by (simp add: upt_conv_Cons)
  then have x: "x = buf b ! (Suc ?f mod ?n)" and xs: "xs = map (\<lambda>k. buf b ! (Suc k mod ?n)) [Suc ?f..<?r]"
    using some by (simp_all add: contents_def)
  let ?b = "b\<lparr>items := items b - 1, b_mutex := 1, front := front b + 1, slots := slots b + 1\<rparr>"
  have "sbuf_remove b = Inr (x, ?b)"
    using b it ov w idx x by (simp add: sbuf_remove_def sem_P_def sem_V_def take_item_def INT_MAX_def)
  moreover have "nat (front b + 1) = Suc ?f" using b(3) by simp
  then have "contents ?b = xs" by (simp add: contents_def xs)
  moreover have "quiet ?b" using q it b(4) by (auto simp: quiet_def)
  ultimately show ?thesis by simp
qed

text \<open>
  Between calls the buffer is a queue of at most \<open>slots_n\<close> items: an insertion appends
  and a removal takes the oldest item; a thread running alone waits for ever exactly
  when the queue is full, or empty.
\<close>

theorem sbuf_refines_queue:
  assumes "quiet b" "rear b < INT_MAX"
  shows "(case enq (slots_n b) v (contents b) of
       None \<Rightarrow> sbuf_insert v b = Inl NoTermination
     | Some q \<Rightarrow> \<exists>b'. sbuf_insert v b = Inr b' \<and> quiet b' \<and> contents b' = q \<and> slots_n b' = slots_n b) \<and>
    (case deq (contents b) of
       None \<Rightarrow> sbuf_remove b = Inl NoTermination
     | Some (x, q) \<Rightarrow> \<exists>b'. sbuf_remove b = Inr (x, b') \<and> quiet b' \<and> contents b' = q \<and> slots_n b' = slots_n b) \<and>
    quiet (sbuf_init (Suc n)) \<and> contents (sbuf_init (Suc n)) = []"
proof (intro conjI)
  have fr: "front b < INT_MAX" using assms by (simp add: quiet_def)
  have full: "sbuf_insert v b = Inl NoTermination" if "\<not> int (length (contents b)) < slots_n b"
    using that contents_length [OF assms(1)] assms(1) by (auto simp: quiet_def sbuf_insert_def sem_P_def)
  show "case enq (slots_n b) v (contents b) of None \<Rightarrow> sbuf_insert v b = Inl NoTermination
     | Some q \<Rightarrow> \<exists>b'. sbuf_insert v b = Inr b' \<and> quiet b' \<and> contents b' = q \<and> slots_n b' = slots_n b"
    using full insert_contents [OF assms(1) _ assms(2)] by (auto simp: enq_def)
  have empty: "sbuf_remove b = Inl NoTermination" if "contents b = []"
    using that contents_length [OF assms(1)] by (simp add: sbuf_remove_def sem_P_def)
  show "case deq (contents b) of None \<Rightarrow> sbuf_remove b = Inl NoTermination
     | Some (x, q) \<Rightarrow> \<exists>b'. sbuf_remove b = Inr (x, b') \<and> quiet b' \<and> contents b' = q \<and> slots_n b' = slots_n b"
    using empty remove_contents [OF assms(1) _ fr] by (auto simp: deq_def split: list.split)
qed (simp_all add: quiet_def contents_def sbuf_init_def)

theorem sbuf_refines_queue_witness:
  "\<exists>b'. sbuf_insert 7 (sbuf_init 3) = Inr b' \<and> contents b' = [7] \<and> sbuf_remove (sbuf_init 3) = Inl NoTermination"
proof -
  have q: "quiet (sbuf_init 3)" "rear (sbuf_init 3) < INT_MAX" "contents (sbuf_init 3) = []" "slots_n (sbuf_init 3) = 3"
    by (simp_all add: quiet_def sbuf_init_def contents_def INT_MAX_def)
  show ?thesis using sbuf_refines_queue [OF q(1,2), of 7 0] unfolding q(3,4) by (auto simp: enq_def deq_def)
qed

section \<open>The contract of a queue\<close>

text \<open>
  What a user of the buffer relies on: while there is space an insertion appends, and
  a removal takes the head of a buffer that is not empty.
\<close>

locale fifo_buffer =
  fixes inv :: "'s \<Rightarrow> bool" and queue :: "'s \<Rightarrow> 'a list" and space :: "'s \<Rightarrow> nat"
    and ins :: "'a \<Rightarrow> 's \<Rightarrow> 's exec" and rem :: "'s \<Rightarrow> ('a \<times> 's) exec"
  assumes ins_law: "inv s \<Longrightarrow> 0 < space s \<Longrightarrow>
      \<exists>s'. ins x s = Inr s' \<and> inv s' \<and> queue s' = queue s @ [x] \<and> space s' = space s - 1"
    and rem_law: "inv s \<Longrightarrow> queue s = x # xs \<Longrightarrow> \<exists>s'. rem s = Inr (x, s') \<and> inv s' \<and> queue s' = xs"
begin

primrec ins_all :: "'a list \<Rightarrow> 's \<Rightarrow> 's exec" where
  "ins_all [] s = Inr s"
| "ins_all (x # xs) s = sbind (ins x s) (ins_all xs)"

primrec rem_all :: "nat \<Rightarrow> 's \<Rightarrow> ('a list \<times> 's) exec" where
  "rem_all 0 s = Inr ([], s)"
| "rem_all (Suc n) s = sbind (rem s) (\<lambda>(x, s). sbind (rem_all n s) (\<lambda>(xs, s). Inr (x # xs, s)))"

lemma ins_all_queue:
  "inv s \<Longrightarrow> length xs \<le> space s \<Longrightarrow> \<exists>s'. ins_all xs s = Inr s' \<and> inv s' \<and> queue s' = queue s @ xs"
proof (induction xs arbitrary: s)
  case (Cons x xs)
  then obtain s1 where "ins x s = Inr s1" "inv s1" "queue s1 = queue s @ [x]" "space s1 = space s - 1"
    using ins_law [of s x] by auto
  then show ?case using Cons.IH [of s1] Cons.prems(2) by auto
qed simp

lemma rem_all_queue: "inv s \<Longrightarrow> \<exists>s'. rem_all (length (queue s)) s = Inr (queue s, s') \<and> inv s' \<and> queue s' = []"
proof (induction "queue s" arbitrary: s)
  case (Cons x xs)
  obtain s1 where "rem s = Inr (x, s1)" "inv s1" "queue s1 = xs" using rem_law [OF Cons.prems Cons.hyps(2) [symmetric]] by blast
  then show ?case using Cons.hyps(1) [of s1] Cons.hyps(2) [symmetric] by auto
qed simp

lemma hand_over:
  assumes "inv s" "queue s = []" "length xs \<le> space s"
  shows "\<exists>s' s''. ins_all xs s = Inr s' \<and> rem_all (length xs) s' = Inr (xs, s'') \<and> queue s'' = []"
  using ins_all_queue [OF assms(1,3)] rem_all_queue assms(2) by (metis append_Nil)

end

lemma insert_space:
  assumes "quiet b" "rear b < INT_MAX" "0 < slots b"
  shows "\<exists>b'. sbuf_insert v b = Inr b' \<and> quiet b' \<and> contents b' = contents b @ [v] \<and> rear b' = rear b + 1 \<and> slots b' = slots b - 1"
proof -
  have "int (length (contents b)) < slots_n b" using contents_length [OF assms(1)] assms(1,3) by (simp add: quiet_def)
  then obtain b' where b': "sbuf_insert v b = Inr b'" "quiet b'" "contents b' = contents b @ [v]" "slots_n b' = slots_n b"
    "rear b' = rear b + 1" "front b' = front b" using insert_contents [OF assms(1) _ assms(2), of v] by blast
  have "slots b' = slots b - 1" using b'(2,4-6) assms(1,3) unfolding quiet_def by linarith
  then show ?thesis using b' by blast
qed

interpretation shared: fifo_buffer "\<lambda>b. quiet b \<and> rear b \<le> INT_MAX" contents "\<lambda>b. min (slots b) (nat (INT_MAX - rear b))" sbuf_insert sbuf_remove
proof
  fix b x assume b: "quiet b \<and> rear b \<le> INT_MAX" "0 < min (slots b) (nat (INT_MAX - rear b))"
  then obtain b' where "sbuf_insert x b = Inr b'" "quiet b'" "contents b' = contents b @ [x]" "rear b' = rear b + 1" "slots b' = slots b - 1"
    using insert_space [of b x] by auto
  then show "\<exists>b'. sbuf_insert x b = Inr b' \<and> (quiet b' \<and> rear b' \<le> INT_MAX) \<and> contents b' = contents b @ [x] \<and>
      min (slots b') (nat (INT_MAX - rear b')) = min (slots b) (nat (INT_MAX - rear b)) - 1"
    using b by (intro exI [of _ b']) auto
next
  fix b x xs assume b: "quiet b \<and> rear b \<le> INT_MAX" "contents b = x # xs"
  then have "front b < INT_MAX" using contents_length [of b] by (auto simp: quiet_def)
  then show "\<exists>b'. sbuf_remove b = Inr (x, b') \<and> (quiet b' \<and> rear b' \<le> INT_MAX) \<and> contents b' = xs"
    using remove_contents [of b x xs] b by auto
qed

text \<open>A batch of items that fits is handed over whole and in order.\<close>

lemma sbuf_hand_over:
  assumes "0 < n" "length xs \<le> n" "int n \<le> INT_MAX"
  shows "\<exists>b b'. shared.ins_all xs (sbuf_init n) = Inr b \<and> shared.rem_all (length xs) b = Inr (xs, b') \<and> contents b' = []"
  by (rule shared.hand_over) (use assms in \<open>simp_all add: sbuf_init_def quiet_def contents_def\<close>)

text \<open>The counters are never reset, so an insertion after \<open>INT_MAX\<close> insertions overflows.\<close>

lemma sbuf_counter_overflow:
  assumes "0 < slots b" "0 < b_mutex b" "rear b = INT_MAX"
  shows "sbuf_insert v b = Inl IntOverflow"
  using assms by (simp add: sbuf_insert_def sem_P_def put_item_def iadd_def INT_MAX_def)
end
