(* ===== verification/Matrix_Mult.thy ===== *)
theory Matrix_Mult
  imports Loops
begin

text \<open>
  The threaded matrix multiplication of the course (\<open>matrix/matrix-multiply.c\<close>). The type of matrix elements and
  its arithmetic are parameters, and nothing is assumed of them: the threads compute every element with
  the same operations in the same order as the sequential function, so not even rounding may differ.
  The shared matrix is a list of rows; the statements of the threads are steps that interleave freely.
\<close>

record 'd arith =
  el_zero :: 'd
  el_add :: "'d \<Rightarrow> 'd \<Rightarrow> 'd"
  el_mul :: "'d \<Rightarrow> 'd \<Rightarrow> 'd"

type_synonym 'd grid = "'d list list"

definition mat_get :: "'d grid \<Rightarrow> int \<Rightarrow> int \<Rightarrow> 'd exec" where
  "mat_get M i j = sbind (rdi M i) (\<lambda>row. rdi row j)"

definition mat_set :: "'d grid \<Rightarrow> int \<Rightarrow> int \<Rightarrow> 'd \<Rightarrow> 'd grid exec" where
  "mat_set M i j v = sbind (rdi M i) (\<lambda>row. sbind (wri row j v) (wri M i))"

text \<open>The two statements on an element: \<open>C[i][j] = 0\<close> and \<open>C[i][j] += A[i][k] * B[k][j]\<close>.\<close>

datatype mstep = Clear int int | Accumulate int int int

fun exec_step :: "'d arith \<Rightarrow> 'd grid \<Rightarrow> 'd grid \<Rightarrow> mstep \<Rightarrow> 'd grid \<Rightarrow> 'd grid exec" where
  "exec_step D A B (Clear i j) C = mat_set C i j (el_zero D)"
| "exec_step D A B (Accumulate i j k) C =
     sbind (mat_get C i j) (\<lambda>c. sbind (mat_get A i k) (\<lambda>a. sbind (mat_get B k j) (\<lambda>b.
     mat_set C i j (el_add D c (el_mul D a b)))))"

definition matrix_multiply :: "'d arith \<Rightarrow> 'd grid \<Rightarrow> 'd grid \<Rightarrow> int \<Rightarrow> int \<Rightarrow> int \<Rightarrow> 'd grid \<Rightarrow> 'd grid exec" where
  "matrix_multiply D A B a_rows a_cols b_cols =
     for_up 1 0 a_rows (\<lambda>i. for_up 1 0 b_cols (\<lambda>j C.
       sbind (exec_step D A B (Clear i j) C) (for_up 1 0 a_cols (\<lambda>k. exec_step D A B (Accumulate i j k)))))"

section \<open>Threads\<close>

definition MAXTHREADS :: nat where "MAXTHREADS = 32"

record matrix_mult =
  mm_a_cols :: int
  mm_b_cols :: int
  a_start_row :: int
  a_end_row :: int

text \<open>The statements of one thread, in program order.\<close>

definition thread_steps :: "matrix_mult \<Rightarrow> mstep list" where
  "thread_steps m =
     concat (map (\<lambda>i. concat (map (\<lambda>j. Clear i j # map (Accumulate i j) [0..mm_a_cols m - 1]) [0..mm_b_cols m - 1]))
       [a_start_row m..a_end_row m - 1])"

fun split_rows :: "nat \<Rightarrow> int \<Rightarrow> int \<Rightarrow> int \<Rightarrow> int \<Rightarrow> matrix_mult list \<times> int" where
  "split_rows 0 row_per_thread a_cols b_cols start_row = ([], start_row)"
| "split_rows (Suc n) row_per_thread a_cols b_cols start_row =
     (let end_row = start_row + row_per_thread;
          (ms, last_row) = split_rows n row_per_thread a_cols b_cols end_row
      in (\<lparr>mm_a_cols = a_cols, mm_b_cols = b_cols, a_start_row = start_row, a_end_row = end_row\<rparr> # ms, last_row))"

text \<open>
  The structures passed to the threads. The one for the leftover rows ends at \<open>a_cols\<close>, and its \<open>b_cols\<close> is
  whatever the fresh memory holds.
\<close>

definition spawned :: "int \<Rightarrow> int \<Rightarrow> int \<Rightarrow> int \<Rightarrow> matrix_mult list" where
  "spawned a_rows a_cols b_cols junk =
     (let (ms, end_row) = split_rows MAXTHREADS (a_rows div int MAXTHREADS) a_cols b_cols 0
      in if end_row \<noteq> a_rows
         then ms @ [\<lparr>mm_a_cols = a_cols, mm_b_cols = junk, a_start_row = end_row, a_end_row = a_cols\<rparr>]
         else ms)"

text \<open>Any thread that is not finished may take the next of its steps on the shared state.\<close>

inductive par_step :: "('s \<Rightarrow> 'c \<Rightarrow> 'c exec) \<Rightarrow> 'c \<times> 's list list \<Rightarrow> 'c \<times> 's list list \<Rightarrow> bool"
  for ex where
  par_stepI: "t < length ps \<Longrightarrow> ps ! t = s # ss \<Longrightarrow> ex s C = Inr C' \<Longrightarrow> par_step ex (C, ps) (C', ps[t := ss])"

inductive_cases par_stepE: "par_step ex (C, ps) st"

definition parallel_start :: "int \<Rightarrow> int \<Rightarrow> int \<Rightarrow> int \<Rightarrow> mstep list list" where
  "parallel_start a_rows a_cols b_cols junk = map thread_steps (spawned a_rows a_cols b_cols junk)"

section \<open>Threads whose steps commute\<close>

fun run_steps :: "('s \<Rightarrow> 'c \<Rightarrow> 'c exec) \<Rightarrow> 's list \<Rightarrow> 'c \<Rightarrow> 'c exec" where
  "run_steps ex [] C = Inr C"
| "run_steps ex (s # ss) C = sbind (ex s C) (run_steps ex ss)"

lemma run_steps_append: "run_steps ex (xs @ ys) C = sbind (run_steps ex xs C) (run_steps ex ys)"
  by (induction xs arbitrary: C) (simp_all add: sbind_assoc cong: sbind_cong)

lemma run_steps_Cons: "run_steps ex (s # ss) = (\<lambda>C. sbind (ex s C) (run_steps ex ss))"
  by (rule ext) simp

text \<open>No two threads share a key.\<close>

definition keys_apart :: "('s \<Rightarrow> 'k) \<Rightarrow> 's list list \<Rightarrow> bool" where
  "keys_apart key ps \<longleftrightarrow> (\<forall>t u. t < u \<longrightarrow> u < length ps \<longrightarrow> (\<forall>x \<in> set (ps ! t). \<forall>y \<in> set (ps ! u). key x \<noteq> key y))"

lemma keys_apart_step:
  assumes "keys_apart key ps" "t < length ps" "ps ! t = s # ss"
  shows "keys_apart key (ps[t := ss])"
proof -
  have "set (ps[t := ss] ! u) \<subseteq> set (ps ! u)" for u using assms(2,3) by (cases "u = t") auto
  then show ?thesis using assms(1) unfolding keys_apart_def length_list_update by blast
qed

lemma concat_at: "t < length ps \<Longrightarrow> ps ! t = s # ss \<Longrightarrow> concat ps = concat (take t ps) @ s # ss @ concat (drop (Suc t) ps)"
  by (subst id_take_nth_drop [of t ps]) simp_all

text \<open>
  The contract of the steps: those with different keys commute, faults included. Then every interleaving of threads
  with different keys does what the threads do one after the other.
\<close>

locale keyed_steps =
  fixes ex :: "'s \<Rightarrow> 'c \<Rightarrow> 'c exec" and key :: "'s \<Rightarrow> 'k"
  assumes commute: "key s \<noteq> key s' \<Longrightarrow> sbind (ex s C) (ex s') = sbind (ex s' C) (ex s)"
begin

lemma step_first:
  assumes "\<forall>x \<in> set xs. key x \<noteq> key s"
  shows "run_steps ex (xs @ s # ys) C = run_steps ex (s # xs @ ys) C"
  using assms
proof (induction xs arbitrary: C)
  case (Cons x xs)
  have "run_steps ex ((x # xs) @ s # ys) C = sbind (ex x C) (run_steps ex (s # xs @ ys))"
    using Cons by (simp cong: sbind_cong)
  also have "\<dots> = sbind (sbind (ex x C) (ex s)) (run_steps ex (xs @ ys))"
    by (simp add: sbind_assoc run_steps_Cons)
  also have "\<dots> = sbind (sbind (ex s C) (ex x)) (run_steps ex (xs @ ys))"
    using Cons.prems by (subst commute) auto
  finally show ?case by (simp add: sbind_assoc run_steps_Cons)
qed simp

lemma take_step:
  assumes "keys_apart key ps" "t < length ps" "ps ! t = s # ss"
  shows "run_steps ex (concat ps) C = sbind (ex s C) (run_steps ex (concat (ps[t := ss])))"
proof -
  have "\<forall>x \<in> set (concat (take t ps)). key x \<noteq> key s"
  proof
    fix x assume "x \<in> set (concat (take t ps))"
    then obtain p where p: "p \<in> set (take t ps)" "x \<in> set p" by auto
    then obtain u where "u < t" "p = ps ! u" using assms(2) by (auto simp: in_set_conv_nth)
    moreover note p(2)
    moreover have "s \<in> set (ps ! t)" using assms(3) by simp
    ultimately show "key x \<noteq> key s" using assms(1,2) unfolding keys_apart_def by blast
  qed
  moreover have "concat (ps[t := ss]) = concat (take t ps) @ ss @ concat (drop (Suc t) ps)"
    using assms(2) by (simp add: upd_conv_take_nth_drop)
  ultimately show ?thesis
    using concat_at [OF assms(2,3)] step_first [of "concat (take t ps)" s "ss @ concat (drop (Suc t) ps)" C]
    by (simp only: run_steps.simps)
qed

lemma steps_inv:
  assumes "(par_step ex)\<^sup>*\<^sup>* st st'"
  shows "keys_apart key (snd st) \<Longrightarrow> run_steps ex (concat (snd st)) (fst st) = Inr P \<Longrightarrow>
    keys_apart key (snd st') \<and> run_steps ex (concat (snd st')) (fst st') = Inr P"
  using assms
proof (induction rule: rtranclp_induct)
  case (step y z)
  obtain C ps where y: "y = (C, ps)" by fastforce
  from step.hyps(2) [unfolded y] obtain t s ss C' where "t < length ps" "ps ! t = s # ss" "ex s C = Inr C'" "z = (C', ps[t := ss])"
    by (rule par_stepE) blast
  then show ?case using step y take_step [of ps t s ss C] keys_apart_step [of key ps t s ss] by simp
qed simp

lemma interleavings:
  assumes "keys_apart key ps" "run_steps ex (concat ps) C = Inr P" "(par_step ex)\<^sup>*\<^sup>* (C, ps) (C', ps')"
  shows "t < length ps' \<Longrightarrow> ps' ! t \<noteq> [] \<Longrightarrow> \<exists>C''. par_step ex (C', ps') (C'', ps'[t := tl (ps' ! t)])"
    and "\<forall>p \<in> set ps'. p = [] \<Longrightarrow> C' = P"
proof -
  have inv: "keys_apart key ps'" "run_steps ex (concat ps') C' = Inr P" using steps_inv [OF assms(3)] assms(1,2) by auto
  show "\<exists>C''. par_step ex (C', ps') (C'', ps'[t := tl (ps' ! t)])" if t: "t < length ps'" "ps' ! t \<noteq> []"
  proof -
    obtain s ss where s: "ps' ! t = s # ss" using t(2) by (cases "ps' ! t") auto
    obtain C'' where "ex s C' = Inr C''" using inv(2) take_step [OF inv(1) t(1) s, of C'] by (auto simp: sbind_Inr_iff)
    then have "par_step ex (C', ps') (C'', ps'[t := ss])" by (rule par_stepI [OF t(1) s])
    then show ?thesis using s by auto
  qed
  show "C' = P" if "\<forall>p \<in> set ps'. p = []"
  proof -
    have "concat ps' = []" using that by simp
    then show ?thesis using inv(2) by (simp only:) simp
  qed
qed

end

section \<open>Steps on different rows commute\<close>

fun row_of :: "mstep \<Rightarrow> int" where
  "row_of (Clear i j) = i"
| "row_of (Accumulate i j k) = i"

text \<open>A step replaces its row by a function of that row alone.\<close>

fun row_step :: "'d arith \<Rightarrow> 'd grid \<Rightarrow> 'd grid \<Rightarrow> mstep \<Rightarrow> 'd list \<Rightarrow> 'd list exec" where
  "row_step D A B (Clear i j) row = wri row j (el_zero D)"
| "row_step D A B (Accumulate i j k) row =
     sbind (rdi row j) (\<lambda>c. sbind (mat_get A i k) (\<lambda>a. sbind (mat_get B k j) (\<lambda>b. wri row j (el_add D c (el_mul D a b)))))"

lemma rdi_cases: "rdi xs i = (if 0 \<le> i \<and> i < int (length xs) then Inr (xs ! nat i) else Inl OutOfBounds)"
  by (simp add: rdi_def rd_def nat_less_iff)

lemma wri_cases: "wri xs i v = (if 0 \<le> i \<and> i < int (length xs) then Inr (xs[nat i := v]) else Inl OutOfBounds)"
  by (simp add: wri_def wr_def nat_less_iff)

lemma row_step_fault: "row_step D A B s row = Inl e \<Longrightarrow> e = OutOfBounds"
  by (cases s) (auto simp: rdi_cases wri_cases mat_get_def sbind_def split: if_splits sum.splits)

lemma exec_step_row:
  "exec_step D A B s C =
    (if 0 \<le> row_of s \<and> row_of s < int (length C)
     then sbind (row_step D A B s (C ! nat (row_of s))) (\<lambda>row. Inr (C[nat (row_of s) := row])) else Inl OutOfBounds)"
  by (cases s) (auto simp: mat_get_def mat_set_def rdi_cases wri_cases sbind_def split: sum.splits)

lemma steps_commute:
  assumes "row_of s \<noteq> row_of s'"
  shows "sbind (exec_step D A B s C) (exec_step D A B s') = sbind (exec_step D A B s' C) (exec_step D A B s)"
proof -
  consider "0 \<le> row_of s \<and> row_of s < int (length C)" "0 \<le> row_of s' \<and> row_of s' < int (length C)"
    | "\<not> (0 \<le> row_of s \<and> row_of s < int (length C))" | "\<not> (0 \<le> row_of s' \<and> row_of s' < int (length C))" by blast
  then show ?thesis
  proof cases
    case 1
    then have "nat (row_of s) \<noteq> nat (row_of s')" using assms by (simp add: nat_eq_iff)
    then show ?thesis using 1
      by (cases "row_step D A B s (C ! nat (row_of s))"; cases "row_step D A B s' (C ! nat (row_of s'))")
        (auto simp: exec_step_row [of D A B] list_update_swap dest!: row_step_fault)
  next
    case 2
    then show ?thesis using row_step_fault [of D A B]
      by (auto simp: exec_step_row [of D A B] sbind_def split: sum.splits)
  next
    case 3
    then show ?thesis using row_step_fault [of D A B]
      by (auto simp: exec_step_row [of D A B] sbind_def split: sum.splits)
  qed
qed

interpretation rows: keyed_steps "exec_step D A B" row_of for D A B
  by unfold_locales (rule steps_commute)

section \<open>The threads do the work of the loops\<close>

lemma for_up_steps:
  assumes "hi \<le> INT_MAX" "\<And>i C. body i C = run_steps (exec_step D A B) (f i) C"
  shows "for_up 1 lo hi body C = run_steps (exec_step D A B) (concat (map f [lo..hi - 1])) C"
proof (induction "nat (hi - lo)" arbitrary: lo C rule: less_induct)
  case less
  show ?case
  proof (cases "lo < hi")
    case True
    then have "for_up 1 lo hi body C = sbind (body lo C) (for_up 1 (lo + 1) hi body)"
      using assms(1) by (subst for_up.simps) simp
    also have "\<dots> = sbind (run_steps (exec_step D A B) (f lo) C) (run_steps (exec_step D A B) (concat (map f [lo + 1..hi - 1])))"
      using less.hyps [of "lo + 1"] True by (simp add: assms(2) cong: sbind_cong)
    finally show ?thesis using True by (simp add: upto_rec1 [of lo] run_steps_append)
  qed simp
qed

definition row_steps :: "int \<Rightarrow> int \<Rightarrow> int \<Rightarrow> mstep list" where
  "row_steps a_cols b_cols i = concat (map (\<lambda>j. Clear i j # map (Accumulate i j) [0..a_cols - 1]) [0..b_cols - 1])"

lemma matrix_multiply_steps:
  assumes "a_rows \<le> INT_MAX" "a_cols \<le> INT_MAX" "b_cols \<le> INT_MAX"
  shows "matrix_multiply D A B a_rows a_cols b_cols C = run_steps (exec_step D A B) (concat (map (row_steps a_cols b_cols) [0..a_rows - 1])) C"
proof -
  have "for_up 1 0 a_cols (\<lambda>k. exec_step D A B (Accumulate i j k)) C = run_steps (exec_step D A B) (map (Accumulate i j) [0..a_cols - 1]) C" for i j C
    using for_up_steps [OF assms(2), of "\<lambda>k. exec_step D A B (Accumulate i j k)" D A B "\<lambda>k. [Accumulate i j k]" 0 C]
    by (simp add: sbind_done del: exec_step.simps cong: sbind_cong)
  then have "for_up 1 0 b_cols (\<lambda>j C. sbind (exec_step D A B (Clear i j) C) (for_up 1 0 a_cols (\<lambda>k. exec_step D A B (Accumulate i j k)))) C =
      run_steps (exec_step D A B) (row_steps a_cols b_cols i) C" for i C
    unfolding row_steps_def by (intro for_up_steps [OF assms(3)]) (simp cong: sbind_cong)
  then show ?thesis unfolding matrix_multiply_def by (intro for_up_steps [OF assms(1)]) simp
qed

definition row_range :: "int \<Rightarrow> int \<Rightarrow> int \<Rightarrow> int \<Rightarrow> matrix_mult" where
  "row_range a_cols b_cols lo hi = \<lparr>mm_a_cols = a_cols, mm_b_cols = b_cols, a_start_row = lo, a_end_row = hi\<rparr>"

lemma split_rows_ranges:
  "split_rows n r a_cols b_cols lo = (map (\<lambda>t. row_range a_cols b_cols (lo + int t * r) (lo + int (Suc t) * r)) [0..<n], lo + int n * r)"
proof (induction n arbitrary: lo)
  case (Suc n)
  have u: "[0..<Suc n] = 0 # map Suc [0..<n]" by (simp add: upt_conv_Cons map_Suc_upt del: upt_Suc)
  show ?case unfolding split_rows.simps Suc u by (simp add: Let_def row_range_def comp_def algebra_simps)
qed simp

lemma thread_steps_range: "thread_steps (row_range a_cols b_cols lo hi) = concat (map (row_steps a_cols b_cols) [lo..hi - 1])"
  by (simp add: thread_steps_def row_range_def row_steps_def [abs_def])

lemma row_of_range: "x \<in> set (thread_steps (row_range a_cols b_cols lo hi)) \<Longrightarrow> lo \<le> row_of x \<and> row_of x < hi"
  by (auto simp: thread_steps_range row_steps_def)

lemma upto_halves: "i \<le> j \<Longrightarrow> j \<le> k + 1 \<Longrightarrow> [i..k] = [i..j - 1] @ [j..k]"
proof (cases "j \<le> k")
  case True
  then show "i \<le> j \<Longrightarrow> [i..k] = [i..j - 1] @ [j..k]" using upto_split1 by blast
next
  case False
  moreover assume "j \<le> k + 1"
  ultimately have "j = k + 1" by simp
  then show ?thesis by simp
qed

lemma concat_ranges:
  assumes "0 \<le> r"
  shows "concat (map (\<lambda>t. thread_steps (row_range a_cols b_cols (int t * r) (int (Suc t) * r))) [0..<n]) =
    concat (map (row_steps a_cols b_cols) [0..int n * r - 1])"
proof (induction n)
  case (Suc n)
  have "[0..int (Suc n) * r - 1] = [0..int n * r - 1] @ [int n * r..int (Suc n) * r - 1]"
    by (rule upto_halves) (use assms in \<open>simp_all add: distrib_right\<close>)
  then show ?case using Suc by (simp add: thread_steps_range)
qed simp

text \<open>The rows that the threads cover, when the leftover thread covers what it should.\<close>

definition covered :: "int \<Rightarrow> int \<Rightarrow> int \<Rightarrow> int \<Rightarrow> bool" where
  "covered a_rows a_cols b_cols junk \<longleftrightarrow> int MAXTHREADS dvd a_rows \<or> a_cols = a_rows \<and> junk = b_cols"

lemma parallel_start_ranges:
  assumes "0 \<le> a_rows" "covered a_rows a_cols b_cols junk"
  shows "\<exists>ends. parallel_start a_rows a_cols b_cols junk = map (\<lambda>t. thread_steps (row_range a_cols b_cols (ends t) (ends (Suc t)))) [0..<length (spawned a_rows a_cols b_cols junk)] \<and>
    mono ends \<and> concat (parallel_start a_rows a_cols b_cols junk) = concat (map (row_steps a_cols b_cols) [0..a_rows - 1])"
proof -
  define r where "r = a_rows div int MAXTHREADS"
  have r: "0 \<le> r" "int MAXTHREADS * r \<le> a_rows" "int MAXTHREADS dvd a_rows \<Longrightarrow> int MAXTHREADS * r = a_rows"
    using assms(1) by (simp_all add: r_def MAXTHREADS_def)
  let ?f = "\<lambda>t. thread_steps (row_range a_cols b_cols (int t * r) (int (Suc t) * r))"
  have sp: "split_rows MAXTHREADS r a_cols b_cols 0 = (map (\<lambda>t. row_range a_cols b_cols (int t * r) (int (Suc t) * r)) [0..<MAXTHREADS], int MAXTHREADS * r)"
    using split_rows_ranges [of MAXTHREADS r a_cols b_cols 0] by simp
  show ?thesis
  proof (cases "int MAXTHREADS * r = a_rows")
    case True
    then have "spawned a_rows a_cols b_cols junk = map (\<lambda>t. row_range a_cols b_cols (int t * r) (int (Suc t) * r)) [0..<MAXTHREADS]"
      by (simp add: spawned_def sp r_def [symmetric])
    moreover have "mono (\<lambda>t. int t * r)" using r(1) by (intro monoI mult_right_mono) simp_all
    ultimately show ?thesis using concat_ranges [OF r(1), of a_cols b_cols MAXTHREADS] True
      by (intro exI [of _ "\<lambda>t. int t * r"]) (simp add: parallel_start_def comp_def)
  next
    case False
    then have c: "a_cols = a_rows" "junk = b_cols" using assms(2) r(3) by (auto simp: covered_def)
    define ends where "ends t = (if t \<le> MAXTHREADS then int t * r else a_rows)" for t
    have sp': "spawned a_rows a_cols b_cols junk =
        map (\<lambda>t. row_range a_cols b_cols (int t * r) (int (Suc t) * r)) [0..<MAXTHREADS] @ [row_range a_cols b_cols (int MAXTHREADS * r) a_rows]"
      unfolding spawned_def r_def [symmetric] sp using False c by (simp add: row_range_def)
    have "mono ends"
    proof (rule monoI)
      fix t u :: nat assume "t \<le> u"
      moreover have "int t * r \<le> int MAXTHREADS * r" if "t \<le> MAXTHREADS" using that r(1) by (intro mult_right_mono) simp_all
      ultimately show "ends t \<le> ends u" using r by (auto simp: ends_def intro!: mult_right_mono)
    qed
    moreover have "parallel_start a_rows a_cols b_cols junk =
        map (\<lambda>t. thread_steps (row_range a_cols b_cols (ends t) (ends (Suc t)))) [0..<Suc MAXTHREADS]"
      by (simp add: parallel_start_def sp' ends_def)
    moreover have "[0..a_rows - 1] = [0..int MAXTHREADS * r - 1] @ [int MAXTHREADS * r..a_rows - 1]"
      by (rule upto_halves) (use r in \<open>simp_all add: MAXTHREADS_def\<close>)
    then have "concat (parallel_start a_rows a_cols b_cols junk) = concat (map (row_steps a_cols b_cols) [0..a_rows - 1])"
      using concat_ranges [OF r(1), of a_cols b_cols MAXTHREADS] by (simp add: parallel_start_def sp' thread_steps_range comp_def)
    ultimately show ?thesis by (auto simp: sp')
  qed
qed

lemma ranges_apart:
  assumes "mono ends"
  shows "keys_apart row_of (map (\<lambda>t. thread_steps (row_range a_cols b_cols (ends t) (ends (Suc t)))) [0..<n])"
  unfolding keys_apart_def
proof (intro allI impI ballI)
  fix t u x y
  assume tu: "t < u" "u < length (map (\<lambda>t. thread_steps (row_range a_cols b_cols (ends t) (ends (Suc t)))) [0..<n])"
    and x: "x \<in> set (map (\<lambda>t. thread_steps (row_range a_cols b_cols (ends t) (ends (Suc t)))) [0..<n] ! t)"
    and y: "y \<in> set (map (\<lambda>t. thread_steps (row_range a_cols b_cols (ends t) (ends (Suc t)))) [0..<n] ! u)"
  have "x \<in> set (thread_steps (row_range a_cols b_cols (ends t) (ends (Suc t))))"
    "y \<in> set (thread_steps (row_range a_cols b_cols (ends u) (ends (Suc u))))" using x y tu by simp_all
  then have "row_of x < ends (Suc t)" "ends u \<le> row_of y" using row_of_range by blast+
  moreover have "ends (Suc t) \<le> ends u" using tu by (intro monoD [OF assms]) simp
  ultimately show "row_of x \<noteq> row_of y" by linarith
qed

section \<open>The properties\<close>

text \<open>
  C33. The threads of \<^verbatim>\<open>parallel_matrix_multiply\<close> compute what \<^verbatim>\<open>matrix_multiply\<close> computes, element by element and for any arithmetic:
  in every interleaving no statement leaves its matrix, every thread that is not finished can go on, and when all are
  finished the shared matrix is the sequential result. This needs a number of rows that the number of threads
  divides, or square matrices and fresh memory that happens to hold the number of columns.
\<close>

theorem parallel_multiply_correct:
  assumes "0 \<le> a_rows" "a_rows \<le> INT_MAX" "a_cols \<le> INT_MAX" "b_cols \<le> INT_MAX" "covered a_rows a_cols b_cols junk"
    "matrix_multiply D A B a_rows a_cols b_cols C = Inr P"
    "(par_step (exec_step D A B))\<^sup>*\<^sup>* (C, parallel_start a_rows a_cols b_cols junk) (C', ps)"
  shows "(\<forall>t < length ps. ps ! t \<noteq> [] \<longrightarrow> (\<exists>C''. par_step (exec_step D A B) (C', ps) (C'', ps[t := tl (ps ! t)]))) \<and>
    ((\<forall>p \<in> set ps. p = []) \<longrightarrow> C' = P)"
proof -
  obtain ends where e: "parallel_start a_rows a_cols b_cols junk =
      map (\<lambda>t. thread_steps (row_range a_cols b_cols (ends t) (ends (Suc t)))) [0..<length (spawned a_rows a_cols b_cols junk)]"
    "mono ends" "concat (parallel_start a_rows a_cols b_cols junk) = concat (map (row_steps a_cols b_cols) [0..a_rows - 1])"
    using parallel_start_ranges [OF assms(1,5)] by blast
  have "keys_apart row_of (parallel_start a_rows a_cols b_cols junk)" unfolding e(1) by (rule ranges_apart [OF e(2)])
  moreover have "run_steps (exec_step D A B) (concat (parallel_start a_rows a_cols b_cols junk)) C = Inr P"
    using assms(6) unfolding e(3) matrix_multiply_steps [OF assms(2-4)] .
  ultimately show ?thesis using rows.interleavings [OF _ _ assms(7)] by blast
qed

definition int_arith :: "int arith" where
  "int_arith = \<lparr>el_zero = 0, el_add = (+), el_mul = (*)\<rparr>"

text \<open>The witness: a product of one row, which falls to the leftover thread.\<close>

theorem parallel_multiply_correct_witness:
  "matrix_multiply int_arith [[3]] [[7]] 1 1 1 [[0]] = Inr [[21]] \<and>
   (\<exists>C''. par_step (exec_step int_arith [[3]] [[7]]) ([[0]], parallel_start 1 1 1 1) (C'', (parallel_start 1 1 1 1)[32 := [Accumulate 0 0 0]]))"
proof -
  have m: "matrix_multiply int_arith [[3]] [[7]] 1 1 1 [[0]] = Inr [[21]]"
    by (simp add: matrix_multiply_def for_up.simps mat_get_def mat_set_def int_arith_def INT_MAX_def)
  have "split_rows n 0 1 1 0 = (replicate n (row_range 1 1 0 0), 0)" for n by (induction n) (simp_all add: row_range_def)
  then have sp: "spawned 1 1 1 1 = replicate 32 (row_range 1 1 0 0) @ [row_range 1 1 0 1]"
    by (simp add: spawned_def row_range_def MAXTHREADS_def)
  have "parallel_start 1 1 1 1 ! 32 = thread_steps (row_range 1 1 0 1)" "length (parallel_start 1 1 1 1) = 33"
    by (simp_all add: parallel_start_def sp nth_append)
  then have l: "parallel_start 1 1 1 1 ! 32 = [Clear 0 0, Accumulate 0 0 0]" "32 < length (parallel_start 1 1 1 1)"
    by (simp_all add: thread_steps_def row_range_def)
  have c: "covered 1 1 1 1" by (simp add: covered_def)
  from parallel_multiply_correct [OF _ _ _ _ c m rtranclp.rtrancl_refl] l m show ?thesis
    by (simp add: INT_MAX_def) (metis list.distinct(1) list.sel(3))
qed

text \<open>With a single row and fresh memory of zeros no thread does anything.\<close>

lemma leftover_rows_lost: "concat (parallel_start 1 a_cols b_cols 0) = []"
proof -
  have "split_rows n 0 a_cols b_cols 0 = (replicate n (row_range a_cols b_cols 0 0), 0)" for n
    by (induction n) (simp_all add: row_range_def)
  moreover have "1 div int MAXTHREADS = 0" by (simp add: MAXTHREADS_def)
  moreover have "thread_steps (row_range a_cols b_cols 0 0) = []" by (simp add: thread_steps_def row_range_def)
  moreover have "thread_steps \<lparr>mm_a_cols = a_cols, mm_b_cols = 0, a_start_row = 0, a_end_row = a_cols\<rparr> = []" by (simp add: thread_steps_def)
  ultimately show ?thesis by (simp add: parallel_start_def spawned_def)
qed

end
