(* ===== verification/Vec.thy ===== *)
theory Vec
  imports Loops
begin

text \<open>
  The vectors of the course on low-level optimisation (\<open>vec/vec.c\<close>) and the two dot products of its reference
  solution (\<open>dotproduct.c\<close>). Elements are 64-bit words with wrap-around, lengths are integers; memory that was not
  allocated is a missing list, and whether an allocation succeeds is an argument.
\<close>

type_synonym data_t = "64 word"

record vec_rec =
  v_len :: int
  v_data :: "data_t list option"
  allocated_len :: int

definition new_vec :: "bool \<Rightarrow> bool \<Rightarrow> int \<Rightarrow> vec_rec option" where
  "new_vec malloc_ok calloc_ok n =
     (if \<not> malloc_ok then None
      else if n > 0 then
        if \<not> calloc_ok then None
        else Some \<lparr>v_len = n, v_data = Some (replicate (nat n) 0), allocated_len = n\<rparr>
      else Some \<lparr>v_len = n, v_data = None, allocated_len = n\<rparr>)"

definition vec_length :: "vec_rec \<Rightarrow> int" where
  "vec_length v = v_len v"

definition get_vec_start :: "vec_rec \<Rightarrow> data_t list option" where
  "get_vec_start v = v_data v"

text \<open>A read through a null pointer or outside the array is a fault; \<open>get_vec_element\<close> makes no check.\<close>

definition at :: "data_t list option \<Rightarrow> int \<Rightarrow> data_t exec" where
  "at d i = (case d of None \<Rightarrow> Inl OutOfBounds | Some xs \<Rightarrow> rdi xs i)"

definition get_vec_element :: "vec_rec \<Rightarrow> int \<Rightarrow> data_t exec" where
  "get_vec_element v i = at (v_data v) i"

definition set_vec_element :: "vec_rec \<Rightarrow> int \<Rightarrow> data_t \<Rightarrow> (bool \<times> vec_rec) exec" where
  "set_vec_element v i x =
     (if i < 0 \<or> i \<ge> v_len v then Inr (False, v)
      else case v_data v of None \<Rightarrow> Inl OutOfBounds
           | Some xs \<Rightarrow> sbind (wri xs i x) (\<lambda>xs. Inr (True, v\<lparr>v_data := Some xs\<rparr>)))"

definition set_vec_length :: "bool \<Rightarrow> vec_rec \<Rightarrow> int \<Rightarrow> vec_rec" where
  "set_vec_length calloc_ok v newlen =
     (let v = (if newlen > allocated_len v
               then v\<lparr>v_data := (if calloc_ok then Some (replicate (nat newlen) 0) else None), allocated_len := newlen\<rparr> else v)
      in v\<lparr>v_len := newlen\<rparr>)"

function dot_loop :: "vec_rec \<Rightarrow> vec_rec \<Rightarrow> int \<Rightarrow> data_t \<Rightarrow> data_t exec" where
  "dot_loop u v i s =
     (if i < vec_length u then
        sbind (get_vec_element u i) (\<lambda>u_val. sbind (get_vec_element v i) (\<lambda>v_val. dot_loop u v (i + 1) (s + u_val * v_val)))
      else Inr s)"
  by pat_completeness auto
termination by (relation "measure (\<lambda>(u, v, i, s). nat (vec_length u - i))") auto

declare dot_loop.simps [simp del]

definition dotproduct :: "vec_rec \<Rightarrow> vec_rec \<Rightarrow> data_t exec" where
  "dotproduct u v = dot_loop u v 0 0"

text \<open>The unrolled loop with four accumulators, which advances by three, and the loop over what is left.\<close>

definition term_at :: "data_t list option \<Rightarrow> data_t list option \<Rightarrow> int \<Rightarrow> data_t exec" where
  "term_at u_start v_start i = sbind (at u_start i) (\<lambda>a. sbind (at v_start i) (\<lambda>b. Inr (a * b)))"

function unrolled_loop :: "data_t list option \<Rightarrow> data_t list option \<Rightarrow> int \<Rightarrow> int \<Rightarrow> data_t \<times> data_t \<times> data_t \<times> data_t \<Rightarrow>
    (int \<times> data_t \<times> data_t \<times> data_t \<times> data_t) exec" where
  "unrolled_loop us vs n i (s0, s1, s2, s3) =
     (if i < n - 3 then
        sbind (term_at us vs i) (\<lambda>p0. sbind (term_at us vs (i + 1)) (\<lambda>p1.
        sbind (term_at us vs (i + 2)) (\<lambda>p2. sbind (term_at us vs (i + 3)) (\<lambda>p3.
        unrolled_loop us vs n (i + 3) (s0 + p0, s1 + p1, s2 + p2, s3 + p3)))))
      else Inr (i, s0, s1, s2, s3))"
  by pat_completeness auto
termination by (relation "measure (\<lambda>(us, vs, n, i, s). nat (n - i))") auto

declare unrolled_loop.simps [simp del]

function rest_loop :: "data_t list option \<Rightarrow> data_t list option \<Rightarrow> int \<Rightarrow> int \<Rightarrow> data_t \<Rightarrow> data_t exec" where
  "rest_loop us vs n i s =
     (if i < n then sbind (term_at us vs i) (\<lambda>p. rest_loop us vs n (i + 1) (s + p)) else Inr s)"
  by pat_completeness auto
termination by (relation "measure (\<lambda>(us, vs, n, i, s). nat (n - i))") auto

declare rest_loop.simps [simp del]

definition dotproductfast :: "vec_rec \<Rightarrow> vec_rec \<Rightarrow> data_t exec" where
  "dotproductfast u v =
     (let n = vec_length u; vs = get_vec_start v; us = get_vec_start u in
      sbind (unrolled_loop us vs n 0 (0, 0, 0, 0)) (\<lambda>(i, s0, s1, s2, s3).
      sbind (rest_loop us vs n i s0) (\<lambda>s0. Inr (s0 + s1 + s2 + s3))))"

section \<open>The invariant of a vector\<close>

definition vec_ok :: "vec_rec \<Rightarrow> bool" where
  "vec_ok v \<longleftrightarrow> 0 \<le> v_len v \<and> v_len v \<le> allocated_len v \<and>
     (case v_data v of None \<Rightarrow> v_len v = 0 \<and> allocated_len v = 0 | Some xs \<Rightarrow> int (length xs) = allocated_len v)"

definition elt :: "vec_rec \<Rightarrow> nat \<Rightarrow> data_t" where
  "elt v i = the (v_data v) ! i"

lemma new_vec_ok: "0 \<le> n \<Longrightarrow> new_vec m c n = Some v \<Longrightarrow> vec_ok v \<and> v_len v = n \<and> (\<forall>i < nat n. elt v i = 0)"
  by (auto simp: new_vec_def vec_ok_def elt_def split: if_splits)

lemma set_vec_element_ok:
  assumes "vec_ok v" "0 \<le> i" "i < v_len v"
  shows "\<exists>v'. set_vec_element v i x = Inr (True, v') \<and> vec_ok v' \<and> v_len v' = v_len v \<and> (\<forall>j. elt v' j = (if j = nat i then x else elt v j))"
proof -
  obtain xs where xs: "v_data v = Some xs" "i < int (length xs)" using assms by (auto simp: vec_ok_def split: option.splits)
  let ?v = "v\<lparr>v_data := Some (xs[nat i := x])\<rparr>"
  have "set_vec_element v i x = Inr (True, ?v)" using assms xs by (simp add: set_vec_element_def)
  moreover have "vec_ok ?v" using assms(1) xs(1) by (simp add: vec_ok_def)
  moreover have "elt ?v j = (if j = nat i then x else elt v j)" for j using assms(2) xs by (simp add: elt_def nat_less_iff)
  ultimately show ?thesis by fastforce
qed

lemma set_vec_length_ok: "vec_ok v \<Longrightarrow> 0 \<le> n \<Longrightarrow> vec_ok (set_vec_length True v n) \<and> v_len (set_vec_length True v n) = n"
  by (auto simp: set_vec_length_def vec_ok_def Let_def split: option.splits)

lemma at_ok: "vec_ok v \<Longrightarrow> int i < v_len v \<Longrightarrow> at (v_data v) (int i) = Inr (elt v i)"
  by (auto simp: at_def elt_def vec_ok_def split: option.splits)

section \<open>What the loops add up\<close>

definition prod_at :: "vec_rec \<Rightarrow> vec_rec \<Rightarrow> nat \<Rightarrow> data_t" where
  "prod_at u v i = elt u i * elt v i"

definition same_size :: "vec_rec \<Rightarrow> vec_rec \<Rightarrow> nat \<Rightarrow> bool" where
  "same_size u v n \<longleftrightarrow> vec_ok u \<and> vec_ok v \<and> v_len u = int n \<and> v_len v = int n"

lemma term_ok: "same_size u v n \<Longrightarrow> i < n \<Longrightarrow> term_at (v_data u) (v_data v) (int i) = Inr (prod_at u v i)"
  by (simp add: term_at_def same_size_def at_ok prod_at_def)

lemma dot_loop_sum:
  assumes "same_size u v n" "i \<le> n"
  shows "dot_loop u v (int i) s = Inr (s + (\<Sum>k = i..<n. prod_at u v k))"
  using assms(2)
proof (induction "n - i" arbitrary: i s)
  case 0
  then show ?case using assms(1) by (subst dot_loop.simps) (simp add: vec_length_def same_size_def)
next
  case (Suc d)
  then have i: "i < n" by simp
  have "dot_loop u v (int i) s = dot_loop u v (int (Suc i)) (s + prod_at u v i)"
    using i assms(1) by (subst dot_loop.simps) (simp add: vec_length_def same_size_def get_vec_element_def at_ok prod_at_def add.commute)
  also have "\<dots> = Inr (s + prod_at u v i + (\<Sum>k = Suc i..<n. prod_at u v k))" using Suc i by (intro Suc.hyps) simp_all
  finally show ?case using i by (simp add: sum.atLeast_Suc_lessThan add.assoc)
qed

lemma rest_loop_sum:
  assumes "same_size u v n" "i \<le> n"
  shows "rest_loop (v_data u) (v_data v) (int n) (int i) s = Inr (s + (\<Sum>k = i..<n. prod_at u v k))"
  using assms(2)
proof (induction "n - i" arbitrary: i s)
  case 0
  then show ?case by (subst rest_loop.simps) simp
next
  case (Suc d)
  then have i: "i < n" by simp
  have "rest_loop (v_data u) (v_data v) (int n) (int i) s = rest_loop (v_data u) (v_data v) (int n) (int (Suc i)) (s + prod_at u v i)"
    using i term_ok [OF assms(1) i] by (subst rest_loop.simps) (simp add: add.commute)
  also have "\<dots> = Inr (s + prod_at u v i + (\<Sum>k = Suc i..<n. prod_at u v k))" using Suc i by (intro Suc.hyps) simp_all
  finally show ?case using i by (simp add: sum.atLeast_Suc_lessThan add.assoc)
qed

text \<open>The rounds of the unrolled loop, and the elements that two rounds share.\<close>

definition rounds :: "nat \<Rightarrow> nat" where
  "rounds n = (n - 1) div 3"

lemma unrolled_loop_sum:
  assumes "same_size u v n" "j \<le> rounds n"
  shows "\<exists>t0 t1 t2 t3. unrolled_loop (v_data u) (v_data v) (int n) (3 * int j) (s0, s1, s2, s3) = Inr (3 * int (rounds n), t0, t1, t2, t3) \<and>
    t0 + t1 + t2 + t3 = s0 + s1 + s2 + s3 + (\<Sum>k = 3 * j..<3 * rounds n. prod_at u v k) + (\<Sum>r = Suc j..rounds n. prod_at u v (3 * r))"
  using assms(2)
proof (induction "rounds n - j" arbitrary: j s0 s1 s2 s3)
  case 0
  then have "j = rounds n" by simp
  moreover have "\<not> 3 * int (rounds n) < int n - 3" unfolding rounds_def by linarith
  ultimately show ?case by (subst unrolled_loop.simps) simp
next
  case (Suc d)
  then have j: "j < rounds n" by simp
  then have n: "3 * j + 3 < n" unfolding rounds_def by linarith
  let ?p = "prod_at u v"
  have t: "term_at (v_data u) (v_data v) (3 * int j) = Inr (?p (3 * j))" "term_at (v_data u) (v_data v) (3 * int j + 1) = Inr (?p (3 * j + 1))"
    "term_at (v_data u) (v_data v) (3 * int j + 2) = Inr (?p (3 * j + 2))" "term_at (v_data u) (v_data v) (3 * int j + 3) = Inr (?p (3 * j + 3))"
    using n term_ok [OF assms(1), of "3 * j"] term_ok [OF assms(1), of "3 * j + 1"] term_ok [OF assms(1), of "3 * j + 2"] term_ok [OF assms(1), of "3 * j + 3"]
    by (simp_all add: add.commute)
  have u: "unrolled_loop (v_data u) (v_data v) (int n) (3 * int j) (s0, s1, s2, s3) =
      unrolled_loop (v_data u) (v_data v) (int n) (3 * int (Suc j)) (s0 + ?p (3 * j), s1 + ?p (3 * j + 1), s2 + ?p (3 * j + 2), s3 + ?p (3 * j + 3))"
    using n t by (subst unrolled_loop.simps) (simp add: algebra_simps)
  have "3 * Suc j \<le> 3 * rounds n" using j by simp
  then have "(\<Sum>k = 3 * j..<3 * rounds n. ?p k) = (\<Sum>k = 3 * j..<3 * Suc j. ?p k) + (\<Sum>k = 3 * Suc j..<3 * rounds n. ?p k)"
    by (intro sum.atLeastLessThan_concat [symmetric]) simp_all
  moreover have "(\<Sum>k = 3 * j..<3 * Suc j. ?p k) = ?p (3 * j) + ?p (3 * j + 1) + ?p (3 * j + 2)"
    by (simp add: numeral_3_eq_3)
  moreover have "(\<Sum>r = Suc j..rounds n. ?p (3 * r)) = ?p (3 * j + 3) + (\<Sum>r = Suc (Suc j)..rounds n. ?p (3 * r))"
    using j by (subst sum.atLeast_Suc_atMost) (simp_all add: add.commute)
  ultimately show ?case unfolding u
    using Suc.hyps(1) [of "Suc j" "s0 + ?p (3 * j)" "s1 + ?p (3 * j + 1)" "s2 + ?p (3 * j + 2)" "s3 + ?p (3 * j + 3)"] Suc.hyps(2) j
    by (auto simp: algebra_simps)
qed

section \<open>The properties\<close>

text \<open>
  C34. The dot product of the course and its fast version on two vectors of the same length: no read leaves an array, the plain
  loop adds every product once, and the unrolled loop, which advances by three while it adds four products, adds the
  products at the indices 3, 6, 9, ... a second time. The two agree for up to three elements and in general not beyond.
\<close>

theorem dotproduct_fast_overcounts:
  assumes "same_size u v n"
  shows "dotproduct u v = Inr (\<Sum>i < n. prod_at u v i) \<and>
    dotproductfast u v = Inr ((\<Sum>i < n. prod_at u v i) + (\<Sum>r = 1..(n - 1) div 3. prod_at u v (3 * r)))"
proof -
  have r: "3 * rounds n \<le> n" unfolding rounds_def by linarith
  obtain t0 t1 t2 t3 where t: "unrolled_loop (v_data u) (v_data v) (int n) 0 (0, 0, 0, 0) = Inr (3 * int (rounds n), t0, t1, t2, t3)"
    "t0 + t1 + t2 + t3 = (\<Sum>k = 0..<3 * rounds n. prod_at u v k) + (\<Sum>r = 1..rounds n. prod_at u v (3 * r))"
    using unrolled_loop_sum [OF assms, of 0 0 0 0 0] by auto
  have "rest_loop (v_data u) (v_data v) (int n) (3 * int (rounds n)) t0 = Inr (t0 + (\<Sum>k = 3 * rounds n..<n. prod_at u v k))"
    using rest_loop_sum [OF assms r, of t0] by simp
  then have "dotproductfast u v = Inr ((t0 + t1 + t2 + t3) + (\<Sum>k = 3 * rounds n..<n. prod_at u v k))"
    using t(1) assms by (simp add: dotproductfast_def vec_length_def get_vec_start_def same_size_def algebra_simps)
  moreover have c: "(\<Sum>k = 0..<3 * rounds n. prod_at u v k) + (\<Sum>k = 3 * rounds n..<n. prod_at u v k) = (\<Sum>k = 0..<n. prod_at u v k)"
    by (rule sum.atLeastLessThan_concat) (use r in simp_all)
  then have "(t0 + t1 + t2 + t3) + (\<Sum>k = 3 * rounds n..<n. prod_at u v k) = (\<Sum>k = 0..<n. prod_at u v k) + (\<Sum>r = 1..rounds n. prod_at u v (3 * r))"
    unfolding t(2) c [symmetric] by (simp only: ac_simps)
  ultimately show ?thesis using dot_loop_sum [OF assms, of 0 0] by (simp add: dotproduct_def rounds_def lessThan_atLeast0)
qed

definition ones :: vec_rec where
  "ones = \<lparr>v_len = 4, v_data = Some [1, 1, 1, 1], allocated_len = 4\<rparr>"

theorem dotproduct_fast_overcounts_witness: "dotproduct ones ones = Inr 4 \<and> dotproductfast ones ones = Inr 5"
proof -
  have "same_size ones ones 4" by (simp add: same_size_def vec_ok_def ones_def)
  from dotproduct_fast_overcounts [OF this] show ?thesis
    by (simp add: prod_at_def elt_def ones_def lessThan_nat_numeral lessThan_Suc)
qed

text \<open>Growing a vector loses its elements, and leaves it without an array when the allocation fails.\<close>

lemma growing_clears: "vec_ok v \<Longrightarrow> allocated_len v < n \<Longrightarrow> i < nat n \<Longrightarrow> elt (set_vec_length True v n) i = 0"
  by (simp add: set_vec_length_def elt_def Let_def)

end
