(* ===== verification/Bump.thy ===== *)
theory Bump
  imports Prelude
begin

text \<open>
  The bump allocator (\<open>exercises/11_bump_allocator.c\<close>) on 64-bit addresses and
  sizes. The null pointer is the address 0; the argument \<open>alloc\<close> of an operation
  is \<open>None\<close> when it is the null pointer.
\<close>

type_synonym addr = "64 word"

datatype BumpStatus = BUMP_OK | BUMP_ERR_INVALID_ARG

record BumpAllocator =
  buffer :: addr
  capacity :: addr
  offset :: addr

definition SIZE_MAX64 :: addr where "SIZE_MAX64 = - 1"

definition MAX_ALIGN :: addr where "MAX_ALIGN = 16"

definition is_power_of_two :: "addr \<Rightarrow> bool" where
  "is_power_of_two n \<longleftrightarrow> n \<noteq> 0 \<and> n AND (n - 1) = 0"

definition bump_align_forward :: "addr \<Rightarrow> addr \<Rightarrow> addr" where
  "bump_align_forward a align = (a + (align - 1)) AND NOT (align - 1)"

definition bump_init :: "BumpAllocator option \<Rightarrow> addr \<Rightarrow> addr \<Rightarrow> BumpStatus \<times> BumpAllocator option" where
  "bump_init alloc memory_block capacity_bytes =
     (case alloc of None \<Rightarrow> (BUMP_ERR_INVALID_ARG, alloc)
      | Some a \<Rightarrow>
          if memory_block = 0 \<or> capacity_bytes = 0 then (BUMP_ERR_INVALID_ARG, alloc)
          else (BUMP_OK, Some (a\<lparr>buffer := memory_block, capacity := capacity_bytes, offset := 0\<rparr>)))"

definition bump_alloc :: "BumpAllocator option \<Rightarrow> addr \<Rightarrow> addr \<Rightarrow> addr \<times> BumpAllocator option" where
  "bump_alloc alloc size_arg align =
     (case alloc of None \<Rightarrow> (0, alloc)
      | Some a \<Rightarrow>
          if buffer a = 0 then (0, alloc)
          else
            let align = (if align = 0 then MAX_ALIGN else align) in
            if \<not> is_power_of_two align then (0, alloc)
            else
              let current_addr = buffer a + offset a;
                  aligned_addr = bump_align_forward current_addr align;
                  padding = aligned_addr - current_addr in
              if size_arg = 0 then (if offset a + padding > capacity a then (0, alloc) else (aligned_addr, alloc))
              else if size_arg > SIZE_MAX64 - padding \<or> padding + size_arg > SIZE_MAX64 - offset a then (0, alloc)
              else if offset a + padding + size_arg > capacity a then (0, alloc)
              else (aligned_addr, Some (a\<lparr>offset := offset a + (padding + size_arg)\<rparr>)))"

definition bump_reset :: "BumpAllocator option \<Rightarrow> BumpAllocator option" where
  "bump_reset alloc = map_option (\<lambda>a. a\<lparr>offset := 0\<rparr>) alloc"

definition bump_save :: "BumpAllocator option \<Rightarrow> addr" where
  "bump_save alloc = (case alloc of None \<Rightarrow> 0 | Some a \<Rightarrow> offset a)"

definition bump_restore :: "BumpAllocator option \<Rightarrow> addr \<Rightarrow> bool \<times> BumpAllocator option" where
  "bump_restore alloc marker =
     (case alloc of None \<Rightarrow> (False, alloc)
      | Some a \<Rightarrow> if marker > offset a then (False, alloc) else (True, Some (a\<lparr>offset := marker\<rparr>)))"

definition bump_available :: "BumpAllocator option \<Rightarrow> addr" where
  "bump_available alloc =
     (case alloc of None \<Rightarrow> 0 | Some a \<Rightarrow> if offset a > capacity a then 0 else capacity a - offset a)"

definition bump_owns :: "BumpAllocator option \<Rightarrow> addr \<Rightarrow> bool" where
  "bump_owns alloc ptr =
     (case alloc of None \<Rightarrow> False
      | Some a \<Rightarrow> buffer a \<noteq> 0 \<and> ptr \<noteq> 0 \<and> ptr \<ge> buffer a \<and> ptr < buffer a + capacity a)"

section \<open>Alignment\<close>

lemma nat_power_of_two: "0 < m \<Longrightarrow> m AND (m - 1) = 0 \<longleftrightarrow> (\<exists>k. m = 2 ^ k)" for m :: nat
proof (induction m rule: less_induct)
  case (less m)
  have rec: "m AND (m - 1) = of_bool (odd m \<and> odd (m - 1)) + 2 * ((m div 2) AND ((m - 1) div 2))" by (rule and_rec)
  show ?case
  proof (cases "even m")
    case True
    then obtain j where j: "m = 2 * j" "0 < j" using less.prems by auto
    then have half: "(m - 1) div 2 = j - 1" "m div 2 = j" by auto
    have eq: "m AND (m - 1) = 2 * (j AND (j - 1))" using rec True unfolding half by simp
    have "m = 2 ^ k \<longleftrightarrow> (\<exists>i. k = Suc i \<and> j = 2 ^ i)" for k using j True by (cases k) auto
    then show ?thesis using less.IH [of j] j eq by auto
  next
    case False
    then have half: "(m - 1) div 2 = m div 2" "odd m" by (auto elim!: oddE)
    have "m AND (m - 1) = 2 * (m div 2)" using rec half less.prems by simp
    moreover have "2 * (m div 2) = 0 \<longleftrightarrow> m = 1" using half(2) by (auto elim!: oddE)
    moreover have "(\<exists>k. m = 2 ^ k) \<longleftrightarrow> m = 1"
    proof
      assume "\<exists>k. m = 2 ^ k"
      then obtain k where "m = 2 ^ k" by blast
      then show "m = 1" using half(2) by (cases k) auto
    qed (auto intro: exI [of _ 0])
    ultimately show ?thesis by metis
  qed
qed

lemma unat_exp64: "k < 64 \<Longrightarrow> unat (2 ^ k :: addr) = 2 ^ k"
proof -
  assume "k < 64"
  then have "(2 :: nat) ^ k < 2 ^ 64" by (intro power_strict_increasing) auto
  then show ?thesis using unat_of_nat_less [of "2 ^ k", where 'a = 64] by simp
qed

lemma power_of_two_iff: "is_power_of_two n \<longleftrightarrow> (\<exists>k<64. n = 2 ^ k)"
proof (cases "n = 0")
  case True
  then show ?thesis by (auto simp: is_power_of_two_def exp_eq_zero_iff)
next
  case False
  then have u: "unat (n - 1) = unat n - 1" "0 < unat n" by (simp_all add: unat_minus_one unat_gt_0)
  have "n AND (n - 1) = 0 \<longleftrightarrow> unat n AND (unat n - 1) = 0"
    by (simp add: word_unat_eq_iff unsigned_and_eq u)
  also have "\<dots> \<longleftrightarrow> (\<exists>k. unat n = 2 ^ k)" by (rule nat_power_of_two [OF u(2)])
  also have "\<dots> \<longleftrightarrow> (\<exists>k<64. n = 2 ^ k)"
  proof
    assume "\<exists>k. unat n = 2 ^ k"
    then obtain k where k: "unat n = 2 ^ k" by blast
    have "unat n < 2 ^ 64" using unsigned_less [of n] by simp
    then have "k < 64" unfolding k by (rule power_less_imp_less_exp [rotated]) simp
    moreover have "n = 2 ^ k" using word_eq_of_unat [OF k] by simp
    ultimately show "\<exists>k<64. n = 2 ^ k" by blast
  next
    assume "\<exists>k<64. n = 2 ^ k"
    then obtain k where k: "k < 64" "n = 2 ^ k" by blast
    then show "\<exists>k. unat n = 2 ^ k" using unat_exp64 [OF k(1)] by blast
  qed
  finally show ?thesis using False by (simp add: is_power_of_two_def)
qed

lemma power_of_two_mask: "(2 ^ k :: addr) - 1 = mask k"
  by (simp add: mask_eq_exp_minus_1)

definition round_up :: "nat \<Rightarrow> nat \<Rightarrow> nat" where
  "round_up a k = (a + 2 ^ k - 1) div 2 ^ k * 2 ^ k"

lemma round_up_bounds: "a \<le> round_up a k" "round_up a k < a + 2 ^ k" "2 ^ k dvd round_up a k"
  "k \<le> m \<Longrightarrow> a \<le> 2 ^ m \<Longrightarrow> round_up a k \<le> 2 ^ m"
proof -
  let ?q = "(a + 2 ^ k - 1) div 2 ^ k"
  have "(a + 2 ^ k - 1) = ?q * 2 ^ k + (a + 2 ^ k - 1) mod 2 ^ k" by (rule div_mult_mod_eq [symmetric])
  moreover have "(a + 2 ^ k - 1) mod 2 ^ k < 2 ^ k" by simp
  ultimately show "a \<le> round_up a k" "round_up a k < a + 2 ^ k" unfolding round_up_def by linarith+
  show "2 ^ k dvd round_up a k" by (simp add: round_up_def)
  assume m: "k \<le> m" "a \<le> 2 ^ m"
  obtain d where d: "(2 :: nat) ^ m = d * 2 ^ k" using m(1) by (metis le_add_diff_inverse2 power_add)
  have "0 < (2 :: nat) ^ k" by simp
  then have "a + 2 ^ k - 1 < (d + 1) * 2 ^ k" using m(2) unfolding d distrib_right mult_1 by linarith
  then have "?q < d + 1" by (simp add: less_mult_imp_div_less)
  then have "?q * 2 ^ k \<le> d * 2 ^ k" by simp
  then show "round_up a k \<le> 2 ^ m" unfolding round_up_def d .
qed

lemma align_forward_unat:
  assumes "k < 64" "0 < unat a"
  shows "unat (bump_align_forward a (2 ^ k)) = round_up (unat a) k mod 2 ^ 64"
    "unat (bump_align_forward a (2 ^ k) - a) = round_up (unat a) k - unat a"
proof -
  let ?r = "bump_align_forward a (2 ^ k)" and ?A = "unat a"
  have um: "unat (mask k :: addr) = 2 ^ k - 1" using assms(1) 
    unfolding power_of_two_mask [symmetric] using unat_exp64 [OF assms(1)] by (simp add: unat_sub word_le_nat_alt)
  have le: "?A < 2 ^ 64" using unsigned_less [of a] by simp
  have k64: "(2 :: nat) ^ k \<le> 2 ^ 64" using assms(1) by (intro power_increasing) auto
  have "unat (x AND NOT (mask k)) = unat x div 2 ^ k * 2 ^ k" for x :: addr
  proof -
    have "x AND NOT (mask k) = shl (shr x k) k" by (rule bit_word_eqI) (auto simp: bit_simps)
    moreover have "unat (shr x k) * 2 ^ k < 2 ^ 64"
    proof -
      have "unat x < 2 ^ 64" using unsigned_less [of x] by simp
      then show ?thesis unfolding unat_shr using div_times_less_eq_dividend [of "unat x" "2 ^ k"] by linarith
    qed
    ultimately show ?thesis using unat_shl [of "shr x k" k] unat_shr [of k x] by simp
  qed
  then have u: "unat ?r = ((?A + (2 ^ k - 1)) mod 2 ^ 64) div 2 ^ k * 2 ^ k"
    unfolding bump_align_forward_def power_of_two_mask by (simp add: unat_word_ariths um)
  show r: "unat ?r = round_up ?A k mod 2 ^ 64"
  proof (cases "?A + (2 ^ k - 1) < 2 ^ 64")
    case True
    then have "unat ?r = round_up ?A k" using u by (simp add: round_up_def)
    moreover have "unat ?r < 2 ^ 64" using unsigned_less [of ?r] by simp
    ultimately show ?thesis by simp
  next
    case False
    then have "(?A + (2 ^ k - 1)) mod 2 ^ 64 = ?A + (2 ^ k - 1) - 2 ^ 64" using le k64 by (simp add: mod_if)
    moreover have "?A + (2 ^ k - 1) - 2 ^ 64 < 2 ^ k" using le False by simp
    ultimately have "unat ?r = 0" using u by simp
    moreover have "round_up ?A k = 2 ^ 64"
    proof (rule antisym)
      show "round_up ?A k \<le> 2 ^ 64" by (rule round_up_bounds(4)) (use assms le in auto)
      have "2 ^ 64 \<le> ?A + 2 ^ k - 1" using False by simp
      then have "2 ^ 64 div 2 ^ k * 2 ^ k \<le> round_up ?A k" unfolding round_up_def by (intro mult_right_mono div_le_mono) auto
      moreover have "(2 :: nat) ^ 64 div 2 ^ k * 2 ^ k = 2 ^ 64" 
        by (rule dvd_div_mult_self, rule le_imp_power_dvd) (use assms(1) in simp)
      ultimately show "2 ^ 64 \<le> round_up ?A k" by simp
    qed
    ultimately show ?thesis by simp
  qed
  have R: "?A \<le> round_up ?A k" "round_up ?A k \<le> 2 ^ 64" using round_up_bounds(1) round_up_bounds(4) [of k 64 ?A] assms le by auto
  show "unat (?r - a) = round_up ?A k - ?A"
  proof (cases "round_up ?A k = 2 ^ 64")
    case True
    then have "?r = 0" using r by (simp add: unat_eq_0)
    then have "unat (?r - a) = 2 ^ 64 - ?A" using assms(2) unat_sub_if_size [of 0 a] by (simp add: word_size)
    then show ?thesis using True by simp
  next
    case False
    then have "unat ?r = round_up ?A k" using r R by simp
    then show ?thesis using R(1) by (simp add: unat_sub word_le_nat_alt)
  qed
qed

section \<open>The allocator\<close>

text \<open>
  A live allocator: its arena is an object in the address space, and the cursor is
  inside it.
\<close>

definition bump_ok :: "BumpAllocator \<Rightarrow> bool" where
  "bump_ok a \<longleftrightarrow> 0 < unat (buffer a) \<and> unat (buffer a) + unat (capacity a) < 2 ^ 64 \<and> unat (offset a) \<le> unat (capacity a)"

definition effective_align :: "addr \<Rightarrow> addr" where
  "effective_align align = (if align = 0 then MAX_ALIGN else align)"

text \<open>Where the next block of an alignment of \<open>2 ^ k\<close> would begin, as a number.\<close>

definition next_block_at :: "BumpAllocator \<Rightarrow> nat \<Rightarrow> nat" where
  "next_block_at a k = round_up (unat (buffer a) + unat (offset a)) k"

lemma unat_add_small: "unat x + unat y < 2 ^ 64 \<Longrightarrow> unat (x + y :: addr) = unat x + unat y"
  by (simp add: unat_word_ariths)

lemma word64_gt_iff: "x > SIZE_MAX64 - y \<longleftrightarrow> 2 ^ 64 \<le> unat x + unat (y :: addr)"
proof -
  have m: "unat (SIZE_MAX64 - y) = 2 ^ 64 - 1 - unat y"
  proof -
    have "y \<le> SIZE_MAX64" by (simp add: SIZE_MAX64_def word_order.extremum)
    then have "unat (SIZE_MAX64 - y) = unat SIZE_MAX64 - unat y" by (simp add: unat_sub)
    moreover have "unat SIZE_MAX64 = 2 ^ 64 - 1" by (simp add: SIZE_MAX64_def unsigned_minus_1_eq_mask mask_eq_exp_minus_1)
    ultimately show ?thesis by simp
  qed
  have "unat y < 2 ^ 64" using unsigned_less [of y] by simp
  then show ?thesis unfolding word_less_nat_alt m by linarith
qed

lemma bump_alloc_step:
  assumes ok: "bump_ok a" and k: "k < 64" "effective_align align = 2 ^ k"
  shows "bump_alloc (Some a) sz align =
    (if next_block_at a k + unat sz \<le> unat (buffer a) + unat (capacity a)
     then (of_nat (next_block_at a k), Some (if sz = 0 then a else a\<lparr>offset := of_nat (next_block_at a k + unat sz - unat (buffer a))\<rparr>))
     else (0, Some a))"
proof -
  let ?B = "unat (buffer a)" and ?C = "unat (capacity a)" and ?O = "unat (offset a)" and ?S = "unat sz" and ?R = "next_block_at a k"
  let ?cur = "buffer a + offset a" and ?al = "bump_align_forward (buffer a + offset a) (2 ^ k)"
  have b: "0 < ?B" "?B + ?C < 2 ^ 64" "?O \<le> ?C" using ok by (simp_all add: bump_ok_def)
  have cur: "unat ?cur = ?B + ?O" using b by (intro unat_add_small) simp
  have R: "?B + ?O \<le> ?R" "?R \<le> 2 ^ 64"
    using round_up_bounds(1) [of "?B + ?O" k] round_up_bounds(4) [of k 64 "?B + ?O"] k(1) b by (simp_all add: next_block_at_def)
  have al: "unat ?al = ?R mod 2 ^ 64" and pad: "unat (?al - ?cur) = ?R - (?B + ?O)"
    using align_forward_unat [OF k(1), of ?cur] b(1) unfolding cur next_block_at_def by simp_all
  have S: "?S < 2 ^ 64" using unsigned_less [of sz] by simp
  define p where "p = ?al - ?cur"
  have up: "unat p = ?R - (?B + ?O)" using pad by (simp add: p_def)
  have op: "unat (offset a + p) = ?R - ?B" using up R b(1) by (subst unat_add_small) simp_all
  have pow: "is_power_of_two (effective_align align)" using k power_of_two_iff by blast
  have bnz: "buffer a \<noteq> 0" using b(1) by auto
  have unfold: "bump_alloc (Some a) sz align =
      (if sz = 0 then (if offset a + p > capacity a then (0, Some a) else (?al, Some a))
       else if sz > SIZE_MAX64 - p \<or> p + sz > SIZE_MAX64 - offset a then (0, Some a)
       else if offset a + p + sz > capacity a then (0, Some a)
       else (?al, Some (a\<lparr>offset := offset a + (p + sz)\<rparr>)))"
    using bnz pow k(2) by (simp add: bump_alloc_def Let_def p_def flip: effective_align_def)
  have fit: "?al = of_nat ?R" if "?R + ?S \<le> ?B + ?C"
  proof -
    have "?R < 2 ^ 64" using that b(2) by simp
    then have "unat ?al = ?R" using al by simp
    then show ?thesis by (rule word_eq_of_unat)
  qed
  show ?thesis
  proof (cases "sz = 0")
    case True
    then show ?thesis using fit op b R unfolding unfold word_less_nat_alt by auto
  next
    case False
    show ?thesis
    proof (cases "?R + ?S \<le> ?B + ?C")
      case True
      have ps: "unat (p + sz) = ?R - (?B + ?O) + ?S" using True b up R by (subst unat_add_small) simp_all
      have tot: "unat (offset a + p + sz) = ?R - ?B + ?S" using True b op R by (subst unat_add_small) simp_all
      then have off: "offset a + (p + sz) = of_nat (?R + ?S - ?B)"
        using R by (intro word_eq_of_unat) (simp add: add.assoc)
      have "\<not> sz > SIZE_MAX64 - p" "\<not> p + sz > SIZE_MAX64 - offset a"
        using True b up ps R unfolding word64_gt_iff by linarith+
      moreover have "\<not> offset a + p + sz > capacity a" using True tot R unfolding word_less_nat_alt by linarith
      ultimately show ?thesis using False True fit off unfolding unfold by simp
    next
      case no: False
      have "sz > SIZE_MAX64 - p \<or> p + sz > SIZE_MAX64 - offset a \<or> offset a + p + sz > capacity a"
      proof (rule ccontr)
        assume "\<not> ?thesis"
        then have n: "unat sz + unat p < 2 ^ 64" "unat (p + sz) + ?O < 2 ^ 64" "unat (offset a + p + sz) \<le> ?C"
          unfolding word64_gt_iff by (auto simp: word_le_nat_alt not_less)
        have "unat (p + sz) = unat p + ?S" using n(1) by (intro unat_add_small) simp
        then have "unat (offset a + p + sz) = ?R - ?B + ?S" using n(2) op up R by (subst unat_add_small) simp_all
        then show False using n(3) no R by simp
      qed
      then show ?thesis using False no unfolding unfold by auto
    qed
  qed
qed

text \<open>What a successful request gives back.\<close>

definition block_post :: "BumpAllocator \<Rightarrow> nat \<Rightarrow> nat \<Rightarrow> addr \<times> BumpAllocator option \<Rightarrow> bool" where
  "block_post a k sz r \<longleftrightarrow> (\<exists>p a'. r = (of_nat p, Some a') \<and> unat (buffer a) + unat (offset a) \<le> p \<and>
     p < unat (buffer a) + unat (offset a) + 2 ^ k \<and> 2 ^ k dvd p \<and> p + sz \<le> unat (buffer a) + unat (capacity a) \<and>
     bump_ok a' \<and> buffer a' = buffer a \<and> capacity a' = capacity a \<and>
     (if sz = 0 then a' = a else unat (buffer a') + unat (offset a') = p + sz))"

text \<open>
  Allocation, for every alignment that is a power of two (or 0, the default): the
  block is aligned, starts at or after the cursor, and ends inside the arena; the
  cursor moves to its end. A request fails exactly when it does not fit, at every
  boundary of the 64-bit arithmetic, and then nothing changes. An alignment that
  is not a power of two is refused.
\<close>

theorem bump_alloc_correct:
  assumes "bump_ok a"
  shows "(\<not> is_power_of_two (effective_align align) \<longrightarrow> bump_alloc (Some a) sz align = (0, Some a)) \<and>
    (\<forall>k<64. effective_align align = 2 ^ k \<longrightarrow>
      (if next_block_at a k + unat sz \<le> unat (buffer a) + unat (capacity a)
       then block_post a k (unat sz) (bump_alloc (Some a) sz align) else bump_alloc (Some a) sz align = (0, Some a)))"
proof (intro conjI allI impI)
  assume "\<not> is_power_of_two (effective_align align)"
  then show "bump_alloc (Some a) sz align = (0, Some a)"
    by (simp add: bump_alloc_def Let_def effective_align_def)
next
  fix k :: nat assume k: "k < 64" "effective_align align = 2 ^ k"
  let ?R = "next_block_at a k" and ?B = "unat (buffer a)"
  note st = bump_alloc_step [OF assms k, of sz]
  have R: "?B + unat (offset a) \<le> ?R" "?R < ?B + unat (offset a) + 2 ^ k" "2 ^ k dvd ?R"
    using round_up_bounds(1-3) by (simp_all add: next_block_at_def)
  have "block_post a k (unat sz) (bump_alloc (Some a) sz align)" if fit: "?R + unat sz \<le> ?B + unat (capacity a)"
  proof -
    let ?a = "if sz = 0 then a else a\<lparr>offset := of_nat (?R + unat sz - ?B)\<rparr>"
    have "?R + unat sz - ?B < 2 ^ 64" using fit assms unfolding bump_ok_def by linarith
    then have off: "unat (of_nat (?R + unat sz - ?B) :: addr) = ?R + unat sz - ?B" by (intro unat_of_nat_less) simp
    then have "bump_ok ?a" using fit assms R(1) by (auto simp: bump_ok_def)
    moreover have "if unat sz = 0 then ?a = a else ?B + unat (offset ?a) = ?R + unat sz"
      using off R(1) by (auto simp: unat_eq_0)
    ultimately show ?thesis
      using st fit R unfolding block_post_def by (intro exI [of _ ?R] exI [of _ ?a]) auto
  qed
  then show "if ?R + unat sz \<le> ?B + unat (capacity a)
       then block_post a k (unat sz) (bump_alloc (Some a) sz align) else bump_alloc (Some a) sz align = (0, Some a)"
    using st by simp
qed

theorem bump_alloc_correct_witness:
  "block_post \<lparr>buffer = 4096, capacity = 512, offset = 30\<rparr> 3 8 (bump_alloc (Some \<lparr>buffer = 4096, capacity = 512, offset = 30\<rparr>) 8 8) \<and>
   bump_alloc (Some \<lparr>buffer = 4096, capacity = 512, offset = 30\<rparr>) (- 11) 8 = (0, Some \<lparr>buffer = 4096, capacity = 512, offset = 30\<rparr>)"
proof -
  let ?a = "\<lparr>buffer = 4096, capacity = 512, offset = 30\<rparr>"
  have ok: "bump_ok ?a" by (simp add: bump_ok_def)
  have R: "next_block_at ?a 3 = 4128" by (simp add: next_block_at_def round_up_def)
  have al: "effective_align 8 = 2 ^ 3" by (simp add: effective_align_def)
  have big: "unat (- 11 :: addr) = 18446744073709551605" by simp
  show ?thesis
    using bump_alloc_correct [OF ok, of 8 8] bump_alloc_correct [OF ok, of 8 "- 11"] R al big by (auto dest!: spec [of _ 3])
qed

section \<open>Sequences of requests\<close>

fun bump_run :: "(addr \<times> addr) list \<Rightarrow> BumpAllocator option \<Rightarrow> (nat \<times> nat) list \<times> BumpAllocator option" where
  "bump_run [] alloc = ([], alloc)"
| "bump_run ((sz, align) # rs) alloc =
     (let (p, alloc) = bump_alloc alloc sz align; (bs, alloc) = bump_run rs alloc
      in (if p = 0 then bs else (unat p, unat sz) # bs, alloc))"

definition cursor :: "BumpAllocator \<Rightarrow> nat" where
  "cursor a = unat (buffer a) + unat (offset a)"

lemma bump_alloc_cases:
  assumes "bump_ok a"
  obtains "bump_alloc (Some a) sz align = (0, Some a)"
  | p a' where "bump_alloc (Some a) sz align = (p, Some a')" "p \<noteq> 0" "bump_ok a'" "buffer a' = buffer a" "capacity a' = capacity a"
      "cursor a \<le> unat p" "unat p + unat sz \<le> unat (buffer a) + unat (capacity a)" "cursor a \<le> cursor a'"
      "sz \<noteq> 0 \<longrightarrow> unat p + unat sz = cursor a'"
proof (cases "is_power_of_two (effective_align align)")
  case False
  then have "bump_alloc (Some a) sz align = (0, Some a)" by (simp add: bump_alloc_def Let_def effective_align_def)
  then show ?thesis by (rule that(1))
next
  case True
  then obtain k where k: "k < 64" "effective_align align = 2 ^ k" using power_of_two_iff by blast
  show ?thesis
  proof (cases "next_block_at a k + unat sz \<le> unat (buffer a) + unat (capacity a)")
    case False
    then show ?thesis using bump_alloc_step [OF assms k, of sz] by (intro that(1)) simp
  next
    case fit: True
    let ?R = "next_block_at a k" and ?B = "unat (buffer a)"
    let ?a = "if sz = 0 then a else a\<lparr>offset := of_nat (?R + unat sz - ?B)\<rparr>"
    have R: "cursor a \<le> ?R" using round_up_bounds(1) by (simp add: next_block_at_def cursor_def)
    have lt: "?R < 2 ^ 64" "?R + unat sz - ?B < 2 ^ 64" using fit assms unfolding bump_ok_def by linarith+
    have uR: "unat (of_nat ?R :: addr) = ?R" by (rule unat_of_nat_less) (use lt in simp)
    have off: "unat (of_nat (?R + unat sz - ?B) :: addr) = ?R + unat sz - ?B" by (rule unat_of_nat_less) (use lt in simp)
    have "0 < ?R" using R assms by (simp add: cursor_def bump_ok_def)
    then have nz: "(of_nat ?R :: addr) \<noteq> 0" using uR by (metis neq0_conv unsigned_0)
    show ?thesis
    proof (rule that(2) [of "of_nat ?R" ?a])
      show "bump_alloc (Some a) sz align = (of_nat ?R, Some ?a)" using bump_alloc_step [OF assms k, of sz] fit by simp
    qed (use nz uR off fit R assms in \<open>auto simp: bump_ok_def cursor_def\<close>)
  qed
qed

lemma bump_run_ok:
  assumes "bump_ok a"
  shows "\<exists>bs a'. bump_run rs (Some a) = (bs, Some a') \<and> bump_ok a' \<and> buffer a' = buffer a \<and> capacity a' = capacity a \<and>
    cursor a \<le> cursor a' \<and> (\<forall>(p, n)\<in>set bs. cursor a \<le> p \<and> p + n \<le> unat (buffer a) + unat (capacity a)) \<and>
    sorted_wrt (\<lambda>(p, n) (q, m). n = 0 \<or> p + n \<le> q) bs"
  using assms
proof (induction rs arbitrary: a)
  case (Cons r rs)
  obtain sz align where r: "r = (sz, align)" by (cases r)
  show ?case
  proof (rule bump_alloc_cases [OF Cons.prems, of sz align])
    assume "bump_alloc (Some a) sz align = (0, Some a)"
    then show ?thesis using Cons.IH [OF Cons.prems] r by auto
  next
    fix p a1
    assume al: "bump_alloc (Some a) sz align = (p, Some a1)" "p \<noteq> 0" "bump_ok a1" and fr: "buffer a1 = buffer a" "capacity a1 = capacity a"
      and p: "cursor a \<le> unat p" "unat p + unat sz \<le> unat (buffer a) + unat (capacity a)" "cursor a \<le> cursor a1"
        "sz \<noteq> 0 \<longrightarrow> unat p + unat sz = cursor a1"
    obtain bs a' where IH: "bump_run rs (Some a1) = (bs, Some a')" "bump_ok a'" "buffer a' = buffer a1" "capacity a' = capacity a1"
      "cursor a1 \<le> cursor a'" "\<forall>(p, n)\<in>set bs. cursor a1 \<le> p \<and> p + n \<le> unat (buffer a1) + unat (capacity a1)"
      "sorted_wrt (\<lambda>(p, n) (q, m). n = 0 \<or> p + n \<le> q) bs"
      using Cons.IH [OF al(3)] by blast
    have "bump_run (r # rs) (Some a) = ((unat p, unat sz) # bs, Some a')" using r al IH(1) by simp
    moreover have "\<forall>(q, m)\<in>set bs. unat sz = 0 \<or> unat p + unat sz \<le> q" using IH(6) p(4) by (cases "sz = 0") auto
    moreover have "\<forall>(q, m)\<in>set bs. cursor a \<le> q \<and> q + m \<le> unat (buffer a) + unat (capacity a)" using IH(6) p(3) fr by auto
    ultimately show ?thesis using IH fr p by (intro exI [of _ "(unat p, unat sz) # bs"] exI [of _ a']) auto
  qed
qed auto

text \<open>
  C38. Every sequence of requests: the blocks handed out lie in the arena, in order and
  without overlap, and the allocator stays well formed; restoring a marker saved
  before gives the allocator of that moment, so the memory is handed out again.
\<close>

theorem bump_blocks_disjoint:
  assumes "bump_ok a"
  shows "\<exists>bs a'. bump_run rs (Some a) = (bs, Some a') \<and> bump_ok a' \<and>
    (\<forall>(p, n)\<in>set bs. unat (buffer a) \<le> p \<and> p + n \<le> unat (buffer a) + unat (capacity a)) \<and>
    sorted_wrt (\<lambda>(p, n) (q, m). n = 0 \<or> p + n \<le> q) bs \<and>
    unat (bump_available (Some a')) = unat (capacity a) - unat (offset a') \<and>
    bump_restore (Some a') (bump_save (Some a)) = (True, Some a) \<and> bump_reset (Some a') = bump_reset (Some a)"
proof -
  obtain bs a' where r: "bump_run rs (Some a) = (bs, Some a')" "bump_ok a'" "buffer a' = buffer a" "capacity a' = capacity a"
    "cursor a \<le> cursor a'" "\<forall>(p, n)\<in>set bs. cursor a \<le> p \<and> p + n \<le> unat (buffer a) + unat (capacity a)"
    "sorted_wrt (\<lambda>(p, n) (q, m). n = 0 \<or> p + n \<le> q) bs"
    using bump_run_ok [OF assms, of rs] by blast
  have "offset a \<le> offset a'" using r(3,5) by (simp add: cursor_def word_le_nat_alt)
  then have "bump_restore (Some a') (bump_save (Some a)) = (True, Some a)"
    using r(3,4) by (simp add: bump_restore_def bump_save_def not_less)
  moreover have "unat (bump_available (Some a')) = unat (capacity a) - unat (offset a')"
    using r(2,4) by (simp add: bump_available_def bump_ok_def word_less_nat_alt unat_sub word_le_nat_alt)
  moreover have "bump_reset (Some a') = bump_reset (Some a)" using r(3,4) by (simp add: bump_reset_def)
  moreover have "\<forall>(p, n)\<in>set bs. unat (buffer a) \<le> p \<and> p + n \<le> unat (buffer a) + unat (capacity a)"
    using r(6) by (auto simp: cursor_def)
  ultimately show ?thesis using r(1,2,7) by blast
qed

theorem bump_blocks_disjoint_witness:
  "\<exists>bs a'. bump_run [(10, 1), (20, 1), (8, 8), (600, 4)] (Some \<lparr>buffer = 4096, capacity = 512, offset = 0\<rparr>) = (bs, Some a') \<and> bump_ok a'"
proof -
  have "bump_ok \<lparr>buffer = 4096, capacity = 512, offset = 0\<rparr>" by (simp add: bump_ok_def)
  from bump_blocks_disjoint [OF this] show ?thesis by blast
qed
end
