(* ===== verification/Matching.thy ===== *)
theory Matching
  imports Prelude "HOL-Library.Sublist"
begin

text \<open>
  The string exercises that lead to the pattern matcher
  (\<open>exercises/01, 02, 04, 05, 17\<close>). A C string is the list of its characters before
  the terminator, a null pointer is \<open>None\<close>, and a pointer into a string is its index.
\<close>

section \<open>Character classes of the C locale\<close>

definition isdigit :: "char \<Rightarrow> bool" where
  "isdigit c \<longleftrightarrow> 48 \<le> (of_char c :: nat) \<and> (of_char c :: nat) \<le> 57"

definition isalpha :: "char \<Rightarrow> bool" where
  "isalpha c \<longleftrightarrow> 65 \<le> (of_char c :: nat) \<and> (of_char c :: nat) \<le> 90 \<or> 97 \<le> (of_char c :: nat) \<and> (of_char c :: nat) \<le> 122"

definition isalnum :: "char \<Rightarrow> bool" where
  "isalnum c \<longleftrightarrow> isalpha c \<or> isdigit c"

definition isspace :: "char \<Rightarrow> bool" where
  "isspace c \<longleftrightarrow> (of_char c :: nat) = 32 \<or> 9 \<le> (of_char c :: nat) \<and> (of_char c :: nat) \<le> 13"

definition isxdigit :: "char \<Rightarrow> bool" where
  "isxdigit c \<longleftrightarrow> isdigit c \<or> 65 \<le> (of_char c :: nat) \<and> (of_char c :: nat) \<le> 70 \<or> 97 \<le> (of_char c :: nat) \<and> (of_char c :: nat) \<le> 102"

section \<open>Pointer traversal\<close>

fun count_loop :: "(char \<Rightarrow> bool) \<Rightarrow> string \<Rightarrow> nat \<Rightarrow> nat" where
  "count_loop f [] count = count"
| "count_loop f (c # p) count = count_loop f p (if f c then count + 1 else count)"

definition count_digits :: "string \<Rightarrow> nat" where
  "count_digits text = count_loop isdigit text 0"

definition count_alpha :: "string \<Rightarrow> nat" where
  "count_alpha text = count_loop isalpha text 0"

fun first_digit_loop :: "string \<Rightarrow> nat \<Rightarrow> nat option" where
  "first_digit_loop [] i = None"
| "first_digit_loop (c # p) i = (if isdigit c then Some i else first_digit_loop p (i + 1))"

definition find_first_digit :: "string \<Rightarrow> nat option" where
  "find_first_digit text = first_digit_loop text 0"

fun last_digit_loop :: "string \<Rightarrow> nat \<Rightarrow> nat option" where
  "last_digit_loop text 0 = None"
| "last_digit_loop text (Suc p) = (if isdigit (text ! p) then Some p else last_digit_loop text p)"

definition find_last_digit :: "string option \<Rightarrow> nat option" where
  "find_last_digit text =
     (case text of None \<Rightarrow> None | Some t \<Rightarrow> if t = [] then None else last_digit_loop t (length t))"

text \<open>What is left of the prefix when the lockstep loop ends.\<close>

fun prefix_loop :: "string \<Rightarrow> string \<Rightarrow> string" where
  "prefix_loop (c # s) (d # p) = (if c = d then prefix_loop s p else d # p)"
| "prefix_loop s p = p"

definition match_prefix :: "string option \<Rightarrow> string option \<Rightarrow> bool" where
  "match_prefix text prefix_arg =
     (case (text, prefix_arg) of
        (Some s, Some p) \<Rightarrow> if p = [] then True else prefix_loop s p = []
      | _ \<Rightarrow> False)"

fun substring_loop :: "string \<Rightarrow> string \<Rightarrow> nat \<Rightarrow> nat option" where
  "substring_loop [] pattern i = None"
| "substring_loop (c # cs) pattern i =
     (if match_prefix (Some (c # cs)) (Some pattern) then Some i else substring_loop cs pattern (i + 1))"

definition find_substring :: "string option \<Rightarrow> string option \<Rightarrow> nat option" where
  "find_substring text pattern =
     (case (pattern, text) of
        (Some p, Some t) \<Rightarrow> if p = [] then Some 0 else substring_loop t p 0
      | _ \<Rightarrow> None)"

section \<open>Recursion patterns\<close>

fun rec_strlen :: "string \<Rightarrow> nat" where
  "rec_strlen [] = 0"
| "rec_strlen (c # s) = rec_strlen s + 1"

fun rec_count_char :: "string \<Rightarrow> char \<Rightarrow> nat" where
  "rec_count_char [] target = 0"
| "rec_count_char (c # s) target = of_bool (c = target) + rec_count_char s target"

fun rec_contains :: "string \<Rightarrow> char \<Rightarrow> bool" where
  "rec_contains [] target = False"
| "rec_contains (c # s) target = (if c = target then True else rec_contains s target)"

fun rec_starts_with :: "string \<Rightarrow> string \<Rightarrow> bool" where
  "rec_starts_with [] text = True"
| "rec_starts_with (d # p) [] = False"
| "rec_starts_with (d # p) (c # t) = (if d = c then rec_starts_with p t else False)"

fun rec_match_one_or_more :: "char \<Rightarrow> string \<Rightarrow> string \<Rightarrow> bool" where
  "rec_match_one_or_more target rest [] = False"
| "rec_match_one_or_more target rest (c # t) =
     (if c \<noteq> target then False else rec_match_one_or_more target rest t \<or> rec_starts_with rest t)"

section \<open>Single-token patterns\<close>

definition is_word_char :: "char \<Rightarrow> bool" where
  "is_word_char c \<longleftrightarrow> isalnum c \<or> c = CHR ''_''"

fun match_here :: "string \<Rightarrow> string \<Rightarrow> bool" where
  "match_here text [] = True"
| "match_here [] (d # p) = False"
| "match_here (c # t) (d # p) =
     (if d = CHR 0x5C \<and> (case p of e # _ \<Rightarrow> e = CHR ''w'' | [] \<Rightarrow> False) then is_word_char c else c = d)"

fun find_pattern :: "string \<Rightarrow> string \<Rightarrow> bool" where
  "find_pattern [] pattern = False"
| "find_pattern (c # t) pattern = (if match_here (c # t) pattern then True else find_pattern t pattern)"

datatype PatternKind = PATTERN_LITERAL | PATTERN_DIGIT | PATTERN_WORD | PATTERN_INVALID | PATTERN_WHITESPACE | PATTERN_HEX_DIGIT

datatype MatchResult = MATCH_FOUND | MATCH_NOT_FOUND | MATCH_SYNTAX_ERROR

definition classify_token :: "string option \<Rightarrow> PatternKind" where
  "classify_token pattern =
     (case pattern of None \<Rightarrow> PATTERN_INVALID
      | Some [] \<Rightarrow> PATTERN_INVALID
      | Some (d # p) \<Rightarrow>
          if d = CHR 0x5C then
            if p = ''d'' then PATTERN_DIGIT
            else if p = ''w'' then PATTERN_WORD
            else if p = ''s'' then PATTERN_WHITESPACE
            else if p = ''x'' then PATTERN_HEX_DIGIT
            else PATTERN_INVALID
          else if p = [] then PATTERN_LITERAL
          else PATTERN_INVALID)"

definition test_char :: "char \<Rightarrow> PatternKind \<Rightarrow> bool" where
  "test_char c kind =
     (case kind of
        PATTERN_DIGIT \<Rightarrow> isdigit c
      | PATTERN_WORD \<Rightarrow> isalnum c \<or> c = CHR ''_''
      | PATTERN_WHITESPACE \<Rightarrow> isspace c
      | PATTERN_HEX_DIGIT \<Rightarrow> isxdigit c
      | PATTERN_LITERAL \<Rightarrow> False
      | PATTERN_INVALID \<Rightarrow> False)"

fun match_loop :: "PatternKind \<Rightarrow> string \<Rightarrow> string \<Rightarrow> MatchResult" where
  "match_loop kind pattern [] = MATCH_NOT_FOUND"
| "match_loop kind pattern (c # cursor) =
     (if kind = PATTERN_LITERAL then
        if c = hd pattern then MATCH_FOUND else match_loop kind pattern cursor
      else if test_char c kind then MATCH_FOUND else match_loop kind pattern cursor)"

definition match_string :: "string \<Rightarrow> string option \<Rightarrow> MatchResult" where
  "match_string line pattern =
     (let kind = classify_token pattern in
      if kind = PATTERN_INVALID then MATCH_SYNTAX_ERROR
      else case pattern of None \<Rightarrow> MATCH_SYNTAX_ERROR | Some p \<Rightarrow> match_loop kind p line)"

section \<open>Character groups\<close>

text \<open>\<open>strchr\<close>, \<open>strpbrk\<close> and \<open>strcspn\<close> of the C library.\<close>

fun strchr_idx :: "string \<Rightarrow> char \<Rightarrow> nat option" where
  "strchr_idx [] c = None"
| "strchr_idx (d # s) c = (if d = c then Some 0 else map_option Suc (strchr_idx s c))"

fun strpbrk_idx :: "string \<Rightarrow> string \<Rightarrow> nat option" where
  "strpbrk_idx [] cs = None"
| "strpbrk_idx (d # s) cs = (if d \<in> set cs then Some 0 else map_option Suc (strpbrk_idx s cs))"

fun strcspn :: "string \<Rightarrow> string \<Rightarrow> nat" where
  "strcspn [] cs = 0"
| "strcspn (d # s) cs = (if d \<in> set cs then 0 else Suc (strcspn s cs))"

text \<open>The start of the group's characters and their number.\<close>

definition get_group_bounds :: "string option \<Rightarrow> (nat \<times> nat) option" where
  "get_group_bounds pattern =
     (case pattern of None \<Rightarrow> None
      | Some [] \<Rightarrow> None
      | Some (b # p) \<Rightarrow>
          if b \<noteq> CHR ''['' then None
          else
            let start = (case p of c # _ \<Rightarrow> if c = CHR ''^'' then 2 else 1 | [] \<Rightarrow> 1) in
            case strchr_idx (drop start (b # p)) (CHR '']'') of None \<Rightarrow> None | Some len \<Rightarrow> Some (start, len))"

text \<open>The string in the destination buffer, of \<open>cap\<close> bytes, or failure.\<close>

definition slice_to_buffer :: "string option \<Rightarrow> nat \<Rightarrow> nat \<Rightarrow> string option" where
  "slice_to_buffer src len cap =
     (case src of None \<Rightarrow> None | Some s \<Rightarrow> if len \<ge> cap then None else Some (take len s))"

definition find_any_char :: "string option \<Rightarrow> string option \<Rightarrow> nat option" where
  "find_any_char text charset =
     (case (text, charset) of (Some t, Some cs) \<Rightarrow> strpbrk_idx t cs | _ \<Rightarrow> None)"

definition match_charset_rec :: "string option \<Rightarrow> string \<Rightarrow> bool" where
  "match_charset_rec text charset =
     (case text of None \<Rightarrow> False | Some t \<Rightarrow> if t = [] then False else strpbrk_idx t charset \<noteq> None)"

definition not_match_charset_rec :: "string option \<Rightarrow> string \<Rightarrow> bool" where
  "not_match_charset_rec text charset =
     (case text of None \<Rightarrow> False | Some t \<Rightarrow> if t = [] then False else if strcspn t charset = 0 then False else True)"

definition group_charset :: "string option \<Rightarrow> string option" where
  "group_charset pattern =
     (case get_group_bounds pattern of None \<Rightarrow> None
      | Some (start, len) \<Rightarrow> slice_to_buffer (map_option (drop start) pattern) len 256)"

definition match_pos_bracket_grp :: "string option \<Rightarrow> string option \<Rightarrow> bool" where
  "match_pos_bracket_grp input_line pattern =
     (case group_charset pattern of None \<Rightarrow> False | Some charset \<Rightarrow> match_charset_rec input_line charset)"

definition match_neg_bracket_grp :: "string option \<Rightarrow> string option \<Rightarrow> bool" where
  "match_neg_bracket_grp input_line pattern =
     (case group_charset pattern of None \<Rightarrow> False | Some charset \<Rightarrow> not_match_charset_rec input_line charset)"

section \<open>Traversals are list functions\<close>

lemma count_loop_filter: "count_loop f s n = n + length (filter f s)"
  by (induction s arbitrary: n) auto

lemma rec_list_functions:
  "rec_strlen s = length s" "rec_count_char s c = count_list s c" "rec_contains s c \<longleftrightarrow> c \<in> set s"
  by (induction s) auto

lemma starts_with_prefix: "rec_starts_with p t \<longleftrightarrow> prefix p t"
  by (induction p t rule: rec_starts_with.induct) auto

lemma prefix_loop_Nil: "prefix_loop s p = [] \<longleftrightarrow> prefix p s"
  by (induction s p rule: prefix_loop.induct) auto

lemma match_prefix_iff: "match_prefix (Some t) (Some p) \<longleftrightarrow> prefix p t"
  by (simp add: match_prefix_def prefix_loop_Nil)

text \<open>The first index from \<open>i\<close> on with a property of the rest of the list.\<close>

definition first_at :: "(string \<Rightarrow> bool) \<Rightarrow> string \<Rightarrow> nat option \<Rightarrow> bool" where
  "first_at Q s r = (case r of None \<Rightarrow> \<forall>i<length s. \<not> Q (drop i s)
     | Some i \<Rightarrow> i < length s \<and> Q (drop i s) \<and> (\<forall>j<i. \<not> Q (drop j s)))"

lemma first_at_Cons:
  "Q (c # s) \<Longrightarrow> first_at Q (c # s) (Some 0)"
  "\<not> Q (c # s) \<Longrightarrow> first_at Q s r \<Longrightarrow> first_at Q (c # s) (map_option Suc r)"
  by (auto simp: first_at_def less_Suc_eq_0_disj split: option.splits)

lemma substring_loop_shift: "substring_loop s p i = map_option (\<lambda>k. k + i) (substring_loop s p 0)"
proof (induction s arbitrary: i)
  case (Cons c s)
  show ?case using Cons.IH [of "i + 1"] Cons.IH [of 1] by (simp add: option.map_comp o_def)
qed simp

lemma first_digit_shift: "first_digit_loop s i = map_option (\<lambda>k. k + i) (first_digit_loop s 0)"
proof (induction s arbitrary: i)
  case (Cons c s)
  show ?case using Cons.IH [of "i + 1"] Cons.IH [of 1] by (simp add: option.map_comp o_def)
qed simp

lemma substring_loop_first: "first_at (prefix p) s (substring_loop s p 0)"
proof (induction s)
  case (Cons c s)
  show ?case
    using first_at_Cons [of "prefix p" c s] Cons substring_loop_shift [of s p 1] by (auto simp: match_prefix_iff)
qed (simp add: first_at_def)

lemma first_digit_first: "first_at (\<lambda>s. isdigit (hd s)) s (find_first_digit s)"
  unfolding find_first_digit_def
proof (induction s)
  case (Cons c s)
  show ?case using first_at_Cons [of "\<lambda>s. isdigit (hd s)" c s] Cons first_digit_shift [of s 1] by auto
qed (simp add: first_at_def)

lemma last_digit_loop_last:
  "case last_digit_loop s n of None \<Rightarrow> \<forall>j<n. \<not> isdigit (s ! j)
   | Some i \<Rightarrow> i < n \<and> isdigit (s ! i) \<and> (\<forall>j. i < j \<and> j < n \<longrightarrow> \<not> isdigit (s ! j))"
  by (induction s n rule: last_digit_loop.induct) (auto split: option.splits simp: less_Suc_eq)

text \<open>
  Searching: \<open>find_substring\<close> returns the first occurrence of the pattern, and null
  exactly when there is none or an argument is null; \<open>match_prefix\<close> and
  \<open>rec_starts_with\<close> are the prefix relation.
\<close>

theorem substring_search_correct:
  "(case find_substring (Some t) (Some p) of
      None \<Rightarrow> \<not> sublist p t
    | Some i \<Rightarrow> i \<le> length t \<and> prefix p (drop i t) \<and> \<not> (\<exists>j<i. prefix p (drop j t))) \<and>
   find_substring None q = None \<and> find_substring q None = None \<and>
   (match_prefix (Some t) (Some p) \<longleftrightarrow> prefix p t) \<and> (rec_starts_with p t \<longleftrightarrow> prefix p t)"
proof (intro conjI)
  show "case find_substring (Some t) (Some p) of None \<Rightarrow> \<not> sublist p t
    | Some i \<Rightarrow> i \<le> length t \<and> prefix p (drop i t) \<and> \<not> (\<exists>j<i. prefix p (drop j t))"
  proof (cases "p = []")
    case False
    have "sublist p t \<longleftrightarrow> (\<exists>i<length t. prefix p (drop i t))"
    proof
      assume "sublist p t"
      then obtain a b where t: "t = a @ p @ b" by (auto simp: sublist_def)
      then show "\<exists>i<length t. prefix p (drop i t)" using False by (intro exI [of _ "length a"]) auto
    next
      assume "\<exists>i<length t. prefix p (drop i t)"
      then show "sublist p t" by (meson prefix_imp_sublist sublist_drop sublist_order.order.trans)
    qed
    then show ?thesis
      using substring_loop_first [of p t] False by (auto simp: find_substring_def first_at_def split: option.splits)
  qed (simp add: find_substring_def)
qed (auto simp: find_substring_def match_prefix_iff starts_with_prefix split: option.splits)

text \<open>Backtracking: the matcher accepts exactly the texts that begin with one or more targets followed by the rest.\<close>

theorem one_or_more_correct:
  "rec_match_one_or_more c rest s \<longleftrightarrow> (\<exists>k u. 0 < k \<and> s = replicate k c @ rest @ u)"
proof (induction s)
  case (Cons d t)
  have step: "(\<exists>k u. 0 < k \<and> d # t = replicate k c @ rest @ u) \<longleftrightarrow> d = c \<and> (\<exists>k u. t = replicate k c @ rest @ u)"
  proof
    assume "\<exists>k u. 0 < k \<and> d # t = replicate k c @ rest @ u"
    then obtain k u where "0 < k" "d # t = replicate k c @ rest @ u" by blast
    then show "d = c \<and> (\<exists>k u. t = replicate k c @ rest @ u)" by (cases k) auto
  next
    assume "d = c \<and> (\<exists>k u. t = replicate k c @ rest @ u)"
    then obtain k u where "d = c" "t = replicate k c @ rest @ u" by blast
    then show "\<exists>k u. 0 < k \<and> d # t = replicate k c @ rest @ u" by (intro exI [of _ "Suc k"] exI [of _ u]) simp
  qed
  have "(\<exists>k u. t = replicate k c @ rest @ u) \<longleftrightarrow> (\<exists>k u. 0 < k \<and> t = replicate k c @ rest @ u) \<or> (\<exists>u. t = rest @ u)"
  proof
    assume "\<exists>k u. t = replicate k c @ rest @ u"
    then obtain k u where "t = replicate k c @ rest @ u" by blast
    then show "(\<exists>k u. 0 < k \<and> t = replicate k c @ rest @ u) \<or> (\<exists>u. t = rest @ u)" by (cases k) (auto simp del: replicate_Suc)
  qed (auto intro: exI [of _ 0])
  then show ?case using step Cons by (auto simp: starts_with_prefix prefix_def)
qed simp

section \<open>Patterns\<close>

lemma match_loop_iff:
  "match_loop kind p s = (if list_ex (\<lambda>c. if kind = PATTERN_LITERAL then c = hd p else test_char c kind) s
    then MATCH_FOUND else MATCH_NOT_FOUND)"
  by (induction s) auto

lemma find_pattern_iff: "find_pattern s p \<longleftrightarrow> list_ex (\<lambda>c. match_here [c] p) s"
proof (induction s)
  case (Cons c s)
  then show ?case by (cases p) simp_all
qed simp

text \<open>
  Single-token patterns: a syntax error exactly for the patterns that are not a
  token, otherwise whether some character satisfies it; on the patterns they share,
  the two matchers agree.
\<close>

theorem token_patterns_correct:
  "match_string line pattern =
     (if classify_token pattern = PATTERN_INVALID then MATCH_SYNTAX_ERROR
      else if list_ex (\<lambda>c. if classify_token pattern = PATTERN_LITERAL then pattern = Some [c] else test_char c (classify_token pattern)) line
      then MATCH_FOUND else MATCH_NOT_FOUND) \<and>
   (find_pattern line [CHR 0x5C, CHR ''w''] \<longleftrightarrow> match_string line (Some [CHR 0x5C, CHR ''w'']) = MATCH_FOUND) \<and>
   (d = CHR 0x5C \<or> (find_pattern line [d] \<longleftrightarrow> match_string line (Some [d]) = MATCH_FOUND))"
proof (intro conjI)
  have lit: "(\<lambda>c. if classify_token pattern = PATTERN_LITERAL then c = hd p else test_char c (classify_token pattern)) =
    (\<lambda>c. if classify_token pattern = PATTERN_LITERAL then pattern = Some [c] else test_char c (classify_token pattern))"
    if "pattern = Some p" for p
    using that by (intro ext) (auto simp: classify_token_def split: list.splits if_splits)
  show "match_string line pattern = (if classify_token pattern = PATTERN_INVALID then MATCH_SYNTAX_ERROR
      else if list_ex (\<lambda>c. if classify_token pattern = PATTERN_LITERAL then pattern = Some [c] else test_char c (classify_token pattern)) line
      then MATCH_FOUND else MATCH_NOT_FOUND)"
  proof (cases pattern)
    case None
    then show ?thesis by (simp add: match_string_def classify_token_def)
  next
    case (Some p)
    show ?thesis unfolding match_string_def Let_def lit [OF Some, symmetric] by (simp add: Some match_loop_iff)
  qed
qed (auto simp: find_pattern_iff match_string_def classify_token_def match_loop_iff test_char_def is_word_char_def Let_def)

lemma strchr_first: "c \<notin> set a \<Longrightarrow> strchr_idx (a @ c # b) c = Some (length a)"
  by (induction a) auto

lemma strpbrk_iff: "strpbrk_idx s cs \<noteq> None \<longleftrightarrow> set s \<inter> set cs \<noteq> {}"
  by (induction s) auto

lemma strcspn_0: "strcspn s cs = 0 \<longleftrightarrow> s = [] \<or> hd s \<in> set cs"
  by (cases s) auto

lemma group_charset_plain:
  assumes "CHR '']'' \<notin> set cs" "cs = [] \<or> hd cs \<noteq> CHR ''^''" "length cs < 256"
  shows "group_charset (Some (CHR ''['' # cs @ CHR '']'' # rest)) = Some cs"
  using assms strchr_first [OF assms(1), of rest]
  by (cases cs) (simp_all add: group_charset_def get_group_bounds_def slice_to_buffer_def)

lemma group_charset_negated:
  assumes "CHR '']'' \<notin> set cs" "length cs < 256"
  shows "group_charset (Some (CHR ''['' # CHR ''^'' # cs @ CHR '']'' # rest)) = Some cs"
  using assms strchr_first [OF assms(1), of rest]
  by (simp add: group_charset_def get_group_bounds_def slice_to_buffer_def)

text \<open>
  Character groups of fewer than 256 characters: a positive group matches a line
  that has one of them anywhere, a negated group a line whose first character is
  none of them.
\<close>

theorem bracket_groups_correct:
  assumes "CHR '']'' \<notin> set cs" "length cs < 256"
  shows "(cs = [] \<or> hd cs \<noteq> CHR ''^'' \<longrightarrow>
      match_pos_bracket_grp (Some line) (Some (CHR ''['' # cs @ CHR '']'' # rest)) = (set line \<inter> set cs \<noteq> {})) \<and>
    match_neg_bracket_grp (Some line) (Some (CHR ''['' # CHR ''^'' # cs @ CHR '']'' # rest)) = (line \<noteq> [] \<and> hd line \<notin> set cs)"
  using group_charset_plain [OF assms(1) _ assms(2)] group_charset_negated [OF assms] strpbrk_iff strcspn_0
  by (auto simp: match_pos_bracket_grp_def match_neg_bracket_grp_def match_charset_rec_def not_match_charset_rec_def)

theorem bracket_groups_correct_witness:
  "match_pos_bracket_grp (Some ''apple'') (Some ''[abc]'') \<and> match_neg_bracket_grp (Some ''dog'') (Some ''[^abc]'') \<and>
   \<not> match_neg_bracket_grp (Some ''apple'') (Some ''[^abc]'')"
  using bracket_groups_correct [of "''abc''" "''apple''" "[]"] bracket_groups_correct [of "''abc''" "''dog''" "[]"] by simp

text \<open>Only the first token of a longer pattern is compared, and an empty text matches nothing, not even the empty pattern.\<close>

lemma first_token_only: "match_here ''dog'' ''dx'' \<and> match_here [] [] \<and> \<not> find_pattern [] []"
  by simp
end
