(* ===== verification/Pipeline.thy ===== *)
theory Pipeline
  imports Prelude
begin

text \<open>
  The five-stage pipeline of \<open>exercises/19_pipelining_hazards.c\<close>: the cycle engine
  with the hazard and forwarding units as they stand, which detect nothing and
  forward nothing. Registers and memory hold bytes; the register file is indexed
  by the enumeration and memory by a byte, so that no access is out of range.
\<close>

datatype reg_id_t = REG_NONE | REG_R1 | REG_R2 | REG_R3

datatype opcode_t = OP_NOP | OP_LOAD | OP_STORE | OP_ADD | OP_SUB | OP_ADDI | OP_SUBI | OP_JUMP | OP_BEQZ | OP_HALT

datatype forward_src_t = FWD_NONE | FWD_EX | FWD_MEM | FWD_WB

record instruction_t =
  inst_id :: "32 word"
  inst_pc :: "32 word"
  opc :: opcode_t
  dst :: reg_id_t
  srcA :: reg_id_t
  srcB :: reg_id_t
  imm :: "8 word"
  maddr :: "8 word"
  lab :: string

record pipe_reg_t =
  valid :: bool
  bubble :: bool
  inst :: instruction_t
  valA :: "8 word"
  valB :: "8 word"
  valE :: "8 word"
  valM :: "8 word"

record pipeline_t =
  pc :: "32 word"
  d_stage :: pipe_reg_t
  e_stage :: pipe_reg_t
  m_stage :: pipe_reg_t
  w_stage :: pipe_reg_t
  registers :: "reg_id_t \<Rightarrow> 8 word"
  memory :: "8 word \<Rightarrow> 8 word"
  cycle_count :: "32 word"
  stall_count :: "32 word"
  inst_retired :: "32 word"
  halted :: bool
  forwarding_enabled :: bool

definition make_inst ::
  "32 word \<Rightarrow> 32 word \<Rightarrow> opcode_t \<Rightarrow> reg_id_t \<Rightarrow> reg_id_t \<Rightarrow> reg_id_t \<Rightarrow> 8 word \<Rightarrow> 8 word \<Rightarrow> string \<Rightarrow> instruction_t" where
  "make_inst i p oper d a b im ad l =
     \<lparr>inst_id = i, inst_pc = p, opc = oper, dst = d, srcA = a, srcB = b, imm = im, maddr = ad, lab = l\<rparr>"

definition make_bubble :: instruction_t where
  "make_bubble = make_inst 0 0 OP_NOP REG_NONE REG_NONE REG_NONE 0 0 ''bubble''"

text \<open>The value of \<open>{0}\<close>, and the zeroed pipeline that \<open>pipeline_init\<close> starts from.\<close>

definition empty_reg :: pipe_reg_t where
  "empty_reg = \<lparr>valid = False, bubble = False, inst = make_inst 0 0 OP_NOP REG_NONE REG_NONE REG_NONE 0 0 [],
     valA = 0, valB = 0, valE = 0, valM = 0\<rparr>"

definition pipeline_init :: "bool \<Rightarrow> pipeline_t" where
  "pipeline_init enable_forwarding =
     \<lparr>pc = 8, d_stage = empty_reg, e_stage = empty_reg, m_stage = empty_reg, w_stage = empty_reg,
      registers = (\<lambda>_. 0), memory = (\<lambda>_. 0), cycle_count = 0, stall_count = 0, inst_retired = 0,
      halted = False, forwarding_enabled = enable_forwarding\<rparr>"

section \<open>The units\<close>

definition detect_raw_stall_in_decode :: "pipeline_t \<Rightarrow> bool \<times> reg_id_t" where
  "detect_raw_stall_in_decode pipe = (False, REG_NONE)"

definition resolve_forwarding :: "pipeline_t \<Rightarrow> reg_id_t \<Rightarrow> forward_src_t" where
  "resolve_forwarding pipe src_reg = FWD_NONE"

definition get_forwarded_value :: "pipeline_t \<Rightarrow> forward_src_t \<Rightarrow> 8 word \<Rightarrow> 8 word" where
  "get_forwarded_value pipe fwd reg_file_val = reg_file_val"

definition detect_load_use_hazard :: "pipeline_t \<Rightarrow> bool \<times> reg_id_t" where
  "detect_load_use_hazard pipe = (False, REG_NONE)"

section \<open>A cycle\<close>

definition active :: "pipe_reg_t \<Rightarrow> bool" where
  "active r \<longleftrightarrow> valid r \<and> \<not> bubble r"

definition write_back :: "pipeline_t \<Rightarrow> pipeline_t" where
  "write_back p =
     (let r = w_stage p; i = inst r in
      if active r then
        let p = (if dst i \<noteq> REG_NONE
                 then p\<lparr>registers := (registers p)(dst i := if opc i = OP_LOAD then valM r else valE r)\<rparr> else p);
            p = (if opc i = OP_HALT then p\<lparr>halted := True\<rparr> else p)
        in p\<lparr>inst_retired := inst_retired p + 1\<rparr>
      else p)"

definition memory_stage :: "pipeline_t \<Rightarrow> pipe_reg_t \<times> pipeline_t" where
  "memory_stage p =
     (let r = m_stage p; i = inst r in
      if active r then
        let next_w = empty_reg\<lparr>valid := True, inst := i, valE := valE r\<rparr> in
        if opc i = OP_LOAD then
          let next_w = next_w\<lparr>valM := memory p (maddr i)\<rparr>
          in (next_w, p\<lparr>m_stage := r\<lparr>valM := valM next_w\<rparr>\<rparr>)
        else if opc i = OP_STORE then (next_w, p\<lparr>memory := (memory p)(maddr i := valA r)\<rparr>)
        else (next_w, p)
      else (empty_reg, p))"

text \<open>The result of the \<open>switch\<close>: the ALU value and the target of a taken branch.\<close>

definition alu :: "instruction_t \<Rightarrow> 8 word \<Rightarrow> 8 word \<Rightarrow> 8 word \<times> 32 word option" where
  "alu i opA opB = (case opc i of
     OP_ADD \<Rightarrow> (opA + opB, None)
   | OP_SUB \<Rightarrow> (opA - opB, None)
   | OP_ADDI \<Rightarrow> (opA + imm i, None)
   | OP_SUBI \<Rightarrow> (opA - imm i, None)
   | OP_BEQZ \<Rightarrow> (0, if opA = 0 then Some (inst_pc i + 3 + ucast (imm i)) else None)
   | OP_JUMP \<Rightarrow> (0, Some (ucast (maddr i)))
   | _ \<Rightarrow> (0, None))"

definition execute_stage :: "pipeline_t \<Rightarrow> pipe_reg_t \<times> 32 word option \<times> pipeline_t" where
  "execute_stage p =
     (let r = e_stage p in
      if active r then
        (case alu (inst r) (valA r) (valB r) of (v, branch) \<Rightarrow>
          (empty_reg\<lparr>valid := True, inst := inst r, valE := v, valA := valA r\<rparr>, branch, p\<lparr>e_stage := r\<lparr>valE := v\<rparr>\<rparr>))
      else (empty_reg, None, p))"

definition decode_stage :: "pipeline_t \<Rightarrow> pipe_reg_t" where
  "decode_stage p =
     (let r = d_stage p; i = inst r in
      if active r then
        let rawA = (if srcA i \<noteq> REG_NONE then registers p (srcA i) else 0);
            rawB = (if srcB i \<noteq> REG_NONE then registers p (srcB i) else 0);
            next_e = empty_reg\<lparr>valid := True, inst := i\<rparr>
        in if forwarding_enabled p
           then next_e\<lparr>valA := get_forwarded_value p (resolve_forwarding p (srcA i)) rawA,
                       valB := get_forwarded_value p (resolve_forwarding p (srcB i)) rawB\<rparr>
           else next_e\<lparr>valA := rawA, valB := rawB\<rparr>
      else empty_reg)"

definition fetch_stage :: "instruction_t list \<Rightarrow> pipeline_t \<Rightarrow> pipe_reg_t \<times> 32 word" where
  "fetch_stage prog p =
     (if \<not> halted p \<and> unat (pc p) < length prog * 3 + 8 then
        (case find (\<lambda>i. inst_pc i = pc p) prog of
           Some i \<Rightarrow>
             ((d_stage p)\<lparr>valid := True, bubble := False, inst := i\<rparr>,
              if opc i = OP_JUMP then pc p + 2 else if opc i = OP_HALT then pc p + 1 else pc p + 3)
         | None \<Rightarrow> ((d_stage p)\<lparr>valid := False\<rparr>, pc p))
      else ((d_stage p)\<lparr>valid := False\<rparr>, pc p))"

definition pipeline_step :: "instruction_t list \<Rightarrow> pipeline_t \<Rightarrow> pipeline_t" where
  "pipeline_step prog p =
     (let p = write_back (p\<lparr>cycle_count := cycle_count p + 1\<rparr>) in
      case memory_stage p of (next_w, p) \<Rightarrow>
      case execute_stage p of (next_m, branch, p) \<Rightarrow>
      let stall = (if forwarding_enabled p then fst (detect_load_use_hazard p) else fst (detect_raw_stall_in_decode p));
          flushed = empty_reg\<lparr>bubble := True\<rparr>
      in case branch of
           Some branch_target \<Rightarrow>
             p\<lparr>pc := branch_target, w_stage := next_w, m_stage := next_m, e_stage := flushed,
               d_stage := (d_stage p)\<lparr>valid := False, bubble := True\<rparr>\<rparr>
         | None \<Rightarrow>
             if stall then
               p\<lparr>stall_count := stall_count p + 1, w_stage := next_w, m_stage := next_m,
                 e_stage := empty_reg\<lparr>valid := True, bubble := True, inst := make_bubble\<rparr>\<rparr>
             else
               (case fetch_stage prog p of (next_d, next_pc) \<Rightarrow>
                 p\<lparr>pc := next_pc, w_stage := next_w, m_stage := next_m, e_stage := decode_stage p, d_stage := next_d\<rparr>))"

section \<open>The instruction set\<close>

text \<open>One instruction after the other, on registers and memory.\<close>

definition reg_val :: "(reg_id_t \<Rightarrow> 8 word) \<Rightarrow> reg_id_t \<Rightarrow> 8 word" where
  "reg_val R r = (if r = REG_NONE then 0 else R r)"

fun exec_inst :: "instruction_t \<Rightarrow> (reg_id_t \<Rightarrow> 8 word) \<times> (8 word \<Rightarrow> 8 word) \<Rightarrow> (reg_id_t \<Rightarrow> 8 word) \<times> (8 word \<Rightarrow> 8 word)" where
  "exec_inst i (R, M) = (case opc i of
     OP_LOAD \<Rightarrow> (R(dst i := M (maddr i)), M)
   | OP_STORE \<Rightarrow> (R, M(maddr i := reg_val R (srcA i)))
   | OP_ADD \<Rightarrow> (R(dst i := reg_val R (srcA i) + reg_val R (srcB i)), M)
   | OP_SUB \<Rightarrow> (R(dst i := reg_val R (srcA i) - reg_val R (srcB i)), M)
   | OP_ADDI \<Rightarrow> (R(dst i := reg_val R (srcA i) + imm i), M)
   | OP_SUBI \<Rightarrow> (R(dst i := reg_val R (srcA i) - imm i), M)
   | _ \<Rightarrow> (R, M))"

definition seq_state :: "instruction_t list \<Rightarrow> nat \<Rightarrow> (reg_id_t \<Rightarrow> 8 word) \<times> (8 word \<Rightarrow> 8 word)" where
  "seq_state prog k = fold exec_inst (take k prog) (\<lambda>_. 0, \<lambda>_. 0)"

text \<open>
  Straight-line programs: instructions of three bytes from address 8, an instruction
  that computes a value has a destination and no other has one.
\<close>

definition computes :: "opcode_t \<Rightarrow> bool" where
  "computes oper \<longleftrightarrow> oper \<in> {OP_LOAD, OP_ADD, OP_SUB, OP_ADDI, OP_SUBI}"

definition straight_line :: "instruction_t list \<Rightarrow> bool" where
  "straight_line prog \<longleftrightarrow> 3 * length prog + 8 < 2 ^ 32 \<and>
     (\<forall>k<length prog. inst_pc (prog ! k) = of_nat (8 + 3 * k) \<and>
       (computes (opc (prog ! k)) \<and> dst (prog ! k) \<noteq> REG_NONE \<or>
        opc (prog ! k) \<in> {OP_NOP, OP_STORE} \<and> dst (prog ! k) = REG_NONE))"

text \<open>No instruction reads what one of the two before it writes.\<close>

definition hazard_free :: "instruction_t list \<Rightarrow> bool" where
  "hazard_free prog \<longleftrightarrow> (\<forall>j<length prog. \<forall>k<j. j \<le> k + 2 \<longrightarrow>
     dst (prog ! k) = REG_NONE \<or> dst (prog ! k) \<noteq> srcA (prog ! j) \<and> dst (prog ! k) \<noteq> srcB (prog ! j))"

section \<open>The invariant of the cycles\<close>

abbreviation val_at :: "instruction_t list \<Rightarrow> nat \<Rightarrow> reg_id_t \<Rightarrow> 8 word" where
  "val_at prog k r \<equiv> reg_val (fst (seq_state prog k)) r"

definition result_of :: "instruction_t list \<Rightarrow> nat \<Rightarrow> 8 word" where
  "result_of prog k = fst (alu (prog ! k) (val_at prog k (srcA (prog ! k))) (val_at prog k (srcB (prog ! k))))"

text \<open>After \<open>t\<close> cycles, the stage \<open>off\<close> behind the fetch holds the instruction \<open>t - off\<close>, if there is one.\<close>

definition holds_inst :: "instruction_t list \<Rightarrow> nat \<Rightarrow> nat \<Rightarrow> pipe_reg_t \<Rightarrow> bool" where
  "holds_inst prog t off r \<longleftrightarrow>
     (if off \<le> t \<and> t - off < length prog then active r \<and> inst r = prog ! (t - off) else \<not> valid r)"

definition cycle_inv :: "instruction_t list \<Rightarrow> nat \<Rightarrow> pipeline_t \<Rightarrow> bool" where
  "cycle_inv prog t p \<longleftrightarrow>
     pc p = of_nat (8 + 3 * min t (length prog)) \<and>
     holds_inst prog t 1 (d_stage p) \<and> holds_inst prog t 2 (e_stage p) \<and>
     holds_inst prog t 3 (m_stage p) \<and> holds_inst prog t 4 (w_stage p) \<and>
     (active (e_stage p) \<longrightarrow> valA (e_stage p) = val_at prog (t - 2) (srcA (prog ! (t - 2))) \<and>
        valB (e_stage p) = val_at prog (t - 2) (srcB (prog ! (t - 2)))) \<and>
     (active (m_stage p) \<longrightarrow> valA (m_stage p) = val_at prog (t - 3) (srcA (prog ! (t - 3))) \<and>
        valE (m_stage p) = result_of prog (t - 3)) \<and>
     (active (w_stage p) \<longrightarrow> valE (w_stage p) = result_of prog (t - 4) \<and>
        (opc (prog ! (t - 4)) = OP_LOAD \<longrightarrow> valM (w_stage p) = snd (seq_state prog (t - 4)) (maddr (prog ! (t - 4))))) \<and>
     registers p = fst (seq_state prog (t - 4)) \<and> memory p = snd (seq_state prog (t - 3)) \<and>
     \<not> halted p \<and> cycle_count p = of_nat t \<and> stall_count p = 0 \<and> inst_retired p = of_nat (min (t - 4) (length prog))"

lemma init_inv: "cycle_inv prog 0 (pipeline_init fwd)"
  by (simp add: cycle_inv_def pipeline_init_def holds_inst_def empty_reg_def active_def seq_state_def)

lemma seq_state_Suc: "k < length prog \<Longrightarrow> seq_state prog (Suc k) = exec_inst (prog ! k) (seq_state prog k)"
  by (simp add: seq_state_def take_Suc_conv_app_nth)

lemma seq_state_end: "length prog \<le> k \<Longrightarrow> seq_state prog k = seq_state prog (length prog)"
  by (simp add: seq_state_def)

lemma straight_lineD:
  assumes "straight_line prog" "k < length prog"
  shows "inst_pc (prog ! k) = of_nat (8 + 3 * k)" "8 + 3 * k < 2 ^ 32"
    and "opc (prog ! k) \<in> {OP_NOP, OP_STORE, OP_LOAD, OP_ADD, OP_SUB, OP_ADDI, OP_SUBI}"
    and "dst (prog ! k) \<noteq> REG_NONE \<longleftrightarrow> opc (prog ! k) \<notin> {OP_NOP, OP_STORE}"
  using assms by (auto simp: straight_line_def computes_def)

lemma seq_effect:
  assumes "straight_line prog" "k < length prog"
  shows "fst (seq_state prog (Suc k)) = (if dst (prog ! k) = REG_NONE then fst (seq_state prog k)
      else (fst (seq_state prog k))(dst (prog ! k) :=
        if opc (prog ! k) = OP_LOAD then snd (seq_state prog k) (maddr (prog ! k)) else result_of prog k))"
    and "snd (seq_state prog (Suc k)) = (if opc (prog ! k) = OP_STORE
      then (snd (seq_state prog k))(maddr (prog ! k) := val_at prog k (srcA (prog ! k))) else snd (seq_state prog k))"
proof -
  obtain R M where s: "seq_state prog k = (R, M)" by fastforce
  note d = straight_lineD(3,4) [OF assms]
  show "fst (seq_state prog (Suc k)) = (if dst (prog ! k) = REG_NONE then fst (seq_state prog k)
      else (fst (seq_state prog k))(dst (prog ! k) :=
        if opc (prog ! k) = OP_LOAD then snd (seq_state prog k) (maddr (prog ! k)) else result_of prog k))"
    using d by (auto simp: seq_state_Suc [OF assms(2)] s result_of_def alu_def)
  show "snd (seq_state prog (Suc k)) = (if opc (prog ! k) = OP_STORE
      then (snd (seq_state prog k))(maddr (prog ! k) := val_at prog k (srcA (prog ! k))) else snd (seq_state prog k))"
    using d by (auto simp: seq_state_Suc [OF assms(2)] s)
qed

text \<open>A register that the last two instructions do not write is as it was before them.\<close>

lemma val_stable:
  assumes "straight_line prog" "k \<le> length prog"
    and "\<And>j. j < k \<Longrightarrow> k \<le> j + 2 \<Longrightarrow> dst (prog ! j) = REG_NONE \<or> dst (prog ! j) \<noteq> r"
  shows "val_at prog (k - 2) r = val_at prog k r"
proof -
  have one: "val_at prog (Suc j) r = val_at prog j r" if "j < k" "k \<le> j + 2" for j
    using seq_effect(1) [OF assms(1), of j] assms(2,3) that by (auto simp: reg_val_def)
  consider "k = 0" | "k = 1" | j where "k = Suc (Suc j)" by (metis One_nat_def not0_implies_Suc)
  then show ?thesis using one [of 0] one by cases auto
qed

lemma operands_stable:
  assumes "straight_line prog" "hazard_free prog" "k < length prog"
  shows "val_at prog (k - 2) (srcA (prog ! k)) = val_at prog k (srcA (prog ! k))"
    and "val_at prog (k - 2) (srcB (prog ! k)) = val_at prog k (srcB (prog ! k))"
proof -
  have free: "dst (prog ! j) = REG_NONE \<or> dst (prog ! j) \<noteq> srcA (prog ! k) \<and> dst (prog ! j) \<noteq> srcB (prog ! k)"
    if "j < k" "k \<le> j + 2" for j
    using assms(2,3) that unfolding hazard_free_def by blast
  show "val_at prog (k - 2) (srcA (prog ! k)) = val_at prog k (srcA (prog ! k))"
    "val_at prog (k - 2) (srcB (prog ! k)) = val_at prog k (srcB (prog ! k))"
    using assms(3) free by (intro val_stable [OF assms(1)]; force)+
qed

lemma fetch_found:
  assumes "straight_line prog" "k < length prog"
  shows "find (\<lambda>i. inst_pc i = of_nat (8 + 3 * k)) prog = Some (prog ! k)"
proof -
  have "of_nat (8 + 3 * j) \<noteq> (of_nat (8 + 3 * k) :: 32 word)" if "j < k" for j
  proof
    assume "of_nat (8 + 3 * j) = (of_nat (8 + 3 * k) :: 32 word)"
    then have "unat (of_nat (8 + 3 * j) :: 32 word) = unat (of_nat (8 + 3 * k) :: 32 word)" by (rule arg_cong)
    moreover have "8 + 3 * k < 2 ^ LENGTH(32)" "8 + 3 * j < 2 ^ LENGTH(32)" using straight_lineD(2) [OF assms] that by simp_all
    ultimately show False using that by (simp only: unat_of_nat_less)
  qed
  then show ?thesis
    unfolding find_Some_iff using assms straight_lineD(1) [OF assms(1)] by (intro exI [of _ k]) auto
qed

section \<open>The stages keep the invariant\<close>

lemma write_back_inv:
  assumes "straight_line prog" "cycle_inv prog t p"
  defines "p1 \<equiv> write_back (p\<lparr>cycle_count := cycle_count p + 1\<rparr>)"
  shows "registers p1 = fst (seq_state prog (Suc t - 4))"
    and "inst_retired p1 = of_nat (min (Suc t - 4) (length prog))"
    and "p1 = p\<lparr>cycle_count := of_nat (Suc t), registers := registers p1, inst_retired := inst_retired p1\<rparr>"
proof -
  note inv = assms(2) [unfolded cycle_inv_def]
  have h: "holds_inst prog t 4 (w_stage p)" using inv by blast
  have "registers p1 = fst (seq_state prog (Suc t - 4)) \<and> inst_retired p1 = of_nat (min (Suc t - 4) (length prog)) \<and>
    p1 = p\<lparr>cycle_count := of_nat (Suc t), registers := registers p1, inst_retired := inst_retired p1\<rparr>"
  proof (cases "4 \<le> t \<and> t - 4 < length prog")
    case True
    let ?k = "t - 4"
    have w: "active (w_stage p)" "inst (w_stage p) = prog ! ?k" "Suc t - 4 = Suc ?k"
      using h True by (simp_all add: holds_inst_def) arith
    have k: "?k < length prog" using True by simp
    have "opc (prog ! ?k) \<noteq> OP_HALT" using straight_lineD(3) [OF assms(1) k] by auto
    moreover have "min (Suc ?k) (length prog) = Suc ?k" "min ?k (length prog) = ?k" using k by simp_all
    ultimately show ?thesis
      using inv w seq_effect(1) [OF assms(1) k] by (simp add: p1_def write_back_def Let_def)
  next
    case False
    then have "\<not> active (w_stage p)" using h by (auto simp: holds_inst_def active_def)
    moreover have "seq_state prog (Suc t - 4) = seq_state prog (t - 4)" "min (Suc t - 4) (length prog) = min (t - 4) (length prog)"
      using False seq_state_end [of prog "Suc t - 4"] seq_state_end [of prog "t - 4"] by (cases "4 \<le> t"; auto)+
    ultimately show ?thesis using inv by (simp add: p1_def write_back_def Let_def)
  qed
  then show "registers p1 = fst (seq_state prog (Suc t - 4))" "inst_retired p1 = of_nat (min (Suc t - 4) (length prog))"
    "p1 = p\<lparr>cycle_count := of_nat (Suc t), registers := registers p1, inst_retired := inst_retired p1\<rparr>" by blast+
qed

lemma memory_stage_inv:
  assumes "straight_line prog" "holds_inst prog t 3 (m_stage p)" "memory p = snd (seq_state prog (t - 3))"
    and "active (m_stage p) \<longrightarrow> valA (m_stage p) = val_at prog (t - 3) (srcA (prog ! (t - 3))) \<and> valE (m_stage p) = result_of prog (t - 3)"
  shows "\<exists>next_w r. memory_stage p = (next_w, p\<lparr>m_stage := r, memory := snd (seq_state prog (Suc t - 3))\<rparr>) \<and>
    holds_inst prog (Suc t) 4 next_w \<and>
    (active next_w \<longrightarrow> valE next_w = result_of prog (Suc t - 4) \<and>
      (opc (prog ! (Suc t - 4)) = OP_LOAD \<longrightarrow> valM next_w = snd (seq_state prog (Suc t - 4)) (maddr (prog ! (Suc t - 4)))))"
proof (cases "3 \<le> t \<and> t - 3 < length prog")
  case True
  let ?k = "t - 3"
  have m: "active (m_stage p)" "inst (m_stage p) = prog ! ?k" "Suc t - 3 = Suc ?k" "Suc t - 4 = ?k"
    using assms(2) True by (simp_all add: holds_inst_def) arith
  have k: "?k < length prog" using True by simp
  let ?w = "empty_reg\<lparr>valid := True, inst := prog ! ?k, valE := valE (m_stage p),
    valM := if opc (prog ! ?k) = OP_LOAD then memory p (maddr (prog ! ?k)) else 0\<rparr>"
  let ?r = "if opc (prog ! ?k) = OP_LOAD then (m_stage p)\<lparr>valM := memory p (maddr (prog ! ?k))\<rparr> else m_stage p"
  have mem: "snd (seq_state prog (Suc t - 3)) =
      (if opc (prog ! ?k) = OP_STORE then (memory p)(maddr (prog ! ?k) := valA (m_stage p)) else memory p)"
    unfolding m(3) seq_effect(2) [OF assms(1) k] using assms(3,4) m(1) by simp
  have "memory_stage p = (?w, p\<lparr>m_stage := ?r, memory := snd (seq_state prog (Suc t - 3))\<rparr>)"
    unfolding mem using m(1,2) by (simp add: memory_stage_def Let_def empty_reg_def)
  moreover have "holds_inst prog (Suc t) 4 ?w" using m(4) True by (simp add: holds_inst_def active_def empty_reg_def)
  moreover have "valE ?w = result_of prog (Suc t - 4) \<and>
      (opc (prog ! (Suc t - 4)) = OP_LOAD \<longrightarrow> valM ?w = snd (seq_state prog (Suc t - 4)) (maddr (prog ! (Suc t - 4))))"
    using m(1,4) assms(3,4) by simp
  ultimately show ?thesis by (intro exI [of _ ?w] exI [of _ ?r]) blast
next
  case False
  then have "\<not> active (m_stage p)" using assms(2) by (auto simp: holds_inst_def active_def)
  moreover have "seq_state prog (Suc t - 3) = seq_state prog (t - 3)"
    using False seq_state_end [of prog "Suc t - 3"] seq_state_end [of prog "t - 3"] by (cases "3 \<le> t") auto
  ultimately have "memory_stage p = (empty_reg, p\<lparr>m_stage := m_stage p, memory := snd (seq_state prog (Suc t - 3))\<rparr>)"
    using assms(3) by (simp add: memory_stage_def Let_def)
  moreover have "holds_inst prog (Suc t) 4 empty_reg" using False by (auto simp: holds_inst_def empty_reg_def)
  moreover have "\<not> active empty_reg" by (simp add: active_def empty_reg_def)
  ultimately show ?thesis by blast
qed

lemma execute_stage_inv:
  assumes "straight_line prog" "holds_inst prog t 2 (e_stage p)"
    and "active (e_stage p) \<longrightarrow> valA (e_stage p) = val_at prog (t - 2) (srcA (prog ! (t - 2))) \<and>
      valB (e_stage p) = val_at prog (t - 2) (srcB (prog ! (t - 2)))"
  shows "\<exists>next_m r. execute_stage p = (next_m, None, p\<lparr>e_stage := r\<rparr>) \<and> holds_inst prog (Suc t) 3 next_m \<and>
    (active next_m \<longrightarrow> valA next_m = val_at prog (Suc t - 3) (srcA (prog ! (Suc t - 3))) \<and> valE next_m = result_of prog (Suc t - 3))"
proof (cases "2 \<le> t \<and> t - 2 < length prog")
  case True
  let ?k = "t - 2"
  have e: "active (e_stage p)" "inst (e_stage p) = prog ! ?k" "Suc t - 3 = ?k"
    using assms(2) True by (simp_all add: holds_inst_def)
  have "snd (alu (prog ! ?k) a b) = None" for a b
    using straight_lineD(3) [OF assms(1), of ?k] True by (auto simp: alu_def)
  then obtain v where "alu (prog ! ?k) (valA (e_stage p)) (valB (e_stage p)) = (v, None)" "v = result_of prog ?k"
    using assms(3) e(1) by (metis prod.collapse result_of_def)
  then show ?thesis
    using e True assms(3) by (auto simp: execute_stage_def Let_def holds_inst_def active_def empty_reg_def)
next
  case False
  then have "\<not> active (e_stage p)" using assms(2) by (auto simp: holds_inst_def active_def)
  then have "execute_stage p = (empty_reg, None, p\<lparr>e_stage := e_stage p\<rparr>)" by (simp add: execute_stage_def Let_def)
  moreover have "holds_inst prog (Suc t) 3 empty_reg" using False by (auto simp: holds_inst_def empty_reg_def)
  moreover have "\<not> active empty_reg" by (simp add: active_def empty_reg_def)
  ultimately show ?thesis by blast
qed

lemma decode_stage_inv:
  assumes "straight_line prog" "hazard_free prog" "holds_inst prog t 1 (d_stage p)" "registers p = fst (seq_state prog (Suc t - 4))"
  shows "holds_inst prog (Suc t) 2 (decode_stage p) \<and>
    (active (decode_stage p) \<longrightarrow> valA (decode_stage p) = val_at prog (Suc t - 2) (srcA (prog ! (Suc t - 2))) \<and>
      valB (decode_stage p) = val_at prog (Suc t - 2) (srcB (prog ! (Suc t - 2))))"
proof (cases "1 \<le> t \<and> t - 1 < length prog")
  case True
  let ?k = "t - 1"
  have d: "active (d_stage p)" "inst (d_stage p) = prog ! ?k" "Suc t - 2 = ?k" "Suc t - 4 = ?k - 2"
    using assms(3) True by (simp_all add: holds_inst_def)
  have k: "?k < length prog" using True by simp
  show ?thesis
    using d True assms(4) operands_stable [OF assms(1,2) k]
    by (auto simp: decode_stage_def Let_def holds_inst_def active_def empty_reg_def get_forwarded_value_def reg_val_def)
next
  case False
  then have "\<not> active (d_stage p)" using assms(3) by (auto simp: holds_inst_def active_def)
  then show ?thesis using False by (auto simp: decode_stage_def Let_def holds_inst_def active_def empty_reg_def)
qed

lemma fetch_stage_inv:
  assumes "straight_line prog" "pc p = of_nat (8 + 3 * min t (length prog))" "\<not> halted p"
  shows "\<exists>next_d. fetch_stage prog p = (next_d, of_nat (8 + 3 * min (Suc t) (length prog))) \<and> holds_inst prog (Suc t) 1 next_d"
proof (cases "t < length prog")
  case True
  have u: "unat (of_nat (8 + 3 * t) :: 32 word) = 8 + 3 * t"
    using straight_lineD(2) [OF assms(1) True] by (intro unat_of_nat_less) simp
  have "opc (prog ! t) \<noteq> OP_JUMP" "opc (prog ! t) \<noteq> OP_HALT" using straight_lineD(3) [OF assms(1) True] by auto
  then show ?thesis
    using True assms(2,3) u fetch_found [OF assms(1) True] by (simp add: fetch_stage_def holds_inst_def active_def algebra_simps)
next
  case False
  have "unat (of_nat (8 + 3 * length prog) :: 32 word) = 8 + 3 * length prog"
    using assms(1) by (intro unat_of_nat_less) (simp add: straight_line_def)
  then show ?thesis using False assms(2,3) by (simp add: fetch_stage_def holds_inst_def algebra_simps)
qed

lemma pipeline_step_inv:
  assumes prog: "straight_line prog" "hazard_free prog" and inv: "cycle_inv prog t p"
  shows "cycle_inv prog (Suc t) (pipeline_step prog p)"
proof -
  note i = inv [unfolded cycle_inv_def]
  define p1 where "p1 = write_back (p\<lparr>cycle_count := cycle_count p + 1\<rparr>)"
  note wb = write_back_inv [OF prog(1) inv, folded p1_def]
  have p1: "pc p1 = pc p" "d_stage p1 = d_stage p" "e_stage p1 = e_stage p" "m_stage p1 = m_stage p" "memory p1 = memory p"
    "halted p1 = halted p" "stall_count p1 = stall_count p" "cycle_count p1 = of_nat (Suc t)"
    by (subst wb(3), simp)+
  obtain next_w r where m: "memory_stage p1 = (next_w, p1\<lparr>m_stage := r, memory := snd (seq_state prog (Suc t - 3))\<rparr>)"
    "holds_inst prog (Suc t) 4 next_w"
    "active next_w \<longrightarrow> valE next_w = result_of prog (Suc t - 4) \<and>
      (opc (prog ! (Suc t - 4)) = OP_LOAD \<longrightarrow> valM next_w = snd (seq_state prog (Suc t - 4)) (maddr (prog ! (Suc t - 4))))"
    using memory_stage_inv [OF prog(1), of t p1] i p1 by auto
  define p2 where "p2 = p1\<lparr>m_stage := r, memory := snd (seq_state prog (Suc t - 3))\<rparr>"
  obtain next_m q where e: "execute_stage p2 = (next_m, None, p2\<lparr>e_stage := q\<rparr>)" "holds_inst prog (Suc t) 3 next_m"
    "active next_m \<longrightarrow> valA next_m = val_at prog (Suc t - 3) (srcA (prog ! (Suc t - 3))) \<and> valE next_m = result_of prog (Suc t - 3)"
    using execute_stage_inv [OF prog(1), of t p2] i p1 by (auto simp: p2_def)
  define p3 where "p3 = p2\<lparr>e_stage := q\<rparr>"
  have d: "holds_inst prog (Suc t) 2 (decode_stage p3)"
    "active (decode_stage p3) \<longrightarrow> valA (decode_stage p3) = val_at prog (Suc t - 2) (srcA (prog ! (Suc t - 2))) \<and>
      valB (decode_stage p3) = val_at prog (Suc t - 2) (srcB (prog ! (Suc t - 2)))"
    using decode_stage_inv [OF prog, of t p3] i p1 wb(1) by (auto simp: p2_def p3_def)
  obtain next_d where f: "fetch_stage prog p3 = (next_d, of_nat (8 + 3 * min (Suc t) (length prog)))" "holds_inst prog (Suc t) 1 next_d"
    using fetch_stage_inv [OF prog(1), of p3 t] i p1 by (auto simp: p2_def p3_def)
  have step: "pipeline_step prog p = p3\<lparr>pc := of_nat (8 + 3 * min (Suc t) (length prog)), w_stage := next_w,
      m_stage := next_m, e_stage := decode_stage p3, d_stage := next_d\<rparr>"
    unfolding pipeline_step_def Let_def p1_def [symmetric] m(1) [folded p2_def] prod.case e(1) [folded p3_def] option.case
      detect_load_use_hazard_def detect_raw_stall_in_decode_def fst_conv if_cancel if_False f(1) ..
  show ?thesis
    unfolding cycle_inv_def step using m(2,3) e(2,3) d f(2) i p1 wb(1,2) by (simp add: p2_def p3_def)
qed

lemma cycles_inv:
  "straight_line prog \<Longrightarrow> hazard_free prog \<Longrightarrow> cycle_inv prog t ((pipeline_step prog ^^ t) (pipeline_init fwd))"
  by (induction t) (simp_all add: init_inv pipeline_step_inv)

text \<open>
  C27. A straight-line program in which no instruction reads what one of the two before
  it writes runs in the pipeline as one instruction after the other: after \<open>n + 4\<close>
  cycles all \<open>n\<close> instructions have retired without a stall, and registers and memory
  are those of the sequential execution, with forwarding or without.
\<close>

theorem pipeline_refines_isa:
  assumes "straight_line prog" "hazard_free prog"
  shows "let p = (pipeline_step prog ^^ (length prog + 4)) (pipeline_init fwd) in
    (registers p, memory p) = seq_state prog (length prog) \<and> inst_retired p = of_nat (length prog) \<and>
    stall_count p = 0 \<and> cycle_count p = of_nat (length prog + 4)"
  using cycles_inv [OF assms, of "length prog + 4" fwd] seq_state_end [of prog "length prog + 1"]
  by (simp add: cycle_inv_def Let_def del: funpow.simps)

definition sample_prog :: "instruction_t list" where
  "sample_prog =
     [make_inst 1 8 OP_ADDI REG_R1 REG_R1 REG_NONE 5 0 [], make_inst 2 11 OP_ADDI REG_R2 REG_R2 REG_NONE 7 0 [],
      make_inst 3 14 OP_NOP REG_NONE REG_NONE REG_NONE 0 0 [], make_inst 4 17 OP_NOP REG_NONE REG_NONE REG_NONE 0 0 [],
      make_inst 5 20 OP_ADD REG_R3 REG_R1 REG_R2 0 0 []]"

theorem pipeline_refines_isa_witness:
  "registers ((pipeline_step sample_prog ^^ 9) (pipeline_init True)) REG_R3 = 12 \<and>
   cycle_count ((pipeline_step sample_prog ^^ 9) (pipeline_init True)) = 9"
proof -
  have len: "length sample_prog = 5" by (simp add: sample_prog_def)
  have five: "(5 :: nat) = Suc (Suc (Suc (Suc (Suc 0))))" by simp
  have p: "straight_line sample_prog"
    unfolding straight_line_def len by (rule conjI, simp, unfold five All_less_Suc) (simp add: sample_prog_def make_inst_def computes_def)
  have q: "hazard_free sample_prog"
    unfolding hazard_free_def len five All_less_Suc by (simp add: sample_prog_def make_inst_def)
  have "fst (seq_state sample_prog 5) REG_R3 = 12"
    by (simp add: seq_state_def sample_prog_def make_inst_def reg_val_def)
  then show ?thesis
    using pipeline_refines_isa [OF p q, of True] unfolding len Let_def by (auto dest!: arg_cong [where f = fst])
qed

text \<open>
  The units detect and forward nothing: an instruction in decode reads the register
  file, whatever the instructions in execute and memory are about to write to it.
\<close>

lemma decode_reads_register_file:
  "active (d_stage p) \<Longrightarrow> valA (decode_stage p) = reg_val (registers p) (srcA (inst (d_stage p))) \<and>
     valB (decode_stage p) = reg_val (registers p) (srcB (inst (d_stage p)))"
  by (simp add: decode_stage_def Let_def get_forwarded_value_def reg_val_def)

end
