(* ===== verification/Scopes.thy ===== *)
theory Scopes
  imports Prelude
begin

text \<open>
  The symbol tables of \<open>exercises/13_valgrind_fundamentals.c\<close>: linked lists of entries
  in nested scopes, on an explicit heap. The heap maps addresses to the blocks that
  are allocated; a block that is read, written or freed when it is not allocated
  is a fault. \<open>malloc\<close> is a parameter: the address of a new block of a size, or \<open>None\<close>, as a
  function of the size and of the heap.
\<close>

type_synonym addr = nat

record SymbolEntry =
  key :: addr
  val :: addr
  val_len :: nat
  symbol_id :: int
  is_constant :: int
  next_e :: addr

record ScopeEnvironment =
  scope_level :: int
  symbol_count :: "64 word"
  head_e :: addr
  parent :: addr

record heap =
  ents :: "addr \<Rightarrow> SymbolEntry option"
  envs :: "addr \<Rightarrow> ScopeEnvironment option"
  strs :: "addr \<Rightarrow> string option"

type_synonym malloc = "nat \<Rightarrow> heap \<Rightarrow> addr option"

definition free_entry :: "addr \<Rightarrow> heap \<Rightarrow> heap exec" where
  "free_entry a h = (if ents h a = None then Inl OutOfBounds else Inr (h\<lparr>ents := (ents h)(a := None)\<rparr>))"

definition free_str :: "addr \<Rightarrow> heap \<Rightarrow> heap exec" where
  "free_str a h = (if strs h a = None then Inl OutOfBounds else Inr (h\<lparr>strs := (strs h)(a := None)\<rparr>))"

definition free_env :: "addr \<Rightarrow> heap \<Rightarrow> heap exec" where
  "free_env a h = (if envs h a = None then Inl OutOfBounds else Inr (h\<lparr>envs := (envs h)(a := None)\<rparr>))"

definition blank_entry :: SymbolEntry where
  "blank_entry = \<lparr>key = 0, val = 0, val_len = 0, symbol_id = 0, is_constant = 0, next_e = 0\<rparr>"

section \<open>The operations\<close>

text \<open>The fields of a fresh entry are written before the entry is returned; null is the address 0.\<close>

definition symbol_entry_create ::
  "malloc \<Rightarrow> string option \<Rightarrow> string option \<Rightarrow> int \<Rightarrow> int \<Rightarrow> heap \<Rightarrow> (addr \<times> heap) exec" where
  "symbol_entry_create malloc k v ident const h = (case (k, v) of
     (Some k, Some v) \<Rightarrow>
       (case malloc 48 h of
          None \<Rightarrow> Inr (0, h)
        | Some entry \<Rightarrow>
            let h = h\<lparr>ents := (ents h)(entry \<mapsto> blank_entry)\<rparr> in
            (case malloc (length k + 1) h of
               None \<Rightarrow> sbind (free_entry entry h) (\<lambda>h. Inr (0, h))
             | Some kp \<Rightarrow>
                 let h = h\<lparr>strs := (strs h)(kp \<mapsto> k)\<rparr> in
                 (case malloc (length v + 1) h of
                    None \<Rightarrow> sbind (free_str kp h) (\<lambda>h. sbind (free_entry entry h) (\<lambda>h. Inr (0, h)))
                  | Some vp \<Rightarrow>
                      Inr (entry, h\<lparr>strs := (strs h)(vp \<mapsto> v),
                        ents := (ents h)(entry \<mapsto> \<lparr>key = kp, val = vp, val_len = length v, symbol_id = ident,
                          is_constant = const, next_e = 0\<rparr>)\<rparr>))))
   | _ \<Rightarrow> Inr (0, h))"

definition scope_env_create :: "malloc \<Rightarrow> int \<Rightarrow> addr \<Rightarrow> heap \<Rightarrow> addr \<times> heap" where
  "scope_env_create malloc level par h = (case malloc 32 h of
     None \<Rightarrow> (0, h)
   | Some env \<Rightarrow> (env, h\<lparr>envs := (envs h)(env \<mapsto> \<lparr>scope_level = level, symbol_count = 0, head_e = 0, parent = par\<rparr>)\<rparr>))"

definition scope_env_insert :: "addr \<Rightarrow> addr \<Rightarrow> heap \<Rightarrow> (bool \<times> heap) exec" where
  "scope_env_insert env entry h =
     (if env = 0 \<or> entry = 0 then Inr (False, h)
      else case (envs h env, ents h entry) of
        (Some s, Some e) \<Rightarrow>
          Inr (True, h\<lparr>ents := (ents h)(entry \<mapsto> e\<lparr>next_e := head_e s\<rparr>),
            envs := (envs h)(env \<mapsto> s\<lparr>head_e := entry, symbol_count := symbol_count s + 1\<rparr>)\<rparr>)
      | _ \<Rightarrow> Inl OutOfBounds)"

text \<open>The loops follow pointers and end if the lists they walk do.\<close>

partial_function (option) destroy_loop :: "addr \<Rightarrow> heap \<Rightarrow> heap exec option" where
  "destroy_loop cur h =
     (if cur = 0 then Some (Inr h)
      else case ents h cur of
        None \<Rightarrow> Some (Inl OutOfBounds)
      | Some e \<Rightarrow>
          (case sbind (free_str (key e) h) (\<lambda>h. sbind (free_str (val e) h) (free_entry cur)) of
             Inl f \<Rightarrow> Some (Inl f)
           | Inr h \<Rightarrow> destroy_loop (next_e e) h))"

definition scope_env_destroy :: "addr \<Rightarrow> heap \<Rightarrow> heap exec option" where
  "scope_env_destroy env h =
     (if env = 0 then Some (Inr h)
      else case envs h env of
        None \<Rightarrow> Some (Inl OutOfBounds)
      | Some s \<Rightarrow> map_option (\<lambda>r. sbind r (free_env env)) (destroy_loop (head_e s) h))"

partial_function (option) entry_loop :: "heap \<Rightarrow> string \<Rightarrow> addr \<Rightarrow> addr exec option" where
  "entry_loop h k entry =
     (if entry = 0 then Some (Inr 0)
      else case ents h entry of
        None \<Rightarrow> Some (Inl OutOfBounds)
      | Some e \<Rightarrow>
          (case strs h (key e) of
             None \<Rightarrow> Some (Inl OutOfBounds)
           | Some s \<Rightarrow> if s = k then Some (Inr entry) else entry_loop h k (next_e e)))"

partial_function (option) scope_loop :: "heap \<Rightarrow> string \<Rightarrow> addr \<Rightarrow> addr exec option" where
  "scope_loop h k scope =
     (if scope = 0 then Some (Inr 0)
      else case envs h scope of
        None \<Rightarrow> Some (Inl OutOfBounds)
      | Some s \<Rightarrow>
          (case entry_loop h k (head_e s) of
             None \<Rightarrow> None
           | Some (Inl f) \<Rightarrow> Some (Inl f)
           | Some (Inr e) \<Rightarrow> if e \<noteq> 0 then Some (Inr e) else scope_loop h k (parent s)))"

definition scope_env_lookup :: "heap \<Rightarrow> addr \<Rightarrow> string option \<Rightarrow> addr exec option" where
  "scope_env_lookup h env k = (case k of None \<Rightarrow> Some (Inr 0) | Some k \<Rightarrow> scope_loop h k env)"

text \<open>\<open>memmove\<close> inside the value; the sums of offsets and count are computed modulo \<open>2^64\<close>.\<close>

definition symbol_entry_shift_value :: "addr \<Rightarrow> nat \<Rightarrow> nat \<Rightarrow> nat \<Rightarrow> heap \<Rightarrow> (bool \<times> heap) exec" where
  "symbol_entry_shift_value entry dest_offset src_offset count h =
     (if entry = 0 then Inr (False, h)
      else case ents h entry of
        None \<Rightarrow> Inl OutOfBounds
      | Some e \<Rightarrow>
          if val e = 0 then Inr (False, h)
          else if (src_offset + count) mod 2 ^ 64 > val_len e \<or> (dest_offset + count) mod 2 ^ 64 > val_len e then Inr (False, h)
          else case strs h (val e) of
            None \<Rightarrow> Inl OutOfBounds
          | Some s \<Rightarrow>
              if src_offset + count > length s \<or> dest_offset + count > length s then Inl OutOfBounds
              else Inr (True, h\<lparr>strs := (strs h)(val e \<mapsto>
                take dest_offset s @ take count (drop src_offset s) @ drop (dest_offset + count) s)\<rparr>))"

section \<open>Lists of entries\<close>

definition live :: "heap \<Rightarrow> addr set" where
  "live h = dom (ents h) \<union> dom (envs h) \<union> dom (strs h)"

text \<open>What the allocator promises: a new block is not null and not one that is in use.\<close>

definition fresh_malloc :: "malloc \<Rightarrow> bool" where
  "fresh_malloc malloc \<longleftrightarrow> (\<forall>n h a. malloc n h = Some a \<longrightarrow> a \<noteq> 0 \<and> a \<notin> live h)"

definition total_malloc :: "malloc \<Rightarrow> bool" where
  "total_malloc malloc \<longleftrightarrow> (\<forall>n h. finite (live h) \<longrightarrow> malloc n h \<noteq> None)"

lemma finite_live: "finite (live h) \<longleftrightarrow> finite (dom (ents h)) \<and> finite (dom (envs h)) \<and> finite (dom (strs h))"
  by (simp add: live_def)

text \<open>The entries of a list with the addresses they are at.\<close>

fun chain :: "heap \<Rightarrow> addr \<Rightarrow> (addr \<times> SymbolEntry) list \<Rightarrow> bool" where
  "chain h a [] \<longleftrightarrow> a = 0"
| "chain h a ((b, e) # ns) \<longleftrightarrow> a = b \<and> b \<noteq> 0 \<and> ents h b = Some e \<and> strs h (key e) \<noteq> None \<and> strs h (val e) \<noteq> None \<and>
     chain h (next_e e) ns"

definition node_addrs :: "(addr \<times> SymbolEntry) list \<Rightarrow> addr list" where
  "node_addrs ns = map fst ns"

definition str_addrs :: "(addr \<times> SymbolEntry) list \<Rightarrow> addr list" where
  "str_addrs ns = concat (map (\<lambda>(b, e). [key e, val e]) ns)"

definition without :: "'a set \<Rightarrow> ('a \<Rightarrow> 'b option) \<Rightarrow> 'a \<Rightarrow> 'b option" where
  "without A m = (\<lambda>x. if x \<in> A then None else m x)"

definition release :: "(addr \<times> SymbolEntry) list \<Rightarrow> heap \<Rightarrow> heap" where
  "release ns h = h\<lparr>ents := without (set (node_addrs ns)) (ents h), strs := without (set (str_addrs ns)) (strs h)\<rparr>"

lemma without_simps:
  "without {} m = m" "without A (m(x := None)) = without (insert x A) m"
  "m x = None \<Longrightarrow> without (insert x A) (m(x \<mapsto> y)) = without A m" "m x = None \<Longrightarrow> without (insert x A) m = without A m"
  by (auto simp: without_def fun_eq_iff)

lemma addrs_Nil: "node_addrs [] = []" "str_addrs [] = []"
  by (simp_all add: node_addrs_def str_addrs_def)

lemma addrs_Cons: "node_addrs ((b, e) # ns) = b # node_addrs ns" "str_addrs ((b, e) # ns) = key e # val e # str_addrs ns"
  by (simp_all add: node_addrs_def str_addrs_def)

lemma entries_frame:
  assumes "chain h a ns" "\<And>b. b \<in> set (node_addrs ns) \<Longrightarrow> ents h' b = ents h b"
    and "\<And>b. b \<in> set (str_addrs ns) \<Longrightarrow> strs h' b = strs h b"
  shows "chain h' a ns"
  using assms by (induction ns arbitrary: a) (auto simp: node_addrs_def str_addrs_def)

lemma destroy_loop_chain:
  "chain h a ns \<Longrightarrow> distinct (node_addrs ns) \<Longrightarrow> distinct (str_addrs ns) \<Longrightarrow> destroy_loop a h = Some (Inr (release ns h))"
proof (induction ns arbitrary: a h)
  case Nil
  then show ?case by (simp add: destroy_loop.simps release_def node_addrs_def str_addrs_def without_simps)
next
  case (Cons n ns)
  obtain b e where n: "n = (b, e)" by (cases n)
  let ?h = "h\<lparr>strs := (strs h)(key e := None, val e := None), ents := (ents h)(b := None)\<rparr>"
  have d: "key e \<noteq> val e" "b \<notin> set (node_addrs ns)" "key e \<notin> set (str_addrs ns)" "val e \<notin> set (str_addrs ns)"
    "distinct (node_addrs ns)" "distinct (str_addrs ns)"
    using Cons.prems(2,3) by (auto simp: n node_addrs_def str_addrs_def)
  have c: "chain h (next_e e) ns" using Cons.prems(1) by (simp add: n)
  have "chain ?h (next_e e) ns"
  proof (rule entries_frame [OF c])
    fix x assume "x \<in> set (node_addrs ns)"
    then have "x \<noteq> b" using d(2) by blast
    then show "ents ?h x = ents h x" by simp
  next
    fix x assume "x \<in> set (str_addrs ns)"
    then have "x \<noteq> key e" "x \<noteq> val e" using d(3,4) by blast+
    then show "strs ?h x = strs h x" by simp
  qed
  then have "destroy_loop (next_e e) ?h = Some (Inr (release ns ?h))" using Cons.IH d(5,6) by blast
  moreover have "release ns ?h = release (n # ns) h"
    by (simp add: release_def n addrs_Cons without_simps insert_commute)
  moreover have "destroy_loop a h = destroy_loop (next_e e) ?h"
    using Cons.prems(1) d(1) by (subst destroy_loop.simps) (auto simp: n free_str_def free_entry_def)
  ultimately show ?case by simp
qed

definition binds :: "heap \<Rightarrow> (addr \<times> SymbolEntry) list \<Rightarrow> (string \<times> string) list" where
  "binds h ns = map (\<lambda>(b, e). (the (strs h (key e)), the (strs h (val e)))) ns"

lemma entry_loop_chain:
  "chain h a ns \<Longrightarrow> \<exists>p. entry_loop h k a = Some (Inr p) \<and> (case map_of (binds h ns) k of
     None \<Rightarrow> p = 0 | Some v \<Rightarrow> p \<noteq> 0 \<and> (\<exists>e. ents h p = Some e \<and> strs h (val e) = Some v))"
proof (induction ns arbitrary: a)
  case (Cons n ns)
  obtain b e where n: "n = (b, e)" by (cases n)
  obtain x y where "strs h (key e) = Some x" "strs h (val e) = Some y" using Cons.prems by (auto simp: n)
  moreover from this have "entry_loop h k a = (if x = k then Some (Inr a) else entry_loop h k (next_e e))"
    using Cons.prems by (subst entry_loop.simps) (simp add: n)
  ultimately show ?case using Cons.IH [of "next_e e"] Cons.prems by (cases "x = k") (auto simp: n binds_def)
qed (simp add: entry_loop.simps binds_def)

text \<open>Nested scopes, the innermost first.\<close>

fun scopes_at :: "heap \<Rightarrow> addr \<Rightarrow> (addr \<times> SymbolEntry) list list \<Rightarrow> bool" where
  "scopes_at h a [] \<longleftrightarrow> a = 0"
| "scopes_at h a (ns # nss) \<longleftrightarrow> a \<noteq> 0 \<and> (\<exists>s. envs h a = Some s \<and> chain h (head_e s) ns \<and> scopes_at h (parent s) nss)"

lemma scope_loop_scopes:
  "scopes_at h a nss \<Longrightarrow> \<exists>p. scope_loop h k a = Some (Inr p) \<and> (case map_of (concat (map (binds h) nss)) k of
     None \<Rightarrow> p = 0 | Some v \<Rightarrow> \<exists>e. ents h p = Some e \<and> strs h (val e) = Some v)"
proof (induction nss arbitrary: a)
  case (Cons ns nss)
  then obtain s where s: "a \<noteq> 0" "envs h a = Some s" "chain h (head_e s) ns" "scopes_at h (parent s) nss" by auto
  obtain p where p: "entry_loop h k (head_e s) = Some (Inr p)" "case map_of (binds h ns) k of
     None \<Rightarrow> p = 0 | Some v \<Rightarrow> p \<noteq> 0 \<and> (\<exists>e. ents h p = Some e \<and> strs h (val e) = Some v)"
    using entry_loop_chain [OF s(3), of k] by blast
  have step: "scope_loop h k a = (if p \<noteq> 0 then Some (Inr p) else scope_loop h k (parent s))"
    using s(1,2) p(1) by (simp add: scope_loop.simps [of h k a])
  show ?case
  proof (cases "map_of (binds h ns) k")
    case None
    then have "map_of (concat (map (binds h) (ns # nss))) k = map_of (concat (map (binds h) nss)) k" by (simp add: map_add_def)
    then show ?thesis using p(2) Cons.IH [OF s(4)] None by (simp add: step)
  next
    case (Some v)
    then have "map_of (concat (map (binds h) (ns # nss))) k = Some v" by (simp add: map_add_def)
    then show ?thesis using p(2) Some by (simp add: step)
  qed
qed (simp add: scope_loop.simps)

section \<open>The life of a scope\<close>

text \<open>A client that fills a scope; an entry that could not be created is not inserted.\<close>

fun define_all :: "malloc \<Rightarrow> addr \<Rightarrow> (string \<times> string) list \<Rightarrow> heap \<Rightarrow> heap exec" where
  "define_all malloc env [] h = Inr h"
| "define_all malloc env ((k, v) # kvs) h =
     sbind (symbol_entry_create malloc (Some k) (Some v) 0 0 h) (\<lambda>(entry, h).
     sbind (scope_env_insert env entry h) (\<lambda>(_, h). define_all malloc env kvs h))"

lemma fresh_mallocD: "fresh_malloc malloc \<Longrightarrow> malloc n h = Some a \<Longrightarrow> a \<noteq> 0 \<and> ents h a = None \<and> envs h a = None \<and> strs h a = None"
  by (auto simp: fresh_malloc_def live_def)

text \<open>Creating an entry gives a complete entry on fresh blocks, or null and the heap as it was.\<close>

lemma symbol_entry_create_cases:
  assumes "fresh_malloc malloc"
  shows "symbol_entry_create malloc (Some k) (Some v) ident const h = Inr (0, h) \<and> \<not> (total_malloc malloc \<and> finite (live h)) \<or>
    (\<exists>a kp vp e. symbol_entry_create malloc (Some k) (Some v) ident const h =
        Inr (a, h\<lparr>strs := (strs h)(kp \<mapsto> k, vp \<mapsto> v), ents := (ents h)(a \<mapsto> e)\<rparr>) \<and>
      e = \<lparr>key = kp, val = vp, val_len = length v, symbol_id = ident, is_constant = const, next_e = 0\<rparr> \<and>
      a \<noteq> 0 \<and> ents h a = None \<and> strs h kp = None \<and> strs h vp = None \<and> kp \<noteq> vp)"
proof -
  note fr = fresh_mallocD [OF assms]
  have fail: "\<not> (total_malloc malloc \<and> finite (live h))" if "malloc n h' = None" "finite (live h) \<Longrightarrow> finite (live h')" for n h'
    using that by (auto simp: total_malloc_def)
  show ?thesis
  proof (cases "malloc 48 h")
    case None
    then show ?thesis using fail [OF None] by (auto simp: symbol_entry_create_def)
  next
    case (Some a)
    let ?h1 = "h\<lparr>ents := (ents h)(a \<mapsto> blank_entry)\<rparr>"
    have a: "a \<noteq> 0" "ents h a = None" using fr [OF Some] by simp_all
    then have undo: "h\<lparr>ents := (ents h)(a := None)\<rparr> = h" by (simp add: fun_upd_idem)
    show ?thesis
    proof (cases "malloc (length k + 1) ?h1")
      case None
      then have "symbol_entry_create malloc (Some k) (Some v) ident const h = Inr (0, h)"
        using Some undo by (simp add: symbol_entry_create_def free_entry_def)
      then show ?thesis using fail [OF None] by (simp add: finite_live)
    next
      case (Some kp)
      let ?h2 = "?h1\<lparr>strs := (strs ?h1)(kp \<mapsto> k)\<rparr>"
      have kp: "strs h kp = None" using fr [OF Some] by simp
      then have undo2: "h\<lparr>strs := (strs h)(kp := None)\<rparr> = h" by (simp add: fun_upd_idem)
      show ?thesis
      proof (cases "malloc (length v + 1) ?h2")
        case None
        then have "symbol_entry_create malloc (Some k) (Some v) ident const h = Inr (0, h)"
          using Some \<open>malloc 48 h = Some a\<close> undo undo2 kp a by (simp add: symbol_entry_create_def free_entry_def free_str_def fun_upd_idem)
        then show ?thesis using fail [OF None] by (simp add: finite_live)
      next
        case (Some vp)
        have "strs h vp = None" "kp \<noteq> vp" using fr [OF Some] by (auto split: if_splits)
        moreover have "symbol_entry_create malloc (Some k) (Some v) ident const h =
            Inr (a, h\<lparr>strs := (strs h)(kp \<mapsto> k, vp \<mapsto> v), ents := (ents h)(a \<mapsto> \<lparr>key = kp, val = vp, val_len = length v,
              symbol_id = ident, is_constant = const, next_e = 0\<rparr>)\<rparr>)"
          using Some \<open>malloc (length k + 1) ?h1 = Some kp\<close> \<open>malloc 48 h = Some a\<close> by (simp add: symbol_entry_create_def)
        ultimately show ?thesis using a kp by blast
      qed
    qed
  qed
qed

text \<open>A scope being filled: its list, and everything else as in the heap before the scope.\<close>

definition filled :: "heap \<Rightarrow> addr \<Rightarrow> ScopeEnvironment \<Rightarrow> (addr \<times> SymbolEntry) list \<Rightarrow> heap \<Rightarrow> bool" where
  "filled h0 env s ns h \<longleftrightarrow> env \<noteq> 0 \<and> envs h0 env = None \<and> envs h = (envs h0)(env \<mapsto> s) \<and>
     chain h (head_e s) ns \<and> distinct (node_addrs ns) \<and> distinct (str_addrs ns) \<and>
     without (set (node_addrs ns)) (ents h) = ents h0 \<and> without (set (str_addrs ns)) (strs h) = strs h0"

lemma chain_live: "chain h a ns \<Longrightarrow> (\<forall>b\<in>set (node_addrs ns). ents h b \<noteq> None) \<and> (\<forall>b\<in>set (str_addrs ns). strs h b \<noteq> None)"
proof (induction ns arbitrary: a)
  case (Cons n ns)
  obtain b e where n: "n = (b, e)" by (cases n)
  then show ?case using Cons.IH [of "next_e e"] Cons.prems by (simp add: addrs_Cons)
qed (simp add: addrs_Nil)

lemma binds_frame: "(\<And>b. b \<in> set (str_addrs ns) \<Longrightarrow> strs h' b = strs h b) \<Longrightarrow> binds h' ns = binds h ns"
  by (induction ns) (auto simp: binds_def addrs_Cons)

lemma filled_insert:
  assumes "filled h0 env s ns h"
    and new: "a \<noteq> 0" "ents h a = None" "strs h kp = None" "strs h vp = None" "kp \<noteq> vp" "key e = kp" "val e = vp"
    and h1_def: "h1 = h\<lparr>strs := (strs h)(kp \<mapsto> k, vp \<mapsto> v), ents := (ents h)(a \<mapsto> e)\<rparr>"
  shows "\<exists>h' s' e'. scope_env_insert env a h1 = Inr (True, h') \<and> filled h0 env s' ((a, e') # ns) h' \<and>
    parent s' = parent s \<and> binds h' ((a, e') # ns) = (k, v) # binds h ns \<and> (finite (live h) \<longrightarrow> finite (live h'))"
proof -
  note f = assms(1) [unfolded filled_def]
  let ?e = "e\<lparr>next_e := head_e s\<rparr>" and ?s = "s\<lparr>head_e := a, symbol_count := symbol_count s + 1\<rparr>"
  let ?h = "h1\<lparr>ents := (ents h1)(a \<mapsto> ?e), envs := (envs h1)(env \<mapsto> ?s)\<rparr>"
  have ins: "scope_env_insert env a h1 = Inr (True, ?h)" using f new(1) by (simp add: scope_env_insert_def h1_def)
  have fresh: "a \<notin> set (node_addrs ns)" "kp \<notin> set (str_addrs ns)" "vp \<notin> set (str_addrs ns)"
    using chain_live f new(2-4) by blast+
  have same: "strs ?h x = strs h x" if "x \<in> set (str_addrs ns)" for x
  proof -
    have "x \<noteq> kp" "x \<noteq> vp" using that fresh(2,3) by blast+
    then show ?thesis by (simp add: h1_def)
  qed
  have c: "chain ?h (head_e s) ns"
  proof (rule entries_frame)
    show "chain h (head_e s) ns" using f by blast
    show "ents ?h x = ents h x" if "x \<in> set (node_addrs ns)" for x
    proof -
      have "x \<noteq> a" using that fresh(1) by blast
      then show ?thesis by (simp add: h1_def)
    qed
    show "strs ?h x = strs h x" if "x \<in> set (str_addrs ns)" for x using that by (rule same)
  qed
  have "without (set (node_addrs ((a, ?e) # ns))) (ents ?h) = ents h0"
    using f new(2) by (simp add: addrs_Cons h1_def without_simps)
  moreover have "without (set (str_addrs ((a, ?e) # ns))) (strs ?h) = strs h0"
    using f new(3-7) by (simp add: addrs_Cons h1_def without_simps insert_commute [of kp])
  moreover have "binds ?h ns = binds h ns" by (rule binds_frame) (rule same)
  then have "binds ?h ((a, ?e) # ns) = (k, v) # binds h ns" using new(5-7) by (simp add: binds_def h1_def)
  ultimately show ?thesis
    using ins c f fresh new by (intro exI [of _ ?h] exI [of _ ?s] exI [of _ ?e])
      (simp add: filled_def addrs_Cons h1_def finite_live)
qed

lemma define_all_filled:
  assumes "fresh_malloc malloc"
  shows "filled h0 env s ns h \<Longrightarrow> \<exists>h' s' ns'. define_all malloc env kvs h = Inr h' \<and> filled h0 env s' ns' h' \<and> parent s' = parent s \<and>
    (total_malloc malloc \<and> finite (live h) \<longrightarrow> binds h' ns' = rev kvs @ binds h ns)"
proof (induction kvs arbitrary: h s ns)
  case (Cons kv kvs)
  obtain k v where kv: "kv = (k, v)" by (cases kv)
  consider "symbol_entry_create malloc (Some k) (Some v) 0 0 h = Inr (0, h)" "\<not> (total_malloc malloc \<and> finite (live h))"
    | a kp vp e where "symbol_entry_create malloc (Some k) (Some v) 0 0 h =
        Inr (a, h\<lparr>strs := (strs h)(kp \<mapsto> k, vp \<mapsto> v), ents := (ents h)(a \<mapsto> e)\<rparr>)" "key e = kp" "val e = vp"
      "a \<noteq> 0" "ents h a = None" "strs h kp = None" "strs h vp = None" "kp \<noteq> vp"
    using symbol_entry_create_cases [OF assms, of k v 0 0 h] by fastforce
  then show ?case
  proof cases
    case 1
    then have "define_all malloc env (kv # kvs) h = define_all malloc env kvs h" by (simp add: kv scope_env_insert_def)
    then show ?thesis using Cons.IH [OF Cons.prems] 1(2) by metis
  next
    case 2
    obtain h1 s1 e1 where h1: "scope_env_insert env a (h\<lparr>strs := (strs h)(kp \<mapsto> k, vp \<mapsto> v), ents := (ents h)(a \<mapsto> e)\<rparr>) = Inr (True, h1)"
      "filled h0 env s1 ((a, e1) # ns) h1" "parent s1 = parent s" "binds h1 ((a, e1) # ns) = (k, v) # binds h ns"
      "finite (live h) \<longrightarrow> finite (live h1)"
      using filled_insert [OF Cons.prems 2(4-8) 2(2,3) refl, of k v] by blast
    have "define_all malloc env (kv # kvs) h = define_all malloc env kvs h1" using 2(1) h1(1) by (simp add: kv)
    then show ?thesis using Cons.IH [OF h1(2)] h1(3-5) by (auto simp: kv)
  qed
qed auto

lemma create_filled:
  assumes "fresh_malloc malloc" "scope_env_create malloc level par h = (env, h1)" "env \<noteq> 0"
  shows "\<exists>s. filled h env s [] h1 \<and> parent s = par"
  using assms fresh_mallocD [OF assms(1)]
  by (auto simp: scope_env_create_def filled_def addrs_Nil without_simps split: option.splits)

lemma destroy_filled: "filled h0 env s ns h \<Longrightarrow> scope_env_destroy env h = Some (Inr h0)"
proof -
  assume a: "filled h0 env s ns h"
  note f = a [unfolded filled_def]
  have "destroy_loop (head_e s) h = Some (Inr (release ns h))" using f by (intro destroy_loop_chain) auto
  moreover have "(envs h0)(env := None) = envs h0" using f by (simp add: fun_upd_idem)
  ultimately show ?thesis using f by (simp add: scope_env_destroy_def free_env_def release_def)
qed

text \<open>
  C28. Memory is balanced: a scope that is created, filled and destroyed leaves the heap
  exactly as it was, whichever allocations fail on the way. No block is freed twice
  or used after it is freed, and destroying ends.
\<close>

theorem scope_memory_balanced:
  assumes "fresh_malloc malloc" "scope_env_create malloc level par h = (env, h1)" "env \<noteq> 0"
  shows "\<exists>h2. define_all malloc env kvs h1 = Inr h2 \<and> scope_env_destroy env h2 = Some (Inr h)"
  using create_filled [OF assms] define_all_filled [OF assms(1)] destroy_filled by blast

text \<open>A sample allocator on the finite heaps: one above the largest address in use.\<close>

definition top_malloc :: malloc where
  "top_malloc n h = (if finite (live h) then Some (Suc (Max (insert 0 (live h)))) else None)"

lemma top_malloc_fresh: "fresh_malloc top_malloc"
proof -
  have "Suc (Max (insert 0 A)) \<notin> A" if "finite A" for A :: "nat set"
  proof
    assume "Suc (Max (insert 0 A)) \<in> A"
    then have "Suc (Max (insert 0 A)) \<le> Max (insert 0 A)" using that by (intro Max_ge) auto
    then show False by simp
  qed
  then show ?thesis by (auto simp: fresh_malloc_def top_malloc_def)
qed

definition empty_heap :: heap where
  "empty_heap = \<lparr>ents = Map.empty, envs = Map.empty, strs = Map.empty\<rparr>"

lemma empty_heap_env: "\<exists>h1. scope_env_create top_malloc 0 0 empty_heap = (1, h1)"
  by (simp add: scope_env_create_def top_malloc_def empty_heap_def live_def)

theorem scope_memory_balanced_witness:
  "\<exists>h1 h2. scope_env_create top_malloc 0 0 empty_heap = (1, h1) \<and>
     define_all top_malloc 1 [(''x'', ''1''), (''y'', ''2''), (''x'', ''3'')] h1 = Inr h2 \<and> scope_env_destroy 1 h2 = Some (Inr empty_heap)"
proof -
  obtain h1 where h1: "scope_env_create top_malloc 0 0 empty_heap = (1, h1)" using empty_heap_env by blast
  show ?thesis using scope_memory_balanced [OF top_malloc_fresh h1] h1 by (metis zero_neq_one)
qed

section \<open>Looking up a name\<close>

lemma filled_keeps:
  assumes "filled h0 env s ns h"
  shows "ents h0 a = Some e \<Longrightarrow> ents h a = Some e" "strs h0 a = Some x \<Longrightarrow> strs h a = Some x" "envs h0 a = Some y \<Longrightarrow> envs h a = Some y"
  using assms unfolding filled_def without_def by (auto split: if_splits dest: fun_cong [of _ _ a])

lemma chain_keeps:
  assumes "filled h0 env s ns h"
  shows "chain h0 a ms \<Longrightarrow> chain h a ms \<and> binds h ms = binds h0 ms"
proof (induction ms arbitrary: a)
  case (Cons n ms)
  obtain b e where n: "n = (b, e)" by (cases n)
  obtain x y where "strs h0 (key e) = Some x" "strs h0 (val e) = Some y" using Cons.prems by (auto simp: n)
  then show ?case
    using Cons.IH [of "next_e e"] Cons.prems filled_keeps(1,2) [OF assms] by (auto simp: n binds_def)
qed (simp add: binds_def)

lemma scopes_keep:
  assumes "filled h0 env s ns h"
  shows "scopes_at h0 a nss \<Longrightarrow> scopes_at h a nss \<and> map (binds h) nss = map (binds h0) nss"
proof (induction nss arbitrary: a)
  case (Cons ms nss)
  then obtain t where "a \<noteq> 0" "envs h0 a = Some t" "chain h0 (head_e t) ms" "scopes_at h0 (parent t) nss" by auto
  then show ?case using Cons.IH chain_keeps [OF assms] filled_keeps(3) [OF assms] by auto
qed simp

text \<open>
  Lexical scoping: after the definitions \<open>kvs\<close> in a new scope inside the scopes \<open>nss\<close>, a
  name is bound to the last definition of it in the new scope, else to what it was
  bound to outside; a name that is bound nowhere gives null.
\<close>

theorem scope_lookup_lexical:
  assumes "fresh_malloc malloc" "total_malloc malloc" "finite (live h)" "scopes_at h par nss"
    and "scope_env_create malloc level par h = (env, h1)" "env \<noteq> 0"
  shows "\<exists>h2 p. define_all malloc env kvs h1 = Inr h2 \<and> scope_env_lookup h2 env (Some k) = Some (Inr p) \<and>
    (case map_of (rev kvs @ concat (map (binds h) nss)) k of
       None \<Rightarrow> p = 0 | Some v \<Rightarrow> \<exists>e. ents h2 p = Some e \<and> strs h2 (val e) = Some v)"
proof -
  obtain s where s: "filled h env s [] h1" "parent s = par" using create_filled [OF assms(1,5,6)] by blast
  have "finite (live h1)"
    using assms(3,5) by (auto simp: scope_env_create_def finite_live split: option.splits)
  then obtain h2 s2 ns where h2: "define_all malloc env kvs h1 = Inr h2" "filled h env s2 ns h2" "parent s2 = par" "binds h2 ns = rev kvs"
    using define_all_filled [OF assms(1) s(1), of kvs] assms(2) s(2) by (auto simp: binds_def)
  have sc: "scopes_at h2 env (ns # nss)" "map (binds h2) nss = map (binds h) nss"
    using scopes_keep [OF h2(2) assms(4)] h2(2,3) by (auto simp: filled_def)
  have "concat (map (binds h2) (ns # nss)) = rev kvs @ concat (map (binds h) nss)" using h2(4) by (simp add: sc(2) del: map_eq_conv)
  then show ?thesis
    using scope_loop_scopes [OF sc(1), of k] h2(1) by (auto simp: scope_env_lookup_def)
qed

theorem scope_lookup_lexical_witness:
  "\<exists>h1 h2 p e. scope_env_create top_malloc 0 0 empty_heap = (1, h1) \<and>
     define_all top_malloc 1 [(''x'', ''1''), (''y'', ''2''), (''x'', ''3'')] h1 = Inr h2 \<and>
     scope_env_lookup h2 1 (Some ''x'') = Some (Inr p) \<and> ents h2 p = Some e \<and> strs h2 (val e) = Some ''3''"
proof -
  obtain h1 where h1: "scope_env_create top_malloc 0 0 empty_heap = (1, h1)" using empty_heap_env by blast
  have "total_malloc top_malloc" by (simp add: total_malloc_def top_malloc_def)
  moreover have "finite (live empty_heap)" "scopes_at empty_heap 0 []" by (simp_all add: live_def empty_heap_def)
  ultimately have "\<exists>h2 p. define_all top_malloc 1 [(''x'', ''1''), (''y'', ''2''), (''x'', ''3'')] h1 = Inr h2 \<and>
      scope_env_lookup h2 1 (Some ''x'') = Some (Inr p) \<and> (\<exists>e. ents h2 p = Some e \<and> strs h2 (val e) = Some ''3'')"
    using scope_lookup_lexical [OF top_malloc_fresh _ _ _ h1, of "[]" "[(''x'', ''1''), (''y'', ''2''), (''x'', ''3'')]" "''x''"]
    by (simp del: define_all.simps)
  then show ?thesis using h1 by blast
qed

text \<open>The bounds test of \<open>symbol_entry_shift_value\<close> wraps around: an offset near \<open>2^64\<close> passes it.\<close>

lemma shift_value_wraps:
  assumes "ents h a = Some e" "a \<noteq> 0" "val e \<noteq> 0" "strs h (val e) = Some s" "val_len e = length s" "length s < 2 ^ 64"
    "0 < count" "count \<le> length s"
  shows "symbol_entry_shift_value a 0 (2 ^ 64 - count) count h = Inl OutOfBounds"
  using assms by (simp add: symbol_entry_shift_value_def)

end
