(* ===== verification/Byte_Buffer.thy ===== *)
theory Byte_Buffer
  imports Prelude
begin

text \<open>
  The growing byte buffer of \<open>exercises/09_dynamic_memory_lifecycle.c\<close>. A block of
  memory is the list of its bytes, \<open>None\<close> for a byte that is not initialised; the
  argument \<open>ok\<close> says for which sizes the C library's allocator finds a block. Null
  pointers are \<open>None\<close>, and sizes are computed modulo \<open>2^64\<close>.
\<close>

type_synonym byte = "8 word"

datatype AllocStatus = ALLOC_SUCCESS | ALLOC_OUT_OF_MEMORY | ALLOC_INVALID_ARG

record Buffer =
  bytes_of :: "byte option list option"
  used :: nat
  capacity :: nat

type_synonym alloc_ok = "nat \<Rightarrow> bool"

definition realloc :: "nat \<Rightarrow> byte option list \<Rightarrow> byte option list" where
  "realloc n block = take n block @ replicate (n - length block) None"

definition buffer_create :: "alloc_ok \<Rightarrow> Buffer option \<Rightarrow> nat \<Rightarrow> AllocStatus \<times> Buffer option" where
  "buffer_create ok buf initial_cap =
     (if buf = None \<or> initial_cap = 0 then (ALLOC_INVALID_ARG, buf)
      else if \<not> ok initial_cap then (ALLOC_OUT_OF_MEMORY, Some \<lparr>bytes_of = None, used = 0, capacity = 0\<rparr>)
      else (ALLOC_SUCCESS, Some \<lparr>bytes_of = Some (replicate initial_cap (Some 0)), used = 0, capacity = initial_cap\<rparr>))"

definition buffer_destroy :: "Buffer option \<Rightarrow> Buffer option" where
  "buffer_destroy buf = map_option (\<lambda>b. \<lparr>bytes_of = None, used = 0, capacity = 0\<rparr>) buf"

definition put_byte :: "byte \<Rightarrow> Buffer \<Rightarrow> byte option list \<Rightarrow> (AllocStatus \<times> Buffer option) exec" where
  "put_byte x b block =
     sbind (wr block (used b) (Some x)) (\<lambda>block.
     Inr (ALLOC_SUCCESS, Some (b\<lparr>bytes_of := Some block, used := (used b + 1) mod 2 ^ 64\<rparr>)))"

definition buffer_append :: "alloc_ok \<Rightarrow> Buffer option \<Rightarrow> byte \<Rightarrow> (AllocStatus \<times> Buffer option) exec" where
  "buffer_append ok buf x = (case buf of
     None \<Rightarrow> Inr (ALLOC_INVALID_ARG, buf)
   | Some b \<Rightarrow>
       (case bytes_of b of
          None \<Rightarrow> Inr (ALLOC_INVALID_ARG, buf)
        | Some block \<Rightarrow>
            if used b = capacity b then
              let new_cap = (if capacity b = 0 then 1 else capacity b * 2 mod 2 ^ 64) in
              if \<not> ok new_cap then Inr (ALLOC_OUT_OF_MEMORY, buf)
              else put_byte x (b\<lparr>capacity := new_cap\<rparr>) (realloc new_cap block)
            else put_byte x b block))"

definition buffer_shrink_to_fit :: "alloc_ok \<Rightarrow> Buffer option \<Rightarrow> AllocStatus \<times> Buffer option" where
  "buffer_shrink_to_fit ok buf = (case buf of
     None \<Rightarrow> (ALLOC_INVALID_ARG, buf)
   | Some b \<Rightarrow>
       (case bytes_of b of
          None \<Rightarrow> (ALLOC_INVALID_ARG, buf)
        | Some block \<Rightarrow>
            if used b = capacity b then (ALLOC_SUCCESS, buf)
            else
              let target_cap = (if used b = 0 then 1 else used b) in
              if \<not> ok target_cap then (ALLOC_OUT_OF_MEMORY, buf)
              else (ALLOC_SUCCESS, Some (b\<lparr>bytes_of := Some (realloc target_cap block), capacity := target_cap\<rparr>))))"

definition buffer_clone :: "alloc_ok \<Rightarrow> Buffer option \<Rightarrow> Buffer option \<Rightarrow> (AllocStatus \<times> Buffer option) exec" where
  "buffer_clone ok dest src = (case (dest, src) of
     (Some d, Some s) \<Rightarrow>
       (case bytes_of s of
          None \<Rightarrow> Inr (ALLOC_INVALID_ARG, dest)
        | Some block \<Rightarrow>
            if \<not> ok (capacity s) then Inr (ALLOC_OUT_OF_MEMORY, Some \<lparr>bytes_of = None, used = 0, capacity = 0\<rparr>)
            else if used s > length block \<or> used s > capacity s then Inl OutOfBounds
            else Inr (ALLOC_SUCCESS, Some \<lparr>bytes_of = Some (take (used s) block @ replicate (capacity s - used s) None),
              used = used s, capacity = capacity s\<rparr>))
   | _ \<Rightarrow> Inr (ALLOC_INVALID_ARG, dest))"

section \<open>The buffer as a list of bytes\<close>

definition content :: "Buffer \<Rightarrow> byte option list" where
  "content b = take (used b) (the (bytes_of b))"

text \<open>The invariant: a block of the capacity whose used part is initialised.\<close>

definition buffer_ok :: "Buffer \<Rightarrow> bool" where
  "buffer_ok b \<longleftrightarrow> (\<exists>block. bytes_of b = Some block \<and> length block = capacity b \<and> used b \<le> capacity b \<and>
     0 < capacity b \<and> capacity b < 2 ^ 63 \<and> None \<notin> set (take (used b) block))"

text \<open>What \<open>malloc\<close> and \<open>realloc\<close> promise: no block of more than \<open>PTRDIFF_MAX\<close> bytes.\<close>

definition bounded_ok :: "alloc_ok \<Rightarrow> bool" where
  "bounded_ok ok \<longleftrightarrow> (\<forall>n. ok n \<longrightarrow> n < 2 ^ 63)"

lemma append_ok:
  assumes "buffer_ok b" "bounded_ok ok"
  shows "if used b < capacity b \<or> ok (capacity b * 2)
    then \<exists>b'. buffer_append ok (Some b) x = Inr (ALLOC_SUCCESS, Some b') \<and> buffer_ok b' \<and> content b' = content b @ [Some x]
    else buffer_append ok (Some b) x = Inr (ALLOC_OUT_OF_MEMORY, Some b)"
proof -
  obtain block where b: "bytes_of b = Some block" "length block = capacity b" "used b \<le> capacity b" "0 < capacity b"
    "capacity b < 2 ^ 63" "None \<notin> set (take (used b) block)" using assms(1) by (auto simp: buffer_ok_def)
  have put: "\<exists>b'. put_byte x c bl = Inr (ALLOC_SUCCESS, Some b') \<and> buffer_ok b' \<and> content b' = content b @ [Some x]"
    if "used c = used b" "length bl = capacity c" "used b < capacity c" "capacity c < 2 ^ 63" "take (used b) bl = take (used b) block"
    for c bl
  proof -
    have "take (Suc (used b)) (bl[used b := Some x]) = take (used b) block @ [Some x]"
      using that(2,3,5) by (simp add: take_Suc_conv_app_nth)
    then show ?thesis using that b(1,6) by (auto simp: put_byte_def buffer_ok_def content_def wr_def)
  qed
  show ?thesis
  proof (cases "used b < capacity b")
    case True
    then have "buffer_append ok (Some b) x = put_byte x b block" using b(1) by (simp add: buffer_append_def)
    then show ?thesis using put [of b block] True b(2,5) by simp
  next
    case False
    have eq: "used b = capacity b" "capacity b * 2 mod 2 ^ 64 = capacity b * 2" using False b(3,5) by simp_all
    show ?thesis
    proof (cases "ok (capacity b * 2)")
      case True
      let ?c = "b\<lparr>capacity := capacity b * 2\<rparr>" and ?bl = "realloc (capacity b * 2) block"
      have "buffer_append ok (Some b) x = put_byte x ?c ?bl" using b(1,4) eq True by (simp add: buffer_append_def Let_def)
      moreover have "capacity b * 2 < 2 ^ 63" using assms(2) True unfolding bounded_ok_def by blast
      moreover have "take (used b) ?bl = take (used b) block" "length ?bl = capacity b * 2"
        using b(2) eq(1) by (simp_all add: realloc_def)
      ultimately show ?thesis using put [of ?c ?bl] True eq(1) b(4) by simp
    next
      case no: False
      have "buffer_append ok (Some b) x = Inr (ALLOC_OUT_OF_MEMORY, Some b)" using b(1,4) eq no by (simp add: buffer_append_def Let_def)
      then show ?thesis using False no by simp
    qed
  qed
qed

lemma shrink_ok:
  assumes "buffer_ok b"
  shows "\<exists>st b'. buffer_shrink_to_fit ok (Some b) = (st, Some b') \<and> buffer_ok b' \<and> content b' = content b \<and>
    (st = ALLOC_SUCCESS \<longrightarrow> capacity b' = max 1 (used b)) \<and> (st \<noteq> ALLOC_SUCCESS \<longrightarrow> b' = b)"
proof -
  obtain block where b: "bytes_of b = Some block" "length block = capacity b" "used b \<le> capacity b" "0 < capacity b"
    "capacity b < 2 ^ 63" "None \<notin> set (take (used b) block)" using assms(1) by (auto simp: buffer_ok_def)
  let ?t = "if used b = 0 then 1 else used b"
  have t: "take (used b) (realloc ?t block) = take (used b) block" "length (realloc ?t block) = ?t" "0 < ?t" "?t < 2 ^ 63" "used b \<le> ?t"
    using b(2-5) by (auto simp: realloc_def min_def)
  show ?thesis
  proof (cases "used b = capacity b \<or> \<not> ok ?t")
    case True
    then show ?thesis using assms b(1,4) by (auto simp: buffer_shrink_to_fit_def Let_def)
  next
    case False
    then have "buffer_shrink_to_fit ok (Some b) = (ALLOC_SUCCESS, Some (b\<lparr>bytes_of := Some (realloc ?t block), capacity := ?t\<rparr>))"
      using b(1) by (simp add: buffer_shrink_to_fit_def Let_def)
    moreover have "buffer_ok (b\<lparr>bytes_of := Some (realloc ?t block), capacity := ?t\<rparr>)"
      using t b(6) by (simp add: buffer_ok_def)
    ultimately show ?thesis using t(1) b(1) by (auto simp: content_def)
  qed
qed

section \<open>Sequences of operations\<close>

datatype buf_op = Append byte | Shrink

fun buffer_run :: "(alloc_ok \<times> buf_op) list \<Rightarrow> Buffer option \<Rightarrow> (AllocStatus list \<times> Buffer option) exec" where
  "buffer_run [] buf = Inr ([], buf)"
| "buffer_run ((ok, Append x) # ops) buf =
     sbind (buffer_append ok buf x) (\<lambda>(st, buf). sbind (buffer_run ops buf) (\<lambda>(sts, buf). Inr (st # sts, buf)))"
| "buffer_run ((ok, Shrink) # ops) buf =
     (case buffer_shrink_to_fit ok buf of (st, buf) \<Rightarrow> sbind (buffer_run ops buf) (\<lambda>(sts, buf). Inr (st # sts, buf)))"

text \<open>The bytes whose \<open>buffer_append\<close> reported success.\<close>

fun accepted :: "(alloc_ok \<times> buf_op) list \<Rightarrow> AllocStatus list \<Rightarrow> byte list" where
  "accepted ((ok, Append x) # ops) (st # sts) = (if st = ALLOC_SUCCESS then [x] else []) @ accepted ops sts"
| "accepted ((ok, Shrink) # ops) (st # sts) = accepted ops sts"
| "accepted _ _ = []"

lemma buffer_run_ok:
  "buffer_ok b \<Longrightarrow> \<forall>(ok, x)\<in>set ops. bounded_ok ok \<Longrightarrow> \<exists>sts b'. buffer_run ops (Some b) = Inr (sts, Some b') \<and> buffer_ok b' \<and>
    length sts = length ops \<and> content b' = content b @ map Some (accepted ops sts)"
proof (induction ops arbitrary: b)
  case (Cons p ops)
  obtain ok q where p: "p = (ok, q)" by (cases p)
  have ops: "\<forall>(ok, x)\<in>set ops. bounded_ok ok" and ok: "bounded_ok ok" using Cons.prems(2) by (auto simp: p)
  show ?case
  proof (cases q)
    case (Append x)
    obtain st b1 where b1: "buffer_append ok (Some b) x = Inr (st, Some b1)" "buffer_ok b1"
      "content b1 = content b @ (if st = ALLOC_SUCCESS then [Some x] else [])"
      using append_ok [OF Cons.prems(1) ok, of x] Cons.prems(1) by (auto split: if_splits)
    obtain sts b' where "buffer_run ops (Some b1) = Inr (sts, Some b')" "buffer_ok b'" "length sts = length ops"
      "content b' = content b1 @ map Some (accepted ops sts)" using Cons.IH [OF b1(2) ops] by blast
    then show ?thesis using b1 by (simp add: p Append)
  next
    case Shrink
    obtain st b1 where b1: "buffer_shrink_to_fit ok (Some b) = (st, Some b1)" "buffer_ok b1" "content b1 = content b"
      using shrink_ok [OF Cons.prems(1), of ok] by blast
    obtain sts b' where "buffer_run ops (Some b1) = Inr (sts, Some b')" "buffer_ok b'" "length sts = length ops"
      "content b' = content b1 @ map Some (accepted ops sts)" using Cons.IH [OF b1(2) ops] by blast
    then show ?thesis using b1 by (simp add: p Shrink)
  qed
qed simp

text \<open>
  C29. Every sequence of appends and shrinks, whichever allocations fail, leaves a
  well-formed buffer that holds exactly the bytes whose append reported success, in
  order, and never writes outside its block; a clone of it holds the same bytes.
\<close>

theorem byte_buffer_refines_list:
  assumes "buffer_ok b" "\<forall>(ok, x)\<in>set ops. bounded_ok ok"
  shows "\<exists>sts b'. buffer_run ops (Some b) = Inr (sts, Some b') \<and> buffer_ok b' \<and>
    content b' = content b @ map Some (accepted ops sts) \<and>
    (ok' (capacity b') \<longrightarrow> (\<exists>c. buffer_clone ok' (Some d) (Some b') = Inr (ALLOC_SUCCESS, Some c) \<and> buffer_ok c \<and> content c = content b'))"
proof -
  obtain sts b' where r: "buffer_run ops (Some b) = Inr (sts, Some b')" "buffer_ok b'" "content b' = content b @ map Some (accepted ops sts)"
    using buffer_run_ok [OF assms] by blast
  obtain block where b: "bytes_of b' = Some block" "length block = capacity b'" "used b' \<le> capacity b'" "0 < capacity b'"
    "capacity b' < 2 ^ 63" "None \<notin> set (take (used b') block)" using r(2) by (auto simp: buffer_ok_def)
  let ?c = "\<lparr>bytes_of = Some (take (used b') block @ replicate (capacity b' - used b') None), used = used b', capacity = capacity b'\<rparr>"
  have "buffer_clone ok' (Some d) (Some b') = Inr (ALLOC_SUCCESS, Some ?c)" if "ok' (capacity b')"
    using that b(1-3) by (simp add: buffer_clone_def)
  moreover have "buffer_ok ?c" "content ?c = content b'" using b by (simp_all add: buffer_ok_def content_def)
  ultimately show ?thesis using r by blast
qed

lemma buffer_create_ok: "0 < n \<Longrightarrow> ok n \<Longrightarrow> bounded_ok ok \<Longrightarrow>
    \<exists>b. buffer_create ok (Some b0) n = (ALLOC_SUCCESS, Some b) \<and> buffer_ok b \<and> content b = [] \<and> capacity b = n"
  by (auto simp: buffer_create_def buffer_ok_def content_def bounded_ok_def)

theorem byte_buffer_refines_list_witness:
  "\<exists>b sts b'. buffer_create (\<lambda>n. n < 3) (Some \<lparr>bytes_of = None, used = 0, capacity = 0\<rparr>) 1 = (ALLOC_SUCCESS, Some b) \<and>
     buffer_run [(\<lambda>n. n < 3, Append 7), (\<lambda>n. n < 3, Append 8), (\<lambda>n. n < 3, Append 9)] (Some b) = Inr (sts, Some b') \<and>
     content b' = map Some (accepted [(\<lambda>n. n < 3, Append 7), (\<lambda>n. n < 3, Append 8), (\<lambda>n. n < 3, Append 9)] sts)"
proof -
  have small: "bounded_ok (\<lambda>n. n < 3)" by (simp add: bounded_ok_def)
  let ?b0 = "\<lparr>bytes_of = None, used = 0, capacity = 0\<rparr>" and ?ops = "[(\<lambda>n. n < 3, Append 7), (\<lambda>n. n < 3, Append 8), (\<lambda>n. n < 3, Append 9)]"
  obtain b where b: "buffer_create (\<lambda>n. n < 3) (Some ?b0) 1 = (ALLOC_SUCCESS, Some b)" "buffer_ok b" "content b = []"
    using buffer_create_ok [of 1 "\<lambda>n. n < 3" ?b0] small by auto
  have "\<forall>(ok, x)\<in>set ?ops. bounded_ok ok" using small by simp
  from byte_buffer_refines_list [OF b(2) this, of "\<lambda>n. False" ?b0] b(1) show ?thesis
    unfolding b(3) append_Nil by (elim exE conjE) (intro exI conjI)
qed

text \<open>Without the bound on blocks, a full buffer of \<open>2^63\<close> bytes asks for \<open>0\<close> bytes and writes outside the result.\<close>

lemma append_wraps:
  assumes "bytes_of b = Some block" "used b = 2 ^ 63" "capacity b = 2 ^ 63" "ok 0"
  shows "buffer_append ok (Some b) x = Inl OutOfBounds"
  using assms by (simp add: buffer_append_def Let_def put_byte_def wr_def realloc_def)

end
