(* ===== verification/Spec2Isabelle.thy ===== *)
theory Spec2Isabelle
  imports Btest PyNumber Mm_Correct Tsh_Correct Kernels Perf_Driver Mdriver_Main Proxy Tiny Dns Csi_Shell Sbuf Matrix_Mult Vec Bump Matching Pipeline Scopes Byte_Buffer
begin

text \<open>
  A verification library for the C programs of the repository: the labs of the
  systems course (\<open>src/labs\<close>), a C implementation of Python's integers
  (\<open>src/cpython_int\<close>), and exercises with an algorithmic core (\<open>src/exercises\<close>,
  \<open>src/csi\<close>). The programs are independent of each other except where noted below.

  \<^bold>\<open>Conventions.\<close> A C function is a HOL function of the state it reads and
  writes. A struct is a record, an enum a datatype. A run that faults is a value
  \<open>Inl e\<close> of the type \<open>'a exec\<close> of \<open>Prelude\<close>: an access out of bounds, a failed
  assertion, a call of \<open>exit\<close>, signed overflow, a read of uninitialised memory, or a
  loop or a wait that does not end. Unsigned and bit-level integers are \<open>word\<close>s;
  C's \<open>int\<close> counters are \<open>int\<close> with the overflow tested (\<open>Loops\<close>); \<open>size_t\<close> values
  that stay below an array size are \<open>nat\<close>. System calls, the network, the file
  system, random numbers and the C library's allocator are parameters.

  \<^bold>\<open>Theories.\<close>
  \<^item> \<open>Prelude\<close>, \<open>Loops\<close>, \<open>Stdio\<close>: words and C operators, executions that may fault, counting
    loops and arrays indexed by \<open>int\<close>, the conversions of \<open>scanf\<close> and \<open>printf\<close>.
  \<^item> \<open>Bits_Lab\<close>, \<open>Float_Ref\<close>, \<open>Btest\<close> (\<open>01_datalab/bits.c\<close>, \<open>tests.c\<close>, \<open>btest.c\<close>, \<open>decl.c\<close>): the
    puzzles on 32-bit words agree with the reference functions for every argument; \<open>howManyBits\<close>
    is the least width; the floating-point puzzles on bit patterns, and against the
    reference functions on every machine with IEEE multiplication; the test harness with
    the values it generates, its score and its command line.
  \<^item> \<open>PyLong\<close>, \<open>PyLong_Digits\<close>, \<open>PyLong_Ops\<close>, \<open>PyLong_Correct\<close> (\<open>cpython_int.c\<close>): objects of
    30-bit digits with reference counts; the digit loops against base \<open>2^30\<close>
    arithmetic; every operation and number slot against the integers, failing
    allocations included. \<open>number_op\<close> is the contract the operations share. \<open>PyNumber\<close>:
    floats and the dispatch through tables of number methods, with the contract of a
    slot as the locale \<open>number_slot\<close>.
  \<^item> \<open>Memlib\<close>, \<open>Mm\<close> (\<open>06_malloclab/memlib.c\<close>, \<open>mm.c\<close>): the simulated heap and the
    allocator in all its builds (implicit, explicit and segregated free lists, first
    and best fit, with and without the heap checker). \<open>Mm_Heap\<close>, \<open>Mm_Frame\<close>: heaps as
    lists of blocks. \<open>Mm_Spec\<close>: the interface of a free list as the locale
    \<open>free_list\<close>, against which \<open>Mm_Ops\<close>, \<open>Mm_Coal\<close>, \<open>Mm_Free\<close>, \<open>Mm_Malloc\<close>, \<open>Mm_Realloc\<close> prove the
    operations once. \<open>Mm_Scan\<close>, \<open>Mm_Links\<close>, \<open>Mm_Lists\<close>, \<open>Mm_Segregated\<close> interpret it on the
    three organisations. \<open>Mm_Client\<close>, \<open>Mm_Correct\<close>: sequences of calls, and the
    properties for every build; an allocation grows the heap by at most the adjusted
    request, a reallocation by at most twice that.
  \<^item> \<open>Mdriver\<close>, \<open>Mdriver_Util\<close>, \<open>Trace_File\<close>, \<open>Mdriver_Main\<close> (\<open>mdriver.c\<close>): the driver's correctness,
    utilisation and timed passes over a trace, run on the model of the allocator; the
    reader of trace files; and \<open>main\<close> with its options, team check and libc runs. A run
    over well-formed traces fails only at a request that the region has no room for.
  \<^item> \<open>Tsh\<close>, \<open>Tsh_Jobs\<close>, \<open>Tsh_Correct\<close> (\<open>07_shlab/tsh.c\<close>): the job table as a finite map
    (locale \<open>job_table\<close>), the command parser, built-in commands and signal handlers as
    a state machine over sequences of deliveries.
  \<^item> \<open>Transpose\<close> (\<open>05_cachelab/trans.c\<close>) and \<open>Kernels\<close>, \<open>Perf_Driver\<close>
    (\<open>perflab/kernels.c\<close>, \<open>driver.c\<close>): blocked and unrolled loops against the mathematical
    functions, and the driver's checks of the kernels.
  \<^item> \<open>Rio\<close> (\<open>csapp.c\<close>), \<open>Proxy_Cache\<close>, \<open>Proxy_Lock\<close>, \<open>Proxy\<close> (\<open>08_proxylab/proxy.c\<close>): robust
    input and output over scripts of partial and interrupted system calls, the object
    cache (locale \<open>object_store\<close>), the readers-writer lock under every interleaving,
    and the handling of a request. \<open>Tiny\<close> (\<open>tiny/tiny.c\<close>): the web server.
  \<^item> \<open>Csi_Shell\<close> (\<open>08-exceptional-control-flow/reference-solution/shell.c\<close>): a small shell with
    lists of commands, what its programs receive through an argument vector that is not
    terminated, the second shell that a failed \<open>execvp\<close> leaves, and how it ends. \<open>Vec\<close> (\<open>vec.c\<close>, \<open>dotproduct.c\<close>): vectors and two dot
    products. \<open>Matrix_Mult\<close> (\<open>matrix/matrix-multiply.c\<close>): the threaded matrix product; the locale
    \<open>keyed_steps\<close> treats threads whose steps commute.
  \<^item> \<open>Sbuf\<close> (\<open>sbuf.c\<close>): the bounded buffer under every interleaving, the states in which its
    threads all wait, and the buffer as a queue (locale \<open>fifo_buffer\<close>). \<open>Dns\<close> (\<open>dns_client.c\<close>): names and messages. \<open>Bump\<close>
    (\<open>11_bump_allocator.c\<close>), \<open>Matching\<close> (exercises 01, 02, 04, 05, 17), \<open>Pipeline\<close>
    (\<open>19_pipelining_hazards.c\<close>): the cycle engine against the instruction set, \<open>Scopes\<close>
    (\<open>13_valgrind_fundamentals.c\<close>): symbol tables on an explicit heap, \<open>Byte_Buffer\<close>
    (\<open>09_dynamic_memory_lifecycle.c\<close>).
  \<^item> This theory: the proxy in front of Tiny.

  \<^bold>\<open>How the parts interact.\<close> \<open>Mm\<close> runs on \<open>Memlib\<close>; \<open>Mdriver\<close> runs \<open>Mm\<close>, on what \<open>Trace_File\<close> reads; \<open>Btest\<close>
  runs \<open>Bits_Lab\<close> against its references; \<open>PyNumber\<close> calls \<open>PyLong\<close>; \<open>Perf_Driver\<close> runs \<open>Kernels\<close>;
  \<open>Proxy\<close> and \<open>Tiny\<close> run on \<open>Rio\<close>, and \<open>Proxy\<close> on its cache and lock; \<open>Sbuf\<close> uses the
  semaphores of \<open>Proxy_Lock\<close>. The theorem at the end of this theory connects \<open>Proxy\<close> and \<open>Tiny\<close>.

  \<^bold>\<open>Bounds and fuel.\<close> The loops over the heap and its lists (heap checker, searches) have
  the heap size as fuel, and the properties show that they return: every block and
  every list node takes at least 8 bytes. The heap is below \<open>2^31\<close> bytes, as \<open>MAX_HEAP\<close> is
  20 MB. \<open>fsecs\<close> times a pass ten times. The arrays of the trace reader come from a 32-bit
  \<open>malloc\<close>, so the products that size them wrap. The alignment loop of \<open>Perf_Driver\<close> has fuel 32, the period of its addresses. Loops
  over input (\<open>parseline\<close>, \<open>ParseArgs\<close>, the trace reader, the loops of \<open>Rio\<close>, \<open>read_requesthdrs\<close>, \<open>tunnel\<close>, and the
  main loop of \<open>Csi_Shell\<close>) and counting loops terminate by a measure. The loops that can run for ever, the header loop of \<open>Tiny\<close>,
  the name loop of \<open>Dns\<close> and the pointer walks of \<open>Scopes\<close>, are partial functions whose result \<open>None\<close> is a run without end.
  Image and matrix indices are products of dimensions whose square is at most \<open>INT_MAX\<close>.

  \<^bold>\<open>Not modelled.\<close> Printed tables and the accept loops of the \<open>main\<close> functions; timers and
  cycle counters (inline assembly and system calls); time-outs of the data lab's
  harness (its puzzles have no loop); the cache simulator (\<open>csim.c\<close>, whose access function is
  still to be written) and the autograder around it; bomb and attack labs (binaries,
  generated gadget code); the malloc clone stages (stubs with the work to be done); copies
  of \<open>csapp.c\<close>; the tiled matrix product of the caching exercise (its reordered sums of doubles
  differ in rounding); vendored test frameworks; exercises that only demonstrate system
  calls, macros or memory errors; the programs in Go and Python.
\<close>

section \<open>The proxy in front of Tiny\<close>

text \<open>
  The proxy lab runs the proxy against Tiny. The server's side of a connection is
  then one run of \<open>tiny_doit\<close> on the bytes the proxy sends, and what the
  proxy reads is what that run writes.
\<close>

definition tiny_server :: "filesystem \<Rightarrow> cgi \<Rightarrow> string \<Rightarrow> rd_event list" where
  "tiny_server fs run req = (case tiny_doit fs run [Data req] \<lparr>c_wr = [], c_out = []\<rparr> of
     Inl e \<Rightarrow> []
   | Inr c \<Rightarrow> if c_out c = [] then [] else [Data (c_out c)])"

definition proxy_lines :: "string \<Rightarrow> header list \<Rightarrow> string list" where
  "proxy_lines host hs =
     [''Host: '' @ host, ''User-Agent: Mozilla/5.0 (X11; Linux x86_64; rv:10.0.3) Gecko/20120305 Firefox/10.0.3'',
      ''Connection: close'', ''Proxy-Connection: close''] @ map (\<lambda>(k, v, t). k @ '' '' @ v @ t) (filter forwarded hs)"

lemma extra_of_lines: "extra_of hs = concat (map (\<lambda>l. l @ crlf) (map (\<lambda>(k, v, t). k @ '' '' @ v @ t) (filter forwarded hs)))"
  unfolding extra_of_def by (induction hs) (auto split: prod.splits)

text \<open>What the proxy sends is a request that Tiny understands.\<close>

lemma request_text_lines:
  "request_text host path (extra_of hs) = request_bytes ''GET'' path ''HTTP/1.0'' (proxy_lines host hs)"
  by (simp add: request_text_def request_bytes_def proxy_lines_def user_agent_hdr_def extra_of_lines)

lemma proxy_lines_plain:
  assumes "newline \<notin> set host" "\<forall>h\<in>set hs. header_ok h" "length (request_text host path (extra_of hs)) < MAXLINE"
  shows "list_all plain_line (proxy_lines host hs)"
proof -
  have "newline \<notin> set l" if "l \<in> set (proxy_lines host hs)" for l
    using that assms(1,2) tokenD by (fastforce simp: proxy_lines_def)
  moreover have "length l + 2 < MAXLINE" if l: "l \<in> set (proxy_lines host hs)" for l
  proof -
    obtain xs ys where "proxy_lines host hs = xs @ l # ys" using split_list [OF l] by blast
    then show ?thesis using assms(3) by (simp add: request_text_lines request_bytes_def)
  qed
  ultimately show ?thesis by (simp add: list_all_iff plain_line_def)
qed

lemma token_sub: "token uri \<Longrightarrow> set s \<subseteq> set uri \<Longrightarrow> s \<noteq> [] \<Longrightarrow> token s"
  by (auto simp: token_def)

lemma parse_uri_parts:
  assumes "parse_uri uri = Some (host, path)" "token uri"
  shows "token path" "newline \<notin> set host"
proof -
  have p: "host = takeWhile (\<lambda>c. c \<noteq> CHR ''/'') (drop 7 uri)" "path = dropWhile (\<lambda>c. c \<noteq> CHR ''/'') (drop 7 uri)"
    "CHR ''/'' \<in> set (drop 7 uri)" using assms(1) by (auto simp: parse_uri_def Let_def split: if_splits)
  have "path \<noteq> []" using p(3) unfolding p(2) by (simp add: dropWhile_eq_Nil_conv)
  moreover have "set path \<subseteq> set uri" unfolding p(2) by (meson set_dropWhileD in_set_dropD subsetI)
  ultimately show "token path" using token_sub [OF assms(2)] by blast
  show "newline \<notin> set host" using tokenD [OF assms(2), of "[]"] unfolding p(1) by (meson set_takeWhileD in_set_dropD)
qed

lemma host_of_plain: "newline \<notin> set h0 \<Longrightarrow> \<forall>h\<in>set hs. header_ok h \<Longrightarrow> newline \<notin> set (host_of h0 hs)"
proof (induction hs arbitrary: h0)
  case (Cons h hs)
  obtain k v t where "h = (k, v, t)" by (cases h)
  then show ?case using Cons.IH [of h0] Cons.IH [of v] Cons.prems tokenD [of v "[]"] by (auto simp: host_of_def)
qed (simp add: host_of_def)

lemma tiny_server_page:
  assumes "newline \<notin> set host" "\<forall>h\<in>set hs. header_ok h" "token path"
    and "length (request_text host path (extra_of hs)) < MAXLINE" "response fs run path = Inr page" "page \<noteq> []"
    and "\<And>name f. fs name = Some f \<Longrightarrow> int (length (data f)) \<le> INT_MAX"
  shows "tiny_server fs run (request_text host path (extra_of hs)) = [Data page]"
proof -
  let ?req = "request_text host path (extra_of hs)" and ?hdrs = "proxy_lines host hs"
  have plain: "list_all plain_line ?hdrs" by (rule proxy_lines_plain [OF assms(1,2,4)])
  have tok: "token ''GET''" "token ''HTTP/1.0''" and get: "map to_lower ''GET'' = ''get''" by code_simp+
  have len: "length ''GET'' + length path + length ''HTTP/1.0'' + 100 < MAXLINE"
    using assms(4) by (simp add: request_text_def user_agent_hdr_def)
  have ev: "clean [Data ?req]" "stream [Data ?req] = request_bytes ''GET'' path ''HTTP/1.0'' ?hdrs @ []"
    by (simp_all add: request_text_lines) (simp_all add: request_bytes_def)
  have "answers \<lparr>c_wr = [], c_out = []\<rparr> (Inr page) (tiny_doit fs run [Data ?req] \<lparr>c_wr = [], c_out = []\<rparr>)"
    using tiny_doit_answers [OF tok(1) assms(3) tok(2) plain len ev, of "\<lparr>c_wr = [], c_out = []\<rparr>" fs run] assms(5,7)
    unfolding get by simp
  then show ?thesis using assms(6) by (auto simp: answers_def tiny_server_def)
qed

lemma response_not_empty: "response fs run path = Inr page \<Longrightarrow> page \<noteq> []"
  by (auto simp: response_def error_page_def ok_head_def split: prod.splits option.splits if_splits)

text \<open>
  C20. A client that asks the proxy for a page of a Tiny server, in a request with at least
  one header that the proxy passes on and that misses the cache, receives the page Tiny gives
  for its path, error pages included, and a page of at most 102400 bytes is in the cache
  afterwards. Without such a header the proxy formats an uninitialised buffer into its request
  (\<open>proxy_reads_uninitialised_headers\<close>). The request fits the buffer of the proxy, no
  write fails and files are at most \<open>INT_MAX\<close> bytes long.
\<close>

theorem proxy_serves_tiny_pages:
  assumes "request_ok rq" "clean fd" "stream fd = client_text rq @ rest"
    "parse_uri (rq_uri rq) = Some (h0, path)" "w_lock s = rwlock_init"
    and "cache_ok (w_cache s)" "store (w_cache s) (rq_uri rq) = None"
    and "parse_host (host_of h0 (rq_headers rq)) = (hostname, port)" "net hostname port = Some (rws, tiny_server fs run)"
    "filter forwarded (rq_headers rq) \<noteq> []"
    and "length (request_text (host_of h0 (rq_headers rq)) path (extra_of (rq_headers rq))) < MAXLINE"
    and "WErr \<notin> set ws" "WErr \<notin> set rws"
    and "response fs run path = Inr page" "\<And>name f. fs name = Some f \<Longrightarrow> int (length (data f)) \<le> INT_MAX"
  shows "\<exists>s'. doit net now now' fd ws s = Inr s' \<and> w_out s' = w_out s @ page \<and> w_open s' = w_open s \<and>
    (length page \<le> MAX_OBJECT_SIZE \<longrightarrow> store (w_cache s') (rq_uri rq) = Some page)"
proof -
  let ?req = "request_text (host_of h0 (rq_headers rq)) path (extra_of (rq_headers rq))"
  have rq: "token (rq_uri rq)" "\<forall>h\<in>set (rq_headers rq). header_ok h" using assms(1) by (simp_all add: request_ok_def)
  note parts = parse_uri_parts [OF assms(4) rq(1)]
  have page: "tiny_server fs run ?req = [Data page]"
    using tiny_server_page [OF host_of_plain [OF parts(2) rq(2)] rq(2) parts(1) assms(11,14) response_not_empty [OF assms(14)]]
      assms(15) by blast
  then have io: "clean (tiny_server fs run ?req)" "stream (tiny_server fs run ?req) = page"
    using response_not_empty [OF assms(14)] by simp_all
  show ?thesis
    using doit_miss [where net = net and respond = "tiny_server fs run", OF assms(1-10) refl assms(11-13) io(1), of now now'] io(2) by auto
qed

theorem proxy_serves_tiny_pages_witness:
  "\<exists>s'. doit (\<lambda>h p. Some ([], tiny_server sample_fs (\<lambda>_ _. None))) 1 2 [Data (client_text (sample_request ''a''))] [] sample_world = Inr s' \<and>
     w_out s' = error_page ''./x'' ''404'' ''Not found'' ''Tiny couldn't find this file''"
proof -
  let ?rq = "sample_request ''a''"
  have u: "parse_uri (rq_uri ?rq) = Some (''a'', ''/x'')" by (simp add: sample_request_def) code_simp
  have h: "host_of ''a'' (rq_headers ?rq) = ''a''" "extra_of (rq_headers ?rq) = ''Accept: text'' @ crlf"
    "filter forwarded (rq_headers ?rq) \<noteq> []" "parse_host ''a'' = (''a'', ''80'')" "client_text ?rq \<noteq> []"
    by (simp_all add: sample_request_def host_of_def extra_of_def forwarded_def parse_host_def client_text_def request_line_def)
  have len: "length (request_text ''a'' ''/x'' (''Accept: text'' @ crlf)) < MAXLINE" by code_simp
  have c: "store (w_cache sample_world) (rq_uri ?rq) = None" by (simp add: sample_world_ok)
  have r: "response sample_fs (\<lambda>_ _. None) ''/x'' = Inr (error_page ''./x'' ''404'' ''Not found'' ''Tiny couldn't find this file'')"
    by (simp add: response_def resource_def sample_fs_def strstr_sublist [symmetric])
  show ?thesis
    using proxy_serves_tiny_pages [where rq = ?rq and ?h0.0 = "''a''" and hostname = "''a''" and port = "''80''" and rws = "[]" and ws = "[]"
      and fd = "[Data (client_text ?rq)]" and rest = "[]" and now = 1 and now' = 2 and net = "\<lambda>h p. Some ([], tiny_server sample_fs (\<lambda>_ _. None))",
      OF sample_request_ok(1) _ _ u sample_world_ok(3,1) c _ refl _ _ _ _ r] sample_fs_small h len sample_world_ok(4) by auto
qed

end
